(* ===== verification/Prelude.thy ===== *)
theory Prelude
  imports Main "HOL-Library.Word" "HOL-Library.Multiset" "HOL-Library.Char_ord"
    "HOL-Library.List_Lexorder"
begin

text \<open>
  What every component shares: the machine integer types, the faults a C routine can end in,
  the result type with its bind, and the generic lemmas on lists, strings and words.
  A routine of the code that can assert, dereference a null pointer, read outside an array,
  touch freed memory, loop forever or raise a Lua error returns a \<open>res\<close>: \<open>Inl\<close> of
  the fault, or \<open>Inr\<close> of its value together with the state it leaves.
\<close>

unbundle bit_operations_syntax

type_synonym byte = "8 word"
type_synonym u8 = "8 word"
type_synonym u16 = "16 word"
type_synonym u32 = "32 word"
type_synonym u64 = "64 word"
type_synonym i32 = "32 word"
type_synonym ptr = nat

datatype fault =
    AssertFailed
  | NullDeref
  | UseAfterFree
  | UninitRead
  | OutOfBounds
  | Diverges
  | IntOverflow
  | ProcessExit
  | DivZero
  | LuaStackOverflow
  | LuaError string

type_synonym 'a res = "fault + 'a"

named_theorems res_simps
named_theorems word_facts

definition bind_res :: "'a res \<Rightarrow> ('a \<Rightarrow> 'b res) \<Rightarrow> 'b res" where
  "bind_res m f = (case m of Inl e \<Rightarrow> Inl e | Inr x \<Rightarrow> f x)"

definition assert_res :: "bool \<Rightarrow> fault \<Rightarrow> unit res" where
  "assert_res b e = (if b then Inr () else Inl e)"

definition option_res :: "fault \<Rightarrow> 'a option \<Rightarrow> 'a res" where
  "option_res e m = (case m of None \<Rightarrow> Inl e | Some x \<Rightarrow> Inr x)"

section \<open>The result type\<close>

lemma bind_res_Inl [simp]: "bind_res (Inl e) f = Inl e"
  by (simp add: bind_res_def)

lemma bind_res_Inr [simp]: "bind_res (Inr x) f = f x"
  by (simp add: bind_res_def)

lemma bind_res_eq_Inr: "bind_res m f = Inr y \<longleftrightarrow> (\<exists>x. m = Inr x \<and> f x = Inr y)"
  by (cases m) auto

lemma bind_res_eq_Inl: "bind_res m f = Inl e \<longleftrightarrow> m = Inl e \<or> (\<exists>x. m = Inr x \<and> f x = Inl e)"
  by (cases m) auto

lemma bind_res_assoc [simp]: "bind_res (bind_res m f) g = bind_res m (\<lambda>x. bind_res (f x) g)"
  by (cases m) auto

lemma bind_res_cong [fundef_cong]:
  "m = m' \<Longrightarrow> (\<And>x. m' = Inr x \<Longrightarrow> f x = f' x) \<Longrightarrow> bind_res m f = bind_res m' f'"
  by (cases m') auto

lemma assert_res_True [simp]: "assert_res True e = Inr ()"
  by (simp add: assert_res_def)

lemma assert_res_False [simp]: "assert_res False e = Inl e"
  by (simp add: assert_res_def)

lemma assert_res_eq_Inr [simp]: "assert_res b e = Inr u \<longleftrightarrow> b"
  by (simp add: assert_res_def)

lemma option_res_None [simp]: "option_res e None = Inl e"
  by (simp add: option_res_def)

lemma option_res_Some [simp]: "option_res e (Some x) = Inr x"
  by (simp add: option_res_def)

lemma option_res_eq_Inr [simp]: "option_res e m = Inr x \<longleftrightarrow> m = Some x"
  by (cases m) auto

lemmas res_elims = bind_res_eq_Inr bind_res_eq_Inl

section \<open>Lists read around a ring\<close>

definition ring :: "'a list \<Rightarrow> nat \<Rightarrow> nat \<Rightarrow> 'a list" where
  "ring xs h n = map (\<lambda>i. xs ! ((h + i) mod length xs)) [0..<n]"

lemma length_ring [simp]: "length (ring xs h n) = n"
  by (simp add: ring_def)

lemma nth_ring [simp]: "i < n \<Longrightarrow> ring xs h n ! i = xs ! ((h + i) mod length xs)"
  by (simp add: ring_def)

lemma ring_0 [simp]: "ring xs h 0 = []"
  by (simp add: ring_def)

lemma ring_Suc: "ring xs h (Suc n) = ring xs h n @ [xs ! ((h + n) mod length xs)]"
  by (simp add: ring_def)

lemma ring_Cons: "ring xs h (Suc n) = xs ! (h mod length xs) # ring xs (Suc h) n"
  by (rule nth_equalityI) (auto simp: nth_Cons split: nat.splits)

lemma ring_mod: "ring xs (h mod length xs) n = ring xs h n"
  by (rule nth_equalityI) (auto simp: mod_simps)

lemma ring_update_outside:
  assumes "\<And>i. i < n \<Longrightarrow> (h + i) mod length xs \<noteq> k"
  shows "ring (xs[k := v]) h n = ring xs h n"
proof (rule nth_equalityI)
  fix i assume "i < length (ring (xs[k := v]) h n)"
  then have "i < n" by simp
  with assms have "(h + i) mod length xs \<noteq> k" by blast
  then have "xs[k := v] ! ((h + i) mod length xs) = xs ! ((h + i) mod length xs)"
    by (metis nth_list_update_neq)
  with \<open>i < n\<close> show "ring (xs[k := v]) h n ! i = ring xs h n ! i" by simp
qed simp

lemma ring_prefix: "n \<le> length xs \<Longrightarrow> ring xs 0 n = take n xs"
  by (rule nth_equalityI) auto

lemma mod_ring_inj:
  fixes h i j n :: nat
  assumes "i < n" and "j < n" and "(h + i) mod n = (h + j) mod n"
  shows "i = j"
proof -
  obtain a b where "h + i + n * a = h + j + n * b"
    using assms(3) nat_mod_eq_iff [of "h + i" n "h + j"] by blast
  then have "i + n * a = j + n * b" by simp
  then have "i mod n = j mod n" by (metis mod_mult_self2)
  with assms(1,2) show ?thesis by simp
qed

lemma ring_push:
  assumes "h < length ys" "n < length ys"
  shows "ring (ys[(h + n) mod length ys := v]) h (Suc n) = ring ys h n @ [v]"
proof -
  have "(h + i) mod length ys \<noteq> (h + n) mod length ys" if "i < n" for i
    using mod_ring_inj [of i "length ys" n h] that assms(2) by auto
  then have "ring (ys[(h + n) mod length ys := v]) h n = ring ys h n"
    by (rule ring_update_outside)
  moreover have "(h + n) mod length ys < length ys" using assms by (cases ys) auto
  ultimately show ?thesis by (simp add: ring_Suc)
qed

section \<open>Words\<close>

lemma unat_take_bit: "unat (take_bit k (w :: 'a::len word)) = unat w mod 2 ^ k"
proof -
  have "unat (take_bit k w) = take_bit k (unat w)" by (rule unsigned_take_bit_eq)
  then show ?thesis by (simp only: take_bit_eq_mod)
qed

lemma unat_drop_bit: "unat (drop_bit k (w :: 'a::len word)) = unat w div 2 ^ k"
proof -
  have "unat (drop_bit k w) = drop_bit k (unat w)" by (rule unat_drop_bit_eq)
  then show ?thesis by (simp only: drop_bit_eq_div)
qed

lemma sint_of_small:
  assumes "unat (x :: 'a::len word) < 2 ^ (LENGTH('a) - 1)"
  shows "sint x = uint x"
proof -
  have "int (unat x) < int (2 ^ (LENGTH('a) - 1))" using assms by (simp only: of_nat_less_iff)
  then have "uint x < 2 ^ (LENGTH('a) - 1)" by simp
  moreover have "- (2 ^ (LENGTH('a) - 1)) \<le> uint x"
    by (rule order_trans [OF _ uint_ge_0]) simp
  ultimately show ?thesis unfolding sint_uint by (simp add: signed_take_bit_int_eq_self)
qed

lemma sint_succ:
  assumes "0 \<le> sint (s :: i32)"
  shows "sint (s + 1) = (if sint s = 2 ^ 31 - 1 then - (2 ^ 31) else sint s + 1)"
proof -
  have lt: "sint s < 2147483648" using sint_lt [of s] by simp
  have "sint (s + 1) = signed_take_bit 31 (sint s + 1)" by (simp add: sint_word_ariths)
  also have "\<dots> = (if sint s = 2147483647 then - 2147483648 else sint s + 1)"
  proof (cases "sint s = 2147483647")
    case False
    with lt assms have "sint s + 1 < 2 ^ 31" "- (2 ^ 31) \<le> sint s + 1" by simp_all
    then have "signed_take_bit 31 (sint s + 1) = sint s + 1" by (intro signed_take_bit_int_eq_self) simp_all
    with False show ?thesis by simp
  qed simp
  finally show ?thesis by simp
qed

end
