(* ===== verification/Fifo_Spec.thy ===== *)
theory Fifo_Spec
  imports Prelude
begin

text \<open>
  The contract that the queues of the program share: a representation relation between a
  queue and the list of its elements, oldest first, and two fallible operations. The ring
  buffer of a service's mailbox (\<open>skynet_mq.c\<close>), the linked list of runnable
  mailboxes (\<open>skynet_mq.c\<close>) and the Lua queue (\<open>lua-queue.c\<close>) each
  interpret \<open>fifo\<close>; what follows for whole runs of operations is proved once, here.
\<close>

datatype 'a qop = Push 'a | Pop

text \<open>A run of operations on an implementation: the queue it leaves and what the pops returned.\<close>

fun q_run :: "('a \<Rightarrow> 'q \<Rightarrow> 'q res) \<Rightarrow> ('q \<Rightarrow> ('q \<times> 'a option) res) \<Rightarrow> 'a qop list \<Rightarrow> 'q
    \<Rightarrow> ('q \<times> 'a option list) res" where
  "q_run push pop [] q = Inr (q, [])"
| "q_run push pop (Push x # os) q = bind_res (push x q) (q_run push pop os)"
| "q_run push pop (Pop # os) q =
     bind_res (pop q) (\<lambda>(q', r). bind_res (q_run push pop os q') (\<lambda>(q'', rs). Inr (q'', r # rs)))"

text \<open>The same run on a list.\<close>

fun l_run :: "'a qop list \<Rightarrow> 'a list \<Rightarrow> 'a list \<times> 'a option list" where
  "l_run [] xs = (xs, [])"
| "l_run (Push x # os) xs = l_run os (xs @ [x])"
| "l_run (Pop # os) [] = (let (ys, rs) = l_run os [] in (ys, None # rs))"
| "l_run (Pop # os) (x # xs) = (let (ys, rs) = l_run os xs in (ys, Some x # rs))"

fun pushes :: "'a qop list \<Rightarrow> 'a list" where
  "pushes [] = []"
| "pushes (Push x # os) = x # pushes os"
| "pushes (Pop # os) = pushes os"

definition popped :: "'a option list \<Rightarrow> 'a list" where
  "popped rs = List.map_filter id rs"

lemma popped_simps [simp]:
  "popped [] = []" "popped (None # rs) = popped rs" "popped (Some x # rs) = x # popped rs"
  by (simp_all add: popped_def map_filter_simps)

text \<open>Nothing is lost, invented or reordered: what goes in comes out in order.\<close>

lemma l_run_conserves:
  "l_run os xs = (ys, rs) \<Longrightarrow> xs @ pushes os = popped rs @ ys"
proof (induction os xs arbitrary: ys rs rule: l_run.induct)
  case (2 x os xs)
  then show ?case by fastforce
qed (auto split: prod.splits)

locale fifo =
  fixes rep :: "'q \<Rightarrow> 'a list \<Rightarrow> bool"
    and adm :: "'a \<Rightarrow> 'q \<Rightarrow> bool"
    and push :: "'a \<Rightarrow> 'q \<Rightarrow> 'q res"
    and pop :: "'q \<Rightarrow> ('q \<times> 'a option) res"
  assumes push_rep: "rep q xs \<Longrightarrow> adm x q \<Longrightarrow> \<exists>q'. push x q = Inr q' \<and> rep q' (xs @ [x])"
    and pop_nil: "rep q [] \<Longrightarrow> \<exists>q'. pop q = Inr (q', None) \<and> rep q' []"
    and pop_cons: "rep q (x # xs) \<Longrightarrow> \<exists>q'. pop q = Inr (q', Some x) \<and> rep q' xs"
begin

lemma push_safe: "rep q xs \<Longrightarrow> adm x q \<Longrightarrow> \<exists>q'. push x q = Inr q'"
  using push_rep by blast

lemma pop_safe: "rep q xs \<Longrightarrow> \<exists>q' r. pop q = Inr (q', r)"
  using pop_nil pop_cons by (cases xs) blast+

lemma pop_result:
  assumes "rep q xs" and "pop q = Inr (q', r)"
  shows "r = (case xs of [] \<Rightarrow> None | x # _ \<Rightarrow> Some x) \<and> rep q' (tl xs)"
  using assms pop_nil [of q] pop_cons [of q] by (cases xs) fastforce+

lemma push_result:
  assumes "rep q xs" and "adm x q" and "push x q = Inr q'"
  shows "rep q' (xs @ [x])"
  using push_rep [OF assms(1,2)] assms(3) by auto

end

text \<open>A queue that takes every element in every state: whole runs refine the list.\<close>

locale total_fifo = fifo +
  assumes adm_all: "rep q xs \<Longrightarrow> adm x q"
begin

lemma run_refines:
  "rep q xs \<Longrightarrow> \<exists>q'. q_run push pop os q = Inr (q', snd (l_run os xs)) \<and> rep q' (fst (l_run os xs))"
proof (induction os xs arbitrary: q rule: l_run.induct)
  case (1 xs)
  then show ?case by simp
next
  case (2 x os xs)
  then obtain q1 where "push x q = Inr q1" and "rep q1 (xs @ [x])"
    using push_rep adm_all by blast
  with "2.IH" show ?case by auto
next
  case (3 os)
  then obtain q1 where "pop q = Inr (q1, None)" and "rep q1 []" using pop_nil by blast
  with "3.IH" [of q1] show ?case by (auto simp: split_def Let_def)
next
  case (4 os x xs)
  then obtain q1 where "pop q = Inr (q1, Some x)" and "rep q1 xs" using pop_cons by blast
  with "4.IH" [of q1] show ?case by (auto simp: split_def Let_def)
qed

lemma run_conserves:
  assumes "rep q xs"
  shows "\<exists>q' rs ys. q_run push pop os q = Inr (q', rs) \<and> rep q' ys \<and> xs @ pushes os = popped rs @ ys"
  using run_refines [OF assms, of os] l_run_conserves [of os xs] by (metis prod.collapse)

end

end
