(* ===== verification/MessageQueue.thy ===== *)
theory MessageQueue
  imports Fifo_Spec
begin

text \<open>
  The mailbox of a service: the ring buffer of \<open>skynet/skynet-src/skynet_mq.c\<close>.
  A \<open>message_queue\<close> is the C struct; \<open>mq_queue\<close> is the malloc'ed array, one
  \<open>None\<close> per slot that was never written, so that a read of an unwritten slot or past
  the array is a fault and not a value. The intrusive \<open>next\<close> link and the global queue
  are used in \<open>GlobalQueue\<close>.
\<close>

definition DEFAULT_QUEUE_SIZE :: nat where "DEFAULT_QUEUE_SIZE = 64"
definition MQ_OVERLOAD :: int where "MQ_OVERLOAD = 1024"

record skynet_message =
  msg_source :: u32
  msg_session :: i32
  msg_data :: "ptr option"
  msg_sz :: u64

record message_queue =
  mq_handle :: u32
  mq_cap :: nat
  mq_head :: nat
  mq_tail :: nat
  mq_release :: bool
  mq_in_global :: bool
  mq_overload :: int
  mq_overload_threshold :: int
  mq_queue :: "skynet_message option list"
  mq_next :: "ptr option"

definition mq_new :: "u32 \<Rightarrow> message_queue" where
  "mq_new handle = \<lparr>
     mq_handle = handle, mq_cap = DEFAULT_QUEUE_SIZE, mq_head = 0, mq_tail = 0,
     mq_release = False, mq_in_global = True,
     mq_overload = 0, mq_overload_threshold = MQ_OVERLOAD,
     mq_queue = replicate DEFAULT_QUEUE_SIZE None, mq_next = None\<rparr>"

definition skynet_mq_length :: "message_queue \<Rightarrow> nat" where
  "skynet_mq_length q =
     (if mq_head q \<le> mq_tail q then mq_tail q - mq_head q
      else mq_tail q + mq_cap q - mq_head q)"

definition skynet_mq_overload :: "message_queue \<Rightarrow> message_queue \<times> int" where
  "skynet_mq_overload q =
     (if mq_overload q \<noteq> 0 then (q\<lparr>mq_overload := 0\<rparr>, mq_overload q) else (q, 0))"

definition mq_read :: "message_queue \<Rightarrow> nat \<Rightarrow> skynet_message res" where
  "mq_read q i = (if i < length (mq_queue q) then option_res UninitRead (mq_queue q ! i)
                  else Inl OutOfBounds)"

text \<open>The loop that doubles the overload threshold; it does not end when the threshold is not positive.\<close>

partial_function (option) raise_threshold :: "int \<Rightarrow> int \<Rightarrow> int \<Rightarrow> (int \<times> int) option" where
  "raise_threshold len thr overload =
     (if len > thr then raise_threshold len (thr * 2) len else Some (thr, overload))"

definition skynet_mq_pop :: "message_queue \<Rightarrow> (message_queue \<times> skynet_message option) res" where
  "skynet_mq_pop q =
     (if mq_head q \<noteq> mq_tail q then
        bind_res (mq_read q (mq_head q)) (\<lambda>message.
          let head' = (if mq_head q + 1 \<ge> mq_cap q then 0 else mq_head q + 1);
              len = int (mq_tail q) - int head';
              len' = (if len < 0 then len + int (mq_cap q) else len)
          in case raise_threshold len' (mq_overload_threshold q) (mq_overload q) of
               None \<Rightarrow> Inl Diverges
             | Some (thr, ov) \<Rightarrow>
                 Inr (q\<lparr>mq_head := head', mq_overload_threshold := thr, mq_overload := ov\<rparr>, Some message))
      else Inr (q\<lparr>mq_overload_threshold := MQ_OVERLOAD, mq_in_global := False\<rparr>, None))"

definition expand_queue :: "message_queue \<Rightarrow> message_queue res" where
  "expand_queue q =
     (if length (mq_queue q) < mq_cap q then Inl OutOfBounds
      else Inr (q\<lparr>mq_queue := map (\<lambda>i. mq_queue q ! ((mq_head q + i) mod mq_cap q)) [0..<mq_cap q]
                               @ replicate (mq_cap q) None,
                  mq_head := 0, mq_tail := mq_cap q, mq_cap := mq_cap q * 2\<rparr>))"

text \<open>The part of \<open>skynet_mq_push\<close> that stores the message in the ring.\<close>

definition mq_ring_push :: "skynet_message \<Rightarrow> message_queue \<Rightarrow> message_queue res" where
  "mq_ring_push message q =
     (if mq_tail q < length (mq_queue q) then
        (let tail' = (if mq_tail q + 1 \<ge> mq_cap q then 0 else mq_tail q + 1);
             q' = q\<lparr>mq_queue := (mq_queue q)[mq_tail q := Some message], mq_tail := tail'\<rparr>
         in if mq_head q' = mq_tail q' then expand_queue q' else Inr q')
      else Inl OutOfBounds)"

section \<open>The representation invariant\<close>

definition mq_list :: "message_queue \<Rightarrow> skynet_message list" where
  "mq_list q = map the (ring (mq_queue q) (mq_head q) (skynet_mq_length q))"

definition mq_ok :: "message_queue \<Rightarrow> bool" where
  "mq_ok q \<longleftrightarrow>
     length (mq_queue q) = mq_cap q \<and> mq_head q < mq_cap q \<and> mq_tail q < mq_cap q \<and>
     0 < mq_overload_threshold q \<and>
     None \<notin> set (ring (mq_queue q) (mq_head q) (skynet_mq_length q))"

definition mq_rep :: "message_queue \<Rightarrow> skynet_message list \<Rightarrow> bool" where
  "mq_rep q ms \<longleftrightarrow> mq_ok q \<and> mq_list q = ms"

lemma mq_rep_alt:
  "mq_rep q ms \<longleftrightarrow>
     length (mq_queue q) = mq_cap q \<and> mq_head q < mq_cap q \<and> mq_tail q < mq_cap q \<and>
     0 < mq_overload_threshold q \<and>
     ring (mq_queue q) (mq_head q) (skynet_mq_length q) = map Some ms"
proof -
  have "None \<notin> set xs \<and> map the xs = ms \<longleftrightarrow> xs = map Some ms" for xs :: "skynet_message option list"
  proof
    assume "None \<notin> set xs \<and> map the xs = ms"
    then have "map Some ms = map (\<lambda>x. Some (the x)) xs" by (auto simp: comp_def)
    also have "\<dots> = xs"
      by (rule map_idI) (use \<open>None \<notin> set xs \<and> map the xs = ms\<close> in \<open>metis option.exhaust_sel\<close>)
    finally show "xs = map Some ms" by simp
  qed (auto simp: comp_def)
  then show ?thesis by (auto simp: mq_rep_def mq_ok_def mq_list_def)
qed

lemma mq_rep_length: "mq_rep q ms \<Longrightarrow> skynet_mq_length q = length ms"
  by (metis length_map length_ring mq_rep_alt)

lemma mq_length_less: "mq_rep q ms \<Longrightarrow> length ms < mq_cap q"
  using mq_rep_length [of q ms] by (auto simp: mq_rep_alt skynet_mq_length_def split: if_splits)

lemma mq_empty_iff: "mq_rep q ms \<Longrightarrow> ms = [] \<longleftrightarrow> mq_head q = mq_tail q"
  using mq_rep_length [of q ms] by (auto simp: mq_rep_alt skynet_mq_length_def split: if_splits)

lemma mq_tail_eq:
  assumes "mq_rep q ms"
  shows "mq_tail q = (mq_head q + length ms) mod mq_cap q"
proof -
  have len: "length ms = skynet_mq_length q" and t: "mq_tail q < mq_cap q" and h: "mq_head q < mq_cap q"
    using assms mq_rep_length [OF assms] by (auto simp: mq_rep_alt)
  show ?thesis
  proof (cases "mq_head q \<le> mq_tail q")
    case True
    with t show ?thesis by (simp add: len skynet_mq_length_def)
  next
    case False
    with h have "mq_head q + length ms = mq_tail q + mq_cap q"
      by (simp add: len skynet_mq_length_def)
    with t show ?thesis by simp
  qed
qed

section \<open>Popping\<close>

lemma raise_threshold_terminates:
  "0 < thr \<Longrightarrow> \<exists>thr' ov'. raise_threshold len thr ov = Some (thr', ov') \<and> 0 < thr' \<and> len \<le> thr'"
proof (induction "nat (len - thr)" arbitrary: thr ov rule: less_induct)
  case less
  show ?case
  proof (cases "len > thr")
    case True
    with less.prems have "nat (len - thr * 2) < nat (len - thr)" and "0 < thr * 2" by auto
    from less.hyps [OF this] True show ?thesis by (simp add: raise_threshold.simps)
  next
    case False
    with less.prems show ?thesis by (simp add: raise_threshold.simps)
  qed
qed

lemma mq_ring_next:
  assumes "h < cap" shows "(if h + 1 \<ge> cap then 0 else h + 1) = (h + 1) mod (cap::nat)"
  using assms by (cases "h + 1 = cap") auto

lemma mq_read_head:
  assumes "mq_rep q (m # ms)"
  shows "mq_read q (mq_head q) = Inr m"
proof -
  have "ring (mq_queue q) (mq_head q) (Suc (length ms)) = map Some (m # ms)"
    using assms mq_rep_length [OF assms] by (simp add: mq_rep_alt)
  then show ?thesis using assms by (auto simp: mq_read_def ring_Cons mq_rep_alt)
qed

lemma mq_rep_advance:
  assumes "mq_rep q (m # ms)" and "0 < thr"
  shows "mq_rep (q\<lparr>mq_head := (mq_head q + 1) mod mq_cap q, mq_overload_threshold := thr,
                   mq_overload := ov\<rparr>) ms" (is "mq_rep ?q _")
proof -
  have len: "skynet_mq_length q = Suc (length ms)"
    using mq_rep_length [OF assms(1)] by simp
  have caps: "length (mq_queue q) = mq_cap q" "mq_head q < mq_cap q" "mq_tail q < mq_cap q"
    and r: "ring (mq_queue q) (mq_head q) (Suc (length ms)) = map Some (m # ms)"
    using assms(1) len by (auto simp: mq_rep_alt)
  have "skynet_mq_length ?q = length ms"
    using len caps by (cases "mq_head q + 1 = mq_cap q") (auto simp: skynet_mq_length_def split: if_splits)
  moreover have "ring (mq_queue q) ((mq_head q + 1) mod mq_cap q) (length ms) = map Some ms"
    using r ring_mod [of "mq_queue q" "mq_head q + 1"] by (simp add: ring_Cons caps)
  ultimately show ?thesis using caps assms(2) by (simp add: mq_rep_alt)
qed

lemma mq_pop_cons:
  assumes "mq_rep q (m # ms)"
  shows "\<exists>thr ov. skynet_mq_pop q =
           Inr (q\<lparr>mq_head := (mq_head q + 1) mod mq_cap q, mq_overload_threshold := thr,
                  mq_overload := ov\<rparr>, Some m) \<and> 0 < thr"
proof -
  have ne: "mq_head q \<noteq> mq_tail q" using mq_empty_iff [OF assms] by simp
  have h: "mq_head q < mq_cap q" and thr: "0 < mq_overload_threshold q"
    using assms by (auto simp: mq_rep_alt)
  define h' where "h' = (mq_head q + 1) mod mq_cap q"
  define l where "l = (if int (mq_tail q) - int h' < 0 then int (mq_tail q) - int h' + int (mq_cap q)
                       else int (mq_tail q) - int h')"
  obtain thr' ov' where r: "raise_threshold l (mq_overload_threshold q) (mq_overload q) = Some (thr', ov')"
    and "0 < thr'"
    using raise_threshold_terminates [OF thr] by blast
  have "skynet_mq_pop q = Inr (q\<lparr>mq_head := h', mq_overload_threshold := thr', mq_overload := ov'\<rparr>, Some m)"
    by (simp only: skynet_mq_pop_def mq_ring_next [OF h] Let_def h'_def [symmetric] l_def [symmetric]
        mq_read_head [OF assms] ne r bind_res_Inr not_False_eq_True if_True option.case prod.case)
  with \<open>0 < thr'\<close> show ?thesis by (auto simp: h'_def)
qed

lemma mq_pop_nil:
  assumes "mq_rep q []"
  shows "skynet_mq_pop q = Inr (q\<lparr>mq_overload_threshold := MQ_OVERLOAD, mq_in_global := False\<rparr>, None)"
  using mq_empty_iff [OF assms] by (simp add: skynet_mq_pop_def)

lemma mq_rep_frame [simp]:
  "mq_rep (q\<lparr>mq_in_global := g\<rparr>) ms = mq_rep q ms"
  "mq_rep (q\<lparr>mq_release := r\<rparr>) ms = mq_rep q ms"
  "mq_rep (q\<lparr>mq_next := n\<rparr>) ms = mq_rep q ms"
  "mq_rep (q\<lparr>mq_overload := ov\<rparr>) ms = mq_rep q ms"
  by (simp_all add: mq_rep_alt skynet_mq_length_def)

lemma mq_pop_nil_rep:
  assumes "mq_rep q []"
  shows "mq_rep (q\<lparr>mq_overload_threshold := MQ_OVERLOAD, mq_in_global := False\<rparr>) []"
proof -
  let ?q = "q\<lparr>mq_overload_threshold := MQ_OVERLOAD, mq_in_global := False\<rparr>"
  have "skynet_mq_length ?q = skynet_mq_length q" by (simp add: skynet_mq_length_def)
  with assms show ?thesis by (simp add: mq_rep_alt MQ_OVERLOAD_def)
qed

section \<open>Pushing\<close>

lemma mq_ring_store:
  assumes "mq_rep q ms"
  shows "ring ((mq_queue q)[mq_tail q := Some m]) (mq_head q) (Suc (length ms)) = map Some (ms @ [m])"
proof -
  have caps: "length (mq_queue q) = mq_cap q" "mq_tail q < mq_cap q"
    and r: "ring (mq_queue q) (mq_head q) (length ms) = map Some ms"
    using assms mq_rep_length [OF assms] by (auto simp: mq_rep_alt)
  have "(mq_head q + i) mod mq_cap q \<noteq> mq_tail q" if "i < length ms" for i
    using that mq_tail_eq [OF assms] mq_length_less [OF assms] mod_ring_inj [of i "mq_cap q" "length ms" "mq_head q"]
    by auto
  then have "ring ((mq_queue q)[mq_tail q := Some m]) (mq_head q) (length ms) = map Some ms"
    using r caps by (simp add: ring_update_outside)
  then show ?thesis using caps mq_tail_eq [OF assms] by (simp add: ring_Suc)
qed

lemma expand_queue_ring:
  assumes "length (mq_queue q) = mq_cap q" and "0 < mq_cap q" and "0 < mq_overload_threshold q"
    and "ring (mq_queue q) (mq_head q) (mq_cap q) = map Some ms"
  shows "\<exists>q'. expand_queue q = Inr q' \<and> mq_rep q' ms \<and> mq_cap q' = 2 * mq_cap q"
proof -
  have len: "length ms = mq_cap q"
    using arg_cong [OF assms(4), of length] by simp
  have "map (\<lambda>i. mq_queue q ! ((mq_head q + i) mod mq_cap q)) [0..<mq_cap q] = map Some ms"
    using assms(1,4) by (simp add: ring_def)
  then show ?thesis
    using assms len by (simp add: expand_queue_def mq_rep_alt skynet_mq_length_def ring_prefix)
qed

lemma mq_ring_push_rep:
  assumes "mq_rep q ms"
  shows "\<exists>q'. mq_ring_push m q = Inr q' \<and> mq_rep q' (ms @ [m]) \<and>
           mq_cap q' = (if length ms + 1 = mq_cap q then 2 * mq_cap q else mq_cap q)"
proof -
  have caps: "length (mq_queue q) = mq_cap q" "mq_tail q < mq_cap q" "mq_head q < mq_cap q"
      "0 < mq_overload_threshold q"
    using assms by (auto simp: mq_rep_alt)
  let ?t = "(mq_tail q + 1) mod mq_cap q"
  let ?q = "q\<lparr>mq_queue := (mq_queue q)[mq_tail q := Some m], mq_tail := ?t\<rparr>"
  have push: "mq_ring_push m q = (if mq_head q = ?t then expand_queue ?q else Inr ?q)"
    using caps by (simp only: mq_ring_push_def mq_ring_next [OF caps(2)] Let_def) simp
  have t: "?t = (mq_head q + Suc (length ms)) mod mq_cap q"
    using mq_tail_eq [OF assms] by (simp add: mod_Suc_eq)
  have store: "ring (mq_queue ?q) (mq_head ?q) (Suc (length ms)) = map Some (ms @ [m])"
    using mq_ring_store [OF assms] by simp
  have full: "mq_head q = ?t \<longleftrightarrow> length ms + 1 = mq_cap q"
  proof
    assume "mq_head q = ?t"
    then have "(mq_head q + 0) mod mq_cap q = (mq_head q + Suc (length ms)) mod mq_cap q"
      using t caps by simp
    then show "length ms + 1 = mq_cap q"
      using mod_ring_inj [of 0 "mq_cap q" "Suc (length ms)" "mq_head q"] mq_length_less [OF assms]
      by fastforce
  next
    assume "length ms + 1 = mq_cap q"
    then show "mq_head q = ?t" using t caps by simp
  qed
  show ?thesis
  proof (cases "mq_head q = ?t")
    case True
    with full have "ring (mq_queue ?q) (mq_head ?q) (mq_cap ?q) = map Some (ms @ [m])"
      using store by simp
    from expand_queue_ring [OF _ _ _ this] caps push True full show ?thesis by auto
  next
    case False
    have "skynet_mq_length ?q = Suc (length ms)"
      using False mq_rep_length [OF assms] caps
      by (cases "mq_tail q + 1 = mq_cap q") (auto simp: skynet_mq_length_def split: if_splits)
    then have "mq_rep ?q (ms @ [m])" using store caps by (simp add: mq_rep_alt)
    with push False full show ?thesis by simp
  qed
qed

lemma mq_new_rep: "mq_rep (mq_new h) []"
  by (simp add: mq_rep_alt mq_new_def skynet_mq_length_def DEFAULT_QUEUE_SIZE_def MQ_OVERLOAD_def)

section \<open>The ring is a queue\<close>

interpretation mq: total_fifo mq_rep "\<lambda>_ _. True" mq_ring_push skynet_mq_pop
proof unfold_locales
  fix q :: message_queue and xs x
  assume "mq_rep q xs"
  then show "\<exists>q'. mq_ring_push x q = Inr q' \<and> mq_rep q' (xs @ [x])"
    using mq_ring_push_rep by blast
next
  fix q :: message_queue
  assume "mq_rep q []"
  then show "\<exists>q'. skynet_mq_pop q = Inr (q', None) \<and> mq_rep q' []"
    using mq_pop_nil mq_pop_nil_rep by blast
next
  fix q :: message_queue and x xs
  assume "mq_rep q (x # xs)"
  then show "\<exists>q'. skynet_mq_pop q = Inr (q', Some x) \<and> mq_rep q' xs"
    using mq_pop_cons mq_rep_advance by blast
qed simp

section \<open>The overload threshold\<close>

lemma raise_threshold_value:
  "0 < thr \<Longrightarrow> raise_threshold len thr ov = Some (thr', ov') \<Longrightarrow>
   (len \<le> thr \<longrightarrow> thr' = thr \<and> ov' = ov) \<and> (thr < len \<longrightarrow> len \<le> thr' \<and> thr' < 2 * len \<and> ov' = len)"
proof (induction "nat (len - thr)" arbitrary: thr ov rule: less_induct)
  case less
  show ?case
  proof (cases "len > thr")
    case True
    with less.prems have n: "nat (len - thr * 2) < nat (len - thr)" "0 < thr * 2"
      and r: "raise_threshold len (thr * 2) len = Some (thr', ov')"
      by (auto simp: raise_threshold.simps [of len thr])
    from less.hyps [OF n r] True show ?thesis by (cases "len \<le> thr * 2") auto
  next
    case False
    with less.prems show ?thesis by (simp add: raise_threshold.simps)
  qed
qed

lemma mq_pop_threshold:
  assumes "mq_rep q (m # ms)" "skynet_mq_pop q = Inr (q', Some m)"
  shows "raise_threshold (int (length ms)) (mq_overload_threshold q) (mq_overload q) =
    Some (mq_overload_threshold q', mq_overload q')"
proof -
  have h: "mq_head q < mq_cap q" and len: "skynet_mq_length q = Suc (length ms)" and t: "mq_tail q < mq_cap q"
    using assms(1) mq_rep_length [OF assms(1)] by (auto simp: mq_rep_alt)
  have ne: "mq_head q \<noteq> mq_tail q" using mq_empty_iff [OF assms(1)] by simp
  define h' where "h' = (mq_head q + 1) mod mq_cap q"
  define l where "l = (if int (mq_tail q) - int h' < 0 then int (mq_tail q) - int h' + int (mq_cap q)
                       else int (mq_tail q) - int h')"
  have l: "l = int (length ms)"
    using len h t by (cases "mq_head q + 1 = mq_cap q") (auto simp: l_def h'_def skynet_mq_length_def split: if_splits)
  show ?thesis using assms(2) unfolding l [symmetric]
    by (auto simp only: skynet_mq_pop_def mq_ring_next [OF h] Let_def h'_def [symmetric] l_def [symmetric]
        mq_read_head [OF assms(1)] ne bind_res_Inr not_False_eq_True if_True split: option.splits)
      auto
qed

section \<open>Properties\<close>


text \<open>
  A pop reports overload exactly when more messages remain than the threshold: then the
  remaining length is recorded and the threshold is doubled until it covers it (and not
  further); otherwise both fields keep their values. The doubling loop ends.
\<close>

theorem mailbox_overload:
  assumes "mq_rep q (m # ms)"
  shows "\<exists>q'. skynet_mq_pop q = Inr (q', Some m) \<and> mq_rep q' ms \<and>
    (if int (length ms) \<le> mq_overload_threshold q
     then mq_overload_threshold q' = mq_overload_threshold q \<and> mq_overload q' = mq_overload q
     else int (length ms) \<le> mq_overload_threshold q' \<and> mq_overload_threshold q' < 2 * int (length ms) \<and>
          mq_overload q' = int (length ms))"
proof -
  obtain q' where q': "skynet_mq_pop q = Inr (q', Some m)" "mq_rep q' ms"
    using mq.pop_cons [OF assms] by blast
  have "0 < mq_overload_threshold q" using assms by (simp add: mq_rep_alt)
  from raise_threshold_value [OF this mq_pop_threshold [OF assms q'(1)]] q' show ?thesis by auto
qed

theorem mailbox_overload_witness:
  "\<exists>q0 q'. skynet_mq_pop q0 = Inr (q', Some (\<lparr>msg_source = 1, msg_session = 2, msg_data = None, msg_sz = 0\<rparr>)) \<and> mq_rep q' []"
proof -
  let ?m = "\<lparr>msg_source = 1, msg_session = 2, msg_data = None, msg_sz = 0\<rparr>"
  obtain q0 where "mq_rep q0 ([] @ [?m])" using mq_ring_push_rep [OF mq_new_rep] by blast
  then have "mq_rep q0 (?m # [])" by simp
  from mailbox_overload [OF this] show ?thesis by blast
qed

end
