(* ===== verification/GlobalQueue.thy ===== *)
theory GlobalQueue
  imports MessageQueue
begin

text \<open>
  The heap of mailboxes and the global queue of \<open>skynet/skynet-src/skynet_mq.c\<close>: a linked
  list threaded through the mailboxes' own \<open>next\<close> pointers, with a head and a tail
  pointer. \<open>mqs\<close> maps an address to the mailbox allocated there; a freed or
  never allocated address is \<open>None\<close> and using it is a fault.
\<close>

record mq_heap =
  mqs :: "ptr \<Rightarrow> message_queue option"
  gq_head :: "ptr option"
  gq_tail :: "ptr option"

definition skynet_mq_init :: "mq_heap" where
  "skynet_mq_init = \<lparr>mqs = (\<lambda>_. None), gq_head = None, gq_tail = None\<rparr>"

definition get_mq :: "ptr \<Rightarrow> mq_heap \<Rightarrow> message_queue res" where
  "get_mq p h = option_res UseAfterFree (mqs h p)"

definition put_mq :: "ptr \<Rightarrow> message_queue \<Rightarrow> mq_heap \<Rightarrow> mq_heap" where
  "put_mq p q h = h\<lparr>mqs := (mqs h)(p \<mapsto> q)\<rparr>"

definition skynet_globalmq_push :: "ptr \<Rightarrow> mq_heap \<Rightarrow> mq_heap res" where
  "skynet_globalmq_push p h =
     bind_res (get_mq p h) (\<lambda>q.
     bind_res (assert_res (mq_next q = None) AssertFailed) (\<lambda>_.
       case gq_tail h of
         Some t \<Rightarrow> bind_res (get_mq t h) (\<lambda>tq.
           Inr ((put_mq t (tq\<lparr>mq_next := Some p\<rparr>) h)\<lparr>gq_tail := Some p\<rparr>))
       | None \<Rightarrow> Inr (h\<lparr>gq_head := Some p, gq_tail := Some p\<rparr>)))"

definition skynet_globalmq_pop :: "mq_heap \<Rightarrow> (mq_heap \<times> ptr option) res" where
  "skynet_globalmq_pop h =
     (case gq_head h of
        None \<Rightarrow> Inr (h, None)
      | Some p \<Rightarrow>
          bind_res (get_mq p h) (\<lambda>q.
            let h1 = h\<lparr>gq_head := mq_next q\<rparr>
            in bind_res
                 (if gq_head h1 = None then
                    bind_res (assert_res (gq_tail h1 = Some p) AssertFailed)
                      (\<lambda>_. Inr (h1\<lparr>gq_tail := None\<rparr>))
                  else Inr h1)
                 (\<lambda>h2. Inr (put_mq p (q\<lparr>mq_next := None\<rparr>) h2, Some p))))"

definition skynet_mq_create :: "u32 \<Rightarrow> ptr \<Rightarrow> mq_heap \<Rightarrow> mq_heap" where
  "skynet_mq_create handle p h = put_mq p (mq_new handle) h"

definition skynet_mq_push :: "ptr \<Rightarrow> skynet_message \<Rightarrow> mq_heap \<Rightarrow> mq_heap res" where
  "skynet_mq_push p message h =
     bind_res (get_mq p h) (\<lambda>q.
     bind_res (mq_ring_push message q) (\<lambda>q1.
       if \<not> mq_in_global q1 then
         skynet_globalmq_push p (put_mq p (q1\<lparr>mq_in_global := True\<rparr>) h)
       else Inr (put_mq p q1 h)))"

definition mq_pop_at :: "ptr \<Rightarrow> mq_heap \<Rightarrow> (mq_heap \<times> skynet_message option) res" where
  "mq_pop_at p h =
     bind_res (get_mq p h) (\<lambda>q.
     bind_res (skynet_mq_pop q) (\<lambda>(q', m). Inr (put_mq p q' h, m)))"

definition skynet_mq_mark_release :: "ptr \<Rightarrow> mq_heap \<Rightarrow> mq_heap res" where
  "skynet_mq_mark_release p h =
     bind_res (get_mq p h) (\<lambda>q.
     bind_res (assert_res (\<not> mq_release q) AssertFailed) (\<lambda>_.
       let h1 = put_mq p (q\<lparr>mq_release := True\<rparr>) h
       in if \<not> mq_in_global q then skynet_globalmq_push p h1 else Inr h1))"

text \<open>\<open>_release\<close>: the mailbox is unlinked and freed.\<close>

definition mq_free :: "ptr \<Rightarrow> mq_heap \<Rightarrow> mq_heap res" where
  "mq_free p h =
     bind_res (get_mq p h) (\<lambda>q.
     bind_res (assert_res (mq_next q = None) AssertFailed) (\<lambda>_.
       Inr (h\<lparr>mqs := (mqs h)(p := None)\<rparr>)))"

section \<open>The linked list in the heap\<close>

fun chain :: "(ptr \<Rightarrow> message_queue option) \<Rightarrow> ptr option \<Rightarrow> ptr list \<Rightarrow> bool" where
  "chain M x [] \<longleftrightarrow> x = None"
| "chain M x (p # ps) \<longleftrightarrow> x = Some p \<and> (\<exists>q. M p = Some q \<and> chain M (mq_next q) ps)"

definition gq_rep :: "mq_heap \<Rightarrow> ptr list \<Rightarrow> bool" where
  "gq_rep h ps \<longleftrightarrow>
     chain (mqs h) (gq_head h) ps \<and> distinct ps \<and>
     gq_tail h = (if ps = [] then None else Some (last ps)) \<and>
     (\<forall>p q. mqs h p = Some q \<longrightarrow> p \<notin> set ps \<longrightarrow> mq_next q = None)"

definition gq_adm :: "ptr \<Rightarrow> mq_heap \<Rightarrow> bool" where
  "gq_adm p h \<longleftrightarrow> (\<exists>q. mqs h p = Some q \<and> mq_next q = None) \<and> gq_tail h \<noteq> Some p"

lemma chain_cong:
  "(\<And>p. p \<in> set ps \<Longrightarrow> map_option mq_next (M' p) = map_option mq_next (M p)) \<Longrightarrow>
   chain M' x ps = chain M x ps"
proof (induction ps arbitrary: x)
  case Nil
  then show ?case by simp
next
  case (Cons p ps)
  then have "map_option mq_next (M' p) = map_option mq_next (M p)" and
    "\<And>x. chain M' x ps = chain M x ps" by auto
  then show ?case by (cases "M p"; cases "M' p") auto
qed

lemma chain_allocated: "chain M x ps \<Longrightarrow> p \<in> set ps \<Longrightarrow> \<exists>q. M p = Some q"
  by (induction ps arbitrary: x) auto

lemma chain_snoc:
  "chain M x (ps @ [t]) \<Longrightarrow> distinct (ps @ [t]) \<Longrightarrow> M p = Some q \<Longrightarrow> mq_next q = None \<Longrightarrow>
   p \<notin> set (ps @ [t]) \<Longrightarrow> M t = Some tq \<Longrightarrow>
   chain (M(t \<mapsto> tq\<lparr>mq_next := Some p\<rparr>)) x (ps @ [t, p])"
  by (induction ps arbitrary: x) auto

lemma chain_last_next:
  "chain M x (ps @ [t]) \<Longrightarrow> \<exists>tq. M t = Some tq \<and> mq_next tq = None"
  by (induction ps arbitrary: x) auto

lemma chain_next_some:
  "chain M x ps \<Longrightarrow> p \<in> set ps \<Longrightarrow> p \<noteq> last ps \<Longrightarrow> M p = Some q \<Longrightarrow> mq_next q \<noteq> None"
proof (induction ps arbitrary: x)
  case (Cons r ps)
  then show ?case by (cases ps) (auto split: if_splits)
qed simp

lemma gq_rep_allocated: "gq_rep h ps \<Longrightarrow> p \<in> set ps \<Longrightarrow> \<exists>q. mqs h p = Some q"
  by (auto simp: gq_rep_def dest: chain_allocated)

lemma gq_adm_notin:
  assumes "gq_rep h ps" and "gq_adm p h"
  shows "p \<notin> set ps"
proof
  assume p: "p \<in> set ps"
  with assms have "p \<noteq> last ps" by (auto simp: gq_rep_def gq_adm_def split: if_splits)
  with assms p chain_next_some show False unfolding gq_rep_def gq_adm_def by blast
qed

lemma gq_adm_iff:
  assumes "gq_rep h ps"
  shows "gq_adm p h \<longleftrightarrow> (\<exists>q. mqs h p = Some q) \<and> p \<notin> set ps"
proof
  assume "gq_adm p h"
  with gq_adm_notin [OF assms] show "(\<exists>q. mqs h p = Some q) \<and> p \<notin> set ps"
    by (auto simp: gq_adm_def)
next
  assume "(\<exists>q. mqs h p = Some q) \<and> p \<notin> set ps"
  with assms show "gq_adm p h" by (auto simp: gq_adm_def gq_rep_def split: if_splits)
qed

text \<open>Changing mailboxes without touching their \<open>next\<close> pointers, and changing a mailbox outside the list.\<close>

lemma gq_rep_same_next:
  assumes "gq_rep h ps" and "mqs h p = Some q" and "mq_next q' = mq_next q"
  shows "gq_rep (put_mq p q' h) ps"
proof -
  have "chain ((mqs h)(p \<mapsto> q')) (gq_head h) ps = chain (mqs h) (gq_head h) ps"
    using assms(2,3) by (intro chain_cong) auto
  with assms show ?thesis by (auto simp: gq_rep_def put_mq_def)
qed

lemma gq_rep_outside:
  assumes "gq_rep h ps" and "p \<notin> set ps" and "mq_next q' = None"
  shows "gq_rep (put_mq p q' h) ps"
proof -
  have "chain ((mqs h)(p \<mapsto> q')) (gq_head h) ps = chain (mqs h) (gq_head h) ps"
    using assms(2) by (intro chain_cong) auto
  with assms show ?thesis by (auto simp: gq_rep_def put_mq_def)
qed

lemma gq_rep_free:
  assumes "gq_rep h ps" and "p \<notin> set ps"
  shows "gq_rep (h\<lparr>mqs := (mqs h)(p := None)\<rparr>) ps"
proof -
  have "chain ((mqs h)(p := None)) (gq_head h) ps = chain (mqs h) (gq_head h) ps"
    using assms(2) by (intro chain_cong) auto
  with assms show ?thesis by (auto simp: gq_rep_def)
qed

lemma gq_rep_init: "gq_rep skynet_mq_init []"
  by (simp add: gq_rep_def skynet_mq_init_def)

section \<open>The global queue is a queue\<close>

text \<open>Mailboxes agree but for their \<open>next\<close> pointers.\<close>

definition same_but_next :: "mq_heap \<Rightarrow> mq_heap \<Rightarrow> bool" where
  "same_but_next h h' \<longleftrightarrow>
     (\<forall>p. map_option (mq_next_update (\<lambda>_. None)) (mqs h' p) = map_option (mq_next_update (\<lambda>_. None)) (mqs h p))"

lemma same_but_next_trans: "same_but_next a b \<Longrightarrow> same_but_next b c \<Longrightarrow> same_but_next a c"
  by (simp add: same_but_next_def)

lemma same_but_next_refl [simp]: "same_but_next h h"
  by (simp add: same_but_next_def)

lemma globalmq_push_rep:
  assumes rep: "gq_rep h ps" and adm: "gq_adm p h"
  shows "\<exists>h'. skynet_globalmq_push p h = Inr h' \<and> gq_rep h' (ps @ [p]) \<and> same_but_next h h'"
proof -
  have out: "p \<notin> set ps" by (rule gq_adm_notin [OF rep adm])
  obtain q where q: "mqs h p = Some q" "mq_next q = None" using adm by (auto simp: gq_adm_def)
  show ?thesis
  proof (cases ps rule: rev_cases)
    case Nil
    let ?h = "h\<lparr>gq_head := Some p, gq_tail := Some p\<rparr>"
    have "skynet_globalmq_push p h = Inr ?h"
      using rep q Nil by (simp add: skynet_globalmq_push_def get_mq_def gq_rep_def)
    moreover have "gq_rep ?h [p]" using rep q Nil by (auto simp: gq_rep_def)
    ultimately show ?thesis using Nil by (auto simp: same_but_next_def)
  next
    case (snoc ps' t)
    then have c: "chain (mqs h) (gq_head h) (ps' @ [t])" and t: "gq_tail h = Some t"
      and d: "distinct (ps' @ [t])" using rep by (auto simp: gq_rep_def)
    obtain tq where tq: "mqs h t = Some tq" using chain_last_next [OF c] by blast
    let ?h = "(put_mq t (tq\<lparr>mq_next := Some p\<rparr>) h)\<lparr>gq_tail := Some p\<rparr>"
    have "skynet_globalmq_push p h = Inr ?h"
      using q t tq by (simp add: skynet_globalmq_push_def get_mq_def)
    moreover have "gq_rep ?h (ps @ [p])"
      using chain_snoc [OF c d q _ tq] rep out d snoc by (auto simp: gq_rep_def put_mq_def)
    moreover have "same_but_next h ?h" using tq by (auto simp: same_but_next_def put_mq_def)
    ultimately show ?thesis by blast
  qed
qed

lemma globalmq_pop_nil:
  assumes "gq_rep h []" shows "skynet_globalmq_pop h = Inr (h, None)"
  using assms by (simp add: skynet_globalmq_pop_def gq_rep_def)

lemma globalmq_pop_cons:
  assumes rep: "gq_rep h (p # ps)"
  shows "\<exists>h'. skynet_globalmq_pop h = Inr (h', Some p) \<and> gq_rep h' ps \<and> same_but_next h h'"
proof -
  obtain q where q: "mqs h p = Some q" and c: "chain (mqs h) (mq_next q) ps" and hd: "gq_head h = Some p"
    and d: "p \<notin> set ps" "distinct ps" and t: "gq_tail h = Some (last (p # ps))"
    using rep by (auto simp: gq_rep_def)
  have n: "mq_next q = None \<longleftrightarrow> ps = []" using c by (cases ps) auto
  let ?h1 = "h\<lparr>gq_head := mq_next q\<rparr>"
  let ?h2 = "if ps = [] then ?h1\<lparr>gq_tail := None\<rparr> else ?h1"
  let ?h = "put_mq p (q\<lparr>mq_next := None\<rparr>) ?h2"
  have "skynet_globalmq_pop h = Inr (?h, Some p)"
    using q hd t n by (auto simp: skynet_globalmq_pop_def get_mq_def Let_def)
  moreover have "chain ((mqs h)(p \<mapsto> q\<lparr>mq_next := None\<rparr>)) (mq_next q) ps"
    using c d(1) by (subst chain_cong [of _ _ "mqs h"]) auto
  then have "gq_rep ?h ps"
    using rep d t n by (auto simp: gq_rep_def put_mq_def)
  moreover have "same_but_next h ?h" using q by (auto simp: same_but_next_def put_mq_def)
  ultimately show ?thesis by blast
qed

interpretation gq: fifo gq_rep gq_adm skynet_globalmq_push skynet_globalmq_pop
proof unfold_locales
  fix q xs x
  assume "gq_rep q xs" and "gq_adm x q"
  then show "\<exists>q'. skynet_globalmq_push x q = Inr q' \<and> gq_rep q' (xs @ [x])"
    using globalmq_push_rep by blast
next
  fix q assume "gq_rep q []"
  then show "\<exists>q'. skynet_globalmq_pop q = Inr (q', None) \<and> gq_rep q' []"
    using globalmq_pop_nil by blast
next
  fix q x xs assume "gq_rep q (x # xs)"
  then show "\<exists>q'. skynet_globalmq_pop q = Inr (q', Some x) \<and> gq_rep q' xs"
    using globalmq_pop_cons by blast
qed

section \<open>Pushing to a mailbox\<close>

lemma get_mq_Some: "mqs h p = Some q \<Longrightarrow> get_mq p h = Inr q"
  by (simp add: get_mq_def)

lemma mqs_put [simp]: "mqs (put_mq p q h) = (mqs h)(p \<mapsto> q)"
  by (simp add: put_mq_def)

lemma same_but_next_mq:
  assumes "same_but_next h h'" "mqs h p = Some q"
  shows "\<exists>n. mqs h' p = Some (q\<lparr>mq_next := n\<rparr>)"
proof -
  from assms obtain q' where q': "mqs h' p = Some q'" "q'\<lparr>mq_next := None\<rparr> = q\<lparr>mq_next := None\<rparr>"
    unfolding same_but_next_def by (metis option.map_disc_iff option.map_sel option.collapse option.sel not_None_eq)
  have "q' = q\<lparr>mq_next := mq_next q'\<rparr>" using q'(2) by (cases q; cases q') simp
  then show ?thesis using q'(1) by metis
qed

lemma same_but_next_none: "same_but_next h h' \<Longrightarrow> mqs h' p = None \<longleftrightarrow> mqs h p = None"
  unfolding same_but_next_def by (metis option.map_disc_iff)

lemma mq_ring_push_flags:
  "mq_ring_push m q = Inr q' \<Longrightarrow> mq_in_global q' = mq_in_global q \<and> mq_release q' = mq_release q \<and>
     mq_next q' = mq_next q \<and> mq_handle q' = mq_handle q"
  by (auto simp: mq_ring_push_def expand_queue_def Let_def split: if_splits)

lemma mq_push_spec:
  assumes rep: "gq_rep h ps" and q: "mqs h p = Some q" "mq_rep q ms" and lk: "mq_in_global q \<or> p \<notin> set ps"
  shows "\<exists>h' q'. skynet_mq_push p m h = Inr h' \<and> gq_rep h' (if mq_in_global q then ps else ps @ [p]) \<and>
    mqs h' p = Some q' \<and> mq_rep q' (ms @ [m]) \<and> mq_in_global q' \<and> mq_release q' = mq_release q \<and>
    mq_handle q' = mq_handle q \<and> same_but_next (put_mq p q' h) h'"
proof -
  obtain q1 where q1: "mq_ring_push m q = Inr q1" "mq_rep q1 (ms @ [m])"
    using mq.push_rep [OF q(2)] by blast
  note fl = mq_ring_push_flags [OF q1(1)]
  show ?thesis
  proof (cases "mq_in_global q")
    case True
    with q q1 fl rep gq_rep_same_next [OF rep q(1), of q1] show ?thesis
      by (auto simp: skynet_mq_push_def get_mq_Some)
  next
    case False
    let ?q = "q1\<lparr>mq_in_global := True\<rparr>" and ?h = "put_mq p (q1\<lparr>mq_in_global := True\<rparr>) h"
    have out: "p \<notin> set ps" using lk False by simp
    have r1: "gq_rep ?h ps" by (rule gq_rep_same_next [OF rep q(1)]) (use fl in simp)
    have "gq_adm p ?h" using gq_adm_iff [OF r1] out by simp
    from globalmq_push_rep [OF r1 this] obtain h' where h': "skynet_globalmq_push p ?h = Inr h'"
      "gq_rep h' (ps @ [p])" "same_but_next ?h h'" by blast
    obtain n where n: "mqs h' p = Some (?q\<lparr>mq_next := n\<rparr>)"
      using same_but_next_mq [OF h'(3), of p ?q] by auto
    have "same_but_next (put_mq p (?q\<lparr>mq_next := n\<rparr>) h) h'"
      using h'(3) by (auto simp: same_but_next_def)
    with False q q1 fl h' n show ?thesis
      by (intro exI [of _ h'] exI [of _ "?q\<lparr>mq_next := n\<rparr>"]) (simp add: skynet_mq_push_def get_mq_Some)
  qed
qed

section \<open>Properties\<close>

text \<open>
  C2: The intrusive list of runnable mailboxes is a queue: pushing a live mailbox that is not
  in it appends it, popping takes the oldest one (or none when it is empty), neither hits the
  asserts on \<open>next\<close> and \<open>tail\<close> or a freed mailbox, and both change nothing
  in the mailboxes but their links.
\<close>

theorem global_queue_is_fifo:
  assumes "gq_rep h ps"
  shows "(\<exists>h'. skynet_globalmq_pop h = Inr (h', case ps of [] \<Rightarrow> None | p # _ \<Rightarrow> Some p) \<and>
            gq_rep h' (tl ps) \<and> same_but_next h h') \<and>
         (gq_adm p h \<longrightarrow> (\<exists>h'. skynet_globalmq_push p h = Inr h' \<and> gq_rep h' (ps @ [p]) \<and> same_but_next h h'))"
proof (rule conjI)
  show "\<exists>h'. skynet_globalmq_pop h = Inr (h', case ps of [] \<Rightarrow> None | p # _ \<Rightarrow> Some p) \<and>
           gq_rep h' (tl ps) \<and> same_but_next h h'"
  proof (cases ps)
    case Nil
    with assms globalmq_pop_nil show ?thesis by auto
  next
    case (Cons p ps')
    with assms globalmq_pop_cons [of h p ps'] show ?thesis by auto
  qed
  show "gq_adm p h \<longrightarrow> (\<exists>h'. skynet_globalmq_push p h = Inr h' \<and> gq_rep h' (ps @ [p]) \<and> same_but_next h h')"
    using globalmq_push_rep [OF assms] by blast
qed

theorem global_queue_is_fifo_witness:
  "\<exists>h1 h2. skynet_globalmq_push 1 (skynet_mq_create 9 1 skynet_mq_init) = Inr h1 \<and> gq_rep h1 [1] \<and>
     skynet_globalmq_pop h1 = Inr (h2, Some 1) \<and> gq_rep h2 []"
proof -
  let ?h = "skynet_mq_create 9 1 skynet_mq_init"
  have "gq_rep ?h []"
    unfolding skynet_mq_create_def by (rule gq_rep_outside [OF gq_rep_init]) (simp_all add: mq_new_def)
  moreover have "gq_adm 1 ?h"
    by (simp add: gq_adm_def skynet_mq_create_def skynet_mq_init_def put_mq_def mq_new_def)
  ultimately obtain h1 where h1: "skynet_globalmq_push 1 ?h = Inr h1" "gq_rep h1 [1]"
    using global_queue_is_fifo [of ?h "[]" 1] by fastforce
  from global_queue_is_fifo [OF h1(2), of 1] h1 show ?thesis by auto
qed

text \<open>
  Pushing a message stores it last in the mailbox and makes the mailbox runnable exactly
  once: it is appended to the global queue if it was not scheduled and left where it is
  otherwise; no other mailbox changes its contents.
\<close>

theorem push_schedules_once:
  assumes "gq_rep h ps" "mqs h p = Some q" "mq_rep q ms" "mq_in_global q \<or> p \<notin> set ps"
  shows "\<exists>h' q'. skynet_mq_push p m h = Inr h' \<and> gq_rep h' (if mq_in_global q then ps else ps @ [p]) \<and>
    mqs h' p = Some q' \<and> mq_rep q' (ms @ [m]) \<and> mq_in_global q' \<and> mq_release q' = mq_release q \<and>
    mq_handle q' = mq_handle q \<and> same_but_next (put_mq p q' h) h'"
  by (rule mq_push_spec [OF assms])

theorem push_schedules_once_witness:
  "\<exists>h' q'. skynet_mq_push 1 \<lparr>msg_source = 1, msg_session = 2, msg_data = None, msg_sz = 0\<rparr>
       (put_mq 1 ((mq_new 9)\<lparr>mq_in_global := False\<rparr>) skynet_mq_init) = Inr h' \<and> gq_rep h' [1] \<and> mqs h' 1 = Some q'"
proof -
  let ?h = "put_mq 1 ((mq_new 9)\<lparr>mq_in_global := False\<rparr>) skynet_mq_init"
  have "gq_rep ?h []" by (rule gq_rep_outside [OF gq_rep_init]) (simp_all add: mq_new_def)
  from push_schedules_once [OF this, of 1 "(mq_new 9)\<lparr>mq_in_global := False\<rparr>" "[]"] mq_new_rep [of 9]
  show ?thesis by fastforce
qed

end
