(* ===== verification/HandleStorage.thy ===== *)
theory HandleStorage
  imports Prelude
begin

text \<open>
  The handle table of \<open>skynet/skynet-src/skynet_handle.c\<close>: an array of \<open>2 ^ k\<close> slots
  indexed by the low bits of a handle, doubled when it is full. A slot holds a context
  pointer; the handle of a context is read through the pointer, so every operation takes the
  function \<open>hof\<close> from context pointers to handles (\<open>None\<close>: the context is freed).
\<close>

definition HANDLE_MASK :: u32 where "HANDLE_MASK = 0xffffff"
definition HANDLE_REMOTE_SHIFT :: nat where "HANDLE_REMOTE_SHIFT = 24"
definition DEFAULT_SLOT_SIZE :: nat where "DEFAULT_SLOT_SIZE = 4"

type_synonym hof = "ptr \<Rightarrow> u32 option"

record handle_name =
  hn_name :: string
  hn_handle :: u32

record handle_storage =
  hs_harbor :: u32
  hs_handle_index :: u32
  hs_slot_size :: nat
  hs_slot :: "ptr option list"
  hs_name_cap :: nat
  hs_name_count :: nat
  hs_name :: "handle_name option list"

definition skynet_handle_init :: "i32 \<Rightarrow> handle_storage" where
  "skynet_handle_init harbor = \<lparr>
     hs_harbor = push_bit HANDLE_REMOTE_SHIFT (harbor AND 0xff), hs_handle_index = 1,
     hs_slot_size = DEFAULT_SLOT_SIZE, hs_slot = replicate DEFAULT_SLOT_SIZE None,
     hs_name_cap = 2, hs_name_count = 0, hs_name = replicate 2 None\<rparr>"

definition slot_hash :: "nat \<Rightarrow> u32 \<Rightarrow> nat" where
  "slot_hash sz handle = unat (handle AND word_of_nat (sz - 1))"

text \<open>The probe loop: at most \<open>n\<close> handles from \<open>handle\<close> on, 0 skipped at the wrap-around.\<close>

fun scan_slots :: "ptr option list \<Rightarrow> nat \<Rightarrow> nat \<Rightarrow> u32 \<Rightarrow> u32 option" where
  "scan_slots slot sz 0 handle = None"
| "scan_slots slot sz (Suc n) handle =
     (let handle' = (if handle > HANDLE_MASK then 1 else handle)
      in if slot ! slot_hash sz handle' = None then Some handle'
         else scan_slots slot sz n (handle' + 1))"

text \<open>The copy into the table of twice the size; \<open>skynet_context_handle\<close> of a null slot is a fault.\<close>

fun rehash_slots :: "hof \<Rightarrow> nat \<Rightarrow> ptr option list \<Rightarrow> ptr option list \<Rightarrow> ptr option list res" where
  "rehash_slots hof sz2 [] new = Inr new"
| "rehash_slots hof sz2 (None # slots) new = Inl NullDeref"
| "rehash_slots hof sz2 (Some c # slots) new =
     (case hof c of
        None \<Rightarrow> Inl UseAfterFree
      | Some h \<Rightarrow>
          bind_res (assert_res (new ! slot_hash sz2 h = None) AssertFailed)
            (\<lambda>_. rehash_slots hof sz2 slots (new[slot_hash sz2 h := Some c])))"

function skynet_handle_register :: "hof \<Rightarrow> ptr \<Rightarrow> handle_storage \<Rightarrow> (u32 \<times> handle_storage) res" where
  "skynet_handle_register hof ctx s =
     (if hs_slot_size s = 0 then Inl Diverges
      else case scan_slots (hs_slot s) (hs_slot_size s) (hs_slot_size s) (hs_handle_index s) of
        Some handle \<Rightarrow>
          Inr (handle OR hs_harbor s,
               s\<lparr>hs_slot := (hs_slot s)[slot_hash (hs_slot_size s) handle := Some ctx],
                 hs_handle_index := handle + 1\<rparr>)
      | None \<Rightarrow>
          if hs_slot_size s * 2 - 1 \<le> unat HANDLE_MASK then
            bind_res (rehash_slots hof (hs_slot_size s * 2) (hs_slot s) (replicate (hs_slot_size s * 2) None))
              (\<lambda>new. skynet_handle_register hof ctx
                 (s\<lparr>hs_slot := new, hs_slot_size := hs_slot_size s * 2\<rparr>))
          else Inl AssertFailed)"
  by pat_completeness auto
termination
  by (relation "measure (\<lambda>(hof, ctx, s). 2 ^ 25 - hs_slot_size s)") (auto simp: HANDLE_MASK_def)

declare skynet_handle_register.simps [simp del]

definition slot_lookup :: "hof \<Rightarrow> u32 \<Rightarrow> handle_storage \<Rightarrow> ptr option res" where
  "slot_lookup hof handle s =
     (case hs_slot s ! slot_hash (hs_slot_size s) handle of
        None \<Rightarrow> Inr None
      | Some c \<Rightarrow> (case hof c of
            None \<Rightarrow> Inl UseAfterFree
          | Some h \<Rightarrow> Inr (if h = handle then Some c else None)))"

text \<open>\<open>skynet_handle_grab\<close> up to the increment of the reference count, which the caller does.\<close>

definition skynet_handle_grab :: "hof \<Rightarrow> u32 \<Rightarrow> handle_storage \<Rightarrow> ptr option res" where
  "skynet_handle_grab hof handle s = slot_lookup hof handle s"

text \<open>The loop that drops the names of a retired handle, in place.\<close>

fun drop_names :: "u32 \<Rightarrow> nat \<Rightarrow> nat \<Rightarrow> nat \<Rightarrow> handle_name option list \<Rightarrow> (nat \<times> handle_name option list) res" where
  "drop_names handle 0 i j name = Inr (j, name)"
| "drop_names handle (Suc n) i j name =
     (case name ! i of
        None \<Rightarrow> Inl UninitRead
      | Some nm \<Rightarrow>
          if hn_handle nm = handle then drop_names handle n (i + 1) j name
          else if i \<noteq> j then drop_names handle n (i + 1) (j + 1) (name[j := Some nm])
          else drop_names handle n (i + 1) (j + 1) name)"

text \<open>\<open>skynet_handle_retire\<close> up to the release of the context, which the caller does after unlocking.\<close>

definition skynet_handle_retire :: "hof \<Rightarrow> u32 \<Rightarrow> handle_storage \<Rightarrow> (handle_storage \<times> ptr option) res" where
  "skynet_handle_retire hof handle s =
     bind_res (slot_lookup hof handle s) (\<lambda>ctx.
       case ctx of
         None \<Rightarrow> Inr (s, None)
       | Some c \<Rightarrow>
           bind_res (drop_names handle (hs_name_count s) 0 0 (hs_name s)) (\<lambda>(j, name).
             Inr (s\<lparr>hs_slot := (hs_slot s)[slot_hash (hs_slot_size s) handle := None],
                    hs_name := name, hs_name_count := j\<rparr>, Some c)))"

section \<open>Hashes\<close>

lemma slot_hash_eq: "k \<le> 32 \<Longrightarrow> slot_hash (2 ^ k) h = unat h mod 2 ^ k"
proof -
  assume "k \<le> 32"
  have "word_of_nat (2 ^ k - 1) = (mask k :: u32)"
    by (simp add: mask_eq_exp_minus_1 of_nat_diff)
  then have "slot_hash (2 ^ k) h = unat (take_bit k h)"
    by (simp add: slot_hash_def take_bit_eq_mask)
  then show ?thesis by (simp only: unat_take_bit)
qed

lemma slot_hash_less: "k \<le> 32 \<Longrightarrow> slot_hash (2 ^ k) h < 2 ^ k"
  by (simp add: slot_hash_eq)

lemma slot_hash_harbor:
  assumes "k \<le> 24" and "take_bit 24 b = (0 :: u32)"
  shows "slot_hash (2 ^ k) (h OR b) = slot_hash (2 ^ k) h"
proof -
  have "take_bit k b = take_bit k (take_bit 24 b)" using assms(1) by (simp add: min_def)
  then have "take_bit k (h OR b) = take_bit k h" using assms(2) by (simp add: take_bit_or)
  then have "unat (take_bit k (h OR b)) = unat (take_bit k h)" by simp
  then show ?thesis
    using assms(1) by (simp only: slot_hash_eq unat_take_bit)
qed

section \<open>The invariant\<close>

definition hs_ok :: "hof \<Rightarrow> handle_storage \<Rightarrow> bool" where
  "hs_ok hof s \<longleftrightarrow>
     (\<exists>k \<le> 24. hs_slot_size s = 2 ^ k) \<and> length (hs_slot s) = hs_slot_size s \<and>
     take_bit 24 (hs_harbor s) = 0 \<and> hs_handle_index s \<noteq> 0 \<and>
     hs_name_count s \<le> length (hs_name s) \<and> length (hs_name s) = hs_name_cap s \<and> 0 < hs_name_cap s \<and>
     None \<notin> set (take (hs_name_count s) (hs_name s)) \<and>
     (\<forall>i < hs_slot_size s. \<forall>c. hs_slot s ! i = Some c \<longrightarrow>
        (\<exists>h. hof c = Some h \<and> slot_hash (hs_slot_size s) h = i))"

definition hs_find :: "hof \<Rightarrow> handle_storage \<Rightarrow> u32 \<Rightarrow> ptr option" where
  "hs_find hof s handle =
     (case hs_slot s ! slot_hash (hs_slot_size s) handle of
        None \<Rightarrow> None
      | Some c \<Rightarrow> if hof c = Some handle then Some c else None)"

text \<open>No wrap-around of the handle counter within the next registration.\<close>

definition hs_room :: "handle_storage \<Rightarrow> bool" where
  "hs_room s \<longleftrightarrow> unat (hs_handle_index s) + hs_slot_size s \<le> unat HANDLE_MASK"

lemma hs_ok_size: "hs_ok hof s \<Longrightarrow> \<exists>k \<le> 24. hs_slot_size s = 2 ^ k"
  by (simp add: hs_ok_def)

lemma hs_hash_less: "hs_ok hof s \<Longrightarrow> slot_hash (hs_slot_size s) h < hs_slot_size s"
  by (auto simp: hs_ok_def slot_hash_less)

lemma hs_ok_slot:
  "hs_ok hof s \<Longrightarrow> i < hs_slot_size s \<Longrightarrow> hs_slot s ! i = Some c \<Longrightarrow>
   \<exists>h. hof c = Some h \<and> slot_hash (hs_slot_size s) h = i"
  by (simp add: hs_ok_def)

lemma hs_ok_init: "hs_ok hof (skynet_handle_init harbor)"
proof -
  have "take_bit 24 (push_bit 24 (harbor AND 0xff)) = (0 :: u32)"
    by (simp add: take_bit_push_bit)
  moreover have "\<exists>k \<le> 24. (4::nat) = 2 ^ k" by (rule exI [of _ 2]) simp
  ultimately show ?thesis
    by (simp add: hs_ok_def skynet_handle_init_def DEFAULT_SLOT_SIZE_def HANDLE_REMOTE_SHIFT_def)
qed

lemma hs_find_init: "hs_find hof (skynet_handle_init harbor) h = None"
proof -
  have "slot_hash 4 h < 4" using slot_hash_less [of 2 h] by simp
  then show ?thesis by (simp add: hs_find_def skynet_handle_init_def DEFAULT_SLOT_SIZE_def)
qed

lemma hs_find_handle: "hs_find hof s h = Some c \<Longrightarrow> hof c = Some h"
  by (auto simp: hs_find_def split: option.splits if_splits)

lemma slot_lookup_find:
  assumes "hs_ok hof s"
  shows "slot_lookup hof h s = Inr (hs_find hof s h)"
proof (cases "hs_slot s ! slot_hash (hs_slot_size s) h")
  case None
  then show ?thesis by (simp add: slot_lookup_def hs_find_def)
next
  case (Some c)
  with hs_ok_slot [OF assms hs_hash_less [OF assms] Some] show ?thesis
    by (auto simp: slot_lookup_def hs_find_def)
qed

text \<open>A context sits in the slot of its handle and nowhere else.\<close>

lemma hs_find_iff:
  assumes "hs_ok hof s"
  shows "hs_find hof s h = Some c \<longleftrightarrow> hof c = Some h \<and> Some c \<in> set (hs_slot s)"
proof
  assume "hs_find hof s h = Some c"
  then show "hof c = Some h \<and> Some c \<in> set (hs_slot s)"
    using hs_hash_less [OF assms, of h] assms
    by (auto simp: hs_find_def hs_ok_def in_set_conv_nth split: option.splits if_splits)
next
  assume a: "hof c = Some h \<and> Some c \<in> set (hs_slot s)"
  then obtain i where "i < hs_slot_size s" "hs_slot s ! i = Some c"
    using assms by (auto simp: hs_ok_def in_set_conv_nth)
  with hs_ok_slot [OF assms this] a show "hs_find hof s h = Some c" by (auto simp: hs_find_def)
qed

section \<open>Registration\<close>

lemma unat_succ_no_wrap: "unat (h :: u32) \<le> unat HANDLE_MASK \<Longrightarrow> unat (h + 1) = unat h + 1"
  by (simp add: HANDLE_MASK_def unat_word_ariths)

text \<open>While the counter stays below the mask, the probe finds the first free slot if there is one.\<close>

lemma scan_slots_spec:
  assumes "unat h + n \<le> unat HANDLE_MASK + 1"
  shows "scan_slots slot sz n h = Some h' \<Longrightarrow>
           slot ! slot_hash sz h' = None \<and> unat h \<le> unat h' \<and> unat h' < unat h + n"
    and "scan_slots slot sz n h = None \<Longrightarrow>
           \<forall>j < n. \<forall>g. unat g = unat h + j \<longrightarrow> slot ! slot_hash sz g \<noteq> None"
  using assms
proof (induction n arbitrary: h)
  case 0
  { case 1 then show ?case by simp }
  { case 2 then show ?case by simp }
next
  case (Suc n)
  { case 1
    then have le: "\<not> h > HANDLE_MASK" by (simp add: word_less_nat_alt)
    from 1 have "unat (h + 1) = unat h + 1" by (intro unat_succ_no_wrap) simp
    with 1 le Suc.IH(1) [of "h + 1"] show ?case by (auto simp: Let_def split: if_splits) }
  { case 2
    then have le: "\<not> h > HANDLE_MASK" by (simp add: word_less_nat_alt)
    from 2 have s: "unat (h + 1) = unat h + 1" by (intro unat_succ_no_wrap) simp
    from 2 le have full: "slot ! slot_hash sz h \<noteq> None" and
      rest: "scan_slots slot sz n (h + 1) = None" by (auto simp: Let_def split: if_splits)
    have ih: "\<forall>j < n. \<forall>g. unat g = unat (h + 1) + j \<longrightarrow> slot ! slot_hash sz g \<noteq> None"
      using Suc.IH(2) [OF rest] 2 s by simp
    show ?case
    proof (intro allI impI)
      fix j and g :: u32 assume "j < Suc n" and g: "unat g = unat h + j"
      show "slot ! slot_hash sz g \<noteq> None"
      proof (cases j)
        case 0
        with g have "g = h" by (simp add: word_unat_eq_iff)
        with full show ?thesis by simp
      next
        case (Suc j')
        with ih \<open>j < Suc n\<close> g s show ?thesis by simp
      qed
    qed }
qed

lemma scan_slots_append:
  assumes "unat h + m \<le> unat HANDLE_MASK + 1" and "scan_slots slot sz m h = Some h'"
  shows "scan_slots slot sz (m + n) h = Some h'"
  using assms
proof (induction m arbitrary: h)
  case (Suc m)
  then have le: "unat h \<le> unat HANDLE_MASK" by simp
  then have "\<not> h > HANDLE_MASK" by (simp add: word_less_nat_alt)
  with Suc unat_succ_no_wrap [OF le] show ?case by (auto simp: Let_def split: if_splits)
qed simp

text \<open>The copy succeeds when no slot is empty and the new hashes do not collide.\<close>

definition slot_key :: "hof \<Rightarrow> nat \<Rightarrow> ptr option \<Rightarrow> nat" where
  "slot_key hof sz2 x = slot_hash sz2 (the (hof (the x)))"

lemma rehash_slots_spec:
  assumes "\<forall>x \<in> set slots. \<exists>c h. x = Some c \<and> hof c = Some h" and "distinct (map (slot_key hof sz2) slots)"
    and "\<forall>x \<in> set slots. slot_key hof sz2 x < length new \<and> new ! slot_key hof sz2 x = None"
  shows "\<exists>new'. rehash_slots hof sz2 slots new = Inr new' \<and> length new' = length new \<and>
           (\<forall>i < length new. \<forall>c. new' ! i = Some c \<longleftrightarrow>
              new ! i = Some c \<or> (Some c \<in> set slots \<and> slot_key hof sz2 (Some c) = i))"
  using assms
proof (induction slots arbitrary: new)
  case (Cons x slots)
  then obtain c h where x: "x = Some c" "hof c = Some h" by auto
  define k where "k = slot_key hof sz2 x"
  have hash: "slot_hash sz2 h = k" using x by (simp add: k_def slot_key_def)
  have k: "k < length new" "new ! k = None" using Cons.prems(3) by (auto simp: k_def)
  have other: "\<forall>y \<in> set slots. slot_key hof sz2 y \<noteq> k" using Cons.prems(2) by (auto simp: k_def image_iff)
  let ?new = "new[k := Some c]"
  have "\<exists>new'. rehash_slots hof sz2 slots ?new = Inr new' \<and> length new' = length ?new \<and>
           (\<forall>i < length ?new. \<forall>c. new' ! i = Some c \<longleftrightarrow>
              ?new ! i = Some c \<or> (Some c \<in> set slots \<and> slot_key hof sz2 (Some c) = i))"
    using Cons.prems other by (intro Cons.IH) (auto simp: nth_list_update)
  then obtain new' where new': "rehash_slots hof sz2 slots ?new = Inr new'" "length new' = length new"
    "\<And>i c. i < length new \<Longrightarrow> new' ! i = Some c \<longleftrightarrow>
              ?new ! i = Some c \<or> (Some c \<in> set slots \<and> slot_key hof sz2 (Some c) = i)" by auto
  have "rehash_slots hof sz2 (x # slots) new = Inr new'" using x hash k new'(1) by simp
  moreover have "new' ! i = Some c' \<longleftrightarrow>
      new ! i = Some c' \<or> (Some c' \<in> set (x # slots) \<and> slot_key hof sz2 (Some c') = i)"
    if "i < length new" for i c'
  proof (cases "i = k")
    case True
    with new'(3) [OF that] other k x show ?thesis by (auto simp: k_def)
  next
    case False
    with new'(3) [OF that] x show ?thesis by (auto simp: k_def)
  qed
  ultimately show ?case using new'(2) by blast
qed simp

lemma hs_double:
  assumes ok: "hs_ok hof s" and full: "None \<notin> set (hs_slot s)" and small: "hs_slot_size s * 2 - 1 \<le> unat HANDLE_MASK"
  shows "\<exists>new. rehash_slots hof (hs_slot_size s * 2) (hs_slot s) (replicate (hs_slot_size s * 2) None) = Inr new \<and>
           hs_ok hof (s\<lparr>hs_slot := new, hs_slot_size := hs_slot_size s * 2\<rparr>) \<and>
           (\<forall>c. Some c \<in> set new \<longleftrightarrow> Some c \<in> set (hs_slot s))"
proof -
  obtain k where k: "k \<le> 24" "hs_slot_size s = 2 ^ k" using hs_ok_size [OF ok] by blast
  have len: "length (hs_slot s) = 2 ^ k" using ok k by (simp add: hs_ok_def)
  have k1: "k + 1 \<le> 24"
  proof (rule ccontr)
    assume "\<not> k + 1 \<le> 24"
    with k have "k = 24" by simp
    with small k show False by (simp add: HANDLE_MASK_def)
  qed
  have reg: "\<exists>c h. hs_slot s ! i = Some c \<and> hof c = Some h \<and> slot_hash (2 ^ k) h = i" if "i < 2 ^ k" for i
  proof -
    have "hs_slot s ! i \<in> set (hs_slot s)" using that len by simp
    with full obtain c where "hs_slot s ! i = Some c" by (cases "hs_slot s ! i") auto
    with hs_ok_slot [OF ok _ this] that k show ?thesis by auto
  qed
  let ?key = "slot_key hof (2 ^ (k + 1))"
  have mod_key: "?key (hs_slot s ! i) mod 2 ^ k = i" if lt: "i < 2 ^ k" for i
  proof -
    obtain c h where c: "hs_slot s ! i = Some c" "hof c = Some h" "slot_hash (2 ^ k) h = i" using reg [OF lt] by blast
    have "?key (hs_slot s ! i) = unat h mod 2 ^ (k + 1)"
      using c k1 by (simp only: slot_key_def option.sel slot_hash_eq)
    then have "?key (hs_slot s ! i) mod 2 ^ k = unat h mod 2 ^ k" by (simp add: mod_mod_cancel)
    with c(3) k(1) show ?thesis by (simp add: slot_hash_eq)
  qed
  have all: "\<forall>x \<in> set (hs_slot s). \<exists>c h. x = Some c \<and> hof c = Some h"
  proof
    fix x assume "x \<in> set (hs_slot s)"
    then obtain i where "i < 2 ^ k" "hs_slot s ! i = x" using len by (auto simp: in_set_conv_nth)
    with reg [of i] show "\<exists>c h. x = Some c \<and> hof c = Some h" by auto
  qed
  have dist: "distinct (map ?key (hs_slot s))"
  proof (unfold distinct_conv_nth, intro allI impI)
    fix i j assume "i < length (map ?key (hs_slot s))" "j < length (map ?key (hs_slot s))" "i \<noteq> j"
    with len have "i < 2 ^ k" "j < 2 ^ k" by simp_all
    with mod_key [of i] mod_key [of j] \<open>i \<noteq> j\<close> have "?key (hs_slot s ! i) \<noteq> ?key (hs_slot s ! j)" by metis
    with \<open>i < 2 ^ k\<close> \<open>j < 2 ^ k\<close> len show "map ?key (hs_slot s) ! i \<noteq> map ?key (hs_slot s) ! j" by simp
  qed
  have bound: "?key x < 2 ^ (k + 1)" for x
    unfolding slot_key_def using k1 by (intro slot_hash_less) simp
  obtain new where new: "rehash_slots hof (2 ^ (k + 1)) (hs_slot s) (replicate (2 ^ (k + 1)) None) = Inr new"
    "length new = 2 ^ (k + 1)"
    "\<And>i c. i < 2 ^ (k + 1) \<Longrightarrow> new ! i = Some c \<longleftrightarrow> Some c \<in> set (hs_slot s) \<and> ?key (Some c) = i"
    using rehash_slots_spec [OF all dist, of "replicate (2 ^ (k + 1)) None"] bound by auto
  have sz: "hs_slot_size s * 2 = 2 ^ (k + 1)" using k by simp
  have "\<exists>h. hof c = Some h \<and> slot_hash (2 ^ (k + 1)) h = i" if "i < 2 ^ (k + 1)" "new ! i = Some c" for i c
  proof -
    have "Some c \<in> set (hs_slot s)" and key: "?key (Some c) = i" using new(3) [OF that(1), of c] that(2) by blast+
    with all obtain h where "hof c = Some h" by auto
    with key show ?thesis by (simp add: slot_key_def)
  qed
  then have "hs_ok hof (s\<lparr>hs_slot := new, hs_slot_size := hs_slot_size s * 2\<rparr>)"
    using ok k1 new(2) unfolding hs_ok_def sz by (auto simp del: power_Suc power_add)
  moreover have "Some c \<in> set new \<longleftrightarrow> Some c \<in> set (hs_slot s)" for c
    using new(2,3) bound by (auto simp: in_set_conv_nth)
  ultimately show ?thesis using new(1) unfolding sz by blast
qed

lemma register_free:
  assumes ok: "hs_ok hof s" and fresh: "Some ctx \<notin> set (hs_slot s)"
    and scan: "scan_slots (hs_slot s) (hs_slot_size s) (hs_slot_size s) (hs_handle_index s) = Some g"
    and g: "slot_free = slot_hash (hs_slot_size s) g" "hs_slot s ! slot_free = None"
      "0 < unat g" "unat g \<le> unat HANDLE_MASK"
  defines "h \<equiv> g OR hs_harbor s"
  defines "s' \<equiv> s\<lparr>hs_slot := (hs_slot s)[slot_free := Some ctx], hs_handle_index := g + 1\<rparr>"
  shows "skynet_handle_register hof ctx s = Inr (h, s') \<and> hs_find hof s h = None \<and>
         hs_ok (hof(ctx \<mapsto> h)) s' \<and> hs_find (hof(ctx \<mapsto> h)) s' = (hs_find hof s)(h \<mapsto> ctx)"
proof -
  obtain k where k: "k \<le> 24" "hs_slot_size s = 2 ^ k" using hs_ok_size [OF ok] by blast
  have len: "length (hs_slot s) = 2 ^ k" using ok k by (simp add: hs_ok_def)
  have hash: "slot_hash (2 ^ k) h = slot_free"
    using slot_hash_harbor [OF k(1), of "hs_harbor s" g] ok g(1) k(2) by (simp add: h_def hs_ok_def)
  have free: "slot_free < 2 ^ k" using slot_hash_less [of k h] k(1) hash by simp
  have reg: "skynet_handle_register hof ctx s = Inr (h, s')"
    using scan k g(1) by (subst skynet_handle_register.simps) (simp add: h_def s'_def)
  have none: "hs_find hof s h = None" using hash g(2) k(2) by (simp add: hs_find_def)
  have "unat (g + 1) = unat g + 1" by (rule unat_succ_no_wrap [OF g(4)])
  then have "g + 1 \<noteq> 0" by (metis Suc_eq_plus1 nat.distinct(1) unat_0)
  moreover have "\<exists>h'. (hof(ctx \<mapsto> h)) c = Some h' \<and> slot_hash (2 ^ k) h' = i"
    if i: "i < 2 ^ k" and c: "(hs_slot s)[slot_free := Some ctx] ! i = Some c" for i c
  proof (cases "i = slot_free")
    case True
    with c free len hash show ?thesis by simp
  next
    case False
    with c have s: "hs_slot s ! i = Some c" by simp
    with i len fresh have "c \<noteq> ctx" by (metis nth_mem)
    with hs_ok_slot [OF ok _ s] i k(2) show ?thesis by auto
  qed
  ultimately have ok': "hs_ok (hof(ctx \<mapsto> h)) s'"
    using ok k by (auto simp: hs_ok_def s'_def)
  have "hs_find (hof(ctx \<mapsto> h)) s' x = ((hs_find hof s)(h \<mapsto> ctx)) x" for x
  proof (cases "slot_hash (2 ^ k) x = slot_free")
    case True
    then show ?thesis using k(2) g(2) free len by (auto simp: hs_find_def s'_def)
  next
    case False
    have "slot_hash (2 ^ k) x < 2 ^ k" using k(1) by (rule slot_hash_less [OF order_trans]) simp
    then have "hs_slot s ! slot_hash (2 ^ k) x \<noteq> Some ctx" using fresh len by (metis nth_mem)
    with False hash k(2) show ?thesis by (auto simp: hs_find_def s'_def split: option.splits)
  qed
  with reg none ok' show ?thesis by blast
qed

lemma word_of_nat_unat: "n \<le> unat HANDLE_MASK \<Longrightarrow> unat (word_of_nat n :: u32) = n"
  by (simp add: HANDLE_MASK_def unat_of_nat take_bit_nat_eq_self)

text \<open>After doubling, two probes half a table apart cannot both be taken, so the probe succeeds.\<close>

lemma scan_doubled:
  assumes ok: "hs_ok hof s" and k: "hs_slot_size s = 2 ^ k * 2" and room: "unat (hs_handle_index s) + 2 ^ k \<le> unat HANDLE_MASK"
    and sparse: "\<And>c c' h h'. Some c \<in> set (hs_slot s) \<Longrightarrow> Some c' \<in> set (hs_slot s) \<Longrightarrow> hof c = Some h \<Longrightarrow> hof c' = Some h' \<Longrightarrow>
      unat h mod 2 ^ k = unat h' mod 2 ^ k \<Longrightarrow> c = c'"
  shows "\<exists>g. scan_slots (hs_slot s) (hs_slot_size s) (hs_slot_size s) (hs_handle_index s) = Some g \<and>
     hs_slot s ! slot_hash (hs_slot_size s) g = None \<and>
     unat (hs_handle_index s) \<le> unat g \<and> unat g \<le> unat HANDLE_MASK"
proof -
  let ?n = "2 ^ k + 1 :: nat" and ?h = "hs_handle_index s"
  have lim: "unat ?h + ?n \<le> unat HANDLE_MASK + 1" using room by simp
  obtain k' where k': "k' \<le> 24" "hs_slot_size s = 2 ^ k'" using hs_ok_size [OF ok] by blast
  then have "(2::nat) ^ (k + 1) = 2 ^ k'" using k by simp
  then have "k + 1 = k'" using power_inject_exp [of "2::nat" "k + 1" k'] by simp
  with k' have k24: "k + 1 \<le> 24" "hs_slot_size s = 2 ^ (k + 1)" by simp_all
  show ?thesis
  proof (cases "scan_slots (hs_slot s) (hs_slot_size s) ?n ?h")
    case (Some g)
    from scan_slots_append [OF lim Some, of "2 ^ k - 1"]
    have "scan_slots (hs_slot s) (hs_slot_size s) (2 ^ k * 2) ?h = Some g" by (simp add: mult_2_right)
    then show ?thesis using scan_slots_spec(1) [OF lim Some] lim k by auto
  next
    case None
    let ?g = "word_of_nat (unat ?h + 2 ^ k) :: u32"
    have ug: "unat ?g = unat ?h + 2 ^ k" using room by (rule word_of_nat_unat)
    have full: "hs_slot s ! slot_hash (hs_slot_size s) g \<noteq> None" if "unat g = unat ?h + j" "j < ?n" for g j
      using scan_slots_spec(2) [OF lim None] that by blast
    obtain c where c: "hs_slot s ! slot_hash (hs_slot_size s) ?h = Some c" using full [of ?h 0] by auto
    obtain c' where c': "hs_slot s ! slot_hash (hs_slot_size s) ?g = Some c'" using full [of ?g "2 ^ k"] ug by auto
    obtain h1 where h1: "hof c = Some h1" "slot_hash (hs_slot_size s) h1 = slot_hash (hs_slot_size s) ?h"
      using hs_ok_slot [OF ok hs_hash_less [OF ok] c] by blast
    obtain h2 where h2: "hof c' = Some h2" "slot_hash (hs_slot_size s) h2 = slot_hash (hs_slot_size s) ?g"
      using hs_ok_slot [OF ok hs_hash_less [OF ok] c'] by blast
    have mods: "unat h1 mod 2 ^ (k + 1) = unat ?h mod 2 ^ (k + 1)" "unat h2 mod 2 ^ (k + 1) = unat ?g mod 2 ^ (k + 1)"
      using h1(2) h2(2) k24 by (simp_all only: slot_hash_eq order_trans [OF k24(1)])
    have "unat h1 mod 2 ^ k = unat ?h mod 2 ^ k" "unat h2 mod 2 ^ k = unat ?g mod 2 ^ k"
      using mods [THEN arg_cong [of _ _ "\<lambda>x. x mod 2 ^ k"]] by (simp_all add: mod_mod_cancel)
    moreover have "unat ?g mod 2 ^ k = unat ?h mod 2 ^ k" unfolding ug by simp
    moreover have "Some c \<in> set (hs_slot s)" "Some c' \<in> set (hs_slot s)"
      using c c' hs_hash_less [OF ok] ok by (metis hs_ok_def nth_mem)+
    ultimately have "c = c'" using sparse h1(1) h2(1) by metis
    then have "unat ?h mod 2 ^ (k + 1) = unat ?g mod 2 ^ (k + 1)" using h1(1) h2(1) mods by simp
    then have "(unat ?h + 0) mod 2 ^ (k + 1) = (unat ?h + 2 ^ k) mod 2 ^ (k + 1)" unfolding ug by simp
    from mod_ring_inj [OF _ _ this] show ?thesis by simp
  qed
qed

lemma all_probed:
  assumes ok: "hs_ok hof s" and room: "hs_room s"
    and none: "scan_slots (hs_slot s) (hs_slot_size s) (hs_slot_size s) (hs_handle_index s) = None"
  shows "None \<notin> set (hs_slot s)"
proof
  assume "None \<in> set (hs_slot s)"
  obtain k where k: "k \<le> 24" "hs_slot_size s = 2 ^ k" using hs_ok_size [OF ok] by blast
  obtain i where i: "i < 2 ^ k" "hs_slot s ! i = None"
    using \<open>None \<in> set (hs_slot s)\<close> ok k by (auto simp: in_set_conv_nth hs_ok_def)
  let ?h = "unat (hs_handle_index s)"
  define j where "j = (i + (2 ^ k - ?h mod 2 ^ k)) mod 2 ^ k"
  have j: "j < 2 ^ k" by (simp add: j_def)
  have "?h mod 2 ^ k < 2 ^ k" by simp
  then have "(?h mod 2 ^ k + (i + (2 ^ k - ?h mod 2 ^ k))) = i + 2 ^ k" by linarith
  then have "(?h + (i + (2 ^ k - ?h mod 2 ^ k))) mod 2 ^ k = i"
    using i(1) by (metis mod_add_left_eq mod_add_self2 mod_less)
  then have hj: "(?h + j) mod 2 ^ k = i" by (simp add: j_def mod_simps)
  let ?g = "word_of_nat (?h + j) :: u32"
  have ug: "unat ?g = ?h + j" using room j k by (intro word_of_nat_unat) (simp add: hs_room_def)
  have "slot_hash (2 ^ k) ?g = i" using k(1) hj ug by (simp add: slot_hash_eq)
  moreover have "?h + 2 ^ k \<le> unat HANDLE_MASK + 1" using room k by (simp add: hs_room_def)
  from scan_slots_spec(2) [OF this] none j ug k have "hs_slot s ! slot_hash (2 ^ k) ?g \<noteq> None" by simp
  ultimately show False using i(2) by simp
qed

definition register_post :: "hof \<Rightarrow> ptr \<Rightarrow> handle_storage \<Rightarrow> u32 \<Rightarrow> handle_storage \<Rightarrow> bool" where
  "register_post hof ctx s h s' \<longleftrightarrow>
     hs_find hof s h = None \<and> take_bit 24 h \<noteq> 0 \<and> drop_bit 24 h = drop_bit 24 (hs_harbor s) \<and>
     hs_harbor s' = hs_harbor s \<and> unat (hs_handle_index s) \<le> unat (take_bit 24 h) \<and>
     unat (take_bit 24 h) < unat (hs_handle_index s') \<and>
     (hs_name s' = hs_name s \<and> hs_name_count s' = hs_name_count s \<and> hs_name_cap s' = hs_name_cap s) \<and>
     hs_ok (hof(ctx \<mapsto> h)) s' \<and> hs_find (hof(ctx \<mapsto> h)) s' = (hs_find hof s)(h \<mapsto> ctx)"

lemma register_found:
  assumes ok: "hs_ok hof s" and fresh: "Some ctx \<notin> set (hs_slot s)"
    and scan: "scan_slots (hs_slot s) (hs_slot_size s) (hs_slot_size s) (hs_handle_index s) = Some g"
    and g: "hs_slot s ! slot_hash (hs_slot_size s) g = None"
      "unat (hs_handle_index s) \<le> unat g" "unat g \<le> unat HANDLE_MASK"
  shows "\<exists>h s'. skynet_handle_register hof ctx s = Inr (h, s') \<and> register_post hof ctx s h s'"
proof -
  let ?h = "g OR hs_harbor s"
  let ?s = "s\<lparr>hs_slot := (hs_slot s)[slot_hash (hs_slot_size s) g := Some ctx], hs_handle_index := g + 1\<rparr>"
  have "hs_handle_index s \<noteq> 0" using ok by (simp add: hs_ok_def)
  then have "unat (hs_handle_index s) \<noteq> 0" by (metis word_unat_eq_iff unat_0)
  with g(2) have pos: "0 < unat g" by linarith
  have low: "take_bit 24 (hs_harbor s) = 0" using ok by (simp add: hs_ok_def)
  have small: "unat g < 2 ^ 24" using g(3) by (simp add: HANDLE_MASK_def)
  have "unat (take_bit 24 g) = unat g" using small by (simp only: unat_take_bit mod_less)
  then have t: "take_bit 24 g = g" by (simp only: word_unat_eq_iff)
  have "unat (drop_bit 24 g) = 0" using small by (simp only: unat_drop_bit div_less)
  then have d: "drop_bit 24 g = 0" by (simp only: word_unat_eq_iff unat_0)
  have "take_bit 24 ?h \<noteq> 0" using t low pos by (auto simp: take_bit_or)
  moreover have "drop_bit 24 ?h = drop_bit 24 (hs_harbor s)" using d by (simp add: drop_bit_or)
  moreover have "take_bit 24 ?h = g" using t low by (simp add: take_bit_or)
  moreover have "unat g < unat (g + 1)" using unat_succ_no_wrap [OF g(3)] by simp
  ultimately show ?thesis
    using register_free [OF ok fresh scan refl g(1) pos g(3)] g(2)
    by (intro exI [of _ ?h] exI [of _ ?s]) (simp add: register_post_def)
qed

lemma handle_register_spec:
  assumes ok: "hs_ok hof s" and fresh: "Some ctx \<notin> set (hs_slot s)" and room: "hs_room s"
  shows "\<exists>h s'. skynet_handle_register hof ctx s = Inr (h, s') \<and> register_post hof ctx s h s'"
proof (cases "scan_slots (hs_slot s) (hs_slot_size s) (hs_slot_size s) (hs_handle_index s)")
  case (Some g)
  have "unat (hs_handle_index s) + hs_slot_size s \<le> unat HANDLE_MASK + 1" using room by (simp add: hs_room_def)
  from scan_slots_spec(1) [OF this Some] room show ?thesis
    by (intro register_found [OF ok fresh Some]) (auto simp: hs_room_def)
next
  case None
  obtain k where k: "k \<le> 24" "hs_slot_size s = 2 ^ k" using hs_ok_size [OF ok] by blast
  have r: "unat (hs_handle_index s) + 2 ^ k \<le> unat HANDLE_MASK" using room k by (simp add: hs_room_def)
  have "(2::nat) ^ k < 2 ^ 24" using r by (simp add: HANDLE_MASK_def)
  then have "k < 24" by (simp only: power_strict_increasing_iff)
  then have "k \<le> 23" by simp
  then have "(2::nat) ^ k \<le> 2 ^ 23" by (intro power_increasing) auto
  then have small: "hs_slot_size s * 2 - 1 \<le> unat HANDLE_MASK" using k by (simp add: HANDLE_MASK_def)
  obtain new where new: "rehash_slots hof (hs_slot_size s * 2) (hs_slot s) (replicate (hs_slot_size s * 2) None) = Inr new"
    and ok2: "hs_ok hof (s\<lparr>hs_slot := new, hs_slot_size := hs_slot_size s * 2\<rparr>)" (is "hs_ok hof ?s2")
    and same: "\<And>c. Some c \<in> set new \<longleftrightarrow> Some c \<in> set (hs_slot s)"
    using hs_double [OF ok all_probed [OF ok room None] small] by blast
  have step: "skynet_handle_register hof ctx s = skynet_handle_register hof ctx ?s2"
    using None small new k by (subst skynet_handle_register.simps) simp
  have "c = c'" if "Some c \<in> set (hs_slot ?s2)" "Some c' \<in> set (hs_slot ?s2)" "hof c = Some h" "hof c' = Some h'"
    "unat h mod 2 ^ k = unat h' mod 2 ^ k" for c c' h h'
  proof -
    have "hs_find hof s h = Some c" "hs_find hof s h' = Some c'" using that same hs_find_iff [OF ok] by auto
    moreover have "slot_hash (2 ^ k) h = slot_hash (2 ^ k) h'" using that(5) k(1) by (simp add: slot_hash_eq)
    ultimately show ?thesis using k(2) by (auto simp: hs_find_def split: option.splits if_splits)
  qed
  with scan_doubled [OF ok2, of k] r k obtain g where
    g: "scan_slots (hs_slot ?s2) (hs_slot_size ?s2) (hs_slot_size ?s2) (hs_handle_index ?s2) = Some g"
      "hs_slot ?s2 ! slot_hash (hs_slot_size ?s2) g = None" "unat (hs_handle_index ?s2) \<le> unat g" "unat g \<le> unat HANDLE_MASK"
    by auto
  have find: "hs_find hof ?s2 = hs_find hof s"
  proof
    fix h
    have "hs_find hof ?s2 h = Some c \<longleftrightarrow> hs_find hof s h = Some c" for c
      using hs_find_iff [OF ok] hs_find_iff [OF ok2] same by simp
    then show "hs_find hof ?s2 h = hs_find hof s h" by (metis option.exhaust)
  qed
  have "Some ctx \<notin> set (hs_slot ?s2)" using fresh same by simp
  from register_found [OF ok2 this g] show ?thesis
    unfolding step by (simp add: register_post_def find)
qed

section \<open>Frames and retirement\<close>

lemma hs_ok_frame:
  assumes "hs_ok hof s" and "\<And>c. Some c \<in> set (hs_slot s) \<Longrightarrow> hof' c = hof c"
  shows "hs_ok hof' s \<and> hs_find hof' s = hs_find hof s"
proof -
  have "hs_slot s ! i = Some c \<Longrightarrow> i < hs_slot_size s \<Longrightarrow> hof' c = hof c" for i c
    using assms by (metis hs_ok_def nth_mem)
  then have ok': "hs_ok hof' s" using assms(1) by (auto simp: hs_ok_def)
  have "hs_find hof' s h = Some c \<longleftrightarrow> hs_find hof s h = Some c" for h c
    using hs_find_iff [OF assms(1)] hs_find_iff [OF ok'] assms(2) by metis
  then have "hs_find hof' s = hs_find hof s" by (intro ext) (metis option.exhaust)
  with ok' show ?thesis by blast
qed

text \<open>The names as the code sees them: the first \<open>name_count\<close> entries of the array.\<close>

definition hs_names :: "handle_storage \<Rightarrow> handle_name list" where
  "hs_names s = map the (take (hs_name_count s) (hs_name s))"

lemma drop_names_spec:
  assumes "j \<le> i" and "i + n \<le> length name" and "None \<notin> set (take n (drop i name))"
  shows "\<exists>j' name'. drop_names h n i j name = Inr (j', name') \<and> j' \<le> i + n \<and> length name' = length name \<and>
           take j' name' = take j name @ filter (\<lambda>x. hn_handle (the x) \<noteq> h) (take n (drop i name))"
  using assms
proof (induction n arbitrary: i j name)
  case (Suc n)
  have i: "i < length name" using Suc.prems(2) by simp
  then have split: "take (Suc n) (drop i name) = name ! i # take n (drop (Suc i) name)"
    by (metis Cons_nth_drop_Suc take_Suc_Cons)
  then obtain nm where nm: "name ! i = Some nm" using Suc.prems(3) by (cases "name ! i") auto
  have rest: "None \<notin> set (take n (drop (Suc i) name))" using Suc.prems(3) split by auto
  show ?case
  proof (cases "hn_handle nm = h")
    case True
    have "drop_names h (Suc n) i j name = drop_names h n (i + 1) j name" using nm True by simp
    with Suc.IH [of j "i + 1" name] Suc.prems rest split nm True show ?thesis by auto
  next
    case False
    let ?name = "name[j := Some nm]"
    have same: "drop_names h (Suc n) i j name = drop_names h n (i + 1) (j + 1) ?name"
      using nm False list_update_id [of name j] by (cases "i = j") auto
    have "take (j + 1) ?name = take j name @ [Some nm]"
      using Suc.prems(1) i by (simp add: take_Suc_conv_app_nth)
    moreover have "drop (i + 1) ?name = drop (i + 1) name" using Suc.prems(1) by simp
    ultimately show ?thesis
      using Suc.IH [of "j + 1" "i + 1" ?name] Suc.prems rest split nm False same by auto
  qed
qed simp

lemma handle_retire_none:
  assumes "hs_ok hof s" and "hs_find hof s h = None"
  shows "skynet_handle_retire hof h s = Inr (s, None)"
  using assms by (simp add: skynet_handle_retire_def slot_lookup_find)

definition retire_post :: "hof \<Rightarrow> handle_storage \<Rightarrow> u32 \<Rightarrow> handle_storage \<Rightarrow> bool" where
  "retire_post hof s h s' \<longleftrightarrow>
     hs_ok hof s' \<and> hs_find hof s' = (hs_find hof s)(h := None) \<and>
     hs_names s' = filter (\<lambda>nm. hn_handle nm \<noteq> h) (hs_names s) \<and>
     hs_handle_index s' = hs_handle_index s \<and> hs_slot_size s' = hs_slot_size s \<and> hs_harbor s' = hs_harbor s"

lemma handle_retire_spec:
  assumes ok: "hs_ok hof s" and find: "hs_find hof s h = Some c"
  shows "\<exists>s'. skynet_handle_retire hof h s = Inr (s', Some c) \<and> retire_post hof s h s'"
proof -
  obtain k where k: "k \<le> 24" "hs_slot_size s = 2 ^ k" using hs_ok_size [OF ok] by blast
  have names: "hs_name_count s \<le> length (hs_name s)" "None \<notin> set (take (hs_name_count s) (hs_name s))"
    and len: "length (hs_slot s) = 2 ^ k"
    using ok k by (auto simp: hs_ok_def)
  obtain j name' where d: "drop_names h (hs_name_count s) 0 0 (hs_name s) = Inr (j, name')"
      "j \<le> hs_name_count s" "length name' = length (hs_name s)"
      "take j name' = filter (\<lambda>x. hn_handle (the x) \<noteq> h) (take (hs_name_count s) (hs_name s))"
    using drop_names_spec [of 0 0 "hs_name_count s" "hs_name s" h] names by auto
  let ?i = "slot_hash (hs_slot_size s) h"
  let ?s = "s\<lparr>hs_slot := (hs_slot s)[?i := None], hs_name := name', hs_name_count := j\<rparr>"
  have retire: "skynet_handle_retire hof h s = Inr (?s, Some c)"
    using find by (simp add: skynet_handle_retire_def slot_lookup_find [OF ok] d)
  have i: "?i < 2 ^ k" using hs_hash_less [OF ok] k(2) by metis
  have c: "hs_slot s ! ?i = Some c" using find by (auto simp: hs_find_def split: option.splits if_splits)
  have slots: "(hs_slot s)[?i := None] ! x = (if x = ?i then None else hs_slot s ! x)" if "x < 2 ^ k" for x
    using that len by (simp add: nth_list_update)
  have "None \<notin> set (take j name')" using d(4) names(2) by auto
  then have ok': "hs_ok hof ?s" using ok d(2,3) k slots by (auto simp: hs_ok_def split: if_splits)
  have "hs_find hof ?s x = ((hs_find hof s)(h := None)) x" for x
  proof -
    have "slot_hash (hs_slot_size s) x < 2 ^ k" using hs_hash_less [OF ok] k(2) by metis
    with slots c hs_find_handle [OF find] show ?thesis by (auto simp: hs_find_def split: option.splits)
  qed
  moreover have "hs_names ?s = filter (\<lambda>nm. hn_handle nm \<noteq> h) (hs_names s)"
    by (simp add: hs_names_def d(4) filter_map comp_def)
  ultimately show ?thesis using retire ok' by (auto simp: retire_post_def)
qed

section \<open>The handle table as a map\<close>

text \<open>
  What the rest of the node relies on: a finite map from handles to contexts. Every
  operation takes the contexts' own handles, and the map does not change when contexts
  outside it change.
\<close>

locale handle_table =
  fixes inv :: "hof \<Rightarrow> 's \<Rightarrow> bool"
    and find :: "hof \<Rightarrow> 's \<Rightarrow> u32 \<Rightarrow> ptr option"
    and room :: "'s \<Rightarrow> bool"
    and register :: "hof \<Rightarrow> ptr \<Rightarrow> 's \<Rightarrow> (u32 \<times> 's) res"
    and grab :: "hof \<Rightarrow> u32 \<Rightarrow> 's \<Rightarrow> ptr option res"
    and retire :: "hof \<Rightarrow> u32 \<Rightarrow> 's \<Rightarrow> ('s \<times> ptr option) res"
  assumes find_handle: "find hof s h = Some c \<Longrightarrow> hof c = Some h"
    and grab_find: "inv hof s \<Longrightarrow> grab hof h s = Inr (find hof s h)"
    and register_new: "inv hof s \<Longrightarrow> room s \<Longrightarrow> (\<And>h. find hof s h \<noteq> Some c) \<Longrightarrow> hof c = None \<or> hof c = Some 0 \<Longrightarrow>
      \<exists>h s'. register hof c s = Inr (h, s') \<and> find hof s h = None \<and> take_bit 24 h \<noteq> 0 \<and>
        inv (hof(c \<mapsto> h)) s' \<and> find (hof(c \<mapsto> h)) s' = (find hof s)(h \<mapsto> c)"
    and retire_none: "inv hof s \<Longrightarrow> find hof s h = None \<Longrightarrow> retire hof h s = Inr (s, None)"
    and retire_some: "inv hof s \<Longrightarrow> find hof s h = Some c \<Longrightarrow>
      \<exists>s'. retire hof h s = Inr (s', Some c) \<and> inv hof s' \<and> find hof s' = (find hof s)(h := None)"
    and frame: "inv hof s \<Longrightarrow> (\<And>h c. find hof s h = Some c \<Longrightarrow> hof' c = hof c) \<Longrightarrow>
      inv hof' s \<and> find hof' s = find hof s"
begin

lemma find_inj: "find hof s h = Some c \<Longrightarrow> find hof s h' = Some c \<Longrightarrow> h = h'"
  by (metis find_handle option.inject)

lemma grab_after_register:
  assumes "inv hof s" "room s" "\<And>h. find hof s h \<noteq> Some c" "hof c = None \<or> hof c = Some 0"
  shows "\<exists>h s'. register hof c s = Inr (h, s') \<and> grab (hof(c \<mapsto> h)) h s' = Inr (Some c) \<and>
           (\<forall>h' \<noteq> h. grab (hof(c \<mapsto> h)) h' s' = grab hof h' s)"
  using register_new [OF assms] grab_find assms(1) by force

lemma grab_after_retire:
  assumes "inv hof s" "find hof s h = Some c"
  shows "\<exists>s'. retire hof h s = Inr (s', Some c) \<and> grab hof h s' = Inr None \<and>
           (\<forall>h' \<noteq> h. grab hof h' s' = grab hof h' s)"
  using retire_some [OF assms] grab_find assms(1) by force

end

lemma hs_in_slot:
  assumes "hs_ok hof s" "Some c \<in> set (hs_slot s)"
  shows "\<exists>h. hs_find hof s h = Some c"
proof -
  obtain i where "i < hs_slot_size s" "hs_slot s ! i = Some c" using assms by (auto simp: in_set_conv_nth hs_ok_def)
  with hs_ok_slot [OF assms(1)] obtain h where "hof c = Some h" by blast
  with assms hs_find_iff show ?thesis by blast
qed

interpretation ht: handle_table hs_ok hs_find hs_room skynet_handle_register skynet_handle_grab skynet_handle_retire
proof unfold_locales
  fix hof s h c assume "hs_find hof s h = Some c"
  then show "hof c = Some h" by (rule hs_find_handle)
next
  fix hof s h assume "hs_ok hof s"
  then show "skynet_handle_grab hof h s = Inr (hs_find hof s h)"
    by (simp add: skynet_handle_grab_def slot_lookup_find)
next
  fix hof s c assume a: "hs_ok hof s" "hs_room s" "\<And>h. hs_find hof s h \<noteq> Some c"
  then have "Some c \<notin> set (hs_slot s)" using hs_in_slot by blast
  from handle_register_spec [OF a(1) this a(2)]
  show "\<exists>h s'. skynet_handle_register hof c s = Inr (h, s') \<and> hs_find hof s h = None \<and> take_bit 24 h \<noteq> 0 \<and>
        hs_ok (hof(c \<mapsto> h)) s' \<and> hs_find (hof(c \<mapsto> h)) s' = (hs_find hof s)(h \<mapsto> c)"
    by (auto simp: register_post_def)
next
  fix hof s h assume "hs_ok hof s" "hs_find hof s h = None"
  then show "skynet_handle_retire hof h s = Inr (s, None)" by (rule handle_retire_none)
next
  fix hof s h c assume "hs_ok hof s" "hs_find hof s h = Some c"
  from handle_retire_spec [OF this]
  show "\<exists>s'. skynet_handle_retire hof h s = Inr (s', Some c) \<and> hs_ok hof s' \<and> hs_find hof s' = (hs_find hof s)(h := None)"
    by (auto simp: retire_post_def)
next
  fix hof s hof' assume a: "hs_ok hof s" "\<And>h c. hs_find hof s h = Some c \<Longrightarrow> hof' c = hof c"
  then show "hs_ok hof' s \<and> hs_find hof' s = hs_find hof s" using hs_ok_frame hs_in_slot by metis
qed

section \<open>Properties\<close>

text \<open>
  C3: Registering a context that is not in the table, while the handle counter is not about to
  wrap, gives a non-zero handle of this harbor that no live context has, larger than all
  handles given before; afterwards the handle grabs that context, every other handle grabs
  what it did, and the table (doubled when it was full) keeps its invariant.
\<close>

theorem register_fresh_handle:
  assumes "hs_ok hof s" "hs_room s" "Some ctx \<notin> set (hs_slot s)"
  shows "\<exists>h s'. skynet_handle_register hof ctx s = Inr (h, s') \<and> hs_ok (hof(ctx \<mapsto> h)) s' \<and>
    hs_find hof s h = None \<and> take_bit 24 h \<noteq> 0 \<and> drop_bit 24 h = drop_bit 24 (hs_harbor s) \<and>
    unat (hs_handle_index s) \<le> unat (take_bit 24 h) \<and> unat (take_bit 24 h) < unat (hs_handle_index s') \<and>
    skynet_handle_grab (hof(ctx \<mapsto> h)) h s' = Inr (Some ctx) \<and>
    (\<forall>h' \<noteq> h. skynet_handle_grab (hof(ctx \<mapsto> h)) h' s' = skynet_handle_grab hof h' s)"
  using handle_register_spec [OF assms(1,3,2)] assms(1) ht.grab_find by (fastforce simp: register_post_def)

theorem register_fresh_handle_witness:
  "\<exists>h s'. skynet_handle_register (\<lambda>_. None) 5 (skynet_handle_init 1) = Inr (h, s') \<and>
     skynet_handle_grab ((\<lambda>_. None)(5 \<mapsto> h)) h s' = Inr (Some 5)"
  using register_fresh_handle [of "\<lambda>_. None" "skynet_handle_init 1" 5] hs_ok_init [of "\<lambda>_. None" 1]
  by (fastforce simp: hs_room_def skynet_handle_init_def DEFAULT_SLOT_SIZE_def HANDLE_MASK_def)

text \<open>
  Retiring a registered handle unlinks exactly its context, drops exactly its names (in
  order), and never faults; retiring an unknown handle changes nothing. A retired handle grabs
  nothing.
\<close>

theorem retire_exact:
  assumes "hs_ok hof s"
  shows "case hs_find hof s h of
      None \<Rightarrow> skynet_handle_retire hof h s = Inr (s, None)
    | Some c \<Rightarrow> \<exists>s'. skynet_handle_retire hof h s = Inr (s', Some c) \<and> hs_ok hof s' \<and>
        skynet_handle_grab hof h s' = Inr None \<and>
        (\<forall>h' \<noteq> h. skynet_handle_grab hof h' s' = skynet_handle_grab hof h' s) \<and>
        hs_names s' = filter (\<lambda>nm. hn_handle nm \<noteq> h) (hs_names s)"
proof (cases "hs_find hof s h")
  case None
  then show ?thesis using handle_retire_none [OF assms] by simp
next
  case (Some c)
  from handle_retire_spec [OF assms this] assms ht.grab_find show ?thesis
    by (fastforce simp: retire_post_def Some)
qed

theorem retire_exact_witness:
  "skynet_handle_retire (\<lambda>_. None) 7 (skynet_handle_init 1) = Inr (skynet_handle_init 1, None)"
  using retire_exact [OF hs_ok_init [of "\<lambda>_. None" 1], of 7] by (simp add: hs_find_init)


end
