(* ===== verification/HandleNames.thy ===== *)
theory HandleNames
  imports HandleStorage
begin

text \<open>
  The service names of \<open>skynet/skynet-src/skynet_handle.c\<close>: an array of (name, handle)
  pairs sorted by name, searched by bisection, with insertion by shifting. \<open>strcmp\<close> is the
  C function on byte strings; the order it gives is the lexicographic order of
  \<open>List_Lexorder\<close> over \<open>Char_ord\<close>.
\<close>

definition MAX_SLOT_SIZE :: nat where "MAX_SLOT_SIZE = 0x40000000"

fun strcmp :: "string \<Rightarrow> string \<Rightarrow> int" where
  "strcmp [] [] = 0"
| "strcmp [] (y # ys) = - int (of_char y)"
| "strcmp (x # xs) [] = int (of_char x)"
| "strcmp (x # xs) (y # ys) = (if x = y then strcmp xs ys else int (of_char x) - int (of_char y))"

text \<open>The bisection shared by \<open>skynet_handle_findname\<close> and \<open>_insert_name\<close>: the entry, or the place where the name belongs.\<close>

function name_search :: "handle_name option list \<Rightarrow> string \<Rightarrow> int \<Rightarrow> int \<Rightarrow> (int + handle_name) res" where
  "name_search name key bgn fin =
     (if bgn \<le> fin then
        (let mid = (bgn + fin) div 2
         in if mid < 0 \<or> nat mid \<ge> length name then Inl OutOfBounds
            else case name ! nat mid of
              None \<Rightarrow> Inl UninitRead
            | Some n \<Rightarrow>
                (let c = strcmp (hn_name n) key
                 in if c = 0 then Inr (Inr n)
                    else if c < 0 then name_search name key (mid + 1) fin
                    else name_search name key bgn (mid - 1)))
      else Inr (Inl bgn))"
  by pat_completeness auto
termination
  by (relation "measure (\<lambda>(name, key, bgn, fin). nat (fin - bgn + 1))") auto

declare name_search.simps [simp del]

definition skynet_handle_findname :: "string \<Rightarrow> handle_storage \<Rightarrow> u32 res" where
  "skynet_handle_findname key s =
     bind_res (name_search (hs_name s) key 0 (int (hs_name_count s) - 1)) (\<lambda>r.
       case r of Inl _ \<Rightarrow> Inr 0 | Inr n \<Rightarrow> Inr (hn_handle n))"

text \<open>\<open>for (i=from; i<from+n; i++) dst[i+off] = src[i]\<close>\<close>

fun copy_names :: "handle_name option list \<Rightarrow> handle_name option list \<Rightarrow> nat \<Rightarrow> nat \<Rightarrow> nat \<Rightarrow> handle_name option list" where
  "copy_names src dst i 0 off = dst"
| "copy_names src dst i (Suc n) off = copy_names src (dst[i + off := src ! i]) (i + 1) n off"

text \<open>\<open>for (i=before+n; i>before; i--) name[i] = name[i-1]\<close>\<close>

fun shift_names :: "handle_name option list \<Rightarrow> nat \<Rightarrow> nat \<Rightarrow> handle_name option list" where
  "shift_names name before 0 = name"
| "shift_names name before (Suc n) =
     shift_names (name[before + Suc n := name ! (before + n)]) before n"

definition insert_name_before :: "handle_storage \<Rightarrow> string \<Rightarrow> u32 \<Rightarrow> nat \<Rightarrow> handle_storage res" where
  "insert_name_before s name handle before =
     bind_res
       (if hs_name_count s \<ge> hs_name_cap s then
          bind_res (assert_res (hs_name_cap s * 2 \<le> MAX_SLOT_SIZE) AssertFailed) (\<lambda>_.
            let n0 = replicate (hs_name_cap s * 2) None;
                n1 = copy_names (hs_name s) n0 0 before 0;
                n2 = copy_names (hs_name s) n1 before (hs_name_count s - before) 1
            in Inr (s\<lparr>hs_name_cap := hs_name_cap s * 2, hs_name := n2\<rparr>))
        else if hs_name_count s < length (hs_name s) then
          Inr (s\<lparr>hs_name := shift_names (hs_name s) before (hs_name_count s - before)\<rparr>)
        else Inl OutOfBounds)
       (\<lambda>s1.
         if before < length (hs_name s1) then
           Inr (s1\<lparr>hs_name := (hs_name s1)[before := Some \<lparr>hn_name = name, hn_handle = handle\<rparr>],
                   hs_name_count := hs_name_count s1 + 1\<rparr>)
         else Inl OutOfBounds)"

text \<open>\<open>_insert_name\<close>: \<open>None\<close> is the null pointer returned for a name that is taken.\<close>

definition insert_name :: "handle_storage \<Rightarrow> string \<Rightarrow> u32 \<Rightarrow> (handle_storage \<times> string option) res" where
  "insert_name s name handle =
     bind_res (name_search (hs_name s) name 0 (int (hs_name_count s) - 1)) (\<lambda>r.
       case r of
         Inr n \<Rightarrow> Inr (s, None)
       | Inl bgn \<Rightarrow> bind_res (insert_name_before s name handle (nat bgn)) (\<lambda>s'. Inr (s', Some name)))"

definition skynet_handle_namehandle :: "u32 \<Rightarrow> string \<Rightarrow> handle_storage \<Rightarrow> (handle_storage \<times> string option) res" where
  "skynet_handle_namehandle handle name s = insert_name s name handle"

section \<open>The order of strcmp\<close>

lemma of_char_pos: "c \<noteq> CHR 0x00 \<Longrightarrow> (0::nat) < of_char c"
proof (rule ccontr)
  assume "c \<noteq> CHR 0x00" and "\<not> (0::nat) < of_char c"
  then have "(of_char c :: nat) = 0" by simp
  also have "0 = (of_char (CHR 0x00) :: nat)" by simp
  finally have "c = CHR 0x00" by (simp only: of_char_eq_iff)
  with \<open>c \<noteq> CHR 0x00\<close> show False by simp
qed

text \<open>C strings hold no null byte.\<close>

definition c_string :: "string \<Rightarrow> bool" where
  "c_string a \<longleftrightarrow> CHR 0x00 \<notin> set a"

lemma strcmp_zero: "c_string a \<Longrightarrow> c_string b \<Longrightarrow> strcmp a b = 0 \<longleftrightarrow> a = b"
  unfolding c_string_def
proof (induction a b rule: strcmp.induct)
  case (2 y ys)
  with of_char_pos [of y] show ?case by auto
next
  case (3 x xs)
  with of_char_pos [of x] show ?case by auto
qed auto

lemma strcmp_neg: "c_string a \<Longrightarrow> c_string b \<Longrightarrow> strcmp a b < 0 \<longleftrightarrow> a < b"
  unfolding c_string_def
proof (induction a b rule: strcmp.induct)
  case (2 y ys)
  with of_char_pos [of y] show ?case by auto
qed (auto simp: less_char_def)

section \<open>The invariant\<close>

definition names_ok :: "handle_storage \<Rightarrow> bool" where
  "names_ok s \<longleftrightarrow> sorted_wrt (<) (map hn_name (hs_names s)) \<and> (\<forall>nm \<in> set (hs_names s). c_string (hn_name nm))"

definition hs_array_ok :: "handle_storage \<Rightarrow> bool" where
  "hs_array_ok s \<longleftrightarrow>
     hs_name_count s \<le> length (hs_name s) \<and> length (hs_name s) = hs_name_cap s \<and> 0 < hs_name_cap s \<and>
     None \<notin> set (take (hs_name_count s) (hs_name s))"

definition name_map :: "handle_storage \<Rightarrow> string \<Rightarrow> u32 option" where
  "name_map s = map_of (map (\<lambda>nm. (hn_name nm, hn_handle nm)) (hs_names s))"

lemma hs_ok_array: "hs_ok hof s \<Longrightarrow> hs_array_ok s"
  by (simp add: hs_ok_def hs_array_ok_def)

lemma length_names: "hs_array_ok s \<Longrightarrow> length (hs_names s) = hs_name_count s"
  by (simp add: hs_names_def hs_array_ok_def)

lemma names_nth:
  assumes "hs_array_ok s" and "i < hs_name_count s"
  shows "hs_name s ! i = Some (hs_names s ! i)"
proof -
  have "hs_name s ! i \<in> set (take (hs_name_count s) (hs_name s))"
    using assms by (auto simp: hs_array_ok_def in_set_conv_nth)
  moreover have "None \<notin> set (take (hs_name_count s) (hs_name s))" using assms by (simp add: hs_array_ok_def)
  ultimately obtain n where "hs_name s ! i = Some n" by (metis option.exhaust)
  with assms show ?thesis by (simp add: hs_names_def hs_array_ok_def)
qed

lemma names_prefix:
  assumes "hs_array_ok s" shows "take (hs_name_count s) (hs_name s) = map Some (hs_names s)"
  using assms names_nth [OF assms] length_names [OF assms]
  by (intro nth_equalityI) (auto simp: hs_array_ok_def)

lemma names_less:
  assumes "names_ok s" and "i < j" and "j < length (hs_names s)"
  shows "hn_name (hs_names s ! i) < hn_name (hs_names s ! j)"
  using assms sorted_wrt_nth_less [of "(<)" "map hn_name (hs_names s)" i j] by (simp add: names_ok_def)

section \<open>Bisection\<close>

text \<open>What is left of \<open>bgn\<close> is smaller than the key, what is right of \<open>fin\<close> is greater.\<close>

lemma name_search_spec:
  assumes "hs_array_ok s" "names_ok s" "c_string key" "0 \<le> bgn" "bgn \<le> fin + 1" "fin < int (hs_name_count s)"
    and "\<And>i. i < hs_name_count s \<Longrightarrow> int i < bgn \<Longrightarrow> hn_name (hs_names s ! i) < key"
    and "\<And>i. i < hs_name_count s \<Longrightarrow> fin < int i \<Longrightarrow> key < hn_name (hs_names s ! i)"
  shows "(\<exists>i < hs_name_count s. hn_name (hs_names s ! i) = key \<and>
            name_search (hs_name s) key bgn fin = Inr (Inr (hs_names s ! i))) \<or>
         (\<exists>b \<le> hs_name_count s. name_search (hs_name s) key bgn fin = Inr (Inl (int b)) \<and>
            (\<forall>i < b. hn_name (hs_names s ! i) < key) \<and>
            (\<forall>i < hs_name_count s. b \<le> i \<longrightarrow> key < hn_name (hs_names s ! i)))"
  using assms(4-)
proof (induction "nat (fin - bgn + 1)" arbitrary: bgn fin rule: less_induct)
  case less
  show ?case
  proof (cases "bgn \<le> fin")
    case False
    then have "name_search (hs_name s) key bgn fin = Inr (Inl (int (nat bgn)))" and "bgn = fin + 1"
      using less.prems by (auto simp: name_search.simps)
    with less.prems show ?thesis by (intro disjI2 exI [of _ "nat bgn"]) auto
  next
    case True
    define m where "m = nat ((bgn + fin) div 2)"
    have m: "int m = (bgn + fin) div 2" "bgn \<le> int m" "int m \<le> fin" "m < hs_name_count s"
      using True less.prems(1,3) by (auto simp: m_def)
    have len: "m < length (hs_name s)" using m(4) assms(1) by (auto simp: hs_array_ok_def)
    have nm: "hs_name s ! m = Some (hs_names s ! m)" by (rule names_nth [OF assms(1) m(4)])
    let ?n = "hn_name (hs_names s ! m)"
    have cs: "c_string ?n" using assms(1,2) m(4) length_names [OF assms(1)] by (simp add: names_ok_def)
    have step: "name_search (hs_name s) key bgn fin =
        (if strcmp ?n key = 0 then Inr (Inr (hs_names s ! m))
         else if strcmp ?n key < 0 then name_search (hs_name s) key (int m + 1) fin
         else name_search (hs_name s) key bgn (int m - 1))"
      using True len nm m by (subst name_search.simps) (simp add: Let_def m_def [symmetric] flip: m(1))
    consider "?n = key" | "?n < key" | "key < ?n" by fastforce
    then show ?thesis
    proof cases
      case 1
      then show ?thesis using m(4) step strcmp_zero [OF cs assms(3)] by auto
    next
      case 2
      then have "name_search (hs_name s) key bgn fin = name_search (hs_name s) key (int m + 1) fin"
        using step strcmp_neg [OF cs assms(3)] by simp
      moreover have "hn_name (hs_names s ! i) < key" if "i < hs_name_count s" "int i < int m + 1" for i
        using that 2 names_less [OF assms(2), of i m] m(4) length_names [OF assms(1)] by (cases "i = m") auto
      ultimately show ?thesis using less.hyps [of fin "int m + 1"] less.prems m by simp
    next
      case 3
      then have "\<not> ?n < key" "?n \<noteq> key" by auto
      then have "name_search (hs_name s) key bgn fin = name_search (hs_name s) key bgn (int m - 1)"
        using step strcmp_neg [OF cs assms(3)] strcmp_zero [OF cs assms(3)] by simp
      moreover have "key < hn_name (hs_names s ! i)" if "i < hs_name_count s" "int m - 1 < int i" for i
        using that 3 names_less [OF assms(2), of m i] length_names [OF assms(1)] by (cases "i = m") auto
      ultimately show ?thesis using less.hyps [of "int m - 1" bgn] less.prems m by simp
    qed
  qed
qed

section \<open>Lookup\<close>

lemma name_map_some:
  assumes "hs_array_ok s" "names_ok s" "i < hs_name_count s"
  shows "name_map s (hn_name (hs_names s ! i)) = Some (hn_handle (hs_names s ! i))"
proof -
  let ?ps = "map (\<lambda>nm. (hn_name nm, hn_handle nm)) (hs_names s)"
  have "distinct (map hn_name (hs_names s))"
    using assms(2) by (auto simp: names_ok_def strict_sorted_iff)
  then have "distinct (map fst ?ps)" by (simp add: comp_def)
  moreover have "(hn_name (hs_names s ! i), hn_handle (hs_names s ! i)) \<in> set ?ps"
    using assms(3) length_names [OF assms(1)] by (auto intro!: image_eqI [OF refl nth_mem])
  ultimately show ?thesis unfolding name_map_def by (rule map_of_is_SomeI)
qed

lemma name_map_none:
  assumes "hs_array_ok s" "\<And>i. i < hs_name_count s \<Longrightarrow> hn_name (hs_names s ! i) \<noteq> key"
  shows "name_map s key = None"
  using assms(2) length_names [OF assms(1)]
  by (force simp: name_map_def map_of_eq_None_iff in_set_conv_nth)

lemma name_search_full:
  assumes "hs_array_ok s" "names_ok s" "c_string key"
  shows "(\<exists>i < hs_name_count s. hn_name (hs_names s ! i) = key \<and>
            name_search (hs_name s) key 0 (int (hs_name_count s) - 1) = Inr (Inr (hs_names s ! i))) \<or>
         (\<exists>b \<le> hs_name_count s. name_search (hs_name s) key 0 (int (hs_name_count s) - 1) = Inr (Inl (int b)) \<and>
            (\<forall>i < b. hn_name (hs_names s ! i) < key) \<and>
            (\<forall>i < hs_name_count s. b \<le> i \<longrightarrow> key < hn_name (hs_names s ! i)))"
  by (rule name_search_spec [OF assms]) auto

lemma findname_spec:
  assumes "hs_array_ok s" "names_ok s" "c_string key"
  shows "skynet_handle_findname key s = Inr (case name_map s key of None \<Rightarrow> 0 | Some h \<Rightarrow> h)"
  using name_search_full [OF assms]
proof
  assume "\<exists>i < hs_name_count s. hn_name (hs_names s ! i) = key \<and>
            name_search (hs_name s) key 0 (int (hs_name_count s) - 1) = Inr (Inr (hs_names s ! i))"
  then show ?thesis using name_map_some [OF assms(1,2)] by (auto simp: skynet_handle_findname_def)
next
  assume a: "\<exists>b \<le> hs_name_count s. name_search (hs_name s) key 0 (int (hs_name_count s) - 1) = Inr (Inl (int b)) \<and>
            (\<forall>i < b. hn_name (hs_names s ! i) < key) \<and>
            (\<forall>i < hs_name_count s. b \<le> i \<longrightarrow> key < hn_name (hs_names s ! i))"
  then have "name_map s key = None"
    by (intro name_map_none [OF assms(1)]) (metis less_irrefl not_le)
  with a show ?thesis by (auto simp: skynet_handle_findname_def)
qed

section \<open>Insertion\<close>

lemma copy_names_nth:
  assumes "i + n + off \<le> length dst"
  shows "length (copy_names src dst i n off) = length dst \<and>
         (\<forall>x < length dst. copy_names src dst i n off ! x =
            (if i + off \<le> x \<and> x < i + n + off then src ! (x - off) else dst ! x))"
  using assms
proof (induction n arbitrary: i dst)
  case (Suc n)
  let ?dst = "dst[i + off := src ! i]"
  have "length (copy_names src ?dst (i + 1) n off) = length ?dst \<and>
         (\<forall>x < length ?dst. copy_names src ?dst (i + 1) n off ! x =
            (if i + 1 + off \<le> x \<and> x < i + 1 + n + off then src ! (x - off) else ?dst ! x))"
    using Suc.prems by (intro Suc.IH) simp
  then have len: "length (copy_names src ?dst (i + 1) n off) = length dst" and
    ih: "\<And>x. x < length dst \<Longrightarrow> copy_names src ?dst (i + 1) n off ! x =
            (if i + 1 + off \<le> x \<and> x < i + 1 + n + off then src ! (x - off) else ?dst ! x)" by auto
  have "copy_names src ?dst (i + 1) n off ! x =
          (if i + off \<le> x \<and> x < i + Suc n + off then src ! (x - off) else dst ! x)" if "x < length dst" for x
    using ih [OF that] that by (cases "x = i + off") auto
  with len show ?case by simp
qed auto

lemma shift_names_nth:
  assumes "before + n < length name"
  shows "length (shift_names name before n) = length name \<and>
         (\<forall>x < length name. shift_names name before n ! x =
            (if before < x \<and> x \<le> before + n then name ! (x - 1) else name ! x))"
  using assms
proof (induction n arbitrary: name)
  case (Suc n)
  let ?name = "name[before + Suc n := name ! (before + n)]"
  have "length (shift_names ?name before n) = length ?name \<and>
         (\<forall>x < length ?name. shift_names ?name before n ! x =
            (if before < x \<and> x \<le> before + n then ?name ! (x - 1) else ?name ! x))"
    using Suc.prems by (intro Suc.IH) simp
  then have len: "length (shift_names ?name before n) = length name" and
    ih: "\<And>x. x < length name \<Longrightarrow> shift_names ?name before n ! x =
            (if before < x \<and> x \<le> before + n then ?name ! (x - 1) else ?name ! x)" by auto
  have "shift_names ?name before n ! x =
          (if before < x \<and> x \<le> before + Suc n then name ! (x - 1) else name ! x)" if "x < length name" for x
    using ih [OF that] that by (cases "x = before + Suc n") auto
  with len show ?case by simp
qed auto

definition new_name :: "string \<Rightarrow> u32 \<Rightarrow> handle_name" where
  "new_name key h = \<lparr>hn_name = key, hn_handle = h\<rparr>"

lemma insert_name_before_spec:
  assumes ok: "hs_array_ok s" and b: "b \<le> hs_name_count s" and cap: "hs_name_cap s * 2 \<le> MAX_SLOT_SIZE"
  shows "\<exists>s'. insert_name_before s key h b = Inr s' \<and> hs_array_ok s' \<and>
           hs_names s' = take b (hs_names s) @ new_name key h # drop b (hs_names s) \<and>
           hs_slot s' = hs_slot s \<and> hs_slot_size s' = hs_slot_size s \<and> hs_harbor s' = hs_harbor s \<and>
           hs_handle_index s' = hs_handle_index s"
proof -
  let ?n = "hs_name_count s" and ?cap = "hs_name_cap s" and ?name = "hs_name s"
  have arr: "?n \<le> ?cap" "length ?name = ?cap" "0 < ?cap" using ok by (auto simp: hs_array_ok_def)
  define grown where "grown = copy_names ?name (copy_names ?name (replicate (?cap * 2) None) 0 b 0) b (?n - b) 1"
  define moved where "moved = (if ?n \<ge> ?cap then grown else shift_names ?name b (?n - b))"
  define cap' where "cap' = (if ?n \<ge> ?cap then ?cap * 2 else ?cap)"
  have run: "insert_name_before s key h b =
      (if b < length moved then
         Inr (s\<lparr>hs_name_cap := cap', hs_name := moved[b := Some (new_name key h)], hs_name_count := ?n + 1\<rparr>)
       else Inl OutOfBounds)"
    using cap arr by (simp add: insert_name_before_def Let_def moved_def grown_def cap'_def new_name_def)
  have c1: "length (copy_names ?name (replicate (?cap * 2) None) 0 b 0) = ?cap * 2 \<and>
     (\<forall>x < ?cap * 2. copy_names ?name (replicate (?cap * 2) None) 0 b 0 ! x = (if x < b then ?name ! x else None))"
    using copy_names_nth [of 0 b 0 "replicate (?cap * 2) None" ?name] b arr by auto
  have grow: "length grown = ?cap * 2" "\<And>x. x \<le> ?n \<Longrightarrow> x \<noteq> b \<Longrightarrow> grown ! x = (if x < b then ?name ! x else ?name ! (x - 1))"
    using copy_names_nth [of b "?n - b" 1 "copy_names ?name (replicate (?cap * 2) None) 0 b 0" ?name] c1 b arr
    by (auto simp: grown_def)
  have moved: "length moved = cap'" "?n < cap'"
    "\<And>x. x \<le> ?n \<Longrightarrow> x \<noteq> b \<Longrightarrow> moved ! x = (if x < b then ?name ! x else ?name ! (x - 1))"
    using grow shift_names_nth [of b "?n - b" ?name] b arr by (auto simp: moved_def cap'_def split: if_splits)
  let ?s = "s\<lparr>hs_name_cap := cap', hs_name := moved[b := Some (new_name key h)], hs_name_count := ?n + 1\<rparr>"
  let ?new = "take b (hs_names s) @ new_name key h # drop b (hs_names s)"
  have len: "length (hs_names s) = ?n" by (rule length_names [OF ok])
  have prefix: "take (?n + 1) (moved[b := Some (new_name key h)]) = map Some ?new" (is "?l = ?r")
  proof (rule nth_equalityI)
    show "length ?l = length ?r" using moved b len by simp
  next
    fix x assume "x < length ?l"
    then have x: "x \<le> ?n" "x < cap'" using moved by auto
    consider "x < b" | "x = b" | "b < x" by linarith
    then show "?l ! x = ?r ! x"
    proof cases
      case 1
      with x moved b len names_nth [OF ok, of x] show ?thesis by (simp add: nth_append)
    next
      case 2
      with x moved b len show ?thesis by (simp add: nth_append)
    next
      case 3
      then obtain y where "x = Suc y" by (cases x) auto
      with 3 x moved b len names_nth [OF ok, of y] show ?thesis by (simp add: nth_append Suc_diff_le)
    qed
  qed
  have "None \<notin> set (take (?n + 1) (moved[b := Some (new_name key h)]))" unfolding prefix by auto
  then have "hs_array_ok ?s" using moved by (simp add: hs_array_ok_def)
  moreover have "hs_names ?s = ?new"
  proof -
    have "hs_names ?s = map the (take (?n + 1) (moved[b := Some (new_name key h)]))" by (simp add: hs_names_def)
    also have "\<dots> = map the (map Some ?new)" by (simp only: prefix)
    also have "\<dots> = ?new" by (simp only: map_map comp_def option.sel map_ident)
    finally show ?thesis .
  qed
  ultimately show ?thesis using run moved b by (intro exI [of _ ?s]) simp
qed

lemma names_ok_insert:
  assumes ok: "hs_array_ok s" "names_ok s" and key: "c_string key" and b: "b \<le> hs_name_count s"
    and lo: "\<forall>i < b. hn_name (hs_names s ! i) < key"
    and hi: "\<forall>i < hs_name_count s. b \<le> i \<longrightarrow> key < hn_name (hs_names s ! i)"
    and new: "hs_names s' = take b (hs_names s) @ new_name key h # drop b (hs_names s)"
  shows "names_ok s' \<and> name_map s' = (name_map s)(key \<mapsto> h)"
proof -
  have len: "length (hs_names s) = hs_name_count s" by (rule length_names [OF ok(1)])
  let ?N = "map hn_name (hs_names s)"
  have l: "\<forall>x \<in> set (take b ?N). x < key" using lo b len by (auto simp: in_set_conv_nth)
  have r: "\<forall>x \<in> set (drop b ?N). key < x" using hi b len by (auto simp: in_set_conv_nth)
  have "sorted_wrt (<) (take b ?N @ drop b ?N)" using ok(2) by (simp add: names_ok_def)
  then have "sorted_wrt (<) (take b ?N @ key # drop b ?N)"
    using l r by (auto simp: sorted_wrt_append simp del: append_take_drop_id)
  then have srt: "names_ok s'"
    using ok(2) key by (auto simp: names_ok_def new new_name_def take_map drop_map dest: in_set_takeD in_set_dropD)
  have "name_map s' x = ((name_map s)(key \<mapsto> h)) x" for x
  proof -
    let ?ps = "map (\<lambda>nm. (hn_name nm, hn_handle nm)) (hs_names s)"
    have "map_of (take b ?ps) key = None" using l by (force simp: map_of_eq_None_iff take_map)
    moreover have "map_of (take b ?ps @ drop b ?ps) = map_of ?ps" by (simp only: append_take_drop_id)
    then have "map_of ?ps = map_of (drop b ?ps) ++ map_of (take b ?ps)" by (simp only: map_of_append)
    ultimately show ?thesis
      by (auto simp: name_map_def new new_name_def take_map [symmetric] drop_map [symmetric] map_add_def split: option.split)
  qed
  with srt show ?thesis by blast
qed

definition same_slots :: "handle_storage \<Rightarrow> handle_storage \<Rightarrow> bool" where
  "same_slots s s' \<longleftrightarrow> hs_slot s' = hs_slot s \<and> hs_slot_size s' = hs_slot_size s \<and>
     hs_harbor s' = hs_harbor s \<and> hs_handle_index s' = hs_handle_index s"

lemma hs_ok_same_slots: "hs_ok hof s \<Longrightarrow> same_slots s s' \<Longrightarrow> hs_array_ok s' \<Longrightarrow> hs_ok hof s' \<and> hs_find hof s' = hs_find hof s"
  by (auto simp: hs_ok_def same_slots_def hs_array_ok_def hs_find_def fun_eq_iff split: option.splits)

lemma namehandle_spec:
  assumes ok: "hs_array_ok s" "names_ok s" "c_string key" and cap: "hs_name_cap s * 2 \<le> MAX_SLOT_SIZE"
  shows "if name_map s key = None
         then \<exists>s'. skynet_handle_namehandle h key s = Inr (s', Some key) \<and> hs_array_ok s' \<and> names_ok s' \<and>
                name_map s' = (name_map s)(key \<mapsto> h) \<and> same_slots s s'
         else skynet_handle_namehandle h key s = Inr (s, None)"
  using name_search_full [OF ok]
proof
  assume "\<exists>i < hs_name_count s. hn_name (hs_names s ! i) = key \<and>
            name_search (hs_name s) key 0 (int (hs_name_count s) - 1) = Inr (Inr (hs_names s ! i))"
  then show ?thesis using name_map_some [OF ok(1,2)]
    by (auto simp: skynet_handle_namehandle_def insert_name_def)
next
  assume "\<exists>b \<le> hs_name_count s. name_search (hs_name s) key 0 (int (hs_name_count s) - 1) = Inr (Inl (int b)) \<and>
            (\<forall>i < b. hn_name (hs_names s ! i) < key) \<and>
            (\<forall>i < hs_name_count s. b \<le> i \<longrightarrow> key < hn_name (hs_names s ! i))"
  then obtain b where b: "b \<le> hs_name_count s"
      "name_search (hs_name s) key 0 (int (hs_name_count s) - 1) = Inr (Inl (int b))"
      "\<forall>i < b. hn_name (hs_names s ! i) < key"
      "\<forall>i < hs_name_count s. b \<le> i \<longrightarrow> key < hn_name (hs_names s ! i)" by blast
  have none: "name_map s key = None"
    using b(3,4) by (intro name_map_none [OF ok(1)]) (metis less_irrefl not_le)
  obtain s' where s': "insert_name_before s key h b = Inr s'" "hs_array_ok s'"
      "hs_names s' = take b (hs_names s) @ new_name key h # drop b (hs_names s)" "same_slots s s'"
    using insert_name_before_spec [OF ok(1) b(1) cap] by (auto simp: same_slots_def)
  from names_ok_insert [OF ok b(1,3,4) s'(3)] s' none b(2) show ?thesis
    by (simp add: skynet_handle_namehandle_def insert_name_def)
qed

lemma names_ok_filter:
  assumes "names_ok s" and "hs_names s' = filter P (hs_names s)"
  shows "names_ok s'"
  using assms sorted_wrt_filter [of "\<lambda>a b. hn_name a < hn_name b" "hs_names s" P]
  by (auto simp: names_ok_def sorted_wrt_map)

lemma names_ok_init: "names_ok (skynet_handle_init harbor)"
  by (simp add: names_ok_def hs_names_def skynet_handle_init_def)

section \<open>Properties\<close>

text \<open>
  C5: Naming a handle is insertion into a map: a name already taken is refused and nothing
  changes; a new one is added in order, growing the array when it is full, after which
  looking it up gives the handle and every other lookup is unchanged; the slots of the handle
  table are untouched, and the binary search of the lookup ends on every input.
\<close>

theorem namehandle_is_insert:
  assumes "hs_array_ok s" "names_ok s" "c_string key" "c_string key'" "hs_name_cap s * 2 \<le> MAX_SLOT_SIZE"
  shows "if name_map s key = None
         then \<exists>s'. skynet_handle_namehandle h key s = Inr (s', Some key) \<and> hs_array_ok s' \<and> names_ok s' \<and>
                same_slots s s' \<and> skynet_handle_findname key s' = Inr h \<and>
                (key' \<noteq> key \<longrightarrow> skynet_handle_findname key' s' = skynet_handle_findname key' s)
         else skynet_handle_namehandle h key s = Inr (s, None)"
proof (cases "name_map s key = None")
  case True
  with namehandle_spec [OF assms(1,2,3,5), of h] obtain s' where
    s': "skynet_handle_namehandle h key s = Inr (s', Some key)" "hs_array_ok s'" "names_ok s'"
      "name_map s' = (name_map s)(key \<mapsto> h)" "same_slots s s'" by auto
  with True findname_spec [OF s'(2,3) assms(3)] findname_spec [OF s'(2,3) assms(4)]
    findname_spec [OF assms(1,2,4)] show ?thesis by simp
next
  case False
  with namehandle_spec [OF assms(1,2,3,5), of h] show ?thesis by simp
qed

theorem namehandle_is_insert_witness:
  "\<exists>s'. skynet_handle_namehandle 7 ''db'' (skynet_handle_init 1) = Inr (s', Some ''db'') \<and>
     skynet_handle_findname ''db'' s' = Inr 7 \<and> skynet_handle_findname ''gate'' s' = Inr 0"
proof -
  let ?s = "skynet_handle_init 1"
  have c: "c_string ''db''" "c_string ''gate''" by (simp_all add: c_string_def)
  have m: "name_map ?s ''db'' = None" "name_map ?s ''gate'' = None"
    by (simp_all add: name_map_def hs_names_def skynet_handle_init_def)
  have a: "hs_array_ok ?s" by (rule hs_ok_array [OF hs_ok_init [of "\<lambda>_. None"]])
  have "hs_name_cap ?s * 2 \<le> MAX_SLOT_SIZE" by (simp add: skynet_handle_init_def MAX_SLOT_SIZE_def)
  from namehandle_is_insert [OF a names_ok_init c this, of 7] m findname_spec [OF a names_ok_init c(2)]
  show ?thesis by auto
qed

end
