(* ===== verification/Timer.thy ===== *)
theory Timer
  imports Prelude
begin

text \<open>
  The hierarchical timing wheel of \<open>skynet/skynet-src/skynet_timer.c\<close>: 256 near lists,
  one per value of the low byte of the expiry time, and four levels of 64 lists, one per
  6-bit digit above it. A linked list of nodes is the HOL list of its nodes in link order.
  Times are 32-bit words that wrap around.
\<close>

abbreviation (input) TIME_NEAR_SHIFT :: nat where "TIME_NEAR_SHIFT \<equiv> 8"
abbreviation (input) TIME_NEAR :: u32 where "TIME_NEAR \<equiv> 0x100"
abbreviation (input) TIME_LEVEL_SHIFT :: nat where "TIME_LEVEL_SHIFT \<equiv> 6"
abbreviation (input) TIME_LEVEL_MASK :: u32 where "TIME_LEVEL_MASK \<equiv> 0x3f"
abbreviation (input) TIME_NEAR_MASK :: u32 where "TIME_NEAR_MASK \<equiv> 0xff"

record timer_node =
  tn_expire :: u32
  tn_handle :: u32
  tn_session :: i32

record timer =
  tm_near :: "timer_node list list"
  tm_t :: "timer_node list list list"
  tm_time :: u32
  tm_starttime :: u32
  tm_current :: u64
  tm_current_point :: u64

definition timer_create_timer :: timer where
  "timer_create_timer = \<lparr>
     tm_near = replicate 256 [], tm_t = replicate 4 (replicate 64 []),
     tm_time = 0, tm_starttime = 0, tm_current = 0, tm_current_point = 0\<rparr>"

definition link_near :: "nat \<Rightarrow> timer_node \<Rightarrow> timer \<Rightarrow> timer" where
  "link_near i node T = T\<lparr>tm_near := (tm_near T)[i := tm_near T ! i @ [node]]\<rparr>"

definition link_level :: "nat \<Rightarrow> nat \<Rightarrow> timer_node \<Rightarrow> timer \<Rightarrow> timer" where
  "link_level l i node T = T\<lparr>tm_t := (tm_t T)[l := (tm_t T ! l)[i := tm_t T ! l ! i @ [node]]]\<rparr>"

text \<open>The \<open>for (i=0;i<3;i++)\<close> that looks for the first level whose block holds both times.\<close>

fun find_level :: "u32 \<Rightarrow> u32 \<Rightarrow> u32 \<Rightarrow> nat \<Rightarrow> nat \<Rightarrow> nat" where
  "find_level time current_time msk i 0 = i"
| "find_level time current_time msk i (Suc n) =
     (if (time OR (msk - 1)) = (current_time OR (msk - 1)) then i
      else find_level time current_time (push_bit TIME_LEVEL_SHIFT msk) (i + 1) n)"

definition add_node :: "timer_node \<Rightarrow> timer \<Rightarrow> timer" where
  "add_node node T =
     (let time = tn_expire node; current_time = tm_time T
      in if (time OR TIME_NEAR_MASK) = (current_time OR TIME_NEAR_MASK) then
           link_near (unat (time AND TIME_NEAR_MASK)) node T
         else
           let i = find_level time current_time (push_bit TIME_LEVEL_SHIFT TIME_NEAR) 0 3
           in link_level i (unat (drop_bit (TIME_NEAR_SHIFT + i * TIME_LEVEL_SHIFT) time AND TIME_LEVEL_MASK)) node T)"

definition new_node :: "u32 \<Rightarrow> i32 \<Rightarrow> i32 \<Rightarrow> timer \<Rightarrow> timer_node" where
  "new_node handle session time T = \<lparr>tn_expire = time + tm_time T, tn_handle = handle, tn_session = session\<rparr>"

definition timer_add :: "u32 \<Rightarrow> i32 \<Rightarrow> i32 \<Rightarrow> timer \<Rightarrow> timer" where
  "timer_add handle session time T = add_node (new_node handle session time T) T"

definition move_list :: "nat \<Rightarrow> nat \<Rightarrow> timer \<Rightarrow> timer" where
  "move_list level idx T =
     fold add_node (tm_t T ! level ! idx) (T\<lparr>tm_t := (tm_t T)[level := (tm_t T ! level)[idx := []]]\<rparr>)"

text \<open>The \<open>while\<close> of \<open>timer_shift\<close>; a fifth round would overflow the \<open>int\<close> mask.\<close>

fun shift_loop :: "u32 \<Rightarrow> u32 \<Rightarrow> u32 \<Rightarrow> nat \<Rightarrow> nat \<Rightarrow> timer \<Rightarrow> timer res" where
  "shift_loop ct msk time i 0 T = Inl IntOverflow"
| "shift_loop ct msk time i (Suc n) T =
     (if (ct AND (msk - 1)) = 0 then
        (let idx = unat (time AND TIME_LEVEL_MASK)
         in if idx \<noteq> 0 then Inr (move_list i idx T)
            else shift_loop ct (push_bit TIME_LEVEL_SHIFT msk) (drop_bit TIME_LEVEL_SHIFT time) (i + 1) n T)
      else Inr T)"

definition timer_shift :: "timer \<Rightarrow> timer res" where
  "timer_shift T =
     (let ct = tm_time T + 1; T1 = T\<lparr>tm_time := ct\<rparr>
      in if ct = 0 then Inr (move_list 3 0 T1)
         else shift_loop ct TIME_NEAR (drop_bit TIME_NEAR_SHIFT ct) 0 4 T1)"

text \<open>
  \<open>timer_execute\<close> takes the whole list of the current slot, unlocks, dispatches it and looks
  again. While it is unlocked other threads may add timers: \<open>adds\<close> lists, for each round,
  the (handle, session, time) they add. The result is the timer and the dispatched nodes.
\<close>

type_synonym timer_adds = "(u32 \<times> i32 \<times> i32) list"

definition timer_add_all :: "timer_adds \<Rightarrow> timer \<Rightarrow> timer" where
  "timer_add_all ads T = fold (\<lambda>(h, s, t). timer_add h s t) ads T"

definition slot_of :: "timer \<Rightarrow> nat" where
  "slot_of T = unat (tm_time T AND TIME_NEAR_MASK)"

fun timer_execute :: "timer_adds list \<Rightarrow> timer \<Rightarrow> timer \<times> timer_node list" where
  "timer_execute [] T =
     (if tm_near T ! slot_of T = [] then (T, [])
      else (T\<lparr>tm_near := (tm_near T)[slot_of T := []]\<rparr>, tm_near T ! slot_of T))"
| "timer_execute (ads # rest) T =
     (if tm_near T ! slot_of T = [] then (T, [])
      else let T1 = timer_add_all ads (T\<lparr>tm_near := (tm_near T)[slot_of T := []]\<rparr>);
               (T2, more) = timer_execute rest T1
           in (T2, tm_near T ! slot_of T @ more))"

type_synonym interference = "timer_adds list \<times> timer_adds list"

definition timer_update :: "interference \<Rightarrow> timer \<Rightarrow> (timer \<times> timer_node list) res" where
  "timer_update itf T =
     (let (T1, early) = timer_execute (fst itf) T
      in bind_res (timer_shift T1) (\<lambda>T2.
           let (T3, due) = timer_execute (snd itf) T2 in Inr (T3, early @ due)))"

text \<open>\<open>for (i=0;i<diff;i++) timer_update(TI)\<close>: what each round dispatches.\<close>

fun timer_updates :: "(nat \<Rightarrow> interference) \<Rightarrow> nat \<Rightarrow> timer \<Rightarrow> (timer \<times> timer_node list list) res" where
  "timer_updates itf 0 T = Inr (T, [])"
| "timer_updates itf (Suc n) T =
     bind_res (timer_update (itf 0) T) (\<lambda>(T1, fired).
     bind_res (timer_updates (\<lambda>k. itf (Suc k)) n T1) (\<lambda>(T2, rest). Inr (T2, fired # rest)))"

text \<open>\<open>skynet_updatetime\<close> when the monotonic clock reads \<open>cp\<close>.\<close>

definition skynet_updatetime :: "(nat \<Rightarrow> interference) \<Rightarrow> u64 \<Rightarrow> timer \<Rightarrow> (timer \<times> timer_node list list) res" where
  "skynet_updatetime itf cp T =
     (if cp < tm_current_point T then Inr (T\<lparr>tm_current_point := cp\<rparr>, [])
      else if cp \<noteq> tm_current_point T then
        (let diff = (ucast (cp - tm_current_point T) :: u32)
         in timer_updates itf (unat diff)
              (T\<lparr>tm_current_point := cp, tm_current := tm_current T + ucast diff\<rparr>))
      else Inr (T, []))"

definition skynet_timer_init :: "u32 \<Rightarrow> u32 \<Rightarrow> u64 \<Rightarrow> timer" where
  "skynet_timer_init sec cs now =
     timer_create_timer\<lparr>tm_starttime := sec, tm_current := ucast cs, tm_current_point := now\<rparr>"

section \<open>Places in the wheel\<close>

datatype loc = Near nat | Lev nat nat

text \<open>\<open>blk k\<close> cuts a time to the bits above near list and \<open>k\<close> levels.\<close>

definition blk :: "nat \<Rightarrow> nat \<Rightarrow> nat" where
  "blk k x = x div 2 ^ (8 + 6 * k)"

definition place :: "nat \<Rightarrow> nat \<Rightarrow> loc" where
  "place c e =
     (if blk 0 e = blk 0 c then Near (e mod 256)
      else if blk 1 e = blk 1 c then Lev 0 (blk 0 e mod 64)
      else if blk 2 e = blk 2 c then Lev 1 (blk 1 e mod 64)
      else if blk 3 e = blk 3 c then Lev 2 (blk 2 e mod 64)
      else Lev 3 (blk 3 e mod 64))"

fun get_loc :: "timer \<Rightarrow> loc \<Rightarrow> timer_node list" where
  "get_loc T (Near i) = tm_near T ! i"
| "get_loc T (Lev l i) = tm_t T ! l ! i"

fun set_loc :: "loc \<Rightarrow> timer_node list \<Rightarrow> timer \<Rightarrow> timer" where
  "set_loc (Near i) ns T = T\<lparr>tm_near := (tm_near T)[i := ns]\<rparr>"
| "set_loc (Lev l i) ns T = T\<lparr>tm_t := (tm_t T)[l := (tm_t T ! l)[i := ns]]\<rparr>"

fun valid_loc :: "loc \<Rightarrow> bool" where
  "valid_loc (Near i) \<longleftrightarrow> i < 256"
| "valid_loc (Lev l i) \<longleftrightarrow> l < 4 \<and> i < 64"

definition dims :: "timer \<Rightarrow> bool" where
  "dims T \<longleftrightarrow> length (tm_near T) = 256 \<and> length (tm_t T) = 4 \<and> (\<forall>l < 4. length (tm_t T ! l) = 64)"

lemma or_mask_eq_iff: "(a OR mask n) = (b OR mask n) \<longleftrightarrow> drop_bit n a = drop_bit n (b :: 'a::len word)"
proof
  assume "(a OR mask n) = (b OR mask n)"
  then have "drop_bit n (a OR mask n) = drop_bit n (b OR mask n)" by simp
  moreover have "drop_bit n (mask n) = (0 :: 'a word)"
    by (rule bit_word_eqI) (simp add: bit_drop_bit_eq bit_mask_iff)
  ultimately show "drop_bit n a = drop_bit n b" by (simp only: drop_bit_or) simp
next
  assume d: "drop_bit n a = drop_bit n b"
  show "(a OR mask n) = (b OR mask n)"
  proof (rule bit_word_eqI)
    fix m assume "m < LENGTH('a)"
    have "bit a m = bit b m" if "n \<le> m"
      using arg_cong [OF d, of "\<lambda>x. bit x (m - n)"] that by (simp add: bit_drop_bit_eq)
    with \<open>m < LENGTH('a)\<close> show "bit (a OR mask n) m = bit (b OR mask n) m"
      by (cases "n \<le> m") (simp_all add: bit_or_iff bit_mask_iff)
  qed
qed

lemma or_mask_blk:
  "(a OR mask (8 + 6 * k)) = (b OR mask (8 + 6 * k)) \<longleftrightarrow> blk k (unat a) = blk k (unat (b :: u32))"
proof -
  have "drop_bit n a = drop_bit n b \<longleftrightarrow> unat a div 2 ^ n = unat b div 2 ^ n" for n
    by (simp only: word_unat_eq_iff unat_drop_bit)
  then show ?thesis by (simp only: or_mask_eq_iff blk_def)
qed

lemma find_level_place:
  assumes "\<not> blk 0 (unat t) = blk 0 (unat c)"
  shows "Lev (find_level t c (push_bit 6 0x100) 0 3)
             (unat (drop_bit (8 + find_level t c (push_bit 6 0x100) 0 3 * 6) t AND 0x3f)) = place (unat c) (unat t)"
proof -
  have m: "push_bit 6 0x100 - 1 = (mask (8 + 6 * 1) :: u32)" "push_bit 6 (push_bit 6 0x100) - 1 = (mask (8 + 6 * 2) :: u32)"
    "push_bit 6 (push_bit 6 (push_bit 6 0x100)) - 1 = (mask (8 + 6 * 3) :: u32)"
    by (simp_all add: mask_eq_exp_minus_1)
  have d: "unat (drop_bit (8 + k * 6) t AND 0x3f) = blk k (unat t) mod 64" for k
  proof -
    have "drop_bit (8 + k * 6) t AND 0x3f = take_bit 6 (drop_bit (8 + 6 * k) t)"
      by (simp add: take_bit_eq_mask mask_eq_exp_minus_1 mult.commute)
    then show ?thesis by (simp only: unat_take_bit unat_drop_bit blk_def) simp
  qed
  have lev: "find_level t c (push_bit 6 0x100) 0 (Suc (Suc (Suc 0))) =
    (if blk 1 (unat t) = blk 1 (unat c) then 0 else if blk 2 (unat t) = blk 2 (unat c) then 1
     else if blk 3 (unat t) = blk 3 (unat c) then 2 else 3)"
    by (simp only: find_level.simps m or_mask_blk) simp
  show ?thesis using assms unfolding numeral_3_eq_3 [symmetric]
    by (simp only: lev [unfolded numeral_3_eq_3 [symmetric]] d place_def) simp
qed

lemma add_node_place:
  "add_node n T = (let p = place (unat (tm_time T)) (unat (tn_expire n)) in set_loc p (get_loc T p @ [n]) T)"
proof -
  let ?t = "tn_expire n" and ?c = "tm_time T"
  have "(0xff :: u32) = mask (8 + 6 * 0)" by (simp add: mask_eq_exp_minus_1)
  then have near: "(?t OR 0xff) = (?c OR 0xff) \<longleftrightarrow> blk 0 (unat ?t) = blk 0 (unat ?c)"
    by (simp only: or_mask_blk)
  have low: "unat (?t AND 0xff) = unat ?t mod 256"
  proof -
    have "?t AND 0xff = take_bit 8 ?t" by (simp add: take_bit_eq_mask mask_eq_exp_minus_1)
    then show ?thesis by (simp only: unat_take_bit) simp
  qed
  show ?thesis
  proof (cases "blk 0 (unat ?t) = blk 0 (unat ?c)")
    case True
    then show ?thesis by (simp add: add_node_def near low link_near_def place_def Let_def)
  next
    case False
    with find_level_place [OF False, symmetric] show ?thesis
      by (simp add: add_node_def near link_level_def Let_def)
  qed
qed

section \<open>One tick of the clock\<close>

text \<open>A node that is not in the top level is not overdue.\<close>

definition late_ok :: "nat \<Rightarrow> nat \<Rightarrow> bool" where
  "late_ok c e \<longleftrightarrow> (blk 3 e = blk 3 c \<longrightarrow> c \<le> e)"

definition cross_level :: "nat \<Rightarrow> nat" where
  "cross_level c = (if blk 0 c mod 64 \<noteq> 0 then 0 else if blk 1 c mod 64 \<noteq> 0 then 1
                    else if blk 2 c mod 64 \<noteq> 0 then 2 else 3)"

lemma blk_Suc: "blk (Suc k) x = blk k x div 64"
proof -
  have "(2::nat) ^ (8 + 6 * Suc k) = 2 ^ (8 + 6 * k) * 64" by (simp add: power_add)
  then show ?thesis by (simp only: blk_def div_mult2_eq)
qed

lemma blk_steps: "blk (Suc 0) x = blk 0 x div 64" "blk 2 x = blk (Suc 0) x div 64" "blk 3 x = blk 2 x div 64"
  using blk_Suc [of 0 x] blk_Suc [of 1 x] blk_Suc [of 2 x] by (simp_all add: numeral_2_eq_2 numeral_3_eq_3)

lemma blk0: "blk 0 x = x div 256"
  by (simp add: blk_def)

lemma blk_mono: "x \<le> y \<Longrightarrow> blk k x \<le> blk k y"
  by (simp add: blk_def div_le_mono)

lemma blk3_less: "x < 2 ^ 32 \<Longrightarrow> blk 3 x < 64"
  by (simp add: blk_def)

lemma place_valid: "valid_loc (place c e)"
  by (simp add: place_def)

lemma place_self: "place c c = Near (c mod 256)"
  by (simp add: place_def)

lemma place_near: "place c e = Near (c mod 256) \<Longrightarrow> e = c"
proof -
  assume "place c e = Near (c mod 256)"
  then have "e div 256 = c div 256" "e mod 256 = c mod 256"
    by (auto simp: place_def blk0 split: if_splits)
  then show "e = c" by (metis div_mult_mod_eq)
qed

lemma tick_inside:
  assumes "Suc c mod 256 \<noteq> 0" "late_ok c e" "e \<noteq> c"
  shows "place (Suc c) e = place c e" "late_ok (Suc c) e"
proof -
  have "blk 0 (Suc c) = blk 0 c" using assms(1) by (simp add: blk0 div_Suc)
  then have b: "blk 0 (Suc c) = blk 0 c" "blk 1 (Suc c) = blk 1 c" "blk 2 (Suc c) = blk 2 c" "blk 3 (Suc c) = blk 3 c"
    by (simp_all add: blk_steps)
  show "place (Suc c) e = place c e" by (simp only: place_def b)
  show "late_ok (Suc c) e" using assms(2,3) unfolding late_ok_def b by auto
qed

lemma carry:
  assumes "Suc c mod 256 = 0" "L = cross_level (Suc c)"
  shows "k \<le> L \<Longrightarrow> blk k (Suc c) = Suc (blk k c)" "L < k \<Longrightarrow> k \<le> 3 \<Longrightarrow> blk k (Suc c) = blk k c"
proof -
  have b0: "blk 0 (Suc c) = Suc (blk 0 c)" using assms(1) by (simp add: blk0 div_Suc)
  have s: "blk (Suc 0) (Suc c) = (if blk 0 (Suc c) mod 64 = 0 then Suc (blk (Suc 0) c) else blk (Suc 0) c)"
    using b0 by (simp add: blk_steps(1) div_Suc)
  have s2: "blk 2 (Suc c) = (if blk 0 (Suc c) mod 64 = 0 \<and> blk (Suc 0) (Suc c) mod 64 = 0 then Suc (blk 2 c) else blk 2 c)"
    using s by (simp add: blk_steps(2) [of "Suc c"] blk_steps(2) [of c] div_Suc)
  have s3: "blk 3 (Suc c) = (if blk 0 (Suc c) mod 64 = 0 \<and> blk (Suc 0) (Suc c) mod 64 = 0 \<and> blk 2 (Suc c) mod 64 = 0
      then Suc (blk 3 c) else blk 3 c)"
    using s2 by (simp add: blk_steps(3) [of "Suc c"] blk_steps(3) [of c] div_Suc)
  have L: "L \<le> 3" using assms(2) by (simp add: cross_level_def)
  { assume "k \<le> L"
    then consider "k = 0" | "k = 1" "1 \<le> L" | "k = 2" "2 \<le> L" | "k = 3" "3 \<le> L" using L by linarith
    then show "blk k (Suc c) = Suc (blk k c)"
      using assms(2) by cases (simp_all add: b0 s s2 s3 cross_level_def split: if_splits) }
  { assume "L < k" "k \<le> 3"
    then consider "k = Suc 0" "L = 0" | "k = 2" "L \<le> 1" | "k = 3" "L \<le> 2" using L by linarith
    then show "blk k (Suc c) = blk k c"
      using assms(2) by cases (simp_all add: s s2 s3 cross_level_def split: if_splits) }
qed

lemma blk_equal: "blk j e = blk j c \<Longrightarrow> j \<le> k \<Longrightarrow> blk k e = blk k c"
proof (induction k)
  case (Suc k)
  then show ?case by (cases "j = Suc k") (auto simp: blk_Suc)
qed simp

text \<open>
  When the low byte of the new time is 0, the nodes of one list, the one of the lowest
  non-zero digit, are the ones that share that block with the new time; every other node
  stays where it is.
\<close>

lemma tick_cross:
  assumes cross: "Suc c mod 256 = 0" and L: "L = cross_level (Suc c)" and late: "late_ok c e" "e \<noteq> c"
    and e: "e < 2 ^ 32" and c: "Suc c < 2 ^ 32"
  shows "blk L e = blk L (Suc c) \<Longrightarrow> Suc c \<le> e \<and> place c e = Lev L (blk L (Suc c) mod 64)"
    and "blk L e \<noteq> blk L (Suc c) \<Longrightarrow>
       place (Suc c) e = place c e \<and> place c e \<noteq> Lev L (blk L (Suc c) mod 64) \<and> late_ok (Suc c) e"
proof -
  have L3: "L \<le> 3" using L by (simp add: cross_level_def)
  note up = carry(1) [OF cross L] and same = carry(2) [OF cross L]
  have low: "Suc c mod 2 ^ (8 + 6 * L) = 0"
  proof -
    have "Suc c div 2 ^ (8 + 6 * L) = Suc (c div 2 ^ (8 + 6 * L))" using up [of L] by (simp add: blk_def)
    then show ?thesis by (simp only: div_Suc split: if_splits)
  qed
  have ge: "Suc c \<le> e" if "blk L e = blk L (Suc c)"
  proof -
    have "Suc c = 2 ^ (8 + 6 * L) * blk L (Suc c)" using low by (simp add: blk_def mod_eq_0_iff_dvd)
    also have "\<dots> \<le> e" unfolding that [symmetric] by (simp add: blk_def)
    finally show ?thesis .
  qed
  have notup: "blk k e \<noteq> blk k c" if "k \<le> L" "k \<le> 3" for k
  proof
    assume eq: "blk k e = blk k c"
    then have "blk 3 e = blk 3 c" by (rule blk_equal) (use that in simp)
    with late have "Suc c \<le> e" by (simp add: late_ok_def)
    from blk_mono [OF this, of k] eq up [OF that(1)] show False by simp
  qed
  { assume eq: "blk L e = blk L (Suc c)"
    have "place c e = Lev L (blk L e mod 64)"
    proof (cases "L = 3")
      case True
      with notup show ?thesis by (simp add: place_def)
    next
      case False
      have "blk (Suc L) e = blk (Suc L) (Suc c)" using eq by (simp add: blk_Suc)
      also have "\<dots> = blk (Suc L) c" using False L3 by (intro same) auto
      finally have eq': "blk (Suc L) e = blk (Suc L) c" .
      from False L3 consider "L = 0" | "L = 1" | "L = 2" by linarith
      then show ?thesis using notup eq' by cases (simp_all add: place_def numeral_2_eq_2 numeral_3_eq_3)
    qed
    with ge eq show "Suc c \<le> e \<and> place c e = Lev L (blk L (Suc c) mod 64)" by simp }
  { assume ne: "blk L e \<noteq> blk L (Suc c)"
    have notnew: "blk k e \<noteq> blk k (Suc c)" if "k \<le> L" for k using ne blk_equal that by blast
    have agree: "blk k e = blk k (Suc c) \<longleftrightarrow> blk k e = blk k c" if "k \<le> 3" for k
      using notup [of k] notnew [of k] same [of k] that by (cases "k \<le> L") auto
    have "place (Suc c) e = place c e"
      using agree [of 0] agree [of 1] agree [of 2] agree [of 3] by (simp add: place_def)
    moreover have "place c e \<noteq> Lev L (blk L (Suc c) mod 64)"
    proof
      assume "place c e = Lev L (blk L (Suc c) mod 64)"
      then have d: "blk L e mod 64 = blk L (Suc c) mod 64" and up': "L < 3 \<Longrightarrow> blk (Suc L) e = blk (Suc L) c"
        by (auto simp: place_def numeral_2_eq_2 numeral_3_eq_3 split: if_splits)
      show False
      proof (cases "L = 3")
        case True
        with d ne blk3_less [OF e] blk3_less [OF c] show False by simp
      next
        case False
        with up' L3 same [of "Suc L"] have "blk L e div 64 = blk L (Suc c) div 64" by (simp add: blk_Suc)
        with d ne show False by (metis div_mult_mod_eq)
      qed
    qed
    moreover have "late_ok (Suc c) e"
      using agree [of 3] late by (auto simp: late_ok_def)
    ultimately show "place (Suc c) e = place c e \<and> place c e \<noteq> Lev L (blk L (Suc c) mod 64) \<and> late_ok (Suc c) e"
      by simp }
qed

text \<open>The wrap-around of the clock: the top-level list of digit 0.\<close>

lemma tick_wrap:
  assumes "c = 2 ^ 32 - 1" "late_ok c e" "e \<noteq> c" "e < 2 ^ 32"
  shows "blk 3 e = 0 \<Longrightarrow> place c e = Lev 3 0"
    and "blk 3 e \<noteq> 0 \<Longrightarrow> place 0 e = place c e \<and> place c e \<noteq> Lev 3 0 \<and> late_ok 0 e"
proof -
  have c3: "blk 3 c = 63" using assms(1) by (simp add: blk_def)
  have "blk 3 e \<noteq> 63" using assms c3 by (auto simp: late_ok_def)
  then have ne: "blk k e \<noteq> blk k c" if "k \<le> 3" for k using blk_equal [of k e c 3] that c3 by auto
  have pl: "place c e = Lev 3 (blk 3 e mod 64)" using ne by (simp add: place_def)
  show "blk 3 e = 0 \<Longrightarrow> place c e = Lev 3 0" by (simp add: pl)
  assume nz: "blk 3 e \<noteq> 0"
  have z: "blk k 0 = 0" for k by (simp add: blk_def)
  have "blk k e \<noteq> blk k 0" if "k \<le> 3" for k using blk_equal [of k e 0 3] that nz z by auto
  then have "place 0 e = Lev 3 (blk 3 e mod 64)" by (simp add: place_def)
  with pl nz blk3_less [OF assms(4)] show "place 0 e = place c e \<and> place c e \<noteq> Lev 3 0 \<and> late_ok 0 e"
    by (simp add: late_ok_def)
qed

section \<open>The wheel as a multiset of pending nodes\<close>

definition pending :: "timer \<Rightarrow> timer_node multiset" where
  "pending T = (\<Sum>l\<in>{l. valid_loc l}. mset (get_loc T l))"

definition node_ok :: "timer \<Rightarrow> loc \<Rightarrow> timer_node \<Rightarrow> bool" where
  "node_ok T l n \<longleftrightarrow> place (unat (tm_time T)) (unat (tn_expire n)) = l \<and>
     late_ok (unat (tm_time T)) (unat (tn_expire n))"

text \<open>The invariant of the wheel: every node is in the list its expiry time says.\<close>

definition wheel_ok :: "timer \<Rightarrow> bool" where
  "wheel_ok T \<longleftrightarrow> dims T \<and> (\<forall>l. valid_loc l \<longrightarrow> (\<forall>n \<in> set (get_loc T l). node_ok T l n))"

lemma finite_valid_loc: "finite {l. valid_loc l}"
proof -
  have "{l. valid_loc l} \<subseteq> Near ` {..<256} \<union> (\<lambda>(l, i). Lev l i) ` ({..<4} \<times> {..<64})"
  proof
    fix l assume "l \<in> {l. valid_loc l}"
    then show "l \<in> Near ` {..<256} \<union> (\<lambda>(l, i). Lev l i) ` ({..<4} \<times> {..<64})" by (cases l) auto
  qed
  then show ?thesis by (rule finite_subset) simp
qed

lemma get_set_loc:
  "dims T \<Longrightarrow> valid_loc l \<Longrightarrow> valid_loc m \<Longrightarrow> get_loc (set_loc l ns T) m = (if m = l then ns else get_loc T m)"
  by (cases l; cases m) (auto simp: dims_def nth_list_update)

lemma dims_set_loc: "dims T \<Longrightarrow> valid_loc l \<Longrightarrow> dims (set_loc l ns T)"
  by (cases l) (auto simp: dims_def nth_list_update)

lemma set_loc_time [simp]: "tm_time (set_loc l ns T) = tm_time T"
  by (cases l) simp_all

lemma time_update [simp]: "get_loc (T\<lparr>tm_time := c\<rparr>) l = get_loc T l" "dims (T\<lparr>tm_time := c\<rparr>) = dims T"
  "pending (T\<lparr>tm_time := c\<rparr>) = pending T"
proof -
  show g: "get_loc (T\<lparr>tm_time := c\<rparr>) l = get_loc T l" for l by (cases l) simp_all
  show "dims (T\<lparr>tm_time := c\<rparr>) = dims T" by (simp add: dims_def)
  show "pending (T\<lparr>tm_time := c\<rparr>) = pending T" by (simp add: pending_def g)
qed

lemma pending_split:
  assumes "valid_loc l"
  shows "pending T = mset (get_loc T l) + (\<Sum>m\<in>{m. valid_loc m} - {l}. mset (get_loc T m))"
  unfolding pending_def by (rule sum.remove) (use assms finite_valid_loc in auto)

lemma pending_set_loc:
  assumes "dims T" "valid_loc l"
  shows "pending (set_loc l ns T) + mset (get_loc T l) = pending T + mset ns"
proof -
  have "(\<Sum>m\<in>{m. valid_loc m} - {l}. mset (get_loc (set_loc l ns T) m)) =
        (\<Sum>m\<in>{m. valid_loc m} - {l}. mset (get_loc T m))"
    by (rule sum.cong) (use assms in \<open>auto simp: get_set_loc\<close>)
  then show ?thesis
    using assms by (simp add: pending_split [OF assms(2)] get_set_loc)
qed

lemma in_pending: "n \<in># pending T \<longleftrightarrow> (\<exists>l. valid_loc l \<and> n \<in> set (get_loc T l))"
  by (simp add: pending_def set_mset_sum finite_valid_loc)

lemma wheel_place:
  assumes "wheel_ok T" "valid_loc l" "n \<in> set (get_loc T l)"
  shows "place (unat (tm_time T)) (unat (tn_expire n)) = l" "late_ok (unat (tm_time T)) (unat (tn_expire n))"
  using assms by (auto simp: wheel_ok_def node_ok_def)

lemma wheel_ok_set:
  assumes "wheel_ok T" "valid_loc l" "\<forall>n \<in> set ns. node_ok T l n"
  shows "wheel_ok (set_loc l ns T)"
  using assms by (auto simp: wheel_ok_def get_set_loc dims_set_loc node_ok_def split: if_splits)

lemma add_node_spec:
  assumes "wheel_ok T" "late_ok (unat (tm_time T)) (unat (tn_expire n))"
  shows "wheel_ok (add_node n T)" "pending (add_node n T) = add_mset n (pending T)" "tm_time (add_node n T) = tm_time T"
proof -
  let ?p = "place (unat (tm_time T)) (unat (tn_expire n))"
  have d: "dims T" using assms(1) by (simp add: wheel_ok_def)
  have "\<forall>m \<in> set (get_loc T ?p @ [n]). node_ok T ?p m"
    using assms place_valid by (auto simp: wheel_ok_def node_ok_def)
  from wheel_ok_set [OF assms(1) place_valid this] show "wheel_ok (add_node n T)"
    by (simp add: add_node_place Let_def)
  from pending_set_loc [OF d place_valid, of "unat (tm_time T)" "unat (tn_expire n)" "get_loc T ?p @ [n]"]
  show "pending (add_node n T) = add_mset n (pending T)" by (simp add: add_node_place Let_def)
  show "tm_time (add_node n T) = tm_time T" by (simp add: add_node_place Let_def)
qed

lemma fold_add_node:
  assumes "wheel_ok T" "\<forall>n \<in> set ns. late_ok (unat (tm_time T)) (unat (tn_expire n))"
  shows "wheel_ok (fold add_node ns T) \<and> pending (fold add_node ns T) = mset ns + pending T \<and>
         tm_time (fold add_node ns T) = tm_time T"
  using assms by (induction ns arbitrary: T) (auto simp: add_node_spec)

section \<open>One shift\<close>

lemma mask_mod: "(ct AND (2 ^ k - 1)) = 0 \<longleftrightarrow> unat (ct :: u32) mod 2 ^ k = 0"
proof -
  have "(ct AND (2 ^ k - 1)) = take_bit k ct" by (simp add: take_bit_eq_mask mask_eq_exp_minus_1)
  then show ?thesis by (simp only: unat_take_bit word_unat_eq_iff) simp
qed

lemma digit_mod: "unat (drop_bit (8 + 6 * k) (ct :: u32) AND 0x3f) = blk k (unat ct) mod 64"
proof -
  have "drop_bit (8 + 6 * k) ct AND 0x3f = take_bit 6 (drop_bit (8 + 6 * k) ct)"
    by (simp add: take_bit_eq_mask mask_eq_exp_minus_1)
  then show ?thesis by (simp only: unat_take_bit unat_drop_bit blk_def) simp
qed

lemma mod_digit: "x mod 2 ^ (8 + 6 * Suc k) = 0 \<longleftrightarrow> x mod 2 ^ (8 + 6 * k) = 0 \<and> blk k x mod 64 = 0"
proof -
  have "(2::nat) ^ (8 + 6 * Suc k) = 2 ^ (8 + 6 * k) * 64" by (simp add: power_add)
  then show ?thesis by (simp only: mod_mult2_eq blk_def) auto
qed

lemma shift_loop_step:
  "unat ct mod 2 ^ (8 + 6 * k) = 0 \<Longrightarrow>
   shift_loop ct (2 ^ (8 + 6 * k)) (drop_bit (8 + 6 * k) ct) k (Suc n) T =
     (if blk k (unat ct) mod 64 \<noteq> 0 then Inr (move_list k (blk k (unat ct) mod 64) T)
      else shift_loop ct (2 ^ (8 + 6 * Suc k)) (drop_bit (8 + 6 * Suc k) ct) (Suc k) n T)"
proof -
  assume "unat ct mod 2 ^ (8 + 6 * k) = 0"
  then have z: "(ct AND (2 ^ (8 + 6 * k) - 1)) = 0" by (simp only: mask_mod)
  have "push_bit 6 (2 ^ (8 + 6 * k)) = (2 ^ (8 + 6 * Suc k) :: u32)"
    by (simp add: push_bit_eq_mult power_add)
  moreover have "drop_bit 6 (drop_bit (8 + 6 * k) ct) = drop_bit (8 + 6 * Suc k) ct" by (simp add: add.commute)
  ultimately show ?thesis using z by (simp only: shift_loop.simps digit_mod Let_def) simp
qed

lemma timer_shift_eq:
  fixes T defines "C \<equiv> unat (tm_time T + 1)"
  shows "timer_shift T = Inr (if C mod 256 \<noteq> 0 then T\<lparr>tm_time := tm_time T + 1\<rparr>
     else move_list (cross_level C) (blk (cross_level C) C mod 64) (T\<lparr>tm_time := tm_time T + 1\<rparr>))"
proof (cases "tm_time T + 1 = 0")
  case True
  then show ?thesis by (simp add: timer_shift_def C_def cross_level_def blk_def)
next
  case False
  let ?ct = "tm_time T + 1" and ?T = "T\<lparr>tm_time := tm_time T + 1\<rparr>"
  have sh: "timer_shift T = shift_loop ?ct (2 ^ (8 + 6 * 0)) (drop_bit (8 + 6 * 0) ?ct) 0 (Suc 3) ?T"
    using False by (simp add: timer_shift_def Let_def)
  show ?thesis
  proof (cases "C mod 256 = 0")
    case nz: False
    then have "(?ct AND (2 ^ (8 + 6 * 0) - 1)) \<noteq> 0" unfolding mask_mod by (simp add: C_def)
    then show ?thesis using nz unfolding sh shift_loop.simps by (simp only: if_False) simp
  next
    case z: True
    have C: "C \<noteq> 0" "C < 2 ^ 32" using False unsigned_less [of ?ct] by (auto simp: C_def unat_eq_0)
    define P where "P k \<longleftrightarrow> C mod 2 ^ (8 + 6 * k) = 0" for k
    define S where "S k n = shift_loop ?ct (2 ^ (8 + 6 * k)) (drop_bit (8 + 6 * k) ?ct) k n ?T" for k n
    have P0: "P 0" using z by (simp add: P_def)
    have PS: "P (Suc k)" if "P k" "blk k C mod 64 = 0" for k
      unfolding P_def mod_digit using that by (simp add: P_def)
    have top: "blk 3 C mod 64 \<noteq> 0" if "P 3"
    proof
      assume "blk 3 C mod 64 = 0"
      then have "blk 3 C = 0" using blk3_less [OF C(2)] by simp
      with that show False using C(1) by (simp add: blk_def P_def)
    qed
    have st: "S k (Suc n) = (if blk k C mod 64 \<noteq> 0 then Inr (move_list k (blk k C mod 64) ?T) else S (Suc k) n)"
      if "P k" for k n
      using shift_loop_step [of ?ct k n ?T] that by (simp only: C_def P_def S_def)
    have "S 0 (Suc (Suc (Suc (Suc 0)))) = Inr (move_list (cross_level C) (blk (cross_level C) C mod 64) ?T)"
      using P0 PS [of 0] PS [of "Suc 0"] PS [of "Suc (Suc 0)"] top st
      unfolding cross_level_def numeral_2_eq_2 numeral_3_eq_3 One_nat_def by simp
    then show ?thesis using z unfolding sh S_def numeral_3_eq_3 by simp
  qed
qed

text \<open>What a tick does to the places of the pending nodes.\<close>

lemma tick_node:
  fixes c e :: u32
  assumes late: "late_ok (unat c) (unat e)" and ne: "e \<noteq> c"
  defines "C \<equiv> unat (c + 1)"
  shows "C mod 256 \<noteq> 0 \<Longrightarrow> place C (unat e) = place (unat c) (unat e) \<and> late_ok C (unat e)"
    and "C mod 256 = 0 \<Longrightarrow> late_ok C (unat e) \<and>
      (place (unat c) (unat e) = Lev (cross_level C) (blk (cross_level C) C mod 64) \<or>
       place C (unat e) = place (unat c) (unat e))"
proof -
  have e: "unat e < 2 ^ 32" using unsigned_less [of e] by simp
  have ne': "unat e \<noteq> unat c" using ne word_unat_eq_iff [of e c] by blast
  have wrap: "C = 0 \<and> unat c = 2 ^ 32 - 1 \<or> C = Suc (unat c) \<and> C < 2 ^ 32"
  proof (cases "c = - 1")
    case False
    then have "1 + c \<noteq> 0" by (metis add.commute eq_neg_iff_add_eq_0)
    then have "C = Suc (unat c)" unfolding C_def by (simp add: unatSuc add.commute)
    moreover have "C < 2 ^ 32" unfolding C_def by (rule order_less_le_trans [OF unsigned_less]) simp
    ultimately show ?thesis by simp
  next
    case True
    have "unat (- 1 :: u32) = 2 ^ 32 - 1" by (simp add: unsigned_minus_1_eq_mask mask_eq_exp_minus_1)
    with True show ?thesis by (simp add: C_def)
  qed
  show "C mod 256 \<noteq> 0 \<Longrightarrow> place C (unat e) = place (unat c) (unat e) \<and> late_ok C (unat e)"
    using wrap tick_inside [OF _ late ne'] by auto
  assume z: "C mod 256 = 0"
  show "late_ok C (unat e) \<and> (place (unat c) (unat e) = Lev (cross_level C) (blk (cross_level C) C mod 64) \<or>
      place C (unat e) = place (unat c) (unat e))"
    using wrap
  proof
    assume w: "C = 0 \<and> unat c = 2 ^ 32 - 1"
    moreover have "cross_level 0 = 3" "blk 3 0 mod 64 = 0" by (simp_all add: cross_level_def blk_def)
    ultimately show ?thesis
      using tick_wrap [OF _ late ne' e] by (auto simp: late_ok_def)
  next
    assume w: "C = Suc (unat c) \<and> C < 2 ^ 32"
    then show ?thesis
      using tick_cross [OF _ refl late ne' e, folded] z by (auto simp: late_ok_def)
  qed
qed

lemma timer_shift_spec:
  assumes ok: "wheel_ok T" and quiet: "\<forall>n. n \<in># pending T \<longrightarrow> tn_expire n \<noteq> tm_time T"
  shows "\<exists>T'. timer_shift T = Inr T' \<and> wheel_ok T' \<and> tm_time T' = tm_time T + 1 \<and> pending T' = pending T"
proof -
  define C where "C = unat (tm_time T + 1)"
  define T1 where "T1 = T\<lparr>tm_time := tm_time T + 1\<rparr>"
  have d: "dims T" using ok by (simp add: wheel_ok_def)
  have tick: "late_ok (unat (tm_time T)) (unat (tn_expire n))" "place (unat (tm_time T)) (unat (tn_expire n)) = l"
    "tn_expire n \<noteq> tm_time T" if "valid_loc l" "n \<in> set (get_loc T l)" for l n
    using wheel_place [OF ok that] quiet that in_pending by auto
  show ?thesis
  proof (cases "C mod 256 = 0")
    case False
    have "wheel_ok T1"
      unfolding wheel_ok_def node_ok_def T1_def using d tick tick_node(1) False by (fastforce simp: C_def)
    with False show ?thesis by (simp add: timer_shift_eq C_def T1_def)
  next
    case True
    define l where "l = Lev (cross_level C) (blk (cross_level C) C mod 64)"
    have vl: "valid_loc l" by (simp add: l_def cross_level_def)
    define T2 where "T2 = set_loc l [] T1"
    have late: "late_ok C (unat (tn_expire n))" if "valid_loc m" "n \<in> set (get_loc T m)" for m n
      using tick_node(2) tick [OF that] True by (simp add: C_def)
    have ok2: "wheel_ok T2"
      unfolding wheel_ok_def
    proof (intro conjI allI impI ballI)
      show "dims T2" using d vl by (simp add: T2_def T1_def dims_set_loc)
      fix m n assume m: "valid_loc m" and "n \<in> set (get_loc T2 m)"
      then have n: "m \<noteq> l" "n \<in> set (get_loc T m)"
        using d vl by (auto simp: T2_def T1_def get_set_loc split: if_splits)
      from tick_node(2) [OF tick(1,3) [OF m n(2)]] True n(1) tick(2) [OF m n(2)]
      have "place C (unat (tn_expire n)) = m" by (auto simp: C_def l_def)
      with late [OF m n(2)] show "node_ok T2 m n" by (simp add: node_ok_def T2_def T1_def C_def)
    qed
    have time2: "tm_time T2 = tm_time T + 1" by (simp add: T2_def T1_def)
    have "timer_shift T = Inr (fold add_node (get_loc T l) T2)"
      using True by (simp add: timer_shift_eq C_def [symmetric] move_list_def T2_def l_def T1_def)
    moreover have "\<forall>n \<in> set (get_loc T l). late_ok (unat (tm_time T2)) (unat (tn_expire n))"
      using late vl by (simp add: time2 C_def)
    note fold_add_node [OF ok2 this]
    moreover have "pending T2 + mset (get_loc T l) = pending T"
      using pending_set_loc [OF _ vl, of T1 "[]"] d by (simp add: T2_def T1_def)
    ultimately show ?thesis using time2 by (simp add: add.commute)
  qed
qed

section \<open>Executing the current slot\<close>

lemma diff_filter_mset: "M - filter_mset P M = filter_mset (\<lambda>x. \<not> P x) M"
  by (rule multiset_eqI) simp

definition adds_ok :: "timer_adds \<Rightarrow> bool" where
  "adds_ok ads \<longleftrightarrow> (\<forall>(h, s, t) \<in> set ads. 0 < sint t)"

definition added_nodes :: "timer_adds \<Rightarrow> timer \<Rightarrow> timer_node multiset" where
  "added_nodes ads T = image_mset (\<lambda>(h, s, t). new_node h s t T) (mset ads)"

definition due_now :: "timer \<Rightarrow> timer_node multiset" where
  "due_now T = filter_mset (\<lambda>n. tn_expire n = tm_time T) (pending T)"

lemma unat_u32_less: "unat (x :: u32) < 4294967296"
  by (rule order_less_le_trans [OF unsigned_less]) simp

lemma wrapped_sum: "(a + b) mod m < b \<Longrightarrow> a < m \<Longrightarrow> b < m \<Longrightarrow> (a + b) mod m + m = a + (b :: nat)"
  by (cases "a + b < m") (simp_all add: le_mod_geq)

lemma positive_unat:
  assumes "0 < sint (t :: i32)"
  shows "int (unat t) = sint t" "0 < unat t" "unat t < 2 ^ 31"
proof -
  have lt: "sint t < 2 ^ 31" using sint_lt [of t] by simp
  have "take_bit LENGTH(32) (sint t) = sint t" by (rule take_bit_int_eq_self) (use assms lt in simp_all)
  then have ut: "uint t = sint t" using uint_sint [of t] by argo
  show u: "int (unat t) = sint t" unfolding ut [symmetric] by simp
  have lt': "sint t < int (2 ^ 31)" using lt by simp
  show "0 < unat t" "unat t < 2 ^ 31"
    using assms lt' unfolding u [symmetric] by (simp_all only: of_nat_less_iff of_nat_0_less_iff)
qed

lemma positive_delay:
  assumes "0 < sint (t :: i32)"
  shows "late_ok (unat c) (unat (t + (c :: u32)))" "t + c \<noteq> c"
proof -
  note t = positive_unat(2,3) [OF assms]
  show "t + c \<noteq> c" using t by auto
  have "blk 3 (unat (t + c)) \<noteq> blk 3 (unat c)" if "unat (t + c) < unat c"
  proof -
    have s: "unat (t + c) = (unat t + unat c) mod 2 ^ 32" by (simp add: unat_word_ariths)
    have "unat (t + c) + 2 ^ 32 = unat t + unat c"
      unfolding s by (rule wrapped_sum) (use that t(2) unat_u32_less [of c] in \<open>simp_all only: s\<close>, simp_all)
    then have "unat (t + c) + 2 ^ 31 < unat c" using t by simp
    then show ?thesis by (simp add: blk_def)
  qed
  then show "late_ok (unat c) (unat (t + c))" unfolding late_ok_def by (blast intro: leI)
qed

lemma positive_delay_node:
  assumes "0 < sint t"
  shows "late_ok (unat (tm_time T)) (unat (tn_expire (new_node h s t T)))" "tn_expire (new_node h s t T) \<noteq> tm_time T"
proof -
  have "(ucast t :: u32) = t" by simp
  then show "late_ok (unat (tm_time T)) (unat (tn_expire (new_node h s t T)))" "tn_expire (new_node h s t T) \<noteq> tm_time T"
    using positive_delay [OF assms] by (simp_all add: new_node_def)
qed

lemma slot_due:
  assumes "wheel_ok T"
  shows "mset (tm_near T ! slot_of T) = due_now T"
    and "pending (T\<lparr>tm_near := (tm_near T)[slot_of T := []]\<rparr>) = pending T - due_now T"
    and "wheel_ok (T\<lparr>tm_near := (tm_near T)[slot_of T := []]\<rparr>)"
proof -
  let ?c = "unat (tm_time T)" and ?l = "Near (slot_of T)"
  have d: "dims T" using assms by (simp add: wheel_ok_def)
  have slot: "slot_of T = ?c mod 256"
  proof -
    have "tm_time T AND 0xff = take_bit 8 (tm_time T)" by (simp add: take_bit_eq_mask mask_eq_exp_minus_1)
    then show ?thesis by (simp only: slot_of_def unat_take_bit) simp
  qed
  have v: "valid_loc ?l" by (simp add: slot)
  have here: "tn_expire n = tm_time T" if "n \<in> set (get_loc T ?l)" for n
    using wheel_place(1) [OF assms v that] place_near [of ?c] by (simp add: slot word_unat_eq_iff)
  have there: "tn_expire n \<noteq> tm_time T" if "valid_loc m" "m \<noteq> ?l" "n \<in> set (get_loc T m)" for n m
    using wheel_place(1) [OF assms that(1,3)] that(2) by (auto simp: slot place_self)
  let ?rest = "\<Sum>m\<in>{m. valid_loc m} - {?l}. mset (get_loc T m)"
  have "filter_mset (\<lambda>n. tn_expire n = tm_time T) ?rest = {#}"
    using there by (auto simp: set_mset_sum finite_valid_loc)
  moreover have "filter_mset (\<lambda>n. tn_expire n = tm_time T) (mset (get_loc T ?l)) = mset (get_loc T ?l)"
    using here by (auto simp: filter_mset_eq_conv)
  ultimately show m: "mset (tm_near T ! slot_of T) = due_now T"
    unfolding due_now_def pending_split [OF v, of T] by simp
  from pending_set_loc [OF d v, of "[]"]
  show "pending (T\<lparr>tm_near := (tm_near T)[slot_of T := []]\<rparr>) = pending T - due_now T"
    by (simp add: m [symmetric] eq_diff_eq flip: m) (metis add_diff_cancel_right')
  from wheel_ok_set [OF assms v, of "[]"] show "wheel_ok (T\<lparr>tm_near := (tm_near T)[slot_of T := []]\<rparr>)" by simp
qed

lemma timer_add_all_spec:
  assumes "wheel_ok T" "adds_ok ads"
  shows "wheel_ok (timer_add_all ads T) \<and> tm_time (timer_add_all ads T) = tm_time T \<and>
         pending (timer_add_all ads T) = added_nodes ads T + pending T"
  using assms
proof (induction ads arbitrary: T)
  case (Cons a ads)
  obtain h s t where a: "a = (h, s, t)" by (cases a)
  have "0 < sint t" using Cons.prems(2) a by (auto simp: adds_ok_def)
  note sp = add_node_spec [OF Cons.prems(1) positive_delay_node(1) [OF this]]
  have "adds_ok ads" using Cons.prems(2) by (simp add: adds_ok_def)
  from Cons.IH [OF sp(1) this] sp(2,3) show ?case
    by (simp add: a timer_add_all_def timer_add_def added_nodes_def new_node_def)
qed (simp add: timer_add_all_def added_nodes_def)

definition first_batch :: "timer_adds list \<Rightarrow> timer_adds" where
  "first_batch bs = (case bs of [] \<Rightarrow> [] | b # _ \<Rightarrow> b)"

text \<open>
  Executing the slot dispatches the nodes due now; the timers that other threads add while
  the lock is released (one batch: the second look finds the slot empty) stay pending.
\<close>

lemma timer_execute_spec:
  assumes ok: "wheel_ok T" and ads: "\<forall>b \<in> set bs. adds_ok b"
  shows "\<exists>T' fired A. timer_execute bs T = (T', fired) \<and> wheel_ok T' \<and> tm_time T' = tm_time T \<and>
    mset fired = due_now T \<and> A = (if due_now T = {#} then {#} else added_nodes (first_batch bs) T) \<and>
    pending T' = (pending T - due_now T) + A \<and> due_now T' = {#}"
proof -
  let ?T1 = "T\<lparr>tm_near := (tm_near T)[slot_of T := []]\<rparr>"
  note sl = slot_due [OF ok]
  have d1: "due_now ?T1 = {#}"
    unfolding due_now_def sl(2) by (simp add: due_now_def diff_filter_mset)
  show ?thesis
  proof (cases "tm_near T ! slot_of T = []")
    case True
    then have "due_now T = {#}" using sl(1) by simp
    with True ok show ?thesis by (cases bs) simp_all
  next
    case False
    then have ne: "due_now T \<noteq> {#}" using sl(1) by auto
    show ?thesis
    proof (cases bs)
      case Nil
      with False ne sl d1 show ?thesis by (simp add: first_batch_def added_nodes_def)
    next
      case (Cons b rest)
      define T2 where "T2 = timer_add_all b ?T1"
      have b: "adds_ok b" using ads Cons by simp
      have same: "added_nodes b ?T1 = added_nodes b T" by (simp add: added_nodes_def new_node_def)
      have T2: "wheel_ok T2" "tm_time T2 = tm_time T" "pending T2 = added_nodes b T + (pending T - due_now T)"
        using timer_add_all_spec [OF sl(3) b] by (simp_all add: T2_def sl(2) same)
      have "tn_expire n \<noteq> tm_time T" if "n \<in># added_nodes b T" for n
        using that b positive_delay_node(2) by (fastforce simp: added_nodes_def adds_ok_def)
      then have "filter_mset (\<lambda>n. tn_expire n = tm_time T) (added_nodes b T) = {#}"
        by simp
      then have d2: "due_now T2 = {#}"
        unfolding due_now_def T2 by (simp add: diff_filter_mset)
      then have "tm_near T2 ! slot_of T2 = []" using slot_due(1) [OF T2(1)] by simp
      then have "timer_execute rest T2 = (T2, [])" by (cases rest) simp_all
      with Cons False ne T2 d2 sl(1) show ?thesis by (simp add: first_batch_def T2_def [symmetric])
    qed
  qed
qed

section \<open>Updates fire the nodes on time\<close>

definition timer_ok :: "timer \<Rightarrow> bool" where
  "timer_ok T \<longleftrightarrow> wheel_ok T \<and> due_now T = {#}"

definition interference_ok :: "interference \<Rightarrow> bool" where
  "interference_ok itf \<longleftrightarrow> (\<forall>b \<in> set (fst itf) \<union> set (snd itf). adds_ok b)"

lemma timer_ok_init: "timer_ok (skynet_timer_init sec cs now)"
proof -
  have "get_loc (skynet_timer_init sec cs now) l = []" if "valid_loc l" for l
    using that by (cases l) (simp_all add: skynet_timer_init_def timer_create_timer_def)
  then show ?thesis
    by (auto simp: timer_ok_def wheel_ok_def dims_def skynet_timer_init_def timer_create_timer_def
        due_now_def in_pending)
qed

lemma timer_add_ok:
  assumes "timer_ok T" "0 < sint t"
  shows "timer_ok (timer_add h s t T)" "pending (timer_add h s t T) = add_mset (new_node h s t T) (pending T)"
    "tm_time (timer_add h s t T) = tm_time T"
  using add_node_spec [OF _ positive_delay_node(1) [OF assms(2), of T h s]] positive_delay_node(2) [OF assms(2), of h s T] assms(1)
  by (auto simp: timer_ok_def timer_add_def due_now_def)

lemma timer_update_spec:
  assumes ok: "timer_ok T" and itf: "interference_ok itf"
  shows "\<exists>T' fired. timer_update itf T = Inr (T', fired) \<and> timer_ok T' \<and> tm_time T' = tm_time T + 1 \<and>
    mset fired = filter_mset (\<lambda>n. tn_expire n = tm_time T + 1) (pending T) \<and>
    pending T' = filter_mset (\<lambda>n. tn_expire n \<noteq> tm_time T + 1) (pending T) +
      (if fired = [] then {#} else added_nodes (first_batch (snd itf)) T')"
proof -
  have w: "wheel_ok T" and q: "due_now T = {#}" using ok by (simp_all add: timer_ok_def)
  have b: "\<forall>b \<in> set (fst itf). adds_ok b" "\<forall>b \<in> set (snd itf). adds_ok b"
    using itf by (auto simp: interference_ok_def)
  have early: "timer_execute (fst itf) T = (T, [])"
    using slot_due(1) [OF w] q by (cases "fst itf") simp_all
  have "\<forall>n. n \<in># pending T \<longrightarrow> tn_expire n \<noteq> tm_time T" using q by (simp add: due_now_def)
  from timer_shift_spec [OF w this] obtain T2 where T2: "timer_shift T = Inr T2" "wheel_ok T2"
    "tm_time T2 = tm_time T + 1" "pending T2 = pending T" by blast
  from timer_execute_spec [OF T2(2) b(2)] obtain T3 due where T3: "timer_execute (snd itf) T2 = (T3, due)"
    "wheel_ok T3" "tm_time T3 = tm_time T2" "mset due = due_now T2" "due_now T3 = {#}"
    "pending T3 = (pending T2 - due_now T2) + (if due_now T2 = {#} then {#} else added_nodes (first_batch (snd itf)) T2)"
    by blast
  have d: "due_now T2 = filter_mset (\<lambda>n. tn_expire n = tm_time T + 1) (pending T)"
    by (simp add: due_now_def T2)
  have "pending T2 - due_now T2 = filter_mset (\<lambda>n. tn_expire n \<noteq> tm_time T + 1) (pending T)"
    unfolding d T2(4) diff_filter_mset ..
  moreover have "due = [] \<longleftrightarrow> due_now T2 = {#}" using T3(4) by auto
  moreover have "added_nodes (first_batch (snd itf)) T2 = added_nodes (first_batch (snd itf)) T3"
    by (simp add: added_nodes_def new_node_def T3(3))
  ultimately have "pending T3 = filter_mset (\<lambda>n. tn_expire n \<noteq> tm_time T + 1) (pending T) +
      (if due = [] then {#} else added_nodes (first_batch (snd itf)) T3)" using T3(6) by simp
  moreover have "timer_update itf T = Inr (T3, due)"
    by (simp add: timer_update_def early T2(1) T3(1) bind_res_def)
  ultimately show ?thesis using T3 T2(3) d by (auto simp: timer_ok_def)
qed

lemma timer_updates_spec:
  assumes "timer_ok T" "\<And>i. interference_ok (itf i)"
  shows "\<exists>T' fs. timer_updates itf k T = Inr (T', fs) \<and> timer_ok T' \<and> length fs = k \<and>
    tm_time T' = tm_time T + of_nat k \<and>
    (\<forall>j < k. \<forall>n \<in> set (fs ! j). tn_expire n = tm_time T + of_nat (Suc j)) \<and>
    (\<forall>n d. n \<in># pending T \<longrightarrow> d < k \<longrightarrow> k < 2 ^ 32 \<longrightarrow> tn_expire n = tm_time T + of_nat (Suc d) \<longrightarrow> n \<in> set (fs ! d)) \<and>
    (\<forall>n. n \<in># pending T \<longrightarrow> n \<in># pending T' \<or> (\<exists>j < k. tn_expire n = tm_time T + of_nat (Suc j)))"
  using assms
proof (induction k arbitrary: T itf)
  case (Suc k)
  from timer_update_spec [OF Suc.prems(1) Suc.prems(2) [of 0]] obtain T1 fired where
    T1: "timer_update (itf 0) T = Inr (T1, fired)" "timer_ok T1" "tm_time T1 = tm_time T + 1"
      "mset fired = filter_mset (\<lambda>n. tn_expire n = tm_time T + 1) (pending T)"
      "filter_mset (\<lambda>n. tn_expire n \<noteq> tm_time T + 1) (pending T) \<subseteq># pending T1" by auto
  from Suc.IH [OF T1(2), of "\<lambda>i. itf (Suc i)"] Suc.prems(2) obtain T' fs where
    T': "timer_updates (\<lambda>i. itf (Suc i)) k T1 = Inr (T', fs)" "timer_ok T'" "length fs = k"
      "tm_time T' = tm_time T1 + of_nat k"
      and on: "\<And>j n. j < k \<Longrightarrow> n \<in> set (fs ! j) \<Longrightarrow> tn_expire n = tm_time T1 + of_nat (Suc j)"
      and all: "\<And>n d. n \<in># pending T1 \<Longrightarrow> d < k \<Longrightarrow> k < 2 ^ 32 \<Longrightarrow> tn_expire n = tm_time T1 + of_nat (Suc d) \<Longrightarrow> n \<in> set (fs ! d)"
      and rest: "\<And>n. n \<in># pending T1 \<Longrightarrow> n \<in># pending T' \<or> (\<exists>j < k. tn_expire n = tm_time T1 + of_nat (Suc j))"
    by blast
  have f: "n \<in> set fired \<longleftrightarrow> n \<in># pending T \<and> tn_expire n = tm_time T + 1" for n
    using arg_cong [OF T1(4), of set_mset] by auto
  have keep: "n \<in># pending T1" if "n \<in># pending T" "tn_expire n \<noteq> tm_time T + 1" for n
    using mset_subset_eqD [OF T1(5), of n] that by simp
  have run: "timer_updates itf (Suc k) T = Inr (T', fired # fs)" using T1(1) T'(1) by (simp add: bind_res_def)
  have eq: "tm_time T1 + of_nat (Suc j) = tm_time T + of_nat (Suc (Suc j))" for j by (simp add: T1(3))
  have far: "(of_nat (Suc (Suc d)) :: u32) \<noteq> 1" if "Suc d < 2 ^ 32 - 1" for d
  proof
    assume "(of_nat (Suc (Suc d)) :: u32) = 1"
    then have "unat (of_nat (Suc (Suc d)) :: u32) = 1" by (simp only: unat_1)
    then show False using that by (simp add: unat_of_nat take_bit_eq_mod del: of_nat_Suc)
  qed
  have A: "\<forall>j < Suc k. \<forall>n \<in> set ((fired # fs) ! j). tn_expire n = tm_time T + of_nat (Suc j)"
  proof (intro allI impI ballI)
    fix j n assume "j < Suc k" "n \<in> set ((fired # fs) ! j)"
    then show "tn_expire n = tm_time T + of_nat (Suc j)" using on f eq by (cases j) (auto simp del: of_nat_Suc, simp)
  qed
  have B: "\<forall>n d. n \<in># pending T \<longrightarrow> d < Suc k \<longrightarrow> Suc k < 2 ^ 32 \<longrightarrow> tn_expire n = tm_time T + of_nat (Suc d) \<longrightarrow>
    n \<in> set ((fired # fs) ! d)"
  proof (intro allI impI)
    fix n d assume n: "n \<in># pending T" "d < Suc k" "Suc k < 2 ^ 32" "tn_expire n = tm_time T + of_nat (Suc d)"
    show "n \<in> set ((fired # fs) ! d)"
    proof (cases d)
      case 0
      with n f show ?thesis by simp
    next
      case (Suc e)
      with n far [of e] have "tn_expire n \<noteq> tm_time T + 1" by (auto simp del: of_nat_Suc)
      with keep [OF n(1)] all [of n e] n Suc eq show ?thesis by (simp del: of_nat_Suc)
    qed
  qed
  have D: "\<forall>n. n \<in># pending T \<longrightarrow> n \<in># pending T' \<or> (\<exists>j < Suc k. tn_expire n = tm_time T + of_nat (Suc j))"
  proof (intro allI impI)
    fix n assume n: "n \<in># pending T"
    show "n \<in># pending T' \<or> (\<exists>j < Suc k. tn_expire n = tm_time T + of_nat (Suc j))"
    proof (cases "tn_expire n = tm_time T + 1")
      case True
      then show ?thesis by (intro disjI2 exI [of _ 0]) simp
    next
      case False
      from rest [OF keep [OF n False]] eq show ?thesis by (auto simp del: of_nat_Suc)
    qed
  qed
  have L: "length (fired # fs) = Suc k" and tm: "tm_time T' = tm_time T + of_nat (Suc k)"
    using T' T1(3) by simp_all
  show ?case using run T'(2) L tm A B D by (intro exI conjI)
qed simp

section \<open>The clock fields\<close>

definition clock :: "timer \<Rightarrow> u32 \<times> u64 \<times> u64" where
  "clock T = (tm_starttime T, tm_current T, tm_current_point T)"

lemma clock_add_node [simp]: "clock (add_node n T) = clock T"
  by (simp add: add_node_def link_near_def link_level_def Let_def clock_def)

lemma clock_fold [simp]: "clock (fold add_node ns T) = clock T"
  by (induction ns arbitrary: T) simp_all

lemma clock_add_all [simp]: "clock (timer_add_all ads T) = clock T"
  by (induction ads arbitrary: T) (auto simp: timer_add_all_def timer_add_def)

lemma clock_execute: "clock (fst (timer_execute bs T)) = clock T"
proof (induction bs arbitrary: T)
  case (Cons b bs)
  show ?case using Cons [of "timer_add_all b (T\<lparr>tm_near := (tm_near T)[slot_of T := []]\<rparr>)"]
    by (simp add: split_beta Let_def) (simp add: clock_def)
qed (simp add: clock_def)

lemma clock_shift: "timer_shift T = Inr T' \<Longrightarrow> clock T' = clock T"
  unfolding timer_shift_eq move_list_def by (auto simp: clock_def [of "_\<lparr>tm_time := _\<rparr>"] split: if_splits)
    (simp_all add: clock_def)

lemma clock_update: "timer_update itf T = Inr (T', fired) \<Longrightarrow> clock T' = clock T"
  unfolding timer_update_def
  by (auto simp: split_beta Let_def bind_res_def split: sum.splits)
    (metis clock_execute clock_shift fst_conv)

lemma clock_updates: "timer_updates itf k T = Inr (T', fs) \<Longrightarrow> clock T' = clock T"
  by (induction itf k T arbitrary: T' fs rule: timer_updates.induct)
    (auto simp: bind_res_def dest!: clock_update split: sum.splits prod.splits)

section \<open>Properties\<close>

text \<open>
  C10: A timer added with a positive delay of t ticks fires in exactly the t-th update that
  follows and in no earlier one, whatever timers other threads add while the updates run
  (wrap-around of the 32-bit clock and of the wheel's levels included); no update overflows.
\<close>

theorem timer_fires_on_time:
  assumes "timer_ok T" "\<forall>i. interference_ok (itf i)" "0 < sint t"
  shows "\<exists>T' fs. timer_updates itf (nat (sint t)) (timer_add h s t T) = Inr (T', fs) \<and> length fs = nat (sint t) \<and>
    new_node h s t T \<in> set (last fs) \<and> (\<forall>f \<in> set (butlast fs). new_node h s t T \<notin> set f)"
proof -
  let ?k = "nat (sint t)" and ?n = "new_node h s t T"
  have k: "?k = unat t" unfolding positive_unat(1) [OF assms(3), symmetric] by (rule nat_int)
  have t: "?k = unat t" "0 < ?k" "?k < 2 ^ 31" unfolding k using positive_unat(2,3) [OF assms(3)] by auto
  have e: "tn_expire ?n = tm_time T + of_nat (Suc (?k - 1))" using t by (simp add: new_node_def)
  from timer_updates_spec [OF timer_add_ok(1) [OF assms(1,3), of h s], of itf ?k] assms(2)
  obtain T' fs where u: "timer_updates itf ?k (timer_add h s t T) = Inr (T', fs)" "length fs = ?k"
    and on: "\<And>j n. j < ?k \<Longrightarrow> n \<in> set (fs ! j) \<Longrightarrow> tn_expire n = tm_time T + of_nat (Suc j)"
    and all: "\<And>d n. n \<in># add_mset ?n (pending T) \<Longrightarrow> d < ?k \<Longrightarrow> ?k < 2 ^ 32 \<Longrightarrow>
      tn_expire n = tm_time T + of_nat (Suc d) \<Longrightarrow> n \<in> set (fs ! d)"
    unfolding timer_add_ok(2,3) [OF assms(1,3)] by blast
  have "?n \<in> set (fs ! (?k - 1))" by (rule all [OF _ _ _ e]) (use t in simp_all)
  then have last: "?n \<in> set (last fs)" using u(2) t(2) by (simp add: last_conv_nth flip: length_greater_0_conv)
  have early: "?n \<notin> set f" if "f \<in> set (butlast fs)" for f
  proof
    assume "?n \<in> set f"
    from that obtain j where j: "j < ?k - 1" "f = fs ! j"
      using u(2) by (auto simp: in_set_conv_nth nth_butlast)
    with on [of j ?n] \<open>?n \<in> set f\<close> e have "(of_nat (Suc j) :: u32) = of_nat (Suc (?k - 1))"
      by (simp del: of_nat_Suc)
    then have "unat (of_nat (Suc j) :: u32) = unat (of_nat (Suc (?k - 1)) :: u32)" by simp
    then show False using j t by (simp add: unat_of_nat take_bit_eq_mod del: of_nat_Suc)
  qed
  from u last early show ?thesis by blast
qed

theorem timer_fires_on_time_witness:
  "\<exists>T' fs. timer_updates (\<lambda>_. ([], [[(7, 8, 9)]])) (nat (sint (3 :: i32))) (timer_add 1 2 3 (skynet_timer_init 0 0 0)) = Inr (T', fs) \<and>
    length fs = nat (sint (3 :: i32)) \<and> new_node 1 2 3 (skynet_timer_init 0 0 0) \<in> set (last fs) \<and>
    (\<forall>f \<in> set (butlast fs). new_node 1 2 3 (skynet_timer_init 0 0 0) \<notin> set f)"
  by (rule timer_fires_on_time) (simp_all add: timer_ok_init interference_ok_def adds_ok_def)

text \<open>
  One update refines the abstract clock: the time advances by one, the dispatched nodes are
  exactly the pending nodes that expire at the new time (each once), every other node stays
  pending together with what other threads added, and the wheel keeps its invariant.
\<close>

theorem timer_update_refines:
  assumes "timer_ok T" "interference_ok itf"
  shows "\<exists>T' fired. timer_update itf T = Inr (T', fired) \<and> timer_ok T' \<and> tm_time T' = tm_time T + 1 \<and>
    mset fired = filter_mset (\<lambda>n. tn_expire n = tm_time T + 1) (pending T) \<and>
    pending T' = filter_mset (\<lambda>n. tn_expire n \<noteq> tm_time T + 1) (pending T) +
      (if fired = [] then {#} else added_nodes (first_batch (snd itf)) T')"
  by (rule timer_update_spec [OF assms])

theorem timer_update_refines_witness:
  "\<exists>T' fired. timer_update ([], [[(7, 8, 9)]]) (skynet_timer_init 0 0 0) = Inr (T', fired) \<and> timer_ok T' \<and>
    tm_time T' = tm_time (skynet_timer_init 0 0 0) + 1 \<and>
    mset fired = filter_mset (\<lambda>n. tn_expire n = tm_time (skynet_timer_init 0 0 0) + 1) (pending (skynet_timer_init 0 0 0)) \<and>
    pending T' = filter_mset (\<lambda>n. tn_expire n \<noteq> tm_time (skynet_timer_init 0 0 0) + 1) (pending (skynet_timer_init 0 0 0)) +
      (if fired = [] then {#} else added_nodes (first_batch (snd (([], [[(7, 8, 9)]]) :: interference))) T')"
  by (rule timer_update_refines) (simp_all add: timer_ok_init interference_ok_def adds_ok_def)

text \<open>
  \<open>skynet_updatetime\<close> adopts the new clock reading, makes one update per centisecond that
  passed (modulo 2^32, and none when the clock went back), and advances \<open>current\<close> and \<open>time\<close> by
  that number.
\<close>

theorem updatetime_catches_up:
  assumes "timer_ok T" "\<forall>i. interference_ok (itf i)"
  shows "\<exists>T' fs. skynet_updatetime itf cp T = Inr (T', fs) \<and> timer_ok T' \<and> tm_current_point T' = cp \<and>
    length fs = (if cp < tm_current_point T then 0 else (unat cp - unat (tm_current_point T)) mod 2 ^ 32) \<and>
    tm_current T' = tm_current T + of_nat (length fs) \<and> tm_time T' = tm_time T + of_nat (length fs)"
proof -
  have keep: "timer_ok (T\<lparr>tm_current_point := x, tm_current := y\<rparr>)" "timer_ok (T\<lparr>tm_current_point := x\<rparr>)" for x y
  proof -
    have g: "get_loc (T\<lparr>tm_current_point := x, tm_current := y\<rparr>) l = get_loc T l" "get_loc (T\<lparr>tm_current_point := x\<rparr>) l = get_loc T l" for l
      by (cases l; simp)+
    show "timer_ok (T\<lparr>tm_current_point := x, tm_current := y\<rparr>)" "timer_ok (T\<lparr>tm_current_point := x\<rparr>)"
      using assms(1) by (simp_all add: timer_ok_def wheel_ok_def dims_def due_now_def pending_def node_ok_def g)
  qed
  consider "cp < tm_current_point T" | "cp = tm_current_point T" | "tm_current_point T < cp" by fastforce
  then show ?thesis
  proof cases
    case 1
    then show ?thesis using keep by (simp add: skynet_updatetime_def)
  next
    case 2
    then show ?thesis using assms(1) by (simp add: skynet_updatetime_def)
  next
    case 3
    then have 3: "\<not> cp < tm_current_point T" "cp \<noteq> tm_current_point T" "tm_current_point T \<le> cp" by auto
    define diff where "diff = (ucast (cp - tm_current_point T) :: u32)"
    let ?T = "T\<lparr>tm_current_point := cp, tm_current := tm_current T + ucast diff\<rparr>"
    have "unat (cp - tm_current_point T) = unat cp - unat (tm_current_point T)"
      using 3(3) by (simp add: unat_sub)
    then have d: "unat diff = (unat cp - unat (tm_current_point T)) mod 2 ^ 32"
      by (simp add: diff_def unsigned_ucast_eq take_bit_eq_mod)
    have c64: "(ucast diff :: u64) = of_nat (unat diff)" by simp
    from timer_updates_spec [OF keep(1) [where x = cp and y = "tm_current T + ucast diff"], of itf "unat diff"] assms(2)
    obtain T' fs where T': "timer_updates itf (unat diff) ?T = Inr (T', fs)" "timer_ok T'" "length fs = unat diff"
      "tm_time T' = tm_time T + of_nat (unat diff)" by auto
    from clock_updates [OF T'(1)] have "tm_current_point T' = cp" "tm_current T' = tm_current T + of_nat (unat diff)"
      unfolding c64 by (simp_all add: clock_def)
    moreover have "skynet_updatetime itf cp T = Inr (T', fs)"
      unfolding skynet_updatetime_def Let_def diff_def [symmetric] using 3 T'(1) by simp
    moreover have "length fs = (if cp < tm_current_point T then 0 else (unat cp - unat (tm_current_point T)) mod 2 ^ 32)"
      unfolding d [symmetric] using 3 T'(3) by simp
    ultimately show ?thesis
      by (intro exI [of _ T'] exI [of _ fs] conjI) (simp_all only: T'(2-4))
  qed
qed

theorem updatetime_catches_up_witness:
  "\<exists>T' fs. skynet_updatetime (\<lambda>_. ([], [])) 15 (skynet_timer_init 0 0 5) = Inr (T', fs) \<and> timer_ok T' \<and> tm_current_point T' = 15 \<and>
    length fs = (if 15 < tm_current_point (skynet_timer_init 0 0 5) then 0
      else (unat (15 :: u64) - unat (tm_current_point (skynet_timer_init 0 0 5))) mod 2 ^ 32) \<and>
    tm_current T' = tm_current (skynet_timer_init 0 0 5) + of_nat (length fs) \<and>
    tm_time T' = tm_time (skynet_timer_init 0 0 5) + of_nat (length fs)"
  by (rule updatetime_catches_up) (simp_all add: timer_ok_init interference_ok_def)

end
