(* ===== verification/CStrings.thy ===== *)
theory CStrings
  imports Prelude
begin

text \<open>
  The parts of the C library's string handling that the node uses on its command arguments:
  \<open>strtoul\<close> and \<open>strtol\<close> (white space, sign, base prefix, saturation), the
  \<open>printf\<close> conversions \<open>%d\<close>, \<open>%u\<close>, \<open>%x\<close> and \<open>%08x\<close>, and the splitting done by
  \<open>strsep\<close> and \<open>sscanf("%s %s")\<close>; and \<open>id_to_hex\<close> of
  \<open>skynet/skynet-src/skynet_server.c\<close>. A C string is the list of its characters without the
  final null.
\<close>

definition isspace :: "char \<Rightarrow> bool" where
  "isspace c \<longleftrightarrow> c \<in> {CHR '' '', CHR 0x09, CHR 0x0A, CHR 0x0B, CHR 0x0C, CHR 0x0D}"

definition digit_val :: "char \<Rightarrow> nat option" where
  "digit_val c =
     (let n = (of_char c :: nat)
      in if 48 \<le> n \<and> n \<le> 57 then Some (n - 48)
         else if 65 \<le> n \<and> n \<le> 90 then Some (n - 55)
         else if 97 \<le> n \<and> n \<le> 122 then Some (n - 87)
         else None)"

definition is_digit :: "nat \<Rightarrow> char \<Rightarrow> bool" where
  "is_digit base c = (case digit_val c of None \<Rightarrow> False | Some d \<Rightarrow> d < base)"

fun read_digits :: "nat \<Rightarrow> string \<Rightarrow> nat \<Rightarrow> nat" where
  "read_digits base [] acc = acc"
| "read_digits base (c # cs) acc =
     (if is_digit base c then read_digits base cs (acc * base + the (digit_val c)) else acc)"

definition skip_0x :: "string \<Rightarrow> string option" where
  "skip_0x s = (case s of a # b # c # cs \<Rightarrow>
       if a = CHR ''0'' \<and> (b = CHR ''x'' \<or> b = CHR ''X'') \<and> is_digit 16 c then Some (c # cs) else None
     | _ \<Rightarrow> None)"

definition read_base :: "nat \<Rightarrow> string \<Rightarrow> nat" where
  "read_base base s =
     (case (if base = 16 \<or> base = 0 then skip_0x s else None) of
        Some s' \<Rightarrow> read_digits 16 s' 0
      | None \<Rightarrow> read_digits (if base \<noteq> 0 then base
                  else if s \<noteq> [] \<and> hd s = CHR ''0'' then 8 else 10) s 0)"

text \<open>Sign and magnitude of the number a string starts with.\<close>

definition read_number :: "nat \<Rightarrow> string \<Rightarrow> bool \<times> nat" where
  "read_number base s =
     (let s1 = dropWhile isspace s
      in if s1 \<noteq> [] \<and> hd s1 = CHR ''-'' then (True, read_base base (tl s1))
         else if s1 \<noteq> [] \<and> hd s1 = CHR ''+'' then (False, read_base base (tl s1))
         else (False, read_base base s1))"

text \<open>\<open>strtoul\<close> on 64-bit longs, and its conversion to \<open>uint32_t\<close>.\<close>

definition strtoul :: "nat \<Rightarrow> string \<Rightarrow> u64" where
  "strtoul base s =
     (case read_number base s of (neg, v) \<Rightarrow>
        if 2 ^ 64 \<le> v then - 1 else if neg then - word_of_nat v else word_of_nat v)"

definition strtoul32 :: "string \<Rightarrow> u32" where
  "strtoul32 s = ucast (strtoul 16 s)"

text \<open>\<open>strtol\<close>, saturating, and its conversion to \<open>int\<close>.\<close>

definition strtol :: "nat \<Rightarrow> string \<Rightarrow> int" where
  "strtol base s =
     (case read_number base s of (neg, v) \<Rightarrow>
        if neg then max (- (2 ^ 63)) (- int v) else min (2 ^ 63 - 1) (int v))"

definition strtol32 :: "nat \<Rightarrow> string \<Rightarrow> i32" where
  "strtol32 base s = word_of_int (strtol base s)"

definition hex_digit :: "nat \<Rightarrow> char" where
  "hex_digit d = char_of (if d < 10 then d + 48 else d + 55)"

definition hex_lower :: "nat \<Rightarrow> char" where
  "hex_lower d = char_of (if d < 10 then d + 48 else d + 87)"

fun fmt_base :: "nat \<Rightarrow> (nat \<Rightarrow> char) \<Rightarrow> nat \<Rightarrow> nat \<Rightarrow> string" where
  "fmt_base base dig 0 v = []"
| "fmt_base base dig (Suc n) v = (if v < base then [dig v] else fmt_base base dig n (v div base) @ [dig (v mod base)])"

definition fmt_u :: "nat \<Rightarrow> string" where
  "fmt_u v = fmt_base 10 hex_lower (Suc v) v"

definition fmt_x :: "u32 \<Rightarrow> string" where
  "fmt_x w = fmt_base 16 hex_lower 8 (unat w)"

definition fmt_08x :: "u32 \<Rightarrow> string" where
  "fmt_08x w = replicate (8 - length (fmt_x w)) (CHR ''0'') @ fmt_x w"

definition fmt_d :: "i32 \<Rightarrow> string" where
  "fmt_d w = (if sint w < 0 then CHR ''-'' # fmt_u (nat (- sint w)) else fmt_u (nat (sint w)))"

text \<open>\<open>id_to_hex\<close>: a colon and eight upper-case digits.\<close>

definition id_to_hex :: "u32 \<Rightarrow> string" where
  "id_to_hex h = CHR '':'' # map (\<lambda>i. hex_digit (unat (drop_bit ((7 - i) * 4) h AND 0xf))) [0..<8]"

text \<open>\<open>sscanf(param, "%s %s")\<close>: two words.\<close>

definition scan_word :: "string \<Rightarrow> string \<times> string" where
  "scan_word s = (let s1 = dropWhile isspace s in (takeWhile (\<lambda>c. \<not> isspace c) s1, dropWhile (\<lambda>c. \<not> isspace c) s1))"

definition scan_two_words :: "string \<Rightarrow> string \<times> string" where
  "scan_two_words s = (let (a, r) = scan_word s; (b, _) = scan_word r in (a, b))"

text \<open>\<open>strsep\<close>: the token before the first delimiter, and what follows it.\<close>

definition strsep :: "char set \<Rightarrow> string \<Rightarrow> string \<times> string option" where
  "strsep delims s =
     (case dropWhile (\<lambda>c. c \<notin> delims) s of
        [] \<Rightarrow> (s, None)
      | _ # rest \<Rightarrow> (takeWhile (\<lambda>c. c \<notin> delims) s, Some rest))"

section \<open>Printing and reading back\<close>

lemma hex_digit_val: "d < 16 \<Longrightarrow> digit_val (hex_digit d) = Some d \<and> is_digit 16 (hex_digit d)"
  by (auto simp: digit_val_def hex_digit_def is_digit_def Let_def)

lemma hex_lower_val: "d < 16 \<Longrightarrow> digit_val (hex_lower d) = Some d \<and> is_digit 16 (hex_lower d)"
  by (auto simp: digit_val_def hex_lower_def is_digit_def Let_def)

lemma read_digits_append:
  "(\<And>c. c \<in> set ds \<Longrightarrow> is_digit b c) \<Longrightarrow> read_digits b (ds @ s) acc = read_digits b s (read_digits b ds acc)"
  by (induction ds arbitrary: acc) auto

lemma fmt_base_digits:
  "1 < b \<Longrightarrow> b \<le> 16 \<Longrightarrow> c \<in> set (fmt_base b hex_lower n v) \<Longrightarrow> \<exists>d < b. c = hex_lower d"
proof (induction n arbitrary: v)
  case (Suc n)
  then show ?case by (cases "v < b") (auto intro: exI [of _ "v mod b"])
qed simp

lemma read_fmt_base:
  "v < 16 ^ n \<Longrightarrow> 0 < n \<Longrightarrow> read_digits 16 (fmt_base 16 hex_lower n v) 0 = v"
proof (induction n arbitrary: v)
  case (Suc n)
  show ?case
  proof (cases "v < 16")
    case True
    then show ?thesis using hex_lower_val [of v] by simp
  next
    case False
    with Suc.prems have n: "v div 16 < 16 ^ n" "0 < n" by (auto intro: gr0I simp: less_mult_imp_div_less mult.commute)
    have "is_digit 16 c" if "c \<in> set (fmt_base 16 hex_lower n (v div 16))" for c
      using fmt_base_digits [OF _ _ that] hex_lower_val by auto
    then have "read_digits 16 (fmt_base 16 hex_lower n (v div 16) @ [hex_lower (v mod 16)]) 0 = v"
      using Suc.IH [OF n] hex_lower_val [of "v mod 16"] by (subst read_digits_append) auto
    with False show ?thesis by simp
  qed
qed simp

lemma read_hex_digits:
  "(\<forall>d \<in> set ds. d < 16) \<Longrightarrow> read_digits 16 (map hex_digit ds) acc = foldl (\<lambda>a d. a * 16 + d) acc ds"
  using hex_digit_val by (induction ds arbitrary: acc) auto

lemma no_0x_hex_digit: "(\<forall>d \<in> set ds. d < 16) \<Longrightarrow> skip_0x (map hex_digit ds) = None"
proof -
  have "hex_digit d \<noteq> CHR ''x'' \<and> hex_digit d \<noteq> CHR ''X''" if "d < 16" for d
    using hex_digit_val [OF that] by (auto simp: digit_val_def is_digit_def)
  then show "(\<forall>d \<in> set ds. d < 16) \<Longrightarrow> skip_0x (map hex_digit ds) = None"
    by (auto simp: skip_0x_def split: list.splits)
qed

lemma read_number_hex:
  assumes "\<forall>d \<in> set ds. d < 16" "ds \<noteq> []"
  shows "read_number 16 (map hex_digit ds) = (False, foldl (\<lambda>a d. a * 16 + d) 0 ds)"
proof -
  obtain d ds' where ds: "ds = d # ds'" "d < 16" using assms by (cases ds) auto
  have "\<not> isspace (hex_digit d)" "hex_digit d \<noteq> CHR ''-''" "hex_digit d \<noteq> CHR ''+''"
    using hex_digit_val [OF ds(2)] by (auto simp: isspace_def digit_val_def is_digit_def)
  then have "read_number 16 (map hex_digit ds) = (False, read_base 16 (map hex_digit ds))"
    by (simp add: read_number_def ds(1) Let_def)
  then show ?thesis using no_0x_hex_digit [OF assms(1)] read_hex_digits [OF assms(1)] by (simp add: read_base_def)
qed

lemma hex_digits_value:
  "foldl (\<lambda>a d. a * 16 + d) 0 (map (\<lambda>i. v div 16 ^ (n - 1 - i) mod 16) [0..<n]) = v mod (16 :: nat) ^ n"
proof (induction n arbitrary: v)
  case (Suc n)
  have "map (\<lambda>i. v div 16 ^ (Suc n - 1 - i) mod 16) [0..<n] = map (\<lambda>i. v div 16 div 16 ^ (n - 1 - i) mod 16) [0..<n]"
  proof (rule map_cong [OF refl])
    fix i assume "i \<in> set [0..<n]"
    then have "(16::nat) ^ (Suc n - 1 - i) = 16 * 16 ^ (n - 1 - i)" by (simp flip: power_Suc add: Suc_diff_Suc)
    then show "v div 16 ^ (Suc n - 1 - i) mod 16 = v div 16 div 16 ^ (n - 1 - i) mod 16"
      by (simp only: div_mult2_eq)
  qed
  then have split: "map (\<lambda>i. v div 16 ^ (Suc n - 1 - i) mod 16) [0..<Suc n] =
      map (\<lambda>i. v div 16 div 16 ^ (n - 1 - i) mod 16) [0..<n] @ [v mod 16]"
    by (simp only: upt_Suc_append zero_le map_append) simp
  have "foldl (\<lambda>a d. a * 16 + d) 0 (map (\<lambda>i. v div 16 ^ (Suc n - 1 - i) mod 16) [0..<Suc n]) =
      (v div 16) mod 16 ^ n * 16 + v mod 16"
    unfolding split foldl_append Suc.IH [of "v div 16"] by simp
  also have "\<dots> = v mod 16 ^ Suc n" by (simp add: mod_mult2_eq mult.commute)
  finally show ?case .
qed simp

lemma id_to_hex_digits:
  "id_to_hex h = CHR '':'' # map hex_digit (map (\<lambda>i. unat h div 16 ^ (8 - 1 - i) mod 16) [0..<8])"
proof -
  have "unat (drop_bit ((7 - i) * 4) h AND 0xf) = unat h div 16 ^ (8 - 1 - i) mod 16" for i
  proof -
    have "drop_bit ((7 - i) * 4) h AND 0xf = take_bit 4 (drop_bit ((7 - i) * 4) h)"
      by (simp add: take_bit_eq_mask mask_eq_exp_minus_1)
    then have "unat (drop_bit ((7 - i) * 4) h AND 0xf) = unat h div 2 ^ ((7 - i) * 4) mod 2 ^ 4"
      by (simp only: unat_take_bit unat_drop_bit)
    also have "(2::nat) ^ ((7 - i) * 4) = 16 ^ (8 - 1 - i)" by (simp add: power_mult mult.commute)
    finally show ?thesis by simp
  qed
  then show ?thesis by (simp add: id_to_hex_def comp_def)
qed

lemma u32_via_u64: "ucast (ucast (h :: u32) :: u64) = h"
  by (rule bit_word_eqI) (simp add: bit_simps)

lemma id_to_hex_read: "strtoul32 (tl (id_to_hex h)) = h"
proof -
  let ?ds = "map (\<lambda>i. unat h div 16 ^ (8 - 1 - i) mod 16) [0..<8]"
  have lt: "unat h < 16 ^ 8" by (rule order_less_le_trans [OF unsigned_less]) simp
  have "read_number 16 (map hex_digit ?ds) = (False, unat h)"
    by (subst read_number_hex) (use lt in \<open>simp_all only: hex_digits_value mod_less, auto\<close>)
  moreover have "\<not> 2 ^ 64 \<le> unat h" using lt by simp
  ultimately show ?thesis
    unfolding strtoul32_def strtoul_def id_to_hex_digits list.sel by (simp add: u32_via_u64)
qed

lemma fmt_x_nonempty: "fmt_x h \<noteq> []"
proof -
  have ne: "fmt_base 16 hex_lower (Suc n) v \<noteq> []" for n v by simp
  have eight: "(8::nat) = Suc 7" by simp
  show ?thesis unfolding fmt_x_def eight by (rule ne)
qed

lemma fmt_x_read: "strtoul32 (fmt_x h) = h"
proof -
  have dig: "\<exists>d < 16. c = hex_lower d" if "c \<in> set (fmt_x h)" for c
    using fmt_base_digits [of 16 c 8 "unat h"] that by (auto simp: fmt_x_def)
  have not: "\<not> isspace (hex_lower d) \<and> hex_lower d \<noteq> CHR ''-'' \<and> hex_lower d \<noteq> CHR ''+'' \<and>
      hex_lower d \<noteq> CHR ''x'' \<and> hex_lower d \<noteq> CHR ''X''" if "d < 16" for d
    using hex_lower_val [OF that] by (auto simp: isspace_def digit_val_def is_digit_def)
  have lt: "unat h < 16 ^ 8" by (rule order_less_le_trans [OF unsigned_less]) simp
  obtain c cs where c: "fmt_x h = c # cs" using fmt_x_nonempty by (cases "fmt_x h") auto
  with dig not have "\<not> isspace c" "c \<noteq> CHR ''-''" "c \<noteq> CHR ''+''" by fastforce+
  then have "read_number 16 (fmt_x h) = (False, read_base 16 (fmt_x h))"
    by (simp add: read_number_def c Let_def)
  moreover have "skip_0x (fmt_x h) = None"
  proof -
    have "b \<noteq> CHR ''x'' \<and> b \<noteq> CHR ''X''" if "b \<in> set (fmt_x h)" for b using dig [OF that] not by auto
    then show ?thesis by (auto simp: skip_0x_def split: list.splits)
  qed
  moreover have "read_digits 16 (fmt_x h) 0 = unat h"
    unfolding fmt_x_def by (rule read_fmt_base) (use lt in simp_all)
  moreover have "\<not> 2 ^ 64 \<le> unat h" using lt by simp
  ultimately show ?thesis by (simp add: strtoul32_def strtoul_def read_base_def u32_via_u64)
qed

end
