(* ===== verification/Module.thy ===== *)
theory Module
  imports Prelude
begin

text \<open>
  The registry of C services, \<open>skynet/skynet-src/skynet_module.c\<close>: a table of at most 32 modules,
  each with the addresses of its four entry points. \<open>dlopen\<close> and \<open>dlsym\<close> are the dynamic
  linker, parameters of the model: a file name gives a library or nothing, a library and a
  symbol give an address or nothing.
\<close>

abbreviation (input) MAX_MODULE_TYPE :: nat where "MAX_MODULE_TYPE \<equiv> 32"

type_synonym dlopen_fn = "string \<Rightarrow> nat option"
type_synonym dlsym_fn = "nat \<Rightarrow> string \<Rightarrow> nat option"

record skynet_module =
  m_name :: string
  m_module :: nat
  m_create :: "nat option"
  m_init :: "nat option"
  m_release :: "nat option"
  m_signal :: "nat option"

record modules =
  M_count :: nat
  M_path :: string
  M_m :: "skynet_module list"

text \<open>The file name a path entry gives: the name in place of the first question mark.\<close>

definition candidate :: "string \<Rightarrow> string \<Rightarrow> string option" where
  "candidate seg name =
     (case dropWhile (\<lambda>c. c \<noteq> CHR ''?'') seg of
        [] \<Rightarrow> None
      | _ # post \<Rightarrow> Some (takeWhile (\<lambda>c. c \<noteq> CHR ''?'') seg @ name @ post))"

lemma path_shrinks:
  "dropWhile (\<lambda>c. c = CHR '';'') path \<noteq> [] \<Longrightarrow>
   length (dropWhile (\<lambda>c. c = CHR '';'') path) -
     length (takeWhile (\<lambda>c. c \<noteq> CHR '';'') (dropWhile (\<lambda>c. c = CHR '';'') path)) < length path"
proof -
  let ?p = "dropWhile (\<lambda>c. c = CHR '';'') path"
  assume ne: "?p \<noteq> []"
  from hd_dropWhile [OF ne] have "hd ?p \<noteq> CHR '';''" .
  with ne have "0 < length (takeWhile (\<lambda>c. c \<noteq> CHR '';'') ?p)" by (cases ?p) auto
  moreover have "length ?p \<le> length path" by (simp add: length_dropWhile_le)
  moreover have "0 < length ?p" using ne by simp
  ultimately show ?thesis by linarith
qed

text \<open>
  \<open>_try_open\<close>: the entries of the path in turn, until one opens. The buffer has
  \<open>sz\<close> bytes, zeroed for every entry; the file name and its null have to fit. An
  entry without a question mark ends the process, the fault \<open>ProcessExit\<close>.
\<close>

function try_open :: "dlopen_fn \<Rightarrow> nat \<Rightarrow> string \<Rightarrow> string \<Rightarrow> nat option res" where
  "try_open dlopen sz name path =
     (let path1 = dropWhile (\<lambda>c. c = CHR '';'') path
      in if path1 = [] then Inr None
         else let seg = takeWhile (\<lambda>c. c \<noteq> CHR '';'') path1
              in case candidate seg name of
                   None \<Rightarrow> Inl ProcessExit
                 | Some fname \<Rightarrow>
                     if sz \<le> length fname then Inl OutOfBounds
                     else case dlopen fname of
                            Some dl \<Rightarrow> Inr (Some dl)
                          | None \<Rightarrow> try_open dlopen sz name (drop (length seg) path1))"
  by pat_completeness auto
termination
  by (relation "measure (\<lambda>(_, _, _, path). length path)") (auto intro: path_shrinks)

declare try_open.simps [simp del]

definition try_open_path :: "dlopen_fn \<Rightarrow> modules \<Rightarrow> string \<Rightarrow> nat option res" where
  "try_open_path dlopen M name = try_open dlopen (length (M_path M) + length name) name (M_path M)"

definition query_index :: "modules \<Rightarrow> string \<Rightarrow> nat option" where
  "query_index M name = List.find (\<lambda>i. m_name (M_m M ! i) = name) [0..<M_count M]"

text \<open>\<open>get_api\<close>: the symbol is what follows the last dot of the name, with the suffix.\<close>

definition get_api :: "dlsym_fn \<Rightarrow> skynet_module \<Rightarrow> string \<Rightarrow> nat option" where
  "get_api dlsym md api_name =
     dlsym (m_module md) (rev (takeWhile (\<lambda>c. c \<noteq> CHR ''.'') (rev (m_name md @ api_name))))"

text \<open>\<open>open_sym\<close>: the module with its entry points, and whether \<open>init\<close> is missing.\<close>

definition open_sym :: "dlsym_fn \<Rightarrow> skynet_module \<Rightarrow> skynet_module \<times> bool" where
  "open_sym dlsym md =
     (let md' = md\<lparr>m_create := get_api dlsym md ''_create'', m_init := get_api dlsym md ''_init'',
                     m_release := get_api dlsym md ''_release'', m_signal := get_api dlsym md ''_signal''\<rparr>
      in (md', m_init md' = None))"

definition skynet_module_query :: "dlopen_fn \<Rightarrow> dlsym_fn \<Rightarrow> string \<Rightarrow> modules \<Rightarrow> (modules \<times> nat option) res" where
  "skynet_module_query dlopen dlsym name M =
     (case query_index M name of
        Some i \<Rightarrow> Inr (M, Some i)
      | None \<Rightarrow>
          if M_count M < MAX_MODULE_TYPE then
            bind_res (try_open_path dlopen M name) (\<lambda>dl.
              case dl of
                None \<Rightarrow> Inr (M, None)
              | Some d \<Rightarrow>
                  let index = M_count M;
                      (md, missing) = open_sym dlsym ((M_m M ! index)\<lparr>m_name := name, m_module := d\<rparr>);
                      M1 = M\<lparr>M_m := (M_m M)[index := md]\<rparr>
                  in if missing then Inr (M1, None)
                     else Inr (M1\<lparr>M_count := M_count M + 1\<rparr>, Some index))
          else Inr (M, None))"

definition skynet_module_insert :: "skynet_module \<Rightarrow> modules \<Rightarrow> modules res" where
  "skynet_module_insert md M =
     bind_res (assert_res (query_index M (m_name md) = None \<and> M_count M < MAX_MODULE_TYPE) AssertFailed) (\<lambda>_.
       Inr (M\<lparr>M_m := (M_m M)[M_count M := md], M_count := M_count M + 1\<rparr>))"

definition empty_module :: skynet_module where
  "empty_module = \<lparr>m_name = [], m_module = 0, m_create = None, m_init = None, m_release = None, m_signal = None\<rparr>"

definition skynet_module_init :: "string \<Rightarrow> modules" where
  "skynet_module_init path = \<lparr>M_count = 0, M_path = path, M_m = replicate MAX_MODULE_TYPE empty_module\<rparr>"

section \<open>The search path\<close>

lemma candidate_length: "candidate seg name = Some f \<Longrightarrow> length f + 1 = length seg + length name"
proof -
  assume c: "candidate seg name = Some f"
  then obtain q post where d: "dropWhile (\<lambda>c. c \<noteq> CHR ''?'') seg = q # post"
    and f: "f = takeWhile (\<lambda>c. c \<noteq> CHR ''?'') seg @ name @ post"
    by (auto simp: candidate_def split: list.splits)
  have "length seg = length (takeWhile (\<lambda>c. c \<noteq> CHR ''?'') seg @ dropWhile (\<lambda>c. c \<noteq> CHR ''?'') seg)" by simp
  then show ?thesis unfolding d f by simp
qed

lemma try_open_in_bounds:
  "length path + length name \<le> sz \<Longrightarrow> try_open dlopen sz name path \<noteq> Inl OutOfBounds"
proof (induction dlopen sz name path rule: try_open.induct)
  case (1 dlopen sz name path)
  let ?p = "dropWhile (\<lambda>c. c = CHR '';'') path"
  let ?seg = "takeWhile (\<lambda>c. c \<noteq> CHR '';'') ?p"
  have l: "length ?seg \<le> length ?p" "length ?p \<le> length path"
    by (simp_all add: length_takeWhile_le length_dropWhile_le)
  show ?case
  proof (cases "?p = [] \<or> candidate ?seg name = None")
    case True
    then show ?thesis by (subst try_open.simps) (auto simp: Let_def)
  next
    case False
    then obtain f where f: "?p \<noteq> []" "candidate ?seg name = Some f" by auto
    with candidate_length [OF f(2)] l "1.prems" have fit: "\<not> sz \<le> length f" by simp
    have "try_open dlopen sz name (drop (length ?seg) ?p) \<noteq> Inl OutOfBounds" if "dlopen f = None"
      by (rule "1.IH") (use f fit that l "1.prems" in auto)
    with f fit show ?thesis by (subst try_open.simps) (auto simp: Let_def split: option.split)
  qed
qed

section \<open>The table\<close>

definition modules_ok :: "modules \<Rightarrow> bool" where
  "modules_ok M \<longleftrightarrow> length (M_m M) = MAX_MODULE_TYPE \<and> M_count M \<le> MAX_MODULE_TYPE \<and>
     distinct (map m_name (take (M_count M) (M_m M))) \<and> (\<forall>i < M_count M. m_init (M_m M ! i) \<noteq> None)"

lemma query_index_Some: "query_index M name = Some i \<Longrightarrow> i < M_count M \<and> m_name (M_m M ! i) = name"
  by (auto simp: query_index_def find_Some_iff)

lemma query_index_None: "query_index M name = None \<longleftrightarrow> (\<forall>i < M_count M. m_name (M_m M ! i) \<noteq> name)"
  by (auto simp: query_index_def find_None_iff)

lemma query_index_unique:
  assumes "modules_ok M" "i < M_count M" "m_name (M_m M ! i) = name"
  shows "query_index M name = Some i"
proof -
  obtain j where j: "query_index M name = Some j"
    using assms query_index_None by (cases "query_index M name") auto
  note j' = query_index_Some [OF j]
  let ?ns = "map m_name (take (M_count M) (M_m M))"
  have "?ns ! i = ?ns ! j" "i < length ?ns" "j < length ?ns" using assms j' by (auto simp: modules_ok_def)
  with assms(1) have "i = j" using nth_eq_iff_index_eq [of ?ns i j] by (simp add: modules_ok_def)
  with j show ?thesis by simp
qed

lemma insert_at_count:
  assumes "modules_ok M" "M_count M < MAX_MODULE_TYPE" "query_index M (m_name md) = None" "m_init md \<noteq> None"
  shows "modules_ok (M\<lparr>M_m := (M_m M)[M_count M := md], M_count := M_count M + 1\<rparr>)"
proof -
  have len: "M_count M < length (M_m M)" using assms by (simp add: modules_ok_def)
  have "take (M_count M + 1) ((M_m M)[M_count M := md]) = take (M_count M) (M_m M) @ [md]"
    using len by (simp add: take_Suc_conv_app_nth)
  moreover have "m_name md \<notin> m_name ` set (take (M_count M) (M_m M))"
    using assms(3) len unfolding query_index_None by (force simp: in_set_conv_nth)
  ultimately show ?thesis using assms by (auto simp: modules_ok_def nth_list_update less_Suc_eq)
qed

lemma modules_ok_init: "modules_ok (skynet_module_init path)"
  by (simp add: modules_ok_def skynet_module_init_def)

section \<open>Properties\<close>

text \<open>
  Looking a module up never overflows the file name buffer nor the table of 32 entries,
  keeps the names in the table distinct and every entry with an \<open>init\<close>, keeps the entries
  there were, and a module that was found once is found at the same index ever after, without
  opening it again.
\<close>

theorem module_query_stable:
  assumes "modules_ok M" "skynet_module_query dlopen dlsym name M = r"
  shows "r \<noteq> Inl OutOfBounds \<and>
    (\<forall>M' i. r = Inr (M', i) \<longrightarrow> modules_ok M' \<and>
       (\<forall>j < M_count M. M_m M' ! j = M_m M ! j) \<and>
       (i \<noteq> None \<longrightarrow> skynet_module_query dlopen' dlsym' name M' = Inr (M', i)))"
proof (cases "query_index M name")
  case (Some j)
  then show ?thesis using assms by (auto simp: skynet_module_query_def)
next
  case None
  have oob: "try_open_path dlopen M name \<noteq> Inl OutOfBounds"
    unfolding try_open_path_def by (rule try_open_in_bounds) simp
  have ok: "modules_ok (M\<lparr>M_m := (M_m M)[M_count M := md]\<rparr>)" for md
    using assms(1) by (auto simp: modules_ok_def nth_list_update)
  show ?thesis
  proof (cases "M_count M < 32")
    case False
    then show ?thesis using assms None by (auto simp: skynet_module_query_def)
  next
    case True
    have len: "M_count M < length (M_m M)" using assms(1) True by (simp add: modules_ok_def)
    show ?thesis
    proof (cases "try_open_path dlopen M name")
      case (Inl e)
      then show ?thesis using assms None True oob by (auto simp: skynet_module_query_def)
    next
      case (Inr dl)
      show ?thesis
      proof (cases dl)
        case None': None
        then show ?thesis using assms None True Inr by (auto simp: skynet_module_query_def)
      next
        case (Some d)
        obtain md missing where m: "open_sym dlsym ((M_m M ! M_count M)\<lparr>m_name := name, m_module := d\<rparr>) = (md, missing)"
          by fastforce
        then have nm: "m_name md = name" "missing \<longleftrightarrow> m_init md = None" by (auto simp: open_sym_def Let_def)
        let ?M1 = "M\<lparr>M_m := (M_m M)[M_count M := md]\<rparr>"
        have r: "r = (if missing then Inr (?M1, None) else Inr (?M1\<lparr>M_count := M_count M + 1\<rparr>, Some (M_count M)))"
          using assms(2) None True Inr Some m by (auto simp: skynet_module_query_def Let_def)
        show ?thesis
        proof (cases missing)
          case True
          with r ok show ?thesis by simp
        next
          case False
          have ok2: "modules_ok (?M1\<lparr>M_count := M_count M + 1\<rparr>)"
            using insert_at_count [OF assms(1) True] None nm False by simp
          have "query_index (?M1\<lparr>M_count := M_count M + 1\<rparr>) name = Some (M_count M)"
            by (rule query_index_unique [OF ok2]) (use len nm in simp_all)
          with r False ok2 show ?thesis by (auto simp: skynet_module_query_def)
        qed
      qed
    qed
  qed
qed

theorem module_query_stable_witness:
  "\<exists>M'. skynet_module_query (\<lambda>f. if f = ''./snlua.so'' then Some 3 else None) (\<lambda>_ s. if s = ''snlua_init'' then Some 8 else None)
      ''snlua'' (skynet_module_init ''./?.x;./?.so'') = Inr (M', Some 0) \<and>
    skynet_module_query (\<lambda>_. None) (\<lambda>_ _. None) ''snlua'' M' = Inr (M', Some 0)"
proof -
  let ?o = "\<lambda>f. if f = ''./snlua.so'' then Some 3 else None" and ?s = "\<lambda>_ s. if s = ''snlua_init'' then Some 8 else None"
  let ?M = "skynet_module_init ''./?.x;./?.so''"
  have "try_open_path ?o ?M ''snlua'' = Inr (Some 3)"
    by (simp add: try_open_path_def skynet_module_init_def try_open.simps candidate_def)
  then obtain M' where q: "skynet_module_query ?o ?s ''snlua'' ?M = Inr (M', Some 0)"
    by (simp add: skynet_module_query_def query_index_def open_sym_def get_api_def Let_def skynet_module_init_def)
  with module_query_stable [OF modules_ok_init q, of "\<lambda>_. None" "\<lambda>_ _. None"] show ?thesis by auto
qed

end
