(* ===== verification/Node.thy ===== *)
theory Node
  imports GlobalQueue HandleNames Timer CStrings Module
begin

text \<open>
  The state of a node and the basic operations on services: \<open>skynet/skynet-src/skynet_server.c\<close>
  (contexts, reference counts, delivery), \<open>skynet_harbor.c\<close>, \<open>skynet_error.c\<close>,
  \<open>skynet_env.c\<close>, \<open>skynet_monitor.c\<close> and the timer's delivery in
  \<open>skynet_timer.c\<close>. The heap has one map per kind of object: contexts, mailboxes (in
  \<open>nd_mq\<close>) and message buffers; an address that is not in its map is free, and reading or
  freeing it is a fault. Every function is the code between the calls of the lock it takes;
  its interleavings are the subject of \<open>Dispatch\<close>.
\<close>

abbreviation (input) PTYPE_TEXT :: i32 where "PTYPE_TEXT \<equiv> 0"
abbreviation (input) PTYPE_RESPONSE :: i32 where "PTYPE_RESPONSE \<equiv> 1"
abbreviation (input) PTYPE_CLIENT :: i32 where "PTYPE_CLIENT \<equiv> 3"
abbreviation (input) PTYPE_SYSTEM :: i32 where "PTYPE_SYSTEM \<equiv> 4"
abbreviation (input) PTYPE_HARBOR :: i32 where "PTYPE_HARBOR \<equiv> 5"
abbreviation (input) PTYPE_ERROR :: i32 where "PTYPE_ERROR \<equiv> 7"
abbreviation (input) PTYPE_TAG_DONTCOPY :: i32 where "PTYPE_TAG_DONTCOPY \<equiv> 0x10000"
abbreviation (input) PTYPE_TAG_ALLOCSESSION :: i32 where "PTYPE_TAG_ALLOCSESSION \<equiv> 0x20000"
abbreviation (input) MESSAGE_TYPE_SHIFT :: nat where "MESSAGE_TYPE_SHIFT \<equiv> 56"
abbreviation (input) MESSAGE_TYPE_MASK :: u64 where "MESSAGE_TYPE_MASK \<equiv> mask 56"
abbreviation (input) GLOBALNAME_LENGTH :: nat where "GLOBALNAME_LENGTH \<equiv> 16"

record skynet_context =
  cx_mod :: nat
  cx_instance :: nat
  cx_cb :: "nat option"
  cx_queue :: ptr
  cx_logfile :: "nat option"
  cx_cpu_cost :: u64
  cx_cpu_start :: u64
  cx_result :: string
  cx_handle :: u32
  cx_session_id :: i32
  cx_ref :: int
  cx_message_count :: i32
  cx_init :: bool
  cx_endless :: bool
  cx_profile :: bool

record remote_message =
  rm_name :: string
  rm_handle :: u32
  rm_message :: "ptr option"
  rm_sz :: u64
  rm_type :: i32

datatype blob = Bytes string | Remote remote_message

text \<open>Calls out of the program that change no state of the node.\<close>

datatype event =
    ModuleRelease nat nat
  | ModuleSignal nat nat i32
  | CloseFile nat

record monitor =
  sm_version :: i32
  sm_check_version :: i32
  sm_source :: u32
  sm_destination :: u32

record node =
  nd_mq :: mq_heap
  nd_ctx :: "ptr \<Rightarrow> skynet_context option"
  nd_bufs :: "ptr \<Rightarrow> blob option"
  nd_fresh :: ptr
  nd_H :: handle_storage
  nd_total :: int
  nd_monitor_exit :: u32
  nd_profile :: bool
  nd_current :: u32
  nd_HARBOR :: u32
  nd_REMOTE :: "ptr option"
  nd_logger :: u32
  nd_env :: "string \<Rightarrow> string option"
  nd_TI :: timer
  nd_M :: modules
  nd_events :: "event list"

definition hof_of :: "node \<Rightarrow> hof" where
  "hof_of n c = map_option cx_handle (nd_ctx n c)"

definition get_ctx :: "ptr \<Rightarrow> node \<Rightarrow> skynet_context res" where
  "get_ctx c n = option_res UseAfterFree (nd_ctx n c)"

definition put_ctx :: "ptr \<Rightarrow> skynet_context \<Rightarrow> node \<Rightarrow> node" where
  "put_ctx c x n = n\<lparr>nd_ctx := (nd_ctx n)(c \<mapsto> x)\<rparr>"

definition upd_ctx :: "ptr \<Rightarrow> (skynet_context \<Rightarrow> skynet_context) \<Rightarrow> node \<Rightarrow> node res" where
  "upd_ctx c f n = bind_res (get_ctx c n) (\<lambda>x. Inr (put_ctx c (f x) n))"

definition on_mq :: "(mq_heap \<Rightarrow> mq_heap res) \<Rightarrow> node \<Rightarrow> node res" where
  "on_mq f n = bind_res (f (nd_mq n)) (\<lambda>h. Inr (n\<lparr>nd_mq := h\<rparr>))"

text \<open>\<open>skynet_malloc\<close> and \<open>skynet_free\<close> of message buffers.\<close>

definition alloc_buf :: "blob \<Rightarrow> node \<Rightarrow> node \<times> ptr" where
  "alloc_buf b n = (n\<lparr>nd_bufs := (nd_bufs n)(nd_fresh n \<mapsto> b), nd_fresh := nd_fresh n + 1\<rparr>, nd_fresh n)"

definition free_buf :: "ptr option \<Rightarrow> node \<Rightarrow> node res" where
  "free_buf d n = (case d of
       None \<Rightarrow> Inr n
     | Some p \<Rightarrow> if nd_bufs n p = None then Inl UseAfterFree else Inr (n\<lparr>nd_bufs := (nd_bufs n)(p := None)\<rparr>))"

definition context_inc :: "node \<Rightarrow> node" where
  "context_inc n = n\<lparr>nd_total := nd_total n + 1\<rparr>"

definition context_dec :: "node \<Rightarrow> node" where
  "context_dec n = n\<lparr>nd_total := nd_total n - 1\<rparr>"

section \<open>Contexts\<close>

definition skynet_context_newsession :: "skynet_context \<Rightarrow> skynet_context \<times> i32" where
  "skynet_context_newsession ctx =
     (let session = cx_session_id ctx + 1
      in if sint session \<le> 0 then (ctx\<lparr>cx_session_id := 1\<rparr>, 1)
         else (ctx\<lparr>cx_session_id := session\<rparr>, session))"

definition skynet_context_grab :: "ptr \<Rightarrow> node \<Rightarrow> node res" where
  "skynet_context_grab c n = upd_ctx c (\<lambda>x. x\<lparr>cx_ref := cx_ref x + 1\<rparr>) n"

definition skynet_context_reserve :: "ptr \<Rightarrow> node \<Rightarrow> node res" where
  "skynet_context_reserve c n = bind_res (skynet_context_grab c n) (\<lambda>n1. Inr (context_dec n1))"

text \<open>The calls of \<open>skynet_module.c\<close> into a module, if it has the entry point.\<close>

definition skynet_module_instance_release :: "nat \<Rightarrow> nat \<Rightarrow> node \<Rightarrow> node" where
  "skynet_module_instance_release md inst n =
     (case m_release (M_m (nd_M n) ! md) of
        None \<Rightarrow> n
      | Some f \<Rightarrow> n\<lparr>nd_events := nd_events n @ [ModuleRelease f inst]\<rparr>)"

definition skynet_module_instance_signal :: "nat \<Rightarrow> nat \<Rightarrow> i32 \<Rightarrow> node \<Rightarrow> node" where
  "skynet_module_instance_signal md inst sig n =
     (case m_signal (M_m (nd_M n) ! md) of
        None \<Rightarrow> n
      | Some f \<Rightarrow> n\<lparr>nd_events := nd_events n @ [ModuleSignal f inst sig]\<rparr>)"

definition delete_context :: "ptr \<Rightarrow> node \<Rightarrow> node res" where
  "delete_context c n =
     bind_res (get_ctx c n) (\<lambda>x.
       let n1 = (case cx_logfile x of None \<Rightarrow> n | Some f \<Rightarrow> n\<lparr>nd_events := nd_events n @ [CloseFile f]\<rparr>);
           n2 = skynet_module_instance_release (cx_mod x) (cx_instance x) n1
       in bind_res (on_mq (skynet_mq_mark_release (cx_queue x)) n2) (\<lambda>n3.
            Inr (context_dec (n3\<lparr>nd_ctx := (nd_ctx n3)(c := None)\<rparr>))))"

text \<open>\<open>skynet_context_release\<close>: the flag says whether the context is still there.\<close>

definition skynet_context_release :: "ptr \<Rightarrow> node \<Rightarrow> (node \<times> bool) res" where
  "skynet_context_release c n =
     bind_res (get_ctx c n) (\<lambda>x.
       let n1 = put_ctx c (x\<lparr>cx_ref := cx_ref x - 1\<rparr>) n
       in if cx_ref x - 1 = 0 then bind_res (delete_context c n1) (\<lambda>n2. Inr (n2, False))
          else Inr (n1, True))"

text \<open>\<open>skynet_handle_grab\<close> with the increment of the reference count it makes under its lock.\<close>

definition handle_grab :: "u32 \<Rightarrow> node \<Rightarrow> (node \<times> ptr option) res" where
  "handle_grab h n =
     bind_res (skynet_handle_grab (hof_of n) h (nd_H n)) (\<lambda>r.
       case r of None \<Rightarrow> Inr (n, None)
       | Some c \<Rightarrow> bind_res (skynet_context_grab c n) (\<lambda>n1. Inr (n1, Some c)))"

text \<open>\<open>skynet_handle_retire\<close> with the release of the context after unlocking.\<close>

definition handle_retire :: "u32 \<Rightarrow> node \<Rightarrow> (node \<times> bool) res" where
  "handle_retire h n =
     bind_res (skynet_handle_retire (hof_of n) h (nd_H n)) (\<lambda>(H', r).
       let n1 = n\<lparr>nd_H := H'\<rparr>
       in case r of None \<Rightarrow> Inr (n1, False)
          | Some c \<Rightarrow> bind_res (skynet_context_release c n1) (\<lambda>(n2, _). Inr (n2, True)))"

definition skynet_context_push :: "u32 \<Rightarrow> skynet_message \<Rightarrow> node \<Rightarrow> (node \<times> bool) res" where
  "skynet_context_push h message n =
     bind_res (handle_grab h n) (\<lambda>(n1, r).
       case r of None \<Rightarrow> Inr (n1, False)
       | Some c \<Rightarrow>
           bind_res (get_ctx c n1) (\<lambda>x.
           bind_res (on_mq (skynet_mq_push (cx_queue x) message) n1) (\<lambda>n2.
           bind_res (skynet_context_release c n2) (\<lambda>(n3, _). Inr (n3, True)))))"

definition skynet_context_endless :: "u32 \<Rightarrow> node \<Rightarrow> node res" where
  "skynet_context_endless h n =
     bind_res (handle_grab h n) (\<lambda>(n1, r).
       case r of None \<Rightarrow> Inr n1
       | Some c \<Rightarrow>
           bind_res (upd_ctx c (\<lambda>x. x\<lparr>cx_endless := True\<rparr>) n1) (\<lambda>n2.
           bind_res (skynet_context_release c n2) (\<lambda>(n3, _). Inr n3)))"

definition skynet_context_send :: "ptr \<Rightarrow> ptr option \<Rightarrow> u64 \<Rightarrow> u32 \<Rightarrow> i32 \<Rightarrow> i32 \<Rightarrow> node \<Rightarrow> node res" where
  "skynet_context_send c msg sz source type session n =
     bind_res (get_ctx c n) (\<lambda>x.
       on_mq (skynet_mq_push (cx_queue x)
         \<lparr>msg_source = source, msg_session = session, msg_data = msg,
          msg_sz = sz OR push_bit MESSAGE_TYPE_SHIFT (scast type)\<rparr>) n)"

section \<open>Harbor\<close>

definition invalid_type :: "i32 \<Rightarrow> bool" where
  "invalid_type type \<longleftrightarrow> type \<noteq> PTYPE_SYSTEM \<and> type \<noteq> PTYPE_HARBOR"

text \<open>\<open>sizeof (struct remote_message)\<close>: a name, a handle, a pointer, a size and a type.\<close>

definition remote_message_size :: u64 where "remote_message_size = 48"

definition skynet_harbor_send :: "ptr \<Rightarrow> u32 \<Rightarrow> i32 \<Rightarrow> node \<Rightarrow> node res" where
  "skynet_harbor_send rmsg source session n =
     (case nd_bufs n rmsg of
        Some (Remote rm) \<Rightarrow>
          bind_res (assert_res (invalid_type (rm_type rm) \<and> nd_REMOTE n \<noteq> None) AssertFailed) (\<lambda>_.
            skynet_context_send (the (nd_REMOTE n)) (Some rmsg) remote_message_size source PTYPE_SYSTEM session n)
      | _ \<Rightarrow> Inl UseAfterFree)"

definition skynet_harbor_message_isremote :: "u32 \<Rightarrow> node \<Rightarrow> bool res" where
  "skynet_harbor_message_isremote handle n =
     bind_res (assert_res (nd_HARBOR n \<noteq> NOT 0) AssertFailed) (\<lambda>_.
       let h = handle AND NOT HANDLE_MASK in Inr (h \<noteq> nd_HARBOR n \<and> h \<noteq> 0))"

definition skynet_harbor_init :: "i32 \<Rightarrow> node \<Rightarrow> node" where
  "skynet_harbor_init harbor n = n\<lparr>nd_HARBOR := push_bit HANDLE_REMOTE_SHIFT harbor\<rparr>"

definition skynet_harbor_start :: "ptr \<Rightarrow> node \<Rightarrow> node res" where
  "skynet_harbor_start c n = bind_res (skynet_context_reserve c n) (\<lambda>n1. Inr (n1\<lparr>nd_REMOTE := Some c\<rparr>))"

definition skynet_harbor_exit :: "node \<Rightarrow> node res" where
  "skynet_harbor_exit n =
     (let n1 = n\<lparr>nd_REMOTE := None\<rparr>
      in case nd_REMOTE n of None \<Rightarrow> Inr n1
         | Some c \<Rightarrow> bind_res (skynet_context_release c n1) (\<lambda>(n2, _). Inr n2))"

definition skynet_isremote :: "u32 \<Rightarrow> node \<Rightarrow> (bool \<times> i32) res" where
  "skynet_isremote handle n =
     bind_res (skynet_harbor_message_isremote handle n) (\<lambda>r. Inr (r, drop_bit HANDLE_REMOTE_SHIFT handle))"

section \<open>Errors go to the logger\<close>

text \<open>\<open>skynet_error\<close> with the formatted text; \<open>None\<close> is the null context.\<close>

definition skynet_error :: "ptr option \<Rightarrow> string \<Rightarrow> node \<Rightarrow> node res" where
  "skynet_error c text n =
     bind_res (if nd_logger n = 0 then skynet_handle_findname ''logger'' (nd_H n) else Inr (nd_logger n)) (\<lambda>logger.
       let n1 = n\<lparr>nd_logger := logger\<rparr>
       in if logger = 0 then Inr n1
          else let (n2, data) = alloc_buf (Bytes (text @ [CHR 0x00])) n1
               in bind_res (case c of None \<Rightarrow> Inr 0 | Some p \<Rightarrow> bind_res (get_ctx p n2) (\<lambda>x. Inr (cx_handle x))) (\<lambda>src.
                  bind_res (skynet_context_push logger
                    \<lparr>msg_source = src, msg_session = 0, msg_data = Some data,
                     msg_sz = word_of_nat (length text) OR push_bit MESSAGE_TYPE_SHIFT (scast PTYPE_TEXT)\<rparr> n2)
                    (\<lambda>(n3, _). Inr n3)))"

section \<open>Sending\<close>

definition copy_name :: "string \<Rightarrow> string" where
  "copy_name addr = (let nm = take GLOBALNAME_LENGTH addr in nm @ replicate (GLOBALNAME_LENGTH - length nm) (CHR 0x00))"

text \<open>The copy of the data made by \<open>_filter_args\<close>; it reads \<open>sz\<close> bytes.\<close>

definition copy_data :: "ptr \<Rightarrow> u64 \<Rightarrow> node \<Rightarrow> (node \<times> ptr) res" where
  "copy_data p sz n =
     (case nd_bufs n p of
        Some (Bytes bs) \<Rightarrow> if length bs < unat sz then Inl OutOfBounds
                           else Inr (alloc_buf (Bytes (take (unat sz) bs @ [CHR 0x00])) n)
      | Some (Remote _) \<Rightarrow> Inl OutOfBounds
      | None \<Rightarrow> Inl UseAfterFree)"

definition filter_args :: "ptr option \<Rightarrow> i32 \<Rightarrow> i32 \<Rightarrow> ptr option \<Rightarrow> u64 \<Rightarrow> node \<Rightarrow> (node \<times> i32 \<times> ptr option \<times> u64) res" where
  "filter_args c type session data sz n =
     (let needcopy = (type AND PTYPE_TAG_DONTCOPY = 0);
          allocsession = (type AND PTYPE_TAG_ALLOCSESSION \<noteq> 0);
          type' = type AND 0xff
      in bind_res
           (if allocsession then
              bind_res (assert_res (session = 0) AssertFailed) (\<lambda>_.
              bind_res (option_res NullDeref c) (\<lambda>p.
              bind_res (get_ctx p n) (\<lambda>x.
                let (x', s) = skynet_context_newsession x in Inr (put_ctx p x' n, s))))
            else Inr (n, session)) (\<lambda>(n1, session').
         bind_res
           (if needcopy \<and> data \<noteq> None then
              bind_res (copy_data (the data) sz n1) (\<lambda>(n2, p). Inr (n2, Some p))
            else Inr (n1, data)) (\<lambda>(n2, data').
           Inr (n2, session', data', sz OR push_bit MESSAGE_TYPE_SHIFT (scast type')))))"

definition own_source :: "ptr option \<Rightarrow> u32 \<Rightarrow> node \<Rightarrow> u32 res" where
  "own_source c source n =
     (if source = 0 then bind_res (option_res NullDeref c) (\<lambda>p. bind_res (get_ctx p n) (\<lambda>x. Inr (cx_handle x)))
      else Inr source)"

definition skynet_send :: "ptr option \<Rightarrow> u32 \<Rightarrow> u32 \<Rightarrow> i32 \<Rightarrow> i32 \<Rightarrow> ptr option \<Rightarrow> u64 \<Rightarrow> node \<Rightarrow> (node \<times> i32) res" where
  "skynet_send c source destination type session data sz n =
     (if sz AND MESSAGE_TYPE_MASK \<noteq> sz then
        bind_res (skynet_error c (''The message to '' @ fmt_x destination @ '' is too large'') n) (\<lambda>n1.
          if type AND PTYPE_TAG_DONTCOPY \<noteq> 0 then bind_res (free_buf data n1) (\<lambda>n2. Inr (n2, - 2))
          else Inr (n1, - 2))
      else
        bind_res (filter_args c type session data sz n) (\<lambda>(n1, session, data, sz).
        bind_res (own_source c source n1) (\<lambda>source.
          if destination = 0 then
            (if data \<noteq> None then
               bind_res (skynet_error c (''Destination address can'' @ [CHR 0x27] @ ''t be 0'') n1) (\<lambda>n2.
               bind_res (free_buf data n2) (\<lambda>n3. Inr (n3, - 1)))
             else Inr (n1, session))
          else
            bind_res (skynet_harbor_message_isremote destination n1) (\<lambda>remote.
              if remote then
                (let (n2, rmsg) = alloc_buf (Remote \<lparr>rm_name = [], rm_handle = destination, rm_message = data,
                       rm_sz = sz AND MESSAGE_TYPE_MASK, rm_type = ucast (drop_bit MESSAGE_TYPE_SHIFT sz)\<rparr>) n1
                 in bind_res (skynet_harbor_send rmsg source session n2) (\<lambda>n3. Inr (n3, session)))
              else
                bind_res (skynet_context_push destination
                  \<lparr>msg_source = source, msg_session = session, msg_data = data, msg_sz = sz\<rparr> n1) (\<lambda>(n2, ok).
                  if ok then Inr (n2, session)
                  else bind_res (free_buf data n2) (\<lambda>n3. Inr (n3, - 1)))))))"

definition skynet_sendname :: "ptr option \<Rightarrow> u32 \<Rightarrow> string \<Rightarrow> i32 \<Rightarrow> i32 \<Rightarrow> ptr option \<Rightarrow> u64 \<Rightarrow> node \<Rightarrow> (node \<times> i32) res" where
  "skynet_sendname c source addr type session data sz n =
     bind_res (own_source c source n) (\<lambda>source.
       if addr \<noteq> [] \<and> hd addr = CHR '':'' then
         skynet_send c source (strtoul32 (tl addr)) type session data sz n
       else if addr \<noteq> [] \<and> hd addr = CHR ''.'' then
         bind_res (skynet_handle_findname (tl addr) (nd_H n)) (\<lambda>des.
           if des = 0 then
             (if type AND PTYPE_TAG_DONTCOPY \<noteq> 0 then bind_res (free_buf data n) (\<lambda>n1. Inr (n1, - 1))
              else Inr (n, - 1))
           else skynet_send c source des type session data sz n)
       else if sz AND MESSAGE_TYPE_MASK \<noteq> sz then
         bind_res (skynet_error c (''The message to '' @ addr @ '' is too large'') n) (\<lambda>n1.
           if type AND PTYPE_TAG_DONTCOPY \<noteq> 0 then bind_res (free_buf data n1) (\<lambda>n2. Inr (n2, - 2))
           else Inr (n1, - 2))
       else
         bind_res (filter_args c type session data sz n) (\<lambda>(n1, session, data, sz).
           let (n2, rmsg) = alloc_buf (Remote \<lparr>rm_name = copy_name addr, rm_handle = 0, rm_message = data,
                  rm_sz = sz AND MESSAGE_TYPE_MASK, rm_type = ucast (drop_bit MESSAGE_TYPE_SHIFT sz)\<rparr>) n1
           in bind_res (skynet_harbor_send rmsg source session n2) (\<lambda>n3. Inr (n3, session))))"

section \<open>Releasing a mailbox\<close>

definition drop_message :: "u32 \<Rightarrow> skynet_message \<Rightarrow> node \<Rightarrow> node res" where
  "drop_message handle msg n =
     bind_res (free_buf (msg_data msg) n) (\<lambda>n1.
     bind_res (assert_res (handle \<noteq> 0) AssertFailed) (\<lambda>_.
     bind_res (skynet_send None handle (msg_source msg) PTYPE_ERROR 0 None 0 n1) (\<lambda>(n2, _). Inr n2)))"

text \<open>
  \<open>_drop_queue\<close>. The fuel bounds the rounds of its \<open>while\<close>; running out is the fault
  \<open>Diverges\<close>. \<open>skynet_mq_release\<close> gives it one more than the messages in the mailbox.
\<close>

fun drop_queue :: "nat \<Rightarrow> ptr \<Rightarrow> u32 \<Rightarrow> node \<Rightarrow> node res" where
  "drop_queue 0 q handle n = Inl Diverges"
| "drop_queue (Suc k) q handle n =
     bind_res (mq_pop_at q (nd_mq n)) (\<lambda>(h, m).
       let n1 = n\<lparr>nd_mq := h\<rparr>
       in case m of
            Some msg \<Rightarrow> bind_res (drop_message handle msg n1) (drop_queue k q handle)
          | None \<Rightarrow> on_mq (mq_free q) n1)"

definition skynet_mq_release :: "ptr \<Rightarrow> u32 \<Rightarrow> node \<Rightarrow> node res" where
  "skynet_mq_release q handle n =
     bind_res (get_mq q (nd_mq n)) (\<lambda>mq.
       if mq_release mq then drop_queue (Suc (skynet_mq_length mq)) q handle n
       else on_mq (skynet_globalmq_push q) n)"

section \<open>Timeouts\<close>

definition timeout_message :: "i32 \<Rightarrow> skynet_message" where
  "timeout_message session = \<lparr>msg_source = 0, msg_session = session, msg_data = None,
     msg_sz = push_bit MESSAGE_TYPE_SHIFT (scast PTYPE_RESPONSE)\<rparr>"

definition skynet_timeout :: "u32 \<Rightarrow> i32 \<Rightarrow> i32 \<Rightarrow> node \<Rightarrow> (node \<times> i32) res" where
  "skynet_timeout handle time session n =
     (if sint time \<le> 0 then
        bind_res (skynet_context_push handle (timeout_message session) n) (\<lambda>(n1, ok).
          Inr (n1, if ok then session else - 1))
      else Inr (n\<lparr>nd_TI := timer_add handle session time (nd_TI n)\<rparr>, session))"

fun dispatch_list :: "timer_node list \<Rightarrow> node \<Rightarrow> node res" where
  "dispatch_list [] n = Inr n"
| "dispatch_list (t # ts) n =
     bind_res (skynet_context_push (tn_handle t) (timeout_message (tn_session t)) n) (\<lambda>(n1, _). dispatch_list ts n1)"

section \<open>The monitor\<close>

definition skynet_monitor_new :: monitor where
  "skynet_monitor_new = \<lparr>sm_version = 0, sm_check_version = 0, sm_source = 0, sm_destination = 0\<rparr>"

definition skynet_monitor_trigger :: "u32 \<Rightarrow> u32 \<Rightarrow> monitor \<Rightarrow> monitor" where
  "skynet_monitor_trigger source destination sm =
     sm\<lparr>sm_source := source, sm_destination := destination, sm_version := sm_version sm + 1\<rparr>"

definition skynet_monitor_check :: "monitor \<Rightarrow> node \<Rightarrow> (monitor \<times> node) res" where
  "skynet_monitor_check sm n =
     (if sm_version sm = sm_check_version sm then
        (if sm_destination sm \<noteq> 0 then
           bind_res (skynet_context_endless (sm_destination sm) n) (\<lambda>n1.
           bind_res (skynet_error None
             (''A message from [ :'' @ fmt_08x (sm_source sm) @ '' ] to [ :'' @ fmt_08x (sm_destination sm) @
              '' ] maybe in an endless loop (version = '' @ fmt_d (sm_version sm) @ '')'') n1) (\<lambda>n2. Inr (sm, n2)))
         else Inr (sm, n))
      else Inr (sm\<lparr>sm_check_version := sm_version sm\<rparr>, n))"

section \<open>The environment\<close>

definition skynet_getenv :: "string \<Rightarrow> node \<Rightarrow> string option" where
  "skynet_getenv key n = nd_env n key"

definition skynet_setenv :: "string \<Rightarrow> string \<Rightarrow> node \<Rightarrow> node res" where
  "skynet_setenv key val n =
     bind_res (assert_res (nd_env n key = None) AssertFailed) (\<lambda>_. Inr (n\<lparr>nd_env := (nd_env n)(key \<mapsto> val)\<rparr>))"

end
