(* ===== verification/Server.thy ===== *)
theory Server
  imports Node
begin

text \<open>
  The service life cycle, the dispatch of messages and the commands of
  \<open>skynet/skynet-src/skynet_server.c\<close>, and the retirement of all handles
  (\<open>skynet_handle.c\<close>). The code of the services (their \<open>create\<close>, \<open>init\<close> and
  callbacks) and the dynamic linker are parameters, collected in \<open>services\<close>: what a
  service does to the node is any function of the node.
\<close>

record services =
  sv_dlopen :: dlopen_fn
  sv_dlsym :: dlsym_fn
  sv_create :: "nat \<Rightarrow> nat option"
  sv_init :: "nat \<Rightarrow> nat \<Rightarrow> ptr \<Rightarrow> string option \<Rightarrow> node \<Rightarrow> (node \<times> i32) res"
  sv_callback :: "nat \<Rightarrow> ptr \<Rightarrow> i32 \<Rightarrow> i32 \<Rightarrow> u32 \<Rightarrow> ptr option \<Rightarrow> u64 \<Rightarrow> node \<Rightarrow> (node \<times> i32) res"
  sv_open_log :: "string \<Rightarrow> nat option"
  sv_thread_time :: "nat \<Rightarrow> u64"

definition skynet_module_instance_create :: "services \<Rightarrow> nat \<Rightarrow> node \<Rightarrow> nat option" where
  "skynet_module_instance_create sv md n =
     (case m_create (M_m (nd_M n) ! md) of
        Some f \<Rightarrow> sv_create sv f
      | None \<Rightarrow> Some (2 ^ 64 - 1))"

definition skynet_module_instance_init ::
    "services \<Rightarrow> nat \<Rightarrow> nat \<Rightarrow> ptr \<Rightarrow> string option \<Rightarrow> node \<Rightarrow> (node \<times> i32) res" where
  "skynet_module_instance_init sv md inst c parm n =
     bind_res (option_res NullDeref (m_init (M_m (nd_M n) ! md))) (\<lambda>f. sv_init sv f inst c parm n)"

section \<open>Launching a service\<close>

definition new_context :: "nat \<Rightarrow> nat \<Rightarrow> bool \<Rightarrow> skynet_context" where
  "new_context md inst profile = \<lparr>
     cx_mod = md, cx_instance = inst, cx_cb = None, cx_queue = 0, cx_logfile = None,
     cx_cpu_cost = 0, cx_cpu_start = 0, cx_result = [], cx_handle = 0, cx_session_id = 0, cx_ref = 2,
     cx_message_count = 0, cx_init = False, cx_endless = False, cx_profile = profile\<rparr>"

text \<open>The construction of the context, up to the call of the service's \<open>init\<close>.\<close>

definition context_setup :: "nat \<Rightarrow> nat \<Rightarrow> node \<Rightarrow> (node \<times> ptr) res" where
  "context_setup md inst n =
     (let c = nd_fresh n;
          n1 = put_ctx c (new_context md inst (nd_profile n)) (n\<lparr>nd_fresh := nd_fresh n + 1\<rparr>)
      in bind_res (skynet_handle_register (hof_of n1) c (nd_H n1)) (\<lambda>(handle, H').
         bind_res (upd_ctx c (\<lambda>x. x\<lparr>cx_handle := handle\<rparr>) (n1\<lparr>nd_H := H'\<rparr>)) (\<lambda>n2.
           let q = nd_fresh n2;
               n3 = n2\<lparr>nd_mq := skynet_mq_create handle q (nd_mq n2), nd_fresh := nd_fresh n2 + 1\<rparr>
           in bind_res (upd_ctx c (\<lambda>x. x\<lparr>cx_queue := q\<rparr>) n3) (\<lambda>n4. Inr (context_inc n4, c)))))"

text \<open>What follows the call of \<open>init\<close> with its result \<open>r\<close>.\<close>

definition launch_finish :: "string \<Rightarrow> string option \<Rightarrow> ptr \<Rightarrow> ptr \<Rightarrow> i32 \<Rightarrow> node \<Rightarrow> (node \<times> ptr option) res" where
  "launch_finish name param c q r n =
     (if r = 0 then
        bind_res (skynet_context_release c n) (\<lambda>(n1, alive).
        bind_res (if alive then upd_ctx c (\<lambda>x. x\<lparr>cx_init := True\<rparr>) n1 else Inr n1) (\<lambda>n2.
        bind_res (on_mq (skynet_globalmq_push q) n2) (\<lambda>n3.
        bind_res (if alive then skynet_error (Some c) (''LAUNCH '' @ name @ '' '' @ (case param of None \<Rightarrow> [] | Some p \<Rightarrow> p)) n3
                  else Inr n3) (\<lambda>n4.
          Inr (n4, if alive then Some c else None)))))
      else
        bind_res (skynet_error (Some c) (''FAILED launch '' @ name) n) (\<lambda>n1.
        bind_res (get_ctx c n1) (\<lambda>x.
        bind_res (skynet_context_release c n1) (\<lambda>(n2, _).
        bind_res (handle_retire (cx_handle x) n2) (\<lambda>(n3, _).
        bind_res (skynet_mq_release q (cx_handle x) n3) (\<lambda>n4. Inr (n4, None)))))))"

definition skynet_context_new :: "services \<Rightarrow> string \<Rightarrow> string option \<Rightarrow> node \<Rightarrow> (node \<times> ptr option) res" where
  "skynet_context_new sv name param n =
     bind_res (skynet_module_query (sv_dlopen sv) (sv_dlsym sv) name (nd_M n)) (\<lambda>(M', md).
       let n0 = n\<lparr>nd_M := M'\<rparr>
       in case md of None \<Rightarrow> Inr (n0, None)
          | Some i \<Rightarrow>
              (case skynet_module_instance_create sv i n0 of None \<Rightarrow> Inr (n0, None)
               | Some inst \<Rightarrow>
                   bind_res (context_setup i inst n0) (\<lambda>(n1, c).
                   bind_res (get_ctx c n1) (\<lambda>x.
                   bind_res (skynet_module_instance_init sv i inst c param n1) (\<lambda>(n2, r).
                     launch_finish name param c (cx_queue x) r n2)))))"

section \<open>Dispatching messages\<close>

definition dispatch_message :: "services \<Rightarrow> nat \<Rightarrow> ptr \<Rightarrow> skynet_message \<Rightarrow> node \<Rightarrow> node res" where
  "dispatch_message sv t c msg n =
     bind_res (get_ctx c n) (\<lambda>x.
     bind_res (assert_res (cx_init x) AssertFailed) (\<lambda>_.
       let type = ucast (drop_bit MESSAGE_TYPE_SHIFT (msg_sz msg));
           sz = msg_sz msg AND MESSAGE_TYPE_MASK;
           x1 = x\<lparr>cx_message_count := cx_message_count x + 1\<rparr>;
           x2 = (if cx_profile x1 then x1\<lparr>cx_cpu_start := sv_thread_time sv t\<rparr> else x1);
           n1 = (put_ctx c x2 n)\<lparr>nd_current := cx_handle x\<rparr>
       in bind_res (option_res NullDeref (cx_cb x)) (\<lambda>cb.
          bind_res (sv_callback sv cb c type (msg_session msg) (msg_source msg) (msg_data msg) sz n1) (\<lambda>(n2, reserve).
          bind_res (if cx_profile x2
                    then upd_ctx c (\<lambda>y. y\<lparr>cx_cpu_cost := cx_cpu_cost y + (sv_thread_time sv (t + 1) - cx_cpu_start y)\<rparr>) n2
                    else Inr n2) (\<lambda>n3.
            if reserve = 0 then free_buf (msg_data msg) n3 else Inr n3)))))"

text \<open>\<open>skynet_context_dispatchall\<close>; the fuel bounds the messages it handles.\<close>

fun skynet_context_dispatchall :: "nat \<Rightarrow> services \<Rightarrow> nat \<Rightarrow> ptr \<Rightarrow> ptr \<Rightarrow> node \<Rightarrow> node res" where
  "skynet_context_dispatchall 0 sv t c q n = Inl Diverges"
| "skynet_context_dispatchall (Suc k) sv t c q n =
     bind_res (mq_pop_at q (nd_mq n)) (\<lambda>(h, m).
       case m of None \<Rightarrow> Inr (n\<lparr>nd_mq := h\<rparr>)
       | Some msg \<Rightarrow> bind_res (dispatch_message sv t c msg (n\<lparr>nd_mq := h\<rparr>)) (skynet_context_dispatchall k sv (t + 2) c q))"

definition pop_global :: "node \<Rightarrow> (node \<times> ptr option) res" where
  "pop_global n = bind_res (skynet_globalmq_pop (nd_mq n)) (\<lambda>(h, q). Inr (n\<lparr>nd_mq := h\<rparr>, q))"

text \<open>
  The \<open>for\<close> of \<open>skynet_context_message_dispatch\<close>: round \<open>i\<close> of at most \<open>m\<close>. The number of
  rounds is set in round 0 from the length of the mailbox and the weight of the thread.
  The flag says whether the mailbox was found empty.
\<close>

definition batch_length :: "int \<Rightarrow> nat \<Rightarrow> nat" where
  "batch_length weight len = (if 0 \<le> weight then len div 2 ^ nat weight else 1)"

function dispatch_loop ::
    "services \<Rightarrow> int \<Rightarrow> nat \<Rightarrow> nat \<Rightarrow> ptr \<Rightarrow> ptr \<Rightarrow> u32 \<Rightarrow> monitor \<Rightarrow> node \<Rightarrow> (node \<times> monitor \<times> bool) res" where
  "dispatch_loop sv weight i m c q handle sm n =
     (if m \<le> i then Inr (n, sm, False)
      else
        bind_res (mq_pop_at q (nd_mq n)) (\<lambda>(h, r).
          let n1 = n\<lparr>nd_mq := h\<rparr>
          in case r of None \<Rightarrow> Inr (n1, sm, True)
             | Some msg \<Rightarrow>
                 bind_res (get_mq q (nd_mq n1)) (\<lambda>mq.
                   let m' = (if i = 0 \<and> 0 \<le> weight then batch_length weight (skynet_mq_length mq) else m);
                       (mq', overload) = skynet_mq_overload mq;
                       n2 = n1\<lparr>nd_mq := put_mq q mq' (nd_mq n1)\<rparr>
                   in bind_res (if overload \<noteq> 0
                                then skynet_error (Some c) (''May overload, message queue length = '' @ fmt_u (nat overload)) n2
                                else Inr n2) (\<lambda>n3.
                      bind_res (get_ctx c n3) (\<lambda>x.
                        let sm1 = skynet_monitor_trigger (msg_source msg) handle sm
                        in bind_res (if cx_cb x = None then free_buf (msg_data msg) n3
                                     else dispatch_message sv (2 * i) c msg n3) (\<lambda>n4.
                             dispatch_loop sv weight (Suc i) (if i = 0 then m' else m) c q handle
                               (skynet_monitor_trigger 0 0 sm1) n4))))))"
  by pat_completeness auto
termination
  by (relation "measures [\<lambda>(sv, weight, i, m, c, q, handle, sm, n). if i = 0 then 1 else 0,
                          \<lambda>(sv, weight, i, m, c, q, handle, sm, n). m - i]") auto

declare dispatch_loop.simps [simp del]

definition skynet_context_message_dispatch ::
    "services \<Rightarrow> monitor \<Rightarrow> ptr option \<Rightarrow> int \<Rightarrow> node \<Rightarrow> (node \<times> monitor \<times> ptr option) res" where
  "skynet_context_message_dispatch sv sm q0 weight n0 =
     bind_res (case q0 of Some q \<Rightarrow> Inr (n0, Some q) | None \<Rightarrow> pop_global n0) (\<lambda>(n, q1).
       case q1 of None \<Rightarrow> Inr (n, sm, None)
       | Some q \<Rightarrow>
           bind_res (get_mq q (nd_mq n)) (\<lambda>mq.
             let handle = mq_handle mq
             in bind_res (handle_grab handle n) (\<lambda>(n1, r).
                case r of
                  None \<Rightarrow>
                    bind_res (skynet_mq_release q handle n1) (\<lambda>n2.
                    bind_res (pop_global n2) (\<lambda>(n3, nq). Inr (n3, sm, nq)))
                | Some c \<Rightarrow>
                    bind_res (dispatch_loop sv weight 0 1 c q handle sm n1) (\<lambda>(n2, sm', empty).
                      if empty then
                        bind_res (skynet_context_release c n2) (\<lambda>(n3, _).
                        bind_res (pop_global n3) (\<lambda>(n4, nq). Inr (n4, sm', nq)))
                      else
                        bind_res (get_ctx c n2) (\<lambda>x.
                        bind_res (assert_res (q = cx_queue x) AssertFailed) (\<lambda>_.
                        bind_res (pop_global n2) (\<lambda>(n3, nq).
                        bind_res (case nq of Some _ \<Rightarrow> on_mq (skynet_globalmq_push q) n3 | None \<Rightarrow> Inr n3) (\<lambda>n4.
                        bind_res (skynet_context_release c n4) (\<lambda>(n5, _).
                          Inr (n5, sm', case nq of Some q' \<Rightarrow> Some q' | None \<Rightarrow> Some q))))))))))"

section \<open>Names and handles in commands\<close>

definition skynet_queryname :: "ptr option \<Rightarrow> string \<Rightarrow> node \<Rightarrow> (node \<times> u32) res" where
  "skynet_queryname c name n =
     (if name \<noteq> [] \<and> hd name = CHR '':'' then Inr (n, strtoul32 (tl name))
      else if name \<noteq> [] \<and> hd name = CHR ''.'' then
        bind_res (skynet_handle_findname (tl name) (nd_H n)) (\<lambda>h. Inr (n, h))
      else
        bind_res (skynet_error c (CHR ''D'' # ''on'' @ [CHR 0x27] @ ''t support query global name '' @ name) n) (\<lambda>n1. Inr (n1, 0)))"

definition tohandle :: "ptr \<Rightarrow> string \<Rightarrow> node \<Rightarrow> (node \<times> u32) res" where
  "tohandle c param n =
     (if param \<noteq> [] \<and> hd param = CHR '':'' then Inr (n, strtoul32 (tl param))
      else if param \<noteq> [] \<and> hd param = CHR ''.'' then
        bind_res (skynet_handle_findname (tl param) (nd_H n)) (\<lambda>h. Inr (n, h))
      else
        bind_res (skynet_error (Some c) (''Can'' @ [CHR 0x27] @ ''t convert '' @ param @ '' to handle'') n) (\<lambda>n1. Inr (n1, 0)))"

definition handle_exit :: "ptr \<Rightarrow> u32 \<Rightarrow> node \<Rightarrow> node res" where
  "handle_exit c handle0 n =
     bind_res (get_ctx c n) (\<lambda>x.
       let handle = (if handle0 = 0 then cx_handle x else handle0)
       in bind_res (skynet_error (Some c) (if handle0 = 0 then ''KILL self'' else ''KILL :'' @ fmt_x handle) n) (\<lambda>n1.
          bind_res (if nd_monitor_exit n1 \<noteq> 0
                    then bind_res (skynet_send (Some c) handle (nd_monitor_exit n1) PTYPE_CLIENT 0 None 0 n1) (\<lambda>(n2, _). Inr n2)
                    else Inr n1) (\<lambda>n2.
          bind_res (handle_retire handle n2) (\<lambda>(n3, _). Inr n3))))"

text \<open>One round of \<open>skynet_handle_retireall\<close> over the slots, and the rounds until nothing is left.\<close>

function retire_round :: "nat \<Rightarrow> nat \<Rightarrow> nat \<Rightarrow> node \<Rightarrow> (node \<times> nat) res" where
  "retire_round 0 i k n = Inl Diverges"
| "retire_round (Suc f) i k n =
     (if i < hs_slot_size (nd_H n) then
        bind_res (case hs_slot (nd_H n) ! i of
                    None \<Rightarrow> Inr 0
                  | Some c \<Rightarrow> bind_res (get_ctx c n) (\<lambda>x. Inr (cx_handle x))) (\<lambda>handle.
          if handle \<noteq> 0 then
            bind_res (handle_retire handle n) (\<lambda>(n1, ok). retire_round f (Suc i) (if ok then Suc k else k) n1)
          else retire_round f (Suc i) k n)
      else Inr (n, k))"
  by pat_completeness auto
termination by (relation "measure (\<lambda>(f, _). f)") auto

fun skynet_handle_retireall :: "nat \<Rightarrow> node \<Rightarrow> node res" where
  "skynet_handle_retireall 0 n = Inl Diverges"
| "skynet_handle_retireall (Suc r) n =
     bind_res (retire_round (Suc (hs_slot_size (nd_H n))) 0 0 n) (\<lambda>(n1, k).
       if k = 0 then Inr n1 else skynet_handle_retireall r n1)"

section \<open>Start-up\<close>

text \<open>\<open>skynet_globalinit\<close> and the calls of \<open>skynet_start\<close> that set up the node before the first service.\<close>

definition skynet_globalinit :: "node \<Rightarrow> node" where
  "skynet_globalinit n = n\<lparr>nd_total := 0, nd_monitor_exit := 0, nd_current := - 1\<rparr>"

definition start_node :: "i32 \<Rightarrow> string \<Rightarrow> bool \<Rightarrow> u32 \<Rightarrow> u32 \<Rightarrow> u64 \<Rightarrow> node" where
  "start_node harbor module_path profile sec cs now =
     skynet_harbor_init harbor (skynet_globalinit \<lparr>
       nd_mq = skynet_mq_init, nd_ctx = (\<lambda>_. None), nd_bufs = (\<lambda>_. None), nd_fresh = 1,
       nd_H = skynet_handle_init harbor, nd_total = 0, nd_monitor_exit = 0, nd_profile = profile,
       nd_current = 0, nd_HARBOR = NOT 0, nd_REMOTE = None, nd_logger = 0, nd_env = (\<lambda>_. None),
       nd_TI = skynet_timer_init sec cs now, nd_M = skynet_module_init module_path, nd_events = []\<rparr>)"

end
