(* ===== verification/Delivery.thy ===== *)
theory Delivery
  imports Server
begin

text \<open>
  What a node guarantees about messages: the invariant of a quiescent node, the abstract view
  of it as a map from handles to inboxes, and the refinement of delivery, sending, the
  logger, timeouts and the release of a mailbox against that view.
\<close>

section \<open>The mailboxes\<close>

definition boxes_ok :: "mq_heap \<Rightarrow> ptr list \<Rightarrow> bool" where
  "boxes_ok h ps \<longleftrightarrow> gq_rep h ps \<and>
     (\<forall>p q. mqs h p = Some q \<longrightarrow> (\<exists>ms. mq_rep q ms) \<and> (p \<in> set ps \<longrightarrow> mq_in_global q \<or> mq_release q))"

definition mbox :: "mq_heap \<Rightarrow> ptr \<Rightarrow> skynet_message list option" where
  "mbox h p = map_option mq_list (mqs h p)"

definition mglob :: "mq_heap \<Rightarrow> ptr \<Rightarrow> bool option" where
  "mglob h p = map_option mq_in_global (mqs h p)"

definition mstat :: "mq_heap \<Rightarrow> ptr \<Rightarrow> (u32 \<times> bool) option" where
  "mstat h p = map_option (\<lambda>q. (mq_handle q, mq_release q)) (mqs h p)"

lemma mq_list_frame [simp]:
  "mq_list (q\<lparr>mq_in_global := g\<rparr>) = mq_list q" "mq_list (q\<lparr>mq_next := x\<rparr>) = mq_list q"
  "mq_list (q\<lparr>mq_release := r\<rparr>) = mq_list q" "mq_list (q\<lparr>mq_overload := ov\<rparr>) = mq_list q"
  "mq_list (q\<lparr>mq_overload_threshold := t\<rparr>) = mq_list q"
  by (simp_all add: mq_list_def skynet_mq_length_def)

lemma mq_rep_list: "mq_rep q ms \<Longrightarrow> mq_list q = ms"
  by (simp add: mq_rep_def)

lemma same_but_next_views:
  assumes "same_but_next h h'"
  shows "mbox h' = mbox h" "mstat h' = mstat h" "mglob h' = mglob h"
    "\<And>p q'. mqs h' p = Some q' \<Longrightarrow> \<exists>q. mqs h p = Some q \<and> q' = q\<lparr>mq_next := mq_next q'\<rparr>"
proof -
  have prev: "\<exists>q. mqs h p = Some q \<and> q' = q\<lparr>mq_next := mq_next q'\<rparr>" if "mqs h' p = Some q'" for p q'
  proof -
    from assms that same_but_next_none obtain q where q: "mqs h p = Some q" by (metis not_Some_eq)
    with same_but_next_mq [OF assms] that obtain n where "q' = q\<lparr>mq_next := n\<rparr>" by fastforce
    with q show ?thesis by simp
  qed
  then show "\<And>p q'. mqs h' p = Some q' \<Longrightarrow> \<exists>q. mqs h p = Some q \<and> q' = q\<lparr>mq_next := mq_next q'\<rparr>" .
  have "mbox h' p = mbox h p \<and> mstat h' p = mstat h p \<and> mglob h' p = mglob h p" for p
  proof (cases "mqs h' p")
    case None
    then show ?thesis using same_but_next_none [OF assms, of p] by (simp add: mbox_def mstat_def mglob_def)
  next
    case (Some q')
    from prev [OF this] obtain q where q: "mqs h p = Some q" "q' = q\<lparr>mq_next := mq_next q'\<rparr>" by blast
    have "mq_list q' = mq_list q" "mq_handle q' = mq_handle q" "mq_release q' = mq_release q"
      "mq_in_global q' = mq_in_global q"
      by (subst q(2), simp)+
    with Some q(1) show ?thesis by (simp add: mbox_def mstat_def mglob_def)
  qed
  then show "mbox h' = mbox h" "mstat h' = mstat h" "mglob h' = mglob h" by auto
qed

lemma boxes_ok_same_but_next:
  assumes "boxes_ok h ps" "same_but_next h h'" "gq_rep h' ps'"
    "\<And>p q. p \<in> set ps' \<Longrightarrow> mqs h p = Some q \<Longrightarrow> mq_in_global q \<or> mq_release q"
  shows "boxes_ok h' ps'"
  unfolding boxes_ok_def
proof (intro conjI allI impI)
  show "gq_rep h' ps'" by fact
  fix p q' assume "mqs h' p = Some q'"
  from same_but_next_views(4) [OF assms(2) this] obtain q where q: "mqs h p = Some q" "q' = q\<lparr>mq_next := mq_next q'\<rparr>"
    by blast
  then obtain ms where "mq_rep q ms" using assms(1) by (auto simp: boxes_ok_def)
  then have "mq_rep (q\<lparr>mq_next := mq_next q'\<rparr>) ms" by simp
  then show "\<exists>ms. mq_rep q' ms" using q(2) by metis
  assume "p \<in> set ps'"
  with assms(4) q(1) have "mq_in_global q \<or> mq_release q" by blast
  moreover have "mq_in_global q' = mq_in_global q" "mq_release q' = mq_release q" by (subst q(2), simp)+
  ultimately show "mq_in_global q' \<or> mq_release q'" by simp
qed

lemma boxes_put:
  assumes "boxes_ok h ps" "mqs h p = Some q" "mq_next q' = mq_next q" "mq_rep q' ms"
    "p \<in> set ps \<Longrightarrow> mq_in_global q' \<or> mq_release q'"
  shows "boxes_ok (put_mq p q' h) ps"
  using assms gq_rep_same_next [of h ps p q q'] by (auto simp: boxes_ok_def)

lemma boxes_push_at:
  assumes "boxes_ok h ps" "mqs h p = Some q" "\<not> mq_release q"
  shows "\<exists>h' ps'. skynet_mq_push p m h = Inr h' \<and> ps' = (if mq_in_global q then ps else ps @ [p]) \<and> mglob h' p = Some True \<and>
    boxes_ok h' ps' \<and>
    mbox h' = (mbox h)(p \<mapsto> mq_list q @ [m]) \<and> mstat h' = mstat h \<and>
    (\<forall>r. r \<noteq> p \<longrightarrow> mglob h' r = mglob h r \<and> (gq_adm r h \<longrightarrow> gq_adm r h')) \<and>
    (\<forall>r. mqs h r \<noteq> None \<longrightarrow> \<not> gq_adm r h \<longrightarrow> \<not> gq_adm r h')"
proof -
  have rep: "gq_rep h ps" and lk: "mq_in_global q \<or> p \<notin> set ps"
    using assms by (auto simp: boxes_ok_def)
  obtain ms where ms: "mq_rep q ms" using assms by (auto simp: boxes_ok_def)
  from mq_push_spec [OF rep assms(2) ms lk] obtain h' q' where
    h': "skynet_mq_push p m h = Inr h'" "gq_rep h' (if mq_in_global q then ps else ps @ [p])"
      "mq_rep q' (ms @ [m])" "mq_in_global q'" "mq_release q' = mq_release q" "mq_handle q' = mq_handle q"
      "same_but_next (put_mq p q' h) h'" by blast
  have "boxes_ok h' (if mq_in_global q then ps else ps @ [p])"
    unfolding boxes_ok_def
  proof (intro conjI allI impI)
    show "gq_rep h' (if mq_in_global q then ps else ps @ [p])" by fact
    fix r r' assume "mqs h' r = Some r'"
    from same_but_next_views(4) [OF h'(7) this] obtain q0 where
      q0: "mqs (put_mq p q' h) r = Some q0" "r' = q0\<lparr>mq_next := mq_next r'\<rparr>" by blast
    have "\<exists>ms. mq_rep q0 ms" using q0(1) h'(3) assms(1) by (auto simp: boxes_ok_def split: if_splits)
    then have "\<exists>ms. mq_rep (q0\<lparr>mq_next := mq_next r'\<rparr>) ms" by simp
    then show "\<exists>ms. mq_rep r' ms" using q0(2) by metis
    have f: "mq_in_global r' = mq_in_global q0" "mq_release r' = mq_release q0" by (subst q0(2), simp)+
    assume "r \<in> set (if mq_in_global q then ps else ps @ [p])"
    then show "mq_in_global r' \<or> mq_release r'"
      using q0(1) h'(4) assms(1) unfolding f by (auto simp: boxes_ok_def split: if_splits)
  qed
  moreover have "mglob h' p = Some True" unfolding same_but_next_views(3) [OF h'(7)] using h'(4) by (simp add: mglob_def)
  moreover have "mbox h' = (mbox h)(p \<mapsto> mq_list q @ [m])"
    unfolding same_but_next_views(1) [OF h'(7)]
    using mq_rep_list [OF ms] mq_rep_list [OF h'(3)] by (auto simp: mbox_def)
  moreover have "mstat h' = mstat h"
    unfolding same_but_next_views(2) [OF h'(7)] using h'(5,6) assms(2) by (auto simp: mstat_def)
  moreover have "gq_adm r h'" if "r \<noteq> p" "gq_adm r h" for r
  proof -
    have "mqs h r \<noteq> None" "r \<notin> set ps" using that(2) gq_adm_iff [OF rep] by auto
    moreover from this(1) have "mqs h' r \<noteq> None" using same_but_next_none [OF h'(7), of r] that(1) by simp
    ultimately show ?thesis using gq_adm_iff [OF h'(2)] that(1) by auto
  qed
  moreover have "mglob h' r = mglob h r" if "r \<noteq> p" for r
    unfolding same_but_next_views(3) [OF h'(7)] using that by (simp add: mglob_def)
  moreover have "\<not> gq_adm r h'" if "mqs h r \<noteq> None" "\<not> gq_adm r h" for r
    using that gq_adm_iff [OF rep] gq_adm_iff [OF h'(2)] by auto
  ultimately show ?thesis using h'(1) by blast
qed

lemma boxes_push:
  assumes "boxes_ok h ps" "mqs h p = Some q" "\<not> mq_release q"
  shows "\<exists>h' ps'. skynet_mq_push p m h = Inr h' \<and> boxes_ok h' ps' \<and>
    mbox h' = (mbox h)(p \<mapsto> mq_list q @ [m]) \<and> mstat h' = mstat h \<and>
    (\<forall>r. r \<noteq> p \<longrightarrow> mglob h' r = mglob h r \<and> (gq_adm r h \<longrightarrow> gq_adm r h')) \<and>
    (\<forall>r. mqs h r \<noteq> None \<longrightarrow> \<not> gq_adm r h \<longrightarrow> \<not> gq_adm r h')"
  using boxes_push_at [OF assms, of m] by blast

text \<open>
  What a push leaves alone: mailboxes marked for release, which are out of reach of senders,
  keep their contents, a mailbox whose contents did not change is not scheduled by it, and
  what is scheduled stays so.
\<close>

definition undisturbed :: "mq_heap \<Rightarrow> mq_heap \<Rightarrow> bool" where
  "undisturbed h h' \<longleftrightarrow> mstat h' = mstat h \<and>
     (\<forall>r k. mstat h r = Some (k, True) \<longrightarrow> mbox h' r = mbox h r) \<and>
     (\<forall>r. mbox h' r = mbox h r \<longrightarrow> mglob h' r = mglob h r \<and> (gq_adm r h \<longrightarrow> gq_adm r h')) \<and>
     (\<forall>r. mqs h r \<noteq> None \<longrightarrow> \<not> gq_adm r h \<longrightarrow> \<not> gq_adm r h')"

lemma undisturbed_refl [simp]: "undisturbed h h"
  by (simp add: undisturbed_def)

lemma boxes_schedule:
  assumes "boxes_ok h ps" "gq_adm p h" "mglob h p = Some True \<or> mstat h p = Some (k, True)"
  shows "\<exists>h'. skynet_globalmq_push p h = Inr h' \<and> boxes_ok h' (ps @ [p]) \<and> mbox h' = mbox h \<and> mstat h' = mstat h"
proof -
  have rep: "gq_rep h ps" using assms(1) by (simp add: boxes_ok_def)
  from globalmq_push_rep [OF rep assms(2)] obtain h' where h': "skynet_globalmq_push p h = Inr h'"
    "gq_rep h' (ps @ [p])" "same_but_next h h'" by blast
  have "boxes_ok h' (ps @ [p])"
    by (rule boxes_ok_same_but_next [OF assms(1) h'(3,2)])
      (use assms(1,3) in \<open>auto simp: boxes_ok_def mglob_def mstat_def\<close>)
  with h' same_but_next_views [OF h'(3)] show ?thesis by blast
qed

text \<open>Marking for release: the mailbox becomes runnable if it was not, so that a worker drops it.\<close>

lemma boxes_mark:
  assumes "boxes_ok h ps" "mqs h p = Some q" "\<not> mq_release q"
  shows "\<exists>h' ps'. skynet_mq_mark_release p h = Inr h' \<and> boxes_ok h' ps' \<and> mbox h' = mbox h \<and> mglob h' = mglob h \<and>
    mstat h' = (mstat h)(p \<mapsto> (mq_handle q, True)) \<and> (mq_in_global q \<longrightarrow> ps' = ps) \<and> (\<not> mq_in_global q \<longrightarrow> ps' = ps @ [p])"
proof -
  let ?q = "q\<lparr>mq_release := True\<rparr>" and ?h = "put_mq p (q\<lparr>mq_release := True\<rparr>) h"
  obtain ms where ms: "mq_rep q ms" using assms by (auto simp: boxes_ok_def)
  then have ms': "mq_rep ?q ms" by simp
  have ok: "boxes_ok ?h ps" by (rule boxes_put [OF assms(1,2) _ ms']) simp_all
  have v: "mbox ?h = mbox h" "mglob ?h = mglob h" "mstat ?h = (mstat h)(p \<mapsto> (mq_handle q, True))"
    using assms(2) by (auto simp: mbox_def mglob_def mstat_def)
  show ?thesis
  proof (cases "mq_in_global q")
    case True
    then have "skynet_mq_mark_release p h = Inr ?h"
      using assms by (simp add: skynet_mq_mark_release_def get_mq_Some)
    with ok v True show ?thesis by auto
  next
    case False
    have out: "p \<notin> set ps" using False assms by (auto simp: boxes_ok_def)
    have rep: "gq_rep ?h ps" using ok by (simp add: boxes_ok_def)
    have "gq_adm p ?h" using gq_adm_iff [OF rep] out by simp
    from globalmq_push_rep [OF rep this] obtain h' where h': "skynet_globalmq_push p ?h = Inr h'"
      "gq_rep h' (ps @ [p])" "same_but_next ?h h'" by blast
    have "skynet_mq_mark_release p h = Inr h'"
      using assms False h'(1) by (simp add: skynet_mq_mark_release_def get_mq_Some)
    moreover have "boxes_ok h' (ps @ [p])"
      by (rule boxes_ok_same_but_next [OF ok h'(3,2)]) (use ok in \<open>auto simp: boxes_ok_def split: if_splits\<close>)
    ultimately show ?thesis using same_but_next_views(1-3) [OF h'(3)] v False by auto
  qed
qed

section \<open>The node\<close>

text \<open>
  The invariant of a quiescent node (no reference held but the ones that keep the contexts in
  the table): every live context owns a mailbox that is not marked for release, no two share
  one, and addresses from \<open>nd_fresh\<close> on are free.
\<close>

definition ctx_ok :: "node \<Rightarrow> bool" where
  "ctx_ok n \<longleftrightarrow>
     (\<forall>c x. nd_ctx n c = Some x \<longrightarrow> 0 < cx_ref x \<and> mstat (nd_mq n) (cx_queue x) = Some (cx_handle x, False)) \<and>
     (\<forall>c d x y. nd_ctx n c = Some x \<longrightarrow> nd_ctx n d = Some y \<longrightarrow> cx_queue x = cx_queue y \<longrightarrow> c = d)"

definition fresh_ok :: "node \<Rightarrow> bool" where
  "fresh_ok n \<longleftrightarrow> (\<forall>p \<ge> nd_fresh n. nd_ctx n p = None \<and> nd_bufs n p = None \<and> mqs (nd_mq n) p = None)"

definition node_ok :: "node \<Rightarrow> bool" where
  "node_ok n \<longleftrightarrow> (\<exists>ps. boxes_ok (nd_mq n) ps) \<and> hs_ok (hof_of n) (nd_H n) \<and> names_ok (nd_H n) \<and>
     ctx_ok n \<and> fresh_ok n"

text \<open>The abstract view: the inbox of each handle.\<close>

definition inbox :: "node \<Rightarrow> u32 \<Rightarrow> skynet_message list option" where
  "inbox n h = Option.bind (hs_find (hof_of n) (nd_H n) h) (\<lambda>c.
     Option.bind (nd_ctx n c) (\<lambda>x. mbox (nd_mq n) (cx_queue x)))"

lemma find_ctx:
  assumes "hs_find (hof_of n) (nd_H n) h = Some c"
  shows "\<exists>x. nd_ctx n c = Some x \<and> cx_handle x = h"
  using hs_find_handle [OF assms] by (auto simp: hof_of_def)

lemma inbox_None:
  assumes "node_ok n"
  shows "inbox n h = None \<longleftrightarrow> hs_find (hof_of n) (nd_H n) h = None"
proof (cases "hs_find (hof_of n) (nd_H n) h")
  case (Some c)
  from find_ctx [OF this] obtain x where x: "nd_ctx n c = Some x" by blast
  with assms have "mstat (nd_mq n) (cx_queue x) \<noteq> None" by (auto simp: node_ok_def ctx_ok_def)
  then have "mbox (nd_mq n) (cx_queue x) \<noteq> None" by (auto simp: mbox_def mstat_def)
  with Some x show ?thesis by (auto simp: inbox_def)
qed (simp add: inbox_def)

lemma put_ctx_simps [simp]:
  "nd_ctx (put_ctx c x n) = (nd_ctx n)(c \<mapsto> x)" "nd_mq (put_ctx c x n) = nd_mq n" "nd_bufs (put_ctx c x n) = nd_bufs n"
  "nd_H (put_ctx c x n) = nd_H n" "nd_fresh (put_ctx c x n) = nd_fresh n"
  by (simp_all add: put_ctx_def)

lemma put_ctx_back [simp]: "nd_ctx n c = Some x \<Longrightarrow> put_ctx c x n = n"
  by (simp add: put_ctx_def fun_upd_idem)

lemma put_ctx_mq [simp]:
  "nd_ctx n c = Some x \<Longrightarrow> put_ctx c x ((put_ctx c y n)\<lparr>nd_mq := h\<rparr>) = n\<lparr>nd_mq := h\<rparr>"
  by (simp add: put_ctx_def fun_upd_idem)

lemma get_ctx_Some: "nd_ctx n c = Some x \<Longrightarrow> get_ctx c n = Inr x"
  by (simp add: get_ctx_def)

lemma handle_grab_None:
  assumes "hs_ok (hof_of n) (nd_H n)" "hs_find (hof_of n) (nd_H n) h = None"
  shows "handle_grab h n = Inr (n, None)"
  using assms by (simp add: handle_grab_def ht.grab_find)

lemma handle_grab_Some:
  assumes "hs_ok (hof_of n) (nd_H n)" "hs_find (hof_of n) (nd_H n) h = Some c" "nd_ctx n c = Some x"
  shows "handle_grab h n = Inr (put_ctx c (x\<lparr>cx_ref := cx_ref x + 1\<rparr>) n, Some c)"
  using assms by (simp add: handle_grab_def ht.grab_find skynet_context_grab_def upd_ctx_def get_ctx_Some)

section \<open>Delivery\<close>

text \<open>A push to a registered handle changes the node's mailboxes only.\<close>

lemma context_push_some:
  assumes ok: "node_ok n" and f: "hs_find (hof_of n) (nd_H n) h = Some c" and x: "nd_ctx n c = Some x"
  shows "\<exists>mq'. skynet_context_push h m n = Inr (n\<lparr>nd_mq := mq'\<rparr>, True) \<and> (\<exists>ps. boxes_ok mq' ps) \<and>
    mstat mq' = mstat (nd_mq n) \<and> undisturbed (nd_mq n) mq' \<and>
    mbox mq' = (mbox (nd_mq n))(cx_queue x \<mapsto> the (mbox (nd_mq n) (cx_queue x)) @ [m])"
proof -
  obtain ps where bx: "boxes_ok (nd_mq n) ps" using ok by (auto simp: node_ok_def)
  have ref: "0 < cx_ref x" and st: "mstat (nd_mq n) (cx_queue x) = Some (cx_handle x, False)"
    using ok x by (auto simp: node_ok_def ctx_ok_def)
  from st obtain q where q: "mqs (nd_mq n) (cx_queue x) = Some q" "\<not> mq_release q"
    by (auto simp: mstat_def)
  from boxes_push [OF bx q] obtain mq' ps' where mq': "skynet_mq_push (cx_queue x) m (nd_mq n) = Inr mq'"
    "boxes_ok mq' ps'" "mbox mq' = (mbox (nd_mq n))(cx_queue x \<mapsto> mq_list q @ [m])" "mstat mq' = mstat (nd_mq n)"
    "\<forall>r. r \<noteq> cx_queue x \<longrightarrow> mglob mq' r = mglob (nd_mq n) r \<and> (gq_adm r (nd_mq n) \<longrightarrow> gq_adm r mq')"
    "\<forall>r. mqs (nd_mq n) r \<noteq> None \<longrightarrow> \<not> gq_adm r (nd_mq n) \<longrightarrow> \<not> gq_adm r mq'" by blast
  have und: "undisturbed (nd_mq n) mq'" using mq' st q(1) by (auto simp: undisturbed_def mbox_def)
  let ?x = "x\<lparr>cx_ref := cx_ref x + 1\<rparr>"
  have hs: "hs_ok (hof_of n) (nd_H n)" using ok by (simp add: node_ok_def)
  have "skynet_context_push h m n = Inr (n\<lparr>nd_mq := mq'\<rparr>, True)"
    using mq'(1) ref x
    by (simp add: skynet_context_push_def handle_grab_Some [OF hs f x] get_ctx_Some on_mq_def
        skynet_context_release_def Let_def)
  moreover have "mbox (nd_mq n) (cx_queue x) = Some (mq_list q)" using q(1) by (simp add: mbox_def)
  ultimately show ?thesis using mq' und by auto
qed

lemma inbox_push:
  assumes ok: "node_ok n" and f: "hs_find (hof_of n) (nd_H n) h = Some c" and x: "nd_ctx n c = Some x"
    and mb: "mbox mq' = (mbox (nd_mq n))(cx_queue x \<mapsto> ms)"
  shows "inbox (n\<lparr>nd_mq := mq'\<rparr>) = (inbox n)(h \<mapsto> ms)"
proof
  fix g
  have hof: "hof_of (n\<lparr>nd_mq := mq'\<rparr>) = hof_of n" by (simp add: hof_of_def fun_eq_iff)
  have inj: "d = c" if "nd_ctx n d = Some y" "cx_queue y = cx_queue x" for d y
    using ok x that by (auto simp: node_ok_def ctx_ok_def)
  show "inbox (n\<lparr>nd_mq := mq'\<rparr>) g = ((inbox n)(h \<mapsto> ms)) g"
  proof (cases "g = h")
    case True
    then show ?thesis by (simp add: inbox_def hof f x mb)
  next
    case False
    show ?thesis
    proof (cases "hs_find (hof_of n) (nd_H n) g")
      case None
      with False show ?thesis by (simp add: inbox_def hof)
    next
      case (Some d)
      from find_ctx [OF this] obtain y where y: "nd_ctx n d = Some y" by blast
      have "d \<noteq> c" using ht.find_inj [OF Some] f False by auto
      with inj y have "cx_queue y \<noteq> cx_queue x" by blast
      with False Some y show ?thesis by (simp add: inbox_def hof mb)
    qed
  qed
qed

lemma node_ok_mq:
  assumes "node_ok n" "boxes_ok mq' ps" "mstat mq' = mstat (nd_mq n)"
  shows "node_ok (n\<lparr>nd_mq := mq'\<rparr>)"
proof -
  have "hof_of (n\<lparr>nd_mq := mq'\<rparr>) = hof_of n" by (simp add: hof_of_def fun_eq_iff)
  moreover have "mqs mq' p = None \<longleftrightarrow> mqs (nd_mq n) p = None" for p
    using fun_cong [OF assms(3), of p] by (auto simp: mstat_def)
  ultimately show ?thesis using assms by (auto simp: node_ok_def ctx_ok_def fresh_ok_def)
qed

lemma context_push_spec:
  assumes "node_ok n"
  shows "case inbox n h of
      None \<Rightarrow> skynet_context_push h m n = Inr (n, False)
    | Some ms \<Rightarrow> \<exists>mq'. skynet_context_push h m n = Inr (n\<lparr>nd_mq := mq'\<rparr>, True) \<and>
        node_ok (n\<lparr>nd_mq := mq'\<rparr>) \<and> inbox (n\<lparr>nd_mq := mq'\<rparr>) = (inbox n)(h \<mapsto> ms @ [m]) \<and>
        mstat mq' = mstat (nd_mq n) \<and> undisturbed (nd_mq n) mq'"
proof (cases "hs_find (hof_of n) (nd_H n) h")
  case None
  then have "inbox n h = None" by (simp add: inbox_def)
  with None assms show ?thesis
    by (simp add: skynet_context_push_def handle_grab_None node_ok_def)
next
  case (Some c)
  from find_ctx [OF this] obtain x where x: "nd_ctx n c = Some x" by blast
  have i: "inbox n h \<noteq> None" using inbox_None [OF assms] Some by simp
  then obtain ms where ms: "inbox n h = Some ms" by auto
  then have mb: "mbox (nd_mq n) (cx_queue x) = Some ms" using Some x by (simp add: inbox_def)
  from context_push_some [OF assms Some x, of m] obtain mq' ps where
    "skynet_context_push h m n = Inr (n\<lparr>nd_mq := mq'\<rparr>, True)" "boxes_ok mq' ps" "mstat mq' = mstat (nd_mq n)"
    "undisturbed (nd_mq n) mq'" "mbox mq' = (mbox (nd_mq n))(cx_queue x \<mapsto> ms @ [m])" unfolding mb by auto
  with node_ok_mq [OF assms] inbox_push [OF assms Some x] ms show ?thesis by fastforce
qed

definition deliver :: "u32 \<Rightarrow> skynet_message \<Rightarrow> (u32 \<Rightarrow> skynet_message list option) \<Rightarrow> u32 \<Rightarrow> skynet_message list option" where
  "deliver h m ib = (case ib h of None \<Rightarrow> ib | Some ms \<Rightarrow> ib(h \<mapsto> ms @ [m]))"

lemma deliver_dom: "deliver h m ib g = None \<longleftrightarrow> ib g = None"
  by (auto simp: deliver_def split: option.splits)

lemma push_delivers:
  assumes "node_ok n"
  shows "\<exists>mq'. skynet_context_push h m n = Inr (n\<lparr>nd_mq := mq'\<rparr>, inbox n h \<noteq> None) \<and>
    node_ok (n\<lparr>nd_mq := mq'\<rparr>) \<and> inbox (n\<lparr>nd_mq := mq'\<rparr>) = deliver h m (inbox n) \<and> mstat mq' = mstat (nd_mq n) \<and>
    undisturbed (nd_mq n) mq'"
proof (cases "inbox n h")
  case None
  with context_push_spec [OF assms, of h m] assms show ?thesis
    by (intro exI [of _ "nd_mq n"]) (simp add: deliver_def)
next
  case (Some ms)
  with context_push_spec [OF assms, of h m] show ?thesis by (auto simp: deliver_def)
qed

section \<open>Buffers\<close>

lemma node_ok_bufs:
  assumes "node_ok n" "nd_fresh n \<le> f" "\<forall>p. f \<le> p \<longrightarrow> b p = None"
  shows "node_ok (n\<lparr>nd_bufs := b, nd_fresh := f\<rparr>)" "inbox (n\<lparr>nd_bufs := b, nd_fresh := f\<rparr>) = inbox n"
proof -
  have hof: "hof_of (n\<lparr>nd_bufs := b, nd_fresh := f\<rparr>) = hof_of n" by (simp add: hof_of_def fun_eq_iff)
  with assms show "node_ok (n\<lparr>nd_bufs := b, nd_fresh := f\<rparr>)" by (auto simp: node_ok_def ctx_ok_def fresh_ok_def)
  show "inbox (n\<lparr>nd_bufs := b, nd_fresh := f\<rparr>) = inbox n" by (simp add: inbox_def hof fun_eq_iff)
qed

lemma node_ok_alloc:
  assumes "node_ok n" "alloc_buf b n = (n1, p)"
  shows "node_ok n1" "inbox n1 = inbox n" "nd_bufs n p = None" "nd_bufs n1 = (nd_bufs n)(p \<mapsto> b)" "p = nd_fresh n"
    "nd_H n1 = nd_H n" "nd_ctx n1 = nd_ctx n" "nd_mq n1 = nd_mq n" "nd_fresh n1 = Suc (nd_fresh n)"
    "nd_HARBOR n1 = nd_HARBOR n" "nd_REMOTE n1 = nd_REMOTE n"
proof -
  have free: "nd_bufs n p = None" if "nd_fresh n \<le> p" for p using assms(1) that by (simp add: node_ok_def fresh_ok_def)
  have n1: "n1 = n\<lparr>nd_bufs := (nd_bufs n)(nd_fresh n \<mapsto> b), nd_fresh := nd_fresh n + 1\<rparr>" "p = nd_fresh n"
    using assms(2) by (auto simp: alloc_buf_def)
  have b: "\<forall>p. nd_fresh n + 1 \<le> p \<longrightarrow> ((nd_bufs n)(nd_fresh n \<mapsto> b)) p = None" using free by simp
  show "node_ok n1" "inbox n1 = inbox n"
    using node_ok_bufs [where b = "(nd_bufs n)(nd_fresh n \<mapsto> b)", OF assms(1) _ b] n1(1) by simp_all
  show "nd_bufs n p = None" "nd_bufs n1 = (nd_bufs n)(p \<mapsto> b)" "p = nd_fresh n"
    "nd_H n1 = nd_H n" "nd_ctx n1 = nd_ctx n" "nd_mq n1 = nd_mq n" "nd_fresh n1 = Suc (nd_fresh n)"
    "nd_HARBOR n1 = nd_HARBOR n" "nd_REMOTE n1 = nd_REMOTE n"
    using n1 free by simp_all
qed

lemma node_ok_free:
  assumes "node_ok n" "nd_bufs n p \<noteq> None"
  shows "\<exists>n1. free_buf (Some p) n = Inr n1 \<and> node_ok n1 \<and> inbox n1 = inbox n \<and> nd_bufs n1 = (nd_bufs n)(p := None) \<and>
    nd_mq n1 = nd_mq n \<and> nd_HARBOR n1 = nd_HARBOR n \<and> nd_ctx n1 = nd_ctx n \<and> nd_H n1 = nd_H n"
proof -
  have free: "nd_bufs n p = None" if "nd_fresh n \<le> p" for p using assms(1) that by (simp add: node_ok_def fresh_ok_def)
  have b: "\<forall>r. nd_fresh n \<le> r \<longrightarrow> ((nd_bufs n)(p := None)) r = None" using free by simp
  have "node_ok (n\<lparr>nd_bufs := (nd_bufs n)(p := None)\<rparr>)" "inbox (n\<lparr>nd_bufs := (nd_bufs n)(p := None)\<rparr>) = inbox n"
    using node_ok_bufs [where b = "(nd_bufs n)(p := None)", OF assms(1) order_refl b] by simp_all
  with assms(2) show ?thesis by (auto simp: free_buf_def)
qed

section \<open>The logger\<close>

definition log_message :: "u32 \<Rightarrow> string \<Rightarrow> ptr \<Rightarrow> skynet_message" where
  "log_message src text p = \<lparr>msg_source = src, msg_session = 0, msg_data = Some p,
     msg_sz = word_of_nat (length text) OR push_bit MESSAGE_TYPE_SHIFT (scast PTYPE_TEXT)\<rparr>"

definition logger_of :: "node \<Rightarrow> u32" where
  "logger_of n = (if nd_logger n = 0 then (case name_map (nd_H n) ''logger'' of None \<Rightarrow> 0 | Some h \<Rightarrow> h) else nd_logger n)"

definition live_ctx :: "ptr option \<Rightarrow> node \<Rightarrow> bool" where
  "live_ctx c n \<longleftrightarrow> (case c of None \<Rightarrow> True | Some p \<Rightarrow> nd_ctx n p \<noteq> None)"

text \<open>
  \<open>skynet_error\<close> puts the text in the logger's inbox; a logger that is gone still costs
  the buffer, which nobody frees.
\<close>

lemma error_spec:
  assumes ok: "node_ok n" and c: "live_ctx c n"
  shows "\<exists>n'. skynet_error c text n = Inr n' \<and> node_ok n' \<and> nd_logger n' = logger_of n \<and>
    nd_ctx n' = nd_ctx n \<and> nd_H n' = nd_H n \<and> nd_HARBOR n' = nd_HARBOR n \<and> nd_REMOTE n' = nd_REMOTE n \<and>
    nd_total n' = nd_total n \<and> nd_monitor_exit n' = nd_monitor_exit n \<and> nd_events n' = nd_events n \<and> nd_M n' = nd_M n \<and>
    undisturbed (nd_mq n) (nd_mq n') \<and>
    (if logger_of n = 0 then inbox n' = inbox n \<and> nd_bufs n' = nd_bufs n
     else nd_bufs n' = (nd_bufs n)(nd_fresh n \<mapsto> Bytes (text @ [CHR 0x00])) \<and>
       inbox n' = deliver (logger_of n) (log_message (case c of None \<Rightarrow> 0 | Some p \<Rightarrow> cx_handle (the (nd_ctx n p))) text (nd_fresh n)) (inbox n))"
proof -
  have nm: "hs_array_ok (nd_H n)" "names_ok (nd_H n)" using ok hs_ok_array by (auto simp: node_ok_def)
  have "c_string ''logger''" by (simp add: c_string_def)
  from findname_spec [OF nm this]
  have lg: "(if nd_logger n = 0 then skynet_handle_findname ''logger'' (nd_H n) else Inr (nd_logger n)) = Inr (logger_of n)"
    by (simp add: logger_of_def)
  let ?n1 = "n\<lparr>nd_logger := logger_of n\<rparr>"
  have hof: "hof_of ?n1 = hof_of n" by (simp add: hof_of_def fun_eq_iff)
  have ok1: "node_ok ?n1" using ok by (simp add: node_ok_def hof ctx_ok_def fresh_ok_def)
  have in1: "inbox ?n1 = inbox n" by (simp add: inbox_def hof fun_eq_iff)
  show ?thesis
  proof (cases "logger_of n = 0")
    case True
    with ok1 in1 lg show ?thesis unfolding skynet_error_def by simp
  next
    case False
    obtain n2 p where a: "alloc_buf (Bytes (text @ [CHR 0x00])) ?n1 = (n2, p)" by fastforce
    note al = node_ok_alloc [OF ok1 a]
    let ?src = "case c of None \<Rightarrow> 0 | Some p \<Rightarrow> cx_handle (the (nd_ctx n p))"
    have src: "(case c of None \<Rightarrow> Inr 0 | Some p \<Rightarrow> bind_res (get_ctx p n2) (\<lambda>x. Inr (cx_handle x))) = Inr ?src"
      using c al(7) by (cases c) (auto simp: live_ctx_def get_ctx_def)
    from push_delivers [OF al(1), of "logger_of n" "log_message ?src text p"] obtain mq' ok' where
      mq': "skynet_context_push (logger_of n) (log_message ?src text p) n2 = Inr (n2\<lparr>nd_mq := mq'\<rparr>, ok')"
        "node_ok (n2\<lparr>nd_mq := mq'\<rparr>)" "inbox (n2\<lparr>nd_mq := mq'\<rparr>) = deliver (logger_of n) (log_message ?src text p) (inbox n2)"
        "undisturbed (nd_mq n2) mq'" by blast
    have "skynet_error c text n = Inr (n2\<lparr>nd_mq := mq'\<rparr>)"
      unfolding skynet_error_def using lg False a src mq'(1) by (simp add: log_message_def)
    moreover have "n2 = ?n1\<lparr>nd_bufs := (nd_bufs n)(nd_fresh n \<mapsto> Bytes (text @ [CHR 0x00])), nd_fresh := nd_fresh n + 1\<rparr>"
      using a by (auto simp: alloc_buf_def)
    ultimately show ?thesis using mq' al in1 False by simp
  qed
qed

section \<open>Sending\<close>

definition send_message :: "u32 \<Rightarrow> i32 \<Rightarrow> ptr option \<Rightarrow> i32 \<Rightarrow> u64 \<Rightarrow> skynet_message" where
  "send_message source session data type sz = \<lparr>msg_source = source, msg_session = session, msg_data = data,
     msg_sz = sz OR push_bit MESSAGE_TYPE_SHIFT (scast (type AND 0xff))\<rparr>"

lemma filter_args_null:
  "type AND PTYPE_TAG_ALLOCSESSION = 0 \<Longrightarrow>
   filter_args c type session None sz n = Inr (n, session, None, sz OR push_bit MESSAGE_TYPE_SHIFT (scast (type AND 0xff)))"
  by (simp add: filter_args_def)

lemma filter_args_data:
  assumes "node_ok n" "type AND PTYPE_TAG_ALLOCSESSION = 0" "nd_bufs n p = Some (Bytes bs)" "unat sz \<le> length bs"
  shows "\<exists>n1 d. filter_args c type session (Some p) sz n =
      Inr (n1, session, Some d, sz OR push_bit MESSAGE_TYPE_SHIFT (scast (type AND 0xff))) \<and>
    node_ok n1 \<and> inbox n1 = inbox n \<and> nd_HARBOR n1 = nd_HARBOR n \<and> nd_REMOTE n1 = nd_REMOTE n \<and> nd_ctx n1 = nd_ctx n \<and>
    nd_mq n1 = nd_mq n \<and>
    (if type AND PTYPE_TAG_DONTCOPY = 0
     then d = nd_fresh n \<and> nd_bufs n d = None \<and> nd_bufs n1 = (nd_bufs n)(d \<mapsto> Bytes (take (unat sz) bs @ [CHR 0x00]))
     else d = p \<and> n1 = n)"
proof (cases "type AND PTYPE_TAG_DONTCOPY = 0")
  case False
  with assms show ?thesis by (auto simp: filter_args_def)
next
  case True
  obtain n1 d where a: "alloc_buf (Bytes (take (unat sz) bs @ [CHR 0x00])) n = (n1, d)" by fastforce
  have "copy_data p sz n = Inr (n1, d)" using assms(3,4) a by (simp add: copy_data_def not_less)
  with assms(2) True node_ok_alloc [OF assms(1) a] show ?thesis by (auto simp: filter_args_def)
qed

lemma send_local_push:
  assumes "sz AND MESSAGE_TYPE_MASK = sz" "source \<noteq> 0" "destination \<noteq> 0"
    "filter_args c type session data sz n = Inr (n1, session, d, sz OR push_bit MESSAGE_TYPE_SHIFT (scast (type AND 0xff)))"
    "skynet_harbor_message_isremote destination n1 = Inr False" "node_ok n1"
  shows "\<exists>mq'. node_ok (n1\<lparr>nd_mq := mq'\<rparr>) \<and> mstat mq' = mstat (nd_mq n1) \<and> undisturbed (nd_mq n1) mq' \<and>
    inbox (n1\<lparr>nd_mq := mq'\<rparr>) = deliver destination (send_message source session d type sz) (inbox n1) \<and>
    skynet_send c source destination type session data sz n =
      (if inbox n1 destination \<noteq> None then Inr (n1\<lparr>nd_mq := mq'\<rparr>, session)
       else bind_res (free_buf d (n1\<lparr>nd_mq := mq'\<rparr>)) (\<lambda>n3. Inr (n3, - 1)))"
proof -
  from push_delivers [OF assms(6), of destination "send_message source session d type sz"] obtain mq' where
    "skynet_context_push destination (send_message source session d type sz) n1 =
       Inr (n1\<lparr>nd_mq := mq'\<rparr>, inbox n1 destination \<noteq> None)" "node_ok (n1\<lparr>nd_mq := mq'\<rparr>)"
    "inbox (n1\<lparr>nd_mq := mq'\<rparr>) = deliver destination (send_message source session d type sz) (inbox n1)"
    "mstat mq' = mstat (nd_mq n1)" "undisturbed (nd_mq n1) mq'" by blast
  with assms show ?thesis
    by (intro exI [of _ mq']) (simp add: skynet_send_def own_source_def send_message_def)
qed

lemma send_null:
  assumes "node_ok n" "source \<noteq> 0" "type AND PTYPE_TAG_ALLOCSESSION = 0" "nd_HARBOR n \<noteq> NOT 0"
    "destination = 0 \<or> skynet_harbor_message_isremote destination n = Inr False"
  shows "\<exists>mq' r. skynet_send c source destination type session None 0 n = Inr (n\<lparr>nd_mq := mq'\<rparr>, r) \<and>
    node_ok (n\<lparr>nd_mq := mq'\<rparr>) \<and> mstat mq' = mstat (nd_mq n) \<and> undisturbed (nd_mq n) mq' \<and>
    inbox (n\<lparr>nd_mq := mq'\<rparr>) = (if destination = 0 then inbox n
      else deliver destination (send_message source session None type 0) (inbox n))"
proof (cases "destination = 0")
  case True
  with assms show ?thesis
    by (intro exI [of _ "nd_mq n"]) (simp add: skynet_send_def filter_args_null own_source_def)
next
  case False
  have "(0 :: u64) AND MESSAGE_TYPE_MASK = 0" by simp
  from send_local_push [OF this assms(2) False filter_args_null [OF assms(3)] _ assms(1), where c = c and session = session] False assms(5)
  obtain mq' where mq': "node_ok (n\<lparr>nd_mq := mq'\<rparr>)" "mstat mq' = mstat (nd_mq n)" "undisturbed (nd_mq n) mq'"
    "inbox (n\<lparr>nd_mq := mq'\<rparr>) = deliver destination (send_message source session None type 0) (inbox n)"
    "skynet_send c source destination type session None 0 n =
      (if inbox n destination \<noteq> None then Inr (n\<lparr>nd_mq := mq'\<rparr>, session)
       else bind_res (free_buf None (n\<lparr>nd_mq := mq'\<rparr>)) (\<lambda>n3. Inr (n3, - 1)))" by blast
  have "skynet_send c source destination type session None 0 n =
      Inr (n\<lparr>nd_mq := mq'\<rparr>, if inbox n destination \<noteq> None then session else - 1)"
    unfolding mq'(5) by (simp add: free_buf_def)
  with mq'(1-4) False show ?thesis by auto
qed

text \<open>Who owns the data after a send to a local service: the message, or nobody.\<close>

lemma send_local:
  assumes ok: "node_ok n" and sz: "sz AND MESSAGE_TYPE_MASK = sz" "unat sz \<le> length bs"
    and src: "source \<noteq> 0" and dst: "destination \<noteq> 0" "skynet_harbor_message_isremote destination n = Inr False"
    and ty: "type AND PTYPE_TAG_ALLOCSESSION = 0" and data: "nd_bufs n p = Some (Bytes bs)"
  shows "\<exists>n' d. skynet_send c source destination type session (Some p) sz n =
      Inr (n', if inbox n destination = None then - 1 else session) \<and> node_ok n' \<and>
    d = (if type AND PTYPE_TAG_DONTCOPY = 0 then nd_fresh n else p) \<and>
    inbox n' = deliver destination (send_message source session (Some d) type sz) (inbox n) \<and>
    nd_bufs n' =
      (if type AND PTYPE_TAG_DONTCOPY = 0
       then (if inbox n destination = None then nd_bufs n
             else (nd_bufs n)(d \<mapsto> Bytes (take (unat sz) bs @ [CHR 0x00])))
       else (if inbox n destination = None then (nd_bufs n)(p := None) else nd_bufs n))"
proof -
  from filter_args_data [OF ok ty data sz(2), of c session] obtain n1 d where
    f: "filter_args c type session (Some p) sz n =
      Inr (n1, session, Some d, sz OR push_bit MESSAGE_TYPE_SHIFT (scast (type AND 0xff)))"
    and n1: "node_ok n1" "inbox n1 = inbox n" "nd_HARBOR n1 = nd_HARBOR n"
    and d: "if type AND PTYPE_TAG_DONTCOPY = 0
     then d = nd_fresh n \<and> nd_bufs n d = None \<and> nd_bufs n1 = (nd_bufs n)(d \<mapsto> Bytes (take (unat sz) bs @ [CHR 0x00]))
     else d = p \<and> n1 = n" by blast
  have rem: "skynet_harbor_message_isremote destination n1 = Inr False"
    using dst(2) n1(3) by (simp add: skynet_harbor_message_isremote_def)
  from send_local_push [OF sz(1) src dst(1) f rem n1(1)] obtain mq' where
    mq': "node_ok (n1\<lparr>nd_mq := mq'\<rparr>)"
      "inbox (n1\<lparr>nd_mq := mq'\<rparr>) = deliver destination (send_message source session (Some d) type sz) (inbox n1)"
      "skynet_send c source destination type session (Some p) sz n =
      (if inbox n1 destination \<noteq> None then Inr (n1\<lparr>nd_mq := mq'\<rparr>, session)
       else bind_res (free_buf (Some d) (n1\<lparr>nd_mq := mq'\<rparr>)) (\<lambda>n3. Inr (n3, - 1)))" by blast
  show ?thesis
  proof (cases "inbox n destination")
    case (Some ms)
    with mq' n1 d show ?thesis by (intro exI [of _ "n1\<lparr>nd_mq := mq'\<rparr>"] exI [of _ d]) (auto split: if_splits)
  next
    case None
    have "nd_bufs (n1\<lparr>nd_mq := mq'\<rparr>) d \<noteq> None" using d data by (auto split: if_splits)
    from node_ok_free [OF mq'(1) this] obtain n2 where n2: "free_buf (Some d) (n1\<lparr>nd_mq := mq'\<rparr>) = Inr n2" "node_ok n2"
      "inbox n2 = inbox (n1\<lparr>nd_mq := mq'\<rparr>)" "nd_bufs n2 = (nd_bufs n1)(d := None)" by auto
    have "nd_bufs n2 = (if type AND PTYPE_TAG_DONTCOPY = 0 then nd_bufs n else (nd_bufs n)(p := None))"
      using d n2(4) by (auto split: if_splits)
    with None mq' n1 d n2 show ?thesis by (intro exI [of _ n2] exI [of _ d]) (auto split: if_splits)
  qed
qed

section \<open>Dropping a released mailbox\<close>

lemma gq_adm_same:
  "gq_adm r h \<Longrightarrow> mqs h p = Some q \<Longrightarrow> mq_next q' = mq_next q \<Longrightarrow> gq_adm r (put_mq p q' h)"
  by (auto simp: gq_adm_def put_mq_def)

lemma boxes_pop_cons:
  assumes "boxes_ok h ps" "mbox h p = Some (m # ms)"
  shows "\<exists>h'. mq_pop_at p h = Inr (h', Some m) \<and> boxes_ok h' ps \<and> mbox h' = (mbox h)(p \<mapsto> ms) \<and> mstat h' = mstat h \<and>
    (\<forall>r. gq_adm r h \<longrightarrow> gq_adm r h')"
proof -
  obtain q where q: "mqs h p = Some q" "mq_list q = m # ms" using assms(2) by (auto simp: mbox_def)
  then have rep: "mq_rep q (m # ms)" using assms(1) by (auto simp: boxes_ok_def mq_rep_def)
  from mq_pop_cons [OF rep] obtain thr ov where pop: "skynet_mq_pop q =
      Inr (q\<lparr>mq_head := (mq_head q + 1) mod mq_cap q, mq_overload_threshold := thr, mq_overload := ov\<rparr>, Some m)" "0 < thr"
    by blast
  let ?q = "q\<lparr>mq_head := (mq_head q + 1) mod mq_cap q, mq_overload_threshold := thr, mq_overload := ov\<rparr>"
  have rep': "mq_rep ?q ms" by (rule mq_rep_advance [OF rep pop(2)])
  have "boxes_ok (put_mq p ?q h) ps"
    by (rule boxes_put [OF assms(1) q(1) _ rep']) (use assms(1) q(1) in \<open>auto simp: boxes_ok_def\<close>)
  moreover have "mq_pop_at p h = Inr (put_mq p ?q h, Some m)" by (simp add: mq_pop_at_def get_mq_Some [OF q(1)] pop(1))
  moreover have "mbox (put_mq p ?q h) = (mbox h)(p \<mapsto> ms)" using mq_rep_list [OF rep'] by (auto simp: mbox_def)
  moreover have "mstat (put_mq p ?q h) = mstat h" using q(1) by (auto simp: mstat_def)
  ultimately show ?thesis using gq_adm_same [OF _ q(1), of _ ?q] by auto
qed

lemma boxes_pop_nil:
  assumes "boxes_ok h ps" "mbox h p = Some []" "mstat h p = Some (k, True) \<or> p \<notin> set ps"
  shows "\<exists>h'. mq_pop_at p h = Inr (h', None) \<and> boxes_ok h' ps \<and> mbox h' = mbox h \<and> mstat h' = mstat h \<and>
    (\<forall>r. gq_adm r h \<longrightarrow> gq_adm r h')"
proof -
  obtain q where q: "mqs h p = Some q" "mq_list q = []" using assms(2) by (auto simp: mbox_def)
  then have rep: "mq_rep q []" using assms(1) by (auto simp: boxes_ok_def mq_rep_def)
  let ?q = "q\<lparr>mq_overload_threshold := MQ_OVERLOAD, mq_in_global := False\<rparr>"
  have rep': "mq_rep ?q []" by (rule mq_pop_nil_rep [OF rep])
  have "boxes_ok (put_mq p ?q h) ps"
    by (rule boxes_put [OF assms(1) q(1) _ rep']) (use assms(3) q(1) in \<open>auto simp: mstat_def\<close>)
  moreover have "mq_pop_at p h = Inr (put_mq p ?q h, None)"
    by (simp add: mq_pop_at_def get_mq_Some [OF q(1)] mq_pop_nil [OF rep])
  moreover have "mbox (put_mq p ?q h) = mbox h" using mq_rep_list [OF rep'] q by (auto simp: mbox_def)
  moreover have "mstat (put_mq p ?q h) = mstat h" using q(1) by (auto simp: mstat_def)
  ultimately show ?thesis using gq_adm_same [OF _ q(1), of _ ?q] by auto
qed

lemma inbox_foreign:
  assumes "node_ok n" "\<And>r. (\<exists>k. mstat (nd_mq n) r = Some (k, False)) \<Longrightarrow> mbox h r = mbox (nd_mq n) r"
  shows "inbox (n\<lparr>nd_mq := h\<rparr>) = inbox n"
proof
  fix g
  have hof: "hof_of (n\<lparr>nd_mq := h\<rparr>) = hof_of n" by (simp add: hof_of_def fun_eq_iff)
  have "mbox h (cx_queue x) = mbox (nd_mq n) (cx_queue x)" if "nd_ctx n c = Some x" for c x
    using assms that by (auto simp: node_ok_def ctx_ok_def)
  then show "inbox (n\<lparr>nd_mq := h\<rparr>) g = inbox n g"
    by (auto simp: inbox_def hof bind_eq_None_conv split: option.split Option.bind_splits)
qed

definition drop_source_ok :: "node \<Rightarrow> skynet_message \<Rightarrow> bool" where
  "drop_source_ok n m \<longleftrightarrow> msg_source m = 0 \<or> skynet_harbor_message_isremote (msg_source m) n = Inr False"

definition bounce :: "u32 \<Rightarrow> skynet_message \<Rightarrow> (u32 \<Rightarrow> skynet_message list option) \<Rightarrow> u32 \<Rightarrow> skynet_message list option" where
  "bounce handle m ib = (if msg_source m = 0 then ib
     else deliver (msg_source m) (send_message handle 0 None PTYPE_ERROR 0) ib)"

definition datas :: "skynet_message list \<Rightarrow> ptr list" where
  "datas ms = List.map_filter msg_data ms"

lemma datas_simps [simp]: "datas [] = []" "datas (m # ms) = (case msg_data m of None \<Rightarrow> datas ms | Some d \<Rightarrow> d # datas ms)"
  by (simp_all add: datas_def map_filter_simps split: option.split)

lemma drop_message_spec:
  assumes ok: "node_ok n" and h: "handle \<noteq> 0" "nd_HARBOR n \<noteq> NOT 0" "drop_source_ok n m"
    and d: "\<forall>p \<in> set (datas [m]). nd_bufs n p \<noteq> None"
  shows "\<exists>n'. drop_message handle m n = Inr n' \<and> node_ok n' \<and> inbox n' = bounce handle m (inbox n) \<and>
    nd_bufs n' = (\<lambda>p. if p \<in> set (datas [m]) then None else nd_bufs n p) \<and> undisturbed (nd_mq n) (nd_mq n') \<and>
    nd_HARBOR n' = nd_HARBOR n \<and> nd_ctx n' = nd_ctx n \<and> nd_H n' = nd_H n"
proof -
  have "\<exists>n1. free_buf (msg_data m) n = Inr n1 \<and> node_ok n1 \<and> inbox n1 = inbox n \<and>
      nd_bufs n1 = (\<lambda>p. if p \<in> set (datas [m]) then None else nd_bufs n p) \<and> nd_mq n1 = nd_mq n \<and>
      nd_HARBOR n1 = nd_HARBOR n \<and> nd_ctx n1 = nd_ctx n \<and> nd_H n1 = nd_H n"
  proof (cases "msg_data m")
    case None
    with ok show ?thesis by (simp add: free_buf_def)
  next
    case (Some p)
    with node_ok_free [OF ok, of p] d show ?thesis by (auto simp: fun_eq_iff)
  qed
  then obtain n1 where n1: "free_buf (msg_data m) n = Inr n1" "node_ok n1" "inbox n1 = inbox n"
      "nd_bufs n1 = (\<lambda>p. if p \<in> set (datas [m]) then None else nd_bufs n p)" "nd_mq n1 = nd_mq n"
      "nd_HARBOR n1 = nd_HARBOR n" "nd_ctx n1 = nd_ctx n" "nd_H n1 = nd_H n" by blast
  have s: "msg_source m = 0 \<or> skynet_harbor_message_isremote (msg_source m) n1 = Inr False"
    using h(3) n1(6) by (simp add: drop_source_ok_def skynet_harbor_message_isremote_def)
  have ty: "PTYPE_ERROR AND PTYPE_TAG_ALLOCSESSION = 0" by simp
  have hb: "nd_HARBOR n1 \<noteq> NOT 0" using h(2) n1(6) by simp
  from send_null [OF n1(2) h(1) ty hb s, of None 0] obtain mq' r where
    mq': "skynet_send None handle (msg_source m) PTYPE_ERROR 0 None 0 n1 = Inr (n1\<lparr>nd_mq := mq'\<rparr>, r)"
      "node_ok (n1\<lparr>nd_mq := mq'\<rparr>)" "undisturbed (nd_mq n1) mq'"
      "inbox (n1\<lparr>nd_mq := mq'\<rparr>) = bounce handle m (inbox n1)" by (auto simp: bounce_def)
  have "drop_message handle m n = Inr (n1\<lparr>nd_mq := mq'\<rparr>)"
    unfolding drop_message_def using n1(1) h(1) mq'(1) by simp
  with mq' n1 show ?thesis by simp
qed


lemma drop_source_ok_same: "nd_HARBOR n' = nd_HARBOR n \<Longrightarrow> drop_source_ok n' m = drop_source_ok n m"
  by (simp add: drop_source_ok_def skynet_harbor_message_isremote_def)

lemma node_ok_free_mq:
  assumes ok: "node_ok n" and q: "mstat (nd_mq n) q = Some (k, True)" "gq_adm q (nd_mq n)"
  shows "\<exists>mq'. mq_free q (nd_mq n) = Inr mq' \<and> node_ok (n\<lparr>nd_mq := mq'\<rparr>) \<and> mqs mq' = (mqs (nd_mq n))(q := None) \<and>
    inbox (n\<lparr>nd_mq := mq'\<rparr>) = inbox n"
proof -
  obtain ps where bx: "boxes_ok (nd_mq n) ps" using ok by (auto simp: node_ok_def)
  then have rep: "gq_rep (nd_mq n) ps" by (simp add: boxes_ok_def)
  have out: "q \<notin> set ps" using q(2) gq_adm_iff [OF rep] by simp
  let ?mq = "(nd_mq n)\<lparr>mqs := (mqs (nd_mq n))(q := None)\<rparr>"
  have free: "mq_free q (nd_mq n) = Inr ?mq"
    using q(2) by (auto simp: mq_free_def gq_adm_def get_mq_def)
  have bx': "boxes_ok ?mq ps" using bx gq_rep_free [OF rep out] by (auto simp: boxes_ok_def)
  have other: "mstat ?mq r = mstat (nd_mq n) r \<and> mbox ?mq r = mbox (nd_mq n) r" if "mstat (nd_mq n) r = Some (j, False)" for r j
    using that q(1) by (auto simp: mstat_def mbox_def)
  have hof: "hof_of (n\<lparr>nd_mq := ?mq\<rparr>) = hof_of n" by (simp add: hof_of_def fun_eq_iff)
  have "ctx_ok (n\<lparr>nd_mq := ?mq\<rparr>)" using ok other by (auto simp: node_ok_def ctx_ok_def)
  then have "node_ok (n\<lparr>nd_mq := ?mq\<rparr>)" using ok bx' by (auto simp: node_ok_def hof fresh_ok_def)
  moreover have "inbox (n\<lparr>nd_mq := ?mq\<rparr>) = inbox n"
    by (rule inbox_foreign [OF ok]) (use other in blast)
  ultimately show ?thesis using free by auto
qed

lemma drop_queue_spec:
  "node_ok n \<Longrightarrow> mbox (nd_mq n) q = Some ms \<Longrightarrow> mstat (nd_mq n) q = Some (k, True) \<Longrightarrow> gq_adm q (nd_mq n) \<Longrightarrow>
   handle \<noteq> 0 \<Longrightarrow> nd_HARBOR n \<noteq> NOT 0 \<Longrightarrow> \<forall>m \<in> set ms. drop_source_ok n m \<Longrightarrow>
   distinct (datas ms) \<Longrightarrow> \<forall>p \<in> set (datas ms). nd_bufs n p \<noteq> None \<Longrightarrow> length ms < fuel \<Longrightarrow>
   \<exists>n'. drop_queue fuel q handle n = Inr n' \<and> node_ok n' \<and> mqs (nd_mq n') q = None \<and>
     nd_bufs n' = (\<lambda>p. if p \<in> set (datas ms) then None else nd_bufs n p) \<and>
     inbox n' = fold (bounce handle) ms (inbox n) \<and> nd_ctx n' = nd_ctx n \<and> nd_H n' = nd_H n"
proof (induction ms arbitrary: n fuel)
  case Nil
  obtain f where f: "fuel = Suc f" using Nil.prems(10) by (cases fuel) auto
  obtain ps where bx: "boxes_ok (nd_mq n) ps" using Nil.prems(1) by (auto simp: node_ok_def)
  from boxes_pop_nil [OF bx Nil.prems(2)] Nil.prems(3) obtain h where
    h: "mq_pop_at q (nd_mq n) = Inr (h, None)" "boxes_ok h ps" "mbox h = mbox (nd_mq n)" "mstat h = mstat (nd_mq n)"
      "\<forall>r. gq_adm r (nd_mq n) \<longrightarrow> gq_adm r h" by blast
  let ?n = "n\<lparr>nd_mq := h\<rparr>"
  have ok: "node_ok ?n" by (rule node_ok_mq [OF Nil.prems(1) h(2,4)])
  have ib: "inbox ?n = inbox n" by (rule inbox_foreign [OF Nil.prems(1)]) (simp add: h(3))
  have "mstat (nd_mq ?n) q = Some (k, True)" "gq_adm q (nd_mq ?n)" using h Nil.prems by simp_all
  from node_ok_free_mq [OF ok this] obtain mq' where "mq_free q h = Inr mq'" "node_ok (n\<lparr>nd_mq := mq'\<rparr>)"
    "mqs mq' q = None" "inbox (n\<lparr>nd_mq := mq'\<rparr>) = inbox n" using ib by auto
  with h(1) show ?case by (simp add: f on_mq_def)
next
  case (Cons m ms)
  obtain f where f: "fuel = Suc f" "length ms < f" using Cons.prems(10) by (cases fuel) auto
  obtain ps where bx: "boxes_ok (nd_mq n) ps" using Cons.prems(1) by (auto simp: node_ok_def)
  from boxes_pop_cons [OF bx Cons.prems(2)] obtain h where
    h: "mq_pop_at q (nd_mq n) = Inr (h, Some m)" "boxes_ok h ps" "mbox h = (mbox (nd_mq n))(q \<mapsto> ms)"
      "mstat h = mstat (nd_mq n)" "\<forall>r. gq_adm r (nd_mq n) \<longrightarrow> gq_adm r h" by blast
  let ?n = "n\<lparr>nd_mq := h\<rparr>"
  have ok: "node_ok ?n" by (rule node_ok_mq [OF Cons.prems(1) h(2,4)])
  have ib: "inbox ?n = inbox n"
    by (rule inbox_foreign [OF Cons.prems(1)]) (use Cons.prems(3) in \<open>auto simp: h(3)\<close>)
  have src: "drop_source_ok ?n m" using Cons.prems(7) drop_source_ok_same [of ?n n] by simp
  have d: "\<forall>p \<in> set (datas [m]). nd_bufs ?n p \<noteq> None" using Cons.prems(9) by (auto split: option.splits)
  have hb: "nd_HARBOR ?n \<noteq> NOT 0" using Cons.prems(6) by simp
  from drop_message_spec [OF ok Cons.prems(5) hb src d] obtain n1 where
    n1: "drop_message handle m ?n = Inr n1" "node_ok n1" "inbox n1 = bounce handle m (inbox ?n)"
      "nd_bufs n1 = (\<lambda>p. if p \<in> set (datas [m]) then None else nd_bufs ?n p)" "undisturbed h (nd_mq n1)"
      "nd_HARBOR n1 = nd_HARBOR n" "nd_ctx n1 = nd_ctx n" "nd_H n1 = nd_H n" by auto
  have st: "mstat h q = Some (k, True)" using h(4) Cons.prems(3) by simp
  have q: "mbox (nd_mq n1) q = Some ms" "mstat (nd_mq n1) q = Some (k, True)" "gq_adm q (nd_mq n1)"
    using n1(5) st h(3,5) Cons.prems(4) by (auto simp: undisturbed_def)
  have hb1: "nd_HARBOR n1 \<noteq> NOT 0" using hb n1(6) by simp
  have src1: "\<forall>m \<in> set ms. drop_source_ok n1 m" using Cons.prems(7) drop_source_ok_same [OF n1(6)] by simp
  have dist: "distinct (datas ms)" "set (datas [m]) \<inter> set (datas ms) = {}"
    "set (datas (m # ms)) = set (datas [m]) \<union> set (datas ms)"
    using Cons.prems(8) by (auto split: option.splits)
  have al: "\<forall>p \<in> set (datas ms). nd_bufs n1 p \<noteq> None"
    using Cons.prems(9) dist(2,3) unfolding n1(4) by auto
  from Cons.IH [OF n1(2) q Cons.prems(5) hb1 src1 dist(1) al f(2)] obtain n' where
    n': "drop_queue f q handle n1 = Inr n'" "node_ok n'" "mqs (nd_mq n') q = None"
      "nd_bufs n' = (\<lambda>p. if p \<in> set (datas ms) then None else nd_bufs n1 p)"
      "inbox n' = fold (bounce handle) ms (inbox n1)" "nd_ctx n' = nd_ctx n1" "nd_H n' = nd_H n1" by blast
  have "drop_queue fuel q handle n = Inr n'" using h(1) n1(1) n'(1) by (simp add: f(1))
  moreover have "nd_bufs n' = (\<lambda>p. if p \<in> set (datas (m # ms)) then None else nd_bufs n p)"
    unfolding n'(4) n1(4) dist(3) by (auto simp: fun_eq_iff)
  moreover have "inbox n' = fold (bounce handle) (m # ms) (inbox n)" by (simp add: n'(5) n1(3) ib)
  ultimately show ?case using n' n1 by simp
qed

end
