(* ===== verification/Lifecycle.thy ===== *)
theory Lifecycle
  imports Delivery
begin

text \<open>
  The life of a service: construction, the two ends of a launch, retirement of a handle, and
  the dispatch of a mailbox whose service is gone, all against the view of
  \<open>Delivery\<close>.
\<close>

lemma mstat_None: "mstat h p = None \<longleftrightarrow> mqs h p = None"
  by (simp add: mstat_def)

section \<open>Retirement\<close>

lemma find_after_retire:
  assumes "retire_post hof s h s'" "hof c = Some h"
  shows "Some c \<notin> set (hs_slot s')"
proof
  assume "Some c \<in> set (hs_slot s')"
  moreover have ok: "hs_ok hof s'" and f: "hs_find hof s' = (hs_find hof s)(h := None)"
    using assms(1) by (auto simp: retire_post_def)
  ultimately obtain g where g: "hs_find hof s' g = Some c" using hs_in_slot by blast
  from hs_find_handle [OF g] assms(2) have "g = h" by simp
  with g f show False by simp
qed

text \<open>Retiring a handle nobody else holds deletes the context and hands its mailbox over to the workers.\<close>

lemma retire_last:
  assumes ok: "node_ok n" and f: "hs_find (hof_of n) (nd_H n) h = Some c" and x: "nd_ctx n c = Some x" "cx_ref x = 1"
    and bx: "boxes_ok (nd_mq n) ps"
  shows "\<exists>n' ps'. handle_retire h n = Inr (n', True) \<and> node_ok n' \<and> boxes_ok (nd_mq n') ps' \<and>
    inbox n' = (inbox n)(h := None) \<and> nd_ctx n' = (nd_ctx n)(c := None) \<and> nd_bufs n' = nd_bufs n \<and>
    nd_HARBOR n' = nd_HARBOR n \<and> nd_total n' = nd_total n - 1 \<and>
    mbox (nd_mq n') = mbox (nd_mq n) \<and> mstat (nd_mq n') = (mstat (nd_mq n))(cx_queue x \<mapsto> (h, True)) \<and>
    (if mq_in_global (the (mqs (nd_mq n) (cx_queue x))) then ps' = ps else ps' = ps @ [cx_queue x])"
proof -
  have hs: "hs_ok (hof_of n) (nd_H n)" and nm: "names_ok (nd_H n)" using ok by (auto simp: node_ok_def)
  have hx: "cx_handle x = h" using find_ctx [OF f] x by auto
  have ctxs: "ctx_ok n" using ok by (simp add: node_ok_def)
  have st: "mstat (nd_mq n) (cx_queue x) = Some (h, False)" using ctxs x hx by (auto simp: ctx_ok_def)
  from handle_retire_spec [OF hs f] obtain H' where
    H': "skynet_handle_retire (hof_of n) h (nd_H n) = Inr (H', Some c)" "retire_post (hof_of n) (nd_H n) h H'" by blast
  from st obtain q where q: "mqs (nd_mq n) (cx_queue x) = Some q" "\<not> mq_release q" "mq_handle q = h"
    by (auto simp: mstat_def)
  from boxes_mark [OF bx q(1,2)] obtain mq' ps' where
    mq': "skynet_mq_mark_release (cx_queue x) (nd_mq n) = Inr mq'" "boxes_ok mq' ps'" "mbox mq' = mbox (nd_mq n)"
      "mstat mq' = (mstat (nd_mq n))(cx_queue x \<mapsto> (h, True))"
      "mq_in_global q \<longrightarrow> ps' = ps" "\<not> mq_in_global q \<longrightarrow> ps' = ps @ [cx_queue x]" unfolding q(3) by blast
  define ev where "ev = nd_events (skynet_module_instance_release (cx_mod x) (cx_instance x)
    (case cx_logfile x of None \<Rightarrow> n | Some fd \<Rightarrow> n\<lparr>nd_events := nd_events n @ [CloseFile fd]\<rparr>))"
  let ?n = "n\<lparr>nd_H := H', nd_mq := mq', nd_ctx := (nd_ctx n)(c := None), nd_total := nd_total n - 1, nd_events := ev\<rparr>"
  have run: "handle_retire h n = Inr (?n, True)"
    using H'(1) x mq'(1)
    by (cases "cx_logfile x"; cases "m_release (M_m (nd_M n) ! cx_mod x)")
      (simp_all add: handle_retire_def skynet_context_release_def delete_context_def get_ctx_def put_ctx_def on_mq_def
        context_dec_def skynet_module_instance_release_def ev_def Let_def)
  have "Some c \<notin> set (hs_slot H')" by (rule find_after_retire [OF H'(2)]) (simp add: hof_of_def x hx)
  then have frame: "hs_ok (hof_of ?n) H' \<and> hs_find (hof_of ?n) H' = hs_find (hof_of n) H'"
    using H'(2) by (intro hs_ok_frame) (auto simp: retire_post_def hof_of_def)
  then have find: "hs_find (hof_of ?n) H' = (hs_find (hof_of n) (nd_H n))(h := None)"
    using H'(2) by (simp add: retire_post_def)
  have names: "names_ok H'" by (rule names_ok_filter [OF nm]) (use H'(2) in \<open>simp add: retire_post_def\<close>)
  have "ctx_ok ?n" unfolding ctx_ok_def
  proof (intro conjI allI impI)
    fix d y assume "nd_ctx ?n d = Some y"
    then have d: "d \<noteq> c" "nd_ctx n d = Some y" by (auto split: if_splits)
    with ctxs x have "cx_queue y \<noteq> cx_queue x" by (auto simp: ctx_ok_def)
    with ctxs d show "0 < cx_ref y" "mstat (nd_mq ?n) (cx_queue y) = Some (cx_handle y, False)"
      by (auto simp: ctx_ok_def mq'(4))
  next
    fix d e y z assume "nd_ctx ?n d = Some y" "nd_ctx ?n e = Some z" "cx_queue y = cx_queue z"
    with ctxs show "d = e" by (auto simp: ctx_ok_def split: if_splits)
  qed
  moreover have "fresh_ok ?n"
  proof -
    have "mqs mq' p = None" if "mqs (nd_mq n) p = None" for p
      using that q(1) fun_cong [OF mq'(4), of p] by (auto simp: mstat_def split: if_splits)
    with ok show ?thesis by (auto simp: node_ok_def fresh_ok_def)
  qed
  ultimately have ok': "node_ok ?n" using frame names mq'(2) by (auto simp: node_ok_def)
  have "inbox ?n g = ((inbox n)(h := None)) g" for g
  proof (cases "g = h")
    case True
    then show ?thesis by (simp add: inbox_def find)
  next
    case False
    show ?thesis
    proof (cases "hs_find (hof_of n) (nd_H n) g")
      case (Some d)
      have "d \<noteq> c" using ht.find_inj [OF Some] f False by auto
      with False Some show ?thesis by (simp add: inbox_def find mq'(3))
    qed (use False in \<open>simp add: inbox_def find\<close>)
  qed
  then have "inbox ?n = (inbox n)(h := None)" by auto
  with run ok' mq' q(1) show ?thesis by (intro exI [of _ ?n] exI [of _ ps']) simp
qed

lemma retire_unknown:
  assumes "node_ok n" "inbox n h = None"
  shows "handle_retire h n = Inr (n, False)"
  using assms inbox_None [OF assms(1)] handle_retire_none [of "hof_of n" "nd_H n" h]
  by (simp add: handle_retire_def node_ok_def)

text \<open>While another holder has a reference, retiring only takes the service out of the table.\<close>

lemma retire_held:
  assumes ok: "node_ok n" and f: "hs_find (hof_of n) (nd_H n) h = Some c" and x: "nd_ctx n c = Some x" "1 < cx_ref x"
  shows "\<exists>n'. handle_retire h n = Inr (n', True) \<and> node_ok n' \<and> inbox n' = (inbox n)(h := None) \<and>
    nd_ctx n' = (nd_ctx n)(c \<mapsto> x\<lparr>cx_ref := cx_ref x - 1\<rparr>) \<and> nd_mq n' = nd_mq n \<and> nd_bufs n' = nd_bufs n"
proof -
  have hs: "hs_ok (hof_of n) (nd_H n)" and nm: "names_ok (nd_H n)" using ok by (auto simp: node_ok_def)
  have hx: "cx_handle x = h" using find_ctx [OF f] x by auto
  from handle_retire_spec [OF hs f] obtain H' where
    H': "skynet_handle_retire (hof_of n) h (nd_H n) = Inr (H', Some c)" "retire_post (hof_of n) (nd_H n) h H'" by blast
  let ?n = "(put_ctx c (x\<lparr>cx_ref := cx_ref x - 1\<rparr>) n)\<lparr>nd_H := H'\<rparr>"
  have eq: "put_ctx c (x\<lparr>cx_ref := cx_ref x - 1\<rparr>) (n\<lparr>nd_H := H'\<rparr>) = ?n" by (simp add: put_ctx_def)
  have run: "handle_retire h n = Inr (?n, True)"
    using H'(1) x by (simp add: handle_retire_def skynet_context_release_def get_ctx_def eq)
  have hof: "hof_of ?n = hof_of n" using x by (auto simp: hof_of_def)
  have names: "names_ok H'" by (rule names_ok_filter [OF nm]) (use H'(2) in \<open>simp add: retire_post_def\<close>)
  have "ctx_ok ?n" using ok x by (auto simp: node_ok_def ctx_ok_def split: if_splits)
  moreover have "fresh_ok ?n" using ok x by (auto simp: node_ok_def fresh_ok_def)
  ultimately have "node_ok ?n" using ok H'(2) names by (auto simp: node_ok_def hof retire_post_def)
  moreover have "inbox ?n = (inbox n)(h := None)"
  proof
    fix g
    have "hs_find (hof_of n) H' = (hs_find (hof_of n) (nd_H n))(h := None)" using H'(2) by (simp add: retire_post_def)
    then show "inbox ?n g = ((inbox n)(h := None)) g" using x
      by (auto simp: inbox_def hof split: Option.bind_splits)
  qed
  ultimately show ?thesis using run by auto
qed

section \<open>A mailbox whose service is gone\<close>

lemma mq_release_bounces:
  assumes ok: "node_ok n" and q: "mbox (nd_mq n) q = Some ms" "mstat (nd_mq n) q = Some (h, True)" "gq_adm q (nd_mq n)"
    and h: "h \<noteq> 0" "nd_HARBOR n \<noteq> NOT 0" "\<forall>m \<in> set ms. drop_source_ok n m"
    and d: "distinct (datas ms)" "\<forall>p \<in> set (datas ms). nd_bufs n p \<noteq> None"
  shows "\<exists>n'. skynet_mq_release q h n = Inr n' \<and> node_ok n' \<and> mqs (nd_mq n') q = None \<and>
     nd_bufs n' = (\<lambda>p. if p \<in> set (datas ms) then None else nd_bufs n p) \<and>
     inbox n' = fold (bounce h) ms (inbox n) \<and> nd_ctx n' = nd_ctx n \<and> nd_H n' = nd_H n"
proof -
  obtain mq where mq: "mqs (nd_mq n) q = Some mq" "mq_release mq" "mq_list mq = ms"
    using q(1,2) by (auto simp: mbox_def mstat_def)
  obtain ps where "boxes_ok (nd_mq n) ps" using ok by (auto simp: node_ok_def)
  with mq have "mq_rep mq ms" by (auto simp: boxes_ok_def mq_rep_def)
  then have "skynet_mq_length mq = length ms" by (rule mq_rep_length)
  then have "skynet_mq_release q h n = drop_queue (Suc (length ms)) q h n"
    using mq by (simp add: skynet_mq_release_def get_mq_def)
  with drop_queue_spec [OF ok q h d, of "Suc (length ms)"] show ?thesis by simp
qed

section \<open>Construction\<close>

lemma setup_spec:
  assumes ok: "node_ok n" and room: "hs_room (nd_H n)"
  shows "\<exists>n' c q h. context_setup md inst n = Inr (n', c) \<and> node_ok n' \<and> inbox n h = None \<and> h \<noteq> 0 \<and>
    inbox n' = (inbox n)(h \<mapsto> []) \<and> c = nd_fresh n \<and> hs_find (hof_of n') (nd_H n') h = Some c \<and>
    nd_ctx n' = (nd_ctx n)(c \<mapsto> (new_context md inst (nd_profile n))\<lparr>cx_handle := h, cx_queue := q\<rparr>) \<and>
    mqs (nd_mq n') q = Some (mq_new h) \<and> mqs (nd_mq n) q = None \<and> gq_adm q (nd_mq n') \<and> nd_bufs n' = nd_bufs n \<and>
    nd_total n' = nd_total n + 1 \<and> drop_bit 24 h = drop_bit 24 (hs_harbor (nd_H n)) \<and>
    nd_HARBOR n' = nd_HARBOR n \<and> nd_logger n' = nd_logger n \<and> hs_names (nd_H n') = hs_names (nd_H n) \<and>
    nd_mq n' = skynet_mq_create h q (nd_mq n) \<and> nd_REMOTE n' = nd_REMOTE n \<and> nd_fresh n' = nd_fresh n + 2 \<and>
    hs_find (hof_of n') (nd_H n') = (hs_find (hof_of n) (nd_H n))(h \<mapsto> c) \<and>
    unat (hs_handle_index (nd_H n)) \<le> unat (take_bit 24 h) \<and> unat (take_bit 24 h) < unat (hs_handle_index (nd_H n'))"
proof -
  let ?c = "nd_fresh n" and ?q = "nd_fresh n + 1"
  let ?x0 = "new_context md inst (nd_profile n)"
  let ?n1 = "put_ctx ?c ?x0 (n\<lparr>nd_fresh := nd_fresh n + 1\<rparr>)"
  have hs: "hs_ok (hof_of n) (nd_H n)" and nm: "names_ok (nd_H n)" and ctxs: "ctx_ok n" using ok by (auto simp: node_ok_def)
  have fr: "nd_ctx n p = None" "nd_bufs n p = None" "mqs (nd_mq n) p = None" if "nd_fresh n \<le> p" for p
    using ok that by (auto simp: node_ok_def fresh_ok_def)
  have notin: "Some ?c \<notin> set (hs_slot (nd_H n))"
  proof
    assume "Some ?c \<in> set (hs_slot (nd_H n))"
    from hs_in_slot [OF hs this] obtain h where h: "hs_find (hof_of n) (nd_H n) h = Some ?c" by blast
    from find_ctx [OF h] fr(1) [OF order_refl] show False by simp
  qed
  have f1: "hs_ok (hof_of ?n1) (nd_H n) \<and> hs_find (hof_of ?n1) (nd_H n) = hs_find (hof_of n) (nd_H n)"
    by (rule hs_ok_frame [OF hs]) (use notin in \<open>auto simp: hof_of_def\<close>)
  from handle_register_spec [OF conjunct1 [OF f1] notin room] obtain h H' where
    H': "skynet_handle_register (hof_of ?n1) ?c (nd_H n) = Inr (h, H')"
    and post: "register_post (hof_of ?n1) ?c (nd_H n) h H'" by blast
  let ?x = "?x0\<lparr>cx_handle := h, cx_queue := ?q\<rparr>"
  let ?n = "n\<lparr>nd_fresh := nd_fresh n + 2, nd_H := H', nd_mq := put_mq ?q (mq_new h) (nd_mq n),
             nd_ctx := (nd_ctx n)(?c \<mapsto> ?x), nd_total := nd_total n + 1\<rparr>"
  have run: "context_setup md inst n = Inr (?n, ?c)"
    using H' by (simp add: context_setup_def upd_ctx_def get_ctx_def put_ctx_def skynet_mq_create_def context_inc_def Let_def)
  have hof: "hof_of ?n = (hof_of ?n1)(?c \<mapsto> h)" by (auto simp: hof_of_def)
  have hs': "hs_ok (hof_of ?n) H'" and find': "hs_find (hof_of ?n) H' = (hs_find (hof_of n) (nd_H n))(h \<mapsto> ?c)"
    and none: "hs_find (hof_of n) (nd_H n) h = None" and pos: "take_bit 24 h \<noteq> 0"
    using post f1 unfolding hof register_post_def by simp_all
  have nms: "hs_names H' = hs_names (nd_H n)" using post by (simp add: register_post_def hs_names_def)
  then have nm': "names_ok H'" using nm by (simp add: names_ok_def)
  have hb: "drop_bit 24 h = drop_bit 24 (hs_harbor (nd_H n))" using post by (simp add: register_post_def)
  obtain ps where bx: "boxes_ok (nd_mq n) ps" using ok by (auto simp: node_ok_def)
  have qout: "?q \<notin> set ps" using bx fr(3) [of ?q] gq_rep_allocated by (fastforce simp: boxes_ok_def)
  have rep': "gq_rep (put_mq ?q (mq_new h) (nd_mq n)) ps"
    by (rule gq_rep_outside [OF _ qout]) (use bx in \<open>simp_all add: boxes_ok_def mq_new_def\<close>)
  have bx': "boxes_ok (put_mq ?q (mq_new h) (nd_mq n)) ps"
    using bx rep' mq_new_rep [of h] by (auto simp: boxes_ok_def mq_new_def)
  have adm: "gq_adm ?q (nd_mq ?n)" using gq_adm_iff [OF rep', of ?q] qout by simp
  have "ctx_ok ?n" unfolding ctx_ok_def
  proof (intro conjI allI impI)
    fix d y assume "nd_ctx ?n d = Some y"
    then have "y = ?x \<or> nd_ctx n d = Some y" by (cases "d = ?c") simp_all
    then consider (new) "y = ?x" | (old) "nd_ctx n d = Some y" by (rule disjE)
    then have "0 < cx_ref y \<and> mstat (nd_mq ?n) (cx_queue y) = Some (cx_handle y, False)"
    proof cases
      case new
      then show ?thesis by (simp add: new_context_def mstat_def mq_new_def)
    next
      case old
      with ctxs have st: "mstat (nd_mq n) (cx_queue y) = Some (cx_handle y, False)" "0 < cx_ref y" by (auto simp: ctx_ok_def)
      then have "cx_queue y \<noteq> ?q" using fr(3) [of ?q] by (auto simp: mstat_def)
      with st show ?thesis by (simp add: mstat_def)
    qed
    then show "0 < cx_ref y" "mstat (nd_mq ?n) (cx_queue y) = Some (cx_handle y, False)" by simp_all
  next
    fix d e y z assume a: "nd_ctx ?n d = Some y" "nd_ctx ?n e = Some z" "cx_queue y = cx_queue z"
    have "cx_queue w \<noteq> ?q" if "nd_ctx n r = Some w" for r w
    proof
      assume q: "cx_queue w = ?q"
      from ctxs that have "mstat (nd_mq n) (cx_queue w) \<noteq> None" by (simp add: ctx_ok_def)
      then have "mstat (nd_mq n) ?q \<noteq> None" unfolding q .
      with fr(3) [of ?q] show False by (simp add: mstat_def)
    qed
    note other = this
    have new: "cx_queue ?x = ?q" by simp
    show "d = e"
    proof (cases "d = ?c \<or> e = ?c")
      case True
      then show ?thesis using a other [of e z] other [of d y] by (cases "d = ?c"; cases "e = ?c") auto
    next
      case False
      with a ctxs show ?thesis by (auto simp: ctx_ok_def)
    qed
  qed
  moreover have "fresh_ok ?n" using fr by (auto simp: fresh_ok_def)
  ultimately have ok': "node_ok ?n" using hs' nm' bx' by (auto simp: node_ok_def)
  have findn: "hs_find (hof_of ?n) (nd_H ?n) = (hs_find (hof_of n) (nd_H n))(h \<mapsto> ?c)" using find' by simp
  have "inbox ?n g = ((inbox n)(h \<mapsto> [])) g" for g
  proof (cases "g = h")
    case True
    then show ?thesis unfolding inbox_def findn using mq_rep_list [OF mq_new_rep [of h]] by (simp add: mbox_def)
  next
    case False
    show ?thesis
    proof (cases "hs_find (hof_of n) (nd_H n) g")
      case (Some d)
      from find_ctx [OF this] obtain y where y: "nd_ctx n d = Some y" by blast
      have "d \<noteq> ?c" using y fr(1) [of ?c] by auto
      moreover have "cx_queue y \<noteq> ?q" using ctxs y fr(3) [of ?q] by (force simp: ctx_ok_def mstat_def)
      ultimately show ?thesis unfolding inbox_def findn using Some y False by (simp add: mbox_def)
    next
      case None
      with False show ?thesis unfolding inbox_def findn by simp
    qed
  qed
  then have ib: "inbox ?n = (inbox n)(h \<mapsto> [])" by auto
  have "inbox n h = None" using none by (simp add: inbox_def)
  moreover have "h \<noteq> 0" using pos by auto
  ultimately show ?thesis
    using run ok' ib find' adm fr(3) [of ?q] nms hb post
    by (intro exI [of _ ?n] exI [of _ ?c] exI [of _ ?q] exI [of _ h]) (simp add: skynet_mq_create_def register_post_def)
qed

section \<open>The two ends of a launch\<close>

lemma node_ok_put:
  assumes ok: "node_ok n" and x: "nd_ctx n c = Some x"
    and y: "cx_handle y = cx_handle x" "cx_queue y = cx_queue x" "0 < cx_ref y"
  shows "node_ok (put_ctx c y n)" "inbox (put_ctx c y n) = inbox n" "hof_of (put_ctx c y n) = hof_of n"
proof -
  show hof: "hof_of (put_ctx c y n) = hof_of n" using x y by (auto simp: hof_of_def)
  have "ctx_ok (put_ctx c y n)" using ok x y by (auto simp: node_ok_def ctx_ok_def split: if_splits)
  moreover have "fresh_ok (put_ctx c y n)" using ok x by (auto simp: node_ok_def fresh_ok_def)
  ultimately show "node_ok (put_ctx c y n)" using ok by (simp add: node_ok_def hof)
  show "inbox (put_ctx c y n) = inbox n"
  proof
    fix g show "inbox (put_ctx c y n) g = inbox n g"
      using x y by (cases "hs_find (hof_of n) (nd_H n) g") (auto simp: inbox_def hof)
  qed
qed

lemma release_held:
  assumes "nd_ctx n c = Some x" "cx_ref x \<noteq> 1"
  shows "skynet_context_release c n = Inr (put_ctx c (x\<lparr>cx_ref := cx_ref x - 1\<rparr>) n, True)"
  using assms by (simp add: skynet_context_release_def get_ctx_Some Let_def)

text \<open>What holds of a service between its construction and the call of \<open>launch_finish\<close>.\<close>

definition launching :: "node \<Rightarrow> ptr \<Rightarrow> u32 \<Rightarrow> bool" where
  "launching n c h \<longleftrightarrow> node_ok n \<and> hs_find (hof_of n) (nd_H n) h = Some c \<and> nd_ctx n c \<noteq> None \<and>
     cx_ref (the (nd_ctx n c)) = 2 \<and> h \<noteq> 0 \<and>
     mglob (nd_mq n) (cx_queue (the (nd_ctx n c))) = Some True \<and> gq_adm (cx_queue (the (nd_ctx n c))) (nd_mq n)"

lemma setup_launching:
  assumes "node_ok n" "hs_room (nd_H n)"
  shows "\<exists>n' c h. context_setup md inst n = Inr (n', c) \<and> launching n' c h \<and> inbox n' = (inbox n)(h \<mapsto> [])"
  using setup_spec [OF assms, of md inst]
  by (auto simp: launching_def new_context_def mglob_def mq_new_def)

lemma launch_success:
  assumes l: "launching n c h"
  shows "\<exists>n'. launch_finish name param c (cx_queue (the (nd_ctx n c))) 0 n = Inr (n', Some c) \<and> node_ok n' \<and>
    cx_init (the (nd_ctx n' c)) \<and> cx_ref (the (nd_ctx n' c)) = 1 \<and>
    dom (inbox n') = dom (inbox n) \<and> (\<forall>g. g \<noteq> logger_of n \<longrightarrow> inbox n' g = inbox n g) \<and>
    (\<exists>ps. boxes_ok (nd_mq n') ps \<and> cx_queue (the (nd_ctx n c)) \<in> set ps)"
proof -
  obtain x where x: "nd_ctx n c = Some x" "cx_ref x = 2" using l by (auto simp: launching_def)
  let ?q = "cx_queue x"
  have ok: "node_ok n" and f: "hs_find (hof_of n) (nd_H n) h = Some c" and g: "mglob (nd_mq n) ?q = Some True" "gq_adm ?q (nd_mq n)"
    using l x by (auto simp: launching_def)
  let ?y = "x\<lparr>cx_ref := 1, cx_init := True\<rparr>"
  let ?n1 = "put_ctx c ?y n"
  have rel: "skynet_context_release c n = Inr (put_ctx c (x\<lparr>cx_ref := 1\<rparr>) n, True)"
    using release_held [OF x(1)] x(2) by simp
  have ini: "upd_ctx c (\<lambda>x. x\<lparr>cx_init := True\<rparr>) (put_ctx c (x\<lparr>cx_ref := 1\<rparr>) n) = Inr ?n1"
    by (simp add: upd_ctx_def get_ctx_def put_ctx_def)
  have ok1: "node_ok ?n1" "inbox ?n1 = inbox n" by (rule node_ok_put [OF ok x(1)]; simp)+
  obtain ps where bx: "boxes_ok (nd_mq ?n1) ps" using ok1(1) by (auto simp: node_ok_def)
  from boxes_schedule [OF bx, of ?q] g obtain mq' where mq': "skynet_globalmq_push ?q (nd_mq n) = Inr mq'"
    "boxes_ok mq' (ps @ [?q])" "mbox mq' = mbox (nd_mq n)" "mstat mq' = mstat (nd_mq n)" by auto
  let ?n2 = "?n1\<lparr>nd_mq := mq'\<rparr>"
  have ok2: "node_ok ?n2" by (rule node_ok_mq [OF ok1(1) mq'(2)]) (simp add: mq'(4))
  have ib2: "inbox ?n2 = inbox n" using inbox_foreign [OF ok1(1), of mq'] mq'(3) ok1(2) by simp
  have live: "live_ctx (Some c) ?n2" by (simp add: live_ctx_def)
  have lg: "logger_of ?n2 = logger_of n" by (simp add: logger_of_def put_ctx_def)
  from error_spec [OF ok2 live, of "''LAUNCH '' @ name @ '' '' @ (case param of None \<Rightarrow> [] | Some p \<Rightarrow> p)"] obtain n3 where
    n3: "skynet_error (Some c) (''LAUNCH '' @ name @ '' '' @ (case param of None \<Rightarrow> [] | Some p \<Rightarrow> p)) ?n2 = Inr n3"
      "node_ok n3" "nd_ctx n3 = nd_ctx ?n2" "undisturbed (nd_mq ?n2) (nd_mq n3)" "nd_H n3 = nd_H ?n2"
      and ib3: "inbox n3 = inbox ?n2 \<or> (\<exists>m. inbox n3 = deliver (logger_of n) m (inbox ?n2))"
    unfolding lg by (auto split: if_splits)
  have run: "launch_finish name param c ?q 0 n = Inr (n3, Some c)"
    unfolding launch_finish_def using rel ini mq'(1) n3(1) by (simp add: on_mq_def)
  have dom: "dom (inbox n3) = dom (inbox n)"
  proof -
    have "inbox n3 g = None \<longleftrightarrow> inbox n g = None" for g using ib3 ib2 deliver_dom by metis
    then show ?thesis by (auto simp: dom_def)
  qed
  have other: "inbox n3 g = inbox n g" if "g \<noteq> logger_of n" for g
    using ib3 ib2 that by (auto simp: deliver_def split: option.splits)
  have sched: "\<exists>ps. boxes_ok (nd_mq n3) ps \<and> ?q \<in> set ps"
  proof -
    obtain ps3 where bx3: "boxes_ok (nd_mq n3) ps3" using n3(2) by (auto simp: node_ok_def)
    then have rep3: "gq_rep (nd_mq n3) ps3" by (simp add: boxes_ok_def)
    have rep2: "gq_rep mq' (ps @ [?q])" using mq'(2) by (simp add: boxes_ok_def)
    have al: "mqs mq' ?q \<noteq> None" using gq_rep_allocated [OF rep2, of ?q] by auto
    moreover have "\<not> gq_adm ?q mq'" using gq_adm_iff [OF rep2] by simp
    ultimately have "\<not> gq_adm ?q (nd_mq n3)" using n3(4) by (auto simp: undisturbed_def)
    moreover have "mqs (nd_mq n3) ?q \<noteq> None"
      using n3(4) al by (simp add: undisturbed_def flip: mstat_None)
    ultimately have "?q \<in> set ps3" using gq_adm_iff [OF rep3] by auto
    with bx3 show ?thesis by blast
  qed
  show ?thesis using run n3(2,3) dom other sched x by simp
qed

text \<open>A failed launch takes everything back, and bounces what was sent to the handle meanwhile.\<close>

lemma launch_failure:
  assumes l: "launching n c h" and r: "r \<noteq> 0" and lg: "logger_of n \<noteq> h" and hb: "nd_HARBOR n \<noteq> NOT 0"
    and ms: "inbox n h = Some ms" "\<forall>m \<in> set ms. drop_source_ok n m" "distinct (datas ms)" "\<forall>p \<in> set (datas ms). nd_bufs n p \<noteq> None"
  shows "\<exists>n' ib. launch_finish name param c (cx_queue (the (nd_ctx n c))) r n = Inr (n', None) \<and> node_ok n' \<and>
    nd_ctx n' = (nd_ctx n)(c := None) \<and> mqs (nd_mq n') (cx_queue (the (nd_ctx n c))) = None \<and>
    (ib = inbox n \<or> (\<exists>m. ib = deliver (logger_of n) m (inbox n))) \<and>
    inbox n' = fold (bounce h) ms (ib(h := None)) \<and> (\<forall>p \<in> set (datas ms). nd_bufs n' p = None)"
proof -
  obtain x where x: "nd_ctx n c = Some x" "cx_ref x = 2" using l by (auto simp: launching_def)
  let ?q = "cx_queue x"
  have ok: "node_ok n" and f: "hs_find (hof_of n) (nd_H n) h = Some c" and g: "mglob (nd_mq n) ?q = Some True" "gq_adm ?q (nd_mq n)"
    and h0: "h \<noteq> 0" using l x by (auto simp: launching_def)
  have hx: "cx_handle x = h" using find_ctx [OF f] x by auto
  have live: "live_ctx (Some c) n" using x by (simp add: live_ctx_def)
  from error_spec [OF ok live, of "''FAILED launch '' @ name"] obtain n1 where
    n1: "skynet_error (Some c) (''FAILED launch '' @ name) n = Inr n1" "node_ok n1" "nd_ctx n1 = nd_ctx n" "nd_H n1 = nd_H n"
      "nd_HARBOR n1 = nd_HARBOR n" "undisturbed (nd_mq n) (nd_mq n1)"
    and log: "if logger_of n = 0 then inbox n1 = inbox n \<and> nd_bufs n1 = nd_bufs n
     else nd_bufs n1 = (nd_bufs n)(nd_fresh n \<mapsto> Bytes ((''FAILED launch '' @ name) @ [CHR 0x00])) \<and>
       inbox n1 = deliver (logger_of n) (log_message (case Some c of None \<Rightarrow> 0 | Some p \<Rightarrow> cx_handle (the (nd_ctx n p)))
         (''FAILED launch '' @ name) (nd_fresh n)) (inbox n)" by blast
  have bufs1: "\<forall>p. nd_bufs n p \<noteq> None \<longrightarrow> nd_bufs n1 p \<noteq> None" using log by (auto split: if_splits)
  have ib1: "inbox n1 = inbox n \<or> (\<exists>m. inbox n1 = deliver (logger_of n) m (inbox n))" using log by (auto split: if_splits)
  have hof1: "hof_of n1 = hof_of n" using n1(3) by (simp add: hof_of_def fun_eq_iff)
  have x1: "nd_ctx n1 c = Some x" using x n1(3) by simp
  have "inbox n1 h = inbox n h" using ib1 lg by (auto simp: deliver_def split: option.splits)
  then have mb: "mbox (nd_mq n1) ?q = mbox (nd_mq n) ?q" "mbox (nd_mq n) ?q = Some ms"
    using f x x1 hof1 n1(4) ms(1) by (auto simp: inbox_def)
  then have g1: "mglob (nd_mq n1) ?q = Some True" "gq_adm ?q (nd_mq n1)"
    using n1(6) g by (auto simp: undisturbed_def)
  let ?n2 = "put_ctx c (x\<lparr>cx_ref := 1\<rparr>) n1"
  have rel: "skynet_context_release c n1 = Inr (?n2, True)" using release_held [OF x1] x(2) by simp
  have ok2: "node_ok ?n2" "inbox ?n2 = inbox n1" "hof_of ?n2 = hof_of n1" by (rule node_ok_put [OF n1(2) x1]; simp)+
  obtain ps where bx: "boxes_ok (nd_mq ?n2) ps" using ok2(1) by (auto simp: node_ok_def)
  have f2: "hs_find (hof_of ?n2) (nd_H ?n2) h = Some c" using f ok2(3) hof1 n1(4) by simp
  from retire_last [OF ok2(1) f2 _ _ bx, of "x\<lparr>cx_ref := 1\<rparr>"] g1(1) obtain n3 where
    n3: "handle_retire h ?n2 = Inr (n3, True)" "node_ok n3" "boxes_ok (nd_mq n3) ps" "inbox n3 = (inbox n1)(h := None)"
      "nd_ctx n3 = (nd_ctx n)(c := None)" "nd_bufs n3 = nd_bufs n1" "nd_HARBOR n3 = nd_HARBOR n"
      "mbox (nd_mq n3) = mbox (nd_mq n1)" "mstat (nd_mq n3) = (mstat (nd_mq n1))(?q \<mapsto> (h, True))"
    using ok2(2) n1(3,5) by (auto simp: mglob_def put_ctx_def)
  have rep3: "gq_rep (nd_mq n3) ps" and rep1: "gq_rep (nd_mq n1) ps" using n3(3) bx by (auto simp: boxes_ok_def)
  have "mqs (nd_mq n3) ?q \<noteq> None" using n3(9) by (simp flip: mstat_None)
  moreover have "?q \<notin> set ps" using g1(2) gq_adm_iff [OF rep1] by simp
  ultimately have adm: "gq_adm ?q (nd_mq n3)" using gq_adm_iff [OF rep3] by auto
  have mb3: "mbox (nd_mq n3) ?q = Some ms" using n3(8) mb by simp
  have st3: "mstat (nd_mq n3) ?q = Some (h, True)" using n3(9) by simp
  have hb3: "nd_HARBOR n3 \<noteq> NOT 0" using hb n3(7) by simp
  have src3: "\<forall>m \<in> set ms. drop_source_ok n3 m" using ms(2) drop_source_ok_same [OF n3(7)] by simp
  have al3: "\<forall>p \<in> set (datas ms). nd_bufs n3 p \<noteq> None" using ms(4) bufs1 n3(6) by simp
  from mq_release_bounces [OF n3(2) mb3 st3 adm h0 hb3 src3 ms(3) al3] obtain n4 where
    n4: "skynet_mq_release ?q h n3 = Inr n4" "node_ok n4" "mqs (nd_mq n4) ?q = None"
      "nd_bufs n4 = (\<lambda>p. if p \<in> set (datas ms) then None else nd_bufs n3 p)"
      "inbox n4 = fold (bounce h) ms (inbox n3)" "nd_ctx n4 = nd_ctx n3" by blast
  have "launch_finish name param c ?q r n = Inr (n4, None)"
    using r n1(1) rel n3(1) n4(1) hx by (simp add: launch_finish_def get_ctx_Some [OF x1])
  with n4 n3 ib1 x show ?thesis by (intro exI [of _ n4] exI [of _ "inbox n1"]) auto
qed

section \<open>Properties\<close>

lemma start_node_ok: "node_ok (start_node harbor path profile sec cs now)" (is "node_ok ?n")
proof -
  have hof: "hof_of ?n = (\<lambda>_. None)"
    by (rule ext) (simp add: hof_of_def start_node_def skynet_globalinit_def skynet_harbor_init_def)
  have sel: "nd_H ?n = skynet_handle_init harbor" "nd_mq ?n = skynet_mq_init" "nd_ctx ?n = (\<lambda>_. None)" "nd_bufs ?n = (\<lambda>_. None)"
    by (simp_all add: start_node_def skynet_globalinit_def skynet_harbor_init_def)
  have "boxes_ok skynet_mq_init []" using gq_rep_init by (simp add: boxes_ok_def skynet_mq_init_def)
  then show ?thesis
    using hs_ok_init [of "\<lambda>_. None" harbor] names_ok_init [of harbor]
    by (auto simp: node_ok_def hof sel ctx_ok_def fresh_ok_def skynet_mq_init_def)
qed

lemma start_node_room: "hs_room (nd_H (start_node harbor path profile sec cs now))"
  by (simp add: hs_room_def start_node_def skynet_globalinit_def skynet_harbor_init_def skynet_handle_init_def
      DEFAULT_SLOT_SIZE_def HANDLE_MASK_def)

text \<open>A node with one service that is being launched.\<close>

lemma one_service:
  "\<exists>n c h. launching n c h \<and> inbox n = [h \<mapsto> []] \<and> nd_HARBOR n = 0 \<and> logger_of n = 0 \<and> h \<noteq> 0 \<and>
     skynet_harbor_message_isremote h n = Inr False"
proof -
  let ?n = "start_node 0 [] False 0 0 0"
  have H: "nd_H ?n = skynet_handle_init 0" "nd_HARBOR ?n = 0" "nd_logger ?n = 0"
    by (simp_all add: start_node_def skynet_globalinit_def skynet_harbor_init_def)
  have ib: "inbox ?n = (\<lambda>_. None)" by (rule ext) (simp add: inbox_def H hs_find_init)
  have hb: "drop_bit 24 (hs_harbor (nd_H ?n)) = 0" "hs_names (nd_H ?n) = []"
    unfolding H by (simp_all add: skynet_handle_init_def hs_names_def)
  obtain n' c q h where s: "node_ok n'" "h \<noteq> 0" "inbox n' = [h \<mapsto> []]"
    "hs_find (hof_of n') (nd_H n') h = Some c"
    "nd_ctx n' c = Some ((new_context 0 0 (nd_profile ?n))\<lparr>cx_handle := h, cx_queue := q\<rparr>)"
    "mqs (nd_mq n') q = Some (mq_new h)" "gq_adm q (nd_mq n')" "drop_bit 24 h = 0" "nd_HARBOR n' = 0" "nd_logger n' = 0"
    "hs_names (nd_H n') = []"
    using setup_spec [where n = ?n and md = 0 and inst = 0, OF start_node_ok start_node_room] hb unfolding ib H(2,3) by auto
  have "launching n' c h" using s by (simp add: launching_def new_context_def mglob_def mq_new_def)
  moreover have "logger_of n' = 0" using s(10,11) by (simp add: logger_of_def name_map_def)
  moreover have "h AND NOT HANDLE_MASK = 0"
  proof -
    have "NOT HANDLE_MASK = NOT (mask 24 :: u32)" by (simp add: HANDLE_MASK_def mask_eq_exp_minus_1)
    moreover have "h AND NOT (mask 24) = push_bit 24 (drop_bit 24 h)"
      by (rule bit_word_eqI) (auto simp: bit_simps)
    ultimately have "h AND NOT HANDLE_MASK = push_bit 24 (drop_bit 24 h)" by simp
    then show ?thesis using s(8) by simp
  qed
  then have "skynet_harbor_message_isremote h n' = Inr False"
    using s(9) by (simp add: skynet_harbor_message_isremote_def)
  ultimately show ?thesis using s by blast
qed

section \<open>Sessions\<close>

fun sessions :: "nat \<Rightarrow> skynet_context \<Rightarrow> i32 list" where
  "sessions 0 x = []"
| "sessions (Suc k) x = (let (y, s) = skynet_context_newsession x in s # sessions k y)"

lemma newsession_value:
  assumes "0 \<le> sint (cx_session_id x)"
  shows "sint (snd (skynet_context_newsession x)) = sint (cx_session_id x) mod (2 ^ 31 - 1) + 1"
    and "cx_session_id (fst (skynet_context_newsession x)) = snd (skynet_context_newsession x)"
proof -
  have lt: "sint (cx_session_id x) < 2147483648" using sint_lt [of "cx_session_id x"] by simp
  show "cx_session_id (fst (skynet_context_newsession x)) = snd (skynet_context_newsession x)"
    by (simp add: skynet_context_newsession_def Let_def)
  show "sint (snd (skynet_context_newsession x)) = sint (cx_session_id x) mod (2 ^ 31 - 1) + 1"
  proof (cases "sint (cx_session_id x) = 2147483647")
    case True
    then show ?thesis using sint_succ [OF assms] by (simp add: skynet_context_newsession_def Let_def)
  next
    case False
    with lt assms have "sint (cx_session_id x) mod 2147483647 = sint (cx_session_id x)" by (intro mod_pos_pos_trivial) simp_all
    with False assms sint_succ [OF assms] show ?thesis by (simp add: skynet_context_newsession_def Let_def)
  qed
qed

lemma sessions_nth:
  "0 \<le> sint (cx_session_id x) \<Longrightarrow> i < k \<Longrightarrow>
   length (sessions k x) = k \<and> sint (sessions k x ! i) = (sint (cx_session_id x) + int i) mod (2 ^ 31 - 1) + 1"
proof (induction k arbitrary: x i)
  case (Suc k)
  obtain y s where y: "skynet_context_newsession x = (y, s)" by fastforce
  have s: "sint s = sint (cx_session_id x) mod 2147483647 + 1" "cx_session_id y = s"
    using newsession_value [OF Suc.prems(1)] y by simp_all
  have pos: "0 \<le> sint (cx_session_id y)" unfolding s(2) s(1) by simp
  have len: "length (sessions k y) = k" using Suc.IH [OF pos, of 0] by (cases k) auto
  show ?case
  proof (cases i)
    case 0
    then show ?thesis using y s len by simp
  next
    case (Suc j)
    have "(sint (cx_session_id x) mod 2147483647 + 1 + int j) mod 2147483647 = (sint (cx_session_id x) + (1 + int j)) mod 2147483647"
      by (simp add: mod_simps add.assoc)
    then show ?thesis using Suc.IH [OF pos, of j] Suc Suc.prems y s len by (simp add: algebra_simps)
  qed
qed simp

section \<open>Timeouts, the monitor, remote messages\<close>

lemma dispatch_list_spec:
  "node_ok n \<Longrightarrow> \<exists>mq'. dispatch_list ts n = Inr (n\<lparr>nd_mq := mq'\<rparr>) \<and> node_ok (n\<lparr>nd_mq := mq'\<rparr>) \<and>
     inbox (n\<lparr>nd_mq := mq'\<rparr>) = fold (\<lambda>t. deliver (tn_handle t) (timeout_message (tn_session t))) ts (inbox n)"
proof (induction ts arbitrary: n)
  case Nil
  then show ?case by (intro exI [of _ "nd_mq n"]) simp
next
  case (Cons t ts)
  from push_delivers [OF Cons.prems, of "tn_handle t" "timeout_message (tn_session t)"] obtain mq1 where
    mq1: "skynet_context_push (tn_handle t) (timeout_message (tn_session t)) n = Inr (n\<lparr>nd_mq := mq1\<rparr>, inbox n (tn_handle t) \<noteq> None)"
      "node_ok (n\<lparr>nd_mq := mq1\<rparr>)"
      "inbox (n\<lparr>nd_mq := mq1\<rparr>) = deliver (tn_handle t) (timeout_message (tn_session t)) (inbox n)" by blast
  from Cons.IH [OF mq1(2)] mq1 show ?case by (auto simp: fold_Cons)
qed

lemma endless_spec:
  assumes ok: "node_ok n" and f: "hs_find (hof_of n) (nd_H n) h = Some c" and x: "nd_ctx n c = Some x"
  shows "skynet_context_endless h n = Inr (put_ctx c (x\<lparr>cx_endless := True\<rparr>) n)"
proof -
  have hs: "hs_ok (hof_of n) (nd_H n)" and ref: "0 < cx_ref x" using ok x by (auto simp: node_ok_def ctx_ok_def)
  let ?y = "x\<lparr>cx_ref := cx_ref x + 1, cx_endless := True\<rparr>"
  have "upd_ctx c (\<lambda>x. x\<lparr>cx_endless := True\<rparr>) (put_ctx c (x\<lparr>cx_ref := cx_ref x + 1\<rparr>) n) = Inr (put_ctx c ?y n)"
    by (simp add: upd_ctx_def get_ctx_def put_ctx_def)
  moreover have "skynet_context_release c (put_ctx c ?y n) = Inr (put_ctx c (x\<lparr>cx_endless := True\<rparr>) n, True)"
    using ref by (simp add: skynet_context_release_def get_ctx_def put_ctx_def Let_def)
  ultimately show ?thesis by (simp add: skynet_context_endless_def handle_grab_Some [OF hs f x])
qed

lemma sz_type_split:
  assumes "sz AND MESSAGE_TYPE_MASK = (sz :: u64)"
  shows "(sz OR push_bit 56 (scast (type AND 0xff :: i32))) AND MESSAGE_TYPE_MASK = sz"
    and "ucast (drop_bit 56 (sz OR push_bit 56 (scast (type AND 0xff :: i32)) :: u64)) = (type AND 0xff :: i32)"
proof -
  have bsz: "\<not> bit sz i" if "56 \<le> i" for i
  proof
    assume "bit sz i"
    then have "bit (sz AND MESSAGE_TYPE_MASK) i" using assms by simp
    with that show False by (simp add: bit_and_iff bit_mask_iff)
  qed
  have t8: "\<not> bit (type AND 0xff :: i32) i" if "8 \<le> i" for i
  proof -
    have "(0xff :: i32) = mask 8" by (simp add: mask_eq_exp_minus_1)
    then show ?thesis using that by (simp only: bit_and_iff bit_mask_iff) simp
  qed
  show "(sz OR push_bit 56 (scast (type AND 0xff :: i32))) AND MESSAGE_TYPE_MASK = sz"
  proof (rule bit_word_eqI)
    fix i assume "i < LENGTH(64)"
    have low: "bit sz i \<Longrightarrow> i < 56" using bsz leI by blast
    then show "bit ((sz OR push_bit 56 (scast (type AND 0xff :: i32))) AND MESSAGE_TYPE_MASK) i = bit sz i"
      by (auto simp: bit_simps)
  qed
  show "ucast (drop_bit 56 (sz OR push_bit 56 (scast (type AND 0xff :: i32)) :: u64)) = (type AND 0xff :: i32)"
  proof (rule bit_word_eqI)
    fix i assume i: "i < LENGTH(32)"
    show "bit (ucast (drop_bit 56 (sz OR push_bit 56 (scast (type AND 0xff :: i32)) :: u64)) :: i32) i = bit (type AND 0xff :: i32) i"
    proof (cases "i < 8")
      case True
      with bsz [of "56 + i"] show ?thesis by (simp add: bit_simps)
    next
      case False
      then have "\<not> bit (drop_bit 56 (sz OR push_bit 56 (scast (type AND 0xff :: i32)) :: u64)) i"
        using i by (auto simp: bit_simps dest: bit_imp_le_length)
      with False t8 i show ?thesis by (simp add: bit_ucast_iff)
    qed
  qed
qed

end
