(* ===== verification/Commands.thy ===== *)
theory Commands
  imports Server
begin

text \<open>
  The text commands of a service, \<open>skynet_command\<close> and the \<open>cmd_*\<close> functions of
  \<open>skynet/skynet-src/skynet_server.c\<close>, with the log files of \<open>skynet_log.c\<close> they
  open and close. A command takes the context it runs in and its parameter (\<open>None\<close>: the
  null pointer) and returns the string it answers, if any. Seconds are printed from
  microseconds with six digits, exact below 2^53.
\<close>

type_synonym command_result = "(node \<times> string option) res"

definition answer :: "ptr \<Rightarrow> string \<Rightarrow> node \<Rightarrow> command_result" where
  "answer c s n = bind_res (upd_ctx c (\<lambda>x. x\<lparr>cx_result := s\<rparr>) n) (\<lambda>n1. Inr (n1, Some s))"

definition fmt_seconds :: "u64 \<Rightarrow> string" where
  "fmt_seconds t = (let frac = fmt_u (unat t mod 1000000)
     in fmt_u (unat t div 1000000) @ ''.'' @ replicate (6 - length frac) (CHR ''0'') @ frac)"

definition name_handle :: "u32 \<Rightarrow> string \<Rightarrow> node \<Rightarrow> command_result" where
  "name_handle h name n =
     bind_res (skynet_handle_namehandle h name (nd_H n)) (\<lambda>(H', r). Inr (n\<lparr>nd_H := H'\<rparr>, r))"

definition cmd_timeout :: "ptr \<Rightarrow> string option \<Rightarrow> node \<Rightarrow> command_result" where
  "cmd_timeout c param n =
     bind_res (option_res NullDeref param) (\<lambda>p.
     bind_res (get_ctx c n) (\<lambda>x.
       let ti = strtol32 10 p; (x1, session) = skynet_context_newsession x
       in bind_res (skynet_timeout (cx_handle x1) ti session (put_ctx c x1 n)) (\<lambda>(n1, _).
            answer c (fmt_d session) n1)))"

definition cmd_reg :: "ptr \<Rightarrow> string option \<Rightarrow> node \<Rightarrow> command_result" where
  "cmd_reg c param n =
     bind_res (get_ctx c n) (\<lambda>x.
       if param = None \<or> param = Some [] then answer c (CHR '':'' # fmt_x (cx_handle x)) n
       else let p = the param
            in if hd p = CHR ''.'' then name_handle (cx_handle x) (tl p) n
               else bind_res (skynet_error (Some c) (''Can'' @ [CHR 0x27] @ ''t register global name '' @ p @ '' in C'') n)
                      (\<lambda>n1. Inr (n1, None)))"

definition cmd_query :: "ptr \<Rightarrow> string option \<Rightarrow> node \<Rightarrow> command_result" where
  "cmd_query c param n =
     bind_res (option_res NullDeref param) (\<lambda>p.
       if p \<noteq> [] \<and> hd p = CHR ''.'' then
         bind_res (skynet_handle_findname (tl p) (nd_H n)) (\<lambda>handle.
           if handle \<noteq> 0 then answer c (CHR '':'' # fmt_x handle) n else Inr (n, None))
       else Inr (n, None))"

definition cmd_name :: "ptr \<Rightarrow> string option \<Rightarrow> node \<Rightarrow> command_result" where
  "cmd_name c param n =
     bind_res (option_res NullDeref param) (\<lambda>p.
       let (name, handle) = scan_two_words p
       in if name = [] \<or> handle = [] then Inl UninitRead
          else if hd handle \<noteq> CHR '':'' then Inr (n, None)
          else let handle_id = strtoul32 (tl handle)
               in if handle_id = 0 then Inr (n, None)
                  else if hd name = CHR ''.'' then name_handle handle_id (tl name) n
                  else bind_res (skynet_error (Some c) (''Can'' @ [CHR 0x27] @ ''t set global name '' @ name @ '' in C'') n)
                         (\<lambda>n1. Inr (n1, None)))"

definition cmd_exit :: "ptr \<Rightarrow> string option \<Rightarrow> node \<Rightarrow> command_result" where
  "cmd_exit c param n = bind_res (handle_exit c 0 n) (\<lambda>n1. Inr (n1, None))"

definition cmd_kill :: "ptr \<Rightarrow> string option \<Rightarrow> node \<Rightarrow> command_result" where
  "cmd_kill c param n =
     bind_res (option_res NullDeref param) (\<lambda>p.
     bind_res (tohandle c p n) (\<lambda>(n1, handle).
       if handle \<noteq> 0 then bind_res (handle_exit c handle n1) (\<lambda>n2. Inr (n2, None)) else Inr (n1, None)))"

text \<open>\<open>strsep\<close> twice: the module name up to white space, its arguments up to the end of the line.\<close>

definition launch_args :: "string \<Rightarrow> string \<times> string option" where
  "launch_args p =
     (let (md, rest) = strsep {CHR '' '', CHR 0x09, CHR 0x0D, CHR 0x0A} p
      in (md, map_option (\<lambda>a. fst (strsep {CHR 0x0D, CHR 0x0A} a)) rest))"

definition cmd_launch :: "services \<Rightarrow> ptr \<Rightarrow> string option \<Rightarrow> node \<Rightarrow> command_result" where
  "cmd_launch sv c param n =
     bind_res (option_res NullDeref param) (\<lambda>p.
       let (md, args) = launch_args p
       in bind_res (skynet_context_new sv md args n) (\<lambda>(n1, inst).
            case inst of None \<Rightarrow> Inr (n1, None)
            | Some i \<Rightarrow> bind_res (get_ctx i n1) (\<lambda>y. answer c (id_to_hex (cx_handle y)) n1)))"

definition cmd_getenv :: "ptr \<Rightarrow> string option \<Rightarrow> node \<Rightarrow> command_result" where
  "cmd_getenv c param n = bind_res (option_res NullDeref param) (\<lambda>p. Inr (n, skynet_getenv p n))"

definition cmd_setenv :: "ptr \<Rightarrow> string option \<Rightarrow> node \<Rightarrow> command_result" where
  "cmd_setenv c param n =
     bind_res (option_res NullDeref param) (\<lambda>p.
       case dropWhile (\<lambda>ch. ch \<noteq> CHR '' '') p of
         [] \<Rightarrow> Inr (n, None)
       | _ # val \<Rightarrow> bind_res (skynet_setenv (takeWhile (\<lambda>ch. ch \<noteq> CHR '' '') p) val n) (\<lambda>n1. Inr (n1, None)))"

definition cmd_starttime :: "ptr \<Rightarrow> string option \<Rightarrow> node \<Rightarrow> command_result" where
  "cmd_starttime c param n = answer c (fmt_u (unat (tm_starttime (nd_TI n)))) n"

text \<open>The rounds of \<open>skynet_handle_retireall\<close>: one per slot and one to see there is nothing left.\<close>

definition cmd_abort :: "ptr \<Rightarrow> string option \<Rightarrow> node \<Rightarrow> command_result" where
  "cmd_abort c param n =
     bind_res (skynet_handle_retireall (Suc (hs_slot_size (nd_H n))) n) (\<lambda>n1. Inr (n1, None))"

definition cmd_monitor :: "ptr \<Rightarrow> string option \<Rightarrow> node \<Rightarrow> command_result" where
  "cmd_monitor c param n =
     (if param = None \<or> param = Some [] then
        (if nd_monitor_exit n \<noteq> 0 then answer c (CHR '':'' # fmt_x (nd_monitor_exit n)) n else Inr (n, None))
      else bind_res (tohandle c (the param) n) (\<lambda>(n1, handle). Inr (n1\<lparr>nd_monitor_exit := handle\<rparr>, None)))"

definition cmd_stat :: "services \<Rightarrow> nat \<Rightarrow> ptr \<Rightarrow> string option \<Rightarrow> node \<Rightarrow> command_result" where
  "cmd_stat sv t c param n =
     bind_res (option_res NullDeref param) (\<lambda>p.
     bind_res (get_ctx c n) (\<lambda>x.
       if p = ''mqlen'' then
         bind_res (get_mq (cx_queue x) (nd_mq n)) (\<lambda>q. answer c (fmt_u (skynet_mq_length q)) n)
       else if p = ''endless'' then
         (if cx_endless x then answer c ''1'' (put_ctx c (x\<lparr>cx_endless := False\<rparr>) n) else answer c ''0'' n)
       else if p = ''cpu'' then answer c (fmt_seconds (cx_cpu_cost x)) n
       else if p = ''time'' then
         (if cx_profile x then answer c (fmt_seconds (sv_thread_time sv t - cx_cpu_start x)) n else answer c ''0'' n)
       else if p = ''message'' then answer c (fmt_d (cx_message_count x)) n
       else answer c [] n))"

definition skynet_log_open :: "services \<Rightarrow> ptr \<Rightarrow> u32 \<Rightarrow> node \<Rightarrow> (node \<times> nat option) res" where
  "skynet_log_open sv c handle n =
     (case skynet_getenv ''logpath'' n of
        None \<Rightarrow> Inr (n, None)
      | Some logpath \<Rightarrow>
          let tmp = logpath @ ''/'' @ fmt_08x handle @ ''.log''
          in case sv_open_log sv tmp of
               Some f \<Rightarrow> bind_res (skynet_error (Some c) (''Open log file '' @ tmp) n) (\<lambda>n1. Inr (n1, Some f))
             | None \<Rightarrow> bind_res (skynet_error (Some c) (''Open log file '' @ tmp @ '' fail'') n) (\<lambda>n1. Inr (n1, None)))"

definition skynet_log_close :: "ptr \<Rightarrow> nat \<Rightarrow> u32 \<Rightarrow> node \<Rightarrow> node res" where
  "skynet_log_close c f handle n =
     bind_res (skynet_error (Some c) (''Close log file :'' @ fmt_08x handle) n) (\<lambda>n1.
       Inr (n1\<lparr>nd_events := nd_events n1 @ [CloseFile f]\<rparr>))"

text \<open>The commands that act on another service hold a reference to it while they do.\<close>

definition with_service :: "ptr \<Rightarrow> string option \<Rightarrow> (u32 \<Rightarrow> ptr \<Rightarrow> node \<Rightarrow> node res) \<Rightarrow> node \<Rightarrow> command_result" where
  "with_service c param act n =
     bind_res (option_res NullDeref param) (\<lambda>p.
     bind_res (tohandle c p n) (\<lambda>(n1, handle).
       if handle = 0 then Inr (n1, None)
       else bind_res (handle_grab handle n1) (\<lambda>(n2, r).
         case r of None \<Rightarrow> Inr (n2, None)
         | Some d \<Rightarrow>
             bind_res (act handle d n2) (\<lambda>n3.
             bind_res (skynet_context_release d n3) (\<lambda>(n4, _). Inr (n4, None))))))"

definition cmd_logon :: "services \<Rightarrow> ptr \<Rightarrow> string option \<Rightarrow> node \<Rightarrow> command_result" where
  "cmd_logon sv c param = with_service c param (\<lambda>handle d n.
     bind_res (get_ctx d n) (\<lambda>y.
       if cx_logfile y = None then
         bind_res (skynet_log_open sv c handle n) (\<lambda>(n1, f).
           case f of None \<Rightarrow> Inr n1
           | Some fd \<Rightarrow>
               bind_res (get_ctx d n1) (\<lambda>y1.
                 if cx_logfile y1 = None then upd_ctx d (\<lambda>y. y\<lparr>cx_logfile := Some fd\<rparr>) n1
                 else Inr (n1\<lparr>nd_events := nd_events n1 @ [CloseFile fd]\<rparr>)))
       else Inr n))"

definition cmd_logoff :: "ptr \<Rightarrow> string option \<Rightarrow> node \<Rightarrow> command_result" where
  "cmd_logoff c param = with_service c param (\<lambda>handle d n.
     bind_res (get_ctx d n) (\<lambda>y.
       case cx_logfile y of None \<Rightarrow> Inr n
       | Some f \<Rightarrow>
           bind_res (upd_ctx d (\<lambda>y. y\<lparr>cx_logfile := None\<rparr>) n) (\<lambda>n1. skynet_log_close c f handle n1)))"

definition cmd_signal :: "ptr \<Rightarrow> string option \<Rightarrow> node \<Rightarrow> command_result" where
  "cmd_signal c param = with_service c param (\<lambda>handle d n.
     bind_res (get_ctx d n) (\<lambda>y.
       let rest = dropWhile (\<lambda>ch. ch \<noteq> CHR '' '') (the param);
           sig = (if rest = [] then 0 else strtol32 0 rest)
       in Inr (skynet_module_instance_signal (cx_mod y) (cx_instance y) sig n)))"

definition cmd_funcs :: "services \<Rightarrow> nat \<Rightarrow> (string \<times> (ptr \<Rightarrow> string option \<Rightarrow> node \<Rightarrow> command_result)) list" where
  "cmd_funcs sv t =
     [(''TIMEOUT'', cmd_timeout), (''REG'', cmd_reg), (''QUERY'', cmd_query), (''NAME'', cmd_name),
      (''EXIT'', cmd_exit), (''KILL'', cmd_kill), (''LAUNCH'', cmd_launch sv), (''GETENV'', cmd_getenv),
      (''SETENV'', cmd_setenv), (''STARTTIME'', cmd_starttime), (''ABORT'', cmd_abort),
      (''MONITOR'', cmd_monitor), (''STAT'', cmd_stat sv t), (''LOGON'', cmd_logon sv),
      (''LOGOFF'', cmd_logoff), (''SIGNAL'', cmd_signal)]"

definition skynet_command :: "services \<Rightarrow> nat \<Rightarrow> ptr \<Rightarrow> string \<Rightarrow> string option \<Rightarrow> node \<Rightarrow> command_result" where
  "skynet_command sv t c cmd param n =
     (case map_of (cmd_funcs sv t) cmd of
        Some func \<Rightarrow> func c param n
      | None \<Rightarrow> Inr (n, None))"

end
