(* ===== verification/NodeProperties.thy ===== *)
theory NodeProperties
  imports Lifecycle Commands
begin

text \<open>The properties of a node's sequential operations, each with a concrete instance.\<close>

text \<open>
  C11: \<open>skynet_context_push\<close> refines delivery in the abstract view: a message to a registered
  handle is appended to its inbox and to no other, one to an unknown handle is refused and
  changes nothing; the reference taken meanwhile is given back, and nothing faults.
\<close>

theorem context_push_refines:
  assumes "node_ok n"
  shows "\<exists>mq'. skynet_context_push h m n = Inr (n\<lparr>nd_mq := mq'\<rparr>, inbox n h \<noteq> None) \<and>
    node_ok (n\<lparr>nd_mq := mq'\<rparr>) \<and> inbox (n\<lparr>nd_mq := mq'\<rparr>) = deliver h m (inbox n)"
  using push_delivers [OF assms, of h m] by blast

theorem context_push_refines_witness:
  "\<exists>n h n'. skynet_context_push h (timeout_message 5) n = Inr (n', True) \<and> inbox n' h = Some [timeout_message 5]"
proof -
  obtain n c h where n: "launching n c h" "inbox n = [h \<mapsto> []]" using one_service by blast
  then have "node_ok n" by (simp add: launching_def)
  from context_push_refines [OF this, of h "timeout_message 5"] obtain mq' where
    "skynet_context_push h (timeout_message 5) n = Inr (n\<lparr>nd_mq := mq'\<rparr>, True)"
    "inbox (n\<lparr>nd_mq := mq'\<rparr>) h = Some [timeout_message 5]" using n(2) by (auto simp: deliver_def)
  then show ?thesis by blast
qed

text \<open>
  C12: Ownership of the data in \<open>skynet_send\<close> to a local address. With
  \<open>PTYPE_TAG_DONTCOPY\<close> the buffer itself ends up in the message, without it a fresh
  null-terminated copy of the first \<open>sz\<close> bytes does and the caller's buffer stays; when the
  service does not exist exactly the buffer that would have gone into the message is freed and
  -1 is returned. The message carries source, session and type, and no other inbox changes.
\<close>

theorem send_owns_data:
  assumes "node_ok n" "sz AND MESSAGE_TYPE_MASK = sz" "unat sz \<le> length bs" "source \<noteq> 0" "destination \<noteq> 0"
    "skynet_harbor_message_isremote destination n = Inr False" "type AND PTYPE_TAG_ALLOCSESSION = 0"
    "nd_bufs n p = Some (Bytes bs)"
  shows "\<exists>n' d. skynet_send c source destination type session (Some p) sz n =
      Inr (n', if inbox n destination = None then - 1 else session) \<and> node_ok n' \<and>
    d = (if type AND PTYPE_TAG_DONTCOPY = 0 then nd_fresh n else p) \<and>
    inbox n' = deliver destination (send_message source session (Some d) type sz) (inbox n) \<and>
    nd_bufs n' =
      (if type AND PTYPE_TAG_DONTCOPY = 0
       then (if inbox n destination = None then nd_bufs n
             else (nd_bufs n)(d \<mapsto> Bytes (take (unat sz) bs @ [CHR 0x00])))
       else (if inbox n destination = None then (nd_bufs n)(p := None) else nd_bufs n))"
  by (rule send_local [OF assms])

theorem send_owns_data_witness:
  "\<exists>n h p n'. skynet_send None 9 h PTYPE_TEXT 3 (Some p) 2 n = Inr (n', 3) \<and>
     inbox n' h = Some [send_message 9 3 (Some (nd_fresh n)) PTYPE_TEXT 2] \<and>
     nd_bufs n' (nd_fresh n) = Some (Bytes (''hi'' @ [CHR 0x00]))"
proof -
  obtain n c h where n: "launching n c h" "inbox n = [h \<mapsto> []]" "h \<noteq> 0" "skynet_harbor_message_isremote h n = Inr False"
    using one_service by blast
  obtain n1 p where a: "alloc_buf (Bytes ''hi!'') n = (n1, p)" by fastforce
  have ok: "node_ok n" using n(1) by (simp add: launching_def)
  note al = node_ok_alloc [OF ok a]
  have rem: "skynet_harbor_message_isremote h n1 = Inr False"
    using n(4) al(10) by (simp add: skynet_harbor_message_isremote_def)
  have bs: "nd_bufs n1 p = Some (Bytes ''hi!'')" using al(4) by simp
  obtain n' where n': "skynet_send None 9 h PTYPE_TEXT 3 (Some p) 2 n1 = Inr (n', 3)"
    "inbox n' = deliver h (send_message 9 3 (Some (nd_fresh n1)) PTYPE_TEXT 2) (inbox n1)"
    "nd_bufs n' = (nd_bufs n1)(nd_fresh n1 \<mapsto> Bytes (take (unat (2 :: u64)) ''hi!'' @ [CHR 0x00]))"
    using send_owns_data [OF al(1), of 2 "''hi!''" 9 h 0 p None 3] rem n(2,3) bs al(2)
    by (auto simp: mask_eq_exp_minus_1)
  then have "inbox n' h = Some [send_message 9 3 (Some (nd_fresh n1)) PTYPE_TEXT 2]"
    using n(2) al(2) by (simp add: deliver_def)
  moreover have "take (unat (2 :: u64)) ''hi!'' = ''hi''" by (simp add: take_Cons' )
  then have "nd_bufs n' (nd_fresh n1) = Some (Bytes (''hi'' @ [CHR 0x00]))" using n'(3) by simp
  ultimately show ?thesis using n'(1) by blast
qed

text \<open>
  A message to another node. With a harbor service, the message's data, size, type and
  destination are wrapped in a fresh \<open>remote_message\<close> whose pointer goes into the harbor's
  mailbox as a system message, with the sender's address and session.
\<close>

theorem remote_send_wraps:
  assumes ok: "node_ok n" and r: "nd_REMOTE n = Some r" "nd_ctx n r = Some x" and sz: "sz AND MESSAGE_TYPE_MASK = sz"
    and src: "source \<noteq> 0" and dst: "destination \<noteq> 0" "skynet_harbor_message_isremote destination n = Inr True"
    and ty: "type AND PTYPE_TAG_ALLOCSESSION = 0" "type AND PTYPE_TAG_DONTCOPY \<noteq> 0"
      "type AND 0xff \<noteq> PTYPE_SYSTEM" "type AND 0xff \<noteq> PTYPE_HARBOR"
  shows "\<exists>n'. skynet_send c source destination type session data sz n = Inr (n', session) \<and>
    nd_bufs n' = (nd_bufs n)(nd_fresh n \<mapsto> Remote \<lparr>rm_name = [], rm_handle = destination, rm_message = data, rm_sz = sz, rm_type = type AND 0xff\<rparr>) \<and>
    mbox (nd_mq n') = (mbox (nd_mq n))(cx_queue x \<mapsto> the (mbox (nd_mq n) (cx_queue x)) @
      [\<lparr>msg_source = source, msg_session = session, msg_data = Some (nd_fresh n),
        msg_sz = remote_message_size OR push_bit MESSAGE_TYPE_SHIFT (scast PTYPE_SYSTEM)\<rparr>])"
proof -
  let ?sz = "sz OR push_bit MESSAGE_TYPE_SHIFT (scast (type AND 0xff))"
  let ?rm = "\<lparr>rm_name = [], rm_handle = destination, rm_message = data, rm_sz = sz, rm_type = type AND 0xff\<rparr>"
  have fa: "filter_args c type session data sz n = Inr (n, session, data, ?sz)" using ty by (simp add: filter_args_def)
  obtain n1 p where a: "alloc_buf (Remote ?rm) n = (n1, p)" by fastforce
  note al = node_ok_alloc [OF ok a]
  obtain ps where bx: "boxes_ok (nd_mq n1) ps" using al(1) by (auto simp: node_ok_def)
  have st: "mstat (nd_mq n) (cx_queue x) = Some (cx_handle x, False)" using ok r(2) by (auto simp: node_ok_def ctx_ok_def)
  then obtain q where q: "mqs (nd_mq n1) (cx_queue x) = Some q" "\<not> mq_release q" using al(8) by (auto simp: mstat_def)
  let ?m = "\<lparr>msg_source = source, msg_session = session, msg_data = Some p,
        msg_sz = remote_message_size OR push_bit MESSAGE_TYPE_SHIFT (scast PTYPE_SYSTEM)\<rparr>"
  from boxes_push [OF bx q, of ?m] obtain mq' where mq': "skynet_mq_push (cx_queue x) ?m (nd_mq n1) = Inr mq'"
    "mbox mq' = (mbox (nd_mq n1))(cx_queue x \<mapsto> mq_list q @ [?m])" by blast
  have inv: "invalid_type (type AND 0xff)" using ty(3,4) by (simp add: invalid_type_def)
  have hs: "skynet_harbor_send p source session n1 = Inr (n1\<lparr>nd_mq := mq'\<rparr>)"
    using al(4,7,11) r inv mq'(1)
    by (simp add: skynet_harbor_send_def skynet_context_send_def get_ctx_def on_mq_def)
  have "skynet_send c source destination type session data sz n = Inr (n1\<lparr>nd_mq := mq'\<rparr>, session)"
    using sz fa src dst hs a sz_type_split [OF sz, of type] by (simp add: skynet_send_def own_source_def)
  moreover have "mbox (nd_mq n) (cx_queue x) = Some (mq_list q)" using q(1) al(8) by (simp add: mbox_def)
  ultimately show ?thesis using mq'(2) al(4,5,8) by simp
qed

theorem remote_send_wraps_witness:
  "\<exists>n n' p. skynet_send None 9 0x2000001 (PTYPE_TAG_DONTCOPY OR PTYPE_TEXT) 3 None 0 n = Inr (n', 3) \<and>
     nd_bufs n' p = Some (Remote \<lparr>rm_name = [], rm_handle = 0x2000001, rm_message = None, rm_sz = 0, rm_type = 0\<rparr>)"
proof -
  obtain n0 c h where l: "launching n0 c h" "nd_HARBOR n0 = 0" using one_service by blast
  let ?n = "n0\<lparr>nd_REMOTE := Some c\<rparr>"
  obtain x where x: "nd_ctx n0 c = Some x" using l by (auto simp: launching_def)
  have hof: "hof_of ?n = hof_of n0" by (simp add: hof_of_def fun_eq_iff)
  have ok: "node_ok ?n" using l by (simp add: launching_def node_ok_def hof ctx_ok_def fresh_ok_def)
  have rem: "skynet_harbor_message_isremote 0x2000001 ?n = Inr True"
    using l(2) by (simp add: skynet_harbor_message_isremote_def HANDLE_MASK_def)
  from remote_send_wraps [OF ok, of c x 0 9 "0x2000001" "PTYPE_TAG_DONTCOPY OR PTYPE_TEXT" None 3 None] rem x
  show ?thesis by fastforce
qed

text \<open>
  C13: When a worker gets the mailbox of a service that is gone and marked for release, it frees
  the data of every message left in it, sends each sender that still exists an error message
  from the dead handle, frees the mailbox, and goes on with the next runnable mailbox; no
  message is lost silently and nothing is freed twice.
\<close>

theorem dead_mailbox_bounces:
  assumes ok: "node_ok n" and q: "mbox (nd_mq n) q = Some ms" "mstat (nd_mq n) q = Some (h, True)" "gq_adm q (nd_mq n)"
    and gone: "inbox n h = None"
    and h: "h \<noteq> 0" "nd_HARBOR n \<noteq> NOT 0" "\<forall>m \<in> set ms. drop_source_ok n m"
    and d: "distinct (datas ms)" "\<forall>p \<in> set (datas ms). nd_bufs n p \<noteq> None"
  shows "\<exists>n1 n2 nq. skynet_context_message_dispatch sv sm (Some q) weight n = Inr (n2, sm, nq) \<and>
     pop_global n1 = Inr (n2, nq) \<and> node_ok n1 \<and> mqs (nd_mq n1) q = None \<and>
     nd_bufs n1 = (\<lambda>p. if p \<in> set (datas ms) then None else nd_bufs n p) \<and>
     inbox n1 = fold (bounce h) ms (inbox n) \<and> nd_ctx n1 = nd_ctx n"
proof -
  from q(2) obtain mq where mq: "mqs (nd_mq n) q = Some mq" "mq_handle mq = h" by (auto simp: mstat_def)
  have hs: "hs_ok (hof_of n) (nd_H n)" using ok by (simp add: node_ok_def)
  have "hs_find (hof_of n) (nd_H n) h = None" using inbox_None [OF ok] gone by simp
  from handle_grab_None [OF hs this] have grab: "handle_grab h n = Inr (n, None)" .
  from mq_release_bounces [OF ok q h d] obtain n1 where n1: "skynet_mq_release q h n = Inr n1" "node_ok n1"
    "mqs (nd_mq n1) q = None" "nd_bufs n1 = (\<lambda>p. if p \<in> set (datas ms) then None else nd_bufs n p)"
    "inbox n1 = fold (bounce h) ms (inbox n)" "nd_ctx n1 = nd_ctx n" by blast
  obtain ps where "boxes_ok (nd_mq n1) ps" using n1(2) by (auto simp: node_ok_def)
  then obtain h' nq where pop: "skynet_globalmq_pop (nd_mq n1) = Inr (h', nq)"
    using gq.pop_safe by (fastforce simp: boxes_ok_def)
  then have "pop_global n1 = Inr (n1\<lparr>nd_mq := h'\<rparr>, nq)" by (simp add: pop_global_def)
  moreover have "skynet_context_message_dispatch sv sm (Some q) weight n = Inr (n1\<lparr>nd_mq := h'\<rparr>, sm, nq)"
    using mq grab n1(1) pop by (simp add: skynet_context_message_dispatch_def get_mq_Some pop_global_def)
  ultimately show ?thesis using n1 by blast
qed

theorem dead_mailbox_bounces_witness:
  "\<exists>sv n q n1 n2 nq. mqs (nd_mq n) q \<noteq> None \<and> mqs (nd_mq n1) q = None \<and> pop_global n1 = Inr (n2, nq) \<and>
     skynet_context_message_dispatch sv skynet_monitor_new (Some q) 0 n = Inr (n2, skynet_monitor_new, nq)"
proof -
  obtain n c h where n: "launching n c h" "inbox n = [h \<mapsto> []]" "nd_HARBOR n = 0" "h \<noteq> 0" using one_service by blast
  then obtain x where x: "nd_ctx n c = Some x" "node_ok n" "hs_find (hof_of n) (nd_H n) h = Some c"
    "mglob (nd_mq n) (cx_queue x) = Some True" "gq_adm (cx_queue x) (nd_mq n)" by (auto simp: launching_def)
  let ?n = "put_ctx c (x\<lparr>cx_ref := 1\<rparr>) n" and ?q = "cx_queue x"
  have ok: "node_ok ?n" "inbox ?n = inbox n" "hof_of ?n = hof_of n" by (rule node_ok_put [OF x(2,1)]; simp)+
  obtain ps where bx: "boxes_ok (nd_mq ?n) ps" using ok(1) by (auto simp: node_ok_def)
  have f: "hs_find (hof_of ?n) (nd_H ?n) h = Some c" using ok(3) x(3) by simp
  have y: "nd_ctx ?n c = Some (x\<lparr>cx_ref := 1\<rparr>)" by simp
  from retire_last [OF ok(1) f y _ bx] x(4) obtain n' where n': "node_ok n'" "boxes_ok (nd_mq n') ps"
    "inbox n' = (inbox ?n)(h := None)" "mbox (nd_mq n') = mbox (nd_mq n)" "mstat (nd_mq n') ?q = Some (h, True)"
    "nd_HARBOR n' = nd_HARBOR n" by (auto simp: mglob_def put_ctx_def)
  have rep: "gq_rep (nd_mq n) ps" "gq_rep (nd_mq n') ps" using bx n'(2) by (simp_all add: boxes_ok_def)
  have al: "mqs (nd_mq n') ?q \<noteq> None" using n'(5) by (simp flip: mstat_None)
  have adm: "gq_adm ?q (nd_mq n')" using al x(5) gq_adm_iff [OF rep(1)] gq_adm_iff [OF rep(2)] by auto
  have "mbox (nd_mq n) ?q = inbox n h" using x(1,3) by (simp add: inbox_def)
  then have "mbox (nd_mq n) ?q = Some []" using n(2) by simp
  then have mb: "mbox (nd_mq n') ?q = Some []" using n'(4) by simp
  have "inbox n' h = None" "nd_HARBOR n' \<noteq> NOT 0" using n'(3,6) n(3) by simp_all
  from dead_mailbox_bounces [OF n'(1) mb n'(5) adm this(1) n(4) this(2)] al show ?thesis by fastforce
qed

text \<open>
  Retiring a handle whose service nobody else holds deletes the context, closes its log,
  calls its module's release, removes exactly its inbox from the view, and marks its mailbox
  for release, scheduling it if it was idle, so that a worker finds it.
\<close>

theorem retire_hands_over:
  assumes "node_ok n" "hs_find (hof_of n) (nd_H n) h = Some c" "nd_ctx n c = Some x" "cx_ref x = 1"
    "boxes_ok (nd_mq n) ps"
  shows "\<exists>n' ps'. handle_retire h n = Inr (n', True) \<and> node_ok n' \<and> boxes_ok (nd_mq n') ps' \<and>
    inbox n' = (inbox n)(h := None) \<and> nd_ctx n' = (nd_ctx n)(c := None) \<and> nd_bufs n' = nd_bufs n \<and>
    nd_total n' = nd_total n - 1 \<and>
    mbox (nd_mq n') = mbox (nd_mq n) \<and> mstat (nd_mq n') = (mstat (nd_mq n))(cx_queue x \<mapsto> (h, True)) \<and>
    (if mq_in_global (the (mqs (nd_mq n) (cx_queue x))) then ps' = ps else ps' = ps @ [cx_queue x])"
  using retire_last [OF assms] by blast

theorem retire_hands_over_witness:
  "\<exists>n h n'. inbox n h = Some [] \<and> handle_retire h n = Inr (n', True) \<and> inbox n' h = None"
proof -
  obtain n c h where n: "launching n c h" "inbox n = [h \<mapsto> []]" using one_service by blast
  then obtain x where x: "nd_ctx n c = Some x" "node_ok n" "hs_find (hof_of n) (nd_H n) h = Some c"
    by (auto simp: launching_def)
  let ?n = "put_ctx c (x\<lparr>cx_ref := 1\<rparr>) n"
  have ok: "node_ok ?n" "inbox ?n = inbox n" "hof_of ?n = hof_of n" by (rule node_ok_put [OF x(2,1)]; simp)+
  obtain ps where bx: "boxes_ok (nd_mq ?n) ps" using ok(1) by (auto simp: node_ok_def)
  have f: "hs_find (hof_of ?n) (nd_H ?n) h = Some c" using ok(3) x(3) by simp
  have y: "nd_ctx ?n c = Some (x\<lparr>cx_ref := 1\<rparr>)" by simp
  from retire_hands_over [OF ok(1) f y _ bx] obtain n' where "handle_retire h ?n = Inr (n', True)" "inbox n' = (inbox ?n)(h := None)"
    by auto
  moreover have "inbox ?n h = Some []" using ok(2) n(2) by simp
  ultimately show ?thesis by (intro exI [of _ ?n] exI [of _ h] exI [of _ n']) simp
qed

text \<open>
  C14: A launch that succeeds leaves the service initialised, held by the table only, with its
  mailbox among the runnable ones; a launch that fails removes the context, its handle and its
  mailbox again, and bounces the messages that reached it meanwhile. Nothing else changes but
  the logger's inbox.
\<close>

theorem launch_all_or_nothing:
  assumes l: "launching n c h" and lg: "logger_of n \<noteq> h" and hb: "nd_HARBOR n \<noteq> NOT 0"
    and ms: "inbox n h = Some ms" "\<forall>m \<in> set ms. drop_source_ok n m" "distinct (datas ms)" "\<forall>p \<in> set (datas ms). nd_bufs n p \<noteq> None"
  shows "if r = 0
    then \<exists>n'. launch_finish name param c (cx_queue (the (nd_ctx n c))) r n = Inr (n', Some c) \<and> node_ok n' \<and>
      cx_init (the (nd_ctx n' c)) \<and> cx_ref (the (nd_ctx n' c)) = 1 \<and>
      dom (inbox n') = dom (inbox n) \<and> (\<forall>g. g \<noteq> logger_of n \<longrightarrow> inbox n' g = inbox n g) \<and>
      (\<exists>ps. boxes_ok (nd_mq n') ps \<and> cx_queue (the (nd_ctx n c)) \<in> set ps)
    else \<exists>n' ib. launch_finish name param c (cx_queue (the (nd_ctx n c))) r n = Inr (n', None) \<and> node_ok n' \<and>
      nd_ctx n' = (nd_ctx n)(c := None) \<and> mqs (nd_mq n') (cx_queue (the (nd_ctx n c))) = None \<and>
      (ib = inbox n \<or> (\<exists>m. ib = deliver (logger_of n) m (inbox n))) \<and>
      inbox n' = fold (bounce h) ms (ib(h := None)) \<and> (\<forall>p \<in> set (datas ms). nd_bufs n' p = None)"
proof (cases "r = 0")
  case True
  then show ?thesis using launch_success [OF l, of name param] by simp
next
  case False
  then show ?thesis using launch_failure [OF l False lg hb ms, of name param] by (simp only: if_False)
qed

theorem launch_all_or_nothing_witness:
  "\<exists>n c h n' n''. launch_finish ''snlua'' None c (cx_queue (the (nd_ctx n c))) 0 n = Inr (n', Some c) \<and> inbox n' h = Some [] \<and>
     launch_finish ''snlua'' None c (cx_queue (the (nd_ctx n c))) 1 n = Inr (n'', None) \<and> inbox n'' h = None"
proof -
  obtain n c h where n: "launching n c h" "inbox n = [h \<mapsto> []]" "nd_HARBOR n = 0" "logger_of n = 0" "h \<noteq> 0"
    using one_service by blast
  have lg: "logger_of n \<noteq> h" "nd_HARBOR n \<noteq> NOT 0" "inbox n h = Some []" using n by simp_all
  note * = launch_all_or_nothing [OF n(1) lg, of _ "''snlua''" None, simplified]
  from * [of 0] obtain n' where n': "launch_finish ''snlua'' None c (cx_queue (the (nd_ctx n c))) 0 n = Inr (n', Some c)"
    "\<forall>g. g \<noteq> logger_of n \<longrightarrow> inbox n' g = inbox n g" by auto
  from * [of 1] obtain n'' ib where n'': "launch_finish ''snlua'' None c (cx_queue (the (nd_ctx n c))) 1 n = Inr (n'', None)"
    "inbox n'' = ib(h := None)" by auto
  have "inbox n' h = Some []" "inbox n'' h = None" using n'(2) n''(2) lg by simp_all
  with n'(1) n''(1) show ?thesis by blast
qed

text \<open>
  C15: Session numbers are positive, and the numbers of up to 2^31 - 1 consecutive allocations
  of one service are pairwise different, across the wrap-around of the 32-bit counter.
\<close>

theorem sessions_distinct:
  assumes "0 \<le> sint (cx_session_id x)" "k \<le> 2 ^ 31 - 1"
  shows "length (sessions k x) = k \<and> distinct (sessions k x) \<and> (\<forall>s \<in> set (sessions k x). 0 < sint s)"
proof -
  have len: "length (sessions k x) = k" using sessions_nth [OF assms(1), of 0 k] by (cases k) auto
  have val: "sint (sessions k x ! i) = (sint (cx_session_id x) + int i) mod (2 ^ 31 - 1) + 1" if "i < k" for i
    using sessions_nth [OF assms(1) that] by simp
  have "sessions k x ! i \<noteq> sessions k x ! j" if "i < j" "j < k" for i j
  proof
    assume "sessions k x ! i = sessions k x ! j"
    then have "(sint (cx_session_id x) + int i) mod (2 ^ 31 - 1) = (sint (cx_session_id x) + int j) mod (2 ^ 31 - 1)"
      using val [of i] val [of j] that by simp
    then have "(2 ^ 31 - 1) dvd (int j - int i)" by (metis mod_eq_dvd_iff add_diff_cancel_left minus_diff_eq dvd_minus_iff)
    moreover have "0 < int j - int i" "int j - int i < 2 ^ 31 - 1" using that assms(2) by auto
    ultimately show False using zdvd_imp_le by fastforce
  qed
  then have "distinct (sessions k x)" using len by (auto simp: distinct_conv_nth neq_iff)
  moreover have "0 < sint s" if "s \<in> set (sessions k x)" for s
  proof -
    from that obtain i where "i < k" "s = sessions k x ! i" using len by (auto simp: in_set_conv_nth)
    moreover have "0 \<le> (sint (cx_session_id x) + int i) mod (2 ^ 31 - 1)" by simp
    ultimately show ?thesis using val [of i] by simp
  qed
  ultimately show ?thesis using len by blast
qed

theorem sessions_distinct_witness:
  "distinct (sessions 3 ((new_context 0 0 False)\<lparr>cx_session_id := 0x7ffffffe\<rparr>)) \<and>
   sessions 3 ((new_context 0 0 False)\<lparr>cx_session_id := 0x7ffffffe\<rparr>) = [0x7fffffff, 1, 2]"
proof -
  have "distinct (sessions 3 ((new_context 0 0 False)\<lparr>cx_session_id := 0x7ffffffe\<rparr>))"
    using sessions_distinct [of "(new_context 0 0 False)\<lparr>cx_session_id := 0x7ffffffe\<rparr>" 3] by simp
  moreover have "sessions 3 ((new_context 0 0 False)\<lparr>cx_session_id := 0x7ffffffe\<rparr>) = [0x7fffffff, 1, 2]"
    by (simp add: numeral_3_eq_3 skynet_context_newsession_def Let_def)
  ultimately show ?thesis by blast
qed

text \<open>
  A service stuck in one message is reported: if the version of its thread's monitor did
  not change between two checks, the second one marks the service endless, and does nothing to
  it when the thread triggered in between.
\<close>

theorem monitor_flags_stuck:
  assumes ok: "node_ok n" and f: "hs_find (hof_of n) (nd_H n) (sm_destination sm) = Some c"
    and new: "sm_version sm \<noteq> sm_check_version sm" and d: "sm_destination sm \<noteq> 0"
  shows "\<exists>sm1 n2. skynet_monitor_check sm n = Inr (sm1, n) \<and>
    skynet_monitor_check sm1 n = Inr (sm1, n2) \<and> cx_endless (the (nd_ctx n2 c)) \<and>
    (\<exists>sm2. skynet_monitor_check (skynet_monitor_trigger s e sm1) n = Inr (sm2, n))"
proof -
  obtain x where x: "nd_ctx n c = Some x" using find_ctx [OF f] by blast
  let ?sm = "sm\<lparr>sm_check_version := sm_version sm\<rparr>" and ?n = "put_ctx c (x\<lparr>cx_endless := True\<rparr>) n"
  let ?t = "''A message from [ :'' @ fmt_08x (sm_source sm) @ '' ] to [ :'' @ fmt_08x (sm_destination sm) @
              '' ] maybe in an endless loop (version = '' @ fmt_d (sm_version sm) @ '')''"
  have ref: "0 < cx_ref x" using ok x by (auto simp: node_ok_def ctx_ok_def)
  have ok1: "node_ok ?n" by (rule node_ok_put [OF ok x]) (use ref in simp_all)
  have "live_ctx None ?n" by (simp add: live_ctx_def)
  from error_spec [OF ok1 this, of ?t] obtain n2 where n2: "skynet_error None ?t ?n = Inr n2" "nd_ctx n2 = nd_ctx ?n" by blast
  have "skynet_monitor_check sm n = Inr (?sm, n)" using new by (simp add: skynet_monitor_check_def)
  moreover have "skynet_monitor_check ?sm n = Inr (?sm, n2)"
    using d endless_spec [OF ok f x] n2(1) by (simp add: skynet_monitor_check_def)
  moreover have "cx_endless (the (nd_ctx n2 c))" using n2(2) by simp
  moreover have "sm_version sm + 1 \<noteq> sm_version sm" by simp
  then have "\<exists>sm2. skynet_monitor_check (skynet_monitor_trigger s e ?sm) n = Inr (sm2, n)"
    by (simp add: skynet_monitor_check_def skynet_monitor_trigger_def)
  ultimately show ?thesis by blast
qed

theorem monitor_flags_stuck_witness:
  "\<exists>n c sm1 n2. skynet_monitor_check sm1 n = Inr (sm1, n2) \<and> cx_endless (the (nd_ctx n2 c))"
proof -
  obtain n c h where l: "launching n c h" using one_service by blast
  then have "node_ok n" "hs_find (hof_of n) (nd_H n) (sm_destination (skynet_monitor_trigger 1 h skynet_monitor_new)) = Some c"
    "h \<noteq> 0" by (simp_all add: launching_def skynet_monitor_trigger_def)
  from monitor_flags_stuck [OF this(1,2)] this(3) show ?thesis
    by (fastforce simp: skynet_monitor_trigger_def skynet_monitor_new_def)
qed

text \<open>
  The addresses a service prints are the addresses it reads: \<open>tohandle\<close> gives back the
  handle from what \<open>LAUNCH\<close> answers (\<open>id_to_hex\<close>, eight upper-case digits) and from what
  \<open>REG\<close> and \<open>QUERY\<close> answer (\<open>:%x\<close>).
\<close>

theorem handle_text_round_trip:
  "tohandle c (id_to_hex h) n = Inr (n, h) \<and> tohandle c (CHR '':'' # fmt_x h) n = Inr (n, h)"
proof -
  have "id_to_hex h = CHR '':'' # tl (id_to_hex h)" by (simp add: id_to_hex_def)
  then have "tohandle c (id_to_hex h) n = Inr (n, strtoul32 (tl (id_to_hex h)))"
    by (simp add: tohandle_def id_to_hex_def)
  then show ?thesis using id_to_hex_read [of h] fmt_x_read [of h] by (simp add: tohandle_def)
qed

text \<open>
  The expired timers handed to \<open>dispatch_list\<close> each put one response message with their
  session into the inbox of their handle, in order; timers of services that are gone are
  dropped without effect.
\<close>

theorem timeouts_delivered:
  assumes "node_ok n"
  shows "\<exists>mq'. dispatch_list ts n = Inr (n\<lparr>nd_mq := mq'\<rparr>) \<and> node_ok (n\<lparr>nd_mq := mq'\<rparr>) \<and>
     inbox (n\<lparr>nd_mq := mq'\<rparr>) = fold (\<lambda>t. deliver (tn_handle t) (timeout_message (tn_session t))) ts (inbox n)"
  by (rule dispatch_list_spec [OF assms])

theorem timeouts_delivered_witness:
  "\<exists>n h n'. dispatch_list [\<lparr>tn_expire = 4, tn_handle = h, tn_session = 6\<rparr>] n = Inr n' \<and> inbox n' h = Some [timeout_message 6]"
proof -
  obtain n c h where "launching n c h" "inbox n = [h \<mapsto> []]" using one_service by blast
  then show ?thesis using timeouts_delivered [of n "[\<lparr>tn_expire = 4, tn_handle = h, tn_session = 6\<rparr>]"]
    by (fastforce simp: launching_def deliver_def)
qed

end
