(* ===== verification/Dispatch.thy ===== *)
theory Dispatch
  imports Lifecycle
begin

text \<open>
  The threads of a node, as an interleaving of the operations that a lock or an atomic
  instruction makes indivisible: the workers in \<open>skynet_context_message_dispatch\<close>
  (\<open>skynet_server.c\<close>), the threads outside (timer, socket) and the services that run on
  the workers. A thread is a stack of frames, each of them the rest of one call; the state they
  share is the node. What a service does in its callback or its \<open>init\<close> is any sequence of
  calls. The data of the messages and the monitors of the threads do not matter here and are
  left out; both are part of the sequential operations in \<open>Node\<close> and \<open>Server\<close>.
\<close>

section \<open>Frames\<close>

datatype frame =
    External
  | Worker "ptr option"
  | Batch ptr ptr nat nat
  | Popped ptr ptr nat nat skynet_message
  | Entering ptr ptr nat nat
  | Callback ptr ptr nat nat
  | Requeue ptr ptr
  | Rotate ptr ptr ptr
  | Push u32 skynet_message
  | Deliver ptr skynet_message
  | Forward skynet_message
  | Release ptr
  | Retire u32
  | Unlink ptr u32
  | Drain ptr u32
  | Reply u32 skynet_message
  | Log "ptr option" string
  | Launch nat nat string "string option"
  | Init ptr ptr string "string option"
  | LaunchOk ptr ptr string "string option"
  | Ready ptr ptr
  | Schedule ptr
  | LaunchFailed ptr ptr
  | Abandon ptr u32

section \<open>One indivisible action\<close>

text \<open>
  What the frame on top does, for a worker of weight \<open>w\<close>: the new node and the frames that
  take its place. \<open>External\<close>, \<open>Callback\<close> and \<open>Init\<close> are running code that
  is not the node's: they do nothing of themselves.

  \<open>skynet_context_message_dispatch\<close>: \<open>Worker q\<close> is the call with \<open>q\<close>, the rounds of
  its loop are \<open>Batch\<close> (the pop), \<open>Popped\<close> (length and overload), \<open>Entering\<close> (the
  test of the callback, the assertion and the count in \<open>dispatch_message\<close>) and \<open>Callback\<close>;
  its end is \<open>Requeue\<close> and \<open>Rotate\<close>.
\<close>

definition worker_call :: "ptr option \<Rightarrow> node \<Rightarrow> (node \<times> frame list) res" where
  "worker_call q0 n =
     (case q0 of
        None \<Rightarrow> bind_res (pop_global n) (\<lambda>(n1, q). Inr (n1, [Worker q]))
      | Some q \<Rightarrow>
          bind_res (get_mq q (nd_mq n)) (\<lambda>mq.
          bind_res (handle_grab (mq_handle mq) n) (\<lambda>(n1, r).
            case r of None \<Rightarrow> Inr (n1, [Unlink q (mq_handle mq), Worker None])
            | Some c \<Rightarrow> Inr (n1, [Batch c q 0 1]))))"

definition batch_pop :: "ptr \<Rightarrow> ptr \<Rightarrow> nat \<Rightarrow> nat \<Rightarrow> node \<Rightarrow> (node \<times> frame list) res" where
  "batch_pop c q i m n =
     (if m \<le> i then Inr (n, [Requeue c q])
      else bind_res (mq_pop_at q (nd_mq n)) (\<lambda>(h, r).
        Inr (n\<lparr>nd_mq := h\<rparr>, case r of None \<Rightarrow> [Release c, Worker None] | Some msg \<Rightarrow> [Popped c q i m msg])))"

definition batch_overload :: "int \<Rightarrow> ptr \<Rightarrow> ptr \<Rightarrow> nat \<Rightarrow> nat \<Rightarrow> node \<Rightarrow> (node \<times> frame list) res" where
  "batch_overload w c q i m n =
     bind_res (get_mq q (nd_mq n)) (\<lambda>mq.
       let m' = (if i = 0 \<and> 0 \<le> w then batch_length w (skynet_mq_length mq) else m);
           (mq', overload) = skynet_mq_overload mq
       in Inr (n\<lparr>nd_mq := put_mq q mq' (nd_mq n)\<rparr>,
            (if overload \<noteq> 0 then [Log (Some c) (''May overload, message queue length = '' @ fmt_u (nat overload))] else []) @
            [Entering c q i m']))"

definition batch_enter :: "ptr \<Rightarrow> ptr \<Rightarrow> nat \<Rightarrow> nat \<Rightarrow> node \<Rightarrow> (node \<times> frame list) res" where
  "batch_enter c q i m n =
     bind_res (get_ctx c n) (\<lambda>x.
       if cx_cb x = None then Inr (n, [Batch c q (Suc i) m])
       else bind_res (assert_res (cx_init x) AssertFailed) (\<lambda>_.
         Inr (put_ctx c (x\<lparr>cx_message_count := cx_message_count x + 1\<rparr>) n, [Callback c q i m])))"

definition batch_end :: "ptr \<Rightarrow> ptr \<Rightarrow> node \<Rightarrow> (node \<times> frame list) res" where
  "batch_end c q n =
     bind_res (get_ctx c n) (\<lambda>x.
     bind_res (assert_res (q = cx_queue x) AssertFailed) (\<lambda>_.
     bind_res (pop_global n) (\<lambda>(n1, nq).
       Inr (n1, case nq of None \<Rightarrow> [Release c, Worker (Some q)] | Some q' \<Rightarrow> [Rotate c q q']))))"

text \<open>\<open>skynet_context_push\<close> is \<open>Push\<close>, \<open>Deliver\<close> and \<open>Release\<close>.\<close>

definition push_grab :: "u32 \<Rightarrow> skynet_message \<Rightarrow> node \<Rightarrow> (node \<times> frame list) res" where
  "push_grab h msg n =
     bind_res (handle_grab h n) (\<lambda>(n1, r). Inr (n1, case r of None \<Rightarrow> [] | Some c \<Rightarrow> [Deliver c msg]))"

definition push_deliver :: "ptr \<Rightarrow> skynet_message \<Rightarrow> node \<Rightarrow> (node \<times> frame list) res" where
  "push_deliver c msg n =
     bind_res (get_ctx c n) (\<lambda>x.
     bind_res (on_mq (skynet_mq_push (cx_queue x) msg) n) (\<lambda>n1. Inr (n1, [Release c])))"

text \<open>\<open>skynet_handle_retire\<close> under its lock; the release follows.\<close>

definition retire_unlink :: "u32 \<Rightarrow> frame list \<Rightarrow> node \<Rightarrow> (node \<times> frame list) res" where
  "retire_unlink h next n =
     bind_res (skynet_handle_retire (hof_of n) h (nd_H n)) (\<lambda>(H', r).
       Inr (n\<lparr>nd_H := H'\<rparr>, case r of None \<Rightarrow> next | Some c \<Rightarrow> Release c # next))"

text \<open>\<open>skynet_mq_release\<close> is \<open>Unlink\<close> and \<open>Drain\<close>, \<open>drop_message\<close> is \<open>Reply\<close>.\<close>

definition release_queue :: "ptr \<Rightarrow> u32 \<Rightarrow> node \<Rightarrow> (node \<times> frame list) res" where
  "release_queue q k n =
     bind_res (get_mq q (nd_mq n)) (\<lambda>mq.
       if mq_release mq then Inr (n, [Drain q k])
       else bind_res (on_mq (skynet_globalmq_push q) n) (\<lambda>n1. Inr (n1, [])))"

definition drain_queue :: "ptr \<Rightarrow> u32 \<Rightarrow> node \<Rightarrow> (node \<times> frame list) res" where
  "drain_queue q k n =
     bind_res (mq_pop_at q (nd_mq n)) (\<lambda>(h, r).
       case r of Some msg \<Rightarrow> Inr (n\<lparr>nd_mq := h\<rparr>, [Reply k msg, Drain q k])
       | None \<Rightarrow> bind_res (on_mq (mq_free q) (n\<lparr>nd_mq := h\<rparr>)) (\<lambda>n1. Inr (n1, [])))"

definition error_reply :: "u32 \<Rightarrow> skynet_message" where
  "error_reply k = \<lparr>msg_source = k, msg_session = 0, msg_data = None,
     msg_sz = push_bit MESSAGE_TYPE_SHIFT (scast PTYPE_ERROR)\<rparr>"

definition drop_reply :: "u32 \<Rightarrow> skynet_message \<Rightarrow> node \<Rightarrow> (node \<times> frame list) res" where
  "drop_reply k msg n =
     bind_res (assert_res (k \<noteq> 0) AssertFailed) (\<lambda>_.
       if msg_source msg = 0 then Inr (n, [])
       else bind_res (skynet_harbor_message_isremote (msg_source msg) n) (\<lambda>remote.
         if remote then
           (let (n1, rmsg) = alloc_buf (Remote \<lparr>rm_name = [], rm_handle = msg_source msg, rm_message = None,
                  rm_sz = 0, rm_type = PTYPE_ERROR\<rparr>) n
            in bind_res (assert_res (nd_REMOTE n1 \<noteq> None) AssertFailed) (\<lambda>_.
                 Inr (n1, [Forward \<lparr>msg_source = k, msg_session = 0, msg_data = Some rmsg,
                   msg_sz = remote_message_size OR push_bit MESSAGE_TYPE_SHIFT (scast PTYPE_SYSTEM)\<rparr>])))
         else Inr (n, [Push (msg_source msg) (error_reply k)])))"

definition harbor_forward :: "skynet_message \<Rightarrow> node \<Rightarrow> (node \<times> frame list) res" where
  "harbor_forward msg n =
     bind_res (option_res NullDeref (nd_REMOTE n)) (\<lambda>c.
     bind_res (get_ctx c n) (\<lambda>x.
     bind_res (on_mq (skynet_mq_push (cx_queue x) msg) n) (\<lambda>n1. Inr (n1, []))))"

text \<open>\<open>skynet_error\<close> up to the push.\<close>

definition log_text :: "ptr option \<Rightarrow> string \<Rightarrow> node \<Rightarrow> (node \<times> frame list) res" where
  "log_text c text n =
     bind_res (if nd_logger n = 0 then skynet_handle_findname ''logger'' (nd_H n) else Inr (nd_logger n)) (\<lambda>logger.
       let n1 = n\<lparr>nd_logger := logger\<rparr>
       in if logger = 0 then Inr (n1, [])
          else let (n2, data) = alloc_buf (Bytes (text @ [CHR 0x00])) n1
               in bind_res (case c of None \<Rightarrow> Inr 0 | Some p \<Rightarrow> bind_res (get_ctx p n2) (\<lambda>x. Inr (cx_handle x))) (\<lambda>src.
                  Inr (n2, [Push logger (log_message src text data)])))"

text \<open>
  \<open>skynet_context_new\<close>: the construction, then \<open>init\<close>, then either \<open>LaunchOk\<close> or
  \<open>LaunchFailed\<close>. The construction is one action: a thread that guessed the new handle
  between its registration and the creation of the mailbox is not modelled. The code goes on with the context after its release when that left a
  reference: \<open>Ready\<close> sets its \<open>init\<close> and makes the mailbox runnable (no other thread can see
  the mailbox between the two), \<open>Log\<close> reads its handle. A failed launch releases the context,
  retires its handle and releases the mailbox (\<open>Abandon\<close>).
\<close>

definition launch_setup :: "nat \<Rightarrow> nat \<Rightarrow> string \<Rightarrow> string option \<Rightarrow> node \<Rightarrow> (node \<times> frame list) res" where
  "launch_setup md inst name param n =
     bind_res (context_setup md inst n) (\<lambda>(n1, c).
     bind_res (get_ctx c n1) (\<lambda>x. Inr (n1, [Init c (cx_queue x) name param])))"

definition launch_ok :: "ptr \<Rightarrow> ptr \<Rightarrow> string \<Rightarrow> string option \<Rightarrow> node \<Rightarrow> (node \<times> frame list) res" where
  "launch_ok c q name param n =
     bind_res (skynet_context_release c n) (\<lambda>(n1, alive).
       Inr (n1, if alive then [Ready c q, Log (Some c) (''LAUNCH '' @ name @ '' '' @ (case param of None \<Rightarrow> [] | Some p \<Rightarrow> p))]
                else [Schedule q]))"

definition launch_failed :: "ptr \<Rightarrow> ptr \<Rightarrow> node \<Rightarrow> (node \<times> frame list) res" where
  "launch_failed c q n =
     bind_res (get_ctx c n) (\<lambda>x.
     bind_res (skynet_context_release c n) (\<lambda>(n1, _). Inr (n1, [Abandon q (cx_handle x)])))"

fun frame_step :: "int \<Rightarrow> frame \<Rightarrow> node \<Rightarrow> (node \<times> frame list) res" where
  "frame_step w (Worker q) n = worker_call q n"
| "frame_step w (Batch c q i m) n = batch_pop c q i m n"
| "frame_step w (Popped c q i m msg) n = batch_overload w c q i m n"
| "frame_step w (Entering c q i m) n = batch_enter c q i m n"
| "frame_step w (Requeue c q) n = batch_end c q n"
| "frame_step w (Rotate c q nq) n = bind_res (on_mq (skynet_globalmq_push q) n) (\<lambda>n1. Inr (n1, [Release c, Worker (Some nq)]))"
| "frame_step w (Push h msg) n = push_grab h msg n"
| "frame_step w (Deliver c msg) n = push_deliver c msg n"
| "frame_step w (Forward msg) n = harbor_forward msg n"
| "frame_step w (Release c) n = bind_res (skynet_context_release c n) (\<lambda>(n1, _). Inr (n1, []))"
| "frame_step w (Retire h) n = retire_unlink h [] n"
| "frame_step w (Unlink q k) n = release_queue q k n"
| "frame_step w (Drain q k) n = drain_queue q k n"
| "frame_step w (Reply k msg) n = drop_reply k msg n"
| "frame_step w (Log c text) n = log_text c text n"
| "frame_step w (Launch md inst name param) n = launch_setup md inst name param n"
| "frame_step w (LaunchOk c q name param) n = launch_ok c q name param n"
| "frame_step w (Ready c q) n =
     bind_res (upd_ctx c (\<lambda>x. x\<lparr>cx_init := True\<rparr>) n) (\<lambda>n1.
     bind_res (on_mq (skynet_globalmq_push q) n1) (\<lambda>n2. Inr (n2, [])))"
| "frame_step w (Schedule q) n = bind_res (on_mq (skynet_globalmq_push q) n) (\<lambda>n1. Inr (n1, []))"
| "frame_step w (LaunchFailed c q) n = launch_failed c q n"
| "frame_step w (Abandon q k) n = retire_unlink k [Unlink q k] n"
| "frame_step w f n = Inr (n, [f])"

section \<open>The threads\<close>

record system =
  sy_node :: node
  sy_threads :: "(int \<times> frame list) list"

text \<open>Code that is not the node's is running, and the calls it can make.\<close>

fun running :: "frame \<Rightarrow> bool" where
  "running External = True"
| "running (Callback c q i m) = True"
| "running (Init c q name param) = True"
| "running _ = False"

fun callable :: "frame \<Rightarrow> bool" where
  "callable (Push h msg) = True"
| "callable (Retire h) = True"
| "callable (Launch md inst name param) = True"
| "callable (Log None text) = True"
| "callable _ = False"

text \<open>A service returns from its callback, or from \<open>init\<close> with a result.\<close>

fun returns :: "frame \<Rightarrow> i32 \<Rightarrow> frame list option" where
  "returns (Callback c q i m) r = Some [Batch c q (Suc i) m]"
| "returns (Init c q name param) r = Some (if r = 0 then [LaunchOk c q name param]
     else [Log (Some c) (''FAILED launch '' @ name), LaunchFailed c q])"
| "returns _ r = None"

text \<open>The references to contexts that a frame holds, and the mailboxes it is to hand on.\<close>

fun frefs :: "ptr \<Rightarrow> frame \<Rightarrow> nat" where
  "frefs c (Batch d q i m) = (if d = c then 1 else 0)"
| "frefs c (Popped d q i m msg) = (if d = c then 1 else 0)"
| "frefs c (Entering d q i m) = (if d = c then 1 else 0)"
| "frefs c (Callback d q i m) = (if d = c then 1 else 0)"
| "frefs c (Requeue d q) = (if d = c then 1 else 0)"
| "frefs c (Rotate d q nq) = (if d = c then 1 else 0)"
| "frefs c (Deliver d msg) = (if d = c then 1 else 0)"
| "frefs c (Release d) = (if d = c then 1 else 0)"
| "frefs c (Init d q name param) = (if d = c then 1 else 0)"
| "frefs c (LaunchOk d q name param) = (if d = c then 1 else 0)"
| "frefs c (LaunchFailed d q) = (if d = c then 1 else 0)"
| "frefs c _ = 0"

fun fholds :: "ptr \<Rightarrow> frame \<Rightarrow> nat" where
  "fholds p (Worker q) = (if q = Some p then 1 else 0)"
| "fholds p (Batch c q i m) = (if q = p then 1 else 0)"
| "fholds p (Popped c q i m msg) = (if q = p then 1 else 0)"
| "fholds p (Entering c q i m) = (if q = p then 1 else 0)"
| "fholds p (Callback c q i m) = (if q = p then 1 else 0)"
| "fholds p (Requeue c q) = (if q = p then 1 else 0)"
| "fholds p (Rotate c q nq) = (if q = p then 1 else 0) + (if nq = p then 1 else 0)"
| "fholds p (Unlink q k) = (if q = p then 1 else 0)"
| "fholds p (Drain q k) = (if q = p then 1 else 0)"
| "fholds p (Init c q name param) = (if q = p then 1 else 0)"
| "fholds p (LaunchOk c q name param) = (if q = p then 1 else 0)"
| "fholds p (Schedule q) = (if q = p then 1 else 0)"
| "fholds p (LaunchFailed c q) = (if q = p then 1 else 0)"
| "fholds p (Ready c q) = (if q = p then 1 else 0)"
| "fholds p (Abandon q k) = (if q = p then 1 else 0)"
| "fholds p _ = 0"

text \<open>
  The contexts whose life hangs on the handle table: those being launched, and those that a
  frame uses with no reference below it in its thread.
\<close>

fun exposed_by :: "frame \<Rightarrow> frame list \<Rightarrow> ptr list" where
  "exposed_by (Init c q name param) fs = [c]"
| "exposed_by (LaunchOk c q name param) fs = [c]"
| "exposed_by (Ready c q) fs = (if list_ex (\<lambda>g. frefs c g \<noteq> 0) fs then [] else [c])"
| "exposed_by (Log (Some c) text) fs = (if list_ex (\<lambda>g. frefs c g \<noteq> 0) fs then [] else [c])"
| "exposed_by _ fs = []"

fun exposed :: "frame list \<Rightarrow> ptr list" where
  "exposed [] = []"
| "exposed (f # fs) = exposed_by f fs @ exposed fs"

text \<open>
  A guarded node retires no handle whose launch has not returned, registers no context while
  the handle counter is about to wrap, and gets no messages from other nodes before it has a
  harbor.
\<close>

definition retirable :: "u32 \<Rightarrow> system \<Rightarrow> bool" where
  "retirable h s \<longleftrightarrow>
     (case hs_find (hof_of (sy_node s)) (nd_H (sy_node s)) h of None \<Rightarrow> True
      | Some c \<Rightarrow> list_all (\<lambda>(w, fs). c \<notin> set (exposed fs)) (sy_threads s))"

fun guard_ok :: "system \<Rightarrow> frame \<Rightarrow> bool" where
  "guard_ok s (Retire h) \<longleftrightarrow> retirable h s"
| "guard_ok s (Abandon q k) \<longleftrightarrow> retirable k s"
| "guard_ok s (Launch md inst name param) \<longleftrightarrow> hs_room (nd_H (sy_node s))"
| "guard_ok s (Reply k msg) \<longleftrightarrow> nd_REMOTE (sy_node s) \<noteq> None \<or> msg_source msg = 0 \<or>
     skynet_harbor_message_isremote (msg_source msg) (sy_node s) = Inr False"
| "guard_ok s _ \<longleftrightarrow> True"

definition put_thread :: "nat \<Rightarrow> int \<Rightarrow> frame list \<Rightarrow> node \<Rightarrow> system \<Rightarrow> system" where
  "put_thread t w fs n s = s\<lparr>sy_node := n, sy_threads := (sy_threads s)[t := (w, fs)]\<rparr>"

inductive step :: "bool \<Rightarrow> system \<Rightarrow> system res \<Rightarrow> bool" for guarded :: bool where
  act: "t < length (sy_threads s) \<Longrightarrow> sy_threads s ! t = (w, f # fs) \<Longrightarrow> guarded \<longrightarrow> guard_ok s f \<Longrightarrow>
    step guarded s (bind_res (frame_step w f (sy_node s)) (\<lambda>(n, gs). Inr (put_thread t w (gs @ fs) n s)))"
| call: "t < length (sy_threads s) \<Longrightarrow> sy_threads s ! t = (w, f # fs) \<Longrightarrow> running f \<Longrightarrow> callable g \<Longrightarrow>
    step guarded s (Inr (put_thread t w (g # f # fs) (sy_node s) s))"
| return: "t < length (sy_threads s) \<Longrightarrow> sy_threads s ! t = (w, f # fs) \<Longrightarrow> returns f r = Some gs \<Longrightarrow>
    step guarded s (Inr (put_thread t w (gs @ fs) (sy_node s) s))"
| callback: "t < length (sy_threads s) \<Longrightarrow> sy_threads s ! t = (w, f # fs) \<Longrightarrow>
    f = Init c q name param \<or> f = Callback c q i m \<Longrightarrow>
    step guarded s (bind_res (upd_ctx c (\<lambda>x. x\<lparr>cx_cb := cb\<rparr>) (sy_node s)) (\<lambda>n. Inr (s\<lparr>sy_node := n\<rparr>)))"
| harbor: "t < length (sy_threads s) \<Longrightarrow> sy_threads s ! t = (w, Init c q name param # fs) \<Longrightarrow>
    nd_REMOTE (sy_node s) = None \<Longrightarrow>
    step guarded s (bind_res (skynet_harbor_start c (sy_node s)) (\<lambda>n. Inr (s\<lparr>sy_node := n\<rparr>)))"

inductive reachable :: "bool \<Rightarrow> system \<Rightarrow> system \<Rightarrow> bool" for guarded :: bool and s0 :: system where
  start: "reachable guarded s0 s0"
| step: "reachable guarded s0 s \<Longrightarrow> step guarded s (Inr s') \<Longrightarrow> reachable guarded s0 s'"

inductive_cases step_elim: "step guarded s r"

text \<open>A node after its start: workers of any weights, and any number of threads outside.\<close>

definition initial :: "node \<Rightarrow> int list \<Rightarrow> nat \<Rightarrow> system" where
  "initial n ws k = \<lparr>sy_node = n, sy_threads = map (\<lambda>w. (w, [Worker None])) ws @ replicate k (0, [External])\<rparr>"

end
