(* ===== verification/DispatchInvariant.thy ===== *)
theory DispatchInvariant
  imports Dispatch
begin

text \<open>
  The invariant of the threads of \<open>Dispatch\<close>: the reference count of a context is the number
  of references that the table, the harbor and the frames hold, and a mailbox that is marked as
  scheduled, or for release, is in exactly one place: the global queue or one frame. The
  lemmas say how it survives a change of the mailboxes, of a context, and the deletion of one.
\<close>

section \<open>Counting over frames\<close>

definition holds :: "ptr \<Rightarrow> frame list \<Rightarrow> nat" where
  "holds p F = sum_list (map (fholds p) F)"

definition refs :: "ptr \<Rightarrow> frame list \<Rightarrow> nat" where
  "refs c F = sum_list (map (frefs c) F)"

text \<open>The frames of a launch and of a release, which hold a mailbox that no worker may run.\<close>

fun fstarts :: "ptr \<Rightarrow> frame \<Rightarrow> bool" where
  "fstarts p (Init c q name param) = (q = p)"
| "fstarts p (LaunchOk c q name param) = (q = p)"
| "fstarts p (LaunchFailed c q) = (q = p)"
| "fstarts p (Ready c q) = (q = p)"
| "fstarts p (Abandon q k) = (q = p)"
| "fstarts p _ = False"

lemma count_simps [simp]:
  "holds p [] = 0" "holds p (f # F) = fholds p f + holds p F" "holds p (F @ G) = holds p F + holds p G"
  "refs c [] = 0" "refs c (f # F) = frefs c f + refs c F" "refs c (F @ G) = refs c F + refs c G"
  by (simp_all add: holds_def refs_def)

lemma count_perm: "mset F = mset G \<Longrightarrow> holds p F = holds p G \<and> refs c F = refs c G"
  unfolding holds_def refs_def by (metis mset_map sum_mset_sum_list)

lemma refs_pos: "f \<in> set F \<Longrightarrow> frefs c f \<le> refs c F"
  unfolding refs_def by (intro member_le_sum_list) auto

lemma holds_pos: "f \<in> set F \<Longrightarrow> fholds p f \<le> holds p F"
  unfolding holds_def by (intro member_le_sum_list) auto

section \<open>The mailboxes\<close>

definition sched :: "mq_heap \<Rightarrow> ptr \<Rightarrow> bool" where
  "sched h p \<longleftrightarrow> mglob h p = Some True \<or> (\<exists>k. mstat h p = Some (k, True))"

definition binv :: "mq_heap \<Rightarrow> ptr list \<Rightarrow> frame list \<Rightarrow> bool" where
  "binv h ps F \<longleftrightarrow> boxes_ok h ps \<and>
     (\<forall>p. of_bool (p \<in> set ps) + holds p F = (of_bool (sched h p) :: nat)) \<and>
     (\<forall>p. mglob h p = Some False \<longrightarrow> mbox h p = Some []) \<and>
     (\<forall>p k r. mstat h p = Some (k, r) \<longrightarrow> k \<noteq> 0)"

lemma binv_count: "binv h ps F \<Longrightarrow> of_bool (p \<in> set ps) + holds p F = (of_bool (sched h p) :: nat)"
  by (simp add: binv_def)

lemma binv_cong: "binv h ps F \<Longrightarrow> (\<And>p. holds p G = holds p F) \<Longrightarrow> binv h ps G"
  by (simp add: binv_def)

text \<open>A mailbox that a frame holds is allocated, scheduled and not in the global queue.\<close>

lemma binv_held:
  assumes "binv h ps F" "0 < holds p F"
  shows "p \<notin> set ps" "sched h p" "holds p F = 1" "\<exists>q. mqs h p = Some q" "gq_adm p h"
proof -
  have c: "of_bool (p \<in> set ps) + holds p F = (of_bool (sched h p) :: nat)" by (rule binv_count [OF assms(1)])
  then show 1: "p \<notin> set ps" "sched h p" "holds p F = 1" using assms(2) by (auto simp: of_bool_def split: if_splits)
  from 1(2) show 2: "\<exists>q. mqs h p = Some q" by (auto simp: sched_def mglob_def mstat_def)
  from assms(1) have "gq_rep h ps" by (simp add: binv_def boxes_ok_def)
  with 1(1) 2 show "gq_adm p h" by (simp add: gq_adm_iff)
qed

lemma binv_pop_global:
  assumes "binv h ps F"
  shows "\<exists>h' r. skynet_globalmq_pop h = Inr (h', r) \<and> mstat h' = mstat h \<and>
    (\<forall>G. (\<forall>p. holds p G = holds p F + of_bool (r = Some p)) \<longrightarrow> binv h' (tl ps) G)"
proof (cases ps)
  case Nil
  have rep: "gq_rep h []" using assms Nil by (simp add: binv_def boxes_ok_def)
  show ?thesis using assms globalmq_pop_nil [OF rep] Nil by (auto simp: binv_def)
next
  case (Cons p ps')
  have bx: "boxes_ok h (p # ps')" and rep: "gq_rep h (p # ps')" using assms Cons by (auto simp: binv_def boxes_ok_def)
  from globalmq_pop_cons [OF rep] obtain h' where
    h': "skynet_globalmq_pop h = Inr (h', Some p)" "gq_rep h' ps'" "same_but_next h h'" by blast
  note v = same_but_next_views(1-3) [OF h'(3)]
  have "boxes_ok h' ps'"
    by (rule boxes_ok_same_but_next [OF bx h'(3,2)]) (use bx in \<open>auto simp: boxes_ok_def\<close>)
  moreover have "p \<notin> set ps'" using rep by (auto simp: gq_rep_def)
  then have "of_bool (r \<in> set ps') + (holds r F + of_bool (r = p)) = (of_bool (sched h r) :: nat)" for r
    using binv_count [OF assms, of r] Cons by (auto simp: of_bool_def split: if_splits)
  moreover have s: "sched h' r = sched h r" for r unfolding sched_def v ..
  ultimately have "binv h' ps' G" if "\<forall>r. holds r G = holds r F + of_bool (Some p = Some r)" for G
    using assms v that unfolding binv_def s by (simp add: eq_commute)
  with h'(1) v(2) Cons show ?thesis by auto
qed

lemma binv_push_global:
  assumes "binv h ps F" "0 < holds p F"
  shows "\<exists>h'. skynet_globalmq_push p h = Inr h' \<and> mstat h' = mstat h \<and>
    (\<forall>G. (\<forall>r. holds r F = holds r G + of_bool (r = p)) \<longrightarrow> binv h' (ps @ [p]) G)"
proof -
  note held = binv_held [OF assms]
  have bx: "boxes_ok h ps" and rep: "gq_rep h ps" using assms by (auto simp: binv_def boxes_ok_def)
  from globalmq_push_rep [OF rep held(5)] obtain h' where
    h': "skynet_globalmq_push p h = Inr h'" "gq_rep h' (ps @ [p])" "same_but_next h h'" by blast
  note v = same_but_next_views(1-3) [OF h'(3)]
  have "boxes_ok h' (ps @ [p])"
    by (rule boxes_ok_same_but_next [OF bx h'(3,2)])
      (use bx held(2) in \<open>auto simp: boxes_ok_def sched_def mglob_def mstat_def\<close>)
  moreover have "of_bool (r \<in> set (ps @ [p])) + holds r G = (of_bool (sched h r) :: nat)"
    if "\<forall>r. holds r F = holds r G + of_bool (r = p)" for r G
    using binv_count [OF assms(1), of r] that held(1) by (cases "r = p") auto
  moreover have s: "sched h' r = sched h r" for r unfolding sched_def v ..
  ultimately have "binv h' (ps @ [p]) G" if "\<forall>r. holds r F = holds r G + of_bool (r = p)" for G
    using assms(1) that unfolding binv_def s v by blast
  with h'(1) v(2) show ?thesis by blast
qed

lemma binv_push:
  assumes "binv h ps F" "mstat h p = Some (k, False)"
  shows "\<exists>h' ps'. skynet_mq_push p m h = Inr h' \<and> mstat h' = mstat h \<and> binv h' ps' F"
proof -
  obtain q where q: "mqs h p = Some q" "\<not> mq_release q" using assms(2) by (auto simp: mstat_def)
  have bx: "boxes_ok h ps" using assms(1) by (simp add: binv_def)
  from boxes_push_at [OF bx q] obtain h' where h': "skynet_mq_push p m h = Inr h'" "mglob h' p = Some True"
    "boxes_ok h' (if mq_in_global q then ps else ps @ [p])" "mbox h' = (mbox h)(p \<mapsto> mq_list q @ [m])"
    "mstat h' = mstat h" "\<forall>r. r \<noteq> p \<longrightarrow> mglob h' r = mglob h r" by blast
  have s: "sched h' r = (sched h r \<or> r = p)" for r using h'(2,5,6) by (auto simp: sched_def)
  have g: "mglob h p = Some (mq_in_global q)" using q(1) by (simp add: mglob_def)
  have "of_bool (r \<in> set (if mq_in_global q then ps else ps @ [p])) + holds r F = (of_bool (sched h' r) :: nat)" for r
    using binv_count [OF assms(1), of r] g assms(2) unfolding s by (cases "r = p") (auto simp: sched_def)
  moreover have "mglob h' r = Some False \<longrightarrow> mbox h' r = Some []" for r
    using assms(1) h'(2,4,6) by (cases "r = p") (auto simp: binv_def)
  ultimately have "binv h' (if mq_in_global q then ps else ps @ [p]) F" using assms(1) h'(3,5) by (simp add: binv_def)
  with h'(1,5) show ?thesis by blast
qed

lemma binv_pop:
  assumes "binv h ps F" "0 < holds p F" "mstat h p = Some (k, rel)"
  shows "\<exists>h' r. mq_pop_at p h = Inr (h', r) \<and> mstat h' = mstat h \<and> (r \<noteq> None \<longrightarrow> binv h' ps F) \<and>
    (r = None \<longrightarrow> \<not> rel \<longrightarrow> (\<forall>G. (\<forall>s. holds s F = holds s G + of_bool (s = p)) \<longrightarrow> binv h' ps G)) \<and>
    (r = None \<longrightarrow> rel \<longrightarrow> binv h' ps F)"
proof -
  note held = binv_held [OF assms(1,2)]
  obtain q where q: "mqs h p = Some q" using held(4) by blast
  have bx: "boxes_ok h ps" using assms(1) by (simp add: binv_def)
  then obtain ms where rep: "mq_rep q ms" using q by (auto simp: boxes_ok_def)
  have mb: "mbox h p = Some ms" using mq_rep_list [OF rep] q by (simp add: mbox_def)
  show ?thesis
  proof (cases ms)
    case Nil
    let ?q = "q\<lparr>mq_overload_threshold := MQ_OVERLOAD, mq_in_global := False\<rparr>" and ?h = "put_mq p (q\<lparr>mq_overload_threshold := MQ_OVERLOAD, mq_in_global := False\<rparr>) h"
    have rep': "mq_rep ?q []" using mq_pop_nil_rep rep Nil by simp
    have bx': "boxes_ok ?h ps" by (rule boxes_put [OF bx q _ rep']) (use held(1) in simp_all)
    have st: "mstat ?h = mstat h" using q by (auto simp: mstat_def)
    have s: "sched ?h r = (if r = p then rel else sched h r)" for r
      using assms(3) q by (auto simp: sched_def mglob_def mstat_def)
    have e: "mglob ?h r = Some False \<longrightarrow> mbox ?h r = Some []" for r
      using assms(1) mq_rep_list [OF rep'] by (cases "r = p") (auto simp: binv_def mbox_def mglob_def)
    have "binv ?h ps G" if "\<forall>s. holds s F = holds s G + of_bool (s = p)" "\<not> rel" for G
    proof -
      have "of_bool (r \<in> set ps) + holds r G = (of_bool (sched ?h r) :: nat)" for r
        using binv_count [OF assms(1), of r] that held(1,2) unfolding s by (cases "r = p") auto
      with bx' e assms(1) st show ?thesis by (auto simp: binv_def)
    qed
    moreover have "binv ?h ps F" if rel
    proof -
      have "of_bool (r \<in> set ps) + holds r F = (of_bool (sched ?h r) :: nat)" for r
        using binv_count [OF assms(1), of r] that held unfolding s by (cases "r = p") auto
      with bx' e assms(1) st show ?thesis by (auto simp: binv_def)
    qed
    moreover have "mq_pop_at p h = Inr (?h, None)"
      using mq_pop_nil rep Nil by (simp add: mq_pop_at_def get_mq_Some [OF q])
    ultimately show ?thesis using st by auto
  next
    case (Cons m ms')
    from mq_pop_cons rep Cons obtain thr ov where pop: "skynet_mq_pop q =
        Inr (q\<lparr>mq_head := (mq_head q + 1) mod mq_cap q, mq_overload_threshold := thr, mq_overload := ov\<rparr>, Some m)" "0 < thr"
      by blast
    let ?q = "q\<lparr>mq_head := (mq_head q + 1) mod mq_cap q, mq_overload_threshold := thr, mq_overload := ov\<rparr>"
    have rep': "mq_rep ?q ms'" using mq_rep_advance rep Cons pop(2) by blast
    have bx': "boxes_ok (put_mq p ?q h) ps"
      by (rule boxes_put [OF bx q _ rep']) (use held(1) in simp_all)
    have st: "mstat (put_mq p ?q h) = mstat h" "mglob (put_mq p ?q h) = mglob h" using q by (auto simp: mstat_def mglob_def)
    have "mglob h p \<noteq> Some False" using assms(1) mb Cons by (auto simp: binv_def dest: spec [of _ p])
    then have g: "mglob h p = Some True" using q by (auto simp: mglob_def)
    have "mbox (put_mq p ?q h) r = mbox h r" if "r \<noteq> p" for r using that by (simp add: mbox_def)
    then have "binv (put_mq p ?q h) ps F"
      using assms(1) bx' st g unfolding binv_def sched_def by (metis option.inject)
    moreover have "mq_pop_at p h = Inr (put_mq p ?q h, Some m)" by (simp add: mq_pop_at_def get_mq_Some [OF q] pop(1))
    ultimately show ?thesis using st by auto
  qed
qed

lemma binv_mark:
  assumes "binv h ps F" "mstat h p = Some (k, False)"
  shows "\<exists>h' ps'. skynet_mq_mark_release p h = Inr h' \<and> mstat h' = (mstat h)(p \<mapsto> (k, True)) \<and> binv h' ps' F"
proof -
  obtain q where q: "mqs h p = Some q" "\<not> mq_release q" "mq_handle q = k" using assms(2) by (auto simp: mstat_def)
  have bx: "boxes_ok h ps" using assms(1) by (simp add: binv_def)
  from boxes_mark [OF bx q(1,2)] obtain h' ps' where h': "skynet_mq_mark_release p h = Inr h'" "boxes_ok h' ps'"
    "mbox h' = mbox h" "mglob h' = mglob h" "mstat h' = (mstat h)(p \<mapsto> (k, True))"
    "mq_in_global q \<longrightarrow> ps' = ps" "\<not> mq_in_global q \<longrightarrow> ps' = ps @ [p]" unfolding q(3) by blast
  have s: "sched h' r = (sched h r \<or> r = p)" for r using h'(4,5) by (auto simp: sched_def)
  have g: "mglob h p = Some (mq_in_global q)" using q(1) by (simp add: mglob_def)
  have "of_bool (r \<in> set ps') + holds r F = (of_bool (sched h' r) :: nat)" for r
    using binv_count [OF assms(1), of r] g assms(2) h'(6,7) unfolding s
    by (cases "r = p"; cases "mq_in_global q") (auto simp: sched_def)
  moreover have "k \<noteq> 0" using assms unfolding binv_def by blast
  ultimately have "binv h' ps' F" using assms(1) h'(2-5) unfolding binv_def by (simp split: if_splits)
  with h'(1,5) show ?thesis by blast
qed

lemma binv_free:
  assumes "binv h ps F" "0 < holds p F"
  shows "\<exists>h'. mq_free p h = Inr h' \<and> mstat h' = (mstat h)(p := None) \<and>
    (\<forall>G. (\<forall>r. holds r F = holds r G + of_bool (r = p)) \<longrightarrow> binv h' ps G)"
proof -
  note held = binv_held [OF assms]
  have bx: "boxes_ok h ps" and rep: "gq_rep h ps" using assms by (auto simp: binv_def boxes_ok_def)
  let ?h = "h\<lparr>mqs := (mqs h)(p := None)\<rparr>"
  have free: "mq_free p h = Inr ?h" using held(5) by (auto simp: mq_free_def gq_adm_def get_mq_def)
  have bx': "boxes_ok ?h ps" using bx gq_rep_free [OF rep held(1)] by (auto simp: boxes_ok_def)
  have v: "mstat ?h = (mstat h)(p := None)" "mglob ?h = (mglob h)(p := None)" "mbox ?h = (mbox h)(p := None)"
    by (auto simp: mstat_def mglob_def mbox_def)
  have s: "sched ?h r = (r \<noteq> p \<and> sched h r)" for r unfolding sched_def v by simp
  have "binv ?h ps G" if "\<forall>r. holds r F = holds r G + of_bool (r = p)" for G
  proof -
    have "of_bool (r \<in> set ps) + holds r G = (of_bool (sched ?h r) :: nat)" for r
      using binv_count [OF assms(1), of r] that held unfolding s by (cases "r = p") auto
    with bx' v assms(1) show ?thesis unfolding binv_def by (simp add: fun_upd_def)
  qed
  with free v(1) show ?thesis by blast
qed

lemma binv_new:
  assumes "binv h ps F" "mqs h p = None" "k \<noteq> 0" "\<And>r. holds r G = holds r F + of_bool (r = p)"
  shows "binv (skynet_mq_create k p h) ps G"
proof -
  have bx: "boxes_ok h ps" using assms(1) by (simp add: binv_def)
  have out: "p \<notin> set ps" using bx assms(2) gq_rep_allocated by (fastforce simp: boxes_ok_def)
  have "gq_rep (put_mq p (mq_new k) h) ps"
    by (rule gq_rep_outside [OF _ out]) (use bx in \<open>simp_all add: boxes_ok_def mq_new_def\<close>)
  then have bx': "boxes_ok (skynet_mq_create k p h) ps"
    using bx mq_new_rep [of k] out by (auto simp: boxes_ok_def skynet_mq_create_def)
  have v: "mstat (skynet_mq_create k p h) = (mstat h)(p \<mapsto> (k, False))" "mglob (skynet_mq_create k p h) = (mglob h)(p \<mapsto> True)"
    "r \<noteq> p \<Longrightarrow> mbox (skynet_mq_create k p h) r = mbox h r" for r
    by (auto simp: skynet_mq_create_def mstat_def mglob_def mbox_def mq_new_def)
  have s: "sched (skynet_mq_create k p h) r = (sched h r \<or> r = p)" "\<not> sched h p" for r
    unfolding sched_def v using assms(2) by (auto simp: mstat_def mglob_def)
  have "of_bool (r \<in> set ps) + holds r G = (of_bool (sched (skynet_mq_create k p h) r) :: nat)" for r
    using binv_count [OF assms(1), of r] assms(4) [of r] s(2) unfolding s(1) by (cases "r = p") auto
  with bx' v assms(1,3) show ?thesis by (auto simp: binv_def)
qed

section \<open>The invariant of the node and the frames\<close>

definition reg :: "node \<Rightarrow> ptr \<Rightarrow> bool" where
  "reg n c \<longleftrightarrow> (\<exists>h. hs_find (hof_of n) (nd_H n) h = Some c)"

definition base :: "node \<Rightarrow> ptr \<Rightarrow> nat" where
  "base n c = of_bool (reg n c) + of_bool (nd_REMOTE n = Some c)"

definition refs_ok :: "node \<Rightarrow> frame list \<Rightarrow> bool" where
  "refs_ok n F \<longleftrightarrow> (\<forall>c. (nd_ctx n c = None \<longrightarrow> base n c + refs c F = 0) \<and>
     (\<forall>x. nd_ctx n c = Some x \<longrightarrow> cx_ref x = int (base n c + refs c F)))"

definition inits_ok :: "node \<Rightarrow> frame list \<Rightarrow> bool" where
  "inits_ok n F \<longleftrightarrow> (\<forall>c x. nd_ctx n c = Some x \<longrightarrow> reg n c \<longrightarrow> cx_init x \<or> (\<exists>f \<in> set F. fstarts (cx_queue x) f))"

definition started :: "node \<Rightarrow> ptr \<Rightarrow> ptr \<Rightarrow> bool" where
  "started n c q \<longleftrightarrow> (\<exists>x. nd_ctx n c = Some x \<and> cx_queue x = q \<and> cx_init x)"

definition owns :: "node \<Rightarrow> ptr \<Rightarrow> ptr \<Rightarrow> bool" where
  "owns n c q \<longleftrightarrow> (\<exists>x. nd_ctx n c = Some x \<and> cx_queue x = q)"

fun frame_ok :: "node \<Rightarrow> frame \<Rightarrow> bool" where
  "frame_ok n (Batch c q i m) = started n c q"
| "frame_ok n (Popped c q i m msg) = started n c q"
| "frame_ok n (Entering c q i m) = started n c q"
| "frame_ok n (Callback c q i m) = started n c q"
| "frame_ok n (Requeue c q) = started n c q"
| "frame_ok n (Rotate c q nq) = started n c q"
| "frame_ok n (Init c q name param) = owns n c q"
| "frame_ok n (LaunchOk c q name param) = owns n c q"
| "frame_ok n (LaunchFailed c q) = owns n c q"
| "frame_ok n (Unlink q k) = (k \<noteq> 0)"
| "frame_ok n (Drain q k) = (k \<noteq> 0 \<and> (\<exists>j. mstat (nd_mq n) q = Some (j, True)))"
| "frame_ok n (Reply k msg) = (k \<noteq> 0)"
| "frame_ok n (Forward msg) = (nd_REMOTE n \<noteq> None)"
| "frame_ok n (Schedule q) = (\<exists>j. mstat (nd_mq n) q = Some (j, True))"
| "frame_ok n (Ready c q) = (c < nd_fresh n \<and> (\<forall>x. nd_ctx n c = Some x \<longrightarrow> cx_queue x = q))"
| "frame_ok n (Abandon q k) = (k \<noteq> 0 \<and> (\<exists>r. mstat (nd_mq n) q = Some (k, r)))"
| "frame_ok n _ = True"

text \<open>No two mailboxes have one handle, and none has one that is still to come.\<close>

definition mhand :: "mq_heap \<Rightarrow> ptr \<Rightarrow> u32 option" where
  "mhand h p = map_option fst (mstat h p)"

definition hands_ok :: "mq_heap \<Rightarrow> u32 \<Rightarrow> bool" where
  "hands_ok h index \<longleftrightarrow> (\<forall>p k. mhand h p = Some k \<longrightarrow> unat (take_bit 24 k) < unat index) \<and>
     (\<forall>p p' k. mhand h p = Some k \<longrightarrow> mhand h p' = Some k \<longrightarrow> p = p')"

definition inv :: "node \<Rightarrow> frame list \<Rightarrow> bool" where
  "inv n F \<longleftrightarrow> node_ok n \<and> (\<exists>ps. binv (nd_mq n) ps F) \<and> refs_ok n F \<and> inits_ok n F \<and>
     hands_ok (nd_mq n) (hs_handle_index (nd_H n)) \<and>
     (\<forall>f \<in> set F. frame_ok n f) \<and> nd_HARBOR n \<noteq> NOT 0"

lemma inv_perm:
  assumes "inv n F" "mset G = mset F"
  shows "inv n G"
proof -
  have "set G = set F" using assms(2) by (metis set_mset_mset)
  moreover have "refs c G = refs c F" "holds p G = holds p F" for c p using count_perm [OF assms(2)] by simp_all
  ultimately show ?thesis using assms(1) by (simp add: inv_def refs_ok_def inits_ok_def binv_def)
qed

lemma inv_ctx_some:
  assumes "inv n F" "reg n c \<or> nd_REMOTE n = Some c \<or> 0 < refs c F"
  shows "\<exists>x. nd_ctx n c = Some x"
  using assms unfolding inv_def refs_ok_def
  by (cases "nd_ctx n c") (auto simp: base_def dest: spec [of _ c])

lemma inv_ref:
  assumes "inv n F" "nd_ctx n c = Some x"
  shows "cx_ref x = int (base n c + refs c F)" "mstat (nd_mq n) (cx_queue x) = Some (cx_handle x, False)" "cx_handle x \<noteq> 0"
proof -
  show "cx_ref x = int (base n c + refs c F)"
    using assms unfolding inv_def refs_ok_def by (auto dest: spec [of _ c])
  show st: "mstat (nd_mq n) (cx_queue x) = Some (cx_handle x, False)"
    using assms by (auto simp: inv_def node_ok_def ctx_ok_def)
  then show "cx_handle x \<noteq> 0" using assms(1) unfolding inv_def binv_def by blast
qed

lemma put_ctx_REMOTE [simp]: "nd_REMOTE (put_ctx c x n) = nd_REMOTE n"
  by (simp add: put_ctx_def)

text \<open>A frame stays right when the contexts it holds and the marks for release stay.\<close>

lemma frame_ok_stable:
  assumes "frame_ok n f"
    and "\<And>c x. frefs c f \<noteq> 0 \<Longrightarrow> nd_ctx n c = Some x \<Longrightarrow>
      \<exists>y. nd_ctx n' c = Some y \<and> cx_queue y = cx_queue x \<and> (cx_init x \<longrightarrow> cx_init y)"
    and "\<And>q k r. fholds q f \<noteq> 0 \<Longrightarrow> mstat (nd_mq n) q = Some (k, r) \<Longrightarrow> \<exists>s. mstat (nd_mq n') q = Some (k, s) \<and> (r \<longrightarrow> s)"
    and "nd_fresh n \<le> nd_fresh n'" "nd_REMOTE n \<noteq> None \<Longrightarrow> nd_REMOTE n' \<noteq> None"
    and "\<And>c y. c < nd_fresh n \<Longrightarrow> nd_ctx n' c = Some y \<Longrightarrow> \<exists>x. nd_ctx n c = Some x \<and> cx_queue y = cx_queue x"
  shows "frame_ok n' f"
proof -
  have a: "started n c q \<Longrightarrow> frefs c f \<noteq> 0 \<Longrightarrow> started n' c q" for c q
    using assms(2) unfolding started_def by metis
  have b: "owns n c q \<Longrightarrow> frefs c f \<noteq> 0 \<Longrightarrow> owns n' c q" for c q
    using assms(2) unfolding owns_def by metis
  have d: "\<exists>j. mstat (nd_mq n) q = Some (j, True) \<Longrightarrow> fholds q f \<noteq> 0 \<Longrightarrow> \<exists>j. mstat (nd_mq n') q = Some (j, True)" for q
    using assms(3) by metis
  have e: "\<exists>r. mstat (nd_mq n) q = Some (k, r) \<Longrightarrow> fholds q f \<noteq> 0 \<Longrightarrow> \<exists>r. mstat (nd_mq n') q = Some (k, r)" for q k
    using assms(3) by metis
  show ?thesis
  proof (cases f)
    case (Ready c q)
    with assms(1,4,6) show ?thesis by fastforce
  qed (use assms(1,5) a b d e in auto)
qed

section \<open>Kinds of change\<close>

text \<open>
  \<open>succeeds f gs\<close>: the frames \<open>gs\<close> hold what \<open>f\<close> held. The lemmas say when the invariant of
  \<open>f\<close> with the other frames \<open>R\<close> becomes that of \<open>gs\<close> with \<open>R\<close>: nothing, a mailbox, or a
  context changed.
\<close>

definition same_refs :: "frame \<Rightarrow> frame list \<Rightarrow> bool" where
  "same_refs f gs \<longleftrightarrow> (\<forall>c. refs c gs = frefs c f)"

definition same_starts :: "frame \<Rightarrow> frame list \<Rightarrow> bool" where
  "same_starts f gs \<longleftrightarrow> (\<forall>p. fstarts p f \<longrightarrow> (\<exists>g \<in> set gs. fstarts p g))"

lemma inits_frames:
  "inv n (f # R) \<Longrightarrow> same_starts f gs \<Longrightarrow> inits_ok n (gs @ R)"
  unfolding inv_def inits_ok_def same_starts_def by (metis Un_iff set_append set_ConsD)

lemma inv_mailbox:
  assumes "inv n (f # R)" "binv h ps (gs @ R)" "mstat h = mstat (nd_mq n)" "same_refs f gs" "inits_ok n (gs @ R)"
    "\<forall>g \<in> set gs. frame_ok n g"
  shows "inv (n\<lparr>nd_mq := h\<rparr>) (gs @ R)"
proof -
  let ?n = "n\<lparr>nd_mq := h\<rparr>"
  have hof: "hof_of ?n = hof_of n" by (simp add: hof_of_def fun_eq_iff)
  then have r: "reg ?n c = reg n c" "base ?n c = base n c" for c by (simp_all add: reg_def base_def)
  have "node_ok ?n" by (rule node_ok_mq [of _ _ ps]) (use assms in \<open>simp_all add: inv_def binv_def\<close>)
  moreover have "refs_ok ?n (gs @ R)" using assms(1,4) by (simp add: inv_def refs_ok_def r same_refs_def)
  moreover have "inits_ok ?n (gs @ R)" using assms(5) by (simp add: inits_ok_def r)
  moreover have "frame_ok ?n g" if "g \<in> set (gs @ R)" for g
  proof -
    have "frame_ok n g" using that assms(1,6) by (auto simp: inv_def)
    then show ?thesis by (rule frame_ok_stable) (simp_all add: assms(3))
  qed
  moreover have "hands_ok h (hs_handle_index (nd_H n))" using assms(1,3) by (simp add: inv_def hands_ok_def mhand_def)
  ultimately show ?thesis using assms(1,2) by (auto simp: inv_def)
qed

lemma inv_same:
  assumes "inv n (f # R)" "\<And>p. holds p gs = fholds p f" "same_refs f gs" "same_starts f gs" "\<forall>g \<in> set gs. frame_ok n g"
  shows "inv n (gs @ R)"
proof -
  obtain ps where "binv (nd_mq n) ps (f # R)" using assms(1) by (auto simp: inv_def)
  then have "binv (nd_mq n) ps (gs @ R)" by (rule binv_cong) (simp add: assms(2))
  from inv_mailbox [OF assms(1) this refl assms(3) inits_frames [OF assms(1,4)] assms(5)] show ?thesis by simp
qed

lemma reg_put:
  assumes "nd_ctx n c = Some x" "cx_handle y = cx_handle x"
  shows "hof_of (put_ctx c y n) = hof_of n" "reg (put_ctx c y n) = reg n" "base (put_ctx c y n) = base n"
proof -
  show hof: "hof_of (put_ctx c y n) = hof_of n" using assms by (auto simp: hof_of_def)
  then show "reg (put_ctx c y n) = reg n" by (intro ext) (simp only: reg_def put_ctx_simps)
  then show "base (put_ctx c y n) = base n" by (simp add: base_def fun_eq_iff put_ctx_def)
qed

lemma inv_context:
  assumes "inv n (f # R)" "nd_ctx n c = Some x"
    and y: "cx_handle y = cx_handle x" "cx_queue y = cx_queue x" "0 < cx_ref y" "cx_init x \<longrightarrow> cx_init y"
      "cx_ref y - cx_ref x = int (refs c gs) - int (frefs c f)" "\<And>d. d \<noteq> c \<Longrightarrow> refs d gs = frefs d f"
    and "\<And>p. holds p gs = fholds p f" "same_starts f gs" "\<forall>g \<in> set gs. frame_ok (put_ctx c y n) g"
  shows "inv (put_ctx c y n) (gs @ R)"
proof -
  let ?n = "put_ctx c y n"
  note reg = reg_put [where y = y, OF assms(2) y(1)]
  have "node_ok ?n" by (rule node_ok_put) (use assms in \<open>simp_all add: inv_def\<close>)
  moreover have "refs_ok ?n (gs @ R)" unfolding refs_ok_def
  proof
    fix d
    show "(nd_ctx ?n d = None \<longrightarrow> base ?n d + refs d (gs @ R) = 0) \<and>
      (\<forall>x. nd_ctx ?n d = Some x \<longrightarrow> cx_ref x = int (base ?n d + refs d (gs @ R)))"
    proof (cases "d = c")
      case True
      with inv_ref(1) [OF assms(1,2)] y(5) show ?thesis by (simp add: reg)
    next
      case False
      with assms(1) y(6) show ?thesis by (auto simp: inv_def refs_ok_def reg dest: spec [of _ d])
    qed
  qed
  moreover have "inits_ok ?n (gs @ R)"
    using inits_frames [OF assms(1,10)] assms(2) y(2,4) by (fastforce simp: inits_ok_def reg)
  moreover have "frame_ok ?n g" if "g \<in> set (gs @ R)" for g
  proof (cases "g \<in> set gs")
    case False
    with that assms(1) have "frame_ok n g" by (auto simp: inv_def)
    then show ?thesis by (rule frame_ok_stable) (use assms(2) y(2,4) in \<open>auto split: if_splits\<close>)
  qed (use assms(11) in simp)
  moreover obtain ps where "binv (nd_mq n) ps (f # R)" using assms(1) by (auto simp: inv_def)
  then have "binv (nd_mq n) ps (gs @ R)" by (rule binv_cong) (simp add: assms(9))
  ultimately show ?thesis using assms(1) by (auto simp: inv_def put_ctx_def)
qed

text \<open>The last reference: the context is deleted, its mailbox marked and handed to the workers.\<close>

lemma inv_delete:
  assumes "inv n (f # R)" and x: "nd_ctx n c = Some x" "cx_ref x = 1" "frefs c f = 1"
    and g: "\<And>d. d \<noteq> c \<Longrightarrow> refs d gs = frefs d f" "refs c gs = 0" "\<And>p. holds p gs = fholds p f" "inits_ok n (gs @ R)"
      "\<And>g m. g \<in> set gs \<Longrightarrow> mstat (nd_mq m) = (mstat (nd_mq n))(cx_queue x \<mapsto> (cx_handle x, True)) \<Longrightarrow> frame_ok m g"
  shows "\<exists>n'. skynet_context_release c n = Inr (n', False) \<and> inv n' (gs @ R) \<and> reg n' = reg n"
proof -
  have zero: "base n c = 0" "refs c R = 0" using inv_ref(1) [OF assms(1) x(1)] x(2,3) by simp_all
  note st = inv_ref(2) [OF assms(1) x(1)]
  obtain ps where b: "binv (nd_mq n) ps (f # R)" using assms(1) by (auto simp: inv_def)
  from binv_mark [OF b st] obtain mq' ps' where mq': "skynet_mq_mark_release (cx_queue x) (nd_mq n) = Inr mq'"
    "mstat mq' = (mstat (nd_mq n))(cx_queue x \<mapsto> (cx_handle x, True))" "binv mq' ps' (f # R)" by blast
  define ev where "ev = nd_events (skynet_module_instance_release (cx_mod x) (cx_instance x)
    (case cx_logfile x of None \<Rightarrow> n | Some fd \<Rightarrow> n\<lparr>nd_events := nd_events n @ [CloseFile fd]\<rparr>))"
  let ?n = "n\<lparr>nd_mq := mq', nd_ctx := (nd_ctx n)(c := None), nd_total := nd_total n - 1, nd_events := ev\<rparr>"
  have run: "skynet_context_release c n = Inr (?n, False)"
    using x mq'(1)
    by (cases "cx_logfile x"; cases "m_release (M_m (nd_M n) ! cx_mod x)")
      (simp_all add: skynet_context_release_def delete_context_def get_ctx_def put_ctx_def on_mq_def
        context_dec_def skynet_module_instance_release_def ev_def Let_def)
  have hs: "hs_ok (hof_of n) (nd_H n)" using assms(1) by (simp add: inv_def node_ok_def)
  have out: "Some c \<notin> set (hs_slot (nd_H n))" using hs_in_slot [OF hs] zero(1) by (auto simp: base_def reg_def)
  have frame: "hs_ok (hof_of ?n) (nd_H n) \<and> hs_find (hof_of ?n) (nd_H n) = hs_find (hof_of n) (nd_H n)"
    by (rule hs_ok_frame [OF hs]) (use out in \<open>auto simp: hof_of_def\<close>)
  then have r: "reg ?n = reg n" "base ?n = base n" by (auto simp: reg_def base_def fun_eq_iff)
  have ctxs: "ctx_ok n" using assms(1) by (simp add: inv_def node_ok_def)
  have "ctx_ok ?n" unfolding ctx_ok_def
  proof (intro conjI allI impI)
    fix d y assume "nd_ctx ?n d = Some y"
    then have d: "d \<noteq> c" "nd_ctx n d = Some y" by (auto split: if_splits)
    with ctxs x have "cx_queue y \<noteq> cx_queue x" by (auto simp: ctx_ok_def)
    with ctxs d show "0 < cx_ref y" "mstat (nd_mq ?n) (cx_queue y) = Some (cx_handle y, False)"
      by (auto simp: ctx_ok_def mq'(2))
  next
    fix d e y z assume "nd_ctx ?n d = Some y" "nd_ctx ?n e = Some z" "cx_queue y = cx_queue z"
    with ctxs show "d = e" by (auto simp: ctx_ok_def split: if_splits)
  qed
  moreover have "fresh_ok ?n"
  proof -
    have "mqs mq' p = None" if "mqs (nd_mq n) p = None" for p
      using that st fun_cong [OF mq'(2), of p] by (auto simp: mstat_def split: if_splits)
    with assms(1) show ?thesis by (auto simp: inv_def node_ok_def fresh_ok_def)
  qed
  ultimately have ok: "node_ok ?n" using assms(1) frame mq'(3) by (auto simp: inv_def node_ok_def binv_def)
  have "refs_ok n (f # R)" using assms(1) by (simp add: inv_def)
  then have "refs_ok ?n (gs @ R)" using g(1,2) zero unfolding refs_ok_def r by (simp add: fun_upd_apply)
  moreover have "inits_ok ?n (gs @ R)" using g(4) by (simp add: inits_ok_def r)
  moreover have "frame_ok ?n k" if "k \<in> set (gs @ R)" for k
  proof (cases "k \<in> set gs")
    case False
    with that assms(1) have k: "frame_ok n k" "k \<in> set R" by (auto simp: inv_def)
    then have "frefs c k = 0" using refs_pos [OF k(2), of c] zero(2) by simp
    with k(1) show ?thesis
      by (rule_tac frame_ok_stable) (use st in \<open>auto simp: mq'(2) split: if_splits\<close>)
  qed (use g(5) mq'(2) in simp)
  moreover have "binv mq' ps' (gs @ R)" by (rule binv_cong [OF mq'(3)]) (simp add: g(3))
  moreover have "hands_ok mq' (hs_handle_index (nd_H n))"
  proof -
    have "mhand mq' = mhand (nd_mq n)" using st by (simp add: mhand_def mq'(2) fun_eq_iff)
    with assms(1) show ?thesis by (simp add: inv_def hands_ok_def)
  qed
  ultimately have "inv ?n (gs @ R)" using assms(1) ok by (auto simp: inv_def)
  with run r(1) show ?thesis by blast
qed

lemma inv_release:
  assumes "inv n (f # R)" and x: "nd_ctx n c = Some x" "frefs c f = 1"
    and g: "\<And>d. d \<noteq> c \<Longrightarrow> refs d gs = frefs d f" "refs c gs = 0" "\<And>p. holds p gs = fholds p f" "same_starts f gs"
      "\<And>g m. g \<in> set gs \<Longrightarrow> mstat (nd_mq m) = mstat (nd_mq n) \<or>
         mstat (nd_mq m) = (mstat (nd_mq n))(cx_queue x \<mapsto> (cx_handle x, True)) \<Longrightarrow> frame_ok m g"
  shows "\<exists>n'. skynet_context_release c n = Inr (n', cx_ref x \<noteq> 1) \<and> inv n' (gs @ R) \<and> reg n' = reg n"
proof (cases "cx_ref x = 1")
  case True
  with inv_delete [OF assms(1) x(1) True x(2) g(1-3) inits_frames [OF assms(1) g(4)]] g(5) show ?thesis by simp
next
  case False
  have "cx_ref x = int (base n c + refs c (f # R))" by (rule inv_ref(1) [OF assms(1) x(1)])
  with False x(2) have "0 < cx_ref x - 1" by simp
  then have "inv (put_ctx c (x\<lparr>cx_ref := cx_ref x - 1\<rparr>) n) (gs @ R)"
    by (intro inv_context [OF assms(1) x(1)]) (use g x(2) in simp_all)
  with release_held [OF x(1) False] reg_put(2) [OF x(1)] False show ?thesis by simp
qed

end
