(* ===== verification/DispatchActions.thy ===== *)
theory DispatchActions
  imports DispatchInvariant
begin

text \<open>
  Every action of a frame of \<open>Dispatch\<close> succeeds where the invariant holds, and keeps it; one
  lemma per kind of frame.
\<close>

section \<open>Every action\<close>

text \<open>
  \<open>good w f n R\<close>: the action of \<open>f\<close> does not fault, the invariant holds again, no handle but
  the one a \<open>Retire\<close> names leaves the table, and what the new frames expose was exposed before
  or is in the table.
\<close>

definition good :: "int \<Rightarrow> frame \<Rightarrow> node \<Rightarrow> frame list \<Rightarrow> bool" where
  "good w f n R \<longleftrightarrow> (\<exists>n' gs. frame_step w f n = Inr (n', gs) \<and> inv n' (gs @ R) \<and>
     (\<forall>c. reg n c \<longrightarrow> reg n' c \<or> (\<exists>h q. f \<in> {Retire h, Abandon q h} \<and> hs_find (hof_of n) (nd_H n) h = Some c)) \<and>
     (\<forall>fs c. c \<in> set (exposed (gs @ fs)) \<longrightarrow> c \<in> set (exposed (f # fs)) \<or> reg n' c))"

lemma reg_mq [simp]: "reg (n\<lparr>nd_mq := h\<rparr>) = reg n"
proof -
  have "hof_of (n\<lparr>nd_mq := h\<rparr>) = hof_of n" by (simp add: hof_of_def fun_eq_iff)
  then show ?thesis by (intro ext) (simp add: reg_def)
qed

text \<open>Frames that need nothing from the table.\<close>

definition plain :: "frame list \<Rightarrow> bool" where
  "plain gs \<longleftrightarrow> (\<forall>fs. exposed (gs @ fs) = exposed fs)"

lemma plain_Nil [simp]: "plain []"
  by (simp add: plain_def)

lemma plain_Cons: "(\<And>fs. exposed_by g fs = []) \<Longrightarrow> plain gs \<Longrightarrow> plain (g # gs)"
  by (simp add: plain_def)

lemma good_same:
  assumes "inv n (f # R)" "frame_step w f n = Inr (n, gs)" "\<And>p. holds p gs = fholds p f" "same_refs f gs"
    "same_starts f gs" "\<forall>g \<in> set gs. frame_ok n g" "plain gs"
  shows "good w f n R"
  using inv_same [OF assms(1,3-6)] assms(2,7) by (auto simp: good_def plain_def)

lemma good_mailbox:
  assumes "inv n (f # R)" "frame_step w f n = Inr (n\<lparr>nd_mq := h\<rparr>, gs)" "binv h ps (gs @ R)" "mstat h = mstat (nd_mq n)"
    "same_refs f gs" "same_starts f gs" "\<forall>g \<in> set gs. frame_ok n g" "plain gs"
  shows "good w f n R"
  using inv_mailbox [OF assms(1,3-5) inits_frames [OF assms(1,6)] assms(7)] assms(2,8) by (fastforce simp: good_def plain_def)

lemma good_context:
  assumes "inv n (f # R)" "nd_ctx n c = Some x" "frame_step w f n = Inr (put_ctx c y n, gs)"
    and "cx_handle y = cx_handle x" "cx_queue y = cx_queue x" "0 < cx_ref y" "cx_init x \<longrightarrow> cx_init y"
      "cx_ref y - cx_ref x = int (refs c gs) - int (frefs c f)" "\<And>d. d \<noteq> c \<Longrightarrow> refs d gs = frefs d f"
      "\<And>p. holds p gs = fholds p f" "same_starts f gs" "\<forall>g \<in> set gs. frame_ok (put_ctx c y n) g" "plain gs"
  shows "good w f n R"
  using inv_context [OF assms(1,2,4-12)] reg_put(2) [OF assms(2,4)] assms(3,13) by (auto simp: good_def plain_def)

lemma inv_binv: "inv n F \<Longrightarrow> \<exists>ps. binv (nd_mq n) ps F"
  by (simp add: inv_def)

lemma inv_grab:
  assumes "inv n (f # R)"
  shows "handle_grab h n = (case hs_find (hof_of n) (nd_H n) h of None \<Rightarrow> Inr (n, None)
    | Some c \<Rightarrow> Inr (put_ctx c ((the (nd_ctx n c))\<lparr>cx_ref := cx_ref (the (nd_ctx n c)) + 1\<rparr>) n, Some c))"
proof (cases "hs_find (hof_of n) (nd_H n) h")
  case None
  then show ?thesis using assms by (simp add: handle_grab_None inv_def node_ok_def)
next
  case (Some c)
  from find_ctx [OF this] obtain x where "nd_ctx n c = Some x" by blast
  with Some handle_grab_Some assms show ?thesis by (simp add: inv_def node_ok_def)
qed

lemmas frame_simps = same_refs_def same_starts_def plain_def

lemma fstarts_holds: "fstarts p f \<Longrightarrow> fholds p f = 1"
  by (cases f) auto

lemma held_mq:
  assumes "inv n F" "0 < holds q F"
  shows "\<exists>mq r. mqs (nd_mq n) q = Some mq \<and> mstat (nd_mq n) q = Some (mq_handle mq, r) \<and> r = mq_release mq \<and> mq_handle mq \<noteq> 0"
proof -
  obtain ps where b: "binv (nd_mq n) ps F" using inv_binv [OF assms(1)] by blast
  from binv_held(4) [OF b assms(2)] obtain mq where mq: "mqs (nd_mq n) q = Some mq" by blast
  then have st: "mstat (nd_mq n) q = Some (mq_handle mq, mq_release mq)" by (simp add: mstat_def)
  then have "mq_handle mq \<noteq> 0" using b unfolding binv_def by blast
  with mq st show ?thesis by blast
qed

lemma owner_unique:
  assumes "inv n F" "nd_ctx n c = Some x" "mstat (nd_mq n) q = Some (cx_handle x, r)"
  shows "cx_queue x = q"
proof -
  have "mhand (nd_mq n) (cx_queue x) = Some (cx_handle x)" "mhand (nd_mq n) q = Some (cx_handle x)"
    using inv_ref(2) [OF assms(1,2)] assms(3) by (simp_all add: mhand_def)
  with assms(1) show ?thesis unfolding inv_def hands_ok_def by blast
qed

text \<open>A mailbox that a frame other than a launch holds: its service, if it is in the table, is initialised.\<close>

lemma held_init:
  assumes "inv n (f # R)" "nd_ctx n c = Some x" "reg n c" "0 < fholds (cx_queue x) f" "\<not> fstarts (cx_queue x) f"
  shows "cx_init x"
proof (rule ccontr)
  assume "\<not> cx_init x"
  moreover have "inits_ok n (f # R)" using assms(1) by (simp add: inv_def)
  ultimately have "\<exists>g \<in> set (f # R). fstarts (cx_queue x) g" using assms(2,3) unfolding inits_ok_def by blast
  with assms(5) obtain g where g: "g \<in> set R" "fstarts (cx_queue x) g" by auto
  then have "1 \<le> holds (cx_queue x) R" using holds_pos [OF g(1), of "cx_queue x"] fstarts_holds [OF g(2)] by simp
  with assms(4) have "holds (cx_queue x) (f # R) \<noteq> 1" "0 < holds (cx_queue x) (f # R)" by simp_all
  with binv_held(3) inv_binv [OF assms(1)] show False by blast
qed

lemma pop_global_node:
  assumes "inv n F"
  shows "\<exists>h r. pop_global n = Inr (n\<lparr>nd_mq := h\<rparr>, r) \<and> mstat h = mstat (nd_mq n) \<and>
    (\<forall>G. (\<forall>p. holds p G = holds p F + of_bool (r = Some p)) \<longrightarrow> (\<exists>ps. binv h ps G))"
proof -
  obtain ps where b: "binv (nd_mq n) ps F" using inv_binv [OF assms] by blast
  from binv_pop_global [OF b] show ?thesis by (fastforce simp: pop_global_def)
qed

lemma push_global_node:
  assumes "inv n F" "0 < holds q F"
  shows "\<exists>h. on_mq (skynet_globalmq_push q) n = Inr (n\<lparr>nd_mq := h\<rparr>) \<and> mstat h = mstat (nd_mq n) \<and>
    (\<forall>G. (\<forall>r. holds r F = holds r G + of_bool (r = q)) \<longrightarrow> (\<exists>ps. binv h ps G))"
proof -
  obtain ps where b: "binv (nd_mq n) ps F" using inv_binv [OF assms(1)] by blast
  from binv_push_global [OF b assms(2)] show ?thesis by (fastforce simp: on_mq_def)
qed

lemma push_node:
  assumes "inv n F" "nd_ctx n c = Some x" "\<And>p. holds p G = holds p F"
  shows "\<exists>h ps. on_mq (skynet_mq_push (cx_queue x) m) n = Inr (n\<lparr>nd_mq := h\<rparr>) \<and> mstat h = mstat (nd_mq n) \<and> binv h ps G"
proof -
  obtain ps where b: "binv (nd_mq n) ps F" using inv_binv [OF assms(1)] by blast
  from binv_push [OF b inv_ref(2) [OF assms(1,2)], of m] obtain h ps' where
    h: "skynet_mq_push (cx_queue x) m (nd_mq n) = Inr h" "mstat h = mstat (nd_mq n)" "binv h ps' F" by blast
  have "binv h ps' G" by (rule binv_cong [OF h(3) assms(3)])
  with h show ?thesis by (auto simp: on_mq_def)
qed

lemma good_worker_none: "inv n (Worker None # R) \<Longrightarrow> good w (Worker None) n R"
proof -
  assume i: "inv n (Worker None # R)"
  from pop_global_node [OF i] obtain h r ps where h: "pop_global n = Inr (n\<lparr>nd_mq := h\<rparr>, r)" "mstat h = mstat (nd_mq n)"
    "binv h ps ([Worker r] @ R)" by fastforce
  show ?thesis by (rule good_mailbox [OF i _ h(3,2)]) (simp_all add: frame_simps worker_call_def h(1))
qed

lemma good_worker_some:
  assumes i: "inv n (Worker (Some q) # R)"
  shows "good w (Worker (Some q)) n R"
proof -
  from held_mq [OF i, of q] obtain mq r where mq: "mqs (nd_mq n) q = Some mq" "mstat (nd_mq n) q = Some (mq_handle mq, r)"
    "mq_handle mq \<noteq> 0" by auto
  show ?thesis
  proof (cases "hs_find (hof_of n) (nd_H n) (mq_handle mq)")
    case None
    then show ?thesis
      by (intro good_same [OF i, where gs = "[Unlink q (mq_handle mq), Worker None]"])
        (use mq in \<open>simp_all add: frame_simps worker_call_def get_mq_def inv_grab [OF i]\<close>)
  next
    case (Some c)
    from find_ctx [OF this] obtain x where x: "nd_ctx n c = Some x" "cx_handle x = mq_handle mq" by blast
    have q: "cx_queue x = q" by (rule owner_unique [OF i x(1), of q r]) (simp add: mq(2) x(2))
    have "reg n c" using Some by (auto simp: reg_def)
    then have init: "cx_init x" by (rule held_init [OF i x(1)]) (simp_all add: q)
    have "0 < cx_ref x" using i x(1) by (auto simp: inv_def node_ok_def ctx_ok_def)
    then show ?thesis
      by (intro good_context [OF i x(1), where gs = "[Batch c q 0 1]" and y = "x\<lparr>cx_ref := cx_ref x + 1\<rparr>"])
        (use mq x init Some q in \<open>simp_all add: frame_simps worker_call_def get_mq_def inv_grab [OF i] started_def\<close>)
  qed
qed

lemma good_batch:
  assumes i: "inv n (Batch c q j m # R)"
  shows "good w (Batch c q j m) n R"
proof (cases "m \<le> j")
  case True
  then show ?thesis
    by (intro good_same [OF i, where gs = "[Requeue c q]"]) (use i in \<open>simp_all add: frame_simps batch_pop_def inv_def\<close>)
next
  case False
  have fr: "started n c q" using i by (simp add: inv_def)
  then obtain x where x: "nd_ctx n c = Some x" "cx_queue x = q" by (auto simp: started_def)
  obtain ps where b: "binv (nd_mq n) ps (Batch c q j m # R)" using inv_binv [OF i] by blast
  have hq: "0 < holds q (Batch c q j m # R)" by simp
  from binv_pop [OF b hq inv_ref(2) [OF i x(1), unfolded x(2)]] obtain h r where
    h: "mq_pop_at q (nd_mq n) = Inr (h, r)" "mstat h = mstat (nd_mq n)" "r \<noteq> None \<Longrightarrow> binv h ps (Batch c q j m # R)"
      "r = None \<Longrightarrow> \<forall>G. (\<forall>s. holds s (Batch c q j m # R) = holds s G + of_bool (s = q)) \<longrightarrow> binv h ps G" by blast
  show ?thesis
  proof (cases r)
    case None
    have b': "binv h ps ([Release c, Worker None] @ R)" using h(4) [OF None] by simp
    show ?thesis by (rule good_mailbox [OF i _ b' h(2)]) (use False None in \<open>simp_all add: frame_simps batch_pop_def h(1)\<close>)
  next
    case (Some msg)
    have b': "binv h ps ([Popped c q j m msg] @ R)" using h(3) Some by (auto intro: binv_cong)
    show ?thesis by (rule good_mailbox [OF i _ b' h(2)]) (use False Some fr in \<open>simp_all add: frame_simps batch_pop_def h(1)\<close>)
  qed
qed

lemma good_popped:
  assumes i: "inv n (Popped c q j m msg # R)"
  shows "good w (Popped c q j m msg) n R"
proof -
  have fr: "started n c q" using i by (simp add: inv_def)
  from held_mq [OF i, of q] obtain mq where mq: "mqs (nd_mq n) q = Some mq" by auto
  obtain mq' ov where ov: "skynet_mq_overload mq = (mq', ov)" by fastforce
  obtain ps where b: "binv (nd_mq n) ps (Popped c q j m msg # R)" using inv_binv [OF i] by blast
  let ?m = "if j = 0 \<and> 0 \<le> w then batch_length w (skynet_mq_length mq) else m"
  let ?gs = "(if ov \<noteq> 0 then [Log (Some c) (''May overload, message queue length = '' @ fmt_u (nat ov))] else []) @ [Entering c q j ?m]"
  let ?h = "put_mq q mq' (nd_mq n)"
  have v: "mq_next mq' = mq_next mq" "mq_list mq' = mq_list mq" "mq_in_global mq' = mq_in_global mq"
    "mq_handle mq' = mq_handle mq" "mq_release mq' = mq_release mq" "mq_rep mq ms \<Longrightarrow> mq_rep mq' ms" for ms
    using ov by (auto simp: skynet_mq_overload_def split: if_splits)
  have views: "mstat ?h = mstat (nd_mq n)" "mglob ?h = mglob (nd_mq n)" "mbox ?h = mbox (nd_mq n)"
    using mq v by (auto simp: mstat_def mglob_def mbox_def)
  have bx: "boxes_ok (nd_mq n) ps" using b by (simp add: binv_def)
  then obtain ms where "mq_rep mq ms" using mq by (auto simp: boxes_ok_def)
  then have "boxes_ok ?h ps" by (intro boxes_put [OF bx mq v(1) v(6)]) (use bx mq v in \<open>auto simp: boxes_ok_def\<close>)
  then have b': "binv ?h ps (?gs @ R)" using b views by (simp add: binv_def sched_def)
  show ?thesis
    by (rule good_mailbox [OF i _ b' views(1)])
      (use fr in \<open>auto simp: frame_simps batch_overload_def get_mq_def mq ov\<close>)
qed

lemma good_entering:
  assumes i: "inv n (Entering c q j m # R)"
  shows "good w (Entering c q j m) n R"
proof -
  have fr: "started n c q" using i by (simp add: inv_def)
  then obtain x where x: "nd_ctx n c = Some x" "cx_queue x = q" "cx_init x" by (auto simp: started_def)
  show ?thesis
  proof (cases "cx_cb x")
    case None
    then show ?thesis
      by (intro good_same [OF i, where gs = "[Batch c q (Suc j) m]"])
        (use fr x in \<open>simp_all add: frame_simps batch_enter_def get_ctx_def\<close>)
  next
    case (Some cb)
    have "0 < cx_ref x" using i x(1) by (auto simp: inv_def node_ok_def ctx_ok_def)
    with Some show ?thesis
      by (intro good_context [OF i x(1), where gs = "[Callback c q j m]" and y = "x\<lparr>cx_message_count := cx_message_count x + 1\<rparr>"])
        (use x in \<open>simp_all add: frame_simps batch_enter_def get_ctx_def started_def\<close>)
  qed
qed

lemma good_requeue:
  assumes i: "inv n (Requeue c q # R)"
  shows "good w (Requeue c q) n R"
proof -
  have fr: "started n c q" using i by (simp add: inv_def)
  then obtain x where x: "nd_ctx n c = Some x" "cx_queue x = q" by (auto simp: started_def)
  from pop_global_node [OF i] obtain h r where h: "pop_global n = Inr (n\<lparr>nd_mq := h\<rparr>, r)" "mstat h = mstat (nd_mq n)"
    "\<forall>G. (\<forall>p. holds p G = holds p (Requeue c q # R) + of_bool (r = Some p)) \<longrightarrow> (\<exists>ps. binv h ps G)" by blast
  let ?gs = "case r of None \<Rightarrow> [Release c, Worker (Some q)] | Some q' \<Rightarrow> [Rotate c q q']"
  from h(3) obtain ps where b: "binv h ps (?gs @ R)" by (fastforce split: option.splits)
  show ?thesis
    by (rule good_mailbox [OF i _ b h(2)])
      (use fr in \<open>auto simp: frame_simps batch_end_def get_ctx_def x h(1) split: option.splits\<close>)
qed

lemma good_rotate:
  assumes i: "inv n (Rotate c q nq # R)"
  shows "good w (Rotate c q nq) n R"
proof -
  from push_global_node [OF i, of q] obtain h ps where h: "on_mq (skynet_globalmq_push q) n = Inr (n\<lparr>nd_mq := h\<rparr>)"
    "mstat h = mstat (nd_mq n)" "binv h ps ([Release c, Worker (Some nq)] @ R)" by fastforce
  show ?thesis by (rule good_mailbox [OF i _ h(3,2)]) (simp_all add: frame_simps h(1))
qed

lemma good_push:
  assumes i: "inv n (Push k msg # R)"
  shows "good w (Push k msg) n R"
proof (cases "hs_find (hof_of n) (nd_H n) k")
  case None
  then show ?thesis
    by (intro good_same [OF i, where gs = "[]"]) (simp_all add: frame_simps push_grab_def inv_grab [OF i])
next
  case (Some c)
  from find_ctx [OF this] obtain x where x: "nd_ctx n c = Some x" by blast
  have "0 < cx_ref x" using i x by (auto simp: inv_def node_ok_def ctx_ok_def)
  with Some x show ?thesis
    by (intro good_context [OF i x, where gs = "[Deliver c msg]" and y = "x\<lparr>cx_ref := cx_ref x + 1\<rparr>"])
      (simp_all add: frame_simps push_grab_def inv_grab [OF i])
qed

lemma good_deliver:
  assumes i: "inv n (Deliver c msg # R)"
  shows "good w (Deliver c msg) n R"
proof -
  from inv_ctx_some [OF i, of c] obtain x where x: "nd_ctx n c = Some x" by auto
  from push_node [OF i x, of "[Release c] @ R" msg] obtain h ps where
    h: "on_mq (skynet_mq_push (cx_queue x) msg) n = Inr (n\<lparr>nd_mq := h\<rparr>)" "mstat h = mstat (nd_mq n)" "binv h ps ([Release c] @ R)"
    by auto
  show ?thesis by (rule good_mailbox [OF i _ h(3,2)]) (simp_all add: frame_simps push_deliver_def get_ctx_def x h(1))
qed

lemma good_forward:
  assumes i: "inv n (Forward msg # R)"
  shows "good w (Forward msg) n R"
proof -
  obtain c where c: "nd_REMOTE n = Some c" using i by (auto simp: inv_def)
  from inv_ctx_some [OF i, of c] c obtain x where x: "nd_ctx n c = Some x" by auto
  from push_node [OF i x, of "[] @ R" msg] obtain h ps where
    h: "on_mq (skynet_mq_push (cx_queue x) msg) n = Inr (n\<lparr>nd_mq := h\<rparr>)" "mstat h = mstat (nd_mq n)" "binv h ps ([] @ R)"
    by auto
  show ?thesis by (rule good_mailbox [OF i _ h(3,2)]) (simp_all add: frame_simps harbor_forward_def get_ctx_def x c h(1))
qed

lemma good_release:
  assumes i: "inv n (Release c # R)"
  shows "good w (Release c) n R"
proof -
  from inv_ctx_some [OF i, of c] obtain x where x: "nd_ctx n c = Some x" by auto
  from inv_release [OF i x, where gs = "[]"] show ?thesis by (auto simp: good_def frame_simps)
qed

lemma good_unlink:
  assumes i: "inv n (Unlink q k # R)"
  shows "good w (Unlink q k) n R"
proof -
  from held_mq [OF i, of q] obtain mq where mq: "mqs (nd_mq n) q = Some mq" "mstat (nd_mq n) q = Some (mq_handle mq, mq_release mq)" by auto
  have k: "k \<noteq> 0" using i by (simp add: inv_def)
  show ?thesis
  proof (cases "mq_release mq")
    case True
    with mq k show ?thesis
      by (intro good_same [OF i, where gs = "[Drain q k]"]) (simp_all add: frame_simps release_queue_def get_mq_def)
  next
    case False
    from push_global_node [OF i, of q] obtain h ps where h: "on_mq (skynet_globalmq_push q) n = Inr (n\<lparr>nd_mq := h\<rparr>)"
      "mstat h = mstat (nd_mq n)" "binv h ps ([] @ R)" by fastforce
    show ?thesis by (rule good_mailbox [OF i _ h(3,2)]) (use False in \<open>simp_all add: frame_simps release_queue_def get_mq_def mq h(1)\<close>)
  qed
qed

lemma good_schedule:
  assumes i: "inv n (Schedule q # R)"
  shows "good w (Schedule q) n R"
proof -
  from push_global_node [OF i, of q] obtain h ps where h: "on_mq (skynet_globalmq_push q) n = Inr (n\<lparr>nd_mq := h\<rparr>)"
    "mstat h = mstat (nd_mq n)" "binv h ps ([] @ R)" by fastforce
  show ?thesis by (rule good_mailbox [OF i _ h(3,2)]) (simp_all add: frame_simps h(1))
qed

text \<open>Changes that the invariant does not see: the cached logger and a new buffer.\<close>

lemma inv_unseen:
  assumes "inv n F" "nd_fresh n \<le> f" "\<forall>p. f \<le> p \<longrightarrow> b p = None"
  shows "inv (n\<lparr>nd_logger := l, nd_bufs := b, nd_fresh := f\<rparr>) F" "reg (n\<lparr>nd_logger := l, nd_bufs := b, nd_fresh := f\<rparr>) = reg n"
proof -
  let ?n = "n\<lparr>nd_logger := l, nd_bufs := b, nd_fresh := f\<rparr>"
  have hof: "hof_of ?n = hof_of n" by (rule ext) (simp add: hof_of_def)
  then show r: "reg ?n = reg n" by (intro ext) (simp add: reg_def)
  then have base: "base ?n = base n" by (intro ext) (simp add: base_def)
  have "node_ok ?n" using assms by (auto simp: inv_def node_ok_def ctx_ok_def fresh_ok_def hof)
  moreover have "frame_ok ?n g" if "g \<in> set F" for g
  proof -
    have "frame_ok n g" using assms(1) that by (simp add: inv_def)
    then show ?thesis by (rule frame_ok_stable) (use assms(2) in auto)
  qed
  ultimately show "inv ?n F" using assms(1) by (simp add: inv_def refs_ok_def inits_ok_def base r)
qed

lemma inv_alloc:
  assumes "inv n F" "alloc_buf b (n\<lparr>nd_logger := l\<rparr>) = (n1, p)"
  shows "inv n1 F" "reg n1 = reg n" "nd_ctx n1 = nd_ctx n" "nd_REMOTE n1 = nd_REMOTE n"
proof -
  have n1: "n1 = n\<lparr>nd_logger := l, nd_bufs := (nd_bufs n)(nd_fresh n \<mapsto> b), nd_fresh := nd_fresh n + 1\<rparr>"
    using assms(2) by (auto simp: alloc_buf_def)
  have "\<forall>p. nd_fresh n + 1 \<le> p \<longrightarrow> ((nd_bufs n)(nd_fresh n \<mapsto> b)) p = None"
    using assms(1) by (simp add: inv_def node_ok_def fresh_ok_def)
  from inv_unseen [where b = "(nd_bufs n)(nd_fresh n \<mapsto> b)", OF assms(1) _ this, of l] show "inv n1 F" "reg n1 = reg n" by (simp_all add: n1)
  show "nd_ctx n1 = nd_ctx n" "nd_REMOTE n1 = nd_REMOTE n" by (simp_all add: n1)
qed

lemma good_unseen:
  assumes "inv n' (f # R)" "reg n' = reg n" "frame_step w f n = Inr (n', gs)" "\<And>p. holds p gs = fholds p f"
    "same_refs f gs" "same_starts f gs" "\<forall>g \<in> set gs. frame_ok n' g" "plain gs"
  shows "good w f n R"
  using inv_same [OF assms(1,4-7)] assms(2,3,8) by (auto simp: good_def plain_def)

lemma good_reply:
  assumes i: "inv n (Reply k msg # R)"
    and h: "nd_REMOTE n \<noteq> None \<or> msg_source msg = 0 \<or> skynet_harbor_message_isremote (msg_source msg) n = Inr False"
  shows "good w (Reply k msg) n R"
proof -
  have k: "k \<noteq> 0" and hb: "nd_HARBOR n \<noteq> NOT 0" using i by (simp_all add: inv_def)
  show ?thesis
  proof (cases "msg_source msg = 0")
    case True
    with k show ?thesis
      by (intro good_same [OF i, where gs = "[]"]) (simp_all add: frame_simps drop_reply_def)
  next
    case False
    obtain rem where rem: "skynet_harbor_message_isremote (msg_source msg) n = Inr rem"
      using hb by (simp add: skynet_harbor_message_isremote_def Let_def)
    show ?thesis
    proof (cases rem)
      case True
      let ?b = "Remote \<lparr>rm_name = [], rm_handle = msg_source msg, rm_message = None, rm_sz = 0, rm_type = PTYPE_ERROR\<rparr>"
      obtain n1 p where a: "alloc_buf ?b n = (n1, p)" by fastforce
      then have "alloc_buf ?b (n\<lparr>nd_logger := nd_logger n\<rparr>) = (n1, p)" by simp
      note al = inv_alloc [OF i this]
      have "nd_REMOTE n1 \<noteq> None" using al(4) h rem True \<open>msg_source msg \<noteq> 0\<close> by simp
      with True False k rem a show ?thesis
        by (intro good_unseen [OF al(1,2), where gs = "[Forward \<lparr>msg_source = k, msg_session = 0, msg_data = Some p,
              msg_sz = remote_message_size OR push_bit MESSAGE_TYPE_SHIFT (scast PTYPE_SYSTEM)\<rparr>]"])
          (simp_all add: frame_simps drop_reply_def)
    next
      case False
      with \<open>msg_source msg \<noteq> 0\<close> k rem show ?thesis
        by (intro good_same [OF i, where gs = "[Push (msg_source msg) (error_reply k)]"])
          (simp_all add: frame_simps drop_reply_def)
    qed
  qed
qed

lemma good_log:
  assumes i: "inv n (Log c text # R)" and c: "live_ctx c n"
  shows "good w (Log c text) n R"
proof -
  have nm: "hs_array_ok (nd_H n)" "names_ok (nd_H n)" using i hs_ok_array by (auto simp: inv_def node_ok_def)
  have "c_string ''logger''" by (simp add: c_string_def)
  from findname_spec [OF nm this]
  have lg: "(if nd_logger n = 0 then skynet_handle_findname ''logger'' (nd_H n) else Inr (nd_logger n)) = Inr (logger_of n)"
    by (simp add: logger_of_def)
  show ?thesis
  proof (cases "logger_of n = 0")
    case True
    let ?n = "n\<lparr>nd_logger := 0, nd_bufs := nd_bufs n, nd_fresh := nd_fresh n\<rparr>"
    have "\<forall>p. nd_fresh n \<le> p \<longrightarrow> nd_bufs n p = None" using i by (simp add: inv_def node_ok_def fresh_ok_def)
    note un = inv_unseen [OF i order_refl this, of 0]
    show ?thesis
      by (rule good_unseen [OF un, where gs = "[]"]) (use True in \<open>simp_all add: frame_simps log_text_def lg\<close>)
  next
    case False
    obtain n2 p where a: "alloc_buf (Bytes (text @ [CHR 0x00])) (n\<lparr>nd_logger := logger_of n\<rparr>) = (n2, p)" by fastforce
    note al = inv_alloc [OF i a]
    let ?src = "case c of None \<Rightarrow> 0 | Some p \<Rightarrow> cx_handle (the (nd_ctx n p))"
    have src: "(case c of None \<Rightarrow> Inr 0 | Some p \<Rightarrow> bind_res (get_ctx p n2) (\<lambda>x. Inr (cx_handle x))) = Inr ?src"
      using c al(3) by (cases c) (auto simp: live_ctx_def get_ctx_def)
    show ?thesis
      by (rule good_unseen [OF al(1,2), where gs = "[Push (logger_of n) (log_message ?src text p)]"])
        (use False in \<open>simp_all add: frame_simps log_text_def lg a src\<close>)
  qed
qed

lemma inv_free:
  assumes i: "inv n (Drain q k # R)"
  shows "\<exists>h. mq_free q (nd_mq n) = Inr h \<and> inv (n\<lparr>nd_mq := h\<rparr>) R"
proof -
  obtain j where st: "mstat (nd_mq n) q = Some (j, True)" using i by (auto simp: inv_def)
  obtain ps where b: "binv (nd_mq n) ps (Drain q k # R)" using inv_binv [OF i] by blast
  have hq: "0 < holds q (Drain q k # R)" by simp
  note held = binv_held [OF b hq]
  from binv_free [OF b hq] obtain h where h: "mq_free q (nd_mq n) = Inr h" "mstat h = (mstat (nd_mq n))(q := None)" "binv h ps R"
    by fastforce
  let ?n = "n\<lparr>nd_mq := h\<rparr>"
  have "node_ok n" using i by (simp add: inv_def)
  from node_ok_free_mq [OF this st held(5)] h(1) have "node_ok ?n" by auto
  moreover have hof: "hof_of ?n = hof_of n" by (rule ext) (simp add: hof_of_def)
  then have r: "reg ?n c = reg n c" "base ?n c = base n c" for c by (simp_all add: reg_def base_def)
  have "refs_ok ?n R" using i by (simp add: inv_def refs_ok_def r)
  moreover have "inits_ok ?n R" using i by (simp add: inv_def inits_ok_def r)
  moreover have "hands_ok h (hs_handle_index (nd_H n))"
    using i unfolding inv_def hands_ok_def mhand_def h(2) by (simp add: fun_upd_apply split: if_splits)
  moreover have "frame_ok ?n g" if g: "g \<in> set R" for g
  proof -
    have "fholds q g = 0" using held(3) holds_pos [OF g, of q] by simp
    moreover have "frame_ok n g" using i g by (simp add: inv_def)
    ultimately show ?thesis by (rule_tac frame_ok_stable) (auto simp: h(2))
  qed
  ultimately show ?thesis using i h(1,3) by (auto simp: inv_def)
qed

lemma good_drain:
  assumes i: "inv n (Drain q k # R)"
  shows "good w (Drain q k) n R"
proof -
  obtain j where fr: "k \<noteq> 0" "mstat (nd_mq n) q = Some (j, True)" using i by (auto simp: inv_def)
  obtain ps where b: "binv (nd_mq n) ps (Drain q k # R)" using inv_binv [OF i] by blast
  have hq: "0 < holds q (Drain q k # R)" by simp
  from binv_pop [OF b hq fr(2)] obtain h r where h: "mq_pop_at q (nd_mq n) = Inr (h, r)" "mstat h = mstat (nd_mq n)"
    "r \<noteq> None \<longrightarrow> binv h ps (Drain q k # R)" "r = None \<longrightarrow> True \<longrightarrow> binv h ps (Drain q k # R)" by blast
  then have b': "binv h ps (Drain q k # R)" by blast
  show ?thesis
  proof (cases r)
    case None
    have "binv h ps ([Drain q k] @ R)" using b' by simp
    from inv_mailbox [OF i this h(2)] i have "inv (n\<lparr>nd_mq := h\<rparr>) (Drain q k # R)" by (simp add: same_refs_def inv_def)
    from inv_free [OF this] obtain h2 where h2: "mq_free q h = Inr h2" "inv (n\<lparr>nd_mq := h2\<rparr>) R" by auto
    then have "frame_step w (Drain q k) n = Inr (n\<lparr>nd_mq := h2\<rparr>, [])" using None h(1) by (simp add: drain_queue_def on_mq_def)
    with h2(2) show ?thesis by (auto simp: good_def)
  next
    case (Some msg)
    have b2: "binv h ps ([Reply k msg, Drain q k] @ R)" by (rule binv_cong [OF b']) simp
    show ?thesis
      by (rule good_mailbox [OF i _ b2 h(2)]) (use Some fr in \<open>simp_all add: frame_simps drain_queue_def h(1)\<close>)
  qed
qed

text \<open>A handle leaves the table; the reference of the table passes to the release that follows.\<close>

lemma inv_retire:
  assumes i: "inv n (f # R)" and f: "hs_find (hof_of n) (nd_H n) k = Some c"
    and g: "same_refs f gs" "\<And>p. holds p gs = fholds p f" "\<forall>g \<in> set gs. frame_ok n g"
    and s: "\<And>p. fstarts p f \<Longrightarrow> (\<exists>g \<in> set gs. fstarts p g) \<or> (\<exists>r. mstat (nd_mq n) p = Some (k, r))"
  shows "\<exists>H'. skynet_handle_retire (hof_of n) k (nd_H n) = Inr (H', Some c) \<and> inv (n\<lparr>nd_H := H'\<rparr>) (Release c # gs @ R) \<and>
    (\<forall>d. reg n d \<longrightarrow> d \<noteq> c \<longrightarrow> reg (n\<lparr>nd_H := H'\<rparr>) d)"
proof -
  have hs: "hs_ok (hof_of n) (nd_H n)" and nm: "names_ok (nd_H n)" using i by (auto simp: inv_def node_ok_def)
  from handle_retire_spec [OF hs f] obtain H' where
    H': "skynet_handle_retire (hof_of n) k (nd_H n) = Inr (H', Some c)" "retire_post (hof_of n) (nd_H n) k H'" by blast
  let ?n = "n\<lparr>nd_H := H'\<rparr>"
  have hof: "hof_of ?n = hof_of n" by (rule ext) (simp add: hof_of_def)
  have find: "hs_find (hof_of n) H' = (hs_find (hof_of n) (nd_H n))(k := None)" using H'(2) by (simp add: retire_post_def)
  have r: "reg ?n d \<longleftrightarrow> reg n d \<and> d \<noteq> c" for d
    unfolding reg_def hof by (simp add: find) (metis f ht.find_inj option.inject)
  have rc: "reg n c" using f by (auto simp: reg_def)
  have base: "base n d = base ?n d + of_bool (d = c)" for d using rc by (auto simp: base_def r)
  have names: "names_ok H'" by (rule names_ok_filter [OF nm]) (use H'(2) in \<open>simp add: retire_post_def\<close>)
  have "node_ok ?n" using i H'(2) names by (auto simp: inv_def node_ok_def ctx_ok_def fresh_ok_def hof retire_post_def)
  moreover have "refs_ok ?n (Release c # gs @ R)" unfolding refs_ok_def
  proof
    fix d
    have "refs_ok n (f # R)" using i by (simp add: inv_def)
    then show "(nd_ctx ?n d = None \<longrightarrow> base ?n d + refs d (Release c # gs @ R) = 0) \<and>
      (\<forall>x. nd_ctx ?n d = Some x \<longrightarrow> cx_ref x = int (base ?n d + refs d (Release c # gs @ R)))"
      using g(1) unfolding refs_ok_def base same_refs_def by (auto dest: spec [of _ d])
  qed
  moreover have "inits_ok ?n (Release c # gs @ R)" unfolding inits_ok_def
  proof (intro allI impI)
    fix d x assume d: "nd_ctx ?n d = Some x" "reg ?n d"
    then have dx: "nd_ctx n d = Some x" "reg n d" "d \<noteq> c" by (simp_all add: r)
    have "\<not> (\<exists>t. mstat (nd_mq n) (cx_queue x) = Some (k, t))"
    proof
      assume "\<exists>t. mstat (nd_mq n) (cx_queue x) = Some (k, t)"
      then have hx: "cx_handle x = k" using inv_ref(2) [OF i dx(1)] by auto
      from dx(2) obtain h where h: "hs_find (hof_of n) (nd_H n) h = Some d" by (auto simp: reg_def)
      with find_ctx [OF h] dx(1) hx have "h = k" by auto
      with h f dx(3) show False by simp
    qed
    moreover have "inits_ok n (f # R)" using i by (simp add: inv_def)
    then have "cx_init x \<or> (\<exists>g \<in> set (f # R). fstarts (cx_queue x) g)" using dx(1,2) by (simp add: inits_ok_def)
    ultimately show "cx_init x \<or> (\<exists>g \<in> set (Release c # gs @ R). fstarts (cx_queue x) g)" using s by auto
  qed
  moreover have "frame_ok ?n g" if "g \<in> set (gs @ R)" for g
  proof -
    have "frame_ok n g" using that i g(3) by (auto simp: inv_def)
    then show ?thesis by (rule frame_ok_stable) auto
  qed
  moreover obtain ps where "binv (nd_mq n) ps (f # R)" using inv_binv [OF i] by blast
  then have "binv (nd_mq n) ps (Release c # gs @ R)" by (rule binv_cong) (simp add: g(2))
  moreover have "hs_handle_index H' = hs_handle_index (nd_H n)" using H'(2) by (simp add: retire_post_def)
  ultimately have "inv ?n (Release c # gs @ R)" using i by (auto simp: inv_def)
  with H'(1) show ?thesis by (auto simp: r)
qed

lemma retire_nothing:
  assumes "inv n F" "hs_find (hof_of n) (nd_H n) k = None"
  shows "retire_unlink k gs n = Inr (n, gs)"
  using assms handle_retire_none [of "hof_of n" "nd_H n" k] by (simp add: retire_unlink_def inv_def node_ok_def)

lemma good_retire:
  assumes i: "inv n (Retire k # R)"
  shows "good w (Retire k) n R"
proof (cases "hs_find (hof_of n) (nd_H n) k")
  case None
  then show ?thesis
    by (intro good_same [OF i, where gs = "[]"]) (simp_all add: frame_simps retire_nothing [OF i])
next
  case (Some c)
  from inv_retire [OF i Some, of "[]"] obtain H' where
    "skynet_handle_retire (hof_of n) k (nd_H n) = Inr (H', Some c)" "inv (n\<lparr>nd_H := H'\<rparr>) (Release c # [] @ R)"
    "\<forall>d. reg n d \<longrightarrow> d \<noteq> c \<longrightarrow> reg (n\<lparr>nd_H := H'\<rparr>) d" by (auto simp: frame_simps)
  with Some show ?thesis by (auto simp: good_def retire_unlink_def)
qed

lemma good_abandon:
  assumes i: "inv n (Abandon q k # R)"
  shows "good w (Abandon q k) n R"
proof (cases "hs_find (hof_of n) (nd_H n) k")
  case None
  obtain r where k: "k \<noteq> 0" "mstat (nd_mq n) q = Some (k, r)" using i by (auto simp: inv_def)
  have init: "inits_ok n (Unlink q k # R)" unfolding inits_ok_def
  proof (intro allI impI)
    fix d x assume d: "nd_ctx n d = Some x" "reg n d"
    have "cx_queue x \<noteq> q"
    proof
      assume "cx_queue x = q"
      with inv_ref(2) [OF i d(1)] k(2) have hx: "cx_handle x = k" by simp
      from d(2) obtain h where h: "hs_find (hof_of n) (nd_H n) h = Some d" by (auto simp: reg_def)
      with find_ctx [OF h] d(1) hx None show False by auto
    qed
    moreover have "inits_ok n (Abandon q k # R)" using i by (simp add: inv_def)
    then have "cx_init x \<or> (\<exists>g \<in> set (Abandon q k # R). fstarts (cx_queue x) g)" using d by (simp add: inits_ok_def)
    ultimately show "cx_init x \<or> (\<exists>g \<in> set (Unlink q k # R). fstarts (cx_queue x) g)" by auto
  qed
  obtain ps where "binv (nd_mq n) ps (Abandon q k # R)" using inv_binv [OF i] by blast
  then have b: "binv (nd_mq n) ps ([Unlink q k] @ R)" by (rule binv_cong) simp
  from inv_mailbox [OF i b refl] init k(1) have "inv n ([Unlink q k] @ R)" by (simp add: same_refs_def)
  then show ?thesis using retire_nothing [OF i None] by (auto simp: good_def)
next
  case (Some c)
  obtain r where k: "k \<noteq> 0" "mstat (nd_mq n) q = Some (k, r)" using i by (auto simp: inv_def)
  from inv_retire [OF i Some, of "[Unlink q k]"] k obtain H' where
    "skynet_handle_retire (hof_of n) k (nd_H n) = Inr (H', Some c)" "inv (n\<lparr>nd_H := H'\<rparr>) (Release c # [Unlink q k] @ R)"
    "\<forall>d. reg n d \<longrightarrow> d \<noteq> c \<longrightarrow> reg (n\<lparr>nd_H := H'\<rparr>) d" by (auto simp: frame_simps)
  with Some show ?thesis by (auto simp: good_def retire_unlink_def)
qed

lemma queue_unique:
  assumes "inv n F" "nd_ctx n c = Some x" "nd_ctx n d = Some y" "cx_queue x = cx_queue y"
  shows "c = d"
  using assms unfolding inv_def node_ok_def ctx_ok_def by blast

lemma good_launch_ok:
  assumes i: "inv n (LaunchOk c q name param # R)"
  shows "good w (LaunchOk c q name param) n R"
proof -
  obtain x where x: "nd_ctx n c = Some x" "cx_queue x = q" using i by (auto simp: inv_def owns_def)
  have "c < nd_fresh n" using i x(1) by (rule_tac ccontr) (auto simp: inv_def node_ok_def fresh_ok_def)
  let ?txt = "''LAUNCH '' @ name @ '' '' @ (case param of None \<Rightarrow> [] | Some p \<Rightarrow> p)"
  have ref: "cx_ref x = int (base n c + refs c (LaunchOk c q name param # R))" by (rule inv_ref(1) [OF i x(1)])
  show ?thesis
  proof (cases "cx_ref x = 1")
    case True
    have out: "\<not> reg n c" using ref True by (cases "nd_REMOTE n = Some c") (auto simp: base_def)
    have "inits_ok n ([Schedule q] @ R)" unfolding inits_ok_def
    proof (intro allI impI)
      fix d y assume d: "nd_ctx n d = Some y" "reg n d"
      with queue_unique [OF i x(1) d(1)] x(2) out have "cx_queue y \<noteq> q" by auto
      moreover have "inits_ok n (LaunchOk c q name param # R)" using i by (simp add: inv_def)
      then have "cx_init y \<or> (\<exists>g \<in> set (LaunchOk c q name param # R). fstarts (cx_queue y) g)" using d by (simp add: inits_ok_def)
      ultimately show "cx_init y \<or> (\<exists>g \<in> set ([Schedule q] @ R). fstarts (cx_queue y) g)" by auto
    qed
    from inv_delete [OF i x(1) True _ _ _ _ this] x(2) obtain n' where
      "skynet_context_release c n = Inr (n', False)" "inv n' ([Schedule q] @ R)" "reg n' = reg n" by auto
    then show ?thesis by (auto simp: good_def launch_ok_def)
  next
    case False
    let ?y = "x\<lparr>cx_ref := cx_ref x - 1\<rparr>" and ?gs = "[Ready c q, Log (Some c) ?txt]"
    have pos: "0 < cx_ref x - 1" using ref False by simp
    have "inv (put_ctx c ?y n) (?gs @ R)"
      by (rule inv_context [OF i x(1)]) (use pos x \<open>c < nd_fresh n\<close> in \<open>simp_all add: frame_simps\<close>)
    with release_held [OF x(1) False] reg_put(2) [OF x(1), of ?y] show ?thesis
      by (auto simp: good_def launch_ok_def split: if_splits)
  qed
qed

lemma good_ready:
  assumes i: "inv n (Ready c q # R)" and c: "nd_ctx n c = Some x"
  shows "good w (Ready c q) n R"
proof -
  let ?y = "x\<lparr>cx_init := True\<rparr>" and ?n = "put_ctx c (x\<lparr>cx_init := True\<rparr>) n"
  have q: "cx_queue x = q" using i c by (simp add: inv_def)
  have "0 < cx_ref x" using i c by (auto simp: inv_def node_ok_def ctx_ok_def)
  moreover have "frame_ok ?n (Ready c q)" using i q by (simp add: inv_def)
  ultimately have "inv ?n ([Ready c q] @ R)"
    by (intro inv_context [OF i c]) (simp_all add: frame_simps)
  then have i1: "inv ?n (Ready c q # R)" by simp
  from push_global_node [OF i1, of q] obtain h ps where h: "on_mq (skynet_globalmq_push q) ?n = Inr (?n\<lparr>nd_mq := h\<rparr>)"
    "mstat h = mstat (nd_mq ?n)" "binv h ps ([] @ R)" by fastforce
  have "inits_ok ?n ([] @ R)" unfolding inits_ok_def
  proof (intro allI impI)
    fix d y assume d: "nd_ctx ?n d = Some y" "reg ?n d"
    have "nd_ctx ?n c = Some ?y" by simp
    from queue_unique [OF i1 this d(1)] have "cx_queue y = q \<Longrightarrow> d = c" using q by simp
    then have "cx_queue y = q \<Longrightarrow> cx_init y" using d(1) by auto
    moreover have "inits_ok ?n (Ready c q # R)" using i1 by (simp add: inv_def)
    then have "cx_init y \<or> (\<exists>g \<in> set (Ready c q # R). fstarts (cx_queue y) g)" using d by (simp add: inits_ok_def)
    ultimately show "cx_init y \<or> (\<exists>g \<in> set ([] @ R). fstarts (cx_queue y) g)" by auto
  qed
  from inv_mailbox [OF i1 h(3,2) _ this] have "inv (?n\<lparr>nd_mq := h\<rparr>) R" by (simp add: same_refs_def)
  moreover have "frame_step w (Ready c q) n = Inr (?n\<lparr>nd_mq := h\<rparr>, [])"
    using c h(1) by (simp add: upd_ctx_def get_ctx_def)
  ultimately show ?thesis using reg_put(2) [OF c, of ?y] by (auto simp: good_def)
qed

lemma good_launch_failed:
  assumes i: "inv n (LaunchFailed c q # R)"
  shows "good w (LaunchFailed c q) n R"
proof -
  obtain x where x: "nd_ctx n c = Some x" "cx_queue x = q" using i by (auto simp: inv_def owns_def)
  note st = inv_ref(2,3) [OF i x(1)]
  have "frame_ok m (Abandon q (cx_handle x))"
    if "mstat (nd_mq m) = mstat (nd_mq n) \<or> mstat (nd_mq m) = (mstat (nd_mq n))(cx_queue x \<mapsto> (cx_handle x, True))" for m
    using that st x(2) by auto
  with inv_release [OF i x(1), where gs = "[Abandon q (cx_handle x)]"] obtain n' a where
    n': "skynet_context_release c n = Inr (n', a)" "inv n' ([Abandon q (cx_handle x)] @ R)" "reg n' = reg n"
    by (auto simp: frame_simps)
  then have "frame_step w (LaunchFailed c q) n = Inr (n', [Abandon q (cx_handle x)])"
    using x(1) by (simp add: launch_failed_def get_ctx_def)
  with n' show ?thesis by (auto simp: good_def)
qed

lemma good_launch:
  assumes i: "inv n (Launch md inst name param # R)" and room: "hs_room (nd_H n)"
  shows "good w (Launch md inst name param) n R"
proof -
  have ok: "node_ok n" using i by (simp add: inv_def)
  from setup_spec [OF ok room, of md inst] obtain n' c q h where
    n': "context_setup md inst n = Inr (n', c)" "node_ok n'" "inbox n h = None" "h \<noteq> 0" "c = nd_fresh n"
    and ctx: "nd_ctx n' = (nd_ctx n)(c \<mapsto> (new_context md inst (nd_profile n))\<lparr>cx_handle := h, cx_queue := q\<rparr>)"
    and mq: "mqs (nd_mq n) q = None" "nd_mq n' = skynet_mq_create h q (nd_mq n)"
    and keep: "nd_HARBOR n' = nd_HARBOR n" "nd_REMOTE n' = nd_REMOTE n" "nd_fresh n' = nd_fresh n + 2"
    and find: "hs_find (hof_of n') (nd_H n') = (hs_find (hof_of n) (nd_H n))(h \<mapsto> c)"
    and idx: "unat (hs_handle_index (nd_H n)) \<le> unat (take_bit 24 h)" "unat (take_bit 24 h) < unat (hs_handle_index (nd_H n'))"
    by blast
  let ?x = "(new_context md inst (nd_profile n))\<lparr>cx_handle := h, cx_queue := q\<rparr>" and ?f = "Init c q name param"
  have none: "hs_find (hof_of n) (nd_H n) h = None" using inbox_None [OF ok] n'(3) by simp
  have out: "nd_ctx n c = None" using ok n'(5) by (simp add: node_ok_def fresh_ok_def)
  have ro: "refs_ok n (Launch md inst name param # R)" using i by (simp add: inv_def)
  then have zero: "base n c = 0" "refs c R = 0" using out unfolding refs_ok_def by auto
  have r: "reg n' d \<longleftrightarrow> reg n d \<or> d = c" for d unfolding reg_def find by simp (metis none option.distinct(1))
  have bs: "base n' d = base n d + of_bool (d = c)" for d using zero(1) keep(2) by (auto simp: base_def r)
  have st: "mstat (nd_mq n') = (mstat (nd_mq n))(q \<mapsto> (h, False))" "mstat (nd_mq n) q = None"
    using mq by (auto simp: skynet_mq_create_def mstat_def mq_new_def)
  obtain ps where b: "binv (nd_mq n) ps (Launch md inst name param # R)" using inv_binv [OF i] by blast
  have "binv (nd_mq n') ps (?f # R)" unfolding mq(2) by (rule binv_new [OF b mq(1) n'(4)]) simp
  moreover have "refs_ok n' (?f # R)" unfolding refs_ok_def
  proof
    fix d show "(nd_ctx n' d = None \<longrightarrow> base n' d + refs d (?f # R) = 0) \<and>
      (\<forall>x. nd_ctx n' d = Some x \<longrightarrow> cx_ref x = int (base n' d + refs d (?f # R)))"
      using ro zero unfolding refs_ok_def bs ctx by (cases "d = c") (auto simp: new_context_def dest: spec [of _ d])
  qed
  moreover have "inits_ok n (Launch md inst name param # R)" using i by (simp add: inv_def)
  then have "inits_ok n' (?f # R)" unfolding inits_ok_def r ctx by (auto simp: fun_upd_apply split: if_splits)
  moreover have "hands_ok (nd_mq n') (hs_handle_index (nd_H n'))" unfolding hands_ok_def
  proof (intro conjI allI impI)
    have old: "unat (take_bit 24 k) < unat (hs_handle_index (nd_H n))" if "mhand (nd_mq n) p = Some k" for p k
      using i that unfolding inv_def hands_ok_def by blast
    have mh: "mhand (nd_mq n') p = (if p = q then Some h else mhand (nd_mq n) p)" for p by (simp add: mhand_def st(1))
    fix p k assume p: "mhand (nd_mq n') p = Some k"
    then show "unat (take_bit 24 k) < unat (hs_handle_index (nd_H n'))"
      using old [of p k] idx unfolding mh by (auto split: if_splits)
    fix p' assume p': "mhand (nd_mq n') p' = Some k"
    have "p = p'" if "mhand (nd_mq n) p = Some k" "mhand (nd_mq n) p' = Some k"
      using i that unfolding inv_def hands_ok_def by blast
    then show "p = p'" using p p' old [of p k] old [of p' k] idx(1) unfolding mh by (auto split: if_splits)
  qed
  moreover have "frame_ok n' g" if "g \<in> set (?f # R)" for g
  proof (cases "g = ?f")
    case True
    then show ?thesis by (simp add: owns_def ctx)
  next
    case False
    with that i have "frame_ok n g" by (auto simp: inv_def)
    then show ?thesis
    proof (rule frame_ok_stable)
      fix d y assume "nd_ctx n d = Some y"
      moreover from this have "d \<noteq> c" using out by auto
      ultimately show "\<exists>z. nd_ctx n' d = Some z \<and> cx_queue z = cx_queue y \<and> (cx_init y \<longrightarrow> cx_init z)" by (simp add: ctx)
    next
      fix p k s assume "mstat (nd_mq n) p = Some (k, s)"
      moreover from this have "p \<noteq> q" using st(2) by auto
      ultimately show "\<exists>t. mstat (nd_mq n') p = Some (k, t) \<and> (s \<longrightarrow> t)" by (simp add: st(1))
    next
      fix d y assume "d < nd_fresh n" "nd_ctx n' d = Some y"
      then show "\<exists>z. nd_ctx n d = Some z \<and> cx_queue y = cx_queue z" by (simp add: ctx n'(5))
    qed (simp_all add: keep(2,3))
  qed
  ultimately have "inv n' (?f # R)" using i n'(2) keep by (auto simp: inv_def)
  moreover have "frame_step w (Launch md inst name param) n = Inr (n', [?f])"
    using n'(1) by (simp add: launch_setup_def get_ctx_def ctx)
  ultimately show ?thesis using r by (auto simp: good_def)
qed

lemma good_running: "running f \<Longrightarrow> inv n (f # R) \<Longrightarrow> good w f n R"
  by (cases f) (auto simp: good_def)

text \<open>Every action of a frame, when the context it exposes is alive and a launch has room.\<close>

lemma every_action_good:
  assumes i: "inv n (f # R)" and live: "\<And>c. c \<in> set (exposed_by f []) \<Longrightarrow> nd_ctx n c \<noteq> None"
    and room: "\<And>md inst name param. f = Launch md inst name param \<Longrightarrow> hs_room (nd_H n)"
    and remote: "\<And>k msg. f = Reply k msg \<Longrightarrow> nd_REMOTE n \<noteq> None \<or> msg_source msg = 0 \<or>
      skynet_harbor_message_isremote (msg_source msg) n = Inr False"
  shows "good w f n R"
proof (cases f)
  case (Worker q)
  with i show ?thesis by (cases q) (auto intro: good_worker_none good_worker_some)
next
  case (Log c t)
  with live have "live_ctx c n" by (cases c) (auto simp: live_ctx_def)
  with i Log show ?thesis by (auto intro: good_log)
next
  case (Ready c q)
  with live [of c] obtain x where "nd_ctx n c = Some x" by auto
  with i Ready show ?thesis by (auto intro: good_ready)
next
  case (Launch md inst name param)
  with i room good_launch show ?thesis by blast
next
  case (Reply k msg)
  with i remote good_reply show ?thesis by blast
qed (use i in \<open>auto intro: good_batch good_popped good_entering good_requeue good_rotate good_push good_deliver
  good_forward good_release good_retire good_unlink good_drain good_launch_ok good_schedule
  good_launch_failed good_abandon good_running\<close>)

end
