(* ===== verification/LuaTable.thy ===== *)
theory LuaTable
  imports Prelude
begin

text \<open>
  The Lua values and tables that the containers of \<open>lualib-src/chestnut\<close> work on, seen
  through the C API: a table is the function of its raw integer keys, nil where it has
  none; \<open>lua_rawgeti\<close> and \<open>lua_rawseti\<close> read and write it. A C function of
  the library takes the table (its first argument) and its other arguments and returns the table
  and its results, or raises an error. Integers are mathematical: the keys in use stay far
  below 2^63. Strings that look like numbers, which \<open>luaL_checkinteger\<close> would convert,
  are outside the model.
\<close>

datatype lua_value =
    LNil
  | LBool bool
  | LInt int
  | LStr string
  | LTable nat
  | LFunction nat

type_synonym lua_table = "int \<Rightarrow> lua_value"

definition rawseti :: "lua_table \<Rightarrow> int \<Rightarrow> lua_value \<Rightarrow> lua_table" where
  "rawseti T i v = T(i := v)"

lemma rawseti_at: "rawseti T i v k = (if k = i then v else T k)"
  by (simp add: rawseti_def)

definition checkinteger :: "lua_value \<Rightarrow> int res" where
  "checkinteger v = (case v of LInt i \<Rightarrow> Inr i | _ \<Rightarrow> Inl (LuaError ''integer expected''))"

text \<open>The argument of a call at a position, nil when it is missing.\<close>

definition arg :: "lua_value list \<Rightarrow> nat \<Rightarrow> lua_value" where
  "arg args i = (if i < length args then args ! i else LNil)"

lemma nat_int_add_1 [simp]: "nat (int i + 1) = Suc i" "nat (1 + int i) = Suc i"
  by simp_all

lemma checkinteger_LInt [simp]: "checkinteger (LInt i) = Inr i"
  by (simp add: checkinteger_def)

lemma checkinteger_Inr: "checkinteger v = Inr i \<longleftrightarrow> v = LInt i"
  by (cases v) (auto simp: checkinteger_def)

text \<open>\<open>LUA_MINSTACK\<close>: the slots that a C function may use on the Lua stack beyond its arguments.\<close>

definition lua_minstack :: nat where
  "lua_minstack = 20"

text \<open>The remainder of C, with the sign of the dividend.\<close>

definition c_rem :: "int \<Rightarrow> int \<Rightarrow> int" where
  "c_rem a b = sgn a * (\<bar>a\<bar> mod \<bar>b\<bar>)"

lemma c_rem_pos: "0 \<le> a \<Longrightarrow> 0 < b \<Longrightarrow> c_rem a b = a mod b"
  by (cases "a = 0") (simp_all add: c_rem_def)

text \<open>The slots \<open>1..n\<close> of a table as a list.\<close>

definition slots :: "lua_table \<Rightarrow> nat \<Rightarrow> lua_value list" where
  "slots T n = map (\<lambda>i. T (int i + 1)) [0..<n]"

lemma length_slots [simp]: "length (slots T n) = n"
  by (simp add: slots_def)

lemma nth_slots [simp]: "i < n \<Longrightarrow> slots T n ! i = T (int i + 1)"
  by (simp add: slots_def)

lemma slots_upd: "1 \<le> k \<Longrightarrow> k \<le> int n \<Longrightarrow> slots (T(k := v)) n = (slots T n)[nat k - 1 := v]"
  by (rule nth_equalityI) (auto simp: nth_list_update)

lemma slots_upd_nat: "k < n \<Longrightarrow> slots (T(int k + 1 := v)) n = (slots T n)[k := v]"
  by (rule nth_equalityI) (auto simp: nth_list_update)

lemma slots_upd_outside: "k < 1 \<or> int n < k \<Longrightarrow> slots (T(k := v)) n = slots T n"
  by (rule nth_equalityI) auto

lemma slots_0 [simp]: "slots T 0 = []"
  by (simp add: slots_def)

lemma slots_Suc: "slots T (Suc n) = slots T n @ [T (int n + 1)]"
  by (simp add: slots_def)

lemma slots_append: "slots T (m + n) = slots T m @ map (\<lambda>i. T (int (m + i) + 1)) [0..<n]"
  by (induction n) (simp_all add: slots_def)

lemma slots_cong: "(\<And>i. 1 \<le> i \<Longrightarrow> i \<le> int n \<Longrightarrow> T i = T' i) \<Longrightarrow> slots T n = slots T' n"
  by (auto simp: slots_def)

section \<open>Loops over the slots\<close>

text \<open>Nil in the slots \<open>1..n\<close>, the slots \<open>a..b\<close> moved up by one, and down by one.\<close>

definition clear_slots :: "lua_table \<Rightarrow> int \<Rightarrow> lua_table" where
  "clear_slots T n = fold (\<lambda>i T. rawseti T i LNil) [1..n] T"

definition shift_up :: "lua_table \<Rightarrow> int \<Rightarrow> int \<Rightarrow> lua_table" where
  "shift_up T a b = fold (\<lambda>i T. rawseti T (i + 1) (T i)) (rev [a..b]) T"

definition shift_down :: "lua_table \<Rightarrow> int \<Rightarrow> int \<Rightarrow> lua_table" where
  "shift_down T a b = fold (\<lambda>i T. rawseti T (i - 1) (T i)) [a..b] T"

lemma clear_slots_at: "clear_slots T n k = (if 1 \<le> k \<and> k \<le> n then LNil else T k)"
proof -
  have "fold (\<lambda>i T. rawseti T i LNil) is T k = (if k \<in> set is then LNil else T k)" for "is" T
    by (induction "is" arbitrary: T) (auto simp: rawseti_at)
  then show ?thesis by (simp add: clear_slots_def)
qed

lemma shift_up_at: "shift_up T a b k = (if a < k \<and> k \<le> b + 1 then T (k - 1) else T k)"
proof (induction "nat (b - a + 1)" arbitrary: b T k)
  case 0
  then show ?case by (auto simp: shift_up_def)
next
  case (Suc n)
  then have "[a..b] = [a..b - 1] @ [b]" by (simp add: upto_rec2)
  then have "shift_up T a b = shift_up (rawseti T (b + 1) (T b)) a (b - 1)" by (simp add: shift_up_def)
  moreover have "n = nat (b - 1 - a + 1)" using Suc.hyps(2) by simp
  ultimately show ?case using Suc.hyps(1) [of "b - 1"] Suc.hyps(2) by (auto simp: rawseti_at)
qed

lemma shift_down_at: "shift_down T a b k = (if a - 1 \<le> k \<and> k < b then T (k + 1) else T k)"
proof (induction "nat (b - a + 1)" arbitrary: a T k)
  case 0
  then show ?case by (auto simp: shift_down_def)
next
  case (Suc n)
  then have "[a..b] = a # [a + 1..b]" by (simp add: upto_rec1)
  then have "shift_down T a b = shift_down (rawseti T (a - 1) (T a)) (a + 1) b" by (simp add: shift_down_def)
  moreover have "n = nat (b - (a + 1) + 1)" using Suc.hyps(2) by simp
  ultimately show ?case using Suc.hyps(1) [of "a + 1"] Suc.hyps(2) by (auto simp: rawseti_at)
qed

section \<open>Sequences with their length in slot 0\<close>

text \<open>The representation that the stack, the array and the vectors share.\<close>

definition vec_rep :: "lua_table \<Rightarrow> lua_value list \<Rightarrow> bool" where
  "vec_rep T xs \<longleftrightarrow> T 0 = LInt (int (length xs)) \<and> slots T (length xs) = xs"

lemma vec_repI: "T 0 = LInt (int (length xs)) \<Longrightarrow> (\<And>i. i < length xs \<Longrightarrow> T (int i + 1) = xs ! i) \<Longrightarrow> vec_rep T xs"
  unfolding vec_rep_def by (auto intro: nth_equalityI)

lemma vec_rep_len: "vec_rep T xs \<Longrightarrow> T 0 = LInt (int (length xs))"
  by (simp add: vec_rep_def)

lemma vec_rep_nth: "vec_rep T xs \<Longrightarrow> i < length xs \<Longrightarrow> T (int i + 1) = xs ! i"
  unfolding vec_rep_def by (metis nth_slots)

lemma vec_rep_at: "vec_rep T xs \<Longrightarrow> 1 \<le> k \<Longrightarrow> k \<le> int (length xs) \<Longrightarrow> T k = xs ! (nat k - 1)"
  using vec_rep_nth [of T xs "nat k - 1"] by (simp add: of_nat_diff)

lemma vec_rep_snoc:
  "vec_rep T xs \<Longrightarrow> vec_rep (rawseti (rawseti T (int (length xs) + 1) v) 0 (LInt (int (length xs) + 1))) (xs @ [v])"
  by (rule vec_repI) (auto simp: rawseti_at vec_rep_nth nth_append)

lemma vec_rep_butlast:
  "vec_rep T xs \<Longrightarrow> xs \<noteq> [] \<Longrightarrow> vec_rep (rawseti T 0 (LInt (int (length xs) - 1))) (butlast xs)"
  by (rule vec_repI) (auto simp: rawseti_at vec_rep_nth nth_butlast of_nat_diff Suc_le_eq)

lemma vec_rep_update:
  "vec_rep T xs \<Longrightarrow> 1 \<le> k \<Longrightarrow> k \<le> int (length xs) \<Longrightarrow> vec_rep (rawseti T k v) (xs[nat k - 1 := v])"
  by (rule vec_repI) (auto simp: rawseti_at vec_rep_nth vec_rep_len nth_list_update)

lemma vec_rep_remove:
  assumes "vec_rep T xs" "i < length xs"
  shows "vec_rep (rawseti (shift_down T (int i + 2) (int (length xs))) 0 (LInt (int (length xs) - 1)))
    (take i xs @ drop (Suc i) xs)"
proof (rule vec_repI)
  fix k assume "k < length (take i xs @ drop (Suc i) xs)"
  then have k: "k < length xs - 1" using assms(2) by auto
  have "T (int k + 2) = xs ! Suc k" using vec_rep_nth [OF assms(1), of "Suc k"] k by (simp add: add.commute)
  then show "rawseti (shift_down T (int i + 2) (int (length xs))) 0 (LInt (int (length xs) - 1)) (int k + 1) =
      (take i xs @ drop (Suc i) xs) ! k"
    using k assms(2) vec_rep_nth [OF assms(1), of k]
    by (auto simp: rawseti_at shift_down_at nth_append min_def add.commute)
qed (use assms in \<open>auto simp: rawseti_at\<close>)

lemma vec_rep_insert:
  assumes "vec_rep T xs" "i \<le> length xs"
  shows "vec_rep (rawseti (rawseti (shift_up T (int i + 1) (int (length xs))) (int i + 1) v) 0 (LInt (int (length xs) + 1)))
    (take i xs @ v # drop i xs)"
proof (rule vec_repI)
  fix k assume "k < length (take i xs @ v # drop i xs)"
  then have k: "k < length xs + 1" using assms(2) by auto
  have "T (int k) = xs ! (k - 1)" if "i < k"
    using vec_rep_nth [OF assms(1), of "k - 1"] k that by (simp add: of_nat_diff)
  then show "rawseti (rawseti (shift_up T (int i + 1) (int (length xs))) (int i + 1) v) 0
      (LInt (int (length xs) + 1)) (int k + 1) = (take i xs @ v # drop i xs) ! k"
    using k assms(2) vec_rep_nth [OF assms(1), of k]
    by (auto simp: rawseti_at shift_up_at nth_append min_def nth_Cons')
qed (use assms in \<open>auto simp: rawseti_at\<close>)

lemma vec_rep_clear: "vec_rep T xs \<Longrightarrow> vec_rep (rawseti (clear_slots T (int (length xs))) 0 (LInt 0)) []"
  by (rule vec_repI) (auto simp: rawseti_at)

text \<open>A table built from the arguments of a call.\<close>

definition table_of :: "lua_value list \<Rightarrow> lua_table" where
  "table_of args = fold (\<lambda>i T. rawseti T (int i + 1) (arg args i)) [0..<length args] (\<lambda>_. LNil)"

lemma fold_args_at:
  "n \<le> length args \<Longrightarrow> fold (\<lambda>i T. rawseti T (int i + 1) (arg args i)) [0..<n] (\<lambda>_. LNil) k =
    (if 1 \<le> k \<and> k \<le> int n then args ! (nat k - 1) else LNil)"
  by (induction n) (auto simp: rawseti_at arg_def)

lemma table_of_at: "table_of args k = (if 1 \<le> k \<and> k \<le> int (length args) then args ! (nat k - 1) else LNil)"
  unfolding table_of_def by (rule fold_args_at) simp

lemma table_of_rep: "vec_rep (rawseti (table_of args) 0 (LInt (int (length args)))) args"
  by (rule vec_repI) (auto simp: rawseti_at table_of_at)

end
