(* ===== verification/LuaQueue.thy ===== *)
theory LuaQueue
  imports LuaTable Fifo_Spec
begin

text \<open>
  The Lua queue of \<open>lualib-src/chestnut/lua-queue.c\<close>: a ring in the slots \<open>1..cap\<close> of a
  table, the capacity in slot 0, head and tail in the two slots after the ring. The queue
  is empty when head and tail agree, so the ring is doubled when it would become full.
\<close>

text \<open>The macro \<open>NEXT_INDEX\<close>, where it is a whole expression.\<close>

definition next_index :: "int \<Rightarrow> int \<Rightarrow> int" where
  "next_index i cap = (if i > cap then c_rem i cap else i)"

definition lsize :: "int \<Rightarrow> int \<Rightarrow> int \<Rightarrow> int res" where
  "lsize cap head tail =
     bind_res (assert_res (head > 0 \<and> tail > 0 \<and> head \<le> cap \<and> tail \<le> cap) AssertFailed) (\<lambda>_.
       Inr (if tail = head then 0 else if tail > head then tail - head else tail + cap - head))"

definition q_load :: "lua_table \<Rightarrow> (int \<times> int \<times> int) res" where
  "q_load T =
     bind_res (checkinteger (T 0)) (\<lambda>cap.
     bind_res (checkinteger (T (cap + 1))) (\<lambda>head.
     bind_res (checkinteger (T (cap + 2))) (\<lambda>tail. Inr (cap, head, tail))))"

text \<open>The copy \<open>for (i = 1; i < tail; i++)\<close> of the part before the head behind the old ring.\<close>

definition copy_up :: "lua_table \<Rightarrow> int \<Rightarrow> int \<Rightarrow> lua_table" where
  "copy_up T cap tail = fold (\<lambda>i T. rawseti T (cap + i) (T i)) [1..tail - 1] T"

definition lenqueue :: "lua_table \<Rightarrow> lua_value list \<Rightarrow> (lua_table \<times> lua_value list) res" where
  "lenqueue T args =
     bind_res (q_load T) (\<lambda>(cap, head, tail).
       let T1 = rawseti T tail (arg args 0)
       in if cap = 0 \<and> tail + 1 > cap then Inl DivZero
          else
       let tail1 = next_index (tail + 1) cap
       in if head = tail1 then
            (let new_cap = cap * 2;
                 (T2, tail2) = (if tail1 = 1 then (T1, cap + 1) else (copy_up T1 cap tail1, cap + tail1));
                 T3 = rawseti (rawseti (rawseti T2 0 (LInt new_cap)) (new_cap + 1) (LInt head)) (new_cap + 2) (LInt tail2)
             in bind_res (lsize new_cap head tail2) (\<lambda>size.
                bind_res (assert_res (cap = size) AssertFailed) (\<lambda>_. Inr (T3, [LInt cap]))))
          else
            bind_res (lsize cap head tail1) (\<lambda>size. Inr (rawseti T1 (cap + 2) (LInt tail1), [LInt size])))"

definition ldequeue :: "lua_table \<Rightarrow> (lua_table \<times> lua_value list) res" where
  "ldequeue T =
     bind_res (q_load T) (\<lambda>(cap, head, tail).
     bind_res (lsize cap head tail) (\<lambda>size.
       if size > 0 then
         Inr (rawseti T (cap + 1) (LInt (next_index (head + 1) cap)), [T head])
       else Inr (T, [])))"

definition lat :: "lua_table \<Rightarrow> lua_value list \<Rightarrow> lua_value list res" where
  "lat T args =
     (if args = [] then Inl (LuaError ''you must be ready for offset.'')
      else
        bind_res (checkinteger (arg args 0)) (\<lambda>i.
        bind_res (q_load T) (\<lambda>(cap, head, tail).
        bind_res (assert_res (i \<le> cap) AssertFailed) (\<lambda>_.
        bind_res (lsize cap head tail) (\<lambda>size.
          if i \<le> size then Inr [T (next_index (head + i - 1) cap)]
          else Inl (LuaError ''more than size''))))))"

text \<open>
  The inner loop of \<open>lremove\<close>. Its condition \<open>NEXT_INDEX(j + 1, cap) != tail\<close> expands
  to a conditional expression whose else-branch alone is compared with \<open>tail\<close>: past the
  end of the ring it is the remainder, so true when that is not 0. The fuel counts rounds. The
  three values that \<open>lremove\<close> loads and the value that each round of the search reads stay on
  the Lua stack: \<open>sp\<close> counts them against the slots that a C function may use.
\<close>

definition remove_continues :: "int \<Rightarrow> int \<Rightarrow> int \<Rightarrow> bool" where
  "remove_continues cap tail j = (if j + 1 > cap then c_rem (j + 1) cap \<noteq> 0 else j + 1 \<noteq> tail)"

fun remove_shift :: "nat \<Rightarrow> int \<Rightarrow> int \<Rightarrow> int \<Rightarrow> lua_table \<Rightarrow> (lua_table \<times> int) res" where
  "remove_shift 0 cap tail j T = Inl Diverges"
| "remove_shift (Suc k) cap tail j T =
     (if remove_continues cap tail j then
        remove_shift k cap tail (next_index (j + 1) cap) (rawseti T j (T (next_index (j + 1) cap)))
      else Inr (T, j))"

fun remove_search :: "nat \<Rightarrow> nat \<Rightarrow> int \<Rightarrow> int \<Rightarrow> nat \<Rightarrow> int \<Rightarrow> nat \<Rightarrow> lua_table \<Rightarrow> lua_table res" where
  "remove_search 0 fuel cap tail p i sp T = Inl Diverges"
| "remove_search (Suc k) fuel cap tail p i sp T =
     (if i \<noteq> tail then
        (if lua_minstack < sp + 1 then Inl LuaStackOverflow
         else case T i of
           LTable r \<Rightarrow>
             if r = p then
               bind_res (assert_res (sp + 2 \<le> lua_minstack) LuaStackOverflow) (\<lambda>_.
               bind_res (remove_shift fuel cap tail i T) (\<lambda>(T', j). Inr (rawseti T' (cap + 2) (LInt j))))
             else remove_search k fuel cap tail p (next_index (i + 1) cap) (sp + 1) T
         | _ \<Rightarrow> Inl (LuaError ''not suport others types.''))
      else Inr T)"

definition lremove :: "nat \<Rightarrow> lua_table \<Rightarrow> lua_value list \<Rightarrow> lua_table res" where
  "lremove fuel T args =
     (if args = [] then Inl (LuaError ''less then 2.'')
      else
        bind_res (q_load T) (\<lambda>(cap, head, tail).
          case arg args 0 of
            LTable p \<Rightarrow> remove_search fuel fuel cap tail p head 3 T
          | _ \<Rightarrow> Inr T))"

definition llen :: "lua_table \<Rightarrow> lua_value list res" where
  "llen T =
     bind_res (q_load T) (\<lambda>(cap, head, tail).
     bind_res (lsize cap head tail) (\<lambda>size. Inr [LInt size]))"

text \<open>One step of \<open>pairs\<close>; the control variable is nil at the start.\<close>

definition lnext :: "lua_table \<Rightarrow> lua_value list \<Rightarrow> lua_value list res" where
  "lnext T args =
     bind_res (q_load T) (\<lambda>(cap, head, tail).
     bind_res (lsize cap head tail) (\<lambda>size.
       let idx = (case arg args 0 of LInt i \<Rightarrow> i | _ \<Rightarrow> 0);
           i = next_index (head + idx) cap
       in if i \<noteq> tail then Inr [LInt (idx + 1), T i] else Inr []))"

text \<open>\<open>lalloc\<close>: a new queue; its arguments only size the allocation.\<close>

function alloc_len :: "nat \<Rightarrow> nat \<Rightarrow> nat" where
  "alloc_len n len = (if 0 < len \<and> n > len then alloc_len n (len * 2) else len)"
  by pat_completeness auto
termination by (relation "measure (\<lambda>(n, len). n - len)") auto

declare alloc_len.simps [simp del]

definition lalloc :: "lua_value list \<Rightarrow> lua_table" where
  "lalloc args =
     (let len = int (alloc_len (length args) 16)
      in rawseti (rawseti (rawseti (\<lambda>_. LNil) 0 (LInt len)) (len + 1) (LInt 1)) (len + 2) (LInt 1))"

section \<open>Representation\<close>

definition q_rep :: "lua_table \<Rightarrow> lua_value list \<Rightarrow> bool" where
  "q_rep T xs \<longleftrightarrow>
     (\<exists>cap h t. 2 \<le> cap \<and> h < cap \<and> t < cap \<and> T 0 = LInt (int cap) \<and>
        T (int cap + 1) = LInt (int h + 1) \<and> T (int cap + 2) = LInt (int t + 1) \<and>
        length xs < cap \<and> t = (h + length xs) mod cap \<and> ring (slots T cap) h (length xs) = xs)"

lemma q_repI:
  "2 \<le> cap \<Longrightarrow> h < cap \<Longrightarrow> T 0 = LInt (int cap) \<Longrightarrow> T (int cap + 1) = LInt (int h + 1) \<Longrightarrow>
   T (int cap + 2) = LInt (int ((h + length xs) mod cap) + 1) \<Longrightarrow> length xs < cap \<Longrightarrow>
   ring (slots T cap) h (length xs) = xs \<Longrightarrow> q_rep T xs"
  unfolding q_rep_def by (intro exI [of _ cap] exI [of _ h] exI [of _ "(h + length xs) mod cap"]) simp

lemma q_repE:
  assumes "q_rep T xs"
  obtains cap h t where "2 \<le> cap" "h < cap" "t < cap" "length xs < cap" "t = (h + length xs) mod cap"
    "ring (slots T cap) h (length xs) = xs" "q_load T = Inr (int cap, int h + 1, int t + 1)"
    "T 0 = LInt (int cap)" "T (int cap + 1) = LInt (int h + 1)" "T (int cap + 2) = LInt (int t + 1)"
  using assms by (auto simp: q_rep_def q_load_def)

lemma q_rep_offset:
  assumes "q_rep T xs"
  obtains cap h where "2 \<le> cap" "h < cap" "length xs < cap" "ring (slots T cap) h (length xs) = xs"
    "q_load T = Inr (int cap, int h + 1, int ((h + length xs) mod cap) + 1)"
    "T 0 = LInt (int cap)" "T (int cap + 1) = LInt (int h + 1)"
    "T (int cap + 2) = LInt (int ((h + length xs) mod cap) + 1)"
  using assms by (auto simp: q_rep_def q_load_def)

lemma next_index_nat: "i < cap \<Longrightarrow> 2 \<le> cap \<Longrightarrow> next_index (int i + 2) (int cap) = int (Suc i mod cap) + 1"
proof -
  assume i: "i < cap" "2 \<le> cap"
  show "next_index (int i + 2) (int cap) = int (Suc i mod cap) + 1"
  proof (cases "Suc i = cap")
    case True
    then have e: "int i + 2 = 1 + int cap" by simp
    have "next_index (int i + 2) (int cap) = (1 + int cap) mod int cap"
      unfolding e using i by (simp add: next_index_def c_rem_pos)
    also have "\<dots> = 1" using i by (simp add: mod_pos_pos_trivial)
    finally show ?thesis using True by simp
  next
    case False
    then show ?thesis using i by (simp add: next_index_def)
  qed
qed

lemma lsize_nat:
  assumes "h < cap" "n < cap"
  shows "lsize (int cap) (int h + 1) (int ((h + n) mod cap) + 1) = Inr (int n)"
proof -
  have t: "(h + n) mod cap < cap" using assms by simp
  have sz: "lsize (int cap) (int h + 1) (int t + 1) = Inr (int n)"
    if "t < cap" "t = h + n \<and> h + n < cap \<or> t + cap = h + n" for t
    using assms that by (auto simp: lsize_def)
  show ?thesis
  proof (rule sz [OF t])
    show "(h + n) mod cap = h + n \<and> h + n < cap \<or> (h + n) mod cap + cap = h + n"
      using assms by (cases "h + n < cap") (simp_all add: le_mod_geq)
  qed
qed

lemma lalloc_rep: "q_rep (lalloc args) []"
proof -
  have "16 \<le> alloc_len n 16" for n
  proof -
    have "16 \<le> len \<Longrightarrow> 16 \<le> alloc_len n len" for len
      by (induction n len rule: alloc_len.induct) (subst alloc_len.simps, auto)
    then show ?thesis by simp
  qed
  then have len: "16 \<le> alloc_len (length args) 16" .
  show ?thesis
    by (rule q_repI [of "alloc_len (length args) 16" 0]) (use len in \<open>auto simp: lalloc_def Let_def rawseti_def\<close>)
qed

lemma dequeue_nil: "q_rep T [] \<Longrightarrow> ldequeue T = Inr (T, [])"
proof -
  assume "q_rep T []"
  then obtain cap h t where q: "h < cap" "t = (h + 0) mod cap" "q_load T = Inr (int cap, int h + 1, int t + 1)"
    by (elim q_repE) auto
  have "lsize (int cap) (int h + 1) (int t + 1) = Inr (int 0)" unfolding q(2) by (rule lsize_nat) (use q in auto)
  with q(3) show "ldequeue T = Inr (T, [])" by (simp add: ldequeue_def)
qed

lemma dequeue_cons:
  assumes "q_rep T (x # xs)"
  shows "\<exists>T'. ldequeue T = Inr (T', [x]) \<and> q_rep T' xs"
proof -
  from assms obtain cap h t where q: "2 \<le> cap" "h < cap" "t < cap" "Suc (length xs) < cap" "t = (h + Suc (length xs)) mod cap"
    "ring (slots T cap) h (Suc (length xs)) = x # xs" "q_load T = Inr (int cap, int h + 1, int t + 1)"
    "T 0 = LInt (int cap)" "T (int cap + 1) = LInt (int h + 1)" "T (int cap + 2) = LInt (int t + 1)"
    by (elim q_repE) auto
  have sz: "lsize (int cap) (int h + 1) (int t + 1) = Inr (int (Suc (length xs)))"
    unfolding q(5) by (rule lsize_nat) (use q in auto)
  have nx: "next_index (int h + 1 + 1) (int cap) = int (Suc h mod cap) + 1"
    using next_index_nat [OF q(2,1)] by (simp add: add.commute)
  let ?T = "rawseti T (int cap + 1) (LInt (int (Suc h mod cap) + 1))"
  have hd: "T (int h + 1) = x" and tl: "ring (slots T cap) (Suc h) (length xs) = xs"
    using q(2,6) by (auto simp: ring_Cons)
  have run: "ldequeue T = Inr (?T, [x])"
    using q(7) sz nx hd by (simp add: ldequeue_def)
  have "slots ?T cap = slots T cap" unfolding rawseti_def by (rule slots_upd_outside) simp
  moreover have "ring (slots T cap) (Suc h mod cap) (length xs) = xs"
    using tl ring_mod [of "slots T cap" "Suc h"] by simp
  moreover have "(Suc h mod cap + length xs) mod cap = t" using q(5) by (simp add: mod_simps)
  ultimately have "q_rep ?T xs"
    by (intro q_repI [of cap "Suc h mod cap"]) (use q in \<open>auto simp: rawseti_def\<close>)
  with run show ?thesis by blast
qed


section \<open>Enqueue\<close>

lemma copy_up_at:
  "h \<le> cap \<Longrightarrow> copy_up T (int cap) (int h + 1) k =
     (if int cap < k \<and> k \<le> int cap + int h then T (k - int cap) else T k)"
proof (induction h arbitrary: k)
  case 0
  then show ?case by (auto simp: copy_up_def)
next
  case (Suc h)
  have "[1..int (Suc h) + 1 - 1] = [1..int h + 1 - 1] @ [int h + 1]"
    by (simp add: upto_rec2)
  then have "copy_up T (int cap) (int (Suc h) + 1) =
      rawseti (copy_up T (int cap) (int h + 1)) (int cap + (int h + 1)) (copy_up T (int cap) (int h + 1) (int h + 1))"
    unfolding copy_up_def by (simp only: fold_append) simp
  then show ?case using Suc.IH Suc.prems by (auto simp: rawseti_def)
qed

text \<open>Reading a grown ring from the old head gives the elements that the old ring held.\<close>

lemma ring_grow:
  assumes "h < cap" "n \<le> cap"
    and low: "\<forall>i<cap. T' (int i + 1) = T (int i + 1)"
    and high: "\<forall>i<h. T' (int (cap + i) + 1) = T (int i + 1)"
  shows "ring (slots T' (2 * cap)) h n = ring (slots T cap) h n"
proof (rule nth_equalityI)
  fix i assume "i < length (ring (slots T' (2 * cap)) h n)"
  then have i: "i < n" by simp
  have "T' (int (h + i) + 1) = T (int ((h + i) mod cap) + 1)"
  proof (cases "h + i < cap")
    case True
    then show ?thesis using low[rule_format, of "h + i"] by simp
  next
    case False
    then have "T' (int (cap + (h + i - cap)) + 1) = T (int (h + i - cap) + 1)"
      using high[rule_format, of "h + i - cap"] i assms(1,2) by simp
    moreover have "(h + i) mod cap = h + i - cap" using False i assms(1,2) by (simp add: le_mod_geq)
    ultimately show ?thesis using False by simp
  qed
  moreover have "(h + i) mod (2 * cap) = h + i" using i assms(1,2) by simp
  ultimately show "ring (slots T' (2 * cap)) h n ! i = ring (slots T cap) h n ! i"
    using i assms(1,2) by simp
qed simp

lemma enqueue_room:
  assumes "2 \<le> cap" "h < cap" "Suc (length xs) < cap" "t = (h + length xs) mod cap"
    and "ring (slots T cap) h (length xs) = xs" "q_load T = Inr (int cap, int h + 1, int t + 1)"
    and "T 0 = LInt (int cap)" "T (int cap + 1) = LInt (int h + 1)"
  shows "\<exists>T'. lenqueue T [v] = Inr (T', [LInt (int (length xs) + 1)]) \<and> q_rep T' (xs @ [v])"
proof -
  have t: "t < cap" using assms by simp
  have nx: "next_index (int t + 1 + 1) (int cap) = int (Suc t mod cap) + 1"
    using next_index_nat [OF t assms(1)] by (simp add: add.commute)
  have st: "Suc t mod cap = (h + Suc (length xs)) mod cap" using assms(4) by (simp add: mod_Suc_eq)
  have ne: "Suc t mod cap \<noteq> h"
  proof
    assume "Suc t mod cap = h"
    then have "(h + Suc (length xs)) mod cap = (h + 0) mod cap" using st assms(2) by simp
    then have "Suc (length xs) = 0" by (rule mod_ring_inj [rotated 2]) (use assms in auto)
    then show False by simp
  qed
  have sz: "lsize (int cap) (int h + 1) (int (Suc t mod cap) + 1) = Inr (int (Suc (length xs)))"
    unfolding st by (rule lsize_nat) (use assms in auto)
  let ?T = "rawseti (rawseti T (int t + 1) v) (int cap + 2) (LInt (int (Suc t mod cap) + 1))"
  have run: "lenqueue T [v] = Inr (?T, [LInt (int (length xs) + 1)])"
    using assms(1,6) nx ne sz by (simp add: lenqueue_def arg_def Let_def add.commute)
  have sl: "slots ?T cap = (slots T cap)[t := v]"
  proof -
    have "slots ?T cap = slots (rawseti T (int t + 1) v) cap"
      unfolding rawseti_def by (rule slots_upd_outside) simp
    also have "\<dots> = (slots T cap)[t := v]"
      unfolding rawseti_def using t by (rule slots_upd_nat)
    finally show ?thesis .
  qed
  have "ring (slots ?T cap) h (length (xs @ [v])) = xs @ [v]"
    unfolding sl using ring_push [of h "slots T cap" "length xs" v] assms(2-5) by simp
  then have "q_rep ?T (xs @ [v])"
    by (intro q_repI [of cap h]) (use t assms(1,2,3,7,8) st in \<open>auto simp: rawseti_at\<close>)
  with run show ?thesis by blast
qed

lemma enqueue_grow:
  assumes "2 \<le> cap" "h < cap" "Suc (length xs) = cap" "t = (h + length xs) mod cap"
    and "ring (slots T cap) h (length xs) = xs" "q_load T = Inr (int cap, int h + 1, int t + 1)"
  shows "\<exists>T'. lenqueue T [v] = Inr (T', [LInt (int (length xs) + 1)]) \<and> q_rep T' (xs @ [v])"
proof -
  have t: "t < cap" using assms by simp
  have "Suc t mod cap = (h + cap) mod cap" using assms(3,4) by (simp add: mod_Suc_eq flip: assms(3))
  then have nx: "next_index (int t + 1 + 1) (int cap) = int h + 1"
    using next_index_nat [OF t assms(1)] assms(2) by (simp add: add.commute)
  let ?T1 = "rawseti T (int t + 1) v"
  let ?T2 = "copy_up ?T1 (int cap) (int h + 1)"
  let ?T3 = "rawseti (rawseti (rawseti ?T2 0 (LInt (int (2 * cap)))) (int (2 * cap) + 1) (LInt (int h + 1)))
     (int (2 * cap) + 2) (LInt (int (h + cap) + 1))"
  have T2: "?T2 k = (if int cap < k \<and> k \<le> int cap + int h then ?T1 (k - int cap) else ?T1 k)" for k
    by (rule copy_up_at) (use assms(2) in simp)
  have sz: "lsize (int (2 * cap)) (int h + 1) (int (h + cap) + 1) = Inr (int cap)"
    using lsize_nat [of h "2 * cap" cap] assms(1,2) by simp
  have zero: "copy_up ?T1 (int cap) 1 = ?T1" by (simp add: copy_up_def)
  have run: "lenqueue T [v] = Inr (?T3, [LInt (int (length xs) + 1)])"
    using assms(1,3,6) nx sz zero
    by (cases "h = 0") (auto simp: lenqueue_def arg_def Let_def algebra_simps)
  have "ring (slots ?T3 (2 * cap)) h cap = ring (slots ?T1 cap) h cap"
    by (rule ring_grow) (use assms(2) in \<open>auto simp: T2 rawseti_at\<close>)
  also have "slots ?T1 cap = (slots T cap)[t := v]"
    unfolding rawseti_def using t by (rule slots_upd_nat)
  also have "ring ((slots T cap)[t := v]) h cap = xs @ [v]"
    using ring_push [of h "slots T cap" "length xs" v] assms(2-5) by simp
  finally have sl: "ring (slots ?T3 (2 * cap)) h cap = xs @ [v]" .
  have "length (xs @ [v]) = cap" using assms(3) by simp
  then have "ring (slots ?T3 (2 * cap)) h (length (xs @ [v])) = xs @ [v]" by (simp only: sl)
  then have "q_rep ?T3 (xs @ [v])"
    by (intro q_repI [of "2 * cap" h]) (use assms(1,2,3) in \<open>auto simp: rawseti_def\<close>)
  with run show ?thesis by blast
qed

text \<open>Enqueuing appends, answers the new length, and grows the ring before it is full.\<close>

lemma enqueue_rep:
  "q_rep T xs \<Longrightarrow> \<exists>T'. lenqueue T [v] = Inr (T', [LInt (int (length xs) + 1)]) \<and> q_rep T' (xs @ [v])"
proof (elim q_repE)
  fix cap h t
  assume q: "2 \<le> cap" "h < cap" "t < cap" "length xs < cap" "t = (h + length xs) mod cap"
    "ring (slots T cap) h (length xs) = xs" "q_load T = Inr (int cap, int h + 1, int t + 1)"
    "T 0 = LInt (int cap)" "T (int cap + 1) = LInt (int h + 1)"
  show ?thesis
  proof (cases "Suc (length xs) = cap")
    case True
    show ?thesis by (rule enqueue_grow [OF q(1,2) True q(5,6,7)])
  next
    case False
    then show ?thesis by (intro enqueue_room [OF q(1,2) _ q(5-9)]) (use q(4) in simp)
  qed
qed

text \<open>The queue of the library, with an error of the C code as the error of the operation.\<close>

definition push_table :: "lua_value \<Rightarrow> lua_table \<Rightarrow> lua_table res" where
  "push_table v T = map_sum id fst (lenqueue T [v])"

definition pop_table :: "lua_table \<Rightarrow> (lua_table \<times> lua_value option) res" where
  "pop_table T = map_sum id (\<lambda>(T', rs). (T', case rs of [] \<Rightarrow> None | r # _ \<Rightarrow> Some r)) (ldequeue T)"

interpretation luaq: total_fifo q_rep "\<lambda>_ _. True" push_table pop_table
proof unfold_locales
  show "q_rep T xs \<Longrightarrow> True \<Longrightarrow> \<exists>T'. push_table v T = Inr T' \<and> q_rep T' (xs @ [v])" for T xs v
    using enqueue_rep [of T xs v] by (auto simp: push_table_def)
  show "q_rep T [] \<Longrightarrow> \<exists>T'. pop_table T = Inr (T', None) \<and> q_rep T' []" for T
    using dequeue_nil [of T] by (auto simp: pop_table_def)
  show "q_rep T (x # xs) \<Longrightarrow> \<exists>T'. pop_table T = Inr (T', Some x) \<and> q_rep T' xs" for T x xs
    using dequeue_cons [of T x xs] by (auto simp: pop_table_def)
qed simp

section \<open>Remove\<close>

lemma ring_upd:
  assumes "k < n" "n \<le> length ys"
  shows "ring (ys[(h + k) mod length ys := v]) h n = (ring ys h n)[k := v]"
proof (rule nth_equalityI)
  fix i assume "i < length (ring (ys[(h + k) mod length ys := v]) h n)"
  then have i: "i < n" by simp
  have "(h + i) mod length ys = (h + k) mod length ys \<longleftrightarrow> i = k"
    using mod_ring_inj [of i "length ys" k h] i assms by auto
  moreover have "(h + k) mod length ys < length ys" using assms by (cases ys) auto
  ultimately show "ring (ys[(h + k) mod length ys := v]) h n ! i = (ring ys h n)[k := v] ! i"
    using i assms by (auto simp: nth_list_update)
qed simp

lemma remove_continues_nat:
  assumes "k < n" "n < cap" "(h + n) mod cap \<noteq> 0" "2 \<le> cap"
  shows "remove_continues (int cap) (int ((h + n) mod cap) + 1) (int ((h + k) mod cap) + 1) \<longleftrightarrow> Suc k \<noteq> n"
proof -
  let ?a = "(h + k) mod cap"
  have a: "?a < cap" using assms(4) by simp
  have sa: "Suc ?a mod cap = (h + Suc k) mod cap" by (simp add: mod_Suc_eq)
  have eq: "Suc ?a mod cap = (h + n) mod cap \<longleftrightarrow> Suc k = n"
    unfolding sa using mod_ring_inj [of "Suc k" cap n h] assms by auto
  show ?thesis
  proof (cases "Suc ?a = cap")
    case True
    then have e: "int ?a + 1 = int cap" by simp
    have "remove_continues (int cap) (int ((h + n) mod cap) + 1) (int ?a + 1)"
      unfolding e remove_continues_def using assms(4) by (simp add: c_rem_pos)
    moreover have "Suc k \<noteq> n" using eq True assms(3) by auto
    ultimately show ?thesis by blast
  next
    case False
    then show ?thesis using a eq by (auto simp: remove_continues_def)
  qed
qed

lemma remove_shift_run:
  assumes "h < cap" "n < cap" "(h + n) mod cap \<noteq> 0" "2 \<le> cap"
  shows "k < n \<Longrightarrow> n - k < fuel \<Longrightarrow> ring (slots T cap) h n = xs \<Longrightarrow>
    \<exists>T'. remove_shift fuel (int cap) (int ((h + n) mod cap) + 1) (int ((h + k) mod cap) + 1) T =
           Inr (T', int ((h + (n - 1)) mod cap) + 1) \<and>
         ring (slots T' cap) h (n - 1) = take k xs @ drop (Suc k) xs \<and>
         (\<forall>i. i < 1 \<or> int cap < i \<longrightarrow> T' i = T i)"
proof (induction fuel arbitrary: k T xs)
  case 0
  then show ?case by simp
next
  case (Suc fuel)
  have cont: "remove_continues (int cap) (int ((h + n) mod cap) + 1) (int ((h + k) mod cap) + 1) \<longleftrightarrow> Suc k \<noteq> n"
    by (rule remove_continues_nat) (use Suc.prems(1) assms in auto)
  have len: "length xs = n" using Suc.prems(3) by auto
  show ?case
  proof (cases "Suc k = n")
    case True
    then have "ring (slots T cap) h (n - 1) = take k xs @ drop (Suc k) xs"
      using Suc.prems(3) len by (auto simp: ring_Suc)
    then show ?thesis using cont True by auto
  next
    case False
    let ?a = "(h + k) mod cap" and ?b = "(h + Suc k) mod cap"
    let ?T = "rawseti T (int ?a + 1) (T (int ?b + 1))"
    have a: "?a < cap" "?b < cap" using assms(4) by auto
    have nx: "next_index (int ?a + 1 + 1) (int cap) = int ?b + 1"
      using next_index_nat [OF a(1) assms(4)] by (simp add: add.commute mod_Suc_eq)
    have b: "T (int ?b + 1) = xs ! Suc k"
      using Suc.prems(1,3) False a nth_ring [of "Suc k" n "slots T cap" h] by auto
    have "ring (slots ?T cap) h n = (ring (slots T cap) h n)[k := xs ! Suc k]"
      using ring_upd [of k n "slots T cap" h "xs ! Suc k"] Suc.prems(1) assms(2) a
      unfolding rawseti_def b by (simp add: slots_upd_nat)
    then have r: "ring (slots ?T cap) h n = xs[k := xs ! Suc k]" using Suc.prems(3) by simp
    have "Suc k < n" "n - Suc k < fuel" using Suc.prems False by auto
    from Suc.IH [OF this r] obtain T' where T': "remove_shift fuel (int cap) (int ((h + n) mod cap) + 1) (int ?b + 1) ?T =
           Inr (T', int ((h + (n - 1)) mod cap) + 1)"
         "ring (slots T' cap) h (n - 1) = take (Suc k) (xs[k := xs ! Suc k]) @ drop (Suc (Suc k)) (xs[k := xs ! Suc k])"
         "\<forall>i. i < 1 \<or> int cap < i \<longrightarrow> T' i = ?T i"
      by blast
    have "take (Suc k) (xs[k := xs ! Suc k]) @ drop (Suc (Suc k)) (xs[k := xs ! Suc k]) = take k xs @ drop (Suc k) xs"
      using Suc.prems(1) False len by (simp add: take_Suc_conv_app_nth flip: Cons_nth_drop_Suc)
    then show ?thesis using T' cont False nx a by (auto simp: rawseti_at)
  qed
qed


lemma remove_shift_nxt:
  "2 \<le> cap \<Longrightarrow> next_index (int ((h + k) mod cap) + 1 + 1) (int cap) = int ((h + Suc k) mod cap) + 1"
  using next_index_nat [of "(h + k) mod cap" cap] by (simp add: add.commute mod_Suc_eq)

text \<open>With the tail in slot 1 the inner loop never meets it.\<close>

lemma remove_shift_endless:
  assumes "2 \<le> cap" "h < cap"
  shows "remove_shift fuel (int cap) 1 (int (j mod cap) + 1) T = Inl Diverges"
proof (induction fuel arbitrary: j T)
  case (Suc fuel)
  have "remove_continues (int cap) 1 (int (j mod cap) + 1)"
  proof (cases "Suc (j mod cap) = cap")
    case True
    then have e: "int (j mod cap) + 1 = int cap" by simp
    show ?thesis unfolding e remove_continues_def using assms(1) by (simp add: c_rem_pos)
  next
    case False
    moreover have "j mod cap < cap" using assms(1) by simp
    ultimately have "int (j mod cap) + 1 + 1 \<le> int cap" by linarith
    then show ?thesis by (simp add: remove_continues_def)
  qed
  then show ?case using remove_shift_nxt [OF assms(1), of 0 j] Suc.IH [of "Suc j"] by simp
qed simp

text \<open>The search from offset \<open>k\<close>: it stops at the first table that is the argument.\<close>

lemma remove_search_skip:
  assumes "h < cap" "n < cap" "2 \<le> cap" "ring (slots T cap) h n = map LTable rs"
  shows "k + m \<le> n \<Longrightarrow> p \<notin> set (take m (drop k rs)) \<Longrightarrow> sp + m \<le> lua_minstack \<Longrightarrow>
    remove_search (m + fuel) fu (int cap) (int ((h + n) mod cap) + 1) p (int ((h + k) mod cap) + 1) sp T =
    remove_search fuel fu (int cap) (int ((h + n) mod cap) + 1) p (int ((h + (k + m)) mod cap) + 1) (sp + m) T"
proof (induction m arbitrary: k sp)
  case (Suc m)
  have len: "length rs = n" using arg_cong [OF assms(4), of length] by simp
  then have d: "drop k rs = rs ! k # drop (Suc k) rs" using Suc.prems(1) by (simp add: Cons_nth_drop_Suc)
  have k: "(h + k) mod cap \<noteq> (h + n) mod cap"
    using mod_ring_inj [of k cap n h] Suc.prems(1) assms(2) by auto
  have v: "T (int ((h + k) mod cap) + 1) = LTable (rs ! k)"
    using Suc.prems(1) len assms(3) nth_ring [of k n "slots T cap" h] unfolding assms(4) by simp
  have "rs ! k \<noteq> p" and "p \<notin> set (take m (drop (Suc k) rs))" using Suc.prems(2) d by auto
  then show ?case
    using Suc.IH [of "Suc k" "Suc sp"] Suc.prems(1,3) k v remove_shift_nxt [OF assms(3), of h k] by simp
qed simp

lemma remove_search_hit:
  assumes "h < cap" "n < cap" "2 \<le> cap" "ring (slots T cap) h n = map LTable rs"
    "k < n" "rs ! k = p" "sp + 2 \<le> lua_minstack"
  shows "remove_search (Suc fuel) fu (int cap) (int ((h + n) mod cap) + 1) p (int ((h + k) mod cap) + 1) sp T =
    bind_res (remove_shift fu (int cap) (int ((h + n) mod cap) + 1) (int ((h + k) mod cap) + 1) T)
      (\<lambda>(T', j). Inr (rawseti T' (int cap + 2) (LInt j)))"
proof -
  have len: "length rs = n" using arg_cong [OF assms(4), of length] by simp
  have k: "(h + k) mod cap \<noteq> (h + n) mod cap"
    using mod_ring_inj [of k cap n h] assms(2,5) by auto
  have v: "T (int ((h + k) mod cap) + 1) = LTable (rs ! k)"
    using assms(5) len assms(3) nth_ring [of k n "slots T cap" h] unfolding assms(4) by simp
  show ?thesis using k v assms(6,7) by simp
qed

lemma remove_found:
  assumes "h < cap" "2 \<le> cap" "length rs < cap" "ring (slots T cap) h (length rs) = map LTable rs"
    "rs = us @ p # vs" "p \<notin> set us" "length us + 5 \<le> lua_minstack" "length us < fuel"
  shows "remove_search fuel fu (int cap) (int ((h + length rs) mod cap) + 1) p (int h + 1) 3 T =
    bind_res (remove_shift fu (int cap) (int ((h + length rs) mod cap) + 1) (int ((h + length us) mod cap) + 1) T)
      (\<lambda>(T', j). Inr (rawseti T' (int cap + 2) (LInt j)))"
proof -
  obtain f where f: "fuel = length us + Suc f" using assms(8) less_iff_Suc_add by auto
  have "remove_search fuel fu (int cap) (int ((h + length rs) mod cap) + 1) p (int ((h + 0) mod cap) + 1) 3 T =
    remove_search (Suc f) fu (int cap) (int ((h + length rs) mod cap) + 1) p (int ((h + (0 + length us)) mod cap) + 1) (3 + length us) T"
    unfolding f by (rule remove_search_skip [OF assms(1,3,2,4)]) (use assms(5-7) in auto)
  also have "\<dots> = bind_res (remove_shift fu (int cap) (int ((h + length rs) mod cap) + 1) (int ((h + (0 + length us)) mod cap) + 1) T)
      (\<lambda>(T', j). Inr (rawseti T' (int cap + 2) (LInt j)))"
    by (rule remove_search_hit [OF assms(1,3,2,4)]) (use assms(5,7) in auto)
  finally show ?thesis using assms(1) by simp
qed

lemma remove_rep:
  assumes rep: "q_rep T (map LTable rs)" and tail: "T 0 = LInt cap'" "p \<in> set rs \<longrightarrow> T (cap' + 2) \<noteq> LInt 1"
    and small: "length rs \<le> 16" "length rs < fuel"
  shows "\<exists>T'. lremove fuel T [LTable p] = Inr T' \<and> q_rep T' (map LTable (remove1 p rs))"
proof -
  let ?n = "length rs"
  obtain cap h where q: "2 \<le> cap" "h < cap" "?n < cap"
    "ring (slots T cap) h ?n = map LTable rs"
    "q_load T = Inr (int cap, int h + 1, int ((h + ?n) mod cap) + 1)"
    "T 0 = LInt (int cap)" "T (int cap + 1) = LInt (int h + 1)" "T (int cap + 2) = LInt (int ((h + ?n) mod cap) + 1)"
    by (rule q_rep_offset [OF rep, unfolded length_map])
  have run: "lremove fuel T [LTable p] =
      remove_search fuel fuel (int cap) (int ((h + ?n) mod cap) + 1) p (int h + 1) 3 T"
    using q(5) by (simp add: lremove_def arg_def)
  show ?thesis
  proof (cases "p \<in> set rs")
    case True
    then have t0: "(h + ?n) mod cap \<noteq> 0" using tail q(6,8) by auto
    from True obtain us vs where rs: "rs = us @ p # vs" "p \<notin> set us" by (meson split_list_first)
    have hit: "remove_search fuel fuel (int cap) (int ((h + ?n) mod cap) + 1) p (int h + 1) 3 T =
        bind_res (remove_shift fuel (int cap) (int ((h + ?n) mod cap) + 1) (int ((h + length us) mod cap) + 1) T)
          (\<lambda>(T', j). Inr (rawseti T' (int cap + 2) (LInt j)))"
      by (rule remove_found [OF q(2,1,3,4) rs]) (use rs small in \<open>auto simp: lua_minstack_def\<close>)
    obtain T' where T': "remove_shift fuel (int cap) (int ((h + ?n) mod cap) + 1) (int ((h + length us) mod cap) + 1) T =
           Inr (T', int ((h + (?n - 1)) mod cap) + 1)"
         "ring (slots T' cap) h (?n - 1) = take (length us) (map LTable rs) @ drop (Suc (length us)) (map LTable rs)"
         "\<forall>i. i < 1 \<or> int cap < i \<longrightarrow> T' i = T i"
      using remove_shift_run [OF q(2,3) t0 q(1) _ _ q(4), of "length us" fuel] rs(1) small by auto
    let ?T = "rawseti T' (int cap + 2) (LInt (int ((h + (?n - 1)) mod cap) + 1))"
    have e: "map LTable (remove1 p rs) = take (length us) (map LTable rs) @ drop (Suc (length us)) (map LTable rs)"
      using rs by (simp add: remove1_append)
    have l: "length (map LTable (remove1 p rs)) = ?n - 1" using rs by (simp add: remove1_append)
    have "slots ?T cap = slots T' cap" unfolding rawseti_def by (rule slots_upd_outside) simp
    then have "ring (slots ?T cap) h (?n - 1) = map LTable (remove1 p rs)" using T'(2) e by simp
    then have "q_rep ?T (map LTable (remove1 p rs))"
      unfolding q_rep_def l
      by (intro exI [of _ cap] exI [of _ h] exI [of _ "(h + (?n - 1)) mod cap"])
        (use q T'(3) in \<open>auto simp: rawseti_at\<close>)
    then show ?thesis unfolding run hit T'(1) by simp
  next
    case False
    obtain f where f: "fuel = ?n + Suc f" using small(2) less_iff_Suc_add by auto
    have "remove_search fuel fuel (int cap) (int ((h + ?n) mod cap) + 1) p (int ((h + 0) mod cap) + 1) 3 T =
      remove_search (Suc f) fuel (int cap) (int ((h + ?n) mod cap) + 1) p (int ((h + (0 + ?n)) mod cap) + 1) (3 + ?n) T"
      unfolding f by (rule remove_search_skip [OF q(2,3,1,4)]) (use False small in \<open>auto simp: lua_minstack_def\<close>)
    then have "lremove fuel T [LTable p] = Inr T" using run q(2) by simp
    then show ?thesis using rep False by (simp add: remove1_idem)
  qed
qed

lemma remove_endless:
  assumes rep: "q_rep T (map LTable rs)" and tail: "T 0 = LInt cap'" "T (cap' + 2) = LInt 1"
    and small: "length rs \<le> 16" and p: "p \<in> set rs"
  shows "lremove fuel T [LTable p] = Inl Diverges"
proof -
  let ?n = "length rs"
  obtain cap h where q: "2 \<le> cap" "h < cap" "?n < cap"
    "ring (slots T cap) h ?n = map LTable rs"
    "q_load T = Inr (int cap, int h + 1, int ((h + ?n) mod cap) + 1)"
    "T 0 = LInt (int cap)" "T (int cap + 1) = LInt (int h + 1)" "T (int cap + 2) = LInt (int ((h + ?n) mod cap) + 1)"
    by (rule q_rep_offset [OF rep, unfolded length_map])
  have t0: "(h + ?n) mod cap = 0" using tail q(6,8) by auto
  have run: "lremove fuel T [LTable p] =
      remove_search fuel fuel (int cap) (int ((h + ?n) mod cap) + 1) p (int h + 1) 3 T"
    using q(5) by (simp add: lremove_def arg_def)
  obtain us vs where rs: "rs = us @ p # vs" "p \<notin> set us" using p by (meson split_list_first)
  have shift: "remove_shift fu (int cap) (int ((h + ?n) mod cap) + 1) (int ((h + length us) mod cap) + 1) T' = Inl Diverges" for fu T'
    unfolding t0 using remove_shift_endless [OF q(1,2)] by simp
  show ?thesis
  proof (cases "length us < fuel")
    case True
    have "remove_search fuel fuel (int cap) (int ((h + ?n) mod cap) + 1) p (int h + 1) 3 T =
        bind_res (remove_shift fuel (int cap) (int ((h + ?n) mod cap) + 1) (int ((h + length us) mod cap) + 1) T)
          (\<lambda>(T', j). Inr (rawseti T' (int cap + 2) (LInt j)))"
      by (rule remove_found [OF q(2,1,3,4) rs _ True]) (use rs small in \<open>auto simp: lua_minstack_def\<close>)
    then show ?thesis unfolding run shift by simp
  next
    case False
    have "0 + fuel \<le> ?n" "p \<notin> set (take fuel (drop 0 rs))" "3 + fuel \<le> lua_minstack"
      using rs small False by (auto simp: lua_minstack_def dest: in_set_takeD)
    from remove_search_skip [OF q(2,3,1,4) this, of 0 fuel] show ?thesis using run q(2) by simp
  qed
qed

section \<open>Observers\<close>

lemma llen_rep: "q_rep T xs \<Longrightarrow> llen T = Inr [LInt (int (length xs))]"
  by (elim q_rep_offset) (simp add: llen_def lsize_nat)

lemma next_index_offset:
  assumes "h < cap" "i < cap"
  shows "next_index (int h + 1 + int i) (int cap) = int ((h + i) mod cap) + 1"
proof (cases "h + i < cap")
  case True
  then show ?thesis by (auto simp: next_index_def)
next
  case False
  define k where "k = h + i - cap"
  have k: "h + i = cap + k" "Suc k < cap" using assms False by (auto simp: k_def)
  have e: "int h + 1 + int i = int cap + (int k + 1)" using arg_cong [OF k(1), of int] by simp
  have "(int cap + (int k + 1)) mod int cap = int k + 1" using k(2) by (simp add: mod_pos_pos_trivial)
  then have "next_index (int cap + (int k + 1)) (int cap) = int k + 1"
    using k(2) c_rem_pos [of "int cap + (int k + 1)" "int cap"] by (simp add: next_index_def)
  then show ?thesis unfolding e k(1) using k(2) by simp
qed

lemma lat_rep:
  assumes "q_rep T xs" "i < length xs"
  shows "lat T [LInt (int i + 1)] = Inr [xs ! i]"
proof -
  obtain cap h where q: "2 \<le> cap" "h < cap" "length xs < cap" "ring (slots T cap) h (length xs) = xs"
    "q_load T = Inr (int cap, int h + 1, int ((h + length xs) mod cap) + 1)"
    by (rule q_rep_offset [OF assms(1)])
  have "T (int ((h + i) mod cap) + 1) = ring (slots T cap) h (length xs) ! i"
    using assms(2) q(1) by simp
  then have "T (int ((h + i) mod cap) + 1) = xs ! i" unfolding q(4) .
  moreover have "int h + 1 + (int i + 1) - 1 = int h + 1 + int i" by simp
  then have "next_index (int h + 1 + (int i + 1) - 1) (int cap) = int ((h + i) mod cap) + 1"
    using next_index_offset [of h cap i] q(2,3) assms(2) by (simp only:)
  ultimately show ?thesis
    unfolding lat_def q(5) using q(2,3) assms(2) by (simp add: arg_def lsize_nat)
qed

lemma lnext_rep:
  assumes "q_rep T xs" "i \<le> length xs" "c = LInt (int i) \<or> i = 0 \<and> c = LNil"
  shows "lnext T [c] = Inr (if i < length xs then [LInt (int i + 1), xs ! i] else [])"
proof -
  obtain cap h where q: "2 \<le> cap" "h < cap" "length xs < cap" "ring (slots T cap) h (length xs) = xs"
    "q_load T = Inr (int cap, int h + 1, int ((h + length xs) mod cap) + 1)"
    by (rule q_rep_offset [OF assms(1)])
  have idx: "(case arg [c] 0 of LInt i \<Rightarrow> i | _ \<Rightarrow> 0) = int i" using assms(3) by (auto simp: arg_def)
  have nx: "next_index (int h + 1 + int i) (int cap) = int ((h + i) mod cap) + 1"
    by (rule next_index_offset) (use q assms(2) in auto)
  have ne: "(h + i) mod cap = (h + length xs) mod cap \<longleftrightarrow> i = length xs"
    using mod_ring_inj [of i cap "length xs" h] q(3) assms(2) by auto
  have "T (int ((h + i) mod cap) + 1) = xs ! i" if "i < length xs"
  proof -
    have "T (int ((h + i) mod cap) + 1) = ring (slots T cap) h (length xs) ! i" using that q(1) by simp
    then show ?thesis unfolding q(4) .
  qed
  then show ?thesis
    using ne assms(2) unfolding lnext_def q(5) by (simp add: idx nx lsize_nat q(2,3))
qed

section \<open>Properties\<close>

text \<open>
  C16: A Lua queue built by \<open>lalloc\<close> and used through \<open>enqueue\<close> and \<open>dequeue\<close> never
  fails, answers every dequeue as a first-in first-out list does, grows as needed and
  reports the number of its elements; \<open>dequeue\<close> of an empty queue returns nothing.
\<close>
theorem lua_queue_fifo:
  "\<exists>T. q_run push_table pop_table os (lalloc args) = Inr (T, snd (l_run os [])) \<and>
       q_rep T (fst (l_run os [])) \<and> llen T = Inr [LInt (int (length (fst (l_run os []))))] \<and>
       pushes os = popped (snd (l_run os [])) @ fst (l_run os [])"
proof -
  obtain T where T: "q_run push_table pop_table os (lalloc args) = Inr (T, snd (l_run os []))"
    "q_rep T (fst (l_run os []))"
    using luaq.run_refines [OF lalloc_rep] by blast
  moreover have "[] @ pushes os = popped (snd (l_run os [])) @ fst (l_run os [])"
    by (rule l_run_conserves) simp
  ultimately show ?thesis using llen_rep [OF T(2)] by auto
qed

text \<open>
  On a queue that holds \<open>xs\<close>, \<open>at\<close> reads the element of every position, counted
  from 1, and \<open>pairs\<close> yields all elements in order, with their positions, and then stops.
\<close>
theorem lua_queue_reads:
  assumes "q_rep T xs"
  shows "(\<forall>i<length xs. lat T [LInt (int i + 1)] = Inr [xs ! i]) \<and>
         lnext T [LNil] = Inr (if xs = [] then [] else [LInt 1, hd xs]) \<and>
         (\<forall>i\<le>length xs. lnext T [LInt (int i)] = Inr (if i < length xs then [LInt (int i + 1), xs ! i] else []))"
  using lat_rep [OF assms] lnext_rep [OF assms] lnext_rep [OF assms, of 0 LNil]
  by (cases xs) auto

theorem lua_queue_reads_witness:
  "lat (rawseti (rawseti (lalloc []) 1 (LInt 7)) 18 (LInt 2)) [LInt 1] = Inr [LInt 7] \<and>
   lnext (rawseti (rawseti (lalloc []) 1 (LInt 7)) 18 (LInt 2)) [LInt 1] = Inr []"
proof -
  let ?T = "rawseti (rawseti (lalloc []) 1 (LInt 7)) 18 (LInt 2)"
  have "alloc_len 0 16 = 16" by (simp add: alloc_len.simps)
  then have "q_rep ?T [LInt 7]"
    by (intro q_repI [of 16 0]) (simp_all add: lalloc_def rawseti_def slots_def ring_def upt_rec Let_def)
  note reads = lua_queue_reads [OF this]
  have "lat ?T [LInt 1] = Inr [LInt 7]" using reads by simp
  moreover have "lnext ?T [LInt (int 1)] = Inr []"
    using reads [THEN conjunct2, THEN conjunct2, rule_format, of 1] by simp
  ultimately show ?thesis by simp
qed

text \<open>
  C17: \<open>remove\<close> on a queue of at most 16 tables: it takes out the first table that is the
  argument and closes the gap, or leaves the queue alone when the argument is not there;
  but when the tail is in the first slot of the ring and the argument is in the queue, the
  inner loop never ends, whatever number of rounds it is given.
\<close>
theorem lua_queue_remove:
  assumes "q_rep T (map LTable rs)" "T 0 = LInt cap" "length rs \<le> 16" "length rs < fuel"
  shows "if T (cap + 2) = LInt 1 \<and> p \<in> set rs then lremove fuel T [LTable p] = Inl Diverges
    else \<exists>T'. lremove fuel T [LTable p] = Inr T' \<and> q_rep T' (map LTable (remove1 p rs))"
  using remove_endless [OF assms(1,2) _ assms(3), of p fuel] remove_rep [OF assms(1,2) _ assms(3,4), of p]
  by auto

theorem lua_queue_remove_witness:
  "\<exists>T'. lremove 9 (rawseti (rawseti (rawseti (lalloc []) 1 (LTable 5)) 2 (LTable 6)) 18 (LInt 3)) [LTable 5] = Inr T' \<and>
        q_rep T' [LTable 6]"
proof -
  let ?T = "rawseti (rawseti (rawseti (lalloc []) 1 (LTable 5)) 2 (LTable 6)) 18 (LInt 3)"
  have "alloc_len 0 16 = 16" by (simp add: alloc_len.simps)
  then have "q_rep ?T (map LTable [5, 6])" and "?T 0 = LInt 16" and "?T (16 + 2) \<noteq> LInt 1"
    by (auto intro!: q_repI [of 16 0] simp: lalloc_def rawseti_def slots_def ring_def upt_rec Let_def)
  from lua_queue_remove [OF this(1,2), of 9 5] this(3) show ?thesis by simp
qed

end
