(* ===== verification/LuaStack.thy ===== *)
theory LuaStack
  imports LuaTable
begin

text \<open>
  The stack and the fixed-size array of \<open>lualib-src/chestnut\<close> (\<open>lua-stack.c\<close>,
  \<open>lua-array.c\<close>): both keep their length in slot 0 and their elements in the slots from 1.
\<close>

section \<open>The stack\<close>

definition lpush_stk :: "lua_table \<Rightarrow> lua_value list \<Rightarrow> lua_table res" where
  "lpush_stk T args =
     bind_res (checkinteger (T 0)) (\<lambda>top.
       if arg args 0 = LNil then Inl (LuaError ''args #2 must not be nil.'')
       else Inr (rawseti (rawseti T (top + 1) (arg args 0)) 0 (LInt (top + 1))))"

definition lpop_stk :: "lua_table \<Rightarrow> (lua_table \<times> lua_value list) res" where
  "lpop_stk T =
     bind_res (checkinteger (T 0)) (\<lambda>top.
       if top \<le> 0 then Inr (T, []) else Inr (rawseti T 0 (LInt (top - 1)), [T top]))"

definition lpeek_stk :: "lua_table \<Rightarrow> lua_value list res" where
  "lpeek_stk T =
     bind_res (checkinteger (T 0)) (\<lambda>top. if top \<le> 0 then Inr [] else Inr [T top])"

definition llen_stk :: "lua_table \<Rightarrow> lua_value list" where
  "llen_stk T = [T 0]"

definition lnext_stk :: "lua_table \<Rightarrow> lua_value list \<Rightarrow> lua_value list res" where
  "lnext_stk T args =
     bind_res (if arg args 0 = LNil then checkinteger (T 0)
               else Inr ((case arg args 0 of LInt i \<Rightarrow> i | _ \<Rightarrow> 0) - 1)) (\<lambda>idx.
       if idx \<le> 0 then Inr [] else Inr [LInt idx, T idx])"

definition lalloc_stk :: "lua_value list \<Rightarrow> lua_table" where
  "lalloc_stk args = rawseti (table_of args) 0 (LInt (int (length args)))"

datatype stack_op = SPush lua_value | SPop | SPeek

text \<open>A run of calls and the values that it returns; the list specification keeps the top first.\<close>

fun stack_run :: "stack_op list \<Rightarrow> lua_table \<Rightarrow> (lua_table \<times> lua_value list list) res" where
  "stack_run [] T = Inr (T, [])"
| "stack_run (SPush v # os) T =
     bind_res (lpush_stk T [v]) (\<lambda>T'. bind_res (stack_run os T') (\<lambda>(T'', rs). Inr (T'', [] # rs)))"
| "stack_run (SPop # os) T =
     bind_res (lpop_stk T) (\<lambda>(T', r). bind_res (stack_run os T') (\<lambda>(T'', rs). Inr (T'', r # rs)))"
| "stack_run (SPeek # os) T =
     bind_res (lpeek_stk T) (\<lambda>r. bind_res (stack_run os T) (\<lambda>(T'', rs). Inr (T'', r # rs)))"

fun stack_spec :: "stack_op list \<Rightarrow> lua_value list \<Rightarrow> lua_value list \<times> lua_value list list" where
  "stack_spec [] xs = (xs, [])"
| "stack_spec (SPush v # os) xs = (let (ys, rs) = stack_spec os (v # xs) in (ys, [] # rs))"
| "stack_spec (SPop # os) xs = (let (ys, rs) = stack_spec os (tl xs) in (ys, take 1 xs # rs))"
| "stack_spec (SPeek # os) xs = (let (ys, rs) = stack_spec os xs in (ys, take 1 xs # rs))"

lemma lpush_stk_rep:
  assumes "vec_rep T (rev xs)" "v \<noteq> LNil"
  shows "\<exists>T'. lpush_stk T [v] = Inr T' \<and> vec_rep T' (rev (v # xs))"
  using vec_rep_snoc [OF assms(1), of v] assms by (simp add: lpush_stk_def arg_def vec_rep_len)

lemma top_rep: "vec_rep T (rev (x # xs)) \<Longrightarrow> T (int (length xs) + 1) = x"
  using vec_rep_nth [of T "rev (x # xs)" "length xs"] by (simp add: nth_append)

lemma lpop_stk_rep:
  assumes "vec_rep T (rev xs)"
  shows "\<exists>T'. lpop_stk T = Inr (T', take 1 xs) \<and> vec_rep T' (rev (tl xs))"
proof (cases xs)
  case Nil
  then show ?thesis using assms by (simp add: lpop_stk_def vec_rep_len)
next
  case (Cons x ys)
  then show ?thesis
    using assms vec_rep_butlast [OF assms] top_rep [of T x ys]
    by (simp add: lpop_stk_def vec_rep_len butlast_append add.commute)
qed

lemma lpeek_stk_rep: "vec_rep T (rev xs) \<Longrightarrow> lpeek_stk T = Inr (take 1 xs)"
  using top_rep by (cases xs) (auto simp: lpeek_stk_def vec_rep_len add.commute)

lemma stack_run_spec:
  "vec_rep T (rev xs) \<Longrightarrow> SPush LNil \<notin> set os \<Longrightarrow>
   \<exists>T'. stack_run os T = Inr (T', snd (stack_spec os xs)) \<and> vec_rep T' (rev (fst (stack_spec os xs)))"
proof (induction os xs arbitrary: T rule: stack_spec.induct)
  case (2 v os xs)
  then obtain T1 where "lpush_stk T [v] = Inr T1" "vec_rep T1 (rev (v # xs))"
    using lpush_stk_rep [of T xs v] by auto
  then show ?case using "2.IH" [of T1] "2.prems"(2) by (auto simp: split_def Let_def)
next
  case (3 os xs)
  then obtain T1 where "lpop_stk T = Inr (T1, take 1 xs)" "vec_rep T1 (rev (tl xs))"
    using lpop_stk_rep [of T xs] by auto
  then show ?case using "3.IH" [of T1] "3.prems"(2) by (auto simp: split_def Let_def)
next
  case (4 os xs)
  then obtain T' where "stack_run os T = Inr (T', snd (stack_spec os xs))"
    "vec_rep T' (rev (fst (stack_spec os xs)))" by auto
  then show ?case using lpeek_stk_rep [OF "4.prems"(1)] by (simp add: split_def Let_def)
qed simp

text \<open>
  A stack made of the arguments \<open>args\<close> behaves in every run of push, pop and peek as
  the list with the top first: a pop returns and removes the last pushed element, a pop or peek
  of the empty stack returns nothing, and the length is the number of elements.
\<close>
theorem lua_stack_lifo:
  assumes "SPush LNil \<notin> set os"
  shows "\<exists>T. stack_run os (lalloc_stk args) = Inr (T, snd (stack_spec os (rev args))) \<and>
           vec_rep T (rev (fst (stack_spec os (rev args)))) \<and>
           llen_stk T = [LInt (int (length (fst (stack_spec os (rev args)))))]"
proof -
  have "vec_rep (lalloc_stk args) (rev (rev args))" by (simp add: lalloc_stk_def table_of_rep)
  from stack_run_spec [OF this assms] show ?thesis by (auto simp: llen_stk_def vec_rep_len)
qed

theorem lua_stack_lifo_witness:
  "\<exists>T. stack_run [SPush (LInt 1), SPush (LInt 2), SPop, SPop, SPop] (lalloc_stk []) = Inr (T, [[], [], [LInt 2], [LInt 1], []])"
  using lua_stack_lifo [of "[SPush (LInt 1), SPush (LInt 2), SPop, SPop, SPop]" "[]"] by (auto simp: Let_def)

section \<open>The array\<close>

definition lindex_arr :: "lua_table \<Rightarrow> lua_value list \<Rightarrow> lua_value list res" where
  "lindex_arr T args =
     bind_res (checkinteger (arg args 0)) (\<lambda>idx.
       if idx \<le> 0 then Inl (LuaError ''The index should be positive'')
       else
         bind_res (checkinteger (T 0)) (\<lambda>sparselen.
           if idx > sparselen then Inl (LuaError ''The index should be less then'')
           else Inr [T idx]))"

definition lnewindex_arr :: "lua_table \<Rightarrow> lua_value list \<Rightarrow> lua_table res" where
  "lnewindex_arr T args =
     bind_res (checkinteger (arg args 0)) (\<lambda>idx.
       if idx \<le> 0 then Inl (LuaError ''The index should be positive'')
       else if length args < 2 then Inl (LuaError ''The top should be more than 3'')
       else
         bind_res (checkinteger (T 0)) (\<lambda>sparselen.
           if idx > sparselen then Inl (LuaError ''The index should be less then'')
           else Inr (rawseti T idx (arg args 1))))"

definition lnext_arr :: "lua_table \<Rightarrow> lua_value list \<Rightarrow> lua_value list res" where
  "lnext_arr T args =
     bind_res (case arg args 0 of LNil \<Rightarrow> Inr 1 | LInt i \<Rightarrow> Inr (i + 1)
               | _ \<Rightarrow> Inl (LuaError ''last index should be integer'')) (\<lambda>idx.
     case T 0 of
       LInt sparselen \<Rightarrow> if idx > sparselen then Inr [] else Inr [LInt idx, T idx]
     | _ \<Rightarrow> Inl (LuaError ''Invalid array''))"

definition llen_arr :: "lua_table \<Rightarrow> lua_value list" where
  "llen_arr T = [T 0]"

text \<open>\<open>lnewarray\<close> fixes the size; the closure that it returns takes the initial elements.\<close>

definition lnewarray :: "lua_value list \<Rightarrow> int res" where
  "lnewarray args = bind_res (checkinteger (arg args 0)) (\<lambda>n. Inr (if n < 0 then 0 else n))"

definition lnewarrayinit :: "int \<Rightarrow> lua_value list \<Rightarrow> lua_table" where
  "lnewarrayinit n args = rawseti (table_of (take (nat n) args)) 0 (LInt n)"

lemma lnewarrayinit_rep:
  "vec_rep (lnewarrayinit (int n) args) (take n args @ replicate (n - length args) LNil)"
  by (rule vec_repI) (auto simp: lnewarrayinit_def rawseti_at table_of_at nth_append)

text \<open>
  An array of size \<open>n\<close> holds its first \<open>n\<close> initial elements, padded with nil; a
  write inside the bounds replaces one element and keeps the length, every write outside them
  is an error, and \<open>pairs\<close> visits every slot in order, nil ones too.
\<close>
theorem lua_array_contract:
  assumes "vec_rep T xs"
  shows "(k < length xs \<longrightarrow> (\<exists>T'. lnewindex_arr T [LInt (int k + 1), v] = Inr T' \<and> vec_rep T' (xs[k := v]))) \<and>
    (i \<le> 0 \<or> int (length xs) < i \<longrightarrow> (\<exists>e. lnewindex_arr T [LInt i, v] = Inl e) \<and> (\<exists>e. lindex_arr T [LInt i] = Inl e)) \<and>
    lnext_arr T [if k = 0 then LNil else LInt (int k)] = Inr (if k < length xs then [LInt (int k + 1), xs ! k] else []) \<and>
    lnewarray [LInt (int n)] = Inr (int n) \<and>
    vec_rep (lnewarrayinit (int n) args) (take n args @ replicate (n - length args) LNil)"
proof -
  have "k < length xs \<longrightarrow> (\<exists>T'. lnewindex_arr T [LInt (int k + 1), v] = Inr T' \<and> vec_rep T' (xs[k := v]))"
    using vec_rep_update [OF assms, of "int k + 1" v] assms by (auto simp: lnewindex_arr_def arg_def vec_rep_len)
  moreover have "i \<le> 0 \<or> int (length xs) < i \<longrightarrow> (\<exists>e. lnewindex_arr T [LInt i, v] = Inl e) \<and> (\<exists>e. lindex_arr T [LInt i] = Inl e)"
    using assms by (auto simp: lnewindex_arr_def lindex_arr_def arg_def vec_rep_len)
  moreover have "lnext_arr T [if k = 0 then LNil else LInt (int k)] =
      Inr (if k < length xs then [LInt (int k + 1), xs ! k] else [])"
    using assms vec_rep_nth [OF assms, of k] by (cases k) (auto simp: lnext_arr_def arg_def vec_rep_len)
  ultimately show ?thesis using lnewarrayinit_rep by (simp add: lnewarray_def arg_def)
qed

theorem lua_array_contract_witness:
  "\<exists>T'. lnewindex_arr (lnewarrayinit 2 [LInt 8]) [LInt (int 1 + 1), LInt 9] = Inr T' \<and> vec_rep T' [LInt 8, LInt 9]"
proof -
  have "vec_rep (lnewarrayinit 2 [LInt 8]) [LInt 8, LNil]"
    using lnewarrayinit_rep [of 2 "[LInt 8]"] by simp
  from lua_array_contract [OF this, of 1 "LInt 9"] show ?thesis by simp
qed

end
