(* ===== verification/LuaVector.thy ===== *)
theory LuaVector
  imports LuaTable "HOL-Library.Multiset"
begin

text \<open>
  The vector of \<open>lualib-src/chestnut/lua-vector.c\<close>: its operations on a table with the
  length in slot 0, and its in-place quicksort. The comparison function of \<open>sort\<close> is Lua
  code: it is a parameter, a function of two values with a value or an error as its result.
\<close>

type_synonym lua_cmp = "lua_value \<Rightarrow> lua_value \<Rightarrow> lua_value res"

definition lat_vec :: "lua_table \<Rightarrow> lua_value list \<Rightarrow> lua_value list res" where
  "lat_vec T args =
     bind_res (checkinteger (arg args 0)) (\<lambda>idx.
       if idx \<le> 0 then Inl (LuaError ''The index should be positive'')
       else
         bind_res (checkinteger (T 0)) (\<lambda>sparselen.
           if idx > sparselen then Inl (LuaError ''The index should be less then'')
           else Inr [T idx]))"

definition lclear_vec :: "lua_table \<Rightarrow> lua_table res" where
  "lclear_vec T =
     bind_res (checkinteger (T 0)) (\<lambda>sparselen. Inr (rawseti (clear_slots T sparselen) 0 (LInt 0)))"

text \<open>
  \<open>linsert\<close>: behind the last element, or in the middle after moving the tail up. There
  \<open>lua_rawseti(L, 1, idx)\<close> takes the value on the top of the Lua stack, which is the length
  that was loaded last.
\<close>

definition linsert_vec :: "lua_table \<Rightarrow> lua_value list \<Rightarrow> lua_table res" where
  "linsert_vec T args =
     bind_res (checkinteger (arg args 0)) (\<lambda>idx.
       if idx \<le> 0 then Inl (LuaError ''The index should be positive'')
       else if length args < 2 then Inl (LuaError ''The param more than 3'')
       else if arg args 1 = LNil then Inl (LuaError ''The param #3 is nil'')
       else
         bind_res (checkinteger (T 0)) (\<lambda>sparselen.
           if idx = sparselen + 1 then Inr (rawseti (rawseti T idx (arg args 1)) 0 (LInt (sparselen + 1)))
           else if idx > sparselen + 1 then Inl (LuaError ''The index should be less then'')
           else Inr (rawseti (rawseti (shift_up T idx sparselen) idx (LInt sparselen)) 0 (LInt (sparselen + 1)))))"

text \<open>\<open>lerase\<close> only leaves two values of each round on the Lua stack.\<close>

definition lerase_vec :: "lua_table \<Rightarrow> lua_value list \<Rightarrow> lua_table res" where
  "lerase_vec T args =
     (if args \<noteq> [] \<and> arg args 0 = LNil then Inl (LuaError ''The param #3 is nil'')
      else
        bind_res (checkinteger (T 0)) (\<lambda>sparselen.
          if int lua_minstack < 1 + 2 * sparselen then Inl LuaStackOverflow else Inr T))"

definition leraseat_vec :: "lua_table \<Rightarrow> lua_value list \<Rightarrow> lua_table res" where
  "leraseat_vec T args =
     bind_res (checkinteger (arg args 0)) (\<lambda>idx.
       if idx \<le> 0 then Inl (LuaError ''The index should be positive'')
       else
         bind_res (checkinteger (T 0)) (\<lambda>sparselen.
           if idx \<ge> sparselen then Inl (LuaError ''The index should be less then'')
           else
             let T1 = (if idx < sparselen then shift_down T (idx + 1) sparselen else rawseti T idx LNil)
             in Inr (rawseti T1 0 (LInt (sparselen - 1)))))"

text \<open>
  \<open>lpush_back\<close>: \<open>lua_settop(L, 2)\<close> comes after the length was loaded, which stands in for
  a missing argument.
\<close>

definition lpush_back :: "lua_table \<Rightarrow> lua_value list \<Rightarrow> (lua_table \<times> lua_value list) res" where
  "lpush_back T args =
     (if args \<noteq> [] \<and> arg args 0 = LNil then Inl (LuaError ''not push back nil.'')
      else
        bind_res (checkinteger (T 0)) (\<lambda>sparselen.
          let v = (if args = [] then LInt sparselen else arg args 0)
          in Inr (rawseti (rawseti T (sparselen + 1) v) 0 (LInt (sparselen + 1)), [LInt (sparselen + 1)])))"

definition lpop_back :: "lua_table \<Rightarrow> lua_table res" where
  "lpop_back T =
     bind_res (checkinteger (T 0)) (\<lambda>sparselen.
       if sparselen > 0 then Inr (rawseti T 0 (LInt (sparselen - 1))) else Inr T)"

definition lindexof_vec :: "lua_table \<Rightarrow> lua_value list \<Rightarrow> lua_value list" where
  "lindexof_vec T args = []"

definition lnext_vec :: "lua_table \<Rightarrow> lua_value list \<Rightarrow> lua_value list res" where
  "lnext_vec T args =
     bind_res (case arg args 0 of LNil \<Rightarrow> Inr 1 | LInt i \<Rightarrow> Inr (i + 1)
               | _ \<Rightarrow> Inl (LuaError ''last index should be integer'')) (\<lambda>idx.
     bind_res (checkinteger (T 0)) (\<lambda>sparselen.
       if idx \<le> sparselen then Inr [LInt idx, T idx] else Inr []))"

definition llen_vec :: "lua_table \<Rightarrow> lua_value list" where
  "llen_vec T = [T 0]"

definition lnewvector :: "lua_value list \<Rightarrow> lua_table" where
  "lnewvector args = rawseti (table_of args) 0 (LInt (int (length args)))"

section \<open>Quicksort\<close>

definition compare_values :: "lua_cmp \<Rightarrow> lua_value \<Rightarrow> lua_value \<Rightarrow> int res" where
  "compare_values cmp x y = bind_res (cmp x y) checkinteger"

text \<open>The two inner loops, on the table, the hole \<open>i\<close> and the other end \<open>j\<close>.\<close>

function scan_down :: "lua_cmp \<Rightarrow> lua_value \<Rightarrow> lua_table \<Rightarrow> int \<Rightarrow> int \<Rightarrow> (lua_table \<times> int \<times> int) res" where
  "scan_down cmp p T i j =
     (if i < j then
        bind_res (compare_values cmp p (T j)) (\<lambda>r.
          if r < 0 then scan_down cmp p T i (j - 1) else Inr (rawseti T i (T j), i + 1, j))
      else Inr (T, i, j))"
  by pat_completeness auto
termination by (relation "measure (\<lambda>(cmp, p, T, i, j). nat (j - i))") auto

function scan_up :: "lua_cmp \<Rightarrow> lua_value \<Rightarrow> lua_table \<Rightarrow> int \<Rightarrow> int \<Rightarrow> (lua_table \<times> int \<times> int) res" where
  "scan_up cmp p T i j =
     (if i < j then
        bind_res (compare_values cmp (T i) p) (\<lambda>r.
          if r < 0 then scan_up cmp p T (i + 1) j else Inr (rawseti T j (T i), i, j - 1))
      else Inr (T, i, j))"
  by pat_completeness auto
termination by (relation "measure (\<lambda>(cmp, p, T, i, j). nat (j - i))") auto

declare scan_down.simps [simp del] scan_up.simps [simp del]

lemma scan_down_bounds:
  "scan_down cmp p T i j = Inr (T', i', j') \<Longrightarrow> i < j \<Longrightarrow> i \<le> i' \<and> i' \<le> j' \<and> j' \<le> j \<and> (i < i' \<or> j' < j)"
proof (induction cmp p T i j rule: scan_down.induct)
  case (1 cmp p T i j)
  show ?case
  proof (cases "i < j - 1")
    case True
    with "1.prems" "1.IH" show ?thesis
      by (subst (asm) scan_down.simps) (fastforce simp: res_elims split: if_splits)
  next
    case False
    with "1.prems" show ?thesis
      by (subst (asm) scan_down.simps) (auto simp: res_elims scan_down.simps [of cmp p T i "j - 1"] split: if_splits)
  qed
qed

lemma scan_up_bounds:
  "scan_up cmp p T i j = Inr (T', i', j') \<Longrightarrow> i \<le> j \<Longrightarrow> i \<le> i' \<and> i' \<le> j' \<and> j' \<le> j"
proof (induction cmp p T i j rule: scan_up.induct)
  case (1 cmp p T i j)
  show ?case
  proof (cases "i < j")
    case True
    with "1.prems" "1.IH" show ?thesis
      by (subst (asm) scan_up.simps) (fastforce simp: res_elims split: if_splits)
  next
    case False
    with "1.prems" show ?thesis by (simp add: scan_up.simps)
  qed
qed

function sort_partition :: "lua_cmp \<Rightarrow> lua_value \<Rightarrow> lua_table \<Rightarrow> int \<Rightarrow> int \<Rightarrow> (lua_table \<times> int) res" where
  "sort_partition cmp p T i j =
     (if i < j then
        bind_res (scan_down cmp p T i j) (\<lambda>(T1, i1, j1).
        bind_res (scan_up cmp p T1 i1 j1) (\<lambda>(T2, i2, j2). sort_partition cmp p T2 i2 j2))
      else Inr (T, i))"
  by pat_completeness auto
termination
  by (relation "measure (\<lambda>(cmp, p, T, i, j). nat (j - i))")
    (auto dest!: scan_down_bounds scan_up_bounds)

declare sort_partition.simps [simp del]

lemma sort_partition_bounds: "sort_partition cmp p T i j = Inr (T', m) \<Longrightarrow> i \<le> j \<Longrightarrow> i \<le> m \<and> m \<le> j"
proof (induction cmp p T i j rule: sort_partition.induct)
  case (1 cmp p T i j)
  show ?case
  proof (cases "i < j")
    case True
    with "1.prems"(1) obtain T1 i1 j1 T2 i2 j2 where
      s: "scan_down cmp p T i j = Inr (T1, i1, j1)" "scan_up cmp p T1 i1 j1 = Inr (T2, i2, j2)"
        "sort_partition cmp p T2 i2 j2 = Inr (T', m)"
      by (subst (asm) sort_partition.simps) (auto simp: res_elims)
    with scan_down_bounds [OF s(1) True] scan_up_bounds [OF s(2)]
    have "i2 \<le> j2" "i \<le> i2" "j2 \<le> j" by auto
    with "1.IH" [OF True s(1) refl refl s(2) refl refl s(3)] show ?thesis by auto
  next
    case False
    with "1.prems" show ?thesis by (simp add: sort_partition.simps)
  qed
qed

function quick_sort :: "lua_cmp \<Rightarrow> lua_table \<Rightarrow> int \<Rightarrow> int \<Rightarrow> lua_table res" where
  "quick_sort cmp T l r =
     (if l \<ge> r then Inr T
      else
        bind_res (sort_partition cmp (T l) T l r) (\<lambda>(T1, i).
        bind_res (quick_sort cmp (rawseti T1 i (T l)) l (i - 1)) (\<lambda>T2. quick_sort cmp T2 (i + 1) r)))"
  by pat_completeness auto
termination
  by (relation "measure (\<lambda>(cmp, T, l, r). nat (r - l + 1))") (auto dest!: sort_partition_bounds)

declare quick_sort.simps [simp del]

definition lsort :: "lua_table \<Rightarrow> lua_cmp \<Rightarrow> lua_table res" where
  "lsort T cmp =
     bind_res (checkinteger (T 0)) (\<lambda>sparselen.
       if sparselen \<le> 512 then quick_sort cmp T 1 sparselen else quick_sort cmp T 1 sparselen)"

section \<open>The sort is correct\<close>

text \<open>
  What the sort needs of the comparison, on the values \<open>V\<close> that it meets: it answers with an
  integer, and "negative" is a strict weak order.
\<close>

definition orders :: "lua_cmp \<Rightarrow> (lua_value \<Rightarrow> lua_value \<Rightarrow> int) \<Rightarrow> lua_value set \<Rightarrow> bool" where
  "orders cmp c V \<longleftrightarrow>
     (\<forall>x\<in>V. \<forall>y\<in>V. cmp x y = Inr (LInt (c x y)) \<and> (c x y < 0 \<longrightarrow> \<not> c y x < 0) \<and>
        (\<forall>z\<in>V. \<not> c x y < 0 \<longrightarrow> \<not> c y z < 0 \<longrightarrow> \<not> c x z < 0))"

lemma orders_cmp: "orders cmp c V \<Longrightarrow> x \<in> V \<Longrightarrow> y \<in> V \<Longrightarrow> compare_values cmp x y = Inr (c x y)"
  by (simp add: orders_def compare_values_def)

lemma orders_asym: "orders cmp c V \<Longrightarrow> x \<in> V \<Longrightarrow> y \<in> V \<Longrightarrow> c x y < 0 \<Longrightarrow> \<not> c y x < 0"
  unfolding orders_def by meson

lemma orders_trans:
  "orders cmp c V \<Longrightarrow> x \<in> V \<Longrightarrow> y \<in> V \<Longrightarrow> z \<in> V \<Longrightarrow> \<not> c x y < 0 \<Longrightarrow> \<not> c y z < 0 \<Longrightarrow> \<not> c x z < 0"
  unfolding orders_def by meson

definition content :: "int \<Rightarrow> int \<Rightarrow> lua_table \<Rightarrow> lua_value multiset" where
  "content l r T = image_mset T (mset_set {l..r})"

lemma content_cong: "(\<And>k. l \<le> k \<Longrightarrow> k \<le> r \<Longrightarrow> T k = T' k) \<Longrightarrow> content l r T = content l r T'"
  unfolding content_def by (rule image_mset_cong) simp

lemma content_move:
  assumes "l \<le> i" "i \<le> r" "l \<le> j" "j \<le> r"
  shows "content l r (rawseti (rawseti T i (T j)) j p) = content l r (rawseti T i p)"
proof (cases "i = j")
  case True
  then show ?thesis by (intro content_cong) (simp add: rawseti_at)
next
  case False
  obtain D where D: "{l..r} = insert i (insert j D)" "finite D" "i \<notin> D" "j \<notin> D"
    using assms by (intro that [of "{l..r} - {i, j}"]) auto
  have "image_mset (rawseti (rawseti T i (T j)) j p) (mset_set D) = image_mset (rawseti T i p) (mset_set D)"
    by (rule image_mset_cong) (use D in \<open>auto simp: rawseti_at\<close>)
  then show ?thesis unfolding content_def D(1) using False D(2-4) by (simp add: rawseti_at)
qed

lemma content_split:
  assumes "l \<le> i" "i \<le> r"
  shows "content l r T = content l (i - 1) T + {#T i#} + content (i + 1) r T"
proof -
  have D: "{l..r} = insert i ({l..i - 1} \<union> {i + 1..r})" using assms by auto
  have "mset_set ({l..i - 1} \<union> {i + 1..r}) = mset_set {l..i - 1} + mset_set {i + 1..r}"
    by (rule mset_set_Union) auto
  then show ?thesis by (simp add: content_def D)
qed

lemma in_content: "x \<in># content l r T \<longleftrightarrow> (\<exists>k. l \<le> k \<and> k \<le> r \<and> x = T k)"
  by (auto simp: content_def)

lemma content_values:
  assumes "content l r T = content l r T'" "\<forall>k. l \<le> k \<longrightarrow> k \<le> r \<longrightarrow> P (T k)"
  shows "\<forall>k. l \<le> k \<longrightarrow> k \<le> r \<longrightarrow> P (T' k)"
  using assms by (metis in_content)

lemma ex3I: "P a b c \<Longrightarrow> \<exists>x y z. P x y z"
  by blast

lemma scan_down_run:
  "orders cmp c V \<Longrightarrow> p \<in> V \<Longrightarrow> i \<le> j \<Longrightarrow> \<forall>k. i \<le> k \<longrightarrow> k \<le> j \<longrightarrow> T k \<in> V \<Longrightarrow>
    \<exists>T' i' j'. scan_down cmp p T i j = Inr (T', i', j') \<and> i \<le> i' \<and> i' \<le> j' \<and> j' \<le> j \<and>
      (\<forall>k. k \<noteq> i \<longrightarrow> T' k = T k) \<and> T' i \<in> V \<and>
      (\<forall>k. i \<le> k \<longrightarrow> k < i' \<longrightarrow> \<not> c p (T' k) < 0) \<and> (\<forall>k. j' < k \<longrightarrow> k \<le> j \<longrightarrow> c p (T' k) < 0) \<and>
      (\<forall>l r. l \<le> i \<longrightarrow> j \<le> r \<longrightarrow> content l r (rawseti T' j' p) = content l r (rawseti T i p))"
proof (induction cmp p T i j rule: scan_down.induct)
  case (1 cmp p T i j)
  note prems = "1.prems"
  show ?case
  proof (cases "i < j")
    case True
    then have r: "compare_values cmp p (T j) = Inr (c p (T j))"
      by (intro orders_cmp [OF prems(1,2)]) (use prems(4) in auto)
    show ?thesis
    proof (cases "c p (T j) < 0")
      case True
      obtain T' i' j' where IH: "scan_down cmp p T i (j - 1) = Inr (T', i', j')" "i \<le> i'" "i' \<le> j'" "j' \<le> j - 1"
        "\<forall>k. k \<noteq> i \<longrightarrow> T' k = T k" "T' i \<in> V" "\<forall>k. i \<le> k \<longrightarrow> k < i' \<longrightarrow> \<not> c p (T' k) < 0"
        "\<forall>k. j' < k \<longrightarrow> k \<le> j - 1 \<longrightarrow> c p (T' k) < 0"
        "\<forall>l r. l \<le> i \<longrightarrow> j - 1 \<le> r \<longrightarrow> content l r (rawseti T' j' p) = content l r (rawseti T i p)"
        using "1.IH" [OF \<open>i < j\<close> r True prems(1,2)] prems(4) \<open>i < j\<close> by auto
      have "c p (T' k) < 0" if "j' < k" "k \<le> j" for k
        using IH(5,8) that True \<open>i < j\<close> by (cases "k = j") auto
      moreover have "scan_down cmp p T i j = Inr (T', i', j')"
        using \<open>i < j\<close> r True IH(1) by (subst scan_down.simps) simp
      ultimately show ?thesis using IH(2-7,9) by (intro ex3I [of _ T' i' j']) simp
    next
      case False
      have "scan_down cmp p T i j = Inr (rawseti T i (T j), i + 1, j)"
        using \<open>i < j\<close> r False by (subst scan_down.simps) simp
      moreover have "content l s (rawseti (rawseti T i (T j)) j p) = content l s (rawseti T i p)" if "l \<le> i" "j \<le> s" for l s
        by (rule content_move) (use that \<open>i < j\<close> in auto)
      moreover have "k \<noteq> i \<Longrightarrow> rawseti T i (T j) k = T k" "rawseti T i (T j) i = T j" for k
        by (simp_all add: rawseti_at)
      ultimately show ?thesis
        using \<open>i < j\<close> False prems(4) by (intro ex3I [of _ "rawseti T i (T j)" "i + 1" j]) simp
    qed
  next
    case False
    then have "scan_down cmp p T i j = Inr (T, i, j)" and "i = j" using prems(3) by (simp_all add: scan_down.simps)
    then show ?thesis using prems(4) by auto
  qed
qed

lemma scan_up_run:
  "orders cmp c V \<Longrightarrow> p \<in> V \<Longrightarrow> i \<le> j \<Longrightarrow> \<forall>k. i \<le> k \<longrightarrow> k \<le> j \<longrightarrow> T k \<in> V \<Longrightarrow>
    \<exists>T' i' j'. scan_up cmp p T i j = Inr (T', i', j') \<and> i \<le> i' \<and> i' \<le> j' \<and> j' \<le> j \<and>
      (\<forall>k. k \<noteq> j \<longrightarrow> T' k = T k) \<and> T' j \<in> V \<and>
      (\<forall>k. i \<le> k \<longrightarrow> k < i' \<longrightarrow> c (T' k) p < 0) \<and> (\<forall>k. j' < k \<longrightarrow> k \<le> j \<longrightarrow> \<not> c (T' k) p < 0) \<and>
      (\<forall>l r. l \<le> i \<longrightarrow> j \<le> r \<longrightarrow> content l r (rawseti T' i' p) = content l r (rawseti T j p))"
proof (induction cmp p T i j rule: scan_up.induct)
  case (1 cmp p T i j)
  note prems = "1.prems"
  show ?case
  proof (cases "i < j")
    case True
    then have r: "compare_values cmp (T i) p = Inr (c (T i) p)"
      by (intro orders_cmp [OF prems(1)]) (use prems(2,4) in auto)
    show ?thesis
    proof (cases "c (T i) p < 0")
      case True
      obtain T' i' j' where IH: "scan_up cmp p T (i + 1) j = Inr (T', i', j')" "i + 1 \<le> i'" "i' \<le> j'" "j' \<le> j"
        "\<forall>k. k \<noteq> j \<longrightarrow> T' k = T k" "T' j \<in> V" "\<forall>k. i + 1 \<le> k \<longrightarrow> k < i' \<longrightarrow> c (T' k) p < 0"
        "\<forall>k. j' < k \<longrightarrow> k \<le> j \<longrightarrow> \<not> c (T' k) p < 0"
        "\<forall>l r. l \<le> i + 1 \<longrightarrow> j \<le> r \<longrightarrow> content l r (rawseti T' i' p) = content l r (rawseti T j p)"
        using "1.IH" [OF \<open>i < j\<close> r True prems(1,2)] prems(4) \<open>i < j\<close> by auto
      have "c (T' k) p < 0" if "i \<le> k" "k < i'" for k
        using IH(5,7) that True \<open>i < j\<close> by (cases "k = i") auto
      moreover have "scan_up cmp p T i j = Inr (T', i', j')"
        using \<open>i < j\<close> r True IH(1) by (subst scan_up.simps) simp
      ultimately show ?thesis using IH(2-6,8,9) by (intro ex3I [of _ T' i' j']) simp
    next
      case False
      have "scan_up cmp p T i j = Inr (rawseti T j (T i), i, j - 1)"
        using \<open>i < j\<close> r False by (subst scan_up.simps) simp
      moreover have "content l s (rawseti (rawseti T j (T i)) i p) = content l s (rawseti T j p)" if "l \<le> i" "j \<le> s" for l s
        by (rule content_move) (use that \<open>i < j\<close> in auto)
      moreover have "k \<noteq> j \<Longrightarrow> rawseti T j (T i) k = T k" "rawseti T j (T i) j = T i" for k
        by (simp_all add: rawseti_at)
      moreover have "\<not> c (rawseti T j (T i) k) p < 0" if "j - 1 < k" "k \<le> j" for k
      proof -
        have "k = j" using that by simp
        then show ?thesis using False by (simp add: rawseti_at)
      qed
      ultimately show ?thesis
        using \<open>i < j\<close> False prems(4) by (intro ex3I [of _ "rawseti T j (T i)" i "j - 1"]) simp
    qed
  next
    case False
    then have "scan_up cmp p T i j = Inr (T, i, j)" and "i = j" using prems(3) by (simp_all add: scan_up.simps)
    then show ?thesis using prems(4) by auto
  qed
qed

text \<open>The outer loop: everything left of the final hole is not above the pivot, everything right not below.\<close>

lemma sort_partition_run:
  "orders cmp c V \<Longrightarrow> p \<in> V \<Longrightarrow> l \<le> i \<Longrightarrow> i \<le> j \<Longrightarrow> j \<le> r \<Longrightarrow> \<forall>k. l \<le> k \<longrightarrow> k \<le> r \<longrightarrow> T k \<in> V \<Longrightarrow>
    \<forall>k. l \<le> k \<longrightarrow> k < i \<longrightarrow> \<not> c p (T k) < 0 \<Longrightarrow> \<forall>k. j < k \<longrightarrow> k \<le> r \<longrightarrow> \<not> c (T k) p < 0 \<Longrightarrow>
    \<exists>T' m. sort_partition cmp p T i j = Inr (T', m) \<and> l \<le> m \<and> m \<le> r \<and>
      (\<forall>k. k < l \<or> r < k \<longrightarrow> T' k = T k) \<and> (\<forall>k. l \<le> k \<longrightarrow> k \<le> r \<longrightarrow> T' k \<in> V) \<and>
      (\<forall>k. l \<le> k \<longrightarrow> k < m \<longrightarrow> \<not> c p (T' k) < 0) \<and> (\<forall>k. m < k \<longrightarrow> k \<le> r \<longrightarrow> \<not> c (T' k) p < 0) \<and>
      content l r (rawseti T' m p) = content l r (rawseti T i p)"
proof (induction cmp p T i j rule: sort_partition.induct)
  case (1 cmp p T i j)
  note prems = "1.prems"
  show ?case
  proof (cases "i < j")
    case True
    obtain T1 i1 j1 where s1: "scan_down cmp p T i j = Inr (T1, i1, j1)" "i \<le> i1" "i1 \<le> j1" "j1 \<le> j"
      "\<forall>k. k \<noteq> i \<longrightarrow> T1 k = T k" "T1 i \<in> V"
      "\<forall>k. i \<le> k \<longrightarrow> k < i1 \<longrightarrow> \<not> c p (T1 k) < 0" "\<forall>k. j1 < k \<longrightarrow> k \<le> j \<longrightarrow> c p (T1 k) < 0"
      "\<forall>l r. l \<le> i \<longrightarrow> j \<le> r \<longrightarrow> content l r (rawseti T1 j1 p) = content l r (rawseti T i p)"
      using scan_down_run [OF prems(1,2,4), of T] prems(3,5,6) by auto
    have V1: "T1 k \<in> V" if "l \<le> k" "k \<le> r" for k using s1(5,6) prems(6) that by (cases "k = i") auto
    obtain T2 i2 j2 where s2: "scan_up cmp p T1 i1 j1 = Inr (T2, i2, j2)" "i1 \<le> i2" "i2 \<le> j2" "j2 \<le> j1"
      "\<forall>k. k \<noteq> j1 \<longrightarrow> T2 k = T1 k" "T2 j1 \<in> V"
      "\<forall>k. i1 \<le> k \<longrightarrow> k < i2 \<longrightarrow> c (T2 k) p < 0" "\<forall>k. j2 < k \<longrightarrow> k \<le> j1 \<longrightarrow> \<not> c (T2 k) p < 0"
      "\<forall>l r. l \<le> i1 \<longrightarrow> j1 \<le> r \<longrightarrow> content l r (rawseti T2 i2 p) = content l r (rawseti T1 j1 p)"
      using scan_up_run [OF prems(1,2) s1(3), of T1] V1 s1(2,4) prems(3,5) by auto
    have V2: "T2 k \<in> V" if "l \<le> k" "k \<le> r" for k using s2(5,6) V1 that by (cases "k = j1") auto
    have left: "\<not> c p (T2 k) < 0" if "l \<le> k" "k < i2" for k
    proof -
      have k: "k \<noteq> j1" "k \<le> r" using that s2(3,4) s1(4) prems(5) by auto
      consider "k < i" | "i \<le> k" "k < i1" | "i1 \<le> k" by linarith
      then show ?thesis
      proof cases
        case 1
        then show ?thesis using s2(5) s1(5) k prems(7) that(1) by auto
      next
        case 2
        then show ?thesis using s2(5) s1(7) k by auto
      next
        case 3
        then show ?thesis using s2(7) that(2) orders_asym [OF prems(1) V2 [OF that(1) k(2)] prems(2)] by auto
      qed
    qed
    have right: "\<not> c (T2 k) p < 0" if "j2 < k" "k \<le> r" for k
    proof -
      have k: "l \<le> k" "k \<noteq> i" using that s2(2,3) s1(2) prems(3) by auto
      consider "k \<le> j1" | "j1 < k" "k \<le> j" | "j < k" by linarith
      then show ?thesis
      proof cases
        case 1
        then show ?thesis using s2(8) that(1) by auto
      next
        case 2
        then have "c p (T2 k) < 0" using s2(5) s1(8) by auto
        then show ?thesis using orders_asym [OF prems(1,2) V2 [OF k(1) that(2)]] by auto
      next
        case 3
        then show ?thesis using s2(5) s1(4,5) k prems(8) that(2) by auto
      qed
    qed
    have bounds: "l \<le> i2" "j2 \<le> r" using s1 s2 prems(3,5) by auto
    obtain T' m where IH: "sort_partition cmp p T2 i2 j2 = Inr (T', m)" "l \<le> m" "m \<le> r"
      "\<forall>k. k < l \<or> r < k \<longrightarrow> T' k = T2 k" "\<forall>k. l \<le> k \<longrightarrow> k \<le> r \<longrightarrow> T' k \<in> V"
      "\<forall>k. l \<le> k \<longrightarrow> k < m \<longrightarrow> \<not> c p (T' k) < 0" "\<forall>k. m < k \<longrightarrow> k \<le> r \<longrightarrow> \<not> c (T' k) p < 0"
      "content l r (rawseti T' m p) = content l r (rawseti T2 i2 p)"
      using "1.IH" [OF True s1(1) refl refl s2(1) refl refl prems(1,2) bounds(1) s2(3) bounds(2)] V2 left right by auto
    have "content l r (rawseti T2 i2 p) = content l r (rawseti T i p)"
      using s2(9) s1(2,4,9) prems(3,5) by auto
    moreover have "T2 k = T k" if "k < l \<or> r < k" for k
      using that s2(5) s1(2-5) prems(3-5) by auto
    moreover have "sort_partition cmp p T i j = Inr (T', m)"
      using True s1(1) s2(1) IH(1) by (subst sort_partition.simps) simp
    ultimately show ?thesis using IH(2-8) by auto
  next
    case False
    then have "sort_partition cmp p T i j = Inr (T, i)" by (simp add: sort_partition.simps)
    then show ?thesis using prems(3-8) False by auto
  qed
qed

lemma quick_sort_run:
  "orders cmp c V \<Longrightarrow> \<forall>k. l \<le> k \<longrightarrow> k \<le> r \<longrightarrow> T k \<in> V \<Longrightarrow>
    \<exists>T'. quick_sort cmp T l r = Inr T' \<and> content l r T' = content l r T \<and>
      (\<forall>k. k < l \<or> r < k \<longrightarrow> T' k = T k) \<and>
      (\<forall>a b. l \<le> a \<longrightarrow> a < b \<longrightarrow> b \<le> r \<longrightarrow> \<not> c (T' b) (T' a) < 0)"
proof (induction cmp T l r rule: quick_sort.induct)
  case (1 cmp T l r)
  note prems = "1.prems"
  show ?case
  proof (cases "l \<ge> r")
    case True
    then show ?thesis by (auto simp: quick_sort.simps)
  next
    case False
    let ?p = "T l"
    have p: "?p \<in> V" using prems(2) False by auto
    obtain T1 m where s: "sort_partition cmp ?p T l r = Inr (T1, m)" "l \<le> m" "m \<le> r"
      "\<forall>k. k < l \<or> r < k \<longrightarrow> T1 k = T k" "\<forall>k. l \<le> k \<longrightarrow> k \<le> r \<longrightarrow> T1 k \<in> V"
      "\<forall>k. l \<le> k \<longrightarrow> k < m \<longrightarrow> \<not> c ?p (T1 k) < 0" "\<forall>k. m < k \<longrightarrow> k \<le> r \<longrightarrow> \<not> c (T1 k) ?p < 0"
      "content l r (rawseti T1 m ?p) = content l r (rawseti T l ?p)"
      using sort_partition_run [OF prems(1) p, of l l r r T] prems(2) False by auto
    have same: "rawseti T l ?p = T" by (simp add: rawseti_def)
    let ?T1 = "rawseti T1 m ?p"
    have T1: "?T1 m = ?p" "k \<noteq> m \<Longrightarrow> ?T1 k = T1 k" for k by (simp_all add: rawseti_at)
    obtain T2 where q2: "quick_sort cmp ?T1 l (m - 1) = Inr T2" "content l (m - 1) T2 = content l (m - 1) ?T1"
      "\<forall>k. k < l \<or> m - 1 < k \<longrightarrow> T2 k = ?T1 k"
      "\<forall>a b. l \<le> a \<longrightarrow> a < b \<longrightarrow> b \<le> m - 1 \<longrightarrow> \<not> c (T2 b) (T2 a) < 0"
      using "1.IH"(1) [OF False s(1) refl prems(1)] s(3,5) T1(2) by auto
    obtain T3 where q3: "quick_sort cmp T2 (m + 1) r = Inr T3" "content (m + 1) r T3 = content (m + 1) r T2"
      "\<forall>k. k < m + 1 \<or> r < k \<longrightarrow> T3 k = T2 k"
      "\<forall>a b. m + 1 \<le> a \<longrightarrow> a < b \<longrightarrow> b \<le> r \<longrightarrow> \<not> c (T3 b) (T3 a) < 0"
      using "1.IH"(2) [OF False s(1) refl q2(1) prems(1)] s(2,5) T1(2) q2(3) by auto
    have low: "content l (m - 1) T3 = content l (m - 1) ?T1" using q2(2) q3(3) content_cong [of l "m - 1" T3 T2] by simp
    have high: "content (m + 1) r T3 = content (m + 1) r ?T1"
      using q3(2) q2(3) content_cong [of "m + 1" r T2 ?T1] by simp
    have mid: "T3 m = ?p" using q3(3) q2(3) T1(1) by simp
    have "content l r T3 = content l r ?T1"
      using content_split [OF s(2,3), of T3] content_split [OF s(2,3), of ?T1] low high mid T1(1) by simp
    then have perm: "content l r T3 = content l r T" using s(8) same by simp
    have left: "T3 k \<in> V \<and> \<not> c ?p (T3 k) < 0" if "l \<le> k" "k < m" for k
      using content_values [OF low [symmetric], of "\<lambda>x. x \<in> V \<and> \<not> c ?p x < 0"] that s(3,5,6) T1(2) by auto
    have right: "T3 k \<in> V \<and> \<not> c (T3 k) ?p < 0" if "m < k" "k \<le> r" for k
      using content_values [OF high [symmetric], of "\<lambda>x. x \<in> V \<and> \<not> c x ?p < 0"] that s(2,5,7) T1(2) by auto
    have "\<not> c (T3 b) (T3 a) < 0" if ab: "l \<le> a" "a < b" "b \<le> r" for a b
    proof -
      consider "b < m" | "b = m" | "a = m" | "a < m" "m < b" | "m < a" using ab by linarith
      then show ?thesis
      proof cases
        case 1
        then show ?thesis using q2(4) q3(3) ab by auto
      next
        case 2
        then show ?thesis using left [OF ab(1)] ab mid by auto
      next
        case 3
        then show ?thesis using right [of b] ab mid by auto
      next
        case 4
        then show ?thesis
          using orders_trans [OF prems(1) _ p, of "T3 b" "T3 a"] left [of a] right [of b] ab by auto
      next
        case 5
        then show ?thesis using q3(4) ab by auto
      qed
    qed
    moreover have "T3 k = T k" if "k < l \<or> r < k" for k
      using that q3(3) q2(3) T1(2) s(2-4) by auto
    moreover have "quick_sort cmp T l r = Inr T3"
      using False s(1) q2(1) q3(1) by (subst quick_sort.simps) simp
    ultimately show ?thesis using perm by blast
  qed
qed

lemma content_slots: "content 1 (int n) T = mset (slots T n)"
proof (induction n)
  case (Suc n)
  have "content 1 (int (Suc n)) T = content 1 (int n) T + {#T (int n + 1)#} + content (int n + 1 + 1) (int n + 1) T"
    using content_split [of 1 "int n + 1" "int n + 1" T] by (simp add: add.commute)
  moreover have "content (int n + 1 + 1) (int n + 1) T = {#}" by (simp add: content_def)
  ultimately show ?case using Suc by (simp add: slots_Suc)
qed (simp add: content_def)

section \<open>Properties\<close>

text \<open>
  C18: \<open>sort\<close> with a comparison function that is a strict weak order on the elements ends
  without error and leaves a permutation of the elements in which no element is smaller
  than one before it.
\<close>
theorem lua_vector_sort:
  assumes "vec_rep T xs" "orders cmp c (set xs)"
  shows "\<exists>T' ys. lsort T cmp = Inr T' \<and> vec_rep T' ys \<and> mset ys = mset xs \<and> sorted_wrt (\<lambda>x y. \<not> c y x < 0) ys"
proof -
  let ?n = "length xs"
  have V: "\<forall>k. 1 \<le> k \<longrightarrow> k \<le> int ?n \<longrightarrow> T k \<in> set xs"
    using vec_rep_at [OF assms(1)] by auto
  obtain T' where T': "quick_sort cmp T 1 (int ?n) = Inr T'" "content 1 (int ?n) T' = content 1 (int ?n) T"
    "\<forall>k. k < 1 \<or> int ?n < k \<longrightarrow> T' k = T k"
    "\<forall>a b. 1 \<le> a \<longrightarrow> a < b \<longrightarrow> b \<le> int ?n \<longrightarrow> \<not> c (T' b) (T' a) < 0"
    using quick_sort_run [OF assms(2) V] by auto
  let ?ys = "slots T' ?n"
  have "vec_rep T' ?ys" using T'(3) vec_rep_len [OF assms(1)] by (simp add: vec_rep_def)
  moreover have "mset ?ys = mset xs"
    using T'(2) assms(1) by (simp add: content_slots vec_rep_def)
  moreover have "sorted_wrt (\<lambda>x y. \<not> c y x < 0) ?ys"
    using T'(4) by (auto simp: sorted_wrt_iff_nth_less)
  moreover have "lsort T cmp = Inr T'"
    using T'(1) by (simp add: lsort_def vec_rep_len [OF assms(1)])
  ultimately show ?thesis by blast
qed

definition int_cmp :: lua_cmp where
  "int_cmp x y = (case (x, y) of (LInt i, LInt j) \<Rightarrow> Inr (LInt (i - j)) | _ \<Rightarrow> Inl (LuaError ''attempt to compare''))"

definition int_order :: "lua_value \<Rightarrow> lua_value \<Rightarrow> int" where
  "int_order x y = (case (x, y) of (LInt i, LInt j) \<Rightarrow> i - j | _ \<Rightarrow> 0)"

lemma int_cmp_orders: "orders int_cmp int_order (range LInt)"
  by (auto simp: orders_def int_cmp_def int_order_def)

lemma orders_mono: "orders cmp c V \<Longrightarrow> W \<subseteq> V \<Longrightarrow> orders cmp c W"
  unfolding orders_def by blast

theorem lua_vector_sort_witness:
  "\<exists>T' ys. lsort (lnewvector [LInt 3, LInt 1, LInt 2]) int_cmp = Inr T' \<and> vec_rep T' ys \<and>
     mset ys = {#LInt 1, LInt 2, LInt 3#}"
proof -
  let ?xs = "[LInt 3, LInt 1, LInt 2]"
  have "vec_rep (lnewvector ?xs) ?xs" unfolding lnewvector_def by (rule table_of_rep)
  moreover have "orders int_cmp int_order (set ?xs)"
    by (rule orders_mono [OF int_cmp_orders]) auto
  ultimately obtain T' ys where "lsort (lnewvector ?xs) int_cmp = Inr T'" "vec_rep T' ys" "mset ys = mset ?xs"
    using lua_vector_sort by blast
  moreover have "mset ?xs = {#LInt 1, LInt 2, LInt 3#}" by simp
  ultimately show ?thesis by metis
qed

text \<open>
  The edits of a vector: \<open>push_back\<close> appends and answers the new length, \<open>pop_back\<close>
  drops the last element, \<open>eraseat\<close> closes the gap for every position but the last, which
  it rejects; \<open>insert\<close> behind the last element appends, but anywhere else it opens the
  gap and stores the length of the vector in it, not the element it was given.
\<close>
theorem lua_vector_edit:
  assumes "vec_rep T xs" "v \<noteq> LNil"
  shows "(\<exists>T'. lpush_back T [v] = Inr (T', [LInt (int (length xs) + 1)]) \<and> vec_rep T' (xs @ [v])) \<and>
    (\<exists>T'. lpop_back T = Inr T' \<and> vec_rep T' (butlast xs)) \<and>
    (i + 1 < length xs \<longrightarrow> (\<exists>T'. leraseat_vec T [LInt (int i + 1)] = Inr T' \<and> vec_rep T' (take i xs @ drop (Suc i) xs))) \<and>
    (i + 1 = length xs \<longrightarrow> (\<exists>e. leraseat_vec T [LInt (int i + 1)] = Inl e)) \<and>
    (i \<le> length xs \<longrightarrow> (\<exists>T'. linsert_vec T [LInt (int i + 1), v] = Inr T' \<and>
       vec_rep T' (take i xs @ (if i = length xs then v else LInt (int (length xs))) # drop i xs)))"
proof (intro conjI impI)
  note len = vec_rep_len [OF assms(1)]
  show "\<exists>T'. lpush_back T [v] = Inr (T', [LInt (int (length xs) + 1)]) \<and> vec_rep T' (xs @ [v])"
    using vec_rep_snoc [OF assms(1), of v] assms(2) by (simp add: lpush_back_def arg_def len Let_def)
  show "\<exists>T'. lpop_back T = Inr T' \<and> vec_rep T' (butlast xs)"
    using vec_rep_butlast [OF assms(1)] assms(1) by (cases xs) (auto simp: lpop_back_def len)
  show "\<exists>T'. leraseat_vec T [LInt (int i + 1)] = Inr T' \<and> vec_rep T' (take i xs @ drop (Suc i) xs)"
    if "i + 1 < length xs"
    using vec_rep_remove [OF assms(1), of i] that
    by (auto simp: leraseat_vec_def arg_def len Let_def add.commute)
  show "\<exists>e. leraseat_vec T [LInt (int i + 1)] = Inl e" if "i + 1 = length xs"
    using that [symmetric] len by (simp add: leraseat_vec_def arg_def)
  show "\<exists>T'. linsert_vec T [LInt (int i + 1), v] = Inr T' \<and>
      vec_rep T' (take i xs @ (if i = length xs then v else LInt (int (length xs))) # drop i xs)" if "i \<le> length xs"
    using vec_rep_snoc [OF assms(1), of v] vec_rep_insert [OF assms(1) that, of "LInt (int (length xs))"] assms(2) that
    by (auto simp: linsert_vec_def arg_def len)
qed

theorem lua_vector_edit_witness:
  "\<exists>T'. linsert_vec (lnewvector [LStr ''a'', LStr ''b'']) [LInt 1, LStr ''c''] = Inr T' \<and>
        vec_rep T' [LInt 2, LStr ''a'', LStr ''b'']"
proof -
  have "vec_rep (lnewvector [LStr ''a'', LStr ''b'']) [LStr ''a'', LStr ''b'']"
    unfolding lnewvector_def by (rule table_of_rep)
  from lua_vector_edit [OF this, of "LStr ''c''" 0] show ?thesis by simp
qed

end
