(* ===== verification/SortedVector.thy ===== *)
theory SortedVector
  imports LuaVector
begin

text \<open>
  The sorted vector of \<open>lualib-src/chestnut/lua-sortedvector.c\<close>. Its searches leave a
  value on the Lua stack in every round; the model counts the free slots (\<open>room\<close>), and
  a call that runs out of them breaks the contract of the C API (\<open>LuaStackOverflow\<close>).
  \<open>lbinarysearch\<close>, which no table registers, is left out.
\<close>

definition lat_sv :: "lua_table \<Rightarrow> lua_value list \<Rightarrow> lua_value list res" where
  "lat_sv T args =
     bind_res (checkinteger (arg args 0)) (\<lambda>idx.
       if idx \<le> 0 then Inl (LuaError ''The index should be positive'')
       else
         bind_res (checkinteger (T 0)) (\<lambda>sparselen.
           if idx > sparselen then Inl (LuaError ''The index should be less then'')
           else Inr [T idx]))"

definition lclear_sv :: "lua_table \<Rightarrow> lua_table res" where
  "lclear_sv T =
     bind_res (checkinteger (T 0)) (\<lambda>sparselen. Inr (rawseti (clear_slots T sparselen) 0 (LInt 0)))"

text \<open>The search loop that \<open>lerase\<close>, \<open>lindexof\<close> and \<open>lcontains\<close> share.\<close>

fun find_slot :: "nat \<Rightarrow> lua_table \<Rightarrow> lua_value \<Rightarrow> int \<Rightarrow> int \<Rightarrow> (int \<times> nat) res" where
  "find_slot 0 T v n i = (if i \<le> n then Inl LuaStackOverflow else Inr (0, 0))"
| "find_slot (Suc room) T v n i =
     (if i \<le> n then if T i = v then Inr (i, room) else find_slot room T v n (i + 1)
      else Inr (0, Suc room))"

definition erase_slot :: "lua_table \<Rightarrow> int \<Rightarrow> int \<Rightarrow> lua_table" where
  "erase_slot T idx n = rawseti (rawseti (shift_down T (idx + 1) n) n LNil) 0 (LInt (n - 1))"

text \<open>\<open>lerase\<close> does not settle its stack: with no argument the length is compared.\<close>

definition lerase_sv :: "lua_table \<Rightarrow> lua_value list \<Rightarrow> lua_table res" where
  "lerase_sv T args =
     (if args \<noteq> [] \<and> arg args 0 = LNil then Inl (LuaError ''the param #2 is nil'')
      else
        bind_res (checkinteger (T 0)) (\<lambda>n.
        bind_res (find_slot (lua_minstack - 1) T (if args = [] then LInt n else arg args 0) n 1) (\<lambda>(idx, room).
          if idx \<noteq> 0 then
            bind_res (assert_res (0 < room) LuaStackOverflow) (\<lambda>_. Inr (erase_slot T idx n))
          else Inr T)))"

definition leraseat_sv :: "lua_table \<Rightarrow> lua_value list \<Rightarrow> lua_table res" where
  "leraseat_sv T args =
     bind_res (checkinteger (arg args 0)) (\<lambda>idx.
       if idx \<le> 0 then Inl (LuaError ''The index should be positive'')
       else
         bind_res (checkinteger (T 0)) (\<lambda>n.
           if idx \<ge> n + 1 then Inl (LuaError ''The index should be less then'')
           else Inr (erase_slot T idx n)))"

text \<open>
  The loop of \<open>lpush_asc\<close>: a round pushes \<open>__comp\<close> and two values, and leaves the
  result of the call.
\<close>

definition call_comp :: "lua_cmp option \<Rightarrow> lua_value \<Rightarrow> lua_value \<Rightarrow> int res" where
  "call_comp cmp x y =
     (case cmp of None \<Rightarrow> Inl (LuaError ''attempt to call a nil value'') | Some f \<Rightarrow> compare_values f x y)"

function insert_asc :: "nat \<Rightarrow> lua_cmp option \<Rightarrow> lua_value \<Rightarrow> int \<Rightarrow> lua_table \<Rightarrow> (lua_table \<times> int) res" where
  "insert_asc room cmp v i T =
     (if i \<ge> 1 then
        if room < 3 then Inl LuaStackOverflow
        else
          bind_res (call_comp cmp (T i) v) (\<lambda>r.
            if r > 0 then insert_asc (room - 1) cmp v (i - 1) (rawseti T (i + 1) (T i))
            else Inr (T, i + 1))
      else Inr (T, 1))"
  by pat_completeness auto
termination by (relation "measure (\<lambda>(room, cmp, v, i, T). nat i)") auto

declare insert_asc.simps [simp del]

definition lpush_asc :: "lua_table \<Rightarrow> lua_cmp option \<Rightarrow> lua_value list \<Rightarrow> lua_table res" where
  "lpush_asc T cmp args =
     (if args \<noteq> [] \<and> arg args 0 = LNil then Inl (LuaError ''the param #2 is nil.'')
      else
        bind_res (checkinteger (T 0)) (\<lambda>n.
        bind_res (if n \<le> 0 then Inr (T, 1)
                  else insert_asc (lua_minstack + length args - 2) cmp (arg args 0) n T) (\<lambda>(T1, idx).
          Inr (rawseti (rawseti T1 idx (arg args 0)) 0 (LInt (n + 1))))))"

definition lindexof_sv :: "lua_table \<Rightarrow> lua_value list \<Rightarrow> lua_value list res" where
  "lindexof_sv T args =
     (if args \<noteq> [] \<and> arg args 0 = LNil then Inl (LuaError ''the param #2 is nil'')
      else
        bind_res (checkinteger (T 0)) (\<lambda>n.
        bind_res (find_slot (lua_minstack + length args - 2) T (arg args 0) n 1) (\<lambda>(idx, room).
        bind_res (assert_res (0 < room) LuaStackOverflow) (\<lambda>_. Inr [LInt idx]))))"

definition lcontains_sv :: "lua_table \<Rightarrow> lua_value list \<Rightarrow> lua_value list res" where
  "lcontains_sv T args =
     (if args \<noteq> [] \<and> arg args 0 = LNil then Inl (LuaError ''the param #2 is nil'')
      else
        bind_res (checkinteger (T 0)) (\<lambda>n.
        bind_res (find_slot (lua_minstack + length args - 2) T (arg args 0) n 1) (\<lambda>(idx, room).
        bind_res (assert_res (0 < room) LuaStackOverflow) (\<lambda>_. Inr [LBool (idx \<noteq> 0)]))))"

definition lnext_sv :: "lua_table \<Rightarrow> lua_value list \<Rightarrow> lua_value list res" where
  "lnext_sv T args =
     bind_res (case arg args 0 of LNil \<Rightarrow> Inr 1 | LInt i \<Rightarrow> Inr (i + 1)
               | _ \<Rightarrow> Inl (LuaError ''last index should be integer'')) (\<lambda>idx.
     bind_res (checkinteger (T 0)) (\<lambda>n. if idx \<le> n then Inr [LInt idx, T idx] else Inr []))"

definition llen_sv :: "lua_table \<Rightarrow> lua_value list" where
  "llen_sv T = [T 0]"

text \<open>The constructor takes the elements as they come.\<close>

definition lnewsortedvectorinit :: "lua_value list \<Rightarrow> lua_table" where
  "lnewsortedvectorinit args = rawseti (table_of args) 0 (LInt (int (length args)))"

section \<open>Searching\<close>

lemma find_slot_run:
  assumes "vec_rep T xs"
  shows "i \<le> length xs \<Longrightarrow> length xs - i < room \<Longrightarrow>
    \<exists>room'. find_slot room T v (int (length xs)) (int i + 1) =
      Inr (if v \<in> set (drop i xs) then int (i + length (takeWhile (\<lambda>x. x \<noteq> v) (drop i xs))) + 1 else 0, room') \<and>
      room \<le> room' + (length xs - i) \<and> (v \<in> set (drop i xs) \<or> 0 < room')"
proof (induction room arbitrary: i)
  case (Suc room)
  show ?case
  proof (cases "i < length xs")
    case False
    then have "i = length xs" using Suc.prems by simp
    then show ?thesis by simp
  next
    case True
    then have d: "drop i xs = xs ! i # drop (Suc i) xs" by (simp add: Cons_nth_drop_Suc)
    have T: "T (int i + 1) = xs ! i" by (rule vec_rep_nth [OF assms True])
    show ?thesis
    proof (cases "xs ! i = v")
      case True
      then show ?thesis using \<open>i < length xs\<close> T d by auto
    next
      case False
      have "Suc i \<le> length xs" "length xs - Suc i < room" using Suc.prems \<open>i < length xs\<close> by auto
      from Suc.IH [OF this] obtain room' where "find_slot room T v (int (length xs)) (int (Suc i) + 1) =
          Inr (if v \<in> set (drop (Suc i) xs) then int (Suc i + length (takeWhile (\<lambda>x. x \<noteq> v) (drop (Suc i) xs))) + 1 else 0, room')"
        "room \<le> room' + (length xs - Suc i)" "v \<in> set (drop (Suc i) xs) \<or> 0 < room'"
        by blast
      moreover have "v \<in> set (drop i xs) \<longleftrightarrow> v \<in> set (drop (Suc i) xs)" using d False by auto
      moreover have "takeWhile (\<lambda>x. x \<noteq> v) (drop i xs) = xs ! i # takeWhile (\<lambda>x. x \<noteq> v) (drop (Suc i) xs)"
        using d False by simp
      ultimately show ?thesis using \<open>i < length xs\<close> T False by (auto simp: add.commute)
    qed
  qed
qed simp

definition first_index :: "lua_value \<Rightarrow> lua_value list \<Rightarrow> nat" where
  "first_index v xs = length (takeWhile (\<lambda>x. x \<noteq> v) xs)"

lemma first_index_less: "v \<in> set xs \<Longrightarrow> first_index v xs < length xs"
  unfolding first_index_def by (induction xs) auto

lemma remove1_first_index:
  "v \<in> set xs \<Longrightarrow> take (first_index v xs) xs @ drop (Suc (first_index v xs)) xs = remove1 v xs"
  unfolding first_index_def by (induction xs) auto

lemma find_slot_first:
  assumes "vec_rep T xs" "length xs \<le> 18"
  shows "\<exists>room. find_slot 19 T v (int (length xs)) 1 =
    Inr (if v \<in> set xs then int (first_index v xs) + 1 else 0, room) \<and> 0 < room"
  using find_slot_run [OF assms(1), of 0 19 v] assms(2) unfolding first_index_def by auto

lemma vec_rep_outside:
  assumes "vec_rep (rawseti S 0 x) ys" "int (length ys) < n"
  shows "vec_rep (rawseti (rawseti S n w) 0 x) ys"
  using assms(2) vec_rep_len [OF assms(1)] vec_rep_nth [OF assms(1)]
  by (intro vec_repI) (auto simp: rawseti_at)

lemma erase_slot_rep:
  assumes "vec_rep T xs" "i < length xs"
  shows "vec_rep (erase_slot T (int i + 1) (int (length xs))) (take i xs @ drop (Suc i) xs)"
  unfolding erase_slot_def
proof (rule vec_rep_outside)
  show "vec_rep (rawseti (shift_down T (int i + 1 + 1) (int (length xs))) 0 (LInt (int (length xs) - 1)))
      (take i xs @ drop (Suc i) xs)"
    using vec_rep_remove [OF assms] by (simp add: add.assoc)
qed (use assms(2) in auto)

text \<open>
  On a sorted vector of at most 18 elements, \<open>indexof\<close> answers the position of the first
  equal element, or 0; \<open>contains\<close> answers whether there is one; \<open>erase\<close> takes it out.
\<close>
theorem lua_sortedvector_search:
  assumes "vec_rep T xs" "length xs \<le> 18" "v \<noteq> LNil"
  shows "lindexof_sv T [v] = Inr [LInt (if v \<in> set xs then int (first_index v xs) + 1 else 0)] \<and>
    lcontains_sv T [v] = Inr [LBool (v \<in> set xs)] \<and>
    (\<exists>T'. lerase_sv T [v] = Inr T' \<and> vec_rep T' (remove1 v xs))"
proof -
  obtain room where f: "find_slot 19 T v (int (length xs)) 1 =
      Inr (if v \<in> set xs then int (first_index v xs) + 1 else 0, room)" "0 < room"
    using find_slot_first [OF assms(1,2)] by blast
  have "\<exists>T'. lerase_sv T [v] = Inr T' \<and> vec_rep T' (remove1 v xs)"
  proof (cases "v \<in> set xs")
    case True
    then show ?thesis
      using f assms(3) erase_slot_rep [OF assms(1) first_index_less [OF True]] remove1_first_index [OF True]
      by (simp add: lerase_sv_def arg_def vec_rep_len [OF assms(1)] lua_minstack_def)
  next
    case False
    then show ?thesis
      using f assms(1,3) by (simp add: lerase_sv_def arg_def vec_rep_len [OF assms(1)] lua_minstack_def remove1_idem)
  qed
  then show ?thesis
    using f assms(3) by (simp add: lindexof_sv_def lcontains_sv_def arg_def vec_rep_len [OF assms(1)] lua_minstack_def)
qed

theorem lua_sortedvector_search_witness:
  "lindexof_sv (lnewsortedvectorinit [LInt 4, LInt 6, LInt 6]) [LInt 6] = Inr [LInt 2] \<and>
   (\<exists>T'. lerase_sv (lnewsortedvectorinit [LInt 4, LInt 6, LInt 6]) [LInt 6] = Inr T' \<and> vec_rep T' [LInt 4, LInt 6])"
proof -
  have "vec_rep (lnewsortedvectorinit [LInt 4, LInt 6, LInt 6]) [LInt 4, LInt 6, LInt 6]"
    unfolding lnewsortedvectorinit_def by (rule table_of_rep)
  from lua_sortedvector_search [OF this, of "LInt 6"] show ?thesis by (simp add: first_index_def)
qed

section \<open>Pushing\<close>

text \<open>A comparison that orders the values and whose sign turns around with its arguments.\<close>

definition ascending :: "lua_cmp \<Rightarrow> (lua_value \<Rightarrow> lua_value \<Rightarrow> int) \<Rightarrow> lua_value set \<Rightarrow> bool" where
  "ascending cmp c V \<longleftrightarrow> orders cmp c V \<and> (\<forall>x\<in>V. \<forall>y\<in>V. 0 < c x y \<longleftrightarrow> c y x < 0)"

lemma ascending_orders: "ascending cmp c V \<Longrightarrow> orders cmp c V"
  by (simp add: ascending_def)

lemma ascending_flip: "ascending cmp c V \<Longrightarrow> x \<in> V \<Longrightarrow> y \<in> V \<Longrightarrow> 0 < c x y \<longleftrightarrow> c y x < 0"
  by (simp add: ascending_def)

lemma shift_up_rec: "a \<le> b \<Longrightarrow> shift_up T a b = shift_up (rawseti T (b + 1) (T b)) a (b - 1)"
  unfolding shift_up_def by (simp add: upto_rec2)

lemma insert_asc_run:
  assumes "\<And>k. k < i \<Longrightarrow> call_comp cmp (T (int k + 1)) v = Inr (c k)"
    and "j \<le> i" "\<And>k. j \<le> k \<Longrightarrow> k < i \<Longrightarrow> 0 < c k" "0 < j \<Longrightarrow> \<not> 0 < c (j - 1)" "3 + (i - j) \<le> room"
  shows "insert_asc room cmp v (int i) T = Inr (shift_up T (int j + 1) (int i), int j + 1)"
  using assms
proof (induction i arbitrary: T room)
  case 0
  then show ?case by (simp add: insert_asc.simps shift_up_def)
next
  case (Suc i)
  have r: "call_comp cmp (T (int (Suc i))) v = Inr (c i)" using Suc.prems(1) [of i] by (simp add: add.commute)
  show ?case
  proof (cases "j = Suc i")
    case True
    then have "\<not> 0 < c i" using Suc.prems(4) by simp
    then have "insert_asc room cmp v (int (Suc i)) T = Inr (T, int (Suc i) + 1)"
      using r Suc.prems(5) by (subst insert_asc.simps) simp
    moreover have "shift_up T (int j + 1) (int (Suc i)) = T" using True by (simp add: shift_up_def)
    ultimately show ?thesis using True by simp
  next
    case False
    let ?T = "rawseti T (int (Suc i) + 1) (T (int (Suc i)))"
    have "0 < c i" using Suc.prems(2,3) False by simp
    then have "insert_asc room cmp v (int (Suc i)) T = insert_asc (room - 1) cmp v (int i) ?T"
      using r Suc.prems(5) by (subst insert_asc.simps) simp
    also have "\<dots> = Inr (shift_up ?T (int j + 1) (int i), int j + 1)"
    proof (rule Suc.IH)
      show "call_comp cmp (?T (int k + 1)) v = Inr (c k)" if "k < i" for k
        using Suc.prems(1) [of k] that by (simp add: rawseti_at)
    qed (use Suc.prems False in auto)
    also have "shift_up ?T (int j + 1) (int i) = shift_up T (int j + 1) (int (Suc i))"
      using shift_up_rec [of "int j + 1" "int (Suc i)" T] Suc.prems(2) False by simp
    finally show ?thesis .
  qed
qed

lemma insert_asc_overflow:
  assumes "\<And>k. k < i \<Longrightarrow> call_comp cmp (T (int k + 1)) v = Inr (c k)"
    and "\<And>k. j \<le> k \<Longrightarrow> k < i \<Longrightarrow> 0 < c k" "j < i" "room \<le> i - j + 1"
  shows "insert_asc room cmp v (int i) T = Inl LuaStackOverflow"
  using assms
proof (induction i arbitrary: T room)
  case (Suc i)
  have r: "call_comp cmp (T (int (Suc i))) v = Inr (c i)" using Suc.prems(1) [of i] by (simp add: add.commute)
  let ?T = "rawseti T (int (Suc i) + 1) (T (int (Suc i)))"
  have ci: "0 < c i" using Suc.prems(2,3) by simp
  show ?case
  proof (cases "room < 3")
    case True
    then show ?thesis by (subst insert_asc.simps) simp
  next
    case False
    then have "insert_asc room cmp v (int (Suc i)) T = insert_asc (room - 1) cmp v (int i) ?T"
      using r ci by (subst insert_asc.simps) simp
    also have "\<dots> = Inl LuaStackOverflow"
    proof (rule Suc.IH)
      show "call_comp cmp (?T (int k + 1)) v = Inr (c k)" if "k < i" for k
        using Suc.prems(1) [of k] that by (simp add: rawseti_at)
    qed (use Suc.prems False in auto)
    finally show ?thesis .
  qed
qed simp

text \<open>In a sorted list the elements above \<open>v\<close> are a suffix.\<close>

lemma sorted_suffix:
  assumes "ascending cmp c V" "set xs \<subseteq> V" "v \<in> V" "sorted_wrt (\<lambda>x y. \<not> c y x < 0) xs"
  shows "\<exists>ys zs. xs = ys @ zs \<and> (\<forall>x\<in>set ys. \<not> 0 < c x v) \<and> (\<forall>x\<in>set zs. 0 < c x v)"
  using assms(2,4)
proof (induction xs rule: rev_induct)
  case (snoc x xs)
  have V: "x \<in> V" "set xs \<subseteq> V" using snoc.prems(1) by auto
  show ?case
  proof (cases "0 < c x v")
    case True
    obtain ys zs where "xs = ys @ zs" "\<forall>x\<in>set ys. \<not> 0 < c x v" "\<forall>x\<in>set zs. 0 < c x v"
      using snoc by (auto simp: sorted_wrt_append)
    then show ?thesis using True by (intro exI [of _ ys] exI [of _ "zs @ [x]"]) auto
  next
    case False
    have "\<not> 0 < c y v" if "y \<in> set xs" for y
    proof -
      have y: "y \<in> V" using that V(2) by auto
      have "\<not> c x y < 0" using snoc.prems(2) that by (auto simp: sorted_wrt_append)
      moreover have "\<not> c v x < 0" using False ascending_flip [OF assms(1) V(1) assms(3)] by simp
      ultimately have "\<not> c v y < 0"
        using orders_trans [OF ascending_orders [OF assms(1)] assms(3) V(1) y] by simp
      then show ?thesis using ascending_flip [OF assms(1) y assms(3)] by simp
    qed
    then show ?thesis using False by (intro exI [of _ "xs @ [x]"] exI [of _ "[]"]) auto
  qed
qed simp

lemma filter_suffix:
  "\<forall>x\<in>set ys. \<not> P x \<Longrightarrow> \<forall>x\<in>set zs. P x \<Longrightarrow> filter P (ys @ zs) = zs"
  by simp

lemma insert_sorted:
  assumes "ascending cmp c V" "set (ys @ v # zs) \<subseteq> V" "sorted_wrt (\<lambda>x y. \<not> c y x < 0) (ys @ zs)"
    "\<forall>x\<in>set ys. \<not> 0 < c x v" "\<forall>x\<in>set zs. 0 < c x v"
  shows "sorted_wrt (\<lambda>x y. \<not> c y x < 0) (ys @ v # zs)"
proof -
  have "\<not> c v x < 0" if "x \<in> set ys" for x
    using that assms(2,4) ascending_flip [OF assms(1), of x v] by auto
  moreover have "\<not> c x v < 0" if "x \<in> set zs" for x
    using that assms(5) by fastforce
  ultimately show ?thesis using assms(3) by (auto simp: sorted_wrt_append)
qed

text \<open>
  C19: \<open>push\<close> on a sorted vector puts the element behind the last one that is not greater, so
  that the vector stays sorted and gains exactly that element, when at most 16 elements are
  greater; with 18 greater elements or more the call overflows its Lua stack.
\<close>
theorem lua_sortedvector_push:
  assumes "vec_rep T xs" "ascending cmp c V" "insert v (set xs) \<subseteq> V" "v \<noteq> LNil"
    "sorted_wrt (\<lambda>x y. \<not> c y x < 0) xs"
  shows "(length (filter (\<lambda>x. 0 < c x v) xs) \<le> 16 \<longrightarrow>
      (\<exists>T' ys zs. lpush_asc T (Some cmp) [v] = Inr T' \<and> vec_rep T' (ys @ v # zs) \<and> xs = ys @ zs \<and>
         sorted_wrt (\<lambda>x y. \<not> c y x < 0) (ys @ v # zs))) \<and>
    (18 \<le> length (filter (\<lambda>x. 0 < c x v) xs) \<longrightarrow> lpush_asc T (Some cmp) [v] = Inl LuaStackOverflow)"
proof -
  have V: "set xs \<subseteq> V" "v \<in> V" using assms(3) by auto
  obtain ys zs where xs: "xs = ys @ zs" and parts: "\<forall>x\<in>set ys. \<not> 0 < c x v" "\<forall>x\<in>set zs. 0 < c x v"
    using sorted_suffix [OF assms(2) V assms(5)] by blast
  have g: "filter (\<lambda>x. 0 < c x v) xs = zs" unfolding xs using parts by (rule filter_suffix)
  have cmp: "call_comp (Some cmp) (T (int k + 1)) v = Inr (c (xs ! k) v)" if "k < length xs" for k
  proof -
    have "xs ! k \<in> V" using nth_mem [OF that] V(1) by blast
    then show ?thesis
      using orders_cmp [OF ascending_orders [OF assms(2)] _ V(2)] vec_rep_nth [OF assms(1) that]
      by (simp add: call_comp_def)
  qed
  have up: "0 < c (xs ! k) v" if "length ys \<le> k" "k < length xs" for k
    using that parts(2) nth_mem [of "k - length ys" zs] by (auto simp: xs nth_append)
  have low: "\<not> 0 < c (xs ! (length ys - 1)) v" if "0 < length ys"
    using that parts(1) nth_mem [of "length ys - 1" ys] by (auto simp: xs nth_append)
  have run: "lpush_asc T (Some cmp) [v] =
      bind_res (insert_asc 19 (Some cmp) v (int (length xs)) T) (\<lambda>(T1, idx).
        Inr (rawseti (rawseti T1 idx v) 0 (LInt (int (length xs) + 1))))"
    using assms(4) by (cases "xs = []")
      (simp_all add: lpush_asc_def arg_def vec_rep_len [OF assms(1)] lua_minstack_def insert_asc.simps)
  have "\<exists>T'. lpush_asc T (Some cmp) [v] = Inr T' \<and> vec_rep T' (ys @ v # zs)" if "length zs \<le> 16"
  proof -
    have "insert_asc 19 (Some cmp) v (int (length xs)) T =
        Inr (shift_up T (int (length ys) + 1) (int (length xs)), int (length ys) + 1)"
      by (rule insert_asc_run [where c = "\<lambda>k. c (xs ! k) v"]) (use cmp up low that xs in auto)
    then show ?thesis
      unfolding run using vec_rep_insert [OF assms(1), of "length ys" v] by (simp add: xs)
  qed
  moreover have "lpush_asc T (Some cmp) [v] = Inl LuaStackOverflow" if "18 \<le> length zs"
  proof -
    have "insert_asc 19 (Some cmp) v (int (length xs)) T = Inl LuaStackOverflow"
      by (rule insert_asc_overflow [where c = "\<lambda>k. c (xs ! k) v" and j = "length ys"]) (use cmp up that xs in auto)
    then show ?thesis unfolding run by simp
  qed
  moreover have "sorted_wrt (\<lambda>x y. \<not> c y x < 0) (ys @ v # zs)"
    by (rule insert_sorted [OF assms(2) _ _ parts]) (use assms(3,5) xs in auto)
  ultimately show ?thesis unfolding g using xs by blast
qed

theorem lua_sortedvector_push_witness:
  "\<exists>T'. lpush_asc (lnewsortedvectorinit [LInt 1, LInt 5]) (Some int_cmp) [LInt 3] = Inr T' \<and>
        vec_rep T' [LInt 1, LInt 3, LInt 5]"
proof -
  have rep: "vec_rep (lnewsortedvectorinit [LInt 1, LInt 5]) [LInt 1, LInt 5]"
    unfolding lnewsortedvectorinit_def by (rule table_of_rep)
  have asc: "ascending int_cmp int_order (range LInt)"
    using int_cmp_orders by (auto simp: ascending_def int_order_def)
  have "insert (LInt 3) (set [LInt 1, LInt 5]) \<subseteq> range LInt" "LInt 3 \<noteq> LNil"
    "sorted_wrt (\<lambda>x y. \<not> int_order y x < 0) [LInt 1, LInt 5]" by (auto simp: int_order_def)
  note push = lua_sortedvector_push [OF rep asc this, THEN conjunct1, THEN mp]
  have "length (filter (\<lambda>x. 0 < int_order x (LInt 3)) [LInt 1, LInt 5]) \<le> 16"
    by (rule order_trans [OF length_filter_le]) simp
  from push [OF this] obtain T' ys zs where p: "lpush_asc (lnewsortedvectorinit [LInt 1, LInt 5]) (Some int_cmp) [LInt 3] = Inr T'"
    "vec_rep T' (ys @ LInt 3 # zs)" "[LInt 1, LInt 5] = ys @ zs" "sorted_wrt (\<lambda>x y. \<not> int_order y x < 0) (ys @ LInt 3 # zs)"
    by (elim exE conjE) (rule that)
  have split: "ys = take (length ys) [LInt 1, LInt 5]" "zs = drop (length ys) [LInt 1, LInt 5]"
    unfolding p(3) by simp_all
  have "length ys \<le> 2" using arg_cong [OF p(3), of length] by simp
  then consider "length ys = 0" | "length ys = 1" | "length ys = 2" by linarith
  then show ?thesis
  proof cases
    case 2
    with split have "ys = [LInt 1]" "zs = [LInt 5]" by simp_all
    then show ?thesis using p(1,2) by auto
  next
    case 1
    with split have "ys = []" "zs = [LInt 1, LInt 5]" by simp_all
    with p(4) show ?thesis by (simp add: int_order_def)
  next
    case 3
    with split have "ys = [LInt 1, LInt 5]" "zs = []" by simp_all
    with p(4) show ?thesis by (simp add: int_order_def)
  qed
qed

end
