(* ===== verification/Skiplist.thy ===== *)
theory Skiplist
  imports Prelude
begin

text \<open>
  The ranked skip list of \<open>lualib-src/skiplist/skiplist.c\<close> and the queries of
  \<open>lua-skiplist.c\<close>: nodes in a heap, each with one link per level, a link being the next
  node of that level and the distance to it. Scores are of any linearly ordered type (doubles
  without the values that compare with nothing, zero and minus zero being one); spans and ranks
  wrap as in the code. A loop that follows links is bounded by the number of elements, beyond
  which it runs in a circle (\<open>Diverges\<close>). The draws of \<open>random\<close> are a list.
\<close>

definition SKIPLIST_MAXLEVEL :: nat where "SKIPLIST_MAXLEVEL = 32"

record 'a skiplistNode =
  sn_obj :: "byte list option"
  sn_score :: 'a
  sn_backward :: "ptr option"
  sn_level :: "(ptr option \<times> u32) list"

record 'a skiplist =
  sl_header :: ptr
  sl_tail :: "ptr option"
  sl_length :: u64
  sl_level :: nat
  sl_nodes :: "ptr \<Rightarrow> 'a skiplistNode option"
  sl_fresh :: ptr

definition get_node :: "'a skiplist \<Rightarrow> ptr \<Rightarrow> 'a skiplistNode res" where
  "get_node s p = option_res UseAfterFree (sl_nodes s p)"

definition put_node :: "ptr \<Rightarrow> 'a skiplistNode \<Rightarrow> 'a skiplist \<Rightarrow> 'a skiplist" where
  "put_node p n s = s\<lparr>sl_nodes := (sl_nodes s)(p \<mapsto> n)\<rparr>"

definition get_level :: "'a skiplist \<Rightarrow> ptr \<Rightarrow> nat \<Rightarrow> (ptr option \<times> u32) res" where
  "get_level s p i = bind_res (get_node s p) (\<lambda>n. if i < length (sn_level n) then Inr (sn_level n ! i) else Inl OutOfBounds)"

definition set_level :: "ptr \<Rightarrow> nat \<Rightarrow> ptr option \<times> u32 \<Rightarrow> 'a skiplist \<Rightarrow> 'a skiplist res" where
  "set_level p i v s = bind_res (get_node s p) (\<lambda>n. if i < length (sn_level n)
     then Inr (put_node p (n\<lparr>sn_level := (sn_level n)[i := v]\<rparr>) s) else Inl OutOfBounds)"

definition slCreate :: "'a :: zero skiplist" where
  "slCreate = \<lparr>sl_header = 1, sl_tail = None, sl_length = 0, sl_level = 1,
     sl_nodes = [1 \<mapsto> \<lparr>sn_obj = None, sn_score = 0, sn_backward = None, sn_level = replicate SKIPLIST_MAXLEVEL (None, 0)\<rparr>],
     sl_fresh = 2\<rparr>"

fun random_level :: "nat \<Rightarrow> u64 list \<Rightarrow> nat res" where
  "random_level level [] = Inl Diverges"
| "random_level level (r # rs) =
     (if 4 * unat (r AND 0xffff) < 0xffff then random_level (level + 1) rs
      else Inr (if level < SKIPLIST_MAXLEVEL then level else SKIPLIST_MAXLEVEL))"

definition slRandomLevel :: "u64 list \<Rightarrow> nat res" where
  "slRandomLevel rs = random_level 1 rs"

fun memcmp :: "byte list \<Rightarrow> byte list \<Rightarrow> int" where
  "memcmp (a # as) (b # bs) = (if a = b then memcmp as bs else uint a - uint b)"
| "memcmp _ _ = 0"

definition compareslObj :: "byte list \<Rightarrow> byte list \<Rightarrow> int" where
  "compareslObj a b =
     (let n = (if length a \<le> length b then length a else length b); cmp = memcmp (take n a) (take n b)
      in if cmp = 0 then sint (word_of_int (int (length a) - int (length b)) :: i32) else cmp)"

definition equalslObj :: "byte list \<Rightarrow> byte list \<Rightarrow> bool" where
  "equalslObj a b \<longleftrightarrow> compareslObj a b = 0"

text \<open>The condition on the next node in the loops of \<open>slInsert\<close> and \<open>slDelete\<close>, and of \<open>slGetRank\<close>.\<close>

definition compare_key :: "(int \<Rightarrow> bool) \<Rightarrow> 'a :: linorder \<Rightarrow> byte list \<Rightarrow> 'a skiplistNode \<Rightarrow> bool res" where
  "compare_key P score obj n =
     (if sn_score n < score then Inr True
      else if sn_score n = score then
        bind_res (option_res NullDeref (sn_obj n)) (\<lambda>o'. Inr (P (compareslObj o' obj)))
      else Inr False)"

text \<open>
  One \<open>while\<close> of a search: along level \<open>i\<close> from \<open>x\<close> as long as \<open>go\<close> holds of the next node
  and of the distance up to it.
\<close>

fun walk :: "nat \<Rightarrow> ('w :: len word \<Rightarrow> 'a skiplistNode \<Rightarrow> bool res) \<Rightarrow> 'a skiplist \<Rightarrow> nat \<Rightarrow> ptr \<Rightarrow> 'w word \<Rightarrow>
    (ptr \<times> 'w word) res" where
  "walk 0 go s i x acc = Inl Diverges"
| "walk (Suc k) go s i x acc =
     bind_res (get_level s x i) (\<lambda>(fwd, span).
       case fwd of None \<Rightarrow> Inr (x, acc)
       | Some y \<Rightarrow>
           bind_res (get_node s y) (\<lambda>n.
           bind_res (go (acc + ucast span) n) (\<lambda>b.
             if b then walk k go s i y (acc + ucast span) else Inr (x, acc))))"

text \<open>The search from level \<open>i - 1\<close> down: where it leaves each level, level 0 first.\<close>

fun search :: "('w :: len word \<Rightarrow> 'a skiplistNode \<Rightarrow> bool res) \<Rightarrow> 'a skiplist \<Rightarrow> nat \<Rightarrow> ptr \<Rightarrow> 'w word \<Rightarrow>
    (ptr \<times> 'w word) list res" where
  "search go s 0 x acc = Inr []"
| "search go s (Suc i) x acc =
     bind_res (walk (Suc (unat (sl_length s))) go s i x acc) (\<lambda>(y, r).
     bind_res (search go s i y r) (\<lambda>us. Inr (us @ [(y, r)])))"

section \<open>Release\<close>

definition slFreeNode :: "ptr \<Rightarrow> 'a skiplist \<Rightarrow> 'a skiplist res" where
  "slFreeNode x s = bind_res (get_node s x) (\<lambda>_. Inr (s\<lparr>sl_nodes := (sl_nodes s)(x := None)\<rparr>))"

fun free_nodes :: "nat \<Rightarrow> ptr option \<Rightarrow> 'a skiplist \<Rightarrow> 'a skiplist res" where
  "free_nodes 0 x s = Inl Diverges"
| "free_nodes (Suc k) x s =
     (case x of None \<Rightarrow> Inr s
      | Some y \<Rightarrow> bind_res (get_level s y 0) (\<lambda>(next, _). bind_res (slFreeNode y s) (free_nodes k next)))"

definition slFree :: "'a skiplist \<Rightarrow> 'a skiplist res" where
  "slFree s =
     bind_res (get_level s (sl_header s) 0) (\<lambda>(node, _).
     bind_res (slFreeNode (sl_header s) s) (free_nodes (Suc (unat (sl_length s))) node))"

section \<open>Insertion\<close>

fun raise_levels :: "nat \<Rightarrow> nat \<Rightarrow> 'a skiplist \<Rightarrow> 'a skiplist res" where
  "raise_levels i 0 s = Inr s"
| "raise_levels i (Suc k) s =
     bind_res (get_level s (sl_header s) i) (\<lambda>(fwd, _).
     bind_res (set_level (sl_header s) i (fwd, ucast (sl_length s)) s) (raise_levels (Suc i) k))"

fun link_levels :: "(ptr \<times> u32) list \<Rightarrow> ptr \<Rightarrow> nat \<Rightarrow> nat \<Rightarrow> 'a skiplist \<Rightarrow> 'a skiplist res" where
  "link_levels us x i 0 s = Inr s"
| "link_levels us x i (Suc k) s =
     (let (u, rank) = us ! i; rank0 = snd (us ! 0)
      in bind_res (get_level s u i) (\<lambda>(fwd, span).
         bind_res (set_level x i (fwd, span - (rank0 - rank)) s) (\<lambda>s1.
         bind_res (set_level u i (Some x, rank0 - rank + 1) s1) (link_levels us x (Suc i) k))))"

fun widen_levels :: "(ptr \<times> u32) list \<Rightarrow> nat \<Rightarrow> nat \<Rightarrow> 'a skiplist \<Rightarrow> 'a skiplist res" where
  "widen_levels us i 0 s = Inr s"
| "widen_levels us i (Suc k) s =
     bind_res (get_level s (fst (us ! i)) i) (\<lambda>(fwd, span).
     bind_res (set_level (fst (us ! i)) i (fwd, span + 1) s) (widen_levels us (Suc i) k))"

text \<open>The back link of the node behind \<open>x\<close>, or the tail, becomes \<open>p\<close>.\<close>

definition link_back :: "ptr \<Rightarrow> ptr option \<Rightarrow> 'a skiplist \<Rightarrow> 'a skiplist res" where
  "link_back x p s =
     bind_res (get_level s x 0) (\<lambda>(fwd, _).
       case fwd of None \<Rightarrow> Inr (s\<lparr>sl_tail := p\<rparr>)
       | Some y \<Rightarrow> bind_res (get_node s y) (\<lambda>n. Inr (put_node y (n\<lparr>sn_backward := p\<rparr>) s)))"

definition slInsert :: "'a :: linorder \<Rightarrow> byte list \<Rightarrow> u64 list \<Rightarrow> 'a skiplist \<Rightarrow> 'a skiplist res" where
  "slInsert score obj draws s =
     bind_res (search (\<lambda>_ :: u32. compare_key (\<lambda>c. c < 0) score obj) s (sl_level s) (sl_header s) 0) (\<lambda>us.
     bind_res (slRandomLevel draws) (\<lambda>level.
     bind_res (if level > sl_level s then
                 bind_res (raise_levels (sl_level s) (level - sl_level s) s) (\<lambda>s1. Inr (s1\<lparr>sl_level := level\<rparr>))
               else Inr s) (\<lambda>s1.
       let us1 = us @ replicate (level - sl_level s) (sl_header s, 0);
           x = sl_fresh s1;
           s2 = put_node x \<lparr>sn_obj = Some obj, sn_score = score, sn_backward = None, sn_level = replicate level (None, 0)\<rparr>
                  (s1\<lparr>sl_fresh := sl_fresh s1 + 1\<rparr>)
       in bind_res (link_levels us1 x 0 level s2) (\<lambda>s3.
          bind_res (widen_levels us1 level (sl_level s1 - level) s3) (\<lambda>s4.
          bind_res (get_node s4 x) (\<lambda>n.
            let s5 = put_node x (n\<lparr>sn_backward := (if fst (us1 ! 0) = sl_header s4 then None else Some (fst (us1 ! 0)))\<rparr>) s4
            in bind_res (link_back x (Some x) s5) (\<lambda>s6. Inr (s6\<lparr>sl_length := sl_length s6 + 1\<rparr>))))))))"

section \<open>Deletion\<close>

fun unlink_levels :: "ptr list \<Rightarrow> ptr \<Rightarrow> nat \<Rightarrow> nat \<Rightarrow> 'a skiplist \<Rightarrow> 'a skiplist res" where
  "unlink_levels us x i 0 s = Inr s"
| "unlink_levels us x i (Suc k) s =
     bind_res (get_level s (us ! i) i) (\<lambda>(fwd, span).
     bind_res (if fwd = Some x then
                 bind_res (get_level s x i) (\<lambda>(xfwd, xspan). set_level (us ! i) i (xfwd, span + (xspan - 1)) s)
               else set_level (us ! i) i (fwd, span - 1) s) (unlink_levels us x (Suc i) k))"

fun lower_level :: "nat \<Rightarrow> 'a skiplist \<Rightarrow> nat res" where
  "lower_level 0 s = Inl OutOfBounds"
| "lower_level (Suc l) s =
     (if l = 0 then Inr 1
      else bind_res (get_level s (sl_header s) l) (\<lambda>(fwd, _). if fwd = None then lower_level l s else Inr (Suc l)))"

definition slDeleteNode :: "ptr \<Rightarrow> ptr list \<Rightarrow> 'a skiplist \<Rightarrow> 'a skiplist res" where
  "slDeleteNode x us s =
     bind_res (unlink_levels us x 0 (sl_level s) s) (\<lambda>s1.
     bind_res (get_node s1 x) (\<lambda>n.
     bind_res (link_back x (sn_backward n) s1) (\<lambda>s2.
     bind_res (lower_level (sl_level s2) s2) (\<lambda>level.
       Inr (s2\<lparr>sl_level := level, sl_length := sl_length s2 - 1\<rparr>)))))"

definition slDelete :: "'a :: linorder \<Rightarrow> byte list \<Rightarrow> 'a skiplist \<Rightarrow> ('a skiplist \<times> bool) res" where
  "slDelete score obj s =
     bind_res (search (\<lambda>_ :: u32. compare_key (\<lambda>c. c < 0) score obj) s (sl_level s) (sl_header s) 0) (\<lambda>us.
     bind_res (get_level s (fst (us ! 0)) 0) (\<lambda>(fwd, _).
       case fwd of None \<Rightarrow> Inr (s, False)
       | Some x \<Rightarrow>
           bind_res (get_node s x) (\<lambda>n.
             if score = sn_score n then
               bind_res (option_res NullDeref (sn_obj n)) (\<lambda>o'.
                 if equalslObj o' obj then
                   bind_res (slDeleteNode x (map fst us) s) (\<lambda>s1.
                   bind_res (slFreeNode x s1) (\<lambda>s2. Inr (s2, True)))
                 else Inr (s, False))
             else Inr (s, False))))"

text \<open>The loop of \<open>slDeleteByRank\<close>; the objects go to the callback, in order.\<close>

fun delete_ranks :: "nat \<Rightarrow> ptr list \<Rightarrow> u64 \<Rightarrow> u32 \<Rightarrow> ptr option \<Rightarrow> 'a skiplist \<Rightarrow> ('a skiplist \<times> byte list list) res" where
  "delete_ranks 0 us traversed end x s = Inl Diverges"
| "delete_ranks (Suc k) us traversed end x s =
     (case x of None \<Rightarrow> Inr (s, [])
      | Some y \<Rightarrow>
          if traversed \<le> ucast end then
            bind_res (get_level s y 0) (\<lambda>(next, _).
            bind_res (slDeleteNode y us s) (\<lambda>s1.
            bind_res (get_node s1 y) (\<lambda>n.
            bind_res (option_res NullDeref (sn_obj n)) (\<lambda>obj.
            bind_res (slFreeNode y s1) (\<lambda>s2.
            bind_res (delete_ranks k us (traversed + 1) end next s2) (\<lambda>(s3, objs). Inr (s3, obj # objs)))))))
          else Inr (s, []))"

definition slDeleteByRank :: "u32 \<Rightarrow> u32 \<Rightarrow> 'a skiplist \<Rightarrow> ('a skiplist \<times> byte list list) res" where
  "slDeleteByRank start end s =
     bind_res (search (\<lambda>traversed (_ :: 'a skiplistNode). Inr (traversed < (ucast start :: u64))) s (sl_level s) (sl_header s) 0) (\<lambda>us.
     bind_res (get_level s (fst (us ! 0)) 0) (\<lambda>(fwd, _).
       delete_ranks (Suc (unat (sl_length s))) (map fst us) (snd (us ! 0) + 1) end fwd s))"

section \<open>Queries\<close>

fun rank_search :: "'a :: linorder \<Rightarrow> byte list \<Rightarrow> 'a skiplist \<Rightarrow> nat \<Rightarrow> ptr \<Rightarrow> u64 \<Rightarrow> u64 res" where
  "rank_search score obj s 0 x rank = Inr 0"
| "rank_search score obj s (Suc i) x rank =
     bind_res (walk (Suc (unat (sl_length s))) (\<lambda>_. compare_key (\<lambda>c. c \<le> 0) score obj) s i x rank) (\<lambda>(y, r).
     bind_res (get_node s y) (\<lambda>n.
       case sn_obj n of None \<Rightarrow> rank_search score obj s i y r
       | Some o' \<Rightarrow> if equalslObj o' obj then Inr r else rank_search score obj s i y r))"

definition slGetRank :: "'a :: linorder \<Rightarrow> byte list \<Rightarrow> 'a skiplist \<Rightarrow> u64 res" where
  "slGetRank score obj s = rank_search score obj s (sl_level s) (sl_header s) 0"

fun node_search :: "u64 \<Rightarrow> 'a skiplist \<Rightarrow> nat \<Rightarrow> ptr \<Rightarrow> u64 \<Rightarrow> ptr option res" where
  "node_search rank s 0 x traversed = Inr None"
| "node_search rank s (Suc i) x traversed =
     bind_res (walk (Suc (unat (sl_length s))) (\<lambda>t (_ :: 'a skiplistNode). Inr (t \<le> rank)) s i x traversed) (\<lambda>(y, t).
       if t = rank then Inr (Some y) else node_search rank s i y t)"

definition slGetNodeByRank :: "u64 \<Rightarrow> 'a skiplist \<Rightarrow> ptr option res" where
  "slGetNodeByRank rank s =
     (if rank = 0 \<or> rank > sl_length s then Inr None else node_search rank s (sl_level s) (sl_header s) 0)"

definition slIsInRange :: "'a :: linorder \<Rightarrow> 'a \<Rightarrow> 'a skiplist \<Rightarrow> bool res" where
  "slIsInRange lo hi s =
     (if lo > hi then Inr False
      else case sl_tail s of None \<Rightarrow> Inr False
      | Some t \<Rightarrow>
          bind_res (get_node s t) (\<lambda>n.
            if sn_score n < lo then Inr False
            else bind_res (get_level s (sl_header s) 0) (\<lambda>(fwd, _).
              case fwd of None \<Rightarrow> Inr False
              | Some x \<Rightarrow> bind_res (get_node s x) (\<lambda>n. Inr (\<not> sn_score n > hi)))))"

definition slFirstInRange :: "'a :: linorder \<Rightarrow> 'a \<Rightarrow> 'a skiplist \<Rightarrow> ptr option res" where
  "slFirstInRange lo hi s =
     bind_res (slIsInRange lo hi s) (\<lambda>b.
       if \<not> b then Inr None
       else bind_res (search (\<lambda>_ :: u32. \<lambda>n. Inr (sn_score n < lo)) s (sl_level s) (sl_header s) 0) (\<lambda>us.
         bind_res (get_level s (fst (us ! 0)) 0) (\<lambda>(fwd, _). Inr fwd)))"

definition slLastInRange :: "'a :: linorder \<Rightarrow> 'a \<Rightarrow> 'a skiplist \<Rightarrow> ptr option res" where
  "slLastInRange lo hi s =
     bind_res (slIsInRange lo hi s) (\<lambda>b.
       if \<not> b then Inr None
       else bind_res (search (\<lambda>_ :: u32. \<lambda>n. Inr (sn_score n \<le> hi)) s (sl_level s) (sl_header s) 0) (\<lambda>us.
         Inr (Some (fst (us ! 0)))))"

section \<open>Ranges\<close>

text \<open>The loops of \<open>_get_rank_range\<close> and \<open>_get_score_range\<close>: the objects from a node on, forward or backward.\<close>

definition step_from :: "bool \<Rightarrow> 'a skiplist \<Rightarrow> ptr \<Rightarrow> ptr option res" where
  "step_from reverse s x =
     (if reverse then bind_res (get_node s x) (\<lambda>n. Inr (sn_backward n))
      else bind_res (get_level s x 0) (\<lambda>(fwd, _). Inr fwd))"

fun collect :: "nat \<Rightarrow> (nat \<Rightarrow> 'a skiplistNode \<Rightarrow> bool) \<Rightarrow> bool \<Rightarrow> 'a skiplist \<Rightarrow> nat \<Rightarrow> ptr option \<Rightarrow> byte list list res" where
  "collect 0 cont reverse s n x = Inl Diverges"
| "collect (Suc k) cont reverse s n x =
     (case x of None \<Rightarrow> Inr []
      | Some y \<Rightarrow>
          bind_res (get_node s y) (\<lambda>nd.
            if cont n nd then
              bind_res (option_res NullDeref (sn_obj nd)) (\<lambda>obj.
              bind_res (step_from reverse s y) (\<lambda>next.
              bind_res (collect k cont reverse s (Suc n) next) (\<lambda>objs. Inr (obj # objs))))
            else Inr []))"

definition get_rank_range :: "u64 \<Rightarrow> u64 \<Rightarrow> 'a skiplist \<Rightarrow> byte list list res" where
  "get_rank_range r1 r2 s =
     (let reverse = \<not> r1 \<le> r2; rangelen = sint (ucast (if reverse then r1 - r2 + 1 else r2 - r1 + 1) :: i32)
      in bind_res (slGetNodeByRank r1 s) (\<lambda>x.
           collect (unat (sl_length s) + 1) (\<lambda>n _. int n < rangelen) reverse s 0 x))"

definition get_score_range :: "'a :: linorder \<Rightarrow> 'a \<Rightarrow> 'a skiplist \<Rightarrow> byte list list res" where
  "get_score_range s1 s2 s =
     (let reverse = \<not> s1 \<le> s2
      in bind_res (if reverse then slLastInRange s2 s1 s else slFirstInRange s1 s2 s) (\<lambda>x.
           collect (unat (sl_length s) + 1) (\<lambda>_ nd. if reverse then \<not> sn_score nd < s2 else \<not> sn_score nd > s2) reverse s 0 x))"

definition delete_by_rank :: "u32 \<Rightarrow> u32 \<Rightarrow> 'a skiplist \<Rightarrow> ('a skiplist \<times> byte list list) res" where
  "delete_by_rank start end s = (if start > end then slDeleteByRank end start s else slDeleteByRank start end s)"

end
