(* ===== verification/SkiplistTowers.thy ===== *)
theory SkiplistTowers
  imports Skiplist "HOL-Library.Product_Lexorder"
begin

text \<open>
  What the skip list represents: the list of its towers, in order. A tower is a node with its
  height; the link of a tower at a level is determined by the towers behind it. Searching along
  the links stops at the tower that \<open>stop\<close> describes (\<open>search_stops\<close>).
\<close>

section \<open>Towers\<close>

record 'a tower =
  tw_ptr :: ptr
  tw_height :: nat
  tw_score :: 'a
  tw_obj :: "byte list"

primrec link :: "nat \<Rightarrow> 'a tower list \<Rightarrow> ptr option \<times> u32" where
  "link i [] = (None, 0)"
| "link i (t # ts) = (if i < tw_height t then (Some (tw_ptr t), 1) else (fst (link i ts), snd (link i ts) + 1))"

lemma link_hit: "\<exists>t \<in> set X. i < tw_height t \<Longrightarrow> link i (X @ Y) = link i (X @ Z)"
proof (induction X)
  case (Cons x X)
  show ?case
  proof (cases "i < tw_height x")
    case False
    with Cons have "link i (X @ Y) = link i (X @ Z)" by auto
    then show ?thesis by simp
  qed simp
qed simp

lemma link_miss: "\<forall>t \<in> set X. tw_height t \<le> i \<Longrightarrow> link i (X @ Y) = (fst (link i Y), snd (link i Y) + of_nat (length X))"
  by (induction X) (auto simp: ac_simps)

lemma link_none: "\<forall>t \<in> set X. tw_height t \<le> i \<Longrightarrow> link i X = (None, of_nat (length X))"
  using link_miss [of X i "[]"] by simp

lemma link_Some: "fst (link i X) = Some p \<Longrightarrow> \<exists>A t B. X = A @ t # B \<and> tw_ptr t = p \<and> i < tw_height t \<and>
  (\<forall>a \<in> set A. tw_height a \<le> i) \<and> snd (link i X) = of_nat (length A + 1)"
proof (induction X)
  case (Cons x X)
  show ?case
  proof (cases "i < tw_height x")
    case True
    with Cons.prems show ?thesis by (intro exI [of _ "[]"]) auto
  next
    case False
    with Cons obtain A t B where "X = A @ t # B \<and> tw_ptr t = p \<and> i < tw_height t \<and>
      (\<forall>a \<in> set A. tw_height a \<le> i) \<and> snd (link i X) = of_nat (length A + 1)" by auto
    with False show ?thesis by (intro exI [of _ "x # A"] exI [of _ t] exI [of _ B]) auto
  qed
qed simp

lemma link_Nothing: "fst (link i X) = None \<longleftrightarrow> (\<forall>t \<in> set X. tw_height t \<le> i)"
  by (induction X) auto

type_synonym 'a shape = "byte list option \<times> 'a \<times> ptr option \<times> nat"

definition shapes :: "(ptr \<Rightarrow> 'a skiplistNode option) \<Rightarrow> ptr \<Rightarrow> 'a shape option" where
  "shapes N p = map_option (\<lambda>n. (sn_obj n, sn_score n, sn_backward n, length (sn_level n))) (N p)"

definition entry :: "(ptr \<Rightarrow> 'a skiplistNode option) \<Rightarrow> ptr \<Rightarrow> nat \<Rightarrow> (ptr option \<times> u32) option" where
  "entry N p i = (case N p of None \<Rightarrow> None | Some n \<Rightarrow> if i < length (sn_level n) then Some (sn_level n ! i) else None)"

lemma get_level_entry: "entry (sl_nodes s) p i = Some e \<Longrightarrow> get_level s p i = Inr e"
  by (auto simp: entry_def get_level_def get_node_def option_res_def split: option.splits if_splits)

text \<open>The links of the towers \<open>X\<close> are those their order gives.\<close>

definition linked :: "(ptr \<Rightarrow> nat \<Rightarrow> (ptr option \<times> u32) option) \<Rightarrow> 'a tower list \<Rightarrow> bool" where
  "linked E X \<longleftrightarrow> (\<forall>A t B i. X = A @ t # B \<longrightarrow> i < tw_height t \<longrightarrow> E (tw_ptr t) i = Some (link i B))"

lemma linkedD: "linked E (A @ t # B) \<Longrightarrow> i < tw_height t \<Longrightarrow> E (tw_ptr t) i = Some (link i B)"
  by (simp add: linked_def)

lemma linked_suffix: "linked E (A @ X) \<Longrightarrow> linked E X"
  unfolding linked_def by (metis append_assoc)

lemma linked_level:
  "linked (entry (sl_nodes s)) (A @ t # B) \<Longrightarrow> i < tw_height t \<Longrightarrow> get_level s (tw_ptr t) i = Inr (link i B)"
  by (rule get_level_entry) (rule linkedD)

lemma entry_node: "entry N p i = Some e \<Longrightarrow> \<exists>n. N p = Some n"
  by (auto simp: entry_def split: option.splits)

section \<open>Searching\<close>

text \<open>\<open>go\<close> holds of the nodes of \<open>M\<close> and not of those of \<open>P\<close> behind them, at their distances.\<close>

definition splits :: "('w :: len word \<Rightarrow> 'a skiplistNode \<Rightarrow> bool res) \<Rightarrow> (ptr \<Rightarrow> 'a skiplistNode option) \<Rightarrow> 'w word \<Rightarrow>
    'a tower list \<Rightarrow> 'a tower list \<Rightarrow> bool" where
  "splits go N acc M P \<longleftrightarrow>
     (\<forall>A t B n. M = A @ t # B \<longrightarrow> N (tw_ptr t) = Some n \<longrightarrow> go (acc + of_nat (length A + 1)) n = Inr True) \<and>
     (\<forall>A t B n. P = A @ t # B \<longrightarrow> N (tw_ptr t) = Some n \<longrightarrow> go (acc + of_nat (length M + length A + 1)) n = Inr False)"

lemma splits_advance:
  assumes "splits go N acc (C @ u # M) P"
  shows "splits go N (acc + of_nat (length C + 1)) M P"
  unfolding splits_def
proof (intro conjI allI impI)
  fix A t B n assume a: "M = A @ t # B" "N (tw_ptr t) = Some n"
  then have "C @ u # M = (C @ u # A) @ t # B" by simp
  with assms a(2) have "go (acc + of_nat (length (C @ u # A) + 1)) n = Inr True" unfolding splits_def by blast
  then show "go (acc + of_nat (length C + 1) + of_nat (length A + 1)) n = Inr True" by (simp add: ac_simps)
next
  fix A t B n assume a: "P = A @ t # B" "N (tw_ptr t) = Some n"
  with assms have "go (acc + of_nat (length (C @ u # M) + length A + 1)) n = Inr False" unfolding splits_def by blast
  then show "go (acc + of_nat (length C + 1) + of_nat (length M + length A + 1)) n = Inr False" by (simp add: ac_simps)
qed

lemma ucast_of_nat: "d < 2 ^ 32 \<Longrightarrow> ucast (of_nat d :: u32) = (of_nat d :: 'w :: len word)"
  by (simp add: unsigned_of_nat take_bit_nat_eq_self)

text \<open>
  \<open>stop X l (p, r)\<close>: \<open>p\<close> is the last tower of \<open>X\<close> higher than \<open>l\<close>, and \<open>r\<close> towers are before it.
\<close>

definition stop :: "'a tower list \<Rightarrow> nat \<Rightarrow> ptr \<times> 'w :: len word \<Rightarrow> bool" where
  "stop X l ur \<longleftrightarrow> (\<exists>A v B. X = A @ v # B \<and> l < tw_height v \<and> (\<forall>b \<in> set B. tw_height b \<le> l) \<and>
     ur = (tw_ptr v, of_nat (length A)))"

declare walk.simps [simp del]

lemma walk_stops:
  fixes acc :: "'w :: len word"
  assumes "linked (entry (sl_nodes s)) (u # M @ P)" "i < tw_height u" "\<forall>t \<in> set (M @ P). 0 < tw_height t"
    "splits go (sl_nodes s) acc M P" "length M < k" "length (M @ P) < 2 ^ 32"
  shows "\<exists>A v B. u # M = A @ v # B \<and> i < tw_height v \<and> (\<forall>t \<in> set B. tw_height t \<le> i) \<and>
    walk k go s i (tw_ptr u) acc = Inr (tw_ptr v, acc + of_nat (length A))"
  using assms
proof (induction k arbitrary: u M acc)
  case (Suc k)
  have lv: "get_level s (tw_ptr u) i = Inr (link i (M @ P))"
    using linked_level [of s "[]" u "M @ P" i] Suc.prems(1,2) by simp
  have all: "linked (entry (sl_nodes s)) (M @ P)" using Suc.prems(1) linked_suffix [of _ "[u]"] by simp
  have live: "\<exists>n. sl_nodes s (tw_ptr t) = Some n" if "M @ P = A @ t # B" for A t B
  proof -
    from that Suc.prems(3) have "0 < tw_height t" by simp
    from linkedD [OF all [unfolded that] this] show ?thesis by (rule entry_node)
  qed
  show ?case
  proof (cases "\<exists>t \<in> set M. i < tw_height t")
    case False
    then have low: "\<forall>t \<in> set M. tw_height t \<le> i" by (simp add: not_less)
    have "walk (Suc k) go s i (tw_ptr u) acc = Inr (tw_ptr u, acc)"
    proof (cases "fst (link i (M @ P))")
      case None
      with lv show ?thesis by (auto simp: walk.simps split: prod.splits)
    next
      case (Some p)
      have m: "link i (M @ P) = (fst (link i P), snd (link i P) + of_nat (length M))" by (rule link_miss [OF low])
      with Some obtain A t B where t: "P = A @ t # B" "tw_ptr t = p" "snd (link i P) = of_nat (length A + 1)"
        using link_Some [of i P p] by auto
      from live [of "M @ A" t B] t obtain n where n: "sl_nodes s p = Some n" by auto
      have d: "length M + length A + 1 < 2 ^ 32" using Suc.prems(6) t(1) by simp
      have span: "snd (link i (M @ P)) = of_nat (length M + length A + 1)" using m t(3) by simp
      have "go (acc + of_nat (length M + length A + 1)) n = Inr False"
        using Suc.prems(4) t(1,2) n unfolding splits_def by blast
      then have "go (acc + ucast (snd (link i (M @ P)))) n = Inr False" unfolding span ucast_of_nat [OF d] .
      with lv n Some show ?thesis by (auto simp: walk.simps get_node_def split: prod.splits)
    qed
    with low Suc.prems(2) show ?thesis by (intro exI [of _ "[]"] exI [of _ u] exI [of _ M]) simp
  next
    case True
    then have "fst (link i M) \<noteq> None" using link_Nothing [of i M] by (auto simp: not_le)
    then obtain p where p: "fst (link i M) = Some p" by auto
    from link_Some [OF this] obtain C t M' where t: "M = C @ t # M'" "tw_ptr t = p" "i < tw_height t"
      "\<forall>a \<in> set C. tw_height a \<le> i" "snd (link i M) = of_nat (length C + 1)" by blast
    have same: "link i (M @ P) = (Some (tw_ptr t), of_nat (length C + 1))"
      using link_hit [OF True, of P "[]"] t(2,5) p by (simp add: prod_eq_iff)
    from live [of C t "M' @ P"] t(1) obtain n where n: "sl_nodes s (tw_ptr t) = Some n" by auto
    have "length C + 1 < 2 ^ 32" using Suc.prems(6) t(1) by simp
    note d = ucast_of_nat [OF this, where 'w = 'w]
    define acc' where "acc' = acc + of_nat (length C + 1)"
    define e :: u32 where "e = of_nat (length C + 1)"
    have e: "acc + ucast e = acc'" unfolding e_def acc'_def d ..
    have "go acc' n = Inr True" using Suc.prems(4) t(1) n unfolding splits_def acc'_def by blast
    then have step: "walk (Suc k) go s i (tw_ptr u) acc = walk k go s i (tw_ptr t) acc'"
      using n by (simp add: walk.simps lv same [folded e_def] e get_node_def)
    have "linked (entry (sl_nodes s)) (t # M' @ P)" using all t(1) linked_suffix [of _ C] by simp
    moreover have "splits go (sl_nodes s) acc' M' P" using splits_advance [of go _ acc C t M' P] Suc.prems(4) t(1) by (simp add: acc'_def)
    ultimately obtain A v B where v: "t # M' = A @ v # B" "i < tw_height v" "\<forall>t \<in> set B. tw_height t \<le> i"
      "walk k go s i (tw_ptr t) acc' = Inr (tw_ptr v, acc' + of_nat (length A))"
      using Suc.IH [of t M' acc'] t(1,3) Suc.prems(3,5,6) by auto
    have "u # M = (u # C @ A) @ v # B" using t(1) v(1) by simp
    moreover have "acc' + of_nat (length A) = acc + of_nat (length (u # C @ A))" by (simp add: acc'_def ac_simps)
    ultimately show ?thesis using v(2-4) step by metis
  qed
qed simp

lemma search_stops:
  fixes acc :: "'w :: len word"
  assumes "linked (entry (sl_nodes s)) (u # M @ P)" "i \<le> tw_height u" "\<forall>t \<in> set (M @ P). 0 < tw_height t"
    "splits go (sl_nodes s) acc M P" "length (M @ P) < 2 ^ 32" "sl_length s = of_nat len" "length M \<le> len" "len < 2 ^ 64"
  shows "\<exists>us. search go s i (tw_ptr u) acc = Inr us \<and> length us = i \<and>
    (\<forall>l < i. \<exists>r. snd (us ! l) = acc + r \<and> stop (u # M) l (fst (us ! l), r))"
  using assms
proof (induction i arbitrary: u M acc)
  case (Suc i)
  have k: "length M < Suc (unat (sl_length s))" using Suc.prems(6,7,8) by (simp add: unat_of_nat take_bit_nat_eq_self)
  from Suc.prems(2) have "i < tw_height u" by simp
  from walk_stops [OF Suc.prems(1) this Suc.prems(3,4) k Suc.prems(5)]
  obtain A v B where v: "u # M = A @ v # B" "i < tw_height v" "\<forall>t \<in> set B. tw_height t \<le> i"
    "walk (Suc (unat (sl_length s))) go s i (tw_ptr u) acc = Inr (tw_ptr v, acc + of_nat (length A))" by blast
  let ?acc = "acc + of_nat (length A) :: 'w word"
  have app: "u # M @ P = A @ v # B @ P" using v(1) by (metis append_Cons append_assoc)
  have l: "linked (entry (sl_nodes s)) (v # B @ P)" using Suc.prems(1) unfolding app by (rule linked_suffix)
  have sub: "length B \<le> length M" "set B \<subseteq> set M" using v(1) by (cases A; auto)+
  have sp: "splits go (sl_nodes s) ?acc B P"
  proof (cases A)
    case Nil
    with v(1) Suc.prems(4) show ?thesis by simp
  next
    case (Cons a C)
    with v(1) splits_advance [of go _ acc C v B P] Suc.prems(4) show ?thesis by simp
  qed
  have "\<exists>us. search go s i (tw_ptr v) ?acc = Inr us \<and> length us = i \<and>
    (\<forall>l < i. \<exists>r. snd (us ! l) = ?acc + r \<and> stop (v # B) l (fst (us ! l), r))"
    by (rule Suc.IH [OF l _ _ sp _ Suc.prems(6) _ Suc.prems(8)]) (use v(2) sub Suc.prems(3,5,7) in auto)
  then obtain us where us: "search go s i (tw_ptr v) ?acc = Inr us" "length us = i"
    "\<And>l. l < i \<Longrightarrow> \<exists>r. snd (us ! l) = ?acc + r \<and> stop (v # B) l (fst (us ! l), r)" by blast
  have low: "\<exists>r. snd (us ! l) = acc + r \<and> stop (u # M) l (fst (us ! l), r)" if "l < i" for l
  proof -
    from us(3) [OF that] obtain C w D where w: "snd (us ! l) = ?acc + of_nat (length C)" "v # B = C @ w # D" "l < tw_height w"
      "\<forall>b \<in> set D. tw_height b \<le> l" "fst (us ! l) = tw_ptr w" by (auto simp: stop_def)
    have "u # M = (A @ C) @ w # D" using v(1) w(2) by simp
    with w(3-5) have "stop (u # M) l (fst (us ! l), of_nat (length (A @ C)) :: 'w word)" unfolding stop_def by blast
    then show ?thesis using w(1) by (intro exI [of _ "of_nat (length (A @ C))"]) (simp add: ac_simps)
  qed
  have "\<exists>r. acc + of_nat (length A) = acc + r \<and> stop (u # M) i (tw_ptr v, r)"
    using v(1-3) unfolding stop_def by blast
  with low us(1,2) v(4) show ?case by (auto simp: nth_append less_Suc_eq)
qed simp

section \<open>The representation\<close>

primrec chained :: "ptr option \<Rightarrow> (ptr \<Rightarrow> 'a shape option) \<Rightarrow> 'a tower list \<Rightarrow> bool" where
  "chained b S [] \<longleftrightarrow> True"
| "chained b S (t # ts) \<longleftrightarrow> S (tw_ptr t) = Some (Some (tw_obj t), tw_score t, b, tw_height t) \<and> chained (Some (tw_ptr t)) S ts"

definition before :: "ptr option \<Rightarrow> 'a tower list \<Rightarrow> ptr option" where
  "before b X = (if X = [] then b else Some (tw_ptr (last X)))"

lemma before_simps [simp]: "before b [] = b" "before b (X @ [t]) = Some (tw_ptr t)" "before b (t # X) = before (Some (tw_ptr t)) X"
  by (simp_all add: before_def)

lemma chained_append: "chained b S (X @ Y) \<longleftrightarrow> chained b S X \<and> chained (before b X) S Y"
  by (induction X arbitrary: b) auto

lemma chained_frame: "chained b S X \<Longrightarrow> (\<And>t. t \<in> set X \<Longrightarrow> S' (tw_ptr t) = S (tw_ptr t)) \<Longrightarrow> chained b S' X"
  by (induction X arbitrary: b) auto

lemma chained_node:
  "chained b (shapes N) X \<Longrightarrow> t \<in> set X \<Longrightarrow>
   \<exists>n. N (tw_ptr t) = Some n \<and> sn_obj n = Some (tw_obj t) \<and> sn_score n = tw_score t \<and> length (sn_level n) = tw_height t"
  by (induction X arbitrary: b) (auto simp: shapes_def)

abbreviation tw_key :: "'a tower \<Rightarrow> 'a \<times> byte list" where
  "tw_key t \<equiv> (tw_score t, tw_obj t)"

definition hdr :: "'a :: zero skiplist \<Rightarrow> 'a tower" where
  "hdr s = \<lparr>tw_ptr = sl_header s, tw_height = sl_level s, tw_score = 0, tw_obj = []\<rparr>"

lemma hdr_simps [simp]: "tw_ptr (hdr s) = sl_header s" "tw_height (hdr s) = sl_level s"
  by (simp_all add: hdr_def)

text \<open>The heap part of the representation, and all of it.\<close>

definition heap_rep :: "'a :: zero skiplist \<Rightarrow> 'a tower list \<Rightarrow> bool" where
  "heap_rep s T \<longleftrightarrow> linked (entry (sl_nodes s)) (hdr s # T) \<and> chained None (shapes (sl_nodes s)) T \<and>
     shapes (sl_nodes s) (sl_header s) = Some (None, 0, None, SKIPLIST_MAXLEVEL) \<and>
     (\<forall>i. sl_level s \<le> i \<longrightarrow> i < SKIPLIST_MAXLEVEL \<longrightarrow> (\<exists>d. entry (sl_nodes s) (sl_header s) i = Some (None, d)))"

definition tower_rep :: "'a :: zero skiplist \<Rightarrow> 'a tower list \<Rightarrow> bool" where
  "tower_rep s T \<longleftrightarrow> distinct (map tw_ptr (hdr s # T)) \<and> (\<forall>t \<in> set (hdr s # T). tw_ptr t < sl_fresh s) \<and>
     (\<forall>t \<in> set T. 0 < tw_height t \<and> tw_height t \<le> sl_level s) \<and> 0 < sl_level s \<and> sl_level s \<le> SKIPLIST_MAXLEVEL \<and>
     sl_length s = of_nat (length T) \<and> length T < 2 ^ 32"

definition sl_rep :: "'a :: {linorder, zero} skiplist \<Rightarrow> 'a tower list \<Rightarrow> bool" where
  "sl_rep s T \<longleftrightarrow> heap_rep s T \<and> tower_rep s T \<and> sl_tail s = before None T"

definition sl_owns :: "'a :: zero skiplist \<Rightarrow> 'a tower list \<Rightarrow> bool" where
  "sl_owns s T \<longleftrightarrow> dom (sl_nodes s) = set (map tw_ptr (hdr s # T))"

end
