(* ===== verification/SkiplistEdit.thy ===== *)
theory SkiplistEdit
  imports SkiplistTowers
begin

text \<open>
  Insertion and deletion on the towers of \<open>SkiplistTowers\<close>: what each loop of \<open>slInsert\<close> and
  \<open>slDeleteNode\<close> writes, that the links written are those of the new order, and that the
  representation holds afterwards (\<open>slInsert_rep\<close>, \<open>slDeleteNode_rep\<close>).
\<close>

section \<open>One write to a level\<close>

definition put_entry :: "(ptr \<Rightarrow> nat \<Rightarrow> 'e option) \<Rightarrow> ptr \<Rightarrow> nat \<Rightarrow> 'e \<Rightarrow> ptr \<Rightarrow> nat \<Rightarrow> 'e option" where
  "put_entry E p i e = (\<lambda>q l. if q = p \<and> l = i then Some e else E q l)"

lemma put_entry_simps [simp]:
  "put_entry E p i e p i = Some e" "q \<noteq> p \<or> l \<noteq> i \<Longrightarrow> put_entry E p i e q l = E q l"
  by (auto simp: put_entry_def)

lemma set_level_entry:
  assumes "entry (sl_nodes s) p i \<noteq> None"
  shows "\<exists>N. set_level p i e s = Inr (s\<lparr>sl_nodes := N\<rparr>) \<and> entry N = put_entry (entry (sl_nodes s)) p i e \<and> shapes N = shapes (sl_nodes s)"
proof -
  from assms obtain n where n: "sl_nodes s p = Some n" "i < length (sn_level n)"
    by (auto simp: entry_def split: option.splits if_splits)
  let ?n = "n\<lparr>sn_level := (sn_level n)[i := e]\<rparr>" and ?N = "(sl_nodes s)(p \<mapsto> n\<lparr>sn_level := (sn_level n)[i := e]\<rparr>)"
  have "set_level p i e s = Inr (s\<lparr>sl_nodes := ?N\<rparr>)" using n by (simp add: set_level_def get_node_def put_node_def)
  moreover have "entry ?N = put_entry (entry (sl_nodes s)) p i e" using n by (intro ext) (auto simp: entry_def put_entry_def nth_list_update)
  moreover have "shapes ?N = shapes (sl_nodes s)" using n by (intro ext) (simp add: shapes_def)
  ultimately show ?thesis by blast
qed

lemma shapes_dom: "shapes N = shapes N' \<Longrightarrow> dom N = dom N'"
proof (rule set_eqI)
  fix p assume "shapes N = shapes N'"
  then have "shapes N p = shapes N' p" by simp
  then show "p \<in> dom N \<longleftrightarrow> p \<in> dom N'" by (cases "N p"; cases "N' p") (auto simp: shapes_def)
qed

text \<open>Writes to the levels from \<open>i\<close> on, \<open>k\<close> of them.\<close>

definition patch :: "nat \<Rightarrow> nat \<Rightarrow> (nat \<Rightarrow> ptr \<Rightarrow> 'e option) \<Rightarrow> (ptr \<Rightarrow> nat \<Rightarrow> 'e option) \<Rightarrow> ptr \<Rightarrow> nat \<Rightarrow> 'e option" where
  "patch i k F E = (\<lambda>p l. if i \<le> l \<and> l < i + k \<and> F l p \<noteq> None then F l p else E p l)"

lemma patch_0 [simp]: "patch i 0 F E = E"
  by (intro ext) (auto simp: patch_def)

lemma patch_Suc: "patch (Suc i) k F (patch i (Suc 0) F E) = patch i (Suc k) F E"
  by (intro ext) (auto simp: patch_def)

lemma loop_patch:
  assumes "\<And>i s. L i 0 s = Inr s" "\<And>i k s. L i (Suc k) s = bind_res (G i s) (L (Suc i) k)"
    "\<And>l N. i \<le> l \<Longrightarrow> l < i + k \<Longrightarrow> (\<forall>p. entry N p l = E p l) \<Longrightarrow>
       \<exists>N'. G l (s\<lparr>sl_nodes := N\<rparr>) = Inr (s\<lparr>sl_nodes := N'\<rparr>) \<and> entry N' = patch l 1 F (entry N) \<and> shapes N' = shapes N"
    "\<forall>p l. i \<le> l \<longrightarrow> entry N p l = E p l"
  shows "\<exists>N'. L i k (s\<lparr>sl_nodes := N\<rparr>) = Inr (s\<lparr>sl_nodes := N'\<rparr>) \<and> entry N' = patch i k F (entry N) \<and> shapes N' = shapes N"
  using assms(3,4)
proof (induction k arbitrary: i N)
  case 0
  then show ?case by (auto simp: assms(1))
next
  case (Suc k)
  from Suc.prems(1) [of i N] Suc.prems(2) obtain N1 where N1: "G i (s\<lparr>sl_nodes := N\<rparr>) = Inr (s\<lparr>sl_nodes := N1\<rparr>)"
    "entry N1 = patch i 1 F (entry N)" "shapes N1 = shapes N" by auto
  have "\<forall>p l. Suc i \<le> l \<longrightarrow> entry N1 p l = E p l" using Suc.prems(2) unfolding N1(2) by (auto simp: patch_def)
  from Suc.IH [of "Suc i", OF _ this] Suc.prems(1) obtain N2 where
    "L (Suc i) k (s\<lparr>sl_nodes := N1\<rparr>) = Inr (s\<lparr>sl_nodes := N2\<rparr>)" "entry N2 = patch (Suc i) k F (entry N1)" "shapes N2 = shapes N1"
    by (metis Suc_leD add_Suc_shift)
  with N1 show ?case by (auto simp: assms(2) patch_Suc)
qed

lemma set_level_patch:
  assumes "entry N p i \<noteq> None"
  shows "\<exists>N'. set_level p i e (s\<lparr>sl_nodes := N\<rparr>) = Inr (s\<lparr>sl_nodes := N'\<rparr>) \<and> entry N' = put_entry (entry N) p i e \<and> shapes N' = shapes N"
  using set_level_entry [of "s\<lparr>sl_nodes := N\<rparr>" p i e] assms by simp

lemma patch_1: "F i = [p \<mapsto> e] \<Longrightarrow> patch i (Suc 0) F E = put_entry E p i e"
  by (intro ext) (auto simp: patch_def put_entry_def less_Suc_eq_le dest: le_antisym)

lemma patch_2: "x \<noteq> p \<Longrightarrow> F i = [x \<mapsto> d, p \<mapsto> e] \<Longrightarrow> patch i (Suc 0) F E = put_entry (put_entry E x i d) p i e"
  by (intro ext) (auto simp: patch_def put_entry_def less_Suc_eq_le dest: le_antisym)

lemma raise_levels_patch:
  fixes s :: "'a skiplist"
  assumes "\<And>l. i \<le> l \<Longrightarrow> l < i + k \<Longrightarrow> entry (sl_nodes s) (sl_header s) l = Some (e l)"
  shows "\<exists>N. raise_levels i k s = Inr (s\<lparr>sl_nodes := N\<rparr>) \<and> shapes N = shapes (sl_nodes s) \<and>
    entry N = patch i k (\<lambda>l. [sl_header s \<mapsto> (fst (e l), ucast (sl_length s))]) (entry (sl_nodes s))"
proof -
  let ?G = "\<lambda>i (s :: 'a skiplist). bind_res (get_level s (sl_header s) i) (\<lambda>(fwd, _). set_level (sl_header s) i (fwd, ucast (sl_length s)) s)"
  have "\<exists>N'. raise_levels i k (s\<lparr>sl_nodes := sl_nodes s\<rparr>) = Inr (s\<lparr>sl_nodes := N'\<rparr>) \<and>
      entry N' = patch i k (\<lambda>l. [sl_header s \<mapsto> (fst (e l), ucast (sl_length s))]) (entry (sl_nodes s)) \<and> shapes N' = shapes (sl_nodes s)"
  proof (rule loop_patch [where G = ?G and E = "entry (sl_nodes s)"])
    fix l and N :: "ptr \<Rightarrow> 'a skiplistNode option" assume l: "i \<le> l" "l < i + k" "\<forall>p. entry N p l = entry (sl_nodes s) p l"
    then have "entry N (sl_header s) l = Some (e l)" using assms by simp
    then have "?G l (s\<lparr>sl_nodes := N\<rparr>) = set_level (sl_header s) l (fst (e l), ucast (sl_length s)) (s\<lparr>sl_nodes := N\<rparr>)"
      by (simp add: get_level_entry case_prod_unfold)
    with set_level_patch [of N "sl_header s" l _ s] \<open>entry N (sl_header s) l = Some (e l)\<close>
    show "\<exists>N'. ?G l (s\<lparr>sl_nodes := N\<rparr>) = Inr (s\<lparr>sl_nodes := N'\<rparr>) \<and>
      entry N' = patch l 1 (\<lambda>l. [sl_header s \<mapsto> (fst (e l), ucast (sl_length s))]) (entry N) \<and> shapes N' = shapes N"
      by (simp add: patch_1)
  qed (simp_all add: case_prod_unfold)
  then show ?thesis by auto
qed

lemma widen_levels_patch:
  fixes s :: "'a skiplist"
  assumes "\<And>l. i \<le> l \<Longrightarrow> l < i + k \<Longrightarrow> entry (sl_nodes s) (fst (us ! l)) l = Some (e l)"
  shows "\<exists>N. widen_levels us i k s = Inr (s\<lparr>sl_nodes := N\<rparr>) \<and> shapes N = shapes (sl_nodes s) \<and>
    entry N = patch i k (\<lambda>l. [fst (us ! l) \<mapsto> (fst (e l), snd (e l) + 1)]) (entry (sl_nodes s))"
proof -
  let ?G = "\<lambda>i (s :: 'a skiplist). bind_res (get_level s (fst (us ! i)) i) (\<lambda>(fwd, span). set_level (fst (us ! i)) i (fwd, span + 1) s)"
  have "\<exists>N'. widen_levels us i k (s\<lparr>sl_nodes := sl_nodes s\<rparr>) = Inr (s\<lparr>sl_nodes := N'\<rparr>) \<and>
      entry N' = patch i k (\<lambda>l. [fst (us ! l) \<mapsto> (fst (e l), snd (e l) + 1)]) (entry (sl_nodes s)) \<and> shapes N' = shapes (sl_nodes s)"
  proof (rule loop_patch [where G = ?G and E = "entry (sl_nodes s)"])
    fix l and N :: "ptr \<Rightarrow> 'a skiplistNode option" assume l: "i \<le> l" "l < i + k" "\<forall>p. entry N p l = entry (sl_nodes s) p l"
    then have e: "entry N (fst (us ! l)) l = Some (e l)" using assms by simp
    then have "?G l (s\<lparr>sl_nodes := N\<rparr>) = set_level (fst (us ! l)) l (fst (e l), snd (e l) + 1) (s\<lparr>sl_nodes := N\<rparr>)"
      by (simp add: get_level_entry case_prod_unfold)
    with set_level_patch [of N "fst (us ! l)" l _ s] e
    show "\<exists>N'. ?G l (s\<lparr>sl_nodes := N\<rparr>) = Inr (s\<lparr>sl_nodes := N'\<rparr>) \<and>
      entry N' = patch l 1 (\<lambda>l. [fst (us ! l) \<mapsto> (fst (e l), snd (e l) + 1)]) (entry N) \<and> shapes N' = shapes N"
      by (simp add: patch_1)
  qed (simp_all add: case_prod_unfold)
  then show ?thesis by auto
qed

lemma link_levels_patch:
  fixes s :: "'a skiplist"
  assumes "\<And>l. i \<le> l \<Longrightarrow> l < i + k \<Longrightarrow> entry (sl_nodes s) (fst (us ! l)) l = Some (e l) \<and> entry (sl_nodes s) x l \<noteq> None \<and> x \<noteq> fst (us ! l)"
  shows "\<exists>N. link_levels us x i k s = Inr (s\<lparr>sl_nodes := N\<rparr>) \<and> shapes N = shapes (sl_nodes s) \<and>
    entry N = patch i k (\<lambda>l. [x \<mapsto> (fst (e l), snd (e l) - (snd (us ! 0) - snd (us ! l))),
      fst (us ! l) \<mapsto> (Some x, snd (us ! 0) - snd (us ! l) + 1)]) (entry (sl_nodes s))"
proof -
  let ?G = "\<lambda>i (s :: 'a skiplist). bind_res (get_level s (fst (us ! i)) i) (\<lambda>(fwd, span).
     bind_res (set_level x i (fwd, span - (snd (us ! 0) - snd (us ! i))) s) (set_level (fst (us ! i)) i (Some x, snd (us ! 0) - snd (us ! i) + 1)))"
  let ?F = "\<lambda>l. [x \<mapsto> (fst (e l), snd (e l) - (snd (us ! 0) - snd (us ! l))), fst (us ! l) \<mapsto> (Some x, snd (us ! 0) - snd (us ! l) + 1)]"
  have "\<exists>N'. link_levels us x i k (s\<lparr>sl_nodes := sl_nodes s\<rparr>) = Inr (s\<lparr>sl_nodes := N'\<rparr>) \<and>
      entry N' = patch i k ?F (entry (sl_nodes s)) \<and> shapes N' = shapes (sl_nodes s)"
  proof (rule loop_patch [where G = ?G and E = "entry (sl_nodes s)"])
    fix l and N :: "ptr \<Rightarrow> 'a skiplistNode option" assume l: "i \<le> l" "l < i + k" "\<forall>p. entry N p l = entry (sl_nodes s) p l"
    then have e: "entry N (fst (us ! l)) l = Some (e l)" "entry N x l \<noteq> None" "x \<noteq> fst (us ! l)" using assms by auto
    from set_level_patch [of N x l "(fst (e l), snd (e l) - (snd (us ! 0) - snd (us ! l)))" s] e(2) obtain N1 where
      N1: "set_level x l (fst (e l), snd (e l) - (snd (us ! 0) - snd (us ! l))) (s\<lparr>sl_nodes := N\<rparr>) = Inr (s\<lparr>sl_nodes := N1\<rparr>)"
      "entry N1 = put_entry (entry N) x l (fst (e l), snd (e l) - (snd (us ! 0) - snd (us ! l)))" "shapes N1 = shapes N" by blast
    have "entry N1 (fst (us ! l)) l \<noteq> None" using e unfolding N1(2) by simp
    from set_level_patch [OF this, of "(Some x, snd (us ! 0) - snd (us ! l) + 1)" s] obtain N2 where
      N2: "set_level (fst (us ! l)) l (Some x, snd (us ! 0) - snd (us ! l) + 1) (s\<lparr>sl_nodes := N1\<rparr>) = Inr (s\<lparr>sl_nodes := N2\<rparr>)"
      "entry N2 = put_entry (entry N1) (fst (us ! l)) l (Some x, snd (us ! 0) - snd (us ! l) + 1)" "shapes N2 = shapes N1" by blast
    have "?G l (s\<lparr>sl_nodes := N\<rparr>) = Inr (s\<lparr>sl_nodes := N2\<rparr>)" using e(1) N1(1) N2(1) by (simp add: get_level_entry case_prod_unfold)
    moreover have "entry N2 = patch l 1 ?F (entry N)" using e(3) unfolding N2(2) N1(2) by (simp add: patch_2)
    ultimately show "\<exists>N'. ?G l (s\<lparr>sl_nodes := N\<rparr>) = Inr (s\<lparr>sl_nodes := N'\<rparr>) \<and> entry N' = patch l 1 ?F (entry N) \<and> shapes N' = shapes N"
      using N1(3) N2(3) by auto
  qed (simp_all add: case_prod_unfold Let_def)
  then show ?thesis by auto
qed

lemma unlink_levels_patch:
  fixes s :: "'a skiplist"
  assumes "\<And>l. i \<le> l \<Longrightarrow> l < i + k \<Longrightarrow> entry (sl_nodes s) (us ! l) l = Some (e l) \<and> (fst (e l) = Some x \<longrightarrow> entry (sl_nodes s) x l = Some (d l))"
  shows "\<exists>N. unlink_levels us x i k s = Inr (s\<lparr>sl_nodes := N\<rparr>) \<and> shapes N = shapes (sl_nodes s) \<and>
    entry N = patch i k (\<lambda>l. [us ! l \<mapsto> (if fst (e l) = Some x then (fst (d l), snd (e l) + (snd (d l) - 1)) else (fst (e l), snd (e l) - 1))])
      (entry (sl_nodes s))"
proof -
  let ?G = "\<lambda>i (s :: 'a skiplist). bind_res (get_level s (us ! i) i) (\<lambda>(fwd, span).
     if fwd = Some x then bind_res (get_level s x i) (\<lambda>(xfwd, xspan). set_level (us ! i) i (xfwd, span + (xspan - 1)) s)
     else set_level (us ! i) i (fwd, span - 1) s)"
  let ?v = "\<lambda>l. if fst (e l) = Some x then (fst (d l), snd (e l) + (snd (d l) - 1)) else (fst (e l), snd (e l) - 1)"
  have "\<exists>N'. unlink_levels us x i k (s\<lparr>sl_nodes := sl_nodes s\<rparr>) = Inr (s\<lparr>sl_nodes := N'\<rparr>) \<and>
      entry N' = patch i k (\<lambda>l. [us ! l \<mapsto> ?v l]) (entry (sl_nodes s)) \<and> shapes N' = shapes (sl_nodes s)"
  proof (rule loop_patch [where G = ?G and E = "entry (sl_nodes s)"])
    fix l and N :: "ptr \<Rightarrow> 'a skiplistNode option" assume l: "i \<le> l" "l < i + k" "\<forall>p. entry N p l = entry (sl_nodes s) p l"
    then have e: "entry N (us ! l) l = Some (e l)" "fst (e l) = Some x \<longrightarrow> entry N x l = Some (d l)" using assms by auto
    then have "?G l (s\<lparr>sl_nodes := N\<rparr>) = set_level (us ! l) l (?v l) (s\<lparr>sl_nodes := N\<rparr>)"
      by (auto simp: get_level_entry case_prod_unfold)
    with set_level_patch [of N "us ! l" l "?v l" s] e(1)
    show "\<exists>N'. ?G l (s\<lparr>sl_nodes := N\<rparr>) = Inr (s\<lparr>sl_nodes := N'\<rparr>) \<and>
      entry N' = patch l 1 (\<lambda>l. [us ! l \<mapsto> ?v l]) (entry N) \<and> shapes N' = shapes N"
      by (simp add: patch_1)
  qed (simp_all add: case_prod_unfold)
  then show ?thesis by auto
qed

section \<open>Links after an insertion and a deletion\<close>

lemma append_split:
  assumes "Y @ X # P = A @ t # B"
  obtains B1 where "Y = A @ t # B1" "B = B1 @ X # P" | "A = Y" "t = X" "B = P" | A1 where "A = Y @ X # A1" "P = A1 @ t # B"
proof -
  from assms consider us where "Y = A @ us" "us @ X # P = t # B" | us where "Y @ us = A" "X # P = us @ t # B"
    by (auto simp: append_eq_append_conv2)
  then show thesis
  proof cases
    case 1
    with that(1,2) show ?thesis by (cases us) auto
  next
    case 2
    with that(2,3) show ?thesis by (cases us) auto
  qed
qed

lemma distinct_rest:
  assumes "Y = A @ t # B" "Y = C @ v # D" "f t = f v" "distinct (map f Y)"
  shows "B = D"
proof -
  from assms(1,2) have "A @ t # B = C @ v # D" by simp
  then show ?thesis by (rule append_split) (use assms in auto)
qed

lemma stop_last:
  assumes "stop Y l (p, r)" "Y = A @ t # B" "l < tw_height t" "distinct (map tw_ptr Y)"
  shows "tw_ptr t = p \<longleftrightarrow> (\<forall>b \<in> set B. tw_height b \<le> l)"
proof -
  from assms(1) obtain C v D where v: "Y = C @ v # D" "l < tw_height v" "\<forall>b \<in> set D. tw_height b \<le> l" "p = tw_ptr v"
    by (auto simp: stop_def)
  from v(1) assms(2) have "C @ v # D = A @ t # B" by simp
  then show ?thesis
    by (rule append_split) (use assms(3,4) v in \<open>auto simp: not_le\<close>)
qed

lemma stop_zero:
  assumes "stop (H # M) 0 ur" "\<forall>t \<in> set M. 0 < tw_height t"
  shows "snd ur = of_nat (length M)" "fst ur = tw_ptr (last (H # M))"
proof -
  from assms(1) obtain C v D where v: "H # M = C @ v # D" "\<forall>b \<in> set D. tw_height b \<le> 0" "ur = (tw_ptr v, of_nat (length C))"
    by (auto simp: stop_def)
  have "D = []"
  proof (rule ccontr)
    assume "D \<noteq> []"
    then have "last D \<in> set D" "last D \<in> set M" using v(1) by (cases C; auto)+
    with v(2) assms(2) show False by auto
  qed
  with v(1) have "H # M = C @ [v]" by simp
  then have "length (H # M) = length (C @ [v])" "last (H # M) = v" by (simp_all only: last_snoc)
  with v(3) show "snd ur = of_nat (length M)" "fst ur = tw_ptr (last (H # M))" by simp_all
qed

lemma insert_linked:
  fixes us :: "(ptr \<times> u32) list"
  assumes "linked E (H # M @ P)" "\<And>l. l < tw_height H \<Longrightarrow> stop (H # M) l (us ! l)" "\<forall>t \<in> set (M @ P). 0 < tw_height t \<and> tw_height t \<le> tw_height H"
    "distinct (map tw_ptr (H # M @ X # P))" "tw_height X \<le> tw_height H"
    "\<And>l. l < tw_height H \<Longrightarrow> E (fst (us ! l)) l = Some (e l)" "0 < tw_height H"
  shows "linked (patch (tw_height X) (tw_height H - tw_height X) (\<lambda>l. [fst (us ! l) \<mapsto> (fst (e l), snd (e l) + 1)])
    (patch 0 (tw_height X) (\<lambda>l. [tw_ptr X \<mapsto> (fst (e l), snd (e l) - (snd (us ! 0) - snd (us ! l))),
      fst (us ! l) \<mapsto> (Some (tw_ptr X), snd (us ! 0) - snd (us ! l) + 1)]) E)) (H # M @ X # P)"
  (is "linked ?E _")
  unfolding linked_def
proof (intro allI impI)
  fix A t B l assume s: "H # M @ X # P = A @ t # B" and l: "l < tw_height t"
  have lt: "l < tw_height H"
  proof -
    have "t \<in> set (H # M @ X # P)" unfolding s by simp
    with assms(3,5) have "tw_height t \<le> tw_height H" by auto
    with l show ?thesis by simp
  qed
  from assms(2) [OF lt] obtain C v D where v: "H # M = C @ v # D" "l < tw_height v" "\<forall>b \<in> set D. tw_height b \<le> l" 
    "us ! l = (tw_ptr v, of_nat (length C))" by (auto simp: stop_def)
  have "snd (us ! 0) = of_nat (length M)" using stop_zero(1) [OF assms(2) [OF assms(7)]] assms(3) by simp
  moreover have "length M = length C + length D" using arg_cong [OF v(1), of length] by simp
  ultimately have rank: "snd (us ! 0) - snd (us ! l) = of_nat (length D)" using v(4) by simp
  have app: "H # M @ P = C @ v # D @ P" using v(1) by (metis append_Cons append_assoc)
  have el: "e l = (fst (link l P), snd (link l P) + of_nat (length D))"
    using linkedD [OF assms(1) [unfolded app] v(2)] assms(6) [OF lt] v(4) link_miss [OF v(3), of P] by simp
  have p: "fst (us ! l) = tw_ptr v" using v(4) by simp
  have vin: "tw_ptr v \<in> tw_ptr ` set (H # M)" unfolding v(1) by simp
  have "tw_ptr X \<notin> tw_ptr ` set (H # M)" using assms(4) by auto
  with vin have vX: "tw_ptr v \<noteq> tw_ptr X" by metis
  have "(H # M) @ X # P = A @ t # B" using s by simp
  then show "?E (tw_ptr t) l = Some (link l B)"
  proof (rule append_split)
    fix B1 assume t: "H # M = A @ t # B1" "B = B1 @ X # P"
    have app': "H # M @ P = A @ t # B1 @ P" using t(1) by (metis append_Cons append_assoc)
    have tE: "E (tw_ptr t) l = Some (link l (B1 @ P))" using linkedD [OF assms(1) [unfolded app'] l] .
    have tin: "tw_ptr t \<in> tw_ptr ` set (H # M)" unfolding t(1) by simp
    with \<open>tw_ptr X \<notin> tw_ptr ` set (H # M)\<close> have tX: "tw_ptr t \<noteq> tw_ptr X" by metis
    have iff: "tw_ptr t = tw_ptr v \<longleftrightarrow> (\<forall>b \<in> set B1. tw_height b \<le> l)"
      using stop_last [OF _ t(1) l] assms(2) [OF lt, unfolded v(4)] assms(4) by auto
    show ?thesis
    proof (cases "tw_ptr t = tw_ptr v")
      case False
      with iff have "\<exists>b \<in> set B1. l < tw_height b" by (simp add: not_le Bex_def)
      then have "link l (B1 @ P) = link l B" unfolding t(2) by (rule link_hit)
      with tE False tX show ?thesis by (simp add: patch_def p)
    next
      case True
      then have "B1 = D" using distinct_rest [OF t(1) v(1)] assms(4) by auto
      have "link l B = (fst (link l (X # P)), snd (link l (X # P)) + of_nat (length D))"
        unfolding t(2) \<open>B1 = D\<close> by (rule link_miss [OF v(3)])
      with True tX vX lt show ?thesis by (simp add: patch_def p rank el ac_simps)
    qed
  next
    assume t: "A = H # M" "t = X" "B = P"
    with l vX lt show ?thesis by (simp add: patch_def p rank el)
  next
    fix A1 assume t: "P = A1 @ t # B"
    then have "tw_ptr t \<in> tw_ptr ` set P" by simp
    with vin assms(4) have "tw_ptr t \<noteq> tw_ptr v" "tw_ptr t \<noteq> tw_ptr X" by auto
    moreover have "linked E ((H # M @ A1) @ t # B)" using assms(1) t by simp
    ultimately show ?thesis using linkedD [of E "H # M @ A1" t B l] l by (simp add: patch_def p)
  qed
qed

lemma delete_linked:
  fixes us :: "ptr list"
  assumes "linked E (H # M @ X # P)" "\<And>l. l < tw_height H \<Longrightarrow> \<exists>r :: u32. stop (H # M) l (us ! l, r)"
    "\<forall>t \<in> set (M @ X # P). tw_height t \<le> tw_height H" "distinct (map tw_ptr (H # M @ X # P))"
    "\<And>l. l < tw_height H \<Longrightarrow> E (us ! l) l = Some (e l)" "\<And>l. l < tw_height X \<Longrightarrow> E (tw_ptr X) l = Some (d l)"
  shows "linked (patch 0 (tw_height H) (\<lambda>l. [us ! l \<mapsto> (if fst (e l) = Some (tw_ptr X)
      then (fst (d l), snd (e l) + (snd (d l) - 1)) else (fst (e l), snd (e l) - 1))]) E) (H # M @ P)"
  (is "linked ?E _")
  unfolding linked_def
proof (intro allI impI)
  fix A t B l assume s: "H # M @ P = A @ t # B" and l: "l < tw_height t"
  have lt: "l < tw_height H"
  proof -
    have "t \<in> set (H # M @ P)" unfolding s by simp
    with assms(3) have "tw_height t \<le> tw_height H" by auto
    with l show ?thesis by simp
  qed
  from assms(2) [OF lt] obtain r :: u32 where st: "stop (H # M) l (us ! l, r)" by blast
  then obtain C v D where v: "H # M = C @ v # D" "l < tw_height v" "\<forall>b \<in> set D. tw_height b \<le> l"
    "us ! l = tw_ptr v" by (auto simp: stop_def)
  have app: "H # M @ X # P = C @ v # D @ X # P" using v(1) by (metis append_Cons append_assoc)
  have el: "e l = (fst (link l (X # P)), snd (link l (X # P)) + of_nat (length D))"
    using linkedD [OF assms(1) [unfolded app] v(2)] assms(5) [OF lt] v(4) link_miss [OF v(3), of "X # P"] by simp
  have vin: "tw_ptr v \<in> tw_ptr ` set (H # M)" unfolding v(1) by simp
  have Xp: "fst (link l P) \<noteq> Some (tw_ptr X)"
  proof
    assume "fst (link l P) = Some (tw_ptr X)"
    from link_Some [OF this] have "tw_ptr X \<in> tw_ptr ` set P" by force
    with assms(4) show False by auto
  qed
  have dl: "l < tw_height X \<Longrightarrow> d l = link l P"
    using linkedD [of E "H # M" X P l] assms(1,6) by simp
  have new: "(if fst (e l) = Some (tw_ptr X) then (fst (d l), snd (e l) + (snd (d l) - 1)) else (fst (e l), snd (e l) - 1)) =
      (fst (link l P), snd (link l P) + of_nat (length D))"
    using Xp dl by (cases "l < tw_height X") (auto simp: el)
  show "?E (tw_ptr t) l = Some (link l B)"
  proof (cases "\<exists>B1. H # M = A @ t # B1 \<and> B = B1 @ P")
    case True
    then obtain B1 where t: "H # M = A @ t # B1" "B = B1 @ P" by blast
    have app': "H # M @ X # P = A @ t # B1 @ X # P" using t(1) by (metis append_Cons append_assoc)
    have tE: "E (tw_ptr t) l = Some (link l (B1 @ X # P))" using linkedD [OF assms(1) [unfolded app'] l] .
    have iff: "tw_ptr t = tw_ptr v \<longleftrightarrow> (\<forall>b \<in> set B1. tw_height b \<le> l)"
      using stop_last [OF _ t(1) l] st [unfolded v(4)] assms(4) by auto
    show ?thesis
    proof (cases "tw_ptr t = tw_ptr v")
      case False
      with iff have "\<exists>b \<in> set B1. l < tw_height b" by (simp add: not_le Bex_def)
      then have "link l (B1 @ X # P) = link l B" unfolding t(2) by (rule link_hit)
      with tE False show ?thesis by (simp add: patch_def v(4))
    next
      case True
      then have "B1 = D" using distinct_rest [OF t(1) v(1)] assms(4) by auto
      then have "link l B = (fst (link l P), snd (link l P) + of_nat (length D))"
        unfolding t(2) by (simp add: link_miss [OF v(3)])
      with True lt new show ?thesis by (simp add: patch_def v(4))
    qed
  next
    case False
    from s have "(H # M) @ P = A @ t # B" by simp
    then consider us where "H # M = A @ us" "us @ P = t # B" | us where "(H # M) @ us = A" "P = us @ t # B"
      unfolding append_eq_append_conv2 by blast
    then obtain A1 where t: "A = (H # M) @ A1" "P = A1 @ t # B"
    proof cases
      case 1
      with False that [of "[]"] show ?thesis by (cases us) auto
    qed auto
    then have "tw_ptr t \<in> tw_ptr ` set P" by simp
    with vin assms(4) have "tw_ptr t \<noteq> tw_ptr v" by auto
    moreover have "linked E ((H # M @ X # A1) @ t # B)" using assms(1) t by simp
    ultimately show ?thesis using linkedD [of E "H # M @ X # A1" t B l] l by (simp add: patch_def v(4))
  qed
qed

section \<open>The order of the elements\<close>

lemma memcmp_order:
  "(memcmp a b < 0 \<or> memcmp a b = 0 \<and> length a < length b \<longleftrightarrow> a < b) \<and> (memcmp a b = 0 \<and> length a = length b \<longleftrightarrow> a = b)"
proof (induction a arbitrary: b)
  case Nil
  then show ?case by (cases b) auto
next
  case (Cons x a)
  then show ?case by (cases b) (auto simp: word_less_def word_uint_eq_iff)
qed

lemma memcmp_take: "n = (if length a \<le> length b then length a else length b) \<Longrightarrow> memcmp (take n a) (take n b) = memcmp a b"
proof (induction a b arbitrary: n rule: memcmp.induct, goal_cases)
  case (1 a as b bs)
  then show ?case by (cases n) (auto split: if_splits)
next
  case (2 b)
  then show ?case by simp
next
  case (3 a)
  then show ?case by (cases a) simp_all
qed

lemma compareslObj_order:
  assumes "length a < 2 ^ 31" "length b < 2 ^ 31"
  shows "compareslObj a b < 0 \<longleftrightarrow> a < b" "compareslObj a b = 0 \<longleftrightarrow> a = b"
proof -
  have s: "sint (word_of_int d :: i32) = d" if "- (2 ^ 31) \<le> d" "d < 2 ^ 31" for d
    using that by (simp add: signed_of_int signed_take_bit_int_eq_self)
  have "sint (word_of_int (int (length a) - int (length b)) :: i32) = int (length a) - int (length b)"
    by (rule s) (use assms in simp_all)
  then have c: "compareslObj a b = (if memcmp a b = 0 then int (length a) - int (length b) else memcmp a b)"
    by (simp add: compareslObj_def Let_def memcmp_take)
  then show "compareslObj a b < 0 \<longleftrightarrow> a < b" using memcmp_order [of a b] by auto
  show "compareslObj a b = 0 \<longleftrightarrow> a = b" using c memcmp_order [of a b] by auto
qed

lemma equalslObj_iff: "length a < 2 ^ 31 \<Longrightarrow> length b < 2 ^ 31 \<Longrightarrow> equalslObj a b \<longleftrightarrow> a = b"
  by (simp add: equalslObj_def compareslObj_order)

lemma compare_key_less:
  assumes "sn_obj n = Some o'" "length o' < 2 ^ 31" "length obj < 2 ^ 31"
  shows "compare_key (\<lambda>c. c < 0) score obj n = Inr ((sn_score n, o') < (score, obj))"
    "compare_key (\<lambda>c. c \<le> 0) score obj n = Inr ((sn_score n, o') \<le> (score, obj))"
proof -
  have "compareslObj o' obj \<le> 0 \<longleftrightarrow> o' \<le> obj"
    using compareslObj_order [OF assms(2,3)] by (auto simp: le_less)
  then show "compare_key (\<lambda>c. c < 0) score obj n = Inr ((sn_score n, o') < (score, obj))"
    "compare_key (\<lambda>c. c \<le> 0) score obj n = Inr ((sn_score n, o') \<le> (score, obj))"
    using assms compareslObj_order(1) [OF assms(2,3)] by (auto simp: compare_key_def)
qed

lemma splits_key:
  assumes "chained b (shapes N) (M @ P)" "\<forall>t \<in> set M. Q t" "\<forall>t \<in> set P. \<not> Q t"
    "\<And>t n r. t \<in> set (M @ P) \<Longrightarrow> N (tw_ptr t) = Some n \<Longrightarrow> sn_obj n = Some (tw_obj t) \<Longrightarrow> sn_score n = tw_score t \<Longrightarrow> go r n = Inr (Q t)"
  shows "splits go N acc M P"
  unfolding splits_def
proof (intro conjI allI impI)
  fix A t B n assume t: "M = A @ t # B" "N (tw_ptr t) = Some n"
  with chained_node [OF assms(1), of t] assms(2) assms(4) [of t n "acc + of_nat (length A + 1)"]
  show "go (acc + of_nat (length A + 1)) n = Inr True" by auto
next
  fix A t B n assume t: "P = A @ t # B" "N (tw_ptr t) = Some n"
  with chained_node [OF assms(1), of t] assms(3) assms(4) [of t n "acc + of_nat (length M + length A + 1)"]
  show "go (acc + of_nat (length M + length A + 1)) n = Inr False" by auto
qed

section \<open>The search of an operation\<close>

lemma sl_search:
  assumes "heap_rep s (M @ P)" "tower_rep s (M @ P)" "splits go (sl_nodes s) 0 M P"
  shows "\<exists>us. search go s (sl_level s) (sl_header s) 0 = Inr us \<and> length us = sl_level s \<and>
    (\<forall>l < sl_level s. stop (hdr s # M) l (us ! l))"
proof -
  have "length (M @ P) < 2 ^ 32" using assms(2) by (simp add: tower_rep_def)
  then have 1: "linked (entry (sl_nodes s)) (hdr s # M @ P)" "\<forall>t \<in> set (M @ P). 0 < tw_height t" "length (M @ P) < 2 ^ 32"
    "sl_length s = of_nat (length (M @ P))" "length M \<le> length (M @ P)" "length (M @ P) < 2 ^ 64"
    using assms(1,2) by (auto simp: heap_rep_def tower_rep_def)
  have "sl_level s \<le> tw_height (hdr s)" by simp
  from search_stops [OF 1(1) this 1(2) assms(3) 1(3-6)] show ?thesis by (auto simp: prod_eq_iff)
qed

lemma stop_entry:
  assumes "heap_rep s (M @ P)" "l < sl_level s" "stop (hdr s # M) l (p, r :: 'w :: len word)"
  shows "\<exists>e. entry (sl_nodes s) p l = Some e" "p \<in> tw_ptr ` set (hdr s # M)"
proof -
  from assms(3) obtain A v B where v: "hdr s # M = A @ v # B" "l < tw_height v" "p = tw_ptr v" by (auto simp: stop_def)
  have "hdr s # M @ P = A @ v # B @ P" using v(1) by (metis append_Cons append_assoc)
  with assms(1) have "linked (entry (sl_nodes s)) (A @ v # B @ P)" by (simp add: heap_rep_def)
  from linkedD [OF this v(2)] v(3) show "\<exists>e. entry (sl_nodes s) p l = Some e" by blast
  show "p \<in> tw_ptr ` set (hdr s # M)" unfolding v(1,3) by simp
qed

section \<open>The back links\<close>

lemma put_backward:
  assumes "shapes N p = Some (b, sc, q, h)"
  shows "\<exists>n. N p = Some n \<and> entry (N(p \<mapsto> n\<lparr>sn_backward := pr\<rparr>)) = entry N \<and>
    shapes (N(p \<mapsto> n\<lparr>sn_backward := pr\<rparr>)) = (shapes N)(p \<mapsto> (b, sc, pr, h))"
proof -
  from assms obtain n where n: "N p = Some n" "sn_obj n = b" "sn_score n = sc" "length (sn_level n) = h" by (auto simp: shapes_def)
  then have "entry (N(p \<mapsto> n\<lparr>sn_backward := pr\<rparr>)) = entry N" by (intro ext) (simp add: entry_def)
  moreover have "shapes (N(p \<mapsto> n\<lparr>sn_backward := pr\<rparr>)) = (shapes N)(p \<mapsto> (b, sc, pr, h))" using n by (intro ext) (simp add: shapes_def)
  ultimately show ?thesis using n(1) by blast
qed

lemma link_back_chain:
  assumes "entry (sl_nodes s) x 0 = Some (link 0 P)" "\<forall>t \<in> set P. 0 < tw_height t" "chained b (shapes (sl_nodes s)) P" "distinct (map tw_ptr P)"
  shows "\<exists>N t. link_back x pr s = Inr (s\<lparr>sl_nodes := N, sl_tail := t\<rparr>) \<and> entry N = entry (sl_nodes s) \<and> chained pr (shapes N) P \<and>
    (\<forall>q. q \<notin> tw_ptr ` set P \<longrightarrow> shapes N q = shapes (sl_nodes s) q) \<and> dom N = dom (sl_nodes s) \<and> (P = [] \<longrightarrow> t = pr) \<and> (P \<noteq> [] \<longrightarrow> t = sl_tail s)"
proof (cases P)
  case Nil
  then have "link_back x pr s = Inr (s\<lparr>sl_nodes := sl_nodes s, sl_tail := pr\<rparr>)" using assms(1) by (simp add: link_back_def get_level_entry)
  with Nil show ?thesis by (intro exI [of _ "sl_nodes s"] exI [of _ pr]) simp
next
  case (Cons t P')
  with assms(2) have l: "link 0 P = (Some (tw_ptr t), 1)" by simp
  from Cons assms(3) have "shapes (sl_nodes s) (tw_ptr t) = Some (Some (tw_obj t), tw_score t, b, tw_height t)" by simp
  from put_backward [OF this, of pr] obtain n where n: "sl_nodes s (tw_ptr t) = Some n"
    "entry ((sl_nodes s)(tw_ptr t \<mapsto> n\<lparr>sn_backward := pr\<rparr>)) = entry (sl_nodes s)"
    "shapes ((sl_nodes s)(tw_ptr t \<mapsto> n\<lparr>sn_backward := pr\<rparr>)) = (shapes (sl_nodes s))(tw_ptr t \<mapsto> (Some (tw_obj t), tw_score t, pr, tw_height t))"
    by blast
  let ?N = "(sl_nodes s)(tw_ptr t \<mapsto> n\<lparr>sn_backward := pr\<rparr>)"
  have "link_back x pr s = Inr (s\<lparr>sl_nodes := ?N, sl_tail := sl_tail s\<rparr>)"
    using assms(1) n(1) l by (simp add: link_back_def get_level_entry get_node_def put_node_def)
  moreover have "chained (Some (tw_ptr t)) (shapes ?N) P'"
  proof (rule chained_frame [of _ "shapes (sl_nodes s)"])
    fix u assume "u \<in> set P'"
    then have "tw_ptr u \<in> tw_ptr ` set P'" by simp
    then have "tw_ptr u \<noteq> tw_ptr t" using Cons assms(4) by auto
    then show "shapes ?N (tw_ptr u) = shapes (sl_nodes s) (tw_ptr u)" using n(3) by simp
  qed (use Cons assms(3) in simp)
  ultimately show ?thesis using Cons n by (intro exI [of _ ?N] exI [of _ "sl_tail s"]) auto
qed

section \<open>Insertion\<close>

lemma random_level_range: "random_level l rs = Inr r \<Longrightarrow> 0 < l \<Longrightarrow> 0 < r \<and> r \<le> SKIPLIST_MAXLEVEL"
  by (induction l rs rule: random_level.induct) (auto simp: SKIPLIST_MAXLEVEL_def split: if_splits)

lemma raise_rep:
  assumes "heap_rep s T" "tower_rep s T" "sl_level s < lv" "lv \<le> SKIPLIST_MAXLEVEL"
  shows "\<exists>N. raise_levels (sl_level s) (lv - sl_level s) s = Inr (s\<lparr>sl_nodes := N\<rparr>) \<and> shapes N = shapes (sl_nodes s) \<and>
    heap_rep (s\<lparr>sl_nodes := N, sl_level := lv\<rparr>) T \<and> tower_rep (s\<lparr>sl_nodes := N, sl_level := lv\<rparr>) T"
proof -
  have high: "\<exists>d. entry (sl_nodes s) (sl_header s) i = Some (None, d)" if "sl_level s \<le> i" "i < SKIPLIST_MAXLEVEL" for i
    using that assms(1) by (simp add: heap_rep_def)
  let ?e = "\<lambda>l. the (entry (sl_nodes s) (sl_header s) l)"
  have e: "entry (sl_nodes s) (sl_header s) l = Some (?e l) \<and> fst (?e l) = None" if "sl_level s \<le> l" "l < SKIPLIST_MAXLEVEL" for l
    using high [OF that] by auto
  from raise_levels_patch [of "sl_level s" "lv - sl_level s" s ?e] e assms(3,4) obtain N where
    N: "raise_levels (sl_level s) (lv - sl_level s) s = Inr (s\<lparr>sl_nodes := N\<rparr>)" "shapes N = shapes (sl_nodes s)"
      "entry N = patch (sl_level s) (lv - sl_level s) (\<lambda>l. [sl_header s \<mapsto> (fst (?e l), ucast (sl_length s))]) (entry (sl_nodes s))"
    by auto
  let ?s = "s\<lparr>sl_nodes := N, sl_level := lv\<rparr>"
  have T: "tw_ptr t \<noteq> sl_header s" "tw_height t \<le> sl_level s" if "t \<in> set T" for t
    using that assms(2) by (auto simp: tower_rep_def image_iff)
  have len: "ucast (sl_length s) = (of_nat (length T) :: u32)"
    using assms(2) by (simp add: tower_rep_def unsigned_of_nat take_bit_nat_eq_self)
  have old: "linked (entry (sl_nodes s)) (hdr s # T)" using assms(1) by (simp add: heap_rep_def)
  have "linked (entry N) (hdr ?s # T)" unfolding linked_def
  proof (intro allI impI)
    fix A t B l assume t: "hdr ?s # T = A @ t # B" "l < tw_height t"
    show "entry N (tw_ptr t) l = Some (link l B)"
    proof (cases A)
      case Nil
      with t have h: "t = hdr ?s" "B = T" by auto
      show ?thesis
      proof (cases "l < sl_level s")
        case True
        with linkedD [of _ "[]" "hdr s" T l] old h show ?thesis by (simp add: N(3) patch_def)
      next
        case False
        have "link l T = (None, of_nat (length T))" by (rule link_none) (use False T(2) in fastforce)
        with False h t(2) assms(3,4) e [of l] len show ?thesis by (simp add: N(3) patch_def)
      qed
    next
      case (Cons a A')
      with t have "T = A' @ t # B" by simp
      with linkedD [of "entry (sl_nodes s)" "hdr s # A'" t B l] old t(2) T(1) [of t] show ?thesis by (simp add: N(3) patch_def)
    qed
  qed
  moreover have "\<exists>d. entry N (sl_header s) i = Some (None, d)" if "lv \<le> i" "i < SKIPLIST_MAXLEVEL" for i
    using that high [of i] assms(3) by (simp add: N(3) patch_def)
  ultimately have "heap_rep ?s T" using assms(1) N(2) by (simp add: heap_rep_def)
  moreover have "tower_rep ?s T" using assms(2,3,4) by (auto simp: tower_rep_def)
  ultimately show ?thesis using N by blast
qed

text \<open>A new node whose levels are not linked yet.\<close>

lemma entry_new:
  "entry (N(x \<mapsto> \<lparr>sn_obj = obj, sn_score = score, sn_backward = b, sn_level = replicate h (None, 0)\<rparr>)) p l =
    (if p = x then (if l < h then Some (None, 0) else None) else entry N p l)"
  by (simp add: entry_def)

lemma shapes_new:
  "shapes (N(x \<mapsto> \<lparr>sn_obj = obj, sn_score = score, sn_backward = b, sn_level = replicate h (None, 0)\<rparr>)) =
    (shapes N)(x \<mapsto> (obj, score, b, h))"
  by (intro ext) (simp add: shapes_def)

lemma shapes_frame: "shapes N p = shapes N' p \<Longrightarrow> N p = None \<longleftrightarrow> N' p = None"
  by (cases "N p"; cases "N' p") (auto simp: shapes_def)

lemma linked_frame:
  "linked E X \<Longrightarrow> (\<And>t l. t \<in> set X \<Longrightarrow> E' (tw_ptr t) l = E (tw_ptr t) l) \<Longrightarrow> linked E' X"
  by (auto simp: linked_def)

text \<open>The links of a node being inserted, once its levels are chosen.\<close>

lemma link_new:
  fixes s :: "'a :: {linorder, zero} skiplist"
  assumes rep: "heap_rep s (M @ P)" "tower_rep s (M @ P)" and x: "x = sl_fresh s"
    and us: "\<And>l. l < sl_level s \<Longrightarrow> stop (hdr s # M) l (us ! l)" and h: "0 < h" "h \<le> sl_level s"
    and X: "X = \<lparr>tw_ptr = x, tw_height = h, tw_score = score, tw_obj = obj\<rparr>"
    and s2: "s2 = put_node x \<lparr>sn_obj = Some obj, sn_score = score, sn_backward = None, sn_level = replicate h (None, 0)\<rparr> (s\<lparr>sl_fresh := sl_fresh s + 1\<rparr>)"
  shows "\<exists>N3 N4. link_levels us x 0 h s2 = Inr (s2\<lparr>sl_nodes := N3\<rparr>) \<and>
    widen_levels us h (sl_level s - h) (s2\<lparr>sl_nodes := N3\<rparr>) = Inr (s2\<lparr>sl_nodes := N4\<rparr>) \<and>
    linked (entry N4) (hdr s # M @ X # P) \<and> shapes N4 = (shapes (sl_nodes s))(x \<mapsto> (Some obj, score, None, h)) \<and>
    (\<forall>l. sl_level s \<le> l \<longrightarrow> entry N4 (sl_header s) l = entry (sl_nodes s) (sl_header s) l)"
proof -
  have E2: "entry (sl_nodes s2) p l = (if p = x then (if l < h then Some (None, 0) else None) else entry (sl_nodes s) p l)" for p l
    by (simp add: s2 put_node_def entry_new)
  have fresh: "tw_ptr t \<noteq> x" if "t \<in> set (hdr s # M @ P)" for t
    using that rep(2) unfolding x tower_rep_def by (metis less_irrefl)
  let ?e = "\<lambda>l. the (entry (sl_nodes s2) (fst (us ! l)) l)"
  have e: "entry (sl_nodes s2) (fst (us ! l)) l = Some (?e l) \<and> x \<noteq> fst (us ! l)" if "l < sl_level s" for l
  proof -
    from us [OF that] have st: "stop (hdr s # M) l (fst (us ! l), snd (us ! l))" by simp
    from stop_entry(2) [OF rep(1) that st] obtain t where "t \<in> set (hdr s # M)" "fst (us ! l) = tw_ptr t" by blast
    with fresh [of t] have "fst (us ! l) \<noteq> x" by auto
    with stop_entry(1) [OF rep(1) that st] show ?thesis by (auto simp: E2)
  qed
  have "entry (sl_nodes s2) (fst (us ! l)) l = Some (?e l) \<and> entry (sl_nodes s2) x l \<noteq> None \<and> x \<noteq> fst (us ! l)" if "l < 0 + h" for l
    using that e [of l] h E2 [of x l] by simp
  from link_levels_patch [of 0 h s2 us ?e x, OF this] obtain N3 where N3:
    "link_levels us x 0 h s2 = Inr (s2\<lparr>sl_nodes := N3\<rparr>)" "shapes N3 = shapes (sl_nodes s2)"
    "entry N3 = patch 0 h (\<lambda>l. [x \<mapsto> (fst (?e l), snd (?e l) - (snd (us ! 0) - snd (us ! l))),
      fst (us ! l) \<mapsto> (Some x, snd (us ! 0) - snd (us ! l) + 1)]) (entry (sl_nodes s2))" by blast
  have "entry N3 (fst (us ! l)) l = Some (?e l)" if "h \<le> l" "l < h + (sl_level s - h)" for l
    using e [of l] that by (simp add: N3(3) patch_def)
  from widen_levels_patch [of h "sl_level s - h" "s2\<lparr>sl_nodes := N3\<rparr>" us ?e] this obtain N4 where N4:
    "widen_levels us h (sl_level s - h) (s2\<lparr>sl_nodes := N3\<rparr>) = Inr (s2\<lparr>sl_nodes := N4\<rparr>)" "shapes N4 = shapes N3"
    "entry N4 = patch h (sl_level s - h) (\<lambda>l. [fst (us ! l) \<mapsto> (fst (?e l), snd (?e l) + 1)]) (entry N3)" by auto
  have "linked (entry (sl_nodes s2)) (hdr s # M @ P)"
    by (rule linked_frame [of "entry (sl_nodes s)"]) (use rep(1) fresh in \<open>auto simp: E2 heap_rep_def\<close>)
  then have l2: "linked (entry (sl_nodes s2)) (hdr s # M @ P)" .
  have xn: "x \<notin> tw_ptr ` set (hdr s # M @ P)" using fresh by blast
  have "distinct (map tw_ptr (hdr s # M @ X # P))" using rep(2) xn by (auto simp: X tower_rep_def)
  moreover have "\<forall>t \<in> set (M @ P). 0 < tw_height t \<and> tw_height t \<le> tw_height (hdr s)" "0 < tw_height (hdr s)" "tw_height X \<le> tw_height (hdr s)"
    using rep(2) h by (simp_all add: tower_rep_def X)
  moreover have "entry (sl_nodes s2) (fst (us ! l)) l = Some (?e l)" if "l < tw_height (hdr s)" for l using e that by simp
  moreover have "stop (hdr s # M) l (us ! l)" if "l < tw_height (hdr s)" for l using us that by simp
  ultimately have "linked (patch (tw_height X) (tw_height (hdr s) - tw_height X) (\<lambda>l. [fst (us ! l) \<mapsto> (fst (?e l), snd (?e l) + 1)])
    (patch 0 (tw_height X) (\<lambda>l. [tw_ptr X \<mapsto> (fst (?e l), snd (?e l) - (snd (us ! 0) - snd (us ! l))),
      fst (us ! l) \<mapsto> (Some (tw_ptr X), snd (us ! 0) - snd (us ! l) + 1)]) (entry (sl_nodes s2)))) (hdr s # M @ X # P)"
    by (intro insert_linked [OF l2])
  then have "linked (entry N4) (hdr s # M @ X # P)" unfolding N4(3) N3(3) by (simp add: X)
  moreover have "shapes N4 = (shapes (sl_nodes s))(x \<mapsto> (Some obj, score, None, h))"
    unfolding N4(2) N3(2) by (simp add: s2 put_node_def shapes_new)
  moreover have "entry N4 (sl_header s) l = entry (sl_nodes s) (sl_header s) l" if "sl_level s \<le> l" for l
    using that h fresh [of "hdr s"] by (simp add: N4(3) N3(3) patch_def E2)
  ultimately show ?thesis using N3(1) N4(1) by blast
qed

lemma chained_insert:
  assumes "chained None S (M @ P)" "S' (tw_ptr X) = Some (Some (tw_obj X), tw_score X, before None M, tw_height X)"
    "chained (Some (tw_ptr X)) S' P" "\<And>t. t \<in> set M \<Longrightarrow> S' (tw_ptr t) = S (tw_ptr t)"
  shows "chained None S' (M @ X # P)"
  using assms chained_frame [of None S M S'] by (simp add: chained_append)

lemma slInsert_tail:
  assumes rep: "sl_rep s (M @ P)" "length (M @ P) + 1 < 2 ^ 32" and us: "\<And>l. l < sl_level s \<Longrightarrow> stop (hdr s # M) l (us ! l)"
    and h: "0 < h" "h \<le> sl_level s" and x: "x = sl_fresh s"
    and X: "X = \<lparr>tw_ptr = x, tw_height = h, tw_score = score, tw_obj = obj\<rparr>"
  shows "\<exists>s'. bind_res (link_levels us x 0 h (put_node x \<lparr>sn_obj = Some obj, sn_score = score, sn_backward = None,
        sn_level = replicate h (None, 0)\<rparr> (s\<lparr>sl_fresh := sl_fresh s + 1\<rparr>))) (\<lambda>s3.
      bind_res (widen_levels us h (sl_level s - h) s3) (\<lambda>s4.
      bind_res (get_node s4 x) (\<lambda>n.
      bind_res (link_back x (Some x) (put_node x (n\<lparr>sn_backward := (if fst (us ! 0) = sl_header s4 then None else Some (fst (us ! 0)))\<rparr>) s4))
        (\<lambda>s6. Inr (s6\<lparr>sl_length := sl_length s6 + 1\<rparr>))))) = Inr s' \<and>
    sl_rep s' (M @ X # P) \<and> dom (sl_nodes s') = insert x (dom (sl_nodes s)) \<and> sl_header s' = sl_header s"
proof -
  have hr: "heap_rep s (M @ P)" and tr: "tower_rep s (M @ P)" using rep(1) by (simp_all add: sl_rep_def)
  let ?s2 = "put_node x \<lparr>sn_obj = Some obj, sn_score = score, sn_backward = None, sn_level = replicate h (None, 0)\<rparr> (s\<lparr>sl_fresh := sl_fresh s + 1\<rparr>)"
  define s2 where "s2 = ?s2"
  have f2: "sl_header s2 = sl_header s" "sl_level s2 = sl_level s" "sl_length s2 = sl_length s" "sl_tail s2 = sl_tail s" "sl_fresh s2 = Suc (sl_fresh s)"
    by (simp_all add: s2_def put_node_def)
  from link_new [OF hr tr x us h X s2_def] obtain N3 N4 where
    N3: "link_levels us x 0 h s2 = Inr (s2\<lparr>sl_nodes := N3\<rparr>)" and
    N4: "widen_levels us h (sl_level s - h) (s2\<lparr>sl_nodes := N3\<rparr>) = Inr (s2\<lparr>sl_nodes := N4\<rparr>)"
      "linked (entry N4) (hdr s # M @ X # P)" "shapes N4 = (shapes (sl_nodes s))(x \<mapsto> (Some obj, score, None, h))"
      "\<And>l. sl_level s \<le> l \<Longrightarrow> entry N4 (sl_header s) l = entry (sl_nodes s) (sl_header s) l" by blast
  have fresh: "tw_ptr t \<noteq> x" if "t \<in> set (hdr s # M @ P)" for t
    using that tr unfolding x tower_rep_def by (metis less_irrefl)
  have hx: "sl_header s \<noteq> x" using fresh [of "hdr s"] by simp
  have pos: "\<forall>t \<in> set M. 0 < tw_height t" "\<forall>t \<in> set P. 0 < tw_height t" "0 < sl_level s" using tr by (auto simp: tower_rep_def)
  have bk: "(if fst (us ! 0) = sl_header s then None else Some (fst (us ! 0))) = before None M"
  proof -
    have "fst (us ! 0) = tw_ptr (last (hdr s # M))" using stop_zero(2) [OF us [OF pos(3)] pos(1)] .
    moreover have "tw_ptr (last M) \<noteq> sl_header s" if "M \<noteq> []"
    proof -
      from last_in_set [OF that] have "tw_ptr (last M) \<in> tw_ptr ` set M" by simp
      then show ?thesis using tr by (auto simp: tower_rep_def)
    qed
    ultimately show ?thesis by (auto simp: before_def)
  qed
  let ?p = "before None M"
  from put_backward [of N4 x "Some obj" score None h ?p] N4(3) obtain n where n: "N4 x = Some n"
    "entry (N4(x \<mapsto> n\<lparr>sn_backward := ?p\<rparr>)) = entry N4"
    "shapes (N4(x \<mapsto> n\<lparr>sn_backward := ?p\<rparr>)) = (shapes N4)(x \<mapsto> (Some obj, score, ?p, h))" by auto
  let ?N5 = "N4(x \<mapsto> n\<lparr>sn_backward := ?p\<rparr>)"
  let ?s5 = "s2\<lparr>sl_nodes := ?N5\<rparr>"
  have S5: "shapes ?N5 = (shapes (sl_nodes s))(x \<mapsto> (Some obj, score, ?p, h))" unfolding n(3) N4(3) by simp
  have chain: "chained (before None M) (shapes (sl_nodes s)) P" using hr by (simp add: heap_rep_def chained_append)
  have chP: "chained (before None M) (shapes ?N5) P"
    by (rule chained_frame [OF chain]) (use fresh S5 in auto)
  have lx: "entry (sl_nodes ?s5) x 0 = Some (link 0 P)"
    using linkedD [of "entry N4" "hdr s # M" X P 0] N4(2) h n(2) by (simp add: X)
  have dP: "distinct (map tw_ptr P)" using tr by (simp add: tower_rep_def)
  have "chained (before None M) (shapes (sl_nodes ?s5)) P" using chP by simp
  from link_back_chain [OF lx pos(2) this dP, of "Some x"] obtain N6 t where N6:
    "link_back x (Some x) ?s5 = Inr (?s5\<lparr>sl_nodes := N6, sl_tail := t\<rparr>)" "entry N6 = entry N4" "chained (Some x) (shapes N6) P"
    "\<And>q. q \<notin> tw_ptr ` set P \<Longrightarrow> shapes N6 q = shapes ?N5 q" "dom N6 = dom ?N5" "P = [] \<Longrightarrow> t = Some x" "P \<noteq> [] \<Longrightarrow> t = sl_tail s"
    unfolding n(2) [symmetric] by (simp add: f2) blast
  let ?s6 = "?s5\<lparr>sl_nodes := N6, sl_tail := t\<rparr>"
  let ?s7 = "?s6\<lparr>sl_length := sl_length ?s6 + 1\<rparr>"
  have notP: "tw_ptr q \<notin> tw_ptr ` set P" if "q \<in> set (hdr s # M)" for q using that tr by (auto simp: tower_rep_def)
  have xP: "x \<notin> tw_ptr ` set P" using fresh by auto
  have "chained None (shapes N6) (M @ X # P)"
  proof (rule chained_insert [of "shapes (sl_nodes s)"])
    fix t assume "t \<in> set M"
    with N6(4) [OF notP] S5 fresh show "shapes N6 (tw_ptr t) = shapes (sl_nodes s) (tw_ptr t)" by simp
  qed (use hr N6(3) N6(4) [OF xP] S5 in \<open>simp_all add: heap_rep_def X\<close>)
  moreover have "shapes N6 (sl_header s) = Some (None, 0, None, SKIPLIST_MAXLEVEL)"
    using N6(4) [OF notP, of "hdr s"] S5 hx hr by (simp add: heap_rep_def)
  moreover have "hdr ?s7 = hdr s" by (simp add: hdr_def f2)
  ultimately have "heap_rep ?s7 (M @ X # P)" using N4(2,4) N6(2) hr by (simp add: heap_rep_def f2)
  moreover have "tower_rep ?s7 (M @ X # P)"
    using tr rep(2) h fresh by (auto simp: tower_rep_def X x f2 less_Suc_eq)
  moreover have "sl_tail ?s7 = before None (M @ X # P)"
    using N6(6,7) rep(1) by (auto simp: sl_rep_def X before_def f2)
  ultimately have rep': "sl_rep ?s7 (M @ X # P)" by (simp add: sl_rep_def)
  have "dom N4 = insert x (dom (sl_nodes s))"
  proof (rule set_eqI)
    fix p show "p \<in> dom N4 \<longleftrightarrow> p \<in> insert x (dom (sl_nodes s))"
      using shapes_frame [of N4 p "sl_nodes s"] N4(3) n(1) by (cases "p = x") (auto simp: domIff)
  qed
  then have "dom (sl_nodes ?s7) = insert x (dom (sl_nodes s))" using N6(5) n(1) by auto
  then show ?thesis using N3 N4(1) N6(1) n(1) bk rep' unfolding s2_def [symmetric] by (simp add: get_node_def put_node_def f2)
qed

lemma stop_hdr_extend:
  assumes "tower_rep s (M @ P)" "sl_level s \<le> l" "l < lv" "tw_ptr H = sl_header s" "tw_height H = lv"
  shows "stop (H # M) l (sl_header s, 0 :: 'w :: len word)"
  unfolding stop_def
proof (intro exI conjI)
  show "H # M = [] @ H # M" "l < tw_height H" "(sl_header s, 0) = (tw_ptr H, of_nat (length []) :: 'w word)" using assms(3-5) by simp_all
  show "\<forall>b \<in> set M. tw_height b \<le> l"
  proof
    fix b assume "b \<in> set M"
    with assms(1) have "tw_height b \<le> sl_level s" by (simp add: tower_rep_def)
    with assms(2) show "tw_height b \<le> l" by simp
  qed
qed

text \<open>The place of a key does not depend on the height of the header.\<close>

lemma stop_hdr:
  assumes "stop (H # M) l ur" "tw_ptr H' = tw_ptr H" "l < tw_height H'"
  shows "stop (H' # M) l ur"
proof -
  from assms(1) obtain A v B where v: "H # M = A @ v # B" "l < tw_height v" "\<forall>b \<in> set B. tw_height b \<le> l" "ur = (tw_ptr v, of_nat (length A))"
    by (auto simp: stop_def)
  show ?thesis
  proof (cases A)
    case Nil
    with v assms(2,3) have "H' # M = [] @ H' # B \<and> l < tw_height H' \<and> (\<forall>b \<in> set B. tw_height b \<le> l) \<and> ur = (tw_ptr H', of_nat (length []))" by simp
    then show ?thesis unfolding stop_def by blast
  next
    case (Cons a A')
    with v have "H' # M = (H' # A') @ v # B \<and> l < tw_height v \<and> (\<forall>b \<in> set B. tw_height b \<le> l) \<and> ur = (tw_ptr v, of_nat (length (H' # A')))" by simp
    then show ?thesis unfolding stop_def by blast
  qed
qed

lemma slInsert_rep:
  assumes rep: "sl_rep s (M @ P)" "length (M @ P) + 1 < 2 ^ 32" and h: "slRandomLevel draws = Inr h"
    and sp: "splits (\<lambda>_ :: u32. compare_key (\<lambda>c. c < 0) score obj) (sl_nodes s) 0 M P"
  shows "\<exists>s'. slInsert score obj draws s = Inr s' \<and>
    sl_rep s' (M @ \<lparr>tw_ptr = sl_fresh s, tw_height = h, tw_score = score, tw_obj = obj\<rparr> # P) \<and>
    dom (sl_nodes s') = insert (sl_fresh s) (dom (sl_nodes s)) \<and> sl_header s' = sl_header s"
proof -
  have hr: "heap_rep s (M @ P)" and tr: "tower_rep s (M @ P)" using rep(1) by (simp_all add: sl_rep_def)
  from sl_search [OF hr tr sp] obtain us where us:
    "search (\<lambda>_ :: u32. compare_key (\<lambda>c. c < 0) score obj) s (sl_level s) (sl_header s) 0 = Inr us" "length us = sl_level s"
    "\<And>l. l < sl_level s \<Longrightarrow> stop (hdr s # M) l (us ! l)" by blast
  have hb: "0 < h" "h \<le> SKIPLIST_MAXLEVEL" using random_level_range [of 1 draws h] h by (simp_all add: slRandomLevel_def)
  let ?us = "us @ replicate (h - sl_level s) (sl_header s, 0)"
  obtain s1 where s1: "(if h > sl_level s then bind_res (raise_levels (sl_level s) (h - sl_level s) s) (\<lambda>s1. Inr (s1\<lparr>sl_level := h\<rparr>)) else Inr s) = Inr s1"
    "sl_rep s1 (M @ P)" "sl_level s1 = max h (sl_level s)" "sl_header s1 = sl_header s" "sl_fresh s1 = sl_fresh s" "dom (sl_nodes s1) = dom (sl_nodes s)"
  proof (cases "h > sl_level s")
    case True
    from raise_rep [OF hr tr True hb(2)] obtain N where N: "raise_levels (sl_level s) (h - sl_level s) s = Inr (s\<lparr>sl_nodes := N\<rparr>)"
      "shapes N = shapes (sl_nodes s)" "heap_rep (s\<lparr>sl_nodes := N, sl_level := h\<rparr>) (M @ P)" "tower_rep (s\<lparr>sl_nodes := N, sl_level := h\<rparr>) (M @ P)" by blast
    show ?thesis by (rule that [of "s\<lparr>sl_nodes := N, sl_level := h\<rparr>"]) (use N True rep(1) shapes_dom [OF N(2)] in \<open>simp_all add: sl_rep_def\<close>)
  next
    case False
    show ?thesis by (rule that [of s]) (use False rep(1) in \<open>simp_all add: max_def\<close>)
  qed
  have st: "stop (hdr s1 # M) l (?us ! l)" if "l < sl_level s1" for l
  proof (cases "l < sl_level s")
    case True
    with stop_hdr [OF us(3) [OF True], of "hdr s1"] that us(2) s1(4) show ?thesis by (simp add: nth_append)
  next
    case False
    with stop_hdr_extend [OF tr _ that, of "hdr s1"] that us(2) s1(3,4) show ?thesis by (auto simp: nth_append max_def split: if_splits)
  qed
  have lvl: "h \<le> sl_level s1" using s1(3) by simp
  from slInsert_tail [OF s1(2) rep(2) st hb(1) lvl refl refl, of obj score] s1 us(1) h show ?thesis
    by (auto simp: slInsert_def Let_def)
qed

section \<open>Deletion\<close>

lemma lower_level_spec:
  assumes "linked (entry (sl_nodes s)) (hdr s # T)" "0 < l" "l \<le> sl_level s" "\<forall>t \<in> set T. tw_height t \<le> l"
  shows "\<exists>l'. lower_level l s = Inr l' \<and> 0 < l' \<and> l' \<le> l \<and> (\<forall>t \<in> set T. tw_height t \<le> l' \<or> l' = 1 \<and> tw_height t \<le> 1) \<and>
    (\<forall>i. l' \<le> i \<longrightarrow> i < l \<longrightarrow> fst (link i T) = None)"
  using assms(2-4)
proof (induction l)
  case (Suc l)
  show ?case
  proof (cases "l = 0")
    case False
    have g: "get_level s (sl_header s) l = Inr (link l T)"
      using linked_level [of s "[]" "hdr s" T l] assms(1) Suc.prems(2) by simp
    show ?thesis
    proof (cases "fst (link l T) = None")
      case True
      then have "\<forall>t \<in> set T. tw_height t \<le> l" by (simp add: link_Nothing)
      from Suc.IH [OF _ _ this] False Suc.prems(2) obtain l' where l': "lower_level l s = Inr l'" "0 < l'" "l' \<le> l"
        "\<forall>t \<in> set T. tw_height t \<le> l' \<or> l' = 1 \<and> tw_height t \<le> 1" "\<forall>i. l' \<le> i \<longrightarrow> i < l \<longrightarrow> fst (link i T) = None" by auto
      with False g True show ?thesis by (auto simp: case_prod_unfold less_Suc_eq)
    next
      case nn: False
      with False g Suc.prems show ?thesis by (auto simp: case_prod_unfold)
    qed
  qed (use Suc.prems in auto)
qed simp

lemma slDeleteNode_rep:
  assumes rep: "sl_rep s (M @ X # P)" and us: "\<And>l. l < sl_level s \<Longrightarrow> \<exists>r :: u32. stop (hdr s # M) l (us ! l, r)"
  shows "\<exists>s'. slDeleteNode (tw_ptr X) us s = Inr s' \<and> sl_rep s' (M @ P) \<and> dom (sl_nodes s') = dom (sl_nodes s) \<and>
    shapes (sl_nodes s') (tw_ptr X) = shapes (sl_nodes s) (tw_ptr X) \<and> sl_header s' = sl_header s \<and> sl_level s' \<le> sl_level s \<and> sl_fresh s' = sl_fresh s"
proof -
  have hr: "heap_rep s (M @ X # P)" and tr: "tower_rep s (M @ X # P)" using rep by (simp_all add: sl_rep_def)
  have ll: "linked (entry (sl_nodes s)) (hdr s # M @ X # P)" using hr by (simp add: heap_rep_def)
  let ?e = "\<lambda>l. the (entry (sl_nodes s) (us ! l) l)" and ?d = "\<lambda>l. the (entry (sl_nodes s) (tw_ptr X) l)"
  have e: "entry (sl_nodes s) (us ! l) l = Some (?e l)" if "l < sl_level s" for l
    using us [OF that] stop_entry(1) [OF hr that] by force
  have d: "entry (sl_nodes s) (tw_ptr X) l = Some (?d l)" if "l < tw_height X" for l
    using linkedD [of "entry (sl_nodes s)" "hdr s # M" X P l] ll that by simp
  have hX: "fst (?e l) = Some (tw_ptr X) \<Longrightarrow> l < tw_height X" if lt: "l < sl_level s" for l
  proof -
    assume f: "fst (?e l) = Some (tw_ptr X)"
    from us [OF lt] obtain A v B where v: "hdr s # M = A @ v # B" "l < tw_height v" "us ! l = tw_ptr v" "\<forall>b \<in> set B. tw_height b \<le> l" by (auto simp: stop_def)
    have app: "hdr s # M @ X # P = A @ v # B @ X # P" using v(1) by (metis append_Cons append_assoc)
    have "?e l = link l (B @ X # P)" using linkedD [OF ll [unfolded app] v(2)] v(3) by simp
    then have "fst (link l (X # P)) = Some (tw_ptr X)" using f link_miss [OF v(4), of "X # P"] by simp
    moreover have "fst (link l P) \<noteq> Some (tw_ptr X)"
    proof
      assume "fst (link l P) = Some (tw_ptr X)"
      from link_Some [OF this] have "tw_ptr X \<in> tw_ptr ` set P" by force
      with tr show False by (auto simp: tower_rep_def)
    qed
    ultimately show "l < tw_height X" by (auto split: if_splits)
  qed
  from unlink_levels_patch [of 0 "sl_level s" s us ?e "tw_ptr X" ?d] e d hX obtain N where N:
    "unlink_levels us (tw_ptr X) 0 (sl_level s) s = Inr (s\<lparr>sl_nodes := N\<rparr>)" "shapes N = shapes (sl_nodes s)"
    "entry N = patch 0 (sl_level s) (\<lambda>l. [us ! l \<mapsto> (if fst (?e l) = Some (tw_ptr X) then (fst (?d l), snd (?e l) + (snd (?d l) - 1)) else (fst (?e l), snd (?e l) - 1))])
      (entry (sl_nodes s))" by auto
  have "linked (patch 0 (tw_height (hdr s)) (\<lambda>l. [us ! l \<mapsto> (if fst (?e l) = Some (tw_ptr X) then (fst (?d l), snd (?e l) + (snd (?d l) - 1)) else (fst (?e l), snd (?e l) - 1))])
      (entry (sl_nodes s))) (hdr s # M @ P)"
  proof (rule delete_linked [OF ll])
    show "\<forall>t \<in> set (M @ X # P). tw_height t \<le> tw_height (hdr s)" "distinct (map tw_ptr (hdr s # M @ X # P))"
      using tr by (simp_all add: tower_rep_def)
  qed (use us e d in auto)
  then have l1: "linked (entry N) (hdr s # M @ P)" by (simp add: N(3))
  let ?s1 = "s\<lparr>sl_nodes := N\<rparr>"
  have ch: "chained None (shapes N) (M @ X # P)" using hr N(2) by (simp add: heap_rep_def)
  from chained_node [OF this, of X] obtain n where n: "N (tw_ptr X) = Some n" by auto
  have nb: "sn_backward n = before None M" using ch n by (simp add: chained_append shapes_def)
  have notus: "us ! l \<noteq> tw_ptr X" if "l < sl_level s" for l
  proof -
    from us [OF that] obtain r :: u32 where "stop (hdr s # M) l (us ! l, r)" by blast
    from stop_entry(2) [OF hr that this] have "us ! l \<in> tw_ptr ` set (hdr s # M)" .
    moreover have "tw_ptr X \<notin> tw_ptr ` set (hdr s # M)" using tr by (auto simp: tower_rep_def)
    ultimately show ?thesis by metis
  qed
  have pos: "0 < tw_height X" "\<forall>t \<in> set P. 0 < tw_height t" using tr by (auto simp: tower_rep_def)
  have lX: "entry (sl_nodes ?s1) (tw_ptr X) 0 = Some (link 0 P)"
    using linkedD [of "entry (sl_nodes s)" "hdr s # M" X P 0] ll pos(1) notus [of 0] by (auto simp: N(3) patch_def)
  have cP: "chained (Some (tw_ptr X)) (shapes (sl_nodes ?s1)) P" using ch by (simp add: chained_append)
  have dP: "distinct (map tw_ptr P)" using tr by (simp add: tower_rep_def)
  from link_back_chain [OF lX pos(2) cP dP, of "before None M"] obtain N2 t where N2:
    "link_back (tw_ptr X) (before None M) ?s1 = Inr (?s1\<lparr>sl_nodes := N2, sl_tail := t\<rparr>)" "entry N2 = entry N" "chained (before None M) (shapes N2) P"
    "\<And>q. q \<notin> tw_ptr ` set P \<Longrightarrow> shapes N2 q = shapes N q" "dom N2 = dom N" "P = [] \<Longrightarrow> t = before None M" "P \<noteq> [] \<Longrightarrow> t = sl_tail s"
    by simp blast
  let ?s2 = "?s1\<lparr>sl_nodes := N2, sl_tail := t\<rparr>"
  have h2: "hdr ?s2 = hdr s" by (simp add: hdr_def)
  have hs: "\<forall>t \<in> set (M @ P). tw_height t \<le> sl_level s" "0 < sl_level s" "sl_level s \<le> SKIPLIST_MAXLEVEL" using tr by (auto simp: tower_rep_def)
  from lower_level_spec [of ?s2 "M @ P" "sl_level s"] l1 N2(2) h2 hs obtain l' where
    l': "lower_level (sl_level s) ?s2 = Inr l'" "0 < l'" "l' \<le> sl_level s" "\<forall>t \<in> set (M @ P). tw_height t \<le> l'"
      "\<And>i. l' \<le> i \<Longrightarrow> i < sl_level s \<Longrightarrow> fst (link i (M @ P)) = None" by auto
  let ?s3 = "?s2\<lparr>sl_level := l', sl_length := sl_length s - 1\<rparr>"
  have res: "slDeleteNode (tw_ptr X) us s = Inr ?s3"
    using N(1) n nb N2(1) l'(1) by (simp add: slDeleteNode_def get_node_def)
  have notP: "tw_ptr q \<notin> tw_ptr ` set P" if "q \<in> set (hdr s # M @ [X])" for q using that tr by (auto simp: tower_rep_def)
  have "linked (entry N2) (hdr ?s3 # M @ P)" unfolding N2(2) linked_def
  proof (intro allI impI)
    fix A t B i assume t: "hdr ?s3 # M @ P = A @ t # B" "i < tw_height t"
    show "entry N (tw_ptr t) i = Some (link i B)"
    proof (cases A)
      case Nil
      with t linkedD [of "entry N" "[]" "hdr s" "M @ P" i] l1 l'(3) show ?thesis by auto
    next
      case (Cons a A')
      with t have "hdr s # M @ P = (hdr s # A') @ t # B" by simp
      from linkedD [OF l1 [unfolded this] t(2)] show ?thesis .
    qed
  qed
  moreover have "chained None (shapes N2) (M @ P)"
    using ch chained_frame [of None "shapes N" M "shapes N2"] N2(3,4) notP by (simp add: chained_append)
  moreover have "shapes N2 (sl_header s) = Some (None, 0, None, SKIPLIST_MAXLEVEL)"
    using N2(4) [OF notP, of "hdr s"] N(2) hr by (simp add: heap_rep_def)
  moreover have "\<exists>d. entry N2 (sl_header s) i = Some (None, d)" if i: "l' \<le> i" "i < SKIPLIST_MAXLEVEL" for i
  proof (cases "i < sl_level s")
    case True
    with linkedD [of "entry N" "[]" "hdr s" "M @ P" i] l1 l'(5) [OF i(1)] N2(2) show ?thesis by (auto simp: prod_eq_iff)
  next
    case False
    with hr i(2) N2(2) show ?thesis by (simp add: heap_rep_def N(3) patch_def)
  qed
  ultimately have "heap_rep ?s3 (M @ P)" by (simp add: heap_rep_def)
  moreover have "tower_rep ?s3 (M @ P)" using tr l' hs by (auto simp: tower_rep_def)
  moreover have "t = before None (M @ P)" using N2(6,7) rep by (cases P) (auto simp: sl_rep_def before_def)
  ultimately have "sl_rep ?s3 (M @ P)" by (simp add: sl_rep_def)
  moreover have "dom (sl_nodes ?s3) = dom (sl_nodes s)" using N2(5) shapes_dom [OF N(2)] by simp
  moreover have "shapes N2 (tw_ptr X) = shapes (sl_nodes s) (tw_ptr X)" using N2(4) [OF notP, of X] N(2) by simp
  ultimately show ?thesis using res l'(3) by auto
qed

end
