(* ===== verification/SkiplistSpec.thy ===== *)
theory SkiplistSpec
  imports SkiplistEdit
begin

text \<open>
  The skip list as a sorted list of scores and objects (\<open>represents\<close>): insertion, deletion, deletion
  by rank and release refine the operations on that list, ranks and ranges are read off it.
\<close>

section \<open>Freeing a node\<close>

lemma free_rep:
  assumes "sl_rep s T" "x \<notin> tw_ptr ` set (hdr s # T)" "sl_nodes s x = Some n"
  shows "\<exists>s'. slFreeNode x s = Inr s' \<and> sl_rep s' T \<and> dom (sl_nodes s') = dom (sl_nodes s) - {x} \<and> sl_header s' = sl_header s \<and>
    sl_level s' = sl_level s \<and> sl_fresh s' = sl_fresh s"
proof -
  let ?s = "s\<lparr>sl_nodes := (sl_nodes s)(x := None)\<rparr>"
  have e: "entry (sl_nodes ?s) p l = entry (sl_nodes s) p l" "shapes (sl_nodes ?s) p = shapes (sl_nodes s) p" if "p \<noteq> x" for p l
    using that by (simp_all add: entry_def shapes_def)
  have ne: "tw_ptr t \<noteq> x" if "t \<in> set (hdr s # T)" for t using assms(2) that by blast
  have h: "hdr ?s = hdr s" "sl_header s \<noteq> x" using ne [of "hdr s"] by (simp_all add: hdr_def)
  have "heap_rep ?s T" unfolding heap_rep_def h
  proof (intro conjI)
    show "linked (entry (sl_nodes ?s)) (hdr s # T)"
      by (rule linked_frame [of "entry (sl_nodes s)"]) (use assms(1) e(1) ne in \<open>auto simp: sl_rep_def heap_rep_def\<close>)
    show "chained None (shapes (sl_nodes ?s)) T"
      by (rule chained_frame [of _ "shapes (sl_nodes s)"]) (use assms(1) e(2) ne in \<open>auto simp: sl_rep_def heap_rep_def\<close>)
  qed (use assms(1) e h(2) in \<open>auto simp: sl_rep_def heap_rep_def\<close>)
  moreover have "tower_rep ?s T" using assms(1) by (simp add: sl_rep_def tower_rep_def)
  ultimately have "sl_rep ?s T" using assms(1) by (simp add: sl_rep_def)
  then show ?thesis using assms(3) by (auto simp: slFreeNode_def get_node_def)
qed

section \<open>What a skip list represents\<close>

text \<open>The elements in order, every node of the heap being in use.\<close>

definition represents :: "'a :: {linorder, zero} skiplist \<Rightarrow> ('a \<times> byte list) list \<Rightarrow> bool" where
  "represents s xs \<longleftrightarrow> (\<exists>T. sl_rep s T \<and> sl_owns s T \<and> map tw_key T = xs) \<and> sorted xs \<and> (\<forall>(_, obj) \<in> set xs. length obj < 2 ^ 31)"

lemma representsE:
  assumes "represents s xs"
  obtains T where "sl_rep s T" "sl_owns s T" "xs = map tw_key T" "sorted (map tw_key T)" "\<forall>t \<in> set T. length (tw_obj t) < 2 ^ 31"
  using assms by (force simp: represents_def)

lemma insort_split: "sorted xs \<Longrightarrow> insort (k :: 'a :: linorder) xs = takeWhile (\<lambda>x. x < k) xs @ k # dropWhile (\<lambda>x. x < k) xs"
  by (induction xs) (auto simp: not_less)

lemma remove1_split: "k \<in> set xs \<Longrightarrow> sorted xs \<Longrightarrow>
    remove1 (k :: 'a :: linorder) xs = takeWhile (\<lambda>x. x < k) xs @ tl (dropWhile (\<lambda>x. x < k) xs) \<and> dropWhile (\<lambda>x. x < k) xs \<noteq> [] \<and>
    hd (dropWhile (\<lambda>x. x < k) xs) = k"
  by (induction xs) (auto simp: not_less)

lemma sorted_dropWhile: "sorted (map f T) \<Longrightarrow> t \<in> set (dropWhile (\<lambda>t. f t < (k :: 'a :: linorder)) T) \<Longrightarrow> \<not> f t < k"
  by (induction T) (auto simp: not_less split: if_splits)

text \<open>The search of a key stops in front of the first element that is not less.\<close>

lemma splits_less:
  fixes T :: "'a :: {linorder, zero} tower list"
  assumes "sl_rep s T" "sorted (map tw_key T)" "\<forall>t \<in> set T. length (tw_obj t) < 2 ^ 31" "length obj < 2 ^ 31"
  shows "splits (\<lambda>_ :: 'w :: len word. compare_key (\<lambda>c. c < 0) score obj) (sl_nodes s) acc
    (takeWhile (\<lambda>t. tw_key t < (score, obj)) T) (dropWhile (\<lambda>t. tw_key t < (score, obj)) T)"
proof (rule splits_key [of None _ _ _ "\<lambda>t. tw_key t < (score, obj)"])
  show "\<forall>t \<in> set (takeWhile (\<lambda>t. tw_key t < (score, obj)) T). tw_key t < (score, obj)" using set_takeWhileD by fast
  show "\<forall>t \<in> set (dropWhile (\<lambda>t. tw_key t < (score, obj)) T). \<not> tw_key t < (score, obj)" using sorted_dropWhile [OF assms(2)] by blast
  show "chained None (shapes (sl_nodes s)) (takeWhile (\<lambda>t. tw_key t < (score, obj)) T @ dropWhile (\<lambda>t. tw_key t < (score, obj)) T)"
    using assms(1) by (simp add: sl_rep_def heap_rep_def)
next
  fix t :: "'a tower" and n :: "'a skiplistNode" and r :: "'w word"
  assume t: "t \<in> set (takeWhile (\<lambda>t. tw_key t < (score, obj)) T @ dropWhile (\<lambda>t. tw_key t < (score, obj)) T)"
    "sn_obj n = Some (tw_obj t)" "sn_score n = tw_score t"
  then have "length (tw_obj t) < 2 ^ 31" using assms(3) by simp
  from compare_key_less(1) [OF t(2) this assms(4), of score] t(3)
  show "compare_key (\<lambda>c. c < 0) score obj n = Inr (tw_key t < (score, obj))" by simp
qed

lemma create_represents: "represents slCreate []"
  by (auto simp: represents_def sl_rep_def sl_owns_def heap_rep_def tower_rep_def slCreate_def hdr_def linked_def entry_def shapes_def
    SKIPLIST_MAXLEVEL_def before_def Cons_eq_append_conv split: if_splits)

lemma insert_represents:
  assumes "represents s xs" "length xs + 1 < 2 ^ 32" "length obj < 2 ^ 31" "slRandomLevel draws = Inr h"
  shows "\<exists>s'. slInsert score obj draws s = Inr s' \<and> represents s' (insort (score, obj) xs)"
proof -
  from assms(1) obtain T where T: "sl_rep s T" "sl_owns s T" "xs = map tw_key T" "sorted (map tw_key T)"
    "\<forall>t \<in> set T. length (tw_obj t) < 2 ^ 31" by (rule representsE) blast
  let ?M = "takeWhile (\<lambda>t. tw_key t < (score, obj)) T" and ?P = "dropWhile (\<lambda>t. tw_key t < (score, obj)) T"
  let ?X = "\<lparr>tw_ptr = sl_fresh s, tw_height = h, tw_score = score, tw_obj = obj\<rparr>"
  have "sl_rep s (?M @ ?P)" "length (?M @ ?P) + 1 < 2 ^ 32" using T(1,3) assms(2) by simp_all
  from slInsert_rep [OF this assms(4) splits_less [OF T(1,4,5) assms(3)]] obtain s' where s': "slInsert score obj draws s = Inr s'"
    "sl_rep s' (?M @ ?X # ?P)" "dom (sl_nodes s') = insert (sl_fresh s) (dom (sl_nodes s))" "sl_header s' = sl_header s" by blast
  have k: "map tw_key (?M @ ?X # ?P) = insort (score, obj) xs"
    using T(4) unfolding T(3) by (simp add: insort_split takeWhile_map dropWhile_map comp_def)
  have "set (?M @ ?X # ?P) = insert ?X (set (?M @ ?P))" by (simp only: set_append list.simps(15) Un_insert_right)
  then have "set (?M @ ?X # ?P) = insert ?X (set T)" by (simp only: takeWhile_dropWhile_id)
  then have "sl_owns s' (?M @ ?X # ?P)" using T(2) s'(3,4) unfolding sl_owns_def set_map by (simp only: image_insert list.simps(15) hdr_simps skiplist.simps tower.simps insert_commute)
  moreover have "sorted (insort (score, obj) xs)" using T(3,4) by (simp add: sorted_insort)
  moreover have "\<forall>(_, ob) \<in> set (insort (score, obj) xs). length ob < 2 ^ 31" using T(3,5) assms(3) by (auto simp: set_insort_key)
  ultimately have "represents s' (insort (score, obj) xs)" using s'(2) k unfolding represents_def by blast
  with s'(1) show ?thesis by blast
qed

lemma delete_free:
  assumes "sl_rep s (M @ X # P)" "sl_owns s (M @ X # P)" "\<And>l. l < sl_level s \<Longrightarrow> \<exists>r :: u32. stop (hdr s # M) l (us ! l, r)"
  shows "\<exists>s1 s2 n. slDeleteNode (tw_ptr X) us s = Inr s1 \<and> get_node s1 (tw_ptr X) = Inr n \<and> sn_obj n = Some (tw_obj X) \<and> slFreeNode (tw_ptr X) s1 = Inr s2 \<and>
    sl_rep s2 (M @ P) \<and> sl_owns s2 (M @ P) \<and> sl_header s2 = sl_header s \<and> sl_level s2 \<le> sl_level s"
proof -
  from slDeleteNode_rep [OF assms(1,3)] obtain s1 where s1: "slDeleteNode (tw_ptr X) us s = Inr s1" "sl_rep s1 (M @ P)"
    "dom (sl_nodes s1) = dom (sl_nodes s)" "shapes (sl_nodes s1) (tw_ptr X) = shapes (sl_nodes s) (tw_ptr X)" "sl_header s1 = sl_header s"
    "sl_level s1 \<le> sl_level s" by blast
  have "chained None (shapes (sl_nodes s)) (M @ X # P)" using assms(1) by (simp add: sl_rep_def heap_rep_def)
  from chained_node [OF this, of X] have "\<exists>n. sl_nodes s (tw_ptr X) = Some n \<and> sn_obj n = Some (tw_obj X)" by auto
  with s1(4) obtain n where n: "sl_nodes s1 (tw_ptr X) = Some n" "sn_obj n = Some (tw_obj X)"
    by (cases "sl_nodes s1 (tw_ptr X)") (auto simp: shapes_def)
  have d: "distinct (map tw_ptr (hdr s # M @ X # P))" using assms(1) by (simp add: sl_rep_def tower_rep_def)
  then have "tw_ptr X \<notin> tw_ptr ` set (hdr s1 # M @ P)" using s1(5) by auto
  from free_rep [OF s1(2) this n(1)] obtain s2 where s2: "slFreeNode (tw_ptr X) s1 = Inr s2" "sl_rep s2 (M @ P)"
    "dom (sl_nodes s2) = dom (sl_nodes s1) - {tw_ptr X}" "sl_header s2 = sl_header s1" "sl_level s2 = sl_level s1" by blast
  have "dom (sl_nodes s2) = set (map tw_ptr (hdr s2 # M @ P))"
    using d assms(2) s2(3,4) s1(3,5) unfolding sl_owns_def by auto
  then have "sl_owns s2 (M @ P)" unfolding sl_owns_def .
  then show ?thesis using s1 n s2 by (simp add: get_node_def)
qed

lemma link_first: "\<forall>t \<in> set P. 0 < tw_height t \<Longrightarrow> fst (link 0 P) = (if P = [] then None else Some (tw_ptr (hd P)))"
  by (cases P) auto

lemma search_forward:
  assumes "sl_rep s (M @ P)" "stop (hdr s # M) 0 ur"
  shows "\<exists>d. get_level s (fst ur) 0 = Inr (if P = [] then None else Some (tw_ptr (hd P)), d)" "snd ur = of_nat (length M)"
proof -
  have hr: "heap_rep s (M @ P)" and tr: "tower_rep s (M @ P)" using assms(1) by (simp_all add: sl_rep_def)
  have pos: "\<forall>t \<in> set M. 0 < tw_height t" "\<forall>t \<in> set P. 0 < tw_height t" "0 < sl_level s" using tr by (auto simp: tower_rep_def)
  show "snd ur = of_nat (length M)" using stop_zero(1) [OF assms(2) pos(1)] .
  obtain Y u where Y: "hdr s # M = Y @ [u]" by (metis list.distinct(1) rev_exhaust)
  have u: "fst ur = tw_ptr u" using stop_zero(2) [OF assms(2) pos(1)] unfolding Y by simp
  have "u \<in> set (hdr s # M)" unfolding Y by simp
  with pos have "0 < tw_height u" by auto
  moreover have "hdr s # M @ P = Y @ u # P" using Y by (metis append.assoc append_Cons append_Nil)
  with hr have "linked (entry (sl_nodes s)) (Y @ u # P)" by (simp add: heap_rep_def)
  ultimately have "get_level s (fst ur) 0 = Inr (link 0 P)" unfolding u by (intro linked_level)
  with link_first [OF pos(2)] show "\<exists>d. get_level s (fst ur) 0 = Inr (if P = [] then None else Some (tw_ptr (hd P)), d)"
    by (cases "link 0 P") simp
qed

lemma represents_remove:
  assumes "represents s xs" "\<exists>T. sl_rep s' T \<and> sl_owns s' T \<and> map tw_key T = remove1 k xs"
  shows "represents s' (remove1 k xs)"
  using assms set_remove1_subset [of k xs] by (auto simp: represents_def sorted_remove1)

lemma delete_represents:
  assumes "represents s xs" "length obj < 2 ^ 31"
  shows "\<exists>s'. slDelete score obj s = Inr (s', (score, obj) \<in> set xs) \<and> represents s' (remove1 (score, obj) xs)"
proof -
  from assms(1) obtain T where T: "sl_rep s T" "sl_owns s T" "xs = map tw_key T" "sorted (map tw_key T)"
    "\<forall>t \<in> set T. length (tw_obj t) < 2 ^ 31" by (rule representsE) blast
  let ?k = "(score, obj)"
  define M where "M = takeWhile (\<lambda>t. tw_key t < ?k) T"
  define P where "P = dropWhile (\<lambda>t. tw_key t < ?k) T"
  have TMP: "T = M @ P" by (simp add: M_def P_def)
  have hr: "heap_rep s (M @ P)" and tr: "tower_rep s (M @ P)" using T(1) TMP by (simp_all add: sl_rep_def)
  have kM: "map tw_key M = takeWhile (\<lambda>x. x < ?k) xs" and kP: "map tw_key P = dropWhile (\<lambda>x. x < ?k) xs"
    unfolding T(3) M_def P_def by (simp_all add: takeWhile_map dropWhile_map comp_def)
  have sx: "sorted xs" using T(3,4) by simp
  from sl_search [OF hr tr splits_less [OF T(1,4,5) assms(2), where score = score, folded M_def P_def]] obtain us where us:
    "search (\<lambda>_ :: u32. compare_key (\<lambda>c. c < 0) score obj) s (sl_level s) (sl_header s) 0 = Inr us" "length us = sl_level s"
    "\<And>l. l < sl_level s \<Longrightarrow> stop (hdr s # M) l (us ! l)" by blast
  have lv: "0 < sl_level s" using tr by (simp add: tower_rep_def)
  from search_forward(1) [OF T(1) [unfolded TMP] us(3) [OF lv]] obtain d where
    d: "get_level s (fst (us ! 0)) 0 = Inr (if P = [] then None else Some (tw_ptr (hd P)), d)" by blast
  show ?thesis
  proof (cases P)
    case Nil
    with kP have "dropWhile (\<lambda>x. x < ?k) xs = []" by simp
    then have "?k \<notin> set xs" by (auto simp: dropWhile_eq_Nil_conv)
    moreover have "slDelete score obj s = Inr (s, False)" using us(1) d Nil by (simp add: slDelete_def)
    ultimately show ?thesis using assms(1) by (simp add: remove1_idem)
  next
    case (Cons X P')
    have ch: "chained None (shapes (sl_nodes s)) (M @ P)" using hr by (simp add: heap_rep_def)
    from chained_node [OF ch, of X] Cons obtain n where n: "sl_nodes s (tw_ptr X) = Some n" "sn_obj n = Some (tw_obj X)" "sn_score n = tw_score X" by auto
    have lx: "length (tw_obj X) < 2 ^ 31" using T(5) TMP Cons by simp
    have eq: "equalslObj (tw_obj X) obj \<longleftrightarrow> tw_obj X = obj" by (rule equalslObj_iff [OF lx assms(2)])
    have kX: "?k \<in> set xs \<longleftrightarrow> tw_key X = ?k"
    proof
      assume "?k \<in> set xs"
      from remove1_split [OF this sx] show "tw_key X = ?k" unfolding kP [symmetric] Cons by simp
    next
      assume "tw_key X = ?k"
      moreover have "X \<in> set T" using TMP Cons by simp
      ultimately show "?k \<in> set xs" unfolding T(3) by force
    qed
    show ?thesis
    proof (cases "?k \<in> set xs")
      case True
      have us': "\<exists>r :: u32. stop (hdr s # M) l (map fst us ! l, r)" if "l < sl_level s" for l
        using us(3) [OF that] us(2) that by (intro exI [of _ "snd (us ! l)"]) simp
      from delete_free [OF T(1) [unfolded TMP Cons] T(2) [unfolded TMP Cons] us'] obtain s1 s2 where
        s2: "slDeleteNode (tw_ptr X) (map fst us) s = Inr s1" "slFreeNode (tw_ptr X) s1 = Inr s2" "sl_rep s2 (M @ P')" "sl_owns s2 (M @ P')" by blast
      have "map tw_key P' = tl (dropWhile (\<lambda>x. x < ?k) xs)" unfolding kP [symmetric] Cons by simp
      then have "map tw_key (M @ P') = remove1 ?k xs" using conjunct1 [OF remove1_split [OF True sx]] kM by simp
      then have "represents s2 (remove1 ?k xs)"
        using s2(3,4) by (intro represents_remove [OF assms(1)] exI [of _ "M @ P'"] conjI)
      moreover have "slDelete score obj s = Inr (s2, True)"
        using us(1) d Cons n kX True eq s2(1,2) by (simp add: slDelete_def get_node_def)
      ultimately show ?thesis using True by simp
    next
      case False
      then have "slDelete score obj s = Inr (s, False)"
        using us(1) d Cons n kX eq by (auto simp: slDelete_def get_node_def)
      with False assms(1) show ?thesis by (simp add: remove1_idem)
    qed
  qed
qed

section \<open>Deletion by rank\<close>

lemma delete_ranks_rep:
  assumes "sl_rep s (M @ P)" "sl_owns s (M @ P)" "\<And>l. l < sl_level s \<Longrightarrow> \<exists>r :: u32. stop (hdr s # M) l (us ! l, r)" "length P < k"
    "t + length P < 2 ^ 64"
  shows "\<exists>s'. delete_ranks k us (of_nat t) end (if P = [] then None else Some (tw_ptr (hd P))) s =
      Inr (s', map tw_obj (take (unat end + 1 - t) P)) \<and> sl_rep s' (M @ drop (unat end + 1 - t) P) \<and> sl_owns s' (M @ drop (unat end + 1 - t) P)"
  using assms
proof (induction k arbitrary: s P t)
  case (Suc k)
  show ?case
  proof (cases P)
    case Nil
    with Suc.prems(1,2) show ?thesis by simp
  next
    case (Cons X P')
    have t64: "unat (of_nat t :: u64) = t" using Suc.prems(5) by (simp add: unat_of_nat take_bit_nat_eq_self)
    have "unat end < 2 ^ 32" using unsigned_less [where ?'a = nat, of "end"] by simp
    then have "unat (ucast end :: u64) = unat end" by (simp add: unsigned_ucast_eq take_bit_nat_eq_self)
    then have le: "(of_nat t :: u64) \<le> ucast end \<longleftrightarrow> t \<le> unat end" by (simp add: word_le_nat_alt t64)
    show ?thesis
    proof (cases "t \<le> unat end")
      case False
      with le Cons Suc.prems(1,2) show ?thesis by simp
    next
      case True
      have pos: "0 < tw_height X" "\<forall>t \<in> set P'. 0 < tw_height t" using Suc.prems(1) Cons by (auto simp: sl_rep_def tower_rep_def)
      have "linked (entry (sl_nodes s)) ((hdr s # M) @ X # P')" using Suc.prems(1) Cons by (simp add: sl_rep_def heap_rep_def)
      from linked_level [OF this pos(1)] have g: "get_level s (tw_ptr X) 0 = Inr (link 0 P')" .
      from delete_free [OF Suc.prems(1) [unfolded Cons] Suc.prems(2) [unfolded Cons] Suc.prems(3)] obtain s1 s2 n where
        s2: "slDeleteNode (tw_ptr X) us s = Inr s1" "get_node s1 (tw_ptr X) = Inr n" "sn_obj n = Some (tw_obj X)" "slFreeNode (tw_ptr X) s1 = Inr s2"
          "sl_rep s2 (M @ P')" "sl_owns s2 (M @ P')" "sl_header s2 = sl_header s" "sl_level s2 \<le> sl_level s" by blast
      have us2: "\<exists>r :: u32. stop (hdr s2 # M) l (us ! l, r)" if "l < sl_level s2" for l
      proof -
        from Suc.prems(3) [of l] that s2(8) obtain r :: u32 where "stop (hdr s # M) l (us ! l, r)" by auto
        from stop_hdr [OF this, of "hdr s2"] s2(7) that show ?thesis by auto
      qed
      have "length P' < k" "Suc t + length P' < 2 ^ 64" using Suc.prems(4,5) Cons by simp_all
      from Suc.IH [OF s2(5,6) us2 this] obtain s' where
        s': "delete_ranks k us (of_nat (Suc t)) end (if P' = [] then None else Some (tw_ptr (hd P'))) s2 = Inr (s', map tw_obj (take (unat end + 1 - Suc t) P'))"
          "sl_rep s' (M @ drop (unat end + 1 - Suc t) P')" "sl_owns s' (M @ drop (unat end + 1 - Suc t) P')" by blast
      have e: "unat end + 1 - t = Suc (unat end + 1 - Suc t)" using True by simp
      have "of_nat t + 1 = (of_nat (Suc t) :: u64)" by simp
      then have "delete_ranks (Suc k) us (of_nat t) end (Some (tw_ptr X)) s = Inr (s', tw_obj X # map tw_obj (take (unat end + 1 - Suc t) P'))"
        using le True g s2(1-4) s'(1) link_first [OF pos(2)] by (simp add: case_prod_unfold del: of_nat_Suc)
      then show ?thesis using s'(2,3) unfolding Cons e by simp
    qed
  qed
qed simp

lemma splits_position:
  assumes "i = length M \<or> i > length M \<and> P = []" "length (M @ P) < 2 ^ 64"
    "\<And>k n. 0 < k \<Longrightarrow> k \<le> length (M @ P) \<Longrightarrow> go (of_nat k :: u64) n = Inr (k \<le> i)"
  shows "splits go N (0 :: u64) M P"
  unfolding splits_def using assms(1) assms(3) by (auto simp del: of_nat_Suc of_nat_add simp: of_nat_Suc [symmetric])

lemma delete_by_rank_represents:
  assumes "represents s xs" "start \<le> end"
  shows "\<exists>s'. delete_by_rank start end s = Inr (s', map snd (take (unat end + 1 - max 1 (unat start)) (drop (unat start - 1) xs))) \<and>
    represents s' (take (unat start - 1) xs @ drop (unat end) xs)"
proof -
  from assms(1) obtain T where T: "sl_rep s T" "sl_owns s T" "xs = map tw_key T" "sorted (map tw_key T)" by (rule representsE) blast
  define M where "M = take (unat start - 1) T"
  define P where "P = drop (unat start - 1) T"
  have TMP: "T = M @ P" by (simp add: M_def P_def)
  have hr: "heap_rep s (M @ P)" and tr: "tower_rep s (M @ P)" using T(1) TMP by (simp_all add: sl_rep_def)
  have len: "length (M @ P) < 2 ^ 32" "sl_length s = of_nat (length (M @ P))" "0 < sl_level s" using tr by (auto simp: tower_rep_def)
  have s32: "unat start < 2 ^ 32" "unat end < 2 ^ 32" using unsigned_less [where ?'a = nat, of "start"] unsigned_less [where ?'a = nat, of "end"] by simp_all
  then have us: "unat (ucast start :: u64) = unat start" by (simp add: unsigned_ucast_eq take_bit_nat_eq_self)
  let ?go = "\<lambda>traversed (_ :: 'a skiplistNode). Inr (traversed < (ucast start :: u64))"
  have "splits ?go (sl_nodes s) 0 M P"
  proof (rule splits_position [of "unat start - 1"])
    show "unat start - 1 = length M \<or> unat start - 1 > length M \<and> P = []" by (auto simp: M_def P_def)
    show "length (M @ P) < 2 ^ 64" using len(1) by simp
  next
    fix k and n :: "'a skiplistNode" assume "0 < k" "k \<le> length (M @ P)"
    then have "unat (of_nat k :: u64) = k" using len(1) by (simp add: unat_of_nat take_bit_nat_eq_self)
    then show "?go (of_nat k) n = Inr (k \<le> unat start - 1)" using \<open>0 < k\<close> by (auto simp: word_less_nat_alt us)
  qed
  from sl_search [OF hr tr this] obtain ps where ps: "search ?go s (sl_level s) (sl_header s) 0 = Inr ps" "length ps = sl_level s"
    "\<And>l. l < sl_level s \<Longrightarrow> stop (hdr s # M) l (ps ! l)" by blast
  from search_forward [OF T(1) [unfolded TMP] ps(3) [OF len(3)]] obtain d where
    d: "get_level s (fst (ps ! 0)) 0 = Inr (if P = [] then None else Some (tw_ptr (hd P)), d)" "snd (ps ! 0) = of_nat (length M)" by blast
  have ps': "\<exists>r :: u32. stop (hdr s # M) l (map fst ps ! l, r)" if "l < sl_level s" for l
  proof -
    from ps(3) [OF that] obtain A v B where "hdr s # M = A @ v # B" "l < tw_height v" "\<forall>b \<in> set B. tw_height b \<le> l" "fst (ps ! l) = tw_ptr v"
      by (auto simp: stop_def)
    then have "stop (hdr s # M) l (fst (ps ! l), of_nat (length A) :: u32)" unfolding stop_def by metis
    then show ?thesis using that ps(2) by auto
  qed
  have "unat (of_nat (length (M @ P)) :: u64) = length (M @ P)" using len(1) by (simp add: unat_of_nat take_bit_nat_eq_self del: of_nat_add length_append)
  then have k: "length P < Suc (unat (sl_length s))" unfolding len(2) by simp
  have "Suc (length M) + length P < 2 ^ 64" using len(1) by simp
  from delete_ranks_rep [OF T(1,2) [unfolded TMP] ps' k this, of "end"] obtain s' where
    s': "delete_ranks (Suc (unat (sl_length s))) (map fst ps) (of_nat (Suc (length M))) end (if P = [] then None else Some (tw_ptr (hd P))) s =
        Inr (s', map tw_obj (take (unat end + 1 - Suc (length M)) P))"
      "sl_rep s' (M @ drop (unat end + 1 - Suc (length M)) P)" "sl_owns s' (M @ drop (unat end + 1 - Suc (length M)) P)" by blast
  have "of_nat (Suc (length M)) = snd (ps ! 0) + 1" using d(2) by simp
  then have res: "delete_by_rank start end s = Inr (s', map tw_obj (take (unat end + 1 - Suc (length M)) P))"
    using leD [OF assms(2)] ps(1) d(1) s'(1) by (simp add: delete_by_rank_def slDeleteByRank_def del: of_nat_Suc delete_ranks.simps)
  have "unat start \<le> unat end" using assms(2) by (simp add: word_le_nat_alt)
  then have "drop (unat end + 1 - Suc (length M)) P = drop (unat end) T"
    "take (unat end + 1 - Suc (length M)) P = take (unat end + 1 - max 1 (unat start)) (drop (unat start - 1) T)"
    by (cases "unat start = 0"; cases "unat start - 1 \<le> length T"; auto simp: M_def P_def max_def)+
  then have r: "M @ drop (unat end + 1 - Suc (length M)) P = take (unat start - 1) T @ drop (unat end) T"
    "map tw_obj (take (unat end + 1 - Suc (length M)) P) = map snd (take (unat end + 1 - max 1 (unat start)) (drop (unat start - 1) xs))"
    by (simp_all add: M_def T(3) take_map drop_map comp_def)
  have "sorted (take (unat start - 1) xs @ drop (unat end) xs)"
  proof -
    have "sorted (take (unat end) xs @ drop (unat end) xs)" using T(3,4) by simp
    then have "sorted (take (unat start - 1) (take (unat end) xs) @ drop (unat end) xs)"
      unfolding sorted_append by (blast intro: sorted_wrt_take dest: in_set_takeD)
    moreover have "min (unat start - 1) (unat end) = unat start - 1" using \<open>unat start \<le> unat end\<close> by simp
    ultimately show ?thesis by simp
  qed
  moreover have "map tw_key (take (unat start - 1) T @ drop (unat end) T) = take (unat start - 1) xs @ drop (unat end) xs"
    by (simp add: T(3) take_map drop_map)
  ultimately have "represents s' (take (unat start - 1) xs @ drop (unat end) xs)"
    using s'(2,3) r(1) assms(1) set_take_subset [of "unat start - 1" xs] set_drop_subset [of "unat end" xs]
    unfolding represents_def by (metis (no_types, lifting) Un_iff set_append subset_iff)
  then show ?thesis using res r(2) by auto
qed

section \<open>Ranks\<close>

lemma walk_rest:
  fixes acc :: "u64"
  assumes "linked (entry (sl_nodes s)) (u # M @ P)" "Suc i \<le> tw_height u" "\<forall>t \<in> set (M @ P). 0 < tw_height t"
    "splits go (sl_nodes s) acc M P" "length (M @ P) < 2 ^ 32" "sl_length s = of_nat (length T)" "length M \<le> length T" "length T < 2 ^ 32"
  obtains A v B where "u # M = A @ v # B" "i < tw_height v" "walk (Suc (unat (sl_length s))) go s i (tw_ptr u) acc = Inr (tw_ptr v, acc + of_nat (length A))"
    "linked (entry (sl_nodes s)) (v # B @ P)" "splits go (sl_nodes s) (acc + of_nat (length A)) B P" "length M = length A + length B"
    "set B \<subseteq> set M" "i = 0 \<Longrightarrow> B = []" "last (v # B) = last (u # M)"
proof -
  have "unat (of_nat (length T) :: u64) = length T" using assms(8) by (simp add: unat_of_nat take_bit_nat_eq_self)
  then have k: "length M < Suc (unat (sl_length s))" using assms(6,7) by simp
  from walk_stops [OF assms(1) _ assms(3,4) k assms(5), of i] assms(2) obtain A v B where v: "u # M = A @ v # B" "i < tw_height v"
    "\<forall>t \<in> set B. tw_height t \<le> i" "walk (Suc (unat (sl_length s))) go s i (tw_ptr u) acc = Inr (tw_ptr v, acc + of_nat (length A))"
    using Suc_le_lessD by blast
  have app: "u # M @ P = A @ v # B @ P" using v(1) by (metis append_Cons append_assoc)
  have l: "linked (entry (sl_nodes s)) (v # B @ P)" using assms(1) unfolding app by (rule linked_suffix)
  have sub: "set B \<subseteq> set M" using v(1) by (cases A) auto
  have sp: "splits go (sl_nodes s) (acc + of_nat (length A)) B P"
  proof (cases A)
    case Nil
    with v(1) assms(4) show ?thesis by simp
  next
    case (Cons a C)
    with v(1) splits_advance [of go _ acc C v B P] assms(4) show ?thesis by simp
  qed
  have len: "length M = length A + length B" using arg_cong [OF v(1), of length] by simp
  have z: "B = []" if "i = 0"
  proof (rule ccontr)
    assume "B \<noteq> []"
    then have "hd B \<in> set B" by simp
    with v(3) assms(3) sub that show False by force
  qed
  have "last (v # B) = last (u # M)" unfolding v(1) by simp
  with that v l sp len sub z show thesis by blast
qed

lemma of_nat_u64_eq: "a < 2 ^ 32 \<Longrightarrow> b < 2 ^ 32 \<Longrightarrow> (of_nat a :: u64) = of_nat b \<longleftrightarrow> a = b"
  by (auto simp: word_unat_eq_iff unat_of_nat take_bit_nat_eq_self)

lemma node_search_last:
  assumes "linked (entry (sl_nodes s)) (u # M @ P)" "i \<le> tw_height u" "0 < i" "\<forall>t \<in> set (M @ P). 0 < tw_height t"
    "splits (\<lambda>t (_ :: 'a skiplistNode). Inr (t \<le> rank)) (sl_nodes s) acc M P" "length (M @ P) < 2 ^ 32"
    "sl_length s = of_nat (length T)" "length M \<le> length T" "length T < 2 ^ 32" "rank = acc + of_nat (length M)"
  shows "node_search rank s i (tw_ptr u) acc = Inr (Some (tw_ptr (last (u # M))))"
  using assms
proof (induction i arbitrary: u M acc)
  case (Suc i)
  from walk_rest [OF Suc.prems(1,2,4-9)] obtain A v B where v: "u # M = A @ v # B" "i < tw_height v"
    "walk (Suc (unat (sl_length s))) (\<lambda>t _. Inr (t \<le> rank)) s i (tw_ptr u) acc = Inr (tw_ptr v, acc + of_nat (length A))"
    "linked (entry (sl_nodes s)) (v # B @ P)" "splits (\<lambda>t (_ :: 'a skiplistNode). Inr (t \<le> rank)) (sl_nodes s) (acc + of_nat (length A)) B P"
    "length M = length A + length B" "set B \<subseteq> set M" "i = 0 \<Longrightarrow> B = []" "last (v # B) = last (u # M)" by blast
  have eq: "acc + of_nat (length A) = rank \<longleftrightarrow> B = []"
    using of_nat_u64_eq [of "length A" "length M"] Suc.prems(6,10) v(6) by simp
  show ?case
  proof (cases "B = []")
    case True
    with v(3,9) eq show ?thesis by simp
  next
    case False
    with v(8) have "0 < i" by auto
    moreover have "\<forall>t \<in> set (B @ P). 0 < tw_height t" using v(7) Suc.prems(4) by auto
    ultimately have "node_search rank s i (tw_ptr v) (acc + of_nat (length A)) = Inr (Some (tw_ptr (last (v # B))))"
      using v(2,6) Suc.prems(6-10) by (intro Suc.IH [OF v(4) _ _ _ v(5)]) simp_all
    with v(3,9) eq False show ?thesis by simp
  qed
qed simp

lemma node_by_rank_represents:
  assumes "sl_rep s T" "0 < unat rank" "unat rank \<le> length T"
  shows "slGetNodeByRank rank s = Inr (Some (tw_ptr (T ! (unat rank - 1))))"
proof -
  define M where "M = take (unat rank) T"
  define P where "P = drop (unat rank) T"
  have TMP: "T = M @ P" by (simp add: M_def P_def)
  have hr: "heap_rep s (M @ P)" and tr: "tower_rep s (M @ P)" using assms(1) TMP by (simp_all add: sl_rep_def)
  have len: "length (M @ P) < 2 ^ 32" "sl_length s = of_nat (length T)" "0 < sl_level s" "\<forall>t \<in> set (M @ P). 0 < tw_height t" "length T < 2 ^ 32"
    using tr TMP by (auto simp: tower_rep_def)
  have lM: "length M = unat rank" using assms(3) by (simp add: M_def)
  have "splits (\<lambda>t (_ :: 'a skiplistNode). Inr (t \<le> rank)) (sl_nodes s) 0 M P"
  proof (rule splits_position [of "unat rank"])
    fix k and n :: "'a skiplistNode" assume "0 < k" "k \<le> length (M @ P)"
    then have "unat (of_nat k :: u64) = k" using len(1) by (simp add: unat_of_nat take_bit_nat_eq_self)
    then show "(Inr (of_nat k \<le> rank) :: bool res) = Inr (k \<le> unat rank)" by (simp add: word_le_nat_alt)
  qed (use lM len(1) in simp_all)
  moreover have "linked (entry (sl_nodes s)) (hdr s # M @ P)" using hr by (simp add: heap_rep_def)
  moreover have "rank = 0 + of_nat (length M)" using lM by simp
  moreover have "sl_level s \<le> tw_height (hdr s)" "length M \<le> length T" using lM assms(3) by simp_all
  ultimately have "node_search rank s (sl_level s) (tw_ptr (hdr s)) 0 = Inr (Some (tw_ptr (last (hdr s # M))))"
    using len by (intro node_search_last [where P = P and T = T])
  moreover have "last (hdr s # M) = T ! (unat rank - 1)"
    using assms(2,3) lM by (simp add: last_conv_nth M_def) (auto simp: M_def)
  moreover have "\<not> (rank = 0 \<or> rank > sl_length s)"
  proof -
    have "unat (of_nat (length T) :: u64) = length T" using len(5) by (simp add: unat_of_nat take_bit_nat_eq_self)
    moreover have "rank \<noteq> 0" using assms(2) by (metis less_irrefl unat_0)
    ultimately show ?thesis using assms(3) by (simp add: word_less_nat_alt len(2))
  qed
  ultimately show ?thesis by (simp add: slGetNodeByRank_def)
qed

definition bears :: "'a skiplist \<Rightarrow> byte list \<Rightarrow> ptr \<Rightarrow> bool" where
  "bears s obj p \<longleftrightarrow> (\<exists>n o'. sl_nodes s p = Some n \<and> sn_obj n = Some o' \<and> equalslObj o' obj)"

lemma last_same:
  assumes "f v = f (last (v # B))" "distinct (map f (v # B))"
  shows "B = []"
proof (rule ccontr)
  assume "B \<noteq> []"
  then have "f (last B) \<in> f ` set B" by simp
  with \<open>B \<noteq> []\<close> assms show False by simp
qed

lemma rank_search_spec:
  assumes "linked (entry (sl_nodes s)) (u # M @ P)" "i \<le> tw_height u" "0 < i" "\<forall>t \<in> set (M @ P). 0 < tw_height t"
    "splits (\<lambda>_ :: u64. compare_key (\<lambda>c. c \<le> 0) score obj) (sl_nodes s) acc M P" "length (M @ P) < 2 ^ 32"
    "sl_length s = of_nat (length T)" "length M \<le> length T" "length T < 2 ^ 32"
    "\<And>t. t \<in> set (u # M) \<Longrightarrow> bears s obj (tw_ptr t) \<Longrightarrow> tw_ptr t = tw_ptr (last (u # M))" "distinct (map tw_ptr (u # M))"
  shows "rank_search score obj s i (tw_ptr u) acc = Inr (if bears s obj (tw_ptr (last (u # M))) then acc + of_nat (length M) else 0)"
  using assms
proof (induction i arbitrary: u M acc)
  case (Suc i)
  from walk_rest [OF Suc.prems(1,2,4-9)] obtain A v B where v: "u # M = A @ v # B" "i < tw_height v"
    "walk (Suc (unat (sl_length s))) (\<lambda>_. compare_key (\<lambda>c. c \<le> 0) score obj) s i (tw_ptr u) acc = Inr (tw_ptr v, acc + of_nat (length A))"
    "linked (entry (sl_nodes s)) (v # B @ P)" "splits (\<lambda>_ :: u64. compare_key (\<lambda>c. c \<le> 0) score obj) (sl_nodes s) (acc + of_nat (length A)) B P"
    "length M = length A + length B" "set B \<subseteq> set M" "i = 0 \<Longrightarrow> B = []" "last (v # B) = last (u # M)" by blast
  have "linked (entry (sl_nodes s)) ([] @ v # (B @ P))" using v(4) by simp
  from linkedD [OF this v(2)] obtain n where n: "sl_nodes s (tw_ptr v) = Some n" using entry_node by blast
  have step: "rank_search score obj s (Suc i) (tw_ptr u) acc =
      (if bears s obj (tw_ptr v) then Inr (acc + of_nat (length A)) else rank_search score obj s i (tw_ptr v) (acc + of_nat (length A)))"
    using v(3) n by (cases "sn_obj n") (simp_all add: bears_def get_node_def)
  have vin: "v \<in> set (u # M)" "set (v # B) \<subseteq> set (u # M)" unfolding v(1) by auto
  have dB: "distinct (map tw_ptr (v # B))" using Suc.prems(11) unfolding v(1) by simp
  show ?case
  proof (cases "bears s obj (tw_ptr v)")
    case True
    with Suc.prems(10) [OF vin(1)] v(9) have "tw_ptr v = tw_ptr (last (v # B))" by simp
    from last_same [OF this dB] have "B = []" .
    with True step v(6,9) show ?thesis by simp
  next
    case False
    show ?thesis
    proof (cases "B = []")
      case True
      have "rank_search score obj s i (tw_ptr v) (acc + of_nat (length A)) = Inr 0"
      proof (cases "i = 0")
        case nz: False
        have "rank_search score obj s i (tw_ptr v) (acc + of_nat (length A)) =
            Inr (if bears s obj (tw_ptr (last (v # B))) then acc + of_nat (length A) + of_nat (length B) else 0)"
          using v(2,6,7) nz Suc.prems(4,6-10) vin(2) dB True by (intro Suc.IH [OF v(4) _ _ _ v(5)]) simp_all
        with False True show ?thesis by simp
      qed simp
      with step False True v(9) show ?thesis by simp
    next
      case nB: False
      with v(8) have "0 < i" by auto
      moreover have "\<forall>t \<in> set (B @ P). 0 < tw_height t" using v(7) Suc.prems(4) by auto
      moreover have "tw_ptr t = tw_ptr (last (v # B))" if "t \<in> set (v # B)" "bears s obj (tw_ptr t)" for t
        using Suc.prems(10) [OF _ that(2)] that(1) vin(2) unfolding v(9) by blast
      ultimately have "rank_search score obj s i (tw_ptr v) (acc + of_nat (length A)) =
          Inr (if bears s obj (tw_ptr (last (v # B))) then acc + of_nat (length A) + of_nat (length B) else 0)"
        using v(2,6) Suc.prems(6-9) dB by (intro Suc.IH [OF v(4) _ _ _ v(5)]) simp_all
      then show ?thesis unfolding step v(9) [symmetric] v(6) using False by (simp add: ac_simps)
    qed
  qed
qed simp

lemma takeWhile_le: "sorted xs \<Longrightarrow> distinct xs \<Longrightarrow> j < length xs \<Longrightarrow> takeWhile (\<lambda>x. x \<le> xs ! j) xs = take (Suc j) (xs :: 'a :: linorder list)"
proof (rule takeWhile_eq_take_P_nth)
  fix i assume s: "sorted xs" "distinct xs" "j < length xs"
  {
    assume "i < Suc j" "i < length xs"
    then show "xs ! i \<le> xs ! j" using s by (simp add: sorted_nth_mono)
  next
    assume "Suc j < length xs"
    then have "xs ! j \<le> xs ! Suc j" "xs ! j \<noteq> xs ! Suc j" using s by (simp_all add: sorted_nth_mono nth_eq_iff_index_eq)
    then show "\<not> xs ! Suc j \<le> xs ! j" by simp
  }
qed

lemma splits_le:
  fixes T :: "'a :: {linorder, zero} tower list"
  assumes "sl_rep s T" "sorted (map tw_key T)" "\<forall>t \<in> set T. length (tw_obj t) < 2 ^ 31" "length obj < 2 ^ 31"
  shows "splits (\<lambda>_ :: 'w :: len word. compare_key (\<lambda>c. c \<le> 0) score obj) (sl_nodes s) acc
    (takeWhile (\<lambda>t. tw_key t \<le> (score, obj)) T) (dropWhile (\<lambda>t. tw_key t \<le> (score, obj)) T)"
proof (rule splits_key [of None _ _ _ "\<lambda>t. tw_key t \<le> (score, obj)"])
  show "\<forall>t \<in> set (takeWhile (\<lambda>t. tw_key t \<le> (score, obj)) T). tw_key t \<le> (score, obj)" using set_takeWhileD by fast
  have "\<not> f t \<le> (k :: 'b :: linorder)" if "sorted (map f T)" "t \<in> set (dropWhile (\<lambda>t. f t \<le> k) T)" for f t k
    using that by (induction T) (auto split: if_splits)
  with assms(2) show "\<forall>t \<in> set (dropWhile (\<lambda>t. tw_key t \<le> (score, obj)) T). \<not> tw_key t \<le> (score, obj)" by blast
  show "chained None (shapes (sl_nodes s)) (takeWhile (\<lambda>t. tw_key t \<le> (score, obj)) T @ dropWhile (\<lambda>t. tw_key t \<le> (score, obj)) T)"
    using assms(1) by (simp add: sl_rep_def heap_rep_def)
next
  fix t :: "'a tower" and n :: "'a skiplistNode" and r :: "'w word"
  assume t: "t \<in> set (takeWhile (\<lambda>t. tw_key t \<le> (score, obj)) T @ dropWhile (\<lambda>t. tw_key t \<le> (score, obj)) T)"
    "sn_obj n = Some (tw_obj t)" "sn_score n = tw_score t"
  then have "length (tw_obj t) < 2 ^ 31" using assms(3) by simp
  from compare_key_less(2) [OF t(2) this assms(4), of score] t(3)
  show "compare_key (\<lambda>c. c \<le> 0) score obj n = Inr (tw_key t \<le> (score, obj))" by simp
qed

lemma slGetRank_tower:
  assumes "sl_rep s T" "sorted (map tw_key T)" "\<forall>t \<in> set T. length (tw_obj t) < 2 ^ 31" "length obj < 2 ^ 31"
    "M = takeWhile (\<lambda>t. tw_key t \<le> (score, obj)) T" "\<And>t. t \<in> set M \<Longrightarrow> tw_obj t = obj \<Longrightarrow> t = last M"
  shows "slGetRank score obj s = Inr (if M \<noteq> [] \<and> tw_obj (last M) = obj then of_nat (length M) else 0)"
proof -
  define P where "P = dropWhile (\<lambda>t. tw_key t \<le> (score, obj)) T"
  have TMP: "T = M @ P" by (simp add: assms(5) P_def)
  have hr: "heap_rep s (M @ P)" and tr: "tower_rep s (M @ P)" using assms(1) TMP by (simp_all add: sl_rep_def)
  have len: "length (M @ P) < 2 ^ 32" "sl_length s = of_nat (length T)" "0 < sl_level s" "\<forall>t \<in> set (M @ P). 0 < tw_height t" "length T < 2 ^ 32"
    "distinct (map tw_ptr (hdr s # M))" "length M \<le> length T"
    using tr TMP by (auto simp: tower_rep_def)
  have hdrN: "\<not> bears s obj (tw_ptr (hdr s))" using hr by (auto simp: bears_def heap_rep_def shapes_def)
  have ch: "chained None (shapes (sl_nodes s)) T" using hr TMP by (simp add: heap_rep_def)
  have br: "bears s obj (tw_ptr t) \<longleftrightarrow> tw_obj t = obj" if "t \<in> set T" for t
  proof -
    from chained_node [OF ch that] obtain n where "sl_nodes s (tw_ptr t) = Some n" "sn_obj n = Some (tw_obj t)" by blast
    then show ?thesis using equalslObj_iff [of "tw_obj t" obj] assms(3,4) that by (simp add: bears_def)
  qed
  have "linked (entry (sl_nodes s)) (hdr s # M @ P)" using hr by (simp add: heap_rep_def)
  moreover have "tw_ptr t = tw_ptr (last (hdr s # M))" if "t \<in> set (hdr s # M)" "bears s obj (tw_ptr t)" for t
  proof -
    from that hdrN have "t \<in> set M" by auto
    with that(2) br TMP have "tw_obj t = obj" by auto
    from assms(6) [OF \<open>t \<in> set M\<close> this] \<open>t \<in> set M\<close> show ?thesis by auto
  qed
  ultimately have "rank_search score obj s (sl_level s) (tw_ptr (hdr s)) 0 =
      Inr (if bears s obj (tw_ptr (last (hdr s # M))) then 0 + of_nat (length M) else 0)"
    using splits_le [OF assms(1-4), where score = score and acc = "0 :: u64", folded assms(5) P_def] len
    by (intro rank_search_spec [where P = P and T = T]) simp_all
  moreover have "bears s obj (tw_ptr (last (hdr s # M))) \<longleftrightarrow> M \<noteq> [] \<and> tw_obj (last M) = obj"
  proof (cases "M = []")
    case False
    then have "last M \<in> set T" using TMP by simp
    from br [OF this] False show ?thesis by simp
  qed (use hdrN in simp)
  ultimately show ?thesis by (simp add: slGetRank_def)
qed

text \<open>
  The rank is the number of elements up to the key when the last of them carries the object, be
  its score the one asked for or a lower one.
\<close>

lemma rank_represents:
  assumes "represents s xs" "length obj < 2 ^ 31" "distinct (map snd xs)"
  shows "(\<forall>ys sc. takeWhile (\<lambda>x. x \<le> (score, obj)) xs = ys @ [(sc, obj)] \<longrightarrow> slGetRank score obj s = Inr (of_nat (length ys + 1))) \<and>
    (obj \<notin> snd ` set xs \<longrightarrow> slGetRank score obj s = Inr 0)"
proof -
  from assms(1) obtain T where T: "sl_rep s T" "xs = map tw_key T" "sorted (map tw_key T)"
    "\<forall>t \<in> set T. length (tw_obj t) < 2 ^ 31" by (rule representsE) blast
  define M where "M = takeWhile (\<lambda>t. tw_key t \<le> (score, obj)) T"
  have kM: "takeWhile (\<lambda>x. x \<le> (score, obj)) xs = map tw_key M" unfolding T(2) M_def by (simp add: takeWhile_map comp_def)
  have sub: "set M \<subseteq> set T" unfolding M_def by (blast dest: set_takeWhileD)
  have "distinct (map tw_obj T)" using assms(3) unfolding T(2) by (simp add: comp_def)
  then have inj: "inj_on tw_obj (set M)" using sub by (auto simp: distinct_map intro: inj_on_subset)
  show ?thesis
  proof (intro conjI allI impI)
    fix ys sc assume ys: "takeWhile (\<lambda>x. x \<le> (score, obj)) xs = ys @ [(sc, obj)]"
    then have M: "map tw_key M = ys @ [(sc, obj)]" using kM by simp
    then have "M \<noteq> []" by auto
    then obtain Y y where Y: "M = Y @ [y]" by (cases M rule: rev_cases) auto
    with M have "length Y = length ys" "tw_key y = (sc, obj)" by (auto dest: arg_cong [of _ _ length])
    with Y have l: "tw_obj (last M) = obj" "length M = length ys + 1" by simp_all
    have "t = last M" if "t \<in> set M" "tw_obj t = obj" for t
      using inj that l(1) \<open>M \<noteq> []\<close> by (metis inj_onD last_in_set)
    from slGetRank_tower [OF T(1,3,4) assms(2) M_def this] l \<open>M \<noteq> []\<close> show "slGetRank score obj s = Inr (of_nat (length ys + 1))" by simp
  next
    assume "obj \<notin> snd ` set xs"
    then have n: "tw_obj t \<noteq> obj" if "t \<in> set M" for t using that sub unfolding T(2) by force
    then have "t = last M" if "t \<in> set M" "tw_obj t = obj" for t using that by blast
    note r = slGetRank_tower [OF T(1,3,4) assms(2) M_def this]
    have "\<not> (M \<noteq> [] \<and> tw_obj (last M) = obj)" using n [OF last_in_set] by blast
    with r show "slGetRank score obj s = Inr 0" by (simp only: if_False)
  qed
qed

lemma skiplist_rank_member:
  assumes "represents s xs" "length obj < 2 ^ 31" "distinct (map snd xs)" "j < length xs" "xs ! j = (score, obj)"
  shows "slGetRank score obj s = Inr (of_nat (j + 1))"
proof -
  have "distinct xs" "sorted xs" using assms(1,3) by (simp_all add: distinct_map represents_def)
  from takeWhile_le [OF this(2,1) assms(4)] assms(4,5) have "takeWhile (\<lambda>x. x \<le> (score, obj)) xs = take j xs @ [(score, obj)]"
    by (simp add: take_Suc_conv_app_nth)
  with rank_represents [OF assms(1-3)] assms(4) show ?thesis by fastforce
qed

section \<open>Ranges\<close>

primrec prefix_while :: "(nat \<Rightarrow> 't \<Rightarrow> bool) \<Rightarrow> nat \<Rightarrow> 't list \<Rightarrow> 't list" where
  "prefix_while c n [] = []"
| "prefix_while c n (t # ts) = (if c n t then t # prefix_while c (Suc n) ts else [])"

lemma prefix_while_take: "prefix_while (\<lambda>n _. n < r) n ts = take (r - n) ts"
  by (induction ts arbitrary: n) (auto simp: take_Cons' Suc_diff_Suc)

lemma prefix_while_takeWhile: "prefix_while (\<lambda>_ t. Q t) n ts = takeWhile Q ts"
  by (induction ts arbitrary: n) auto

definition matches :: "(nat \<Rightarrow> 'a skiplistNode \<Rightarrow> bool) \<Rightarrow> (nat \<Rightarrow> 'a tower \<Rightarrow> bool) \<Rightarrow> bool" where
  "matches cont c \<longleftrightarrow> (\<forall>k nd t. sn_score nd = tw_score t \<longrightarrow> cont k nd = c k t)"

lemma collect_forward:
  assumes "sl_rep s (A @ L)" "matches cont c" "length L < k"
  shows "collect k cont False s n (if L = [] then None else Some (tw_ptr (hd L))) = Inr (map tw_obj (prefix_while c n L))"
  using assms(1,3)
proof (induction L arbitrary: A k n)
  case Nil
  then show ?case by (cases k) auto
next
  case (Cons t L)
  from Cons.prems(2) obtain k' where k: "k = Suc k'" by (cases k) auto
  have hr: "heap_rep s (A @ t # L)" and tr: "tower_rep s (A @ t # L)" using Cons.prems(1) by (simp_all add: sl_rep_def)
  have "chained None (shapes (sl_nodes s)) (A @ t # L)" using hr by (simp add: heap_rep_def)
  from chained_node [OF this, of t] obtain nd where nd: "sl_nodes s (tw_ptr t) = Some nd" "sn_obj nd = Some (tw_obj t)" "sn_score nd = tw_score t" by auto
  have pos: "0 < tw_height t" "\<forall>u \<in> set L. 0 < tw_height u" using tr by (simp_all add: tower_rep_def)
  have "linked (entry (sl_nodes s)) ((hdr s # A) @ t # L)" using hr by (simp add: heap_rep_def)
  from linked_level [OF this pos(1)] have g: "get_level s (tw_ptr t) 0 = Inr (link 0 L)" .
  have "sl_rep s ((A @ [t]) @ L)" "length L < k'" using Cons.prems k by simp_all
  from Cons.IH [OF this] have IH: "collect k' cont False s (Suc n) (if L = [] then None else Some (tw_ptr (hd L))) =
    Inr (map tw_obj (prefix_while c (Suc n) L))" .
  have "cont n nd = c n t" using assms(2) nd(3) by (simp add: matches_def)
  then show ?case using nd g IH link_first [OF pos(2)] unfolding k
    by (simp add: get_node_def step_from_def case_prod_unfold)
qed

lemma collect_backward:
  assumes "sl_rep s (L @ A)" "matches cont c" "length L < k"
  shows "collect k cont True s n (before None L) = Inr (map tw_obj (prefix_while c n (rev L)))"
  using assms(1,3)
proof (induction L arbitrary: A k n rule: rev_induct)
  case Nil
  then show ?case by (cases k) auto
next
  case (snoc t L)
  from snoc.prems(2) obtain k' where k: "k = Suc k'" by (cases k) auto
  have "chained None (shapes (sl_nodes s)) (L @ t # A)" using snoc.prems(1) by (simp add: sl_rep_def heap_rep_def)
  then obtain nd where nd: "sl_nodes s (tw_ptr t) = Some nd" "sn_obj nd = Some (tw_obj t)" "sn_score nd = tw_score t" "sn_backward nd = before None L"
    by (auto simp: chained_append shapes_def)
  have "sl_rep s (L @ t # A)" "length L < k'" using snoc.prems k by simp_all
  from snoc.IH [OF this] have IH: "collect k' cont True s (Suc n) (before None L) = Inr (map tw_obj (prefix_while c (Suc n) (rev L)))" .
  have "cont n nd = c n t" using assms(2) nd(3) by (simp add: matches_def)
  then show ?case using nd IH unfolding k by (simp add: get_node_def step_from_def)
qed

lemma sl_fuel: "sl_rep s T \<Longrightarrow> length T < unat (sl_length s) + 1"
  by (auto simp: sl_rep_def tower_rep_def unat_of_nat take_bit_nat_eq_self)

lemma rank_unat:
  assumes "sl_rep s T" "\<not> (rank = 0 \<or> rank > sl_length s)"
  shows "0 < unat rank" "unat rank \<le> length T"
proof -
  have "unat (sl_length s) = length T" using assms(1) by (simp add: sl_rep_def tower_rep_def unat_of_nat take_bit_nat_eq_self)
  then show "unat rank \<le> length T" using assms(2) by (simp add: word_less_nat_alt)
  show "0 < unat rank" using assms(2) by (simp add: unat_gt_0)
qed

text \<open>The number of elements asked for is cut to 32 bits.\<close>

lemma rank_range_represents:
  assumes "represents s xs" "0 < unat r1" "unat r1 \<le> length xs" "unat r1 - unat r2 < 2 ^ 31 - 1" "unat r2 - unat r1 < 2 ^ 31 - 1"
  shows "get_rank_range r1 r2 s = Inr (map snd (if r1 \<le> r2 then take (unat r2 - unat r1 + 1) (drop (unat r1 - 1) xs)
    else take (unat r1 - unat r2 + 1) (rev (take (unat r1) xs))))"
proof -
  from assms(1) obtain T where T: "sl_rep s T" "xs = map tw_key T" by (rule representsE) blast
  have lT: "unat r1 \<le> length T" using assms(3) T(2) by simp
  note node = node_by_rank_represents [OF T(1) assms(2) lT]
  let ?r = "sint (ucast (if \<not> r1 \<le> r2 then r1 - r2 + 1 else r2 - r1 + 1) :: i32)"
  have s32: "sint (ucast (of_nat d + 1 :: u64) :: i32) = int (d + 1)" if "d < 2 ^ 31 - 1" for d
  proof -
    have "(of_nat d + 1 :: u64) = of_nat (d + 1)" by simp
    moreover have "ucast (of_nat (d + 1) :: u64) = (of_nat (d + 1) :: i32)" using that by (intro word_unat_eq_iff [THEN iffD2]) (simp add: unsigned_ucast_eq unat_of_nat take_bit_nat_eq_self del: of_nat_Suc of_nat_add)
    moreover have "sint (of_nat (d + 1) :: i32) = int (d + 1)" using that by (simp add: signed_of_nat signed_take_bit_int_eq_self del: of_nat_Suc of_nat_add)
    ultimately show ?thesis by (simp only:)
  qed
  show ?thesis
  proof (cases "r1 \<le> r2")
    case True
    then have d: "r2 - r1 = of_nat (unat r2 - unat r1)" by (simp add: of_nat_diff word_le_nat_alt)
    have r: "?r = int (unat r2 - unat r1 + 1)" using True s32 [OF assms(5)] by (simp add: d)
    have "matches (\<lambda>n _. int n < ?r) (\<lambda>n (_ :: 'a tower). n < unat r2 - unat r1 + 1)"
      by (simp only: matches_def r of_nat_less_iff simp_thms)
    moreover have "sl_rep s (take (unat r1 - 1) T @ drop (unat r1 - 1) T)" using T(1) by simp
    moreover have "length (drop (unat r1 - 1) T) < unat (sl_length s) + 1" using sl_fuel [OF T(1)] by simp
    ultimately have "collect (unat (sl_length s) + 1) (\<lambda>n _. int n < ?r) False s 0
        (if drop (unat r1 - 1) T = [] then None else Some (tw_ptr (hd (drop (unat r1 - 1) T)))) =
      Inr (map tw_obj (prefix_while (\<lambda>n _. n < unat r2 - unat r1 + 1) 0 (drop (unat r1 - 1) T)))" by (intro collect_forward)
    moreover have "drop (unat r1 - 1) T \<noteq> []" "hd (drop (unat r1 - 1) T) = T ! (unat r1 - 1)"
      using assms(2) lT by (auto simp: hd_drop_conv_nth)
    ultimately show ?thesis using True node
      by (simp add: get_rank_range_def prefix_while_take T(2) take_map drop_map comp_def del: collect.simps)
  next
    case False
    then have d: "r1 - r2 = of_nat (unat r1 - unat r2)" by (simp add: of_nat_diff word_le_nat_alt)
    have r: "?r = int (unat r1 - unat r2 + 1)" using False s32 [OF assms(4)] by (simp add: d)
    have "matches (\<lambda>n _. int n < ?r) (\<lambda>n (_ :: 'a tower). n < unat r1 - unat r2 + 1)"
      by (simp only: matches_def r of_nat_less_iff simp_thms)
    moreover have "sl_rep s (take (unat r1) T @ drop (unat r1) T)" using T(1) by simp
    moreover have "length (take (unat r1) T) < unat (sl_length s) + 1" using sl_fuel [OF T(1)] by simp
    ultimately have "collect (unat (sl_length s) + 1) (\<lambda>n _. int n < ?r) True s 0 (before None (take (unat r1) T)) =
      Inr (map tw_obj (prefix_while (\<lambda>n _. n < unat r1 - unat r2 + 1) 0 (rev (take (unat r1) T))))" by (intro collect_backward)
    moreover have "before None (take (unat r1) T) = Some (tw_ptr (T ! (unat r1 - 1)))"
      using assms(2) lT by (auto simp: before_def last_conv_nth)
    ultimately show ?thesis using False node
      by (simp add: get_rank_range_def prefix_while_take T(2) take_map rev_map comp_def del: collect.simps)
  qed
qed

lemma slIsInRange_tower:
  assumes "sl_rep s T" "sorted (map tw_score T)" "lo \<le> hi"
  shows "slIsInRange lo hi s = Inr (T \<noteq> [] \<and> lo \<le> tw_score (last T) \<and> tw_score (hd T) \<le> hi)"
proof (cases "T = []")
  case True
  with assms(1,3) show ?thesis by (auto simp: slIsInRange_def sl_rep_def)
next
  case False
  have hr: "heap_rep s T" and tr: "tower_rep s T" using assms(1) by (simp_all add: sl_rep_def)
  have ch: "chained None (shapes (sl_nodes s)) T" using hr by (simp add: heap_rep_def)
  from chained_node [OF ch last_in_set [OF False]] obtain n where n: "sl_nodes s (tw_ptr (last T)) = Some n" "sn_score n = tw_score (last T)" by blast
  from chained_node [OF ch hd_in_set [OF False]] obtain m where m: "sl_nodes s (tw_ptr (hd T)) = Some m" "sn_score m = tw_score (hd T)" by blast
  have pos: "0 < tw_height (hdr s)" "\<forall>t \<in> set T. 0 < tw_height t" using tr by (simp_all add: tower_rep_def)
  have "linked (entry (sl_nodes s)) ([] @ hdr s # T)" using hr by (simp add: heap_rep_def)
  from linked_level [OF this pos(1)] have g: "get_level s (sl_header s) 0 = Inr (link 0 T)" by simp
  have "sl_tail s = Some (tw_ptr (last T))" using assms(1) False by (simp add: sl_rep_def before_def)
  then show ?thesis using False assms(3) n m g link_first [OF pos(2)]
    by (auto simp: slIsInRange_def get_node_def case_prod_unfold not_less not_le)
qed

lemma splits_score:
  fixes T :: "'a :: {linorder, zero} tower list"
  assumes "sl_rep s (M @ P)" "\<forall>t \<in> set M. Q (tw_score t)" "\<forall>t \<in> set P. \<not> Q (tw_score t)"
  shows "splits (\<lambda>_ :: 'w :: len word. \<lambda>n. Inr (Q (sn_score n))) (sl_nodes s) acc M P"
  by (rule splits_key [of None _ _ _ "\<lambda>t. Q (tw_score t)"]) (use assms in \<open>auto simp: sl_rep_def heap_rep_def\<close>)

lemma sorted_score_split:
  assumes "sorted (map tw_score T)" "\<forall>x y. x \<le> y \<longrightarrow> Q y \<longrightarrow> Q x"
  shows "\<forall>t \<in> set (takeWhile (\<lambda>t. Q (tw_score t)) T). Q (tw_score t)" "\<forall>t \<in> set (dropWhile (\<lambda>t. Q (tw_score t)) T). \<not> Q (tw_score t)"
    "takeWhile (\<lambda>t. Q (tw_score t)) T = filter (\<lambda>t. Q (tw_score t)) T" "dropWhile (\<lambda>t. Q (tw_score t)) T = filter (\<lambda>t. \<not> Q (tw_score t)) T"
proof -
  show "\<forall>t \<in> set (takeWhile (\<lambda>t. Q (tw_score t)) T). Q (tw_score t)" using set_takeWhileD by fast
  have n: "\<not> Q (tw_score t)" if "t \<in> set (dropWhile (\<lambda>t. Q (tw_score t)) T)" for t
    using assms(1) that by (induction T) (auto split: if_splits dest: assms(2) [rule_format])
  then show "\<forall>t \<in> set (dropWhile (\<lambda>t. Q (tw_score t)) T). \<not> Q (tw_score t)" by blast
  show "takeWhile (\<lambda>t. Q (tw_score t)) T = filter (\<lambda>t. Q (tw_score t)) T" by (rule takeWhile_eq_filter) (rule n)
  have "filter (\<lambda>t. \<not> Q (tw_score t)) (takeWhile (\<lambda>t. Q (tw_score t)) T) = []"
    unfolding filter_empty_conv using set_takeWhileD by fast
  moreover have "filter (\<lambda>t. \<not> Q (tw_score t)) (dropWhile (\<lambda>t. Q (tw_score t)) T) = dropWhile (\<lambda>t. Q (tw_score t)) T"
    by (rule filter_True) (use n in blast)
  ultimately have "filter (\<lambda>t. \<not> Q (tw_score t)) (takeWhile (\<lambda>t. Q (tw_score t)) T @ dropWhile (\<lambda>t. Q (tw_score t)) T) = dropWhile (\<lambda>t. Q (tw_score t)) T"
    by (simp only: filter_append append.simps)
  then show "dropWhile (\<lambda>t. Q (tw_score t)) T = filter (\<lambda>t. \<not> Q (tw_score t)) T" by simp
qed

lemma sl_search_score:
  fixes s :: "'a :: {linorder, zero} skiplist"
  assumes "sl_rep s (M @ P)" "\<forall>t \<in> set M. Q (tw_score t)" "\<forall>t \<in> set P. \<not> Q (tw_score t)"
  shows "\<exists>us d. search (\<lambda>_ :: u32. \<lambda>n. Inr (Q (sn_score n))) s (sl_level s) (sl_header s) 0 = Inr us \<and>
    get_level s (fst (us ! 0)) 0 = Inr (if P = [] then None else Some (tw_ptr (hd P)), d) \<and> fst (us ! 0) = tw_ptr (last (hdr s # M))"
proof -
  have hr: "heap_rep s (M @ P)" and tr: "tower_rep s (M @ P)" using assms(1) by (simp_all add: sl_rep_def)
  have lv: "0 < sl_level s" "\<forall>t \<in> set M. 0 < tw_height t" using tr by (auto simp: tower_rep_def)
  from sl_search [OF hr tr splits_score [OF assms]] obtain us where
    us: "search (\<lambda>_ :: u32. \<lambda>n. Inr (Q (sn_score n))) s (sl_level s) (sl_header s) 0 = Inr us" "\<And>l. l < sl_level s \<Longrightarrow> stop (hdr s # M) l (us ! l)" by blast
  from search_forward(1) [OF assms(1) us(2) [OF lv(1)]] stop_zero(2) [OF us(2) [OF lv(1)] lv(2)] us(1) show ?thesis by blast
qed

lemma back_filter:
  assumes "sorted (map tw_score T)"
  shows "takeWhile (\<lambda>t. \<not> tw_score t < b) (rev (filter (\<lambda>t. tw_score t \<le> a) T)) = rev (filter (\<lambda>t. b \<le> tw_score t \<and> tw_score t \<le> a) T)"
  using assms
proof (induction T rule: rev_induct)
  case (snoc t T)
  then have "sorted (map tw_score T)" "\<forall>u \<in> set T. tw_score u \<le> tw_score t" by (auto simp: sorted_append)
  moreover have "filter (\<lambda>u. b \<le> tw_score u \<and> tw_score u \<le> a) T = []" if "tw_score t < b"
    using calculation(2) that by (force simp: filter_empty_conv)
  ultimately show ?case using snoc.IH by (auto simp: not_less)
qed simp

lemma score_range_represents:
  assumes "represents s xs"
  shows "get_score_range a b s = Inr (map snd (if a \<le> b then filter (\<lambda>(sc, _). a \<le> sc \<and> sc \<le> b) xs
    else rev (filter (\<lambda>(sc, _). b \<le> sc \<and> sc \<le> a) xs)))"
proof -
  from assms obtain T where T: "sl_rep s T" "xs = map tw_key T" "sorted (map tw_key T)" by (rule representsE) blast
  have sc: "sorted (map tw_score T)" using T(3) by (auto simp: sorted_map elim: sorted_wrt_mono_rel [rotated])
  have fil: "map snd (filter (\<lambda>(sc, _). lo \<le> sc \<and> sc \<le> hi) xs) = map tw_obj (filter (\<lambda>t. lo \<le> tw_score t \<and> tw_score t \<le> hi) T)" for lo hi
    unfolding T(2) by (induction T) auto
  have none: "filter (\<lambda>t. lo \<le> tw_score t \<and> tw_score t \<le> hi) T = []"
    if "\<not> (T \<noteq> [] \<and> lo \<le> tw_score (last T) \<and> tw_score (hd T) \<le> hi)" for lo hi
  proof (rule ccontr)
    assume "filter (\<lambda>t. lo \<le> tw_score t \<and> tw_score t \<le> hi) T \<noteq> []"
    then obtain t where t: "t \<in> set T" "lo \<le> tw_score t" "tw_score t \<le> hi" by (auto simp: filter_empty_conv)
    then obtain A B where "T = A @ t # B" by (meson split_list)
    with sc have "tw_score t \<le> tw_score (last T)" "tw_score (hd T) \<le> tw_score t"
      by (cases "B = []"; cases A; force simp: sorted_append)+
    with t that show False by force
  qed
  show ?thesis
  proof (cases "a \<le> b")
    case True
    let ?M = "takeWhile (\<lambda>t. tw_score t < a) T" and ?P = "dropWhile (\<lambda>t. tw_score t < a) T"
    have dc: "\<forall>x y. x \<le> y \<longrightarrow> y < a \<longrightarrow> x < a" by auto
    note Q = sorted_score_split [of T "\<lambda>x. x < a", OF sc dc]
    have P: "?P = filter (\<lambda>t. \<not> tw_score t < a) T" by (rule Q(4))
    have "sorted (map tw_score ?P)" unfolding P using sc by (rule sorted_filter)
    then have "takeWhile (\<lambda>t. \<not> tw_score t > b) ?P = filter (\<lambda>t. \<not> tw_score t > b) ?P"
      by (rule sorted_score_split(3) [of _ "\<lambda>x. \<not> x > b"]) auto
    then have w: "takeWhile (\<lambda>t. \<not> tw_score t > b) ?P = filter (\<lambda>t. a \<le> tw_score t \<and> tw_score t \<le> b) T"
      unfolding P filter_filter not_less .
    have first: "slFirstInRange a b s = Inr (if T \<noteq> [] \<and> a \<le> tw_score (last T) \<and> tw_score (hd T) \<le> b then (if ?P = [] then None else Some (tw_ptr (hd ?P))) else None)"
    proof -
      have "sl_rep s (?M @ ?P)" using T(1) by simp
      from sl_search_score [OF this Q(1,2)] obtain us d where "search (\<lambda>_ :: u32. \<lambda>n. Inr (sn_score n < a)) s (sl_level s) (sl_header s) 0 = Inr us"
        "get_level s (fst (us ! 0)) 0 = Inr (if ?P = [] then None else Some (tw_ptr (hd ?P)), d)" by blast
      then show ?thesis unfolding slFirstInRange_def slIsInRange_tower [OF T(1) sc True] by simp
    qed
    have "collect (unat (sl_length s) + 1) (\<lambda>_ nd. \<not> sn_score nd > b) False s 0 (if ?P = [] then None else Some (tw_ptr (hd ?P))) =
      Inr (map tw_obj (prefix_while (\<lambda>_ t. \<not> tw_score t > b) 0 ?P))"
    proof (rule collect_forward)
      show "sl_rep s (?M @ ?P)" using T(1) by simp
      show "length ?P < unat (sl_length s) + 1" using sl_fuel [OF T(1)] length_dropWhile_le [of _ T] by (metis le_less_trans)
    qed (simp add: matches_def)
    note col = this [unfolded prefix_while_takeWhile w]
    have "get_score_range a b s = Inr (map tw_obj (filter (\<lambda>t. a \<le> tw_score t \<and> tw_score t \<le> b) T))"
    proof (cases "T \<noteq> [] \<and> a \<le> tw_score (last T) \<and> tw_score (hd T) \<le> b")
      case in_range: True
      then have "slFirstInRange a b s = Inr (if ?P = [] then None else Some (tw_ptr (hd ?P)))" unfolding first by (simp only: if_True simp_thms)
      with col True show ?thesis by (simp only: get_score_range_def Let_def simp_thms if_False bind_res_Inr)
    next
      case out: False
      then have "slFirstInRange a b s = Inr None" unfolding first by (simp only: if_False)
      with True none [OF out] show ?thesis by (simp add: get_score_range_def)
    qed
    with True fil [of a b] show ?thesis by simp
  next
    case False
    then have ba: "b \<le> a" by simp
    let ?M = "takeWhile (\<lambda>t. tw_score t \<le> a) T" and ?P = "dropWhile (\<lambda>t. tw_score t \<le> a) T"
    have dc: "\<forall>x y. x \<le> y \<longrightarrow> y \<le> a \<longrightarrow> x \<le> a" by auto
    note Q = sorted_score_split [of T "\<lambda>x. x \<le> a", OF sc dc]
    have "sorted (map tw_score ?M)" unfolding Q(3) using sc by (rule sorted_filter)
    have r: "takeWhile (\<lambda>t. \<not> tw_score t < b) (rev ?M) = rev (filter (\<lambda>t. b \<le> tw_score t \<and> tw_score t \<le> a) T)"
      unfolding Q(3) using sc by (rule back_filter)
    have lastr: "slLastInRange b a s = Inr (if T \<noteq> [] \<and> b \<le> tw_score (last T) \<and> tw_score (hd T) \<le> a then before None ?M else None)"
    proof -
      have "sl_rep s (?M @ ?P)" using T(1) by simp
      from sl_search_score [OF this Q(1,2)] obtain us where us:
        "search (\<lambda>_ :: u32. \<lambda>n. Inr (sn_score n \<le> a)) s (sl_level s) (sl_header s) 0 = Inr us" "fst (us ! 0) = tw_ptr (last (hdr s # ?M))" by blast
      have "?M \<noteq> []" if "T \<noteq> []" "tw_score (hd T) \<le> a" using that by (cases T) auto
      with us show ?thesis unfolding slLastInRange_def slIsInRange_tower [OF T(1) sc ba] by (simp add: before_def)
    qed
    have "collect (unat (sl_length s) + 1) (\<lambda>_ nd. \<not> sn_score nd < b) True s 0 (before None ?M) =
      Inr (map tw_obj (prefix_while (\<lambda>_ t. \<not> tw_score t < b) 0 (rev ?M)))"
    proof (rule collect_backward)
      show "sl_rep s (?M @ ?P)" using T(1) by simp
      show "length ?M < unat (sl_length s) + 1" using sl_fuel [OF T(1)] length_takeWhile_le [of _ T] by (metis le_less_trans)
    qed (simp add: matches_def)
    note col = this [unfolded prefix_while_takeWhile r]
    have "get_score_range a b s = Inr (map tw_obj (rev (filter (\<lambda>t. b \<le> tw_score t \<and> tw_score t \<le> a) T)))"
    proof (cases "T \<noteq> [] \<and> b \<le> tw_score (last T) \<and> tw_score (hd T) \<le> a")
      case in_range: True
      then have "slLastInRange b a s = Inr (before None ?M)" unfolding lastr by (simp only: if_True simp_thms)
      with col False show ?thesis by (simp only: get_score_range_def Let_def simp_thms if_True bind_res_Inr)
    next
      case out: False
      then have "slLastInRange b a s = Inr None" unfolding lastr by (simp only: if_False)
      with False none [OF out] show ?thesis by (simp add: get_score_range_def)
    qed
    with False fil [of b a] show ?thesis by (simp add: rev_map [symmetric])
  qed
qed

section \<open>Release\<close>

lemma free_nodes_all:
  assumes "linked (entry (sl_nodes s)) T" "\<forall>t \<in> set T. 0 < tw_height t" "distinct (map tw_ptr T)" "dom (sl_nodes s) = tw_ptr ` set T" "length T < k"
  shows "\<exists>s'. free_nodes k (if T = [] then None else Some (tw_ptr (hd T))) s = Inr s' \<and> sl_nodes s' = Map.empty"
  using assms
proof (induction T arbitrary: k s)
  case Nil
  then show ?case by (cases k) auto
next
  case (Cons t T)
  from Cons.prems(5) obtain k' where k: "k = Suc k'" by (cases k) auto
  let ?s = "s\<lparr>sl_nodes := (sl_nodes s)(tw_ptr t := None)\<rparr>"
  have "linked (entry (sl_nodes s)) ([] @ t # T)" using Cons.prems(1) by simp
  from linked_level [OF this] Cons.prems(2) have g: "get_level s (tw_ptr t) 0 = Inr (link 0 T)" by simp
  obtain n where n: "sl_nodes s (tw_ptr t) = Some n" using Cons.prems(4) by (metis (no_types) domD image_eqI list.set_intros(1))
  have notin: "tw_ptr t \<notin> tw_ptr ` set T" using Cons.prems(3) by simp
  have "linked (entry (sl_nodes s)) T" using Cons.prems(1) linked_suffix [of _ "[t]" T] by simp
  then have "linked (entry (sl_nodes ?s)) T"
  proof (rule linked_frame)
    fix u l assume "u \<in> set T"
    with notin have "tw_ptr u \<noteq> tw_ptr t" by (metis image_eqI)
    then show "entry (sl_nodes ?s) (tw_ptr u) l = entry (sl_nodes s) (tw_ptr u) l" by (simp add: entry_def)
  qed
  moreover have "dom (sl_nodes ?s) = tw_ptr ` set T" using Cons.prems(4) notin by auto
  moreover have "\<forall>u \<in> set T. 0 < tw_height u" "distinct (map tw_ptr T)" "length T < k'" using Cons.prems(2,3,5) k by simp_all
  ultimately have "\<exists>s'. free_nodes k' (if T = [] then None else Some (tw_ptr (hd T))) ?s = Inr s' \<and> sl_nodes s' = Map.empty"
    by (intro Cons.IH)
  then obtain s' where s': "free_nodes k' (if T = [] then None else Some (tw_ptr (hd T))) ?s = Inr s'" "sl_nodes s' = Map.empty" by blast
  have "\<forall>u \<in> set T. 0 < tw_height u" using Cons.prems(2) by simp
  from link_first [OF this] have "free_nodes k (Some (tw_ptr t)) s = Inr s'"
    using g n s'(1) by (simp add: k slFreeNode_def get_node_def case_prod_unfold)
  with s'(2) show ?case by simp
qed

lemma free_represents:
  assumes "represents s xs"
  shows "\<exists>s'. slFree s = Inr s' \<and> sl_nodes s' = Map.empty"
proof -
  from assms obtain T where T: "sl_rep s T" "sl_owns s T" by (rule representsE) blast
  have hr: "heap_rep s T" and tr: "tower_rep s T" using T(1) by (simp_all add: sl_rep_def)
  have pos: "0 < tw_height (hdr s)" "\<forall>t \<in> set T. 0 < tw_height t" using tr by (simp_all add: tower_rep_def)
  have ll: "linked (entry (sl_nodes s)) ([] @ hdr s # T)" using hr by (simp add: heap_rep_def)
  from linked_level [OF ll pos(1)] have g: "get_level s (sl_header s) 0 = Inr (link 0 T)" by simp
  let ?s = "s\<lparr>sl_nodes := (sl_nodes s)(sl_header s := None)\<rparr>"
  have notin: "sl_header s \<notin> tw_ptr ` set T" using tr by (simp add: tower_rep_def)
  have "linked (entry (sl_nodes s)) T" using ll linked_suffix [of _ "[hdr s]" T] by simp
  then have "linked (entry (sl_nodes ?s)) T"
  proof (rule linked_frame)
    fix u l assume "u \<in> set T"
    with notin have "tw_ptr u \<noteq> sl_header s" by (metis image_eqI)
    then show "entry (sl_nodes ?s) (tw_ptr u) l = entry (sl_nodes s) (tw_ptr u) l" by (simp add: entry_def)
  qed
  moreover have "dom (sl_nodes ?s) = tw_ptr ` set T" using T(2) notin by (auto simp: sl_owns_def)
  moreover have "distinct (map tw_ptr T)" "length T < Suc (unat (sl_length s))" using tr sl_fuel [OF T(1)] by (simp_all add: tower_rep_def)
  ultimately obtain s' where s': "free_nodes (Suc (unat (sl_length s))) (if T = [] then None else Some (tw_ptr (hd T))) ?s = Inr s'" "sl_nodes s' = Map.empty"
    using free_nodes_all [of ?s T] pos(2) by blast
  obtain n where n: "sl_nodes s (sl_header s) = Some n" using T(2) by (auto simp: sl_owns_def)
  then have "slFree s = Inr s'"
    using g s'(1) link_first [OF pos(2)] by (simp add: slFree_def slFreeNode_def get_node_def case_prod_unfold del: free_nodes.simps)
  with s'(2) show ?thesis by blast
qed

section \<open>Properties\<close>

text \<open>A list of two elements, for the witnesses.\<close>

lemma two_elements: "\<exists>s :: int skiplist. represents s [(3, [1]), (5, [2])]"
proof -
  have l: "slRandomLevel [0xffff] = Inr 1" by (simp add: slRandomLevel_def SKIPLIST_MAXLEVEL_def)
  from insert_represents [OF create_represents _ _ l, of "[1]" "3 :: int"] obtain s where
    s: "represents (s :: int skiplist) [(3, [1])]" by auto
  from insert_represents [OF s _ _ l, of "[2]" 5] show ?thesis by auto
qed

text \<open>
  C29: Inserting a score and an object, at whatever level is drawn, never faults and leaves the
  sorted list with the pair inserted: every link, span, back link, the tail and the length are
  those of the new list.
\<close>
theorem skiplist_insert:
  assumes "represents s xs" "length xs + 1 < 2 ^ 32" "length obj < 2 ^ 31" "slRandomLevel draws = Inr h"
  shows "\<exists>s'. slInsert score obj draws s = Inr s' \<and> represents s' (insort (score, obj) xs)"
  using assms by (rule insert_represents)

theorem skiplist_insert_witness:
  "\<exists>s'. slInsert (3 :: int) [1] [0, 0xffff] slCreate = Inr s' \<and> represents s' [(3, [1])]"
proof -
  have "slRandomLevel [0, 0xffff] = Inr 2" by (simp add: slRandomLevel_def SKIPLIST_MAXLEVEL_def)
  from skiplist_insert [OF create_represents _ _ this, of "[1]" "3 :: int"] show ?thesis by simp
qed

text \<open>
  C30: Deleting a score and an object answers whether the pair is in the list and takes its first
  occurrence out, the node being freed and the level lowered; a pair that is not there changes nothing.
\<close>
theorem skiplist_delete:
  assumes "represents s xs" "length obj < 2 ^ 31"
  shows "\<exists>s'. slDelete score obj s = Inr (s', (score, obj) \<in> set xs) \<and> represents s' (remove1 (score, obj) xs)"
  using assms by (rule delete_represents)

theorem skiplist_delete_witness:
  "\<exists>s s'. slDelete (3 :: int) [1] s = Inr (s', True) \<and> represents s' [(5, [2])]"
proof -
  obtain s :: "int skiplist" where "represents s [(3, [1]), (5, [2])]" using two_elements by blast
  from skiplist_delete [OF this, of "[1]" 3] show ?thesis by auto
qed

text \<open>
  Deleting the ranks from \<open>start\<close> to \<open>end\<close> takes exactly these elements out of the list and
  hands their objects to the callback in order; rank 0 counts as rank 1.
\<close>
theorem skiplist_delete_by_rank:
  assumes "represents s xs" "start \<le> end"
  shows "\<exists>s'. delete_by_rank start end s = Inr (s', map snd (take (unat end + 1 - max 1 (unat start)) (drop (unat start - 1) xs))) \<and>
    represents s' (take (unat start - 1) xs @ drop (unat end) xs)"
  using assms by (rule delete_by_rank_represents)

theorem skiplist_delete_by_rank_witness:
  "\<exists>(s :: int skiplist) s'. delete_by_rank 2 7 s = Inr (s', [[2]]) \<and> represents s' [(3, [1])]"
proof -
  obtain s :: "int skiplist" where "represents s [(3, [1]), (5, [2])]" using two_elements by blast
  from skiplist_delete_by_rank [OF this, of 2 7] show ?thesis by auto
qed

text \<open>
  C31: With distinct objects the rank is the number of elements up to the given pair if the last of
  them carries the object, be its score the one asked for or a lower one, and 0 if no element
  carries it. So an object that is in the list with a lower score can be found with the wrong score.
\<close>
theorem skiplist_rank:
  assumes "represents s xs" "length obj < 2 ^ 31" "distinct (map snd xs)"
  shows "(\<forall>ys sc. takeWhile (\<lambda>x. x \<le> (score, obj)) xs = ys @ [(sc, obj)] \<longrightarrow> slGetRank score obj s = Inr (of_nat (length ys + 1))) \<and>
    (obj \<notin> snd ` set xs \<longrightarrow> slGetRank score obj s = Inr 0)"
  using assms by (rule rank_represents)

theorem skiplist_rank_witness:
  "\<exists>s :: int skiplist. represents s [(3, [1]), (5, [2])] \<and> slGetRank 5 [2] s = Inr 2 \<and> slGetRank 4 [1] s = Inr 1 \<and> slGetRank 4 [7] s = Inr 0"
proof -
  obtain s :: "int skiplist" where s: "represents s [(3, [1]), (5, [2])]" using two_elements by blast
  have "slGetRank 5 [2] s = Inr 2" using skiplist_rank [OF s, of "[2]" 5] by simp
  moreover have "slGetRank 4 [1] s = Inr 1" using skiplist_rank [OF s, of "[1]" 4] by simp
  moreover have "slGetRank 4 [7] s = Inr 0" using skiplist_rank [OF s, of "[7]" 4] by simp
  ultimately show ?thesis using s by blast
qed

text \<open>
  The objects of a score range are those of the elements with a score in it, both ends
  included, in ascending order when the first score is the lower one and in descending order otherwise.
\<close>
theorem skiplist_score_range:
  assumes "represents s xs"
  shows "get_score_range a b s = Inr (map snd (if a \<le> b then filter (\<lambda>(sc, _). a \<le> sc \<and> sc \<le> b) xs
    else rev (filter (\<lambda>(sc, _). b \<le> sc \<and> sc \<le> a) xs)))"
  using assms by (rule score_range_represents)

theorem skiplist_score_range_witness:
  "\<exists>s :: int skiplist. represents s [(3, [1]), (5, [2])] \<and> get_score_range 4 9 s = Inr [[2]] \<and> get_score_range 9 0 s = Inr [[2], [1]]"
proof -
  obtain s :: "int skiplist" where s: "represents s [(3, [1]), (5, [2])]" using two_elements by blast
  show ?thesis using skiplist_score_range [OF s, of 4 9] skiplist_score_range [OF s, of 9 0] s by auto
qed

end
