(* ===== verification/Seri.thy ===== *)
theory Seri
  imports Prelude "HOL-Library.Multiset"
begin

unbundle bit_operations_syntax

text \<open>
  The serialisation of Lua values that services send each other, \<open>lualib-src/lua-seri.c\<close>:
  writing into a chain of blocks, packing, reading and unpacking. Strings are lists of bytes,
  integers 64-bit words, reals and light userdata the 64 bits of their representation.

  A table is the list of its entries in the order \<open>lua_next\<close> visits them; the border that
  \<open>lua_rawlen\<close> answers is a parameter (\<open>rl\<close>), as is the conversion of reals with an integral
  value, which Lua applies to keys (\<open>flt_int\<close>). \<open>SPairs\<close> is a table with a \<open>__pairs\<close>
  metamethod, given by what its iterator yields, \<open>SOther\<close> a value of another type. A table inside
  itself unfolds to values of any depth, of which packing visits at most \<open>MAX_DEPTH\<close> levels. The
  stack of Lua is taken to be large enough.
\<close>

datatype seri_value =
    SNil
  | SBool bool
  | SInt u64
  | SReal u64
  | SPointer u64
  | SString "byte list"
  | STable "(seri_value \<times> seri_value) list"
  | SPairs "(seri_value \<times> seri_value) list"
  | SOther string

definition TYPE_NIL :: int where "TYPE_NIL = 0"
definition TYPE_BOOLEAN :: int where "TYPE_BOOLEAN = 1"
definition TYPE_NUMBER :: int where "TYPE_NUMBER = 2"
definition TYPE_USERDATA :: int where "TYPE_USERDATA = 3"
definition TYPE_SHORT_STRING :: int where "TYPE_SHORT_STRING = 4"
definition TYPE_LONG_STRING :: int where "TYPE_LONG_STRING = 5"
definition TYPE_TABLE :: int where "TYPE_TABLE = 6"

definition TYPE_NUMBER_ZERO :: int where "TYPE_NUMBER_ZERO = 0"
definition TYPE_NUMBER_BYTE :: int where "TYPE_NUMBER_BYTE = 1"
definition TYPE_NUMBER_WORD :: int where "TYPE_NUMBER_WORD = 2"
definition TYPE_NUMBER_DWORD :: int where "TYPE_NUMBER_DWORD = 4"
definition TYPE_NUMBER_QWORD :: int where "TYPE_NUMBER_QWORD = 6"
definition TYPE_NUMBER_REAL :: int where "TYPE_NUMBER_REAL = 8"

definition MAX_COOKIE :: int where "MAX_COOKIE = 32"
definition BLOCK_SIZE :: nat where "BLOCK_SIZE = 128"
definition MAX_DEPTH :: nat where "MAX_DEPTH = 32"

lemmas seri_consts = TYPE_NIL_def TYPE_BOOLEAN_def TYPE_NUMBER_def TYPE_USERDATA_def TYPE_SHORT_STRING_def TYPE_LONG_STRING_def
  TYPE_TABLE_def TYPE_NUMBER_ZERO_def TYPE_NUMBER_BYTE_def TYPE_NUMBER_WORD_def TYPE_NUMBER_DWORD_def TYPE_NUMBER_QWORD_def
  TYPE_NUMBER_REAL_def MAX_COOKIE_def

definition COMBINE_TYPE :: "int \<Rightarrow> int \<Rightarrow> byte" where
  "COMBINE_TYPE t v = word_of_int t OR push_bit 3 (word_of_int v)"

text \<open>The \<open>n\<close> bytes of an integer in memory, and back.\<close>

primrec mem_bytes :: "nat \<Rightarrow> nat \<Rightarrow> byte list" where
  "mem_bytes 0 x = []"
| "mem_bytes (Suc n) x = of_nat x # mem_bytes n (x div 256)"

primrec mem_nat :: "byte list \<Rightarrow> nat" where
  "mem_nat [] = 0"
| "mem_nat (b # bs) = unat b + 256 * mem_nat bs"

section \<open>Writing\<close>

text \<open>The blocks from the head on, the last one being the current one; a byte not yet written is \<open>None\<close>.\<close>

record write_block =
  wb_blocks :: "byte option list list"
  wb_len :: int
  wb_ptr :: nat

definition blk_alloc :: "byte option list" where
  "blk_alloc = replicate BLOCK_SIZE None"

definition wb_init :: write_block where
  "wb_init = \<lparr>wb_blocks = [blk_alloc], wb_len = 0, wb_ptr = 0\<rparr>"

text \<open>The \<open>memcpy\<close> into the current block, and what follows it; a length beyond \<open>int\<close> overflows.\<close>

definition wb_store :: "byte list \<Rightarrow> write_block \<Rightarrow> write_block res" where
  "wb_store buf b =
     (let cur = last (wb_blocks b); n = length buf
      in if wb_len b + int n \<ge> 2 ^ 31 then Inl IntOverflow
         else Inr (b\<lparr>wb_blocks := butlast (wb_blocks b) @ [take (wb_ptr b) cur @ map Some buf @ drop (wb_ptr b + n) cur],
                     wb_len := wb_len b + int n, wb_ptr := wb_ptr b + n\<rparr>))"

definition wb_next :: "write_block \<Rightarrow> write_block" where
  "wb_next b = b\<lparr>wb_blocks := wb_blocks b @ [blk_alloc], wb_ptr := 0\<rparr>"

function wb_copy :: "byte list \<Rightarrow> write_block \<Rightarrow> write_block res" where
  "wb_copy buf b =
     (if wb_ptr b + length buf \<le> BLOCK_SIZE then wb_store buf b
      else let copy = BLOCK_SIZE - wb_ptr b
           in bind_res (wb_store (take copy buf) b) (\<lambda>b1. wb_copy (drop copy buf) (wb_next b1)))"
  by pat_completeness auto
termination
  by (relation "measure (\<lambda>(buf, b). 2 * length buf + (if wb_ptr b < BLOCK_SIZE then 0 else 1))")
    (auto simp: wb_next_def BLOCK_SIZE_def)

declare wb_copy.simps [simp del]

definition wb_push :: "byte list \<Rightarrow> write_block \<Rightarrow> write_block res" where
  "wb_push buf b = wb_copy buf (if wb_ptr b = BLOCK_SIZE then wb_next b else b)"

definition wb_nil :: "write_block \<Rightarrow> write_block res" where
  "wb_nil wb = wb_push [word_of_int TYPE_NIL] wb"

definition wb_boolean :: "bool \<Rightarrow> write_block \<Rightarrow> write_block res" where
  "wb_boolean b wb = wb_push [COMBINE_TYPE TYPE_BOOLEAN (if b then 1 else 0)] wb"

definition wb_integer :: "u64 \<Rightarrow> write_block \<Rightarrow> write_block res" where
  "wb_integer v wb =
     (let put = (\<lambda>cookie bs. bind_res (wb_push [COMBINE_TYPE TYPE_NUMBER cookie] wb) (wb_push bs))
      in if v = 0 then wb_push [COMBINE_TYPE TYPE_NUMBER TYPE_NUMBER_ZERO] wb
         else if v \<noteq> scast (ucast v :: i32) then put TYPE_NUMBER_QWORD (mem_bytes 8 (unat v))
         else if sint v < 0 then put TYPE_NUMBER_DWORD (mem_bytes 4 (unat (ucast v :: i32)))
         else if sint v < 0x100 then put TYPE_NUMBER_BYTE (mem_bytes 1 (unat (ucast v :: u8)))
         else if sint v < 0x10000 then put TYPE_NUMBER_WORD (mem_bytes 2 (unat (ucast v :: u16)))
         else put TYPE_NUMBER_DWORD (mem_bytes 4 (unat (ucast v :: u32))))"

definition wb_real :: "u64 \<Rightarrow> write_block \<Rightarrow> write_block res" where
  "wb_real v wb = bind_res (wb_push [COMBINE_TYPE TYPE_NUMBER TYPE_NUMBER_REAL] wb) (wb_push (mem_bytes 8 (unat v)))"

definition wb_pointer :: "u64 \<Rightarrow> write_block \<Rightarrow> write_block res" where
  "wb_pointer v wb = bind_res (wb_push [word_of_int TYPE_USERDATA] wb) (wb_push (mem_bytes 8 (unat v)))"

definition wb_string :: "byte list \<Rightarrow> int \<Rightarrow> write_block \<Rightarrow> write_block res" where
  "wb_string str len wb =
     (if len < MAX_COOKIE then
        bind_res (wb_push [COMBINE_TYPE TYPE_SHORT_STRING len] wb) (\<lambda>wb1. if len > 0 then wb_push (take (nat len) str) wb1 else Inr wb1)
      else
        bind_res (if len < 0x10000 then
                    bind_res (wb_push [COMBINE_TYPE TYPE_LONG_STRING 2] wb) (wb_push (mem_bytes 2 (unat (word_of_int len :: u16))))
                  else
                    bind_res (wb_push [COMBINE_TYPE TYPE_LONG_STRING 4] wb) (wb_push (mem_bytes 4 (unat (word_of_int len :: u32)))))
          (wb_push (take (nat len) str)))"

section \<open>Packing\<close>

definition rawgeti :: "(seri_value \<times> seri_value) list \<Rightarrow> int \<Rightarrow> seri_value" where
  "rawgeti es i = (case map_of es (SInt (word_of_int i)) of None \<Rightarrow> SNil | Some v \<Rightarrow> v)"

fun wb_items :: "(seri_value \<Rightarrow> write_block \<Rightarrow> write_block res) \<Rightarrow> seri_value list \<Rightarrow> write_block \<Rightarrow> write_block res" where
  "wb_items pack [] wb = Inr wb"
| "wb_items pack (v # vs) wb = bind_res (pack v wb) (wb_items pack vs)"

definition array_size :: "((seri_value \<times> seri_value) list \<Rightarrow> nat) \<Rightarrow> (seri_value \<times> seri_value) list \<Rightarrow> int" where
  "array_size rl es = sint (of_nat (rl es) :: i32)"

definition wb_table_array :: "((seri_value \<times> seri_value) list \<Rightarrow> nat) \<Rightarrow> (seri_value \<Rightarrow> write_block \<Rightarrow> write_block res) \<Rightarrow>
    (seri_value \<times> seri_value) list \<Rightarrow> write_block \<Rightarrow> write_block res" where
  "wb_table_array rl pack es wb =
     bind_res (if array_size rl es \<ge> MAX_COOKIE - 1 then
                 bind_res (wb_push [COMBINE_TYPE TYPE_TABLE (MAX_COOKIE - 1)] wb) (wb_integer (word_of_int (array_size rl es)))
               else wb_push [COMBINE_TYPE TYPE_TABLE (array_size rl es)] wb)
       (wb_items pack (map (rawgeti es) [1..array_size rl es]))"

text \<open>The keys of the array part, which \<open>wb_table_hash\<close> skips.\<close>

definition in_array :: "int \<Rightarrow> seri_value \<Rightarrow> bool" where
  "in_array n k = (case k of SInt x \<Rightarrow> sint x > 0 \<and> sint x \<le> n | _ \<Rightarrow> False)"

fun wb_table_hash :: "(seri_value \<Rightarrow> write_block \<Rightarrow> write_block res) \<Rightarrow> int \<Rightarrow> (seri_value \<times> seri_value) list \<Rightarrow>
    write_block \<Rightarrow> write_block res" where
  "wb_table_hash pack n [] wb = wb_nil wb"
| "wb_table_hash pack n ((k, v) # es) wb =
     (if in_array n k then wb_table_hash pack n es wb
      else bind_res (pack k wb) (\<lambda>wb1. bind_res (pack v wb1) (wb_table_hash pack n es)))"

text \<open>The iterator has ended when its first value is nil.\<close>

fun metapairs_loop :: "(seri_value \<Rightarrow> write_block \<Rightarrow> write_block res) \<Rightarrow> (seri_value \<times> seri_value) list \<Rightarrow> write_block \<Rightarrow>
    write_block res" where
  "metapairs_loop pack [] wb = wb_nil wb"
| "metapairs_loop pack ((k, v) # es) wb =
     (if k = SNil then wb_nil wb
      else bind_res (pack k wb) (\<lambda>wb1. bind_res (pack v wb1) (metapairs_loop pack es)))"

definition wb_table_metapairs :: "(seri_value \<Rightarrow> write_block \<Rightarrow> write_block res) \<Rightarrow> (seri_value \<times> seri_value) list \<Rightarrow>
    write_block \<Rightarrow> write_block res" where
  "wb_table_metapairs pack es wb = bind_res (wb_push [COMBINE_TYPE TYPE_TABLE 0] wb) (metapairs_loop pack es)"

definition wb_table :: "((seri_value \<times> seri_value) list \<Rightarrow> nat) \<Rightarrow> (seri_value \<Rightarrow> write_block \<Rightarrow> write_block res) \<Rightarrow>
    (seri_value \<times> seri_value) list \<Rightarrow> write_block \<Rightarrow> write_block res" where
  "wb_table rl pack es wb = bind_res (wb_table_array rl pack es wb) (wb_table_hash pack (array_size rl es) es)"

function pack_one :: "((seri_value \<times> seri_value) list \<Rightarrow> nat) \<Rightarrow> nat \<Rightarrow> seri_value \<Rightarrow> write_block \<Rightarrow> write_block res" where
  "pack_one rl depth =
     (if depth > MAX_DEPTH then (\<lambda>v wb. Inl (LuaError ''serialize can't pack too depth table''))
      else (\<lambda>v wb. case v of
        SNil \<Rightarrow> wb_nil wb
      | SInt x \<Rightarrow> wb_integer x wb
      | SReal x \<Rightarrow> wb_real x wb
      | SBool b \<Rightarrow> wb_boolean b wb
      | SString s \<Rightarrow> wb_string s (sint (of_nat (length s) :: i32)) wb
      | SPointer x \<Rightarrow> wb_pointer x wb
      | STable es \<Rightarrow> wb_table rl (pack_one rl (depth + 1)) es wb
      | SPairs es \<Rightarrow> wb_table_metapairs (pack_one rl (depth + 1)) es wb
      | SOther t \<Rightarrow> Inl (LuaError (''Unsupport type '' @ t @ '' to serialize''))))"
  by pat_completeness auto
termination
  by (relation "measure (\<lambda>(rl, depth). Suc MAX_DEPTH - depth)") auto

declare pack_one.simps [simp del]

definition pack_from :: "((seri_value \<times> seri_value) list \<Rightarrow> nat) \<Rightarrow> seri_value list \<Rightarrow> write_block \<Rightarrow> write_block res" where
  "pack_from rl vs wb = wb_items (pack_one rl 0) vs wb"

text \<open>The loop of \<open>seri\<close>, which flattens the blocks into one buffer.\<close>

definition written :: "byte option list \<Rightarrow> byte list res" where
  "written bs = (if None \<in> set bs then Inl UninitRead else Inr (map the bs))"

fun seri_copy :: "byte option list list \<Rightarrow> int \<Rightarrow> byte list res" where
  "seri_copy bs len =
     (if len > 0 then
        (case bs of [] \<Rightarrow> Inl NullDeref
         | b # bs' \<Rightarrow>
             if len \<ge> int BLOCK_SIZE then
               bind_res (written (take BLOCK_SIZE b)) (\<lambda>x. bind_res (seri_copy bs' (len - int BLOCK_SIZE)) (\<lambda>y. Inr (x @ y)))
             else written (take (nat len) b))
      else Inr [])"

declare seri_copy.simps [simp del]

definition luaseri_pack :: "((seri_value \<times> seri_value) list \<Rightarrow> nat) \<Rightarrow> seri_value list \<Rightarrow> (byte list \<times> int) res" where
  "luaseri_pack rl vs =
     bind_res (pack_from rl vs wb_init) (\<lambda>wb.
     bind_res (seri_copy (wb_blocks wb) (wb_len wb)) (\<lambda>buffer. Inr (buffer, wb_len wb)))"

section \<open>Unpacking\<close>

record read_block =
  rb_buffer :: "byte list"
  rb_len :: int
  rb_ptr :: int

definition rball_init :: "byte list \<Rightarrow> int \<Rightarrow> read_block" where
  "rball_init buffer sz = \<lparr>rb_buffer = buffer, rb_len = sz, rb_ptr = 0\<rparr>"

text \<open>The position of what was read, or NULL.\<close>

definition rb_read :: "int \<Rightarrow> read_block \<Rightarrow> (int \<times> read_block) option" where
  "rb_read sz rb = (if rb_len rb < sz then None else Some (rb_ptr rb, rb\<lparr>rb_ptr := rb_ptr rb + sz, rb_len := rb_len rb - sz\<rparr>))"

definition invalid_stream :: "fault" where
  "invalid_stream = LuaError ''Invalid serialize stream''"

text \<open>\<open>rb_read\<close>, the check of its result, and the access to the bytes.\<close>

definition load :: "nat \<Rightarrow> read_block \<Rightarrow> (byte list \<times> read_block) res" where
  "load n rb =
     (case rb_read (int n) rb of None \<Rightarrow> Inl invalid_stream
      | Some (p, rb1) \<Rightarrow>
          if 0 \<le> p \<and> nat p + n \<le> length (rb_buffer rb) then Inr (take n (drop (nat p) (rb_buffer rb)), rb1) else Inl OutOfBounds)"

definition get_integer :: "int \<Rightarrow> read_block \<Rightarrow> (u64 \<times> read_block) res" where
  "get_integer cookie rb =
     (if cookie = TYPE_NUMBER_ZERO then Inr (0, rb)
      else if cookie = TYPE_NUMBER_BYTE then bind_res (load 1 rb) (\<lambda>(bs, rb1). Inr (ucast (of_nat (mem_nat bs) :: u8), rb1))
      else if cookie = TYPE_NUMBER_WORD then bind_res (load 2 rb) (\<lambda>(bs, rb1). Inr (ucast (of_nat (mem_nat bs) :: u16), rb1))
      else if cookie = TYPE_NUMBER_DWORD then bind_res (load 4 rb) (\<lambda>(bs, rb1). Inr (scast (of_nat (mem_nat bs) :: i32), rb1))
      else if cookie = TYPE_NUMBER_QWORD then bind_res (load 8 rb) (\<lambda>(bs, rb1). Inr (of_nat (mem_nat bs), rb1))
      else Inl invalid_stream)"

definition get_real :: "read_block \<Rightarrow> (u64 \<times> read_block) res" where
  "get_real rb = bind_res (load 8 rb) (\<lambda>(bs, rb1). Inr (of_nat (mem_nat bs), rb1))"

definition get_pointer :: "read_block \<Rightarrow> (u64 \<times> read_block) res" where
  "get_pointer rb = bind_res (load 8 rb) (\<lambda>(bs, rb1). Inr (of_nat (mem_nat bs), rb1))"

text \<open>A negative length passes the test of \<open>rb_read\<close>; \<open>lua_pushlstring\<close> gets it as a \<open>size_t\<close> beyond every limit.\<close>

definition get_buffer :: "int \<Rightarrow> read_block \<Rightarrow> (byte list \<times> read_block) res" where
  "get_buffer len rb =
     (if len < 0 then
        (case rb_read len rb of None \<Rightarrow> Inl invalid_stream | Some _ \<Rightarrow> Inl (LuaError ''memory allocation error: block too big''))
      else load (nat len) rb)"

text \<open>A NaN, and what \<open>lua_rawset\<close> does to a table. A table is a key of its own, equal to no other.\<close>

definition is_nan :: "u64 \<Rightarrow> bool" where
  "is_nan x \<longleftrightarrow> 0x7ff0000000000000 < x AND 0x7fffffffffffffff"

fun is_table :: "seri_value \<Rightarrow> bool" where
  "is_table (STable _) = True"
| "is_table (SPairs _) = True"
| "is_table _ = False"

definition same_key :: "seri_value \<Rightarrow> seri_value \<Rightarrow> bool" where
  "same_key k k' \<longleftrightarrow> k = k' \<and> \<not> is_table k"

definition set_entry :: "seri_value \<Rightarrow> seri_value \<Rightarrow> (seri_value \<times> seri_value) list \<Rightarrow> (seri_value \<times> seri_value) list" where
  "set_entry k v es =
     (if v = SNil then filter (\<lambda>(k', _). \<not> same_key k k') es
      else if \<exists>(k', _) \<in> set es. same_key k k' then map (\<lambda>(k', v'). if same_key k k' then (k', v) else (k', v')) es
      else es @ [(k, v)])"

definition rawset :: "(u64 \<Rightarrow> u64 option) \<Rightarrow> seri_value \<Rightarrow> seri_value \<Rightarrow> (seri_value \<times> seri_value) list \<Rightarrow>
    (seri_value \<times> seri_value) list res" where
  "rawset flt_int k v es =
     (case k of
        SNil \<Rightarrow> Inl (LuaError ''table index is nil'')
      | SReal x \<Rightarrow>
          (case flt_int x of Some i \<Rightarrow> Inr (set_entry (SInt i) v es)
           | None \<Rightarrow> if is_nan x then Inl (LuaError ''table index is NaN'') else Inr (set_entry k v es))
      | _ \<Rightarrow> Inr (set_entry k v es))"

definition type_cookie :: "read_block \<Rightarrow> ((int \<times> int) \<times> read_block) res" where
  "type_cookie rb = bind_res (load 1 rb) (\<lambda>(bs, rb1). Inr ((uint (hd bs AND 7), uint (drop_bit 3 (hd bs))), rb1))"

text \<open>The number of array elements of a table.\<close>

definition unpack_size :: "int \<Rightarrow> read_block \<Rightarrow> (int \<times> read_block) res" where
  "unpack_size n rb =
     (if n = MAX_COOKIE - 1 then
        bind_res (type_cookie rb) (\<lambda>((type, cookie), rb1).
          if type \<noteq> TYPE_NUMBER \<or> cookie = TYPE_NUMBER_REAL then Inl invalid_stream
          else bind_res (get_integer cookie rb1) (\<lambda>(x, rb2). Inr (sint (ucast x :: i32), rb2)))
      else Inr (n, rb))"

definition long_string :: "int \<Rightarrow> read_block \<Rightarrow> (byte list \<times> read_block) res" where
  "long_string cookie rb =
     (if cookie = 2 then bind_res (load 2 rb) (\<lambda>(bs, rb1). get_buffer (int (mem_nat bs)) rb1)
      else if cookie \<noteq> 4 then Inl invalid_stream
      else bind_res (load 4 rb) (\<lambda>(bs, rb1). get_buffer (sint (of_nat (mem_nat bs) :: i32)) rb1))"

text \<open>
  The loops of \<open>unpack_table\<close>, over \<open>unpack_one\<close>: the array elements from \<open>i\<close> on, \<open>m\<close> of them, and
  the pairs up to a nil, whose rounds a number bounds.
\<close>

fun unpack_array :: "(read_block \<Rightarrow> (seri_value \<times> read_block) res) \<Rightarrow> int \<Rightarrow> nat \<Rightarrow> (seri_value \<times> seri_value) list \<Rightarrow>
    read_block \<Rightarrow> ((seri_value \<times> seri_value) list \<times> read_block) res" where
  "unpack_array one i 0 es rb = Inr (es, rb)"
| "unpack_array one i (Suc m) es rb =
     bind_res (one rb) (\<lambda>(v, rb1). unpack_array one (i + 1) m (set_entry (SInt (word_of_int i)) v es) rb1)"

fun unpack_hash :: "(u64 \<Rightarrow> u64 option) \<Rightarrow> (read_block \<Rightarrow> (seri_value \<times> read_block) res) \<Rightarrow> nat \<Rightarrow>
    (seri_value \<times> seri_value) list \<Rightarrow> read_block \<Rightarrow> ((seri_value \<times> seri_value) list \<times> read_block) res" where
  "unpack_hash fi one 0 es rb = Inl Diverges"
| "unpack_hash fi one (Suc k) es rb =
     bind_res (one rb) (\<lambda>(key, rb1).
       if key = SNil then Inr (es, rb1)
       else bind_res (one rb1) (\<lambda>(v, rb2).
            bind_res (rawset fi key v es) (\<lambda>es1. unpack_hash fi one k es1 rb2)))"

text \<open>A bound that is never reached: each round reads a byte.\<close>

definition rb_fuel :: "read_block \<Rightarrow> nat" where
  "rb_fuel rb = nat (rb_len rb) + 1"

definition unpack_table :: "(u64 \<Rightarrow> u64 option) \<Rightarrow> (read_block \<Rightarrow> (seri_value \<times> read_block) res) \<Rightarrow> int \<Rightarrow> read_block \<Rightarrow>
    (seri_value \<times> read_block) res" where
  "unpack_table fi one cookie rb =
     bind_res (unpack_size cookie rb) (\<lambda>(n, rb1).
     bind_res (unpack_array one 1 (nat n) [] rb1) (\<lambda>(es, rb2).
     bind_res (unpack_hash fi one (rb_fuel rb2) es rb2) (\<lambda>(es1, rb3). Inr (STable es1, rb3))))"

definition push_value :: "(u64 \<Rightarrow> u64 option) \<Rightarrow> (read_block \<Rightarrow> (seri_value \<times> read_block) res) \<Rightarrow> int \<Rightarrow> int \<Rightarrow> read_block \<Rightarrow>
    (seri_value \<times> read_block) res" where
  "push_value fi one type cookie rb =
     (if type = TYPE_NIL then Inr (SNil, rb)
      else if type = TYPE_BOOLEAN then Inr (SBool (cookie \<noteq> 0), rb)
      else if type = TYPE_NUMBER then
        (if cookie = TYPE_NUMBER_REAL then bind_res (get_real rb) (\<lambda>(x, rb1). Inr (SReal x, rb1))
         else bind_res (get_integer cookie rb) (\<lambda>(x, rb1). Inr (SInt x, rb1)))
      else if type = TYPE_USERDATA then bind_res (get_pointer rb) (\<lambda>(x, rb1). Inr (SPointer x, rb1))
      else if type = TYPE_SHORT_STRING then bind_res (get_buffer cookie rb) (\<lambda>(s, rb1). Inr (SString s, rb1))
      else if type = TYPE_LONG_STRING then bind_res (long_string cookie rb) (\<lambda>(s, rb1). Inr (SString s, rb1))
      else if type = TYPE_TABLE then unpack_table fi one cookie rb
      else Inl invalid_stream)"

text \<open>A number bounds how deep tables nest; the code has no bound of its own.\<close>

primrec unpack_one :: "(u64 \<Rightarrow> u64 option) \<Rightarrow> nat \<Rightarrow> read_block \<Rightarrow> (seri_value \<times> read_block) res" where
  "unpack_one fi 0 = (\<lambda>rb. Inl Diverges)"
| "unpack_one fi (Suc k) = (\<lambda>rb. bind_res (type_cookie rb) (\<lambda>((type, cookie), rb1). push_value fi (unpack_one fi k) type cookie rb1))"

fun unpack_values :: "(u64 \<Rightarrow> u64 option) \<Rightarrow> nat \<Rightarrow> read_block \<Rightarrow> seri_value list res" where
  "unpack_values fi 0 rb = Inl Diverges"
| "unpack_values fi (Suc k) rb =
     (if rb_len rb < 1 then Inr []
      else bind_res (unpack_one fi (rb_fuel rb) rb) (\<lambda>(v, rb1). bind_res (unpack_values fi k rb1) (\<lambda>vs. Inr (v # vs))))"

text \<open>Of a buffer, given as a string or as a pointer (NULL is \<open>None\<close>) with its length; nothing or nil gives no values.\<close>

definition luaseri_unpack :: "(u64 \<Rightarrow> u64 option) \<Rightarrow> (byte list option \<times> int) option \<Rightarrow> seri_value list res" where
  "luaseri_unpack fi args =
     (case args of None \<Rightarrow> Inr []
      | Some (buffer, len) \<Rightarrow>
          if len = 0 then Inr []
          else case buffer of None \<Rightarrow> Inl (LuaError ''deserialize null pointer'')
            | Some bs \<Rightarrow> unpack_values fi (rb_fuel (rball_init bs len)) (rball_init bs len))"

end
