(* ===== verification/SeriWire.thy ===== *)
theory SeriWire
  imports Seri
begin

unbundle bit_operations_syntax

text \<open>
  The wire format of \<open>lualib-src/lua-seri.c\<close>: the chain of blocks holds the bytes written so far, a
  read takes them from the front, and what the writers of scalars and strings emit is read back.
\<close>

section \<open>The chain of blocks\<close>

text \<open>The bytes written so far.\<close>

definition wb_rep :: "write_block \<Rightarrow> byte list \<Rightarrow> bool" where
  "wb_rep b bs \<longleftrightarrow> wb_blocks b \<noteq> [] \<and> (\<forall>blk \<in> set (wb_blocks b). length blk = BLOCK_SIZE) \<and> wb_ptr b \<le> BLOCK_SIZE \<and>
     wb_len b = int (length bs) \<and> length bs = BLOCK_SIZE * (length (wb_blocks b) - 1) + wb_ptr b \<and> length bs < 2 ^ 31 \<and>
     take (length bs) (concat (wb_blocks b)) = map Some bs"

lemma wb_repD:
  assumes "wb_rep b bs"
  shows "wb_blocks b \<noteq> []" "\<forall>blk \<in> set (wb_blocks b). length blk = BLOCK_SIZE" "wb_ptr b \<le> BLOCK_SIZE" "wb_len b = int (length bs)"
    "length bs = BLOCK_SIZE * (length (wb_blocks b) - 1) + wb_ptr b" "length bs < 2 ^ 31" "take (length bs) (concat (wb_blocks b)) = map Some bs"
  using assms unfolding wb_rep_def by blast+

lemma length_concat_blocks: "\<forall>blk \<in> set bl. length blk = n \<Longrightarrow> length (concat bl) = n * length bl"
  by (induction bl) auto

lemma wb_init_rep: "wb_rep wb_init []"
  by (simp add: wb_rep_def wb_init_def blk_alloc_def BLOCK_SIZE_def)

lemma wb_next_rep:
  assumes "wb_rep b bs" "wb_ptr b = BLOCK_SIZE"
  shows "wb_rep (wb_next b) bs"
proof -
  note d = wb_repD [OF assms(1)]
  have n: "length bs = BLOCK_SIZE * length (wb_blocks b)"
    using d(1,5) assms(2) by (cases "wb_blocks b") (simp_all add: BLOCK_SIZE_def)
  with length_concat_blocks [OF d(2)] d(7) have "take (length bs) (concat (wb_blocks b @ [blk_alloc])) = map Some bs" by simp
  with d n show ?thesis by (auto simp: wb_rep_def wb_next_def blk_alloc_def)
qed

lemma wb_store_rep:
  assumes "wb_rep b bs" "wb_ptr b + length buf \<le> BLOCK_SIZE"
  shows "(length bs + length buf < 2 ^ 31 \<longrightarrow> (\<exists>b'. wb_store buf b = Inr b' \<and> wb_rep b' (bs @ buf) \<and> wb_ptr b' = wb_ptr b + length buf)) \<and>
    (\<not> length bs + length buf < 2 ^ 31 \<longrightarrow> wb_store buf b = Inl IntOverflow)"
proof -
  let ?bl = "wb_blocks b" and ?cur = "last (wb_blocks b)"
  have ne: "?bl \<noteq> []" and len: "\<forall>blk \<in> set ?bl. length blk = BLOCK_SIZE" and l: "wb_len b = int (length bs)"
    and lb: "length bs = BLOCK_SIZE * (length ?bl - 1) + wb_ptr b" and tk: "take (length bs) (concat ?bl) = map Some bs"
    by (rule wb_repD [OF assms(1)])+
  have bl: "?bl = butlast ?bl @ [?cur]" using ne by simp
  have "\<forall>blk \<in> set (butlast ?bl). length blk = BLOCK_SIZE" using len in_set_butlastD by fast
  from length_concat_blocks [OF this] have lc: "length (concat (butlast ?bl)) = BLOCK_SIZE * (length ?bl - 1)" by simp
  have cc: "concat ?bl = concat (butlast ?bl) @ ?cur" using arg_cong [OF bl, of concat] by simp
  have lcur: "length ?cur = BLOCK_SIZE" using len ne by simp
  have m: "concat (butlast ?bl) @ take (wb_ptr b) ?cur = map Some bs" using tk unfolding cc lb by (simp add: lc)
  let ?new = "take (wb_ptr b) ?cur @ map Some buf @ drop (wb_ptr b + length buf) ?cur"
  have "take (length (bs @ buf)) (concat (butlast ?bl @ [?new])) = map Some (bs @ buf)"
  proof -
    have e: "concat (butlast ?bl @ [?new]) = map Some (bs @ buf) @ drop (wb_ptr b + length buf) ?cur"
      using m [symmetric] by simp
    show ?thesis unfolding e by simp
  qed
  moreover have "length ?new = BLOCK_SIZE" using assms(2) lcur by simp
  moreover have "\<forall>blk \<in> set (butlast ?bl). length blk = BLOCK_SIZE" using len in_set_butlastD by fast
  ultimately have "wb_rep (b\<lparr>wb_blocks := butlast ?bl @ [?new], wb_len := wb_len b + int (length buf), wb_ptr := wb_ptr b + length buf\<rparr>) (bs @ buf)"
    if "length bs + length buf < 2 ^ 31"
    unfolding wb_rep_def using assms(2) lb l that by (auto simp del: concat_append)
  then show ?thesis by (auto simp: wb_store_def Let_def l)
qed

lemma wb_copy_rep:
  assumes "wb_rep b bs"
  shows "(length bs + length buf < 2 ^ 31 \<longrightarrow> (\<exists>b'. wb_copy buf b = Inr b' \<and> wb_rep b' (bs @ buf))) \<and>
    (\<not> length bs + length buf < 2 ^ 31 \<longrightarrow> wb_copy buf b = Inl IntOverflow)"
  using assms
proof (induction buf b arbitrary: bs rule: wb_copy.induct)
  case (1 buf b)
  show ?case
  proof (cases "wb_ptr b + length buf \<le> BLOCK_SIZE")
    case True
    with wb_store_rep [OF 1(2) True] show ?thesis by (auto simp: wb_copy.simps [of buf b])
  next
    case False
    let ?c = "BLOCK_SIZE - wb_ptr b"
    have p: "wb_ptr b \<le> BLOCK_SIZE" using 1(2) by (simp add: wb_rep_def)
    have lc: "length (take ?c buf) = ?c" using False p by simp
    have "wb_ptr b + length (take ?c buf) \<le> BLOCK_SIZE" using p lc by simp
    note store = wb_store_rep [OF 1(2) this, unfolded lc]
    show ?thesis
    proof (cases "length bs + ?c < 2 ^ 31")
      case lt: True
      with store obtain b1 where b1: "wb_store (take ?c buf) b = Inr b1" "wb_rep b1 (bs @ take ?c buf)" "wb_ptr b1 = wb_ptr b + ?c" by auto
      have "wb_rep (wb_next b1) (bs @ take ?c buf)" using b1(2,3) p by (intro wb_next_rep) simp_all
      note IH = 1(1) [OF False refl b1(1) this]
      have "length (bs @ take ?c buf) + length (drop ?c buf) = length bs + length buf" using lc by simp
      with IH b1(1) False show ?thesis by (simp add: wb_copy.simps [of buf b] Let_def)
    next
      case ge: False
      then have "\<not> length bs + length buf < 2 ^ 31" using lc False by auto
      with store ge False show ?thesis by (simp add: wb_copy.simps [of buf b] Let_def)
    qed
  qed
qed

lemma wb_push_rep:
  assumes "wb_rep b bs"
  shows "length bs + length buf < 2 ^ 31 \<Longrightarrow> \<exists>b'. wb_push buf b = Inr b' \<and> wb_rep b' (bs @ buf)"
    "\<not> length bs + length buf < 2 ^ 31 \<Longrightarrow> wb_push buf b = Inl IntOverflow"
  using wb_copy_rep [OF assms] wb_copy_rep [OF wb_next_rep [OF assms]] by (auto simp: wb_push_def)

lemma wb_push_Inr: "wb_rep b bs \<Longrightarrow> wb_push buf b = Inr b' \<Longrightarrow> wb_rep b' (bs @ buf)"
  using wb_push_rep [of b bs buf] by (cases "length bs + length buf < 2 ^ 31") auto

lemma seri_copy_all:
  assumes "\<forall>blk \<in> set bl. length blk = BLOCK_SIZE" "take (length bs) (concat bl) = map Some bs"
  shows "seri_copy bl (int (length bs)) = Inr bs"
  using assms
proof (induction bl arbitrary: bs)
  case Nil
  then show ?case by (simp add: seri_copy.simps)
next
  case (Cons b bl)
  have lb: "length b = BLOCK_SIZE" using Cons.prems(1) by simp
  show ?case
  proof (cases "length bs \<ge> BLOCK_SIZE")
    case True
    then have ge: "int (length bs) \<ge> int BLOCK_SIZE" by simp
    have "b @ take (length bs - BLOCK_SIZE) (concat bl) = map Some (take BLOCK_SIZE bs) @ map Some (drop BLOCK_SIZE bs)"
      using Cons.prems(2) lb True by (simp flip: map_append)
    then have b: "b = map Some (take BLOCK_SIZE bs)" and r: "take (length (drop BLOCK_SIZE bs)) (concat bl) = map Some (drop BLOCK_SIZE bs)"
      using lb True by (simp_all add: append_eq_append_conv)
    have w: "written (take BLOCK_SIZE b) = Inr (take BLOCK_SIZE bs)" unfolding b by (auto simp: written_def take_map comp_def)
    have "seri_copy bl (int (length (drop BLOCK_SIZE bs))) = Inr (drop BLOCK_SIZE bs)" using Cons.IH [OF _ r] Cons.prems(1) by simp
    then have "seri_copy bl (int (length bs) - int BLOCK_SIZE) = Inr (drop BLOCK_SIZE bs)" using True by (simp add: of_nat_diff)
    with w ge show ?thesis by (simp add: seri_copy.simps [of "b # bl"] BLOCK_SIZE_def)
  next
    case False
    then have "take (length bs) b = map Some bs" using Cons.prems(2) lb by simp
    then have "written (take (length bs) b) = Inr bs" by (auto simp: written_def comp_def)
    with False show ?thesis by (auto simp: seri_copy.simps [of "b # bl"])
  qed
qed

lemma seri_copy_rep: "wb_rep b bs \<Longrightarrow> seri_copy (wb_blocks b) (wb_len b) = Inr bs"
  using seri_copy_all [OF wb_repD(2,7)] wb_repD(4) by metis

section \<open>Reading\<close>

definition rb_ok :: "read_block \<Rightarrow> bool" where
  "rb_ok rb \<longleftrightarrow> 0 \<le> rb_ptr rb \<and> 0 \<le> rb_len rb \<and> rb_len rb < 2 ^ 31 \<and> rb_ptr rb + rb_len rb \<le> int (length (rb_buffer rb))"

definition rest :: "read_block \<Rightarrow> byte list" where
  "rest rb = take (nat (rb_len rb)) (drop (nat (rb_ptr rb)) (rb_buffer rb))"

lemma length_rest: "rb_ok rb \<Longrightarrow> int (length (rest rb)) = rb_len rb"
  by (auto simp: rb_ok_def rest_def min_def nat_le_iff)

lemma load_rest:
  assumes "rb_ok rb"
  shows "n \<le> length (rest rb) \<Longrightarrow> \<exists>rb'. load n rb = Inr (take n (rest rb), rb') \<and> rb_ok rb' \<and> rest rb' = drop n (rest rb)"
    "\<not> n \<le> length (rest rb) \<Longrightarrow> load n rb = Inl invalid_stream"
proof -
  from assms obtain p L where p: "rb_ptr rb = int p" and L: "rb_len rb = int L" unfolding rb_ok_def by (metis nonneg_int_cases)
  have le: "p + L \<le> length (rb_buffer rb)" "int L < 2 ^ 31" using assms by (simp_all add: rb_ok_def p L)
  have r: "rest rb = take L (drop p (rb_buffer rb))" "length (rest rb) = L" using le(1) by (simp_all add: rest_def p L)
  show "load n rb = Inl invalid_stream" if "\<not> n \<le> length (rest rb)"
    using that r(2) by (simp add: load_def rb_read_def L)
  assume n: "n \<le> length (rest rb)"
  let ?rb = "rb\<lparr>rb_ptr := rb_ptr rb + int n, rb_len := rb_len rb - int n\<rparr>"
  have "load n rb = Inr (take n (rest rb), ?rb)" using n le(1) r by (simp add: load_def rb_read_def p L)
  moreover have "rb_ok ?rb" using n le r(2) by (simp add: rb_ok_def p L)
  moreover have "rest ?rb = drop n (rest rb)"
  proof -
    have "nat (int p + int n) = n + p" "nat (int L - int n) = L - n" by linarith+
    then show ?thesis by (simp add: rest_def p L drop_take)
  qed
  ultimately show "\<exists>rb'. load n rb = Inr (take n (rest rb), rb') \<and> rb_ok rb' \<and> rest rb' = drop n (rest rb)" by blast
qed

lemma load_bytes:
  assumes "rb_ok rb" "rest rb = bs @ tail" "length bs = n"
  obtains rb' where "load n rb = Inr (bs, rb')" "rb_ok rb'" "rest rb' = tail"
  using load_rest(1) [OF assms(1), of n] assms(2,3) by auto

lemma length_mem_bytes [simp]: "length (mem_bytes n x) = n"
  by (induction n arbitrary: x) simp_all

lemma mem_nat_bytes: "mem_nat (mem_bytes n x) = x mod 256 ^ n"
proof (induction n arbitrary: x)
  case (Suc n)
  have "unat (of_nat x :: byte) = x mod 256" by (simp add: unat_of_nat take_bit_eq_mod)
  with Suc show ?case by (simp add: mod_mult2_eq)
qed simp

lemma type_cookie_combine:
  assumes "0 \<le> t" "t < 8" "0 \<le> c" "c < 32"
  shows "uint (COMBINE_TYPE t c AND 7) = t" "uint (drop_bit 3 (COMBINE_TYPE t c)) = c"
proof -
  have "t = 0 \<or> t = 1 \<or> t = 2 \<or> t = 3 \<or> t = 4 \<or> t = 5 \<or> t = 6 \<or> t = 7" using assms(1,2) by arith
  then have t: "take_bit 3 (word_of_int t :: byte) = word_of_int t" "drop_bit 3 (word_of_int t :: byte) = 0" by auto
  have "COMBINE_TYPE t c AND 7 = take_bit 3 (COMBINE_TYPE t c)" by (simp add: take_bit_eq_mask mask_eq_exp_minus_1)
  also have "\<dots> = word_of_int t" using t(1) by (simp add: COMBINE_TYPE_def take_bit_or take_bit_push_bit)
  finally show "uint (COMBINE_TYPE t c AND 7) = t" using assms(1,2) by (simp add: uint_word_of_int)
  have "drop_bit 3 (COMBINE_TYPE t c) = take_bit 5 (word_of_int c :: byte)" using t(2)
    by (simp add: COMBINE_TYPE_def drop_bit_or) (simp add: bit_eq_iff bit_simps; auto)
  also have "uint \<dots> = take_bit 5 (uint (word_of_int c :: byte))" by (simp only: unsigned_take_bit_eq)
  also have "\<dots> = c" using assms(3,4) by (simp add: uint_word_of_int take_bit_int_eq_self)
  finally show "uint (drop_bit 3 (COMBINE_TYPE t c)) = c" .
qed

section \<open>What is written is read back\<close>

text \<open>The bytes \<open>bs\<close> in front of anything are read as \<open>v\<close>.\<close>

definition decodes :: "(u64 \<Rightarrow> u64 option) \<Rightarrow> byte list \<Rightarrow> seri_value \<Rightarrow> bool" where
  "decodes fi bs v \<longleftrightarrow> (\<forall>rb tail k. rb_ok rb \<longrightarrow> rest rb = bs @ tail \<longrightarrow> length bs \<le> k \<longrightarrow>
     (\<exists>rb'. unpack_one fi k rb = Inr (v, rb') \<and> rb_ok rb' \<and> rest rb' = tail))"

lemma decodesD:
  assumes "decodes fi bs v" "rb_ok rb" "rest rb = bs @ tail" "length bs \<le> k"
  obtains rb' where "unpack_one fi k rb = Inr (v, rb')" "rb_ok rb'" "rest rb' = tail"
  using assms unfolding decodes_def by blast

lemma type_cookie_read:
  assumes "rb_ok rb" "rest rb = COMBINE_TYPE t c # body" "0 \<le> t" "t < 8" "0 \<le> c" "c < 32"
  obtains rb' where "type_cookie rb = Inr ((t, c), rb')" "rb_ok rb'" "rest rb' = body"
proof -
  have "rest rb = [COMBINE_TYPE t c] @ body" using assms(2) by simp
  from load_bytes [OF assms(1) this] obtain rb' where "load 1 rb = Inr ([COMBINE_TYPE t c], rb')" "rb_ok rb'" "rest rb' = body" by auto
  with that type_cookie_combine [OF assms(3-6)] show thesis by (simp add: type_cookie_def)
qed

lemma decodesI:
  assumes "0 \<le> t" "t < 8" "0 \<le> c" "c < 32"
    "\<And>rb tail k. rb_ok rb \<Longrightarrow> rest rb = body @ tail \<Longrightarrow> length body \<le> k \<Longrightarrow>
       \<exists>rb'. push_value fi (unpack_one fi k) t c rb = Inr (v, rb') \<and> rb_ok rb' \<and> rest rb' = tail"
  shows "decodes fi (COMBINE_TYPE t c # body) v"
  unfolding decodes_def
proof (intro allI impI)
  fix rb tail k assume r: "rb_ok rb" "rest rb = (COMBINE_TYPE t c # body) @ tail" "length (COMBINE_TYPE t c # body) \<le> k"
  then have r2: "rest rb = COMBINE_TYPE t c # body @ tail" by simp
  from r(3) obtain k' where k: "k = Suc k'" "length body \<le> k'" by (cases k) auto
  from type_cookie_read [OF r(1) r2 assms(1-4)] obtain rb1 where rb1: "type_cookie rb = Inr ((t, c), rb1)" "rb_ok rb1" "rest rb1 = body @ tail" .
  from assms(5) [OF rb1(2,3) k(2)] rb1(1) show "\<exists>rb'. unpack_one fi k rb = Inr (v, rb') \<and> rb_ok rb' \<and> rest rb' = tail"
    by (simp add: k(1))
qed

lemma no_cookie: "word_of_int TYPE_NIL = COMBINE_TYPE 0 0" "word_of_int TYPE_USERDATA = COMBINE_TYPE 3 0"
  by (simp_all add: COMBINE_TYPE_def seri_consts)

text \<open>The cookie and the bytes of an integer.\<close>

definition int_body :: "u64 \<Rightarrow> int \<times> byte list" where
  "int_body v =
     (if v = 0 then (0, [])
      else if v \<noteq> scast (ucast v :: i32) then (6, mem_bytes 8 (unat v))
      else if sint v < 0 then (4, mem_bytes 4 (unat (ucast v :: i32)))
      else if sint v < 0x100 then (1, mem_bytes 1 (unat (ucast v :: u8)))
      else if sint v < 0x10000 then (2, mem_bytes 2 (unat (ucast v :: u16)))
      else (4, mem_bytes 4 (unat (ucast v :: u32))))"

lemma push_two:
  assumes "wb_rep b bs" "bind_res (wb_push [x] b) (wb_push ys) = Inr b'"
  shows "wb_rep b' (bs @ x # ys)"
proof -
  from assms(2) obtain b1 where b1: "wb_push [x] b = Inr b1" "wb_push ys b1 = Inr b'" by (auto simp: bind_res_eq_Inr)
  from wb_push_Inr [OF wb_push_Inr [OF assms(1) b1(1)] b1(2)] show ?thesis by simp
qed

lemma wb_integer_Inr:
  assumes "wb_rep b bs" "wb_integer v b = Inr b'"
  shows "wb_rep b' (bs @ COMBINE_TYPE 2 (fst (int_body v)) # snd (int_body v))"
  using assms(2) push_two [OF assms(1)] wb_push_Inr [OF assms(1)]
  by (simp add: wb_integer_def int_body_def seri_consts Let_def split: if_splits)

lemma int_body_cookie: "0 \<le> fst (int_body v)" "fst (int_body v) < 8"
  by (simp_all add: int_body_def)

lemma unat_mem: "unat (w :: 'w :: len word) < 256 ^ n \<Longrightarrow> mem_nat (mem_bytes n (unat w)) = unat w"
  by (simp add: mem_nat_bytes)

lemma unat_bounds: "unat (w8 :: u8) < 256 ^ 1" "unat (w16 :: u16) < 256 ^ 2" "unat (w32 :: u32) < 256 ^ 4" "unat (w64 :: u64) < 256 ^ 8"
  using unsigned_less [of w8, where ?'a = nat] unsigned_less [of w16, where ?'a = nat] unsigned_less [of w32, where ?'a = nat]
    unsigned_less [of w64, where ?'a = nat] by simp_all

lemma ucast_small:
  assumes "0 \<le> sint (v :: u64)" "sint v < 2 ^ LENGTH('w :: len)" "LENGTH('w) < 64"
  shows "ucast (ucast v :: 'w word) = v"
proof -
  have "sint v = uint v"
  proof -
    have "sint v = take_bit 64 (uint v) - 2 ^ 64 * of_bool (bit (uint v) 63)"
      by (simp add: sint_uint signed_take_bit_eq_take_bit_minus)
    moreover have "take_bit 64 (uint v) = uint v" "uint v < 2 ^ 64"
      using unsigned_less [of v, where ?'a = int] by (simp_all add: take_bit_int_eq_self)
    ultimately show ?thesis using assms(1) by (cases "bit (uint v) 63") simp_all
  qed
  then have "uint v < 2 ^ LENGTH('w)" using assms(2) by simp
  then show ?thesis by (simp add: word_uint_eq_iff unsigned_ucast_eq unsigned_take_bit_eq take_bit_int_eq_self)
qed

lemma get_integer_body:
  assumes "rb_ok rb" "rest rb = snd (int_body v) @ tail"
  shows "\<exists>rb'. get_integer (fst (int_body v)) rb = Inr (v, rb') \<and> rb_ok rb' \<and> rest rb' = tail"
proof -
  have read: "\<exists>rb'. load n rb = Inr (mem_bytes n x, rb') \<and> rb_ok rb' \<and> rest rb' = tail" if "snd (int_body v) = mem_bytes n x" for n x
    using load_bytes [OF assms(1) assms(2) [unfolded that]] by (metis length_mem_bytes)
  have w4: "ucast v = (ucast v :: i32)" by simp
  consider "v = 0" | "v \<noteq> scast (ucast v :: i32)" "v \<noteq> 0" | "v = scast (ucast v :: i32)" "sint v < 0" "v \<noteq> 0"
    | "v = scast (ucast v :: i32)" "0 \<le> sint v" "sint v < 0x100" "v \<noteq> 0" | "v = scast (ucast v :: i32)" "0x100 \<le> sint v" "sint v < 0x10000" "v \<noteq> 0"
    | "v = scast (ucast v :: i32)" "0x10000 \<le> sint v" "v \<noteq> 0" by linarith
  then show ?thesis
  proof cases
    case 1
    with assms show ?thesis by (simp add: int_body_def get_integer_def seri_consts)
  next
    case 2
    then have b: "int_body v = (6, mem_bytes 8 (unat v))" by (simp add: int_body_def)
    with read [of 8 "unat v"] show ?thesis by (auto simp: get_integer_def seri_consts unat_mem [OF unat_bounds(4)])
  next
    case 3
    then have b: "int_body v = (4, mem_bytes 4 (unat (ucast v :: i32)))" by (simp add: int_body_def)
    with read [of 4 "unat (ucast v :: i32)"] 3 show ?thesis by (auto simp: get_integer_def seri_consts unat_mem [OF unat_bounds(3)])
  next
    case 4
    then have b: "int_body v = (1, mem_bytes 1 (unat (ucast v :: u8)))" by (simp add: int_body_def)
    with read [of 1 "unat (ucast v :: u8)"] ucast_small [of v, where 'w = 8] 4 show ?thesis
      by (auto simp: get_integer_def seri_consts unat_mem [OF unat_bounds(1)] simp del: mem_bytes.simps One_nat_def)
  next
    case 5
    then have b: "int_body v = (2, mem_bytes 2 (unat (ucast v :: u16)))" by (simp add: int_body_def)
    with read [of 2 "unat (ucast v :: u16)"] ucast_small [of v, where 'w = 16] 5 show ?thesis
      by (auto simp: get_integer_def seri_consts unat_mem [OF unat_bounds(2)])
  next
    case 6
    then have b: "int_body v = (4, mem_bytes 4 (unat (ucast v :: u32)))" by (simp add: int_body_def)
    with read [of 4 "unat (ucast v :: u32)"] 6 show ?thesis by (auto simp: get_integer_def seri_consts unat_mem [OF unat_bounds(3)])
  qed
qed

definition emits :: "(u64 \<Rightarrow> u64 option) \<Rightarrow> (write_block \<Rightarrow> write_block res) \<Rightarrow> (seri_value \<Rightarrow> bool) \<Rightarrow> bool" where
  "emits fi f Q \<longleftrightarrow> (\<forall>b bs b'. wb_rep b bs \<longrightarrow> f b = Inr b' \<longrightarrow> (\<exists>cs v. wb_rep b' (bs @ cs) \<and> decodes fi cs v \<and> Q v))"

lemma emitsI:
  assumes "\<And>b bs b'. wb_rep b bs \<Longrightarrow> f b = Inr b' \<Longrightarrow> wb_rep b' (bs @ cs)" "decodes fi cs v" "Q v"
  shows "emits fi f Q"
  using assms unfolding emits_def by blast

lemma emitsD:
  assumes "emits fi f Q" "wb_rep b bs" "f b = Inr b'"
  obtains cs v where "wb_rep b' (bs @ cs)" "decodes fi cs v" "Q v"
  using assms unfolding emits_def by blast

lemma decodes_nil: "decodes fi [COMBINE_TYPE 0 0] SNil"
  by (rule decodesI) (simp_all add: push_value_def seri_consts)

lemma emits_nil: "Q SNil \<Longrightarrow> emits fi wb_nil Q"
  by (rule emitsI [OF _ decodes_nil]) (simp_all add: wb_nil_def no_cookie wb_push_Inr)

lemma emits_boolean: "Q (SBool x) \<Longrightarrow> emits fi (wb_boolean x) Q"
proof (rule emitsI)
  show "decodes fi [COMBINE_TYPE 1 (if x then 1 else 0)] (SBool x)"
    by (rule decodesI) (simp_all add: push_value_def seri_consts)
qed (simp_all add: wb_boolean_def seri_consts wb_push_Inr)

lemma emits_integer: "Q (SInt x) \<Longrightarrow> emits fi (wb_integer x) Q"
proof (rule emitsI)
  show "decodes fi (COMBINE_TYPE 2 (fst (int_body x)) # snd (int_body x)) (SInt x)"
  proof (rule decodesI)
    fix rb tail k assume r: "rb_ok rb" "rest rb = snd (int_body x) @ tail"
    from get_integer_body [OF r] int_body_cookie [of x]
    show "\<exists>rb'. push_value fi (unpack_one fi k) 2 (fst (int_body x)) rb = Inr (SInt x, rb') \<and> rb_ok rb' \<and> rest rb' = tail"
      by (auto simp: push_value_def seri_consts)
  qed (use int_body_cookie [of x] in simp_all)
qed (simp_all add: wb_integer_Inr)

lemma load_word:
  assumes "rb_ok rb" "rest rb = mem_bytes 8 (unat (x :: u64)) @ tail"
  obtains rb' where "load 8 rb = Inr (mem_bytes 8 (unat x), rb')" "rb_ok rb'" "rest rb' = tail" "of_nat (mem_nat (mem_bytes 8 (unat x))) = x"
  using load_bytes [OF assms, of 8] unat_mem [OF unat_bounds(4), of x] that by (metis length_mem_bytes of_nat_unat ucast_id)

lemma emits_real: "Q (SReal x) \<Longrightarrow> emits fi (wb_real x) Q"
proof (rule emitsI)
  show "decodes fi (COMBINE_TYPE 2 8 # mem_bytes 8 (unat x)) (SReal x)"
  proof (rule decodesI)
    fix rb tail k assume r: "rb_ok rb" "rest rb = mem_bytes 8 (unat x) @ tail"
    from load_word [OF r] obtain rb' where "load 8 rb = Inr (mem_bytes 8 (unat x), rb')" "rb_ok rb'" "rest rb' = tail"
      "of_nat (mem_nat (mem_bytes 8 (unat x))) = x" .
    then show "\<exists>rb'. push_value fi (unpack_one fi k) 2 8 rb = Inr (SReal x, rb') \<and> rb_ok rb' \<and> rest rb' = tail"
      by (simp add: push_value_def get_real_def seri_consts del: mem_bytes.simps)
  qed simp_all
qed (simp_all add: wb_real_def seri_consts push_two)

lemma emits_pointer: "Q (SPointer x) \<Longrightarrow> emits fi (wb_pointer x) Q"
proof (rule emitsI)
  show "decodes fi (COMBINE_TYPE 3 0 # mem_bytes 8 (unat x)) (SPointer x)"
  proof (rule decodesI)
    fix rb tail k assume r: "rb_ok rb" "rest rb = mem_bytes 8 (unat x) @ tail"
    from load_word [OF r] obtain rb' where "load 8 rb = Inr (mem_bytes 8 (unat x), rb')" "rb_ok rb'" "rest rb' = tail"
      "of_nat (mem_nat (mem_bytes 8 (unat x))) = x" .
    then show "\<exists>rb'. push_value fi (unpack_one fi k) 3 0 rb = Inr (SPointer x, rb') \<and> rb_ok rb' \<and> rest rb' = tail"
      by (simp add: push_value_def get_pointer_def seri_consts del: mem_bytes.simps)
  qed simp_all
qed (simp_all add: wb_pointer_def no_cookie push_two)

lemma get_buffer_read:
  assumes "rb_ok rb" "rest rb = s @ tail"
  obtains rb' where "get_buffer (int (length s)) rb = Inr (s, rb')" "rb_ok rb'" "rest rb' = tail"
proof -
  from load_bytes [OF assms refl] obtain rb' where "load (length s) rb = Inr (s, rb')" "rb_ok rb'" "rest rb' = tail" .
  with that show thesis by (simp add: get_buffer_def)
qed

lemma sint_length: "n < 2 ^ 31 \<Longrightarrow> sint (of_nat n :: i32) = int n"
  by (simp add: signed_of_nat signed_take_bit_int_eq_self)

lemma emits_string:
  assumes "length s < 2 ^ 31" "Q (SString s)"
  shows "emits fi (wb_string s (sint (of_nat (length s) :: i32))) Q"
proof -
  note len = sint_length [OF assms(1)]
  consider "length s < 32" | "32 \<le> length s" "length s < 0x10000" | "0x10000 \<le> length s" by linarith
  then show ?thesis
  proof cases
    case 1
    show ?thesis
    proof (rule emitsI)
      fix b bs b' assume b: "wb_rep b bs" "wb_string s (sint (of_nat (length s) :: i32)) b = Inr b'"
      then obtain b1 where b1: "wb_push [COMBINE_TYPE 4 (int (length s))] b = Inr b1" "(if s = [] then Inr b1 else wb_push s b1) = Inr b'"
        using 1 by (auto simp: wb_string_def len seri_consts bind_res_eq_Inr split: if_splits)
      have "wb_rep b1 (bs @ [COMBINE_TYPE 4 (int (length s))])" by (rule wb_push_Inr [OF b(1) b1(1)])
      with b1(2) wb_push_Inr [OF this, of s b'] show "wb_rep b' (bs @ COMBINE_TYPE 4 (int (length s)) # s)" by (auto split: if_splits)
    next
      show "decodes fi (COMBINE_TYPE 4 (int (length s)) # s) (SString s)"
      proof (rule decodesI)
        fix rb tail k assume r: "rb_ok rb" "rest rb = s @ tail"
        from get_buffer_read [OF r] obtain rb' where "get_buffer (int (length s)) rb = Inr (s, rb')" "rb_ok rb'" "rest rb' = tail" .
        then show "\<exists>rb'. push_value fi (unpack_one fi k) 4 (int (length s)) rb = Inr (SString s, rb') \<and> rb_ok rb' \<and> rest rb' = tail"
          by (simp add: push_value_def seri_consts)
      qed (use 1 in simp_all)
    qed (rule assms(2))
  next
    case 2
    let ?l = "mem_bytes 2 (length s)"
    have u: "unat (word_of_int (int (length s)) :: u16) = length s" using 2 by (simp add: unat_of_nat take_bit_nat_eq_self)
    show ?thesis
    proof (rule emitsI)
      fix b bs b' assume b: "wb_rep b bs" "wb_string s (sint (of_nat (length s) :: i32)) b = Inr b'"
      have "\<not> int (length s) < 32" "int (length s) < 0x10000" using 2 by simp_all
      with b(2) obtain b1 where b1: "bind_res (wb_push [COMBINE_TYPE 5 2] b) (wb_push ?l) = Inr b1" "wb_push s b1 = Inr b'"
        unfolding wb_string_def len seri_consts u by (auto simp: bind_res_eq_Inr simp del: mem_bytes.simps)
      from wb_push_Inr [OF push_two [OF b(1) b1(1)] b1(2)] show "wb_rep b' (bs @ COMBINE_TYPE 5 2 # ?l @ s)" by (simp del: mem_bytes.simps)
    next
      show "decodes fi (COMBINE_TYPE 5 2 # ?l @ s) (SString s)"
      proof (rule decodesI)
        fix rb tail k assume "rb_ok rb" "rest rb = (?l @ s) @ tail"
        then have r: "rb_ok rb" "rest rb = ?l @ s @ tail" by simp_all
        from load_bytes [OF r, of 2] obtain rb1 where rb1: "load 2 rb = Inr (?l, rb1)" "rb_ok rb1" "rest rb1 = s @ tail" by (metis length_mem_bytes)
        have "mem_nat ?l = length s" using 2 by (simp add: mem_nat_bytes del: mem_bytes.simps)
        moreover from get_buffer_read [OF rb1(2,3)] obtain rb' where "get_buffer (int (length s)) rb1 = Inr (s, rb')" "rb_ok rb'" "rest rb' = tail" .
        ultimately show "\<exists>rb'. push_value fi (unpack_one fi k) 5 2 rb = Inr (SString s, rb') \<and> rb_ok rb' \<and> rest rb' = tail"
          using rb1(1) by (simp add: push_value_def seri_consts long_string_def del: mem_bytes.simps)
      qed simp_all
    qed (rule assms(2))
  next
    case 3
    let ?l = "mem_bytes 4 (length s)"
    have u: "unat (word_of_int (int (length s)) :: u32) = length s" using assms(1) by (simp add: unat_of_nat take_bit_nat_eq_self)
    show ?thesis
    proof (rule emitsI)
      fix b bs b' assume b: "wb_rep b bs" "wb_string s (sint (of_nat (length s) :: i32)) b = Inr b'"
      have "\<not> int (length s) < 32" "\<not> int (length s) < 0x10000" using 3 by simp_all
      with b(2) obtain b1 where b1: "bind_res (wb_push [COMBINE_TYPE 5 4] b) (wb_push ?l) = Inr b1" "wb_push s b1 = Inr b'"
        unfolding wb_string_def len seri_consts u by (auto simp: bind_res_eq_Inr simp del: mem_bytes.simps)
      from wb_push_Inr [OF push_two [OF b(1) b1(1)] b1(2)] show "wb_rep b' (bs @ COMBINE_TYPE 5 4 # ?l @ s)" by (simp del: mem_bytes.simps)
    next
      show "decodes fi (COMBINE_TYPE 5 4 # ?l @ s) (SString s)"
      proof (rule decodesI)
        fix rb tail k assume "rb_ok rb" "rest rb = (?l @ s) @ tail"
        then have r: "rb_ok rb" "rest rb = ?l @ s @ tail" by simp_all
        from load_bytes [OF r, of 4] obtain rb1 where rb1: "load 4 rb = Inr (?l, rb1)" "rb_ok rb1" "rest rb1 = s @ tail" by (metis length_mem_bytes)
        have "mem_nat ?l = length s" using assms(1) by (simp add: mem_nat_bytes del: mem_bytes.simps)
        then have "sint (of_nat (mem_nat ?l) :: i32) = int (length s)" using len by (simp only:)
        moreover from get_buffer_read [OF rb1(2,3)] obtain rb' where "get_buffer (int (length s)) rb1 = Inr (s, rb')" "rb_ok rb'" "rest rb' = tail" .
        ultimately show "\<exists>rb'. push_value fi (unpack_one fi k) 5 4 rb = Inr (SString s, rb') \<and> rb_ok rb' \<and> rest rb' = tail"
          using rb1(1) by (simp add: push_value_def seri_consts long_string_def del: mem_bytes.simps)
      qed simp_all
    qed (rule assms(2))
  qed
qed

end
