(* ===== verification/SeriTables.thy ===== *)
theory SeriTables
  imports SeriWire
begin

unbundle bit_operations_syntax

text \<open>
  Tables in \<open>lualib-src/lua-seri.c\<close>: what a value means, the values that Lua can have, and that what
  \<open>wb_table\<close> and \<open>pack_one\<close> emit is read back with the same meaning.
\<close>

section \<open>Tables\<close>

text \<open>What a value means: a table is the multiset of its entries, in no order.\<close>

datatype seri_meaning =
    MNil
  | MBool bool
  | MInt u64
  | MReal u64
  | MPointer u64
  | MString "byte list"
  | MTable "(seri_meaning \<times> seri_meaning) multiset"
  | MPairs "(seri_meaning \<times> seri_meaning) list"
  | MOther string

primrec meaning :: "seri_value \<Rightarrow> seri_meaning" where
  "meaning SNil = MNil"
| "meaning (SBool b) = MBool b"
| "meaning (SInt x) = MInt x"
| "meaning (SReal x) = MReal x"
| "meaning (SPointer x) = MPointer x"
| "meaning (SString s) = MString s"
| "meaning (STable es) = MTable (mset (map (map_prod meaning meaning) es))"
| "meaning (SPairs es) = MPairs (map (map_prod meaning meaning) es)"
| "meaning (SOther t) = MOther t"

abbreviation meanings :: "(seri_value \<times> seri_value) list \<Rightarrow> (seri_meaning \<times> seri_meaning) list" where
  "meanings es \<equiv> map (map_prod meaning meaning) es"

text \<open>The values that Lua can have: a key is not nil, no NaN and no real with an integral value, and occurs once.\<close>

definition key_ok :: "(u64 \<Rightarrow> u64 option) \<Rightarrow> seri_value \<Rightarrow> bool" where
  "key_ok fi k \<longleftrightarrow> k \<noteq> SNil \<and> (\<forall>x. k = SReal x \<longrightarrow> fi x = None \<and> \<not> is_nan x)"

definition plain_keys :: "(seri_value \<times> seri_value) list \<Rightarrow> seri_value list" where
  "plain_keys es = filter (\<lambda>k. \<not> is_table k) (map fst es)"

definition entries_ok :: "(u64 \<Rightarrow> u64 option) \<Rightarrow> (seri_value \<times> seri_value) list \<Rightarrow> bool" where
  "entries_ok fi es \<longleftrightarrow> (\<forall>(k, v) \<in> set es. key_ok fi k \<and> v \<noteq> SNil) \<and> distinct (plain_keys es)"

primrec seri_wf :: "(u64 \<Rightarrow> u64 option) \<Rightarrow> seri_value \<Rightarrow> bool" where
  "seri_wf fi SNil \<longleftrightarrow> True"
| "seri_wf fi (SBool b) \<longleftrightarrow> True"
| "seri_wf fi (SInt x) \<longleftrightarrow> True"
| "seri_wf fi (SReal x) \<longleftrightarrow> True"
| "seri_wf fi (SPointer x) \<longleftrightarrow> True"
| "seri_wf fi (SString s) \<longleftrightarrow> length s < 2 ^ 31"
| "seri_wf fi (STable es) \<longleftrightarrow> entries_ok fi es \<and> list_all (\<lambda>(a, b). a \<and> b) (map (map_prod (seri_wf fi) (seri_wf fi)) es)"
| "seri_wf fi (SPairs es) \<longleftrightarrow> False"
| "seri_wf fi (SOther t) \<longleftrightarrow> False"

lemma meaning_plain: "meaning k' = meaning k \<Longrightarrow> \<not> is_table k \<Longrightarrow> k' = k"
  by (cases k; cases k') simp_all

lemma meaning_table: "meaning k' = meaning k \<Longrightarrow> is_table k' = is_table k"
  by (cases k; cases k') simp_all

lemma meaning_nil: "meaning v = MNil \<longleftrightarrow> v = SNil"
  by (cases v) simp_all

lemma plain_keys_simps [simp]: "plain_keys [] = []" "plain_keys ((k, v) # es) = (if is_table k then plain_keys es else k # plain_keys es)"
  "plain_keys (es @ es') = plain_keys es @ plain_keys es'"
  by (simp_all add: plain_keys_def)

lemma key_in_plain: "(k, v) \<in> set es \<Longrightarrow> \<not> is_table k \<Longrightarrow> k \<in> set (plain_keys es)"
  by (force simp: plain_keys_def)

lemma plain_in_keys: "k \<in> set (plain_keys es) \<longleftrightarrow> \<not> is_table k \<and> (\<exists>v. (k, v) \<in> set es)"
  by (force simp: plain_keys_def)

lemma distinct_plain_filter: "distinct (plain_keys es) \<Longrightarrow> distinct (plain_keys (filter P es))"
  by (induction es) (auto simp: plain_in_keys split: if_splits)

lemma map_of_plain: "distinct (plain_keys es) \<Longrightarrow> \<not> is_table k \<Longrightarrow> map_of es k = Some v \<longleftrightarrow> (k, v) \<in> set es"
proof (induction es)
  case (Cons e es)
  obtain k' v' where e: "e = (k', v')" by (cases e)
  show ?case
  proof (cases "k' = k")
    case True
    then have "k \<notin> set (plain_keys es)" using Cons.prems e by simp
    with True Cons.prems show ?thesis by (auto simp: e plain_in_keys)
  next
    case False
    with Cons e show ?thesis by (auto split: if_splits)
  qed
qed simp

text \<open>The entries that the array part makes.\<close>

primrec arr_entries :: "int \<Rightarrow> seri_value list \<Rightarrow> (seri_value \<times> seri_value) list" where
  "arr_entries i [] = []"
| "arr_entries i (v # vs) = (if v = SNil then [] else [(SInt (word_of_int i), v)]) @ arr_entries (i + 1) vs"

lemma arr_entries_meanings: "map meaning vs' = map meaning vs \<Longrightarrow> meanings (arr_entries i vs') = meanings (arr_entries i vs)"
proof (induction vs' arbitrary: vs i)
  case (Cons v' vs')
  then obtain v vs0 where vs: "vs = v # vs0" "meaning v' = meaning v" "map meaning vs' = map meaning vs0" by auto
  have "v' = SNil \<longleftrightarrow> v = SNil" using vs(2) meaning_nil by metis
  with Cons.IH [OF vs(3)] vs(1,2) show ?case by simp
qed simp

lemma word_of_int_inj: "0 \<le> i \<Longrightarrow> i < 2 ^ 63 \<Longrightarrow> 0 \<le> j \<Longrightarrow> j < 2 ^ 63 \<Longrightarrow> (word_of_int i :: u64) = word_of_int j \<longleftrightarrow> i = j"
  by (auto simp: word_uint_eq_iff uint_word_of_int take_bit_int_eq_self)

lemma arr_entries_keys:
  "(k, v) \<in> set (arr_entries i vs) \<longleftrightarrow> (\<exists>j < length vs. k = SInt (word_of_int (i + int j)) \<and> v = vs ! j \<and> v \<noteq> SNil)"
proof (induction vs arbitrary: i)
  case (Cons w vs)
  show ?case unfolding length_Cons Ex_less_Suc2 by (auto simp: Cons ac_simps)
qed simp

lemma arr_entries_distinct: "0 < i \<Longrightarrow> i + int (length vs) \<le> 2 ^ 31 \<Longrightarrow> distinct (plain_keys (arr_entries i vs))"
proof (induction vs arbitrary: i)
  case (Cons v vs)
  have "SInt (word_of_int i) \<notin> set (plain_keys (arr_entries (i + 1) vs))"
  proof
    assume "SInt (word_of_int i) \<in> set (plain_keys (arr_entries (i + 1) vs))"
    then obtain j where j: "j < length vs" "(word_of_int i :: u64) = word_of_int (i + 1 + int j)" by (auto simp: plain_in_keys arr_entries_keys)
    from j(1) Cons.prems have b: "i < 2 ^ 63" "0 \<le> i + 1 + int j" "i + 1 + int j < 2 ^ 63" by simp_all
    with j(2) Cons.prems(1) word_of_int_inj [of i "i + 1 + int j"] show False by simp
  qed
  with Cons show ?case by simp
qed simp

lemma set_entry_fresh: "\<forall>(k', _) \<in> set es. \<not> same_key k k' \<Longrightarrow> set_entry k v es = es @ (if v = SNil then [] else [(k, v)])"
  by (auto simp: set_entry_def filter_id_conv)

lemma in_array_iff: "in_array n k \<longleftrightarrow> (\<exists>x. k = SInt x \<and> 0 < sint x \<and> sint x \<le> n)"
  by (cases k) (auto simp: in_array_def)

lemma sint_u64: "0 \<le> i \<Longrightarrow> i < 2 ^ 63 \<Longrightarrow> sint (word_of_int i :: u64) = i"
  by (simp add: signed_of_int signed_take_bit_int_eq_self)

text \<open>The array part and the rest make up the table.\<close>

lemma array_and_hash:
  assumes "entries_ok fi es" "0 \<le> n" "n < 2 ^ 31"
  shows "mset (arr_entries 1 (map (rawgeti es) [1..n])) = mset (filter (\<lambda>(k, _). in_array n k) es)"
proof -
  let ?A = "arr_entries 1 (map (rawgeti es) [1..n])" and ?H = "filter (\<lambda>(k, _). in_array n k) es"
  have d: "distinct (plain_keys es)" and vs: "\<And>k v. (k, v) \<in> set es \<Longrightarrow> v \<noteq> SNil" using assms(1) by (auto simp: entries_ok_def)
  have plain: "distinct xs" if "\<forall>(k, _) \<in> set xs. \<not> is_table k" "distinct (plain_keys xs)" for xs :: "(seri_value \<times> seri_value) list"
  proof -
    have "plain_keys xs = map fst xs" using that(1) by (auto simp: plain_keys_def filter_id_conv)
    with that(2) show ?thesis by (simp add: distinct_map)
  qed
  have "distinct (plain_keys ?H)"
    using d by (rule distinct_plain_filter)
  moreover have "\<forall>(k, _) \<in> set ?H. \<not> is_table k" by (auto simp: in_array_iff)
  ultimately have dH: "distinct ?H" using plain by blast
  have "\<forall>(k, _) \<in> set ?A. \<not> is_table k" by (auto simp: arr_entries_keys)
  moreover have "distinct (plain_keys ?A)" using assms(2,3) by (intro arr_entries_distinct) simp_all
  ultimately have dA: "distinct ?A" using plain by blast
  have get: "rawgeti es i = v \<and> v \<noteq> SNil \<longleftrightarrow> (SInt (word_of_int i), v) \<in> set es" for i v
  proof -
    have m: "(SInt (word_of_int i), w) \<in> set es \<longleftrightarrow> map_of es (SInt (word_of_int i)) = Some w" for w
      using map_of_plain [OF d] by simp
    show ?thesis using vs [of "SInt (word_of_int i)"] unfolding m by (auto simp: rawgeti_def split: option.splits)
  qed
  have "set ?A = set ?H"
  proof (rule set_eqI)
    fix e show "e \<in> set ?A \<longleftrightarrow> e \<in> set ?H"
    proof (cases e)
      case (Pair k v)
      have "(k, v) \<in> set ?A \<longleftrightarrow> (\<exists>j < nat n. k = SInt (word_of_int (1 + int j)) \<and> (k, v) \<in> set es)"
      proof -
        have "k = SInt (word_of_int (1 + int j)) \<and> v = map (rawgeti es) [1..n] ! j \<and> v \<noteq> SNil \<longleftrightarrow>
            k = SInt (word_of_int (1 + int j)) \<and> (k, v) \<in> set es" if "j < nat n" for j
          using get [of "1 + int j" v] that by (auto simp del: of_int_add)
        then show ?thesis unfolding arr_entries_keys by (simp cong: conj_cong del: of_int_add)
      qed
      also have "\<dots> \<longleftrightarrow> in_array n k \<and> (k, v) \<in> set es"
      proof -
        have "(\<exists>j < nat n. k = SInt (word_of_int (1 + int j))) \<longleftrightarrow> in_array n k"
        proof
          assume "\<exists>j < nat n. k = SInt (word_of_int (1 + int j))"
          then obtain j where j: "j < nat n" "k = SInt (word_of_int (1 + int j))" by blast
          then have "sint (word_of_int (1 + int j) :: u64) = 1 + int j" using assms(3) by (intro sint_u64) simp_all
          with j show "in_array n k" by (auto simp: in_array_iff)
        next
          assume "in_array n k"
          then obtain x where x: "k = SInt x" "0 < sint x" "sint x \<le> n" by (auto simp: in_array_iff)
          then have "nat (sint x - 1) < nat n" "x = word_of_int (1 + int (nat (sint x - 1)))" by simp_all
          with x(1) show "\<exists>j < nat n. k = SInt (word_of_int (1 + int j))" by blast
        qed
        then show ?thesis by blast
      qed
      finally show ?thesis by (auto simp: Pair)
    qed
  qed
  with dA dH show ?thesis by (simp only: set_eq_iff_mset_eq_distinct [symmetric])
qed

section \<open>Packing and unpacking\<close>

lemma decodes_nonempty:
  assumes "decodes fi bs v"
  shows "0 < length bs"
proof (rule ccontr)
  assume "\<not> 0 < length bs"
  then have "rb_ok (rball_init [] 0)" "rest (rball_init [] 0) = bs @ []" "length bs \<le> 0" by (simp_all add: rb_ok_def rball_init_def rest_def)
  from decodesD [OF assms this] show False by auto
qed

lemma emits_items:
  assumes "\<And>v. v \<in> set vs \<Longrightarrow> emits fi (pack v) (\<lambda>v'. meaning v' = meaning v)" "wb_rep b bs" "wb_items pack vs b = Inr b'"
  shows "\<exists>css vs'. wb_rep b' (bs @ concat css) \<and> list_all2 (decodes fi) css vs' \<and> map meaning vs' = map meaning vs"
  using assms
proof (induction vs arbitrary: b bs)
  case (Cons v vs)
  from Cons.prems(3) obtain b1 where b1: "pack v b = Inr b1" "wb_items pack vs b1 = Inr b'" by (auto simp: bind_res_eq_Inr)
  from Cons.prems(1) have "emits fi (pack v) (\<lambda>v'. meaning v' = meaning v)" by simp
  from emitsD [OF this Cons.prems(2) b1(1)] obtain cs v' where c: "wb_rep b1 (bs @ cs)" "decodes fi cs v'" "meaning v' = meaning v" .
  from Cons.IH [OF _ c(1) b1(2)] Cons.prems(1) obtain css vs' where
    "wb_rep b' ((bs @ cs) @ concat css)" "list_all2 (decodes fi) css vs'" "map meaning vs' = map meaning vs" by auto
  with c(2,3) show ?case by (intro exI [of _ "cs # css"] exI [of _ "v' # vs'"]) simp
qed simp

lemma emits_hash:
  assumes "\<And>k v. (k, v) \<in> set es \<Longrightarrow> emits fi (pack k) (\<lambda>k'. meaning k' = meaning k) \<and> emits fi (pack v) (\<lambda>v'. meaning v' = meaning v)"
    "wb_rep b bs" "wb_table_hash pack n es b = Inr b'"
  shows "\<exists>css es'. wb_rep b' (bs @ concat (map (\<lambda>(x, y). x @ y) css) @ [COMBINE_TYPE 0 0]) \<and>
    list_all2 (\<lambda>(x, y) (k, v). decodes fi x k \<and> decodes fi y v) css es' \<and> meanings es' = meanings (filter (\<lambda>(k, _). \<not> in_array n k) es)"
  using assms
proof (induction es arbitrary: b bs)
  case Nil
  then have "wb_rep b' (bs @ [COMBINE_TYPE 0 0])" using wb_push_Inr [of b bs _ b'] by (simp add: wb_nil_def no_cookie)
  then show ?case by (intro exI [of _ "[]"]) simp
next
  case (Cons e es)
  obtain k v where e: "e = (k, v)" by (cases e)
  show ?case
  proof (cases "in_array n k")
    case True
    with Cons.prems(3) e have r: "wb_table_hash pack n es b = Inr b'" by simp
    have "emits fi (pack k) (\<lambda>k'. meaning k' = meaning k) \<and> emits fi (pack v) (\<lambda>v'. meaning v' = meaning v)" if "(k, v) \<in> set es" for k v
      using Cons.prems(1) [of k v] that by simp
    from Cons.IH [OF this Cons.prems(2) r] True e show ?thesis by simp
  next
    case False
    with Cons.prems(3) e obtain b1 b2 where b: "pack k b = Inr b1" "pack v b1 = Inr b2" "wb_table_hash pack n es b2 = Inr b'"
      by (auto simp: bind_res_eq_Inr)
    have em: "emits fi (pack k) (\<lambda>k'. meaning k' = meaning k)" "emits fi (pack v) (\<lambda>v'. meaning v' = meaning v)" using Cons.prems(1) [of k v] e by simp_all
    from emitsD [OF em(1) Cons.prems(2) b(1)] obtain x k' where k': "wb_rep b1 (bs @ x)" "decodes fi x k'" "meaning k' = meaning k" .
    from emitsD [OF em(2) k'(1) b(2)] obtain y v' where v': "wb_rep b2 ((bs @ x) @ y)" "decodes fi y v'" "meaning v' = meaning v" .
    from Cons.IH [OF _ v'(1) b(3)] Cons.prems(1) obtain css es' where
      "wb_rep b' (((bs @ x) @ y) @ concat (map (\<lambda>(x, y). x @ y) css) @ [COMBINE_TYPE 0 0])"
      "list_all2 (\<lambda>(x, y) (k, v). decodes fi x k \<and> decodes fi y v) css es'" "meanings es' = meanings (filter (\<lambda>(k, _). \<not> in_array n k) es)"
      by auto
    with k'(2,3) v'(2,3) e False show ?thesis by (intro exI [of _ "(x, y) # css"] exI [of _ "(k', v') # es'"]) simp
  qed
qed

lemma unpack_array_read:
  assumes "list_all2 (decodes fi) css vs" "rb_ok rb" "rest rb = concat css @ tail" "\<forall>cs \<in> set css. length cs \<le> k"
    "\<forall>e \<in> set es. \<forall>j. i \<le> j \<longrightarrow> j < i + int (length vs) \<longrightarrow> fst e \<noteq> SInt (word_of_int j)" "0 < i" "i + int (length vs) \<le> 2 ^ 31"
  shows "\<exists>rb'. unpack_array (unpack_one fi k) i (length vs) es rb = Inr (es @ arr_entries i vs, rb') \<and> rb_ok rb' \<and> rest rb' = tail"
  using assms
proof (induction css vs arbitrary: rb i es rule: list_all2_induct)
  case (Cons cs css v vs)
  have r: "rest rb = cs @ concat css @ tail" "length cs \<le> k" using Cons.prems(2,3) by simp_all
  from decodesD [OF Cons.hyps(1) Cons.prems(1) r] obtain rb1 where rb1: "unpack_one fi k rb = Inr (v, rb1)" "rb_ok rb1" "rest rb1 = concat css @ tail" .
  let ?e = "if v = SNil then [] else [(SInt (word_of_int i), v)]"
  have fresh: "set_entry (SInt (word_of_int i)) v es = es @ ?e"
    using Cons.prems(4) by (intro set_entry_fresh) (force simp: same_key_def)
  have "\<forall>e \<in> set (es @ ?e). \<forall>j. i + 1 \<le> j \<longrightarrow> j < i + 1 + int (length vs) \<longrightarrow> fst e \<noteq> SInt (word_of_int j)"
  proof -
    have "(word_of_int i :: u64) \<noteq> word_of_int j" if "i + 1 \<le> j" "j < i + 1 + int (length vs)" for j
      using word_of_int_inj [of i j] that Cons.prems(5,6) by simp
    moreover have "\<forall>e \<in> set es. \<forall>j. i + 1 \<le> j \<longrightarrow> j < i + 1 + int (length vs) \<longrightarrow> fst e \<noteq> SInt (word_of_int j)"
      using Cons.prems(4) by simp
    ultimately show ?thesis by auto
  qed
  from Cons.IH [OF rb1(2,3) _ this] Cons.prems(3,5,6) obtain rb' where
    "unpack_array (unpack_one fi k) (i + 1) (length vs) (es @ ?e) rb1 = Inr ((es @ ?e) @ arr_entries (i + 1) vs, rb')" "rb_ok rb'" "rest rb' = tail" by auto
  with rb1(1) fresh show ?case by simp
qed simp

lemma rawset_ok: "key_ok fi k \<Longrightarrow> rawset fi k v es = Inr (set_entry k v es)"
  by (cases k) (auto simp: rawset_def key_ok_def)

lemma unpack_hash_read:
  assumes "list_all2 (\<lambda>(x, y) (k, v). decodes fi x k \<and> decodes fi y v) css hs" "rb_ok rb"
    "rest rb = concat (map (\<lambda>(x, y). x @ y) css) @ [COMBINE_TYPE 0 0] @ tail" "\<forall>(x, y) \<in> set css. length x \<le> k \<and> length y \<le> k" "0 < k"
    "length hs < m" "\<forall>(k, v) \<in> set hs. key_ok fi k \<and> v \<noteq> SNil" "distinct (plain_keys (es @ hs))"
  shows "\<exists>rb'. unpack_hash fi (unpack_one fi k) m es rb = Inr (es @ hs, rb') \<and> rb_ok rb' \<and> rest rb' = tail"
  using assms
proof (induction css hs arbitrary: rb es m rule: list_all2_induct)
  case Nil
  then obtain m' where m: "m = Suc m'" by (cases m) auto
  have r: "rest rb = [COMBINE_TYPE 0 0] @ tail" "length [COMBINE_TYPE 0 0] \<le> k" using Nil.prems by simp_all
  from decodesD [OF decodes_nil Nil.prems(1) r] obtain rb1 where "unpack_one fi k rb = Inr (SNil, rb1)" "rb_ok rb1" "rest rb1 = tail" .
  then show ?case by (simp add: m)
next
  case (Cons c css h hs)
  obtain x y where c: "c = (x, y)" by (cases c)
  obtain key v where h: "h = (key, v)" by (cases h)
  from Cons.prems(5) obtain m' where m: "m = Suc m'" "length hs < m'" by (cases m) auto
  have dec: "decodes fi x key" "decodes fi y v" using Cons.hyps(1) by (simp_all add: c h)
  have r1: "rest rb = x @ y @ concat (map (\<lambda>(x, y). x @ y) css) @ [COMBINE_TYPE 0 0] @ tail" "length x \<le> k" using Cons.prems(2,3) by (simp_all add: c)
  from decodesD [OF dec(1) Cons.prems(1) r1] obtain rb1 where rb1: "unpack_one fi k rb = Inr (key, rb1)" "rb_ok rb1"
    "rest rb1 = y @ concat (map (\<lambda>(x, y). x @ y) css) @ [COMBINE_TYPE 0 0] @ tail" .
  have "length y \<le> k" using Cons.prems(3) by (simp add: c)
  from decodesD [OF dec(2) rb1(2,3) this] obtain rb2 where rb2: "unpack_one fi k rb1 = Inr (v, rb2)" "rb_ok rb2"
    "rest rb2 = concat (map (\<lambda>(x, y). x @ y) css) @ [COMBINE_TYPE 0 0] @ tail" .
  have key: "key_ok fi key" "v \<noteq> SNil" "key \<noteq> SNil" using Cons.prems(6) by (simp_all add: h key_ok_def)
  have "\<not> same_key key k'" if "(k', v') \<in> set es" for k' v'
  proof
    assume "same_key key k'"
    then have "k' = key" "\<not> is_table key" by (auto simp: same_key_def)
    with that key_in_plain [of key v' es] Cons.prems(7) show False by (simp add: h)
  qed
  then have "set_entry key v es = es @ [(key, v)]" using set_entry_fresh [of es key v] key(2) by auto
  then have set: "rawset fi key v es = Inr (es @ [(key, v)])" using rawset_ok [OF key(1)] by simp
  from Cons.IH [OF rb2(2,3) _ Cons.prems(4) m(2), of "es @ [(key, v)]"] Cons.prems(3,6,7) obtain rb' where
    "unpack_hash fi (unpack_one fi k) m' (es @ [(key, v)]) rb2 = Inr ((es @ [(key, v)]) @ hs, rb')" "rb_ok rb'" "rest rb' = tail" by (auto simp: h)
  with rb1(1) rb2(1) set key(3) show ?case by (simp add: m(1) h)
qed

text \<open>The head of a table with \<open>n\<close> array elements.\<close>

definition table_head :: "int \<Rightarrow> byte list" where
  "table_head n = (if n \<ge> 31 then COMBINE_TYPE 2 (fst (int_body (word_of_int n))) # snd (int_body (word_of_int n)) else [])"

lemma unpack_size_read:
  assumes "rb_ok rb" "rest rb = table_head n @ tail" "0 \<le> n" "n < 2 ^ 31"
  shows "\<exists>rb'. unpack_size (if n \<ge> 31 then 31 else n) rb = Inr (n, rb') \<and> rb_ok rb' \<and> rest rb' = tail"
proof (cases "n \<ge> 31")
  case True
  then have r: "rest rb = COMBINE_TYPE 2 (fst (int_body (word_of_int n))) # snd (int_body (word_of_int n)) @ tail"
    using assms(2) by (simp add: table_head_def)
  from type_cookie_read [OF assms(1) r] int_body_cookie [of "word_of_int n"] obtain rb1 where
    rb1: "type_cookie rb = Inr ((2, fst (int_body (word_of_int n))), rb1)" "rb_ok rb1" "rest rb1 = snd (int_body (word_of_int n)) @ tail" by auto
  from get_integer_body [OF rb1(2,3)] obtain rb2 where
    rb2: "get_integer (fst (int_body (word_of_int n))) rb1 = Inr (word_of_int n, rb2)" "rb_ok rb2" "rest rb2 = tail" by blast
  have "uint (word_of_int n :: u64) = n" "uint (word_of_int n :: i32) = n" using assms(3,4) by (auto simp: unsigned_of_int take_bit_int_eq_self_iff)
  then have "ucast (word_of_int n :: u64) = (word_of_int n :: i32)" by (metis ucast_eq)
  then have "sint (ucast (word_of_int n :: u64) :: i32) = n" using assms(3,4) by (simp add: signed_of_int signed_take_bit_int_eq_self)
  with True rb1(1) rb2 int_body_cookie [of "word_of_int n"] show ?thesis by (simp add: unpack_size_def seri_consts)
next
  case False
  with assms show ?thesis by (simp add: unpack_size_def seri_consts table_head_def)
qed

lemma rl_size: "rl es < 2 ^ 31 \<Longrightarrow> array_size rl es = int (rl es)"
  by (simp add: array_size_def sint_length)

lemma wb_table_Inr:
  assumes "wb_rep b bs" "wb_table rl pack es b = Inr b'" "rl es < 2 ^ 31"
  obtains b1 b2 where "wb_rep b1 (bs @ COMBINE_TYPE 6 (if rl es \<ge> 31 then 31 else int (rl es)) # table_head (int (rl es)))"
    "wb_items pack (map (rawgeti es) [1..int (rl es)]) b1 = Inr b2" "wb_table_hash pack (int (rl es)) es b2 = Inr b'"
proof -
  let ?n = "int (rl es)"
  note n = rl_size [of rl es, OF assms(3)]
  have head: "(32 - 1 :: int) = 31" by simp
  from assms(2) obtain b1 b2 where b: "(if ?n \<ge> 31 then bind_res (wb_push [COMBINE_TYPE 6 31] b) (wb_integer (word_of_int ?n)) else wb_push [COMBINE_TYPE 6 ?n] b) = Inr b1"
    "wb_items pack (map (rawgeti es) [1..?n]) b1 = Inr b2" "wb_table_hash pack ?n es b2 = Inr b'"
    unfolding wb_table_def wb_table_array_def n seri_consts by (auto simp only: bind_res_eq_Inr head)
  have "wb_rep b1 (bs @ COMBINE_TYPE 6 (if rl es \<ge> 31 then 31 else ?n) # table_head ?n)"
  proof (cases "?n \<ge> 31")
    case True
    with b(1) obtain b0 where b0: "wb_push [COMBINE_TYPE 6 31] b = Inr b0" "wb_integer (word_of_int ?n) b0 = Inr b1" by (auto simp: bind_res_eq_Inr)
    from wb_integer_Inr [OF wb_push_Inr [OF assms(1) b0(1)] b0(2)] True show ?thesis by (simp add: table_head_def)
  next
    case False
    with b(1) wb_push_Inr [OF assms(1), of "[COMBINE_TYPE 6 ?n]" b1] show ?thesis by (simp add: table_head_def)
  qed
  with that b(2,3) show thesis by blast
qed

lemma length_concat_member: "x \<in> set xs \<Longrightarrow> length x \<le> length (concat xs)"
  by (induction xs) auto

lemma list_all2_length_concat:
  "list_all2 (\<lambda>(x, y) (k, v). decodes fi x k \<and> decodes fi y v) css hs \<Longrightarrow> length hs \<le> length (concat (map (\<lambda>(x, y). x @ y) css))"
proof (induction css hs rule: list_all2_induct)
  case (Cons c css h hs)
  obtain x y k v where [simp]: "c = (x, y)" "h = (k, v)" by (cases c; cases h)
  have "x \<noteq> []" using Cons.hyps(1) decodes_nonempty by auto
  then have "1 \<le> length x" by (cases x) auto
  with Cons.IH show ?case by simp
qed simp

lemma plain_keys_meanings: "meanings hs = meanings es \<Longrightarrow> plain_keys hs = plain_keys es"
proof (induction hs arbitrary: es)
  case (Cons h hs)
  obtain k v where h: "h = (k, v)" by (cases h)
  from Cons.prems obtain k0 v0 es' where es: "es = (k0, v0) # es'" "meaning k = meaning k0" "meanings hs = meanings es'"
    by (cases es) (auto simp: h)
  from meaning_table [OF es(2)] meaning_plain [OF es(2)] Cons.IH [OF es(3)] show ?case by (auto simp: h es(1))
qed simp

lemma mset_split: "mset (meanings es) = mset (meanings (filter P es)) + mset (meanings (filter (\<lambda>e. \<not> P e) es))"
  by (induction es) simp_all

lemma emits_table:
  assumes "seri_wf fi (STable es)" "rl es < 2 ^ 31" "\<And>v. seri_wf fi v \<Longrightarrow> emits fi (pack v) (\<lambda>v'. meaning v' = meaning v)"
  shows "emits fi (wb_table rl pack es) (\<lambda>v'. meaning v' = meaning (STable es))"
  unfolding emits_def
proof (intro allI impI)
  fix b bs b' assume b: "wb_rep b bs" "wb_table rl pack es b = Inr b'"
  let ?n = "int (rl es)"
  from wb_table_Inr [OF b assms(2)] obtain b1 b2 where
    w: "wb_rep b1 (bs @ COMBINE_TYPE 6 (if rl es \<ge> 31 then 31 else ?n) # table_head ?n)"
      "wb_items pack (map (rawgeti es) [1..?n]) b1 = Inr b2" "wb_table_hash pack ?n es b2 = Inr b'" .
  have ok: "entries_ok fi es" and wf: "\<And>k v. (k, v) \<in> set es \<Longrightarrow> seri_wf fi k \<and> seri_wf fi v"
    using assms(1) by (auto simp: list_all_iff)
  have "seri_wf fi v" if "v \<in> set (map (rawgeti es) [1..?n])" for v
    using that wf [OF map_of_SomeD] by (auto simp: rawgeti_def split: option.splits)
  with emits_items [OF _ w(1,2)] assms(3) obtain css vs where
    vs: "wb_rep b2 ((bs @ COMBINE_TYPE 6 (if rl es \<ge> 31 then 31 else ?n) # table_head ?n) @ concat css)" "list_all2 (decodes fi) css vs"
      "map meaning vs = map meaning (map (rawgeti es) [1..?n])" by blast
  from emits_hash [OF _ vs(1) w(3)] assms(3) wf obtain hcss hs where
    hs: "wb_rep b' (((bs @ COMBINE_TYPE 6 (if rl es \<ge> 31 then 31 else ?n) # table_head ?n) @ concat css) @ concat (map (\<lambda>(x, y). x @ y) hcss) @ [COMBINE_TYPE 0 0])"
      "list_all2 (\<lambda>(x, y) (k, v). decodes fi x k \<and> decodes fi y v) hcss hs" "meanings hs = meanings (filter (\<lambda>(k, _). \<not> in_array ?n k) es)" by blast
  let ?c = "if rl es \<ge> 31 then 31 else ?n" and ?body = "table_head ?n @ concat css @ concat (map (\<lambda>(x, y). x @ y) hcss) @ [COMBINE_TYPE 0 0]"
  have lvs: "length vs = rl es" using arg_cong [OF vs(3), of length] by simp
  let ?A = "arr_entries 1 vs"
  have hsK: "\<exists>k0 v0. (k0, v0) \<in> set (filter (\<lambda>(k, _). \<not> in_array ?n k) es) \<and> meaning k = meaning k0 \<and> meaning v = meaning v0" if "(k, v) \<in> set hs" for k v
  proof -
    from that have "(meaning k, meaning v) \<in> set (meanings hs)" by force
    then show ?thesis unfolding hs(3) by force
  qed
  have hok: "\<forall>(k, v) \<in> set hs. key_ok fi k \<and> v \<noteq> SNil"
  proof (intro ballI, clarify)
    fix k v assume "(k, v) \<in> set hs"
    from hsK [OF this] obtain k0 v0 where k0: "(k0, v0) \<in> set es" "meaning k = meaning k0" "meaning v = meaning v0" by auto
    then have "key_ok fi k0" "v0 \<noteq> SNil" using ok by (auto simp: entries_ok_def)
    moreover have "v = SNil \<longleftrightarrow> v0 = SNil" using k0(3) meaning_nil by metis
    moreover have "key_ok fi k"
    proof (cases "is_table k0")
      case True
      with meaning_table [OF k0(2)] show ?thesis by (cases k) (auto simp: key_ok_def)
    next
      case False
      from meaning_plain [OF k0(2) False] \<open>key_ok fi k0\<close> show ?thesis by simp
    qed
    ultimately show "key_ok fi k \<and> v \<noteq> SNil" by simp
  qed
  have hkeys: "plain_keys hs = plain_keys (filter (\<lambda>(k, _). \<not> in_array ?n k) es)" by (rule plain_keys_meanings [OF hs(3)])
  have dist: "distinct (plain_keys (?A @ hs))"
  proof -
    have "distinct (plain_keys ?A)" using assms(2) lvs by (intro arr_entries_distinct) simp_all
    moreover have "distinct (plain_keys (filter (\<lambda>(k, _). \<not> in_array ?n k) es))"
      using ok by (intro distinct_plain_filter) (simp add: entries_ok_def)
    moreover have "set (plain_keys ?A) \<inter> set (plain_keys (filter (\<lambda>(k, _). \<not> in_array ?n k) es)) = {}"
    proof -
      have "in_array ?n k" if "k \<in> set (plain_keys ?A)" for k
      proof -
        from that obtain j where j: "j < rl es" "k = SInt (word_of_int (1 + int j))" by (auto simp: plain_in_keys arr_entries_keys lvs)
        have "sint (word_of_int (1 + int j) :: u64) = 1 + int j" using j(1) assms(2) by (intro sint_u64) simp_all
        with j show ?thesis by (auto simp: in_array_iff)
      qed
      then show ?thesis by (auto simp: plain_in_keys)
    qed
    ultimately show ?thesis by (simp add: hkeys)
  qed
  have "decodes fi (COMBINE_TYPE 6 ?c # ?body) (STable (?A @ hs))"
  proof (rule decodesI)
    fix rb tail k assume r: "rb_ok rb" "rest rb = ?body @ tail" "length ?body \<le> k"
    have "rest rb = table_head ?n @ concat css @ concat (map (\<lambda>(x, y). x @ y) hcss) @ [COMBINE_TYPE 0 0] @ tail" using r(2) by simp
    from unpack_size_read [OF r(1) this] assms(2) obtain rb1 where rb1: "unpack_size ?c rb = Inr (?n, rb1)" "rb_ok rb1"
      "rest rb1 = concat css @ concat (map (\<lambda>(x, y). x @ y) hcss) @ [COMBINE_TYPE 0 0] @ tail" by auto
    have "\<forall>cs \<in> set css. length cs \<le> k" using r(3) length_concat_member [of _ css] by fastforce
    from unpack_array_read [OF vs(2) rb1(2,3) this, of "[]" 1] assms(2) lvs obtain rb2 where
      rb2: "unpack_array (unpack_one fi k) 1 (rl es) [] rb1 = Inr (?A, rb2)" "rb_ok rb2"
        "rest rb2 = concat (map (\<lambda>(x, y). x @ y) hcss) @ [COMBINE_TYPE 0 0] @ tail" by auto
    have lk: "\<forall>(x, y) \<in> set hcss. length x \<le> k \<and> length y \<le> k"
    proof (intro ballI, clarify)
      fix x y assume "(x, y) \<in> set hcss"
      then have "x @ y \<in> set (map (\<lambda>(x, y). x @ y) hcss)" by force
      from length_concat_member [OF this] r(3) show "length x \<le> k \<and> length y \<le> k" by simp
    qed
    have "length hs < rb_fuel rb2"
    proof -
      have "rb_len rb2 = int (length (rest rb2))" using length_rest [OF rb2(2)] by simp
      moreover have "length hs \<le> length (rest rb2)" using list_all2_length_concat [OF hs(2)] unfolding rb2(3) by simp
      ultimately show ?thesis by (simp add: rb_fuel_def)
    qed
    moreover have "0 < k" using r(3) by simp
    ultimately obtain rb3 where "unpack_hash fi (unpack_one fi k) (rb_fuel rb2) ?A rb2 = Inr (?A @ hs, rb3)" "rb_ok rb3" "rest rb3 = tail"
      using unpack_hash_read [OF hs(2) rb2(2,3) lk _ _ hok dist] by blast
    with rb1(1) rb2(1) show "\<exists>rb'. push_value fi (unpack_one fi k) 6 ?c rb = Inr (STable (?A @ hs), rb') \<and> rb_ok rb' \<and> rest rb' = tail"
      by (simp add: push_value_def unpack_table_def seri_consts)
  qed simp_all
  moreover have "meaning (STable (?A @ hs)) = meaning (STable es)"
  proof -
    have "meanings ?A = meanings (arr_entries 1 (map (rawgeti es) [1..?n]))" by (rule arr_entries_meanings [OF vs(3)])
    moreover have "mset (meanings (arr_entries 1 (map (rawgeti es) [1..?n]))) = mset (meanings (filter (\<lambda>(k, _). in_array ?n k) es))"
      using array_and_hash [OF ok, of ?n] assms(2) by simp
    moreover have "mset (meanings es) = mset (meanings (filter (\<lambda>(k, _). in_array ?n k) es)) + mset (meanings (filter (\<lambda>(k, _). \<not> in_array ?n k) es))"
      using mset_split [of es "\<lambda>(k, _). in_array ?n k"] by (simp add: case_prod_unfold)
    ultimately show ?thesis using hs(3) by simp
  qed
  ultimately show "\<exists>cs v. wb_rep b' (bs @ cs) \<and> decodes fi cs v \<and> meaning v = meaning (STable es)"
    using hs(1) by (intro exI [of _ "COMBINE_TYPE 6 ?c # ?body"] exI [of _ "STable (?A @ hs)"]) simp
qed

lemma emits_pack_one:
  assumes "\<forall>es. rl es < 2 ^ 31"
  shows "seri_wf fi v \<Longrightarrow> emits fi (pack_one rl depth v) (\<lambda>v'. meaning v' = meaning v)"
  using assms
proof (induction rl depth arbitrary: v rule: pack_one.induct)
  case (1 rl depth)
  show ?case
  proof (cases "depth > MAX_DEPTH")
    case True
    then show ?thesis by (simp add: emits_def pack_one.simps [of rl depth])
  next
    case False
    note one = pack_one.simps [of rl depth] and wf = 1(3)
    show ?thesis
    proof (cases v)
      case (STable es)
      have "emits fi (wb_table rl (pack_one rl (depth + 1)) es) (\<lambda>v'. meaning v' = meaning (STable es))"
      proof (rule emits_table)
        show "seri_wf fi (STable es)" using wf unfolding STable .
        show "rl es < 2 ^ 31" using 1(4) ..
        show "emits fi (pack_one rl (depth + 1) w) (\<lambda>v'. meaning v' = meaning w)" if "seri_wf fi w" for w
          by (rule 1(1) [OF False STable that 1(4)])
      qed
      with False show ?thesis by (simp add: one STable)
    qed (use False wf in \<open>simp_all add: one emits_nil emits_boolean emits_integer emits_real emits_pointer emits_string\<close>)
  qed
qed

end
