(* ===== verification/SeriSpec.thy ===== *)
theory SeriSpec
  imports SeriTables
begin

unbundle bit_operations_syntax

text \<open>
  What the packing and unpacking of \<open>lualib-src/lua-seri.c\<close> promise: which values are refused, the
  round trip, and that unpacking any bytes ends and yields values that Lua can have.
\<close>

section \<open>What packing refuses\<close>



















section \<open>The round trip\<close>









section \<open>Any buffer\<close>

text \<open>A read from \<open>rb\<close> fails with an error of Lua, or takes at least \<open>d\<close> bytes and yields what \<open>P\<close> says.\<close>

definition reads :: "int \<Rightarrow> ('a \<Rightarrow> bool) \<Rightarrow> read_block \<Rightarrow> ('a \<times> read_block) res \<Rightarrow> bool" where
  "reads d P rb r \<longleftrightarrow> (\<exists>m. r = Inl (LuaError m)) \<or> (\<exists>x rb'. r = Inr (x, rb') \<and> rb_ok rb' \<and> rb_len rb' + d \<le> rb_len rb \<and> P x)"

lemma reads_error [simp]: "reads d P rb (Inl (LuaError m))" "reads d P rb (Inl invalid_stream)"
  by (simp_all add: reads_def invalid_stream_def)

lemma reads_Inr: "rb_ok rb \<Longrightarrow> P x \<Longrightarrow> reads 0 P rb (Inr (x, rb))"
  by (simp add: reads_def)

lemma reads_mono: "reads d P rb r \<Longrightarrow> d' \<le> d \<Longrightarrow> (\<And>x. P x \<Longrightarrow> Q x) \<Longrightarrow> reads d' Q rb r"
  unfolding reads_def by fastforce

lemma reads_bind:
  assumes "reads d P rb r" "\<And>x rb'. P x \<Longrightarrow> rb_ok rb' \<Longrightarrow> rb_len rb' + d \<le> rb_len rb \<Longrightarrow> reads e Q rb' (g (x, rb'))" "c \<le> d + e"
  shows "reads c Q rb (bind_res r g)"
proof -
  consider m where "r = Inl (LuaError m)" | x rb' where "r = Inr (x, rb')" "rb_ok rb'" "rb_len rb' + d \<le> rb_len rb" "P x"
    using assms(1) unfolding reads_def by blast
  then show ?thesis
  proof cases
    case 2
    from assms(2) [OF 2(4,2,3)] have "reads e Q rb' (g (x, rb'))" .
    then show ?thesis using 2(1,3) assms(3) unfolding reads_def by force
  qed simp
qed

lemma reads_load: "rb_ok rb \<Longrightarrow> reads (int n) (\<lambda>bs. length bs = n) rb (load n rb)"
proof (cases "n \<le> length (rest rb)")
  case True
  assume ok: "rb_ok rb"
  from load_rest(1) [OF ok True] obtain rb' where r: "load n rb = Inr (take n (rest rb), rb')" "rb_ok rb'" "rest rb' = drop n (rest rb)" by blast
  have "rb_len rb' + int n \<le> rb_len rb" using length_rest [OF ok] length_rest [OF r(2)] True by (simp add: r(3) of_nat_diff)
  with r(1,2) True show ?thesis by (simp add: reads_def)
next
  case False
  assume "rb_ok rb"
  from load_rest(2) [OF this False] show ?thesis by simp
qed

lemma reads_load_bind:
  assumes "rb_ok rb" "\<And>bs rb'. length bs = n \<Longrightarrow> rb_ok rb' \<Longrightarrow> reads 0 Q rb' (g (bs, rb'))"
  shows "reads 0 Q rb (bind_res (load n rb) g)"
  by (rule reads_bind [OF reads_load [OF assms(1)], where e = 0]) (simp_all add: assms(2))

lemma reads_integer: "rb_ok rb \<Longrightarrow> reads 0 (\<lambda>x. True) rb (get_integer cookie rb)"
  unfolding get_integer_def by (auto intro!: reads_load_bind reads_Inr)

lemma reads_real: "rb_ok rb \<Longrightarrow> reads 0 (\<lambda>x. True) rb (get_real rb)"
  unfolding get_real_def by (auto intro!: reads_load_bind reads_Inr)

lemma reads_pointer: "rb_ok rb \<Longrightarrow> reads 0 (\<lambda>x. True) rb (get_pointer rb)"
  unfolding get_pointer_def by (auto intro!: reads_load_bind reads_Inr)

lemma reads_buffer:
  assumes "rb_ok rb"
  shows "reads 0 (\<lambda>s. length s < 2 ^ 31) rb (get_buffer len rb)"
proof (cases "len < 0")
  case True
  then show ?thesis by (simp add: get_buffer_def split: option.split)
next
  case False
  have "reads len (\<lambda>bs. length bs = nat len) rb (load (nat len) rb)" using reads_load [OF assms, of "nat len"] False by simp
  then have "reads 0 (\<lambda>s. length s < 2 ^ 31) rb (load (nat len) rb)"
  proof -
    assume r: "reads len (\<lambda>bs. length bs = nat len) rb (load (nat len) rb)"
    consider m where "load (nat len) rb = Inl (LuaError m)"
      | x rb' where "load (nat len) rb = Inr (x, rb')" "rb_ok rb'" "rb_len rb' + len \<le> rb_len rb" "length x = nat len"
      using r unfolding reads_def by blast
    then show ?thesis
    proof cases
      case 2
      have "rb_len rb < 2 ^ 31" "0 \<le> rb_len rb'" using assms 2(2) unfolding rb_ok_def by blast+
      then have "len < 2 ^ 31" using 2(3) by linarith
      then have "int (length x) < 2 ^ 31" using 2(4) False by simp
      with 2 False show ?thesis by (simp add: reads_def)
    qed simp
  qed
  with False show ?thesis by (simp add: get_buffer_def)
qed

lemma reads_long_string: "rb_ok rb \<Longrightarrow> reads 0 (\<lambda>s. length s < 2 ^ 31) rb (long_string cookie rb)"
  unfolding long_string_def using reads_buffer by (auto intro!: reads_load_bind)

lemma reads_type_cookie: "rb_ok rb \<Longrightarrow> reads 1 (\<lambda>x. True) rb (type_cookie rb)"
  unfolding type_cookie_def
  by (rule reads_bind [where d = 1 and e = 0 and P = "\<lambda>bs. length bs = 1"]) (use reads_load [of rb 1] in \<open>auto intro: reads_Inr\<close>)

lemma reads_size: "rb_ok rb \<Longrightarrow> reads 0 (\<lambda>x. True) rb (unpack_size n rb)"
  unfolding unpack_size_def
  by (auto intro!: reads_bind [OF reads_type_cookie, where e = 0] reads_bind [OF reads_integer, where e = 0] reads_Inr)

text \<open>The entries of a table that Lua can have.\<close>

definition table_ok :: "(u64 \<Rightarrow> u64 option) \<Rightarrow> (seri_value \<times> seri_value) list \<Rightarrow> bool" where
  "table_ok fi es \<longleftrightarrow> seri_wf fi (STable es)"

lemma table_ok_iff: "table_ok fi es \<longleftrightarrow> (\<forall>(k, v) \<in> set es. key_ok fi k \<and> v \<noteq> SNil \<and> seri_wf fi k \<and> seri_wf fi v) \<and> distinct (plain_keys es)"
  by (auto simp: table_ok_def entries_ok_def list_all_iff)

lemma set_entry_ok:
  assumes "table_ok fi es" "key_ok fi k" "seri_wf fi k" "seri_wf fi v"
  shows "table_ok fi (set_entry k v es)"
proof -
  have d: "distinct (plain_keys es)" using assms(1) by (simp add: table_ok_iff)
  consider "v = SNil" | "v \<noteq> SNil" "\<exists>(k', _) \<in> set es. same_key k k'" | "v \<noteq> SNil" "\<forall>(k', _) \<in> set es. \<not> same_key k k'" by auto
  then show ?thesis
  proof cases
    case 1
    with assms(1) distinct_plain_filter [OF d] show ?thesis by (auto simp: table_ok_iff set_entry_def)
  next
    case 2
    have "plain_keys (map (\<lambda>(k', v'). if same_key k k' then (k', v) else (k', v')) xs) = plain_keys xs" for xs
      by (induction xs) (auto split: if_splits)
    with 2 assms show ?thesis by (auto simp: table_ok_iff set_entry_def split: if_splits)
  next
    case 3
    then have "set_entry k v es = es @ [(k, v)]" by (auto simp: set_entry_def)
    moreover have "k \<notin> set (plain_keys es)" using 3(2) by (auto simp: plain_in_keys same_key_def)
    ultimately show ?thesis using assms 3(1) d by (auto simp: table_ok_iff)
  qed
qed

lemma reads_array:
  assumes "\<And>rb. rb_ok rb \<Longrightarrow> rb_len rb \<le> L \<Longrightarrow> reads 1 (seri_wf fi) rb (one rb)"
  shows "rb_ok rb \<Longrightarrow> rb_len rb \<le> L \<Longrightarrow> table_ok fi es \<Longrightarrow> reads 0 (table_ok fi) rb (unpack_array one i n es rb)"
proof (induction n arbitrary: rb es i)
  case (Suc n)
  show ?case unfolding unpack_array.simps
  proof (rule reads_bind [OF assms [OF Suc.prems(1,2)], where e = 0])
    fix v rb1 assume r: "seri_wf fi v" "rb_ok rb1" "rb_len rb1 + 1 \<le> rb_len rb"
    have "table_ok fi (set_entry (SInt (word_of_int i)) v es)" using Suc.prems(3) r(1) by (intro set_entry_ok) (simp_all add: key_ok_def)
    from Suc.IH [OF r(2) _ this, of "i + 1"] r(3) Suc.prems(2)
    show "reads 0 (table_ok fi) rb1 (case (v, rb1) of (v, rb1) \<Rightarrow> unpack_array one (i + 1) n (set_entry (SInt (word_of_int i)) v es) rb1)" by simp
  qed simp
qed (simp add: reads_Inr)

lemma rawset_outcome:
  assumes "table_ok fi es" "seri_wf fi k" "seri_wf fi v"
  shows "(\<exists>m. rawset fi k v es = Inl (LuaError m)) \<or> (\<exists>es1. rawset fi k v es = Inr es1 \<and> table_ok fi es1)"
  using assms by (cases k) (auto simp: rawset_def key_ok_def intro!: set_entry_ok split: option.split)

lemma reads_hash:
  assumes "\<And>rb. rb_ok rb \<Longrightarrow> rb_len rb \<le> L \<Longrightarrow> reads 1 (seri_wf fi) rb (one rb)"
  shows "rb_ok rb \<Longrightarrow> rb_len rb \<le> L \<Longrightarrow> rb_len rb < int m \<Longrightarrow> table_ok fi es \<Longrightarrow> reads 0 (table_ok fi) rb (unpack_hash fi one m es rb)"
proof (induction m arbitrary: rb es)
  case 0
  then show ?case by (simp add: rb_ok_def)
next
  case (Suc m)
  show ?case unfolding unpack_hash.simps
  proof (rule reads_bind [OF assms [OF Suc.prems(1,2)], where e = 0], unfold prod.case)
    fix k rb1 assume k: "seri_wf fi k" "rb_ok rb1" "rb_len rb1 + 1 \<le> rb_len rb"
    have "reads 0 (table_ok fi) rb1 (bind_res (one rb1) (\<lambda>(v, rb2). bind_res (rawset fi k v es) (\<lambda>es1. unpack_hash fi one m es1 rb2)))"
    proof (rule reads_bind [OF assms [OF k(2)], where e = 0], goal_cases)
      case (2 v rb2)
      from rawset_outcome [OF Suc.prems(4) k(1) 2(1)] show ?case
      proof (elim disjE exE conjE)
        fix es1 assume "rawset fi k v es = Inr es1" "table_ok fi es1"
        with Suc.IH [OF 2(2) _ _ this(2)] 2(3) k(3) Suc.prems(2,3) show ?case by simp
      qed simp
    qed (use k(3) Suc.prems(2) in simp_all)
    then show "reads 0 (table_ok fi) rb1 (if k = SNil then Inr (es, rb1) else
        bind_res (one rb1) (\<lambda>(v, rb2). bind_res (rawset fi k v es) (\<lambda>es1. unpack_hash fi one m es1 rb2)))"
      using reads_Inr [of rb1 "table_ok fi" es] k(2) Suc.prems(4) by simp
  qed simp
qed

lemma reads_table:
  assumes "\<And>rb. rb_ok rb \<Longrightarrow> rb_len rb \<le> L \<Longrightarrow> reads 1 (seri_wf fi) rb (one rb)" "rb_ok rb" "rb_len rb \<le> L"
  shows "reads 0 (seri_wf fi) rb (unpack_table fi one cookie rb)"
  unfolding unpack_table_def
proof (rule reads_bind [OF reads_size [OF assms(2)], where e = 0], unfold prod.case)
  fix n rb1 assume r1: "rb_ok rb1" "rb_len rb1 + 0 \<le> rb_len rb"
  have l1: "rb_len rb1 \<le> L" using r1(2) assms(3) by simp
  have empty: "table_ok fi []" by (simp add: table_ok_iff)
  show "reads 0 (seri_wf fi) rb1 (bind_res (unpack_array one 1 (nat n) [] rb1) (\<lambda>(es, rb2).
     bind_res (unpack_hash fi one (rb_fuel rb2) es rb2) (\<lambda>(es1, rb3). Inr (STable es1, rb3))))"
  proof (rule reads_bind [OF reads_array [of L, OF assms(1) r1(1) l1 empty], where e = 0], goal_cases)
    case (3 es rb2)
    have l2: "rb_len rb2 \<le> L" "rb_len rb2 < int (rb_fuel rb2)" using 3(2,3) l1 by (simp_all add: rb_fuel_def rb_ok_def)
    show ?case unfolding prod.case
      by (rule reads_bind [OF reads_hash [of L, OF assms(1) 3(2) l2 3(1)], where e = 0]) (simp_all add: reads_Inr table_ok_def)
  qed simp_all
qed simp

lemma reads_one: "rb_ok rb \<Longrightarrow> rb_len rb < int k \<Longrightarrow> reads 1 (seri_wf fi) rb (unpack_one fi k rb)"
proof (induction k arbitrary: rb)
  case 0
  then show ?case by (simp add: rb_ok_def)
next
  case (Suc k)
  show ?case unfolding unpack_one.simps
  proof (rule reads_bind [OF reads_type_cookie [OF Suc.prems(1)], where e = 0], clarsimp)
    fix type cookie rb1 assume r: "rb_ok rb1" "rb_len rb1 + 1 \<le> rb_len rb"
    then have l: "rb_len rb1 \<le> int k - 1" using Suc.prems(2) by simp
    have "reads 1 (seri_wf fi) rb0 (unpack_one fi k rb0)" if "rb_ok rb0" "rb_len rb0 \<le> int k - 1" for rb0
      using that by (intro Suc.IH) simp_all
    note table = reads_table [of "int k - 1", OF this r(1) l]
    show "reads 0 (seri_wf fi) rb1 (push_value fi (unpack_one fi k) type cookie rb1)"
      unfolding push_value_def using r(1)
      by (auto intro!: reads_Inr table reads_bind [OF reads_integer, where e = 0] reads_bind [OF reads_real, where e = 0]
          reads_bind [OF reads_pointer, where e = 0] reads_bind [OF reads_buffer, where e = 0] reads_bind [OF reads_long_string, where e = 0])
  qed simp
qed

lemma unpack_values_outcome:
  "rb_ok rb \<Longrightarrow> rb_len rb < int k \<Longrightarrow> (\<exists>m. unpack_values fi k rb = Inl (LuaError m)) \<or> (\<exists>vs. unpack_values fi k rb = Inr vs \<and> list_all (seri_wf fi) vs)"
proof (induction k arbitrary: rb)
  case 0
  then show ?case by (simp add: rb_ok_def)
next
  case (Suc k)
  have "rb_len rb < int (rb_fuel rb)" by (simp add: rb_fuel_def)
  from reads_one [OF Suc.prems(1) this, of fi] consider m where "unpack_one fi (rb_fuel rb) rb = Inl (LuaError m)"
    | v rb1 where "unpack_one fi (rb_fuel rb) rb = Inr (v, rb1)" "rb_ok rb1" "rb_len rb1 + 1 \<le> rb_len rb" "seri_wf fi v"
    unfolding reads_def by blast
  then show ?case
  proof cases
    case 2
    from Suc.IH [OF 2(2)] 2 Suc.prems(2) show ?thesis by auto
  qed simp
qed

text \<open>
  C33: whatever bytes it is given, \<open>luaseri_unpack\<close> reads none outside the buffer and returns: it
  raises an error of Lua, or answers values that Lua can have, no table among them with a key that
  is nil, NaN or a real equal to an integer, with a nil as a value, or with a key twice.
\<close>
theorem seri_unpack_typed:
  assumes "len \<le> int (length bs)" "len < 2 ^ 31"
  shows "(\<exists>m. luaseri_unpack fi (Some (Some bs, len)) = Inl (LuaError m)) \<or>
    (\<exists>vs. luaseri_unpack fi (Some (Some bs, len)) = Inr vs \<and> list_all (seri_wf fi) vs)"
proof (cases "len \<le> 0")
  case True
  then show ?thesis by (simp add: luaseri_unpack_def rball_init_def rb_fuel_def)
next
  case False
  let ?rb = "rball_init bs len"
  have "rb_ok ?rb" using assms False by (simp add: rb_ok_def rball_init_def)
  moreover have "rb_len ?rb < int (rb_fuel ?rb)" by (simp add: rb_fuel_def)
  ultimately show ?thesis using unpack_values_outcome [of ?rb "rb_fuel ?rb" fi] False by (simp add: luaseri_unpack_def)
qed

theorem seri_unpack_typed_witness:
  "(\<exists>m. luaseri_unpack (\<lambda>_. None) (Some (Some [22, 26], 2)) = Inl (LuaError m)) \<or>
     (\<exists>vs. luaseri_unpack (\<lambda>_. None) (Some (Some [22, 26], 2)) = Inr vs \<and> list_all (seri_wf (\<lambda>_. None)) vs)"
  using seri_unpack_typed [of 2 "[22, 26]" "\<lambda>_. None"] by simp

end
