(* ===== verification/SocketServer.thy ===== *)
theory SocketServer
  imports Prelude
begin

unbundle bit_operations_syntax

text \<open>
  The socket server, \<open>skynet-src/socket_server.c\<close>: the slots of the sockets, the requests that the
  services' threads write into its pipe, and what the socket thread does with them and with the
  events of the kernel.

  The kernel is a parameter: \<open>ss_answers\<close> is what its calls will answer, in the order in which they
  are made; when it is used up every call would block. \<open>sk_out\<close> is what it has taken from a
  connection, \<open>sk_polled\<close> and \<open>sk_write\<close> what its event queue watches. A call writes at most what it
  is given and reads at most what it is asked for.

  The lists of buffers are lists; the bytes of a buffer stay with its address. A service's call and a
  step of the socket thread are one action each: what they change of a socket that the other reads is
  under its lock or in one atomic instruction.
\<close>

section \<open>Types\<close>

datatype socket_type =
    SOCKET_TYPE_INVALID
  | SOCKET_TYPE_RESERVE
  | SOCKET_TYPE_PLISTEN
  | SOCKET_TYPE_LISTEN
  | SOCKET_TYPE_CONNECTING
  | SOCKET_TYPE_CONNECTED
  | SOCKET_TYPE_HALFCLOSE
  | SOCKET_TYPE_PACCEPT
  | SOCKET_TYPE_BIND

datatype protocol = PROTOCOL_TCP | PROTOCOL_UDP | PROTOCOL_UDPv6 | PROTOCOL_UNKNOWN

datatype priority = PRIORITY_HIGH | PRIORITY_LOW

text \<open>What \<open>socket_server_poll\<close> and the handlers answer; \<open>None\<close> stands for -1.\<close>

datatype socket_event =
    SOCKET_DATA
  | SOCKET_CLOSE
  | SOCKET_OPEN
  | SOCKET_ACCEPT
  | SOCKET_ERR
  | SOCKET_EXIT
  | SOCKET_UDP
  | SOCKET_WARNING

datatype errno = EINTR | EAGAIN | EINPROGRESS | EMFILE | EOTHER

datatype text_or_data = NoData | DataBytes "byte list" | DataText string | DataErrno errno

definition MAX_SOCKET_P :: nat where "MAX_SOCKET_P = 16"
definition MAX_SOCKET :: nat where "MAX_SOCKET = 2 ^ MAX_SOCKET_P"
definition MIN_READ_BUFFER :: int where "MIN_READ_BUFFER = 64"
definition WARNING_SIZE :: int where "WARNING_SIZE = 1024 * 1024"
definition UDP_ADDRESS_SIZE :: nat where "UDP_ADDRESS_SIZE = 19"

definition HASH_ID :: "i32 \<Rightarrow> nat" where
  "HASH_ID sid = unat sid mod MAX_SOCKET"

definition ID_TAG16 :: "i32 \<Rightarrow> u32" where
  "ID_TAG16 sid = drop_bit MAX_SOCKET_P sid AND 0xffff"

fun protocol_code :: "protocol \<Rightarrow> byte" where
  "protocol_code PROTOCOL_TCP = 0"
| "protocol_code PROTOCOL_UDP = 1"
| "protocol_code PROTOCOL_UDPv6 = 2"
| "protocol_code PROTOCOL_UNKNOWN = 255"

text \<open>A buffer in a list: \<open>ptr\<close> is kept as the offset from where the data starts. A \<open>SIZEOF_TCPBUFFER\<close> has no address.\<close>

record write_buffer =
  wbuf_buffer :: ptr
  wbuf_data :: "byte list"
  wbuf_ptr :: nat
  wbuf_userobject :: bool
  wbuf_udp_address :: "byte list option"

definition wbuf_rest :: "write_buffer \<Rightarrow> byte list" where
  "wbuf_rest wb = drop (wbuf_ptr wb) (wbuf_data wb)"

abbreviation wbuf_sz :: "write_buffer \<Rightarrow> nat" where
  "wbuf_sz wb \<equiv> length (wbuf_rest wb)"

record socket_stat =
  st_rtime :: u64
  st_wtime :: u64
  st_read :: u64
  st_write :: u64

text \<open>A size of \<open>USEROBJECT\<close> is \<open>None\<close>; any other comes with the bytes of the buffer.\<close>

type_synonym buffer_size = "byte list option"

record socket =
  sk_opaque :: u64
  sk_high :: "write_buffer list"
  sk_low :: "write_buffer list"
  sk_wb_size :: int
  sk_stat :: socket_stat
  sk_sending :: u32
  sk_fd :: int
  sk_id :: i32
  sk_protocol :: protocol
  sk_type :: socket_type
  sk_udpconnecting :: u16
  sk_warn_size :: int
  sk_size :: int
  sk_udp_address :: "byte list"
  sk_dw_offset :: nat
  sk_dw_buffer :: "ptr option"
  sk_dw_size :: buffer_size
  sk_polled :: bool
  sk_write :: bool
  sk_out :: "(byte list \<times> byte list) list"

record socket_message =
  sm_id :: i32
  sm_opaque :: u64
  sm_ud :: int
  sm_data :: text_or_data

record request_send =
  rs_id :: i32
  rs_sz :: buffer_size
  rs_buffer :: ptr

text \<open>A request in the pipe, by the letter of its type.\<close>

datatype request =
    ReqS i32 u64
  | ReqB i32 int u64
  | ReqL i32 int u64
  | ReqK i32 bool u64
  | ReqO i32 int u64 string
  | ReqX
  | ReqD request_send
  | ReqP request_send
  | ReqA request_send "byte list"
  | ReqT i32 int int
  | ReqU i32 int bool u64
  | ReqC i32 "byte list"

record kernel_event =
  ev_s :: "nat option"
  ev_read :: bool
  ev_write :: bool
  ev_error :: bool
  ev_eof :: bool

text \<open>What a call of the kernel answers: a number (a descriptor, a count, an error code
  or 0), bytes, a datagram or an address (of IPv6 or not, port and address), events, the text of an address, or a failure.\<close>

datatype kernel_answer =
    Done nat
  | Bytes "byte list"
  | From "byte list" bool "byte list"
  | Events "kernel_event list"
  | Name string
  | Fail errno

text \<open>The interface of user objects: where the data of an object starts, and its bytes.\<close>

record socket_object_interface =
  soi_buffer :: "ptr \<Rightarrow> ptr"
  soi_bytes :: "ptr \<Rightarrow> byte list"

record socket_server =
  ss_time :: u64
  ss_checkctrl :: bool
  ss_alloc_id :: i32
  ss_ev :: "kernel_event list"
  ss_soi :: socket_object_interface
  ss_slot :: "nat \<Rightarrow> socket"
  ss_pipe :: "request list"
  ss_result :: socket_message
  ss_answers :: "kernel_answer list"
  ss_freed :: "ptr list"
  ss_closed :: "int list"
  ss_brk :: ptr

section \<open>The kernel\<close>

definition upd_sock :: "nat \<Rightarrow> (socket \<Rightarrow> socket) \<Rightarrow> socket_server \<Rightarrow> socket_server" where
  "upd_sock i f ss = ss\<lparr>ss_slot := (ss_slot ss)(i := f (ss_slot ss i))\<rparr>"

definition kernel :: "socket_server \<Rightarrow> kernel_answer \<times> socket_server" where
  "kernel ss = (case ss_answers ss of [] \<Rightarrow> (Fail EAGAIN, ss) | a # as \<Rightarrow> (a, ss\<lparr>ss_answers := as\<rparr>))"

definition sys_errno :: "kernel_answer \<Rightarrow> errno" where
  "sys_errno a = (case a of Fail e \<Rightarrow> e | _ \<Rightarrow> EOTHER)"

text \<open>\<open>write\<close>, which takes a part, and \<open>sendto\<close>, which takes a datagram as a whole.\<close>

definition sys_write :: "nat \<Rightarrow> byte list \<Rightarrow> socket_server \<Rightarrow> (errno + nat) \<times> socket_server" where
  "sys_write i bs ss =
     (case kernel ss of
        (Done n, ss1) \<Rightarrow> (let k = min n (length bs) in (Inr k, upd_sock i (\<lambda>s. s\<lparr>sk_out := sk_out s @ [(take k bs, [])]\<rparr>) ss1))
      | (a, ss1) \<Rightarrow> (Inl (sys_errno a), ss1))"

definition sys_sendto :: "nat \<Rightarrow> byte list \<Rightarrow> byte list \<Rightarrow> socket_server \<Rightarrow> (errno + nat) \<times> socket_server" where
  "sys_sendto i bs addr ss =
     (case kernel ss of
        (Done n, ss1) \<Rightarrow> (Inr (length bs), upd_sock i (\<lambda>s. s\<lparr>sk_out := sk_out s @ [(bs, addr)]\<rparr>) ss1)
      | (a, ss1) \<Rightarrow> (Inl (sys_errno a), ss1))"

definition sys_close :: "int \<Rightarrow> socket_server \<Rightarrow> socket_server" where
  "sys_close fd ss = ss\<lparr>ss_closed := ss_closed ss @ [fd]\<rparr>"

definition sp_add :: "nat \<Rightarrow> socket_server \<Rightarrow> bool \<times> socket_server" where
  "sp_add i ss =
     (case kernel ss of (Done 0, ss1) \<Rightarrow> (True, upd_sock i (\<lambda>s. s\<lparr>sk_polled := True, sk_write := False\<rparr>) ss1) | (_, ss1) \<Rightarrow> (False, ss1))"

definition sp_del :: "nat \<Rightarrow> socket_server \<Rightarrow> socket_server" where
  "sp_del i ss = upd_sock i (\<lambda>s. s\<lparr>sk_polled := False, sk_write := False\<rparr>) ss"

text \<open>Of a descriptor that is not watched it changes nothing.\<close>

definition sp_write :: "nat \<Rightarrow> bool \<Rightarrow> socket_server \<Rightarrow> socket_server" where
  "sp_write i enable ss = upd_sock i (\<lambda>s. s\<lparr>sk_write := sk_polled s \<and> enable\<rparr>) ss"

section \<open>Buffers\<close>

definition send_object_init :: "socket_server \<Rightarrow> ptr \<Rightarrow> buffer_size \<Rightarrow> byte list" where
  "send_object_init ss object sz = (case sz of None \<Rightarrow> soi_bytes (ss_soi ss) object | Some bs \<Rightarrow> bs)"

definition free_ptr :: "ptr \<Rightarrow> socket_server \<Rightarrow> socket_server" where
  "free_ptr p ss = ss\<lparr>ss_freed := ss_freed ss @ [p]\<rparr>"

definition write_buffer_free :: "write_buffer \<Rightarrow> socket_server \<Rightarrow> socket_server" where
  "write_buffer_free wb ss = free_ptr (wbuf_buffer wb) ss"

definition free_wb_list :: "write_buffer list \<Rightarrow> socket_server \<Rightarrow> socket_server" where
  "free_wb_list wbs ss = fold write_buffer_free wbs ss"

text \<open>What a service hands over: a block, an object, or a pointer that stays its own.\<close>

datatype sendbuffer_type = SOCKET_BUFFER_MEMORY | SOCKET_BUFFER_OBJECT | SOCKET_BUFFER_RAWPOINTER

record socket_sendbuffer =
  sb_id :: i32
  sb_type :: sendbuffer_type
  sb_buffer :: ptr
  sb_bytes :: "byte list"

definition free_buffer :: "socket_sendbuffer \<Rightarrow> socket_server \<Rightarrow> socket_server" where
  "free_buffer buf ss =
     (case sb_type buf of SOCKET_BUFFER_MEMORY \<Rightarrow> free_ptr (sb_buffer buf) ss | SOCKET_BUFFER_OBJECT \<Rightarrow> free_ptr (sb_buffer buf) ss
      | SOCKET_BUFFER_RAWPOINTER \<Rightarrow> ss)"

text \<open>The bytes to send; the object's \<open>free_func\<close> is what \<open>free_buffer\<close> does for its type.\<close>

definition send_object_init_from_sendbuffer :: "socket_server \<Rightarrow> socket_sendbuffer \<Rightarrow> byte list" where
  "send_object_init_from_sendbuffer ss buf =
     (case sb_type buf of SOCKET_BUFFER_OBJECT \<Rightarrow> soi_bytes (ss_soi ss) (sb_buffer buf) | _ \<Rightarrow> sb_bytes buf)"

definition clone_buffer :: "socket_sendbuffer \<Rightarrow> socket_server \<Rightarrow> (ptr \<times> buffer_size) \<times> socket_server" where
  "clone_buffer buf ss =
     (case sb_type buf of SOCKET_BUFFER_MEMORY \<Rightarrow> ((sb_buffer buf, Some (sb_bytes buf)), ss)
      | SOCKET_BUFFER_OBJECT \<Rightarrow> ((sb_buffer buf, None), ss)
      | SOCKET_BUFFER_RAWPOINTER \<Rightarrow> ((ss_brk ss, Some (sb_bytes buf)), ss\<lparr>ss_brk := ss_brk ss + 1\<rparr>))"

section \<open>Slots\<close>

text \<open>The rounds left, and an id for a free slot.\<close>

fun reserve_loop :: "nat \<Rightarrow> socket_server \<Rightarrow> i32 option \<times> socket_server" where
  "reserve_loop 0 ss = (None, ss)"
| "reserve_loop (Suc n) ss =
     (let sid0 = ss_alloc_id ss + 1;
          sid = (if sint sid0 < 0 then sid0 AND 0x7fffffff else sid0);
          ss1 = ss\<lparr>ss_alloc_id := sid\<rparr>
      in if sk_type (ss_slot ss (HASH_ID sid)) = SOCKET_TYPE_INVALID then
           (Some sid, upd_sock (HASH_ID sid) (\<lambda>s. s\<lparr>sk_type := SOCKET_TYPE_RESERVE, sk_id := sid, sk_protocol := PROTOCOL_UNKNOWN,
              sk_udpconnecting := 0, sk_fd := -1\<rparr>) ss1)
         else reserve_loop n ss1)"

definition reserve_id :: "socket_server \<Rightarrow> i32 option \<times> socket_server" where
  "reserve_id ss = reserve_loop MAX_SOCKET ss"

definition zero_stat :: socket_stat where
  "zero_stat = \<lparr>st_rtime = 0, st_wtime = 0, st_read = 0, st_write = 0\<rparr>"

definition empty_socket :: socket where
  "empty_socket =
     \<lparr>sk_opaque = 0, sk_high = [], sk_low = [], sk_wb_size = 0, sk_stat = zero_stat, sk_sending = 0, sk_fd = 0, sk_id = 0,
      sk_protocol = PROTOCOL_UNKNOWN, sk_type = SOCKET_TYPE_INVALID, sk_udpconnecting = 0, sk_warn_size = 0, sk_size = 0,
      sk_udp_address = [], sk_dw_offset = 0, sk_dw_buffer = None, sk_dw_size = None, sk_polled = False, sk_write = False, sk_out = []\<rparr>"

definition socket_server_create :: "u64 \<Rightarrow> kernel_answer list \<Rightarrow> ptr \<Rightarrow> socket_object_interface \<Rightarrow> socket_server" where
  "socket_server_create time answers brk soi =
     \<lparr>ss_time = time, ss_checkctrl = True, ss_alloc_id = 0, ss_ev = [], ss_soi = soi, ss_slot = (\<lambda>_. empty_socket), ss_pipe = [],
      ss_result = \<lparr>sm_id = 0, sm_opaque = 0, sm_ud = 0, sm_data = NoData\<rparr>, ss_answers = answers, ss_freed = [], ss_closed = [], ss_brk = brk\<rparr>"

text \<open>What the server calls for user objects; before that there are none.\<close>

definition socket_server_userobject :: "socket_object_interface \<Rightarrow> socket_server \<Rightarrow> socket_server" where
  "socket_server_userobject soi ss = ss\<lparr>ss_soi := soi\<rparr>"

definition socket_server_updatetime :: "u64 \<Rightarrow> socket_server \<Rightarrow> socket_server" where
  "socket_server_updatetime time ss = ss\<lparr>ss_time := time\<rparr>"

definition report :: "i32 \<Rightarrow> u64 \<Rightarrow> int \<Rightarrow> text_or_data \<Rightarrow> socket_server \<Rightarrow> socket_server" where
  "report sid opaque ud data ss = ss\<lparr>ss_result := \<lparr>sm_id = sid, sm_opaque = opaque, sm_ud = ud, sm_data = data\<rparr>\<rparr>"

definition set_data :: "text_or_data \<Rightarrow> socket_server \<Rightarrow> socket_server" where
  "set_data d ss = ss\<lparr>ss_result := (ss_result ss)\<lparr>sm_data := d\<rparr>\<rparr>"

definition force_close :: "nat \<Rightarrow> socket_server \<Rightarrow> socket_server res" where
  "force_close i ss =
     (let s = ss_slot ss i;
          ss1 = report (sk_id s) (sk_opaque s) 0 NoData ss
      in if sk_type s = SOCKET_TYPE_INVALID then Inr ss1
         else if sk_type s = SOCKET_TYPE_RESERVE then Inl AssertFailed
         else
           let ss2 = free_wb_list (sk_low s) (free_wb_list (sk_high s) ss1);
               ss3 = upd_sock i (\<lambda>s. s\<lparr>sk_high := [], sk_low := []\<rparr>) ss2;
               ss4 = (if sk_type s \<noteq> SOCKET_TYPE_PACCEPT \<and> sk_type s \<noteq> SOCKET_TYPE_PLISTEN then sp_del i ss3 else ss3);
               ss5 = (if sk_type s \<noteq> SOCKET_TYPE_BIND then sys_close (sk_fd s) ss4 else ss4);
               ss6 = upd_sock i (\<lambda>s. s\<lparr>sk_type := SOCKET_TYPE_INVALID\<rparr>) ss5
           in Inr (case sk_dw_buffer s of None \<Rightarrow> ss6
              | Some p \<Rightarrow> upd_sock i (\<lambda>s. s\<lparr>sk_dw_buffer := None\<rparr>) (free_ptr p ss6)))"

fun release_slots :: "nat \<Rightarrow> socket_server \<Rightarrow> socket_server res" where
  "release_slots 0 ss = Inr ss"
| "release_slots (Suc n) ss =
     bind_res (release_slots n ss) (\<lambda>ss1. if sk_type (ss_slot ss1 n) \<noteq> SOCKET_TYPE_RESERVE then force_close n ss1 else Inr ss1)"

definition socket_server_release :: "socket_server \<Rightarrow> socket_server res" where
  "socket_server_release ss = release_slots MAX_SOCKET ss"

text \<open>The index of the new socket, unless the event queue refused it.\<close>

definition new_fd :: "i32 \<Rightarrow> int \<Rightarrow> protocol \<Rightarrow> u64 \<Rightarrow> bool \<Rightarrow> socket_server \<Rightarrow> (nat option \<times> socket_server) res" where
  "new_fd sid fd protocol opaque add ss =
     (let i = HASH_ID sid
      in if sk_type (ss_slot ss i) \<noteq> SOCKET_TYPE_RESERVE then Inl AssertFailed
         else case (if add then sp_add i ss else (True, ss)) of
           (False, ss1) \<Rightarrow> Inr (None, upd_sock i (\<lambda>s. s\<lparr>sk_type := SOCKET_TYPE_INVALID\<rparr>) ss1)
         | (True, ss1) \<Rightarrow>
             if sk_high (ss_slot ss i) \<noteq> [] \<or> sk_low (ss_slot ss i) \<noteq> [] then Inl AssertFailed
             else Inr (Some i, upd_sock i (\<lambda>s. s\<lparr>sk_id := sid, sk_fd := fd, sk_sending := push_bit 16 (ID_TAG16 sid), sk_protocol := protocol,
               sk_size := MIN_READ_BUFFER, sk_opaque := opaque, sk_wb_size := 0, sk_warn_size := 0, sk_dw_buffer := None,
               sk_dw_size := Some [], sk_stat := zero_stat, sk_out := []\<rparr>) ss1))"

definition stat_read :: "nat \<Rightarrow> nat \<Rightarrow> socket_server \<Rightarrow> socket_server" where
  "stat_read i n ss = upd_sock i (\<lambda>s. s\<lparr>sk_stat := (sk_stat s)\<lparr>st_read := st_read (sk_stat s) + of_nat n, st_rtime := ss_time ss\<rparr>\<rparr>) ss"

definition stat_write :: "nat \<Rightarrow> nat \<Rightarrow> socket_server \<Rightarrow> socket_server" where
  "stat_write i n ss = upd_sock i (\<lambda>s. s\<lparr>sk_stat := (sk_stat s)\<lparr>st_write := st_write (sk_stat s) + of_nat n, st_wtime := ss_time ss\<rparr>\<rparr>) ss"

section \<open>Sending\<close>

text \<open>The list that a priority names.\<close>

definition wb_list :: "priority \<Rightarrow> socket \<Rightarrow> write_buffer list" where
  "wb_list pr s = (case pr of PRIORITY_HIGH \<Rightarrow> sk_high s | PRIORITY_LOW \<Rightarrow> sk_low s)"

definition set_list :: "priority \<Rightarrow> write_buffer list \<Rightarrow> socket \<Rightarrow> socket" where
  "set_list pr wbs s = (case pr of PRIORITY_HIGH \<Rightarrow> s\<lparr>sk_high := wbs\<rparr> | PRIORITY_LOW \<Rightarrow> s\<lparr>sk_low := wbs\<rparr>)"

definition add_wb_size :: "int \<Rightarrow> socket \<Rightarrow> socket" where
  "add_wb_size n s = s\<lparr>sk_wb_size := sk_wb_size s + n\<rparr>"

lemma sys_write_facts:
  "sys_write i bs ss = (r, ss1) \<Longrightarrow> (\<forall>j. sk_high (ss_slot ss1 j) = sk_high (ss_slot ss j) \<and> sk_low (ss_slot ss1 j) = sk_low (ss_slot ss j)) \<and>
     length (ss_answers ss1) \<le> length (ss_answers ss) \<and> (r = Inl EINTR \<longrightarrow> length (ss_answers ss1) < length (ss_answers ss))"
  by (auto simp: sys_write_def kernel_def sys_errno_def upd_sock_def Let_def split: list.splits kernel_answer.splits)

function send_list_tcp :: "priority \<Rightarrow> nat \<Rightarrow> socket_server \<Rightarrow> (socket_event option \<times> socket_server) res" where
  "send_list_tcp pr i ss =
     (case wb_list pr (ss_slot ss i) of
        [] \<Rightarrow> Inr (None, ss)
      | tmp # rest \<Rightarrow>
          (case sys_write i (wbuf_rest tmp) ss of
             (Inl EINTR, ss1) \<Rightarrow> send_list_tcp pr i ss1
           | (Inl EAGAIN, ss1) \<Rightarrow> Inr (None, ss1)
           | (Inl _, ss1) \<Rightarrow> bind_res (force_close i ss1) (\<lambda>ss2. Inr (Some SOCKET_CLOSE, ss2))
           | (Inr n, ss1) \<Rightarrow>
               let ss2 = upd_sock i (add_wb_size (- int n)) (stat_write i n ss1)
               in if n \<noteq> wbuf_sz tmp then
                    Inr (None, upd_sock i (set_list pr (tmp\<lparr>wbuf_ptr := wbuf_ptr tmp + n\<rparr> # rest)) ss2)
                  else send_list_tcp pr i (write_buffer_free tmp (upd_sock i (set_list pr rest) ss2))))"
  by pat_completeness auto
termination
  by (relation "measure (\<lambda>(pr, i, ss). length (wb_list pr (ss_slot ss i)) + length (ss_answers ss))")
    (auto dest!: sys_write_facts [OF sym] simp: write_buffer_free_def free_ptr_def stat_write_def add_wb_size_def upd_sock_def set_list_def wb_list_def split: priority.splits)

declare send_list_tcp.simps [simp del]

text \<open>The address that \<open>sendto\<close> gets, or 0 for its size.\<close>

definition udp_socket_address :: "socket \<Rightarrow> byte list \<Rightarrow> byte list option" where
  "udp_socket_address s addr =
     (if hd addr \<noteq> protocol_code (sk_protocol s) then None
      else case sk_protocol s of PROTOCOL_UDP \<Rightarrow> Some (take 6 (tl addr)) | PROTOCOL_UDPv6 \<Rightarrow> Some (take 18 (tl addr)) | _ \<Rightarrow> None)"

definition drop_udp :: "priority \<Rightarrow> nat \<Rightarrow> write_buffer \<Rightarrow> write_buffer list \<Rightarrow> socket_server \<Rightarrow> socket_server" where
  "drop_udp pr i tmp rest ss = write_buffer_free tmp (upd_sock i (set_list pr rest) (upd_sock i (add_wb_size (- int (wbuf_sz tmp))) ss))"

function send_list_udp :: "priority \<Rightarrow> nat \<Rightarrow> socket_server \<Rightarrow> (socket_event option \<times> socket_server) res" where
  "send_list_udp pr i ss =
     (case wb_list pr (ss_slot ss i) of
        [] \<Rightarrow> Inr (None, ss)
      | tmp # rest \<Rightarrow>
          (case wbuf_udp_address tmp of
             None \<Rightarrow> Inl OutOfBounds
           | Some udp_address \<Rightarrow>
               (case udp_socket_address (ss_slot ss i) udp_address of
                  None \<Rightarrow> Inr (None, drop_udp pr i tmp rest ss)
                | Some sa \<Rightarrow>
                    (case sys_sendto i (wbuf_rest tmp) sa ss of
                       (Inl EINTR, ss1) \<Rightarrow> Inr (None, ss1)
                     | (Inl EAGAIN, ss1) \<Rightarrow> Inr (None, ss1)
                     | (Inl _, ss1) \<Rightarrow> Inr (None, drop_udp pr i tmp rest ss1)
                     | (Inr n, ss1) \<Rightarrow> send_list_udp pr i (drop_udp pr i tmp rest (stat_write i (wbuf_sz tmp) ss1))))))"
  by pat_completeness auto
termination
  by (relation "measure (\<lambda>(pr, i, ss). length (wb_list pr (ss_slot ss i)))")
    (auto simp: drop_udp_def wb_list_def set_list_def upd_sock_def write_buffer_free_def free_ptr_def split: priority.splits)

declare send_list_udp.simps [simp del]

definition send_list :: "priority \<Rightarrow> nat \<Rightarrow> socket_server \<Rightarrow> (socket_event option \<times> socket_server) res" where
  "send_list pr i ss = (if sk_protocol (ss_slot ss i) = PROTOCOL_TCP then send_list_tcp pr i ss else send_list_udp pr i ss)"

definition list_uncomplete :: "socket_server \<Rightarrow> write_buffer list \<Rightarrow> bool" where
  "list_uncomplete ss wbs =
     (case wbs of [] \<Rightarrow> False
      | wb # _ \<Rightarrow> (if wbuf_userobject wb then soi_buffer (ss_soi ss) (wbuf_buffer wb) else wbuf_buffer wb) + wbuf_ptr wb \<noteq> wbuf_buffer wb)"

definition raise_uncomplete :: "nat \<Rightarrow> socket_server \<Rightarrow> socket_server res" where
  "raise_uncomplete i ss =
     (case sk_low (ss_slot ss i) of
        [] \<Rightarrow> Inl NullDeref
      | tmp # rest \<Rightarrow>
          if sk_high (ss_slot ss i) \<noteq> [] then Inl AssertFailed
          else Inr (upd_sock i (\<lambda>s. s\<lparr>sk_low := rest, sk_high := [tmp]\<rparr>) ss))"

definition send_buffer_empty :: "socket \<Rightarrow> bool" where
  "send_buffer_empty s \<longleftrightarrow> sk_high s = [] \<and> sk_low s = []"

text \<open>Step 4, after the assertion.\<close>

definition all_sent :: "nat \<Rightarrow> socket_server \<Rightarrow> (socket_event option \<times> socket_server) res" where
  "all_sent i ss =
     (if \<not> (send_buffer_empty (ss_slot ss i) \<and> sk_wb_size (ss_slot ss i) = 0) then Inl AssertFailed
      else
        let ss1 = sp_write i False ss; s = ss_slot ss1 i
        in if sk_type s = SOCKET_TYPE_HALFCLOSE then bind_res (force_close i ss1) (\<lambda>ss2. Inr (Some SOCKET_CLOSE, ss2))
           else if sk_warn_size s > 0 then
             Inr (Some SOCKET_WARNING, report (sk_id s) (sk_opaque s) 0 NoData (upd_sock i (\<lambda>s. s\<lparr>sk_warn_size := 0\<rparr>) ss1))
           else Inr (None, ss1))"

definition send_buffer_lists :: "nat \<Rightarrow> socket_server \<Rightarrow> (socket_event option \<times> socket_server) res" where
  "send_buffer_lists i ss =
     (if list_uncomplete ss (sk_low (ss_slot ss i)) then Inl AssertFailed
      else bind_res (send_list PRIORITY_HIGH i ss) (\<lambda>(t, ss1).
        if t = Some SOCKET_CLOSE then Inr (Some SOCKET_CLOSE, ss1)
        else if sk_high (ss_slot ss1 i) \<noteq> [] then Inr (None, ss1)
        else if sk_low (ss_slot ss1 i) = [] then all_sent i ss1
        else bind_res (send_list PRIORITY_LOW i ss1) (\<lambda>(t, ss2).
          if t = Some SOCKET_CLOSE then Inr (Some SOCKET_CLOSE, ss2)
          else if list_uncomplete ss2 (sk_low (ss_slot ss2 i)) then bind_res (raise_uncomplete i ss2) (\<lambda>ss3. Inr (None, ss3))
          else if sk_low (ss_slot ss2 i) \<noteq> [] then Inr (None, ss2)
          else all_sent i ss2)))"

text \<open>What a direct write left is put in front.\<close>

definition raise_direct :: "nat \<Rightarrow> socket_server \<Rightarrow> socket_server" where
  "raise_direct i ss =
     (case sk_dw_buffer (ss_slot ss i) of None \<Rightarrow> ss
      | Some p \<Rightarrow>
          let s = ss_slot ss i;
              wb = \<lparr>wbuf_buffer = p, wbuf_data = send_object_init ss p (sk_dw_size s), wbuf_ptr = sk_dw_offset s,
                    wbuf_userobject = (sk_dw_size s = None), wbuf_udp_address = None\<rparr>
          in upd_sock i (\<lambda>s. (add_wb_size (int (wbuf_sz wb)) s)\<lparr>sk_high := wb # sk_high s, sk_dw_buffer := None\<rparr>) ss)"

definition send_buffer :: "nat \<Rightarrow> socket_server \<Rightarrow> (socket_event option \<times> socket_server) res" where
  "send_buffer i ss = send_buffer_lists i (raise_direct i ss)"

definition append_wb :: "socket_server \<Rightarrow> write_buffer list \<Rightarrow> request_send \<Rightarrow> byte list option \<Rightarrow> write_buffer list" where
  "append_wb ss wbs request addr =
     wbs @ [\<lparr>wbuf_buffer = rs_buffer request, wbuf_data = send_object_init ss (rs_buffer request) (rs_sz request), wbuf_ptr = 0,
       wbuf_userobject = (rs_sz request = None), wbuf_udp_address = addr\<rparr>]"

definition append_list :: "priority \<Rightarrow> nat \<Rightarrow> request_send \<Rightarrow> byte list option \<Rightarrow> socket_server \<Rightarrow> socket_server" where
  "append_list pr i request addr ss =
     upd_sock i (\<lambda>s. add_wb_size (int (length (send_object_init ss (rs_buffer request) (rs_sz request))))
       (set_list pr (append_wb ss (wb_list pr s) request addr) s)) ss"

definition append_sendbuffer :: "nat \<Rightarrow> request_send \<Rightarrow> socket_server \<Rightarrow> socket_server" where
  "append_sendbuffer i request ss = append_list PRIORITY_HIGH i request None ss"

definition append_sendbuffer_low :: "nat \<Rightarrow> request_send \<Rightarrow> socket_server \<Rightarrow> socket_server" where
  "append_sendbuffer_low i request ss = append_list PRIORITY_LOW i request None ss"

definition append_sendbuffer_udp :: "nat \<Rightarrow> priority \<Rightarrow> request_send \<Rightarrow> byte list \<Rightarrow> socket_server \<Rightarrow> socket_server" where
  "append_sendbuffer_udp i pr request addr ss = append_list pr i request (Some addr) ss"

definition warn_buffer :: "nat \<Rightarrow> socket_server \<Rightarrow> socket_event option \<times> socket_server" where
  "warn_buffer i ss =
     (let s = ss_slot ss i
      in if sk_wb_size s \<ge> WARNING_SIZE \<and> sk_wb_size s \<ge> sk_warn_size s then
           (Some SOCKET_WARNING,
            report (sk_id s) (sk_opaque s) (if sk_wb_size s mod 1024 = 0 then sk_wb_size s div 1024 else sk_wb_size s div 1024 + 1) NoData
              (upd_sock i (\<lambda>s. s\<lparr>sk_warn_size := (if sk_warn_size s = 0 then WARNING_SIZE * 2 else sk_warn_size s * 2)\<rparr>) ss))
         else (None, ss))"

text \<open>What a datagram socket does while its lists are empty: \<open>None\<close> if that was all.\<close>

definition send_datagram :: "nat \<Rightarrow> request_send \<Rightarrow> priority \<Rightarrow> byte list \<Rightarrow> socket_server \<Rightarrow> bool \<times> socket_server" where
  "send_datagram i request pr addr ss =
     (let so = send_object_init ss (rs_buffer request) (rs_sz request)
      in case udp_socket_address (ss_slot ss i) addr of
           None \<Rightarrow> (True, free_ptr (rs_buffer request) ss)
         | Some sa \<Rightarrow>
             (case sys_sendto i so sa ss of
                (Inr n, ss1) \<Rightarrow>
                  if n \<noteq> length so then (False, append_sendbuffer_udp i pr request addr ss1)
                  else (True, free_ptr (rs_buffer request) (stat_write i n ss1))
              | (Inl _, ss1) \<Rightarrow> (False, append_sendbuffer_udp i pr request addr ss1)))"

definition send_socket :: "request_send \<Rightarrow> priority \<Rightarrow> byte list option \<Rightarrow> socket_server \<Rightarrow> socket_event option \<times> socket_server" where
  "send_socket request pr udp_address ss =
     (let i = HASH_ID (rs_id request); s = ss_slot ss i; addr = (case udp_address of None \<Rightarrow> sk_udp_address s | Some a \<Rightarrow> a)
      in if sk_type s = SOCKET_TYPE_INVALID \<or> sk_id s \<noteq> rs_id request \<or> sk_type s = SOCKET_TYPE_HALFCLOSE \<or> sk_type s = SOCKET_TYPE_PACCEPT then
           (None, free_ptr (rs_buffer request) ss)
         else if sk_type s = SOCKET_TYPE_PLISTEN \<or> sk_type s = SOCKET_TYPE_LISTEN then (None, free_ptr (rs_buffer request) ss)
         else if send_buffer_empty s \<and> sk_type s = SOCKET_TYPE_CONNECTED then
           (if sk_protocol s = PROTOCOL_TCP then warn_buffer i (sp_write i True (append_sendbuffer i request ss))
            else case send_datagram i request pr addr ss of (True, ss1) \<Rightarrow> (None, ss1) | (False, ss1) \<Rightarrow> warn_buffer i (sp_write i True ss1))
         else if sk_protocol s = PROTOCOL_TCP then
           warn_buffer i (case pr of PRIORITY_LOW \<Rightarrow> append_sendbuffer_low i request ss | PRIORITY_HIGH \<Rightarrow> append_sendbuffer i request ss)
         else warn_buffer i (append_sendbuffer_udp i pr request addr ss))"

section \<open>The requests\<close>

definition set_type :: "nat \<Rightarrow> socket_type \<Rightarrow> socket_server \<Rightarrow> socket_server" where
  "set_type i t ss = upd_sock i (\<lambda>s. s\<lparr>sk_type := t\<rparr>) ss"

text \<open>One address after the other, until one connects or may connect.\<close>

fun open_loop :: "nat \<Rightarrow> errno \<Rightarrow> socket_server \<Rightarrow> (errno + int \<times> bool) \<times> socket_server" where
  "open_loop 0 e ss = (Inl e, ss)"
| "open_loop (Suc n) e ss =
     (case kernel ss of
        (Done fd, ss1) \<Rightarrow>
          (case kernel ss1 of
             (Done _, ss2) \<Rightarrow> (Inr (int fd, True), ss2)
           | (Fail EINPROGRESS, ss2) \<Rightarrow> (Inr (int fd, False), ss2)
           | (a, ss2) \<Rightarrow> open_loop n (sys_errno a) (sys_close (int fd) ss2))
      | (a, ss1) \<Rightarrow> open_loop n (sys_errno a) ss1)"

text \<open>The text of an address goes to the result, if there is one.\<close>

definition name_result :: "text_or_data \<Rightarrow> socket_server \<Rightarrow> socket_server" where
  "name_result d ss = (case kernel ss of (Name t, ss1) \<Rightarrow> set_data (DataText t) ss1 | (_, ss1) \<Rightarrow> set_data d ss1)"

definition open_socket :: "i32 \<Rightarrow> int \<Rightarrow> u64 \<Rightarrow> string \<Rightarrow> socket_server \<Rightarrow> (socket_event option \<times> socket_server) res" where
  "open_socket sid port opaque host ss =
     (let failed = (\<lambda>d ss. Inr (Some SOCKET_ERR, set_type (HASH_ID sid) SOCKET_TYPE_INVALID (set_data d ss)))
      in case kernel (report sid opaque 0 NoData ss) of
           (Done n, ss1) \<Rightarrow>
             (case open_loop n EOTHER ss1 of
                (Inl e, ss2) \<Rightarrow> failed (DataErrno e) ss2
              | (Inr (sock, connected), ss2) \<Rightarrow>
                  bind_res (new_fd sid sock PROTOCOL_TCP opaque True ss2) (\<lambda>(ns, ss3).
                    case ns of
                      None \<Rightarrow> failed (DataText ''reach skynet socket number limit'') (sys_close sock ss3)
                    | Some i \<Rightarrow>
                        if connected then Inr (Some SOCKET_OPEN, name_result NoData (set_type i SOCKET_TYPE_CONNECTED ss3))
                        else Inr (None, sp_write i True (set_type i SOCKET_TYPE_CONNECTING ss3))))
         | (a, ss1) \<Rightarrow> failed (DataErrno (sys_errno a)) ss1)"

definition listen_socket :: "i32 \<Rightarrow> int \<Rightarrow> u64 \<Rightarrow> socket_server \<Rightarrow> (socket_event option \<times> socket_server) res" where
  "listen_socket sid listen_fd opaque ss =
     bind_res (new_fd sid listen_fd PROTOCOL_TCP opaque False ss) (\<lambda>(s, ss1).
       case s of
         Some i \<Rightarrow> Inr (None, set_type i SOCKET_TYPE_PLISTEN ss1)
       | None \<Rightarrow> Inr (Some SOCKET_ERR, set_type (HASH_ID sid) SOCKET_TYPE_INVALID
                   (report sid opaque 0 (DataText ''reach skynet socket number limit'') (sys_close listen_fd ss1))))"

definition nomore_sending_data :: "socket \<Rightarrow> bool" where
  "nomore_sending_data s \<longleftrightarrow> send_buffer_empty s \<and> sk_dw_buffer s = None \<and> sk_sending s AND 0xffff = 0"

definition close_socket :: "i32 \<Rightarrow> bool \<Rightarrow> u64 \<Rightarrow> socket_server \<Rightarrow> (socket_event option \<times> socket_server) res" where
  "close_socket sid shutdown opaque ss =
     (let i = HASH_ID sid; s = ss_slot ss i
      in if sk_type s = SOCKET_TYPE_INVALID \<or> sk_id s \<noteq> sid then Inr (Some SOCKET_CLOSE, report sid opaque 0 NoData ss)
         else
           bind_res (if nomore_sending_data s then Inr (None, ss) else send_buffer i ss) (\<lambda>(type, ss1).
             if type \<noteq> None \<and> type \<noteq> Some SOCKET_WARNING then Inr (type, ss1)
             else if shutdown \<or> nomore_sending_data (ss_slot ss1 i) then
               bind_res (force_close i ss1) (\<lambda>ss2.
                 Inr (Some SOCKET_CLOSE, ss2\<lparr>ss_result := (ss_result ss2)\<lparr>sm_id := sid, sm_opaque := opaque\<rparr>\<rparr>))
             else Inr (None, set_type i SOCKET_TYPE_HALFCLOSE ss1)))"

definition bind_socket :: "i32 \<Rightarrow> int \<Rightarrow> u64 \<Rightarrow> socket_server \<Rightarrow> (socket_event option \<times> socket_server) res" where
  "bind_socket sid fd opaque ss =
     bind_res (new_fd sid fd PROTOCOL_TCP opaque True (report sid opaque 0 (sm_data (ss_result ss)) ss)) (\<lambda>(s, ss1).
       case s of
         None \<Rightarrow> Inr (Some SOCKET_ERR, set_data (DataText ''reach skynet socket number limit'') ss1)
       | Some i \<Rightarrow> Inr (Some SOCKET_OPEN, set_data (DataText ''binding'') (set_type i SOCKET_TYPE_BIND ss1)))"

definition start_socket :: "i32 \<Rightarrow> u64 \<Rightarrow> socket_server \<Rightarrow> (socket_event option \<times> socket_server) res" where
  "start_socket sid opaque ss =
     (let i = HASH_ID sid; s = ss_slot ss i; ss0 = report sid opaque 0 NoData ss
      in if sk_type s = SOCKET_TYPE_INVALID \<or> sk_id s \<noteq> sid then Inr (Some SOCKET_ERR, set_data (DataText ''invalid socket'') ss0)
         else if sk_type s = SOCKET_TYPE_PACCEPT \<or> sk_type s = SOCKET_TYPE_PLISTEN then
           (case sp_add i ss0 of
              (False, ss1) \<Rightarrow> bind_res (force_close i ss1) (\<lambda>ss2. Inr (Some SOCKET_ERR, set_data (DataErrno EOTHER) ss2))
            | (True, ss1) \<Rightarrow>
                let ss2 = set_type i (if sk_type s = SOCKET_TYPE_PACCEPT then SOCKET_TYPE_CONNECTED else SOCKET_TYPE_LISTEN) ss1
                in Inr (Some SOCKET_OPEN, set_data (DataText ''start'') (upd_sock i (\<lambda>s. s\<lparr>sk_opaque := opaque\<rparr>) ss2)))
         else if sk_type s = SOCKET_TYPE_CONNECTED then
           Inr (Some SOCKET_OPEN, set_data (DataText ''transfer'') (upd_sock i (\<lambda>s. s\<lparr>sk_opaque := opaque\<rparr>) ss0))
         else Inr (None, ss0))"

definition setopt_socket :: "i32 \<Rightarrow> socket_server \<Rightarrow> socket_server" where
  "setopt_socket sid ss =
     (let s = ss_slot ss (HASH_ID sid) in if sk_type s = SOCKET_TYPE_INVALID \<or> sk_id s \<noteq> sid then ss else snd (kernel ss))"

definition add_udp_socket :: "i32 \<Rightarrow> int \<Rightarrow> bool \<Rightarrow> u64 \<Rightarrow> socket_server \<Rightarrow> socket_server res" where
  "add_udp_socket sid fd inet6 opaque ss =
     bind_res (new_fd sid fd (if inet6 then PROTOCOL_UDPv6 else PROTOCOL_UDP) opaque True ss) (\<lambda>(ns, ss1).
       case ns of
         None \<Rightarrow> Inr (set_type (HASH_ID sid) SOCKET_TYPE_INVALID (sys_close fd ss1))
       | Some i \<Rightarrow> Inr (upd_sock i (\<lambda>s. s\<lparr>sk_type := SOCKET_TYPE_CONNECTED, sk_udp_address := replicate UDP_ADDRESS_SIZE 0\<rparr>) ss1))"

definition set_udp_address :: "i32 \<Rightarrow> byte list \<Rightarrow> socket_server \<Rightarrow> socket_event option \<times> socket_server" where
  "set_udp_address sid address ss =
     (let i = HASH_ID sid; s = ss_slot ss i; n = (if hd address = protocol_code PROTOCOL_UDP then 7 else 19)
      in if sk_type s = SOCKET_TYPE_INVALID \<or> sk_id s \<noteq> sid then (None, ss)
         else if hd address \<noteq> protocol_code (sk_protocol s) then
           (Some SOCKET_ERR, report (sk_id s) (sk_opaque s) 0 (DataText ''protocol mismatch'') ss)
         else (None, upd_sock i (\<lambda>s. s\<lparr>sk_udp_address := take n address @ drop n (sk_udp_address s), sk_udpconnecting := sk_udpconnecting s - 1\<rparr>) ss))"

text \<open>At 65535 senders the next one waits; here it is not served.\<close>

definition inc_sending_ref :: "nat \<Rightarrow> i32 \<Rightarrow> socket_server \<Rightarrow> socket_server res" where
  "inc_sending_ref i sid ss =
     (let s = ss_slot ss i
      in if sk_protocol s \<noteq> PROTOCOL_TCP then Inr ss
         else if drop_bit 16 (sk_sending s) = ID_TAG16 sid then
           (if sk_sending s AND 0xffff = 0xffff then Inl Diverges else Inr (upd_sock i (\<lambda>s. s\<lparr>sk_sending := sk_sending s + 1\<rparr>) ss))
         else Inr ss)"

definition dec_sending_ref :: "i32 \<Rightarrow> socket_server \<Rightarrow> socket_server res" where
  "dec_sending_ref sid ss =
     (let i = HASH_ID sid; s = ss_slot ss i
      in if sk_id s = sid \<and> sk_protocol s = PROTOCOL_TCP then
           (if sk_sending s AND 0xffff = 0 then Inl AssertFailed else Inr (upd_sock i (\<lambda>s. s\<lparr>sk_sending := sk_sending s - 1\<rparr>) ss))
         else Inr ss)"

definition ctrl_cmd :: "request \<Rightarrow> socket_server \<Rightarrow> (socket_event option \<times> socket_server) res" where
  "ctrl_cmd request ss =
     (case request of
        ReqS sid opaque \<Rightarrow> start_socket sid opaque ss
      | ReqB sid fd opaque \<Rightarrow> bind_socket sid fd opaque ss
      | ReqL sid fd opaque \<Rightarrow> listen_socket sid fd opaque ss
      | ReqK sid shutdown opaque \<Rightarrow> close_socket sid shutdown opaque ss
      | ReqO sid port opaque host \<Rightarrow> open_socket sid port opaque host ss
      | ReqX \<Rightarrow> Inr (Some SOCKET_EXIT, report 0 0 0 NoData ss)
      | ReqD r \<Rightarrow> (case send_socket r PRIORITY_HIGH None ss of (ret, ss1) \<Rightarrow> bind_res (dec_sending_ref (rs_id r) ss1) (\<lambda>ss2. Inr (ret, ss2)))
      | ReqP r \<Rightarrow> (case send_socket r PRIORITY_LOW None ss of (ret, ss1) \<Rightarrow> bind_res (dec_sending_ref (rs_id r) ss1) (\<lambda>ss2. Inr (ret, ss2)))
      | ReqA r address \<Rightarrow> Inr (send_socket r PRIORITY_HIGH (Some address) ss)
      | ReqC sid address \<Rightarrow> Inr (set_udp_address sid address ss)
      | ReqT sid what v \<Rightarrow> Inr (None, setopt_socket sid ss)
      | ReqU sid fd inet6 opaque \<Rightarrow> bind_res (add_udp_socket sid fd inet6 opaque ss) (\<lambda>ss1. Inr (None, ss1)))"

section \<open>The events\<close>

definition forward_message_tcp :: "nat \<Rightarrow> socket_server \<Rightarrow> (socket_event option \<times> socket_server) res" where
  "forward_message_tcp i ss =
     (let sz = sk_size (ss_slot ss i)
      in case kernel ss of
           (Bytes bs, ss1) \<Rightarrow>
             let buffer = take (nat sz) bs; n = length buffer; s = ss_slot ss1 i
             in if n = 0 then bind_res (force_close i ss1) (\<lambda>ss2. Inr (Some SOCKET_CLOSE, ss2))
                else if sk_type s = SOCKET_TYPE_HALFCLOSE then Inr (None, ss1)
                else if int n = sz \<and> sz * 2 \<ge> 2 ^ 31 then Inl IntOverflow
                else
                  let size' = (if int n = sz then sz * 2 else if sz > MIN_READ_BUFFER \<and> int n * 2 < sz then sz div 2 else sz)
                  in Inr (Some SOCKET_DATA, report (sk_id s) (sk_opaque s) (int n) (DataBytes buffer)
                       (upd_sock i (\<lambda>s. s\<lparr>sk_size := size'\<rparr>) (stat_read i n ss1)))
         | (a, ss1) \<Rightarrow>
             if sys_errno a = EINTR \<or> sys_errno a = EAGAIN then Inr (None, ss1)
             else bind_res (force_close i ss1) (\<lambda>ss2. Inr (Some SOCKET_ERR, set_data (DataErrno (sys_errno a)) ss2)))"

definition gen_udp_address :: "protocol \<Rightarrow> byte list \<Rightarrow> byte list" where
  "gen_udp_address protocol sa = protocol_code protocol # (if protocol = PROTOCOL_UDP then take 6 sa else take 18 sa)"

definition forward_message_udp :: "nat \<Rightarrow> socket_server \<Rightarrow> (socket_event option \<times> socket_server) res" where
  "forward_message_udp i ss =
     (case kernel ss of
        (From bs inet6 sa, ss1) \<Rightarrow>
          let s = ss_slot ss1 i; protocol = (if inet6 then PROTOCOL_UDPv6 else PROTOCOL_UDP); ss2 = stat_read i (length bs) ss1
          in if sk_protocol s \<noteq> protocol then Inr (None, ss2)
             else Inr (Some SOCKET_UDP, report (sk_id s) (sk_opaque s) (int (length bs)) (DataBytes (bs @ gen_udp_address protocol sa)) ss2)
      | (a, ss1) \<Rightarrow>
          if sys_errno a = EINTR \<or> sys_errno a = EAGAIN then Inr (None, ss1)
          else bind_res (force_close i ss1) (\<lambda>ss2. Inr (Some SOCKET_ERR, set_data (DataErrno (sys_errno a)) ss2)))"

definition report_connect :: "nat \<Rightarrow> socket_server \<Rightarrow> (socket_event option \<times> socket_server) res" where
  "report_connect i ss =
     (case kernel ss of
        (Done 0, ss1) \<Rightarrow>
          let ss2 = set_type i SOCKET_TYPE_CONNECTED ss1; s = ss_slot ss2 i;
              ss3 = report (sk_id s) (sk_opaque s) 0 (sm_data (ss_result ss2)) ss2
          in Inr (Some SOCKET_OPEN, name_result NoData (if nomore_sending_data s then sp_write i False ss3 else ss3))
      | (a, ss1) \<Rightarrow> bind_res (force_close i ss1) (\<lambda>ss2. Inr (Some SOCKET_ERR, set_data (DataErrno (sys_errno a)) ss2)))"

text \<open>The outcome of \<open>report_accept\<close> is 1, 0 or -1.\<close>

definition report_accept :: "nat \<Rightarrow> socket_server \<Rightarrow> (int \<times> socket_server) res" where
  "report_accept i ss =
     (let s = ss_slot ss i
      in case kernel ss of
           (Done client_fd, ss1) \<Rightarrow>
             (case reserve_id ss1 of
                (None, ss2) \<Rightarrow> Inr (0, sys_close (int client_fd) ss2)
              | (Some sid, ss2) \<Rightarrow>
                  bind_res (new_fd sid (int client_fd) PROTOCOL_TCP (sk_opaque s) False ss2) (\<lambda>(ns, ss3).
                    case ns of
                      None \<Rightarrow> Inr (0, sys_close (int client_fd) ss3)
                    | Some j \<Rightarrow>
                        Inr (1, name_result NoData (report (sk_id s) (sk_opaque s) (sint sid) NoData
                          (set_type j SOCKET_TYPE_PACCEPT (stat_read i 1 ss3))))))
         | (Fail EMFILE, ss1) \<Rightarrow> Inr (-1, report (sk_id s) (sk_opaque s) 0 (DataErrno EMFILE) ss1)
         | (_, ss1) \<Rightarrow> Inr (0, ss1))"

fun clear_event :: "(nat \<Rightarrow> socket) \<Rightarrow> i32 \<Rightarrow> kernel_event list \<Rightarrow> kernel_event list" where
  "clear_event slot sid [] = []"
| "clear_event slot sid (e # es) =
     (case ev_s e of
        None \<Rightarrow> e # clear_event slot sid es
      | Some i \<Rightarrow> if sk_type (slot i) = SOCKET_TYPE_INVALID \<and> sk_id (slot i) = sid then e\<lparr>ev_s := None\<rparr> # es else e # clear_event slot sid es)"

definition clear_closed_event :: "socket_event \<Rightarrow> socket_server \<Rightarrow> socket_server" where
  "clear_closed_event type ss =
     (if type = SOCKET_CLOSE \<or> type = SOCKET_ERR then ss\<lparr>ss_ev := clear_event (ss_slot ss) (sm_id (ss_result ss)) (ss_ev ss)\<rparr> else ss)"

definition close_error :: "nat \<Rightarrow> socket_server \<Rightarrow> (socket_event option \<times> socket_server) res" where
  "close_error i ss =
     (case kernel ss of (a, ss1) \<Rightarrow>
        bind_res (force_close i ss1) (\<lambda>ss2.
          Inr (Some SOCKET_ERR, set_data (if a = Done 0 then DataText ''Unknown error'' else DataErrno (sys_errno a)) ss2)))"

text \<open>The events of a connection: \<open>None\<close> if the loop goes on.\<close>

definition socket_events :: "nat \<Rightarrow> kernel_event \<Rightarrow> socket_server \<Rightarrow> (socket_event option \<times> socket_server) res" where
  "socket_events i e ss =
     (if ev_read e then
        bind_res (if sk_protocol (ss_slot ss i) = PROTOCOL_TCP then forward_message_tcp i ss else forward_message_udp i ss) (\<lambda>(type, ss1).
          if sk_protocol (ss_slot ss i) \<noteq> PROTOCOL_TCP \<and> type = Some SOCKET_UDP then Inr (type, ss1\<lparr>ss_ev := e # ss_ev ss1\<rparr>)
          else if ev_write e \<and> type \<noteq> Some SOCKET_CLOSE \<and> type \<noteq> Some SOCKET_ERR then
            Inr (type, ss1\<lparr>ss_ev := e\<lparr>ev_read := False\<rparr> # ss_ev ss1\<rparr>)
          else Inr (type, ss1))
      else if ev_write e then send_buffer i ss
      else if ev_error e then close_error i ss
      else if ev_eof e then bind_res (force_close i ss) (\<lambda>ss1. Inr (Some SOCKET_CLOSE, ss1))
      else Inr (None, ss))"

definition handle_event :: "kernel_event \<Rightarrow> socket_server \<Rightarrow> (socket_event option \<times> socket_server) res" where
  "handle_event e ss =
     (case ev_s e of
        None \<Rightarrow> Inr (None, ss)
      | Some i \<Rightarrow>
          (case sk_type (ss_slot ss i) of
             SOCKET_TYPE_CONNECTING \<Rightarrow> report_connect i ss
           | SOCKET_TYPE_LISTEN \<Rightarrow>
               bind_res (report_accept i ss) (\<lambda>(ok, ss1).
                 Inr (if ok > 0 then Some SOCKET_ACCEPT else if ok < 0 then Some SOCKET_ERR else None, ss1))
           | SOCKET_TYPE_INVALID \<Rightarrow> Inr (None, ss)
           | _ \<Rightarrow> socket_events i e ss))"

text \<open>\<open>sp_wait\<close>: the kernel reports a descriptor that is watched, at most once, and at most 64 of them.\<close>

definition watched :: "socket_server \<Rightarrow> kernel_event list \<Rightarrow> kernel_event list" where
  "watched ss evs =
     take 64 (filter (\<lambda>e. case ev_s e of None \<Rightarrow> True | Some i \<Rightarrow> sk_polled (ss_slot ss i) \<and> length (filter (\<lambda>e'. ev_s e' = Some i) evs) = 1) evs)"

datatype poll_outcome = Return "socket_event option" | Continue | Blocked

definition go_on :: "socket_event option \<Rightarrow> poll_outcome" where
  "go_on type = (case type of None \<Rightarrow> Continue | Some _ \<Rightarrow> Return type)"

text \<open>With no answer left the thread stays in \<open>sp_wait\<close>.\<close>

definition sp_wait :: "socket_server \<Rightarrow> poll_outcome \<times> socket_server" where
  "sp_wait ss =
     (if ss_answers ss = [] then (Blocked, ss)
      else case kernel ss of
        (Events evs, ss1) \<Rightarrow>
          (if watched ss1 evs = [] then Return None else Continue, ss1\<lparr>ss_ev := watched ss1 evs, ss_checkctrl := True\<rparr>)
      | (a, ss1) \<Rightarrow> (if sys_errno a = EINTR then Continue else Return None, ss1\<lparr>ss_checkctrl := True\<rparr>))"

definition poll_event :: "socket_server \<Rightarrow> (poll_outcome \<times> socket_server) res" where
  "poll_event ss =
     (case ss_ev ss of
        [] \<Rightarrow> Inr (Continue, ss)
      | e # es \<Rightarrow> bind_res (handle_event e (ss\<lparr>ss_ev := es\<rparr>)) (\<lambda>(type, ss1). Inr (go_on type, ss1)))"

text \<open>A round of the loop of \<open>socket_server_poll\<close>, and rounds up to a result.\<close>

definition poll_round :: "socket_server \<Rightarrow> (poll_outcome \<times> socket_server) res" where
  "poll_round ss =
     (if ss_checkctrl ss \<and> ss_pipe ss \<noteq> [] then
        bind_res (ctrl_cmd (hd (ss_pipe ss)) (ss\<lparr>ss_pipe := tl (ss_pipe ss)\<rparr>)) (\<lambda>(type, ss1).
          Inr (go_on type, case type of None \<Rightarrow> ss1 | Some t \<Rightarrow> clear_closed_event t ss1))
      else
        let ss1 = ss\<lparr>ss_checkctrl := False\<rparr>
        in if ss_ev ss1 = [] then
             (case sp_wait ss1 of (r, ss2) \<Rightarrow> if ss_ev ss2 = [] then Inr (r, ss2) else poll_event ss2)
           else poll_event ss1)"

fun socket_server_poll :: "nat \<Rightarrow> socket_server \<Rightarrow> (poll_outcome \<times> socket_server) res" where
  "socket_server_poll 0 ss = Inr (Continue, ss)"
| "socket_server_poll (Suc n) ss =
     bind_res (poll_round ss) (\<lambda>(r, ss1). if r = Continue then socket_server_poll n ss1 else Inr (r, ss1))"

section \<open>The calls of the services\<close>

definition send_request :: "request \<Rightarrow> socket_server \<Rightarrow> socket_server" where
  "send_request r ss = ss\<lparr>ss_pipe := ss_pipe ss @ [r]\<rparr>"

text \<open>The size of \<open>struct request_open\<close> is 24.\<close>

definition open_request :: "string \<Rightarrow> socket_server \<Rightarrow> i32 option \<times> socket_server" where
  "open_request addr ss = (if length addr + 24 \<ge> 256 then (None, ss) else reserve_id ss)"

definition socket_server_connect :: "u64 \<Rightarrow> string \<Rightarrow> int \<Rightarrow> socket_server \<Rightarrow> i32 option \<times> socket_server" where
  "socket_server_connect opaque addr port ss =
     (case open_request addr ss of (None, ss1) \<Rightarrow> (None, ss1) | (Some sid, ss1) \<Rightarrow> (Some sid, send_request (ReqO sid port opaque addr) ss1))"

definition can_direct_write :: "socket \<Rightarrow> i32 \<Rightarrow> bool" where
  "can_direct_write s sid \<longleftrightarrow> sk_id s = sid \<and> nomore_sending_data s \<and> sk_type s = SOCKET_TYPE_CONNECTED \<and> sk_udpconnecting s = 0"

text \<open>By way of the pipe.\<close>

definition send_by_pipe :: "(request_send \<Rightarrow> request) \<Rightarrow> socket_sendbuffer \<Rightarrow> socket_server \<Rightarrow> socket_server" where
  "send_by_pipe req buf ss =
     (case clone_buffer buf ss of ((buffer, sz), ss1) \<Rightarrow> send_request (req \<lparr>rs_id = sb_id buf, rs_sz = sz, rs_buffer = buffer\<rparr>) ss1)"

definition keep_direct :: "nat \<Rightarrow> nat \<Rightarrow> socket_sendbuffer \<Rightarrow> socket_server \<Rightarrow> socket_server" where
  "keep_direct i n buf ss =
     (case clone_buffer buf ss of ((buffer, sz), ss1) \<Rightarrow>
        sp_write i True (upd_sock i (\<lambda>s. s\<lparr>sk_dw_buffer := Some buffer, sk_dw_size := sz, sk_dw_offset := n\<rparr>) ss1))"

text \<open>The direct write; -1 if a datagram has nowhere to go.\<close>

definition write_directly :: "nat \<Rightarrow> socket_sendbuffer \<Rightarrow> socket_server \<Rightarrow> int \<times> socket_server" where
  "write_directly i buf ss =
     (let s = ss_slot ss i; so = send_object_init_from_sendbuffer ss buf;
          finish = (\<lambda>n ss1. let ss2 = stat_write i n ss1
                    in if n = length so then (0, free_buffer buf ss2) else (0, keep_direct i n buf ss2))
      in if sk_protocol s = PROTOCOL_TCP then (case sys_write i so ss of (Inr n, ss1) \<Rightarrow> finish n ss1 | (Inl _, ss1) \<Rightarrow> finish 0 ss1)
         else case udp_socket_address s (sk_udp_address s) of
           None \<Rightarrow> (-1, free_buffer buf ss)
         | Some sa \<Rightarrow> (case sys_sendto i so sa ss of (Inr n, ss1) \<Rightarrow> finish n ss1 | (Inl _, ss1) \<Rightarrow> finish 0 ss1))"

definition socket_server_send :: "socket_sendbuffer \<Rightarrow> socket_server \<Rightarrow> (int \<times> socket_server) res" where
  "socket_server_send buf ss =
     (let i = HASH_ID (sb_id buf); s = ss_slot ss i
      in if sk_id s \<noteq> sb_id buf \<or> sk_type s = SOCKET_TYPE_INVALID then Inr (-1, free_buffer buf ss)
         else if can_direct_write s (sb_id buf) then Inr (write_directly i buf ss)
         else bind_res (inc_sending_ref i (sb_id buf) ss) (\<lambda>ss1. Inr (0, send_by_pipe ReqD buf ss1)))"

definition socket_server_send_lowpriority :: "socket_sendbuffer \<Rightarrow> socket_server \<Rightarrow> (int \<times> socket_server) res" where
  "socket_server_send_lowpriority buf ss =
     (let i = HASH_ID (sb_id buf); s = ss_slot ss i
      in if sk_id s \<noteq> sb_id buf \<or> sk_type s = SOCKET_TYPE_INVALID then Inr (-1, free_buffer buf ss)
         else bind_res (inc_sending_ref i (sb_id buf) ss) (\<lambda>ss1. Inr (0, send_by_pipe ReqP buf ss1)))"

definition socket_server_exit :: "socket_server \<Rightarrow> socket_server" where
  "socket_server_exit ss = send_request ReqX ss"

definition socket_server_close :: "u64 \<Rightarrow> i32 \<Rightarrow> socket_server \<Rightarrow> socket_server" where
  "socket_server_close opaque sid ss = send_request (ReqK sid False opaque) ss"

definition socket_server_shutdown :: "u64 \<Rightarrow> i32 \<Rightarrow> socket_server \<Rightarrow> socket_server" where
  "socket_server_shutdown opaque sid ss = send_request (ReqK sid True opaque) ss"

text \<open>The descriptor that \<open>do_listen\<close> makes is an answer of the kernel.\<close>

definition socket_server_listen :: "u64 \<Rightarrow> socket_server \<Rightarrow> i32 option \<times> socket_server" where
  "socket_server_listen opaque ss =
     (case kernel ss of
        (Done fd, ss1) \<Rightarrow>
          (case reserve_id ss1 of
             (None, ss2) \<Rightarrow> (None, sys_close (int fd) ss2)
           | (Some sid, ss2) \<Rightarrow> (Some sid, send_request (ReqL sid (int fd) opaque) ss2))
      | (_, ss1) \<Rightarrow> (None, ss1))"

definition socket_server_bind :: "u64 \<Rightarrow> int \<Rightarrow> socket_server \<Rightarrow> i32 option \<times> socket_server" where
  "socket_server_bind opaque fd ss =
     (case reserve_id ss of (None, ss1) \<Rightarrow> (None, ss1) | (Some sid, ss1) \<Rightarrow> (Some sid, send_request (ReqB sid fd opaque) ss1))"

definition socket_server_start :: "u64 \<Rightarrow> i32 \<Rightarrow> socket_server \<Rightarrow> socket_server" where
  "socket_server_start opaque sid ss = send_request (ReqS sid opaque) ss"

definition socket_server_nodelay :: "i32 \<Rightarrow> socket_server \<Rightarrow> socket_server" where
  "socket_server_nodelay sid ss = send_request (ReqT sid 1 1) ss"

text \<open>The descriptor comes from \<open>do_bind\<close> or \<open>socket\<close>, with the family of the address.\<close>

definition socket_server_udp :: "u64 \<Rightarrow> bool \<Rightarrow> socket_server \<Rightarrow> i32 option \<times> socket_server" where
  "socket_server_udp opaque inet6 ss =
     (case kernel ss of
        (Done fd, ss1) \<Rightarrow>
          (case reserve_id ss1 of
             (None, ss2) \<Rightarrow> (None, sys_close (int fd) ss2)
           | (Some sid, ss2) \<Rightarrow> (Some sid, send_request (ReqU sid (int fd) inet6 opaque) ss2))
      | (_, ss1) \<Rightarrow> (None, ss1))"

definition udp_address_size :: "byte list \<Rightarrow> nat option" where
  "udp_address_size addr =
     (if hd addr = protocol_code PROTOCOL_UDP then Some 7 else if hd addr = protocol_code PROTOCOL_UDPv6 then Some 19 else None)"

definition socket_server_udp_send :: "byte list \<Rightarrow> socket_sendbuffer \<Rightarrow> socket_server \<Rightarrow> int \<times> socket_server" where
  "socket_server_udp_send udp_address buf ss =
     (let i = HASH_ID (sb_id buf); s = ss_slot ss i
      in if sk_id s \<noteq> sb_id buf \<or> sk_type s = SOCKET_TYPE_INVALID then (-1, free_buffer buf ss)
         else case udp_address_size udp_address of
           None \<Rightarrow> (-1, free_buffer buf ss)
         | Some addrsz \<Rightarrow>
             let later = (\<lambda>ss1. (0, send_by_pipe (\<lambda>r. ReqA r (take addrsz udp_address)) buf ss1))
             in if can_direct_write s (sb_id buf) then
                  (case udp_socket_address s udp_address of
                     None \<Rightarrow> (-1, free_buffer buf ss)
                   | Some sa \<Rightarrow>
                       (case sys_sendto i (send_object_init_from_sendbuffer ss buf) sa ss of
                          (Inr n, ss1) \<Rightarrow> (0, free_buffer buf (stat_write i n ss1))
                        | (Inl _, ss1) \<Rightarrow> later ss1))
                else later ss)"

text \<open>\<open>getaddrinfo\<close> answers with an address; a failure leaves \<open>udpconnecting\<close> raised.\<close>

definition socket_server_udp_connect :: "i32 \<Rightarrow> socket_server \<Rightarrow> int \<times> socket_server" where
  "socket_server_udp_connect sid ss =
     (let i = HASH_ID sid; s = ss_slot ss i
      in if sk_id s \<noteq> sid \<or> sk_type s = SOCKET_TYPE_INVALID then (-1, ss)
         else case kernel (upd_sock i (\<lambda>s. s\<lparr>sk_udpconnecting := sk_udpconnecting s + 1\<rparr>) ss) of
           (From _ inet6 sa, ss1) \<Rightarrow> (0, send_request (ReqC sid (gen_udp_address (if inet6 then PROTOCOL_UDPv6 else PROTOCOL_UDP) sa)) ss1)
         | (_, ss1) \<Rightarrow> (-1, ss1))"

definition socket_server_udp_address :: "socket_message \<Rightarrow> (byte list \<times> nat) option res" where
  "socket_server_udp_address msg =
     (case sm_data msg of
        DataBytes bs \<Rightarrow>
          if 0 \<le> sm_ud msg \<and> nat (sm_ud msg) < length bs then
            (let address = drop (nat (sm_ud msg)) bs in Inr (map_option (\<lambda>n. (address, n)) (udp_address_size address)))
          else Inl OutOfBounds
      | _ \<Rightarrow> Inl NullDeref)"

end
