(* ===== verification/SocketSend.thy ===== *)
theory SocketSend
  imports SocketServer
begin

text \<open>
  What sending leaves of one socket: \<open>send_list_tcp\<close> moves bytes from the head of a list to the kernel and neither
  loses nor doubles one, \<open>send_buffer\<close> never hits its assertions, \<open>force_close\<close> frees the lists. \<open>only i\<close> says that
  no other slot, no request and no event is touched.
\<close>

section \<open>What an operation on one slot leaves alone\<close>

definition only :: "nat \<Rightarrow> socket_server \<Rightarrow> socket_server \<Rightarrow> bool" where
  "only i ss ss' \<longleftrightarrow> (\<forall>j. j \<noteq> i \<longrightarrow> ss_slot ss' j = ss_slot ss j) \<and> ss_pipe ss' = ss_pipe ss \<and> ss_ev ss' = ss_ev ss \<and>
     ss_soi ss' = ss_soi ss \<and> ss_alloc_id ss' = ss_alloc_id ss \<and>
     ss_checkctrl ss' = ss_checkctrl ss \<and> set (ss_answers ss') \<subseteq> set (ss_answers ss)"

lemma only_refl [simp, intro]: "only i ss ss"
  by (simp add: only_def)

lemma only_trans: "only i ss ss1 \<Longrightarrow> only i ss1 ss2 \<Longrightarrow> only i ss ss2"
  unfolding only_def by auto

lemma slot_upd [simp]: "ss_slot (upd_sock i f ss) = (ss_slot ss)(i := f (ss_slot ss i))"
  by (simp add: upd_sock_def)

lemma only_upd [simp]: "only i ss (upd_sock i f ss') \<longleftrightarrow> only i ss ss'"
  by (simp add: only_def upd_sock_def)

lemma upd_fields [simp]: "ss_pipe (upd_sock i f ss) = ss_pipe ss" "ss_ev (upd_sock i f ss) = ss_ev ss" "ss_soi (upd_sock i f ss) = ss_soi ss"
  "ss_answers (upd_sock i f ss) = ss_answers ss" "ss_result (upd_sock i f ss) = ss_result ss"
  by (simp_all add: upd_sock_def)

lemma free_simps [simp]: "ss_slot (free_ptr p ss) = ss_slot ss" "ss_soi (free_ptr p ss) = ss_soi ss" "only i ss0 (free_ptr p ss) \<longleftrightarrow> only i ss0 ss"
  "ss_result (free_ptr p ss) = ss_result ss"
  by (simp_all add: free_ptr_def only_def)

lemma wb_free_simps [simp]: "ss_slot (write_buffer_free wb ss) = ss_slot ss" "ss_soi (write_buffer_free wb ss) = ss_soi ss"
  "only i ss0 (write_buffer_free wb ss) \<longleftrightarrow> only i ss0 ss" "ss_result (write_buffer_free wb ss) = ss_result ss"
  by (simp_all add: write_buffer_free_def)

lemma free_list_simps [simp]: "ss_slot (free_wb_list wbs ss) = ss_slot ss" "only i ss0 (free_wb_list wbs ss) \<longleftrightarrow> only i ss0 ss"
  "ss_result (free_wb_list wbs ss) = ss_result ss"
  by (induction wbs arbitrary: ss) (simp_all add: free_wb_list_def)

lemma report_simps [simp]: "ss_slot (report sid opaque ud d ss) = ss_slot ss" "only i ss0 (report sid opaque ud d ss) \<longleftrightarrow> only i ss0 ss"
  "ss_pipe (report sid opaque ud d ss) = ss_pipe ss" "ss_soi (report sid opaque ud d ss) = ss_soi ss"
  "ss_result (report sid opaque ud d ss) = \<lparr>sm_id = sid, sm_opaque = opaque, sm_ud = ud, sm_data = d\<rparr>"
  by (simp_all add: report_def only_def)

lemma set_data_simps [simp]: "ss_slot (set_data d ss) = ss_slot ss" "only i ss0 (set_data d ss) \<longleftrightarrow> only i ss0 ss"
  "ss_pipe (set_data d ss) = ss_pipe ss" "ss_soi (set_data d ss) = ss_soi ss" "sm_id (ss_result (set_data d ss)) = sm_id (ss_result ss)"
  by (simp_all add: set_data_def only_def)

lemma close_simps [simp]: "ss_slot (sys_close fd ss) = ss_slot ss" "only i ss0 (sys_close fd ss) \<longleftrightarrow> only i ss0 ss"
  "ss_pipe (sys_close fd ss) = ss_pipe ss" "ss_soi (sys_close fd ss) = ss_soi ss" "ss_result (sys_close fd ss) = ss_result ss"
  by (simp_all add: sys_close_def only_def)

lemma kernel_only: "kernel ss = (a, ss1) \<Longrightarrow> ss_slot ss1 = ss_slot ss \<and> only i ss ss1 \<and> ss_result ss1 = ss_result ss"
  by (auto simp: kernel_def only_def split: list.splits)

lemma only_soi: "only i ss ss' \<Longrightarrow> ss_soi ss' = ss_soi ss"
  by (simp add: only_def)

section \<open>A socket by itself\<close>

definition rests :: "write_buffer list \<Rightarrow> byte list" where
  "rests wbs = concat (map wbuf_rest wbs)"

lemma rests_simps [simp]: "rests [] = []" "rests (wb # wbs) = wbuf_rest wb @ rests wbs" "rests (a @ b) = rests a @ rests b"
  by (simp_all add: rests_def)

definition fresh :: "write_buffer \<Rightarrow> bool" where
  "fresh wb \<longleftrightarrow> wbuf_ptr wb = 0"

text \<open>Only the first buffer of the high list may be sent in part; the count of bytes is exact.\<close>

definition local_ok :: "socket \<Rightarrow> bool" where
  "local_ok s \<longleftrightarrow>
     (sk_type s \<in> {SOCKET_TYPE_INVALID, SOCKET_TYPE_RESERVE} \<longrightarrow> sk_high s = [] \<and> sk_low s = [] \<and> sk_dw_buffer s = None) \<and>
     list_all fresh (tl (sk_high s)) \<and> list_all fresh (sk_low s) \<and>
     (sk_type s \<notin> {SOCKET_TYPE_INVALID, SOCKET_TYPE_RESERVE} \<longrightarrow> sk_wb_size s = int (length (rests (sk_high s @ sk_low s)))) \<and>
     (sk_polled s \<longrightarrow> sk_type s \<in> {SOCKET_TYPE_LISTEN, SOCKET_TYPE_CONNECTING, SOCKET_TYPE_CONNECTED, SOCKET_TYPE_HALFCLOSE, SOCKET_TYPE_BIND}) \<and>
     sk_size s \<le> 2 ^ 30 \<and>
     (sk_protocol s \<noteq> PROTOCOL_TCP \<longrightarrow> sk_dw_buffer s = None \<and> list_all (\<lambda>wb. wbuf_udp_address wb \<noteq> None) (sk_high s @ sk_low s))"

text \<open>A socket that is closed, seen from the open one.\<close>

definition closes :: "socket \<Rightarrow> socket \<Rightarrow> bool" where
  "closes s s' \<longleftrightarrow> sk_type s' = SOCKET_TYPE_INVALID \<and> sk_id s' = sk_id s \<and> sk_protocol s' = sk_protocol s \<and> sk_sending s' = sk_sending s \<and>
     local_ok s' \<and> \<not> sk_polled s' \<and> sk_out s' = sk_out s"

lemma force_close_spec:
  assumes "local_ok (ss_slot ss i)" "sk_type (ss_slot ss i) \<noteq> SOCKET_TYPE_RESERVE"
  obtains ss' where "force_close i ss = Inr ss'" "only i ss ss'" "closes (ss_slot ss i) (ss_slot ss' i)" "sm_id (ss_result ss') = sk_id (ss_slot ss i)"
proof (cases "sk_type (ss_slot ss i) = SOCKET_TYPE_INVALID")
  case True
  with assms(1) show ?thesis
    by (intro that [of "report (sk_id (ss_slot ss i)) (sk_opaque (ss_slot ss i)) 0 NoData ss"]) (auto simp: force_close_def closes_def local_ok_def Let_def)
next
  case False
  show ?thesis
  proof (rule that)
    let ?r = "projr (force_close i ss)"
    show "force_close i ss = Inr ?r" using False assms(2) by (simp add: force_close_def Let_def)
    show "only i ss ?r" using False assms(2) by (simp add: force_close_def Let_def sp_del_def split: option.split)
    show "closes (ss_slot ss i) (ss_slot ?r i)" using False assms
      by (auto simp: force_close_def closes_def Let_def sp_del_def local_ok_def split: option.split)
    show "sm_id (ss_result ?r) = sk_id (ss_slot ss i)" using False assms(2)
      by (simp add: force_close_def Let_def sp_del_def split: option.split)
  qed
qed
text \<open>What the kernel has taken.\<close>

definition flowed :: "socket \<Rightarrow> byte list" where
  "flowed s = concat (map fst (sk_out s))"

lemma flowed_upd [simp]: "flowed (s\<lparr>sk_low := l\<rparr>) = flowed s" "flowed (s\<lparr>sk_high := l\<rparr>) = flowed s" "flowed (s\<lparr>sk_type := t\<rparr>) = flowed s"
  "flowed (s\<lparr>sk_dw_buffer := d\<rparr>) = flowed s" "flowed (s\<lparr>sk_wb_size := n\<rparr>) = flowed s" "flowed (s\<lparr>sk_warn_size := n\<rparr>) = flowed s"
  "flowed (s\<lparr>sk_write := b\<rparr>) = flowed s" "flowed (s\<lparr>sk_polled := b\<rparr>) = flowed s" "flowed (s\<lparr>sk_opaque := p\<rparr>) = flowed s"
  "flowed (s\<lparr>sk_sending := r\<rparr>) = flowed s" "flowed (s\<lparr>sk_size := n\<rparr>) = flowed s" "flowed (s\<lparr>sk_stat := st\<rparr>) = flowed s"
  by (simp_all add: flowed_def)

definition same_conn :: "socket \<Rightarrow> socket \<Rightarrow> bool" where
  "same_conn s s' \<longleftrightarrow> sk_type s' = sk_type s \<and> sk_id s' = sk_id s \<and> sk_protocol s' = sk_protocol s \<and> sk_sending s' = sk_sending s \<and>
     sk_polled s' = sk_polled s \<and> sk_size s' = sk_size s"

definition same_dw :: "socket \<Rightarrow> socket \<Rightarrow> bool" where
  "same_dw s s' \<longleftrightarrow> sk_dw_buffer s' = sk_dw_buffer s \<and> sk_dw_offset s' = sk_dw_offset s \<and> sk_dw_size s' = sk_dw_size s"

lemma same_conn_trans: "same_conn s s1 \<Longrightarrow> same_conn s1 s2 \<Longrightarrow> same_conn s s2"
  by (simp add: same_conn_def)

lemma same_dw_trans: "same_dw s s1 \<Longrightarrow> same_dw s1 s2 \<Longrightarrow> same_dw s s2"
  by (simp add: same_dw_def)

definition other :: "priority \<Rightarrow> priority" where
  "other pr = (case pr of PRIORITY_HIGH \<Rightarrow> PRIORITY_LOW | PRIORITY_LOW \<Rightarrow> PRIORITY_HIGH)"

definition moved :: "priority \<Rightarrow> socket \<Rightarrow> socket \<Rightarrow> bool" where
  "moved pr s s' \<longleftrightarrow> same_conn s s' \<and> same_dw s s' \<and> wb_list (other pr) s' = wb_list (other pr) s \<and>
     flowed s' @ rests (wb_list pr s') = flowed s @ rests (wb_list pr s) \<and> list_all fresh (tl (wb_list pr s')) \<and>
     sk_wb_size s' - int (length (rests (wb_list pr s'))) = sk_wb_size s - int (length (rests (wb_list pr s)))"

definition ended :: "socket \<Rightarrow> socket \<Rightarrow> bool" where
  "ended s s' \<longleftrightarrow> sk_type s' = SOCKET_TYPE_INVALID \<and> sk_id s' = sk_id s \<and> sk_protocol s' = sk_protocol s \<and> sk_sending s' = sk_sending s \<and>
     local_ok s' \<and> \<not> sk_polled s' \<and>
     (sk_protocol s = PROTOCOL_TCP \<longrightarrow> (\<exists>more. flowed s' @ more = flowed s @ rests (sk_high s @ sk_low s)))"

lemma closes_ended: "closes s s' \<Longrightarrow> ended s s'"
  by (auto simp: closes_def ended_def flowed_def)

lemma fresh_tl: "list_all fresh wbs \<Longrightarrow> list_all fresh (tl wbs)"
  by (cases wbs) simp_all

definition open_type :: "socket \<Rightarrow> bool" where
  "open_type s \<longleftrightarrow> sk_type s \<notin> {SOCKET_TYPE_INVALID, SOCKET_TYPE_RESERVE}"

lemma local_ok_fresh: "local_ok s \<Longrightarrow> list_all fresh (tl (wb_list pr s))"
  by (cases pr) (auto simp: local_ok_def wb_list_def fresh_tl)

text \<open>The slot after a buffer, or a part of it, has gone to the kernel.\<close>

definition took :: "priority \<Rightarrow> nat \<Rightarrow> write_buffer list \<Rightarrow> u64 \<Rightarrow> byte list \<Rightarrow> socket \<Rightarrow> socket" where
  "took pr n wbs time bs s = set_list pr wbs (add_wb_size (- int n)
     (s\<lparr>sk_out := sk_out s @ [(bs, [])], sk_stat := (sk_stat s)\<lparr>st_write := st_write (sk_stat s) + of_nat n, st_wtime := time\<rparr>\<rparr>))"

lemma took_moved:
  assumes "rests (wb_list pr s) = bs @ rests wbs" "length bs = n" "list_all fresh (tl wbs)"
  shows "moved pr s (took pr n wbs time bs s)"
proof -
  have "wb_list pr (took pr n wbs time bs s) = wbs" "wb_list (other pr) (took pr n wbs time bs s) = wb_list (other pr) s"
    by (cases pr; simp add: took_def wb_list_def set_list_def add_wb_size_def other_def)+
  moreover have "sk_wb_size (took pr n wbs time bs s) = sk_wb_size s - int n" "flowed (took pr n wbs time bs s) = flowed s @ bs"
    "same_conn s (took pr n wbs time bs s)" "same_dw s (took pr n wbs time bs s)"
    by (cases pr; simp add: took_def flowed_def set_list_def add_wb_size_def same_conn_def same_dw_def)+
  ultimately show ?thesis using assms by (simp add: moved_def)
qed

lemma moved_trans: "moved pr s s1 \<Longrightarrow> moved pr s1 s2 \<Longrightarrow> moved pr s s2"
  unfolding moved_def using same_conn_trans same_dw_trans by metis

lemma moved_rests: "moved pr s s' \<Longrightarrow> pr = PRIORITY_HIGH \<or> sk_high s = [] \<Longrightarrow>
    flowed s' @ rests (sk_high s' @ sk_low s') = flowed s @ rests (sk_high s @ sk_low s)"
  by (cases pr) (auto simp: moved_def wb_list_def other_def)

lemma moved_local:
  assumes "local_ok s" "open_type s" "sk_protocol s = PROTOCOL_TCP" "moved pr s s'" "pr = PRIORITY_LOW \<Longrightarrow> list_all fresh (sk_low s')"
  shows "local_ok s'"
  using assms by (cases pr) (auto simp: local_ok_def moved_def open_type_def wb_list_def other_def same_conn_def)

lemma sys_write_cases:
  assumes "sys_write i bs ss = (r, ss1)"
  obtains n where "r = Inr n" "n \<le> length bs" "only i ss ss1" "ss_slot ss1 = (ss_slot ss)(i := (ss_slot ss i)\<lparr>sk_out := sk_out (ss_slot ss i) @ [(take n bs, [])]\<rparr>)"
  | e where "r = Inl e" "only i ss ss1" "ss_slot ss1 = ss_slot ss" "ss_result ss1 = ss_result ss"
proof -
  obtain a ss0 where k: "kernel ss = (a, ss0)" by (cases "kernel ss")
  from kernel_only [OF this, of i] have o: "ss_slot ss0 = ss_slot ss" "only i ss ss0" "ss_result ss0 = ss_result ss" by blast+
  show ?thesis
  proof (cases a)
    case (Done n)
    with assms k o show ?thesis by (intro that(1) [of "min n (length bs)"]) (auto simp: sys_write_def Let_def)
  qed (use assms k o in \<open>auto simp: sys_write_def intro: that(2)\<close>)
qed

lemma send_list_tcp_spec:
  assumes "local_ok (ss_slot ss i)" "open_type (ss_slot ss i)" "sk_protocol (ss_slot ss i) = PROTOCOL_TCP"
    "pr = PRIORITY_LOW \<Longrightarrow> sk_high (ss_slot ss i) = []"
  shows "\<exists>t ss'. send_list_tcp pr i ss = Inr (t, ss') \<and> only i ss ss' \<and>
    (t = Some SOCKET_CLOSE \<and> ended (ss_slot ss i) (ss_slot ss' i) \<and> sm_id (ss_result ss') = sk_id (ss_slot ss i) \<or>
     t = None \<and> moved pr (ss_slot ss i) (ss_slot ss' i))"
  using assms
proof (induction pr i ss rule: send_list_tcp.induct)
  case (1 pr i ss)
  let ?s = "ss_slot ss i"
  show ?case
  proof (cases "wb_list pr ?s")
    case Nil
    then show ?thesis by (simp add: send_list_tcp.simps [of pr i ss] moved_def same_conn_def same_dw_def)
  next
    case (Cons tmp rest)
    obtain r ss1 where w: "sys_write i (wbuf_rest tmp) ss = (r, ss1)" by (cases "sys_write i (wbuf_rest tmp) ss")
    then show ?thesis
    proof (cases rule: sys_write_cases)
      case (2 e)
      have l1: "local_ok (ss_slot ss1 i)" "sk_type (ss_slot ss1 i) \<noteq> SOCKET_TYPE_RESERVE" using 1(3,4) by (simp_all add: 2(3) open_type_def)
      from force_close_spec [OF this] obtain ss2 where c: "force_close i ss1 = Inr ss2" "only i ss1 ss2" "closes ?s (ss_slot ss2 i)"
        "sm_id (ss_result ss2) = sk_id ?s" unfolding 2(3) by blast
      have closed: "e \<noteq> EINTR \<Longrightarrow> e \<noteq> EAGAIN \<Longrightarrow> send_list_tcp pr i ss = Inr (Some SOCKET_CLOSE, ss2)"
        using c(1) by (cases e) (simp_all add: send_list_tcp.simps [of pr i ss] Cons w 2(1))
      consider "e = EINTR" | "e = EAGAIN" | "e \<noteq> EINTR" "e \<noteq> EAGAIN" by blast
      then show ?thesis
      proof cases
        case a: 1
        have "send_list_tcp pr i ss = send_list_tcp pr i ss1" using a by (simp add: send_list_tcp.simps [of pr i ss] Cons w 2(1))
        moreover note 1(1) [OF Cons w [symmetric] 2(1) a]
        ultimately show ?thesis using only_trans [OF 2(2)] 1(3-6) by (auto simp: 2(3))
      next
        case 2
        then show ?thesis using \<open>only i ss ss1\<close> w Cons \<open>r = Inl e\<close> \<open>ss_slot ss1 = ss_slot ss\<close> local_ok_fresh [OF 1(3), of pr]
          by (simp add: send_list_tcp.simps [of pr i ss] moved_def same_conn_def same_dw_def)
      next
        case 3
        with closed c only_trans [OF 2(2) c(2)] closes_ended show ?thesis by blast
      qed
    next
      case w1: (1 n)
      let ?ss2 = "upd_sock i (add_wb_size (- int n)) (stat_write i n ss1)"
      have sl: "ss_slot (upd_sock i (set_list pr wbs) ?ss2) = (ss_slot ss)(i := took pr n wbs (ss_time ss1) (take n (wbuf_rest tmp)) ?s)" for wbs
        by (cases pr) (simp_all add: w1(4) took_def stat_write_def set_list_def add_wb_size_def)
      have on: "only i ss (upd_sock i (set_list pr wbs) ?ss2)" for wbs using w1(3) by (simp add: stat_write_def)
      have fr: "list_all fresh rest" using local_ok_fresh [OF 1(3), of pr] by (simp add: Cons)
      show ?thesis
      proof (cases "n = wbuf_sz tmp")
        case False
        let ?wbs = "tmp\<lparr>wbuf_ptr := wbuf_ptr tmp + n\<rparr> # rest"
        have "send_list_tcp pr i ss = Inr (None, upd_sock i (set_list pr ?wbs) ?ss2)"
          using False by (simp add: send_list_tcp.simps [of pr i ss] Cons w w1(1) Let_def)
        moreover have "moved pr ?s (took pr n ?wbs (ss_time ss1) (take n (wbuf_rest tmp)) ?s)"
        proof (rule took_moved)
          have "wbuf_rest (tmp\<lparr>wbuf_ptr := wbuf_ptr tmp + n\<rparr>) = drop n (wbuf_rest tmp)" by (simp add: wbuf_rest_def add.commute)
          then show "rests (wb_list pr ?s) = take n (wbuf_rest tmp) @ rests ?wbs" by (simp add: Cons)
        qed (use w1(2) fr in simp_all)
        moreover have "ss_slot (upd_sock i (set_list pr ?wbs) ?ss2) i = took pr n ?wbs (ss_time ss1) (take n (wbuf_rest tmp)) ?s"
          by (simp only: sl fun_upd_same)
        ultimately show ?thesis using on [of ?wbs] by metis
      next
        case True
        let ?ss3 = "write_buffer_free tmp (upd_sock i (set_list pr rest) ?ss2)" and ?s3 = "took pr n rest (ss_time ss1) (wbuf_rest tmp) ?s"
        have s3: "ss_slot ?ss3 i = ?s3" unfolding wb_free_simps sl fun_upd_same by (simp only: True take_all [OF le_refl])
        have e: "send_list_tcp pr i ss = send_list_tcp pr i ?ss3"
          using True by (simp add: send_list_tcp.simps [of pr i ss] Cons w w1(1) Let_def)
        have m: "moved pr ?s ?s3" by (rule took_moved) (use True fr in \<open>simp_all add: Cons fresh_tl\<close>)
        have low: "pr = PRIORITY_LOW \<Longrightarrow> list_all fresh (sk_low ?s3)" using fr by (simp add: took_def set_list_def)
        have l3: "local_ok ?s3" by (rule moved_local [OF 1(3-5) m low])
        have o3: "open_type ?s3" "sk_protocol ?s3 = PROTOCOL_TCP" using m 1(4,5) by (simp_all add: moved_def same_conn_def open_type_def)
        have h3: "pr = PRIORITY_LOW \<Longrightarrow> sk_high ?s3 = []" using m 1(6) by (simp add: moved_def other_def wb_list_def)
        have on3: "only i ss ?ss3" using on by simp
        have nn: "\<not> n \<noteq> wbuf_sz tmp" using True by simp
        from 1(2) [OF Cons w [symmetric] w1(1) refl nn, unfolded s3, OF l3 o3 h3] obtain t ss' where
          r: "send_list_tcp pr i ?ss3 = Inr (t, ss')" "only i ?ss3 ss'"
          "t = Some SOCKET_CLOSE \<and> ended ?s3 (ss_slot ss' i) \<and> sm_id (ss_result ss') = sk_id ?s3 \<or> t = None \<and> moved pr ?s3 (ss_slot ss' i)"
          by blast
        have "ended ?s (ss_slot ss' i)" if "ended ?s3 (ss_slot ss' i)"
          using that m moved_rests [OF m] 1(6) by (cases pr) (auto simp: ended_def moved_def same_conn_def)
        moreover have "moved pr ?s (ss_slot ss' i)" if "moved pr ?s3 (ss_slot ss' i)" by (rule moved_trans [OF m that])
        moreover have "sk_id ?s3 = sk_id ?s" using m by (simp add: moved_def same_conn_def)
        ultimately show ?thesis using r e only_trans [OF on3 r(2)] by auto
      qed
    qed
  qed
qed

lemma sys_sendto_cases:
  assumes "sys_sendto i bs sa ss = (r, ss1)"
  obtains "r = Inr (length bs)" "only i ss ss1" "ss_slot ss1 = (ss_slot ss)(i := (ss_slot ss i)\<lparr>sk_out := sk_out (ss_slot ss i) @ [(bs, sa)]\<rparr>)"
  | e where "r = Inl e" "only i ss ss1" "ss_slot ss1 = ss_slot ss"
proof -
  obtain a ss0 where k: "kernel ss = (a, ss0)" by (cases "kernel ss")
  from kernel_only [OF this, of i] have o: "ss_slot ss0 = ss_slot ss" "only i ss ss0" by blast+
  show ?thesis
  proof (cases a)
    case (Done n)
    with assms k o show ?thesis by (intro that(1)) (auto simp: sys_sendto_def)
  qed (use assms k o in \<open>auto simp: sys_sendto_def intro: that(2)\<close>)
qed

definition served :: "socket \<Rightarrow> socket \<Rightarrow> bool" where
  "served s s' \<longleftrightarrow> same_conn s s' \<and> same_dw s s' \<and> local_ok s'"

lemma served_trans: "served s s1 \<Longrightarrow> served s1 s2 \<Longrightarrow> served s s2"
  unfolding served_def using same_conn_trans same_dw_trans by blast

lemma dropped_served:
  assumes "local_ok s" "open_type s" "wb_list pr s = tmp # rest"
  shows "served s (set_list pr rest (add_wb_size (- int (wbuf_sz tmp)) (s\<lparr>sk_out := x, sk_stat := y\<rparr>)))"
    "wb_list (other pr) (set_list pr rest (add_wb_size (- int (wbuf_sz tmp)) (s\<lparr>sk_out := x, sk_stat := y\<rparr>))) = wb_list (other pr) s"
  using assms by (cases pr; auto simp: served_def same_conn_def same_dw_def local_ok_def open_type_def wb_list_def set_list_def add_wb_size_def other_def fresh_tl)+

lemma send_list_udp_spec:
  assumes "local_ok (ss_slot ss i)" "open_type (ss_slot ss i)" "sk_protocol (ss_slot ss i) \<noteq> PROTOCOL_TCP"
  shows "\<exists>ss'. send_list_udp pr i ss = Inr (None, ss') \<and> only i ss ss' \<and> served (ss_slot ss i) (ss_slot ss' i) \<and>
    wb_list (other pr) (ss_slot ss' i) = wb_list (other pr) (ss_slot ss i)"
  using assms
proof (induction pr i ss rule: send_list_udp.induct)
  case (1 pr i ss)
  let ?s = "ss_slot ss i"
  have self: "served ?s ?s" using 1(2) by (simp add: served_def same_conn_def same_dw_def)
  show ?case
  proof (cases "wb_list pr ?s")
    case Nil
    with self show ?thesis by (simp add: send_list_udp.simps [of pr i ss])
  next
    case (Cons tmp rest)
    have "wbuf_udp_address tmp \<noteq> None" using 1(2,4) Cons by (cases pr) (auto simp: local_ok_def wb_list_def)
    then obtain addr where addr: "wbuf_udp_address tmp = Some addr" by blast
    have drop: "only i ss (drop_udp pr i tmp rest ss1) \<and> served ?s (ss_slot (drop_udp pr i tmp rest ss1) i) \<and>
        wb_list (other pr) (ss_slot (drop_udp pr i tmp rest ss1) i) = wb_list (other pr) ?s"
      if "only i ss ss1" "ss_slot ss1 i = ?s\<lparr>sk_out := x, sk_stat := y\<rparr>" for ss1 x y
      using that dropped_served [OF 1(2,3) Cons, where x = x and y = y] by (simp add: drop_udp_def)
    show ?thesis
    proof (cases "udp_socket_address ?s addr")
      case None
      with drop [of ss "sk_stat ?s" "sk_out ?s"] show ?thesis by (simp add: send_list_udp.simps [of pr i ss] Cons addr)
    next
      case (Some sa)
      obtain r ss1 where w: "sys_sendto i (wbuf_rest tmp) sa ss = (r, ss1)" by (cases "sys_sendto i (wbuf_rest tmp) sa ss")
      then show ?thesis
      proof (cases rule: sys_sendto_cases)
        case w1: 1
        let ?ss2 = "stat_write i (wbuf_sz tmp) ss1" and ?ss3 = "drop_udp pr i tmp rest (stat_write i (wbuf_sz tmp) ss1)"
        have d: "only i ss ?ss3 \<and> served ?s (ss_slot ?ss3 i) \<and> wb_list (other pr) (ss_slot ?ss3 i) = wb_list (other pr) ?s"
          by (rule drop [where x = "sk_out ?s @ [(wbuf_rest tmp, sa)]"]) (use w1(2,3) in \<open>simp_all add: stat_write_def\<close>)
        then have l3: "local_ok (ss_slot ?ss3 i)" "open_type (ss_slot ?ss3 i)" "sk_protocol (ss_slot ?ss3 i) \<noteq> PROTOCOL_TCP"
          using 1(3,4) by (simp_all add: served_def same_conn_def open_type_def)
        have e: "send_list_udp pr i ss = send_list_udp pr i ?ss3" by (simp add: send_list_udp.simps [of pr i ss] Cons addr Some w w1(1))
        from 1(1) [OF Cons addr Some w [symmetric] w1(1) l3] obtain ss' where
          "send_list_udp pr i ?ss3 = Inr (None, ss')" "only i ?ss3 ss'" "served (ss_slot ?ss3 i) (ss_slot ss' i)"
          "wb_list (other pr) (ss_slot ss' i) = wb_list (other pr) (ss_slot ?ss3 i)" by blast
        moreover have "only i ss ss'" using d only_trans [OF _ \<open>only i ?ss3 ss'\<close>] by blast
        moreover have "served ?s (ss_slot ss' i)" using d served_trans [OF _ \<open>served (ss_slot ?ss3 i) (ss_slot ss' i)\<close>] by blast
        ultimately show ?thesis using d e by simp
      next
        case w2: (2 e)
        have "only i ss ss1 \<and> served ?s (ss_slot ss1 i)" using w2 self by simp
        moreover have d: "only i ss (drop_udp pr i tmp rest ss1) \<and> served ?s (ss_slot (drop_udp pr i tmp rest ss1) i) \<and>
            wb_list (other pr) (ss_slot (drop_udp pr i tmp rest ss1) i) = wb_list (other pr) ?s"
          by (rule drop [where x = "sk_out ?s" and y = "sk_stat ?s"]) (use w2 in simp_all)
        ultimately show ?thesis using w2 by (cases e) (auto simp: send_list_udp.simps [of pr i ss] Cons addr Some w)
      qed
    qed
  qed
qed

definition kept :: "socket \<Rightarrow> socket \<Rightarrow> bool" where
  "kept s s' \<longleftrightarrow> served s s' \<and> (sk_protocol s = PROTOCOL_TCP \<longrightarrow>
     flowed s' @ rests (sk_high s' @ sk_low s') = flowed s @ rests (sk_high s @ sk_low s) \<and> (sk_low s = [] \<longrightarrow> sk_low s' = []))"

lemma kept_trans: "kept s s1 \<Longrightarrow> kept s1 s2 \<Longrightarrow> kept s s2"
  unfolding kept_def by (auto simp: served_def same_conn_def same_dw_def)

lemma moved_kept:
  assumes "local_ok s" "open_type s" "sk_protocol s = PROTOCOL_TCP" "moved pr s s'"
    "pr = PRIORITY_LOW \<Longrightarrow> list_all fresh (sk_low s') \<and> sk_low s \<noteq> [] \<and> sk_high s = []"
  shows "kept s s'"
  using moved_local [OF assms(1-4)] assms(4,5) by (cases pr) (auto simp: kept_def served_def moved_def wb_list_def other_def)

text \<open>What a handler leaves of the socket it served: closed, or still there.\<close>

definition outcome :: "nat \<Rightarrow> socket_server \<Rightarrow> socket_event option \<Rightarrow> socket_server \<Rightarrow> bool" where
  "outcome i ss t ss' \<longleftrightarrow> only i ss ss' \<and>
     (t = Some SOCKET_CLOSE \<and> ended (ss_slot ss i) (ss_slot ss' i) \<and> sm_id (ss_result ss') = sk_id (ss_slot ss i) \<or>
      t \<in> {None, Some SOCKET_WARNING} \<and> kept (ss_slot ss i) (ss_slot ss' i))"

lemma all_sent_spec:
  assumes "local_ok (ss_slot ss i)" "open_type (ss_slot ss i)" "sk_high (ss_slot ss i) = []" "sk_low (ss_slot ss i) = []"
  shows "\<exists>t ss'. all_sent i ss = Inr (t, ss') \<and> outcome i ss t ss'"
proof -
  let ?s = "ss_slot ss i" and ?ss1 = "sp_write i False ss"
  have z: "sk_wb_size ?s = 0" using assms by (auto simp: local_ok_def open_type_def)
  have s1: "ss_slot ?ss1 i = ?s\<lparr>sk_write := False\<rparr>" "only i ss ?ss1" by (simp_all add: sp_write_def)
  have k: "kept ?s (?s\<lparr>sk_write := False\<rparr>)" "kept ?s (?s\<lparr>sk_write := False, sk_warn_size := 0\<rparr>)"
    using assms(1) by (simp_all add: kept_def served_def same_conn_def same_dw_def local_ok_def flowed_def)
  show ?thesis
  proof (cases "sk_type ?s = SOCKET_TYPE_HALFCLOSE")
    case True
    have l1: "local_ok (ss_slot ?ss1 i)" "sk_type (ss_slot ?ss1 i) \<noteq> SOCKET_TYPE_RESERVE" using k(1) True s1(1) by (simp_all add: kept_def served_def)
    from force_close_spec [OF this] obtain ss2 where c: "force_close i ?ss1 = Inr ss2" "only i ?ss1 ss2" "closes (ss_slot ?ss1 i) (ss_slot ss2 i)"
      "sm_id (ss_result ss2) = sk_id (ss_slot ?ss1 i)" .
    have "ended ?s (ss_slot ss2 i)" using c(3) by (auto simp: closes_def ended_def s1(1) flowed_def)
    with c only_trans [OF s1(2) c(2)] True assms(3,4) z s1(1) show ?thesis
      by (simp add: all_sent_def Let_def send_buffer_empty_def outcome_def)
  next
    case False
    with assms(3,4) z s1 k show ?thesis by (simp add: all_sent_def Let_def send_buffer_empty_def outcome_def)
  qed
qed

text \<open>User objects that start with their data.\<close>

definition plain_objects :: "socket_object_interface \<Rightarrow> bool" where
  "plain_objects soi \<longleftrightarrow> (\<forall>p. soi_buffer soi p = p)"

lemma list_uncomplete_fresh: "plain_objects (ss_soi ss) \<Longrightarrow> list_uncomplete ss wbs \<longleftrightarrow> wbs \<noteq> [] \<and> \<not> fresh (hd wbs)"
  by (cases wbs) (auto simp: list_uncomplete_def plain_objects_def fresh_def)

lemma send_high_spec:
  assumes "local_ok (ss_slot ss i)" "open_type (ss_slot ss i)"
  shows "\<exists>t ss'. send_list PRIORITY_HIGH i ss = Inr (t, ss') \<and> outcome i ss t ss' \<and> t \<noteq> Some SOCKET_WARNING"
proof (cases "sk_protocol (ss_slot ss i) = PROTOCOL_TCP")
  case True
  from send_list_tcp_spec [OF assms True, of PRIORITY_HIGH] obtain t ss' where
    r: "send_list_tcp PRIORITY_HIGH i ss = Inr (t, ss')" "only i ss ss'"
      "t = Some SOCKET_CLOSE \<and> ended (ss_slot ss i) (ss_slot ss' i) \<and> sm_id (ss_result ss') = sk_id (ss_slot ss i) \<or>
       t = None \<and> moved PRIORITY_HIGH (ss_slot ss i) (ss_slot ss' i)" by auto
  with moved_kept [OF assms True, of PRIORITY_HIGH] True show ?thesis by (auto simp: send_list_def outcome_def)
next
  case False
  from send_list_udp_spec [OF assms False, of PRIORITY_HIGH] False show ?thesis by (auto simp: send_list_def outcome_def kept_def)
qed

text \<open>After the low list: closed, or the head of what is left may have been sent in part.\<close>

lemma send_low_spec:
  assumes "local_ok (ss_slot ss i)" "open_type (ss_slot ss i)" "sk_high (ss_slot ss i) = []" "sk_low (ss_slot ss i) \<noteq> []"
  shows "\<exists>t ss'. send_list PRIORITY_LOW i ss = Inr (t, ss') \<and> only i ss ss' \<and>
    (t = Some SOCKET_CLOSE \<and> ended (ss_slot ss i) (ss_slot ss' i) \<and> sm_id (ss_result ss') = sk_id (ss_slot ss i) \<or>
     t = None \<and> sk_high (ss_slot ss' i) = [] \<and> list_all fresh (tl (sk_low (ss_slot ss' i))) \<and>
     (list_all fresh (sk_low (ss_slot ss' i)) \<longrightarrow> kept (ss_slot ss i) (ss_slot ss' i)) \<and>
     (\<forall>tmp rest. sk_low (ss_slot ss' i) = tmp # rest \<longrightarrow> \<not> fresh tmp \<longrightarrow> kept (ss_slot ss i) ((ss_slot ss' i)\<lparr>sk_low := rest, sk_high := [tmp]\<rparr>)))"
proof (cases "sk_protocol (ss_slot ss i) = PROTOCOL_TCP")
  case True
  from send_list_tcp_spec [OF assms(1,2) True, of PRIORITY_LOW] assms(3) obtain t ss' where
    r: "send_list_tcp PRIORITY_LOW i ss = Inr (t, ss')" "only i ss ss'"
      "t = Some SOCKET_CLOSE \<and> ended (ss_slot ss i) (ss_slot ss' i) \<and> sm_id (ss_result ss') = sk_id (ss_slot ss i) \<or>
       t = None \<and> moved PRIORITY_LOW (ss_slot ss i) (ss_slot ss' i)" by auto
  have "sk_high (ss_slot ss' i) = []" "list_all fresh (tl (sk_low (ss_slot ss' i)))" if "moved PRIORITY_LOW (ss_slot ss i) (ss_slot ss' i)"
    using that assms(3) by (simp_all add: moved_def wb_list_def other_def)
  moreover have "kept (ss_slot ss i) (ss_slot ss' i)" if "moved PRIORITY_LOW (ss_slot ss i) (ss_slot ss' i)" "list_all fresh (sk_low (ss_slot ss' i))"
    using moved_kept [OF assms(1,2) True that(1)] that(2) assms(3,4) by blast
  moreover have "kept (ss_slot ss i) ((ss_slot ss' i)\<lparr>sk_low := rest, sk_high := [tmp]\<rparr>)"
    if "moved PRIORITY_LOW (ss_slot ss i) (ss_slot ss' i)" "sk_low (ss_slot ss' i) = tmp # rest" for tmp rest
    using that assms True by (auto simp: moved_def kept_def served_def local_ok_def same_conn_def same_dw_def open_type_def wb_list_def other_def)
  ultimately show ?thesis using r True by (auto simp: send_list_def)
next
  case False
  from send_list_udp_spec [OF assms(1,2) False, of PRIORITY_LOW] obtain ss' where
    r: "send_list_udp PRIORITY_LOW i ss = Inr (None, ss')" "only i ss ss'" "served (ss_slot ss i) (ss_slot ss' i)"
      "sk_high (ss_slot ss' i) = []" using assms(3) by (auto simp: wb_list_def other_def)
  have "list_all fresh (sk_low (ss_slot ss' i))" using r(3) by (simp add: served_def local_ok_def)
  with r False show ?thesis by (auto simp: send_list_def kept_def fresh_tl)
qed

lemma kept_local: "kept s s' \<Longrightarrow> local_ok s'" "kept s s' \<Longrightarrow> open_type s \<Longrightarrow> open_type s'"
  by (auto simp: kept_def served_def same_conn_def open_type_def)

lemma ended_trans:
  assumes "kept s s1" "ended s1 s'"
  shows "ended s s'"
  using assms by (simp add: ended_def kept_def served_def same_conn_def)

lemma outcome_trans:
  assumes "kept (ss_slot ss i) (ss_slot ss1 i)" "only i ss ss1" "outcome i ss1 t ss'"
  shows "outcome i ss t ss'"
proof -
  have o: "only i ss ss'" using only_trans [OF assms(2)] assms(3) unfolding outcome_def by blast
  have "sk_id (ss_slot ss1 i) = sk_id (ss_slot ss i)" using assms(1) by (simp add: kept_def served_def same_conn_def)
  with o assms(3) kept_trans [OF assms(1)] ended_trans [OF assms(1)] show ?thesis unfolding outcome_def by metis
qed

lemma send_buffer_lists_spec:
  assumes "local_ok (ss_slot ss i)" "open_type (ss_slot ss i)" "plain_objects (ss_soi ss)"
  shows "\<exists>t ss'. send_buffer_lists i ss = Inr (t, ss') \<and> outcome i ss t ss'"
proof -
  let ?s = "ss_slot ss i"
  have "list_all fresh (sk_low ?s)" using assms(1) by (simp add: local_ok_def)
  then have n: "\<not> list_uncomplete ss (sk_low ?s)" by (cases "sk_low ?s") (simp_all add: list_uncomplete_fresh [OF assms(3)])
  from send_high_spec [OF assms(1,2)] obtain t1 ss1 where h: "send_list PRIORITY_HIGH i ss = Inr (t1, ss1)" "outcome i ss t1 ss1" "t1 \<noteq> Some SOCKET_WARNING" by blast
  let ?s1 = "ss_slot ss1 i"
  note def = send_buffer_lists_def [of i ss]
  have finish: "\<exists>t ss'. send_buffer_lists i ss = Inr (t, ss') \<and> outcome i ss t ss'"
    if "send_buffer_lists i ss = all_sent i ss2" "kept ?s (ss_slot ss2 i)" "only i ss ss2" "sk_high (ss_slot ss2 i) = []" "sk_low (ss_slot ss2 i) = []" for ss2
  proof -
    from all_sent_spec [OF kept_local(1) [OF that(2)] kept_local(2) [OF that(2) assms(2)] that(4,5)] obtain t ss' where
      a: "all_sent i ss2 = Inr (t, ss')" "outcome i ss2 t ss'" by blast
    from outcome_trans [OF that(2,3) a(2)] have "outcome i ss t ss'" .
    with a that(1) show ?thesis by simp
  qed
  show ?thesis
  proof (cases "t1 = Some SOCKET_CLOSE")
    case True
    with n h show ?thesis by (simp add: def)
  next
    case False
    with h(2,3) have k1: "t1 = None" "kept ?s ?s1" "only i ss ss1" by (auto simp: outcome_def)
    show ?thesis
    proof (cases "sk_high ?s1 \<noteq> []")
      case True
      with n h k1 show ?thesis by (simp add: def outcome_def)
    next
      case h1: False
      show ?thesis
      proof (cases "sk_low ?s1 = []")
        case True
        with finish [OF _ k1(2,3)] h1 n h(1) k1(1) show ?thesis by (simp add: def)
      next
        case l1: False
        from send_low_spec [OF kept_local(1) [OF k1(2)] kept_local(2) [OF k1(2) assms(2)] _ l1] h1 obtain t2 ss2 where
          l: "send_list PRIORITY_LOW i ss1 = Inr (t2, ss2)" "only i ss1 ss2"
          "t2 = Some SOCKET_CLOSE \<and> ended ?s1 (ss_slot ss2 i) \<and> sm_id (ss_result ss2) = sk_id ?s1 \<or>
           t2 = None \<and> sk_high (ss_slot ss2 i) = [] \<and> list_all fresh (tl (sk_low (ss_slot ss2 i))) \<and>
           (list_all fresh (sk_low (ss_slot ss2 i)) \<longrightarrow> kept ?s1 (ss_slot ss2 i)) \<and>
           (\<forall>tmp rest. sk_low (ss_slot ss2 i) = tmp # rest \<longrightarrow> \<not> fresh tmp \<longrightarrow> kept ?s1 ((ss_slot ss2 i)\<lparr>sk_low := rest, sk_high := [tmp]\<rparr>))"
          by auto
        have on2: "only i ss ss2" by (rule only_trans [OF k1(3) l(2)])
        then have soi: "plain_objects (ss_soi ss2)" using assms(3) by (simp add: only_soi)
        have e: "send_buffer_lists i ss = (if t2 = Some SOCKET_CLOSE then Inr (Some SOCKET_CLOSE, ss2)
            else if list_uncomplete ss2 (sk_low (ss_slot ss2 i)) then bind_res (raise_uncomplete i ss2) (\<lambda>ss3. Inr (None, ss3))
            else if sk_low (ss_slot ss2 i) \<noteq> [] then Inr (None, ss2) else all_sent i ss2)"
          using n h(1) k1(1) h1 l1 l(1) by (simp add: def)
        from l(3) show ?thesis
        proof (elim disjE conjE)
          assume "t2 = Some SOCKET_CLOSE" "ended ?s1 (ss_slot ss2 i)" "sm_id (ss_result ss2) = sk_id ?s1"
          moreover from ended_trans [OF k1(2) this(2)] have "ended ?s (ss_slot ss2 i)" .
          moreover have "sk_id ?s1 = sk_id ?s" using k1(2) by (simp add: kept_def served_def same_conn_def)
          ultimately show ?thesis using e on2 by (simp add: outcome_def)
        next
          assume a: "t2 = None" "sk_high (ss_slot ss2 i) = []" "list_all fresh (tl (sk_low (ss_slot ss2 i)))"
            "list_all fresh (sk_low (ss_slot ss2 i)) \<longrightarrow> kept ?s1 (ss_slot ss2 i)"
            "\<forall>tmp rest. sk_low (ss_slot ss2 i) = tmp # rest \<longrightarrow> \<not> fresh tmp \<longrightarrow> kept ?s1 ((ss_slot ss2 i)\<lparr>sk_low := rest, sk_high := [tmp]\<rparr>)"
          show ?thesis
          proof (cases "sk_low (ss_slot ss2 i)")
            case Nil
            with a(4) kept_trans [OF k1(2)] have "kept ?s (ss_slot ss2 i)" by simp
            from finish [OF _ this on2 a(2) Nil] e a(1) Nil show ?thesis by (simp add: list_uncomplete_fresh [OF soi])
          next
            case (Cons tmp rest)
            show ?thesis
            proof (cases "fresh tmp")
              case True
              with a(3,4) Cons kept_trans [OF k1(2)] have "kept ?s (ss_slot ss2 i)" by simp
              with e a(1) Cons True on2 show ?thesis by (simp add: list_uncomplete_fresh [OF soi] outcome_def)
            next
              case False
              with a(5) Cons kept_trans [OF k1(2)] have "kept ?s ((ss_slot ss2 i)\<lparr>sk_low := rest, sk_high := [tmp]\<rparr>)" by blast
              with e a(1,2) Cons False on2 show ?thesis by (simp add: list_uncomplete_fresh [OF soi] raise_uncomplete_def outcome_def)
            qed
          qed
        qed
      qed
    qed
  qed
qed

text \<open>What a direct write has left over.\<close>

definition direct_rest :: "socket_object_interface \<Rightarrow> socket \<Rightarrow> byte list" where
  "direct_rest soi s = (case sk_dw_buffer s of None \<Rightarrow> [] | Some p \<Rightarrow>
     drop (sk_dw_offset s) (case sk_dw_size s of None \<Rightarrow> soi_bytes soi p | Some bs \<Rightarrow> bs))"

definition gone :: "socket_object_interface \<Rightarrow> socket \<Rightarrow> socket \<Rightarrow> bool" where
  "gone soi s s' \<longleftrightarrow> sk_type s' = SOCKET_TYPE_INVALID \<and> sk_id s' = sk_id s \<and> sk_protocol s' = sk_protocol s \<and> sk_sending s' = sk_sending s \<and>
     local_ok s' \<and> \<not> sk_polled s' \<and>
     (sk_protocol s = PROTOCOL_TCP \<longrightarrow> (\<exists>more. flowed s' @ more = flowed s @ direct_rest soi s @ rests (sk_high s @ sk_low s)))"

definition stays :: "socket_object_interface \<Rightarrow> socket \<Rightarrow> socket \<Rightarrow> bool" where
  "stays soi s s' \<longleftrightarrow> same_conn s s' \<and> local_ok s' \<and> sk_dw_buffer s' = None \<and>
     (sk_protocol s = PROTOCOL_TCP \<longrightarrow>
      flowed s' @ rests (sk_high s' @ sk_low s') = flowed s @ direct_rest soi s @ rests (sk_high s @ sk_low s) \<and> (sk_low s = [] \<longrightarrow> sk_low s' = []))"

lemma send_buffer_spec:
  assumes "local_ok (ss_slot ss i)" "open_type (ss_slot ss i)" "plain_objects (ss_soi ss)"
    "sk_dw_buffer (ss_slot ss i) \<noteq> None \<longrightarrow> list_all fresh (sk_high (ss_slot ss i))"
  shows "\<exists>t ss'. send_buffer i ss = Inr (t, ss') \<and> only i ss ss' \<and>
    (t = Some SOCKET_CLOSE \<and> gone (ss_soi ss) (ss_slot ss i) (ss_slot ss' i) \<and> sm_id (ss_result ss') = sk_id (ss_slot ss i) \<or>
     t \<in> {None, Some SOCKET_WARNING} \<and> stays (ss_soi ss) (ss_slot ss i) (ss_slot ss' i))"
proof -
  let ?s = "ss_slot ss i" and ?ss1 = "raise_direct i ss" and ?soi = "ss_soi ss"
  let ?s1 = "ss_slot ?ss1 i"
  have o1: "only i ss ?ss1" by (simp add: raise_direct_def Let_def split: option.split)
  have c1: "same_conn ?s ?s1" "sk_dw_buffer ?s1 = None" "sk_low ?s1 = sk_low ?s" "flowed ?s1 = flowed ?s"
    by (auto simp: raise_direct_def Let_def same_conn_def add_wb_size_def flowed_def split: option.split)
  have r1: "rests (sk_high ?s1) = direct_rest ?soi ?s @ rests (sk_high ?s)"
    by (auto simp: raise_direct_def Let_def direct_rest_def wbuf_rest_def send_object_init_def add_wb_size_def split: option.split)
  have l1: "local_ok ?s1"
  proof (cases "sk_dw_buffer ?s")
    case None
    with assms(1) show ?thesis by (simp add: raise_direct_def)
  next
    case (Some p)
    then have "sk_protocol ?s = PROTOCOL_TCP" using assms(1) by (auto simp: local_ok_def)
    with assms(1,2,4) Some show ?thesis by (auto simp: raise_direct_def Let_def local_ok_def add_wb_size_def open_type_def)
  qed
  have "open_type ?s1" using assms(2) c1(1) by (simp add: open_type_def same_conn_def)
  from send_buffer_lists_spec [OF l1 this] assms(3) obtain t ss' where
    s: "send_buffer_lists i ?ss1 = Inr (t, ss')" "outcome i ?ss1 t ss'" by (auto simp: only_soi [OF o1])
  have "gone ?soi ?s (ss_slot ss' i)" if "ended ?s1 (ss_slot ss' i)"
    using that c1 r1 by (simp add: ended_def gone_def same_conn_def)
  moreover have "stays ?soi ?s (ss_slot ss' i)" if "kept ?s1 (ss_slot ss' i)"
    using that c1 r1 by (simp add: kept_def stays_def served_def same_conn_def same_dw_def)
  moreover have "sk_id ?s1 = sk_id ?s" using c1(1) by (simp add: same_conn_def)
  ultimately show ?thesis using s only_trans [OF o1] unfolding outcome_def send_buffer_def by metis
qed

lemma force_close_gone:
  assumes "local_ok (ss_slot ss i)" "sk_type (ss_slot ss i) \<noteq> SOCKET_TYPE_RESERVE"
  obtains ss' where "force_close i ss = Inr ss'" "only i ss ss'" "gone soi (ss_slot ss i) (ss_slot ss' i)" "sm_id (ss_result ss') = sk_id (ss_slot ss i)"
proof -
  from force_close_spec [OF assms] obtain ss' where
    c: "force_close i ss = Inr ss'" "only i ss ss'" "closes (ss_slot ss i) (ss_slot ss' i)" "sm_id (ss_result ss') = sk_id (ss_slot ss i)" .
  have "gone soi (ss_slot ss i) (ss_slot ss' i)" using c(3) by (auto simp: gone_def closes_def flowed_def)
  with c that show thesis by blast
qed

end
