(* ===== verification/SocketInv.thy ===== *)
theory SocketInv
  imports SocketSend
begin

text \<open>
  The requests in the pipe and the invariant of the socket server: what the count of senders of a slot counts, where the
  bytes handed over for a stream are, which slots a request opens, and which the pending events name.
\<close>

section \<open>The pipe\<close>

fun req_sid :: "request \<Rightarrow> i32 option" where
  "req_sid (ReqS sid _) = Some sid"
| "req_sid (ReqB sid _ _) = Some sid"
| "req_sid (ReqL sid _ _) = Some sid"
| "req_sid (ReqK sid _ _) = Some sid"
| "req_sid (ReqO sid _ _ _) = Some sid"
| "req_sid ReqX = None"
| "req_sid (ReqD r) = Some (rs_id r)"
| "req_sid (ReqP r) = Some (rs_id r)"
| "req_sid (ReqA r _) = Some (rs_id r)"
| "req_sid (ReqT sid _ _) = Some sid"
| "req_sid (ReqU sid _ _ _) = Some sid"
| "req_sid (ReqC sid _) = Some sid"

fun opens :: "request \<Rightarrow> bool" where
  "opens (ReqB _ _ _) = True"
| "opens (ReqL _ _ _) = True"
| "opens (ReqO _ _ _ _) = True"
| "opens (ReqU _ _ _ _) = True"
| "opens _ = False"

text \<open>The requests that \<open>sending\<close> counts, what the first kind of them sends, and those that disturb the order of a stream.\<close>

fun sending :: "i32 \<Rightarrow> request \<Rightarrow> bool" where
  "sending sid (ReqD r) \<longleftrightarrow> rs_id r = sid"
| "sending sid (ReqP r) \<longleftrightarrow> rs_id r = sid"
| "sending sid _ \<longleftrightarrow> False"

fun req_bytes :: "socket_object_interface \<Rightarrow> i32 \<Rightarrow> request \<Rightarrow> byte list" where
  "req_bytes soi sid (ReqD r) = (if rs_id r = sid then (case rs_sz r of None \<Rightarrow> soi_bytes soi (rs_buffer r) | Some bs \<Rightarrow> bs) else [])"
| "req_bytes soi sid _ = []"

fun disturbing :: "i32 \<Rightarrow> request \<Rightarrow> bool" where
  "disturbing sid (ReqP r) \<longleftrightarrow> rs_id r = sid"
| "disturbing sid (ReqA r _) \<longleftrightarrow> rs_id r = sid"
| "disturbing sid _ \<longleftrightarrow> False"

definition sends :: "request list \<Rightarrow> i32 \<Rightarrow> nat" where
  "sends pipe sid = length (filter (sending sid) pipe)"

definition pipe_bytes :: "socket_object_interface \<Rightarrow> request list \<Rightarrow> i32 \<Rightarrow> byte list" where
  "pipe_bytes soi pipe sid = concat (map (req_bytes soi sid) pipe)"

definition clean :: "request list \<Rightarrow> i32 \<Rightarrow> bool" where
  "clean pipe sid \<longleftrightarrow> list_all (\<lambda>r. \<not> disturbing sid r) pipe"

lemma pipe_simps [simp]: "sends [] sid = 0" "sends (r # pipe) sid = (if sending sid r then 1 else 0) + sends pipe sid"
  "sends (p @ q) sid = sends p sid + sends q sid" "pipe_bytes soi [] sid = []" "pipe_bytes soi (r # pipe) sid = req_bytes soi sid r @ pipe_bytes soi pipe sid"
  "pipe_bytes soi (p @ q) sid = pipe_bytes soi p sid @ pipe_bytes soi q sid" "clean [] sid"
  "clean (r # pipe) sid \<longleftrightarrow> \<not> disturbing sid r \<and> clean pipe sid" "clean (p @ q) sid \<longleftrightarrow> clean p sid \<and> clean q sid"
  by (simp_all add: sends_def pipe_bytes_def clean_def)

lemma other_sid: "req_sid r \<noteq> Some sid \<Longrightarrow> \<not> sending sid r \<and> req_bytes soi sid r = [] \<and> \<not> disturbing sid r"
  by (cases r) auto

lemma silent: "opens r \<Longrightarrow> \<not> sending sid r \<and> req_bytes soi sid r = [] \<and> \<not> disturbing sid r"
  by (cases r) auto

text \<open>What opens a socket comes before all else that names it.\<close>

fun ordered :: "request list \<Rightarrow> bool" where
  "ordered [] \<longleftrightarrow> True"
| "ordered (r # pipe) \<longleftrightarrow> (\<forall>r' \<in> set pipe. opens r' \<longrightarrow> req_sid r' \<noteq> req_sid r) \<and> ordered pipe"

lemma ordered_snoc: "ordered pipe \<Longrightarrow> opens r \<longrightarrow> (\<forall>r' \<in> set pipe. req_sid r' \<noteq> req_sid r) \<Longrightarrow> ordered (pipe @ [r])"
  by (induction pipe) auto

lemma opens_sid: "opens r \<Longrightarrow> \<exists>sid. req_sid r = Some sid"
  by (cases r) auto

section \<open>The invariant\<close>

text \<open>What has been handed over for a stream so far, in order, as long as nothing disturbed it.\<close>

type_synonym history = "i32 \<Rightarrow> byte list option"

definition stream_ok :: "socket_object_interface \<Rightarrow> history \<Rightarrow> request list \<Rightarrow> socket \<Rightarrow> bool" where
  "stream_ok soi h pipe s \<longleftrightarrow> (\<forall>bs. h (sk_id s) = Some bs \<longrightarrow>
     sk_low s = [] \<and> clean pipe (sk_id s) \<and>
     (sk_type s \<in> {SOCKET_TYPE_PACCEPT, SOCKET_TYPE_PLISTEN, SOCKET_TYPE_LISTEN} \<longrightarrow> sends pipe (sk_id s) = 0) \<and>
     (\<exists>more. bs = flowed s @ direct_rest soi s @ rests (sk_high s) @ more \<and>
        (sk_type s \<notin> {SOCKET_TYPE_HALFCLOSE, SOCKET_TYPE_INVALID} \<longrightarrow> more = pipe_bytes soi pipe (sk_id s))))"

definition counted :: "request list \<Rightarrow> socket \<Rightarrow> bool" where
  "counted pipe s \<longleftrightarrow> unat (sk_sending s) = unat (ID_TAG16 (sk_id s)) * 65536 + sends pipe (sk_id s) \<and> sends pipe (sk_id s) < 65536"

definition slot_ok :: "socket_object_interface \<Rightarrow> history \<Rightarrow> request list \<Rightarrow> nat \<Rightarrow> socket \<Rightarrow> bool" where
  "slot_ok soi h pipe i s \<longleftrightarrow>
     local_ok s \<and> (sk_dw_buffer s \<noteq> None \<longrightarrow> list_all fresh (sk_high s)) \<and>
     (sk_type s \<noteq> SOCKET_TYPE_INVALID \<or> sk_protocol s = PROTOCOL_TCP \<longrightarrow> HASH_ID (sk_id s) = i) \<and>
     (sk_type s = SOCKET_TYPE_RESERVE \<longrightarrow> sk_protocol s = PROTOCOL_UNKNOWN \<and> (\<exists>r \<in> set pipe. opens r \<and> req_sid r = Some (sk_id s)) \<and>
        sends pipe (sk_id s) = 0 \<and> (h (sk_id s) = None \<or> h (sk_id s) = Some [] \<and> clean pipe (sk_id s))) \<and>
     (sk_protocol s = PROTOCOL_TCP \<longrightarrow> counted pipe s \<and> stream_ok soi h pipe s)"

definition openings_ok :: "socket_server \<Rightarrow> request list \<Rightarrow> bool" where
  "openings_ok ss pipe \<longleftrightarrow> (\<forall>r \<in> set pipe. \<forall>sid. opens r \<longrightarrow> req_sid r = Some sid \<longrightarrow>
     sk_type (ss_slot ss (HASH_ID sid)) = SOCKET_TYPE_RESERVE \<and> sk_id (ss_slot ss (HASH_ID sid)) = sid)"

definition ev_slots :: "kernel_event list \<Rightarrow> nat list" where
  "ev_slots evs = List.map_filter ev_s evs"

definition events_ok :: "socket_server \<Rightarrow> kernel_event list \<Rightarrow> bool" where
  "events_ok ss evs \<longleftrightarrow> distinct (ev_slots evs) \<and> (\<forall>i \<in> set (ev_slots evs). sk_polled (ss_slot ss i))"

definition reads_ok :: "kernel_answer list \<Rightarrow> bool" where
  "reads_ok as \<longleftrightarrow> (\<forall>bs. Bytes bs \<in> set as \<longrightarrow> length bs < 2 ^ 29)"

definition socket_inv :: "socket_object_interface \<Rightarrow> history \<Rightarrow> socket_server \<Rightarrow> bool" where
  "socket_inv soi h ss \<longleftrightarrow> ss_soi ss = soi \<and> plain_objects soi \<and> (\<forall>i. slot_ok soi h (ss_pipe ss) i (ss_slot ss i)) \<and>
     ordered (ss_pipe ss) \<and> openings_ok ss (ss_pipe ss) \<and> events_ok ss (ss_ev ss) \<and> reads_ok (ss_answers ss)"

lemma ev_slots_simps [simp]: "ev_slots [] = []" "ev_slots (e # es) = (case ev_s e of None \<Rightarrow> ev_slots es | Some i \<Rightarrow> i # ev_slots es)"
  by (simp_all add: ev_slots_def List.map_filter_simps split: option.split)

lemma slot_ok_gone:
  assumes "slot_ok soi h pipe i s" "gone soi s s'" "sk_type s \<noteq> SOCKET_TYPE_INVALID"
  shows "slot_ok soi h pipe i s'"
proof -
  have "stream_ok soi h pipe s'" if "sk_protocol s = PROTOCOL_TCP"
  proof -
    have st: "stream_ok soi h pipe s" using assms(1) that by (simp add: slot_ok_def)
    have s': "sk_id s' = sk_id s" "sk_type s' = SOCKET_TYPE_INVALID" "sk_low s' = []" "sk_high s' = []" "sk_dw_buffer s' = None"
      using assms(2) by (auto simp: gone_def local_ok_def)
    from assms(2) that obtain m where m: "flowed s' @ m = flowed s @ direct_rest soi s @ rests (sk_high s @ sk_low s)" by (auto simp: gone_def)
    show ?thesis unfolding stream_ok_def s'
    proof (intro allI impI)
      fix bs assume "h (sk_id s) = Some bs"
      with st obtain more where "sk_low s = []" "clean pipe (sk_id s)" "bs = flowed s @ direct_rest soi s @ rests (sk_high s) @ more"
        unfolding stream_ok_def by blast
      with m have "bs = flowed s' @ (m @ more)" "clean pipe (sk_id s)" by simp_all
      then show "[] = [] \<and> clean pipe (sk_id s) \<and> (SOCKET_TYPE_INVALID \<in> {SOCKET_TYPE_PACCEPT, SOCKET_TYPE_PLISTEN, SOCKET_TYPE_LISTEN} \<longrightarrow> sends pipe (sk_id s) = 0) \<and>
        (\<exists>more. bs = flowed s' @ direct_rest soi s' @ rests [] @ more \<and> (SOCKET_TYPE_INVALID \<notin> {SOCKET_TYPE_HALFCLOSE, SOCKET_TYPE_INVALID} \<longrightarrow> more = pipe_bytes soi pipe (sk_id s)))"
        by (auto simp: direct_rest_def s')
    qed
  qed
  with assms show ?thesis by (auto simp: slot_ok_def gone_def local_ok_def counted_def)
qed

lemma slot_ok_stays:
  assumes "slot_ok soi h pipe i s" "stays soi s s'" "open_type s"
  shows "slot_ok soi h pipe i s'"
proof -
  have "stream_ok soi h pipe s'" if "sk_protocol s = PROTOCOL_TCP"
  proof -
    have st: "stream_ok soi h pipe s" using assms(1) that by (simp add: slot_ok_def)
    have s': "sk_id s' = sk_id s" "sk_type s' = sk_type s" "sk_dw_buffer s' = None" "sk_low s = [] \<longrightarrow> sk_low s' = []"
      "flowed s' @ rests (sk_high s' @ sk_low s') = flowed s @ direct_rest soi s @ rests (sk_high s @ sk_low s)"
      using assms(2) that by (auto simp: stays_def same_conn_def)
    then have "flowed s' @ direct_rest soi s' @ rests (sk_high s') @ more = flowed s @ direct_rest soi s @ rests (sk_high s) @ more" if "sk_low s = []" for more
      using that by (simp add: direct_rest_def flip: append_assoc)
    with st s'(1,2,4) show ?thesis unfolding stream_ok_def by metis
  qed
  with assms show ?thesis by (auto simp: slot_ok_def stays_def same_conn_def open_type_def counted_def)
qed

section \<open>A request is served\<close>

text \<open>A request of another socket leaves the pipe.\<close>

lemma slot_ok_skip:
  assumes "slot_ok soi h (r # pipe) i s" "sk_type s \<noteq> SOCKET_TYPE_INVALID \<or> sk_protocol s = PROTOCOL_TCP \<longrightarrow> req_sid r \<noteq> Some (sk_id s)"
  shows "slot_ok soi h pipe i s"
proof (cases "sk_type s \<noteq> SOCKET_TYPE_INVALID \<or> sk_protocol s = PROTOCOL_TCP")
  case True
  with assms(2) have r: "req_sid r \<noteq> Some (sk_id s)" by blast
  note n = other_sid [OF r]
  from assms(1) r n show ?thesis by (auto simp: slot_ok_def counted_def stream_ok_def)
next
  case False
  with assms(1) show ?thesis by (simp add: slot_ok_def)
qed

definition handled :: "socket_object_interface \<Rightarrow> history \<Rightarrow> request list \<Rightarrow> i32 \<Rightarrow> socket_server \<Rightarrow> socket_event option \<Rightarrow> socket_server \<Rightarrow> bool" where
  "handled soi h pipe sid ss t ss' \<longleftrightarrow>
     (let s = ss_slot ss (HASH_ID sid); s' = ss_slot ss' (HASH_ID sid)
      in only (HASH_ID sid) ss ss' \<and> (sk_id s \<noteq> sid \<longrightarrow> s' = s) \<and> (sk_id s = sid \<longrightarrow> slot_ok soi h pipe (HASH_ID sid) s') \<and>
        (sk_polled s \<longrightarrow> sk_polled s' \<or> t \<in> {Some SOCKET_CLOSE, Some SOCKET_ERR} \<and> sm_id (ss_result ss') = sk_id s \<and>
           sk_type s' = SOCKET_TYPE_INVALID \<and> sk_id s' = sk_id s))"

lemma clear_event_slots:
  "ev_slots (clear_event slot sid evs) = ev_slots evs \<or>
   (\<exists>xs i ys. ev_slots evs = xs @ i # ys \<and> sk_type (slot i) = SOCKET_TYPE_INVALID \<and> sk_id (slot i) = sid \<and> ev_slots (clear_event slot sid evs) = xs @ ys \<and>
      (\<forall>j \<in> set xs. \<not> (sk_type (slot j) = SOCKET_TYPE_INVALID \<and> sk_id (slot j) = sid)))"
proof (induction evs)
  case (Cons e evs)
  show ?case
  proof (cases "ev_s e")
    case None
    with Cons show ?thesis by simp
  next
    case (Some i)
    show ?thesis
    proof (cases "sk_type (slot i) = SOCKET_TYPE_INVALID \<and> sk_id (slot i) = sid")
      case True
      then have "ev_slots (e # evs) = [] @ i # ev_slots evs" "ev_slots (clear_event slot sid (e # evs)) = [] @ ev_slots evs" using Some by simp_all
      with True show ?thesis by (metis empty_iff empty_set)
    next
      case False
      from Cons show ?thesis
      proof (elim disjE exE conjE)
        fix xs j ys assume a: "ev_slots evs = xs @ j # ys" "sk_type (slot j) = SOCKET_TYPE_INVALID" "sk_id (slot j) = sid"
          "ev_slots (clear_event slot sid evs) = xs @ ys" "\<forall>j \<in> set xs. \<not> (sk_type (slot j) = SOCKET_TYPE_INVALID \<and> sk_id (slot j) = sid)"
        with False Some show ?thesis by (intro disjI2 exI [of _ "i # xs"] exI [of _ j] exI [of _ ys]) auto
      qed (use False Some in auto)
    qed
  qed
qed simp

lemma clear_event_first:
  assumes "distinct (ev_slots evs)" "\<forall>j \<in> set (ev_slots evs). j \<noteq> i \<longrightarrow> sk_polled (slot j)" "sk_type (slot i) = SOCKET_TYPE_INVALID" "sk_id (slot i) = sid"
    "\<forall>j. sk_polled (slot j) \<longrightarrow> sk_type (slot j) \<noteq> SOCKET_TYPE_INVALID"
  shows "distinct (ev_slots (clear_event slot sid evs)) \<and> (\<forall>j \<in> set (ev_slots (clear_event slot sid evs)). sk_polled (slot j))"
  using assms(1,2)
proof (induction evs)
  case (Cons e evs)
  show ?case
  proof (cases "ev_s e")
    case None
    with Cons show ?thesis by simp
  next
    case (Some j)
    show ?thesis
    proof (cases "j = i")
      case True
      with Cons.prems Some assms(3,4) show ?thesis by auto
    next
      case False
      then have "sk_type (slot j) \<noteq> SOCKET_TYPE_INVALID" "sk_polled (slot j)" using Cons.prems(2) Some assms(5) by auto
      moreover have "j \<notin> set (ev_slots (clear_event slot sid evs))"
        using clear_event_slots [of slot sid evs] Cons.prems(1) Some by auto
      ultimately show ?thesis using Cons Some by auto
    qed
  qed
qed simp

lemma inv_slot: "socket_inv soi h ss \<Longrightarrow> slot_ok soi h (ss_pipe ss) i (ss_slot ss i)"
  by (simp add: socket_inv_def)

lemma polled_open: "local_ok s \<Longrightarrow> sk_polled s \<Longrightarrow> sk_type s \<noteq> SOCKET_TYPE_INVALID"
  by (auto simp: local_ok_def)

lemma clear_closed_simps [simp]: "ss_slot (clear_closed_event t ss) = ss_slot ss" "ss_soi (clear_closed_event t ss) = ss_soi ss"
  "ss_pipe (clear_closed_event t ss) = ss_pipe ss" "ss_answers (clear_closed_event t ss) = ss_answers ss"
  by (simp_all add: clear_closed_event_def)

lemma ctrl_inv:
  assumes "socket_inv soi h ss" "ss_pipe ss = r # pipe" "req_sid r = Some sid" "handled soi h pipe sid (ss\<lparr>ss_pipe := pipe\<rparr>) t ss'"
  shows "socket_inv soi h (case t of None \<Rightarrow> ss' | Some t \<Rightarrow> clear_closed_event t ss')"
proof -
  let ?i = "HASH_ID sid"
  let ?s = "ss_slot ss ?i" and ?s' = "ss_slot ss' ?i"
  from assms(4) have on: "only ?i (ss\<lparr>ss_pipe := pipe\<rparr>) ss'" and un: "sk_id ?s \<noteq> sid \<Longrightarrow> ?s' = ?s" and ok: "sk_id ?s = sid \<Longrightarrow> slot_ok soi h pipe ?i ?s'"
    and po: "sk_polled ?s \<Longrightarrow> sk_polled ?s' \<or> t \<in> {Some SOCKET_CLOSE, Some SOCKET_ERR} \<and> sm_id (ss_result ss') = sk_id ?s \<and>
           sk_type ?s' = SOCKET_TYPE_INVALID \<and> sk_id ?s' = sk_id ?s"
    by (simp_all add: handled_def Let_def)
  have slots: "ss_slot ss' j = ss_slot ss j" if "j \<noteq> ?i" for j using on that by (simp add: only_def)
  have rest: "ss_pipe ss' = pipe" "ss_ev ss' = ss_ev ss" "ss_soi ss' = soi" "reads_ok (ss_answers ss')" "plain_objects soi"
    using on assms(1) by (auto simp: only_def socket_inv_def reads_ok_def)
  have old: "slot_ok soi h (r # pipe) j (ss_slot ss j)" for j using inv_slot [OF assms(1), of j] assms(2) by simp
  have new: "slot_ok soi h pipe j (ss_slot ss' j)" for j
  proof (cases "j = ?i \<and> sk_id ?s = sid")
    case True
    with ok show ?thesis by simp
  next
    case False
    have "req_sid r \<noteq> Some (sk_id (ss_slot ss j))" if "sk_type (ss_slot ss j) \<noteq> SOCKET_TYPE_INVALID \<or> sk_protocol (ss_slot ss j) = PROTOCOL_TCP"
      using old [of j] that False assms(3) by (auto simp: slot_ok_def)
    from slot_ok_skip [OF old [of j]] this have "slot_ok soi h pipe j (ss_slot ss j)" by blast
    moreover have "ss_slot ss' j = ss_slot ss j" using False un slots by (cases "j = ?i") auto
    ultimately show ?thesis by simp
  qed
  have o: "ordered pipe" "\<forall>r' \<in> set pipe. opens r' \<longrightarrow> req_sid r' \<noteq> Some sid" using assms(1-3) by (auto simp: socket_inv_def)
  have "openings_ok ss' pipe" unfolding openings_ok_def
  proof (intro ballI allI impI)
    fix r' sid' assume r': "r' \<in> set pipe" "opens r'" "req_sid r' = Some sid'"
    with assms(1,2) have res: "sk_type (ss_slot ss (HASH_ID sid')) = SOCKET_TYPE_RESERVE" "sk_id (ss_slot ss (HASH_ID sid')) = sid'"
      by (auto simp: socket_inv_def openings_ok_def)
    have "sid' \<noteq> sid" using o(2) r' by auto
    then have "ss_slot ss' (HASH_ID sid') = ss_slot ss (HASH_ID sid')" using slots un res(2) by (cases "HASH_ID sid' = ?i") auto
    with res show "sk_type (ss_slot ss' (HASH_ID sid')) = SOCKET_TYPE_RESERVE \<and> sk_id (ss_slot ss' (HASH_ID sid')) = sid'" by simp
  qed
  moreover have "events_ok (case t of None \<Rightarrow> ss' | Some t \<Rightarrow> clear_closed_event t ss') (ss_ev (case t of None \<Rightarrow> ss' | Some t \<Rightarrow> clear_closed_event t ss'))"
  proof -
    have ev: "distinct (ev_slots (ss_ev ss))" "\<forall>i \<in> set (ev_slots (ss_ev ss)). sk_polled (ss_slot ss i)" using assms(1) by (simp_all add: socket_inv_def events_ok_def)
    have op: "\<forall>j. sk_polled (ss_slot ss' j) \<longrightarrow> sk_type (ss_slot ss' j) \<noteq> SOCKET_TYPE_INVALID"
      using new polled_open by (auto simp: slot_ok_def)
    have oth: "\<forall>j \<in> set (ev_slots (ss_ev ss)). j \<noteq> ?i \<longrightarrow> sk_polled (ss_slot ss' j)" using ev(2) slots by auto
    show ?thesis
    proof (cases "?i \<in> set (ev_slots (ss_ev ss)) \<and> \<not> sk_polled ?s'")
      case True
      with po ev(2) have c: "t \<in> {Some SOCKET_CLOSE, Some SOCKET_ERR}" "sm_id (ss_result ss') = sk_id ?s" "sk_type ?s' = SOCKET_TYPE_INVALID" "sk_id ?s' = sk_id ?s"
        by auto
      from clear_event_first [OF ev(1) oth c(3,4) op] c(1,2) rest(2) show ?thesis by (auto simp: clear_closed_event_def events_ok_def)
    next
      case False
      with oth have all: "\<forall>j \<in> set (ev_slots (ss_ev ss)). sk_polled (ss_slot ss' j)" by auto
      have "distinct (ev_slots (clear_event (ss_slot ss') (sm_id (ss_result ss')) (ss_ev ss)))" "set (ev_slots (clear_event (ss_slot ss') (sm_id (ss_result ss')) (ss_ev ss))) \<subseteq> set (ev_slots (ss_ev ss))"
        using clear_event_slots [of "ss_slot ss'" "sm_id (ss_result ss')" "ss_ev ss"] ev(1) by auto
      with all ev(1) rest(2) show ?thesis by (auto simp: clear_closed_event_def events_ok_def split: option.split)
    qed
  qed
  ultimately show ?thesis using rest new o(1) by (cases t) (simp_all add: socket_inv_def openings_ok_def)
qed

end
