(* ===== verification/SocketReq.thy ===== *)
theory SocketReq
  imports SocketInv
begin

text \<open>
  The requests about an open socket: start, close and the two that send keep the invariant.
\<close>

section \<open>Requests of open sockets\<close>

definition serving :: "socket_object_interface \<Rightarrow> history \<Rightarrow> request \<Rightarrow> request list \<Rightarrow> i32 \<Rightarrow> socket_server \<Rightarrow> bool" where
  "serving soi h r pipe sid ss \<longleftrightarrow> ss_soi ss = soi \<and> plain_objects soi \<and> slot_ok soi h (r # pipe) (HASH_ID sid) (ss_slot ss (HASH_ID sid)) \<and>
     (sk_id (ss_slot ss (HASH_ID sid)) = sid \<longrightarrow> sk_type (ss_slot ss (HASH_ID sid)) \<noteq> SOCKET_TYPE_RESERVE)"

lemma slot_ok_pop:
  assumes "slot_ok soi h (r # pipe) i s" "sk_type s \<noteq> SOCKET_TYPE_RESERVE" "\<not> sending (sk_id s) r"
  shows "slot_ok soi h pipe i s"
proof -
  have "req_bytes soi (sk_id s) r = []" using assms(3) by (cases r) auto
  with assms show ?thesis by (auto simp: slot_ok_def counted_def stream_ok_def)
qed

lemma handled_same:
  assumes "serving soi h r pipe sid ss" "\<not> sending sid r" "only (HASH_ID sid) ss ss'" "ss_slot ss' (HASH_ID sid) = ss_slot ss (HASH_ID sid)"
  shows "handled soi h pipe sid ss t ss'"
  using assms slot_ok_pop unfolding handled_def serving_def Let_def by metis

lemma handledI:
  assumes "only (HASH_ID sid) ss ss'" "sk_id (ss_slot ss (HASH_ID sid)) = sid" "slot_ok soi h pipe (HASH_ID sid) (ss_slot ss' (HASH_ID sid))"
    "sk_polled (ss_slot ss (HASH_ID sid)) \<Longrightarrow> sk_polled (ss_slot ss' (HASH_ID sid)) \<or> t \<in> {Some SOCKET_CLOSE, Some SOCKET_ERR} \<and>
       sm_id (ss_result ss') = sid \<and> sk_type (ss_slot ss' (HASH_ID sid)) = SOCKET_TYPE_INVALID \<and> sk_id (ss_slot ss' (HASH_ID sid)) = sid"
  shows "handled soi h pipe sid ss t ss'"
  using assms by (auto simp: handled_def Let_def)

lemma only_report [simp]: "only i (report x opaque ud d ss) ss' \<longleftrightarrow> only i ss ss'" "only i (set_data d ss) ss' \<longleftrightarrow> only i ss ss'"
  by (simp_all add: only_def report_def set_data_def)

lemma only_set_type [simp]: "only i ss (set_type i t ss') \<longleftrightarrow> only i ss ss'"
  by (simp add: set_type_def)

lemma slot_set_type [simp]: "ss_slot (set_type i t ss) = (ss_slot ss)(i := (ss_slot ss i)\<lparr>sk_type := t\<rparr>)"
  by (simp add: set_type_def)

lemma sp_add_cases:
  assumes "sp_add i ss = (b, ss1)"
  obtains "b" "only i ss ss1" "ss_slot ss1 = (ss_slot ss)(i := (ss_slot ss i)\<lparr>sk_polled := True, sk_write := False\<rparr>)"
  | "\<not> b" "only i ss ss1" "ss_slot ss1 = ss_slot ss"
proof -
  obtain a ss0 where k: "kernel ss = (a, ss0)" by (cases "kernel ss")
  from kernel_only [OF this, of i] have o: "ss_slot ss0 = ss_slot ss" "only i ss ss0" by blast+
  show ?thesis
  proof (cases "a = Done 0")
    case True
    with assms k o show ?thesis by (intro that(1)) (auto simp: sp_add_def)
  next
    case False
    with assms k o show ?thesis by (intro that(2)) (auto simp: sp_add_def split: kernel_answer.splits nat.splits)
  qed
qed

lemma slot_polled: "slot_ok soi h pipe i s \<Longrightarrow> sk_polled s \<Longrightarrow>
    sk_type s \<in> {SOCKET_TYPE_LISTEN, SOCKET_TYPE_CONNECTING, SOCKET_TYPE_CONNECTED, SOCKET_TYPE_HALFCLOSE, SOCKET_TYPE_BIND}"
  unfolding slot_ok_def local_ok_def by blast

text \<open>A change of type, of the owner or of what is watched.\<close>

definition alike :: "socket \<Rightarrow> socket \<Rightarrow> bool" where
  "alike s s' \<longleftrightarrow> sk_id s' = sk_id s \<and> sk_protocol s' = sk_protocol s \<and> sk_sending s' = sk_sending s \<and> sk_high s' = sk_high s \<and> sk_low s' = sk_low s \<and>
     sk_wb_size s' = sk_wb_size s \<and> sk_size s' \<le> 2 ^ 30 \<and> same_dw s s' \<and> flowed s' = flowed s"

lemma slot_ok_alike:
  assumes "slot_ok soi h pipe i s" "alike s s'" "open_type s" "open_type s'"
    "sk_polled s' \<Longrightarrow> sk_type s' \<in> {SOCKET_TYPE_LISTEN, SOCKET_TYPE_CONNECTING, SOCKET_TYPE_CONNECTED, SOCKET_TYPE_HALFCLOSE, SOCKET_TYPE_BIND}"
    "sk_type s' \<in> {SOCKET_TYPE_PACCEPT, SOCKET_TYPE_PLISTEN, SOCKET_TYPE_LISTEN} \<Longrightarrow> sk_type s \<in> {SOCKET_TYPE_PACCEPT, SOCKET_TYPE_PLISTEN, SOCKET_TYPE_LISTEN}"
    "sk_type s = SOCKET_TYPE_HALFCLOSE \<Longrightarrow> sk_type s' = SOCKET_TYPE_HALFCLOSE"
  shows "slot_ok soi h pipe i s'"
proof -
  have t: "sk_type s \<noteq> SOCKET_TYPE_INVALID" "sk_type s \<noteq> SOCKET_TYPE_RESERVE" "sk_type s' \<noteq> SOCKET_TYPE_INVALID" "sk_type s' \<noteq> SOCKET_TYPE_RESERVE"
    using assms(3,4) by (simp_all add: open_type_def)
  have "local_ok s'" using assms(1,2,5) t unfolding slot_ok_def local_ok_def alike_def same_dw_def by auto
  moreover have "counted pipe s'" if "counted pipe s" using that assms(2) by (simp add: counted_def alike_def)
  moreover have "stream_ok soi h pipe s'" if "stream_ok soi h pipe s"
  proof -
    have e: "sk_id s' = sk_id s" "sk_low s' = sk_low s" "sk_high s' = sk_high s" "flowed s' = flowed s" "direct_rest soi s' = direct_rest soi s"
      using assms(2) by (auto simp: alike_def same_dw_def direct_rest_def split: option.split)
    show ?thesis unfolding stream_ok_def e
    proof (intro allI impI)
      fix bs assume "h (sk_id s) = Some bs"
      with that obtain more where m: "sk_low s = []" "clean pipe (sk_id s)"
        "sk_type s \<in> {SOCKET_TYPE_PACCEPT, SOCKET_TYPE_PLISTEN, SOCKET_TYPE_LISTEN} \<longrightarrow> sends pipe (sk_id s) = 0"
        "bs = flowed s @ direct_rest soi s @ rests (sk_high s) @ more"
        "sk_type s \<notin> {SOCKET_TYPE_HALFCLOSE, SOCKET_TYPE_INVALID} \<longrightarrow> more = pipe_bytes soi pipe (sk_id s)" unfolding stream_ok_def by blast
      have "sk_type s' \<in> {SOCKET_TYPE_PACCEPT, SOCKET_TYPE_PLISTEN, SOCKET_TYPE_LISTEN} \<longrightarrow> sends pipe (sk_id s) = 0" using assms(6) m(3) by blast
      moreover have "sk_type s' \<notin> {SOCKET_TYPE_HALFCLOSE, SOCKET_TYPE_INVALID} \<longrightarrow> more = pipe_bytes soi pipe (sk_id s)" using assms(7) m(5) t by blast
      ultimately show "sk_low s = [] \<and> clean pipe (sk_id s) \<and>
        (sk_type s' \<in> {SOCKET_TYPE_PACCEPT, SOCKET_TYPE_PLISTEN, SOCKET_TYPE_LISTEN} \<longrightarrow> sends pipe (sk_id s) = 0) \<and>
        (\<exists>more. bs = flowed s @ direct_rest soi s @ rests (sk_high s) @ more \<and>
          (sk_type s' \<notin> {SOCKET_TYPE_HALFCLOSE, SOCKET_TYPE_INVALID} \<longrightarrow> more = pipe_bytes soi pipe (sk_id s)))"
        using m(1,2,4) by blast
    qed
  qed
  moreover have "sk_id s' = sk_id s" "sk_protocol s' = sk_protocol s" "sk_dw_buffer s' = sk_dw_buffer s" "sk_high s' = sk_high s"
    using assms(2) by (simp_all add: alike_def same_dw_def)
  ultimately show ?thesis using assms(1) t by (simp add: slot_ok_def)
qed

lemma start_handled:
  assumes "serving soi h (ReqS sid opaque) pipe sid ss"
  shows "\<exists>t ss'. start_socket sid opaque ss = Inr (t, ss') \<and> handled soi h pipe sid ss t ss'"
proof -
  let ?i = "HASH_ID sid" and ?r = "ReqS sid opaque"
  let ?s = "ss_slot ss ?i" and ?ss0 = "report sid opaque 0 NoData ss"
  have same: "handled soi h pipe sid ss t ss'" if "only ?i ss ss'" "ss_slot ss' ?i = ?s" for t ss'
    using handled_same [OF assms _ that] by simp
  show ?thesis
  proof (cases "sk_type ?s = SOCKET_TYPE_INVALID \<or> sk_id ?s \<noteq> sid")
    case True
    then show ?thesis using same by (simp add: start_socket_def Let_def)
  next
    case False
    with assms have ok: "slot_ok soi h pipe ?i ?s" by (auto simp: serving_def intro: slot_ok_pop)
    have nr: "sk_type ?s \<noteq> SOCKET_TYPE_RESERVE" using assms False by (simp add: serving_def)
    show ?thesis
    proof (cases "sk_type ?s = SOCKET_TYPE_PACCEPT \<or> sk_type ?s = SOCKET_TYPE_PLISTEN")
      case pa: True
      obtain b ss1 where a: "sp_add ?i ?ss0 = (b, ss1)" by (cases "sp_add ?i ?ss0")
      then show ?thesis
      proof (cases rule: sp_add_cases)
        case 1
        let ?t = "if sk_type ?s = SOCKET_TYPE_PACCEPT then SOCKET_TYPE_CONNECTED else SOCKET_TYPE_LISTEN"
        let ?ss2 = "set_data (DataText ''start'') (upd_sock ?i (\<lambda>s. s\<lparr>sk_opaque := opaque\<rparr>) (set_type ?i ?t ss1))"
        have "start_socket sid opaque ss = Inr (Some SOCKET_OPEN, ?ss2)" using False pa a 1(1) by (auto simp: start_socket_def Let_def)
        moreover have "handled soi h pipe sid ss (Some SOCKET_OPEN) ?ss2"
        proof (rule handledI)
          have sl: "ss_slot ?ss2 ?i = ?s\<lparr>sk_polled := True, sk_write := False, sk_type := ?t, sk_opaque := opaque\<rparr>" using 1(3) by simp
          have "sk_size ?s \<le> 2 ^ 30" using ok by (simp add: slot_ok_def local_ok_def)
          then show "slot_ok soi h pipe ?i (ss_slot ?ss2 ?i)" unfolding sl using pa
            by (intro slot_ok_alike [OF ok]) (auto simp: alike_def same_dw_def open_type_def)
          show "only ?i ss ?ss2" "sk_id ?s = sid" using 1(2) False by simp_all
          show "sk_polled (ss_slot ?ss2 ?i) \<or> Some SOCKET_OPEN \<in> {Some SOCKET_CLOSE, Some SOCKET_ERR} \<and> sm_id (ss_result ?ss2) = sid \<and>
              sk_type (ss_slot ?ss2 ?i) = SOCKET_TYPE_INVALID \<and> sk_id (ss_slot ?ss2 ?i) = sid" unfolding sl by simp
        qed
        ultimately show ?thesis by blast
      next
        case 2
        have "local_ok (ss_slot ss1 ?i)" "sk_type (ss_slot ss1 ?i) \<noteq> SOCKET_TYPE_RESERVE" using ok nr 2(3) by (simp_all add: slot_ok_def)
        from force_close_gone [OF this, of soi] obtain ss2 where c: "force_close ?i ss1 = Inr ss2" "only ?i ss1 ss2" "gone soi ?s (ss_slot ss2 ?i)"
          "sm_id (ss_result ss2) = sk_id ?s" using 2(3) by auto
        have "only ?i ss (set_data (DataErrno EOTHER) ss2)" using 2(2) only_trans [OF _ c(2), of ss] by simp
        moreover have "slot_ok soi h pipe ?i (ss_slot ss2 ?i)" using slot_ok_gone [OF ok c(3)] False by blast
        moreover have "\<not> sk_polled ?s" using slot_polled [OF ok] pa by auto
        ultimately have "handled soi h pipe sid ss (Some SOCKET_ERR) (set_data (DataErrno EOTHER) ss2)"
          using False by (intro handledI) simp_all
        moreover have "start_socket sid opaque ss = Inr (Some SOCKET_ERR, set_data (DataErrno EOTHER) ss2)"
          using False pa a 2(1) c(1) by (auto simp: start_socket_def Let_def)
        ultimately show ?thesis by blast
      qed
    next
      case np: False
      show ?thesis
      proof (cases "sk_type ?s = SOCKET_TYPE_CONNECTED")
        case True
        let ?ss2 = "set_data (DataText ''transfer'') (upd_sock ?i (\<lambda>s. s\<lparr>sk_opaque := opaque\<rparr>) ?ss0)"
        have "handled soi h pipe sid ss (Some SOCKET_OPEN) ?ss2"
        proof (rule handledI)
          have "sk_size ?s \<le> 2 ^ 30" using ok by (simp add: slot_ok_def local_ok_def)
          then show "slot_ok soi h pipe ?i (ss_slot ?ss2 ?i)" using True
            by (intro slot_ok_alike [OF ok]) (simp_all add: alike_def same_dw_def open_type_def)
        qed (use False in simp_all)
        with False np True show ?thesis by (simp add: start_socket_def Let_def)
      next
        case nc: False
        with False np same show ?thesis by (simp add: start_socket_def Let_def)
      qed
    qed
  qed
qed

lemma close_handled:
  assumes "serving soi h (ReqK sid shutdown opaque) pipe sid ss"
  shows "\<exists>t ss'. close_socket sid shutdown opaque ss = Inr (t, ss') \<and> handled soi h pipe sid ss t ss'"
proof -
  let ?i = "HASH_ID sid" and ?r = "ReqK sid shutdown opaque"
  let ?s = "ss_slot ss ?i"
  show ?thesis
  proof (cases "sk_type ?s = SOCKET_TYPE_INVALID \<or> sk_id ?s \<noteq> sid")
    case True
    then show ?thesis using handled_same [OF assms, of "report sid opaque 0 NoData ss"] by (simp add: close_socket_def Let_def)
  next
    case False
    with assms have ok: "slot_ok soi h pipe ?i ?s" by (auto simp: serving_def intro: slot_ok_pop)
    have nr: "sk_type ?s \<noteq> SOCKET_TYPE_RESERVE" using assms False by (simp add: serving_def)
    have op: "open_type ?s" using False nr by (simp add: open_type_def)
    have gone_handled: "handled soi h pipe sid ss (Some SOCKET_CLOSE) ss'" if "only ?i ss ss'" "slot_ok soi h pipe ?i (ss_slot ss' ?i)"
      "sk_type (ss_slot ss' ?i) = SOCKET_TYPE_INVALID" "sk_id (ss_slot ss' ?i) = sid" "sm_id (ss_result ss') = sid" for ss'
      using False that by (intro handledI) simp_all
    have finish: "\<exists>t ss'. bind_res (if shutdown \<or> nomore_sending_data (ss_slot ss1 ?i) then
               bind_res (force_close ?i ss1) (\<lambda>ss2. Inr (Some SOCKET_CLOSE, ss2\<lparr>ss_result := (ss_result ss2)\<lparr>sm_id := sid, sm_opaque := opaque\<rparr>\<rparr>))
             else Inr (None, set_type ?i SOCKET_TYPE_HALFCLOSE ss1)) Inr = Inr (t, ss') \<and> handled soi h pipe sid ss t ss'"
      if s1: "only ?i ss ss1" "slot_ok soi h pipe ?i (ss_slot ss1 ?i)" "same_conn ?s (ss_slot ss1 ?i)" for ss1
    proof (cases "shutdown \<or> nomore_sending_data (ss_slot ss1 ?i)")
      case True
      have "local_ok (ss_slot ss1 ?i)" "sk_type (ss_slot ss1 ?i) \<noteq> SOCKET_TYPE_RESERVE" using s1(2,3) nr by (simp_all add: slot_ok_def same_conn_def)
      from force_close_gone [OF this, of soi] obtain ss2 where c: "force_close ?i ss1 = Inr ss2" "only ?i ss1 ss2" "gone soi (ss_slot ss1 ?i) (ss_slot ss2 ?i)" by blast
      have "slot_ok soi h pipe ?i (ss_slot ss2 ?i)" using slot_ok_gone [OF s1(2) c(3)] False s1(3) by (simp add: same_conn_def)
      moreover have "sk_type (ss_slot ss2 ?i) = SOCKET_TYPE_INVALID" "sk_id (ss_slot ss2 ?i) = sid" using c(3) s1(3) False by (simp_all add: gone_def same_conn_def)
      ultimately have "handled soi h pipe sid ss (Some SOCKET_CLOSE) (ss2\<lparr>ss_result := (ss_result ss2)\<lparr>sm_id := sid, sm_opaque := opaque\<rparr>\<rparr>)"
        using only_trans [OF s1(1) c(2)] by (intro gone_handled) (simp_all add: only_def)
      with True c(1) show ?thesis by simp
    next
      case nm: False
      have "sk_size (ss_slot ss1 ?i) \<le> 2 ^ 30" using s1(2) by (simp add: slot_ok_def local_ok_def)
      then have "slot_ok soi h pipe ?i ((ss_slot ss1 ?i)\<lparr>sk_type := SOCKET_TYPE_HALFCLOSE\<rparr>)" using s1(3) op
        by (intro slot_ok_alike [OF s1(2)]) (simp_all add: alike_def same_dw_def same_conn_def open_type_def)
      then have "handled soi h pipe sid ss None (set_type ?i SOCKET_TYPE_HALFCLOSE ss1)" using s1(1,3) False
        by (intro handledI) (simp_all add: same_conn_def)
      with nm show ?thesis by simp
    qed
    show ?thesis
    proof (cases "nomore_sending_data ?s")
      case True
      from finish [OF only_refl ok] True False show ?thesis by (auto simp: close_socket_def Let_def same_conn_def bind_res_def split: sum.splits)
    next
      case nm: False
      have "local_ok ?s" "sk_dw_buffer ?s \<noteq> None \<longrightarrow> list_all fresh (sk_high ?s)" using ok by (simp_all add: slot_ok_def)
      from send_buffer_spec [OF this(1) op _ this(2)] assms obtain t ss1 where b: "send_buffer ?i ss = Inr (t, ss1)" "only ?i ss ss1"
        "t = Some SOCKET_CLOSE \<and> gone soi ?s (ss_slot ss1 ?i) \<and> sm_id (ss_result ss1) = sk_id ?s \<or>
         t \<in> {None, Some SOCKET_WARNING} \<and> stays soi ?s (ss_slot ss1 ?i)" by (auto simp: serving_def)
      from b(3) show ?thesis
      proof (elim disjE conjE)
        assume c: "t = Some SOCKET_CLOSE" "gone soi ?s (ss_slot ss1 ?i)" "sm_id (ss_result ss1) = sk_id ?s"
        have "slot_ok soi h pipe ?i (ss_slot ss1 ?i)" using slot_ok_gone [OF ok c(2)] False by blast
        with c b(1,2) nm False gone_handled [OF b(2)] show ?thesis by (simp add: close_socket_def Let_def gone_def)
      next
        assume k: "t \<in> {None, Some SOCKET_WARNING}" "stays soi ?s (ss_slot ss1 ?i)"
        have "slot_ok soi h pipe ?i (ss_slot ss1 ?i)" by (rule slot_ok_stays [OF ok k(2) op])
        from finish [OF b(2) this] k b(1) nm False show ?thesis by (auto simp: close_socket_def Let_def stays_def bind_res_def split: sum.splits)
      qed
    qed
  qed
qed

section \<open>Requests that send\<close>

definition same_kind :: "socket \<Rightarrow> socket \<Rightarrow> bool" where
  "same_kind s s' \<longleftrightarrow> sk_type s' = sk_type s \<and> sk_id s' = sk_id s \<and> sk_protocol s' = sk_protocol s \<and> sk_polled s' = sk_polled s \<and>
     sk_size s' = sk_size s \<and> same_dw s s'"

definition grown :: "priority \<Rightarrow> write_buffer \<Rightarrow> socket \<Rightarrow> socket \<Rightarrow> bool" where
  "grown pr wb s s' \<longleftrightarrow> same_kind s s' \<and> flowed s' = flowed s \<and> wb_list pr s' = wb_list pr s @ [wb] \<and> wb_list (other pr) s' = wb_list (other pr) s \<and>
     sk_wb_size s' = sk_wb_size s + int (wbuf_sz wb)"

definition idle :: "socket \<Rightarrow> socket \<Rightarrow> bool" where
  "idle s s' \<longleftrightarrow> same_kind s s' \<and> (sk_protocol s = PROTOCOL_TCP \<longrightarrow> flowed s' = flowed s) \<and> sk_high s' = sk_high s \<and> sk_low s' = sk_low s \<and> sk_wb_size s' = sk_wb_size s"

lemma same_kind_refl [simp]: "same_kind s s" "idle s s"
  by (simp_all add: same_kind_def same_dw_def idle_def)

text \<open>The number of senders after a request has left the pipe.\<close>

definition after :: "request \<Rightarrow> request list \<Rightarrow> socket \<Rightarrow> socket \<Rightarrow> bool" where
  "after r pipe s s' \<longleftrightarrow> (sk_protocol s = PROTOCOL_TCP \<longrightarrow> counted pipe s')"

lemma direct_rest_same: "same_kind s s' \<Longrightarrow> direct_rest soi s' = direct_rest soi s"
  by (auto simp: same_kind_def same_dw_def direct_rest_def split: option.split)

lemma slot_ok_grown:
  assumes "slot_ok soi h (r # pipe) i s" "grown pr wb s s'" "open_type s" "fresh wb" "sk_protocol s \<noteq> PROTOCOL_TCP \<longrightarrow> wbuf_udp_address wb \<noteq> None"
    "sk_type s \<notin> {SOCKET_TYPE_HALFCLOSE, SOCKET_TYPE_PACCEPT, SOCKET_TYPE_PLISTEN, SOCKET_TYPE_LISTEN}" "after r pipe s s'"
    "disturbing (sk_id s) r \<or> pr = PRIORITY_HIGH \<and> req_bytes soi (sk_id s) r = wbuf_rest wb"
  shows "slot_ok soi h pipe i s'"
proof -
  have k: "same_kind s s'" using assms(2) by (simp add: grown_def)
  have lists: "sk_high s' = (if pr = PRIORITY_HIGH then sk_high s @ [wb] else sk_high s)" "sk_low s' = (if pr = PRIORITY_LOW then sk_low s @ [wb] else sk_low s)"
    using assms(2) by (cases pr; simp add: grown_def wb_list_def other_def)+
  have t: "sk_type s \<noteq> SOCKET_TYPE_INVALID" "sk_type s \<noteq> SOCKET_TYPE_RESERVE" using assms(3) by (simp_all add: open_type_def)
  have old: "local_ok s" using assms(1) by (simp add: slot_ok_def)
  have tl: "list_all fresh (tl (sk_high s @ [wb]))" using old assms(4) by (cases "sk_high s") (simp_all add: local_ok_def)
  have size: "sk_wb_size s' = int (length (rests (sk_high s' @ sk_low s')))"
    using old t assms(2) by (cases pr) (auto simp: local_ok_def lists grown_def)
  have addr: "sk_protocol s' \<noteq> PROTOCOL_TCP \<longrightarrow> sk_dw_buffer s' = None \<and> list_all (\<lambda>wb. wbuf_udp_address wb \<noteq> None) (sk_high s' @ sk_low s')"
    using old assms(5) k unfolding local_ok_def same_kind_def same_dw_def lists by auto
  have "sk_type s' = sk_type s" "sk_polled s' = sk_polled s" "sk_size s' = sk_size s" using k by (simp_all add: same_kind_def)
  then have loc: "local_ok s'" using old t size addr tl assms(4) unfolding local_ok_def lists by simp
  have "stream_ok soi h pipe s'" if tcp: "sk_protocol s = PROTOCOL_TCP"
  proof -
    have e: "sk_id s' = sk_id s" "sk_type s' = sk_type s" using k by (simp_all add: same_kind_def)
    have st: "stream_ok soi h (r # pipe) s" using assms(1) tcp by (simp add: slot_ok_def)
    show ?thesis unfolding stream_ok_def e
    proof (intro allI impI)
      fix bs assume "h (sk_id s) = Some bs"
      with st obtain more where m: "sk_low s = []" "clean (r # pipe) (sk_id s)" "bs = flowed s @ direct_rest soi s @ rests (sk_high s) @ more"
        "more = pipe_bytes soi (r # pipe) (sk_id s)" unfolding stream_ok_def using assms(6) t by blast
      with assms(8) have pr: "pr = PRIORITY_HIGH" "req_bytes soi (sk_id s) r = wbuf_rest wb" by simp_all
      have "bs = flowed s' @ direct_rest soi s' @ rests (sk_high s') @ pipe_bytes soi pipe (sk_id s)"
        using m(3,4) pr assms(2) direct_rest_same [OF k] by (simp add: lists grown_def)
      then show "sk_low s' = [] \<and> clean pipe (sk_id s) \<and>
          (sk_type s \<in> {SOCKET_TYPE_PACCEPT, SOCKET_TYPE_PLISTEN, SOCKET_TYPE_LISTEN} \<longrightarrow> sends pipe (sk_id s) = 0) \<and>
          (\<exists>more. bs = flowed s' @ direct_rest soi s' @ rests (sk_high s') @ more \<and>
             (sk_type s \<notin> {SOCKET_TYPE_HALFCLOSE, SOCKET_TYPE_INVALID} \<longrightarrow> more = pipe_bytes soi pipe (sk_id s)))"
        using m(1,2) pr(1) assms(6) by (simp add: lists)
    qed
  qed
  with assms(1,7) k loc t lists assms(4) show ?thesis by (auto simp: slot_ok_def same_kind_def same_dw_def after_def)
qed

lemma slot_ok_idle:
  assumes "slot_ok soi h (r # pipe) i s" "idle s s'" "sk_type s \<noteq> SOCKET_TYPE_RESERVE" "after r pipe s s'"
    "sk_protocol s = PROTOCOL_TCP \<longrightarrow> sk_type s \<in> {SOCKET_TYPE_INVALID, SOCKET_TYPE_HALFCLOSE, SOCKET_TYPE_PACCEPT, SOCKET_TYPE_PLISTEN, SOCKET_TYPE_LISTEN}"
    "sending (sk_id s) r \<or> disturbing (sk_id s) r"
  shows "slot_ok soi h pipe i s'"
proof -
  have k: "same_kind s s'" using assms(2) by (simp add: idle_def)
  have l: "sk_high s' = sk_high s" "sk_low s' = sk_low s" "sk_wb_size s' = sk_wb_size s" using assms(2) by (simp_all add: idle_def)
  have e: "sk_id s' = sk_id s" "sk_type s' = sk_type s" "sk_polled s' = sk_polled s" "sk_size s' = sk_size s" "sk_protocol s' = sk_protocol s"
    "sk_dw_buffer s' = sk_dw_buffer s" using k by (simp_all add: same_kind_def same_dw_def)
  have loc: "local_ok s'" using assms(1) unfolding slot_ok_def local_ok_def l e by blast
  have "stream_ok soi h pipe s'" if tcp: "sk_protocol s = PROTOCOL_TCP"
  proof -
    have st: "stream_ok soi h (r # pipe) s" using assms(1) tcp by (simp add: slot_ok_def)
    have f: "flowed s' = flowed s" using assms(2) tcp by (simp add: idle_def)
    show ?thesis unfolding stream_ok_def e l f direct_rest_same [OF k]
    proof (intro allI impI)
      fix bs assume "h (sk_id s) = Some bs"
      with st obtain more where m: "sk_low s = []" "clean (r # pipe) (sk_id s)"
        "sk_type s \<in> {SOCKET_TYPE_PACCEPT, SOCKET_TYPE_PLISTEN, SOCKET_TYPE_LISTEN} \<longrightarrow> sends (r # pipe) (sk_id s) = 0"
        "bs = flowed s @ direct_rest soi s @ rests (sk_high s) @ more" unfolding stream_ok_def by blast
      then have "sending (sk_id s) r" using assms(6) by simp
      with m(3) assms(5) tcp have "sk_type s \<in> {SOCKET_TYPE_INVALID, SOCKET_TYPE_HALFCLOSE}" by auto
      with m(1,2,4) show "sk_low s = [] \<and> clean pipe (sk_id s) \<and>
          (sk_type s \<in> {SOCKET_TYPE_PACCEPT, SOCKET_TYPE_PLISTEN, SOCKET_TYPE_LISTEN} \<longrightarrow> sends pipe (sk_id s) = 0) \<and>
          (\<exists>more. bs = flowed s @ direct_rest soi s @ rests (sk_high s) @ more \<and>
             (sk_type s \<notin> {SOCKET_TYPE_HALFCLOSE, SOCKET_TYPE_INVALID} \<longrightarrow> more = pipe_bytes soi pipe (sk_id s)))" by auto
    qed
  qed
  with assms(1,3,4) loc e l show ?thesis by (auto simp: slot_ok_def after_def)
qed

lemma low16: "unat (x :: u32) = t * 65536 + c \<Longrightarrow> c < 65536 \<Longrightarrow> unat (x AND 0xffff) = c"
proof -
  assume a: "unat x = t * 65536 + c" "c < 65536"
  have "x AND 0xffff = take_bit 16 x" by (simp add: take_bit_eq_mask mask_eq_exp_minus_1)
  then have "unat (x AND 0xffff) = unat (take_bit 16 x)" by (simp only:)
  also have "\<dots> = take_bit 16 (unat x)" by (rule unsigned_take_bit_eq)
  also have "\<dots> = unat x mod 65536" by (simp add: take_bit_eq_mod)
  finally have "unat (x AND 0xffff) = unat x mod 65536" .
  with a show ?thesis by simp
qed

lemma dec_spec:
  assumes "sk_id (ss_slot ss (HASH_ID sid)) = sid" "counted (r # pipe) (ss_slot ss (HASH_ID sid))" "sending sid r" "sk_protocol (ss_slot ss (HASH_ID sid)) = PROTOCOL_TCP"
  shows "\<exists>ss'. dec_sending_ref sid ss = Inr ss' \<and> ss' = upd_sock (HASH_ID sid) (\<lambda>s. s\<lparr>sk_sending := sk_sending s - 1\<rparr>) ss \<and>
    counted pipe (ss_slot ss' (HASH_ID sid))"
proof -
  let ?s = "ss_slot ss (HASH_ID sid)"
  have c: "unat (sk_sending ?s) = unat (ID_TAG16 sid) * 65536 + Suc (sends pipe sid)" "Suc (sends pipe sid) < 65536"
    using assms(1-3) by (simp_all add: counted_def)
  from low16 [OF c] have nz: "sk_sending ?s AND 0xffff \<noteq> 0" by auto
  have "sk_sending ?s \<noteq> 0" using c(1) by (metis add_is_0 nat.simps(3) unat_0)
  then have "unat (sk_sending ?s - 1) = unat (sk_sending ?s) - 1" by (simp add: unat_minus_one)
  with c have "counted pipe (?s\<lparr>sk_sending := sk_sending ?s - 1\<rparr>)" by (simp add: counted_def assms(1))
  with nz assms(1,4) show ?thesis by (simp add: dec_sending_ref_def Let_def)
qed

definition wbuf_of :: "socket_server \<Rightarrow> request_send \<Rightarrow> byte list option \<Rightarrow> write_buffer" where
  "wbuf_of ss q addr = \<lparr>wbuf_buffer = rs_buffer q, wbuf_data = send_object_init ss (rs_buffer q) (rs_sz q), wbuf_ptr = 0,
     wbuf_userobject = (rs_sz q = None), wbuf_udp_address = addr\<rparr>"

lemma wbuf_of_simps [simp]: "fresh (wbuf_of ss q addr)" "wbuf_udp_address (wbuf_of ss q addr) = addr"
  "wbuf_rest (wbuf_of ss q addr) = send_object_init ss (rs_buffer q) (rs_sz q)"
  by (simp_all add: wbuf_of_def fresh_def wbuf_rest_def)

definition cosmetic :: "socket \<Rightarrow> socket \<Rightarrow> bool" where
  "cosmetic s s' \<longleftrightarrow> (\<exists>w b. s' = s\<lparr>sk_warn_size := w, sk_write := b\<rparr>)"

lemma cosmeticI [intro]: "cosmetic s s" "cosmetic s (s\<lparr>sk_warn_size := w\<rparr>)" "cosmetic s (s\<lparr>sk_write := b\<rparr>)"
  unfolding cosmetic_def
  by (rule exI [of _ "sk_warn_size s"], rule exI [of _ "sk_write s"], simp)
    (rule exI [of _ w], rule exI [of _ "sk_write s"], simp, rule exI [of _ "sk_warn_size s"], rule exI [of _ b], simp)

lemma grown_cosmetic: "grown pr wb s s1 \<Longrightarrow> cosmetic s1 s' \<Longrightarrow> grown pr wb s s'"
  by (cases pr) (auto simp: grown_def cosmetic_def same_kind_def same_dw_def wb_list_def other_def)

lemma append_list_grown: "grown pr (wbuf_of ss q addr) (ss_slot ss i) (ss_slot (append_list pr i q addr ss) i)" "only i ss (append_list pr i q addr ss)"
  by (cases pr; simp add: append_list_def append_wb_def grown_def same_kind_def same_dw_def wb_list_def set_list_def other_def add_wb_size_def wbuf_of_def flowed_def
      wbuf_rest_def)+

lemma sp_write_simps [simp]: "only i ss (sp_write i b ss') \<longleftrightarrow> only i ss ss'" "ss_slot (sp_write i b ss) = (ss_slot ss)(i := (ss_slot ss i)\<lparr>sk_write := sk_polled (ss_slot ss i) \<and> b\<rparr>)"
  by (simp_all add: sp_write_def)

lemma warn_buffer_spec:
  obtains t ss' where "warn_buffer i ss = (t, ss')" "t \<in> {None, Some SOCKET_WARNING}" "only i ss ss'" "cosmetic (ss_slot ss i) (ss_slot ss' i)"
proof -
  obtain t ss' where w: "warn_buffer i ss = (t, ss')" by (cases "warn_buffer i ss")
  then have "t \<in> {None, Some SOCKET_WARNING} \<and> only i ss ss' \<and> cosmetic (ss_slot ss i) (ss_slot ss' i)"
    by (auto simp: warn_buffer_def Let_def split: if_splits)
  with w that show thesis by blast
qed

text \<open>The request was dropped or its datagram sent, or it joined a list.\<close>

definition sent :: "socket_server \<Rightarrow> request_send \<Rightarrow> priority \<Rightarrow> socket \<Rightarrow> socket \<Rightarrow> bool" where
  "sent ss q pr s s' \<longleftrightarrow>
     idle s s' \<and> (sk_id s \<noteq> rs_id q \<longrightarrow> s' = s) \<and>
       (sk_protocol s = PROTOCOL_TCP \<longrightarrow> sk_id s \<noteq> rs_id q \<or>
          sk_type s \<in> {SOCKET_TYPE_INVALID, SOCKET_TYPE_HALFCLOSE, SOCKET_TYPE_PACCEPT, SOCKET_TYPE_PLISTEN, SOCKET_TYPE_LISTEN}) \<or>
     sk_id s = rs_id q \<and> open_type s \<and> sk_type s \<notin> {SOCKET_TYPE_HALFCLOSE, SOCKET_TYPE_PACCEPT, SOCKET_TYPE_PLISTEN, SOCKET_TYPE_LISTEN} \<and>
       (\<exists>pr' addr. grown pr' (wbuf_of ss q addr) s s' \<and> (pr = PRIORITY_HIGH \<longrightarrow> pr' = PRIORITY_HIGH) \<and> (sk_protocol s \<noteq> PROTOCOL_TCP \<longrightarrow> addr \<noteq> None))"

lemma sending_same:
  assumes "only i ss ss'" "grown pr wb (ss_slot ss i) (ss_slot ss' i)"
  shows "sk_id (ss_slot ss' i) = sk_id (ss_slot ss i)"
  using assms by (simp add: grown_def same_kind_def)

lemma warn_sent:
  assumes "only i ss ss1" "grown pr' (wbuf_of ss q addr) (ss_slot ss i) (ss_slot ss1 i)" "sk_id (ss_slot ss i) = rs_id q" "open_type (ss_slot ss i)"
    "sk_type (ss_slot ss i) \<notin> {SOCKET_TYPE_HALFCLOSE, SOCKET_TYPE_PACCEPT, SOCKET_TYPE_PLISTEN, SOCKET_TYPE_LISTEN}"
    "pr = PRIORITY_HIGH \<longrightarrow> pr' = PRIORITY_HIGH" "sk_protocol (ss_slot ss i) \<noteq> PROTOCOL_TCP \<longrightarrow> addr \<noteq> None"
  shows "\<exists>t ss'. warn_buffer i ss1 = (t, ss') \<and> only i ss ss' \<and> t \<in> {None, Some SOCKET_WARNING} \<and> sent ss q pr (ss_slot ss i) (ss_slot ss' i)"
proof -
  obtain t ss' where w: "warn_buffer i ss1 = (t, ss')" "t \<in> {None, Some SOCKET_WARNING}" "only i ss1 ss'" "cosmetic (ss_slot ss1 i) (ss_slot ss' i)"
    by (rule warn_buffer_spec)
  have "grown pr' (wbuf_of ss q addr) (ss_slot ss i) (ss_slot ss' i)" by (rule grown_cosmetic [OF assms(2) w(4)])
  with assms(3-7) have "sent ss q pr (ss_slot ss i) (ss_slot ss' i)" unfolding sent_def by blast
  with w only_trans [OF assms(1) w(3)] show ?thesis by blast
qed

lemma send_socket_spec:
  assumes "sk_id (ss_slot ss (HASH_ID (rs_id q))) = rs_id q \<longrightarrow> sk_type (ss_slot ss (HASH_ID (rs_id q))) \<noteq> SOCKET_TYPE_RESERVE"
  shows "\<exists>t ss'. send_socket q pr ua ss = (t, ss') \<and> only (HASH_ID (rs_id q)) ss ss' \<and> t \<in> {None, Some SOCKET_WARNING} \<and>
    sent ss q pr (ss_slot ss (HASH_ID (rs_id q))) (ss_slot ss' (HASH_ID (rs_id q)))"
proof -
  let ?i = "HASH_ID (rs_id q)"
  let ?s = "ss_slot ss ?i" and ?addr = "case ua of None \<Rightarrow> sk_udp_address (ss_slot ss (HASH_ID (rs_id q))) | Some a \<Rightarrow> a"
  note def = send_socket_def [of q pr ua ss, unfolded Let_def]
  show ?thesis
  proof (cases "sk_type ?s \<in> {SOCKET_TYPE_INVALID, SOCKET_TYPE_HALFCLOSE, SOCKET_TYPE_PACCEPT, SOCKET_TYPE_PLISTEN, SOCKET_TYPE_LISTEN} \<or> sk_id ?s \<noteq> rs_id q")
    case True
    have e: "send_socket q pr ua ss = (None, free_ptr (rs_buffer q) ss)" using True by (auto simp: def)
    have "sent ss q pr ?s ?s" using True by (auto simp: sent_def)
    then show ?thesis by (simp add: e)
  next
    case False
    then have ok: "sk_id ?s = rs_id q" "open_type ?s" "sk_type ?s \<notin> {SOCKET_TYPE_HALFCLOSE, SOCKET_TYPE_PACCEPT, SOCKET_TYPE_PLISTEN, SOCKET_TYPE_LISTEN}"
      using assms by (auto simp: open_type_def)
    have app: "\<exists>t ss'. warn_buffer ?i ss1 = (t, ss') \<and> only ?i ss ss' \<and> t \<in> {None, Some SOCKET_WARNING} \<and> sent ss q pr ?s (ss_slot ss' ?i)"
      if "ss1 = append_list pr' ?i q addr ss \<or> ss1 = sp_write ?i True (append_list pr' ?i q addr ss)" "pr = PRIORITY_HIGH \<longrightarrow> pr' = PRIORITY_HIGH"
        "sk_protocol ?s \<noteq> PROTOCOL_TCP \<longrightarrow> addr \<noteq> None" for ss1 pr' addr
    proof (rule warn_sent [OF _ _ ok that(2,3)])
      from that(1) append_list_grown [where pr = pr' and i = ?i and q = q and addr = addr and ss = ss] show "only ?i ss ss1" by auto
      from that(1) append_list_grown(1) [where pr = pr' and i = ?i and q = q and addr = addr and ss = ss] grown_cosmetic
      show "grown pr' (wbuf_of ss q addr) ?s (ss_slot ss1 ?i)" by fastforce
    qed
    show ?thesis
    proof (cases "send_buffer_empty ?s \<and> sk_type ?s = SOCKET_TYPE_CONNECTED")
      case ec: True
      show ?thesis
      proof (cases "sk_protocol ?s = PROTOCOL_TCP")
        case True
        with app [of _ PRIORITY_HIGH None, OF disjI2 [OF refl]] False ec show ?thesis by (auto simp: def append_sendbuffer_def)
      next
        case udp: False
        have e: "send_socket q pr ua ss = (case send_datagram ?i q pr ?addr ss of (True, ss1) \<Rightarrow> (None, ss1) | (False, ss1) \<Rightarrow> warn_buffer ?i (sp_write ?i True ss1))"
          using False ec udp by (auto simp: def)
        show ?thesis
        proof (cases "udp_socket_address ?s ?addr")
          case None
          have "sent ss q pr ?s ?s" using udp ok by (auto simp: sent_def)
          then show ?thesis by (simp add: e send_datagram_def Let_def None)
        next
          case (Some sa)
          let ?so = "send_object_init ss (rs_buffer q) (rs_sz q)"
          obtain r ss1 where w: "sys_sendto ?i ?so sa ss = (r, ss1)" by (cases "sys_sendto ?i ?so sa ss")
          then show ?thesis
          proof (cases rule: sys_sendto_cases)
            case 1
            let ?ss2 = "free_ptr (rs_buffer q) (stat_write ?i (length ?so) ss1)"
            have "idle ?s (ss_slot ?ss2 ?i)" using 1(3) udp by (simp add: stat_write_def idle_def same_kind_def same_dw_def)
            then have "sent ss q pr ?s (ss_slot ?ss2 ?i)" using udp ok by (auto simp: sent_def)
            moreover have "only ?i ss ?ss2" using 1(2) by (simp add: stat_write_def)
            ultimately show ?thesis using 1(1) by (simp add: e send_datagram_def Let_def Some w)
          next
            case (2 err)
            let ?ss2 = "sp_write ?i True (append_sendbuffer_udp ?i pr q ?addr ss1)"
            have soi: "send_object_init ss1 = send_object_init ss" using only_soi [OF 2(2)] by (intro ext) (simp add: send_object_init_def split: option.split)
            have g: "grown pr (wbuf_of ss q (Some ?addr)) ?s (ss_slot ?ss2 ?i)"
              using grown_cosmetic [OF append_list_grown(1) cosmeticI(3), of pr ss1 q "Some ?addr" ?i] 2(3) soi
              by (simp add: append_sendbuffer_udp_def wbuf_of_def)
            have o: "only ?i ss ?ss2" using only_trans [OF 2(2) append_list_grown(2)] by (simp add: append_sendbuffer_udp_def)
            have "send_socket q pr ua ss = warn_buffer ?i ?ss2" using 2(1) by (simp add: e send_datagram_def Let_def Some w)
            with warn_sent [OF o g ok, of pr] show ?thesis by auto
          qed
        qed
      qed
    next
      case ne: False
      show ?thesis
      proof (cases "sk_protocol ?s = PROTOCOL_TCP")
        case True
        have "send_socket q pr ua ss = warn_buffer ?i (append_list pr ?i q None ss)"
          using False ne True by (cases pr) (auto simp: send_socket_def Let_def append_sendbuffer_def append_sendbuffer_low_def)
        with app [of _ pr None, OF disjI1 [OF refl]] True show ?thesis by auto
      next
        case udp: False
        have "send_socket q pr ua ss = warn_buffer ?i (append_list pr ?i q (Some ?addr) ss)"
          using False ne udp by (auto simp: def append_sendbuffer_udp_def)
        with app [of _ pr "Some ?addr", OF disjI1 [OF refl]] show ?thesis by auto
      qed
    qed
  qed
qed

lemma grown_sending: "grown pr wb s s1 \<Longrightarrow> grown pr wb s (s1\<lparr>sk_sending := x\<rparr>)" "idle s s1 \<Longrightarrow> idle s (s1\<lparr>sk_sending := x\<rparr>)"
  by (cases pr; simp add: grown_def same_kind_def same_dw_def wb_list_def other_def) (simp add: idle_def same_kind_def same_dw_def)

lemma sent_handled:
  assumes "serving soi h r pipe (rs_id q) ss" "sent ss q pr (ss_slot ss (HASH_ID (rs_id q))) s1" "only (HASH_ID (rs_id q)) ss ss'"
    "ss_slot ss' (HASH_ID (rs_id q)) = s1\<lparr>sk_sending := x\<rparr>" "sk_id (ss_slot ss (HASH_ID (rs_id q))) \<noteq> rs_id q \<longrightarrow> x = sk_sending s1"
    "sk_id (ss_slot ss (HASH_ID (rs_id q))) = rs_id q \<longrightarrow> after r pipe (ss_slot ss (HASH_ID (rs_id q))) (s1\<lparr>sk_sending := x\<rparr>)"
    "sending (rs_id q) r \<or> disturbing (rs_id q) r" "disturbing (rs_id q) r \<or> pr = PRIORITY_HIGH \<and> req_bytes soi (rs_id q) r = send_object_init ss (rs_buffer q) (rs_sz q)"
  shows "handled soi h pipe (rs_id q) ss t ss'"
proof (cases "sk_id (ss_slot ss (HASH_ID (rs_id q))) = rs_id q")
  case False
  with assms(2,4,5) have "ss_slot ss' (HASH_ID (rs_id q)) = ss_slot ss (HASH_ID (rs_id q))" by (auto simp: sent_def)
  with False assms(3) show ?thesis by (simp add: handled_def Let_def)
next
  case True
  let ?i = "HASH_ID (rs_id q)" and ?s2 = "s1\<lparr>sk_sending := x\<rparr>"
  let ?s = "ss_slot ss ?i"
  from assms(1) True have ok: "slot_ok soi h (r # pipe) ?i ?s" "sk_type ?s \<noteq> SOCKET_TYPE_RESERVE" by (simp_all add: serving_def)
  from assms(2) consider (idle) "idle ?s s1" "sk_protocol ?s = PROTOCOL_TCP \<longrightarrow>
      sk_type ?s \<in> {SOCKET_TYPE_INVALID, SOCKET_TYPE_HALFCLOSE, SOCKET_TYPE_PACCEPT, SOCKET_TYPE_PLISTEN, SOCKET_TYPE_LISTEN}"
    | (grown) pr' addr where "open_type ?s" "sk_type ?s \<notin> {SOCKET_TYPE_HALFCLOSE, SOCKET_TYPE_PACCEPT, SOCKET_TYPE_PLISTEN, SOCKET_TYPE_LISTEN}"
      "grown pr' (wbuf_of ss q addr) ?s s1" "pr = PRIORITY_HIGH \<longrightarrow> pr' = PRIORITY_HIGH" "sk_protocol ?s \<noteq> PROTOCOL_TCP \<longrightarrow> addr \<noteq> None"
    unfolding sent_def using True by blast
  then have "slot_ok soi h pipe ?i ?s2 \<and> same_kind ?s ?s2"
  proof cases
    case idle
    have "idle ?s ?s2" by (rule grown_sending(2) [OF idle(1)])
    with slot_ok_idle [OF ok(1) this ok(2) _ idle(2)] assms(6,7) True show ?thesis by (simp add: idle_def)
  next
    case grown
    note g = grown_sending(1) [OF grown(3), of x]
    have d: "disturbing (sk_id ?s) r \<or> pr' = PRIORITY_HIGH \<and> req_bytes soi (sk_id ?s) r = wbuf_rest (wbuf_of ss q addr)"
      using assms(8) grown(4) True by auto
    have a: "after r pipe ?s ?s2" "sk_protocol ?s \<noteq> PROTOCOL_TCP \<longrightarrow> wbuf_udp_address (wbuf_of ss q addr) \<noteq> None" using assms(6) True grown(5) by simp_all
    have "slot_ok soi h pipe ?i ?s2" by (rule slot_ok_grown [OF ok(1) g grown(1) _ a(2) grown(2) a(1) d]) simp
    with g show ?thesis by (simp add: grown_def)
  qed
  then show ?thesis using assms(3,4) True by (intro handledI) (simp_all add: same_kind_def)
qed

lemma sent_same: "sent ss q pr s s' \<Longrightarrow> sk_id s' = sk_id s \<and> sk_protocol s' = sk_protocol s"
  by (auto simp: sent_def idle_def grown_def same_kind_def)

lemma append_sending: "sk_sending (ss_slot (append_list pr i q addr ss) j) = sk_sending (ss_slot ss j)"
  by (cases pr) (simp_all add: append_list_def set_list_def add_wb_size_def)

lemma warn_sending: "sk_sending (ss_slot (snd (warn_buffer i ss)) j) = sk_sending (ss_slot ss j)"
  by (simp add: warn_buffer_def Let_def)

lemma datagram_sending: "sk_sending (ss_slot (snd (send_datagram i q pr addr ss)) j) = sk_sending (ss_slot ss j)"
proof (cases "udp_socket_address (ss_slot ss i) addr")
  case (Some sa)
  obtain r ss1 where w: "sys_sendto i (send_object_init ss (rs_buffer q) (rs_sz q)) sa ss = (r, ss1)"
    by (cases "sys_sendto i (send_object_init ss (rs_buffer q) (rs_sz q)) sa ss")
  then show ?thesis
    by (cases rule: sys_sendto_cases) (simp_all add: send_datagram_def Let_def Some w append_sending append_sendbuffer_udp_def stat_write_def)
qed (simp add: send_datagram_def Let_def)

lemma send_socket_sending: "send_socket q pr ua ss = (t, ss') \<Longrightarrow> sk_sending (ss_slot ss' j) = sk_sending (ss_slot ss j)"
proof -
  assume "send_socket q pr ua ss = (t, ss')"
  then have "ss' = snd (send_socket q pr ua ss)" by simp
  moreover have "sk_sending (ss_slot (snd (send_socket q pr ua ss)) j) = sk_sending (ss_slot ss j)"
    using datagram_sending [of "HASH_ID (rs_id q)" q pr _ ss j]
    by (auto simp: send_socket_def Let_def warn_sending append_sending append_sendbuffer_def append_sendbuffer_low_def append_sendbuffer_udp_def
        split: prod.split bool.split priority.split) (metis snd_conv)+
  ultimately show ?thesis by simp
qed

lemma queued_handled:
  assumes "serving soi h r pipe (rs_id q) ss" "r = ReqD q \<and> pr = PRIORITY_HIGH \<or> r = ReqP q \<and> pr = PRIORITY_LOW"
  shows "\<exists>t ss'. (case send_socket q pr None ss of (ret, ss1) \<Rightarrow> bind_res (dec_sending_ref (rs_id q) ss1) (\<lambda>ss2. Inr (ret, ss2))) = Inr (t, ss') \<and>
    handled soi h pipe (rs_id q) ss t ss'"
proof -
  let ?i = "HASH_ID (rs_id q)"
  let ?s = "ss_slot ss ?i"
  have nr: "sk_id ?s = rs_id q \<longrightarrow> sk_type ?s \<noteq> SOCKET_TYPE_RESERVE" using assms(1) by (simp add: serving_def)
  from send_socket_spec [of ss q, OF nr, of pr None] obtain t ss1 where
    s: "send_socket q pr None ss = (t, ss1)" "only ?i ss ss1" "sent ss q pr ?s (ss_slot ss1 ?i)" by blast
  note same = sent_same [OF s(3)]
  have r: "sending (rs_id q) r" "disturbing (rs_id q) r \<or> pr = PRIORITY_HIGH \<and> req_bytes soi (rs_id q) r = send_object_init ss (rs_buffer q) (rs_sz q)"
    using assms by (auto simp: send_object_init_def serving_def)
  show ?thesis
  proof (cases "sk_id ?s = rs_id q \<and> sk_protocol ?s = PROTOCOL_TCP")
    case True
    have c: "counted (r # pipe) (ss_slot ss1 ?i)"
    proof -
      have "counted (r # pipe) ?s" using assms(1) True by (simp add: serving_def slot_ok_def)
      moreover have "sk_sending (ss_slot ss1 ?i) = sk_sending ?s" by (rule send_socket_sending [OF s(1)])
      ultimately show ?thesis using same by (simp add: counted_def)
    qed
    from dec_spec [of ss1 "rs_id q" r pipe] same True c r(1) obtain ss2 where
      d: "dec_sending_ref (rs_id q) ss1 = Inr ss2" "ss2 = upd_sock ?i (\<lambda>s. s\<lparr>sk_sending := sk_sending s - 1\<rparr>) ss1" "counted pipe (ss_slot ss2 ?i)" by auto
    have "handled soi h pipe (rs_id q) ss t ss2"
      by (rule sent_handled [OF assms(1) s(3)]) (use s(2) d(2,3) r True in \<open>auto simp: after_def\<close>)
    with s(1) d(1) show ?thesis by simp
  next
    case False
    then have d: "dec_sending_ref (rs_id q) ss1 = Inr ss1" using same by (auto simp: dec_sending_ref_def Let_def)
    have "handled soi h pipe (rs_id q) ss t ss1"
      by (rule sent_handled [OF assms(1) s(3), where x = "sk_sending (ss_slot ss1 ?i)"]) (use s(2) r False in \<open>auto simp: after_def\<close>)
    with s(1) d show ?thesis by simp
  qed
qed

end
