(* ===== verification/SocketCtrl.thy ===== *)
theory SocketCtrl
  imports SocketReq
begin

text \<open>
  The other requests, those that open a socket among them: \<open>ctrl_cmd\<close> never fails and keeps the invariant.
\<close>

section \<open>Datagrams on request, options and addresses\<close>

lemma datagram_handled:
  assumes "serving soi h (ReqA q address) pipe (rs_id q) ss"
  shows "\<exists>t ss'. send_socket q PRIORITY_HIGH (Some address) ss = (t, ss') \<and> handled soi h pipe (rs_id q) ss t ss'"
proof -
  let ?i = "HASH_ID (rs_id q)"
  let ?s = "ss_slot ss ?i"
  have nr: "sk_id ?s = rs_id q \<longrightarrow> sk_type ?s \<noteq> SOCKET_TYPE_RESERVE" using assms by (simp add: serving_def)
  from send_socket_spec [of ss q, OF nr, of PRIORITY_HIGH "Some address"] obtain t ss1 where
    s: "send_socket q PRIORITY_HIGH (Some address) ss = (t, ss1)" "only ?i ss ss1" "sent ss q PRIORITY_HIGH ?s (ss_slot ss1 ?i)" by blast
  have "counted (ReqA q address # pipe) ?s" if "sk_id ?s = rs_id q" "sk_protocol ?s = PROTOCOL_TCP"
    using assms that by (simp add: serving_def slot_ok_def)
  moreover have "sk_sending (ss_slot ss1 ?i) = sk_sending ?s" by (rule send_socket_sending [OF s(1)])
  ultimately have a: "sk_id ?s = rs_id q \<longrightarrow> after (ReqA q address) pipe ?s ((ss_slot ss1 ?i)\<lparr>sk_sending := sk_sending (ss_slot ss1 ?i)\<rparr>)"
    using sent_same [OF s(3)] by (simp add: after_def counted_def)
  have "handled soi h pipe (rs_id q) ss t ss1"
    by (rule sent_handled [OF assms s(3,2) _ _ a]) simp_all
  with s(1) show ?thesis by simp
qed

lemma slot_ok_cosmetic:
  assumes "slot_ok soi h pipe i s" "s' = s\<lparr>sk_udp_address := a, sk_udpconnecting := n\<rparr>"
  shows "slot_ok soi h pipe i s'"
proof -
  have "flowed s' = flowed s" "direct_rest soi s' = direct_rest soi s" by (simp_all add: assms(2) flowed_def direct_rest_def split: option.split)
  with assms(1) show ?thesis by (simp add: slot_ok_def local_ok_def counted_def stream_ok_def assms(2))
qed

lemma udp_address_handled:
  assumes "serving soi h (ReqC sid address) pipe sid ss"
  shows "\<exists>t ss'. set_udp_address sid address ss = (t, ss') \<and> handled soi h pipe sid ss t ss'"
proof -
  let ?i = "HASH_ID sid"
  let ?s = "ss_slot ss ?i"
  have same: "handled soi h pipe sid ss t ss'" if "only ?i ss ss'" "ss_slot ss' ?i = ?s" for t ss'
    using handled_same [OF assms _ that] by simp
  show ?thesis
  proof (cases "sk_type ?s = SOCKET_TYPE_INVALID \<or> sk_id ?s \<noteq> sid \<or> hd address \<noteq> protocol_code (sk_protocol ?s)")
    case True
    then show ?thesis using same by (auto simp: set_udp_address_def Let_def)
  next
    case False
    with assms have ok: "slot_ok soi h pipe ?i ?s" by (auto simp: serving_def intro: slot_ok_pop)
    let ?n = "if hd address = protocol_code PROTOCOL_UDP then 7 else 19"
    let ?ss1 = "upd_sock ?i (\<lambda>s. s\<lparr>sk_udp_address := take ?n address @ drop ?n (sk_udp_address s), sk_udpconnecting := sk_udpconnecting s - 1\<rparr>) ss"
    have "handled soi h pipe sid ss None ?ss1"
      by (rule handledI) (use False slot_ok_cosmetic [OF ok refl] in simp_all)
    with False show ?thesis by (simp add: set_udp_address_def Let_def)
  qed
qed

lemma option_handled:
  assumes "serving soi h (ReqT sid what v) pipe sid ss"
  shows "handled soi h pipe sid ss t (setopt_socket sid ss)"
proof -
  have "only (HASH_ID sid) ss (setopt_socket sid ss) \<and> ss_slot (setopt_socket sid ss) = ss_slot ss"
    using kernel_only [of ss _ _ "HASH_ID sid"] by (cases "kernel ss") (auto simp: setopt_socket_def Let_def)
  then show ?thesis using handled_same [OF assms] by simp
qed

section \<open>Sockets that open\<close>

definition opening_slot :: "history \<Rightarrow> request list \<Rightarrow> i32 \<Rightarrow> socket \<Rightarrow> bool" where
  "opening_slot h pipe sid s \<longleftrightarrow> local_ok s \<and> sk_type s = SOCKET_TYPE_RESERVE \<and> sk_protocol s = PROTOCOL_UNKNOWN \<and> sends pipe sid = 0 \<and>
     (h sid = None \<or> h sid = Some [] \<and> clean pipe sid)"

definition opened_slot :: "i32 \<Rightarrow> socket \<Rightarrow> bool" where
  "opened_slot sid s \<longleftrightarrow> sk_id s = sid \<and> sk_high s = [] \<and> sk_low s = [] \<and> sk_dw_buffer s = None \<and> sk_out s = [] \<and> sk_wb_size s = 0 \<and> sk_size s = MIN_READ_BUFFER \<and>
     sk_sending s = push_bit 16 (ID_TAG16 sid)"

lemma pipe_bytes_none: "sends pipe sid = 0 \<Longrightarrow> pipe_bytes soi pipe sid = []"
proof (induction pipe)
  case (Cons r pipe)
  then show ?case by (cases r) (auto split: if_splits)
qed simp

lemma tag_small: "unat (ID_TAG16 sid) < 65536"
proof -
  have "ID_TAG16 sid = take_bit 16 (drop_bit MAX_SOCKET_P sid)" by (simp add: ID_TAG16_def take_bit_eq_mask mask_eq_exp_minus_1)
  then have "unat (ID_TAG16 sid) = take_bit 16 (unat (drop_bit MAX_SOCKET_P sid))" by (simp only: unsigned_take_bit_eq)
  then show ?thesis by (simp add: take_bit_eq_mod)
qed

lemma tag_high: "unat (push_bit 16 (ID_TAG16 sid)) = unat (ID_TAG16 sid) * 65536"
proof -
  have "unat (push_bit 16 (ID_TAG16 sid)) = take_bit 32 (push_bit 16 (unat (ID_TAG16 sid)))" by (simp add: unsigned_push_bit_eq)
  then show ?thesis using tag_small [of sid] by (simp add: take_bit_eq_mod push_bit_eq_mult)
qed

lemma opened_ok:
  assumes "opening_slot h pipe sid s" "opened_slot sid s'" "HASH_ID sid = i" "sk_type s' \<notin> {SOCKET_TYPE_INVALID, SOCKET_TYPE_RESERVE}"
    "sk_polled s' \<Longrightarrow> sk_type s' \<in> {SOCKET_TYPE_LISTEN, SOCKET_TYPE_CONNECTING, SOCKET_TYPE_CONNECTED, SOCKET_TYPE_HALFCLOSE, SOCKET_TYPE_BIND}"
  shows "slot_ok soi h pipe i s'"
proof -
  have e: "sk_id s' = sid" "sk_high s' = []" "sk_low s' = []" "sk_dw_buffer s' = None" "flowed s' = []" "sk_wb_size s' = 0" "sk_size s' = 64"
    "sk_sending s' = push_bit 16 (ID_TAG16 sid)"
    using assms(2) by (simp_all add: opened_slot_def flowed_def MIN_READ_BUFFER_def)
  have z: "sends pipe sid = 0" using assms(1) by (simp add: opening_slot_def)
  have "local_ok s'" using assms(4,5) by (simp add: local_ok_def e)
  moreover have "counted pipe s'" using z tag_high [of sid] by (simp add: counted_def e)
  moreover have "stream_ok soi h pipe s'" using assms(1) pipe_bytes_none [OF z]
    by (auto simp: stream_ok_def e opening_slot_def direct_rest_def z)
  ultimately show ?thesis using assms(3,4) e by (simp add: slot_ok_def)
qed

lemma opening_failed: "local_ok s \<Longrightarrow> sk_type s = SOCKET_TYPE_RESERVE \<Longrightarrow> sk_protocol s = PROTOCOL_UNKNOWN \<Longrightarrow>
    slot_ok soi h pipe i (s\<lparr>sk_type := SOCKET_TYPE_INVALID\<rparr>)"
  by (auto simp: slot_ok_def local_ok_def)

lemma new_fd_total:
  assumes "local_ok (ss_slot ss (HASH_ID sid))" "sk_type (ss_slot ss (HASH_ID sid)) = SOCKET_TYPE_RESERVE"
  obtains ss' where "new_fd sid fd protocol opaque add ss = Inr (None, ss')" "add" "only (HASH_ID sid) ss ss'"
      "ss_slot ss' (HASH_ID sid) = (ss_slot ss (HASH_ID sid))\<lparr>sk_type := SOCKET_TYPE_INVALID\<rparr>"
  | ss' where "new_fd sid fd protocol opaque add ss = Inr (Some (HASH_ID sid), ss')" "only (HASH_ID sid) ss ss'"
      "opened_slot sid (ss_slot ss' (HASH_ID sid))" "sk_polled (ss_slot ss' (HASH_ID sid)) = add" "sk_protocol (ss_slot ss' (HASH_ID sid)) = protocol"
proof -
  let ?i = "HASH_ID sid"
  have s: "sk_type (ss_slot ss ?i) = SOCKET_TYPE_RESERVE" "sk_high (ss_slot ss ?i) = []" "sk_low (ss_slot ss ?i) = []" "\<not> sk_polled (ss_slot ss ?i)"
    using assms by (auto simp: local_ok_def)
  obtain b ss1 where a: "(if add then sp_add ?i ss else (True, ss)) = (b, ss1)" by fastforce
  show thesis
  proof (cases "b")
    case False
    with a have "add" "sp_add ?i ss = (False, ss1)" by (simp_all split: if_splits)
    with sp_add_cases [OF this(2)] have "only ?i ss ss1" "ss_slot ss1 = ss_slot ss" by blast+
    with that(1) [of "upd_sock ?i (\<lambda>s. s\<lparr>sk_type := SOCKET_TYPE_INVALID\<rparr>) ss1"] s a False \<open>add\<close> show thesis by (simp add: new_fd_def Let_def)
  next
    case True
    have ss1: "only ?i ss ss1 \<and> ss_slot ss1 ?i = (ss_slot ss ?i)\<lparr>sk_polled := add, sk_write := False\<rparr> \<or> only ?i ss ss1 \<and> ss1 = ss \<and> \<not> add"
    proof (cases add)
      case True
      with a \<open>b\<close> have "sp_add ?i ss = (True, ss1)" by simp
      then show ?thesis by (cases rule: sp_add_cases) (simp_all add: True)
    qed (use a in simp)
    then have l: "sk_high (ss_slot ss1 ?i) = []" "sk_low (ss_slot ss1 ?i) = []" "sk_polled (ss_slot ss1 ?i) = add" "only ?i ss ss1" using s by auto
    show thesis
      by (rule that(2) [of "upd_sock ?i (\<lambda>s. s\<lparr>sk_id := sid, sk_fd := fd, sk_sending := push_bit 16 (ID_TAG16 sid), sk_protocol := protocol,
               sk_size := MIN_READ_BUFFER, sk_opaque := opaque, sk_wb_size := 0, sk_warn_size := 0, sk_dw_buffer := None,
               sk_dw_size := Some [], sk_stat := zero_stat, sk_out := []\<rparr>) ss1"])
        (use s a True l in \<open>simp_all add: new_fd_def Let_def opened_slot_def\<close>)
  qed
qed

lemma new_fd_spec:
  assumes "opening_slot h pipe sid (ss_slot ss (HASH_ID sid))"
  obtains ss' where "new_fd sid fd protocol opaque add ss = Inr (None, ss')" "add" "only (HASH_ID sid) ss ss'"
      "ss_slot ss' (HASH_ID sid) = (ss_slot ss (HASH_ID sid))\<lparr>sk_type := SOCKET_TYPE_INVALID\<rparr>"
  | ss' where "new_fd sid fd protocol opaque add ss = Inr (Some (HASH_ID sid), ss')" "only (HASH_ID sid) ss ss'"
      "opened_slot sid (ss_slot ss' (HASH_ID sid))" "sk_polled (ss_slot ss' (HASH_ID sid)) = add" "sk_protocol (ss_slot ss' (HASH_ID sid)) = protocol"
  using assms unfolding opening_slot_def by (elim conjE) (rule new_fd_total [where fd = fd and protocol = protocol and opaque = opaque and add = add], assumption+)

lemma handled_opening:
  assumes "opening_slot h pipe sid (ss_slot ss (HASH_ID sid))" "sk_id (ss_slot ss (HASH_ID sid)) = sid" "only (HASH_ID sid) ss ss'"
    "slot_ok soi h pipe (HASH_ID sid) (ss_slot ss' (HASH_ID sid))"
  shows "handled soi h pipe sid ss t ss'"
  using assms(1) by (intro handledI [OF assms(3,2,4)]) (auto simp: opening_slot_def local_ok_def)

lemma opening_rest: "opening_slot h pipe sid s \<Longrightarrow> slot_ok soi h pipe i (s\<lparr>sk_type := SOCKET_TYPE_INVALID\<rparr>)"
  unfolding opening_slot_def by (intro opening_failed) simp_all

text \<open>A socket that has just been made goes into its first state.\<close>

lemma opened_into:
  assumes "opening_slot h pipe sid s" "opened_slot sid s'" "t \<in> {SOCKET_TYPE_CONNECTING, SOCKET_TYPE_CONNECTED, SOCKET_TYPE_BIND} \<or> \<not> sk_polled s' \<and> t \<in> {SOCKET_TYPE_PLISTEN, SOCKET_TYPE_PACCEPT}"
  shows "slot_ok soi h pipe (HASH_ID sid) (s'\<lparr>sk_type := t\<rparr>)"
    "slot_ok soi h pipe (HASH_ID sid) (s'\<lparr>sk_type := t, sk_write := w\<rparr>)"
    "slot_ok soi h pipe (HASH_ID sid) (s'\<lparr>sk_type := t, sk_udp_address := a\<rparr>)"
  using assms(2,3) by (auto intro!: opened_ok [OF assms(1)] simp: opened_slot_def)

lemma listen_handled:
  assumes "opening_slot h pipe sid (ss_slot ss (HASH_ID sid))" "sk_id (ss_slot ss (HASH_ID sid)) = sid"
  shows "\<exists>t ss'. listen_socket sid fd opaque ss = Inr (t, ss') \<and> handled soi h pipe sid ss t ss'"
proof (rule new_fd_spec [OF assms(1), of fd PROTOCOL_TCP opaque False])
  fix ss1 assume n: "new_fd sid fd PROTOCOL_TCP opaque False ss = Inr (Some (HASH_ID sid), ss1)" "only (HASH_ID sid) ss ss1"
    "opened_slot sid (ss_slot ss1 (HASH_ID sid))" "sk_polled (ss_slot ss1 (HASH_ID sid)) = False"
  have "handled soi h pipe sid ss None (set_type (HASH_ID sid) SOCKET_TYPE_PLISTEN ss1)"
    by (rule handled_opening [OF assms]) (use n(2,4) opened_into [OF assms(1) n(3)] in simp_all)
  with n(1) show ?thesis by (simp add: listen_socket_def)
qed simp

lemma bind_handled:
  assumes "opening_slot h pipe sid (ss_slot ss (HASH_ID sid))" "sk_id (ss_slot ss (HASH_ID sid)) = sid"
  shows "\<exists>t ss'. bind_socket sid fd opaque ss = Inr (t, ss') \<and> handled soi h pipe sid ss t ss'"
proof -
  let ?ss0 = "report sid opaque 0 (sm_data (ss_result ss)) ss"
  have o: "opening_slot h pipe sid (ss_slot ?ss0 (HASH_ID sid))" using assms(1) by simp
  show ?thesis
  proof (rule new_fd_spec [OF o, of fd PROTOCOL_TCP opaque True])
    fix ss1 assume n: "new_fd sid fd PROTOCOL_TCP opaque True ?ss0 = Inr (None, ss1)" "only (HASH_ID sid) ?ss0 ss1"
      "ss_slot ss1 (HASH_ID sid) = (ss_slot ?ss0 (HASH_ID sid))\<lparr>sk_type := SOCKET_TYPE_INVALID\<rparr>"
    have "handled soi h pipe sid ss t (set_data (DataText ''reach skynet socket number limit'') ss1)" for t
      by (rule handled_opening [OF assms]) (use n(2,3) opening_rest [OF assms(1)] in simp_all)
    with n(1) show ?thesis by (simp add: bind_socket_def)
  next
    fix ss1 assume n: "new_fd sid fd PROTOCOL_TCP opaque True ?ss0 = Inr (Some (HASH_ID sid), ss1)" "only (HASH_ID sid) ?ss0 ss1"
      "opened_slot sid (ss_slot ss1 (HASH_ID sid))"
    have "handled soi h pipe sid ss t (set_data (DataText ''binding'') (set_type (HASH_ID sid) SOCKET_TYPE_BIND ss1))" for t
      by (rule handled_opening [OF assms]) (use n(2) opened_into [OF assms(1) n(3)] in simp_all)
    with n(1) show ?thesis by (simp add: bind_socket_def)
  qed
qed

lemma add_udp_handled:
  assumes "opening_slot h pipe sid (ss_slot ss (HASH_ID sid))" "sk_id (ss_slot ss (HASH_ID sid)) = sid"
  shows "\<exists>ss'. add_udp_socket sid fd inet6 opaque ss = Inr ss' \<and> handled soi h pipe sid ss None ss'"
proof (rule new_fd_spec [OF assms(1), of fd "if inet6 then PROTOCOL_UDPv6 else PROTOCOL_UDP" opaque True])
  fix ss1 assume n: "new_fd sid fd (if inet6 then PROTOCOL_UDPv6 else PROTOCOL_UDP) opaque True ss = Inr (None, ss1)" "only (HASH_ID sid) ss ss1"
    "ss_slot ss1 (HASH_ID sid) = (ss_slot ss (HASH_ID sid))\<lparr>sk_type := SOCKET_TYPE_INVALID\<rparr>"
  have "handled soi h pipe sid ss None (set_type (HASH_ID sid) SOCKET_TYPE_INVALID (sys_close fd ss1))"
    by (rule handled_opening [OF assms]) (use n(2,3) opening_rest [OF assms(1)] in simp_all)
  with n(1) show ?thesis by (simp add: add_udp_socket_def)
next
  fix ss1 assume n: "new_fd sid fd (if inet6 then PROTOCOL_UDPv6 else PROTOCOL_UDP) opaque True ss = Inr (Some (HASH_ID sid), ss1)"
    "only (HASH_ID sid) ss ss1" "opened_slot sid (ss_slot ss1 (HASH_ID sid))"
  have "handled soi h pipe sid ss None (upd_sock (HASH_ID sid) (\<lambda>s. s\<lparr>sk_type := SOCKET_TYPE_CONNECTED, sk_udp_address := replicate UDP_ADDRESS_SIZE 0\<rparr>) ss1)"
    by (rule handled_opening [OF assms]) (use n(2) opened_into [OF assms(1) n(3)] in simp_all)
  with n(1) show ?thesis by (simp add: add_udp_socket_def)
qed

lemma open_loop_only: "open_loop n e ss = (r, ss') \<Longrightarrow> ss_slot ss' = ss_slot ss \<and> only i ss ss'"
proof (induction n arbitrary: e ss)
  case (Suc n)
  obtain a ss1 where k: "kernel ss = (a, ss1)" by fastforce
  obtain b ss2 where k2: "kernel ss1 = (b, ss2)" by fastforce
  note f = kernel_only [OF k, of i] kernel_only [OF k2, of i]
  have o2: "only i ss ss2" using f only_trans by blast
  show ?case
  proof (cases a)
    case (Done fd)
    have "open_loop (Suc n) e ss = open_loop n (sys_errno b) (sys_close (int fd) ss2) \<or> (\<exists>x. open_loop (Suc n) e ss = (x, ss2))"
      using k k2 Done by (cases b) (auto split: errno.split)
    then show ?thesis
    proof (elim disjE exE)
      assume "open_loop (Suc n) e ss = open_loop n (sys_errno b) (sys_close (int fd) ss2)"
      with Suc.prems have "open_loop n (sys_errno b) (sys_close (int fd) ss2) = (r, ss')" by (simp only:)
      from Suc.IH [OF this] f have "ss_slot ss' = ss_slot ss" "only i (sys_close (int fd) ss2) ss'" by simp_all
      moreover have "only i ss (sys_close (int fd) ss2)" using o2 by simp
      ultimately show ?thesis using only_trans by blast
    qed (use Suc.prems f o2 in \<open>simp add: only_def\<close>)
  qed (use Suc.prems Suc.IH [of _ ss1] k f only_trans [of i ss ss1 ss'] in \<open>simp_all\<close>)
qed simp

lemma name_result_simps [simp]: "ss_slot (name_result d ss) = ss_slot ss" "only i ss0 ss \<Longrightarrow> only i ss0 (name_result d ss)"
proof -
  obtain a ss1 where k: "kernel ss = (a, ss1)" by fastforce
  from kernel_only [OF this, of i] show "ss_slot (name_result d ss) = ss_slot ss" "only i ss0 ss \<Longrightarrow> only i ss0 (name_result d ss)"
    using only_trans by (auto simp: name_result_def k split: kernel_answer.split)
qed

lemma open_handled:
  assumes "opening_slot h pipe sid (ss_slot ss (HASH_ID sid))" "sk_id (ss_slot ss (HASH_ID sid)) = sid"
  shows "\<exists>t ss'. open_socket sid port opaque host ss = Inr (t, ss') \<and> handled soi h pipe sid ss t ss'"
proof -
  let ?i = "HASH_ID sid" and ?ss0 = "report sid opaque 0 NoData ss"
  have failed: "handled soi h pipe sid ss t (set_type ?i SOCKET_TYPE_INVALID (set_data d ss1))"
    if "only ?i ss ss1" "ss_slot ss1 ?i = ss_slot ss ?i \<or> ss_slot ss1 ?i = (ss_slot ss ?i)\<lparr>sk_type := SOCKET_TYPE_INVALID\<rparr>" for t d ss1
    by (rule handled_opening [OF assms]) (use that opening_rest [OF assms(1)] in auto)
  obtain a ss1 where k: "kernel ?ss0 = (a, ss1)" by fastforce
  have f1: "ss_slot ss1 = ss_slot ss" "only ?i ss ss1" using kernel_only [OF k, of ?i] by simp_all
  show ?thesis
  proof (cases "\<exists>n. a = Done n")
    case False
    then show ?thesis using failed [OF f1(2)] f1(1) by (cases a) (simp_all add: open_socket_def k)
  next
    case True
    then obtain n where n: "a = Done n" by blast
    obtain r ss2 where l: "open_loop n EOTHER ss1 = (r, ss2)" by fastforce
    from open_loop_only [OF l, of ?i] f1 only_trans have f2: "ss_slot ss2 = ss_slot ss" "only ?i ss ss2" by (simp, blast)
    show ?thesis
    proof (cases r)
      case (Inl e)
      then show ?thesis using failed [OF f2(2)] f2(1) by (simp add: open_socket_def k n l)
    next
      case (Inr p)
      obtain sock connected where p: "p = (sock, connected)" by fastforce
      have o2: "opening_slot h pipe sid (ss_slot ss2 ?i)" using assms(1) f2(1) by simp
      show ?thesis
      proof (rule new_fd_spec [OF o2, of sock PROTOCOL_TCP opaque True])
        fix ss3 assume w: "new_fd sid sock PROTOCOL_TCP opaque True ss2 = Inr (None, ss3)" "only ?i ss2 ss3"
          "ss_slot ss3 ?i = (ss_slot ss2 ?i)\<lparr>sk_type := SOCKET_TYPE_INVALID\<rparr>"
        have "only ?i ss (sys_close sock ss3)" using only_trans [OF f2(2) w(2)] by simp
        from failed [OF this] w(1,3) f2(1) show ?thesis by (simp add: open_socket_def k n l Inr p)
      next
        fix ss3 assume w: "new_fd sid sock PROTOCOL_TCP opaque True ss2 = Inr (Some ?i, ss3)" "only ?i ss2 ss3" "opened_slot sid (ss_slot ss3 ?i)"
        have o3: "only ?i ss ss3" by (rule only_trans [OF f2(2) w(2)])
        have "handled soi h pipe sid ss t (name_result NoData (set_type ?i SOCKET_TYPE_CONNECTED ss3))" for t
          by (rule handled_opening [OF assms]) (use o3 opened_into [OF assms(1) w(3)] in simp_all)
        moreover have "handled soi h pipe sid ss t (sp_write ?i True (set_type ?i SOCKET_TYPE_CONNECTING ss3))" for t
          by (rule handled_opening [OF assms]) (use o3 opened_into [OF assms(1) w(3)] in simp_all)
        ultimately show ?thesis using w(1) by (cases connected) (simp_all add: open_socket_def k n l Inr p)
      qed
    qed
  qed
qed

section \<open>Every request\<close>

lemma inv_serving:
  assumes "socket_inv soi h ss" "ss_pipe ss = r # pipe" "req_sid r = Some sid" "\<not> opens r"
  shows "serving soi h r pipe sid (ss\<lparr>ss_pipe := pipe\<rparr>)"
proof -
  let ?s = "ss_slot ss (HASH_ID sid)"
  have ok: "slot_ok soi h (r # pipe) (HASH_ID sid) ?s" using inv_slot [OF assms(1), of "HASH_ID sid"] assms(2) by simp
  have "sk_type ?s \<noteq> SOCKET_TYPE_RESERVE" if "sk_id ?s = sid"
  proof
    assume "sk_type ?s = SOCKET_TYPE_RESERVE"
    with ok that assms(4) obtain r' where "r' \<in> set pipe" "opens r'" "req_sid r' = Some sid" by (auto simp: slot_ok_def)
    with assms(1-3) show False by (auto simp: socket_inv_def)
  qed
  with ok assms(1) show ?thesis by (simp add: serving_def socket_inv_def)
qed

lemma inv_opening:
  assumes "socket_inv soi h ss" "ss_pipe ss = r # pipe" "req_sid r = Some sid" "opens r"
  shows "opening_slot h pipe sid (ss_slot ss (HASH_ID sid)) \<and> sk_id (ss_slot ss (HASH_ID sid)) = sid"
proof -
  have "sk_type (ss_slot ss (HASH_ID sid)) = SOCKET_TYPE_RESERVE" "sk_id (ss_slot ss (HASH_ID sid)) = sid"
    using assms by (simp_all add: socket_inv_def openings_ok_def)
  with inv_slot [OF assms(1), of "HASH_ID sid"] assms(2) silent [OF assms(4)] show ?thesis by (auto simp: slot_ok_def opening_slot_def)
qed

lemma exit_inv:
  assumes "socket_inv soi h ss" "ss_pipe ss = ReqX # pipe"
  shows "socket_inv soi h (report 0 0 0 NoData (ss\<lparr>ss_pipe := pipe\<rparr>))"
proof -
  have "slot_ok soi h pipe i (ss_slot ss i)" for i using slot_ok_skip [of soi h ReqX pipe i "ss_slot ss i"] inv_slot [OF assms(1), of i] assms(2) by simp
  with assms show ?thesis by (simp add: socket_inv_def report_def openings_ok_def events_ok_def)
qed

lemma ctrl_spec:
  assumes "socket_inv soi h ss" "ss_pipe ss = r # pipe"
  shows "\<exists>t ss'. ctrl_cmd r (ss\<lparr>ss_pipe := pipe\<rparr>) = Inr (t, ss') \<and> socket_inv soi h (case t of None \<Rightarrow> ss' | Some t \<Rightarrow> clear_closed_event t ss') \<and>
    ss_alloc_id ss' = ss_alloc_id ss"
proof (cases "req_sid r")
  case None
  then have r: "r = ReqX" by (cases r) simp_all
  with exit_inv [OF assms(1)] assms(2) show ?thesis by (auto simp: ctrl_cmd_def clear_closed_event_def report_def)
next
  case (Some sid)
  let ?ss = "ss\<lparr>ss_pipe := pipe\<rparr>"
  have "\<exists>t ss'. ctrl_cmd r ?ss = Inr (t, ss') \<and> handled soi h pipe sid ?ss t ss'"
  proof (cases "opens r")
    case True
    from inv_opening [OF assms Some True] have o: "opening_slot h pipe sid (ss_slot ?ss (HASH_ID sid))" "sk_id (ss_slot ?ss (HASH_ID sid)) = sid" by simp_all
    show ?thesis
    proof (cases r)
      case (ReqB sid' fd opaque) with Some bind_handled [OF o] show ?thesis by (simp add: ctrl_cmd_def)
    next
      case (ReqL sid' fd opaque) with Some listen_handled [OF o] show ?thesis by (simp add: ctrl_cmd_def)
    next
      case (ReqO sid' port opaque host) with Some open_handled [OF o] show ?thesis by (simp add: ctrl_cmd_def)
    next
      case (ReqU sid' fd inet6 opaque)
      obtain ss1 where "add_udp_socket sid fd inet6 opaque ?ss = Inr ss1" "handled soi h pipe sid ?ss None ss1" using add_udp_handled [OF o] by blast
      with ReqU Some show ?thesis by (auto simp: ctrl_cmd_def)
    qed (use True in simp_all)
  next
    case False
    note s = inv_serving [OF assms Some False]
    show ?thesis
    proof (cases r)
      case (ReqS sid' opaque) with s Some start_handled show ?thesis by (simp add: ctrl_cmd_def)
    next
      case (ReqK sid' shutdown opaque) with s Some close_handled show ?thesis by (simp add: ctrl_cmd_def)
    next
      case (ReqD q) with s Some queued_handled [of soi h r pipe q ?ss PRIORITY_HIGH] show ?thesis by (simp add: ctrl_cmd_def)
    next
      case (ReqP q) with s Some queued_handled [of soi h r pipe q ?ss PRIORITY_LOW] show ?thesis by (simp add: ctrl_cmd_def)
    next
      case (ReqA q address) with s Some datagram_handled [of soi h q address pipe ?ss] show ?thesis by (simp add: ctrl_cmd_def)
    next
      case (ReqT sid' what v) with s Some option_handled [of soi h sid' what v pipe ?ss] show ?thesis by (simp add: ctrl_cmd_def)
    next
      case (ReqC sid' address) with s Some udp_address_handled [of soi h sid' address pipe ?ss] show ?thesis by (simp add: ctrl_cmd_def)
    qed (use False Some in simp_all)
  qed
  moreover have "ss_alloc_id ss' = ss_alloc_id ss" if "handled soi h pipe sid ?ss t ss'" for t ss'
    using that by (simp add: handled_def Let_def only_def)
  ultimately show ?thesis using ctrl_inv [OF assms Some] by blast
qed

end
