(* ===== verification/SocketEvents.thy ===== *)
theory SocketEvents
  imports SocketCtrl
begin

text \<open>
  The events: reading, writing, connecting and accepting keep the invariant; the search for a free id.
\<close>

section \<open>An event of a connection\<close>

definition event_done :: "socket_object_interface \<Rightarrow> history \<Rightarrow> nat \<Rightarrow> socket_server \<Rightarrow> socket_event option \<Rightarrow> socket_server \<Rightarrow> bool" where
  "event_done soi h i ss t ss' \<longleftrightarrow> only i ss ss' \<and> slot_ok soi h (ss_pipe ss) i (ss_slot ss' i) \<and>
     (t \<in> {Some SOCKET_CLOSE, Some SOCKET_ERR} \<or> sk_polled (ss_slot ss' i))"

definition ready :: "socket_object_interface \<Rightarrow> history \<Rightarrow> nat \<Rightarrow> socket_server \<Rightarrow> bool" where
  "ready soi h i ss \<longleftrightarrow> ss_soi ss = soi \<and> plain_objects soi \<and> slot_ok soi h (ss_pipe ss) i (ss_slot ss i) \<and> sk_polled (ss_slot ss i) \<and>
     reads_ok (ss_answers ss)"

lemma ready_open: "ready soi h i ss \<Longrightarrow> open_type (ss_slot ss i)"
  using slot_polled [of soi h "ss_pipe ss" i "ss_slot ss i"] by (auto simp: ready_def open_type_def)

lemma ready_same: "ready soi h i ss \<Longrightarrow> only i ss ss1 \<Longrightarrow> ss_slot ss1 i = ss_slot ss i \<Longrightarrow> event_done soi h i ss t ss1"
  by (simp add: ready_def event_done_def)

lemma event_closed:
  assumes "ready soi h i ss" "only i ss ss1" "ss_slot ss1 i = ss_slot ss i"
  obtains ss2 where "force_close i ss1 = Inr ss2" "event_done soi h i ss (Some SOCKET_CLOSE) ss2" "event_done soi h i ss (Some SOCKET_ERR) ss2"
    "event_done soi h i ss (Some SOCKET_ERR) (set_data d ss2)"
proof -
  have ok: "slot_ok soi h (ss_pipe ss) i (ss_slot ss i)" using assms(1) by (simp add: ready_def)
  have t: "local_ok (ss_slot ss1 i)" "sk_type (ss_slot ss1 i) \<noteq> SOCKET_TYPE_RESERVE" "sk_type (ss_slot ss i) \<noteq> SOCKET_TYPE_INVALID"
    using ok ready_open [OF assms(1)] assms(3) by (simp_all add: slot_ok_def open_type_def)
  from force_close_gone [OF t(1,2), of soi] obtain ss2 where c: "force_close i ss1 = Inr ss2" "only i ss1 ss2" "gone soi (ss_slot ss i) (ss_slot ss2 i)"
    unfolding assms(3) by blast
  have "slot_ok soi h (ss_pipe ss) i (ss_slot ss2 i)" by (rule slot_ok_gone [OF ok c(3) t(3)])
  with c only_trans [OF assms(2) c(2)] that show thesis by (simp add: event_done_def)
qed

lemma kernel_reads: "kernel ss = (a, ss1) \<Longrightarrow> reads_ok (ss_answers ss) \<Longrightarrow> a = Bytes bs \<Longrightarrow> length bs < 2 ^ 29"
  by (auto simp: kernel_def reads_ok_def split: list.splits)

lemma kernel_same:
  assumes "kernel ss = (a, ss1)"
  shows "only i ss ss1" "ss_slot ss1 = ss_slot ss" "ss_result ss1 = ss_result ss" "ss_soi ss1 = ss_soi ss" "ss_pipe ss1 = ss_pipe ss"
  using kernel_only [OF assms, of i] by (simp_all add: only_def)

lemma read_slot:
  assumes "ready soi h i ss" "s' = (ss_slot ss i)\<lparr>sk_size := n, sk_stat := st\<rparr>" "n \<le> 2 ^ 30"
  shows "slot_ok soi h (ss_pipe ss) i s'" "sk_polled s'"
proof -
  have ok: "slot_ok soi h (ss_pipe ss) i (ss_slot ss i)" and p: "sk_polled (ss_slot ss i)" using assms(1) by (simp_all add: ready_def)
  have t: "sk_type s' = sk_type (ss_slot ss i)" "open_type s'" "open_type (ss_slot ss i)" using ready_open [OF assms(1)] by (simp_all add: assms(2) open_type_def)
  have "alike (ss_slot ss i) s'" using assms(3) by (simp add: alike_def assms(2) same_dw_def flowed_def)
  from slot_ok_alike [OF ok this t(3,2)] t(1) slot_polled [OF ok p] show "slot_ok soi h (ss_pipe ss) i s'" by auto
  show "sk_polled s'" using p by (simp add: assms(2))
qed

lemma forward_tcp_done:
  assumes "ready soi h i ss"
  shows "\<exists>t ss'. forward_message_tcp i ss = Inr (t, ss') \<and> event_done soi h i ss t ss' \<and> t \<noteq> Some SOCKET_UDP"
proof -
  obtain a ss1 where k: "kernel ss = (a, ss1)" by fastforce
  note f = kernel_same(1) [OF k, of i] kernel_same(2-5) [OF k] kernel_same(2) [OF k, THEN fun_cong, of i]
  let ?sz = "sk_size (ss_slot ss i)"
  have sz: "?sz \<le> 2 ^ 30" using assms by (simp add: ready_def slot_ok_def local_ok_def)
  have same: "event_done soi h i ss t ss1" for t using ready_same [OF assms f(1)] f(2) by simp
  show ?thesis
  proof (cases a)
    case (Bytes bs)
    let ?buffer = "take (nat ?sz) bs"
    let ?n = "length ?buffer"
    show ?thesis
    proof (cases "?n = 0")
      case True
      obtain ss2 where c: "force_close i ss1 = Inr ss2" "event_done soi h i ss (Some SOCKET_CLOSE) ss2" by (rule event_closed [OF assms f(1,6)])
      have "forward_message_tcp i ss = Inr (Some SOCKET_CLOSE, ss2)" using True c(1) unfolding forward_message_tcp_def k Bytes Let_def by (simp del: length_take)
      with c(2) show ?thesis by simp
    next
      case nz: False
      show ?thesis
      proof (cases "sk_type (ss_slot ss i) = SOCKET_TYPE_HALFCLOSE")
        case True
        with nz same f(2) show ?thesis by (simp add: forward_message_tcp_def k Bytes Let_def)
      next
        case nh: False
        have len: "length bs < 2 ^ 29" using kernel_reads [OF k _ Bytes] assms by (simp add: ready_def)
        have full: "?sz < 2 ^ 29" if "int ?n = ?sz" using len that by auto
        let ?size = "if int ?n = ?sz then ?sz * 2 else if ?sz > MIN_READ_BUFFER \<and> int ?n * 2 < ?sz then ?sz div 2 else ?sz"
        let ?ss2 = "report (sk_id (ss_slot ss i)) (sk_opaque (ss_slot ss i)) (int ?n) (DataBytes ?buffer) (upd_sock i (\<lambda>s. s\<lparr>sk_size := ?size\<rparr>) (stat_read i ?n ss1))"
        have "\<not> (int ?n = ?sz \<and> ?sz * 2 \<ge> 2 ^ 31)" using full by auto
        then have e: "forward_message_tcp i ss = Inr (Some SOCKET_DATA, ?ss2)" using nz nh f(2) unfolding forward_message_tcp_def k Bytes Let_def
          by (simp del: length_take)
        have "?size \<le> 2 ^ 30" using sz full by (auto simp: MIN_READ_BUFFER_def)
        moreover have s2: "ss_slot ?ss2 i = (ss_slot ss i)\<lparr>sk_size := ?size, sk_stat := sk_stat (ss_slot ?ss2 i)\<rparr>"
          using f(2) by (simp add: stat_read_def del: length_take split del: if_split)
        moreover have "only i ss ?ss2" using f(1) by (simp add: stat_read_def)
        ultimately have "event_done soi h i ss (Some SOCKET_DATA) ?ss2" using read_slot [OF assms s2] unfolding event_done_def by blast
        with e show ?thesis by blast
      qed
    qed
  next
    case (Fail e)
    obtain ss2 where c: "force_close i ss1 = Inr ss2" "event_done soi h i ss (Some SOCKET_ERR) (set_data (DataErrno (sys_errno a)) ss2)"
      by (rule event_closed [OF assms f(1,6)])
    with same show ?thesis by (cases e) (simp_all add: forward_message_tcp_def k Fail Let_def sys_errno_def)
  qed (rule event_closed [OF assms f(1,6), where d = "DataErrno (sys_errno a)"], simp add: forward_message_tcp_def k Let_def sys_errno_def)+
qed

lemma forward_udp_done:
  assumes "ready soi h i ss"
  shows "\<exists>t ss'. forward_message_udp i ss = Inr (t, ss') \<and> event_done soi h i ss t ss'"
proof -
  obtain a ss1 where k: "kernel ss = (a, ss1)" by fastforce
  note f = kernel_same(1) [OF k, of i] kernel_same(2-5) [OF k] kernel_same(2) [OF k, THEN fun_cong, of i]
  have same: "event_done soi h i ss t ss1" for t using ready_same [OF assms f(1)] f(2) by simp
  have sz: "sk_size (ss_slot ss i) \<le> 2 ^ 30" using assms by (simp add: ready_def slot_ok_def local_ok_def)
  obtain ss2 where c: "force_close i ss1 = Inr ss2" "event_done soi h i ss (Some SOCKET_ERR) (set_data (DataErrno (sys_errno a)) ss2)"
    by (rule event_closed [OF assms f(1,6)])
  show ?thesis
  proof (cases a)
    case (From bs inet6 sa)
    let ?ss2 = "stat_read i (length bs) ss1"
    have s2: "ss_slot ?ss2 i = (ss_slot ss i)\<lparr>sk_size := sk_size (ss_slot ss i), sk_stat := sk_stat (ss_slot ?ss2 i)\<rparr>" using f(2) by (simp add: stat_read_def)
    have "only i ss ?ss2" using f(1) by (simp add: stat_read_def)
    with read_slot [OF assms s2 sz] have "event_done soi h i ss t ?ss2" "event_done soi h i ss t (report x y z w ?ss2)" for t x y z w
      by (simp_all add: event_done_def)
    then show ?thesis by (simp add: forward_message_udp_def k From Let_def)
  next
    case (Fail e)
    with same c show ?thesis by (cases e) (simp_all add: forward_message_udp_def k Let_def sys_errno_def)
  qed (use c in \<open>simp_all add: forward_message_udp_def k Let_def sys_errno_def\<close>)
qed

lemma connect_done:
  assumes "ready soi h i ss" "sk_type (ss_slot ss i) = SOCKET_TYPE_CONNECTING"
  shows "\<exists>t ss'. report_connect i ss = Inr (t, ss') \<and> event_done soi h i ss t ss'"
proof -
  obtain a ss1 where k: "kernel ss = (a, ss1)" by fastforce
  note f = kernel_same(1) [OF k, of i] kernel_same(2-5) [OF k] kernel_same(2) [OF k, THEN fun_cong, of i]
  have ok: "slot_ok soi h (ss_pipe ss) i (ss_slot ss i)" "sk_polled (ss_slot ss i)" using assms(1) by (simp_all add: ready_def)
  obtain ss2 where c: "force_close i ss1 = Inr ss2" "event_done soi h i ss (Some SOCKET_ERR) (set_data (DataErrno (sys_errno a)) ss2)"
    by (rule event_closed [OF assms(1) f(1,6)])
  show ?thesis
  proof (cases "a = Done 0")
    case True
    let ?ss2 = "set_type i SOCKET_TYPE_CONNECTED ss1"
    let ?ss3 = "report (sk_id (ss_slot ?ss2 i)) (sk_opaque (ss_slot ?ss2 i)) 0 (sm_data (ss_result ?ss2)) ?ss2"
    let ?ss4 = "name_result NoData (if nomore_sending_data (ss_slot ?ss2 i) then sp_write i False ?ss3 else ?ss3)"
    have e: "report_connect i ss = Inr (Some SOCKET_OPEN, ?ss4)" by (simp add: report_connect_def k True Let_def)
    have s4: "\<exists>b. ss_slot ?ss4 i = (ss_slot ss i)\<lparr>sk_type := SOCKET_TYPE_CONNECTED, sk_write := b\<rparr>"
    proof (cases "nomore_sending_data (ss_slot ?ss2 i)")
      case True
      then have "ss_slot ?ss4 i = (ss_slot ss i)\<lparr>sk_type := SOCKET_TYPE_CONNECTED, sk_write := False\<rparr>" using f(2) by simp
      then show ?thesis by blast
    next
      case False
      then have "ss_slot ?ss4 i = (ss_slot ss i)\<lparr>sk_type := SOCKET_TYPE_CONNECTED, sk_write := sk_write (ss_slot ss i)\<rparr>" using f(2) by simp
      then show ?thesis by blast
    qed
    have "sk_size (ss_slot ss i) \<le> 2 ^ 30" using ok by (simp add: slot_ok_def local_ok_def)
    then have "slot_ok soi h (ss_pipe ss) i ((ss_slot ss i)\<lparr>sk_type := SOCKET_TYPE_CONNECTED, sk_write := b\<rparr>)" for b
      using assms(2) by (intro slot_ok_alike [OF ok(1)]) (simp_all add: alike_def same_dw_def open_type_def flowed_def)
    moreover have "only i ss ?ss4" using f(1) by simp
    moreover obtain b where "ss_slot ?ss4 i = (ss_slot ss i)\<lparr>sk_type := SOCKET_TYPE_CONNECTED, sk_write := b\<rparr>" using s4 ..
    ultimately have "event_done soi h i ss (Some SOCKET_OPEN) ?ss4" using ok(2) unfolding event_done_def by simp
    with e show ?thesis by blast
  next
    case False
    with c show ?thesis by (cases a) (auto simp: report_connect_def k Let_def split: nat.split)
  qed
qed

lemma send_done:
  assumes "ready soi h i ss"
  shows "\<exists>t ss'. send_buffer i ss = Inr (t, ss') \<and> event_done soi h i ss t ss'"
proof -
  have ok: "slot_ok soi h (ss_pipe ss) i (ss_slot ss i)" "sk_polled (ss_slot ss i)" "ss_soi ss = soi" using assms by (simp_all add: ready_def)
  have op: "open_type (ss_slot ss i)" by (rule ready_open [OF assms])
  have "local_ok (ss_slot ss i)" "sk_dw_buffer (ss_slot ss i) \<noteq> None \<longrightarrow> list_all fresh (sk_high (ss_slot ss i))" using ok by (simp_all add: slot_ok_def)
  from send_buffer_spec [OF this(1) op _ this(2)] assms obtain t ss1 where b: "send_buffer i ss = Inr (t, ss1)" "only i ss ss1"
    "t = Some SOCKET_CLOSE \<and> gone soi (ss_slot ss i) (ss_slot ss1 i) \<or> t \<in> {None, Some SOCKET_WARNING} \<and> stays soi (ss_slot ss i) (ss_slot ss1 i)"
    by (auto simp: ready_def)
  have "event_done soi h i ss t ss1"
    using b(3)
  proof (elim disjE conjE)
    assume "t = Some SOCKET_CLOSE" "gone soi (ss_slot ss i) (ss_slot ss1 i)"
    with slot_ok_gone [OF ok(1) this(2)] op b(2) show ?thesis by (simp add: event_done_def open_type_def)
  next
    assume "t \<in> {None, Some SOCKET_WARNING}" "stays soi (ss_slot ss i) (ss_slot ss1 i)"
    with slot_ok_stays [OF ok(1) this(2) op] ok(2) b(2) show ?thesis by (simp add: event_done_def stays_def same_conn_def)
  qed
  with b(1) show ?thesis by blast
qed

lemma close_error_done:
  assumes "ready soi h i ss"
  shows "\<exists>t ss'. close_error i ss = Inr (t, ss') \<and> event_done soi h i ss t ss'"
proof -
  obtain a ss1 where k: "kernel ss = (a, ss1)" by fastforce
  note f = kernel_same(1) [OF k, of i] kernel_same(2-5) [OF k] kernel_same(2) [OF k, THEN fun_cong, of i]
  obtain ss2 where c: "force_close i ss1 = Inr ss2"
    "event_done soi h i ss (Some SOCKET_ERR) (set_data (if a = Done 0 then DataText ''Unknown error'' else DataErrno (sys_errno a)) ss2)"
    by (rule event_closed [OF assms f(1,6)])
  then show ?thesis by (simp add: close_error_def k)
qed

section \<open>What an event leaves of the invariant\<close>

lemma event_inv:
  assumes "socket_inv soi h ss" "ss_ev ss = e # es" "ev_s e = Some i" "event_done soi h i (ss\<lparr>ss_ev := es\<rparr>) t ss'"
  shows "socket_inv soi h ss'" "\<lbrakk>sk_polled (ss_slot ss' i); ev_s e' = Some i\<rbrakk> \<Longrightarrow> socket_inv soi h (ss'\<lparr>ss_ev := e' # ss_ev ss'\<rparr>)"
proof -
  from assms(4) have on: "only i (ss\<lparr>ss_ev := es\<rparr>) ss'" and ok: "slot_ok soi h (ss_pipe ss) i (ss_slot ss' i)" by (simp_all add: event_done_def)
  have rest: "ss_pipe ss' = ss_pipe ss" "ss_ev ss' = es" "ss_soi ss' = soi" "reads_ok (ss_answers ss')" "plain_objects soi" "ordered (ss_pipe ss)"
    "\<And>j. j \<noteq> i \<Longrightarrow> ss_slot ss' j = ss_slot ss j" using on assms(1) by (auto simp: only_def socket_inv_def reads_ok_def)
  have ev: "distinct (i # ev_slots es)" "\<forall>j \<in> set (i # ev_slots es). sk_polled (ss_slot ss j)" using assms(1-3) by (simp_all add: socket_inv_def events_ok_def)
  have slots: "slot_ok soi h (ss_pipe ss) j (ss_slot ss' j)" for j using ok inv_slot [OF assms(1), of j] rest(7) by (cases "j = i") simp_all
  have "sk_type (ss_slot ss i) \<noteq> SOCKET_TYPE_RESERVE" using slot_polled [OF inv_slot [OF assms(1)], of i] ev(2) by auto
  then have "HASH_ID sid \<noteq> i" if "r \<in> set (ss_pipe ss)" "opens r" "req_sid r = Some sid" for r sid using assms(1) that by (auto simp: socket_inv_def openings_ok_def)
  then have "openings_ok ss' (ss_pipe ss)" using assms(1) rest(7) by (simp add: socket_inv_def openings_ok_def)
  moreover have "\<forall>j \<in> set (ev_slots es). sk_polled (ss_slot ss' j)"
  proof
    fix j assume "j \<in> set (ev_slots es)"
    with ev have "j \<noteq> i" "sk_polled (ss_slot ss j)" by auto
    then show "sk_polled (ss_slot ss' j)" using rest(7) by simp
  qed
  ultimately show "socket_inv soi h ss'" "\<lbrakk>sk_polled (ss_slot ss' i); ev_s e' = Some i\<rbrakk> \<Longrightarrow> socket_inv soi h (ss'\<lparr>ss_ev := e' # ss_ev ss'\<rparr>)"
    using slots rest ev(1) by (simp_all add: socket_inv_def events_ok_def openings_ok_def)
qed

lemma inv_ready:
  assumes "socket_inv soi h ss" "ss_ev ss = e # es" "ev_s e = Some i"
  shows "ready soi h i (ss\<lparr>ss_ev := es\<rparr>)"
  using assms inv_slot [OF assms(1), of i] by (simp add: ready_def socket_inv_def events_ok_def)

lemma event_alloc: "event_done soi h i ss t ss' \<Longrightarrow> ss_alloc_id ss' = ss_alloc_id ss"
  by (simp add: event_done_def only_def)

lemma socket_events_inv:
  assumes "socket_inv soi h ss" "ss_ev ss = e # es" "ev_s e = Some i"
  shows "\<exists>t ss'. socket_events i e (ss\<lparr>ss_ev := es\<rparr>) = Inr (t, ss') \<and> socket_inv soi h ss' \<and> ss_alloc_id ss' = ss_alloc_id ss"
proof -
  let ?ss = "ss\<lparr>ss_ev := es\<rparr>"
  note r = inv_ready [OF assms]
  have ok: "socket_inv soi h ss'" "ss_alloc_id ss' = ss_alloc_id ss" if "event_done soi h i ?ss t ss'" for t ss'
    using event_inv(1) [OF assms that] event_alloc [OF that] by simp_all
  have again: "socket_inv soi h (ss'\<lparr>ss_ev := e' # ss_ev ss'\<rparr>)" if "event_done soi h i ?ss t ss'" "t \<notin> {Some SOCKET_CLOSE, Some SOCKET_ERR}" "ev_s e' = Some i" for t ss' e'
    using event_inv(2) [OF assms that(1) _ that(3)] that by (auto simp: event_done_def)
  note def = socket_events_def [of i e ?ss]
  consider "ev_read e" | "\<not> ev_read e" "ev_write e" | "\<not> ev_read e" "\<not> ev_write e" "ev_error e" | "\<not> ev_read e" "\<not> ev_write e" "\<not> ev_error e" "ev_eof e" | "\<not> ev_read e" "\<not> ev_write e" "\<not> ev_error e" "\<not> ev_eof e"
    by blast
  then show ?thesis
  proof cases
    case 1
    let ?tcp = "sk_protocol (ss_slot ?ss i) = PROTOCOL_TCP"
    obtain t ss1 where f: "(if ?tcp then forward_message_tcp i ?ss else forward_message_udp i ?ss) = Inr (t, ss1)" "event_done soi h i ?ss t ss1"
      using forward_tcp_done [OF r] forward_udp_done [OF r] by (cases ?tcp) auto
    have e: "socket_events i e ?ss = (if \<not> ?tcp \<and> t = Some SOCKET_UDP then Inr (t, ss1\<lparr>ss_ev := e # ss_ev ss1\<rparr>)
          else if ev_write e \<and> t \<noteq> Some SOCKET_CLOSE \<and> t \<noteq> Some SOCKET_ERR then Inr (t, ss1\<lparr>ss_ev := e\<lparr>ev_read := False\<rparr> # ss_ev ss1\<rparr>)
          else Inr (t, ss1))" unfolding def f(1) by (simp add: 1)
    show ?thesis
    proof (cases "\<not> ?tcp \<and> t = Some SOCKET_UDP")
      case True
      with again [OF f(2) _ assms(3)] ok(2) [OF f(2)] e show ?thesis by simp
    next
      case False
      with again [OF f(2), of "e\<lparr>ev_read := False\<rparr>"] ok [OF f(2)] assms(3) show ?thesis unfolding e by auto
    qed
  next
    case 2
    with send_done [OF r] ok def show ?thesis by fastforce
  next
    case 3
    with close_error_done [OF r] ok def show ?thesis by fastforce
  next
    case 4
    obtain ss2 where "force_close i ?ss = Inr ss2" "event_done soi h i ?ss (Some SOCKET_CLOSE) ss2" by (rule event_closed [OF r only_refl refl])
    with 4 ok def show ?thesis by simp
  next
    case 5
    have "event_done soi h i ?ss None ?ss" by (rule ready_same [OF r]) simp_all
    with 5 ok def show ?thesis by simp
  qed
qed

section \<open>A new id\<close>

definition reserved_slot :: "i32 \<Rightarrow> socket \<Rightarrow> socket" where
  "reserved_slot sid s = s\<lparr>sk_type := SOCKET_TYPE_RESERVE, sk_id := sid, sk_protocol := PROTOCOL_UNKNOWN, sk_udpconnecting := 0, sk_fd := -1\<rparr>"

lemma small_positive: "uint (x :: i32) < 2 ^ 31 \<Longrightarrow> 0 \<le> sint x"
proof -
  assume "uint x < 2 ^ 31"
  moreover have "0 \<le> uint x" by simp
  ultimately have "signed_take_bit 31 (uint x) = uint x" by (intro signed_take_bit_int_eq_self) linarith+
  then show ?thesis by (simp add: sint_uint)
qed

lemma reserve_loop_spec:
  assumes "reserve_loop n ss = (r, ss')" "ss_alloc_id ss = a"
  shows "case r of
     None \<Rightarrow> \<exists>sid. ss' = ss\<lparr>ss_alloc_id := sid\<rparr> \<and> (sid = a \<or> sk_type (ss_slot ss (HASH_ID sid)) \<noteq> SOCKET_TYPE_INVALID)
   | Some sid \<Rightarrow> sk_type (ss_slot ss (HASH_ID sid)) = SOCKET_TYPE_INVALID \<and> 0 \<le> sint sid \<and>
       ss' = upd_sock (HASH_ID sid) (reserved_slot sid) (ss\<lparr>ss_alloc_id := sid\<rparr>)"
  using assms
proof (induction n arbitrary: ss a)
  case 0
  then show ?case by (auto intro: exI [of _ "ss_alloc_id ss"])
next
  case (Suc n)
  let ?raw = "ss_alloc_id ss + 1"
  let ?sid = "if sint ?raw < 0 then ?raw AND 0x7fffffff else ?raw"
  let ?ss1 = "ss\<lparr>ss_alloc_id := ?sid\<rparr>"
  have pos: "0 \<le> sint ?sid"
  proof (cases "sint ?raw < 0")
    case True
    have e: "?sid = take_bit 31 ?raw" using True by (simp add: take_bit_eq_mask mask_eq_exp_minus_1)
    have "uint ?sid < 2 ^ 31" unfolding e unsigned_take_bit_eq by (rule take_bit_int_less_exp)
    then show ?thesis by (rule small_positive)
  qed simp
  show ?case
  proof (cases "sk_type (ss_slot ss (HASH_ID ?sid)) = SOCKET_TYPE_INVALID")
    case True
    then have "reserve_loop (Suc n) ss = (Some ?sid, upd_sock (HASH_ID ?sid) (reserved_slot ?sid) ?ss1)"
      by (simp add: Let_def reserved_slot_def [abs_def])
    with Suc.prems True pos show ?thesis by auto
  next
    case False
    then have e: "reserve_loop (Suc n) ss = reserve_loop n ?ss1" by (simp only: reserve_loop.simps Let_def if_False)
    with Suc.prems(1) have l: "reserve_loop n ?ss1 = (r, ss')" by simp
    from Suc.IH [OF l refl] False show ?thesis by (auto split: option.splits)
  qed
qed

lemma next_id_bits: "(if sint (x :: i32) < 0 then x AND 0x7fffffff else x) = take_bit 31 x"
proof (cases "sint x < 0")
  case True
  then show ?thesis by (simp add: take_bit_eq_mask mask_eq_exp_minus_1)
next
  case False
  have "take_bit 31 x = x"
  proof (rule bit_word_eqI)
    fix n assume "n < LENGTH(32)"
    then have "n < 31 \<or> n = 31" by auto
    moreover have "\<not> bit x 31" using False unfolding bit_last_iff [where 'a=32, simplified] by simp
    ultimately show "bit (take_bit 31 x) n = bit x n" by (auto simp: bit_take_bit_iff)
  qed
  with False show ?thesis by simp
qed

lemma next_uint: "uint (take_bit 31 (x + 1 :: i32)) = (uint x + 1) mod 2 ^ 31"
proof -
  have "uint (take_bit 31 (x + 1)) = take_bit 31 (uint (x + 1))" by (rule unsigned_take_bit_eq)
  also have "\<dots> = (uint x + 1) mod 2 ^ 32 mod 2 ^ 31" by (simp add: take_bit_eq_mod uint_word_ariths)
  also have "\<dots> = (uint x + 1) mod 2 ^ 31" by (rule mod_mod_cancel) simp
  finally show ?thesis .
qed

lemma reserve_loop_moves:
  assumes "reserve_loop n ss = (Some sid, ss')"
  shows "\<exists>k. 1 \<le> k \<and> k \<le> n \<and> uint sid = (uint (ss_alloc_id ss) + int k) mod 2 ^ 31"
  using assms
proof (induction n arbitrary: ss)
  case (Suc n)
  let ?new = "take_bit 31 (ss_alloc_id ss + 1)"
  let ?ss1 = "ss\<lparr>ss_alloc_id := ?new\<rparr>"
  have u: "uint ?new = (uint (ss_alloc_id ss) + 1) mod 2 ^ 31" by (rule next_uint)
  show ?case
  proof (cases "sk_type (ss_slot ss (HASH_ID ?new)) = SOCKET_TYPE_INVALID")
    case True
    with Suc.prems have "sid = ?new" by (simp add: next_id_bits Let_def)
    with u show ?thesis by (intro exI [of _ 1]) simp
  next
    case False
    then have "reserve_loop (Suc n) ss = reserve_loop n ?ss1" by (simp add: next_id_bits Let_def)
    with Suc.prems have "reserve_loop n ?ss1 = (Some sid, ss')" by simp
    from Suc.IH [OF this] obtain k where k: "1 \<le> k" "k \<le> n" "uint sid = (uint ?new + int k) mod 2 ^ 31" by auto
    then have "uint sid = (uint (ss_alloc_id ss) + int (Suc k)) mod 2 ^ 31" unfolding u by (simp add: mod_simps ac_simps)
    with k(1,2) show ?thesis by (intro exI [of _ "Suc k"]) simp
  qed
qed simp

lemma reserve_new:
  assumes "reserve_id ss = (Some sid, ss')"
  shows "sid \<noteq> ss_alloc_id ss"
proof
  assume a: "sid = ss_alloc_id ss"
  from reserve_loop_moves [OF assms [unfolded reserve_id_def]] obtain k where
    k: "1 \<le> k" "k \<le> MAX_SOCKET" "uint sid = (uint sid + int k) mod 2 ^ 31" unfolding a by blast
  have "uint sid mod 2 ^ 31 = (uint sid + int k) mod 2 ^ 31" using k(3) by (metis mod_mod_trivial)
  then have "(2 ^ 31 :: int) dvd int k" by (simp add: mod_eq_dvd_iff)
  moreover have "0 < int k" "int k < 2 ^ 31" using k(1,2) by (simp_all add: MAX_SOCKET_def MAX_SOCKET_P_def)
  ultimately show False using zdvd_imp_le by fastforce
qed

lemma reserve_id_spec:
  assumes "reserve_id ss = (r, ss')"
  obtains sid where "r = None" "ss' = ss\<lparr>ss_alloc_id := sid\<rparr>" "sid = ss_alloc_id ss \<or> sk_type (ss_slot ss (HASH_ID sid)) \<noteq> SOCKET_TYPE_INVALID"
  | sid where "r = Some sid" "sk_type (ss_slot ss (HASH_ID sid)) = SOCKET_TYPE_INVALID" "0 \<le> sint sid" "sid \<noteq> ss_alloc_id ss"
      "ss' = upd_sock (HASH_ID sid) (reserved_slot sid) (ss\<lparr>ss_alloc_id := sid\<rparr>)"
  using reserve_loop_spec [OF assms [unfolded reserve_id_def] refl] reserve_new [of ss _ ss'] assms by (auto split: option.splits)

text \<open>The history after a step: nothing has been sent on an id that it made.\<close>

definition named :: "socket_server \<Rightarrow> socket_server \<Rightarrow> i32 \<Rightarrow> bool" where
  "named ss ss' sid \<longleftrightarrow> sid = ss_alloc_id ss' \<and> sid \<noteq> ss_alloc_id ss \<and> sk_type (ss_slot ss (HASH_ID sid)) = SOCKET_TYPE_INVALID"

definition renewed :: "socket_server \<Rightarrow> socket_server \<Rightarrow> history \<Rightarrow> history" where
  "renewed ss ss' h = (\<lambda>sid. if named ss ss' sid then Some [] else h sid)"

definition unused :: "request list \<Rightarrow> i32 \<Rightarrow> bool" where
  "unused pipe sid \<longleftrightarrow> (\<forall>r \<in> set pipe. req_sid r \<noteq> Some sid)"

definition ids_new :: "socket_server \<Rightarrow> socket_server \<Rightarrow> bool" where
  "ids_new ss ss' \<longleftrightarrow> (\<forall>sid. named ss ss' sid \<longrightarrow> unused (ss_pipe ss) sid)"

lemma renewed_same: "ss_alloc_id ss' = ss_alloc_id ss \<Longrightarrow> renewed ss ss' h = h"
  by (auto simp: renewed_def named_def)

lemma unused_silent: "unused pipe sid \<Longrightarrow> sends pipe sid = 0 \<and> clean pipe sid"
proof (induction pipe)
  case (Cons r pipe)
  then have "req_sid r \<noteq> Some sid" by (simp add: unused_def)
  from other_sid [OF this] Cons show ?case by (simp add: unused_def)
qed simp

lemma slot_ok_history:
  assumes "slot_ok soi h pipe i s" "HASH_ID sid \<noteq> i"
  shows "slot_ok soi (h(sid := x)) pipe i s"
proof (cases "sk_type s \<noteq> SOCKET_TYPE_INVALID \<or> sk_protocol s = PROTOCOL_TCP")
  case True
  with assms have "sk_id s \<noteq> sid" by (auto simp: slot_ok_def)
  with assms(1) show ?thesis by (simp add: slot_ok_def stream_ok_def)
next
  case False
  with assms(1) show ?thesis by (simp add: slot_ok_def)
qed

lemma reserved_opening:
  assumes "local_ok s" "sk_type s = SOCKET_TYPE_INVALID" "unused pipe sid" "h sid = Some []"
  shows "opening_slot h pipe sid (reserved_slot sid s)"
  using assms unused_silent [OF assms(3)] by (auto simp: opening_slot_def local_ok_def reserved_slot_def)

lemma reserved_local:
  assumes "local_ok s" "sk_type s = SOCKET_TYPE_INVALID"
  shows "local_ok (reserved_slot sid s)" "sk_type (reserved_slot sid s) = SOCKET_TYPE_RESERVE"
  using assms by (auto simp: local_ok_def reserved_slot_def)

section \<open>A connection that arrives\<close>

lemma inv_fields:
  assumes "socket_inv soi h ss" "ss_slot ss' = ss_slot ss" "ss_pipe ss' = ss_pipe ss" "ss_ev ss' = ss_ev ss" "ss_soi ss' = ss_soi ss"
    "set (ss_answers ss') \<subseteq> set (ss_answers ss)"
  shows "socket_inv soi h ss'"
  using assms by (auto simp: socket_inv_def openings_ok_def events_ok_def reads_ok_def)

lemma inv_skip: "socket_inv soi h ss \<Longrightarrow> ss_ev ss = e # es \<Longrightarrow> socket_inv soi h (ss\<lparr>ss_ev := es\<rparr>)"
  by (cases "ev_s e") (auto simp: socket_inv_def openings_ok_def events_ok_def)

lemma inv_kernel: "socket_inv soi h ss \<Longrightarrow> kernel ss = (a, ss1) \<Longrightarrow> socket_inv soi h ss1"
  by (rule inv_fields [of soi h ss ss1]) (auto simp: kernel_def split: list.splits)

definition quiet :: "socket_server \<Rightarrow> socket_server \<Rightarrow> bool" where
  "quiet ss ss' \<longleftrightarrow> ss_pipe ss' = ss_pipe ss \<and> ss_ev ss' = ss_ev ss \<and> ss_soi ss' = ss_soi ss \<and> ss_alloc_id ss' = ss_alloc_id ss \<and>
     set (ss_answers ss') \<subseteq> set (ss_answers ss)"

lemma only_quiet: "only i ss ss' \<Longrightarrow> quiet ss ss'"
  by (simp add: only_def quiet_def)

lemma quiet_ops: "quiet ss ss' \<Longrightarrow> quiet ss (upd_sock i f ss')" "quiet ss ss' \<Longrightarrow> quiet ss (set_type i t ss')" "quiet ss ss' \<Longrightarrow> quiet ss (report x y z d ss')"
  "quiet ss ss' \<Longrightarrow> quiet ss (stat_read i n ss')" "quiet ss ss' \<Longrightarrow> quiet ss (stat_write i n ss')" "quiet ss ss' \<Longrightarrow> quiet ss (name_result d ss')"
  "quiet ss ss' \<Longrightarrow> quiet ss (free_ptr p ss')" "quiet ss ss' \<Longrightarrow> quiet ss (sp_write i b ss')"
proof -
  assume q: "quiet ss ss'"
  then show "quiet ss (upd_sock i f ss')" "quiet ss (set_type i t ss')" "quiet ss (report x y z d ss')" "quiet ss (stat_read i n ss')" "quiet ss (stat_write i n ss')"
    "quiet ss (free_ptr p ss')" "quiet ss (sp_write i b ss')"
    by (simp_all add: quiet_def upd_sock_def set_type_def report_def stat_read_def stat_write_def free_ptr_def sp_write_def)
  from q show "quiet ss (name_result d ss')"
    by (auto simp: quiet_def name_result_def set_data_def kernel_def split: list.splits kernel_answer.splits)
qed

lemma inv_new_slot:
  assumes "socket_inv soi h ss" "sk_type (ss_slot ss (HASH_ID sid)) = SOCKET_TYPE_INVALID" "ss_slot ss' = (ss_slot ss)(HASH_ID sid := s')"
    "slot_ok soi (h(sid := Some [])) (ss_pipe ss) (HASH_ID sid) s'" "ss_pipe ss' = ss_pipe ss" "ss_ev ss' = ss_ev ss" "ss_soi ss' = ss_soi ss"
    "set (ss_answers ss') \<subseteq> set (ss_answers ss)"
  shows "socket_inv soi (h(sid := Some [])) ss'"
proof -
  let ?j = "HASH_ID sid"
  have "slot_ok soi (h(sid := Some [])) (ss_pipe ss) i (ss_slot ss' i)" for i
    using assms(3,4) slot_ok_history [OF inv_slot [OF assms(1), of i]] by (cases "i = ?j") auto
  moreover have "openings_ok ss' (ss_pipe ss)" unfolding openings_ok_def
  proof (intro ballI allI impI)
    fix r x assume "r \<in> set (ss_pipe ss)" "opens r" "req_sid r = Some x"
    with assms(1) have "sk_type (ss_slot ss (HASH_ID x)) = SOCKET_TYPE_RESERVE" "sk_id (ss_slot ss (HASH_ID x)) = x" by (auto simp: socket_inv_def openings_ok_def)
    moreover from this assms(2) have "HASH_ID x \<noteq> ?j" by auto
    ultimately show "sk_type (ss_slot ss' (HASH_ID x)) = SOCKET_TYPE_RESERVE \<and> sk_id (ss_slot ss' (HASH_ID x)) = x" by (simp add: assms(3))
  qed
  moreover have "events_ok ss' (ss_ev ss)" unfolding events_ok_def
  proof (intro conjI ballI)
    show "distinct (ev_slots (ss_ev ss))" using assms(1) by (simp add: socket_inv_def events_ok_def)
    fix i assume "i \<in> set (ev_slots (ss_ev ss))"
    then have p: "sk_polled (ss_slot ss i)" using assms(1) by (simp add: socket_inv_def events_ok_def)
    with slot_polled [OF inv_slot [OF assms(1)] this] assms(2) have "i \<noteq> ?j" by auto
    with p show "sk_polled (ss_slot ss' i)" by (simp add: assms(3))
  qed
  moreover have "reads_ok (ss_answers ss')" using assms(1,8) by (auto simp: socket_inv_def reads_ok_def)
  ultimately show ?thesis using assms(1,5-7) by (simp add: socket_inv_def)
qed

lemma accept_inv:
  assumes "socket_inv soi h ss" "ss_ev ss = e # es" "ev_s e = Some i"
  shows "\<exists>ok ss'. report_accept i (ss\<lparr>ss_ev := es\<rparr>) = Inr (ok, ss') \<and> (ids_new ss ss' \<longrightarrow> socket_inv soi (renewed ss ss' h) ss')"
proof -
  let ?ss = "ss\<lparr>ss_ev := es\<rparr>"
  let ?s = "ss_slot ss i"
  obtain a ss1 where k: "kernel ?ss = (a, ss1)" by fastforce
  note f = kernel_same [OF k]
  have al: "ss_alloc_id ss1 = ss_alloc_id ss" using f(1) [of i] by (simp add: only_def)
  have i1: "socket_inv soi h ss1" by (rule inv_kernel [OF inv_skip [OF assms(1,2)] k])
  have same: "renewed ss ss1 h = h" "renewed ss (report x y z d ss1) h = h" for x y z d using al by (simp_all add: renewed_same report_def)
  have inv_report: "socket_inv soi h (report x y z d ss1)" for x y z d by (rule inv_fields [OF i1]) (simp_all add: report_def)
  show ?thesis
  proof (cases "\<exists>fd. a = Done fd")
    case False
    have "\<exists>ok ss'. report_accept i ?ss = Inr (ok, ss') \<and> (ss' = ss1 \<or> (\<exists>x y z d. ss' = report x y z d ss1))"
    proof (cases a)
      case (Fail err)
      then show ?thesis by (cases err) (auto simp: report_accept_def Let_def k)
    qed (use False in \<open>auto simp: report_accept_def Let_def k\<close>)
    then obtain ok ss' where r: "report_accept i ?ss = Inr (ok, ss')" "ss' = ss1 \<or> (\<exists>x y z d. ss' = report x y z d ss1)" by blast
    from r(2) have "socket_inv soi (renewed ss ss' h) ss'" using same i1 inv_report by auto
    with r(1) show ?thesis by blast
  next
    case True
    then obtain fd where a: "a = Done fd" by blast
    obtain r ss2 where res: "reserve_id ss1 = (r, ss2)" by fastforce
    then show ?thesis
    proof (cases rule: reserve_id_spec)
      case (1 sid)
      let ?ss3 = "sys_close (int fd) ss2"
      have "report_accept i ?ss = Inr (0, ?ss3)" using 1(1) res by (simp add: report_accept_def Let_def k a)
      moreover have "renewed ss ?ss3 h = h" using 1(2,3) f(2) al by (auto simp: renewed_def named_def sys_close_def)
      moreover have "socket_inv soi h ?ss3" by (rule inv_fields [OF i1]) (simp_all add: 1(2) sys_close_def)
      ultimately show ?thesis by simp
    next
      case (2 sid)
      let ?j = "HASH_ID sid"
      have lj: "local_ok (ss_slot ss1 ?j)" using inv_slot [OF i1, of ?j] by (simp add: slot_ok_def)
      have pol: "sk_polled ?s" using assms by (simp add: socket_inv_def events_ok_def)
      have ij: "i \<noteq> ?j" using slot_polled [OF inv_slot [OF assms(1)] pol] 2(2) f(2) by auto
      have s2: "ss_slot ss2 = (ss_slot ss1)(?j := reserved_slot sid (ss_slot ss1 ?j))" using 2(5) by simp
      have l2: "local_ok (ss_slot ss2 ?j)" "sk_type (ss_slot ss2 ?j) = SOCKET_TYPE_RESERVE" using reserved_local [OF lj 2(2), of sid] s2 by simp_all
      obtain ss3 where n: "new_fd sid (int fd) PROTOCOL_TCP (sk_opaque ?s) False ss2 = Inr (Some ?j, ss3)" "only ?j ss2 ss3"
        "opened_slot sid (ss_slot ss3 ?j)" "\<not> sk_polled (ss_slot ss3 ?j)"
        by (rule new_fd_total [OF l2, of "int fd" PROTOCOL_TCP "sk_opaque ?s" False]) auto
      let ?ss4 = "name_result NoData (report (sk_id ?s) (sk_opaque ?s) (sint sid) NoData (set_type ?j SOCKET_TYPE_PACCEPT (stat_read i 1 ss3)))"
      have e: "report_accept i ?ss = Inr (1, ?ss4)" using n(1) 2(1) res by (simp add: report_accept_def Let_def k a)
      let ?st = "sk_stat (ss_slot ?ss4 i)"
      let ?ssm = "upd_sock i (\<lambda>s. s\<lparr>sk_size := sk_size ?s, sk_stat := ?st\<rparr>) ss1"
      have "sk_size ?s \<le> 2 ^ 30" using inv_slot [OF assms(1), of i] by (simp add: slot_ok_def local_ok_def)
      with read_slot [OF inv_ready [OF assms] refl, of "sk_size ?s" ?st] have "event_done soi h i ?ss None ?ssm"
        using f(1) f(2) by (simp add: event_done_def)
      from event_inv(1) [OF assms this] have im: "socket_inv soi h ?ssm" .
      have q4: "quiet ss2 ?ss4" using only_quiet [OF n(2)] by (intro quiet_ops)
      have sl: "ss_slot ?ss4 = (ss_slot ?ssm)(?j := ss_slot ?ss4 ?j)"
      proof
        fix x show "ss_slot ?ss4 x = ((ss_slot ?ssm)(?j := ss_slot ?ss4 ?j)) x"
          using n(2) s2 f(2) ij by (cases "x = i") (simp_all add: stat_read_def only_def)
      qed
      have j4: "ss_slot ?ss4 ?j = (ss_slot ss3 ?j)\<lparr>sk_type := SOCKET_TYPE_PACCEPT\<rparr>" using ij by (simp add: stat_read_def)
      have "socket_inv soi (renewed ss ?ss4 h) ?ss4" if "ids_new ss ?ss4"
      proof -
        have nm: "named ss ?ss4 x \<longleftrightarrow> x = sid" for x using q4 2(2,4,5) al f(2) by (auto simp: named_def quiet_def upd_sock_def)
        then have r: "renewed ss ?ss4 h = h(sid := Some [])" by (auto simp: renewed_def)
        have "unused (ss_pipe ss2) sid" using that nm f(5) 2(5) by (simp add: ids_new_def)
        with reserved_opening [OF lj 2(2), of "ss_pipe ss2" sid "h(sid := Some [])"] s2 have "opening_slot (h(sid := Some [])) (ss_pipe ss2) sid (ss_slot ss2 ?j)" by simp
        from opened_into(1) [OF this n(3), of SOCKET_TYPE_PACCEPT] n(4) j4 have "slot_ok soi (h(sid := Some [])) (ss_pipe ss2) ?j (ss_slot ?ss4 ?j)" by simp
        moreover have "ss_pipe ss2 = ss_pipe ?ssm" "ss_ev ?ss4 = ss_ev ?ssm" "ss_soi ?ss4 = ss_soi ?ssm" "set (ss_answers ?ss4) \<subseteq> set (ss_answers ?ssm)"
          "ss_pipe ?ss4 = ss_pipe ?ssm" using q4 2(5) by (simp_all add: quiet_def)
        moreover have "sk_type (ss_slot ?ssm ?j) = SOCKET_TYPE_INVALID" using 2(2) ij by simp
        ultimately show ?thesis unfolding r by (intro inv_new_slot [OF im _ sl]) simp_all
      qed
      with e show ?thesis by blast
    qed
  qed
qed

end
