(* ===== verification/SocketPoll.thy ===== *)
theory SocketPoll
  imports SocketEvents
begin

text \<open>
  A round of \<open>socket_server_poll\<close> keeps the invariant and never fails.
\<close>

section \<open>A round of the socket thread\<close>

definition goes_on :: "socket_object_interface \<Rightarrow> history \<Rightarrow> socket_server \<Rightarrow> socket_server \<Rightarrow> bool" where
  "goes_on soi h ss ss' \<longleftrightarrow> (ids_new ss ss' \<longrightarrow> socket_inv soi (renewed ss ss' h) ss')"

lemma goes_on_same: "socket_inv soi h ss' \<Longrightarrow> ss_alloc_id ss' = ss_alloc_id ss \<Longrightarrow> goes_on soi h ss ss'"
  by (simp add: goes_on_def renewed_same)

lemma handle_event_spec:
  assumes "socket_inv soi h ss" "ss_ev ss = e # es"
  shows "\<exists>t ss'. handle_event e (ss\<lparr>ss_ev := es\<rparr>) = Inr (t, ss') \<and> goes_on soi h ss ss'"
proof (cases "ev_s e")
  case None
  with inv_skip [OF assms] show ?thesis by (simp add: handle_event_def goes_on_same)
next
  case (Some i)
  have p: "sk_polled (ss_slot ss i)" using assms Some by (simp add: socket_inv_def events_ok_def)
  note ty = slot_polled [OF inv_slot [OF assms(1)] p]
  from socket_events_inv [OF assms Some] obtain t ss' where ev: "socket_events i e (ss\<lparr>ss_ev := es\<rparr>) = Inr (t, ss')" "socket_inv soi h ss'"
    "ss_alloc_id ss' = ss_alloc_id ss" by blast
  from accept_inv [OF assms Some] obtain ok ss2 where ac: "report_accept i (ss\<lparr>ss_ev := es\<rparr>) = Inr (ok, ss2)" "goes_on soi h ss ss2"
    by (auto simp: goes_on_def)
  show ?thesis
  proof (cases "sk_type (ss_slot ss i) = SOCKET_TYPE_CONNECTING")
    case True
    then obtain t1 ss1 where c: "report_connect i (ss\<lparr>ss_ev := es\<rparr>) = Inr (t1, ss1)" "event_done soi h i (ss\<lparr>ss_ev := es\<rparr>) t1 ss1"
      using connect_done [OF inv_ready [OF assms Some]] by auto
    from event_inv(1) [OF assms Some c(2)] event_alloc [OF c(2)] have "goes_on soi h ss ss1" by (intro goes_on_same) simp_all
    with c(1) Some True show ?thesis by (simp add: handle_event_def)
  next
    case False
    with ty ev ac Some goes_on_same [OF ev(2,3)] show ?thesis by (auto simp: handle_event_def)
  qed
qed

lemma poll_event_spec:
  assumes "socket_inv soi h ss"
  shows "\<exists>r ss'. poll_event ss = Inr (r, ss') \<and> goes_on soi h ss ss'"
proof (cases "ss_ev ss")
  case Nil
  with assms show ?thesis by (simp add: poll_event_def goes_on_same)
next
  case (Cons e es)
  from handle_event_spec [OF assms this] Cons show ?thesis by (auto simp: poll_event_def)
qed

lemma watched_slots:
  "distinct (ev_slots (watched ss evs)) \<and> (\<forall>i \<in> set (ev_slots (watched ss evs)). sk_polled (ss_slot ss i))"
proof -
  let ?p = "\<lambda>es e. case ev_s e of None \<Rightarrow> True | Some i \<Rightarrow> sk_polled (ss_slot ss i) \<and> length (filter (\<lambda>e'. ev_s e' = Some i) es) = 1"
  have mem: "i \<in> set (ev_slots es) \<longleftrightarrow> (\<exists>e \<in> set es. ev_s e = Some i)" for i es
    by (induction es) (auto split: option.splits)
  have pol: "\<forall>i \<in> set (ev_slots (filter (?p evs) evs)). sk_polled (ss_slot ss i)"
  proof
    fix i assume "i \<in> set (ev_slots (filter (?p evs) evs))"
    with mem obtain e where "e \<in> set (filter (?p evs) evs)" "ev_s e = Some i" by blast
    then show "sk_polled (ss_slot ss i)" by simp
  qed
  have none: "i \<notin> set (ev_slots es)" if "filter (\<lambda>e'. ev_s e' = Some i) es = []" for i es using that by (auto simp: mem filter_empty_conv)
  have "distinct (ev_slots (filter (?p evs) es))" if "\<forall>i. length (filter (\<lambda>e'. ev_s e' = Some i) es) \<le> length (filter (\<lambda>e'. ev_s e' = Some i) evs)" for es
    using that
  proof (induction es)
    case (Cons e es)
    have "length (filter (\<lambda>e'. ev_s e' = Some i) es) \<le> length (filter (\<lambda>e'. ev_s e' = Some i) evs)" for i
      using Cons.prems [rule_format, of i] by (simp split: if_splits)
    then have IH: "distinct (ev_slots (filter (?p evs) es))" using Cons.IH by blast
    show ?case
    proof (cases "ev_s e")
      case (Some i)
      have "filter (\<lambda>e'. ev_s e' = Some i) es = []" if "length (filter (\<lambda>e'. ev_s e' = Some i) evs) = 1"
        using Cons.prems [rule_format, of i] Some that by simp
      then have "i \<notin> set (ev_slots (filter (?p evs) es))" if "?p evs e" using that Some none [of i es] by (auto simp: mem)
      with IH Some show ?thesis by simp
    qed (use IH in simp)
  qed simp
  then have "distinct (ev_slots (filter (?p evs) evs))" by simp
  moreover have "\<exists>m. ev_slots (take n es) = take m (ev_slots es)" for n es
  proof (induction es arbitrary: n)
    case (Cons e es)
    show ?case
    proof (cases n)
      case 0
      then show ?thesis by (intro exI [of _ 0]) simp
    next
      case (Suc k)
      from Cons.IH [of k] obtain m where "ev_slots (take k es) = take m (ev_slots es)" ..
      with Suc show ?thesis by (cases "ev_s e") (auto intro: exI [of _ m] exI [of _ "Suc m"])
    qed
  qed simp
  then obtain m where m: "ev_slots (watched ss evs) = take m (ev_slots (filter (?p evs) evs))" unfolding watched_def by blast
  ultimately show ?thesis using pol in_set_takeD [of _ m "ev_slots (filter (?p evs) evs)"] by (auto simp: m)
qed

lemma sp_wait_spec:
  assumes "socket_inv soi h ss" "ss_ev ss = []" "sp_wait ss = (r, ss')"
  shows "socket_inv soi h ss'" "ss_alloc_id ss' = ss_alloc_id ss"
proof -
  obtain a ss1 where k: "kernel ss = (a, ss1)" by fastforce
  have i1: "socket_inv soi h ss1" by (rule inv_kernel [OF assms(1) k])
  have ctrl: "socket_inv soi h (ss1\<lparr>ss_checkctrl := True\<rparr>)" by (rule inv_fields [OF i1]) simp_all
  have ev: "socket_inv soi h (ss1\<lparr>ss_ev := watched ss1 evs, ss_checkctrl := True\<rparr>)" for evs
    using i1 watched_slots [of ss1 evs] by (simp add: socket_inv_def events_ok_def openings_ok_def)
  have none: "socket_inv soi h (ss1\<lparr>ss_ev := [], ss_checkctrl := True\<rparr>)" using i1 by (simp add: socket_inv_def events_ok_def openings_ok_def)
  have al: "ss_alloc_id ss1 = ss_alloc_id ss" using kernel_same(1) [OF k, of 0] by (simp add: only_def)
  show "socket_inv soi h ss'" using assms i1 ctrl ev none k by (auto simp: sp_wait_def split: if_splits kernel_answer.splits)
  show "ss_alloc_id ss' = ss_alloc_id ss" using assms k al by (auto simp: sp_wait_def split: if_splits kernel_answer.splits)
qed

lemma poll_spec:
  assumes "socket_inv soi h ss"
  shows "\<exists>r ss'. poll_round ss = Inr (r, ss') \<and> goes_on soi h ss ss'"
proof (cases "ss_checkctrl ss \<and> ss_pipe ss \<noteq> []")
  case True
  then obtain q pipe where p: "ss_pipe ss = q # pipe" by (cases "ss_pipe ss") simp_all
  from ctrl_spec [OF assms p] obtain t ss1 where c: "ctrl_cmd q (ss\<lparr>ss_pipe := pipe\<rparr>) = Inr (t, ss1)"
    "socket_inv soi h (case t of None \<Rightarrow> ss1 | Some t \<Rightarrow> clear_closed_event t ss1)" "ss_alloc_id ss1 = ss_alloc_id ss" by blast
  have "ss_alloc_id (case t of None \<Rightarrow> ss1 | Some t \<Rightarrow> clear_closed_event t ss1) = ss_alloc_id ss"
    using c(3) by (auto simp: clear_closed_event_def split: option.split)
  with c True p goes_on_same [OF c(2)] show ?thesis by (simp add: poll_round_def)
next
  case False
  let ?ss1 = "ss\<lparr>ss_checkctrl := False\<rparr>"
  have i1: "socket_inv soi h ?ss1" by (rule inv_fields [OF assms]) simp_all
  have eq: "goes_on soi h ss ss'" if "goes_on soi h ss2 ss'" "ss_alloc_id ss2 = ss_alloc_id ss" "ss_slot ss2 = ss_slot ss" "ss_pipe ss2 = ss_pipe ss" for ss2 ss'
    using that by (simp add: goes_on_def ids_new_def renewed_def named_def)
  show ?thesis
  proof (cases "ss_ev ss = []")
    case ne: False
    from poll_event_spec [OF i1] obtain r ss' where "poll_event ?ss1 = Inr (r, ss')" "goes_on soi h ?ss1 ss'" by blast
    moreover have "poll_round ss = poll_event ?ss1" using False ne by (auto simp: poll_round_def Let_def)
    ultimately show ?thesis using eq [of ?ss1 ss'] by simp
  next
    case ev: True
    obtain r ss2 where w: "sp_wait ?ss1 = (r, ss2)" by fastforce
    have i2: "socket_inv soi h ss2" "ss_alloc_id ss2 = ss_alloc_id ss" using sp_wait_spec [OF i1 _ w] ev by simp_all
    have same: "ss_slot ss2 = ss_slot ss" "ss_pipe ss2 = ss_pipe ss" using w by (auto simp: sp_wait_def kernel_def split: if_splits list.splits kernel_answer.splits)
    from poll_event_spec [OF i2(1)] obtain r' ss' where p: "poll_event ss2 = Inr (r', ss')" "goes_on soi h ss2 ss'" by blast
    have "poll_round ss = (if ss_ev ss2 = [] then Inr (r, ss2) else poll_event ss2)" using False ev w by (auto simp: poll_round_def Let_def)
    with p eq [OF p(2) i2(2) same] goes_on_same [OF i2] show ?thesis by simp
  qed
qed

end
