(* ===== verification/SocketCalls.thy ===== *)
theory SocketCalls
  imports SocketPoll
begin

text \<open>
  The calls of the services keep the invariant, with the history of what each stream has been given.
\<close>

section \<open>A call of a service\<close>

text \<open>What a call leaves of the invariant, but for the slot it is about.\<close>

lemma call_inv:
  assumes "socket_inv soi h ss" "\<And>j. slot_ok soi h' (ss_pipe ss') j (ss_slot ss' j)"
    "\<And>j. sk_type (ss_slot ss' j) = sk_type (ss_slot ss j) \<and> sk_id (ss_slot ss' j) = sk_id (ss_slot ss j) \<and> sk_polled (ss_slot ss' j) = sk_polled (ss_slot ss j)"
    "ss_pipe ss' = ss_pipe ss \<or> (\<exists>r. ss_pipe ss' = ss_pipe ss @ [r] \<and> \<not> opens r)" "ss_ev ss' = ss_ev ss" "ss_soi ss' = ss_soi ss"
    "set (ss_answers ss') \<subseteq> set (ss_answers ss)"
  shows "socket_inv soi h' ss'"
proof -
  have "openings_ok ss' (ss_pipe ss')" using assms(1,3,4) by (auto simp: socket_inv_def openings_ok_def)
  moreover have "ordered (ss_pipe ss')" using assms(1,4) ordered_snoc by (auto simp: socket_inv_def)
  moreover have "reads_ok (ss_answers ss')" using assms(1,7) by (auto simp: socket_inv_def reads_ok_def)
  moreover have "events_ok ss' (ss_ev ss')" using assms(1,3,5) by (simp add: socket_inv_def events_ok_def)
  ultimately show ?thesis using assms(1,2,6) by (simp add: socket_inv_def)
qed

lemma slot_ok_push:
  assumes "slot_ok soi h pipe j s" "\<not> sending (sk_id s) r" "req_bytes soi (sk_id s) r = []" "\<not> disturbing (sk_id s) r"
  shows "slot_ok soi h (pipe @ [r]) j s"
  using assms by (auto simp: slot_ok_def counted_def stream_ok_def)

lemma slot_ok_other:
  assumes "slot_ok soi h pipe j s" "HASH_ID sid \<noteq> j" "req_sid r = Some sid"
  shows "slot_ok soi (h(sid := x)) pipe j s" "slot_ok soi (h(sid := x)) (pipe @ [r]) j s"
proof -
  show a: "slot_ok soi (h(sid := x)) pipe j s" by (rule slot_ok_history [OF assms(1,2)])
  show "slot_ok soi (h(sid := x)) (pipe @ [r]) j s"
  proof (cases "sk_type s \<noteq> SOCKET_TYPE_INVALID \<or> sk_protocol s = PROTOCOL_TCP")
    case True
    with assms have "req_sid r \<noteq> Some (sk_id s)" by (auto simp: slot_ok_def)
    from slot_ok_push [OF a] other_sid [OF this] show ?thesis by blast
  next
    case False
    with a show ?thesis by (simp add: slot_ok_def)
  qed
qed

lemma silent_inv:
  assumes "socket_inv soi h ss" "\<not> opens r" "\<And>sid. \<not> sending sid r \<and> req_bytes soi sid r = [] \<and> \<not> disturbing sid r"
  shows "socket_inv soi h (send_request r ss)"
proof (rule call_inv [OF assms(1)])
  show "slot_ok soi h (ss_pipe (send_request r ss)) j (ss_slot (send_request r ss) j)" for j
    using slot_ok_push [OF inv_slot [OF assms(1), of j]] assms(3) by (simp add: send_request_def)
qed (use assms(2) in \<open>simp_all add: send_request_def\<close>)

lemma exit_call: "socket_inv soi h ss \<Longrightarrow> socket_inv soi h (socket_server_exit ss)"
  unfolding socket_server_exit_def by (rule silent_inv) simp_all

lemma close_call: "socket_inv soi h ss \<Longrightarrow> socket_inv soi h (socket_server_close opaque sid ss)" "socket_inv soi h ss \<Longrightarrow> socket_inv soi h (socket_server_shutdown opaque sid ss)"
  unfolding socket_server_close_def socket_server_shutdown_def by (rule silent_inv; simp)+

lemma start_call: "socket_inv soi h ss \<Longrightarrow> socket_inv soi h (socket_server_start opaque sid ss)"
  unfolding socket_server_start_def by (rule silent_inv) simp_all

lemma nodelay_call: "socket_inv soi h ss \<Longrightarrow> socket_inv soi h (socket_server_nodelay sid ss)"
  unfolding socket_server_nodelay_def by (rule silent_inv) simp_all

lemma updatetime_call: "socket_inv soi h ss \<Longrightarrow> socket_inv soi h (socket_server_updatetime time ss)"
  unfolding socket_server_updatetime_def by (rule inv_fields [of soi h ss]) simp_all

lemma udp_connect_call:
  assumes "socket_inv soi h ss"
  shows "socket_inv soi h (snd (socket_server_udp_connect sid ss))" "ss_alloc_id (snd (socket_server_udp_connect sid ss)) = ss_alloc_id ss"
proof -
  let ?i = "HASH_ID sid"
  let ?ss0 = "upd_sock ?i (\<lambda>s. s\<lparr>sk_udpconnecting := sk_udpconnecting s + 1\<rparr>) ss"
  obtain a ss1 where k: "kernel ?ss0 = (a, ss1)" by fastforce
  have i0: "socket_inv soi h ?ss0"
  proof (rule call_inv [OF assms])
    show "slot_ok soi h (ss_pipe ?ss0) j (ss_slot ?ss0 j)" for j
      using inv_slot [OF assms, of j] slot_ok_cosmetic [OF inv_slot [OF assms, of ?i], where a = "sk_udp_address (ss_slot ss ?i)" and n = "sk_udpconnecting (ss_slot ss ?i) + 1"]
      by (cases "j = ?i") simp_all
  qed simp_all
  have i1: "socket_inv soi h ss1" by (rule inv_kernel [OF i0 k])
  have i2: "socket_inv soi h (send_request (ReqC sid x) ss1)" for x by (rule silent_inv [OF i1]) simp_all
  have al: "ss_alloc_id ss1 = ss_alloc_id ss" using k by (auto simp: kernel_def upd_sock_def split: list.splits)
  show "socket_inv soi h (snd (socket_server_udp_connect sid ss))"
    using assms i1 i2 k by (auto simp: socket_server_udp_connect_def Let_def split: kernel_answer.split)
  show "ss_alloc_id (snd (socket_server_udp_connect sid ss)) = ss_alloc_id ss"
    using al k by (auto simp: socket_server_udp_connect_def Let_def send_request_def split: kernel_answer.split)
qed

section \<open>The calls that make a socket\<close>

lemma open_push:
  assumes "socket_inv soi h ss" "sk_type (ss_slot ss (HASH_ID sid)) = SOCKET_TYPE_INVALID" "unused (ss_pipe ss) sid" "opens r" "req_sid r = Some sid"
    "ss_slot ss' = (ss_slot ss)(HASH_ID sid := reserved_slot sid (ss_slot ss (HASH_ID sid)))" "ss_pipe ss' = ss_pipe ss @ [r]" "ss_ev ss' = ss_ev ss"
    "ss_soi ss' = ss_soi ss" "set (ss_answers ss') \<subseteq> set (ss_answers ss)"
  shows "socket_inv soi (h(sid := Some [])) ss'"
proof -
  let ?j = "HASH_ID sid"
  note loc = inv_slot [OF assms(1), of ?j, unfolded slot_ok_def, THEN conjunct1]
  have op: "opening_slot (h(sid := Some [])) (ss_pipe ss) sid (reserved_slot sid (ss_slot ss ?j))"
    by (rule reserved_opening [OF loc assms(2,3)]) simp
  have "slot_ok soi (h(sid := Some [])) (ss_pipe ss') i (ss_slot ss' i)" for i
  proof (cases "i = ?j")
    case True
    have "\<not> sending sid r" "\<not> disturbing sid r" using silent [OF assms(4)] by blast+
    with op assms(4,5) show ?thesis unfolding True assms(6,7)
      by (auto simp: slot_ok_def opening_slot_def reserved_slot_def local_ok_def)
  next
    case False
    with slot_ok_other(2) [OF inv_slot [OF assms(1), of i] _ assms(5)] show ?thesis by (simp add: assms(6,7))
  qed
  moreover have "openings_ok ss' (ss_pipe ss')" unfolding openings_ok_def
  proof (intro ballI allI impI)
    fix q x assume q: "q \<in> set (ss_pipe ss')" "opens q" "req_sid q = Some x"
    show "sk_type (ss_slot ss' (HASH_ID x)) = SOCKET_TYPE_RESERVE \<and> sk_id (ss_slot ss' (HASH_ID x)) = x"
    proof (cases "q = r")
      case True
      with q(3) assms(5) show ?thesis by (simp add: assms(6) reserved_slot_def)
    next
      case False
      with q assms(7) have "q \<in> set (ss_pipe ss)" by simp
      with q assms(1) have res: "sk_type (ss_slot ss (HASH_ID x)) = SOCKET_TYPE_RESERVE" "sk_id (ss_slot ss (HASH_ID x)) = x"
        by (auto simp: socket_inv_def openings_ok_def)
      with assms(2) have "HASH_ID x \<noteq> ?j" by auto
      with res show ?thesis by (simp add: assms(6))
    qed
  qed
  moreover have "events_ok ss' (ss_ev ss')" unfolding events_ok_def
  proof (intro conjI ballI)
    show "distinct (ev_slots (ss_ev ss'))" using assms(1,8) by (simp add: socket_inv_def events_ok_def)
    fix i assume "i \<in> set (ev_slots (ss_ev ss'))"
    then have p: "sk_polled (ss_slot ss i)" using assms(1,8) by (simp add: socket_inv_def events_ok_def)
    with slot_polled [OF inv_slot [OF assms(1)] this] assms(2) have "i \<noteq> ?j" by auto
    with p show "sk_polled (ss_slot ss' i)" by (simp add: assms(6))
  qed
  moreover have "ordered (ss_pipe ss')" unfolding assms(7)
    using assms(1,3,5) by (intro ordered_snoc) (auto simp: socket_inv_def unused_def)
  moreover have "reads_ok (ss_answers ss')" using assms(1,10) by (auto simp: socket_inv_def reads_ok_def)
  ultimately show ?thesis using assms(1,9) by (simp add: socket_inv_def)
qed

text \<open>An id is taken and a request that opens it is sent.\<close>

lemma reserve_call:
  assumes "socket_inv soi h ss" "reserve_id ss = (r, ss1)" "ss' = (case r of None \<Rightarrow> if b then sys_close fd ss1 else ss1 | Some sid \<Rightarrow> send_request (q sid) ss1)"
    "\<And>sid. opens (q sid) \<and> req_sid (q sid) = Some sid" "ids_new ss ss'"
  shows "socket_inv soi (renewed ss ss' h) ss'"
  using assms(2)
proof (cases rule: reserve_id_spec)
  case (1 sid)
  have "ss' = ss1 \<or> ss' = sys_close fd ss1" using assms(3) 1(1) by auto
  then have s: "ss_slot ss' = ss_slot ss" "ss_pipe ss' = ss_pipe ss" "ss_ev ss' = ss_ev ss" "ss_soi ss' = ss_soi ss" "ss_answers ss' = ss_answers ss" "ss_alloc_id ss' = sid"
    using 1(2) by (auto simp: sys_close_def)
  have "renewed ss ss' h = h" using 1(3) s(6) by (auto simp: renewed_def named_def)
  moreover have "socket_inv soi h ss'" by (rule inv_fields [OF assms(1) s(1-4)]) (simp add: s(5))
  ultimately show ?thesis by simp
next
  case (2 sid)
  have s': "ss' = send_request (q sid) ss1" using assms(3) 2(1) by simp
  have nm: "named ss ss' x \<longleftrightarrow> x = sid" for x using 2(2,4,5) s' by (auto simp: named_def send_request_def upd_sock_def)
  then have r: "renewed ss ss' h = h(sid := Some [])" by (auto simp: renewed_def)
  have u: "unused (ss_pipe ss) sid" using assms(5) nm by (simp add: ids_new_def)
  show ?thesis unfolding r
    by (rule open_push [OF assms(1) 2(2) u, of "q sid"]) (use assms(4) 2(5) s' in \<open>simp_all add: send_request_def\<close>)
qed

lemma kernel_ids: "kernel ss = (a, ss1) \<Longrightarrow> named ss ss' = named ss1 ss' \<and> ids_new ss ss' = ids_new ss1 ss' \<and> renewed ss ss' h = renewed ss1 ss' h"
  by (auto simp: kernel_def named_def ids_new_def renewed_def fun_eq_iff split: list.splits)

lemma connect_call:
  assumes "socket_inv soi h ss" "socket_server_connect opaque addr port ss = (r, ss')" "ids_new ss ss'"
  shows "socket_inv soi (renewed ss ss' h) ss'"
proof (cases "length addr + 24 \<ge> 256")
  case True
  with assms(1,2) show ?thesis by (auto simp: socket_server_connect_def open_request_def renewed_same)
next
  case False
  obtain x ss1 where res: "reserve_id ss = (x, ss1)" by fastforce
  have s': "ss' = (case x of None \<Rightarrow> if False then sys_close 0 ss1 else ss1 | Some sid \<Rightarrow> send_request (ReqO sid port opaque addr) ss1)"
    using assms(2) res False by (auto simp: socket_server_connect_def open_request_def split: option.splits)
  show ?thesis by (rule reserve_call [OF assms(1) res s' _ assms(3)]) simp
qed

lemma bind_call:
  assumes "socket_inv soi h ss" "socket_server_bind opaque fd ss = (r, ss')" "ids_new ss ss'"
  shows "socket_inv soi (renewed ss ss' h) ss'"
proof -
  obtain x ss1 where res: "reserve_id ss = (x, ss1)" by fastforce
  have s': "ss' = (case x of None \<Rightarrow> if False then sys_close 0 ss1 else ss1 | Some sid \<Rightarrow> send_request (ReqB sid fd opaque) ss1)"
    using assms(2) res by (auto simp: socket_server_bind_def split: option.splits)
  show ?thesis by (rule reserve_call [OF assms(1) res s' _ assms(3)]) simp
qed

text \<open>A descriptor comes first.\<close>

lemma descriptor_call:
  assumes "socket_inv soi h ss" "ids_new ss ss'" "\<And>sid fd. opens (q fd sid) \<and> req_sid (q fd sid) = Some sid"
    "(case kernel ss of (Done fd, ss1) \<Rightarrow> (case reserve_id ss1 of (None, ss2) \<Rightarrow> (None, sys_close (int fd) ss2)
       | (Some sid, ss2) \<Rightarrow> (Some sid, send_request (q fd sid) ss2)) | (_, ss1) \<Rightarrow> (None, ss1)) = (r, ss')"
  shows "socket_inv soi (renewed ss ss' h) ss'"
proof -
  obtain a ss1 where k: "kernel ss = (a, ss1)" by fastforce
  have i1: "socket_inv soi h ss1" by (rule inv_kernel [OF assms(1) k])
  note ids = kernel_ids [OF k]
  show ?thesis
  proof (cases "\<exists>fd. a = Done fd")
    case False
    then have "ss' = ss1" using assms(4) by (cases a) (simp_all add: k)
    with i1 ids show ?thesis by (simp add: renewed_same)
  next
    case True
    then obtain fd where a: "a = Done fd" by blast
    obtain x ss2 where res: "reserve_id ss1 = (x, ss2)" by fastforce
    have s': "ss' = (case x of None \<Rightarrow> if True then sys_close (int fd) ss2 else ss2 | Some sid \<Rightarrow> send_request (q fd sid) ss2)"
      using assms(4) k a res by (auto split: option.splits)
    from reserve_call [OF i1 res s' assms(3)] assms(2) ids show ?thesis by simp
  qed
qed

lemma listen_call:
  assumes "socket_inv soi h ss" "socket_server_listen opaque ss = (r, ss')" "ids_new ss ss'"
  shows "socket_inv soi (renewed ss ss' h) ss'"
  by (rule descriptor_call [OF assms(1,3) _ assms(2) [unfolded socket_server_listen_def]]) simp

lemma udp_call:
  assumes "socket_inv soi h ss" "socket_server_udp opaque inet6 ss = (r, ss')" "ids_new ss ss'"
  shows "socket_inv soi (renewed ss ss' h) ss'"
  by (rule descriptor_call [OF assms(1,3) _ assms(2) [unfolded socket_server_udp_def]]) simp

section \<open>The calls that send\<close>

definition as_before :: "socket_server \<Rightarrow> socket_server \<Rightarrow> bool" where
  "as_before ss ss' \<longleftrightarrow> ss_slot ss' = ss_slot ss \<and> quiet ss ss'"

lemma as_before_inv: "as_before ss ss' \<Longrightarrow> socket_inv soi h ss \<Longrightarrow> socket_inv soi h ss'"
  by (rule inv_fields [of soi h ss ss']) (simp_all add: as_before_def quiet_def)

lemma free_before: "as_before ss (free_buffer buf ss)"
  by (cases "sb_type buf") (simp_all add: as_before_def quiet_def free_buffer_def free_ptr_def)

lemma clone_before:
  assumes "clone_buffer buf ss = ((b, sz), ss1)"
  shows "as_before ss ss1" "(case sz of None \<Rightarrow> soi_bytes (ss_soi ss) b | Some bs \<Rightarrow> bs) = send_object_init_from_sendbuffer ss buf"
  using assms by (cases "sb_type buf"; auto simp: clone_buffer_def as_before_def quiet_def send_object_init_from_sendbuffer_def)+

text \<open>The history after a send: what is sent to a socket that does not send is not in it.\<close>

definition handed :: "i32 \<Rightarrow> byte list \<Rightarrow> socket_server \<Rightarrow> history \<Rightarrow> history" where
  "handed sid bs ss h =
     (let s = ss_slot ss (HASH_ID sid)
      in if sk_id s \<noteq> sid \<or> sk_type s = SOCKET_TYPE_INVALID then h
         else h(sid := if sk_type s \<in> {SOCKET_TYPE_PACCEPT, SOCKET_TYPE_PLISTEN, SOCKET_TYPE_LISTEN} then None else map_option (\<lambda>x. x @ bs) (h sid)))"

lemma counted_push:
  assumes "counted pipe s" "sk_sending s AND 0xffff \<noteq> 0xffff" "sending (sk_id s) r"
  shows "counted (pipe @ [r]) (s\<lparr>sk_sending := sk_sending s + 1\<rparr>)"
proof -
  let ?x = "sk_sending s" and ?n = "sends pipe (sk_id s)"
  have c: "unat ?x = unat (ID_TAG16 (sk_id s)) * 65536 + ?n" "?n < 65536" using assms(1) by (simp_all add: counted_def)
  have l: "unat (?x AND 0xffff) = ?n" by (rule low16 [OF c])
  have n: "?n \<noteq> 65535"
  proof
    assume "?n = 65535"
    with l have "unat (?x AND 0xffff) = unat (0xffff :: u32)" by simp
    then have "?x AND 0xffff = 0xffff" by (simp only: word_unat_eq_iff)
    with assms(2) show False by simp
  qed
  have "unat (ID_TAG16 (sk_id s)) < 65536" by (rule tag_small)
  then have "unat ?x + 1 < 2 ^ 32" using c n by simp
  then have "unat (?x + 1) = unat ?x + 1" by (simp add: unat_word_ariths)
  with c n assms(3) show ?thesis by (simp add: counted_def)
qed

lemma counted_tag:
  assumes "counted pipe s"
  shows "drop_bit 16 (sk_sending s) = ID_TAG16 (sk_id s)"
proof -
  have c: "unat (sk_sending s) = unat (ID_TAG16 (sk_id s)) * 65536 + sends pipe (sk_id s)" "sends pipe (sk_id s) < 65536"
    using assms by (simp_all add: counted_def)
  have "unat (drop_bit 16 (sk_sending s)) = drop_bit 16 (unat (sk_sending s))" by (rule unat_drop_bit_eq)
  also have "\<dots> = unat (sk_sending s) div 65536" by (simp add: drop_bit_eq_div)
  also have "\<dots> = unat (ID_TAG16 (sk_id s))" unfolding c(1) using c(2) by simp
  finally show ?thesis by (simp only: word_unat_eq_iff)
qed

text \<open>A slot after a request that sends has joined the pipe.\<close>

definition extends :: "socket_object_interface \<Rightarrow> history \<Rightarrow> request \<Rightarrow> socket \<Rightarrow> byte list option \<Rightarrow> bool" where
  "extends soi h r s x \<longleftrightarrow> x = None \<or>
     (\<exists>bs. h (sk_id s) = Some bs \<and> x = Some (bs @ req_bytes soi (sk_id s) r) \<and> \<not> disturbing (sk_id s) r \<and>
        sk_type s \<notin> {SOCKET_TYPE_PACCEPT, SOCKET_TYPE_PLISTEN, SOCKET_TYPE_LISTEN})"

lemma slot_ok_sent:
  assumes "slot_ok soi h pipe i s" "extends soi h r s x" "sk_protocol s = PROTOCOL_TCP \<longrightarrow> counted (pipe @ [r]) (s\<lparr>sk_sending := y\<rparr>)"
    "sk_type s = SOCKET_TYPE_RESERVE \<longrightarrow> x = None \<and> \<not> sending (sk_id s) r"
  shows "slot_ok soi (h(sk_id s := x)) (pipe @ [r]) i (s\<lparr>sk_sending := y\<rparr>)"
proof -
  let ?s' = "s\<lparr>sk_sending := y\<rparr>"
  have "local_ok ?s'" using assms(1) by (simp add: slot_ok_def local_ok_def)
  moreover have "stream_ok soi (h(sk_id s := x)) (pipe @ [r]) ?s'" if tcp: "sk_protocol s = PROTOCOL_TCP"
  proof -
    have e: "flowed ?s' = flowed s" "direct_rest soi ?s' = direct_rest soi s" by (simp_all add: direct_rest_def split: option.split)
    have st: "stream_ok soi h pipe s" using assms(1) tcp by (simp add: slot_ok_def)
    show ?thesis
    proof (cases x)
      case None
      then show ?thesis by (simp add: stream_ok_def)
    next
      case (Some bs')
      with assms(2) obtain bs where b: "h (sk_id s) = Some bs" "bs' = bs @ req_bytes soi (sk_id s) r" "\<not> disturbing (sk_id s) r"
        "sk_type s \<notin> {SOCKET_TYPE_PACCEPT, SOCKET_TYPE_PLISTEN, SOCKET_TYPE_LISTEN}" by (auto simp: extends_def)
      with st obtain more where m: "sk_low s = []" "clean pipe (sk_id s)" "bs = flowed s @ direct_rest soi s @ rests (sk_high s) @ more"
        "sk_type s \<notin> {SOCKET_TYPE_HALFCLOSE, SOCKET_TYPE_INVALID} \<longrightarrow> more = pipe_bytes soi pipe (sk_id s)" unfolding stream_ok_def by blast
      have "bs' = flowed s @ direct_rest soi s @ rests (sk_high s) @ (more @ req_bytes soi (sk_id s) r)" using m(3) b(2) by simp
      moreover have "sk_type s \<notin> {SOCKET_TYPE_HALFCLOSE, SOCKET_TYPE_INVALID} \<longrightarrow> more @ req_bytes soi (sk_id s) r = pipe_bytes soi (pipe @ [r]) (sk_id s)"
        using m(4) by simp
      ultimately show ?thesis using m(1,2) b(3,4) Some unfolding stream_ok_def e by auto
    qed
  qed
  ultimately show ?thesis using assms(1,3,4) by (auto simp: slot_ok_def)
qed

lemma inv_sent:
  assumes "socket_inv soi h ss" "sk_id (ss_slot ss (HASH_ID sid)) = sid" "extends soi h r (ss_slot ss (HASH_ID sid)) x" "req_sid r = Some sid" "\<not> opens r"
    "sk_protocol (ss_slot ss (HASH_ID sid)) = PROTOCOL_TCP \<longrightarrow> counted (ss_pipe ss @ [r]) ((ss_slot ss (HASH_ID sid))\<lparr>sk_sending := y\<rparr>)"
    "sk_type (ss_slot ss (HASH_ID sid)) = SOCKET_TYPE_RESERVE \<longrightarrow> x = None \<and> \<not> sending sid r"
    "ss_slot ss' = (ss_slot ss)(HASH_ID sid := (ss_slot ss (HASH_ID sid))\<lparr>sk_sending := y\<rparr>)" "quiet (ss\<lparr>ss_pipe := ss_pipe ss @ [r]\<rparr>) ss'"
  shows "socket_inv soi (h(sid := x)) ss'"
proof (rule call_inv [OF assms(1)])
  have p: "ss_pipe ss' = ss_pipe ss @ [r]" using assms(9) by (simp add: quiet_def)
  show "slot_ok soi (h(sid := x)) (ss_pipe ss') j (ss_slot ss' j)" for j
  proof (cases "j = HASH_ID sid")
    case True
    from slot_ok_sent [OF inv_slot [OF assms(1), of "HASH_ID sid"] assms(3,6)] assms(2,7) show ?thesis by (simp add: True assms(8) p)
  next
    case False
    with slot_ok_other(2) [OF inv_slot [OF assms(1), of j] _ assms(4)] show ?thesis by (simp add: assms(8) p)
  qed
qed (use assms(5,8,9) in \<open>simp_all add: quiet_def\<close>)

lemma inc_spec:
  assumes "inc_sending_ref (HASH_ID sid) sid ss = Inr ss1" "sk_id (ss_slot ss (HASH_ID sid)) = sid" "socket_inv soi h ss"
    "sk_type (ss_slot ss (HASH_ID sid)) \<noteq> SOCKET_TYPE_INVALID"
  obtains y where "ss_slot ss1 = (ss_slot ss)(HASH_ID sid := (ss_slot ss (HASH_ID sid))\<lparr>sk_sending := y\<rparr>)" "quiet ss ss1"
    "\<And>r. sending sid r \<Longrightarrow> sk_protocol (ss_slot ss (HASH_ID sid)) = PROTOCOL_TCP \<longrightarrow> counted (ss_pipe ss @ [r]) ((ss_slot ss (HASH_ID sid))\<lparr>sk_sending := y\<rparr>)"
proof (cases "sk_protocol (ss_slot ss (HASH_ID sid)) = PROTOCOL_TCP")
  case False
  with assms(1) have "ss1 = ss" by (simp add: inc_sending_ref_def Let_def)
  with False show thesis by (intro that [of "sk_sending (ss_slot ss (HASH_ID sid))"]) (simp_all add: quiet_def)
next
  case True
  let ?s = "ss_slot ss (HASH_ID sid)"
  have c: "counted (ss_pipe ss) ?s" using inv_slot [OF assms(3), of "HASH_ID sid"] True by (simp add: slot_ok_def)
  from counted_tag [OF c] assms(1,2) True have n: "sk_sending ?s AND 0xffff \<noteq> 0xffff"
    and e: "ss1 = upd_sock (HASH_ID sid) (\<lambda>s. s\<lparr>sk_sending := sk_sending s + 1\<rparr>) ss" by (auto simp: inc_sending_ref_def Let_def split: if_splits)
  show thesis
    by (rule that [of "sk_sending ?s + 1"]) (use counted_push [OF c n] assms(2) e in \<open>simp_all add: quiet_def upd_sock_def\<close>)
qed

lemma piped_inv:
  assumes "socket_inv soi h ss" "sk_id (ss_slot ss (HASH_ID sid)) = sid" "sk_type (ss_slot ss (HASH_ID sid)) \<noteq> SOCKET_TYPE_INVALID"
    "sk_type (ss_slot ss (HASH_ID sid)) \<noteq> SOCKET_TYPE_RESERVE" "inc_sending_ref (HASH_ID sid) sid ss = Inr ss1" "sb_id buf = sid"
    "req = ReqD \<and> (x = None \<or> (\<exists>bs. h sid = Some bs \<and> x = Some (bs @ send_object_init_from_sendbuffer ss buf) \<and>
       sk_type (ss_slot ss (HASH_ID sid)) \<notin> {SOCKET_TYPE_PACCEPT, SOCKET_TYPE_PLISTEN, SOCKET_TYPE_LISTEN})) \<or> req = ReqP \<and> x = None"
  shows "socket_inv soi (h(sid := x)) (send_by_pipe req buf ss1)"
proof -
  let ?i = "HASH_ID sid"
  obtain y where s1: "ss_slot ss1 = (ss_slot ss)(?i := (ss_slot ss ?i)\<lparr>sk_sending := y\<rparr>)" "quiet ss ss1"
    "\<And>r. sending sid r \<Longrightarrow> sk_protocol (ss_slot ss ?i) = PROTOCOL_TCP \<longrightarrow> counted (ss_pipe ss @ [r]) ((ss_slot ss ?i)\<lparr>sk_sending := y\<rparr>)"
    using inc_spec [OF assms(5,2,1,3)] by blast
  obtain b sz ss2 where c: "clone_buffer buf ss1 = ((b, sz), ss2)" by (metis prod.exhaust)
  note cb = clone_before [OF c]
  let ?q = "\<lparr>rs_id = sb_id buf, rs_sz = sz, rs_buffer = b\<rparr>"
  have e: "send_by_pipe req buf ss1 = send_request (req ?q) ss2" by (simp add: send_by_pipe_def c)
  have soi: "ss_soi ss1 = soi" "ss_soi ss = soi" using assms(1) s1(2) by (simp_all add: socket_inv_def quiet_def)
  have bytes: "send_object_init_from_sendbuffer ss1 buf = send_object_init_from_sendbuffer ss buf"
    using soi by (simp add: send_object_init_from_sendbuffer_def split: sendbuffer_type.split)
  have rb: "req_bytes soi sid (ReqD ?q) = send_object_init_from_sendbuffer ss buf" using cb(2) assms(6) soi bytes by (cases sz) simp_all
  have x: "extends soi h (req ?q) (ss_slot ss ?i) x" using assms(2,6,7) rb by (auto simp: extends_def)
  have r: "req_sid (req ?q) = Some sid" "\<not> opens (req ?q)" "sending sid (req ?q)" using assms(6,7) by auto
  show ?thesis unfolding e
    by (rule inv_sent [OF assms(1,2) x r(1,2) s1(3) [OF r(3)]])
      (use assms(4) cb(1) s1 in \<open>auto simp: as_before_def quiet_def send_request_def\<close>)
qed

text \<open>The direct write.\<close>

lemma keep_direct_slot:
  obtains b sz where "ss_slot (keep_direct i n buf ss) = (ss_slot ss)(i := (ss_slot ss i)\<lparr>sk_dw_buffer := Some b, sk_dw_size := sz, sk_dw_offset := n, sk_write := sk_polled (ss_slot ss i)\<rparr>)"
    "quiet ss (keep_direct i n buf ss)" "(case sz of None \<Rightarrow> soi_bytes (ss_soi ss) b | Some bs \<Rightarrow> bs) = send_object_init_from_sendbuffer ss buf"
proof -
  obtain b sz ss1 where c: "clone_buffer buf ss = ((b, sz), ss1)" by (metis prod.exhaust)
  note cb = clone_before [OF c]
  have q: "quiet ss ss1" "ss_slot ss1 = ss_slot ss" using cb(1) by (simp_all add: as_before_def)
  show thesis
    by (rule that [of sz b]) (use cb(2) q quiet_ops(1,8) [of ss] in \<open>simp_all add: keep_direct_def c\<close>)
qed

text \<open>The slot of a stream of which \<open>bs\<close> was sent and the rest kept.\<close>

lemma slot_ok_direct:
  assumes "slot_ok soi h pipe i s" "can_direct_write s sid" "sk_protocol s = PROTOCOL_TCP" "n \<le> length so"
    "s' = s\<lparr>sk_out := out, sk_stat := st\<rparr> \<and> n = length so \<or>
     s' = s\<lparr>sk_out := out, sk_stat := st, sk_dw_buffer := Some b, sk_dw_size := sz, sk_dw_offset := n, sk_write := w\<rparr> \<and>
       (case sz of None \<Rightarrow> soi_bytes soi b | Some bs \<Rightarrow> bs) = so"
    "concat (map fst out) = flowed s @ take n so"
  shows "slot_ok soi (h(sid := map_option (\<lambda>x. x @ so) (h sid))) pipe i s'"
proof -
  have d: "sk_id s = sid" "sk_high s = []" "sk_low s = []" "sk_dw_buffer s = None" "sk_sending s AND 0xffff = 0" "sk_type s = SOCKET_TYPE_CONNECTED"
    using assms(2) by (auto simp: can_direct_write_def nomore_sending_data_def send_buffer_empty_def)
  have same: "sk_id s' = sid" "sk_high s' = []" "sk_low s' = []" "sk_type s' = SOCKET_TYPE_CONNECTED" "sk_sending s' = sk_sending s" "sk_protocol s' = PROTOCOL_TCP"
    "sk_wb_size s' = sk_wb_size s" "sk_size s' = sk_size s" "sk_polled s' = sk_polled s"
    using assms(3,5) d by auto
  have c: "counted pipe s" and st: "stream_ok soi h pipe s" and loc: "local_ok s" and i: "HASH_ID sid = i" using assms(1,3) d by (auto simp: slot_ok_def)
  have "unat (sk_sending s AND 0xffff) = sends pipe sid" using c d(1) by (intro low16) (simp_all add: counted_def)
  with d(5) have z: "sends pipe sid = 0" by simp
  have f: "flowed s' = flowed s @ take n so" "direct_rest soi s' = drop n so"
    using assms(5,6) d(4) by (auto simp: flowed_def direct_rest_def split: option.splits)
  have "local_ok s'" using loc d(2,3,6) unfolding local_ok_def same by auto
  moreover have "counted pipe s'" using c d(1) by (simp add: counted_def same)
  moreover have "stream_ok soi (h(sid := map_option (\<lambda>x. x @ so) (h sid))) pipe s'"
  proof (cases "h sid")
    case None
    then show ?thesis by (simp add: stream_ok_def same)
  next
    case (Some bs)
    with st d have "clean pipe sid" "bs = flowed s" using pipe_bytes_none [OF z] by (auto simp: stream_ok_def direct_rest_def)
    with Some f show ?thesis unfolding stream_ok_def same by (simp add: pipe_bytes_none [OF z] z)
  qed
  ultimately show ?thesis using i by (simp add: slot_ok_def same)
qed

lemma direct_inv:
  assumes "socket_inv soi h ss" "quiet ss ss'" "ss_slot ss' = (ss_slot ss)(HASH_ID sid := s')" "slot_ok soi (h(sid := x)) (ss_pipe ss) (HASH_ID sid) s'"
    "sk_type s' = sk_type (ss_slot ss (HASH_ID sid)) \<and> sk_id s' = sk_id (ss_slot ss (HASH_ID sid)) \<and> sk_polled s' = sk_polled (ss_slot ss (HASH_ID sid))"
  shows "socket_inv soi (h(sid := x)) ss'"
proof (rule call_inv [OF assms(1)])
  show "slot_ok soi (h(sid := x)) (ss_pipe ss') j (ss_slot ss' j)" for j
    using assms(2,4) slot_ok_history [OF inv_slot [OF assms(1), of j]] by (cases "j = HASH_ID sid") (auto simp: assms(3) quiet_def)
qed (use assms(2,3,5) in \<open>simp_all add: quiet_def\<close>)

lemma slot_ok_datagram:
  assumes "slot_ok soi h pipe i s" "sk_protocol s \<noteq> PROTOCOL_TCP" "sk_type s \<noteq> SOCKET_TYPE_RESERVE" "s' = s\<lparr>sk_out := out, sk_stat := st\<rparr>"
  shows "slot_ok soi h' pipe i s'"
proof -
  have "local_ok s'" using assms(1) unfolding slot_ok_def local_ok_def assms(4) by simp
  with assms show ?thesis by (simp add: slot_ok_def)
qed

lemma direct_tcp:
  assumes "socket_inv soi h ss" "can_direct_write (ss_slot ss (HASH_ID sid)) sid" "sk_protocol (ss_slot ss (HASH_ID sid)) = PROTOCOL_TCP"
    "write_directly (HASH_ID sid) buf ss = (r, ss')"
  shows "socket_inv soi (h(sid := map_option (\<lambda>x. x @ send_object_init_from_sendbuffer ss buf) (h sid))) ss'"
proof -
  let ?i = "HASH_ID sid" and ?so = "send_object_init_from_sendbuffer ss buf"
  let ?s = "ss_slot ss ?i"
  define fin where "fin = (\<lambda>n ss1. let ss2 = stat_write ?i n ss1 in if n = length ?so then (0 :: int, free_buffer buf ss2) else (0, keep_direct ?i n buf ss2))"
  have soi: "ss_soi ss = soi" using assms(1) by (simp add: socket_inv_def)
  have fin: "socket_inv soi (h(sid := map_option (\<lambda>x. x @ ?so) (h sid))) ss'" if "fin n ss1 = (r, ss')" "only ?i ss ss1" "n \<le> length ?so"
    "ss_slot ss1 = (ss_slot ss)(?i := ?s\<lparr>sk_out := out\<rparr>)" "concat (map fst out) = flowed ?s @ take n ?so" for n ss1 out
  proof -
    let ?ss2 = "stat_write ?i n ss1"
    have q2: "quiet ss ?ss2" using only_quiet [OF that(2)] by (rule quiet_ops(5))
    have s2: "ss_slot ?ss2 = (ss_slot ss)(?i := ?s\<lparr>sk_out := out, sk_stat := sk_stat (ss_slot ?ss2 ?i)\<rparr>)" by (simp add: stat_write_def that(4))
    show ?thesis
    proof (cases "n = length ?so")
      case True
      have ss': "ss' = free_buffer buf ?ss2" using that(1) True by (simp add: fin_def Let_def)
      have q': "quiet ss ss'" and s': "ss_slot ss' = (ss_slot ss)(?i := ?s\<lparr>sk_out := out, sk_stat := sk_stat (ss_slot ?ss2 ?i)\<rparr>)"
        using free_before [of ?ss2 buf] q2 s2 by (auto simp: ss' as_before_def quiet_def)
      show ?thesis
        by (rule direct_inv [OF assms(1) q' s' slot_ok_direct [OF inv_slot [OF assms(1)] assms(2,3) that(3)]]) (use True that(5) in auto)
    next
      case False
      have ss': "ss' = keep_direct ?i n buf ?ss2" using that(1) False by (simp add: fin_def Let_def)
      obtain b sz where k: "ss_slot (keep_direct ?i n buf ?ss2) = (ss_slot ?ss2)(?i := (ss_slot ?ss2 ?i)\<lparr>sk_dw_buffer := Some b, sk_dw_size := sz, sk_dw_offset := n, sk_write := sk_polled (ss_slot ?ss2 ?i)\<rparr>)"
        "quiet ?ss2 (keep_direct ?i n buf ?ss2)" "(case sz of None \<Rightarrow> soi_bytes (ss_soi ?ss2) b | Some bs \<Rightarrow> bs) = send_object_init_from_sendbuffer ?ss2 buf"
        by (rule keep_direct_slot)
      have soi2: "ss_soi ?ss2 = soi" using q2 soi by (simp add: quiet_def)
      have bytes: "(case sz of None \<Rightarrow> soi_bytes soi b | Some bs \<Rightarrow> bs) = ?so"
        using k(3) unfolding send_object_init_from_sendbuffer_def soi soi2 .
      have q': "quiet ss ss'" using q2 k(2) unfolding ss' quiet_def by auto
      have s': "ss_slot ss' = (ss_slot ss)(?i := ?s\<lparr>sk_out := out, sk_stat := sk_stat (ss_slot ?ss2 ?i), sk_dw_buffer := Some b, sk_dw_size := sz, sk_dw_offset := n,
          sk_write := sk_polled ?s\<rparr>)" unfolding ss' k(1) by (simp add: stat_write_def that(4))
      show ?thesis
        by (rule direct_inv [OF assms(1) q' s' slot_ok_direct [OF inv_slot [OF assms(1)] assms(2,3) that(3), where b = b and sz = sz and w = "sk_polled ?s"]])
          (use bytes that(5) in auto)
    qed
  qed
  obtain w ss1 where w: "sys_write ?i ?so ss = (w, ss1)" by fastforce
  then show ?thesis
  proof (cases rule: sys_write_cases)
    case (1 n)
    have f: "fin n ss1 = (r, ss')" using assms(3,4) w 1(1) by (simp add: write_directly_def Let_def fin_def)
    show ?thesis by (rule fin [OF f 1(3,2,4)]) (simp add: flowed_def)
  next
    case (2 e)
    have f: "fin 0 ss1 = (r, ss')" using assms(3,4) w 2(1) by (simp add: write_directly_def Let_def fin_def)
    show ?thesis by (rule fin [OF f 2(2), of "sk_out ?s"]) (simp_all add: flowed_def 2(3))
  qed
qed

lemma direct_datagram:
  assumes "socket_inv soi h ss" "can_direct_write (ss_slot ss (HASH_ID sid)) sid" "sk_protocol (ss_slot ss (HASH_ID sid)) \<noteq> PROTOCOL_TCP"
    "write_directly (HASH_ID sid) buf ss = (r, ss')" "sk_dw_buffer (ss_slot ss' (HASH_ID sid)) = None"
  shows "socket_inv soi (h(sid := x)) ss'"
proof -
  let ?i = "HASH_ID sid" and ?so = "send_object_init_from_sendbuffer ss buf"
  let ?s = "ss_slot ss ?i"
  have ty: "sk_type ?s \<noteq> SOCKET_TYPE_RESERVE" using assms(2) by (simp add: can_direct_write_def)
  have done_inv: "socket_inv soi (h(sid := x)) ss2" if "quiet ss ss2" "ss_slot ss2 = (ss_slot ss)(?i := ?s\<lparr>sk_out := out, sk_stat := st\<rparr>)" for ss2 out st
    by (rule direct_inv [OF assms(1) that slot_ok_datagram [OF inv_slot [OF assms(1)] assms(3) ty refl]]) simp
  have stat: "socket_inv soi (h(sid := x)) (free_buffer buf (stat_write ?i n ss1))" if "only ?i ss ss1" "ss_slot ss1 = (ss_slot ss)(?i := ?s\<lparr>sk_out := out\<rparr>)" for n ss1 out
  proof (rule as_before_inv [OF free_before])
    show "socket_inv soi (h(sid := x)) (stat_write ?i n ss1)"
      by (rule done_inv [OF quiet_ops(5) [OF only_quiet [OF that(1)]]]) (simp add: stat_write_def that(2))
  qed
  show ?thesis
  proof (cases "udp_socket_address ?s (sk_udp_address ?s)")
    case None
    with assms(3,4) have "ss' = free_buffer buf ss" by (simp add: write_directly_def Let_def)
    moreover have "socket_inv soi (h(sid := x)) ss" by (rule done_inv [of ss "sk_stat ?s" "sk_out ?s"]) (simp_all add: quiet_def)
    ultimately show ?thesis using as_before_inv [OF free_before] by blast
  next
    case (Some sa)
    obtain w ss1 where w: "sys_sendto ?i ?so sa ss = (w, ss1)" by fastforce
    then show ?thesis
    proof (cases rule: sys_sendto_cases)
      case 1
      then have "ss' = free_buffer buf (stat_write ?i (length ?so) ss1)" using assms(3,4) w Some by (simp add: write_directly_def Let_def)
      with stat [OF 1(2,3)] show ?thesis by simp
    next
      case (2 e)
      have "ss' = (if length ?so = 0 then free_buffer buf (stat_write ?i 0 ss1) else keep_direct ?i 0 buf (stat_write ?i 0 ss1))"
        using assms(3,4) w Some 2(1) by (auto simp: write_directly_def Let_def)
      moreover obtain b sz where "ss_slot (keep_direct ?i 0 buf (stat_write ?i 0 ss1)) =
          (ss_slot (stat_write ?i 0 ss1))(?i := (ss_slot (stat_write ?i 0 ss1) ?i)\<lparr>sk_dw_buffer := Some b, sk_dw_size := sz, sk_dw_offset := 0,
             sk_write := sk_polled (ss_slot (stat_write ?i 0 ss1) ?i)\<rparr>)" by (rule keep_direct_slot)
      ultimately have "ss' = free_buffer buf (stat_write ?i 0 ss1)" using assms(5) by (auto split: if_splits)
      with stat [OF 2(2), of "sk_out ?s"] 2(3) show ?thesis by simp
    qed
  qed
qed

lemma send_call:
  assumes "socket_inv soi h ss" "socket_server_send buf ss = Inr (r, ss')"
    "sk_id (ss_slot ss (HASH_ID (sb_id buf))) = sb_id buf \<longrightarrow> sk_type (ss_slot ss (HASH_ID (sb_id buf))) \<noteq> SOCKET_TYPE_RESERVE"
    "sk_protocol (ss_slot ss (HASH_ID (sb_id buf))) \<noteq> PROTOCOL_TCP \<longrightarrow> sk_dw_buffer (ss_slot ss' (HASH_ID (sb_id buf))) = None"
  shows "socket_inv soi (handed (sb_id buf) (send_object_init_from_sendbuffer ss buf) ss h) ss'"
proof -
  let ?i = "HASH_ID (sb_id buf)" and ?so = "send_object_init_from_sendbuffer ss buf"
  let ?s = "ss_slot ss ?i"
  show ?thesis
  proof (cases "sk_id ?s \<noteq> sb_id buf \<or> sk_type ?s = SOCKET_TYPE_INVALID")
    case True
    with assms(2) have "ss' = free_buffer buf ss" by (auto simp: socket_server_send_def Let_def)
    with True as_before_inv [OF free_before assms(1)] show ?thesis by (auto simp: handed_def Let_def)
  next
    case False
    let ?x = "if sk_type ?s \<in> {SOCKET_TYPE_PACCEPT, SOCKET_TYPE_PLISTEN, SOCKET_TYPE_LISTEN} then None else map_option (\<lambda>x. x @ ?so) (h (sb_id buf))"
    have hd: "handed (sb_id buf) ?so ss h = h(sb_id buf := ?x)" using False by (simp add: handed_def Let_def)
    show ?thesis
    proof (cases "can_direct_write ?s (sb_id buf)")
      case True
      then have w: "write_directly ?i buf ss = (r, ss')" "?x = map_option (\<lambda>x. x @ ?so) (h (sb_id buf))" using assms(2) False
        by (simp_all add: socket_server_send_def Let_def can_direct_write_def)
      show ?thesis unfolding hd
        using direct_tcp [OF assms(1) True _ w(1)] direct_datagram [OF assms(1) True _ w(1)] assms(4) by (cases "sk_protocol ?s = PROTOCOL_TCP") (simp_all only: w(2) simp_thms)
    next
      case nd: False
      with assms(2) False obtain ss1 where inc: "inc_sending_ref ?i (sb_id buf) ss = Inr ss1" "ss' = send_by_pipe ReqD buf ss1"
        by (auto simp: socket_server_send_def Let_def bind_res_def split: sum.splits)
      show ?thesis unfolding hd inc(2)
        by (rule piped_inv [OF assms(1) _ _ _ inc(1) refl]) (use False assms(3) in auto)
    qed
  qed
qed

lemma send_low_call:
  assumes "socket_inv soi h ss" "socket_server_send_lowpriority buf ss = Inr (r, ss')"
    "sk_id (ss_slot ss (HASH_ID (sb_id buf))) = sb_id buf \<longrightarrow> sk_type (ss_slot ss (HASH_ID (sb_id buf))) \<noteq> SOCKET_TYPE_RESERVE"
  shows "socket_inv soi (h(sb_id buf := None)) ss'"
proof -
  let ?i = "HASH_ID (sb_id buf)"
  let ?s = "ss_slot ss ?i"
  show ?thesis
  proof (cases "sk_id ?s \<noteq> sb_id buf \<or> sk_type ?s = SOCKET_TYPE_INVALID")
    case True
    with assms(2) have "ss' = free_buffer buf ss" by (auto simp: socket_server_send_lowpriority_def Let_def)
    moreover have "socket_inv soi (h(sb_id buf := None)) ss"
    proof (rule call_inv [OF assms(1)])
      show "slot_ok soi (h(sb_id buf := None)) (ss_pipe ss) j (ss_slot ss j)" for j
        using inv_slot [OF assms(1), of j] by (auto simp: slot_ok_def stream_ok_def)
    qed simp_all
    ultimately show ?thesis using as_before_inv [OF free_before] by blast
  next
    case False
    with assms(2) obtain ss1 where inc: "inc_sending_ref ?i (sb_id buf) ss = Inr ss1" "ss' = send_by_pipe ReqP buf ss1"
      by (auto simp: socket_server_send_lowpriority_def Let_def bind_res_def split: sum.splits)
    show ?thesis unfolding inc(2)
      by (rule piped_inv [OF assms(1) _ _ _ inc(1) refl]) (use False assms(3) in auto)
  qed
qed

lemma inv_forget: "socket_inv soi h ss \<Longrightarrow> socket_inv soi (h(sid := None)) ss"
  by (rule call_inv [of soi h ss]) (auto simp: socket_inv_def slot_ok_def stream_ok_def)

lemma udp_send_call:
  assumes "socket_inv soi h ss" "socket_server_udp_send addr buf ss = (r, ss')"
  shows "socket_inv soi (h(sb_id buf := None)) ss'"
proof -
  let ?i = "HASH_ID (sb_id buf)" and ?so = "send_object_init_from_sendbuffer ss buf" and ?h = "h(sb_id buf := None)"
  let ?s = "ss_slot ss ?i"
  have freed: "socket_inv soi ?h (free_buffer buf ss)" using as_before_inv [OF free_before] inv_forget [OF assms(1)] by blast
  have later: "socket_inv soi ?h (send_by_pipe (\<lambda>r. ReqA r a) buf ss1)"
    if "only ?i ss ss1" "ss_slot ss1 = ss_slot ss" "sk_id ?s = sb_id buf" "sk_type ?s \<noteq> SOCKET_TYPE_INVALID" for ss1 a
  proof -
    obtain b sz ss2 where c: "clone_buffer buf ss1 = ((b, sz), ss2)" by (metis prod.exhaust)
    let ?r = "ReqA \<lparr>rs_id = sb_id buf, rs_sz = sz, rs_buffer = b\<rparr> a"
    have e: "send_by_pipe (\<lambda>r. ReqA r a) buf ss1 = send_request ?r ss2" by (simp add: send_by_pipe_def c)
    have q: "ss_slot ss2 = ss_slot ss" "quiet ss ss2" using clone_before(1) [OF c] only_quiet [OF that(1)] that(2) by (auto simp: as_before_def quiet_def)
    have x: "extends soi h ?r ?s None" by (simp add: extends_def)
    have cnt: "sk_protocol ?s = PROTOCOL_TCP \<longrightarrow> counted (ss_pipe ss @ [?r]) (?s\<lparr>sk_sending := sk_sending ?s\<rparr>)"
      using inv_slot [OF assms(1), of ?i] by (auto simp: slot_ok_def counted_def)
    show ?thesis unfolding e
      by (rule inv_sent [OF assms(1) that(3) x _ _ cnt]) (use q in \<open>simp_all add: send_request_def quiet_def\<close>)
  qed
  show ?thesis
  proof (cases "sk_id ?s \<noteq> sb_id buf \<or> sk_type ?s = SOCKET_TYPE_INVALID \<or> udp_address_size addr = None")
    case True
    with assms(2) freed show ?thesis by (auto simp: socket_server_udp_send_def Let_def split: option.splits if_splits)
  next
    case False
    then obtain n where n: "udp_address_size addr = Some n" by blast
    show ?thesis
    proof (cases "can_direct_write ?s (sb_id buf)")
      case nd: False
      with assms(2) False n have "ss' = send_by_pipe (\<lambda>r. ReqA r (take n addr)) buf ss" by (auto simp: socket_server_udp_send_def Let_def split: if_splits)
      with later [OF only_refl refl] False show ?thesis by auto
    next
      case True
      show ?thesis
      proof (cases "udp_socket_address ?s addr")
        case None
        with assms(2) False n True have "ss' = free_buffer buf ss" by (auto simp: socket_server_udp_send_def Let_def split: if_splits)
        with freed show ?thesis by simp
      next
        case (Some sa)
        have "hd addr \<noteq> 0" using n by (auto simp: udp_address_size_def split: if_splits)
        with Some have nt: "sk_protocol ?s \<noteq> PROTOCOL_TCP" by (auto simp: udp_socket_address_def)
        have ty: "sk_type ?s \<noteq> SOCKET_TYPE_RESERVE" using True by (simp add: can_direct_write_def)
        obtain w ss1 where w: "sys_sendto ?i ?so sa ss = (w, ss1)" by fastforce
        then show ?thesis
        proof (cases rule: sys_sendto_cases)
          case 1
          let ?ss2 = "stat_write ?i (length ?so) ss1"
          have "ss' = free_buffer buf ?ss2" using assms(2) False n True Some w 1(1) by (auto simp: socket_server_udp_send_def Let_def split: if_splits)
          moreover have "socket_inv soi ?h ?ss2"
            by (rule direct_inv [OF assms(1) quiet_ops(5) [OF only_quiet [OF 1(2)]] _
              slot_ok_datagram [OF inv_slot [OF assms(1)] nt ty, where out = "sk_out ?s @ [(?so, sa)]" and st = "sk_stat (ss_slot ?ss2 ?i)", OF refl]])
              (simp_all add: stat_write_def 1(3))
          ultimately show ?thesis using as_before_inv [OF free_before] by blast
        next
          case (2 e)
          have "ss' = send_by_pipe (\<lambda>r. ReqA r (take n addr)) buf ss1" using assms(2) False n True Some w 2(1)
            by (auto simp: socket_server_udp_send_def Let_def split: if_splits)
          with later [OF 2(2,3)] False show ?thesis by auto
        qed
      qed
    qed
  qed
qed

lemma create_inv:
  assumes "plain_objects soi" "reads_ok answers"
  shows "socket_inv soi (\<lambda>_. None) (socket_server_userobject soi (socket_server_create time answers brk soi0))"
proof -
  have "slot_ok soi (\<lambda>_. None) [] i empty_socket" for i by (simp add: slot_ok_def local_ok_def empty_socket_def)
  with assms show ?thesis by (simp add: socket_inv_def socket_server_userobject_def socket_server_create_def openings_ok_def events_ok_def)
qed

end
