(* ===== verification/SocketSpec.thy ===== *)
theory SocketSpec
  imports SocketCalls
begin

text \<open>
  What the socket server promises: the states that the thread and the services reach, the order of a stream, the books of a
  slot, the search for an id, and two ways in which a send goes wrong. The conditions of \<open>reached\<close> are these: user objects start
  with their data, a read is below 512 MiB, a new id is named by no request in the pipe, no send goes to a slot that is
  still reserved (\<open>early_send_aborts\<close> says what it would do), and the kernel takes the datagrams that are written directly
  (what is left of one goes to \<open>dw_buffer\<close>, which \<open>send_buffer\<close> takes for a part of a stream).
\<close>

section \<open>The states that are reached\<close>

inductive reached :: "socket_object_interface \<Rightarrow> history \<Rightarrow> socket_server \<Rightarrow> bool" for soi where
  created: "plain_objects soi \<Longrightarrow> reads_ok answers \<Longrightarrow> reached soi (\<lambda>_. None) (socket_server_userobject soi (socket_server_create time answers brk soi0))"
| timed: "reached soi h ss \<Longrightarrow> reached soi h (socket_server_updatetime time ss)"
| polled: "reached soi h ss \<Longrightarrow> poll_round ss = Inr (r, ss') \<Longrightarrow> ids_new ss ss' \<Longrightarrow> reached soi (renewed ss ss' h) ss'"
| connect: "reached soi h ss \<Longrightarrow> socket_server_connect opaque addr port ss = (id', ss') \<Longrightarrow> ids_new ss ss' \<Longrightarrow> reached soi (renewed ss ss' h) ss'"
| listen: "reached soi h ss \<Longrightarrow> socket_server_listen opaque ss = (id', ss') \<Longrightarrow> ids_new ss ss' \<Longrightarrow> reached soi (renewed ss ss' h) ss'"
| bind: "reached soi h ss \<Longrightarrow> socket_server_bind opaque fd ss = (id', ss') \<Longrightarrow> ids_new ss ss' \<Longrightarrow> reached soi (renewed ss ss' h) ss'"
| udp: "reached soi h ss \<Longrightarrow> socket_server_udp opaque inet6 ss = (id', ss') \<Longrightarrow> ids_new ss ss' \<Longrightarrow> reached soi (renewed ss ss' h) ss'"
| udp_connect: "reached soi h ss \<Longrightarrow> reached soi h (snd (socket_server_udp_connect sid ss))"
| start: "reached soi h ss \<Longrightarrow> reached soi h (socket_server_start opaque sid ss)"
| nodelay: "reached soi h ss \<Longrightarrow> reached soi h (socket_server_nodelay sid ss)"
| close: "reached soi h ss \<Longrightarrow> reached soi h (socket_server_close opaque sid ss)"
| shutdown: "reached soi h ss \<Longrightarrow> reached soi h (socket_server_shutdown opaque sid ss)"
| exit: "reached soi h ss \<Longrightarrow> reached soi h (socket_server_exit ss)"
| send: "reached soi h ss \<Longrightarrow> socket_server_send buf ss = Inr (r, ss') \<Longrightarrow>
    sk_id (ss_slot ss (HASH_ID (sb_id buf))) = sb_id buf \<longrightarrow> sk_type (ss_slot ss (HASH_ID (sb_id buf))) \<noteq> SOCKET_TYPE_RESERVE \<Longrightarrow>
    sk_protocol (ss_slot ss (HASH_ID (sb_id buf))) \<noteq> PROTOCOL_TCP \<longrightarrow> sk_dw_buffer (ss_slot ss' (HASH_ID (sb_id buf))) = None \<Longrightarrow>
    reached soi (handed (sb_id buf) (send_object_init_from_sendbuffer ss buf) ss h) ss'"
| send_low: "reached soi h ss \<Longrightarrow> socket_server_send_lowpriority buf ss = Inr (r, ss') \<Longrightarrow>
    sk_id (ss_slot ss (HASH_ID (sb_id buf))) = sb_id buf \<longrightarrow> sk_type (ss_slot ss (HASH_ID (sb_id buf))) \<noteq> SOCKET_TYPE_RESERVE \<Longrightarrow>
    reached soi (h(sb_id buf := None)) ss'"
| udp_send: "reached soi h ss \<Longrightarrow> socket_server_udp_send addr buf ss = (r, ss') \<Longrightarrow> reached soi (h(sb_id buf := None)) ss'"

lemma reached_inv: "reached soi h ss \<Longrightarrow> socket_inv soi h ss"
proof (induction rule: reached.induct)
  case (polled h ss r ss')
  from poll_spec [OF polled.IH] polled.hyps show ?case by (auto simp: goes_on_def)
next
  case created then show ?case by (rule create_inv)
next
  case timed then show ?case by (intro updatetime_call)
next
  case connect then show ?case by (intro connect_call)
next
  case listen then show ?case by (intro listen_call)
next
  case bind then show ?case by (intro bind_call)
next
  case udp then show ?case by (intro udp_call)
next
  case udp_connect then show ?case by (intro udp_connect_call)
next
  case start then show ?case by (intro start_call)
next
  case nodelay then show ?case by (intro nodelay_call)
next
  case close then show ?case by (intro close_call)
next
  case shutdown then show ?case by (intro close_call)
next
  case exit then show ?case by (intro exit_call)
next
  case send then show ?case by (intro send_call)
next
  case send_low then show ?case by (intro send_low_call)
next
  case udp_send then show ?case by (intro udp_send_call)
qed

section \<open>The socket thread\<close>





section \<open>Ids\<close>

lemma reserve_loop_none:
  assumes "reserve_loop n ss = (None, ss')" "1 \<le> k" "k \<le> n"
  shows "sk_type (ss_slot ss (nat ((uint (ss_alloc_id ss) + int k) mod 2 ^ 31) mod MAX_SOCKET)) \<noteq> SOCKET_TYPE_INVALID"
  using assms
proof (induction n arbitrary: ss k)
  case (Suc n)
  let ?new = "take_bit 31 (ss_alloc_id ss + 1)"
  let ?ss1 = "ss\<lparr>ss_alloc_id := ?new\<rparr>"
  have u: "uint ?new = (uint (ss_alloc_id ss) + 1) mod 2 ^ 31" by (rule next_uint)
  have f: "sk_type (ss_slot ss (HASH_ID ?new)) \<noteq> SOCKET_TYPE_INVALID" "reserve_loop n ?ss1 = (None, ss')"
    using Suc.prems(1) by (simp_all add: next_id_bits Let_def split: if_splits)
  show ?case
  proof (cases "k = 1")
    case True
    have "HASH_ID ?new = nat ((uint (ss_alloc_id ss) + 1) mod 2 ^ 31) mod MAX_SOCKET" unfolding HASH_ID_def u [symmetric] by simp
    with f(1) True show ?thesis by simp
  next
    case False
    then obtain k' where k: "k = Suc k'" "1 \<le> k'" "k' \<le> n" using Suc.prems(2,3) by (cases k) auto
    from Suc.IH [OF f(2) k(2,3)] have "sk_type (ss_slot ss (nat ((uint ?new + int k') mod 2 ^ 31) mod MAX_SOCKET)) \<noteq> SOCKET_TYPE_INVALID" by simp
    moreover have "(uint ?new + int k') mod 2 ^ 31 = (uint (ss_alloc_id ss) + int k) mod 2 ^ 31" unfolding u k(1) by (simp add: mod_simps ac_simps)
    ultimately show ?thesis by simp
  qed
qed simp

text \<open>C38: As long as a slot is free, \<open>reserve_id\<close> finds one: it gives an id that is not negative, whose slot was free and is now reserved, and changes no other slot.\<close>

theorem reserve_id_finds:
  assumes "i < MAX_SOCKET" "sk_type (ss_slot ss i) = SOCKET_TYPE_INVALID"
  shows "\<exists>sid ss'. reserve_id ss = (Some sid, ss') \<and> 0 \<le> sint sid \<and> sk_type (ss_slot ss (HASH_ID sid)) = SOCKET_TYPE_INVALID \<and>
    ss_slot ss' = (ss_slot ss)(HASH_ID sid := reserved_slot sid (ss_slot ss (HASH_ID sid)))"
proof -
  obtain r ss' where res: "reserve_id ss = (r, ss')" by fastforce
  then show ?thesis
  proof (cases rule: reserve_id_spec)
    case (1 sid)
    let ?a = "uint (ss_alloc_id ss)"
    define k where "k = (if (int i - ?a) mod 65536 = 0 then 65536 else (int i - ?a) mod 65536)"
    have k: "1 \<le> nat k" "nat k \<le> MAX_SOCKET" "int (nat k) = k" "k mod 65536 = (int i - ?a) mod 65536"
      using pos_mod_bound [of 65536 "int i - ?a"] pos_mod_sign [of 65536 "int i - ?a"] by (auto simp: k_def MAX_SOCKET_def MAX_SOCKET_P_def)
    have "(?a + k) mod 2 ^ 31 mod 65536 = (?a + k) mod 65536" by (rule mod_mod_cancel) simp
    also have "\<dots> = int i mod 65536" using k(4) by (metis add_diff_cancel_left' diff_add_cancel mod_add_right_eq add.commute)
    also have "\<dots> = int i" using assms(1) by (simp add: MAX_SOCKET_def MAX_SOCKET_P_def)
    finally have "nat ((?a + k) mod 2 ^ 31) mod MAX_SOCKET = i" by (simp add: MAX_SOCKET_def MAX_SOCKET_P_def nat_mod_as_int)
    with reserve_loop_none [OF res [unfolded reserve_id_def 1(1)] k(1,2)] k(3) assms(2) show ?thesis by simp
  next
    case (2 sid)
    then show ?thesis using res by simp
  qed
qed

section \<open>A send that comes too early\<close>

lemma open_socket_result:
  assumes "local_ok (ss_slot ss (HASH_ID sid))" "sk_type (ss_slot ss (HASH_ID sid)) = SOCKET_TYPE_RESERVE"
    "open_socket sid port opaque host ss = Inr (t, ss')"
  shows "only (HASH_ID sid) ss ss'" "sk_type (ss_slot ss' (HASH_ID sid)) = SOCKET_TYPE_INVALID \<or>
    sk_type (ss_slot ss' (HASH_ID sid)) \<in> {SOCKET_TYPE_CONNECTED, SOCKET_TYPE_CONNECTING} \<and> sk_id (ss_slot ss' (HASH_ID sid)) = sid \<and>
    sk_protocol (ss_slot ss' (HASH_ID sid)) = PROTOCOL_TCP \<and> sk_sending (ss_slot ss' (HASH_ID sid)) = push_bit 16 (ID_TAG16 sid)"
proof -
  let ?i = "HASH_ID sid" and ?ss0 = "report sid opaque 0 NoData ss"
  let ?ok = "\<lambda>s. sk_type s = SOCKET_TYPE_INVALID \<or> sk_type s \<in> {SOCKET_TYPE_CONNECTED, SOCKET_TYPE_CONNECTING} \<and> sk_id s = sid \<and>
    sk_protocol s = PROTOCOL_TCP \<and> sk_sending s = push_bit 16 (ID_TAG16 sid)"
  obtain a ss1 where k: "kernel ?ss0 = (a, ss1)" by fastforce
  have f1: "ss_slot ss1 = ss_slot ss" "only ?i ss ss1" using kernel_only [OF k, of ?i] by simp_all
  have "only ?i ss ss' \<and> ?ok (ss_slot ss' ?i)"
  proof (cases "\<exists>n. a = Done n")
    case False
    then show ?thesis using assms(3) f1 by (cases a) (auto simp: open_socket_def k)
  next
    case True
    then obtain n where n: "a = Done n" by blast
    obtain r ss2 where l: "open_loop n EOTHER ss1 = (r, ss2)" by fastforce
    from open_loop_only [OF l, of ?i] f1 only_trans have f2: "ss_slot ss2 = ss_slot ss" "only ?i ss ss2" by (simp, blast)
    show ?thesis
    proof (cases r)
      case (Inl e)
      then show ?thesis using assms(3) f2 by (auto simp: open_socket_def k n l)
    next
      case (Inr p)
      obtain sock connected where p: "p = (sock, connected)" by fastforce
      have o2: "local_ok (ss_slot ss2 ?i)" "sk_type (ss_slot ss2 ?i) = SOCKET_TYPE_RESERVE" using assms(1,2) f2(1) by simp_all
      show ?thesis
      proof (rule new_fd_total [OF o2, of sock PROTOCOL_TCP opaque True])
        fix ss3 assume w: "new_fd sid sock PROTOCOL_TCP opaque True ss2 = Inr (None, ss3)" "only ?i ss2 ss3"
        have "only ?i ss ss3" by (rule only_trans [OF f2(2) w(2)])
        with assms(3) w(1) show ?thesis by (auto simp: open_socket_def k n l Inr p)
      next
        fix ss3 assume w: "new_fd sid sock PROTOCOL_TCP opaque True ss2 = Inr (Some ?i, ss3)" "only ?i ss2 ss3" "opened_slot sid (ss_slot ss3 ?i)"
          "sk_protocol (ss_slot ss3 ?i) = PROTOCOL_TCP"
        have "only ?i ss ss3" by (rule only_trans [OF f2(2) w(2)])
        moreover have "ss' = name_result NoData (set_type ?i SOCKET_TYPE_CONNECTED ss3) \<or> ss' = sp_write ?i True (set_type ?i SOCKET_TYPE_CONNECTING ss3)"
          using assms(3) w(1) by (cases connected) (simp_all add: open_socket_def k n l Inr p)
        ultimately show ?thesis using w(3,4) by (auto simp: opened_slot_def)
      qed
    qed
  qed
  then show "only ?i ss ss'" "?ok (ss_slot ss' ?i)" by blast+
qed

lemma no_senders: "push_bit 16 (ID_TAG16 sid) AND 0xffff = 0"
proof -
  have "unat (push_bit 16 (ID_TAG16 sid)) = unat (ID_TAG16 sid) * 65536 + 0" by (simp add: tag_high)
  from low16 [OF this] have "unat (push_bit 16 (ID_TAG16 sid) AND 0xffff) = unat (0 :: u32)" by simp
  then show ?thesis by (simp only: word_unat_eq_iff)
qed

text \<open>C39: A service that sends on the id that \<open>socket_server_connect\<close> has just returned, before the socket thread has opened it, brings the process down once the connection is made: \<open>inc_sending_ref\<close> skips a slot of unknown protocol, \<open>new_fd\<close> sets the count to zero, and \<open>dec_sending_ref\<close> fails its assertion.\<close>

theorem early_send_aborts:
  assumes "reached soi h ss" "ss_pipe ss = []" "ss_checkctrl ss"
    "socket_server_connect opaque addr port ss = (Some (sb_id buf), ss1)" "socket_server_send buf ss1 = Inr (r, ss2)"
    "poll_round ss2 = Inr (x, ss3)" "sk_type (ss_slot ss3 (HASH_ID (sb_id buf))) \<noteq> SOCKET_TYPE_INVALID"
  shows "r = 0 \<and> poll_round ss3 = Inl AssertFailed"
proof -
  let ?sid = "sb_id buf"
  let ?i = "HASH_ID ?sid"
  obtain ssr where res: "reserve_id ss = (Some ?sid, ssr)" and ss1: "ss1 = send_request (ReqO ?sid port opaque addr) ssr"
    using assms(4) by (auto simp: socket_server_connect_def open_request_def split: if_splits option.splits prod.splits)
  from res have rs: "sk_type (ss_slot ss ?i) = SOCKET_TYPE_INVALID" "ssr = upd_sock ?i (reserved_slot ?sid) (ss\<lparr>ss_alloc_id := ?sid\<rparr>)"
    by (cases rule: reserve_id_spec; simp)+
  have "local_ok (ss_slot ss ?i)" using inv_slot [OF reached_inv [OF assms(1)], of ?i] by (simp add: slot_ok_def)
  note loc = reserved_local [OF this rs(1), of ?sid]
  have s1: "ss_slot ss1 ?i = reserved_slot ?sid (ss_slot ss ?i)" "ss_pipe ss1 = [ReqO ?sid port opaque addr]" "ss_checkctrl ss1"
    using assms(2,3) by (simp_all add: ss1 rs(2) send_request_def upd_sock_def)
  obtain b sz ssc where cl: "clone_buffer buf ss1 = ((b, sz), ssc)" by (metis prod.exhaust)
  let ?q = "\<lparr>rs_id = ?sid, rs_sz = sz, rs_buffer = b\<rparr>"
  have cc: "ss_slot ssc = ss_slot ss1" "ss_pipe ssc = ss_pipe ss1" "ss_checkctrl ssc"
    using cl s1(3) by (cases "sb_type buf"; auto simp: clone_buffer_def)+
  have "socket_server_send buf ss1 = Inr (0, send_request (ReqD ?q) ssc)"
    using s1(1) by (simp add: socket_server_send_def Let_def can_direct_write_def reserved_slot_def inc_sending_ref_def send_by_pipe_def cl)
  with assms(5) have r: "r = 0" and ss2: "ss2 = send_request (ReqD ?q) ssc" by simp_all
  let ?ss = "ss2\<lparr>ss_pipe := [ReqD ?q]\<rparr>"
  have p2: "ss_pipe ss2 = [ReqO ?sid port opaque addr, ReqD ?q]" "ss_checkctrl ss2" "ss_slot ?ss ?i = reserved_slot ?sid (ss_slot ss ?i)"
    using cc s1 by (simp_all add: ss2 send_request_def)
  from assms(6) p2(1,2) obtain t sso where o: "open_socket ?sid port opaque addr ?ss = Inr (t, sso)"
    "ss3 = (case t of None \<Rightarrow> sso | Some t \<Rightarrow> clear_closed_event t sso)"
    by (auto simp: poll_round_def ctrl_cmd_def bind_res_def split: sum.splits)
  note res = open_socket_result [OF _ _ o(1), unfolded p2(3), OF loc]
  have s3: "ss_slot ss3 = ss_slot sso" "ss_pipe ss3 = [ReqD ?q]" "ss_checkctrl ss3"
    using res(1) o(2) p2(2) by (auto simp: only_def clear_closed_event_def split: option.splits)
  let ?s3 = "ss_slot ss3 ?i"
  have op: "sk_id ?s3 = ?sid" "sk_protocol ?s3 = PROTOCOL_TCP" "sk_sending ?s3 = push_bit 16 (ID_TAG16 ?sid)" "sk_type ?s3 \<noteq> SOCKET_TYPE_RESERVE"
    using res(2) assms(7) unfolding s3(1) by auto
  let ?ss3 = "ss3\<lparr>ss_pipe := []\<rparr>"
  have "sk_id (ss_slot ?ss3 (HASH_ID (rs_id ?q))) = rs_id ?q \<longrightarrow> sk_type (ss_slot ?ss3 (HASH_ID (rs_id ?q))) \<noteq> SOCKET_TYPE_RESERVE" using op(4) by simp
  from send_socket_spec [OF this, of PRIORITY_HIGH None] obtain t' ss4 where s4: "send_socket ?q PRIORITY_HIGH None ?ss3 = (t', ss4)"
    "sent ?ss3 ?q PRIORITY_HIGH ?s3 (ss_slot ss4 ?i)" by auto
  have "sk_id (ss_slot ss4 ?i) = ?sid" "sk_protocol (ss_slot ss4 ?i) = PROTOCOL_TCP" "sk_sending (ss_slot ss4 ?i) AND 0xffff = 0"
    using sent_same [OF s4(2)] send_socket_sending [OF s4(1), of ?i] op no_senders by simp_all
  then have "dec_sending_ref ?sid ss4 = Inl AssertFailed" by (simp add: dec_sending_ref_def Let_def)
  with s3(2,3) s4(1) have "poll_round ss3 = Inl AssertFailed" by (simp add: poll_round_def ctrl_cmd_def)
  with r show ?thesis by simp
qed

section \<open>A send that comes behind a close\<close>

text \<open>C40: When a close is followed in the pipe by a send, and nothing is queued, the socket is left half closed with nothing to write, no write event and no request: the data is dropped, and nothing closes the socket until the peer acts.\<close>

theorem close_overtakes_send:
  assumes "reached soi h ss" "ss_pipe ss = [ReqK (rs_id q) False opaque, ReqD q]" "ss_checkctrl ss"
    "sk_id (ss_slot ss (HASH_ID (rs_id q))) = rs_id q" "sk_protocol (ss_slot ss (HASH_ID (rs_id q))) = PROTOCOL_TCP"
    "open_type (ss_slot ss (HASH_ID (rs_id q)))" "sk_type (ss_slot ss (HASH_ID (rs_id q))) \<noteq> SOCKET_TYPE_HALFCLOSE"
    "send_buffer_empty (ss_slot ss (HASH_ID (rs_id q)))" "sk_dw_buffer (ss_slot ss (HASH_ID (rs_id q))) = None"
  shows "\<exists>ss1 ss2. poll_round ss = Inr (Continue, ss1) \<and> poll_round ss1 = Inr (Continue, ss2) \<and> ss_pipe ss2 = [] \<and>
    sk_type (ss_slot ss2 (HASH_ID (rs_id q))) = SOCKET_TYPE_HALFCLOSE \<and> nomore_sending_data (ss_slot ss2 (HASH_ID (rs_id q))) \<and>
    \<not> sk_write (ss_slot ss2 (HASH_ID (rs_id q))) \<and> sk_out (ss_slot ss2 (HASH_ID (rs_id q))) = sk_out (ss_slot ss (HASH_ID (rs_id q)))"
proof -
  let ?i = "HASH_ID (rs_id q)"
  let ?s = "ss_slot ss ?i" and ?ss = "ss\<lparr>ss_pipe := [ReqD q]\<rparr>"
  note ok = inv_slot [OF reached_inv [OF assms(1)], of ?i]
  have c: "counted [ReqK (rs_id q) False opaque, ReqD q] ?s" using ok assms(2,5) by (simp add: slot_ok_def)
  then have one: "unat (sk_sending ?s AND 0xffff) = 1" using assms(4) by (intro low16 [of _ "unat (ID_TAG16 (rs_id q))"]) (simp_all add: counted_def)
  then have nz: "sk_sending ?s AND 0xffff \<noteq> 0" by auto
  have size: "sk_wb_size ?s = 0" using ok assms(6,8) by (auto simp: slot_ok_def local_ok_def open_type_def send_buffer_empty_def)
  have lists: "sk_high ?s = []" "sk_low ?s = []" using assms(8) by (simp_all add: send_buffer_empty_def)
  have b: "\<exists>t ss1. send_buffer ?i ?ss = Inr (t, ss1) \<and> t \<in> {None, Some SOCKET_WARNING} \<and> only ?i ?ss ss1 \<and>
      (\<exists>w. ss_slot ss1 ?i = ?s\<lparr>sk_write := False, sk_warn_size := w\<rparr>)"
  proof -
    have hi: "send_list PRIORITY_HIGH ?i ?ss = Inr (None, ?ss)"
      by (simp add: send_list_def send_list_tcp.simps [of PRIORITY_HIGH] assms(5) wb_list_def lists)
    have e: "send_buffer ?i ?ss = all_sent ?i ?ss"
      by (simp add: send_buffer_def raise_direct_def assms(9) send_buffer_lists_def list_uncomplete_def lists hi)
    show ?thesis
    proof (cases "sk_warn_size ?s > 0")
      case True
      show ?thesis unfolding e using True assms(7) by (auto simp: all_sent_def Let_def send_buffer_empty_def lists size intro!: exI [of _ 0])
    next
      case False
      with assms(7) show ?thesis unfolding e by (auto simp: all_sent_def Let_def send_buffer_empty_def lists size intro!: exI [of _ "sk_warn_size ?s"])
    qed
  qed
  then obtain t ss1 w where b: "send_buffer ?i ?ss = Inr (t, ss1)" "t \<in> {None, Some SOCKET_WARNING}" "only ?i ?ss ss1"
    "ss_slot ss1 ?i = ?s\<lparr>sk_write := False, sk_warn_size := w\<rparr>" by blast
  let ?ss1 = "set_type ?i SOCKET_TYPE_HALFCLOSE ss1"
  have "close_socket (rs_id q) False opaque ?ss = Inr (None, ?ss1)"
    using b assms(4,6) nz by (auto simp: close_socket_def Let_def nomore_sending_data_def open_type_def)
  then have r1: "poll_round ss = Inr (Continue, ?ss1)" by (simp add: poll_round_def assms(2,3) ctrl_cmd_def go_on_def)
  have s1: "ss_pipe ?ss1 = [ReqD q]" "ss_checkctrl ?ss1" using b(3) assms(3) by (simp_all add: only_def set_type_def upd_sock_def)
  let ?ss2 = "free_ptr (rs_buffer q) (?ss1\<lparr>ss_pipe := []\<rparr>)"
  let ?ss3 = "upd_sock ?i (\<lambda>s. s\<lparr>sk_sending := sk_sending s - 1\<rparr>) ?ss2"
  have snd: "send_socket q PRIORITY_HIGH None (?ss1\<lparr>ss_pipe := []\<rparr>) = (None, ?ss2)" by (simp add: send_socket_def Let_def)
  have dec: "dec_sending_ref (rs_id q) ?ss2 = Inr ?ss3" using nz assms(4,5) by (simp add: dec_sending_ref_def Let_def b(4))
  have r2: "poll_round ?ss1 = Inr (Continue, ?ss3)" using s1 by (simp add: poll_round_def ctrl_cmd_def snd dec go_on_def)
  have s3: "ss_slot ?ss3 ?i = ?s\<lparr>sk_write := False, sk_warn_size := w, sk_type := SOCKET_TYPE_HALFCLOSE, sk_sending := sk_sending ?s - 1\<rparr>" using b(4) by simp
  have "counted [] (?s\<lparr>sk_sending := sk_sending ?s - 1\<rparr>)"
  proof -
    from dec_spec [of ss "rs_id q" "ReqD q" "[]"] assms(4,5) c show ?thesis by (auto simp: counted_def)
  qed
  then have "unat ((sk_sending ?s - 1) AND 0xffff) = unat (0 :: u32)" using assms(4) low16 [of "sk_sending ?s - 1" "unat (ID_TAG16 (rs_id q))" 0] by (simp add: counted_def)
  then have "(sk_sending ?s - 1) AND 0xffff = 0" by (simp only: word_unat_eq_iff)
  with r1 r2 s3 assms(9) lists show ?thesis by (intro exI [of _ ?ss1] exI [of _ ?ss3]) (simp add: nomore_sending_data_def send_buffer_empty_def free_ptr_def upd_sock_def)
qed

section \<open>Datagrams\<close>

text \<open>The address that comes with a datagram sends back to where it came from.\<close>

lemma udp_reply_address:
  assumes "ss_answers ss = From bs inet6 sa # answers" "length sa = (if inet6 then 18 else 6)"
    "forward_message_udp i ss = Inr (Some SOCKET_UDP, ss')"
  shows "\<exists>address n. socket_server_udp_address (ss_result ss') = Inr (Some (address, n)) \<and> n = length address \<and>
    udp_socket_address (ss_slot ss' i) address = Some sa"
proof -
  let ?p = "if inet6 then PROTOCOL_UDPv6 else PROTOCOL_UDP"
  let ?a = "gen_udp_address ?p sa"
  have p: "sk_protocol (ss_slot ss i) = ?p" and r: "ss_result ss' = \<lparr>sm_id = sk_id (ss_slot ss i), sm_opaque = sk_opaque (ss_slot ss i), sm_ud = int (length bs), sm_data = DataBytes (bs @ ?a)\<rparr>"
    and s: "sk_protocol (ss_slot ss' i) = ?p"
    using assms(1,3) by (auto simp: forward_message_udp_def kernel_def Let_def stat_read_def split: if_splits)
  have "udp_socket_address (ss_slot ss' i) ?a = Some sa" "udp_address_size ?a = Some (length ?a)"
    using assms(2) s by (cases inet6; simp add: udp_socket_address_def gen_udp_address_def udp_address_size_def)+
  then show ?thesis by (intro exI [of _ ?a] exI [of _ "length ?a"]) (simp add: socket_server_udp_address_def r Let_def gen_udp_address_def)
qed

section \<open>Examples\<close>

definition example_soi :: socket_object_interface where
  "example_soi = \<lparr>soi_buffer = (\<lambda>p. p), soi_bytes = (\<lambda>_. [])\<rparr>"

definition example_created :: "kernel_answer list \<Rightarrow> socket_server" where
  "example_created answers = socket_server_userobject example_soi (socket_server_create 0 answers 100 example_soi)"

definition example_named :: "kernel_answer list \<Rightarrow> socket_server" where
  "example_named answers = snd (socket_server_connect 9 ''h'' 80 (example_created answers))"

definition example_opened :: "kernel_answer list \<Rightarrow> socket_server" where
  "example_opened answers = snd (projr (poll_round (example_named answers)))"

definition example_buffer :: socket_sendbuffer where
  "example_buffer = \<lparr>sb_id = 1, sb_type = SOCKET_BUFFER_MEMORY, sb_buffer = 7, sb_bytes = [1, 2, 3]\<rparr>"

definition example_answers :: "kernel_answer list \<Rightarrow> kernel_answer list" where
  "example_answers answers = [Done 1, Done 5, Done 0, Done 0, Name ''h''] @ answers"


definition example_history :: "kernel_answer list \<Rightarrow> history" where
  "example_history answers = renewed (example_created answers) (example_named answers) (\<lambda>_. None)"

lemma example_named_reached:
  assumes "reads_ok answers"
  shows "reached example_soi (example_history answers) (example_named answers)"
proof -
  have "reached example_soi (\<lambda>_. None) (example_created answers)"
    unfolding example_created_def by (rule reached.created) (simp_all add: assms plain_objects_def example_soi_def)
  moreover have "ids_new (example_created answers) ss" for ss by (simp add: ids_new_def unused_def example_created_def socket_server_create_def socket_server_userobject_def)
  moreover obtain r where "socket_server_connect 9 ''h'' 80 (example_created answers) = (r, example_named answers)" by (metis example_named_def prod.collapse)
  ultimately show ?thesis unfolding example_history_def by (intro reached.connect)
qed

lemma ids_same: "ss_alloc_id ss' = ss_alloc_id ss \<Longrightarrow> ids_new ss ss'"
  by (auto simp: ids_new_def named_def)

lemma example_opened_reached:
  assumes "reads_ok answers" "\<not> isl (poll_round (example_named answers))" "ss_alloc_id (example_opened answers) = ss_alloc_id (example_named answers)"
  shows "reached example_soi (example_history answers) (example_opened answers)"
proof -
  obtain r where "poll_round (example_named answers) = Inr (r, example_opened answers)" using assms(2)
    by (cases "poll_round (example_named answers)") (auto simp: example_opened_def)
  from reached.polled [OF example_named_reached [OF assms(1)] this ids_same [OF assms(3)]] show ?thesis by (simp add: renewed_same assms(3))
qed

lemma hash_one: "HASH_ID 1 = 1"
  by (simp add: HASH_ID_def MAX_SOCKET_def MAX_SOCKET_P_def)

lemma example_id: "reserve_id (example_created answers) = (Some 1, upd_sock 1 (reserved_slot 1) ((example_created answers)\<lparr>ss_alloc_id := 1\<rparr>))"
proof -
  have "reserve_loop (Suc n) (example_created answers) = (Some 1, upd_sock 1 (reserved_slot 1) ((example_created answers)\<lparr>ss_alloc_id := 1\<rparr>))" for n
    by (simp add: Let_def hash_one example_created_def socket_server_create_def socket_server_userobject_def empty_socket_def reserved_slot_def [abs_def])
  moreover have "MAX_SOCKET = Suc 65535" by (simp add: MAX_SOCKET_def MAX_SOCKET_P_def)
  ultimately show ?thesis unfolding reserve_id_def by metis
qed

definition reserved_socket :: socket where
  "reserved_socket = reserved_slot 1 empty_socket"

lemma example_named: "example_named answers = (example_created answers)\<lparr>ss_alloc_id := 1, ss_slot := (\<lambda>_. empty_socket)(1 := reserved_socket), ss_pipe := [ReqO 1 80 9 ''h'']\<rparr>"
  by (simp add: example_named_def socket_server_connect_def open_request_def example_id send_request_def upd_sock_def reserved_socket_def)
    (simp add: example_created_def socket_server_create_def socket_server_userobject_def)

definition opened_socket :: "socket_type \<Rightarrow> socket" where
  "opened_socket t = reserved_socket\<lparr>sk_polled := True, sk_fd := 5, sk_protocol := PROTOCOL_TCP, sk_size := 64, sk_opaque := 9, sk_dw_size := Some [], sk_type := t\<rparr>"

lemma example_opens:
  "poll_round (example_named (example_answers answers)) = Inr (Return (Some SOCKET_OPEN),
     (example_named (example_answers answers))\<lparr>ss_slot := (\<lambda>_. empty_socket)(1 := opened_socket SOCKET_TYPE_CONNECTED), ss_pipe := [],
       ss_result := \<lparr>sm_id = 1, sm_opaque = 9, sm_ud = 0, sm_data = DataText ''h''\<rparr>, ss_answers := answers\<rparr>)"
  by (simp add: poll_round_def example_named example_created_def socket_server_create_def socket_server_userobject_def ctrl_cmd_def open_socket_def report_def kernel_def example_answers_def
    new_fd_def hash_one sp_add_def upd_sock_def reserved_socket_def reserved_slot_def empty_socket_def set_type_def name_result_def go_on_def clear_closed_event_def
    set_data_def opened_socket_def MIN_READ_BUFFER_def ID_TAG16_def MAX_SOCKET_P_def zero_stat_def)

lemma example_opened: "example_opened (example_answers answers) =
    (example_named (example_answers answers))\<lparr>ss_slot := (\<lambda>_. empty_socket)(1 := opened_socket SOCKET_TYPE_CONNECTED), ss_pipe := [],
       ss_result := \<lparr>sm_id = 1, sm_opaque = 9, sm_ud = 0, sm_data = DataText ''h''\<rparr>, ss_answers := answers\<rparr>"
  by (simp add: example_opened_def example_opens)









theorem reserve_id_finds_witness:
  "\<exists>sid ss'. reserve_id (example_created []) = (Some sid, ss') \<and> 0 \<le> sint sid"
  using reserve_id_finds [of 3 "example_created []"]
  by (auto simp: MAX_SOCKET_def MAX_SOCKET_P_def example_created_def socket_server_create_def socket_server_userobject_def empty_socket_def)

lemma example_early: "socket_server_send example_buffer (example_named (example_answers [])) = Inr (0, (example_named (example_answers []))\<lparr>ss_pipe := [ReqO 1 80 9 ''h'', ReqD \<lparr>rs_id = 1, rs_sz = Some [1, 2, 3], rs_buffer = 7\<rparr>]\<rparr>)"
  by (simp add: socket_server_send_def Let_def example_buffer_def hash_one example_named reserved_socket_def reserved_slot_def empty_socket_def
    can_direct_write_def inc_sending_ref_def send_by_pipe_def clone_buffer_def send_request_def)

lemma example_early_opens: "poll_round ((example_named (example_answers []))\<lparr>ss_pipe := [ReqO 1 80 9 ''h'', r]\<rparr>) = Inr (Return (Some SOCKET_OPEN),
     (example_named (example_answers []))\<lparr>ss_slot := (\<lambda>_. empty_socket)(1 := opened_socket SOCKET_TYPE_CONNECTED), ss_pipe := [r],
       ss_result := \<lparr>sm_id = 1, sm_opaque = 9, sm_ud = 0, sm_data = DataText ''h''\<rparr>, ss_answers := []\<rparr>)"
  by (simp add: poll_round_def example_named example_created_def socket_server_create_def socket_server_userobject_def ctrl_cmd_def open_socket_def report_def kernel_def example_answers_def
    new_fd_def hash_one sp_add_def upd_sock_def reserved_socket_def reserved_slot_def empty_socket_def set_type_def name_result_def go_on_def clear_closed_event_def
    set_data_def opened_socket_def MIN_READ_BUFFER_def ID_TAG16_def MAX_SOCKET_P_def zero_stat_def)

theorem early_send_aborts_witness:
  "poll_round ((example_named (example_answers []))\<lparr>ss_slot := (\<lambda>_. empty_socket)(1 := opened_socket SOCKET_TYPE_CONNECTED),
     ss_pipe := [ReqD \<lparr>rs_id = 1, rs_sz = Some [1, 2, 3], rs_buffer = 7\<rparr>],
     ss_result := \<lparr>sm_id = 1, sm_opaque = 9, sm_ud = 0, sm_data = DataText ''h''\<rparr>, ss_answers := []\<rparr>) = Inl AssertFailed"
proof -
  have r: "reads_ok (example_answers [])" by (simp add: reads_ok_def example_answers_def)
  have "reached example_soi (\<lambda>_. None) (example_created (example_answers []))"
    unfolding example_created_def by (rule reached.created) (simp_all add: r plain_objects_def example_soi_def)
  moreover have "socket_server_connect 9 ''h'' 80 (example_created (example_answers [])) = (Some (sb_id example_buffer), example_named (example_answers []))"
    by (simp add: example_named_def socket_server_connect_def open_request_def example_id example_buffer_def)
  ultimately show ?thesis
    using early_send_aborts [OF _ _ _ _ example_early example_early_opens]
    by (simp add: example_created_def socket_server_create_def socket_server_userobject_def example_buffer_def hash_one opened_socket_def)
qed

definition waiting_answers :: "kernel_answer list" where
  "waiting_answers = [Done 1, Done 5, Fail EINPROGRESS, Done 0]"

lemma example_connects:
  "poll_round (example_named waiting_answers) = Inr (Continue,
     (example_named waiting_answers)\<lparr>ss_slot := (\<lambda>_. empty_socket)(1 := (opened_socket SOCKET_TYPE_CONNECTING)\<lparr>sk_write := True\<rparr>), ss_pipe := [],
       ss_result := \<lparr>sm_id = 1, sm_opaque = 9, sm_ud = 0, sm_data = NoData\<rparr>, ss_answers := []\<rparr>)"
  by (simp add: poll_round_def example_named example_created_def socket_server_create_def socket_server_userobject_def ctrl_cmd_def open_socket_def report_def kernel_def
    new_fd_def hash_one sp_add_def upd_sock_def reserved_socket_def reserved_slot_def empty_socket_def set_type_def go_on_def sp_write_def
    waiting_answers_def opened_socket_def MIN_READ_BUFFER_def ID_TAG16_def MAX_SOCKET_P_def zero_stat_def)

definition example_connecting :: socket_server where
  "example_connecting = example_opened waiting_answers"

lemma example_connecting: "example_connecting = (example_named waiting_answers)
    \<lparr>ss_slot := (\<lambda>_. empty_socket)(1 := (opened_socket SOCKET_TYPE_CONNECTING)\<lparr>sk_write := True\<rparr>), ss_pipe := [],
       ss_result := \<lparr>sm_id = 1, sm_opaque = 9, sm_ud = 0, sm_data = NoData\<rparr>, ss_answers := []\<rparr>"
  by (simp add: example_connecting_def example_opened_def example_connects)

definition example_request :: request_send where
  "example_request = \<lparr>rs_id = 1, rs_sz = Some [1, 2, 3], rs_buffer = 7\<rparr>"

definition example_closing :: socket_server where
  "example_closing = example_connecting\<lparr>ss_pipe := [ReqK 1 False 9, ReqD example_request],
     ss_slot := (\<lambda>_. empty_socket)(1 := (opened_socket SOCKET_TYPE_CONNECTING)\<lparr>sk_write := True, sk_sending := 1\<rparr>)\<rparr>"

lemma example_piped: "socket_server_send example_buffer (socket_server_close 9 1 example_connecting) = Inr (0, example_closing)"
  by (simp add: socket_server_send_def Let_def example_buffer_def hash_one example_connecting socket_server_close_def send_request_def opened_socket_def
    can_direct_write_def inc_sending_ref_def send_by_pipe_def clone_buffer_def example_closing_def reserved_socket_def reserved_slot_def empty_socket_def upd_sock_def
    ID_TAG16_def MAX_SOCKET_P_def example_request_def example_named)

lemma example_closing_reached: "\<exists>h. reached example_soi h example_closing"
proof -
  have "reached example_soi (example_history waiting_answers) example_connecting"
    unfolding example_connecting_def
    by (rule example_opened_reached) (simp_all add: example_connects example_opened_def, simp add: reads_ok_def waiting_answers_def)
  from reached.send [OF reached.close [OF this] example_piped] show ?thesis
    by (auto simp: example_closing_def example_buffer_def hash_one opened_socket_def socket_server_close_def send_request_def example_connecting)
qed

theorem close_overtakes_send_witness:
  "\<exists>ss1 ss2. poll_round example_closing = Inr (Continue, ss1) \<and> poll_round ss1 = Inr (Continue, ss2) \<and> ss_pipe ss2 = [] \<and>
    sk_type (ss_slot ss2 1) = SOCKET_TYPE_HALFCLOSE \<and> \<not> sk_write (ss_slot ss2 1)"
proof -
  obtain h where r: "reached example_soi h example_closing" using example_closing_reached by blast
  have q: "ss_pipe example_closing = [ReqK (rs_id example_request) False 9, ReqD example_request]" "HASH_ID (rs_id example_request) = 1" "rs_id example_request = 1"
    by (simp_all add: example_closing_def example_request_def hash_one)
  have s: "sk_id (ss_slot example_closing 1) = 1" "sk_protocol (ss_slot example_closing 1) = PROTOCOL_TCP" "open_type (ss_slot example_closing 1)"
    "sk_type (ss_slot example_closing 1) \<noteq> SOCKET_TYPE_HALFCLOSE" "send_buffer_empty (ss_slot example_closing 1)" "sk_dw_buffer (ss_slot example_closing 1) = None"
    "ss_checkctrl example_closing"
    by (simp_all add: example_closing_def opened_socket_def reserved_socket_def reserved_slot_def empty_socket_def open_type_def send_buffer_empty_def example_connecting
      example_named example_created_def socket_server_create_def socket_server_userobject_def)
  from close_overtakes_send [OF r q(1) s(7), unfolded q(3) hash_one] s show ?thesis by blast
qed

end
