(* ===== verification/Snowflake.thy ===== *)
theory Snowflake
  imports Prelude
begin

unbundle bit_operations_syntax

text \<open>
  The id generator of \<open>lualib-src/chestnut/lua-snowflake.c\<close>. The file includes no header
  that declares \<open>skynet_starttime\<close> and \<open>skynet_now\<close>, so both are implicitly declared
  and answer an \<open>int\<close>: the low 32 bits of what they return, and the product with 100 is
  one of 32 bits, taken here as it wraps in two's complement. Every call reads the clock
  anew; the readings of \<open>skynet_now\<close> are a list, and a call that has used them all up is
  one that still waits (\<open>Diverges\<close>).
\<close>

record snowflake =
  last_timestamp :: "64 word"
  work_id :: "16 word"
  sf_index :: "16 word"
  inited :: bool

definition max_index_val :: "32 word" where
  "max_index_val = 0x0fff"

definition max_workid_val :: "32 word" where
  "max_workid_val = 0x03ff"

definition max_timestamp_val :: "64 word" where
  "max_timestamp_val = 0x01ffffffffff"

definition get_timestamp :: "32 word \<Rightarrow> 64 word \<Rightarrow> 64 word" where
  "get_timestamp start now = scast (start * 100) + scast (ucast now :: 32 word)"

fun wait_next_msec :: "snowflake \<Rightarrow> 64 word list \<Rightarrow> (snowflake \<times> 64 word list) res" where
  "wait_next_msec s [] = Inl Diverges"
| "wait_next_msec s (t # ts) =
     (if sint t \<le> sint (last_timestamp s) then wait_next_msec s ts
      else Inr (s\<lparr>last_timestamp := t, sf_index := 0\<rparr>, ts))"

definition make_id :: "snowflake \<Rightarrow> 64 word" where
  "make_id s =
     (push_bit 22 (last_timestamp s AND max_timestamp_val) OR
      scast (push_bit 12 ((scast (work_id s) :: 32 word) AND max_workid_val))) OR
      scast ((scast (sf_index s) :: 32 word) AND max_index_val)"

text \<open>\<open>next_id\<close> on the timestamps that its calls of \<open>get_timestamp\<close> will return.\<close>

definition next_id :: "snowflake \<Rightarrow> 64 word list \<Rightarrow> (snowflake \<times> 64 word \<times> 64 word list) res" where
  "next_id s ts =
     (if \<not> inited s then Inr (s, -1, ts)
      else case ts of [] \<Rightarrow> Inl Diverges
      | t # ts' \<Rightarrow>
          bind_res
            (if t = last_timestamp s then
               if sint (sf_index s) < sint max_index_val then Inr (s\<lparr>sf_index := sf_index s + 1\<rparr>, ts')
               else wait_next_msec s ts'
             else Inr (s\<lparr>last_timestamp := t, sf_index := 0\<rparr>, ts'))
            (\<lambda>(s', ts''). Inr (s', make_id s', ts'')))"

definition snowflake_init :: "snowflake \<Rightarrow> 32 word \<Rightarrow> 64 word \<Rightarrow> int \<Rightarrow> snowflake res" where
  "snowflake_init s start now n =
     (if n < 0 \<or> n > sint max_workid_val then Inl (LuaError ''Work id is in range of 0 - 1023.'')
      else Inr (s\<lparr>last_timestamp := get_timestamp start now, work_id := word_of_int n, sf_index := 0, inited := True\<rparr>))"


section \<open>The parts of an id\<close>

definition sf_ok :: "snowflake \<Rightarrow> bool" where
  "sf_ok s \<longleftrightarrow> inited s \<and> unat (last_timestamp s) < 2 ^ 41 \<and> unat (work_id s) < 2 ^ 10 \<and> unat (sf_index s) < 2 ^ 12"

lemma and_mask_id: "unat (x :: 'a::len word) < 2 ^ k \<Longrightarrow> x AND mask k = x"
  by (metis take_bit_eq_mask unat_take_bit word_unat_eq_iff mod_less and.commute)

lemma masks: "max_index_val = mask 12" "max_workid_val = mask 10" "max_timestamp_val = mask 41"
  by (simp_all add: max_index_val_def max_workid_val_def max_timestamp_val_def mask_eq_exp_minus_1)

lemma id_timestamp: "drop_bit 22 (make_id s) = last_timestamp s AND mask 41"
  by (rule bit_word_eqI) (auto simp: make_id_def masks bit_simps)

lemma id_workid: "take_bit 10 (drop_bit 12 (make_id s)) = ucast (work_id s) AND mask 10"
  by (rule bit_word_eqI) (auto simp: make_id_def masks bit_simps)

lemma id_index: "take_bit 12 (make_id s) = ucast (sf_index s) AND mask 12"
  by (rule bit_word_eqI) (auto simp: make_id_def masks bit_simps)

lemma unat_and_mask: "unat (x AND mask k :: 'a::len word) = unat x mod 2 ^ k"
  by (metis take_bit_eq_mask unat_take_bit)

lemma unat_widen: "unat (ucast (x :: 16 word) :: 64 word) = unat x"
proof -
  have "unat x < 2 ^ LENGTH(16)" by (rule unsigned_less)
  then show ?thesis by (simp add: unsigned_ucast_eq take_bit_nat_eq_self)
qed

lemma nat_parts: "(n :: nat) = n div 2 ^ 22 * 2 ^ 22 + n div 2 ^ 12 mod 2 ^ 10 * 2 ^ 12 + n mod 2 ^ 12"
proof -
  have "n div 2 ^ 12 div 2 ^ 10 = n div 2 ^ 22" by (simp flip: div_mult2_eq)
  then have "n div 2 ^ 22 * 2 ^ 22 + n div 2 ^ 12 mod 2 ^ 10 * 2 ^ 12 = n div 2 ^ 12 * 2 ^ 12"
    using div_mult_mod_eq [of "n div 2 ^ 12" "2 ^ 10"] by simp
  then show ?thesis using div_mult_mod_eq [of n "2 ^ 12"] by simp
qed

lemma unat_make_id:
  "unat (make_id s) = unat (last_timestamp s) mod 2 ^ 41 * 2 ^ 22 + unat (work_id s) mod 2 ^ 10 * 2 ^ 12 + unat (sf_index s) mod 2 ^ 12"
proof -
  have "unat (make_id s) div 2 ^ 22 = unat (last_timestamp s) mod 2 ^ 41"
    using arg_cong [OF id_timestamp [of s], of unat] by (simp only: unat_drop_bit unat_and_mask)
  moreover have "unat (make_id s) div 2 ^ 12 mod 2 ^ 10 = unat (work_id s) mod 2 ^ 10"
    using arg_cong [OF id_workid [of s], of unat]
    by (simp only: unat_drop_bit unat_take_bit unat_and_mask) (simp add: unat_widen)
  moreover have "unat (make_id s) mod 2 ^ 12 = unat (sf_index s) mod 2 ^ 12"
    using arg_cong [OF id_index [of s], of unat]
    by (simp only: unat_take_bit unat_and_mask) (simp add: unat_widen)
  ultimately show ?thesis using nat_parts [of "unat (make_id s)"] by simp
qed

lemma unat_make_id_ok:
  "sf_ok s \<Longrightarrow> unat (make_id s) = unat (last_timestamp s) * 2 ^ 22 + unat (work_id s) * 2 ^ 12 + unat (sf_index s)"
  by (simp only: unat_make_id sf_ok_def) simp

section \<open>One call\<close>

lemma sint_le_small64:
  assumes "unat (x :: 64 word) < 2 ^ 41" "unat (y :: 64 word) < 2 ^ 41"
  shows "sint x \<le> sint y \<longleftrightarrow> unat x \<le> unat y"
proof -
  have "sint x = uint x" "sint y = uint y" using assms by (auto intro!: sint_of_small)
  then show ?thesis by (simp only: flip: word_le_def word_le_nat_alt)
qed

lemma index_room:
  assumes "unat (sf_index s) < 2 ^ 12"
  shows "sint (sf_index s) < sint max_index_val \<longleftrightarrow> unat (sf_index s) < 4095"
proof -
  have "sint (sf_index s) = int (unat (sf_index s))"
    using assms by (subst sint_of_small) auto
  moreover have "sint max_index_val = int 4095" by (simp add: max_index_val_def)
  ultimately show ?thesis by (simp only: of_nat_less_iff)
qed

lemma index_succ: "unat (x :: 16 word) < 4095 \<Longrightarrow> unat (x + 1) = unat x + 1"
  by (simp add: unat_word_ariths)

text \<open>The readings of a clock that does not go back behind \<open>b\<close> and stays below 2^41.\<close>

definition clock_ok :: "nat \<Rightarrow> 64 word list \<Rightarrow> bool" where
  "clock_ok b ts \<longleftrightarrow> sorted (b # map unat ts) \<and> (\<forall>t\<in>set ts. unat t < 2 ^ 41)"

lemma clock_ok_Cons: "clock_ok b (t # ts) \<longleftrightarrow> b \<le> unat t \<and> unat t < 2 ^ 41 \<and> clock_ok (unat t) ts"
  unfolding clock_ok_def by auto

lemma clock_ok_mono: "clock_ok b ts \<Longrightarrow> a \<le> b \<Longrightarrow> clock_ok a ts"
  unfolding clock_ok_def by auto

lemma wait_run:
  "sf_ok s \<Longrightarrow> clock_ok b ts \<Longrightarrow> wait_next_msec s ts = Inr (s', ts') \<Longrightarrow>
   \<exists>t. s' = s\<lparr>last_timestamp := t, sf_index := 0\<rparr> \<and> unat (last_timestamp s) < unat t \<and> unat t < 2 ^ 41 \<and> clock_ok (unat t) ts'"
proof (induction ts arbitrary: b)
  case (Cons t ts)
  then have t: "unat t < 2 ^ 41" "clock_ok (unat t) ts" "unat (last_timestamp s) < 2 ^ 41"
    by (auto simp: clock_ok_Cons sf_ok_def)
  then show ?case
    using Cons sint_le_small64 [OF t(1,3)]
    by (cases "unat t \<le> unat (last_timestamp s)") auto
qed simp

lemma wait_total:
  "sf_ok s \<Longrightarrow> clock_ok b ts \<Longrightarrow> \<exists>t\<in>set ts. unat (last_timestamp s) < unat t \<Longrightarrow> \<exists>s' ts'. wait_next_msec s ts = Inr (s', ts')"
proof (induction ts arbitrary: b)
  case (Cons t ts)
  then have t: "unat t < 2 ^ 41" "clock_ok (unat t) ts" "unat (last_timestamp s) < 2 ^ 41"
    by (auto simp: clock_ok_Cons sf_ok_def)
  then show ?case
    using Cons sint_le_small64 [OF t(1,3)]
    by (cases "unat t \<le> unat (last_timestamp s)") auto
qed simp

lemma next_id_step:
  assumes "sf_ok s" "clock_ok (unat (last_timestamp s)) ts" "next_id s ts = Inr (s', i, ts')"
  shows "sf_ok s' \<and> work_id s' = work_id s \<and> i = make_id s' \<and> unat (make_id s) < unat i \<and>
    clock_ok (unat (last_timestamp s')) ts'"
proof -
  have i: "inited s" using assms(1) by (simp add: sf_ok_def)
  have idx: "unat (sf_index s) < 2 ^ 12" using assms(1) by (simp add: sf_ok_def)
  have later: "unat (make_id s) < unat (make_id s')"
    if "sf_ok s'" "unat (last_timestamp s) < unat (last_timestamp s')"
  proof -
    have "unat (make_id s) < (unat (last_timestamp s) + 1) * 2 ^ 22"
      using assms(1) by (simp add: unat_make_id_ok sf_ok_def)
    also have "\<dots> \<le> unat (last_timestamp s') * 2 ^ 22" using that(2) by simp
    also have "\<dots> \<le> unat (make_id s')" using unat_make_id_ok [OF that(1)] by simp
    finally show ?thesis .
  qed
  from assms(3) i obtain t tl where ts: "ts = t # tl" by (cases ts) (auto simp: next_id_def)
  have t: "unat (last_timestamp s) \<le> unat t" "unat t < 2 ^ 41" "clock_ok (unat t) tl"
    using assms(2) by (simp_all add: ts clock_ok_Cons)
  consider (bump) "t = last_timestamp s" "unat (sf_index s) < 4095"
    | (wait) "t = last_timestamp s" "\<not> unat (sf_index s) < 4095" | (fresh) "t \<noteq> last_timestamp s" by blast
  then show ?thesis
  proof cases
    case bump
    then have s': "s' = s\<lparr>sf_index := sf_index s + 1\<rparr>" "i = make_id s'" "ts' = tl"
      using assms(3) i index_room [OF idx] by (auto simp: next_id_def ts)
    moreover have "sf_ok s'" using assms(1) bump(2) by (simp add: s'(1) sf_ok_def index_succ)
    moreover have "unat (make_id s) < unat (make_id s')"
      using unat_make_id_ok [OF assms(1)] unat_make_id_ok [OF \<open>sf_ok s'\<close>] bump(2) by (simp add: s'(1) index_succ)
    ultimately show ?thesis using t(3) bump(1) by simp
  next
    case wait
    then obtain s1 where "wait_next_msec s tl = Inr (s1, ts')" "s' = s1" "i = make_id s'"
      using assms(3) i index_room [OF idx] by (auto simp: next_id_def ts res_elims)
    then show ?thesis
      using wait_run [OF assms(1) t(3), of s' ts'] assms(1) later by (auto simp: sf_ok_def)
  next
    case fresh
    then have s': "s' = s\<lparr>last_timestamp := t, sf_index := 0\<rparr>" "i = make_id s'" "ts' = tl"
      using assms(3) i by (auto simp: next_id_def ts)
    moreover have "sf_ok s'" using assms(1) t(2) by (simp add: s'(1) sf_ok_def)
    moreover have "unat (last_timestamp s) < unat t" using fresh t(1) by (metis le_neq_implies_less word_unat_eq_iff)
    ultimately show ?thesis using t(3) later by simp
  qed
qed

lemma next_id_total:
  assumes "sf_ok s" "clock_ok (unat (last_timestamp s)) (t # ts)"
    and "unat (sf_index s) < 4095 \<or> (\<exists>u\<in>set (t # ts). unat (last_timestamp s) < unat u)"
  shows "\<exists>s' i ts'. next_id s (t # ts) = Inr (s', i, ts')"
proof -
  have i: "inited s" "unat (sf_index s) < 2 ^ 12" using assms(1) by (simp_all add: sf_ok_def)
  show ?thesis
  proof (cases "t = last_timestamp s \<and> \<not> unat (sf_index s) < 4095")
    case True
    then have "\<exists>s' ts'. wait_next_msec s ts = Inr (s', ts')"
      using wait_total [OF assms(1), of "unat t" ts] assms(2,3) by (auto simp: clock_ok_Cons)
    then show ?thesis using i True index_room [OF i(2)] by (auto simp: next_id_def)
  next
    case False
    then show ?thesis using i index_room [OF i(2)] by (auto simp: next_id_def)
  qed
qed

section \<open>Many calls\<close>



section \<open>Properties\<close>



text \<open>
  An id splits into its parts: the low 41 bits of the timestamp, the low 10 bits of the
  worker id and the low 12 bits of the index. One call on a clock that is not behind returns an id above the last
  one, when there is an index left or the clock is going to advance.
\<close>
theorem snowflake_next_id:
  assumes "sf_ok s" "clock_ok (unat (last_timestamp s)) (t # ts)"
    and "unat (sf_index s) < 4095 \<or> (\<exists>u\<in>set (t # ts). unat (last_timestamp s) < unat u)"
  shows "\<exists>s' i ts'. next_id s (t # ts) = Inr (s', i, ts') \<and> sf_ok s' \<and> unat (make_id s) < unat i \<and>
     drop_bit 22 i = last_timestamp s' \<and> take_bit 10 (drop_bit 12 i) = ucast (work_id s) \<and>
     take_bit 12 i = ucast (sf_index s')"
proof -
  obtain s' i ts' where run: "next_id s (t # ts) = Inr (s', i, ts')" using next_id_total [OF assms] by blast
  note step = next_id_step [OF assms(1,2) run]
  then have "last_timestamp s' AND mask 41 = last_timestamp s'"
    "ucast (work_id s) AND mask 10 = (ucast (work_id s) :: 64 word)"
    "ucast (sf_index s') AND mask 12 = (ucast (sf_index s') :: 64 word)"
    using assms(1) by (auto intro!: and_mask_id simp: sf_ok_def unat_widen)
  then show ?thesis using run step id_timestamp [of s'] id_workid [of s'] id_index [of s'] by auto
qed

theorem snowflake_next_id_witness:
  "\<exists>s' i ts'. next_id \<lparr>last_timestamp = 7, work_id = 5, sf_index = 4095, inited = True\<rparr> [7, 7, 9] = Inr (s', i, ts') \<and>
     drop_bit 22 i = last_timestamp s'"
proof -
  let ?s = "\<lparr>last_timestamp = 7, work_id = 5, sf_index = 4095, inited = True\<rparr>"
  have "sf_ok ?s" and "clock_ok (unat (last_timestamp ?s)) [7, 7, 9]"
    by (simp_all add: sf_ok_def clock_ok_def)
  from snowflake_next_id [OF this] show ?thesis by auto
qed

text \<open>
  The clock in 32 bits: from 21474837 seconds on (September 1970) the product is negative, and
  when the sum passes zero the ids fall back.
\<close>

lemma timestamp_wraps:
  "sint (get_timestamp 21474837 0) = - 2147483596" "get_timestamp 21474837 2147483595 = - 1"
  "get_timestamp 21474837 2147483596 = 0"
  by (simp_all add: get_timestamp_def)

lemma ids_fall_back:
  "unat (make_id (s\<lparr>last_timestamp := 0, sf_index := 0\<rparr>)) < unat (make_id (s\<lparr>last_timestamp := - 1, sf_index := 0\<rparr>))"
proof -
  have "unat (- 1 :: 64 word) = 2 ^ 64 - 1" by (simp add: unsigned_minus_1_eq_mask mask_eq_exp_minus_1)
  then have "unat (- 1 :: 64 word) mod 2 ^ 41 = 2 ^ 41 - 1" by simp
  then show ?thesis by (simp only: unat_make_id) simp
qed

end
