(* ===== verification/Rudp.thy ===== *)
theory Rudp
  imports Prelude
begin

unbundle bit_operations_syntax

text \<open>
  The reliable datagram protocol of \<open>lualib-src/rudp/rudp.c\<close>. A linked list of messages is a
  list, head first (the tail pointer is its last element); a message keeps its size, which is -1
  for one that the peer reported missing, and its first \<open>sz\<close> bytes. Ids and ticks are
  mathematical integers: a connection stays below 2^31 of both.
\<close>

record rmessage =
  m_buffer :: "byte list"
  m_sz :: int
  m_cap :: int
  m_id :: int
  m_tick :: int

record rudp =
  send_queue :: "rmessage list"
  recv_queue :: "rmessage list"
  send_history :: "rmessage list"
  send_package :: "byte list list"
  free_list :: "rmessage list"
  send_again :: "int list"
  corrupt :: bool
  current_tick :: int
  last_send_tick :: int
  last_expired_tick :: int
  send_id :: int
  recv_id_min :: int
  recv_id_max :: int
  send_delay :: int
  expired :: int

definition general_package :: int where
  "general_package = 128"

definition max_package :: int where
  "max_package = 0x7fff - 4"

definition rudp_new :: "int \<Rightarrow> int \<Rightarrow> rudp" where
  "rudp_new delay expired_time =
     \<lparr>send_queue = [], recv_queue = [], send_history = [], send_package = [], free_list = [], send_again = [],
      corrupt = False, current_tick = 0, last_send_tick = 0, last_expired_tick = 0, send_id = 0,
      recv_id_min = 0, recv_id_max = 0, send_delay = delay, expired = expired_time\<rparr>"

definition clear_outpackage :: "rudp \<Rightarrow> rudp" where
  "clear_outpackage U = U\<lparr>send_package := []\<rparr>"

text \<open>A message struct from the free list when it is large enough, or a new one.\<close>

definition new_message :: "rudp \<Rightarrow> byte list \<Rightarrow> int \<Rightarrow> rudp \<times> rmessage" where
  "new_message U buffer sz =
     (let (U1, tmp) =
        (case free_list U of
           [] \<Rightarrow> (U, None)
         | m # ms \<Rightarrow> (U\<lparr>free_list := ms\<rparr>, if m_cap m < sz then None else Some (m_cap m)));
        cap = (case tmp of Some c \<Rightarrow> c | None \<Rightarrow> (if sz < general_package then general_package else sz))
      in (U1, \<lparr>m_buffer = (if sz > 0 then take (nat sz) buffer else []), m_sz = sz, m_cap = cap, m_id = 0, m_tick = 0\<rparr>))"

definition delete_message :: "rudp \<Rightarrow> rmessage \<Rightarrow> rudp" where
  "delete_message U m = U\<lparr>free_list := m # free_list U\<rparr>"

definition queue_push :: "rmessage list \<Rightarrow> rmessage \<Rightarrow> rmessage list" where
  "queue_push q m = q @ [m]"

definition queue_pop :: "rmessage list \<Rightarrow> int \<Rightarrow> (rmessage list \<times> rmessage) option" where
  "queue_pop q i = (case q of [] \<Rightarrow> None | m # ms \<Rightarrow> if m_id m \<noteq> i then None else Some (ms, m))"

fun array_insert :: "int list \<Rightarrow> int \<Rightarrow> int list" where
  "array_insert [] i = [i]"
| "array_insert (x # xs) i = (if x = i then x # xs else if x > i then i # x # xs else x # array_insert xs i)"

definition rudp_send :: "rudp \<Rightarrow> byte list \<Rightarrow> rudp res" where
  "rudp_send U buffer =
     bind_res (assert_res (int (length buffer) \<le> max_package) AssertFailed) (\<lambda>_.
       let (U1, m) = new_message U buffer (int (length buffer));
           m1 = m\<lparr>m_id := send_id U1, m_tick := current_tick U1\<rparr>
       in Inr (U1\<lparr>send_id := send_id U1 + 1, send_queue := queue_push (send_queue U1) m1\<rparr>))"

text \<open>The result and the bytes that are copied out.\<close>

definition rudp_recv :: "rudp \<Rightarrow> rudp \<times> int \<times> byte list" where
  "rudp_recv U =
     (if corrupt U then (U\<lparr>corrupt := False\<rparr>, -1, [])
      else case queue_pop (recv_queue U) (recv_id_min U) of
        None \<Rightarrow> (U, 0, [])
      | Some (q, tmp) \<Rightarrow>
          (delete_message (U\<lparr>recv_queue := q, recv_id_min := recv_id_min U + 1\<rparr>) tmp, m_sz tmp,
           if m_sz tmp > 0 then take (nat (m_sz tmp)) (m_buffer tmp) else []))"

text \<open>Messages are sent in the order of their ticks; the expired ones are a prefix.\<close>

definition clear_send_expired :: "rudp \<Rightarrow> int \<Rightarrow> rudp" where
  "clear_send_expired U tick =
     (let old = takeWhile (\<lambda>m. m_tick m < tick) (send_history U)
      in U\<lparr>free_list := old @ free_list U, send_history := drop (length old) (send_history U)\<rparr>)"

section \<open>Reading packages\<close>

definition get_id :: "rudp \<Rightarrow> byte \<Rightarrow> byte \<Rightarrow> int" where
  "get_id U b0 b1 =
     (let i = (uint b0 * 256 + uint b1) OR (recv_id_max U AND NOT 0xffff)
      in if i < recv_id_max U - 0x8000 then i + 0x10000
         else if i > recv_id_max U + 0x8000 then i - 0x10000 else i)"

definition add_request :: "rudp \<Rightarrow> int \<Rightarrow> rudp" where
  "add_request U i = U\<lparr>send_again := array_insert (send_again U) i\<rparr>"

text \<open>The queue around the place in front of the first message with a greater id.\<close>

fun split_greater :: "int \<Rightarrow> rmessage list \<Rightarrow> (rmessage list \<times> rmessage list) option" where
  "split_greater i [] = None"
| "split_greater i (m # ms) =
     (if m_id m > i then Some ([], m # ms) else map_option (\<lambda>(a, b). (m # a, b)) (split_greater i ms))"

definition insert_message :: "rudp \<Rightarrow> int \<Rightarrow> byte list \<Rightarrow> int \<Rightarrow> rudp" where
  "insert_message U i buffer sz =
     (if i < recv_id_min U then U
      else if i > recv_id_max U \<or> recv_queue U = [] then
        (let (U1, m) = new_message U buffer sz
         in U1\<lparr>recv_queue := queue_push (recv_queue U1) (m\<lparr>m_id := i\<rparr>), recv_id_max := i\<rparr>)
      else case split_greater i (recv_queue U) of
        None \<Rightarrow> U
      | Some (a, b) \<Rightarrow>
          (let (U1, m) = new_message U buffer sz in U1\<lparr>recv_queue := a @ m\<lparr>m_id := i\<rparr> # b\<rparr>))"

definition add_missing :: "rudp \<Rightarrow> int \<Rightarrow> rudp" where
  "add_missing U i = insert_message U i [] (-1)"

definition type_ignore :: int where "type_ignore = 0"
definition type_corrupt :: int where "type_corrupt = 1"
definition type_request :: int where "type_request = 2"
definition type_missing :: int where "type_missing = 3"
definition type_normal :: int where "type_normal = 4"

text \<open>The length field, one or two bytes, and what follows it.\<close>

definition read_len :: "byte list \<Rightarrow> (int \<times> byte list) option" where
  "read_len buffer =
     (case buffer of
        [] \<Rightarrow> None
      | b0 # rest \<Rightarrow>
          if uint b0 > 127 then
            (case rest of [] \<Rightarrow> None | b1 # rest' \<Rightarrow> Some ((uint b0 * 256 + uint b1) AND 0x7fff, rest'))
          else Some (uint b0, rest))"

lemma read_len_shorter: "read_len buffer = Some (len, rest) \<Longrightarrow> length rest < length buffer"
  by (auto simp: read_len_def split: list.splits if_splits)

function extract_package :: "rudp \<Rightarrow> byte list \<Rightarrow> rudp" where
  "extract_package U buffer =
     (if buffer = [] then U
      else case read_len buffer of
        None \<Rightarrow> U\<lparr>corrupt := True\<rparr>
      | Some (len, rest) \<Rightarrow>
          if len = type_ignore then
            extract_package
              (if send_again U = [] then U\<lparr>send_again := array_insert (send_again U) (recv_id_min U)\<rparr> else U) rest
          else if len = type_corrupt then U\<lparr>corrupt := True\<rparr>
          else if len = type_request \<or> len = type_missing then
            (case rest of
               b0 # b1 # rest' \<Rightarrow>
                 extract_package
                   ((if len = type_request then add_request else add_missing) U (get_id U b0 b1)) rest'
             | _ \<Rightarrow> U\<lparr>corrupt := True\<rparr>)
          else
            (case rest of
               b0 # b1 # rest' \<Rightarrow>
                 if int (length rest') < len - type_normal then U\<lparr>corrupt := True\<rparr>
                 else extract_package (insert_message U (get_id U b0 b1) rest' (len - type_normal))
                        (drop (nat (len - type_normal)) rest')
             | _ \<Rightarrow> U\<lparr>corrupt := True\<rparr>))"
  by pat_completeness auto
termination
  by (relation "measure (\<lambda>(U, buffer). length buffer)") (auto dest!: read_len_shorter)

declare extract_package.simps [simp del]

section \<open>Writing packages\<close>

text \<open>The buffer that is being filled and the finished packages; writes past its end are faults.\<close>

record tmp_buffer =
  t_buf :: "byte list"
  t_packs :: "byte list list"

definition new_package :: "tmp_buffer \<Rightarrow> tmp_buffer" where
  "new_package t = \<lparr>t_buf = [], t_packs = t_packs t @ [t_buf t]\<rparr>"

definition write_tmp :: "tmp_buffer \<Rightarrow> byte list \<Rightarrow> tmp_buffer res" where
  "write_tmp t bs =
     (if int (length (t_buf t) + length bs) \<le> general_package then Inr (t\<lparr>t_buf := t_buf t @ bs\<rparr>)
      else Inl OutOfBounds)"

definition fill_header :: "int \<Rightarrow> int \<Rightarrow> byte list" where
  "fill_header len i =
     (if len < 128 then [word_of_int len]
      else [word_of_int (drop_bit 8 (len AND 0x7f00) OR 0x80), word_of_int (len AND 0xff)]) @
     [word_of_int (drop_bit 8 (i AND 0xff00)), word_of_int (i AND 0xff)]"

definition pack_request :: "tmp_buffer \<Rightarrow> int \<Rightarrow> int \<Rightarrow> tmp_buffer res" where
  "pack_request t i tag =
     (let t1 = (if general_package - int (length (t_buf t)) < 3 then new_package t else t)
      in write_tmp t1 (fill_header tag i))"

definition pack_message :: "tmp_buffer \<Rightarrow> rmessage \<Rightarrow> tmp_buffer res" where
  "pack_message t m =
     (if m_sz m > general_package - 4 then
        (let t1 = (if t_buf t \<noteq> [] then new_package t else t)
         in Inr (t1\<lparr>t_packs := t_packs t1 @ [fill_header (m_sz m + type_normal) (m_id m) @ take (nat (m_sz m)) (m_buffer m)]\<rparr>))
      else
        (let t1 = (if general_package - int (length (t_buf t)) < 4 + m_sz m then new_package t else t)
         in write_tmp t1 (fill_header (m_sz m + type_normal) (m_id m) @ take (nat (m_sz m)) (m_buffer m))))"

fun pack_requests :: "tmp_buffer \<Rightarrow> int list \<Rightarrow> tmp_buffer res" where
  "pack_requests t [] = Inr t"
| "pack_requests t (i # is) = bind_res (pack_request t i type_request) (\<lambda>t1. pack_requests t1 is)"

fun request_gaps :: "int \<Rightarrow> rmessage list \<Rightarrow> tmp_buffer \<Rightarrow> tmp_buffer res" where
  "request_gaps i [] t = Inr t"
| "request_gaps i (m # ms) t =
     bind_res (assert_res (m_id m \<ge> i) AssertFailed) (\<lambda>_.
     bind_res (pack_requests t [i..m_id m - 1]) (\<lambda>t1. request_gaps (m_id m + 1) ms t1))"

definition request_missing :: "rudp \<Rightarrow> tmp_buffer \<Rightarrow> tmp_buffer res" where
  "request_missing U t = request_gaps (recv_id_min U) (recv_queue U) t"

text \<open>The answer to one request: the history is searched on from where the last one stopped.\<close>

fun reply_one :: "int \<Rightarrow> rmessage list \<Rightarrow> tmp_buffer \<Rightarrow> (tmp_buffer \<times> rmessage list) res" where
  "reply_one i [] t = bind_res (pack_request t i type_missing) (\<lambda>t1. Inr (t1, []))"
| "reply_one i (h # hs) t =
     (if i < m_id h then bind_res (pack_request t i type_missing) (\<lambda>t1. Inr (t1, h # hs))
      else if i = m_id h then bind_res (pack_message t h) (\<lambda>t1. Inr (t1, h # hs))
      else reply_one i hs t)"

fun reply_all :: "int \<Rightarrow> int list \<Rightarrow> rmessage list \<Rightarrow> tmp_buffer \<Rightarrow> tmp_buffer res" where
  "reply_all lo [] hs t = Inr t"
| "reply_all lo (i # is) hs t =
     (if i < lo then reply_all lo is hs t
      else bind_res (reply_one i hs t) (\<lambda>(t1, hs1). reply_all lo is hs1 t1))"

definition reply_request :: "rudp \<Rightarrow> tmp_buffer \<Rightarrow> (rudp \<times> tmp_buffer) res" where
  "reply_request U t =
     bind_res (reply_all (recv_id_min U) (send_again U) (send_history U) t) (\<lambda>t1. Inr (U\<lparr>send_again := []\<rparr>, t1))"

fun pack_messages :: "rmessage list \<Rightarrow> tmp_buffer \<Rightarrow> tmp_buffer res" where
  "pack_messages [] t = Inr t"
| "pack_messages (m # ms) t = bind_res (pack_message t m) (pack_messages ms)"

definition send_message :: "rudp \<Rightarrow> tmp_buffer \<Rightarrow> (rudp \<times> tmp_buffer) res" where
  "send_message U t =
     bind_res (pack_messages (send_queue U) t) (\<lambda>t1.
       Inr (U\<lparr>send_history := send_history U @ send_queue U, send_queue := []\<rparr>, t1))"

definition gen_outpackage :: "rudp \<Rightarrow> (rudp \<times> byte list list) res" where
  "gen_outpackage U =
     bind_res (request_missing U \<lparr>t_buf = [], t_packs = []\<rparr>) (\<lambda>t1.
     bind_res (reply_request U t1) (\<lambda>(U2, t2).
     bind_res (send_message U2 t2) (\<lambda>(U3, t3).
       let t4 = (if t_packs t3 = [] \<and> t_buf t3 = [] then t3\<lparr>t_buf := [word_of_int type_ignore]\<rparr> else t3)
       in Inr (U3, t_packs (new_package t4)))))"

definition rudp_update :: "rudp \<Rightarrow> byte list \<Rightarrow> int \<Rightarrow> (rudp \<times> byte list list) res" where
  "rudp_update U buffer tick =
     (let U1 = extract_package (clear_outpackage (U\<lparr>current_tick := current_tick U + tick\<rparr>)) buffer;
          U2 = (if current_tick U1 \<ge> last_expired_tick U1 + expired U1 then
                  (clear_send_expired U1 (last_expired_tick U1))\<lparr>last_expired_tick := current_tick U1\<rparr>
                else U1)
      in if current_tick U2 \<ge> last_send_tick U2 + send_delay U2 then
           bind_res (gen_outpackage U2) (\<lambda>(U3, ps).
             Inr (U3\<lparr>send_package := ps, last_send_tick := current_tick U3\<rparr>, ps))
         else Inr (U2, []))"

section \<open>The byte format\<close>

lemma and_mask_int: "(k :: int) AND 0xff = k mod 256" "k AND 0x7fff = k mod 32768" "k AND 0xffff = k mod 65536"
proof -
  have "(0xff :: int) = mask 8" "(0x7fff :: int) = mask 15" "(0xffff :: int) = mask 16"
    by (simp_all add: mask_eq_exp_minus_1)
  then show "k AND 0xff = k mod 256" "k AND 0x7fff = k mod 32768" "k AND 0xffff = k mod 65536"
    by (simp_all only: flip: take_bit_eq_mask) (simp_all add: take_bit_eq_mod)
qed

lemma high_byte: "drop_bit 8 ((k :: int) AND 0xff00) = k div 256 mod 256"
proof -
  have "drop_bit 8 (0xff00 :: int) = mask 8" by (simp add: mask_eq_exp_minus_1)
  then have "drop_bit 8 (k AND 0xff00) = drop_bit 8 k AND mask 8" by (simp only: drop_bit_and)
  then show ?thesis by (simp add: take_bit_eq_mod drop_bit_eq_div flip: take_bit_eq_mask)
qed

lemma high_length: "drop_bit 8 ((k :: int) AND 0x7f00) = k div 256 mod 128"
proof -
  have "drop_bit 8 (0x7f00 :: int) = mask 7" by (simp add: mask_eq_exp_minus_1)
  then have "drop_bit 8 (k AND 0x7f00) = drop_bit 8 k AND mask 7" by (simp only: drop_bit_and)
  then show ?thesis by (simp add: take_bit_eq_mod drop_bit_eq_div flip: take_bit_eq_mask)
qed

lemma or_high_bit: "0 \<le> k \<Longrightarrow> k < 128 \<Longrightarrow> (k :: int) OR 0x80 = k + 128"
proof -
  assume k: "0 \<le> k" "k < 128"
  have "k AND 0x80 = 0"
  proof (rule bit_eqI)
    fix n
    have "take_bit 7 k = k" using k by (simp add: take_bit_int_eq_self)
    then have "\<not> bit k 7" by (metis bit_take_bit_iff less_irrefl)
    moreover have "bit (0x80 :: int) n \<longleftrightarrow> n = 7"
      using bit_push_bit_iff [of 7 "1 :: int" n] by (auto simp: bit_1_iff push_bit_eq_mult)
    ultimately show "bit (k AND 0x80) n = bit (0 :: int) n" by (auto simp: bit_and_iff)
  qed
  then show ?thesis by (simp add: disjunctive_add_eq_or)
qed

lemma or_page: "0 \<le> r \<Longrightarrow> r < 65536 \<Longrightarrow> (r :: int) OR (m AND NOT 0xffff) = r + m div 65536 * 65536"
proof -
  assume r: "0 \<le> r" "r < 65536"
  have f: "(0xffff :: int) = mask 16" by (simp add: mask_eq_exp_minus_1)
  have "take_bit 16 r = r" using r by (simp add: take_bit_int_eq_self)
  then have "r AND (m AND NOT (mask 16)) = 0"
    by (intro bit_eqI) (metis bit_0_eq bit_and_iff bit_mask_iff bit_not_iff bit_take_bit_iff bot_apply bot_bool_def impossible_bit)
  moreover have "m AND NOT (mask 16) = m div 65536 * 65536"
  proof -
    have "m AND NOT (mask 16) = push_bit 16 (drop_bit 16 m)"
      by (rule bit_eqI) (auto simp: bit_simps)
    then show ?thesis by (simp add: push_bit_eq_mult drop_bit_eq_div)
  qed
  ultimately show ?thesis unfolding f by (simp add: disjunctive_add_eq_or)
qed

lemma uint_byte: "0 \<le> k \<Longrightarrow> k < 256 \<Longrightarrow> uint (word_of_int k :: byte) = k"
  by (simp add: uint_word_of_int)

definition id_bytes :: "int \<Rightarrow> byte list" where
  "id_bytes i = [word_of_int (i div 256 mod 256), word_of_int (i mod 256)]"

lemma fill_header_short: "len < 128 \<Longrightarrow> fill_header len i = word_of_int len # id_bytes i"
  unfolding fill_header_def id_bytes_def and_mask_int high_byte by simp

lemma fill_header_long:
  "128 \<le> len \<Longrightarrow> fill_header len i = word_of_int (len div 256 mod 128 + 128) # word_of_int (len mod 256) # id_bytes i"
  unfolding fill_header_def id_bytes_def and_mask_int high_byte high_length by (simp add: or_high_bit)

lemma length_fill_header: "length (fill_header len i) = (if len < 128 then 3 else 4)"
  by (simp add: fill_header_def)

lemma read_len_header:
  assumes "0 \<le> len" "len \<le> 0x7fff"
  shows "read_len (fill_header len i @ rest) = Some (len, id_bytes i @ rest)"
proof (cases "len < 128")
  case True
  then show ?thesis using assms by (simp add: fill_header_short read_len_def uint_byte)
next
  case False
  have d: "len div 256 mod 128 = len div 256" "0 \<le> len div 256" "len div 256 < 128"
    using assms by auto
  have "((len div 256 + 128) * 256 + len mod 256) mod 32768 = len"
  proof -
    have "(len div 256 + 128) * 256 + len mod 256 = len + 32768" by simp
    then show ?thesis using assms by simp
  qed
  moreover have "uint (word_of_int (len div 256 + 128) :: byte) = len div 256 + 128"
    by (rule uint_byte) (use d in auto)
  moreover have "uint (word_of_int (len mod 256) :: byte) = len mod 256" by (rule uint_byte) auto
  moreover have "fill_header len i = word_of_int (len div 256 + 128) # word_of_int (len mod 256) # id_bytes i"
    using fill_header_long [of len i] False d by simp
  ultimately show ?thesis
    using d unfolding read_len_def by (simp add: and_mask_int del: of_int_add)
qed

lemma id_bytes_value: "uint (hd (id_bytes i)) * 256 + uint (last (id_bytes i)) = i mod 65536"
proof -
  have "i mod 65536 = i div 256 mod 256 * 256 + i mod 256"
    using zmod_zmult2_eq [of 256 i 256] by (simp add: mult.commute)
  then show ?thesis by (simp add: id_bytes_def uint_byte)
qed

text \<open>Ids come back from their low 16 bits when they are near the greatest id received.\<close>

definition near :: "rudp \<Rightarrow> int \<Rightarrow> bool" where
  "near U i \<longleftrightarrow> 0 \<le> i \<and> 0 \<le> recv_id_max U \<and> \<bar>i - recv_id_max U\<bar> \<le> 0x7fff"

lemma get_id_near:
  assumes "near U i"
  shows "get_id U (hd (id_bytes i)) (last (id_bytes i)) = i"
proof -
  let ?M = "recv_id_max U" and ?r = "i mod 65536"
  have "get_id U (hd (id_bytes i)) (last (id_bytes i)) =
     (let k = ?r + ?M div 65536 * 65536
      in if k < ?M - 0x8000 then k + 0x10000 else if k > ?M + 0x8000 then k - 0x10000 else k)"
    unfolding get_id_def id_bytes_value by (subst or_page) simp_all
  moreover have "(let k = ?r + ?M div 65536 * 65536
      in if k < ?M - 0x8000 then k + 0x10000 else if k > ?M + 0x8000 then k - 0x10000 else k) = i"
  proof -
    define p q r s where "p = i div 65536" and "q = ?M div 65536" and "r = ?r" and "s = ?M mod 65536"
    have e: "i = r + p * 65536" "?M = s + q * 65536"
      unfolding p_def q_def r_def s_def by simp_all
    have b: "0 \<le> r" "r < 65536" "0 \<le> s" "s < 65536" unfolding r_def s_def by simp_all
    have n: "\<bar>i - ?M\<bar> \<le> 32767" using assms by (simp add: near_def)
    then consider "p = q" | "p = q + 1" | "p = q - 1" using e b by linarith
    then show ?thesis
      unfolding Let_def r_def [symmetric] q_def [symmetric] using e b n by cases auto
  qed
  ultimately show ?thesis by simp
qed

text \<open>What the two sides say to each other.\<close>

datatype frame = FRequest int | FMissing int | FData int "byte list"

fun frame_bytes :: "frame \<Rightarrow> byte list" where
  "frame_bytes (FRequest i) = fill_header type_request i"
| "frame_bytes (FMissing i) = fill_header type_missing i"
| "frame_bytes (FData i bs) = fill_header (int (length bs) + type_normal) i @ bs"

fun frame_id :: "frame \<Rightarrow> int" where
  "frame_id (FRequest i) = i"
| "frame_id (FMissing i) = i"
| "frame_id (FData i bs) = i"

fun frame_ok :: "frame \<Rightarrow> bool" where
  "frame_ok (FData i bs) \<longleftrightarrow> int (length bs) \<le> max_package"
| "frame_ok _ \<longleftrightarrow> True"

fun apply_frame :: "rudp \<Rightarrow> frame \<Rightarrow> rudp" where
  "apply_frame U (FRequest i) = add_request U i"
| "apply_frame U (FMissing i) = add_missing U i"
| "apply_frame U (FData i bs) = insert_message U i bs (int (length bs))"

definition encode_frames :: "frame list \<Rightarrow> byte list" where
  "encode_frames fs = concat (map frame_bytes fs)"

lemma encode_frames_simps [simp]:
  "encode_frames [] = []" "encode_frames (f # fs) = frame_bytes f @ encode_frames fs"
  "encode_frames (fs @ gs) = encode_frames fs @ encode_frames gs"
  by (simp_all add: encode_frames_def)

lemma frame_bytes_nonempty [simp]: "frame_bytes f \<noteq> []"
  by (cases f) (simp_all add: fill_header_def)

lemma encode_frames_nil: "encode_frames fs = [] \<longleftrightarrow> fs = []"
  by (cases fs) simp_all

lemma new_message_take: "new_message U (bs @ rest) (int (length bs)) = new_message U bs (int (length bs))"
  by (simp add: new_message_def)

lemma fill_header_nonempty [simp]: "fill_header len i \<noteq> []"
  by (simp add: fill_header_def)

lemma insert_message_take: "insert_message U i (bs @ rest) (int (length bs)) = insert_message U i bs (int (length bs))"
  unfolding insert_message_def new_message_take ..

lemmas type_defs = type_ignore_def type_corrupt_def type_request_def type_missing_def type_normal_def

lemma extract_frame:
  assumes "frame_ok f" "near U (frame_id f)"
  shows "extract_package U (frame_bytes f @ rest) = extract_package (apply_frame U f) rest"
proof -
  let ?i = "frame_id f"
  obtain b0 b1 where ids: "id_bytes ?i = [b0, b1]" by (simp add: id_bytes_def)
  have g: "get_id U b0 b1 = ?i" using get_id_near [OF assms(2)] by (simp add: ids)
  show ?thesis
  proof (cases f)
    case (FRequest i)
    have r: "read_len (fill_header type_request i @ rest) = Some (type_request, b0 # b1 # rest)"
      using read_len_header [of type_request i rest] ids FRequest by (simp add: type_defs)
    show ?thesis
      using FRequest g r by (subst extract_package.simps) (simp add: type_defs fill_header_def)
  next
    case (FMissing i)
    have r: "read_len (fill_header type_missing i @ rest) = Some (type_missing, b0 # b1 # rest)"
      using read_len_header [of type_missing i rest] ids FMissing by (simp add: type_defs)
    show ?thesis
      using FMissing g r by (subst extract_package.simps) (simp add: type_defs fill_header_def)
  next
    case (FData i bs)
    let ?len = "int (length bs) + type_normal"
    have r: "read_len (fill_header ?len i @ bs @ rest) = Some (?len, b0 # b1 # bs @ rest)"
      using read_len_header [of ?len i "bs @ rest"] ids FData assms(1) by (simp add: type_defs max_package_def)
    have "extract_package U (fill_header ?len i @ bs @ rest) =
        extract_package (insert_message U i (bs @ rest) (int (length bs))) rest"
      using FData g r by (subst extract_package.simps) (simp add: type_defs)
    then show ?thesis using FData by (simp add: insert_message_take)
  qed
qed

text \<open>A whole package, when every id is near while its frame is handled.\<close>

fun frames_ok :: "rudp \<Rightarrow> frame list \<Rightarrow> bool" where
  "frames_ok U [] \<longleftrightarrow> True"
| "frames_ok U (f # fs) \<longleftrightarrow> frame_ok f \<and> near U (frame_id f) \<and> frames_ok (apply_frame U f) fs"

lemma extract_frames: "frames_ok U fs \<Longrightarrow> extract_package U (encode_frames fs) = fold (\<lambda>f V. apply_frame V f) fs U"
proof (induction fs arbitrary: U)
  case Nil
  then show ?case by (simp add: extract_package.simps)
next
  case (Cons f fs)
  then show ?case using extract_frame [of f U] by simp
qed

lemma frames_ok_append:
  "frames_ok U (fs @ gs) \<longleftrightarrow> frames_ok U fs \<and> frames_ok (fold (\<lambda>f V. apply_frame V f) fs U) gs"
  by (induction fs arbitrary: U) auto

section \<open>What is written\<close>

text \<open>
  The buffer and the packages hold the encodings of whole frames: no frame is cut by the end
  of a package, and the buffer of \<open>GENERAL_PACKAGE\<close> bytes is never overrun.
\<close>

definition packed :: "tmp_buffer \<Rightarrow> frame list \<Rightarrow> bool" where
  "packed t fs \<longleftrightarrow>
     (\<exists>gss cur. t_packs t = map encode_frames gss \<and> t_buf t = encode_frames cur \<and> concat gss @ cur = fs \<and>
        [] \<notin> set gss \<and> int (length (t_buf t)) \<le> general_package)"

lemma packed_empty: "packed \<lparr>t_buf = [], t_packs = []\<rparr> []"
  unfolding packed_def by (intro exI [of _ "[]"]) (simp add: general_package_def)

lemma packed_new_package:
  assumes "packed t fs" "t_buf t \<noteq> []"
  shows "packed (new_package t) fs"
proof -
  obtain gss cur where "t_packs t = map encode_frames gss" "t_buf t = encode_frames cur" "concat gss @ cur = fs" "[] \<notin> set gss"
    using assms(1) by (auto simp: packed_def)
  moreover have "cur \<noteq> []" using assms(2) calculation(2) by auto
  ultimately show ?thesis
    unfolding packed_def by (intro exI [of _ "gss @ [cur]"] exI [of _ "[]"]) (simp add: new_package_def general_package_def)
qed

lemma packed_write:
  assumes "packed t fs" "int (length (t_buf t) + length (frame_bytes f)) \<le> general_package"
  shows "\<exists>t'. write_tmp t (frame_bytes f) = Inr t' \<and> packed t' (fs @ [f])"
proof -
  obtain gss cur where "t_packs t = map encode_frames gss" "t_buf t = encode_frames cur" "concat gss @ cur = fs" "[] \<notin> set gss"
    using assms(1) by (auto simp: packed_def)
  then have "packed (t\<lparr>t_buf := t_buf t @ frame_bytes f\<rparr>) (fs @ [f])"
    unfolding packed_def using assms(2) by (intro exI [of _ gss] exI [of _ "cur @ [f]"]) simp
  then show ?thesis using assms(2) by (simp add: write_tmp_def)
qed

lemma packed_nil:
  assumes "packed t fs"
  shows "t_packs t = [] \<and> t_buf t = [] \<longleftrightarrow> fs = []"
proof -
  obtain gss cur where "t_packs t = map encode_frames gss" "t_buf t = encode_frames cur" "concat gss @ cur = fs"
    "[] \<notin> set gss" using assms by (auto simp: packed_def)
  then show ?thesis by (cases gss) (auto simp: encode_frames_nil)
qed

lemma packed_length: "packed t fs \<Longrightarrow> int (length (t_buf t)) \<le> general_package"
  by (auto simp: packed_def)

lemma pack_request_packed:
  assumes "packed t fs" "frame_bytes f = fill_header tag i" "tag < 128"
  shows "\<exists>t'. pack_request t i tag = Inr t' \<and> packed t' (fs @ [f])"
proof -
  let ?t = "if general_package - int (length (t_buf t)) < 3 then new_package t else t"
  have "packed ?t fs" using assms(1) packed_new_package [OF assms(1)] by (cases "t_buf t = []") (auto simp: general_package_def)
  moreover have "int (length (t_buf ?t) + length (frame_bytes f)) \<le> general_package"
    using assms(2,3) by (simp add: length_fill_header new_package_def general_package_def)
  ultimately show ?thesis
    using packed_write [of ?t fs f] assms(2) by (simp add: pack_request_def Let_def)
qed

lemma pack_frequest: "packed t fs \<Longrightarrow> \<exists>t'. pack_request t i type_request = Inr t' \<and> packed t' (fs @ [FRequest i])"
  by (rule pack_request_packed) (simp_all add: type_request_def)

lemma pack_fmissing: "packed t fs \<Longrightarrow> \<exists>t'. pack_request t i type_missing = Inr t' \<and> packed t' (fs @ [FMissing i])"
  by (rule pack_request_packed) (simp_all add: type_missing_def)

definition message_ok :: "rmessage \<Rightarrow> bool" where
  "message_ok m \<longleftrightarrow> m_sz m = int (length (m_buffer m)) \<and> m_sz m \<le> max_package"

definition data_frame :: "rmessage \<Rightarrow> frame" where
  "data_frame m = FData (m_id m) (m_buffer m)"

lemma pack_message_packed:
  assumes "packed t fs" "message_ok m"
  shows "\<exists>t'. pack_message t m = Inr t' \<and> packed t' (fs @ [data_frame m])"
proof (cases "m_sz m > general_package - 4")
  case True
  let ?t = "if t_buf t \<noteq> [] then new_package t else t"
  have "packed ?t fs" using assms(1) packed_new_package [OF assms(1)] by simp
  then obtain gss cur where g: "t_packs ?t = map encode_frames gss" "t_buf ?t = encode_frames cur" "concat gss @ cur = fs"
    "[] \<notin> set gss"
    by (auto simp: packed_def)
  have "t_buf ?t = []" by (simp add: new_package_def)
  then have cur: "cur = []" using g(2) by (simp add: encode_frames_nil)
  let ?t' = "?t\<lparr>t_packs := t_packs ?t @ [frame_bytes (data_frame m)]\<rparr>"
  have "packed ?t' (fs @ [data_frame m])"
    unfolding packed_def using g cur \<open>t_buf ?t = []\<close>
    by (intro exI [of _ "gss @ [[data_frame m]]"] exI [of _ "[]"]) (simp add: general_package_def)
  moreover have "pack_message t m = Inr ?t'"
    using True assms(2) by (simp add: pack_message_def Let_def data_frame_def message_ok_def)
  ultimately show ?thesis by blast
next
  case False
  let ?t = "if general_package - int (length (t_buf t)) < 4 + m_sz m then new_package t else t"
  have "packed ?t fs" using assms(1) packed_new_package [OF assms(1)] False by (cases "t_buf t = []") (auto simp: general_package_def)
  moreover have "int (length (t_buf ?t) + length (frame_bytes (data_frame m))) \<le> general_package"
    using False assms(2)
    by (auto simp: length_fill_header new_package_def general_package_def data_frame_def message_ok_def type_defs)
  ultimately show ?thesis
    using packed_write [of ?t fs "data_frame m"] False assms(2)
    by (simp add: pack_message_def Let_def data_frame_def message_ok_def)
qed

lemma pack_requests_packed:
  "packed t fs \<Longrightarrow> \<exists>t'. pack_requests t is = Inr t' \<and> packed t' (fs @ map FRequest is)"
proof (induction "is" arbitrary: t fs)
  case (Cons i "is")
  obtain t1 where "pack_request t i type_request = Inr t1" "packed t1 (fs @ [FRequest i])"
    using pack_frequest [OF Cons.prems] by blast
  with Cons.IH [of t1 "fs @ [FRequest i]"] show ?case by auto
qed simp

lemma pack_messages_packed:
  "packed t fs \<Longrightarrow> \<forall>m\<in>set ms. message_ok m \<Longrightarrow> \<exists>t'. pack_messages ms t = Inr t' \<and> packed t' (fs @ map data_frame ms)"
proof (induction ms arbitrary: t fs)
  case (Cons m ms)
  obtain t1 where "pack_message t m = Inr t1" "packed t1 (fs @ [data_frame m])"
    using pack_message_packed [OF Cons.prems(1)] Cons.prems(2) by auto
  with Cons.IH [of t1 "fs @ [data_frame m]"] Cons.prems(2) show ?case by auto
qed simp

text \<open>The requests: the ids between those that have arrived.\<close>

fun gaps :: "int \<Rightarrow> rmessage list \<Rightarrow> int list" where
  "gaps i [] = []"
| "gaps i (m # ms) = [i..m_id m - 1] @ gaps (m_id m + 1) ms"

fun ascending_from :: "int \<Rightarrow> rmessage list \<Rightarrow> bool" where
  "ascending_from i [] \<longleftrightarrow> True"
| "ascending_from i (m # ms) \<longleftrightarrow> i \<le> m_id m \<and> ascending_from (m_id m + 1) ms"

lemma request_gaps_packed:
  "packed t fs \<Longrightarrow> ascending_from i q \<Longrightarrow> \<exists>t'. request_gaps i q t = Inr t' \<and> packed t' (fs @ map FRequest (gaps i q))"
proof (induction q arbitrary: i t fs)
  case (Cons m q)
  obtain t1 where "pack_requests t [i..m_id m - 1] = Inr t1" "packed t1 (fs @ map FRequest [i..m_id m - 1])"
    using pack_requests_packed [OF Cons.prems(1)] by blast
  with Cons.IH [of t1 "fs @ map FRequest [i..m_id m - 1]" "m_id m + 1"] Cons.prems(2) show ?case by auto
qed simp

lemma request_gaps_fault: "packed t fs \<Longrightarrow> \<not> ascending_from i q \<Longrightarrow> request_gaps i q t = Inl AssertFailed"
proof (induction q arbitrary: i t fs)
  case (Cons m q)
  obtain t1 where t1: "pack_requests t [i..m_id m - 1] = Inr t1" "packed t1 (fs @ map FRequest [i..m_id m - 1])"
    using pack_requests_packed [OF Cons.prems(1)] by blast
  show ?case
  proof (cases "i \<le> m_id m")
    case True
    with Cons.prems(2) Cons.IH [OF t1(2)] t1(1) show ?thesis by simp
  next
    case False
    then show ?thesis by simp
  qed
qed simp

lemma ascending_from_lower: "ascending_from i q \<Longrightarrow> \<forall>m\<in>set q. i \<le> m_id m"
  by (induction q arbitrary: i) fastforce+

lemma set_gaps:
  "ascending_from i q \<Longrightarrow> q \<noteq> [] \<Longrightarrow> set (gaps i q) = {i..m_id (last q)} - m_id ` set q"
proof (induction q arbitrary: i)
  case (Cons m q)
  show ?case
  proof (cases "q = []")
    case True
    then show ?thesis by auto
  next
    case False
    then have IH: "set (gaps (m_id m + 1) q) = {m_id m + 1..m_id (last q)} - m_id ` set q"
      using Cons by simp
    have q: "\<forall>x\<in>set q. m_id m + 1 \<le> m_id x" using Cons.prems(1) ascending_from_lower by auto
    then have top: "m_id m + 1 \<le> m_id (last q)" using False by simp
    have "i \<le> m_id m" using Cons.prems(1) by simp
    have "k \<in> {i..m_id m - 1} \<union> ({m_id m + 1..m_id (last q)} - m_id ` set q) \<longleftrightarrow>
        k \<in> {i..m_id (last q)} - insert (m_id m) (m_id ` set q)" for k
    proof (cases "k \<le> m_id m")
      case True
      then have "k \<notin> m_id ` set q" using q by force
      then show ?thesis using True top by auto
    next
      case False
      then show ?thesis using \<open>i \<le> m_id m\<close> by auto
    qed
    then have "{i..m_id m - 1} \<union> ({m_id m + 1..m_id (last q)} - m_id ` set q) =
        {i..m_id (last q)} - insert (m_id m) (m_id ` set q)" by blast
    then show ?thesis using False by (simp add: IH)
  qed
qed simp

text \<open>The replies: from the history, or that the message is gone.\<close>

definition reply_frame :: "rmessage list \<Rightarrow> int \<Rightarrow> frame" where
  "reply_frame hs i = (case find (\<lambda>m. m_id m = i) hs of Some m \<Rightarrow> data_frame m | None \<Rightarrow> FMissing i)"

lemma find_none: "\<forall>m\<in>set hs. i < m_id m \<Longrightarrow> find (\<lambda>m. m_id m = i) hs = None"
  by (induction hs) auto

lemma reply_one_packed:
  "packed t fs \<Longrightarrow> ascending_from lo hs \<Longrightarrow> \<forall>m\<in>set hs. message_ok m \<Longrightarrow>
   \<exists>t' hs'. reply_one i hs t = Inr (t', hs') \<and> packed t' (fs @ [reply_frame hs i]) \<and>
     ascending_from lo hs' \<and> (\<forall>m\<in>set hs'. message_ok m) \<and>
     (\<forall>j. i < j \<longrightarrow> reply_frame hs' j = reply_frame hs j)"
proof (induction hs arbitrary: lo)
  case Nil
  obtain t1 where "pack_request t i type_missing = Inr t1" "packed t1 (fs @ [FMissing i])"
    using pack_fmissing [OF Nil.prems(1)] by blast
  then show ?case by (simp add: reply_frame_def)
next
  case (Cons h hs)
  have asc: "lo \<le> m_id h" "ascending_from (m_id h + 1) hs" using Cons.prems(2) by simp_all
  consider "i < m_id h" | "i = m_id h" | "m_id h < i" by linarith
  then show ?case
  proof cases
    case 1
    obtain t1 where "pack_request t i type_missing = Inr t1" "packed t1 (fs @ [FMissing i])"
      using pack_fmissing [OF Cons.prems(1)] by blast
    moreover have "find (\<lambda>m. m_id m = i) (h # hs) = None"
      using 1 ascending_from_lower [OF asc(2)] by (intro find_none) force
    ultimately show ?thesis using 1 Cons.prems(2,3) by (simp add: reply_frame_def)
  next
    case 2
    obtain t1 where "pack_message t h = Inr t1" "packed t1 (fs @ [data_frame h])"
      using pack_message_packed [OF Cons.prems(1)] Cons.prems(3) by auto
    then show ?thesis using 2 Cons.prems(2,3) by (simp add: reply_frame_def)
  next
    case 3
    have skip: "reply_frame (h # hs) j = reply_frame hs j" if "m_id h < j" for j
      using that by (simp add: reply_frame_def)
    obtain t' hs' where IH: "reply_one i hs t = Inr (t', hs')" "packed t' (fs @ [reply_frame hs i])"
      "ascending_from (m_id h + 1) hs'" "\<forall>m\<in>set hs'. message_ok m" "\<forall>j. i < j \<longrightarrow> reply_frame hs' j = reply_frame hs j"
      using Cons.IH [OF Cons.prems(1) asc(2)] Cons.prems(3) by auto
    have "ascending_from lo hs'" using IH(3) asc(1) by (cases hs') auto
    then show ?thesis using 3 IH skip by auto
  qed
qed

lemma reply_all_packed:
  "packed t fs \<Longrightarrow> ascending_from lo hs \<Longrightarrow> \<forall>m\<in>set hs. message_ok m \<Longrightarrow> sorted_wrt (<) is \<Longrightarrow>
   \<exists>t'. reply_all n is hs t = Inr t' \<and> packed t' (fs @ map (reply_frame hs) (filter (\<lambda>i. n \<le> i) is))"
proof (induction "is" arbitrary: t fs hs)
  case (Cons i "is")
  show ?case
  proof (cases "i < n")
    case True
    then show ?thesis using Cons by simp
  next
    case False
    obtain t1 hs1 where r: "reply_one i hs t = Inr (t1, hs1)" "packed t1 (fs @ [reply_frame hs i])"
      "ascending_from lo hs1" "\<forall>m\<in>set hs1. message_ok m" "\<forall>j. i < j \<longrightarrow> reply_frame hs1 j = reply_frame hs j"
      using reply_one_packed [OF Cons.prems(1-3)] by blast
    obtain t' where IH: "reply_all n is hs1 t1 = Inr t'"
      "packed t' ((fs @ [reply_frame hs i]) @ map (reply_frame hs1) (filter (\<lambda>i. n \<le> i) is))"
      using Cons.IH [OF r(2,3,4)] Cons.prems(4) by auto
    have eq: "map (reply_frame hs1) (filter (\<lambda>i. n \<le> i) is) = map (reply_frame hs) (filter (\<lambda>i. n \<le> i) is)"
      using r(5) Cons.prems(4) by auto
    have "packed t' (fs @ map (reply_frame hs) (filter (\<lambda>i. n \<le> i) (i # is)))"
      using IH(2) False unfolding eq by simp
    then show ?thesis using IH(1) False r(1) by simp
  qed
qed simp

section \<open>What is received\<close>

definition entry :: "rmessage \<Rightarrow> int \<times> int \<times> byte list" where
  "entry m = (m_id m, m_sz m, m_buffer m)"

lemma new_message_fields:
  assumes "new_message U bs sz = (U1, m)"
  shows "recv_queue U1 = recv_queue U" "recv_id_min U1 = recv_id_min U" "recv_id_max U1 = recv_id_max U"
    "corrupt U1 = corrupt U" "send_queue U1 = send_queue U" "send_id U1 = send_id U"
    "send_again U1 = send_again U" "current_tick U1 = current_tick U" "m_sz m = sz"
    "m_buffer m = (if sz > 0 then take (nat sz) bs else [])"
    "send_history U1 = send_history U"
  using assms by (auto simp: new_message_def Let_def split: list.splits)

text \<open>The queue is ascending from the next id wanted, and its last id is the greatest received.\<close>

definition recv_ok :: "rudp \<Rightarrow> bool" where
  "recv_ok U \<longleftrightarrow> ascending_from (recv_id_min U) (recv_queue U) \<and>
     (recv_queue U \<noteq> [] \<longrightarrow> recv_id_max U = m_id (last (recv_queue U)))"

lemma ascending_from_append:
  "ascending_from i (a @ b) \<longleftrightarrow> ascending_from i a \<and> ascending_from (if a = [] then i else m_id (last a) + 1) b"
  by (induction a arbitrary: i) auto

lemma ascending_from_le_last: "ascending_from i q \<Longrightarrow> m \<in> set q \<Longrightarrow> m_id m \<le> m_id (last q)"
proof (induction q arbitrary: i)
  case (Cons x q)
  show ?case
  proof (cases "m = x \<and> q \<noteq> []")
    case True
    then have "last q \<in> set q" by simp
    moreover have "\<forall>y\<in>set q. m_id x + 1 \<le> m_id y" using Cons.prems(1) ascending_from_lower by auto
    ultimately have "m_id x + 1 \<le> m_id (last q)" by blast
    then show ?thesis using True by simp
  next
    case False
    then show ?thesis using Cons by auto
  qed
qed simp

lemma split_greater_None: "split_greater i q = None \<longleftrightarrow> (\<forall>m\<in>set q. m_id m \<le> i)"
  by (induction q) auto

lemma split_greater_Some:
  "split_greater i q = Some (a, b) \<Longrightarrow> q = a @ b \<and> (\<forall>m\<in>set a. m_id m \<le> i) \<and> b \<noteq> [] \<and> i < m_id (hd b)"
  by (induction q arbitrary: a) (auto split: if_splits)

lemma ascending_from_insert:
  assumes "ascending_from lo (a @ b)" "\<forall>m\<in>set a. m_id m < i" "b \<noteq> []" "i < m_id (hd b)" "m_id x = i" "lo \<le> i"
  shows "ascending_from lo (a @ x # b)"
proof (cases "a = []")
  case False
  then have "m_id (last a) < i" using assms(2) by simp
  then show ?thesis using assms by (cases b) (auto simp: ascending_from_append)
qed (use assms in \<open>cases b; auto\<close>)

lemma insert_message_fresh:
  assumes "recv_ok U" "i \<notin> m_id ` set (recv_queue U)" "recv_id_min U \<le> i"
  shows "recv_ok (insert_message U i bs sz) \<and>
    set (map entry (recv_queue (insert_message U i bs sz))) =
      insert (i, sz, if sz > 0 then take (nat sz) bs else []) (set (map entry (recv_queue U)))"
proof -
  obtain U1 m where n: "new_message U bs sz = (U1, m)" by fastforce
  note f = new_message_fields [OF n]
  let ?m = "m\<lparr>m_id := i\<rparr>"
  have e: "entry ?m = (i, sz, if sz > 0 then take (nat sz) bs else [])" using f by (simp add: entry_def)
  have asc: "ascending_from (recv_id_min U) (recv_queue U)" using assms(1) by (simp add: recv_ok_def)
  show ?thesis
  proof (cases "i > recv_id_max U \<or> recv_queue U = []")
    case True
    then have "insert_message U i bs sz = U1\<lparr>recv_queue := recv_queue U @ [?m], recv_id_max := i\<rparr>"
      using assms(3) n f(1) by (auto simp: insert_message_def queue_push_def)
    moreover have "ascending_from (recv_id_min U) (recv_queue U @ [?m])"
      using asc assms(1,3) True by (auto simp: ascending_from_append recv_ok_def)
    ultimately show ?thesis using e f(2) by (simp add: recv_ok_def)
  next
    case False
    then have last: "recv_queue U \<noteq> []" "i \<le> m_id (last (recv_queue U))" using assms(1) by (auto simp: recv_ok_def)
    then have "i < m_id (last (recv_queue U))" using assms(2) by (metis image_eqI last_in_set order_le_less)
    then obtain a b where ab: "split_greater i (recv_queue U) = Some (a, b)"
      using last(1) last_in_set split_greater_None [of i "recv_queue U"] by fastforce
    note s = split_greater_Some [OF ab]
    have "insert_message U i bs sz = U1\<lparr>recv_queue := a @ ?m # b\<rparr>"
      using assms(3) n False ab by (auto simp: insert_message_def)
    moreover have "\<forall>m\<in>set a. m_id m < i" using s assms(2) by (force simp: order_le_less)
    then have "ascending_from (recv_id_min U) (a @ ?m # b)"
      using asc s assms(3) by (intro ascending_from_insert) auto
    moreover have "recv_id_max U = m_id (last b)" using assms(1) s last(1) by (simp add: recv_ok_def)
    ultimately show ?thesis using e f(2,3) s by (auto simp: recv_ok_def)
  qed
qed

lemma insert_message_last:
  assumes "recv_ok U" "recv_queue U \<noteq> []"
  shows "insert_message U (recv_id_max U) bs sz = U"
proof -
  have "\<forall>m\<in>set (recv_queue U). m_id m \<le> recv_id_max U"
    using assms ascending_from_le_last by (auto simp: recv_ok_def)
  then have "split_greater (recv_id_max U) (recv_queue U) = None" by (simp add: split_greater_None)
  then show ?thesis using assms(2) by (simp add: insert_message_def)
qed

lemma insert_message_duplicate:
  assumes "recv_ok U" "i \<in> m_id ` set (recv_queue U)" "i \<noteq> recv_id_max U"
  shows "recv_id_min (insert_message U i bs sz) = recv_id_min U \<and>
    \<not> ascending_from (recv_id_min U) (recv_queue (insert_message U i bs sz))"
proof -
  obtain U1 m where n: "new_message U bs sz = (U1, m)" by fastforce
  note f = new_message_fields [OF n]
  let ?m = "m\<lparr>m_id := i\<rparr>"
  have asc: "ascending_from (recv_id_min U) (recv_queue U)" using assms(1) by (simp add: recv_ok_def)
  obtain y where y: "y \<in> set (recv_queue U)" "m_id y = i" using assms(2) by blast
  have lo: "recv_id_min U \<le> i" using ascending_from_lower [OF asc] y by auto
  have ne: "recv_queue U \<noteq> []" using y by auto
  have "i \<le> recv_id_max U" using ascending_from_le_last [OF asc y(1)] y(2) assms(1) ne by (simp add: recv_ok_def)
  then have "i < m_id (last (recv_queue U))" using assms(1,3) ne by (simp add: recv_ok_def)
  then obtain a b where ab: "split_greater i (recv_queue U) = Some (a, b)"
    using ne last_in_set split_greater_None [of i "recv_queue U"] by fastforce
  note s = split_greater_Some [OF ab]
  have "y \<notin> set b"
  proof
    assume "y \<in> set b"
    moreover have "\<forall>z\<in>set b. m_id (hd b) \<le> m_id z"
      using asc s ascending_from_lower by (cases b) (fastforce simp: ascending_from_append)+
    ultimately show False using y(2) s by fastforce
  qed
  then have ya: "y \<in> set a" using y(1) s by simp
  have "insert_message U i bs sz = U1\<lparr>recv_queue := a @ ?m # b\<rparr>"
    using lo n ab ne \<open>i \<le> recv_id_max U\<close> by (auto simp: insert_message_def)
  moreover have "\<not> ascending_from (recv_id_min U) (a @ ?m # b)"
  proof
    assume "ascending_from (recv_id_min U) (a @ ?m # b)"
    then have a: "ascending_from (recv_id_min U) a" "m_id (last a) + 1 \<le> i"
      using ya by (auto simp: ascending_from_append split: if_splits)
    then show False using ascending_from_le_last [OF a(1) ya] y(2) by simp
  qed
  ultimately show ?thesis using f(2) by simp
qed

text \<open>A run of data frames in order.\<close>

fun consecutive :: "int \<Rightarrow> rmessage list \<Rightarrow> bool" where
  "consecutive i [] \<longleftrightarrow> True"
| "consecutive i (m # ms) \<longleftrightarrow> m_id m = i \<and> consecutive (i + 1) ms"

lemma apply_data_run:
  "consecutive i ms \<Longrightarrow> \<forall>m\<in>set ms. message_ok m \<Longrightarrow> near V i \<Longrightarrow> recv_id_min V \<le> i \<Longrightarrow>
   recv_queue V = [] \<or> recv_id_max V < i \<Longrightarrow>
   frames_ok V (map data_frame ms) \<and>
   (let V' = fold (\<lambda>f V. apply_frame V f) (map data_frame ms) V
    in map entry (recv_queue V') = map entry (recv_queue V) @ map entry ms \<and>
       recv_id_min V' = recv_id_min V \<and> corrupt V' = corrupt V \<and> near V' (i + int (length ms)))"
proof (induction ms arbitrary: i V)
  case (Cons m ms)
  obtain U1 x where n: "new_message V (m_buffer m) (int (length (m_buffer m))) = (U1, x)" by fastforce
  note f = new_message_fields [OF n]
  let ?V = "U1\<lparr>recv_queue := recv_queue V @ [x\<lparr>m_id := i\<rparr>], recv_id_max := i\<rparr>"
  have m: "m_id m = i" "m_sz m = int (length (m_buffer m))" "m_sz m \<le> max_package"
    using Cons.prems(1,2) by (auto simp: message_ok_def)
  have ap: "apply_frame V (data_frame m) = ?V"
    using Cons.prems(4,5) n f(1) m(1) by (auto simp: data_frame_def insert_message_def queue_push_def)
  have en: "entry (x\<lparr>m_id := i\<rparr>) = entry m" using f(9,10) m by (auto simp: entry_def)
  have nr: "near ?V (i + 1)" using Cons.prems(3) by (simp add: near_def)
  have "consecutive (i + 1) ms" "\<forall>m\<in>set ms. message_ok m" "recv_id_min ?V \<le> i + 1" "recv_id_max ?V < i + 1"
    using Cons.prems f(2) by auto
  from Cons.IH [OF this(1,2) nr this(3)] this(4)
  have IH: "frames_ok ?V (map data_frame ms) \<and>
   (let V' = fold (\<lambda>f V. apply_frame V f) (map data_frame ms) ?V
    in map entry (recv_queue V') = map entry (recv_queue ?V) @ map entry ms \<and>
       recv_id_min V' = recv_id_min ?V \<and> corrupt V' = corrupt ?V \<and> near V' (i + 1 + int (length ms)))"
    by blast
  have "frame_ok (data_frame m)" "frame_id (data_frame m) = i" using m by (simp_all add: data_frame_def)
  then show ?case
    using IH Cons.prems(3) f(2,4) en ap by (simp add: Let_def add.assoc)
qed simp

fun rudp_recv_n :: "nat \<Rightarrow> rudp \<Rightarrow> rudp \<times> (int \<times> byte list) list" where
  "rudp_recv_n 0 U = (U, [])"
| "rudp_recv_n (Suc n) U =
     (let (U1, r) = rudp_recv U; (U2, rs) = rudp_recv_n n U1 in (U2, r # rs))"

lemma rudp_recv_run:
  "map entry (recv_queue V) = map entry ms \<Longrightarrow> consecutive (recv_id_min V) ms \<Longrightarrow> \<forall>m\<in>set ms. message_ok m \<Longrightarrow>
   \<not> corrupt V \<Longrightarrow>
   \<exists>V'. rudp_recv_n (length ms) V = (V', map (\<lambda>m. (m_sz m, m_buffer m)) ms) \<and> recv_queue V' = [] \<and>
     recv_id_min V' = recv_id_min V + int (length ms) \<and> recv_id_max V' = recv_id_max V \<and> \<not> corrupt V'"
proof (induction ms arbitrary: V)
  case (Cons m ms)
  obtain x q where q: "recv_queue V = x # q" "entry x = entry m" "map entry q = map entry ms"
    using Cons.prems(1) by auto
  have x: "m_id x = recv_id_min V" "m_sz x = m_sz m" "m_buffer x = m_buffer m" "m_sz m = int (length (m_buffer m))"
    using q(2) Cons.prems(2,3) by (auto simp: entry_def message_ok_def)
  let ?V = "delete_message (V\<lparr>recv_queue := q, recv_id_min := recv_id_min V + 1\<rparr>) x"
  have r: "rudp_recv V = (?V, m_sz m, m_buffer m)"
    using Cons.prems(4) q(1) x by (auto simp: rudp_recv_def queue_pop_def)
  have "map entry (recv_queue ?V) = map entry ms" "consecutive (recv_id_min ?V) ms" "\<not> corrupt ?V"
    using q(3) Cons.prems(2,4) by (simp_all add: delete_message_def)
  from Cons.IH [OF this(1,2) _ this(3)] Cons.prems(3) obtain V' where
    "rudp_recv_n (length ms) ?V = (V', map (\<lambda>m. (m_sz m, m_buffer m)) ms)" "recv_queue V' = []"
    "recv_id_min V' = recv_id_min ?V + int (length ms)" "recv_id_max V' = recv_id_max ?V" "\<not> corrupt V'" by auto
  then show ?case using r by (auto simp: Let_def delete_message_def)
qed simp

text \<open>A sequence of sends.\<close>

fun rudp_send_all :: "byte list list \<Rightarrow> rudp \<Rightarrow> rudp res" where
  "rudp_send_all [] U = Inr U"
| "rudp_send_all (d # ds) U = bind_res (rudp_send U d) (rudp_send_all ds)"

lemma rudp_send_run:
  "\<forall>d\<in>set ds. int (length d) \<le> max_package \<Longrightarrow>
   \<exists>U' ms. rudp_send_all ds U = Inr U' \<and> send_queue U' = send_queue U @ ms \<and> consecutive (send_id U) ms \<and>
     map m_buffer ms = ds \<and> (\<forall>m\<in>set ms. message_ok m) \<and> send_id U' = send_id U + int (length ds) \<and>
     recv_queue U' = recv_queue U \<and> send_again U' = send_again U \<and> recv_id_min U' = recv_id_min U \<and>
     send_history U' = send_history U"
proof (induction ds arbitrary: U)
  case (Cons d ds)
  obtain U1 m where n: "new_message U d (int (length d)) = (U1, m)" by fastforce
  note f = new_message_fields [OF n]
  let ?m = "m\<lparr>m_id := send_id U, m_tick := current_tick U\<rparr>"
  let ?U = "U1\<lparr>send_id := send_id U + 1, send_queue := send_queue U @ [?m]\<rparr>"
  have s: "rudp_send U d = Inr ?U"
    using Cons.prems n f by (simp add: rudp_send_def queue_push_def Let_def)
  obtain U' ms where "rudp_send_all ds ?U = Inr U'" "send_queue U' = send_queue ?U @ ms" "consecutive (send_id ?U) ms"
    "map m_buffer ms = ds" "\<forall>m\<in>set ms. message_ok m" "send_id U' = send_id ?U + int (length ds)"
    "recv_queue U' = recv_queue ?U" "send_again U' = send_again ?U" "recv_id_min U' = recv_id_min ?U"
    "send_history U' = send_history ?U"
    using Cons.IH [of ?U] Cons.prems by auto
  then show ?case
    using s f Cons.prems by (intro exI [of _ U'] exI [of _ "?m # ms"]) (auto simp: message_ok_def)
qed simp

section \<open>Properties\<close>

definition out_frames :: "rudp \<Rightarrow> frame list" where
  "out_frames U =
     map FRequest (gaps (recv_id_min U) (recv_queue U)) @
     map (reply_frame (send_history U)) (filter (\<lambda>i. recv_id_min U \<le> i) (send_again U)) @
     map data_frame (send_queue U)"

definition send_ok :: "rudp \<Rightarrow> bool" where
  "send_ok U \<longleftrightarrow> (\<forall>m\<in>set (send_history U @ send_queue U). message_ok m) \<and>
     (\<exists>lo. ascending_from lo (send_history U)) \<and> sorted_wrt (<) (send_again U)"

lemma gen_outpackage_run:
  assumes "ascending_from (recv_id_min U) (recv_queue U)" "send_ok U"
  shows "\<exists>ps. gen_outpackage U = Inr (U\<lparr>send_again := [], send_history := send_history U @ send_queue U, send_queue := []\<rparr>, ps) \<and>
    (if out_frames U = [] then ps = [[0]] else \<exists>gss. ps = map encode_frames gss \<and> concat gss = out_frames U)"
proof -
  obtain lo where lo: "ascending_from lo (send_history U)" using assms(2) by (auto simp: send_ok_def)
  have ok: "\<forall>m\<in>set (send_history U). message_ok m" "\<forall>m\<in>set (send_queue U). message_ok m" "sorted_wrt (<) (send_again U)"
    using assms(2) by (auto simp: send_ok_def)
  obtain t1 where t1: "request_missing U \<lparr>t_buf = [], t_packs = []\<rparr> = Inr t1"
    "packed t1 (map FRequest (gaps (recv_id_min U) (recv_queue U)))"
    using request_gaps_packed [OF packed_empty assms(1)] by (auto simp: request_missing_def)
  obtain t2 where "reply_all (recv_id_min U) (send_again U) (send_history U) t1 = Inr t2"
    "packed t2 (map FRequest (gaps (recv_id_min U) (recv_queue U)) @
       map (reply_frame (send_history U)) (filter (\<lambda>i. recv_id_min U \<le> i) (send_again U)))"
    using reply_all_packed [OF t1(2) lo ok(1,3)] by blast
  then have t2: "reply_request U t1 = Inr (U\<lparr>send_again := []\<rparr>, t2)"
    "packed t2 (map FRequest (gaps (recv_id_min U) (recv_queue U)) @
       map (reply_frame (send_history U)) (filter (\<lambda>i. recv_id_min U \<le> i) (send_again U)))"
    by (simp_all add: reply_request_def)
  obtain t3 where t3: "pack_messages (send_queue U) t2 = Inr t3" "packed t3 (out_frames U)"
    using pack_messages_packed [OF t2(2) ok(2)] by (auto simp: out_frames_def)
  let ?t4 = "if t_packs t3 = [] \<and> t_buf t3 = [] then t3\<lparr>t_buf := [word_of_int type_ignore]\<rparr> else t3"
  have run: "gen_outpackage U = Inr (U\<lparr>send_again := [], send_history := send_history U @ send_queue U, send_queue := []\<rparr>,
      t_packs (new_package ?t4))"
    using t1(1) t2(1) t3(1) by (simp add: gen_outpackage_def send_message_def)
  moreover have "if out_frames U = [] then t_packs (new_package ?t4) = [[0]]
      else \<exists>gss. t_packs (new_package ?t4) = map encode_frames gss \<and> concat gss = out_frames U"
  proof (cases "out_frames U = []")
    case True
    then show ?thesis using packed_nil [OF t3(2)] by (simp add: new_package_def type_defs)
  next
    case False
    then have e: "?t4 = t3" using packed_nil [OF t3(2)] by auto
    obtain gss cur where "t_packs t3 = map encode_frames gss" "t_buf t3 = encode_frames cur" "concat gss @ cur = out_frames U"
      using t3(2) by (auto simp: packed_def)
    then have "t_packs (new_package ?t4) = map encode_frames (gss @ [cur]) \<and> concat (gss @ [cur]) = out_frames U"
      unfolding e by (simp add: new_package_def)
    then show ?thesis using False by (simp only: if_False) blast
  qed
  ultimately show ?thesis by blast
qed

text \<open>
  What goes out in one send: a request for every id that is missing in front of a received
  one, the answers to the requests of the peer from the history (or that the message is gone;
  but none for an id below the next id wanted from the peer), and the queued messages, in this order. No
  frame is cut, the package buffer is never overrun, no assertion fails, and with nothing to
  say a single heartbeat byte is sent.
\<close>
theorem rudp_output:
  assumes "recv_ok U" "send_ok U"
  shows "\<exists>U' ps. gen_outpackage U = Inr (U', ps) \<and>
    (if out_frames U = [] then ps = [[0]] else \<exists>gss. ps = map encode_frames gss \<and> concat gss = out_frames U) \<and>
    send_history U' = send_history U @ send_queue U \<and> send_queue U' = [] \<and> send_again U' = [] \<and>
    (recv_queue U \<noteq> [] \<longrightarrow> set (gaps (recv_id_min U) (recv_queue U)) =
       {recv_id_min U..recv_id_max U} - m_id ` set (recv_queue U))"
proof -
  have asc: "ascending_from (recv_id_min U) (recv_queue U)" using assms(1) by (simp add: recv_ok_def)
  obtain ps where "gen_outpackage U = Inr (U\<lparr>send_again := [], send_history := send_history U @ send_queue U, send_queue := []\<rparr>, ps)"
    "if out_frames U = [] then ps = [[0]] else \<exists>gss. ps = map encode_frames gss \<and> concat gss = out_frames U"
    using gen_outpackage_run [OF asc assms(2)] by blast
  then show ?thesis using set_gaps [OF asc] assms(1) by (simp add: recv_ok_def)
qed

theorem rudp_output_witness:
  "\<exists>U' ps. gen_outpackage ((rudp_new 1 1)\<lparr>send_again := [3]\<rparr>) = Inr (U', ps) \<and> send_again U' = []"
proof -
  have "recv_ok ((rudp_new 1 1)\<lparr>send_again := [3]\<rparr>)" "send_ok ((rudp_new 1 1)\<lparr>send_again := [3]\<rparr>)"
    by (auto simp: recv_ok_def send_ok_def rudp_new_def)
  from rudp_output [OF this] show ?thesis by blast
qed

text \<open>
  Messages may arrive in any order: one with a new id joins the queue, which stays in
  the order of the ids; one that was already handed out, or that repeats the greatest id in the
  queue, changes nothing.
\<close>
theorem rudp_reorders:
  assumes "recv_ok U"
  shows "(i < recv_id_min U \<longrightarrow> insert_message U i bs sz = U) \<and>
    (recv_queue U \<noteq> [] \<longrightarrow> insert_message U (recv_id_max U) bs sz = U) \<and>
    (i \<notin> m_id ` set (recv_queue U) \<and> recv_id_min U \<le> i \<longrightarrow>
       recv_ok (insert_message U i bs sz) \<and>
       set (map entry (recv_queue (insert_message U i bs sz))) =
         insert (i, sz, if sz > 0 then take (nat sz) bs else []) (set (map entry (recv_queue U))))"
  using insert_message_fresh [OF assms] insert_message_last [OF assms]
  by (auto simp: insert_message_def)

theorem rudp_reorders_witness:
  "recv_ok (insert_message (insert_message (rudp_new 1 1) 5 [7] 1) 2 [8] 1)"
proof -
  have "recv_ok (rudp_new 1 1)" by (simp add: recv_ok_def rudp_new_def)
  from rudp_reorders [OF this, of 5 "[7]" 1] have one: "recv_ok (insert_message (rudp_new 1 1) 5 [7] 1)"
    and e: "set (map entry (recv_queue (insert_message (rudp_new 1 1) 5 [7] 1))) = {(5, 1, [7])}"
    by (simp_all add: rudp_new_def)
  have "2 \<notin> m_id ` set (recv_queue (insert_message (rudp_new 1 1) 5 [7] 1))"
  proof
    assume "2 \<in> m_id ` set (recv_queue (insert_message (rudp_new 1 1) 5 [7] 1))"
    then obtain x where x: "x \<in> set (recv_queue (insert_message (rudp_new 1 1) 5 [7] 1))" "m_id x = 2" by auto
    then have "entry x \<in> set (map entry (recv_queue (insert_message (rudp_new 1 1) 5 [7] 1)))" by simp
    then show False unfolding e using x(2) by (simp add: entry_def)
  qed
  moreover have "recv_id_min (insert_message (rudp_new 1 1) 5 [7] 1) \<le> 2"
    by (simp add: insert_message_def new_message_def rudp_new_def)
  ultimately show ?thesis using rudp_reorders [OF one] by blast
qed

text \<open>
  C22: A repeated message whose id is in the queue, but not the greatest, is inserted a second
  time, and the next send then fails its assertion.
\<close>
theorem rudp_duplicate_aborts:
  assumes "recv_ok U" "i \<in> m_id ` set (recv_queue U)" "i \<noteq> recv_id_max U"
  shows "gen_outpackage (insert_message U i bs sz) = Inl AssertFailed"
  using insert_message_duplicate [OF assms, of bs sz] request_gaps_fault [OF packed_empty]
  by (simp add: gen_outpackage_def request_missing_def)

theorem rudp_duplicate_aborts_witness:
  "gen_outpackage (insert_message (insert_message (insert_message (rudp_new 1 1) 1 [7] 1) 2 [8] 1) 1 [7] 1) = Inl AssertFailed"
proof -
  let ?U = "insert_message (insert_message (rudp_new 1 1) 1 [7] 1) 2 [8] 1"
  have "recv_ok ?U" "1 \<in> m_id ` set (recv_queue ?U)" "1 \<noteq> recv_id_max ?U"
    by (simp_all add: insert_message_def new_message_def rudp_new_def recv_ok_def queue_push_def Let_def)
  then show ?thesis by (rule rudp_duplicate_aborts)
qed

text \<open>Packages read one after the other.\<close>

definition deliver_packages :: "byte list list \<Rightarrow> rudp \<Rightarrow> rudp" where
  "deliver_packages ps V = fold (\<lambda>p V. extract_package V p) ps V"

lemma deliver_frames:
  "frames_ok V (concat gss) \<Longrightarrow> deliver_packages (map encode_frames gss) V = fold (\<lambda>f V. apply_frame V f) (concat gss) V"
proof (induction gss arbitrary: V)
  case (Cons fs gss)
  then show ?case using extract_frames [of V fs] by (simp add: deliver_packages_def frames_ok_append)
qed (simp add: deliver_packages_def)

lemma heartbeat_harmless:
  "\<exists>xs. deliver_packages [[0]] V = V\<lparr>send_again := xs\<rparr>"
proof -
  have "extract_package V [0] =
      (if send_again V = [] then V\<lparr>send_again := array_insert (send_again V) (recv_id_min V)\<rparr> else V)"
    by (subst extract_package.simps) (simp add: read_len_def type_defs extract_package.simps)
  moreover have "V = V\<lparr>send_again := send_again V\<rparr>" by simp
  ultimately show ?thesis unfolding deliver_packages_def by (metis fold_simps)
qed

text \<open>
  C21: On a channel that keeps every package and their order, what one side sends arrives: the messages
  given to \<open>rudp_send\<close>, of any number and of any size up to \<open>MAX_PACKAGE\<close>, go out
  in the packages of one update and are handed out by \<open>rudp_recv\<close> on the other side, each
  once, whole, and in order; after that the two sides are in step again.
\<close>
theorem rudp_delivers:
  assumes "\<forall>d\<in>set ds. int (length d) \<le> max_package"
    and "recv_queue U = []" "send_again U = []" "send_queue U = []" "send_ok U"
    and "recv_queue V = []" "recv_id_min V = send_id U" "near V (send_id U)" "\<not> corrupt V"
  shows "\<exists>U1 U2 ps V2. rudp_send_all ds U = Inr U1 \<and> gen_outpackage U1 = Inr (U2, ps) \<and>
    rudp_recv_n (length ds) (deliver_packages ps V) = (V2, map (\<lambda>d. (int (length d), d)) ds) \<and>
    send_queue U2 = [] \<and> recv_queue V2 = [] \<and> recv_id_min V2 = send_id U2 \<and> near V2 (send_id U2) \<and> \<not> corrupt V2"
proof -
  obtain U1 ms where s: "rudp_send_all ds U = Inr U1" "send_queue U1 = ms" "consecutive (send_id U) ms"
    "map m_buffer ms = ds" "\<forall>m\<in>set ms. message_ok m" "send_id U1 = send_id U + int (length ds)"
    "recv_queue U1 = []" "send_again U1 = []" "send_history U1 = send_history U"
    using rudp_send_run [OF assms(1), of U] assms(2-4) by auto
  have len: "length ms = length ds" using s(4) by auto
  have ok: "send_ok U1" using assms(5) s(2,5,8,9) by (auto simp: send_ok_def)
  have asc: "ascending_from (recv_id_min U1) (recv_queue U1)" using s(7) by simp
  have out: "out_frames U1 = map data_frame ms" using s(2,7,8) by (simp add: out_frames_def)
  from gen_outpackage_run [OF asc ok, unfolded out map_is_Nil_conv]
  obtain ps where g: "gen_outpackage U1 = Inr (U1\<lparr>send_again := [], send_history := send_history U1 @ send_queue U1, send_queue := []\<rparr>, ps)"
    "if ms = [] then ps = [[0]] else \<exists>gss. ps = map encode_frames gss \<and> concat gss = map data_frame ms"
    by blast
  have min: "recv_id_min V \<le> send_id U" using assms(7) by simp
  define W where "W = deliver_packages ps V"
  have W: "map entry (recv_queue W) = map entry ms" "recv_id_min W = send_id U" "\<not> corrupt W"
    "near W (send_id U + int (length ms))"
  proof -
    have "map entry (recv_queue W) = map entry ms \<and> recv_id_min W = send_id U \<and> \<not> corrupt W \<and> near W (send_id U + int (length ms))"
    proof (cases "ms = []")
      case True
      obtain xs where "W = V\<lparr>send_again := xs\<rparr>" using heartbeat_harmless g(2) True by (auto simp: W_def)
      then show ?thesis using True assms(6-9) by (simp add: near_def)
    next
      case False
      then obtain gss where "ps = map encode_frames gss" "concat gss = map data_frame ms" using g(2) by auto
      then show ?thesis
        using apply_data_run [OF s(3,5) assms(8) min] deliver_frames [of V gss] assms(6,7,9)
        by (simp add: W_def Let_def)
    qed
    then show "map entry (recv_queue W) = map entry ms" "recv_id_min W = send_id U" "\<not> corrupt W"
      "near W (send_id U + int (length ms))" by blast+
  qed
  obtain V2 where v: "rudp_recv_n (length ms) W = (V2, map (\<lambda>m. (m_sz m, m_buffer m)) ms)" "recv_queue V2 = []"
    "recv_id_min V2 = recv_id_min W + int (length ms)" "recv_id_max V2 = recv_id_max W" "\<not> corrupt V2"
    using rudp_recv_run [OF W(1) _ s(5) W(3)] s(3) W(2) by auto
  have "map (\<lambda>m. (m_sz m, m_buffer m)) ms = map (\<lambda>d. (int (length d), d)) ds"
    unfolding s(4) [symmetric] using s(5) by (simp add: message_ok_def)
  then have "rudp_recv_n (length ds) (deliver_packages ps V) = (V2, map (\<lambda>d. (int (length d), d)) ds)"
    using v(1) len by (simp add: W_def)
  moreover have "near V2 (send_id U1)" using W(4) v(4) s(6) len by (simp add: near_def)
  ultimately show ?thesis
    using s(1,6) g(1) v(2,3,5) W(2) len by (intro exI conjI) auto
qed

theorem rudp_delivers_witness:
  "\<exists>U1 U2 ps V2. rudp_send_all [[1, 2, 3], [], [4]] (rudp_new 1 1) = Inr U1 \<and> gen_outpackage U1 = Inr (U2, ps) \<and>
    rudp_recv_n 3 (deliver_packages ps (rudp_new 1 1)) = (V2, [(3, [1, 2, 3]), (0, []), (1, [4])])"
proof -
  have ok: "\<forall>d\<in>set [[1, 2, 3], [], [4 :: byte]]. int (length d) \<le> max_package" "send_ok (rudp_new 1 1)"
    "near (rudp_new 1 1) (send_id (rudp_new 1 1))"
    by (auto simp: max_package_def send_ok_def rudp_new_def near_def)
  have new: "recv_queue (rudp_new 1 1) = []" "send_again (rudp_new 1 1) = []" "send_queue (rudp_new 1 1) = []"
    "recv_id_min (rudp_new 1 1) = send_id (rudp_new 1 1)" "\<not> corrupt (rudp_new 1 1)" by (simp_all add: rudp_new_def)
  have len: "length [[1, 2, 3], [], [4 :: byte]] = 3"
    "map (\<lambda>d. (int (length d), d)) [[1, 2, 3], [], [4 :: byte]] = [(3, [1, 2, 3]), (0, []), (1, [4])]" by simp_all
  show ?thesis
    using rudp_delivers [OF ok(1) new(1-3) ok(2) new(1,4) ok(3) new(5)] unfolding len by blast
qed

end
