(* ===== verification/Netpack.thy ===== *)
theory Netpack
  imports Fifo_Spec
begin

unbundle bit_operations_syntax

text \<open>
  The packet framing of the gate, \<open>skynet/lualib-src/lua-netpack.c\<close>: the bytes of a socket
  arrive in chunks of any size; a packet is its length in two bytes, big-endian, and its data.
  Packets that are not complete wait in a hash table by socket, complete ones in a ring. The
  Lua userdata is a state that is passed on (\<open>None\<close> before the first use), an owned
  buffer is its bytes.
\<close>

record netpack =
  np_id :: i32
  np_buffer :: "byte list"

text \<open>The first \<open>read\<close> bytes of the buffer; \<open>read\<close> is -1 when only half the header is here.\<close>

record uncomplete =
  uc_id :: i32
  uc_size :: int
  uc_buffer :: "byte list"
  uc_read :: int
  uc_header :: int

record np_queue =
  nq_cap :: nat
  nq_head :: nat
  nq_tail :: nat
  nq_hash :: "nat \<Rightarrow> uncomplete list"
  nq_queue :: "netpack option list"

definition QUEUESIZE :: nat where
  "QUEUESIZE = 1024"

definition HASHSIZE :: nat where
  "HASHSIZE = 4096"

definition hash_fd :: "i32 \<Rightarrow> nat" where
  "hash_fd fd = unat (signed_drop_bit 24 fd + signed_drop_bit 12 fd + fd) mod HASHSIZE"

text \<open>The walk along a chain, which unlinks the entry of the socket.\<close>

fun unlink_uncomplete :: "i32 \<Rightarrow> uncomplete list \<Rightarrow> (uncomplete \<times> uncomplete list) option" where
  "unlink_uncomplete fd [] = None"
| "unlink_uncomplete fd (u # us) =
     (if uc_id u = fd then Some (u, us) else map_option (\<lambda>(v, vs). (v, u # vs)) (unlink_uncomplete fd us))"

definition find_uncomplete :: "np_queue option \<Rightarrow> i32 \<Rightarrow> np_queue option \<times> uncomplete option" where
  "find_uncomplete q fd =
     (case q of None \<Rightarrow> (None, None)
      | Some q1 \<Rightarrow>
          (case unlink_uncomplete fd (nq_hash q1 (hash_fd fd)) of
             None \<Rightarrow> (q, None)
           | Some (u, us) \<Rightarrow> (Some (q1\<lparr>nq_hash := (nq_hash q1)(hash_fd fd := us)\<rparr>), Some u)))"

definition get_queue :: "np_queue option \<Rightarrow> np_queue" where
  "get_queue q =
     (case q of Some q1 \<Rightarrow> q1
      | None \<Rightarrow> \<lparr>nq_cap = QUEUESIZE, nq_head = 0, nq_tail = 0, nq_hash = (\<lambda>_. []), nq_queue = replicate QUEUESIZE None\<rparr>)"

definition np_expand_queue :: "np_queue \<Rightarrow> np_queue res" where
  "np_expand_queue q =
     (if length (nq_queue q) < nq_cap q then Inl OutOfBounds
      else Inr \<lparr>nq_cap = nq_cap q + QUEUESIZE, nq_head = 0, nq_tail = nq_cap q, nq_hash = nq_hash q,
             nq_queue = map (\<lambda>i. nq_queue q ! ((nq_head q + i) mod nq_cap q)) [0..<nq_cap q] @ replicate QUEUESIZE None\<rparr>)"

definition push_data :: "i32 \<Rightarrow> byte list \<Rightarrow> np_queue option \<Rightarrow> np_queue option res" where
  "push_data fd buffer q0 =
     (let q = get_queue q0
      in if nq_tail q < length (nq_queue q) then
           (let tail' = (if nq_tail q + 1 \<ge> nq_cap q then nq_tail q + 1 - nq_cap q else nq_tail q + 1);
                q1 = q\<lparr>nq_queue := (nq_queue q)[nq_tail q := Some \<lparr>np_id = fd, np_buffer = buffer\<rparr>], nq_tail := tail'\<rparr>
            in if nq_head q1 = nq_tail q1 then map_sum id Some (np_expand_queue q1) else Inr (Some q1))
         else Inl OutOfBounds)"

definition save_uncomplete :: "uncomplete \<Rightarrow> np_queue option \<Rightarrow> np_queue option" where
  "save_uncomplete u q0 =
     (let q = get_queue q0; h = hash_fd (uc_id u)
      in Some (q\<lparr>nq_hash := (nq_hash q)(h := u # nq_hash q h)\<rparr>))"

definition half_header :: "i32 \<Rightarrow> byte \<Rightarrow> uncomplete" where
  "half_header fd b = \<lparr>uc_id = fd, uc_size = 0, uc_buffer = [], uc_read = -1, uc_header = uint b\<rparr>"

definition part_package :: "i32 \<Rightarrow> int \<Rightarrow> byte list \<Rightarrow> uncomplete" where
  "part_package fd n bs = \<lparr>uc_id = fd, uc_size = n, uc_buffer = bs, uc_read = int (length bs), uc_header = 0\<rparr>"

definition read_size :: "byte \<Rightarrow> byte \<Rightarrow> int" where
  "read_size b0 b1 = push_bit 8 (uint b0) OR uint b1"

function push_more :: "i32 \<Rightarrow> byte list \<Rightarrow> np_queue option \<Rightarrow> np_queue option res" where
  "push_more fd [] q = Inl OutOfBounds"
| "push_more fd [b] q = Inr (save_uncomplete (half_header fd b) q)"
| "push_more fd (b0 # b1 # buffer) q =
     (let pack_size = read_size b0 b1
      in if int (length buffer) < pack_size then Inr (save_uncomplete (part_package fd pack_size buffer) q)
         else
           bind_res (push_data fd (take (nat pack_size) buffer) q) (\<lambda>q1.
             let buffer' = drop (nat pack_size) buffer
             in if buffer' \<noteq> [] then push_more fd buffer' q1 else Inr q1))"
  by pat_completeness auto
termination by (relation "measure (\<lambda>(fd, buffer, q). length buffer)") auto

definition close_uncomplete :: "i32 \<Rightarrow> np_queue option \<Rightarrow> np_queue option" where
  "close_uncomplete fd q = fst (find_uncomplete q fd)"

text \<open>What a call of the filter returns to Lua, besides the queue.\<close>

datatype filter_result =
    FNone
  | FPacket i32 "byte list"
  | FMore
  | FError i32 "byte list"
  | FOpen i32 "byte list"
  | FClose i32
  | FWarning i32 i32

definition filter_data :: "i32 \<Rightarrow> byte list \<Rightarrow> np_queue option \<Rightarrow> (np_queue option \<times> filter_result) res" where
  "filter_data fd buffer q0 =
     (case find_uncomplete q0 fd of
        (q, Some uc0) \<Rightarrow>
          bind_res
            (if uc_read uc0 < 0 then
               bind_res (assert_res (uc_read uc0 = -1) AssertFailed) (\<lambda>_.
                 case buffer of [] \<Rightarrow> Inl OutOfBounds
                 | b # rest \<Rightarrow>
                     Inr (uc0\<lparr>uc_size := uint b OR push_bit 8 (uc_header uc0), uc_buffer := [], uc_read := 0\<rparr>, rest))
             else Inr (uc0, buffer)) (\<lambda>(uc, buf).
            let need = uc_size uc - uc_read uc
            in if int (length buf) < need then
                 Inr (save_uncomplete (uc\<lparr>uc_buffer := uc_buffer uc @ buf, uc_read := uc_read uc + int (length buf)\<rparr>) q, FNone)
               else
                 (let pack = uc_buffer uc @ take (nat need) buf; rest = drop (nat need) buf
                  in if rest = [] then Inr (q, FPacket fd pack)
                     else bind_res (push_data fd pack q) (\<lambda>q1.
                          bind_res (push_more fd rest q1) (\<lambda>q2. Inr (q2, FMore)))))
      | (q, None) \<Rightarrow>
          (case buffer of
             [] \<Rightarrow> Inl OutOfBounds
           | [b] \<Rightarrow> Inr (save_uncomplete (half_header fd b) q, FNone)
           | b0 # b1 # buf \<Rightarrow>
               let pack_size = read_size b0 b1
               in if int (length buf) < pack_size then Inr (save_uncomplete (part_package fd pack_size buf) q, FNone)
                  else if int (length buf) = pack_size then Inr (q, FPacket fd buf)
                  else bind_res (push_data fd (take (nat pack_size) buf) q) (\<lambda>q1.
                       bind_res (push_more fd (drop (nat pack_size) buf) q1) (\<lambda>q2. Inr (q2, FMore)))))"

definition SKYNET_SOCKET_TYPE_DATA :: int where "SKYNET_SOCKET_TYPE_DATA = 1"
definition SKYNET_SOCKET_TYPE_CONNECT :: int where "SKYNET_SOCKET_TYPE_CONNECT = 2"
definition SKYNET_SOCKET_TYPE_CLOSE :: int where "SKYNET_SOCKET_TYPE_CLOSE = 3"
definition SKYNET_SOCKET_TYPE_ACCEPT :: int where "SKYNET_SOCKET_TYPE_ACCEPT = 4"
definition SKYNET_SOCKET_TYPE_ERROR :: int where "SKYNET_SOCKET_TYPE_ERROR = 5"
definition SKYNET_SOCKET_TYPE_WARNING :: int where "SKYNET_SOCKET_TYPE_WARNING = 7"

record skynet_socket_message =
  sm_type :: int
  sm_id :: i32
  sm_ud :: i32
  sm_buffer :: "byte list option"

text \<open>
  \<open>lfilter\<close>. A message has its data in an own buffer of \<open>ud\<close> bytes or, as a string, behind
  the struct (\<open>padding\<close>). A string in an own buffer would be pushed with the size -1.
\<close>

definition pushstring :: "byte list option \<Rightarrow> byte list \<Rightarrow> byte list res" where
  "pushstring buffer padding = (case buffer of Some _ \<Rightarrow> Inl OutOfBounds | None \<Rightarrow> Inr padding)"

definition lfilter :: "skynet_socket_message \<Rightarrow> byte list \<Rightarrow> np_queue option \<Rightarrow> (np_queue option \<times> filter_result) res" where
  "lfilter m padding q =
     (if sm_type m = SKYNET_SOCKET_TYPE_DATA then
        (case sm_buffer m of
           None \<Rightarrow> Inl AssertFailed
         | Some buffer \<Rightarrow>
             if sint (sm_ud m) \<noteq> int (length buffer) then Inl OutOfBounds else filter_data (sm_id m) buffer q)
      else if sm_type m = SKYNET_SOCKET_TYPE_CONNECT then Inr (q, FNone)
      else if sm_type m = SKYNET_SOCKET_TYPE_CLOSE then Inr (close_uncomplete (sm_id m) q, FClose (sm_id m))
      else if sm_type m = SKYNET_SOCKET_TYPE_ACCEPT then
        bind_res (pushstring (sm_buffer m) padding) (\<lambda>s. Inr (q, FOpen (sm_ud m) s))
      else if sm_type m = SKYNET_SOCKET_TYPE_ERROR then
        bind_res (pushstring (sm_buffer m) padding) (\<lambda>s. Inr (close_uncomplete (sm_id m) q, FError (sm_id m) s))
      else if sm_type m = SKYNET_SOCKET_TYPE_WARNING then Inr (q, FWarning (sm_id m) (sm_ud m))
      else Inr (q, FNone))"

definition lpop_np :: "np_queue option \<Rightarrow> (np_queue option \<times> netpack option) res" where
  "lpop_np q0 =
     (case q0 of None \<Rightarrow> Inr (None, None)
      | Some q \<Rightarrow>
          if nq_head q = nq_tail q then Inr (q0, None)
          else if length (nq_queue q) \<le> nq_head q then Inl OutOfBounds
          else
            (case nq_queue q ! nq_head q of
               None \<Rightarrow> Inl UninitRead
             | Some np \<Rightarrow>
                 let head' = (if nq_head q + 1 \<ge> nq_cap q then 0 else nq_head q + 1)
                 in Inr (Some (q\<lparr>nq_head := head'\<rparr>), Some np)))"

definition lclear_np :: "np_queue option \<Rightarrow> np_queue option" where
  "lclear_np q = map_option (\<lambda>q1. q1\<lparr>nq_hash := (\<lambda>_. []), nq_head := 0, nq_tail := 0\<rparr>) q"

definition write_size :: "int \<Rightarrow> byte list" where
  "write_size len = [word_of_int (drop_bit 8 len AND 0xff), word_of_int (len AND 0xff)]"

definition lpack :: "byte list \<Rightarrow> byte list res" where
  "lpack s =
     (if length s \<ge> 0x10000 then Inl (LuaError ''Invalid size (too long) of data'')
      else Inr (write_size (int (length s)) @ s))"

section \<open>The ring is a queue\<close>

definition nq_rep :: "np_queue \<Rightarrow> netpack list \<Rightarrow> bool" where
  "nq_rep q xs \<longleftrightarrow>
     length (nq_queue q) = nq_cap q \<and> 2 \<le> nq_cap q \<and> nq_head q < nq_cap q \<and> length xs < nq_cap q \<and>
     nq_tail q = (nq_head q + length xs) mod nq_cap q \<and> ring (nq_queue q) (nq_head q) (length xs) = map Some xs"

definition np_rep :: "np_queue option \<Rightarrow> netpack list \<Rightarrow> bool" where
  "np_rep q xs \<longleftrightarrow> nq_rep (get_queue q) xs"

lemma get_queue_Some [simp]: "get_queue (Some q) = q"
  by (simp add: get_queue_def)

lemma np_rep_None: "np_rep None []"
  by (simp add: np_rep_def nq_rep_def get_queue_def QUEUESIZE_def)

lemma nq_rep_hash [simp]: "nq_rep (q\<lparr>nq_hash := f\<rparr>) xs \<longleftrightarrow> nq_rep q xs"
  by (simp add: nq_rep_def)

lemma push_data_rep:
  assumes "np_rep q xs"
  shows "\<exists>q'. push_data fd bs q = Inr (Some q') \<and> nq_rep q' (xs @ [\<lparr>np_id = fd, np_buffer = bs\<rparr>]) \<and>
    nq_hash q' = nq_hash (get_queue q)"
proof -
  let ?q = "get_queue q" and ?x = "\<lparr>np_id = fd, np_buffer = bs\<rparr>"
  let ?n = "length xs" and ?c = "nq_cap (get_queue q)" and ?h = "nq_head (get_queue q)"
  have r: "length (nq_queue ?q) = ?c" "2 \<le> ?c" "?h < ?c" "?n < ?c" "nq_tail ?q = (?h + ?n) mod ?c"
    "ring (nq_queue ?q) ?h ?n = map Some xs"
    using assms by (simp_all add: np_rep_def nq_rep_def)
  have t: "nq_tail ?q < ?c" using r(2,5) by simp
  let ?t = "if nq_tail ?q + 1 \<ge> ?c then nq_tail ?q + 1 - ?c else nq_tail ?q + 1"
  have tl: "?t = (?h + Suc ?n) mod ?c"
  proof -
    have "(?h + Suc ?n) mod ?c = Suc (nq_tail ?q) mod ?c" using r(5) by (simp add: mod_Suc_eq)
    then show ?thesis using t by (cases "Suc (nq_tail ?q) = ?c") auto
  qed
  let ?Q = "(nq_queue ?q)[nq_tail ?q := Some ?x]"
  have ring: "ring ?Q ?h (Suc ?n) = map Some (xs @ [?x])"
    using ring_push [of ?h "nq_queue ?q" ?n "Some ?x"] r by simp
  let ?q1 = "?q\<lparr>nq_queue := ?Q, nq_tail := ?t\<rparr>"
  show ?thesis
  proof (cases "Suc ?n = ?c")
    case False
    then have "(?h + Suc ?n) mod ?c \<noteq> ?h"
      using mod_ring_inj [of "Suc ?n" ?c 0 ?h] r(2-4) by auto
    then have "push_data fd bs q = Inr (Some ?q1)" using t r(1) tl by (simp add: push_data_def Let_def)
    moreover have "nq_rep ?q1 (xs @ [?x])" using r ring False tl by (simp add: nq_rep_def)
    ultimately show ?thesis by auto
  next
    case True
    then have full: "?t = ?h" using tl r(3) by simp
    let ?q2 = "\<lparr>nq_cap = ?c + QUEUESIZE, nq_head = 0, nq_tail = ?c, nq_hash = nq_hash ?q,
       nq_queue = map (\<lambda>i. ?Q ! ((?h + i) mod ?c)) [0..<?c] @ replicate QUEUESIZE None\<rparr>"
    have "push_data fd bs q = Inr (Some ?q2)"
      using t r(1) full by (simp add: push_data_def Let_def np_expand_queue_def)
    moreover have m: "map (\<lambda>i. ?Q ! ((?h + i) mod ?c)) [0..<?c] = map Some (xs @ [?x])"
      using ring r(1) by (simp add: ring_def flip: True)
    have "nq_rep ?q2 (xs @ [?x])"
      unfolding nq_rep_def m using True [symmetric] r(2)
      by (simp add: QUEUESIZE_def ring_prefix)
    ultimately show ?thesis by auto
  qed
qed

lemma lpop_np_nil: "np_rep q [] \<Longrightarrow> lpop_np q = Inr (q, None)"
  by (cases q) (auto simp: lpop_np_def np_rep_def nq_rep_def)

lemma lpop_np_cons:
  assumes "np_rep q (x # xs)"
  shows "\<exists>q'. lpop_np q = Inr (Some q', Some x) \<and> nq_rep q' xs \<and> nq_hash q' = nq_hash (get_queue q)"
proof (cases q)
  case None
  then have "Suc (length xs) < QUEUESIZE" "Suc (length xs) mod QUEUESIZE = 0"
    using assms by (simp_all add: np_rep_def nq_rep_def get_queue_def)
  then show ?thesis using mod_less [of "Suc (length xs)" QUEUESIZE] by simp
next
  case (Some q1)
  let ?c = "nq_cap q1" and ?h = "nq_head q1" and ?n = "length xs"
  have r: "length (nq_queue q1) = ?c" "2 \<le> ?c" "?h < ?c" "Suc ?n < ?c" "nq_tail q1 = (?h + Suc ?n) mod ?c"
    "ring (nq_queue q1) ?h (Suc ?n) = Some x # map Some xs"
    using assms Some by (simp_all add: np_rep_def nq_rep_def)
  have ne: "?h \<noteq> nq_tail q1" using mod_ring_inj [of "Suc ?n" ?c 0 ?h] r(2-5) by auto
  have hd: "nq_queue q1 ! ?h = Some x" and tl: "ring (nq_queue q1) (Suc ?h) ?n = map Some xs"
    using r(1,3,6) by (simp_all add: ring_Cons)
  let ?h' = "if ?h + 1 \<ge> ?c then 0 else ?h + 1"
  have h': "?h' = Suc ?h mod ?c" using r(3) by (cases "Suc ?h = ?c") auto
  have "lpop_np q = Inr (Some (q1\<lparr>nq_head := ?h'\<rparr>), Some x)"
    using Some ne hd r(1,3) by (simp add: lpop_np_def Let_def)
  moreover have "nq_rep (q1\<lparr>nq_head := ?h'\<rparr>) xs"
  proof -
    have "ring (nq_queue q1) (Suc ?h mod ?c) ?n = map Some xs"
      using tl ring_mod [of "nq_queue q1" "Suc ?h"] r(1) by simp
    moreover have "(Suc ?h mod ?c + ?n) mod ?c = nq_tail q1" using r(5) by (simp add: mod_simps)
    ultimately show ?thesis using r(1-4) unfolding h' by (simp add: nq_rep_def)
  qed
  ultimately show ?thesis using Some by auto
qed

interpretation npq: total_fifo np_rep "\<lambda>_ _. True" "\<lambda>x. push_data (np_id x) (np_buffer x)" lpop_np
proof unfold_locales
  show "np_rep q xs \<Longrightarrow> True \<Longrightarrow> \<exists>q'. push_data (np_id x) (np_buffer x) q = Inr q' \<and> np_rep q' (xs @ [x])" for q xs x
    using push_data_rep [of q xs "np_id x" "np_buffer x"] by (cases x) (auto simp: np_rep_def)
  show "np_rep q [] \<Longrightarrow> \<exists>q'. lpop_np q = Inr (q', None) \<and> np_rep q' []" for q
    using lpop_np_nil [of q] by auto
  show "np_rep q (x # xs) \<Longrightarrow> \<exists>q'. lpop_np q = Inr (q', Some x) \<and> np_rep q' xs" for q x xs
    using lpop_np_cons [of q x xs] by (auto simp: np_rep_def)
qed simp

section \<open>The stream of one socket\<close>

text \<open>The packets at the front of a stream, and what is left.\<close>

function parse_stream :: "byte list \<Rightarrow> byte list list \<times> byte list" where
  "parse_stream bs =
     (case bs of
        b0 # b1 # rest \<Rightarrow>
          (let n = nat (read_size b0 b1)
           in if length rest < n then ([], bs)
              else (let (ms, r) = parse_stream (drop n rest) in (take n rest # ms, r)))
      | _ \<Rightarrow> ([], bs))"
  by pat_completeness auto
termination by (relation "measure length") auto

declare parse_stream.simps [simp del]

lemma parse_short: "length bs < 2 \<Longrightarrow> parse_stream bs = ([], bs)"
  by (subst parse_stream.simps) (auto split: list.splits)

lemma parse_wait: "length rest < nat (read_size b0 b1) \<Longrightarrow> parse_stream (b0 # b1 # rest) = ([], b0 # b1 # rest)"
  by (subst parse_stream.simps) simp

lemma parse_packet:
  "nat (read_size b0 b1) \<le> length rest \<Longrightarrow> parse_stream (b0 # b1 # rest) =
     (take (nat (read_size b0 b1)) rest # fst (parse_stream (drop (nat (read_size b0 b1)) rest)),
      snd (parse_stream (drop (nat (read_size b0 b1)) rest)))"
  by (subst parse_stream.simps) (simp add: Let_def split: prod.splits)

lemma read_size_value: "read_size b0 b1 = uint b0 * 256 + uint b1"
proof -
  have b1: "0 \<le> uint b1" "uint b1 < 2 ^ 8" using uint_lt2p [of b1] by simp_all
  have "push_bit 8 (uint b0) AND uint b1 = 0"
  proof (rule bit_eqI)
    fix n
    have "bit (uint b1) n \<longrightarrow> n < 8" using bit_imp_le_length [of b1 n] by (simp add: bit_uint_iff)
    then show "bit (push_bit 8 (uint b0) AND uint b1) n = bit (0 :: int) n"
      by (auto simp: bit_and_iff bit_push_bit_iff)
  qed
  then have "read_size b0 b1 = push_bit 8 (uint b0) + uint b1"
    by (simp add: read_size_def disjunctive_add_eq_or)
  then show ?thesis by (simp add: push_bit_eq_mult)
qed

lemma read_size_bounds: "0 \<le> read_size b0 b1" "read_size b0 b1 < 65536"
  using uint_lt2p [of b0] uint_lt2p [of b1] by (simp_all add: read_size_value)

lemma write_size_eq:
  assumes "0 \<le> n" "n < 65536"
  shows "write_size n = [word_of_int (n div 256), word_of_int (n mod 256)]"
proof -
  have m: "k AND 0xff = k mod 256" for k :: int
  proof -
    have "(0xff :: int) = mask 8" by (simp add: mask_eq_exp_minus_1)
    then have "k AND 0xff = take_bit 8 k" by (simp only: take_bit_eq_mask)
    then show ?thesis by (simp add: take_bit_eq_mod)
  qed
  show ?thesis using assms unfolding write_size_def m by (simp add: drop_bit_eq_div)
qed

lemma write_read:
  assumes "0 \<le> n" "n < 65536"
  obtains b0 b1 where "write_size n = [b0, b1]" "read_size b0 b1 = n"
proof -
  have b: "uint (word_of_int (n div 256) :: byte) = n div 256" "uint (word_of_int (n mod 256) :: byte) = n mod 256"
    using assms by (simp_all add: uint_word_of_int)
  show ?thesis
    by (rule that [of "word_of_int (n div 256)" "word_of_int (n mod 256)"])
      (use assms b in \<open>simp_all add: write_size_eq read_size_value\<close>)
qed

section \<open>The table of incomplete packets\<close>

definition uc_bytes :: "uncomplete \<Rightarrow> byte list" where
  "uc_bytes u = (if uc_read u < 0 then [word_of_int (uc_header u)] else write_size (uc_size u) @ uc_buffer u)"

definition uc_ok :: "uncomplete \<Rightarrow> bool" where
  "uc_ok u \<longleftrightarrow> uc_read u = -1 \<and> (\<exists>b :: byte. uc_header u = uint b) \<or>
     uc_read u = int (length (uc_buffer u)) \<and> uc_read u < uc_size u \<and> uc_size u < 65536"

lemma uc_bytes_nonempty [simp]: "uc_bytes u \<noteq> []"
  by (simp add: uc_bytes_def write_size_def)

definition chain :: "np_queue option \<Rightarrow> i32 \<Rightarrow> uncomplete list" where
  "chain q fd = nq_hash (get_queue q) (hash_fd fd)"

definition pending :: "np_queue option \<Rightarrow> i32 \<Rightarrow> byte list" where
  "pending q fd = (case find (\<lambda>u. uc_id u = fd) (chain q fd) of None \<Rightarrow> [] | Some u \<Rightarrow> uc_bytes u)"

definition table_ok :: "np_queue option \<Rightarrow> bool" where
  "table_ok q \<longleftrightarrow> (\<forall>h. distinct (map uc_id (nq_hash (get_queue q) h)) \<and>
     (\<forall>u\<in>set (nq_hash (get_queue q) h). hash_fd (uc_id u) = h \<and> uc_ok u))"

lemma table_ok_None: "table_ok None" and pending_None: "pending None fd = []"
  by (simp_all add: table_ok_def pending_def chain_def get_queue_def)

lemma pending_nil: "pending q fd = [] \<longleftrightarrow> find (\<lambda>u. uc_id u = fd) (chain q fd) = None"
  by (simp add: pending_def split: option.splits)

lemma same_hash:
  assumes "nq_hash (get_queue q') = nq_hash (get_queue q)"
  shows "table_ok q' \<longleftrightarrow> table_ok q" "pending q' fd = pending q fd"
  using assms by (simp_all add: table_ok_def pending_def chain_def)

lemma find_id_None: "find (\<lambda>u. uc_id u = fd) us = None \<longleftrightarrow> fd \<notin> uc_id ` set us"
  by (auto simp: find_None_iff)

lemma unlink_None: "unlink_uncomplete fd us = None \<longleftrightarrow> find (\<lambda>u. uc_id u = fd) us = None"
  by (induction us) auto

lemma unlink_Some:
  "unlink_uncomplete fd us = Some (u, vs) \<Longrightarrow> distinct (map uc_id us) \<Longrightarrow>
   find (\<lambda>u. uc_id u = fd) us = Some u \<and> uc_id u = fd \<and> set us = insert u (set vs) \<and> distinct (map uc_id vs) \<and>
   find (\<lambda>u. uc_id u = fd) vs = None \<and> (\<forall>fd'. fd' \<noteq> fd \<longrightarrow> find (\<lambda>u. uc_id u = fd') vs = find (\<lambda>u. uc_id u = fd') us)"
proof (induction us arbitrary: vs)
  case (Cons x us)
  show ?case
  proof (cases "uc_id x = fd")
    case True
    then have "find (\<lambda>u. uc_id u = fd) us = None" using Cons.prems(2) by (simp add: find_id_None)
    then show ?thesis using True Cons.prems by auto
  next
    case False
    then obtain ws where "unlink_uncomplete fd us = Some (u, ws)" "vs = x # ws" using Cons.prems(1) by auto
    with Cons.IH [of ws] Cons.prems(2) False show ?thesis by auto
  qed
qed simp

text \<open>Taking an entry out of the table and putting one in.\<close>

lemma find_uncomplete_view:
  assumes "table_ok q" "find_uncomplete q fd = (q1, r)"
  shows "table_ok q1 \<and> (np_rep q1 xs \<longleftrightarrow> np_rep q xs) \<and> pending q1 = (pending q)(fd := []) \<and>
    (case r of None \<Rightarrow> q1 = q \<and> pending q fd = []
     | Some u \<Rightarrow> uc_ok u \<and> uc_id u = fd \<and> pending q fd = uc_bytes u)"
proof (cases q)
  case None
  then show ?thesis using assms by (auto simp: find_uncomplete_def pending_None fun_eq_iff)
next
  case (Some p)
  show ?thesis
  proof (cases "unlink_uncomplete fd (nq_hash p (hash_fd fd))")
    case None
    then have "q1 = q" "r = None" using assms(2) Some by (auto simp: find_uncomplete_def)
    moreover have "pending q fd = []" using None Some by (simp add: pending_nil chain_def unlink_None)
    ultimately show ?thesis using assms(1) by auto
  next
    case (Some a)
    then obtain u us where l: "unlink_uncomplete fd (nq_hash p (hash_fd fd)) = Some (u, us)" by (cases a) auto
    then have q1: "q1 = Some (p\<lparr>nq_hash := (nq_hash p)(hash_fd fd := us)\<rparr>)" "r = Some u"
      using assms(2) \<open>q = Some p\<close> by (auto simp: find_uncomplete_def)
    have ok: "distinct (map uc_id (nq_hash p (hash_fd fd)))"
      "\<And>v. v \<in> set (nq_hash p (hash_fd fd)) \<Longrightarrow> hash_fd (uc_id v) = hash_fd fd \<and> uc_ok v"
      using assms(1) \<open>q = Some p\<close> by (auto simp: table_ok_def)
    note s = unlink_Some [OF l ok(1)]
    have "table_ok q1"
      unfolding table_ok_def q1
    proof (intro allI)
      fix h
      show "distinct (map uc_id (nq_hash (get_queue (Some (p\<lparr>nq_hash := (nq_hash p)(hash_fd fd := us)\<rparr>))) h)) \<and>
        (\<forall>u\<in>set (nq_hash (get_queue (Some (p\<lparr>nq_hash := (nq_hash p)(hash_fd fd := us)\<rparr>))) h). hash_fd (uc_id u) = h \<and> uc_ok u)"
        using s ok assms(1) \<open>q = Some p\<close> by (cases "h = hash_fd fd") (auto simp: table_ok_def)
    qed
    moreover have "pending q1 = (pending q)(fd := [])"
      using s \<open>q = Some p\<close> by (auto simp: fun_eq_iff pending_def chain_def q1(1))
    moreover have "np_rep q1 xs \<longleftrightarrow> np_rep q xs" using \<open>q = Some p\<close> by (simp add: np_rep_def q1(1))
    moreover have "uc_ok u" "pending q fd = uc_bytes u"
      using s ok(2) [of u] \<open>q = Some p\<close> by (simp_all add: pending_def chain_def)
    ultimately show ?thesis using s q1(2) by simp
  qed
qed

lemma save_uncomplete_view:
  assumes "table_ok q" "pending q (uc_id u) = []" "uc_ok u"
  shows "table_ok (save_uncomplete u q) \<and> (np_rep (save_uncomplete u q) xs \<longleftrightarrow> np_rep q xs) \<and>
    pending (save_uncomplete u q) = (pending q)(uc_id u := uc_bytes u)"
proof -
  let ?h = "hash_fd (uc_id u)" and ?p = "get_queue q"
  have new: "uc_id u \<notin> uc_id ` set (nq_hash ?p ?h)"
    using assms(2) by (simp add: pending_nil chain_def find_id_None)
  have "table_ok (save_uncomplete u q)"
    using assms(1,3) new by (auto simp: table_ok_def save_uncomplete_def Let_def)
  moreover have "pending (save_uncomplete u q) = (pending q)(uc_id u := uc_bytes u)"
    by (auto simp: fun_eq_iff pending_def chain_def save_uncomplete_def Let_def)
  moreover have "np_rep (save_uncomplete u q) xs \<longleftrightarrow> np_rep q xs"
    by (simp add: np_rep_def save_uncomplete_def Let_def)
  ultimately show ?thesis by blast
qed

section \<open>Chunks refine the stream\<close>

abbreviation packs_of :: "i32 \<Rightarrow> byte list list \<Rightarrow> netpack list" where
  "packs_of fd ms \<equiv> map (\<lambda>m. \<lparr>np_id = fd, np_buffer = m\<rparr>) ms"

lemma half_header_view: "uc_ok (half_header fd b) \<and> uc_bytes (half_header fd b) = [b] \<and> uc_id (half_header fd b) = fd"
  by (auto simp: uc_ok_def uc_bytes_def half_header_def)

lemma part_package_view:
  assumes "int (length bs) < read_size b0 b1"
  shows "uc_ok (part_package fd (read_size b0 b1) bs) \<and>
    uc_bytes (part_package fd (read_size b0 b1) bs) = b0 # b1 # bs \<and> uc_id (part_package fd (read_size b0 b1) bs) = fd"
proof -
  have e: "word_of_int (read_size b0 b1 div 256) = b0" "word_of_int (read_size b0 b1 mod 256) = b1"
    using uint_lt2p [of b0] uint_lt2p [of b1] by (simp_all add: read_size_value)
  then have "write_size (read_size b0 b1) = [b0, b1]"
    using read_size_bounds [of b0 b1] by (simp only: write_size_eq)
  then show ?thesis using assms read_size_bounds by (simp add: uc_ok_def uc_bytes_def part_package_def)
qed

lemma push_more_run:
  "np_rep q xs \<Longrightarrow> table_ok q \<Longrightarrow> pending q fd = [] \<Longrightarrow> bs \<noteq> [] \<Longrightarrow>
   \<exists>q'. push_more fd bs q = Inr q' \<and> np_rep q' (xs @ packs_of fd (fst (parse_stream bs))) \<and> table_ok q' \<and>
     pending q' = (pending q)(fd := snd (parse_stream bs))"
proof (induction fd bs q arbitrary: xs rule: push_more.induct)
  case (2 fd b q)
  have v: "pending q (uc_id (half_header fd b)) = []" "uc_ok (half_header fd b)"
    using half_header_view [of fd b] "2.prems"(3) by simp_all
  have "parse_stream [b] = ([], [b])" by (rule parse_short) simp
  then show ?case
    using save_uncomplete_view [OF "2.prems"(2) v, of xs] half_header_view [of fd b] "2.prems"(1) by auto
next
  case (3 fd b0 b1 buffer q)
  let ?n = "read_size b0 b1"
  show ?case
  proof (cases "int (length buffer) < ?n")
    case True
    have v: "pending q (uc_id (part_package fd ?n buffer)) = []" "uc_ok (part_package fd ?n buffer)"
      using part_package_view [OF True, of fd] "3.prems"(3) by simp_all
    have "length buffer < nat ?n" using True by linarith
    then have "parse_stream (b0 # b1 # buffer) = ([], b0 # b1 # buffer)" by (rule parse_wait)
    then show ?thesis
      using save_uncomplete_view [OF "3.prems"(2) v, of xs] part_package_view [OF True, of fd] "3.prems"(1) True
      by auto
  next
    case False
    then have le: "nat ?n \<le> length buffer" by linarith
    note p = parse_packet [OF le]
    obtain q1 where q1: "push_data fd (take (nat ?n) buffer) q = Inr (Some q1)"
      "nq_rep q1 (xs @ [\<lparr>np_id = fd, np_buffer = take (nat ?n) buffer\<rparr>])" "nq_hash q1 = nq_hash (get_queue q)"
      using push_data_rep [OF "3.prems"(1)] by blast
    have h: "nq_hash (get_queue (Some q1)) = nq_hash (get_queue q)" using q1(3) by simp
    have s: "table_ok (Some q1)" "pending (Some q1) = pending q"
      using same_hash [OF h] "3.prems"(2) by auto
    show ?thesis
    proof (cases "drop (nat ?n) buffer = []")
      case True
      then show ?thesis
        using p q1(1,2) s False "3.prems"(3) by (auto simp: np_rep_def parse_short fun_eq_iff Let_def)
    next
      case nonempty: False
      have ne: "drop (nat ?n) buffer \<noteq> []" by (rule nonempty)
      have rep1: "np_rep (Some q1) (xs @ [\<lparr>np_id = fd, np_buffer = take (nat ?n) buffer\<rparr>])"
        using q1(2) by (simp add: np_rep_def)
      have pend1: "pending (Some q1) fd = []" using s(2) "3.prems"(3) by simp
      from "3.IH" [OF refl False q1(1) refl ne rep1 s(1) pend1 ne, unfolded s(2)]
      obtain q' where q': "push_more fd (drop (nat ?n) buffer) (Some q1) = Inr q'"
        "np_rep q' ((xs @ [\<lparr>np_id = fd, np_buffer = take (nat ?n) buffer\<rparr>]) @ packs_of fd (fst (parse_stream (drop (nat ?n) buffer))))"
        "table_ok q'" "pending q' = (pending q)(fd := snd (parse_stream (drop (nat ?n) buffer)))"
        by blast
      have "push_more fd (b0 # b1 # buffer) q = Inr q'" using q1(1) q'(1) False ne by (simp add: Let_def)
      then show ?thesis using q'(2-4) p by auto
    qed
  qed
qed simp

text \<open>What a chunk gives: nothing yet, one packet straight away, or some in the ring.\<close>

definition filter_spec :: "i32 \<Rightarrow> byte list list \<Rightarrow> byte list \<Rightarrow> netpack list \<Rightarrow> np_queue option \<Rightarrow> filter_result \<Rightarrow> bool" where
  "filter_spec fd ms r xs q res \<longleftrightarrow>
     (if ms = [] then res = FNone \<and> np_rep q xs
      else if tl ms = [] \<and> r = [] then res = FPacket fd (hd ms) \<and> np_rep q xs
      else res = FMore \<and> np_rep q (xs @ packs_of fd ms))"

text \<open>The part that a known packet size \<open>n\<close> shares: \<open>have\<close> has arrived before, \<open>buf\<close> is new.\<close>

lemma filter_tail:
  assumes "np_rep q xs" "table_ok q" "pending q fd = []" "nat (read_size b0 b1) \<le> length (have @ buf)"
    "int (length have) \<le> read_size b0 b1"
  shows "\<exists>q' res. (if drop (nat (read_size b0 b1) - length have) buf = [] then Inr (q, FPacket fd (have @ take (nat (read_size b0 b1) - length have) buf))
       else bind_res (push_data fd (have @ take (nat (read_size b0 b1) - length have) buf) q) (\<lambda>q1.
            bind_res (push_more fd (drop (nat (read_size b0 b1) - length have) buf) q1) (\<lambda>q2. Inr (q2, FMore)))) = Inr (q', res) \<and>
     table_ok q' \<and> pending q' = (pending q)(fd := snd (parse_stream (b0 # b1 # have @ buf))) \<and>
     filter_spec fd (fst (parse_stream (b0 # b1 # have @ buf))) (snd (parse_stream (b0 # b1 # have @ buf))) xs q' res"
proof -
  let ?n = "nat (read_size b0 b1)" and ?k = "nat (read_size b0 b1) - length have"
  have le: "length have \<le> ?n" using assms(5) by linarith
  have t: "take ?n (have @ buf) = have @ take ?k buf" "drop ?n (have @ buf) = drop ?k buf" using le by simp_all
  note p = parse_packet [OF assms(4), unfolded t]
  show ?thesis
  proof (cases "drop ?k buf = []")
    case True
    then show ?thesis
      using assms(1-3) p by (simp add: filter_spec_def parse_short fun_eq_iff)
  next
    case False
    obtain q1 where q1: "push_data fd (have @ take ?k buf) q = Inr (Some q1)"
      "nq_rep q1 (xs @ [\<lparr>np_id = fd, np_buffer = have @ take ?k buf\<rparr>])" "nq_hash q1 = nq_hash (get_queue q)"
      using push_data_rep [OF assms(1)] by blast
    have h: "nq_hash (get_queue (Some q1)) = nq_hash (get_queue q)" using q1(3) by simp
    have s: "table_ok (Some q1)" "pending (Some q1) = pending q" "np_rep (Some q1) (xs @ [\<lparr>np_id = fd, np_buffer = have @ take ?k buf\<rparr>])"
      using same_hash [OF h] assms(2) q1(2) by (auto simp: np_rep_def)
    have "pending (Some q1) fd = []" using s(2) assms(3) by simp
    from push_more_run [OF s(3,1) this False] obtain q' where q': "push_more fd (drop ?k buf) (Some q1) = Inr q'"
      "np_rep q' ((xs @ [\<lparr>np_id = fd, np_buffer = have @ take ?k buf\<rparr>]) @ packs_of fd (fst (parse_stream (drop ?k buf))))"
      "table_ok q'" "pending q' = (pending (Some q1))(fd := snd (parse_stream (drop ?k buf)))" by blast
    have "fst (parse_stream (drop ?k buf)) \<noteq> [] \<or> snd (parse_stream (drop ?k buf)) \<noteq> []"
      using False by (subst (1 2) parse_stream.simps) (auto simp: Let_def split: list.splits prod.splits)
    then have "filter_spec fd (fst (parse_stream (b0 # b1 # have @ buf))) (snd (parse_stream (b0 # b1 # have @ buf))) xs q' FMore"
      using q'(2) p by (auto simp: filter_spec_def)
    then show ?thesis using q1(1) q'(1,3,4) s(2) p False by simp
  qed
qed

lemma filter_wait:
  assumes "np_rep q xs" "table_ok q" "pending q fd = []" "uc_id u = fd" "uc_ok u" "uc_bytes u = bs" "parse_stream bs = ([], bs)"
  shows "table_ok (save_uncomplete u q) \<and> pending (save_uncomplete u q) = (pending q)(fd := snd (parse_stream bs)) \<and>
    filter_spec fd (fst (parse_stream bs)) (snd (parse_stream bs)) xs (save_uncomplete u q) FNone"
proof -
  have "pending q (uc_id u) = []" using assms(3,4) by simp
  from save_uncomplete_view [OF assms(2) this assms(5), of xs] show ?thesis
    using assms(1,4,6,7) by (simp add: filter_spec_def)
qed

lemma filter_data_run:
  assumes "np_rep q0 xs" "table_ok q0" "buffer \<noteq> []"
  shows "\<exists>q' res. filter_data fd buffer q0 = Inr (q', res) \<and> table_ok q' \<and>
    pending q' = (pending q0)(fd := snd (parse_stream (pending q0 fd @ buffer))) \<and>
    filter_spec fd (fst (parse_stream (pending q0 fd @ buffer))) (snd (parse_stream (pending q0 fd @ buffer))) xs q' res"
proof -
  obtain q r where f: "find_uncomplete q0 fd = (q, r)" by fastforce
  note v = find_uncomplete_view [OF assms(2) f, of xs]
  have q: "table_ok q" "np_rep q xs" "pending q fd = []" "(pending q)(fd := x) = (pending q0)(fd := x)" for x
    using v assms(1) by auto
  note tail = filter_tail [OF q(2,1,3)]
  note wait = filter_wait [OF q(2,1,3)]
  show ?thesis
  proof (cases r)
    case None
    then have p0: "pending q0 fd = []" and q0: "q = q0" using v by auto
    obtain b0 bs where b0: "buffer = b0 # bs" using assms(3) by (cases buffer) auto
    show ?thesis
    proof (cases bs)
      case Nil
      have "parse_stream [b0] = ([], [b0])" by (rule parse_short) simp
      from wait [OF _ _ _ this] half_header_view [of fd b0] show ?thesis
        using f None b0 Nil p0 q(4) by (simp add: filter_data_def)
    next
      case (Cons b1 buf)
      let ?n = "read_size b0 b1"
      show ?thesis
      proof (cases "int (length buf) < ?n")
        case True
        then have "length buf < nat ?n" by linarith
        then have "parse_stream (b0 # b1 # buf) = ([], b0 # b1 # buf)" by (rule parse_wait)
        from wait [OF _ _ _ this] part_package_view [OF True, of fd] show ?thesis
          using f None b0 Cons p0 q(4) True by (simp add: filter_data_def)
      next
        case False
        then have le: "nat ?n \<le> length ([] @ buf)" by simp
        have eq: "drop (nat ?n) buf = [] \<longleftrightarrow> int (length buf) = ?n" using False read_size_bounds [of b0 b1] by auto
        have tk: "int (length buf) = ?n \<Longrightarrow> take (nat ?n) buf = buf" by simp
        from tail [OF le, simplified] obtain q' res where t:
          "(if int (length buf) = ?n then Inr (q, FPacket fd (take (nat ?n) buf))
            else bind_res (push_data fd (take (nat ?n) buf) q) (\<lambda>q1.
              bind_res (push_more fd (drop (nat ?n) buf) q1) (\<lambda>q2. Inr (q2, FMore)))) = Inr (q', res)"
          "table_ok q'" "pending q' = (pending q)(fd := snd (parse_stream (b0 # b1 # buf)))"
          "filter_spec fd (fst (parse_stream (b0 # b1 # buf))) (snd (parse_stream (b0 # b1 # buf))) xs q' res"
          using eq read_size_bounds [of b0 b1] by auto
        have "filter_data fd buffer q0 = Inr (q', res)"
          using f None b0 Cons False t(1) tk by (auto simp: filter_data_def Let_def split: if_splits)
        then show ?thesis using t(2-4) b0 Cons p0 q(4) by auto
      qed
    qed
  next
    case (Some uc0)
    then have u: "uc_ok uc0" "uc_id uc0 = fd" "pending q0 fd = uc_bytes uc0" using v by auto
    show ?thesis
    proof (cases "uc_read uc0 < 0")
      case True
      then obtain b :: byte where b: "uc_read uc0 = -1" "uc_header uc0 = uint b" using u(1) by (auto simp: uc_ok_def)
      have p0: "pending q0 fd = [b]" using u(3) b by (simp add: uc_bytes_def)
      obtain c rest where c: "buffer = c # rest" using assms(3) by (cases buffer) auto
      let ?n = "read_size b c"
      have n: "uint c OR push_bit 8 (uint b) = ?n" by (simp add: read_size_def or.commute)
      let ?uc = "uc0\<lparr>uc_size := ?n, uc_buffer := [], uc_read := 0\<rparr>"
      show ?thesis
      proof (cases "int (length rest) < ?n")
        case True
        let ?u = "?uc\<lparr>uc_buffer := rest, uc_read := int (length rest)\<rparr>"
        have "uc_ok ?u" "uc_bytes ?u = b # c # rest"
          using part_package_view [OF True, of fd] by (simp_all add: uc_ok_def uc_bytes_def part_package_def)
        moreover have "length rest < nat ?n" using True by linarith
        then have "parse_stream (b # c # rest) = ([], b # c # rest)" by (rule parse_wait)
        moreover have "filter_data fd buffer q0 = Inr (save_uncomplete ?u q, FNone)"
          using f Some b c n True by (simp add: filter_data_def Let_def)
        ultimately show ?thesis using wait [of ?u "b # c # rest"] u(2) p0 c q(4) by simp
      next
        case False
        then have le: "nat ?n \<le> length ([] @ rest)" by simp
        have "int (length ([] :: byte list)) \<le> ?n" using read_size_bounds [of b c] by simp
        from tail [OF le this, unfolded list.size append_Nil diff_zero] obtain q' res where t:
          "(if drop (nat ?n) rest = [] then Inr (q, FPacket fd (take (nat ?n) rest))
            else bind_res (push_data fd (take (nat ?n) rest) q) (\<lambda>q1.
              bind_res (push_more fd (drop (nat ?n) rest) q1) (\<lambda>q2. Inr (q2, FMore)))) = Inr (q', res)"
          "table_ok q'" "pending q' = (pending q)(fd := snd (parse_stream (b # c # rest)))"
          "filter_spec fd (fst (parse_stream (b # c # rest))) (snd (parse_stream (b # c # rest))) xs q' res"
          by blast
        have "filter_data fd buffer q0 = Inr (q', res)"
          using f Some b c n False t(1) by (simp add: filter_data_def Let_def)
        then show ?thesis using t(2-4) c p0 q(4) by auto
      qed
    next
      case False
      then have b: "uc_read uc0 = int (length (uc_buffer uc0))" "uc_read uc0 < uc_size uc0" "uc_size uc0 < 65536"
        using u(1) by (auto simp: uc_ok_def)
      obtain b0 b1 where w: "write_size (uc_size uc0) = [b0, b1]" "read_size b0 b1 = uc_size uc0"
        using write_read [of "uc_size uc0"] b by auto
      let ?have = "uc_buffer uc0" and ?n = "read_size b0 b1"
      have p0: "pending q0 fd @ buffer = b0 # b1 # ?have @ buffer" using u(3) False w(1) by (simp add: uc_bytes_def)
      show ?thesis
      proof (cases "int (length buffer) < uc_size uc0 - uc_read uc0")
        case True
        let ?u = "uc0\<lparr>uc_buffer := ?have @ buffer, uc_read := uc_read uc0 + int (length buffer)\<rparr>"
        have "uc_ok ?u" "uc_bytes ?u = b0 # b1 # ?have @ buffer"
          using True b w by (simp_all add: uc_ok_def uc_bytes_def)
        moreover have "length (?have @ buffer) < nat ?n" using True b w by simp
        then have "parse_stream (b0 # b1 # ?have @ buffer) = ([], b0 # b1 # ?have @ buffer)" by (rule parse_wait)
        moreover have "filter_data fd buffer q0 = Inr (save_uncomplete ?u q, FNone)"
          using f Some False True by (simp add: filter_data_def Let_def)
        ultimately show ?thesis using wait [of ?u "b0 # b1 # ?have @ buffer"] u(2) p0 q(4) by simp
      next
        case enough: False
        have le: "nat ?n \<le> length (?have @ buffer)" "int (length ?have) \<le> ?n" using enough b w by auto
        have k: "nat ?n - length ?have = nat (uc_size uc0 - uc_read uc0)" using b w by simp
        from tail [OF le] obtain q' res where t:
          "(if drop (nat (uc_size uc0 - uc_read uc0)) buffer = [] then Inr (q, FPacket fd (?have @ take (nat (uc_size uc0 - uc_read uc0)) buffer))
            else bind_res (push_data fd (?have @ take (nat (uc_size uc0 - uc_read uc0)) buffer) q) (\<lambda>q1.
              bind_res (push_more fd (drop (nat (uc_size uc0 - uc_read uc0)) buffer) q1) (\<lambda>q2. Inr (q2, FMore)))) = Inr (q', res)"
          "table_ok q'" "pending q' = (pending q)(fd := snd (parse_stream (b0 # b1 # ?have @ buffer)))"
          "filter_spec fd (fst (parse_stream (b0 # b1 # ?have @ buffer))) (snd (parse_stream (b0 # b1 # ?have @ buffer))) xs q' res"
          unfolding k by blast
        have "filter_data fd buffer q0 = Inr (q', res)"
          using f Some False enough t(1) by (simp add: filter_data_def Let_def)
        then show ?thesis using t(2-4) p0 q(4) by simp
      qed
    qed
  qed
qed

section \<open>The stream comes out as it was packed\<close>

text \<open>
  How \<open>gateserver.lua\<close> uses the filter: a packet is taken when the call returns one, and the
  ring is emptied with \<open>pop\<close> when the call answers \<open>more\<close>. The loop ends when \<open>pop\<close> returns
  nothing.
\<close>

partial_function (option) np_drain :: "np_queue option \<Rightarrow> (np_queue option \<times> netpack list) res option" where
  "np_drain q =
     (case lpop_np q of
        Inl e \<Rightarrow> Some (Inl e)
      | Inr (q', None) \<Rightarrow> Some (Inr (q', []))
      | Inr (q', Some p) \<Rightarrow>
          Option.bind (np_drain q') (\<lambda>r. Some (map_sum id (\<lambda>(q2, ps). (q2, p # ps)) r)))"

declare np_drain.simps [code]

definition np_data :: "i32 \<Rightarrow> byte list \<Rightarrow> np_queue option \<Rightarrow> (np_queue option \<times> netpack list) res option" where
  "np_data fd chunk q =
     (case lfilter \<lparr>sm_type = SKYNET_SOCKET_TYPE_DATA, sm_id = fd, sm_ud = word_of_nat (length chunk), sm_buffer = Some chunk\<rparr> [] q of
        Inl e \<Rightarrow> Some (Inl e)
      | Inr (q', FPacket fd' m) \<Rightarrow> Some (Inr (q', [\<lparr>np_id = fd', np_buffer = m\<rparr>]))
      | Inr (q', FMore) \<Rightarrow> np_drain q'
      | Inr (q', _) \<Rightarrow> Some (Inr (q', [])))"

fun np_feed :: "(i32 \<times> byte list) list \<Rightarrow> np_queue option \<Rightarrow> (np_queue option \<times> netpack list) res option" where
  "np_feed [] q = Some (Inr (q, []))"
| "np_feed ((fd, chunk) # cs) q =
     (case np_data fd chunk q of
        None \<Rightarrow> None
      | Some (Inl e) \<Rightarrow> Some (Inl e)
      | Some (Inr (q', ps)) \<Rightarrow> map_option (map_sum id (\<lambda>(q2, ps'). (q2, ps @ ps'))) (np_feed cs q'))"

definition bytes_of :: "i32 \<Rightarrow> (i32 \<times> byte list) list \<Rightarrow> byte list" where
  "bytes_of fd cs = concat (map snd (filter (\<lambda>c. fst c = fd) cs))"

definition packets_of :: "i32 \<Rightarrow> netpack list \<Rightarrow> byte list list" where
  "packets_of fd ps = map np_buffer (filter (\<lambda>p. np_id p = fd) ps)"

lemma np_drain_run:
  "np_rep q xs \<Longrightarrow> \<exists>q'. np_drain q = Some (Inr (q', xs)) \<and> np_rep q' [] \<and> nq_hash (get_queue q') = nq_hash (get_queue q)"
proof (induction xs arbitrary: q)
  case Nil
  then show ?case by (subst np_drain.simps) (simp add: lpop_np_nil)
next
  case (Cons x xs)
  obtain q1 where q1: "lpop_np q = Inr (Some q1, Some x)" "nq_rep q1 xs" "nq_hash q1 = nq_hash (get_queue q)"
    using lpop_np_cons [OF Cons.prems] by blast
  have "np_rep (Some q1) xs" using q1(2) by (simp add: np_rep_def)
  from Cons.IH [OF this] obtain q' where "np_drain (Some q1) = Some (Inr (q', xs))" "np_rep q' []"
    "nq_hash (get_queue q') = nq_hash (get_queue (Some q1))" by blast
  then show ?case using q1 by (subst np_drain.simps) simp
qed

lemma parse_append:
  "parse_stream (a @ b) =
     (fst (parse_stream a) @ fst (parse_stream (snd (parse_stream a) @ b)), snd (parse_stream (snd (parse_stream a) @ b)))"
proof (induction a rule: parse_stream.induct)
  case (1 a)
  show ?case
  proof (cases "length a < 2")
    case True
    then show ?thesis by (simp add: parse_short)
  next
    case False
    then obtain b0 b1 rest where a: "a = b0 # b1 # rest" by (metis One_nat_def length_0_conv length_Cons less_2_cases_iff list.exhaust)
    let ?n = "nat (read_size b0 b1)"
    show ?thesis
    proof (cases "length rest < ?n")
      case True
      from parse_wait [OF True] show ?thesis by (simp add: a)
    next
      case False
      then have le: "?n \<le> length rest" "?n \<le> length (rest @ b)" by simp_all
      note IH = "1.IH" [OF a refl refl False]
      from parse_packet [OF le(1)] parse_packet [OF le(2)] IH False show ?thesis by (simp add: a)
    qed
  qed
qed

lemma parse_lpack:
  assumes "lpack m = Inr p"
  shows "parse_stream (p @ rest) = (m # fst (parse_stream rest), snd (parse_stream rest))"
proof -
  have m: "length m < 65536" "p = write_size (int (length m)) @ m" using assms by (auto simp: lpack_def split: if_splits)
  then have "0 \<le> int (length m)" "int (length m) < 65536" by simp_all
  from write_read [OF this] obtain b0 b1 where b: "write_size (int (length m)) = [b0, b1]" "read_size b0 b1 = int (length m)" by blast
  have "nat (read_size b0 b1) \<le> length (m @ rest)" using b(2) by simp
  from parse_packet [OF this] show ?thesis using b m(2) by simp
qed

lemma parse_packed:
  "list_all2 (\<lambda>m p. lpack m = Inr p) ms ps \<Longrightarrow> parse_stream (concat ps) = (ms, [])"
proof (induction rule: list_all2_induct)
  case Nil
  show ?case by (simp add: parse_short)
next
  case (Cons m ms p ps)
  from parse_lpack [OF Cons.hyps(1), of "concat ps"] Cons.IH show ?case by simp
qed

lemma packets_of_simps [simp]:
  "packets_of fd [] = []" "packets_of fd (ps @ qs) = packets_of fd ps @ packets_of fd qs"
  "packets_of fd (packs_of fd' ms) = (if fd' = fd then ms else [])"
  by (simp_all add: packets_of_def comp_def)

lemma bytes_of_simps [simp]:
  "bytes_of fd [] = []" "bytes_of fd ((fd', c) # cs) = (if fd' = fd then c @ bytes_of fd cs else bytes_of fd cs)"
  by (simp_all add: bytes_of_def)

lemma np_data_run:
  assumes "np_rep q []" "table_ok q" "chunk \<noteq> []" "length chunk < 2 ^ 31"
  shows "\<exists>q'. np_data fd chunk q = Some (Inr (q', packs_of fd (fst (parse_stream (pending q fd @ chunk))))) \<and>
    np_rep q' [] \<and> table_ok q' \<and> pending q' = (pending q)(fd := snd (parse_stream (pending q fd @ chunk)))"
proof -
  let ?ms = "fst (parse_stream (pending q fd @ chunk))" and ?r = "snd (parse_stream (pending q fd @ chunk))"
  have "sint (word_of_nat (length chunk) :: i32) = int (length chunk)"
    using assms(4) by (subst sint_of_small) (simp_all add: unat_of_nat uint_nat)
  moreover obtain q1 res where f: "filter_data fd chunk q = Inr (q1, res)" "table_ok q1"
    "pending q1 = (pending q)(fd := ?r)" "filter_spec fd ?ms ?r [] q1 res"
    using filter_data_run [OF assms(1-3)] by blast
  ultimately have l: "np_data fd chunk q = (case (q1, res) of
        (q', FPacket fd' m) \<Rightarrow> Some (Inr (q', [\<lparr>np_id = fd', np_buffer = m\<rparr>]))
      | (q', FMore) \<Rightarrow> np_drain q'
      | (q', _) \<Rightarrow> Some (Inr (q', [])))"
    by (simp add: np_data_def lfilter_def)
  consider "?ms = []" | "?ms \<noteq> []" "tl ?ms = []" "?r = []" | "?ms \<noteq> []" "tl ?ms \<noteq> [] \<or> ?r \<noteq> []" by blast
  then show ?thesis
  proof cases
    case 1
    then show ?thesis using l f(2-4) by (simp add: filter_spec_def)
  next
    case 2
    then have "?ms = [hd ?ms]" by (metis list.collapse)
    then have "packs_of fd ?ms = [\<lparr>np_id = fd, np_buffer = hd ?ms\<rparr>]" by (metis list.simps(8,9))
    moreover have "res = FPacket fd (hd ?ms)" "np_rep q1 []" using 2 f(4) by (simp_all add: filter_spec_def)
    ultimately show ?thesis using l f(2,3) by simp
  next
    case 3
    then have "res = FMore" "np_rep q1 (packs_of fd ?ms)" using f(4) by (auto simp: filter_spec_def split: if_splits)
    then obtain q2 where q2: "np_drain q1 = Some (Inr (q2, packs_of fd ?ms))" "np_rep q2 []"
      "nq_hash (get_queue q2) = nq_hash (get_queue q1)" using np_drain_run by blast
    have "table_ok q2" "pending q2 = pending q1" using same_hash [OF q2(3)] f(2) by auto
    moreover have "np_data fd chunk q = Some (Inr (q2, packs_of fd ?ms))" using l \<open>res = FMore\<close> q2(1) by simp
    ultimately show ?thesis using q2(2) f(3) by simp
  qed
qed

lemma np_feed_run:
  "np_rep q [] \<Longrightarrow> table_ok q \<Longrightarrow> \<forall>c\<in>set cs. snd c \<noteq> [] \<and> length (snd c) < 2 ^ 31 \<Longrightarrow>
   \<forall>fd. snd (parse_stream (pending q fd)) = pending q fd \<and> fst (parse_stream (pending q fd)) = [] \<Longrightarrow>
   \<exists>q' ps. np_feed cs q = Some (Inr (q', ps)) \<and> np_rep q' [] \<and> table_ok q' \<and>
     (\<forall>fd. (packets_of fd ps, pending q' fd) = parse_stream (pending q fd @ bytes_of fd cs))"
proof (induction cs arbitrary: q)
  case Nil
  then show ?case by (auto simp: prod_eq_iff)
next
  case (Cons c cs)
  obtain f chunk where c [simp]: "c = (f, chunk)" by (cases c) auto
  let ?P = "parse_stream (pending q f @ chunk)"
  obtain q1 where d: "np_data f chunk q = Some (Inr (q1, packs_of f (fst ?P)))" "np_rep q1 []" "table_ok q1"
    "pending q1 = (pending q)(f := snd ?P)"
    using np_data_run [OF Cons.prems(1,2), of chunk f] Cons.prems(3) c by auto
  have whole: "parse_stream (snd (parse_stream a)) = ([], snd (parse_stream a))" for a
    using parse_append [of a "[]"] by (auto simp: prod_eq_iff)
  have "\<forall>fd. snd (parse_stream (pending q1 fd)) = pending q1 fd \<and> fst (parse_stream (pending q1 fd)) = []"
    using Cons.prems(4) d(4) whole by simp
  with Cons.IH [OF d(2,3)] Cons.prems(3) obtain q' ps where
    r: "np_feed cs q1 = Some (Inr (q', ps))" "np_rep q' []" "table_ok q'"
    "\<And>fd. (packets_of fd ps, pending q' fd) = parse_stream (pending q1 fd @ bytes_of fd cs)" by auto
  have "(packets_of fd (packs_of f (fst ?P) @ ps), pending q' fd) = parse_stream (pending q fd @ bytes_of fd (c # cs))" for fd
  proof (cases "f = fd")
    case True
    then show ?thesis
      using r(4) [of fd] d(4) parse_append [of "pending q f @ chunk" "bytes_of f cs"] c
      by (simp add: prod_eq_iff)
  next
    case False
    then show ?thesis using r(4) [of fd] d(4) c by simp
  qed
  then show ?case using d(1) r(1-3) c by auto
qed

text \<open>
  C23: Framing round trip. Whatever the cuts: when non-empty chunks of any sockets arrive
  interleaved, from a queue that was never used, and the bytes of a socket with those still to
  come are messages packed by \<open>lpack\<close>, then every call of the filter and every loop of \<open>pop\<close>
  returns without a fault, and what the gate has received from the socket are the first of
  these messages, each once and in order; it is all of them once no bytes are outstanding.
\<close>

theorem netpack_reassembles:
  assumes "\<forall>c\<in>set cs. snd c \<noteq> [] \<and> length (snd c) < 2 ^ 31"
    and "list_all2 (\<lambda>m p. lpack m = Inr p) ms ps" and "bytes_of fd cs @ outstanding = concat ps"
  shows "\<exists>q got. np_feed cs None = Some (Inr (q, got)) \<and>
    (\<exists>later. ms = packets_of fd got @ later \<and> (outstanding = [] \<longrightarrow> later = []))"
proof -
  have "\<forall>fd. snd (parse_stream (pending None fd)) = pending None fd \<and> fst (parse_stream (pending None fd)) = []"
    by (simp add: pending_None parse_short)
  from np_feed_run [OF np_rep_None table_ok_None assms(1) this] obtain q got where
    r: "np_feed cs None = Some (Inr (q, got))" "(packets_of fd got, pending q fd) = parse_stream (bytes_of fd cs)"
    by (auto simp: pending_None)
  have p: "parse_stream (bytes_of fd cs @ outstanding) = (ms, [])" using parse_packed [OF assms(2)] assms(3) by simp
  have "fst (parse_stream (bytes_of fd cs)) = packets_of fd got" by (simp flip: r(2))
  then have "ms = packets_of fd got @ fst (parse_stream (snd (parse_stream (bytes_of fd cs)) @ outstanding))"
    using p parse_append [of "bytes_of fd cs" outstanding] by simp
  moreover have "outstanding = [] \<Longrightarrow> ms = packets_of fd got" using p r(2) by (metis append_Nil2 fst_conv)
  ultimately show ?thesis using r(1) by (metis append_self_conv)
qed

lemma netpack_reassembles_witness:
  "\<exists>q got. np_feed [(7, [0]), (9, [0, 1, 5]), (7, [2, 1, 2, 0]), (7, [0, 0, 1])] None = Some (Inr (q, got)) \<and>
    (\<exists>later. [[1, 2], [], [3 :: byte]] = packets_of 7 got @ later \<and> ([3 :: byte] = [] \<longrightarrow> later = []))"
proof (rule netpack_reassembles [where ps = "[[0, 2, 1, 2], [0, 0], [0, 1, 3]]"])
  show "list_all2 (\<lambda>m p. lpack m = Inr p) [[1, 2], [], [3]] [[0, 2, 1, 2], [0, 0], [0, 1, 3]]"
    by (simp add: lpack_def write_size_eq)
  show "bytes_of 7 [(7, [0]), (9, [0, 1, 5]), (7, [2, 1, 2, 0]), (7, [0, 0, 1])] @ [3] = concat [[0, 2, 1, 2], [0, 0], [0, 1, 3 :: byte]]"
    by simp
qed simp

end
