(* ===== verification/CryptBytes.thy ===== *)
theory CryptBytes
  imports Prelude
begin

text \<open>
  How \<open>skynet/lualib-src/lua-crypt.c\<close> reads and writes integers as bytes: big-endian in the
  cipher (the macros \<open>GET_UINT32\<close> and \<open>PUT_UINT32\<close>), little-endian in the hashes and the key
  exchange. A Lua string is the list of its bytes; its length is taken to fit in an \<open>int\<close>, as
  the code takes it.
\<close>

text \<open>A position or length that an \<open>int\<close> does not hold.\<close>

abbreviation exceeds_int :: "nat \<Rightarrow> bool" where
  "exceeds_int n \<equiv> 2147483647 < int n"

definition GET_UINT32 :: "byte list \<Rightarrow> nat \<Rightarrow> u32" where
  "GET_UINT32 b i = push_bit 24 (ucast (b ! i)) OR push_bit 16 (ucast (b ! (i + 1))) OR
     push_bit 8 (ucast (b ! (i + 2))) OR ucast (b ! (i + 3))"

definition PUT_UINT32 :: "u32 \<Rightarrow> byte list" where
  "PUT_UINT32 n = [ucast (drop_bit 24 n), ucast (drop_bit 16 n), ucast (drop_bit 8 n), ucast n]"

definition read32 :: "byte list \<Rightarrow> nat \<Rightarrow> u32" where
  "read32 x i = ucast (x ! i) OR push_bit 8 (ucast (x ! (i + 1))) OR
     push_bit 16 (ucast (x ! (i + 2))) OR push_bit 24 (ucast (x ! (i + 3)))"

definition write32 :: "u32 \<Rightarrow> byte list" where
  "write32 r = [ucast (r AND 0xff), ucast (drop_bit 8 r AND 0xff), ucast (drop_bit 16 r AND 0xff),
     ucast (drop_bit 24 r AND 0xff)]"

definition pushqword :: "u32 \<times> u32 \<Rightarrow> byte list" where
  "pushqword result = write32 (fst result) @ write32 (snd result)"

definition push64 :: "u64 \<Rightarrow> byte list" where
  "push64 r = map (\<lambda>k. ucast (drop_bit (8 * k) r AND 0xff)) [0..<8]"

definition read_key :: "byte list \<Rightarrow> string \<Rightarrow> (u32 \<times> u32) res" where
  "read_key x msg = (if length x \<noteq> 8 then Inl (LuaError msg) else Inr (read32 x 0, read32 x 4))"

definition read64 :: "byte list \<Rightarrow> byte list \<Rightarrow> ((u32 \<times> u32) \<times> (u32 \<times> u32)) res" where
  "read64 x y =
     bind_res (read_key x ''Invalid uint64 x'') (\<lambda>xx.
     bind_res (read_key y ''Invalid uint64 y'') (\<lambda>yy. Inr (xx, yy)))"

definition qword :: "u32 \<times> u32 \<Rightarrow> u64" where
  "qword x = ucast (fst x) OR push_bit 32 (ucast (snd x))"

text \<open>
  A buffer on the C stack or in a userdata is a list of cells that are not yet written or hold a
  byte; a write outside it and the use of an unwritten cell are faults.
\<close>

type_synonym cbuf = "byte option list"

definition SMALL_CHUNK :: nat where
  "SMALL_CHUNK = 256"

definition cput :: "nat \<Rightarrow> byte \<Rightarrow> cbuf \<Rightarrow> cbuf res" where
  "cput i v buf = (if i < length buf then Inr (buf[i := Some v]) else Inl OutOfBounds)"

fun cputs :: "nat \<Rightarrow> byte list \<Rightarrow> cbuf \<Rightarrow> cbuf res" where
  "cputs i [] buf = Inr buf"
| "cputs i (v # vs) buf = bind_res (cput i v buf) (cputs (Suc i) vs)"

definition pushlstring :: "cbuf \<Rightarrow> nat \<Rightarrow> byte list res" where
  "pushlstring buf n =
     (if length buf < n then Inl OutOfBounds
      else if list_all (\<lambda>c. c \<noteq> None) (take n buf) then Inr (map the (take n buf))
      else Inl UninitRead)"

section \<open>Reading back what was written\<close>

lemma bit_byte_ge: "8 \<le> n \<Longrightarrow> \<not> bit (b :: byte) n"
  by (auto dest: bit_imp_le_length)

lemma bit_byte_lt: "bit (b :: byte) n \<Longrightarrow> n < 8"
  by (auto dest: bit_imp_le_length)

lemma bit_u32_ge: "32 \<le> n \<Longrightarrow> \<not> bit (b :: u32) n"
  by (auto dest: bit_imp_le_length)

lemma length_8_cases:
  assumes "length xs = 8"
  obtains a b c d e f g h where "xs = [a, b, c, d, e, f, g, h]"
  using assms by (auto simp: length_Suc_conv numeral_eq_Suc)

lemma length_writes [simp]: "length (PUT_UINT32 n) = 4" "length (write32 r) = 4" "length (push64 q) = 8"
  by (simp_all add: PUT_UINT32_def write32_def push64_def)

lemma u32_bit_cases:
  assumes "n < (32 :: nat)"
  obtains "n < 8" | "8 \<le> n" "n < 16" | "16 \<le> n" "n < 24" | "24 \<le> n" "n < 32"
  using assms by linarith

lemma bit_ff: "bit (0xff :: 'a::semiring_bit_operations) i \<longleftrightarrow> possible_bit TYPE('a) i \<and> i < 8"
proof -
  have "(0xff :: 'a) = mask 8" by (simp add: mask_numeral)
  then show ?thesis by (simp only: bit_mask_iff)
qed

lemma GET_PUT: "GET_UINT32 (PUT_UINT32 x @ bs) 0 = x" "GET_UINT32 (PUT_UINT32 y @ PUT_UINT32 x) 4 = x"
proof -
  have "push_bit 24 (ucast (ucast (drop_bit 24 x) :: byte)) OR push_bit 16 (ucast (ucast (drop_bit 16 x) :: byte)) OR
     push_bit 8 (ucast (ucast (drop_bit 8 x) :: byte)) OR ucast (ucast x :: byte) = x"
  proof (rule bit_word_eqI)
    fix n assume "n < LENGTH(32)"
    then have "n < 32" by simp
    then show "bit (push_bit 24 (ucast (ucast (drop_bit 24 x) :: byte)) OR push_bit 16 (ucast (ucast (drop_bit 16 x) :: byte)) OR
      push_bit 8 (ucast (ucast (drop_bit 8 x) :: byte)) OR ucast (ucast x :: byte) :: u32) n = bit x n"
      by (rule u32_bit_cases) (auto simp: bit_simps)
  qed
  then show "GET_UINT32 (PUT_UINT32 x @ bs) 0 = x" "GET_UINT32 (PUT_UINT32 y @ PUT_UINT32 x) 4 = x"
    by (simp_all add: GET_UINT32_def PUT_UINT32_def)
qed

lemma PUT_GET: "length bs = 8 \<Longrightarrow> PUT_UINT32 (GET_UINT32 bs 0) @ PUT_UINT32 (GET_UINT32 bs 4) = bs"
  by (elim length_8_cases)
    (auto simp: GET_UINT32_def PUT_UINT32_def bit_simps bit_byte_ge intro!: bit_word_eqI)

lemma read_write32: "read32 (write32 x @ bs) 0 = x" "read32 (write32 y @ write32 x) 4 = x"
proof -
  have "ucast (ucast (x AND 0xff) :: byte) OR push_bit 8 (ucast (ucast (drop_bit 8 x AND 0xff) :: byte)) OR
     push_bit 16 (ucast (ucast (drop_bit 16 x AND 0xff) :: byte)) OR push_bit 24 (ucast (ucast (drop_bit 24 x AND 0xff) :: byte)) = x"
  proof (rule bit_word_eqI)
    fix n assume "n < LENGTH(32)"
    then have n: "n < 32" by simp
    from n show "bit (ucast (ucast (x AND 0xff) :: byte) OR push_bit 8 (ucast (ucast (drop_bit 8 x AND 0xff) :: byte)) OR
     push_bit 16 (ucast (ucast (drop_bit 16 x AND 0xff) :: byte)) OR push_bit 24 (ucast (ucast (drop_bit 24 x AND 0xff) :: byte)) :: u32) n = bit x n"
      by (rule u32_bit_cases) (auto simp: bit_simps bit_ff)
  qed
  then show "read32 (write32 x @ bs) 0 = x" "read32 (write32 y @ write32 x) 4 = x"
    by (simp_all add: read32_def write32_def)
qed

lemma write_read32: "length bs = 8 \<Longrightarrow> write32 (read32 bs 0) @ write32 (read32 bs 4) = bs"
  by (elim length_8_cases)
    (auto simp: read32_def write32_def bit_simps bit_byte_ge bit_ff intro!: bit_word_eqI)

lemma push64_eq: "push64 r = write32 (ucast r) @ write32 (ucast (drop_bit 32 r))"
proof -
  have "[0..<8] = [0, 1, 2, 3, 4, 5, 6, 7 :: nat]" by (simp add: upt_rec)
  then show ?thesis
    by (auto simp: push64_def write32_def bit_simps bit_ff intro!: bit_word_eqI)
qed

lemma qword_parts: "ucast (qword x) = fst x" "ucast (drop_bit 32 (qword x)) = snd x"
  by (rule bit_word_eqI; auto simp: qword_def bit_simps bit_u32_ge)+

lemma qword_join: "qword (ucast r, ucast (drop_bit 32 r)) = r"
proof (rule bit_word_eqI)
  fix n assume "n < LENGTH(64)"
  then show "bit (qword (ucast r, ucast (drop_bit 32 r))) n = bit r n"
    by (cases "n < 32") (auto simp: qword_def bit_simps)
qed

lemma read_key_push64: "read_key (push64 r) msg = Inr (ucast r, ucast (drop_bit 32 r))"
  by (simp add: read_key_def push64_eq read_write32)

lemma read_key_ok:
  assumes "length x = 8"
  shows "read_key x msg = Inr (read32 x 0, read32 x 4)" "push64 (qword (read32 x 0, read32 x 4)) = x"
  using assms by (simp_all add: read_key_def push64_eq qword_parts write_read32)

lemma write32_xor: "map2 (XOR) (write32 x) (write32 y) = write32 (x XOR y)"
  by (auto simp: write32_def bit_simps bit_ff intro!: bit_word_eqI)

lemma shifts_rotl:
  assumes "0 < c" "c < 32"
  shows "push_bit c x OR drop_bit (32 - c) x = word_rotl c (x :: u32)"
proof (rule bit_word_eqI)
  fix n assume n: "n < LENGTH(32)"
  show "bit (push_bit c x OR drop_bit (32 - c) x) n = bit (word_rotl c x) n"
  proof (cases "n < c")
    case True
    then have "(n + (32 - c)) mod 32 = 32 - c + n" using assms by simp
    then show ?thesis using True n assms by (simp add: bit_word_rotl_iff bit_simps)
  next
    case False
    then have "n + (32 - c) = 32 + (n - c)" using assms by simp
    then have "(n + (32 - c)) mod 32 = (n - c) mod 32" by (simp only: mod_add_self1)
    then have "(n + (32 - c)) mod 32 = n - c" using n by simp
    moreover have "\<not> bit x (32 - c + n)" using False assms by (intro bit_u32_ge) simp
    ultimately show ?thesis using False n assms by (simp add: bit_word_rotl_iff bit_simps)
  qed
qed

section \<open>Filling a buffer from the front\<close>

abbreviation filled :: "byte list \<Rightarrow> nat \<Rightarrow> cbuf" where
  "filled out k \<equiv> map Some out @ replicate k None"

lemma cput_filled: "0 < k \<Longrightarrow> cput (length out) v (filled out k) = Inr (filled (out @ [v]) (k - 1))"
  by (cases k) (simp_all add: cput_def list_update_append)

lemma cputs_filled:
  "length vs \<le> k \<Longrightarrow> cputs (length out) vs (filled out k) = Inr (filled (out @ vs) (k - length vs))"
proof (induction vs arbitrary: out k)
  case (Cons v vs)
  from Cons.IH [of "k - 1" "out @ [v]"] Cons.prems show ?case
    using cput_filled [of k out v] by (cases k) simp_all
qed simp

lemma pushlstring_filled: "pushlstring (filled out k) (length out) = Inr out"
  by (simp add: pushlstring_def list_all_iff)

end
