(* ===== verification/CryptDh.thy ===== *)
theory CryptDh
  imports CryptBytes
begin

text \<open>
  The key exchange of \<open>skynet/lualib-src/lua-crypt.c\<close>: multiplication and powers modulo the
  greatest prime below \<open>2 ^ 64\<close> with 64-bit operations only, and the two commands on 8-byte keys.
  The recursion of \<open>pow_mod_p\<close> has no end for the exponent 0, so its result is optional.
\<close>

definition prime_P :: u64 where
  "prime_P = 0xffffffffffffffc5"

definition generator_G :: u64 where
  "generator_G = 5"

function mul_loop :: "u64 \<Rightarrow> u64 \<Rightarrow> u64 \<Rightarrow> u64" where
  "mul_loop m a b =
     (if b = 0 then m
      else
        (let m' = (if b AND 1 \<noteq> 0 then (let t = prime_P - a in if m \<ge> t then m - t else m + a) else m);
             a' = (if a \<ge> prime_P - a then a * 2 - prime_P else a * 2)
         in mul_loop m' a' (drop_bit 1 b)))"
  by pat_completeness auto
termination
  by (relation "measure (\<lambda>(m, a, b). unat b)") (auto simp: unat_drop_bit unat_gt_0)

declare mul_loop.simps [simp del]

definition mul_mod_p :: "u64 \<Rightarrow> u64 \<Rightarrow> u64" where
  "mul_mod_p a b = mul_loop 0 a b"

partial_function (option) pow_mod_p :: "u64 \<Rightarrow> u64 \<Rightarrow> u64 option" where
  "pow_mod_p a b =
     (if b = 1 then Some a
      else Option.bind (pow_mod_p a (drop_bit 1 b)) (\<lambda>t.
        let t2 = mul_mod_p t t in Some (if b mod 2 \<noteq> 0 then mul_mod_p t2 a else t2)))"

declare pow_mod_p.simps [code]

definition powmodp :: "u64 \<Rightarrow> u64 \<Rightarrow> u64 option" where
  "powmodp a b = (let a' = (if a > prime_P then a mod prime_P else a) in pow_mod_p a' b)"

definition ldhsecret :: "byte list \<Rightarrow> byte list \<Rightarrow> byte list res" where
  "ldhsecret x y =
     bind_res (read64 x y) (\<lambda>(xs, ys).
     let xx = qword xs; yy = qword ys
     in if xx = 0 \<or> yy = 0 then Inl (LuaError ''Can't be 0'')
        else bind_res (option_res Diverges (powmodp xx yy)) (\<lambda>r. Inr (push64 r)))"

definition ldhexchange :: "byte list \<Rightarrow> byte list res" where
  "ldhexchange x =
     bind_res (read_key x ''Invalid dh uint64 key'') (\<lambda>xs.
     let x64 = qword xs
     in if x64 = 0 then Inl (LuaError ''Can't be 0'')
        else bind_res (option_res Diverges (powmodp generator_G x64)) (\<lambda>r. Inr (push64 r)))"

section \<open>Multiplication without a wider type\<close>

abbreviation P_nat :: nat where
  "P_nat \<equiv> 18446744073709551557"

lemma replicate_numeral: "replicate (numeral n) x = x # replicate (pred_numeral n) x"
  by (simp add: numeral_eq_Suc)

lemma odd_unat: "odd (unat (b :: 'a::len word)) \<longleftrightarrow> odd b"
  by (simp only: flip: bit_0) (simp add: bit_unsigned_iff)

lemma unat_P: "unat prime_P = P_nat"
  by (simp add: prime_P_def)

lemma unat_P_minus: "unat a \<le> P_nat \<Longrightarrow> unat (prime_P - a) = P_nat - unat a"
  using unat_sub [of a prime_P] by (simp add: unat_P word_le_nat_alt)

lemma double_step:
  assumes "unat a \<le> P_nat"
  defines "a' \<equiv> (if a \<ge> prime_P - a then a * 2 - prime_P else a * 2)"
  shows "unat a' \<le> P_nat \<and> unat a' mod P_nat = 2 * unat a mod P_nat"
proof (cases "P_nat \<le> 2 * unat a")
  case True
  then have le: "prime_P - a \<le> a" using assms(1) by (simp add: word_le_nat_alt unat_P_minus)
  have "a * 2 - prime_P = a - (prime_P - a)" by (simp add: algebra_simps)
  then have "unat a' = unat (a - (prime_P - a))" using le by (simp only: a'_def if_True)
  then have u: "unat a' = 2 * unat a - P_nat"
    using True assms(1) by (simp only: unat_sub [OF le] unat_P_minus)
  then have "2 * unat a = unat a' + P_nat" using True by simp
  then have "2 * unat a mod P_nat = unat a' mod P_nat" by (simp only: mod_add_self2)
  then show ?thesis using u assms(1) by simp
next
  case False
  then have "unat (a * 2) = 2 * unat a" by (simp add: unat_word_ariths)
  moreover have "\<not> prime_P - a \<le> a" using False assms(1) by (simp add: word_le_nat_alt unat_P_minus)
  ultimately show ?thesis using False by (simp add: a'_def)
qed

lemma add_step:
  assumes "unat a \<le> P_nat" "unat m < P_nat"
  defines "m' \<equiv> (let t = prime_P - a in if m \<ge> t then m - t else m + a)"
  shows "unat m' < P_nat \<and> unat m' mod P_nat = (unat m + unat a) mod P_nat"
proof (cases "P_nat \<le> unat m + unat a")
  case True
  then have c: "prime_P - a \<le> m" using assms(1) by (simp add: word_le_nat_alt unat_P_minus)
  then have u: "unat m' = unat m + unat a - P_nat"
    using True assms(1) by (simp add: m'_def unat_sub unat_P_minus)
  then have "unat m + unat a = unat m' + P_nat" using True by simp
  then have "(unat m + unat a) mod P_nat = unat m' mod P_nat" by (simp only: mod_add_self2)
  then show ?thesis using u assms(1,2) by simp
next
  case False
  then have "unat (m + a) = unat m + unat a" by (simp add: unat_word_ariths)
  moreover have "\<not> prime_P - a \<le> m" using False assms(1) by (simp add: word_le_nat_alt unat_P_minus)
  ultimately show ?thesis using False by (simp add: m'_def)
qed

lemma mul_loop_mod:
  "unat a \<le> P_nat \<Longrightarrow> unat m < P_nat \<Longrightarrow> unat (mul_loop m a b) = (unat m + unat a * unat b) mod P_nat"
proof (induction m a b rule: mul_loop.induct)
  case (1 m a b)
  show ?case
  proof (cases "b = 0")
    case True
    then show ?thesis using "1.prems" by (simp add: mul_loop.simps)
  next
    case False
    let ?m = "if b AND 1 \<noteq> 0 then (let t = prime_P - a in if m \<ge> t then m - t else m + a) else m"
    let ?a = "if a \<ge> prime_P - a then a * 2 - prime_P else a * 2"
    have odd: "b AND 1 \<noteq> 0 \<longleftrightarrow> odd (unat b)" by (simp add: and_one_eq mod_2_eq_odd odd_unat)
    have m: "unat ?m < P_nat \<and> unat ?m mod P_nat = (unat m + unat a * (unat b mod 2)) mod P_nat"
      using add_step [OF "1.prems"] "1.prems"(2) by (auto simp: odd mod_2_eq_odd)
    have a: "unat ?a \<le> P_nat \<and> unat ?a mod P_nat = 2 * unat a mod P_nat"
      using double_step [OF "1.prems"(1)] .
    have IH: "unat (mul_loop ?m ?a (drop_bit 1 b)) = (unat ?m + unat ?a * unat (drop_bit 1 b)) mod P_nat"
      by (rule "1.IH" [OF False refl refl]) (use a m in auto)
    have "(unat ?m + unat ?a * (unat b div 2)) mod P_nat
      = (unat m + unat a * (unat b mod 2) + 2 * unat a * (unat b div 2)) mod P_nat"
      using a m by (intro mod_add_cong mod_mult_cong) auto
    also have "unat m + unat a * (unat b mod 2) + 2 * unat a * (unat b div 2)
      = unat m + unat a * (unat b mod 2 + 2 * (unat b div 2))" by (simp only: distrib_left ac_simps)
    also have "\<dots> = unat m + unat a * unat b" by (simp only: mod_mult_div_eq)
    finally show ?thesis
      using IH False by (subst mul_loop.simps) (simp add: unat_drop_bit Let_def)
  qed
qed

lemma mul_mod_p_correct: "unat a \<le> P_nat \<Longrightarrow> unat (mul_mod_p a b) = unat a * unat b mod P_nat"
  by (simp add: mul_mod_p_def mul_loop_mod)

section \<open>Powers, and when they return\<close>

lemma pow_mod_p_returns: "pow_mod_p a b = Some t \<Longrightarrow> b \<noteq> 0"
proof (rule pow_mod_p.raw_induct [where P = "\<lambda>a b t. b \<noteq> 0"])
  fix pow a b t
  assume IH: "\<And>a b t. pow a b = Some t \<Longrightarrow> b \<noteq> (0 :: u64)"
    and step: "(if b = 1 then Some a else Option.bind (pow a (drop_bit 1 b)) (\<lambda>t.
      let t2 = mul_mod_p t t in Some (if b mod 2 \<noteq> 0 then mul_mod_p t2 a else t2))) = Some t"
  show "b \<noteq> 0"
  proof
    assume "b = 0"
    then obtain s where "pow a 0 = Some s" using step by (auto simp: bind_eq_Some_conv)
    with IH show False by blast
  qed
qed

lemma pow_mod_p_correct:
  "unat a \<le> P_nat \<Longrightarrow> b \<noteq> 0 \<Longrightarrow>
   \<exists>t. pow_mod_p a b = Some t \<and> unat t = (if b = 1 then unat a else unat a ^ unat b mod P_nat)"
proof (induction "unat b" arbitrary: b rule: less_induct)
  case less
  show ?case
  proof (cases "b = 1")
    case True
    then show ?thesis by (subst pow_mod_p.simps) simp
  next
    case False
    let ?h = "drop_bit 1 b"
    have b: "2 \<le> unat b" proof -
      have "unat b \<noteq> 0" "unat b \<noteq> 1" using less.prems(2) False by (simp_all add: word_unat_eq_iff)
      then show ?thesis by linarith
    qed
    have h: "unat ?h = unat b div 2" by (simp add: unat_drop_bit)
    then have "?h \<noteq> 0" using b by (auto simp: unat_eq_0)
    moreover have "unat ?h < unat b" using b h by simp
    ultimately obtain t where t: "pow_mod_p a ?h = Some t"
      "unat t = (if ?h = 1 then unat a else unat a ^ unat ?h mod P_nat)" using less by blast
    have tP: "unat t \<le> P_nat" using t(2) less.prems(1) by simp
    have tm: "unat t mod P_nat = unat a ^ unat ?h mod P_nat" using t(2) by auto
    let ?t2 = "mul_mod_p t t"
    have t2: "unat ?t2 = unat a ^ (2 * unat ?h) mod P_nat"
    proof -
      have "unat ?t2 = (unat t mod P_nat) * (unat t mod P_nat) mod P_nat"
        unfolding mod_mult_eq by (rule mul_mod_p_correct [OF tP])
      then show ?thesis by (simp only: tm mod_mult_eq mult_2 power_add)
    qed
    have t2P: "unat ?t2 \<le> P_nat" using t2 by simp
    have t3: "unat (mul_mod_p ?t2 a) = unat a ^ Suc (2 * unat ?h) mod P_nat"
      using mul_mod_p_correct [OF t2P, of a] t2 by (simp add: mod_mult_left_eq mod_mult_right_eq mult.commute)
    have p: "pow_mod_p a b = Some (if b mod 2 \<noteq> 0 then mul_mod_p ?t2 a else ?t2)"
      using t(1) False by (subst pow_mod_p.simps) (simp add: Let_def)
    show ?thesis
    proof (cases "odd (unat b)")
      case True
      then have "Suc (2 * unat ?h) = unat b" using h by presburger
      moreover have "b mod 2 \<noteq> 0" using True by (simp add: odd_unat mod_2_eq_odd)
      ultimately show ?thesis using p t3 False by simp
    next
      case even: False
      then have "2 * unat ?h = unat b" using h by presburger
      moreover have "b mod 2 = 0" using even by (simp add: odd_unat mod_2_eq_odd)
      ultimately show ?thesis using p t2 False by simp
    qed
  qed
qed

lemma powmodp_correct_at:
  "powmodp a 0 = None"
  "b \<noteq> 0 \<Longrightarrow> \<exists>t. powmodp a b = Some t \<and> unat t = (if a = prime_P \<and> b = 1 then P_nat else unat a ^ unat b mod P_nat)"
proof -
  let ?a = "if a > prime_P then a mod prime_P else a"
  have a: "unat ?a \<le> P_nat" "unat ?a mod P_nat = unat a mod P_nat"
    by (auto simp: word_less_nat_alt unat_mod unat_P not_less)
  show "powmodp a 0 = None"
  proof (cases "powmodp a 0")
    case (Some t)
    then have "pow_mod_p ?a 0 = Some t" by (simp only: powmodp_def Let_def)
    then show ?thesis using pow_mod_p_returns by blast
  qed
  show "\<exists>t. powmodp a b = Some t \<and> unat t = (if a = prime_P \<and> b = 1 then P_nat else unat a ^ unat b mod P_nat)" if False: "b \<noteq> 0"
  proof -
    have "powmodp a b = pow_mod_p ?a b" by (simp only: powmodp_def Let_def)
    with pow_mod_p_correct [OF a(1) False] obtain t where t: "powmodp a b = Some t"
      "unat t = (if b = 1 then unat ?a else unat ?a ^ unat b mod P_nat)" by metis
    have "(unat ?a mod P_nat) ^ unat b mod P_nat = (unat a mod P_nat) ^ unat b mod P_nat" by (simp only: a(2))
    then have "unat ?a ^ unat b mod P_nat = unat a ^ unat b mod P_nat" by (simp only: power_mod)
    moreover have "b = 1 \<Longrightarrow> unat ?a = (if a = prime_P then unat prime_P else unat a ^ unat b mod P_nat)"
    proof (cases "a = prime_P")
      case neq: False
      then have "unat a \<noteq> P_nat" by (simp only: word_unat_eq_iff unat_P not_False_eq_True)
      then show "b = 1 \<Longrightarrow> ?thesis" using neq by (auto simp: word_less_nat_alt unat_mod unat_P)
    qed simp
    ultimately show ?thesis using t False by (simp add: unat_P)
  qed
qed

text \<open>
  Modular powers. \<open>powmodp a b\<close> returns exactly for a positive exponent; it then computes
  \<open>a ^ b\<close> modulo P without overflow, for every 64-bit base and exponent but one: P to the power
  1 comes out as P, since the base is reduced only when it is greater than P.
\<close>

theorem powmodp_correct:
  "(powmodp a b = None \<longleftrightarrow> b = 0) \<and>
   (case powmodp a b of None \<Rightarrow> True
    | Some t \<Rightarrow> unat t = (if a = prime_P \<and> b = 1 then unat prime_P else unat a ^ unat b mod unat prime_P))"
  proof (cases "b = 0")
  case True
  then show ?thesis by (simp add: powmodp_correct_at(1))
next
  case False
  from powmodp_correct_at(2) [where a = a, OF this] obtain t where
    "powmodp a b = Some t" "unat t = (if a = prime_P \<and> b = 1 then P_nat else unat a ^ unat b mod P_nat)" by blast
  then show ?thesis using False by (simp add: unat_P)
qed

section \<open>Both sides get the same secret\<close>

lemma generator_power:
  assumes "0 < n"
  shows "0 < 5 ^ n mod P_nat"
proof -
  have "coprime (5 :: nat) (P_nat mod 5)" by simp
  then have "coprime 5 P_nat" by (simp only: coprime_mod_right_iff)
  then have "coprime (5 ^ n) P_nat" by (simp add: coprime_power_left_iff)
  then have "\<not> P_nat dvd 5 ^ n" using coprime_absorb_right [of P_nat "5 ^ n"] by auto
  then show ?thesis by (simp add: mod_greater_zero_iff_not_dvd)
qed

lemma ldhexchange_run:
  assumes "length x = 8" "x \<noteq> replicate 8 0"
  shows "\<exists>r. ldhexchange x = Inr (push64 r) \<and> unat r = 5 ^ unat (qword (read32 x 0, read32 x 4)) mod P_nat \<and>
    qword (read32 x 0, read32 x 4) \<noteq> 0"
proof -
  let ?q = "qword (read32 x 0, read32 x 4)"
  have "push64 0 = replicate 8 0" by (simp add: push64_eq write32_def eval_nat_numeral)
  then have q: "?q \<noteq> 0" using read_key_ok [OF assms(1)] assms(2) by metis
  then obtain r where "powmodp generator_G ?q = Some r" "unat r = 5 ^ unat ?q mod P_nat"
    using powmodp_correct_at(2) [where a = generator_G, OF q] by (auto simp: generator_G_def prime_P_def)
  then show ?thesis using q assms(1) by (auto simp: ldhexchange_def read_key_ok Let_def)
qed

lemma ldhsecret_run:
  assumes "length y = 8" "y \<noteq> replicate 8 0" "0 < unat r" "unat r < P_nat"
  shows "\<exists>s. ldhsecret (push64 r) y = Inr (push64 s) \<and> unat s = unat r ^ unat (qword (read32 y 0, read32 y 4)) mod P_nat"
proof -
  let ?q = "qword (read32 y 0, read32 y 4)"
  have q: "?q \<noteq> 0" using ldhexchange_run [OF assms(1,2)] by blast
  have r: "r \<noteq> 0" "r \<noteq> prime_P" using assms(3,4) unat_P by auto
  then obtain s where "powmodp r ?q = Some s" "unat s = unat r ^ unat ?q mod P_nat"
    using powmodp_correct_at(2) [where a = r, OF q] by auto
  then show ?thesis using q r assms(1) by (auto simp: ldhsecret_def read64_def read_key_push64 read_key_ok qword_join Let_def)
qed

text \<open>
  C26: Key agreement. When two sides exchange the public keys of any 8-byte private keys that are
  not all zero, both calls of \<open>dhsecret\<close> succeed and give the same 8 bytes, the little-endian
  form of G to the product of the private keys, modulo P. No public key is refused.
\<close>

theorem dh_agreement:
  assumes "length x = 8" "x \<noteq> replicate 8 0" "length y = 8" "y \<noteq> replicate 8 0"
  shows "\<exists>gx gy s. ldhexchange x = Inr gx \<and> ldhexchange y = Inr gy \<and>
    ldhsecret gx y = Inr (push64 s) \<and> ldhsecret gy x = Inr (push64 s) \<and>
    unat s = unat generator_G ^ (unat (qword (read32 x 0, read32 x 4)) * unat (qword (read32 y 0, read32 y 4))) mod unat prime_P"
proof -
  let ?a = "unat (qword (read32 x 0, read32 x 4))" and ?b = "unat (qword (read32 y 0, read32 y 4))"
  obtain rx where rx: "ldhexchange x = Inr (push64 rx)" "unat rx = 5 ^ ?a mod P_nat" "0 < ?a"
    using ldhexchange_run [OF assms(1,2)] by (auto simp: unat_gt_0)
  obtain ry where ry: "ldhexchange y = Inr (push64 ry)" "unat ry = 5 ^ ?b mod P_nat" "0 < ?b"
    using ldhexchange_run [OF assms(3,4)] by (auto simp: unat_gt_0)
  have pos: "0 < unat rx" "unat rx < P_nat" "0 < unat ry" "unat ry < P_nat"
    using rx(2,3) ry(2,3) generator_power by simp_all
  obtain s where s: "ldhsecret (push64 rx) y = Inr (push64 s)" "unat s = unat rx ^ ?b mod P_nat"
    using ldhsecret_run [OF assms(3,4) pos(1,2)] by blast
  obtain s' where s': "ldhsecret (push64 ry) x = Inr (push64 s')" "unat s' = unat ry ^ ?a mod P_nat"
    using ldhsecret_run [OF assms(1,2) pos(3,4)] by blast
  have e: "unat s = 5 ^ (?a * ?b) mod P_nat" "unat s' = 5 ^ (?b * ?a) mod P_nat"
    by (simp_all only: s(2) s'(2) rx(2) ry(2) power_mod power_mult)
  then have "s' = s" by (simp only: word_unat_eq_iff mult.commute)
  moreover have "unat generator_G = 5" by (simp add: generator_G_def)
  ultimately show ?thesis using rx(1) ry(1) s(1) s'(1) e(1) by (auto simp: unat_P)
qed

lemma dh_agreement_witness:
  "\<exists>gx gy s. ldhexchange [3, 0, 0, 0, 0, 0, 0, 0] = Inr gx \<and> ldhexchange [0, 0, 0, 0, 0, 0, 0, 0x80] = Inr gy \<and>
    ldhsecret gx [0, 0, 0, 0, 0, 0, 0, 0x80] = Inr (push64 s) \<and> ldhsecret gy [3, 0, 0, 0, 0, 0, 0, 0] = Inr (push64 s) \<and>
    unat s = unat generator_G ^ (unat (qword (read32 [3, 0, 0, 0, 0, 0, 0, 0] 0, read32 [3, 0, 0, 0, 0, 0, 0, 0] 4)) *
      unat (qword (read32 [0, 0, 0, 0, 0, 0, 0, 0x80] 0, read32 [0, 0, 0, 0, 0, 0, 0, 0x80] 4))) mod unat prime_P"
  by (rule dh_agreement) (simp_all add: replicate_numeral)

end
