(* ===== verification/CryptDes.thy ===== *)
theory CryptDes
  imports CryptBytes
begin

text \<open>
  The block cipher of \<open>skynet/lualib-src/lua-crypt.c\<close>: the tables, the key schedule, the rounds
  and the two commands with their padding. The macros work on variables \<open>X\<close>, \<open>Y\<close> and \<open>T\<close> of the
  caller; here they are functions of the pair of \<open>X\<close> and \<open>Y\<close>.
\<close>

definition SB1 :: "u32 list" where
  "SB1 = [
     0x01010400, 0x00000000, 0x00010000, 0x01010404, 0x01010004, 0x00010404, 0x00000004, 0x00010000,
     0x00000400, 0x01010400, 0x01010404, 0x00000400, 0x01000404, 0x01010004, 0x01000000, 0x00000004,
     0x00000404, 0x01000400, 0x01000400, 0x00010400, 0x00010400, 0x01010000, 0x01010000, 0x01000404,
     0x00010004, 0x01000004, 0x01000004, 0x00010004, 0x00000000, 0x00000404, 0x00010404, 0x01000000,
     0x00010000, 0x01010404, 0x00000004, 0x01010000, 0x01010400, 0x01000000, 0x01000000, 0x00000400,
     0x01010004, 0x00010000, 0x00010400, 0x01000004, 0x00000400, 0x00000004, 0x01000404, 0x00010404,
     0x01010404, 0x00010004, 0x01010000, 0x01000404, 0x01000004, 0x00000404, 0x00010404, 0x01010400,
     0x00000404, 0x01000400, 0x01000400, 0x00000000, 0x00010004, 0x00010400, 0x00000000, 0x01010004]"

definition SB2 :: "u32 list" where
  "SB2 = [
     0x80108020, 0x80008000, 0x00008000, 0x00108020, 0x00100000, 0x00000020, 0x80100020, 0x80008020,
     0x80000020, 0x80108020, 0x80108000, 0x80000000, 0x80008000, 0x00100000, 0x00000020, 0x80100020,
     0x00108000, 0x00100020, 0x80008020, 0x00000000, 0x80000000, 0x00008000, 0x00108020, 0x80100000,
     0x00100020, 0x80000020, 0x00000000, 0x00108000, 0x00008020, 0x80108000, 0x80100000, 0x00008020,
     0x00000000, 0x00108020, 0x80100020, 0x00100000, 0x80008020, 0x80100000, 0x80108000, 0x00008000,
     0x80100000, 0x80008000, 0x00000020, 0x80108020, 0x00108020, 0x00000020, 0x00008000, 0x80000000,
     0x00008020, 0x80108000, 0x00100000, 0x80000020, 0x00100020, 0x80008020, 0x80000020, 0x00100020,
     0x00108000, 0x00000000, 0x80008000, 0x00008020, 0x80000000, 0x80100020, 0x80108020, 0x00108000]"

definition SB3 :: "u32 list" where
  "SB3 = [
     0x00000208, 0x08020200, 0x00000000, 0x08020008, 0x08000200, 0x00000000, 0x00020208, 0x08000200,
     0x00020008, 0x08000008, 0x08000008, 0x00020000, 0x08020208, 0x00020008, 0x08020000, 0x00000208,
     0x08000000, 0x00000008, 0x08020200, 0x00000200, 0x00020200, 0x08020000, 0x08020008, 0x00020208,
     0x08000208, 0x00020200, 0x00020000, 0x08000208, 0x00000008, 0x08020208, 0x00000200, 0x08000000,
     0x08020200, 0x08000000, 0x00020008, 0x00000208, 0x00020000, 0x08020200, 0x08000200, 0x00000000,
     0x00000200, 0x00020008, 0x08020208, 0x08000200, 0x08000008, 0x00000200, 0x00000000, 0x08020008,
     0x08000208, 0x00020000, 0x08000000, 0x08020208, 0x00000008, 0x00020208, 0x00020200, 0x08000008,
     0x08020000, 0x08000208, 0x00000208, 0x08020000, 0x00020208, 0x00000008, 0x08020008, 0x00020200]"

definition SB4 :: "u32 list" where
  "SB4 = [
     0x00802001, 0x00002081, 0x00002081, 0x00000080, 0x00802080, 0x00800081, 0x00800001, 0x00002001,
     0x00000000, 0x00802000, 0x00802000, 0x00802081, 0x00000081, 0x00000000, 0x00800080, 0x00800001,
     0x00000001, 0x00002000, 0x00800000, 0x00802001, 0x00000080, 0x00800000, 0x00002001, 0x00002080,
     0x00800081, 0x00000001, 0x00002080, 0x00800080, 0x00002000, 0x00802080, 0x00802081, 0x00000081,
     0x00800080, 0x00800001, 0x00802000, 0x00802081, 0x00000081, 0x00000000, 0x00000000, 0x00802000,
     0x00002080, 0x00800080, 0x00800081, 0x00000001, 0x00802001, 0x00002081, 0x00002081, 0x00000080,
     0x00802081, 0x00000081, 0x00000001, 0x00002000, 0x00800001, 0x00002001, 0x00802080, 0x00800081,
     0x00002001, 0x00002080, 0x00800000, 0x00802001, 0x00000080, 0x00800000, 0x00002000, 0x00802080]"

definition SB5 :: "u32 list" where
  "SB5 = [
     0x00000100, 0x02080100, 0x02080000, 0x42000100, 0x00080000, 0x00000100, 0x40000000, 0x02080000,
     0x40080100, 0x00080000, 0x02000100, 0x40080100, 0x42000100, 0x42080000, 0x00080100, 0x40000000,
     0x02000000, 0x40080000, 0x40080000, 0x00000000, 0x40000100, 0x42080100, 0x42080100, 0x02000100,
     0x42080000, 0x40000100, 0x00000000, 0x42000000, 0x02080100, 0x02000000, 0x42000000, 0x00080100,
     0x00080000, 0x42000100, 0x00000100, 0x02000000, 0x40000000, 0x02080000, 0x42000100, 0x40080100,
     0x02000100, 0x40000000, 0x42080000, 0x02080100, 0x40080100, 0x00000100, 0x02000000, 0x42080000,
     0x42080100, 0x00080100, 0x42000000, 0x42080100, 0x02080000, 0x00000000, 0x40080000, 0x42000000,
     0x00080100, 0x02000100, 0x40000100, 0x00080000, 0x00000000, 0x40080000, 0x02080100, 0x40000100]"

definition SB6 :: "u32 list" where
  "SB6 = [
     0x20000010, 0x20400000, 0x00004000, 0x20404010, 0x20400000, 0x00000010, 0x20404010, 0x00400000,
     0x20004000, 0x00404010, 0x00400000, 0x20000010, 0x00400010, 0x20004000, 0x20000000, 0x00004010,
     0x00000000, 0x00400010, 0x20004010, 0x00004000, 0x00404000, 0x20004010, 0x00000010, 0x20400010,
     0x20400010, 0x00000000, 0x00404010, 0x20404000, 0x00004010, 0x00404000, 0x20404000, 0x20000000,
     0x20004000, 0x00000010, 0x20400010, 0x00404000, 0x20404010, 0x00400000, 0x00004010, 0x20000010,
     0x00400000, 0x20004000, 0x20000000, 0x00004010, 0x20000010, 0x20404010, 0x00404000, 0x20400000,
     0x00404010, 0x20404000, 0x00000000, 0x20400010, 0x00000010, 0x00004000, 0x20400000, 0x00404010,
     0x00004000, 0x00400010, 0x20004010, 0x00000000, 0x20404000, 0x20000000, 0x00400010, 0x20004010]"

definition SB7 :: "u32 list" where
  "SB7 = [
     0x00200000, 0x04200002, 0x04000802, 0x00000000, 0x00000800, 0x04000802, 0x00200802, 0x04200800,
     0x04200802, 0x00200000, 0x00000000, 0x04000002, 0x00000002, 0x04000000, 0x04200002, 0x00000802,
     0x04000800, 0x00200802, 0x00200002, 0x04000800, 0x04000002, 0x04200000, 0x04200800, 0x00200002,
     0x04200000, 0x00000800, 0x00000802, 0x04200802, 0x00200800, 0x00000002, 0x04000000, 0x00200800,
     0x04000000, 0x00200800, 0x00200000, 0x04000802, 0x04000802, 0x04200002, 0x04200002, 0x00000002,
     0x00200002, 0x04000000, 0x04000800, 0x00200000, 0x04200800, 0x00000802, 0x00200802, 0x04200800,
     0x00000802, 0x04000002, 0x04200802, 0x04200000, 0x00200800, 0x00000000, 0x00000002, 0x04200802,
     0x00000000, 0x00200802, 0x04200000, 0x00000800, 0x04000002, 0x04000800, 0x00000800, 0x00200002]"

definition SB8 :: "u32 list" where
  "SB8 = [
     0x10001040, 0x00001000, 0x00040000, 0x10041040, 0x10000000, 0x10001040, 0x00000040, 0x10000000,
     0x00040040, 0x10040000, 0x10041040, 0x00041000, 0x10041000, 0x00041040, 0x00001000, 0x00000040,
     0x10040000, 0x10000040, 0x10001000, 0x00001040, 0x00041000, 0x00040040, 0x10040040, 0x10041000,
     0x00001040, 0x00000000, 0x00000000, 0x10040040, 0x10000040, 0x10001000, 0x00041040, 0x00040000,
     0x00041040, 0x00040000, 0x10041000, 0x00001000, 0x00000040, 0x10040040, 0x00001000, 0x00041040,
     0x10001000, 0x00000040, 0x10000040, 0x10040000, 0x10040040, 0x10000000, 0x00040000, 0x10001040,
     0x00000000, 0x10041040, 0x00040040, 0x10000040, 0x10040000, 0x10001000, 0x10001040, 0x00000000,
     0x10041040, 0x00041000, 0x00041000, 0x00001040, 0x00001040, 0x00040040, 0x10000000, 0x10041000]"

definition LHs :: "u32 list" where
  "LHs = [
     0x00000000, 0x00000001, 0x00000100, 0x00000101, 0x00010000, 0x00010001, 0x00010100, 0x00010101,
     0x01000000, 0x01000001, 0x01000100, 0x01000101, 0x01010000, 0x01010001, 0x01010100, 0x01010101]"

definition RHs :: "u32 list" where
  "RHs = [
     0x00000000, 0x01000000, 0x00010000, 0x01010000, 0x00000100, 0x01000100, 0x00010100, 0x01010100,
     0x00000001, 0x01000001, 0x00010001, 0x01010001, 0x00000101, 0x01000101, 0x00010101, 0x01010101]"

abbreviation at :: "u32 list \<Rightarrow> u32 \<Rightarrow> u32" where
  "at table k \<equiv> table ! unat k"

text \<open>The exchange of bits that every line of the permutation macros but the rotations does.\<close>

definition DES_SWAP :: "nat \<Rightarrow> u32 \<Rightarrow> u32 \<times> u32 \<Rightarrow> u32 \<times> u32" where
  "DES_SWAP k m XY =
     (let X = fst XY; Y = snd XY; T = (drop_bit k X XOR Y) AND m in (X XOR push_bit k T, Y XOR T))"

definition DES_IP :: "u32 \<times> u32 \<Rightarrow> u32 \<times> u32" where
  "DES_IP XY =
     (let (X, Y) = DES_SWAP 4 0x0F0F0F0F XY;
          (X, Y) = DES_SWAP 16 0x0000FFFF (X, Y);
          (Y, X) = DES_SWAP 2 0x33333333 (Y, X);
          (Y, X) = DES_SWAP 8 0x00FF00FF (Y, X);
          Y = push_bit 1 Y OR drop_bit 31 Y;
          (X, Y) = DES_SWAP 0 0xAAAAAAAA (X, Y);
          X = push_bit 1 X OR drop_bit 31 X
      in (X, Y))"

definition DES_FP :: "u32 \<times> u32 \<Rightarrow> u32 \<times> u32" where
  "DES_FP XY =
     (let (X, Y) = XY;
          X = push_bit 31 X OR drop_bit 1 X;
          (X, Y) = DES_SWAP 0 0xAAAAAAAA (X, Y);
          Y = push_bit 31 Y OR drop_bit 1 Y;
          (Y, X) = DES_SWAP 8 0x00FF00FF (Y, X);
          (Y, X) = DES_SWAP 2 0x33333333 (Y, X);
          (X, Y) = DES_SWAP 16 0x0000FFFF (X, Y);
          (X, Y) = DES_SWAP 4 0x0F0F0F0F (X, Y)
      in (X, Y))"

text \<open>A round with its two subkeys; the new value of \<open>Y\<close>.\<close>

definition DES_ROUND :: "u32 \<Rightarrow> u32 \<Rightarrow> u32 \<Rightarrow> u32 \<Rightarrow> u32" where
  "DES_ROUND sk1 sk2 X Y =
     (let T = sk1 XOR X;
          Y = Y XOR (at SB8 (T AND 0x3F) XOR at SB6 (drop_bit 8 T AND 0x3F) XOR
            at SB4 (drop_bit 16 T AND 0x3F) XOR at SB2 (drop_bit 24 T AND 0x3F));
          T = sk2 XOR (push_bit 28 X OR drop_bit 4 X)
      in Y XOR (at SB7 (T AND 0x3F) XOR at SB5 (drop_bit 8 T AND 0x3F) XOR
            at SB3 (drop_bit 16 T AND 0x3F) XOR at SB1 (drop_bit 24 T AND 0x3F)))"

definition des_pc1 :: "u32 \<times> u32 \<Rightarrow> u32 \<times> u32" where
  "des_pc1 XY =
     (let (X, Y) = XY;
          T = (drop_bit 4 Y XOR X) AND 0x0F0F0F0F; X = X XOR T; Y = Y XOR push_bit 4 T;
          T = (Y XOR X) AND 0x10101010; X = X XOR T; Y = Y XOR T;
          X' = push_bit 3 (at LHs (X AND 0xF)) OR push_bit 2 (at LHs (drop_bit 8 X AND 0xF)) OR
               push_bit 1 (at LHs (drop_bit 16 X AND 0xF)) OR at LHs (drop_bit 24 X AND 0xF) OR
               push_bit 7 (at LHs (drop_bit 5 X AND 0xF)) OR push_bit 6 (at LHs (drop_bit 13 X AND 0xF)) OR
               push_bit 5 (at LHs (drop_bit 21 X AND 0xF)) OR push_bit 4 (at LHs (drop_bit 29 X AND 0xF));
          Y' = push_bit 3 (at RHs (drop_bit 1 Y AND 0xF)) OR push_bit 2 (at RHs (drop_bit 9 Y AND 0xF)) OR
               push_bit 1 (at RHs (drop_bit 17 Y AND 0xF)) OR at RHs (drop_bit 25 Y AND 0xF) OR
               push_bit 7 (at RHs (drop_bit 4 Y AND 0xF)) OR push_bit 6 (at RHs (drop_bit 12 Y AND 0xF)) OR
               push_bit 5 (at RHs (drop_bit 20 Y AND 0xF)) OR push_bit 4 (at RHs (drop_bit 28 Y AND 0xF))
      in (X' AND 0x0FFFFFFF, Y' AND 0x0FFFFFFF))"

definition des_subkeys :: "u32 \<Rightarrow> u32 \<Rightarrow> u32 list" where
  "des_subkeys X Y =
     [(push_bit 4 X AND 0x24000000) OR (push_bit 28 X AND 0x10000000) OR
      (push_bit 14 X AND 0x08000000) OR (push_bit 18 X AND 0x02080000) OR
      (push_bit 6 X AND 0x01000000) OR (push_bit 9 X AND 0x00200000) OR
      (drop_bit 1 X AND 0x00100000) OR (push_bit 10 X AND 0x00040000) OR
      (push_bit 2 X AND 0x00020000) OR (drop_bit 10 X AND 0x00010000) OR
      (drop_bit 13 Y AND 0x00002000) OR (drop_bit 4 Y AND 0x00001000) OR
      (push_bit 6 Y AND 0x00000800) OR (drop_bit 1 Y AND 0x00000400) OR
      (drop_bit 14 Y AND 0x00000200) OR (Y AND 0x00000100) OR
      (drop_bit 5 Y AND 0x00000020) OR (drop_bit 10 Y AND 0x00000010) OR
      (drop_bit 3 Y AND 0x00000008) OR (drop_bit 18 Y AND 0x00000004) OR
      (drop_bit 26 Y AND 0x00000002) OR (drop_bit 24 Y AND 0x00000001),
      (push_bit 15 X AND 0x20000000) OR (push_bit 17 X AND 0x10000000) OR
      (push_bit 10 X AND 0x08000000) OR (push_bit 22 X AND 0x04000000) OR
      (drop_bit 2 X AND 0x02000000) OR (push_bit 1 X AND 0x01000000) OR
      (push_bit 16 X AND 0x00200000) OR (push_bit 11 X AND 0x00100000) OR
      (push_bit 3 X AND 0x00080000) OR (drop_bit 6 X AND 0x00040000) OR
      (push_bit 15 X AND 0x00020000) OR (drop_bit 4 X AND 0x00010000) OR
      (drop_bit 2 Y AND 0x00002000) OR (push_bit 8 Y AND 0x00001000) OR
      (drop_bit 14 Y AND 0x00000808) OR (drop_bit 9 Y AND 0x00000400) OR
      (Y AND 0x00000200) OR (push_bit 7 Y AND 0x00000100) OR
      (drop_bit 7 Y AND 0x00000020) OR (drop_bit 3 Y AND 0x00000011) OR
      (push_bit 2 Y AND 0x00000004) OR (drop_bit 21 Y AND 0x00000002)]"

fun des_ks_loop :: "nat list \<Rightarrow> u32 \<Rightarrow> u32 \<Rightarrow> u32 list" where
  "des_ks_loop [] X Y = []"
| "des_ks_loop (i # is) X Y =
     (if i < 2 \<or> i = 8 \<or> i = 15 then
        (let X = (push_bit 1 X OR drop_bit 27 X) AND 0x0FFFFFFF; Y = (push_bit 1 Y OR drop_bit 27 Y) AND 0x0FFFFFFF
         in des_subkeys X Y @ des_ks_loop is X Y)
      else
        (let X = (push_bit 2 X OR drop_bit 26 X) AND 0x0FFFFFFF; Y = (push_bit 2 Y OR drop_bit 26 Y) AND 0x0FFFFFFF
         in des_subkeys X Y @ des_ks_loop is X Y))"

definition des_main_ks :: "byte list \<Rightarrow> u32 list" where
  "des_main_ks key =
     (let (X, Y) = des_pc1 (GET_UINT32 key 0, GET_UINT32 key 4) in des_ks_loop [0..<16] X Y)"

fun des_rounds :: "u32 list \<Rightarrow> u32 \<times> u32 \<Rightarrow> u32 \<times> u32" where
  "des_rounds (a # b # c # d # SK) (X, Y) =
     (let X = DES_ROUND a b Y X; Y = DES_ROUND c d X Y in des_rounds SK (X, Y))"
| "des_rounds _ (X, Y) = (X, Y)"

definition des_crypt :: "u32 list \<Rightarrow> byte list \<Rightarrow> byte list" where
  "des_crypt SK block =
     (let X = GET_UINT32 block 0; Y = GET_UINT32 block 4;
          (X, Y) = DES_IP (X, Y);
          (X, Y) = des_rounds SK (X, Y);
          (Y, X) = DES_FP (Y, X)
      in PUT_UINT32 Y @ PUT_UINT32 X)"

definition des_key :: "byte list \<Rightarrow> u32 list res" where
  "des_key key = (if length key \<noteq> 8 then Inl (LuaError ''Invalid key size'') else Inr (des_main_ks key))"

text \<open>The loop over whole blocks: the text that is left, the position and the buffer.\<close>

function des_blocks :: "u32 list \<Rightarrow> byte list \<Rightarrow> nat \<Rightarrow> cbuf \<Rightarrow> (byte list \<times> nat \<times> cbuf) res" where
  "des_blocks SK t i buf =
     (if length t < 8 then Inr (t, i, buf)
      else bind_res (cputs i (des_crypt SK (take 8 t)) buf) (des_blocks SK (drop 8 t) (i + 8)))"
  by pat_completeness auto
termination by (relation "measure (\<lambda>(SK, t, i, buf). length t)") auto

declare des_blocks.simps [simp del]

definition des_tail :: "byte list \<Rightarrow> byte list" where
  "des_tail t = map (\<lambda>j. if j < length t then t ! j else if j = length t then 0x80 else 0) [0..<8]"

definition des_buffer :: "nat \<Rightarrow> cbuf" where
  "des_buffer n = replicate (if n > SMALL_CHUNK then n else SMALL_CHUNK) None"

definition ldesencode :: "byte list \<Rightarrow> byte list \<Rightarrow> byte list res" where
  "ldesencode key t =
     bind_res (des_key key) (\<lambda>SK.
     let textsz = length t; chunksz = (textsz + 8) div 8 * 8
     in if exceeds_int chunksz then Inl IntOverflow
        else bind_res (des_blocks SK t 0 (des_buffer chunksz)) (\<lambda>(rest, i, buf).
             bind_res (cputs i (des_crypt SK (des_tail rest)) buf) (\<lambda>buf. pushlstring buf chunksz)))"

definition des_reverse :: "u32 list \<Rightarrow> u32 list" where
  "des_reverse ESK = concat (map (\<lambda>j. [ESK ! (30 - 2 * j), ESK ! (31 - 2 * j)]) [0..<16])"

text \<open>
  The scan of the padding from the end. The bound \<open>textsz - 8\<close> is unsigned, so a negative \<open>i\<close>
  passes the comparison, as a huge number, and \<open>buffer[-1]\<close> is read.
\<close>

function des_padding :: "cbuf \<Rightarrow> nat \<Rightarrow> int \<Rightarrow> nat \<Rightarrow> nat res" where
  "des_padding buf textsz i padding =
     (if i < 0 then Inl OutOfBounds
      else if textsz - 8 \<le> nat i then
        (if length buf \<le> nat i then Inl OutOfBounds
         else
           (case buf ! nat i of
              None \<Rightarrow> Inl UninitRead
            | Some b \<Rightarrow>
                if b = 0 then des_padding buf textsz (i - 1) (padding + 1)
                else if b = 0x80 then Inr padding
                else Inl (LuaError ''Invalid des crypt text'')))
      else Inr padding)"
  by pat_completeness auto
termination by (relation "measure (\<lambda>(buf, textsz, i, padding). nat (i + 1))") auto

declare des_padding.simps [simp del]

definition ldesdecode :: "byte list \<Rightarrow> byte list \<Rightarrow> byte list res" where
  "ldesdecode key t =
     bind_res (des_key key) (\<lambda>ESK.
     let SK = des_reverse ESK; textsz = length t
     in if textsz mod 8 \<noteq> 0 \<or> textsz = 0 then Inl (LuaError ''Invalid des crypt text length'')
        else if exceeds_int textsz then Inl IntOverflow
        else bind_res (des_blocks SK t 0 (des_buffer textsz)) (\<lambda>(_, _, buf).
             bind_res (des_padding buf textsz (int textsz - 1) 1) (\<lambda>padding.
             if padding > 8 then Inl (LuaError ''Invalid des crypt text'') else pushlstring buf (textsz - padding))))"

section \<open>The permutations undo each other\<close>

lemma DES_SWAP_twice:
  assumes "\<And>n. bit m n \<Longrightarrow> k + n < 32"
  shows "DES_SWAP k m (DES_SWAP k m XY) = XY"
proof -
  define X Y T where "X = fst XY" and "Y = snd XY" and "T = (drop_bit k X XOR Y) AND m"
  have s: "DES_SWAP k m XY = (X XOR push_bit k T, Y XOR T)" by (simp only: DES_SWAP_def Let_def X_def Y_def T_def)
  have "(drop_bit k (X XOR push_bit k T) XOR (Y XOR T)) AND m = T"
    by (rule bit_word_eqI) (use assms in \<open>auto simp: bit_simps T_def\<close>)
  then have "DES_SWAP k m (X XOR push_bit k T, Y XOR T) = ((X XOR push_bit k T) XOR push_bit k T, (Y XOR T) XOR T)"
    by (simp only: DES_SWAP_def Let_def fst_conv snd_conv)
  then show ?thesis by (simp add: s xor.assoc X_def Y_def)
qed

lemma rotate_back:
  assumes "a + b = 32"
  shows "push_bit b (push_bit a X OR drop_bit b X) OR drop_bit a (push_bit a X OR drop_bit b X) = (X :: u32)"
proof (rule bit_word_eqI)
  fix n assume n: "n < LENGTH(32)"
  then consider "n < b" | j where "n = b + j" "j < a" using assms le_Suc_ex [of b n] by fastforce
  then show "bit (push_bit b (push_bit a X OR drop_bit b X) OR drop_bit a (push_bit a X OR drop_bit b X)) n = bit X n"
    by cases (use assms in \<open>auto simp: bit_simps bit_u32_ge\<close>)
qed

lemma swap_back:
  "DES_SWAP 4 0x0F0F0F0F (DES_SWAP 4 0x0F0F0F0F XY) = XY" "DES_SWAP 16 0x0000FFFF (DES_SWAP 16 0x0000FFFF XY) = XY"
  "DES_SWAP 2 0x33333333 (DES_SWAP 2 0x33333333 XY) = XY" "DES_SWAP 8 0x00FF00FF (DES_SWAP 8 0x00FF00FF XY) = XY"
  "DES_SWAP 0 0xAAAAAAAA (DES_SWAP 0 0xAAAAAAAA XY) = XY"
proof -
  have b: "bit m n \<Longrightarrow> k + n < 32" if "drop_bit (32 - k) m = 0" "k \<le> 32" for m :: u32 and n k
  proof (rule ccontr)
    assume n: "bit m n" "\<not> k + n < 32"
    then have "bit (drop_bit (32 - k) m) (n - (32 - k))" using that(2) by (simp add: bit_drop_bit_eq)
    then show False using that(1) by simp
  qed
  show "DES_SWAP 4 0x0F0F0F0F (DES_SWAP 4 0x0F0F0F0F XY) = XY" by (rule DES_SWAP_twice) (erule b [rotated 2], simp_all)
  show "DES_SWAP 16 0x0000FFFF (DES_SWAP 16 0x0000FFFF XY) = XY" by (rule DES_SWAP_twice) (erule b [rotated 2], simp_all)
  show "DES_SWAP 2 0x33333333 (DES_SWAP 2 0x33333333 XY) = XY" by (rule DES_SWAP_twice) (erule b [rotated 2], simp_all)
  show "DES_SWAP 8 0x00FF00FF (DES_SWAP 8 0x00FF00FF XY) = XY" by (rule DES_SWAP_twice) (erule b [rotated 2], simp_all)
  show "DES_SWAP 0 0xAAAAAAAA (DES_SWAP 0 0xAAAAAAAA XY) = XY" by (rule DES_SWAP_twice) (auto dest: bit_imp_le_length)
qed

lemma FP_IP: "DES_FP (DES_IP XY) = XY"
proof -
  obtain X Y where xy: "XY = (X, Y)" by fastforce
  obtain x1 y1 where 1: "DES_SWAP 4 0x0F0F0F0F (X, Y) = (x1, y1)" by fastforce
  obtain x2 y2 where 2: "DES_SWAP 16 0x0000FFFF (x1, y1) = (x2, y2)" by fastforce
  obtain x3 y3 where 3: "DES_SWAP 2 0x33333333 (y2, x2) = (y3, x3)" by fastforce
  obtain x4 y4 where 4: "DES_SWAP 8 0x00FF00FF (y3, x3) = (y4, x4)" by fastforce
  obtain x5 y5 where 5: "DES_SWAP 0 0xAAAAAAAA (x4, push_bit 1 y4 OR drop_bit 31 y4) = (x5, y5)" by fastforce
  have inv: "DES_SWAP 0 0xAAAAAAAA (x5, y5) = (x4, push_bit 1 y4 OR drop_bit 31 y4)" "DES_SWAP 8 0x00FF00FF (y4, x4) = (y3, x3)"
    "DES_SWAP 2 0x33333333 (y3, x3) = (y2, x2)" "DES_SWAP 16 0x0000FFFF (x2, y2) = (x1, y1)" "DES_SWAP 4 0x0F0F0F0F (x1, y1) = (X, Y)"
    using swap_back 1 2 3 4 5 by metis+
  show ?thesis
    by (simp only: xy DES_IP_def DES_FP_def Let_def 1 2 3 4 5 prod.case inv rotate_back)
qed

lemma IP_FP: "DES_IP (DES_FP XY) = XY"
proof -
  obtain X Y where xy: "XY = (X, Y)" by fastforce
  obtain x1 y1 where 1: "DES_SWAP 0 0xAAAAAAAA (push_bit 31 X OR drop_bit 1 X, Y) = (x1, y1)" by fastforce
  obtain x2 y2 where 2: "DES_SWAP 8 0x00FF00FF (push_bit 31 y1 OR drop_bit 1 y1, x1) = (y2, x2)" by fastforce
  obtain x3 y3 where 3: "DES_SWAP 2 0x33333333 (y2, x2) = (y3, x3)" by fastforce
  obtain x4 y4 where 4: "DES_SWAP 16 0x0000FFFF (x3, y3) = (x4, y4)" by fastforce
  obtain x5 y5 where 5: "DES_SWAP 4 0x0F0F0F0F (x4, y4) = (x5, y5)" by fastforce
  have inv: "DES_SWAP 0 0xAAAAAAAA (x1, y1) = (push_bit 31 X OR drop_bit 1 X, Y)" "DES_SWAP 8 0x00FF00FF (y2, x2) = (push_bit 31 y1 OR drop_bit 1 y1, x1)"
    "DES_SWAP 2 0x33333333 (y3, x3) = (y2, x2)" "DES_SWAP 16 0x0000FFFF (x4, y4) = (x3, y3)" "DES_SWAP 4 0x0F0F0F0F (x5, y5) = (x4, y4)"
    using swap_back 1 2 3 4 5 by metis+
  show ?thesis
    by (simp only: xy DES_IP_def DES_FP_def Let_def 1 2 3 4 5 prod.case inv rotate_back)
qed

section \<open>Rounds backwards\<close>

text \<open>One round on the pair of the half that changes and the half that stays, with the halves exchanged.\<close>

definition half_round :: "u32 \<times> u32 \<Rightarrow> u32 \<times> u32 \<Rightarrow> u32 \<times> u32" where
  "half_round sk UV = (snd UV, DES_ROUND (fst sk) (snd sk) (snd UV) (fst UV))"

fun pairs :: "'a list \<Rightarrow> ('a \<times> 'a) list" where
  "pairs (a # b # xs) = (a, b) # pairs xs"
| "pairs _ = []"

lemma des_rounds_fold: "length SK mod 4 = 0 \<Longrightarrow> des_rounds SK XY = fold half_round (pairs SK) XY"
proof (induction SK XY rule: des_rounds.induct)
  case (1 a b c d SK X Y)
  then have "length SK mod 4 = 0" by (simp add: mod_Suc split: if_splits)
  with "1.IH" [OF refl refl this] show ?case by (simp add: half_round_def Let_def)
qed simp_all

lemma DES_ROUND_twice: "DES_ROUND a b X (DES_ROUND a b X Y) = Y"
proof -
  have "\<exists>F. \<forall>Y. DES_ROUND a b X Y = Y XOR F"
    by (rule exI, rule allI) (simp only: DES_ROUND_def Let_def xor.assoc)
  then obtain F where "\<And>Y. DES_ROUND a b X Y = Y XOR F" by blast
  then show ?thesis by (simp add: xor.assoc)
qed

lemma half_round_back: "half_round sk (prod.swap (half_round sk UV)) = prod.swap UV"
  by (simp add: half_round_def DES_ROUND_twice prod_eq_iff)

lemma fold_back: "fold half_round (rev ks) (prod.swap (fold half_round ks XY)) = prod.swap XY"
  by (induction ks rule: rev_induct) (simp_all add: half_round_back)

lemma pairs_nth: "2 * length (pairs xs) \<le> length xs \<and> length xs \<le> 2 * length (pairs xs) + 1 \<and>
  (\<forall>j<length (pairs xs). pairs xs ! j = (xs ! (2 * j), xs ! (2 * j + 1)))"
  by (induction xs rule: pairs.induct) (auto simp: nth_Cons split: nat.splits)

lemma pairs_concat: "pairs (concat (map (\<lambda>j. [f j, g j]) js)) = map (\<lambda>j. (f j, g j)) js"
  by (induction js) simp_all

lemma pairs_reverse:
  assumes "length ESK = 32"
  shows "pairs (des_reverse ESK) = rev (pairs ESK)" "length (des_reverse ESK) = 32"
proof -
  have l: "length (pairs ESK) = 16" using pairs_nth [of ESK] assms by linarith
  show "pairs (des_reverse ESK) = rev (pairs ESK)"
  proof (rule nth_equalityI)
    show "length (pairs (des_reverse ESK)) = length (rev (pairs ESK))" by (simp add: des_reverse_def pairs_concat l)
    fix j assume "j < length (pairs (des_reverse ESK))"
    then have j: "j < 16" by (simp add: des_reverse_def pairs_concat)
    then have "rev (pairs ESK) ! j = pairs ESK ! (15 - j)" by (simp add: rev_nth l)
    also have "\<dots> = (ESK ! (2 * (15 - j)), ESK ! (2 * (15 - j) + 1))" using pairs_nth [of ESK] l j by simp
    also have "2 * (15 - j) = 30 - 2 * j" by simp
    also have "30 - 2 * j + 1 = 31 - 2 * j" using j by simp
    finally show "pairs (des_reverse ESK) ! j = rev (pairs ESK) ! j"
      using j by (simp add: des_reverse_def pairs_concat)
  qed
  show "length (des_reverse ESK) = 32" by (simp add: des_reverse_def length_concat comp_def sum_list_triv)
qed

lemma length_des_main_ks: "length (des_main_ks key) = 32"
proof -
  have "length (des_ks_loop is X Y) = 2 * length is" for "is" X Y
    by (induction "is" X Y rule: des_ks_loop.induct) (simp_all add: des_subkeys_def Let_def)
  then show ?thesis by (simp add: des_main_ks_def split: prod.splits)
qed

lemma length_des_crypt [simp]: "length (des_crypt SK block) = 8"
  by (simp add: des_crypt_def Let_def split: prod.splits)

lemma des_crypt_back:
  assumes "length SK = 32" "length block = 8"
  shows "des_crypt (des_reverse SK) (des_crypt SK block) = block"
proof -
  define XY where "XY = (GET_UINT32 block 0, GET_UINT32 block 4)"
  obtain X1 Y1 where r: "des_rounds SK (DES_IP XY) = (X1, Y1)" by fastforce
  obtain Y2 X2 where f: "DES_FP (Y1, X1) = (Y2, X2)" by fastforce
  have e: "des_crypt SK block = PUT_UINT32 Y2 @ PUT_UINT32 X2"
    using r f by (simp add: des_crypt_def XY_def Let_def split: prod.splits)
  have i: "DES_IP (Y2, X2) = (Y1, X1)" using IP_FP [of "(Y1, X1)"] f by simp
  have "des_rounds (des_reverse SK) (Y1, X1) = prod.swap (DES_IP XY)"
    using fold_back [of "pairs SK" "DES_IP XY"] r assms(1) pairs_reverse [OF assms(1)]
    by (simp add: des_rounds_fold)
  moreover obtain X0 Y0 where 0: "DES_IP XY = (X0, Y0)" by fastforce
  moreover have "DES_FP (X0, Y0) = XY" using FP_IP [of XY] 0 by simp
  ultimately have "des_crypt (des_reverse SK) (des_crypt SK block) = PUT_UINT32 (fst XY) @ PUT_UINT32 (snd XY)"
    using i by (simp add: e des_crypt_def [of "des_reverse SK"] GET_PUT Let_def split: prod.splits)
  then show ?thesis using PUT_GET [OF assms(2)] by (simp add: XY_def)
qed

section \<open>Whole texts\<close>

text \<open>The blocks of a text, each through the cipher.\<close>

function ecb :: "u32 list \<Rightarrow> byte list \<Rightarrow> byte list" where
  "ecb SK t = (if length t < 8 then [] else des_crypt SK (take 8 t) @ ecb SK (drop 8 t))"
  by pat_completeness auto
termination by (relation "measure (\<lambda>(SK, t). length t)") auto

declare ecb.simps [simp del]

lemma length_ecb: "length (ecb SK t) = length t div 8 * 8"
proof (induction SK t rule: ecb.induct)
  case (1 SK t)
  then show ?case by (cases "length t < 8") (simp_all add: ecb.simps [of SK t] le_div_geq not_less)
qed

lemma des_blocks_filled:
  "length t div 8 * 8 \<le> k \<Longrightarrow> des_blocks SK t (length out) (filled out k) =
    Inr (drop (length t div 8 * 8) t, length out + length t div 8 * 8, filled (out @ ecb SK t) (k - length t div 8 * 8))"
proof (induction SK t arbitrary: out k rule: ecb.induct)
  case (1 SK t)
  show ?case
  proof (cases "length t < 8")
    case True
    then show ?thesis by (simp add: des_blocks.simps [of SK t] ecb.simps [of SK t])
  next
    case False
    let ?b = "des_crypt SK (take 8 t)"
    have n: "length t div 8 * 8 = length (drop 8 t) div 8 * 8 + 8" using False by (simp add: le_div_geq not_less)
    then have put: "cputs (length out) ?b (filled out k) = Inr (filled (out @ ?b) (k - 8))"
      using cputs_filled [of ?b k out] "1.prems" by simp
    have "des_blocks SK (drop 8 t) (length (out @ ?b)) (filled (out @ ?b) (k - 8)) =
      Inr (drop (length (drop 8 t) div 8 * 8) (drop 8 t), length (out @ ?b) + length (drop 8 t) div 8 * 8,
        filled ((out @ ?b) @ ecb SK (drop 8 t)) (k - 8 - length (drop 8 t) div 8 * 8))"
      by (rule "1.IH" [OF False]) (use "1.prems" n in simp)
    then show ?thesis
      using False put by (simp add: des_blocks.simps [of SK t] ecb.simps [of SK t] n add.commute)
  qed
qed

lemma ecb_append: "length a mod 8 = 0 \<Longrightarrow> ecb SK (a @ b) = ecb SK a @ ecb SK b"
proof (induction SK a rule: ecb.induct)
  case (1 SK a)
  show ?case
  proof (cases "a = []")
    case True
    then show ?thesis by (simp add: ecb.simps [of SK "[]"])
  next
    case False
    then have 8: "8 \<le> length a" using "1.prems" by (cases "length a < 8") auto
    then have "ecb SK (drop 8 a @ b) = ecb SK (drop 8 a) @ ecb SK b"
      using "1.IH" "1.prems" by (simp add: le_mod_geq)
    then show ?thesis using 8 by (simp add: ecb.simps [of SK a] ecb.simps [of SK "a @ b"])
  qed
qed

lemma ecb_block: "length b = 8 \<Longrightarrow> ecb SK b = des_crypt SK b"
  by (simp add: ecb.simps [of SK b] ecb.simps [of SK "[]"])

lemma ecb_back: "length SK = 32 \<Longrightarrow> length t mod 8 = 0 \<Longrightarrow> ecb (des_reverse SK) (ecb SK t) = t"
proof (induction SK t rule: ecb.induct)
  case (1 SK t)
  show ?case
  proof (cases "t = []")
    case True
    then show ?thesis by (simp add: ecb.simps)
  next
    case False
    then have 8: "8 \<le> length t" using "1.prems" by (cases "length t < 8") auto
    then have IH: "ecb (des_reverse SK) (ecb SK (drop 8 t)) = drop 8 t"
      using "1.IH" "1.prems" by (simp add: le_mod_geq)
    have "ecb (des_reverse SK) (ecb SK t) = ecb (des_reverse SK) (des_crypt SK (take 8 t)) @ ecb (des_reverse SK) (ecb SK (drop 8 t))"
      using 8 by (simp add: ecb.simps [of SK t] ecb_append)
    then show ?thesis using 8 IH "1.prems" by (simp add: ecb_block des_crypt_back)
  qed
qed

definition padded :: "byte list \<Rightarrow> byte list" where
  "padded t = t @ 0x80 # replicate (7 - length t mod 8) 0"

lemma length_padded: "length (padded t) = (length t + 8) div 8 * 8"
proof -
  have "length t mod 8 < 8" by simp
  then have "length t + (8 - length t mod 8) = length t div 8 * 8 + 8" using div_mult_mod_eq [of "length t" 8] by linarith
  moreover have "(length t + 8) div 8 * 8 = length t div 8 * 8 + 8" by (simp only: div_add_self2) simp
  ultimately show ?thesis using \<open>length t mod 8 < 8\<close> by (simp add: padded_def)
qed

lemma padded_split: "padded t = take (length t div 8 * 8) t @ des_tail (drop (length t div 8 * 8) t)"
proof -
  let ?n = "length t div 8 * 8" and ?r = "drop (length t div 8 * 8) t"
  have r: "length ?r = length t mod 8" by (simp add: minus_div_mult_eq_mod)
  then have r8: "length ?r < 8" by simp
  have "des_tail ?r = ?r @ 0x80 # replicate (7 - length ?r) 0"
  proof (rule nth_equalityI)
    fix j assume "j < length (des_tail ?r)"
    then show "des_tail ?r ! j = (?r @ 0x80 # replicate (7 - length ?r) 0) ! j"
      by (auto simp: des_tail_def nth_append nth_Cons split: nat.splits)
  qed (use r8 in \<open>simp add: des_tail_def\<close>)
  then have "des_tail ?r = ?r @ 0x80 # replicate (7 - length t mod 8) 0" by (simp only: r)
  then show ?thesis by (simp add: padded_def flip: append_assoc)
qed

lemma ldesencode_eq:
  assumes "length key = 8" "length t + 8 < 2 ^ 31"
  shows "ldesencode key t = Inr (ecb (des_main_ks key) (padded t))"
proof -
  let ?SK = "des_main_ks key" and ?n = "length t div 8 * 8"
  let ?r = "drop ?n t" and ?size = "(length t + 8) div 8 * 8"
  define cap where "cap = (if ?size > SMALL_CHUNK then ?size else SMALL_CHUNK)"
  have n: "?n + 8 = ?size" by (simp only: div_add_self2) simp
  then have cap: "?n + 8 \<le> cap" by (auto simp: cap_def)
  have e: "ecb ?SK (take ?n t) = ecb ?SK t"
  proof -
    have "ecb ?SK t = ecb ?SK (take ?n t @ drop ?n t)" by simp
    also have "\<dots> = ecb ?SK (take ?n t) @ ecb ?SK ?r" by (rule ecb_append) (simp add: min_absorb2)
    also have "ecb ?SK ?r = []" by (simp add: ecb.simps [of ?SK ?r] minus_div_mult_eq_mod)
    finally show ?thesis by simp
  qed
  have out: "ecb ?SK (padded t) = ecb ?SK t @ des_crypt ?SK (des_tail ?r)"
    by (simp add: padded_split ecb_append min_absorb2 e ecb_block des_tail_def)
  have "des_blocks ?SK t 0 (replicate cap None) = Inr (?r, ?n, filled (ecb ?SK t) (cap - ?n))"
    using des_blocks_filled [of t cap ?SK "[]"] cap by simp
  moreover have "cputs ?n (des_crypt ?SK (des_tail ?r)) (filled (ecb ?SK t) (cap - ?n))
    = Inr (filled (ecb ?SK (padded t)) (cap - ?n - 8))"
    using cputs_filled [of "des_crypt ?SK (des_tail ?r)" "cap - ?n" "ecb ?SK t"] cap by (simp add: length_ecb out)
  moreover have "pushlstring (filled (ecb ?SK (padded t)) k) ?size = Inr (ecb ?SK (padded t))" for k
    using pushlstring_filled [of "ecb ?SK (padded t)" k] by (simp add: length_ecb length_padded)
  moreover have "\<not> exceeds_int ?size" using assms(2) by simp
  ultimately show ?thesis
    using assms(1) by (simp add: ldesencode_def des_key_def des_buffer_def Let_def flip: cap_def)
qed

section \<open>The padding\<close>

lemma des_padding_zeros:
  "\<forall>j<z. buf ! (a + j) = Some 0 \<Longrightarrow> a + z \<le> length buf \<Longrightarrow> n - 8 \<le> a \<Longrightarrow>
   des_padding buf n (int (a + z) - 1) p = des_padding buf n (int a - 1) (p + z)"
proof (induction z arbitrary: p)
  case (Suc z)
  have "des_padding buf n (int (a + Suc z) - 1) p = des_padding buf n (int (a + z) - 1) (p + 1)"
    using Suc.prems by (subst des_padding.simps) (simp add: nat_add_distrib)
  then show ?case using Suc by simp
qed simp

lemma des_padding_stop:
  assumes "a < length buf" "buf ! a = Some b" "b \<noteq> 0" "n - 8 \<le> a"
  shows "des_padding buf n (int (Suc a) - 1) p = (if b = 0x80 then Inr p else Inl (LuaError ''Invalid des crypt text''))"
  using assms by (subst des_padding.simps) simp

lemma pairs_inj: "pairs xs = pairs ys \<Longrightarrow> length xs = length ys \<Longrightarrow> even (length xs) \<Longrightarrow> xs = ys"
proof (induction xs arbitrary: ys rule: pairs.induct)
  case (1 a b xs)
  then obtain c d zs where "ys = c # d # zs" by (cases ys rule: pairs.cases) auto
  with 1 show ?case by simp
qed auto

lemma des_reverse_twice: "length SK = 32 \<Longrightarrow> des_reverse (des_reverse SK) = SK"
  by (rule pairs_inj) (simp_all add: pairs_reverse)

definition scan_result :: "byte list \<Rightarrow> byte list res" where
  "scan_result plain =
     bind_res (des_padding (map Some plain) (length plain) (int (length plain) - 1) 1) (\<lambda>padding.
       if padding > 8 then Inl (LuaError ''Invalid des crypt text'') else Inr (take (length plain - padding) plain))"

lemma des_padding_filled:
  "i < int (length out) \<Longrightarrow> des_padding (filled out k) n i p = des_padding (map Some out) n i p"
proof (induction "nat (i + 1)" arbitrary: i p)
  case 0
  then show ?case by (subst (1 2) des_padding.simps) simp
next
  case (Suc m)
  then have i: "0 \<le> i" "nat i < length out" by simp_all
  then have "filled out k ! nat i = Some (out ! nat i)" "map Some out ! nat i = Some (out ! nat i)" by (simp_all add: nth_append)
  moreover have "des_padding (filled out k) n (i - 1) (p + 1) = des_padding (map Some out) n (i - 1) (p + 1)"
    by (rule Suc.hyps(1)) (use Suc.hyps(2) Suc.prems in auto)
  ultimately show ?case using i by (subst (1 2) des_padding.simps) simp
qed

lemma ldesdecode_eq:
  assumes "length key = 8" "length t mod 8 = 0" "t \<noteq> []" "length t < 2 ^ 31"
  shows "ldesdecode key t = scan_result (ecb (des_reverse (des_main_ks key)) t)"
proof -
  let ?SK = "des_reverse (des_main_ks key)"
  let ?plain = "ecb ?SK t"
  define cap where "cap = (if length t > SMALL_CHUNK then length t else SMALL_CHUNK)"
  have m: "length t div 8 * 8 = length t" using assms(2) by (simp add: div_mult_mod_eq flip: dvd_eq_mod_eq_0)
  have l: "length ?plain = length t" by (simp add: length_ecb m)
  have "des_blocks ?SK t 0 (replicate cap None) = Inr ([], length t, filled ?plain (cap - length t))"
    using des_blocks_filled [of t cap ?SK "[]"] by (simp add: m cap_def)
  moreover have "pushlstring (filled ?plain k) (length t - p) = Inr (take (length t - p) ?plain)" for k p
    by (simp add: pushlstring_def l list_all_iff take_map)
  moreover have "des_padding (filled ?plain (cap - length t)) (length t) (int (length t) - 1) 1
    = des_padding (map Some ?plain) (length ?plain) (int (length ?plain) - 1) 1"
    unfolding l by (rule des_padding_filled) (simp add: l)
  ultimately show ?thesis
    using assms by (simp add: ldesdecode_def des_key_def des_buffer_def scan_result_def l Let_def flip: cap_def cong: if_cong)
qed

lemma trailing_zeros: "\<exists>s z. plain = s @ replicate z (0 :: byte) \<and> (s = [] \<or> last s \<noteq> 0)"
proof (induction plain rule: rev_induct)
  case (snoc b plain)
  show ?case
  proof (cases "b = 0")
    case True
    from snoc obtain s z where "plain = s @ replicate z 0" "s = [] \<or> last s \<noteq> 0" by blast
    then show ?thesis using True by (intro exI [of _ s] exI [of _ "Suc z"]) (simp add: replicate_append_same)
  next
    case False
    then show ?thesis by (intro exI [of _ "plain @ [b]"] exI [of _ 0]) simp
  qed
qed simp

lemma scan_marked:
  assumes "z < 8"
  shows "scan_result (s @ 0x80 # replicate z 0) = Inr s"
proof -
  let ?p = "s @ 0x80 # replicate z (0 :: byte)" and ?a = "Suc (length s)"
  have "des_padding (map Some ?p) (length ?p) (int (?a + z) - 1) 1 = des_padding (map Some ?p) (length ?p) (int ?a - 1) (1 + z)"
    by (rule des_padding_zeros) (use assms in \<open>auto simp: nth_append nth_Cons split: nat.splits\<close>)
  also have "\<dots> = Inr (1 + z)"
    by (subst des_padding_stop [where b = "0x80"]) (use assms in \<open>auto simp: nth_append\<close>)
  finally show ?thesis using assms by (simp add: scan_result_def add.assoc)
qed

lemma scan_unmarked:
  assumes "\<nexists>s z. z < 8 \<and> plain = s @ 0x80 # replicate z 0" "8 \<le> length plain"
  shows "scan_result plain = Inl (if plain = replicate 8 0 then OutOfBounds else LuaError ''Invalid des crypt text'')"
proof -
  obtain s z where p: "plain = s @ replicate z 0" "s = [] \<or> last s \<noteq> 0" using trailing_zeros by blast
  let ?n = "length plain" and ?buf = "map Some plain"
  show ?thesis
  proof (cases "z < 8")
    case True
    then have "s \<noteq> []" using p assms(2) by auto
    then obtain r b where r: "s = r @ [b]" by (cases s rule: rev_cases) auto
    then have b: "b \<noteq> 0" "b \<noteq> 0x80" using p assms(1) True by auto
    have "des_padding ?buf ?n (int (length s + z) - 1) 1 = des_padding ?buf ?n (int (length s) - 1) (1 + z)"
      by (rule des_padding_zeros) (use True p in \<open>auto simp: nth_append\<close>)
    also have "\<dots> = Inl (LuaError ''Invalid des crypt text'')"
      using des_padding_stop [of "length r" ?buf b ?n "1 + z"] b r p True by (simp add: nth_append)
    finally have "scan_result plain = Inl (LuaError ''Invalid des crypt text'')" using p by (simp add: scan_result_def)
    moreover have "plain \<noteq> replicate 8 0"
    proof
      assume "plain = replicate 8 0"
      then have "b \<in> set (replicate 8 (0 :: byte))" using p(1) r by (metis UnCI list.set_intros(1) set_append)
      then show False using b(1) by simp
    qed
    ultimately show ?thesis by simp
  next
    case False
    let ?a = "length s + (z - 8)"
    have n: "?n = ?a + 8" using False p by simp
    have "des_padding ?buf ?n (int (?a + 8) - 1) 1 = des_padding ?buf ?n (int ?a - 1) (1 + 8)"
      by (rule des_padding_zeros) (use False p n in \<open>auto simp: nth_append\<close>)
    also have "\<dots> = (if ?a = 0 then Inl OutOfBounds else Inr 9)"
    proof (cases ?a)
      case 0
      then show ?thesis by (subst des_padding.simps) simp
    next
      case (Suc a)
      then have "nat (int ?a - 1) = a" by simp
      moreover have "\<not> ?n - 8 \<le> a" using n Suc by simp
      ultimately show ?thesis using Suc by (subst des_padding.simps) simp
    qed
    finally have r: "scan_result plain = Inl (if ?a = 0 then OutOfBounds else LuaError ''Invalid des crypt text'')"
      using n by (simp add: scan_result_def)
    have "plain = replicate 8 0" if "?a = 0"
    proof -
      have "length s = 0 \<and> z = 8" using that False by linarith
      then have "s = []" "z = 8" by simp_all
      then show ?thesis using p(1) by simp
    qed
    moreover have "?a = 0" if "plain = replicate 8 0"
    proof -
      have "?n = 8" using that by simp
      then show ?thesis using n by linarith
    qed
    ultimately have "?a = 0 \<longleftrightarrow> plain = replicate 8 0" by (rule iffI)
    with r show ?thesis by (simp only:)
  qed
qed

text \<open>
  C24: The cipher reads back. With any 8-byte key, every text is encoded in exactly its buffer,
  in the least multiple of eight bytes that is longer than the text, and decoded to itself.
\<close>

theorem des_round_trip:
  assumes "length key = 8" "length t + 8 < 2 ^ 31"
  shows "\<exists>c. ldesencode key t = Inr c \<and> length c = (length t div 8 + 1) * 8 \<and> ldesdecode key c = Inr t"
proof -
  let ?c = "ecb (des_main_ks key) (padded t)"
  have s: "(length t + 8) div 8 * 8 = (length t div 8 + 1) * 8" by (subst div_add_self2) simp_all
  then have p: "length (padded t) mod 8 = 0" "length ?c = (length t div 8 + 1) * 8"
    by (simp_all add: length_ecb length_padded)
  have "ldesdecode key ?c = scan_result (ecb (des_reverse (des_main_ks key)) ?c)"
  proof (rule ldesdecode_eq)
    show "length ?c < 2 ^ 31" using p(2) assms(2) by simp
    show "?c \<noteq> []" using p(2) by auto
  qed (use assms(1) p(2) in simp_all)
  also have "\<dots> = Inr t"
    unfolding ecb_back [OF length_des_main_ks p(1)] unfolding padded_def by (rule scan_marked) simp
  finally show ?thesis using ldesencode_eq [OF assms] p(2) by blast
qed

lemma des_round_trip_witness:
  "\<exists>c. ldesencode [0x13, 0x34, 0x57, 0x79, 0x9B, 0xBC, 0xDF, 0xF1] [1, 2, 3] = Inr c \<and>
    length c = (length [1, 2, 3 :: byte] div 8 + 1) * 8 \<and> ldesdecode [0x13, 0x34, 0x57, 0x79, 0x9B, 0xBC, 0xDF, 0xF1] c = Inr [1, 2, 3]"
  by (rule des_round_trip) simp_all

text \<open>
  What decoding does with any text of whole blocks. Deciphered bytes that end in a mark
  0x80 and at most seven zeros give the bytes in front of the mark, all others are refused; but a
  single block of zeros makes the scan of the padding run below the buffer. For every key there
  is such an input: the cipher of eight zeros.
\<close>

theorem des_decode_outcomes:
  assumes "length key = 8" "length c mod 8 = 0" "c \<noteq> []" "length c < 2 ^ 31"
  shows "\<exists>plain. length plain = length c \<and> ecb (des_main_ks key) plain = c \<and>
    (\<forall>s z. z < 8 \<and> plain = s @ 0x80 # replicate z 0 \<longrightarrow> ldesdecode key c = Inr s) \<and>
    ((\<nexists>s z. z < 8 \<and> plain = s @ 0x80 # replicate z 0) \<longrightarrow>
      ldesdecode key c = Inl (if plain = replicate 8 0 then OutOfBounds else LuaError ''Invalid des crypt text'')) \<and>
    ldesdecode key (des_crypt (des_main_ks key) (replicate 8 0)) = Inl OutOfBounds"
proof -
  let ?SK = "des_main_ks key"
  let ?plain = "ecb (des_reverse ?SK) c"
  have l: "length ?plain = length c" using assms(2) by (simp add: length_ecb div_mult_mod_eq flip: dvd_eq_mod_eq_0)
  have SK: "length ?SK = 32" by (rule length_des_main_ks)
  have again: "ecb ?SK ?plain = c"
    using ecb_back [of "des_reverse ?SK" c] des_reverse_twice [OF SK] pairs_reverse(2) [OF SK] assms(2) by simp
  have long: "8 \<le> length ?plain" using assms(2,3) l by (cases "length c < 8") auto
  have d: "ldesdecode key c = scan_result ?plain" by (rule ldesdecode_eq [OF assms])
  have z: "scan_result (replicate 8 0) = Inl OutOfBounds"
  proof -
    have "0x80 \<notin> set (replicate 8 (0 :: byte))" by simp
    then have "\<nexists>s z. z < 8 \<and> replicate 8 0 = s @ (0x80 :: byte) # replicate z 0"
      by (metis in_set_conv_decomp)
    then show ?thesis using scan_unmarked [of "replicate 8 0"] by simp
  qed
  have "ldesdecode key (des_crypt ?SK (replicate 8 0)) = scan_result (ecb (des_reverse ?SK) (des_crypt ?SK (replicate 8 0)))"
    by (rule ldesdecode_eq) (use assms(1) in \<open>simp_all flip: length_0_conv\<close>)
  also have "\<dots> = Inl OutOfBounds" using z by (simp add: ecb_block des_crypt_back SK)
  finally show ?thesis
    using l again d scan_marked scan_unmarked [OF _ long] by (intro exI [of _ ?plain]) auto
qed

lemma des_decode_outcomes_witness:
  "\<exists>plain. length plain = length [0, 0, 0, 0, 0, 0, 0, 0 :: byte] \<and> ecb (des_main_ks [1, 2, 3, 4, 5, 6, 7, 8]) plain = [0, 0, 0, 0, 0, 0, 0, 0] \<and>
    (\<forall>s z. z < 8 \<and> plain = s @ 0x80 # replicate z 0 \<longrightarrow> ldesdecode [1, 2, 3, 4, 5, 6, 7, 8] [0, 0, 0, 0, 0, 0, 0, 0] = Inr s) \<and>
    ((\<nexists>s z. z < 8 \<and> plain = s @ 0x80 # replicate z 0) \<longrightarrow> ldesdecode [1, 2, 3, 4, 5, 6, 7, 8] [0, 0, 0, 0, 0, 0, 0, 0] =
      Inl (if plain = replicate 8 0 then OutOfBounds else LuaError ''Invalid des crypt text'')) \<and>
    ldesdecode [1, 2, 3, 4, 5, 6, 7, 8] (des_crypt (des_main_ks [1, 2, 3, 4, 5, 6, 7, 8]) (replicate 8 0)) = Inl OutOfBounds"
  by (rule des_decode_outcomes) simp_all

end
