(* ===== verification/CryptText.thy ===== *)
theory CryptText
  imports CryptBytes
begin

text \<open>
  The text encodings of \<open>skynet/lualib-src/lua-crypt.c\<close>: hexadecimal, base64 and the exclusive
  or with a repeated key.
\<close>

section \<open>Hexadecimal\<close>

definition hex_digits :: "byte list" where
  "hex_digits = map of_char ''0123456789abcdef''"

fun hex_loop :: "byte list \<Rightarrow> nat \<Rightarrow> cbuf \<Rightarrow> cbuf res" where
  "hex_loop [] i buf = Inr buf"
| "hex_loop (c # text) i buf =
     (if exceeds_int (i * 2 + 1) then Inl IntOverflow
      else bind_res (cputs (i * 2) [hex_digits ! unat (drop_bit 4 c), hex_digits ! unat (c AND 0xf)] buf) (hex_loop text (i + 1)))"

definition ltohex :: "byte list \<Rightarrow> byte list res" where
  "ltohex text =
     (let sz = length text;
          buffer = replicate (if sz > SMALL_CHUNK div 2 then sz * 2 else SMALL_CHUNK) None
      in bind_res (hex_loop text 0 buffer) (\<lambda>buf. pushlstring buf (sz * 2)))"

definition HEX :: "byte \<Rightarrow> byte" where
  "HEX c = (if c \<ge> 48 \<and> c \<le> 57 then c - 48 else c - 97 + 10)"

fun unhex_loop :: "byte list \<Rightarrow> nat \<Rightarrow> cbuf \<Rightarrow> cbuf res" where
  "unhex_loop (c1 # c2 # text) i buf =
     (let hi = HEX c1; low = HEX c2
      in if hi > 16 \<or> low > 16 then Inl (LuaError ''Invalid hex text'')
         else bind_res (cput (i div 2) (push_bit 4 hi OR low) buf) (unhex_loop text (i + 2)))"
| "unhex_loop _ i buf = Inr buf"

definition lfromhex :: "byte list \<Rightarrow> byte list res" where
  "lfromhex text =
     (let sz = length text
      in if odd sz then Inl (LuaError ''Invalid hex text size'')
         else
           (let buffer = replicate (if sz > SMALL_CHUNK * 2 then sz div 2 else SMALL_CHUNK) None
            in bind_res (unhex_loop text 0 buffer) (\<lambda>buf. pushlstring buf (sz div 2))))"

section \<open>Base64\<close>

definition encoding :: "byte list" where
  "encoding = map of_char ''ABCDEFGHIJKLMNOPQRSTUVWXYZabcdefghijklmnopqrstuvwxyz0123456789+/''"

abbreviation enc :: "u32 \<Rightarrow> byte" where
  "enc k \<equiv> encoding ! unat k"

fun b64_loop :: "byte list \<Rightarrow> nat \<Rightarrow> cbuf \<Rightarrow> cbuf res" where
  "b64_loop (x # y # z # text) j buf =
     (let v = push_bit 16 (ucast x) OR push_bit 8 (ucast y) OR ucast z
      in bind_res (cputs j [enc (drop_bit 18 v), enc (drop_bit 12 v AND 0x3f), enc (drop_bit 6 v AND 0x3f), enc (v AND 0x3f)] buf)
           (b64_loop text (j + 4)))"
| "b64_loop [x] j buf =
     (let v = ucast x in cputs j [enc (drop_bit 2 v), enc (push_bit 4 (v AND 3)), 61, 61] buf)"
| "b64_loop [x, y] j buf =
     (let v = push_bit 8 (ucast x) OR ucast y
      in cputs j [enc (drop_bit 10 v), enc (drop_bit 4 v AND 0x3f), enc (push_bit 2 (v AND 0xf)), 61] buf)"
| "b64_loop [] j buf = Inr buf"

definition lb64encode :: "byte list \<Rightarrow> byte list res" where
  "lb64encode text =
     (let encode_sz = (length text + 2) div 3 * 4
      in if exceeds_int encode_sz then Inl IntOverflow
         else bind_res (b64_loop text 0 (replicate (if encode_sz > SMALL_CHUNK then encode_sz else SMALL_CHUNK) None))
                (\<lambda>buf. pushlstring buf encode_sz))"

definition decoding :: "int list" where
  "decoding = [62,-1,-1,-1,63,52,53,54,55,56,57,58,59,60,61,-1,-1,-1,-2,-1,-1,-1,0,1,2,3,4,5,6,7,8,9,10,11,12,13,14,15,16,
     17,18,19,20,21,22,23,24,25,-1,-1,-1,-1,-1,-1,26,27,28,29,30,31,32,33,34,35,36,37,38,39,40,41,42,43,44,45,46,47,48,49,50,51]"

definition b64index :: "byte \<Rightarrow> int" where
  "b64index c = (if c < 43 then -1 else if unat (c - 43) \<ge> length decoding then -1 else decoding ! unat (c - 43))"

text \<open>The next four characters that the table knows, the others skipped.\<close>

fun b64_quad :: "nat \<Rightarrow> byte list \<Rightarrow> (int list \<times> byte list) res" where
  "b64_quad 0 text = Inr ([], text)"
| "b64_quad (Suc k) [] = Inl (LuaError ''Invalid base64 text'')"
| "b64_quad (Suc k) (c # text) =
     (if b64index c = -1 then b64_quad (Suc k) text
      else bind_res (b64_quad k text) (\<lambda>(cs, rest). Inr (b64index c # cs, rest)))"

definition b64_bytes :: "int list \<Rightarrow> byte list res" where
  "b64_bytes c =
     (let u = (\<lambda>k. word_of_int (c ! k) :: u32); padding = length (filter (\<lambda>x. x = -2) c)
      in if padding = 0 then
           (let v = push_bit 18 (u 0) OR push_bit 12 (u 1) OR push_bit 6 (u 2) OR u 3
            in Inr [ucast (drop_bit 16 v), ucast (drop_bit 8 v AND 0xff), ucast (v AND 0xff)])
         else if padding = 1 then
           (if c ! 3 \<noteq> -2 \<or> c ! 2 AND 3 \<noteq> 0 then Inl (LuaError ''Invalid base64 text'')
            else (let v = push_bit 10 (u 0) OR push_bit 4 (u 1) OR drop_bit 2 (u 2)
                  in Inr [ucast (drop_bit 8 v), ucast (v AND 0xff)]))
         else if padding = 2 then
           (if c ! 3 \<noteq> -2 \<or> c ! 2 \<noteq> -2 \<or> c ! 1 AND 0xf \<noteq> 0 then Inl (LuaError ''Invalid base64 text'')
            else (let v = push_bit 2 (u 0) OR drop_bit 4 (u 1) in Inr [ucast v]))
         else Inl (LuaError ''Invalid base64 text''))"

lemma b64_quad_shorter: "b64_quad k t = Inr (cs, rest) \<Longrightarrow> length rest + k \<le> length t \<and> length cs = k"
  by (induction k t arbitrary: cs rest rule: b64_quad.induct) (fastforce simp: res_elims split: if_splits)+

function b64_decode_loop :: "byte list \<Rightarrow> nat \<Rightarrow> cbuf \<Rightarrow> (nat \<times> cbuf) res" where
  "b64_decode_loop text output buf =
     (if text = [] then Inr (output, buf)
      else bind_res (b64_quad 4 text) (\<lambda>(cs, rest).
           bind_res (b64_bytes cs) (\<lambda>bs.
           bind_res (cputs output bs buf) (b64_decode_loop rest (output + length bs)))))"
  by pat_completeness auto
termination
  by (relation "measure (\<lambda>(text, output, buf). length text)") (auto dest!: b64_quad_shorter)

declare b64_decode_loop.simps [simp del]

definition lb64decode :: "byte list \<Rightarrow> byte list res" where
  "lb64decode text =
     (let decode_sz = (length text + 3) div 4 * 3
      in if exceeds_int decode_sz then Inl IntOverflow
         else bind_res (b64_decode_loop text 0 (replicate (if decode_sz > SMALL_CHUNK then decode_sz else SMALL_CHUNK) None))
                (\<lambda>(output, buf). pushlstring buf output))"

section \<open>Exclusive or\<close>

definition lxor_str :: "byte list \<Rightarrow> byte list \<Rightarrow> byte list res" where
  "lxor_str s1 s2 =
     (if s2 = [] then Inl (LuaError ''Can't xor empty string'')
      else Inr (map (\<lambda>i. s1 ! i XOR s2 ! (i mod length s2)) [0..<length s1]))"

lemma lxor_str_involution:
  assumes "s2 \<noteq> []"
  shows "bind_res (lxor_str s1 s2) (\<lambda>t. lxor_str t s2) = Inr s1"
  using assms by (auto simp: lxor_str_def xor.assoc intro!: nth_equalityI)

section \<open>Hexadecimal reads back\<close>

definition hex_pair :: "byte \<Rightarrow> byte list" where
  "hex_pair c = [hex_digits ! unat (drop_bit 4 c), hex_digits ! unat (c AND 0xf)]"

lemma length_hex_pair [simp]: "length (hex_pair c) = 2"
  by (simp add: hex_pair_def)

lemma hex_loop_Cons: "hex_loop (c # t) i buf =
  (if exceeds_int (i * 2 + 1) then Inl IntOverflow else bind_res (cputs (i * 2) (hex_pair c) buf) (hex_loop t (i + 1)))"
  by (simp add: hex_pair_def)

declare hex_loop.simps(2) [simp del]

lemma hex_loop_filled:
  "length out = 2 * i \<Longrightarrow> 2 * length t \<le> k \<Longrightarrow> i + length t \<le> 2 ^ 30 \<Longrightarrow>
   hex_loop t i (filled out k) = Inr (filled (out @ concat (map hex_pair t)) (k - 2 * length t))"
proof (induction t arbitrary: out i k)
  case (Cons c t)
  have "cputs (i * 2) (hex_pair c) (filled out k) = Inr (filled (out @ hex_pair c) (k - 2))"
    using cputs_filled [of "hex_pair c" k out] Cons.prems by (simp add: hex_pair_def mult.commute)
  moreover have "hex_loop t (i + 1) (filled (out @ hex_pair c) (k - 2))
    = Inr (filled ((out @ hex_pair c) @ concat (map hex_pair t)) (k - 2 - 2 * length t))"
    by (rule Cons.IH) (use Cons.prems in simp_all)
  ultimately show ?case using Cons.prems by (simp add: hex_loop_Cons)
qed simp

lemma length_hex_pairs: "length (concat (map hex_pair t)) = 2 * length t"
  by (induction t) (simp_all add: hex_pair_def)

lemma ltohex_eq:
  assumes "length t < 2 ^ 30"
  shows "ltohex t = Inr (concat (map hex_pair t))"
proof -
  let ?cap = "if length t > SMALL_CHUNK div 2 then length t * 2 else SMALL_CHUNK"
  have "2 * length t \<le> ?cap" by (auto simp: SMALL_CHUNK_def)
  then have "hex_loop t 0 (filled [] ?cap) = Inr (filled (concat (map hex_pair t)) (?cap - 2 * length t))"
    using hex_loop_filled [of "[]" 0 t ?cap] assms by simp
  then show ?thesis
    using pushlstring_filled [of "concat (map hex_pair t)" "?cap - 2 * length t"]
    by (simp add: ltohex_def Let_def length_hex_pairs mult.commute)
qed

lemma HEX_digit: "k < 16 \<Longrightarrow> HEX (hex_digits ! k) = word_of_nat k"
proof -
  have "\<forall>k\<in>set [0..<16]. HEX (hex_digits ! k) = word_of_nat k" by code_simp
  then show "k < 16 \<Longrightarrow> HEX (hex_digits ! k) = word_of_nat k" by simp
qed

lemma nibbles: "unat (drop_bit 4 (c :: byte)) < 16" "unat (c AND 0xf) < 16"
proof -
  show "unat (drop_bit 4 c) < 16" using unsigned_less [of c, where ?'a = nat] by (simp add: unat_drop_bit)
  have "c AND 0xf = take_bit 4 c" by (simp add: take_bit_eq_mask mask_numeral)
  then show "unat (c AND 0xf) < 16" by (simp add: unat_take_bit)
qed

lemma unhex_pair: "HEX (hex_pair c ! 0) = drop_bit 4 c" "HEX (hex_pair c ! 1) = c AND 0xf"
  "drop_bit 4 c \<le> 16" "c AND 0xf \<le> 16" "push_bit 4 (drop_bit 4 c) OR (c AND 0xf) = c"
  using nibbles [of c]
proof (simp_all add: hex_pair_def HEX_digit word_le_nat_alt)
  have m: "(0xf :: byte) = mask 4" by (simp add: mask_numeral)
  show "push_bit 4 (drop_bit 4 c) OR (c AND 0xf) = c"
    by (rule bit_word_eqI) (auto simp: m bit_simps)
qed

definition hex_char :: "byte \<Rightarrow> bool" where
  "hex_char c \<longleftrightarrow> 48 \<le> c \<and> c \<le> 57 \<or> 87 \<le> c \<and> c \<le> 103"

lemma HEX_le: "HEX c \<le> 16 \<longleftrightarrow> hex_char c"
proof -
  have e: "c - 97 + 10 = c - 87" by simp
  show ?thesis
    unfolding HEX_def hex_char_def e using unsigned_less [of c, where ?'a = nat]
    by (auto simp: word_le_nat_alt unat_sub_if')
qed

lemma unhex_loop_run:
  "length out = i div 2 \<Longrightarrow> even i \<Longrightarrow> even (length t) \<Longrightarrow> length t div 2 \<le> k \<Longrightarrow>
   (if list_all hex_char t then \<exists>bs. length bs = length t div 2 \<and> unhex_loop t i (filled out k) = Inr (filled (out @ bs) (k - length bs))
    else unhex_loop t i (filled out k) = Inl (LuaError ''Invalid hex text''))"
proof (induction t arbitrary: out i k rule: induct_list012)
  case (3 c1 c2 t)
  let ?v = "push_bit 4 (HEX c1) OR HEX c2"
  have "cput (length out) ?v (filled out k) = Inr (filled (out @ [?v]) (k - 1))"
    by (rule cput_filled) (use "3.prems"(4) in simp)
  then have put: "cput (i div 2) ?v (filled out k) = Inr (filled (out @ [?v]) (k - 1))"
    by (simp only: "3.prems"(1))
  have IH: "if list_all hex_char t then \<exists>bs. length bs = length t div 2 \<and>
      unhex_loop t (i + 2) (filled (out @ [?v]) (k - 1)) = Inr (filled ((out @ [?v]) @ bs) (k - 1 - length bs))
    else unhex_loop t (i + 2) (filled (out @ [?v]) (k - 1)) = Inl (LuaError ''Invalid hex text'')"
    by (rule "3.IH"(1)) (use "3.prems" in auto)
  show ?case
  proof (cases "hex_char c1 \<and> hex_char c2")
    case True
    then have "unhex_loop (c1 # c2 # t) i (filled out k) = unhex_loop t (i + 2) (filled (out @ [?v]) (k - 1))"
      using put by (simp add: Let_def not_less HEX_le flip: not_le)
    moreover have "filled ((out @ [?v]) @ bs) (k - 1 - length bs) = filled (out @ ?v # bs) (k - length (?v # bs))" for bs by simp
    ultimately show ?thesis
      using True IH by (cases "list_all hex_char t") (force intro: exI [where x = "?v # bs" for bs] simp del: unhex_loop.simps)+
  next
    case False
    then show ?thesis by (auto simp: Let_def not_le [symmetric] HEX_le)
  qed
qed auto

lemma unhex_pairs:
  "length out = i div 2 \<Longrightarrow> even i \<Longrightarrow> length t \<le> k \<Longrightarrow>
   unhex_loop (concat (map hex_pair t)) i (filled out k) = Inr (filled (out @ t) (k - length t))"
proof (induction t arbitrary: out i k)
  case (Cons c t)
  obtain a b where p: "hex_pair c = [a, b]" by (simp add: hex_pair_def)
  have h: "HEX a = drop_bit 4 c" "HEX b = c AND 0xf" using unhex_pair(1,2) [of c] p by simp_all
  have "cput (i div 2) c (filled out k) = Inr (filled (out @ [c]) (k - 1))"
    using Cons.prems by (simp add: cput_filled flip: Cons.prems(1))
  moreover have "unhex_loop (concat (map hex_pair t)) (i + 2) (filled (out @ [c]) (k - 1)) = Inr (filled ((out @ [c]) @ t) (k - 1 - length t))"
    by (rule Cons.IH) (use Cons.prems in auto)
  ultimately show ?case using unhex_pair(3,4,5) [of c] by (simp add: p h not_less Let_def)
qed simp

lemma lfromhex_cases:
  "if even (length t) \<and> list_all hex_char t then \<exists>bs. lfromhex t = Inr bs else \<exists>e. lfromhex t = Inl (LuaError e)"
proof (cases "even (length t)")
  case True
  define cap where "cap = (if length t > SMALL_CHUNK * 2 then length t div 2 else SMALL_CHUNK)"
  have "length t div 2 \<le> cap" by (auto simp: SMALL_CHUNK_def cap_def)
  with unhex_loop_run [of "[]" 0 t cap] True have run: "if list_all hex_char t
    then \<exists>bs. length bs = length t div 2 \<and> unhex_loop t 0 (replicate cap None) = Inr (filled bs (cap - length bs))
    else unhex_loop t 0 (replicate cap None) = Inl (LuaError ''Invalid hex text'')" by (simp split: if_splits)
  have l: "lfromhex t = bind_res (unhex_loop t 0 (replicate cap None)) (\<lambda>buf. pushlstring buf (length t div 2))"
    using True by (simp add: lfromhex_def cap_def Let_def)
  show ?thesis
  proof (cases "list_all hex_char t")
    case chars: True
    with run obtain bs where bs: "length bs = length t div 2" "unhex_loop t 0 (replicate cap None) = Inr (filled bs (cap - length bs))" by auto
    then have "lfromhex t = Inr bs" using l pushlstring_filled [of bs] by (simp flip: bs(1))
    then show ?thesis using True chars by simp
  qed (use run l in simp)
qed (simp add: lfromhex_def Let_def)

lemma lfromhex_pairs: "lfromhex (concat (map hex_pair t)) = Inr t"
proof -
  let ?cap = "if 2 * length t > SMALL_CHUNK * 2 then length t else SMALL_CHUNK"
  have "length t \<le> ?cap" by (auto simp: SMALL_CHUNK_def)
  from unhex_pairs [of "[]" 0 t ?cap] this show ?thesis
    using pushlstring_filled [of t "?cap - length t"]
    by (cases "length t > SMALL_CHUNK") (simp_all add: lfromhex_def Let_def length_hex_pairs)
qed


text \<open>
  Hexadecimal. Every byte string below 2 ^ 30 bytes is encoded in exactly its buffer, two
  characters a byte, and decoded to itself. The decoder accepts a text if and only if it has even
  length and each character is a decimal digit or between W and g: the bound of 16 lets g through,
  whose value does not fit in four bits, and no lower bound keeps out the characters before a.
\<close>

theorem hex_round_trip:
  assumes "length s < 2 ^ 30"
  shows "(\<exists>t. ltohex s = Inr t \<and> length t = 2 * length s \<and> lfromhex t = Inr s) \<and>
    (if even (length s) \<and> list_all hex_char s then \<exists>r. lfromhex s = Inr r else \<exists>e. lfromhex s = Inl (LuaError e))"
  using ltohex_eq [OF assms] lfromhex_pairs [of s] length_hex_pairs [of s] lfromhex_cases [of s] by auto

lemma hex_round_trip_witness:
  "(\<exists>t. ltohex [0x67, 0x30] = Inr t \<and> length t = 2 * length [0x67 :: byte, 0x30] \<and> lfromhex t = Inr [0x67, 0x30]) \<and>
    (if even (length [0x67 :: byte, 0x30]) \<and> list_all hex_char [0x67, 0x30]
     then \<exists>r. lfromhex [0x67, 0x30] = Inr r else \<exists>e. lfromhex [0x67, 0x30] = Inl (LuaError e))"
  by (rule hex_round_trip) simp

lemma hex_accepts_g: "lfromhex [0x67, 0x30] = Inr [0]"
  by code_simp

section \<open>Base64 reads back\<close>

abbreviation b64_valid :: "byte \<Rightarrow> bool" where
  "b64_valid c \<equiv> b64index c \<noteq> -1"

fun b64_text :: "byte list \<Rightarrow> byte list" where
  "b64_text (x # y # z # t) =
     (let v = push_bit 16 (ucast x) OR push_bit 8 (ucast y) OR ucast z
      in [enc (drop_bit 18 v), enc (drop_bit 12 v AND 0x3f), enc (drop_bit 6 v AND 0x3f), enc (v AND 0x3f)] @ b64_text t)"
| "b64_text [x] = (let v = ucast x in [enc (drop_bit 2 v), enc (push_bit 4 (v AND 3)), 61, 61])"
| "b64_text [x, y] =
     (let v = push_bit 8 (ucast x) OR ucast y
      in [enc (drop_bit 10 v), enc (drop_bit 4 v AND 0x3f), enc (push_bit 2 (v AND 0xf)), 61])"
| "b64_text [] = []"

lemma length_b64_text: "length (b64_text t) = (length t + 2) div 3 * 4"
proof (induction t rule: b64_text.induct)
  case (1 x y z t)
  moreover have "(length (x # y # z # t) + 2) div 3 = (length t + 2) div 3 + 1"
    using div_add_self2 [of 3 "length t + 2"] by (simp add: add.commute)
  ultimately show ?case by (simp add: Let_def)
qed (simp_all add: Let_def)

lemma b64_loop_filled:
  "length (b64_text t) \<le> k \<Longrightarrow> b64_loop t (length out) (filled out k) = Inr (filled (out @ b64_text t) (k - length (b64_text t)))"
proof (induction t arbitrary: out k rule: b64_text.induct)
  case (1 x y z t)
  define v :: u32 where "v = push_bit 16 (ucast x) OR push_bit 8 (ucast y) OR ucast z"
  define g where "g = [enc (drop_bit 18 v), enc (drop_bit 12 v AND 0x3f), enc (drop_bit 6 v AND 0x3f), enc (v AND 0x3f)]"
  have s: "b64_text (x # y # z # t) = g @ b64_text t" by (simp only: b64_text.simps Let_def g_def v_def)
  have g: "length g = 4" by (simp add: g_def)
  have "cputs (length out) g (filled out k) = Inr (filled (out @ g) (k - length g))"
    by (rule cputs_filled) (use "1.prems" s g in simp)
  moreover have "b64_loop t (length (out @ g)) (filled (out @ g) (k - length g))
    = Inr (filled ((out @ g) @ b64_text t) (k - length g - length (b64_text t)))"
    by (rule "1.IH" [OF refl]) (use "1.prems" s g in simp)
  moreover have "b64_loop (x # y # z # t) (length out) (filled out k)
    = bind_res (cputs (length out) g (filled out k)) (b64_loop t (length out + 4))"
    by (simp only: b64_loop.simps Let_def g_def v_def)
  ultimately show ?case
    by (simp only: s g bind_res_Inr length_append append.assoc diff_diff_left)
next
  case (2 x)
  then show ?case using cputs_filled [of "b64_text [x]" k out] by (simp add: Let_def)
next
  case (3 x y)
  then show ?case using cputs_filled [of "b64_text [x, y]" k out] by (simp add: Let_def)
qed simp

lemma lb64encode_eq:
  assumes "length t < 2 ^ 30"
  shows "lb64encode t = Inr (b64_text t)"
proof -
  define cap where "cap = (if (length t + 2) div 3 * 4 > SMALL_CHUNK then (length t + 2) div 3 * 4 else SMALL_CHUNK)"
  have "length (b64_text t) \<le> cap" by (simp add: cap_def length_b64_text)
  from b64_loop_filled [OF this, of "[]"] pushlstring_filled [of "b64_text t" "cap - length (b64_text t)"]
  have "b64_loop t 0 (replicate cap None) = Inr (filled (b64_text t) (cap - length (b64_text t)))"
    "pushlstring (filled (b64_text t) (cap - length (b64_text t))) (length (b64_text t)) = Inr (b64_text t)" by simp_all
  moreover have "\<not> exceeds_int ((length t + 2) div 3 * 4)" using assms by simp
  ultimately show ?thesis
    by (simp only: lb64encode_def Let_def length_b64_text cap_def [symmetric] if_False bind_res_Inr)
qed

lemma enc_index:
  assumes "k AND 0x3f = k"
  shows "b64index (enc k) = uint k"
proof -
  have "k = take_bit 6 k" using assms by (simp add: take_bit_eq_mask mask_numeral)
  then have "unat k = unat k mod 2 ^ 6" by (metis unat_take_bit)
  then have "unat k \<in> set [0..<64]" by (simp add: mod_eq_self_iff_div_eq_0 div_eq_0_iff)
  moreover have "\<forall>k\<in>set [0..<64]. b64index (encoding ! k) = int k" by code_simp
  ultimately show ?thesis by simp
qed

lemma b64index_pad: "b64index 61 = -2"
  by code_simp

lemma low_masks: "(0x3f :: u32) = mask 6" "(0xf :: u32) = mask 4" "(3 :: u32) = mask 2"
  "(0xf :: int) = mask 4" "(3 :: int) = mask 2"
  by (simp_all add: mask_numeral)

lemma uint_not_pad: "uint (k :: u32) \<noteq> -2" "uint k \<noteq> -1"
  using uint_ge_0 [of k] by linarith+

lemma b64_bytes_eval:
  "b64_bytes [uint k0, uint k1, uint k2, uint k3] =
     (let v = push_bit 18 k0 OR push_bit 12 k1 OR push_bit 6 k2 OR k3
      in Inr [ucast (drop_bit 16 v), ucast (drop_bit 8 v AND 0xff), ucast (v AND 0xff)])"
  "uint k2 AND 3 = 0 \<Longrightarrow> b64_bytes [uint k0, uint k1, uint k2, -2] =
     (let v = push_bit 10 k0 OR push_bit 4 k1 OR drop_bit 2 k2 in Inr [ucast (drop_bit 8 v), ucast (v AND 0xff)])"
  "uint k1 AND 0xf = 0 \<Longrightarrow> b64_bytes [uint k0, uint k1, -2, -2] =
     (let v = push_bit 2 k0 OR drop_bit 4 k1 in Inr [ucast v])"
  for k0 k1 k2 k3 :: u32
  by (simp_all add: b64_bytes_def uint_not_pad Let_def)

lemma b64_bytes_3:
  fixes x y z :: byte
  defines "v \<equiv> push_bit 16 (ucast x) OR push_bit 8 (ucast y) OR ucast z :: u32"
  shows "b64_bytes (map b64index [enc (drop_bit 18 v), enc (drop_bit 12 v AND 0x3f), enc (drop_bit 6 v AND 0x3f), enc (v AND 0x3f)]) = Inr [x, y, z]"
    and "list_all b64_valid [enc (drop_bit 18 v), enc (drop_bit 12 v AND 0x3f), enc (drop_bit 6 v AND 0x3f), enc (v AND 0x3f)]"
proof -
  have "drop_bit 18 v AND 0x3f = drop_bit 18 v"
    unfolding low_masks by (rule bit_word_eqI) (auto simp: v_def bit_simps dest: bit_byte_lt)
  then have i: "b64index (enc (drop_bit 18 v)) = uint (drop_bit 18 v)" "b64index (enc (drop_bit 12 v AND 0x3f)) = uint (drop_bit 12 v AND 0x3f)"
    "b64index (enc (drop_bit 6 v AND 0x3f)) = uint (drop_bit 6 v AND 0x3f)" "b64index (enc (v AND 0x3f)) = uint (v AND 0x3f)"
    by (simp_all add: enc_index and.assoc)
  let ?v = "push_bit 18 (drop_bit 18 v) OR push_bit 12 (drop_bit 12 v AND 0x3f) OR push_bit 6 (drop_bit 6 v AND 0x3f) OR (v AND 0x3f)"
  have "?v = v"
    unfolding low_masks
  proof (rule bit_word_eqI)
    fix n assume "n < LENGTH(32)"
    then consider "n < 6" | "6 \<le> n" "n < 12" | "12 \<le> n" "n < 18" | "18 \<le> n" "n < 32" by fastforce
    then show "bit (push_bit 18 (drop_bit 18 v) OR push_bit 12 (drop_bit 12 v AND mask 6) OR push_bit 6 (drop_bit 6 v AND mask 6) OR (v AND mask 6)) n = bit v n"
      by cases (auto simp: bit_simps)
  qed
  moreover have "[ucast (drop_bit 16 v), ucast (drop_bit 8 v AND 0xff), ucast (v AND 0xff)] = [x, y, z]"
    by (auto simp: v_def bit_simps bit_ff bit_byte_ge intro!: bit_word_eqI)
  ultimately show "b64_bytes (map b64index [enc (drop_bit 18 v), enc (drop_bit 12 v AND 0x3f), enc (drop_bit 6 v AND 0x3f), enc (v AND 0x3f)]) = Inr [x, y, z]"
    by (simp only: list.map i b64_bytes_eval(1) Let_def)
  show "list_all b64_valid [enc (drop_bit 18 v), enc (drop_bit 12 v AND 0x3f), enc (drop_bit 6 v AND 0x3f), enc (v AND 0x3f)]"
    by (simp only: list.pred_inject i uint_not_pad) simp
qed

lemma b64_bytes_2:
  fixes x y :: byte
  defines "v \<equiv> push_bit 8 (ucast x) OR ucast y :: u32"
  shows "b64_bytes (map b64index [enc (drop_bit 10 v), enc (drop_bit 4 v AND 0x3f), enc (push_bit 2 (v AND 0xf)), 61]) = Inr [x, y]"
    and "list_all b64_valid [enc (drop_bit 10 v), enc (drop_bit 4 v AND 0x3f), enc (push_bit 2 (v AND 0xf)), 61]"
proof -
  have "drop_bit 10 v AND 0x3f = drop_bit 10 v" "push_bit 2 (v AND 0xf) AND 0x3f = push_bit 2 (v AND 0xf)"
    unfolding low_masks by (rule bit_word_eqI; auto simp: v_def bit_simps dest: bit_byte_lt)+
  then have i: "b64index (enc (drop_bit 10 v)) = uint (drop_bit 10 v)" "b64index (enc (drop_bit 4 v AND 0x3f)) = uint (drop_bit 4 v AND 0x3f)"
    "b64index (enc (push_bit 2 (v AND 0xf))) = uint (push_bit 2 (v AND 0xf))"
    by (simp_all add: enc_index and.assoc)
  have c: "uint (push_bit 2 (v AND 0xf)) AND 3 = 0"
    unfolding low_masks by (rule bit_eqI) (auto simp: bit_simps)
  let ?v = "push_bit 10 (drop_bit 10 v) OR push_bit 4 (drop_bit 4 v AND 0x3f) OR drop_bit 2 (push_bit 2 (v AND 0xf))"
  have "?v = v"
    unfolding low_masks
  proof (rule bit_word_eqI)
    fix n assume "n < LENGTH(32)"
    then consider "n < 4" | "4 \<le> n" "n < 10" | "10 \<le> n" "n < 32" by fastforce
    then show "bit (push_bit 10 (drop_bit 10 v) OR push_bit 4 (drop_bit 4 v AND mask 6) OR drop_bit 2 (push_bit 2 (v AND mask 4))) n = bit v n"
      by cases (auto simp: bit_simps)
  qed
  moreover have "[ucast (drop_bit 8 v), ucast (v AND 0xff)] = [x, y]"
    by (auto simp: v_def bit_simps bit_ff bit_byte_ge intro!: bit_word_eqI)
  ultimately show "b64_bytes (map b64index [enc (drop_bit 10 v), enc (drop_bit 4 v AND 0x3f), enc (push_bit 2 (v AND 0xf)), 61]) = Inr [x, y]"
    by (simp only: list.map i b64index_pad b64_bytes_eval(2) [OF c] Let_def)
  show "list_all b64_valid [enc (drop_bit 10 v), enc (drop_bit 4 v AND 0x3f), enc (push_bit 2 (v AND 0xf)), 61]"
    by (simp only: list.pred_inject i b64index_pad uint_not_pad) simp
qed

lemma b64_bytes_1:
  fixes x :: byte
  defines "v \<equiv> ucast x :: u32"
  shows "b64_bytes (map b64index [enc (drop_bit 2 v), enc (push_bit 4 (v AND 3)), 61, 61]) = Inr [x]"
    and "list_all b64_valid [enc (drop_bit 2 v), enc (push_bit 4 (v AND 3)), 61, 61]"
proof -
  have "drop_bit 2 v AND 0x3f = drop_bit 2 v" "push_bit 4 (v AND 3) AND 0x3f = push_bit 4 (v AND 3)"
    unfolding low_masks by (rule bit_word_eqI; auto simp: v_def bit_simps dest: bit_byte_lt)+
  then have i: "b64index (enc (drop_bit 2 v)) = uint (drop_bit 2 v)" "b64index (enc (push_bit 4 (v AND 3))) = uint (push_bit 4 (v AND 3))"
    by (simp_all add: enc_index)
  have c: "uint (push_bit 4 (v AND 3)) AND 0xf = 0"
    unfolding low_masks by (rule bit_eqI) (auto simp: bit_simps)
  let ?v = "push_bit 2 (drop_bit 2 v) OR drop_bit 4 (push_bit 4 (v AND 3))"
  have "?v = v"
    unfolding low_masks
  proof (rule bit_word_eqI)
    fix n assume "n < LENGTH(32)"
    then consider "n < 2" | m where "n = 2 + m" "m < 30" using \<open>n < LENGTH(32)\<close> le_Suc_ex [of 2 n] by fastforce
    then show "bit (push_bit 2 (drop_bit 2 v) OR drop_bit 4 (push_bit 4 (v AND mask 2))) n = bit v n"
      by cases (auto simp: bit_simps)
  qed
  moreover have "ucast v = x"
    by (auto simp: v_def bit_simps intro!: bit_word_eqI)
  ultimately show "b64_bytes (map b64index [enc (drop_bit 2 v), enc (push_bit 4 (v AND 3)), 61, 61]) = Inr [x]"
    by (simp only: list.map i b64index_pad b64_bytes_eval(3) [OF c] Let_def)
  show "list_all b64_valid [enc (drop_bit 2 v), enc (push_bit 4 (v AND 3)), 61, 61]"
    by (simp only: list.pred_inject i b64index_pad uint_not_pad) simp
qed

definition quad_ok :: "nat \<Rightarrow> byte list \<Rightarrow> byte list \<Rightarrow> byte list \<Rightarrow> bool" where
  "quad_ok k t p r \<longleftrightarrow> t = p @ r \<and> p \<noteq> [] \<and> b64_valid (last p) \<and> filter b64_valid p = take k (filter b64_valid t) \<and>
     b64_quad k t = Inr (map b64index (take k (filter b64_valid t)), r) \<and> filter b64_valid r = drop k (filter b64_valid t)"

lemma b64_quad_filter:
  "0 < k \<Longrightarrow>
   (if length (filter b64_valid t) < k then b64_quad k t = Inl (LuaError ''Invalid base64 text'') else \<exists>p r. quad_ok k t p r)"
proof (induction k t rule: b64_quad.induct)
  case (3 k c t)
  show ?case
  proof (cases "b64_valid c")
    case False
    then have c: "b64_quad (Suc k) (c # t) = b64_quad (Suc k) t" "filter b64_valid (c # t) = filter b64_valid t" by simp_all
    have "b64index c = -1" using False by simp
    note IH = "3.IH"(1) [OF this "3.prems"]
    have "quad_ok (Suc k) (c # t) (c # p) r" if "quad_ok (Suc k) t p r" for p r
      using that False unfolding quad_ok_def c by (elim conjE, intro conjI) (assumption | simp only: append_Cons last_ConsR list.distinct filter.simps if_False not_False_eq_True)+
    then show ?thesis using IH unfolding c by (cases "length (filter b64_valid t) < Suc k") (simp_all only: if_True if_False, blast)
  next
    case True
    show ?thesis
    proof (cases k)
      case 0
      then have "quad_ok (Suc k) (c # t) [c] t" using True by (simp add: quad_ok_def)
      then show ?thesis using 0 True by auto
    next
      case (Suc j)
      then have "0 < k" by simp
      note IH = "3.IH"(2) [OF _ this]
      show ?thesis
      proof (cases "length (filter b64_valid t) < k")
        case short: True
        then show ?thesis using IH True by simp
      next
        case False
        then obtain p r where "quad_ok k t p r" using IH True by auto
        then have "quad_ok (Suc k) (c # t) (c # p) r" using True unfolding quad_ok_def
          by (elim conjE, intro conjI) (assumption | simp only: append_Cons last_ConsR list.distinct filter.simps if_True not_False_eq_True
            take_Suc_Cons drop_Suc_Cons b64_quad.simps bind_res_Inr prod.case list.map if_False)+
        then show ?thesis using True False by auto
      qed
    qed
  qed
qed simp_all

text \<open>A text ends cleanly when its last character counts.\<close>

abbreviation clean_end :: "byte list \<Rightarrow> bool" where
  "clean_end t \<equiv> t = [] \<or> b64_valid (last t)"

lemma decode_step:
  assumes "filter b64_valid t = g @ w" "length g = 4" "b64_bytes (map b64index g) = Inr bs" "length bs \<le> 3"
    and "(length t + 3) div 4 * 3 \<le> k"
  shows "\<exists>r. filter b64_valid r = w \<and> (clean_end r \<longleftrightarrow> clean_end t) \<and> (length r + 3) div 4 * 3 \<le> k - length bs \<and>
    b64_decode_loop t (length out) (filled out k) = b64_decode_loop r (length (out @ bs)) (filled (out @ bs) (k - length bs))"
proof -
  obtain p r where p: "t = p @ r" "p \<noteq> []" "b64_valid (last p)" "filter b64_valid p = g"
    "b64_quad 4 t = Inr (map b64index g, r)" "filter b64_valid r = w"
    using b64_quad_filter [of 4 t] assms(1,2) by (auto simp: quad_ok_def)
  have "4 \<le> length p" using assms(2) length_filter_le [of b64_valid p] p(4) by simp
  then have "(length r + 3 + 4) div 4 \<le> (length t + 3) div 4" using p(1) by (intro div_le_mono) simp
  then have "(length r + 3) div 4 + 1 \<le> (length t + 3) div 4" by (simp only: div_add_self2)
  then have l: "(length r + 3) div 4 * 3 + 3 \<le> k" using assms(5) by linarith
  then have "cputs (length out) bs (filled out k) = Inr (filled (out @ bs) (k - length bs))"
    using assms(4) by (intro cputs_filled) simp
  then have "b64_decode_loop t (length out) (filled out k) = b64_decode_loop r (length (out @ bs)) (filled (out @ bs) (k - length bs))"
    using p(1,2,5) assms(3) by (subst b64_decode_loop.simps) simp
  moreover have "clean_end r \<longleftrightarrow> clean_end t" using p(1-3) by (cases "r = []") auto
  ultimately show ?thesis using p(6) l assms(4) by auto
qed

lemma decode_end:
  assumes "filter b64_valid t = []"
  shows "b64_decode_loop t n buf = (if clean_end t then Inr (n, buf) else Inl (LuaError ''Invalid base64 text''))"
proof (cases "t = []")
  case True
  then show ?thesis by (simp add: b64_decode_loop.simps)
next
  case False
  then have "\<not> b64_valid (last t)" using assms last_in_set [of t] by (simp only: filter_empty_conv) blast
  moreover have "b64_quad 4 t = Inl (LuaError ''Invalid base64 text'')" using b64_quad_filter [of 4 t] assms by simp
  ultimately show ?thesis using False by (subst b64_decode_loop.simps) simp
qed

lemma b64_decode_filled:
  "filter b64_valid t = b64_text s \<Longrightarrow> (length t + 3) div 4 * 3 \<le> k \<Longrightarrow>
   b64_decode_loop t (length out) (filled out k) =
     (if clean_end t then Inr (length (out @ s), filled (out @ s) (k - length s)) else Inl (LuaError ''Invalid base64 text''))"
proof (induction s arbitrary: t out k rule: b64_text.induct)
  case (1 x y z s)
  define v :: u32 where "v = push_bit 16 (ucast x) OR push_bit 8 (ucast y) OR ucast z"
  define g where "g = [enc (drop_bit 18 v), enc (drop_bit 12 v AND 0x3f), enc (drop_bit 6 v AND 0x3f), enc (v AND 0x3f)]"
  have g: "b64_text (x # y # z # s) = g @ b64_text s" "b64_bytes (map b64index g) = Inr [x, y, z]" "length g = 4"
    using b64_bytes_3(1) [of x y z] by (simp_all only: b64_text.simps Let_def g_def v_def) simp
  from decode_step [OF "1.prems"(1) [unfolded g(1)] g(3,2) _ "1.prems"(2), of out] obtain r where r:
    "filter b64_valid r = b64_text s" "clean_end r \<longleftrightarrow> clean_end t" "(length r + 3) div 4 * 3 \<le> k - length [x, y, z]"
    "b64_decode_loop t (length out) (filled out k) = b64_decode_loop r (length (out @ [x, y, z])) (filled (out @ [x, y, z]) (k - length [x, y, z]))"
    by auto
  from "1.IH" [OF refl r(1,3), of "out @ [x, y, z]"] r(2,4) show ?case by simp
next
  case (2 x)
  have b: "b64_bytes (map b64index (b64_text [x])) = Inr [x]" "length (b64_text [x]) = 4"
    using b64_bytes_1(1) [of x] by (simp_all only: b64_text.simps Let_def) simp
  from decode_step [of t "b64_text [x]" "[]", OF _ b(2,1) _ "2.prems"(2), of out] "2.prems"(1) obtain r where r:
    "filter b64_valid r = []" "clean_end r \<longleftrightarrow> clean_end t"
    "b64_decode_loop t (length out) (filled out k) = b64_decode_loop r (length (out @ [x])) (filled (out @ [x]) (k - length [x]))" by auto
  then show ?case by (simp only: decode_end [OF r(1)] r(2,3))
next
  case (3 x y)
  have b: "b64_bytes (map b64index (b64_text [x, y])) = Inr [x, y]" "length (b64_text [x, y]) = 4"
    using b64_bytes_2(1) [of x y] by (simp_all only: b64_text.simps Let_def) simp
  from decode_step [of t "b64_text [x, y]" "[]", OF _ b(2,1) _ "3.prems"(2), of out] "3.prems"(1) obtain r where r:
    "filter b64_valid r = []" "clean_end r \<longleftrightarrow> clean_end t"
    "b64_decode_loop t (length out) (filled out k) = b64_decode_loop r (length (out @ [x, y])) (filled (out @ [x, y]) (k - length [x, y]))" by auto
  then show ?case by (simp only: decode_end [OF r(1)] r(2,3))
next
  case 4
  then show ?case by (simp add: decode_end)
qed

lemma b64_text_valid: "filter b64_valid (b64_text s) = b64_text s \<and> clean_end (b64_text s)"
proof (induction s rule: b64_text.induct)
  case (1 x y z s)
  then show ?case using b64_bytes_3(2) [of x y z] by (auto simp: Let_def)
next
  case (2 x)
  then show ?case using b64_bytes_1(2) [of x] by (simp add: Let_def)
next
  case (3 x y)
  then show ?case using b64_bytes_2(2) [of x y] by (simp add: Let_def)
qed simp

lemma lb64decode_eq:
  assumes "filter b64_valid t = b64_text s" "length t < 2 ^ 31"
  shows "lb64decode t = (if clean_end t then Inr s else Inl (LuaError ''Invalid base64 text''))"
proof -
  define cap where "cap = (if (length t + 3) div 4 * 3 > SMALL_CHUNK then (length t + 3) div 4 * 3 else SMALL_CHUNK)"
  have "(length t + 3) div 4 * 3 \<le> cap" by (simp add: cap_def)
  from b64_decode_filled [OF assms(1) this, of "[]"]
  have "b64_decode_loop t 0 (replicate cap None) =
    (if clean_end t then Inr (length s, filled s (cap - length s)) else Inl (LuaError ''Invalid base64 text''))" by simp
  moreover have "\<not> exceeds_int ((length t + 3) div 4 * 3)" using assms(2) by simp
  ultimately show ?thesis
    by (simp add: lb64decode_def Let_def pushlstring_filled flip: cap_def)
qed

text \<open>
  C27: Base64. Every byte string below 2 ^ 30 bytes is encoded in exactly its buffer, four
  characters for three bytes, and decoded to itself. The decoder skips characters it does not
  know, wherever they stand in front of or between the characters of an encoded text; the same
  characters behind the last one, a final line feed for one, are an error.
\<close>

theorem base64_round_trip:
  assumes "length s < 2 ^ 30"
  shows "\<exists>t. lb64encode s = Inr t \<and> length t = (length s + 2) div 3 * 4 \<and> lb64decode t = Inr s \<and>
    (\<forall>t'. filter (\<lambda>c. b64index c \<noteq> -1) t' = t \<and> length t' < 2 ^ 31 \<longrightarrow>
      lb64decode t' = (if t' = [] \<or> b64index (last t') \<noteq> -1 then Inr s else Inl (LuaError ''Invalid base64 text'')))"
proof -
  have "length (b64_text s) < 2 ^ 31" using assms by (simp add: length_b64_text)
  then have "lb64decode (b64_text s) = Inr s" using lb64decode_eq [of "b64_text s" s] b64_text_valid by auto
  then show ?thesis using lb64encode_eq [OF assms] lb64decode_eq by (simp add: length_b64_text)
qed

lemma base64_round_trip_witness:
  "\<exists>t. lb64encode [77, 97] = Inr t \<and> length t = (length [77, 97 :: byte] + 2) div 3 * 4 \<and> lb64decode t = Inr [77, 97] \<and>
    (\<forall>t'. filter (\<lambda>c. b64index c \<noteq> -1) t' = t \<and> length t' < 2 ^ 31 \<longrightarrow>
      lb64decode t' = (if t' = [] \<or> b64index (last t') \<noteq> -1 then Inr [77, 97] else Inl (LuaError ''Invalid base64 text'')))"
  by (rule base64_round_trip) simp

end
