(* ===== verification/CryptHash.thy ===== *)
theory CryptHash
  imports CryptText
begin

text \<open>
  The hashes of \<open>skynet/lualib-src/lua-crypt.c\<close>: the key hash, the MD5 compression function with
  the two authentication codes made from it, and random keys. The last part has MD5 as RFC 1321
  writes it, as the reference.
\<close>

definition Hash_step :: "u32 \<times> u32 \<Rightarrow> byte \<Rightarrow> u32 \<times> u32" where
  "Hash_step h b =
     (let (djb_hash, js_hash) = h; c = ucast b
      in (djb_hash + (push_bit 5 djb_hash + c), js_hash XOR (push_bit 5 js_hash + c + drop_bit 2 js_hash)))"

definition Hash :: "byte list \<Rightarrow> byte list" where
  "Hash str = pushqword (foldl Hash_step (5381, 1315423911) str)"

definition lhashkey :: "byte list \<Rightarrow> byte list res" where
  "lhashkey key = Inr (Hash key)"

text \<open>The eight bytes that \<open>random()\<close> gives are arguments.\<close>

definition lrandomkey :: "byte list \<Rightarrow> byte list res" where
  "lrandomkey rs =
     (let x = foldl (\<lambda>x b. x XOR b) 0 rs in Inr (if x = 0 then rs[0 := rs ! 0 OR 1] else rs))"

definition md5_k :: "u32 list" where
  "md5_k = [
     0xd76aa478, 0xe8c7b756, 0x242070db, 0xc1bdceee, 0xf57c0faf, 0x4787c62a, 0xa8304613, 0xfd469501,
     0x698098d8, 0x8b44f7af, 0xffff5bb1, 0x895cd7be, 0x6b901122, 0xfd987193, 0xa679438e, 0x49b40821,
     0xf61e2562, 0xc040b340, 0x265e5a51, 0xe9b6c7aa, 0xd62f105d, 0x02441453, 0xd8a1e681, 0xe7d3fbc8,
     0x21e1cde6, 0xc33707d6, 0xf4d50d87, 0x455a14ed, 0xa9e3e905, 0xfcefa3f8, 0x676f02d9, 0x8d2a4c8a,
     0xfffa3942, 0x8771f681, 0x6d9d6122, 0xfde5380c, 0xa4beea44, 0x4bdecfa9, 0xf6bb4b60, 0xbebfbc70,
     0x289b7ec6, 0xeaa127fa, 0xd4ef3085, 0x04881d05, 0xd9d4d039, 0xe6db99e5, 0x1fa27cf8, 0xc4ac5665,
     0xf4292244, 0x432aff97, 0xab9423a7, 0xfc93a039, 0x655b59c3, 0x8f0ccc92, 0xffeff47d, 0x85845dd1,
     0x6fa87e4f, 0xfe2ce6e0, 0xa3014314, 0x4e0811a1, 0xf7537e82, 0xbd3af235, 0x2ad7d2bb, 0xeb86d391]"

definition md5_r :: "nat list" where
  "md5_r = [7, 12, 17, 22, 7, 12, 17, 22, 7, 12, 17, 22, 7, 12, 17, 22,
     5, 9, 14, 20, 5, 9, 14, 20, 5, 9, 14, 20, 5, 9, 14, 20,
     4, 11, 16, 23, 4, 11, 16, 23, 4, 11, 16, 23, 4, 11, 16, 23,
     6, 10, 15, 21, 6, 10, 15, 21, 6, 10, 15, 21, 6, 10, 15, 21]"

definition LEFTROTATE :: "u32 \<Rightarrow> nat \<Rightarrow> u32" where
  "LEFTROTATE x c = push_bit c x OR drop_bit (32 - c) x"

definition md5_step :: "u32 list \<Rightarrow> u32 \<times> u32 \<times> u32 \<times> u32 \<Rightarrow> nat \<Rightarrow> u32 \<times> u32 \<times> u32 \<times> u32" where
  "md5_step w abcd i =
     (let (a, b, c, d) = abcd;
          (f, g) =
            (if i < 16 then ((b AND c) OR (NOT b AND d), i)
             else if i < 32 then ((d AND b) OR (NOT d AND c), (5 * i + 1) mod 16)
             else if i < 48 then (b XOR c XOR d, (3 * i + 5) mod 16)
             else (c XOR (b OR NOT d), (7 * i) mod 16))
      in (d, b + LEFTROTATE (a + f + md5_k ! i + w ! g) (md5_r ! i), b, c))"

definition digest_md5 :: "u32 list \<Rightarrow> u32 \<times> u32 \<times> u32 \<times> u32" where
  "digest_md5 w = foldl (md5_step w) (0x67452301, 0xefcdab89, 0x98badcfe, 0x10325476) [0..<64]"

definition hmac :: "u32 \<times> u32 \<Rightarrow> u32 \<times> u32 \<Rightarrow> u32 \<times> u32" where
  "hmac x y =
     (let w = concat (replicate 4 [snd x, fst x, snd y, fst y]);
          (r0, r1, r2, r3) = digest_md5 w
      in (r2 XOR r3, r0 XOR r1))"

definition hmac_md5 :: "u32 \<times> u32 \<Rightarrow> u32 \<times> u32 \<Rightarrow> u32 \<times> u32" where
  "hmac_md5 x y =
     (let w = concat (replicate 3 [fst x, snd x, fst y, snd y]) @ [0x80, 0, 384, 0];
          (r0, r1, r2, r3) = digest_md5 w
      in ((r0 + 0x67452301) XOR (r2 + 0x98badcfe), (r1 + 0xefcdab89) XOR (r3 + 0x10325476)))"

definition lhmac64 :: "byte list \<Rightarrow> byte list \<Rightarrow> byte list res" where
  "lhmac64 x y = bind_res (read64 x y) (\<lambda>(xs, ys). Inr (pushqword (hmac xs ys)))"

definition lhmac64_md5 :: "byte list \<Rightarrow> byte list \<Rightarrow> byte list res" where
  "lhmac64_md5 x y = bind_res (read64 x y) (\<lambda>(xs, ys). Inr (pushqword (hmac_md5 xs ys)))"

definition lhmac_hash :: "byte list \<Rightarrow> byte list \<Rightarrow> byte list res" where
  "lhmac_hash x str =
     bind_res (read_key x ''Invalid uint64 key'') (\<lambda>key.
     let h = Hash str; htext = (read32 h 0, read32 h 4) in Inr (pushqword (hmac htext key)))"

lemma lrandomkey_not_zero: "length rs = 8 \<Longrightarrow> \<exists>k. lrandomkey rs = Inr k \<and> length k = 8 \<and> k \<noteq> replicate 8 0"
proof -
  assume l: "length rs = 8"
  have z: "foldl (\<lambda>x b. x XOR b) (0 :: byte) (replicate n 0) = 0" for n by (induction n) simp_all
  have "(b :: byte) OR 1 \<noteq> 0" for b using bit_or_iff [of b 1 0] by (metis bit_0_eq bit_1_0 bot_apply bot_bool_def)
  then have "rs[0 := rs ! 0 OR 1] ! 0 \<noteq> 0" using l by simp
  then show ?thesis using l z by (auto simp: lrandomkey_def Let_def intro!: notI dest: arg_cong [where f = "\<lambda>k. k ! 0"])
qed

section \<open>MD5 of RFC 1321\<close>

definition md5_F :: "u32 \<Rightarrow> u32 \<Rightarrow> u32 \<Rightarrow> u32" where "md5_F X Y Z = (X AND Y) OR (NOT X AND Z)"
definition md5_G :: "u32 \<Rightarrow> u32 \<Rightarrow> u32 \<Rightarrow> u32" where "md5_G X Y Z = (X AND Z) OR (Y AND NOT Z)"
definition md5_H :: "u32 \<Rightarrow> u32 \<Rightarrow> u32 \<Rightarrow> u32" where "md5_H X Y Z = X XOR Y XOR Z"
definition md5_I :: "u32 \<Rightarrow> u32 \<Rightarrow> u32 \<Rightarrow> u32" where "md5_I X Y Z = Y XOR (X OR NOT Z)"

text \<open>
  An operation \<open>[abcd k s i]\<close> of the standard: on the register with index \<open>r\<close> and the three behind
  it, cyclically. A round has sixteen; the registers come in the order 0, 3, 2, 1.
\<close>

definition rfc_op :: "(u32 \<Rightarrow> u32 \<Rightarrow> u32 \<Rightarrow> u32) \<Rightarrow> u32 list \<Rightarrow> u32 list \<Rightarrow> nat \<times> nat \<times> nat \<times> nat \<Rightarrow> u32 list" where
  "rfc_op fn X st op =
     (let (r, k, s, i) = op; a = st ! r; b = st ! ((r + 1) mod 4); c = st ! ((r + 2) mod 4); d = st ! ((r + 3) mod 4)
      in st[r := b + word_rotl s (a + fn b c d + X ! k + md5_k ! i)])"

definition rfc_ops :: "nat \<Rightarrow> nat list \<Rightarrow> nat list \<Rightarrow> (nat \<times> nat \<times> nat \<times> nat) list" where
  "rfc_ops i0 ks ss = map (\<lambda>j. ([0, 3, 2, 1] ! (j mod 4), ks ! j, ss ! (j mod 4), i0 + j)) [0..<16]"

definition rfc_rounds :: "u32 list \<Rightarrow> u32 list \<Rightarrow> u32 list" where
  "rfc_rounds X st =
     (let st = foldl (rfc_op md5_F X) st (rfc_ops 0 [0, 1, 2, 3, 4, 5, 6, 7, 8, 9, 10, 11, 12, 13, 14, 15] [7, 12, 17, 22]);
          st = foldl (rfc_op md5_G X) st (rfc_ops 16 [1, 6, 11, 0, 5, 10, 15, 4, 9, 14, 3, 8, 13, 2, 7, 12] [5, 9, 14, 20]);
          st = foldl (rfc_op md5_H X) st (rfc_ops 32 [5, 8, 11, 14, 1, 4, 7, 10, 13, 0, 3, 6, 9, 12, 15, 2] [4, 11, 16, 23])
      in foldl (rfc_op md5_I X) st (rfc_ops 48 [0, 7, 14, 5, 12, 3, 10, 1, 8, 15, 6, 13, 4, 11, 2, 9] [6, 10, 15, 21]))"

definition rfc_pad :: "byte list \<Rightarrow> byte list" where
  "rfc_pad msg = msg @ 0x80 # replicate ((119 - length msg mod 64) mod 64) 0 @ push64 (word_of_nat (8 * length msg))"

function rfc_blocks :: "u32 list \<Rightarrow> byte list \<Rightarrow> u32 list" where
  "rfc_blocks st msg =
     (if length msg < 64 then st
      else rfc_blocks (map2 (+) st (rfc_rounds (map (\<lambda>i. read32 msg (4 * i)) [0..<16]) st)) (drop 64 msg))"
  by pat_completeness auto
termination by (relation "measure (\<lambda>(st, msg). length msg)") auto

declare rfc_blocks.simps [simp del]

definition md5_sum :: "byte list \<Rightarrow> byte list" where
  "md5_sum msg = concat (map write32 (rfc_blocks [0x67452301, 0xefcdab89, 0x98badcfe, 0x10325476] (rfc_pad msg)))"

section \<open>The compression function is that of the standard\<close>

lemma LEFTROTATE_rotl: "0 < c \<Longrightarrow> c < 32 \<Longrightarrow> LEFTROTATE x c = word_rotl c x"
  by (simp add: LEFTROTATE_def shifts_rotl)

text \<open>The code renames its four variables in each step, the standard takes another register.\<close>

definition renamed :: "nat \<Rightarrow> u32 list \<Rightarrow> u32 \<times> u32 \<times> u32 \<times> u32" where
  "renamed i st = (let r = [0, 3, 2, 1] ! (i mod 4) in (st ! r, st ! ((r + 1) mod 4), st ! ((r + 2) mod 4), st ! ((r + 3) mod 4)))"

lemma step_renamed:
  assumes "length st = 4" "f (st ! ((r + 1) mod 4)) (st ! ((r + 2) mod 4)) (st ! ((r + 3) mod 4)) = t" "r = [0, 3, 2, 1] ! (i mod 4)"
    "0 < s" "s < 32"
  shows "renamed (Suc i) (rfc_op f X st (r, k, s, j)) =
    (let (a, b, c, d) = renamed i st in (d, b + LEFTROTATE (a + t + md5_k ! j + X ! k) s, b, c))"
proof -
  obtain p q u v where st: "st = [p, q, u, v]" using assms(1) by (auto simp: length_Suc_conv eval_nat_numeral)
  have "i mod 4 = 0 \<or> i mod 4 = 1 \<or> i mod 4 = 2 \<or> i mod 4 = 3" by linarith
  then show ?thesis
    using assms(2-5)
    by (elim disjE) (simp_all add: renamed_def rfc_op_def st LEFTROTATE_rotl mod_Suc Let_def ac_simps)
qed

lemma length_rfc_op: "length (rfc_op f X st op) = length st"
  by (simp add: rfc_op_def Let_def split: prod.splits)

lemma rfc_round_renamed:
  assumes ks: "length ks = 16" and ss: "length ss = 4"
    and g: "\<forall>j<16. \<forall>abcd. md5_step X abcd (i0 + j) =
      (case abcd of (a, b, c, d) \<Rightarrow> (d, b + LEFTROTATE (a + f b c d + md5_k ! (i0 + j) + X ! (ks ! j)) (ss ! (j mod 4)), b, c))"
    and s: "\<forall>j<4. 0 < ss ! j \<and> ss ! j < 32" and i0: "i0 mod 4 = 0" and st: "length st = 4"
  shows "renamed (i0 + 16) (foldl (rfc_op f X) st (rfc_ops i0 ks ss)) = foldl (md5_step X) (renamed i0 st) [i0..<i0 + 16] \<and>
    length (foldl (rfc_op f X) st (rfc_ops i0 ks ss)) = 4"
proof -
  let ?ops = "\<lambda>n. map (\<lambda>j. ([0, 3, 2, 1] ! (j mod 4), ks ! j, ss ! (j mod 4), i0 + j)) [0..<n]"
  have "n \<le> 16 \<Longrightarrow> renamed (i0 + n) (foldl (rfc_op f X) st (?ops n)) = foldl (md5_step X) (renamed i0 st) [i0..<i0 + n] \<and>
    length (foldl (rfc_op f X) st (?ops n)) = 4" for n
  proof (induction n)
    case 0
    then show ?case using st by simp
  next
    case (Suc n)
    let ?st = "foldl (rfc_op f X) st (?ops n)"
    have IH: "renamed (i0 + n) ?st = foldl (md5_step X) (renamed i0 st) [i0..<i0 + n]" "length ?st = 4" using Suc by simp_all
    have r: "(i0 + n) mod 4 = n mod 4" using i0 by presburger
    obtain a b c d where abcd: "renamed (i0 + n) ?st = (a, b, c, d)" by (cases "renamed (i0 + n) ?st") auto
    have "renamed (Suc (i0 + n)) (rfc_op f X ?st ([0, 3, 2, 1] ! (n mod 4), ks ! n, ss ! (n mod 4), i0 + n))
      = (let (a, b, c, d) = renamed (i0 + n) ?st in
         (d, b + LEFTROTATE (a + f b c d + md5_k ! (i0 + n) + X ! (ks ! n)) (ss ! (n mod 4)), b, c))"
      using step_renamed [OF IH(2), where f = f and X = X and i = "i0 + n" and k = "ks ! n" and s = "ss ! (n mod 4)" and j = "i0 + n", OF refl refl] s
      by (simp add: r renamed_def Let_def)
    also have "\<dots> = md5_step X (renamed (i0 + n) ?st) (i0 + n)"
      using g Suc.prems abcd by simp
    finally show ?case using IH by (simp add: length_rfc_op)
  qed
  from this [of 16] show ?thesis by (simp add: rfc_ops_def)
qed


lemma round_1:
  fixes X st :: "u32 list"
  assumes "length st = 4"
  defines "st' \<equiv> foldl (rfc_op md5_F X) st (rfc_ops 0 [0, 1, 2, 3, 4, 5, 6, 7, 8, 9, 10, 11, 12, 13, 14, 15] [7, 12, 17, 22])"
  shows "renamed 16 st' = foldl (md5_step X) (renamed 0 st) [0..<16] \<and> length st' = 4"
proof -
  have t: "\<forall>j\<in>set [0..<16]. j = [0, 1, 2, 3, 4, 5, 6, 7, 8, 9, 10, 11, 12, 13, 14, 15] ! j \<and> md5_r ! (0 + j) = [7, 12, 17, 22] ! (j mod 4)" by code_simp
  have "\<forall>j<16. \<forall>abcd. md5_step X abcd (0 + j) = (case abcd of (a, b, c, d) \<Rightarrow>
    (d, b + LEFTROTATE (a + md5_F b c d + md5_k ! (0 + j) + X ! ([0, 1, 2, 3, 4, 5, 6, 7, 8, 9, 10, 11, 12, 13, 14, 15] ! j)) ([7, 12, 17, 22] ! (j mod 4)), b, c))"
    using t by (auto simp: md5_step_def md5_F_def Let_def and.commute split: prod.splits)
  moreover have "\<forall>j\<in>set [0..<4]. 0 < ([7, 12, 17, 22] :: nat list) ! j \<and> ([7, 12, 17, 22] :: nat list) ! j < 32" by code_simp
  then have "\<forall>j<4. 0 < ([7, 12, 17, 22] :: nat list) ! j \<and> ([7, 12, 17, 22] :: nat list) ! j < 32" by simp
  ultimately show ?thesis
    using rfc_round_renamed [of "[0, 1, 2, 3, 4, 5, 6, 7, 8, 9, 10, 11, 12, 13, 14, 15]" "[7, 12, 17, 22]" X 0 md5_F st] assms(1) by (simp only: st'_def) simp
qed

lemma round_2:
  fixes X st :: "u32 list"
  assumes "length st = 4"
  defines "st' \<equiv> foldl (rfc_op md5_G X) st (rfc_ops 16 [1, 6, 11, 0, 5, 10, 15, 4, 9, 14, 3, 8, 13, 2, 7, 12] [5, 9, 14, 20])"
  shows "renamed 32 st' = foldl (md5_step X) (renamed 16 st) [16..<32] \<and> length st' = 4"
proof -
  have t: "\<forall>j\<in>set [0..<16]. (5 * (16 + j) + 1) mod 16 = [1, 6, 11, 0, 5, 10, 15, 4, 9, 14, 3, 8, 13, 2, 7, 12] ! j \<and> md5_r ! (16 + j) = [5, 9, 14, 20] ! (j mod 4)" by code_simp
  have "\<forall>j<16. \<forall>abcd. md5_step X abcd (16 + j) = (case abcd of (a, b, c, d) \<Rightarrow>
    (d, b + LEFTROTATE (a + md5_G b c d + md5_k ! (16 + j) + X ! ([1, 6, 11, 0, 5, 10, 15, 4, 9, 14, 3, 8, 13, 2, 7, 12] ! j)) ([5, 9, 14, 20] ! (j mod 4)), b, c))"
    using t by (auto simp: md5_step_def md5_G_def Let_def and.commute split: prod.splits)
  moreover have "\<forall>j\<in>set [0..<4]. 0 < ([5, 9, 14, 20] :: nat list) ! j \<and> ([5, 9, 14, 20] :: nat list) ! j < 32" by code_simp
  then have "\<forall>j<4. 0 < ([5, 9, 14, 20] :: nat list) ! j \<and> ([5, 9, 14, 20] :: nat list) ! j < 32" by simp
  ultimately show ?thesis
    using rfc_round_renamed [of "[1, 6, 11, 0, 5, 10, 15, 4, 9, 14, 3, 8, 13, 2, 7, 12]" "[5, 9, 14, 20]" X 16 md5_G st] assms(1) by (simp only: st'_def) simp
qed

lemma round_3:
  fixes X st :: "u32 list"
  assumes "length st = 4"
  defines "st' \<equiv> foldl (rfc_op md5_H X) st (rfc_ops 32 [5, 8, 11, 14, 1, 4, 7, 10, 13, 0, 3, 6, 9, 12, 15, 2] [4, 11, 16, 23])"
  shows "renamed 48 st' = foldl (md5_step X) (renamed 32 st) [32..<48] \<and> length st' = 4"
proof -
  have t: "\<forall>j\<in>set [0..<16]. (3 * (32 + j) + 5) mod 16 = [5, 8, 11, 14, 1, 4, 7, 10, 13, 0, 3, 6, 9, 12, 15, 2] ! j \<and> md5_r ! (32 + j) = [4, 11, 16, 23] ! (j mod 4)" by code_simp
  have "\<forall>j<16. \<forall>abcd. md5_step X abcd (32 + j) = (case abcd of (a, b, c, d) \<Rightarrow>
    (d, b + LEFTROTATE (a + md5_H b c d + md5_k ! (32 + j) + X ! ([5, 8, 11, 14, 1, 4, 7, 10, 13, 0, 3, 6, 9, 12, 15, 2] ! j)) ([4, 11, 16, 23] ! (j mod 4)), b, c))"
    using t by (auto simp: md5_step_def md5_H_def Let_def and.commute split: prod.splits)
  moreover have "\<forall>j\<in>set [0..<4]. 0 < ([4, 11, 16, 23] :: nat list) ! j \<and> ([4, 11, 16, 23] :: nat list) ! j < 32" by code_simp
  then have "\<forall>j<4. 0 < ([4, 11, 16, 23] :: nat list) ! j \<and> ([4, 11, 16, 23] :: nat list) ! j < 32" by simp
  ultimately show ?thesis
    using rfc_round_renamed [of "[5, 8, 11, 14, 1, 4, 7, 10, 13, 0, 3, 6, 9, 12, 15, 2]" "[4, 11, 16, 23]" X 32 md5_H st] assms(1) by (simp only: st'_def) simp
qed

lemma round_4:
  fixes X st :: "u32 list"
  assumes "length st = 4"
  defines "st' \<equiv> foldl (rfc_op md5_I X) st (rfc_ops 48 [0, 7, 14, 5, 12, 3, 10, 1, 8, 15, 6, 13, 4, 11, 2, 9] [6, 10, 15, 21])"
  shows "renamed 64 st' = foldl (md5_step X) (renamed 48 st) [48..<64] \<and> length st' = 4"
proof -
  have t: "\<forall>j\<in>set [0..<16]. (7 * (48 + j)) mod 16 = [0, 7, 14, 5, 12, 3, 10, 1, 8, 15, 6, 13, 4, 11, 2, 9] ! j \<and> md5_r ! (48 + j) = [6, 10, 15, 21] ! (j mod 4)" by code_simp
  have "\<forall>j<16. \<forall>abcd. md5_step X abcd (48 + j) = (case abcd of (a, b, c, d) \<Rightarrow>
    (d, b + LEFTROTATE (a + md5_I b c d + md5_k ! (48 + j) + X ! ([0, 7, 14, 5, 12, 3, 10, 1, 8, 15, 6, 13, 4, 11, 2, 9] ! j)) ([6, 10, 15, 21] ! (j mod 4)), b, c))"
    using t by (auto simp: md5_step_def md5_I_def Let_def and.commute split: prod.splits)
  moreover have "\<forall>j\<in>set [0..<4]. 0 < ([6, 10, 15, 21] :: nat list) ! j \<and> ([6, 10, 15, 21] :: nat list) ! j < 32" by code_simp
  then have "\<forall>j<4. 0 < ([6, 10, 15, 21] :: nat list) ! j \<and> ([6, 10, 15, 21] :: nat list) ! j < 32" by simp
  ultimately show ?thesis
    using rfc_round_renamed [of "[0, 7, 14, 5, 12, 3, 10, 1, 8, 15, 6, 13, 4, 11, 2, 9]" "[6, 10, 15, 21]" X 48 md5_I st] assms(1) by (simp only: st'_def) simp
qed

lemma rounds_renamed:
  assumes "length st = 4"
  shows "renamed 64 (rfc_rounds X st) = foldl (md5_step X) (renamed 0 st) [0..<64] \<and> length (rfc_rounds X st) = 4"
proof -
  note r = round_1 [OF assms, of X]
  note r = r round_2 [OF conjunct2 [OF r], of X]
  note r = r round_3 [OF conjunct2 [OF r(2)], of X]
  note r = r round_4 [OF conjunct2 [OF r(3)], of X]
  have "[0..<64] = [0..<16] @ [16..<32] @ [32..<48] @ [48..<64 :: nat]"
    using upt_add_eq_append [of 0 16 48] upt_add_eq_append [of 16 32 32] upt_add_eq_append [of 32 48 16] by simp
  then show ?thesis using r by (simp add: rfc_rounds_def Let_def)
qed

section \<open>The authentication code is a folded MD5 sum\<close>

lemma digest_rfc:
  assumes "rfc_rounds w [0x67452301, 0xefcdab89, 0x98badcfe, 0x10325476] = [a, b, c, d]"
  shows "digest_md5 w = (a, b, c, d)"
proof -
  have "renamed 64 (rfc_rounds w [0x67452301, 0xefcdab89, 0x98badcfe, 0x10325476]) =
    foldl (md5_step w) (renamed 0 [0x67452301, 0xefcdab89, 0x98badcfe, 0x10325476]) [0..<64]"
    using rounds_renamed [of "[0x67452301, 0xefcdab89, 0x98badcfe, 0x10325476]" w] by simp
  moreover have "renamed 64 [a, b, c, d] = (a, b, c, d)" by (simp add: renamed_def)
  moreover have "renamed 0 [0x67452301, 0xefcdab89, 0x98badcfe, 0x10325476] = (0x67452301, 0xefcdab89, 0x98badcfe, 0x10325476)"
    by (simp add: renamed_def)
  ultimately show ?thesis by (simp only: digest_md5_def assms)
qed

text \<open>The message is the two keys three times; with its padding it is one block.\<close>

lemma three_times_block:
  assumes "length x = 8" "length y = 8"
  defines "msg \<equiv> concat (replicate 3 (x @ y))"
  shows "length (rfc_pad msg) = 64"
    and "map (\<lambda>i. read32 (rfc_pad msg) (4 * i)) [0..<16] =
      concat (replicate 3 [read32 x 0, read32 x 4, read32 y 0, read32 y 4]) @ [0x80, 0, 384, 0]"
proof -
  obtain a0 a1 a2 a3 a4 a5 a6 a7 where x: "x = [a0, a1, a2, a3, a4, a5, a6, a7]" using assms(1) by (rule length_8_cases)
  obtain b0 b1 b2 b3 b4 b5 b6 b7 where y: "y = [b0, b1, b2, b3, b4, b5, b6, b7]" using assms(2) by (rule length_8_cases)
  have three: "replicate 3 z = [z, z, z]" for z :: 'a by (simp add: eval_nat_numeral)
  have "length msg = 48" by (simp add: msg_def x y three)
  moreover have "replicate 7 (0 :: byte) = [0, 0, 0, 0, 0, 0, 0]" by (simp add: eval_nat_numeral)
  moreover have "push64 384 = [0x80, 1, 0, 0, 0, 0, 0, 0]" by code_simp
  ultimately have p: "rfc_pad msg = [a0, a1, a2, a3, a4, a5, a6, a7, b0, b1, b2, b3, b4, b5, b6, b7,
    a0, a1, a2, a3, a4, a5, a6, a7, b0, b1, b2, b3, b4, b5, b6, b7,
    a0, a1, a2, a3, a4, a5, a6, a7, b0, b1, b2, b3, b4, b5, b6, b7,
    0x80, 0, 0, 0, 0, 0, 0, 0, 0x80, 1, 0, 0, 0, 0, 0, 0]"
    by (simp add: rfc_pad_def msg_def x y three)
  show "length (rfc_pad msg) = 64" by (simp add: p)
  have idx: "[0..<16] = [0, 1, 2, 3, 4, 5, 6, 7, 8, 9, 10, 11, 12, 13, 14, 15 :: nat]" by (simp add: upt_rec)
  have three': "replicate 3 z = [z, z, z]" for z :: "u32 list" by (simp add: eval_nat_numeral)
  show "map (\<lambda>i. read32 (rfc_pad msg) (4 * i)) [0..<16] =
      concat (replicate 3 [read32 x 0, read32 x 4, read32 y 0, read32 y 4]) @ [0x80, 0, 384, 0]"
    unfolding p idx three' x y by (simp add: read32_def)
qed

text \<open>
  C28: The claim of the comment over \<open>lhmac64_md5\<close>. The authentication code of two 8-byte strings
  is the first half of the MD5 sum of the two, three times in a row, exclusive or its second half,
  where MD5 is the algorithm of RFC 1321.
\<close>

theorem hmac64_md5_is_md5:
  assumes "length x = 8" "length y = 8"
  shows "lhmac64_md5 x y =
    (let m = md5_sum (concat (replicate 3 (x @ y))) in lxor_str (take 8 m) (drop 8 m))"
proof -
  let ?msg = "concat (replicate 3 (x @ y))" and ?st = "[0x67452301, 0xefcdab89, 0x98badcfe, 0x10325476] :: u32 list"
  let ?w = "concat (replicate 3 [read32 x 0, read32 x 4, read32 y 0, read32 y 4]) @ [0x80, 0, 384, 0]"
  note block = three_times_block [OF assms]
  have "length (rfc_rounds ?w ?st) = 4" using rounds_renamed [of ?st ?w] by simp
  then obtain a b c d where r: "rfc_rounds ?w ?st = [a, b, c, d]" by (auto simp: length_Suc_conv eval_nat_numeral)
  define A B C D where "A = a + 0x67452301" and "B = b + 0xefcdab89" and "C = c + 0x98badcfe" and "D = d + 0x10325476"
  have "lhmac64_md5 x y = Inr (pushqword (A XOR C, B XOR D))"
    using digest_rfc [OF r] assms by (simp add: lhmac64_md5_def read64_def read_key_ok hmac_md5_def A_def B_def C_def D_def)
  moreover have m: "md5_sum ?msg = (write32 A @ write32 B) @ (write32 C @ write32 D)"
  proof -
    have "rfc_blocks ?st (rfc_pad ?msg) = rfc_blocks (map2 (+) ?st (rfc_rounds ?w ?st)) (drop 64 (rfc_pad ?msg))"
      by (subst rfc_blocks.simps) (simp only: block if_False less_irrefl)
    also have "\<dots> = map2 (+) ?st (rfc_rounds ?w ?st)"
      by (subst rfc_blocks.simps) (simp add: block(1))
    also have "\<dots> = [A, B, C, D]" by (simp add: r A_def B_def C_def D_def add.commute)
    finally show ?thesis by (simp add: md5_sum_def)
  qed
  moreover have "lxor_str (write32 A @ write32 B) (write32 C @ write32 D) = Inr (pushqword (A XOR C, B XOR D))"
  proof -
    have z: "lxor_str s1 s2 = Inr (map2 (XOR) s1 s2)" if "length s1 = length s2" "s2 \<noteq> []" for s1 s2 :: "byte list"
      using that by (auto simp: lxor_str_def intro!: nth_equalityI)
    have "write32 C @ write32 D \<noteq> []" by (simp add: write32_def)
    then show ?thesis by (simp add: z pushqword_def write32_xor zip_append)
  qed
  ultimately show ?thesis by (simp add: Let_def)
qed

lemma hmac64_md5_is_md5_witness:
  "lhmac64_md5 [1, 2, 3, 4, 5, 6, 7, 8] [9, 10, 11, 12, 13, 14, 15, 16] =
    (let m = md5_sum (concat (replicate 3 ([1, 2, 3, 4, 5, 6, 7, 8] @ [9, 10, 11, 12, 13, 14, 15, 16]))) in lxor_str (take 8 m) (drop 8 m))"
  by (rule hmac64_md5_is_md5) simp_all

end
