(* ===== verification/CryptSha1.thy ===== *)
theory CryptSha1
  imports CryptBytes
begin

text \<open>
  SHA-1 and its keyed form, \<open>skynet/lualib-src/lsha1.c\<close>, on a little-endian machine. The last
  part has both as FIPS 180 and RFC 2104 write them, as the reference. The 80 macro calls of
  \<open>SHA1_Transform\<close> rotate the names of the five variables by one place from call to call; here the
  variables are a tuple in the order of the arguments of the next call, and after 80 calls the
  order is again the first.
\<close>

record SHA1_CTX =
  sha_state :: "u32 list"
  sha_count0 :: u32
  sha_count1 :: u32
  sha_buffer :: "byte list"

definition rol :: "u32 \<Rightarrow> nat \<Rightarrow> u32" where
  "rol x bits = push_bit bits x OR drop_bit (32 - bits) x"

text \<open>The macros \<open>blk0\<close> and \<open>blk\<close>: a word of the schedule, which they also store.\<close>

definition blk0 :: "u32 list \<Rightarrow> nat \<Rightarrow> u32 \<times> u32 list" where
  "blk0 l i = (let x = (rol (l ! i) 24 AND 0xFF00FF00) OR (rol (l ! i) 8 AND 0x00FF00FF) in (x, l[i := x]))"

definition blk :: "u32 list \<Rightarrow> nat \<Rightarrow> u32 \<times> u32 list" where
  "blk l i =
     (let x = rol (l ! ((i + 13) mod 16) XOR l ! ((i + 8) mod 16) XOR l ! ((i + 2) mod 16) XOR l ! (i mod 16)) 1
      in (x, l[i mod 16 := x]))"

type_synonym regs = "u32 \<times> u32 \<times> u32 \<times> u32 \<times> u32"

definition sha_R :: "(u32 \<Rightarrow> u32 \<Rightarrow> u32 \<Rightarrow> u32) \<Rightarrow> u32 \<Rightarrow> (u32 list \<Rightarrow> nat \<Rightarrow> u32 \<times> u32 list) \<Rightarrow>
    regs \<times> u32 list \<Rightarrow> nat \<Rightarrow> regs \<times> u32 list" where
  "sha_R f k word s i =
     (let ((v, w, x, y, z), l) = s; (b, l) = word l i
      in ((z + (f w x y + b + k + rol v 5), v, rol w 30, x, y), l))"

definition R0 :: "regs \<times> u32 list \<Rightarrow> nat \<Rightarrow> regs \<times> u32 list" where
  "R0 = sha_R (\<lambda>w x y. (w AND (x XOR y)) XOR y) 0x5A827999 blk0"

definition R1 :: "regs \<times> u32 list \<Rightarrow> nat \<Rightarrow> regs \<times> u32 list" where
  "R1 = sha_R (\<lambda>w x y. (w AND (x XOR y)) XOR y) 0x5A827999 blk"

definition R2 :: "regs \<times> u32 list \<Rightarrow> nat \<Rightarrow> regs \<times> u32 list" where
  "R2 = sha_R (\<lambda>w x y. w XOR x XOR y) 0x6ED9EBA1 blk"

definition R3 :: "regs \<times> u32 list \<Rightarrow> nat \<Rightarrow> regs \<times> u32 list" where
  "R3 = sha_R (\<lambda>w x y. ((w OR x) AND y) OR (w AND x)) 0x8F1BBCDC blk"

definition R4 :: "regs \<times> u32 list \<Rightarrow> nat \<Rightarrow> regs \<times> u32 list" where
  "R4 = sha_R (\<lambda>w x y. w XOR x XOR y) 0xCA62C1D6 blk"

definition SHA1_Transform :: "u32 list \<Rightarrow> byte list \<Rightarrow> u32 list" where
  "SHA1_Transform state buffer =
     (let l = map (\<lambda>i. read32 buffer (4 * i)) [0..<16];
          s = foldl R0 ((state ! 0, state ! 1, state ! 2, state ! 3, state ! 4), l) [0..<16];
          s = foldl R1 s [16..<20];
          s = foldl R2 s [20..<40];
          s = foldl R3 s [40..<60];
          s = foldl R4 s [60..<80];
          (a, b, c, d, e) = fst s
      in [state ! 0 + a, state ! 1 + b, state ! 2 + c, state ! 3 + d, state ! 4 + e])"

definition sat_SHA1_Init :: "SHA1_CTX" where
  "sat_SHA1_Init =
     \<lparr>sha_state = [0x67452301, 0xEFCDAB89, 0x98BADCFE, 0x10325476, 0xC3D2E1F0],
      sha_count0 = 0, sha_count1 = 0, sha_buffer = replicate 64 0\<rparr>"

text \<open>The loop over whole blocks of the data, and what is left.\<close>

function sha_blocks :: "u32 list \<Rightarrow> byte list \<Rightarrow> u32 list \<times> byte list" where
  "sha_blocks state data =
     (if length data < 64 then (state, data) else sha_blocks (SHA1_Transform state (take 64 data)) (drop 64 data))"
  by pat_completeness auto
termination by (relation "measure (\<lambda>(state, data). length data)") auto

declare sha_blocks.simps [simp del]

text \<open>
  \<open>len << 3\<close> is a 64-bit number: the sum is stored in 32 bits and then compared with all 64.
\<close>

definition sat_SHA1_Update :: "SHA1_CTX \<Rightarrow> byte list \<Rightarrow> SHA1_CTX" where
  "sat_SHA1_Update ctx data =
     (let len = word_of_nat (length data) :: u64;
          j = unat (drop_bit 3 (sha_count0 ctx) AND 63);
          count0 = sha_count0 ctx + ucast (push_bit 3 len);
          count1 = (if ucast count0 < push_bit 3 len then sha_count1 ctx + 1 else sha_count1 ctx) + ucast (drop_bit 29 len);
          (state, buffer, j, rest) =
            (if j + length data > 63 then
               (let i = 64 - j;
                    buffer = take j (sha_buffer ctx) @ take i data;
                    (state, rest) = sha_blocks (SHA1_Transform (sha_state ctx) buffer) (drop i data)
                in (state, buffer, 0, rest))
             else (sha_state ctx, sha_buffer ctx, j, data))
      in \<lparr>sha_state = state, sha_count0 = count0, sha_count1 = count1,
          sha_buffer = take j buffer @ rest @ drop (j + length rest) buffer\<rparr>)"

partial_function (option) sha_fill :: "SHA1_CTX \<Rightarrow> SHA1_CTX option" where
  "sha_fill ctx = (if sha_count0 ctx AND 504 = 448 then Some ctx else sha_fill (sat_SHA1_Update ctx [0]))"

declare sha_fill.simps [code]

definition sat_SHA1_Final :: "SHA1_CTX \<Rightarrow> byte list option" where
  "sat_SHA1_Final ctx =
     (let finalcount = map (\<lambda>i. ucast (drop_bit ((3 - i mod 4) * 8) (if i \<ge> 4 then sha_count0 ctx else sha_count1 ctx) AND 255)) [0..<8]
      in map_option (\<lambda>ctx.
           let state = sha_state (sat_SHA1_Update ctx finalcount)
           in map (\<lambda>i. ucast (drop_bit ((3 - i mod 4) * 8) (state ! (i div 4)) AND 255)) [0..<20])
         (sha_fill (sat_SHA1_Update ctx [0x80])))"

definition lsha1 :: "byte list \<Rightarrow> byte list res" where
  "lsha1 buffer = option_res Diverges (sat_SHA1_Final (sat_SHA1_Update sat_SHA1_Init buffer))"

text \<open>The key is 16 words of memory.\<close>

definition xor_key :: "byte list \<Rightarrow> u32 \<Rightarrow> byte list" where
  "xor_key key x = concat (map (\<lambda>i. write32 (read32 key (4 * i) XOR x)) [0..<16])"

definition lhmac_sha1 :: "byte list \<Rightarrow> byte list \<Rightarrow> byte list res" where
  "lhmac_sha1 key t =
     bind_res
       (if length key > 64 then
          bind_res (lsha1 key) (\<lambda>digest. Inr (digest @ replicate 44 0))
        else Inr (key @ replicate (64 - length key) 0)) (\<lambda>rkey.
     let rkey1 = xor_key rkey 0x5c5c5c5c;
         ctx1 = sat_SHA1_Update sat_SHA1_Init rkey1;
         rkey2 = xor_key rkey1 (0x5c5c5c5c XOR 0x36363636);
         ctx2 = sat_SHA1_Update (sat_SHA1_Update sat_SHA1_Init rkey2) t
     in bind_res (option_res Diverges (sat_SHA1_Final ctx2)) (\<lambda>digest2.
        option_res Diverges (sat_SHA1_Final (sat_SHA1_Update ctx1 digest2))))"

section \<open>The standards\<close>

function fips_W :: "u32 list \<Rightarrow> nat \<Rightarrow> u32" where
  "fips_W M t =
     (if t < 16 then M ! t
      else word_rotl 1 (fips_W M (t - 3) XOR fips_W M (t - 8) XOR fips_W M (t - 14) XOR fips_W M (t - 16)))"
  by pat_completeness auto
termination by (relation "measure (\<lambda>(M, t). t)") auto

declare fips_W.simps [simp del]

definition fips_f :: "nat \<Rightarrow> u32 \<Rightarrow> u32 \<Rightarrow> u32 \<Rightarrow> u32" where
  "fips_f t x y z =
     (if t < 20 then (x AND y) XOR (NOT x AND z)
      else if t < 40 then x XOR y XOR z
      else if t < 60 then (x AND y) XOR (x AND z) XOR (y AND z)
      else x XOR y XOR z)"

definition fips_K :: "nat \<Rightarrow> u32" where
  "fips_K t = (if t < 20 then 0x5A827999 else if t < 40 then 0x6ED9EBA1 else if t < 60 then 0x8F1BBCDC else 0xCA62C1D6)"

definition fips_step :: "u32 list \<Rightarrow> regs \<Rightarrow> nat \<Rightarrow> regs" where
  "fips_step M r t =
     (let (a, b, c, d, e) = r
      in (word_rotl 5 a + fips_f t b c d + e + fips_K t + fips_W M t, a, word_rotl 30 b, c, d))"

definition fips_block :: "u32 list \<Rightarrow> byte list \<Rightarrow> u32 list" where
  "fips_block H block =
     (let M = map (\<lambda>i. GET_UINT32 block (4 * i)) [0..<16];
          (a, b, c, d, e) = foldl (fips_step M) (H ! 0, H ! 1, H ! 2, H ! 3, H ! 4) [0..<80]
      in [a + H ! 0, b + H ! 1, c + H ! 2, d + H ! 3, e + H ! 4])"

function fips_blocks :: "u32 list \<Rightarrow> byte list \<Rightarrow> u32 list" where
  "fips_blocks H msg = (if length msg < 64 then H else fips_blocks (fips_block H (take 64 msg)) (drop 64 msg))"
  by pat_completeness auto
termination by (relation "measure (\<lambda>(H, msg). length msg)") auto

declare fips_blocks.simps [simp del]

definition fips_H0 :: "u32 list" where
  "fips_H0 = [0x67452301, 0xEFCDAB89, 0x98BADCFE, 0x10325476, 0xC3D2E1F0]"

definition fips_pad :: "byte list \<Rightarrow> byte list" where
  "fips_pad msg = msg @ 0x80 # replicate ((119 - length msg mod 64) mod 64) 0 @
     PUT_UINT32 (word_of_nat (8 * length msg div 2 ^ 32)) @ PUT_UINT32 (word_of_nat (8 * length msg))"

definition sha1_sum :: "byte list \<Rightarrow> byte list" where
  "sha1_sum msg = concat (map PUT_UINT32 (fips_blocks fips_H0 (fips_pad msg)))"

definition rfc2104_hmac :: "byte list \<Rightarrow> byte list \<Rightarrow> byte list" where
  "rfc2104_hmac key t =
     (let k = (if length key > 64 then sha1_sum key else key);
          k0 = k @ replicate (64 - length k) 0
      in sha1_sum (map (\<lambda>b. b XOR 0x5c) k0 @ sha1_sum (map (\<lambda>b. b XOR 0x36) k0 @ t)))"

section \<open>The transform is the block function of the standard\<close>

lemma rol_rotl: "0 < n \<Longrightarrow> n < 32 \<Longrightarrow> rol x n = word_rotl n x"
  by (simp add: rol_def shifts_rotl)

lemma byte_swap: "(rol (read32 b i) 24 AND 0xFF00FF00) OR (rol (read32 b i) 8 AND 0x00FF00FF) = GET_UINT32 b i"
proof (rule bit_word_eqI)
  fix n assume "n < LENGTH(32)"
  then have n: "n < 32" by simp
  have m: "(0xFF00FF00 :: u32) = push_bit 8 (mask 8) OR push_bit 24 (mask 8)" "(0x00FF00FF :: u32) = mask 8 OR push_bit 16 (mask 8)"
    by (simp_all add: mask_numeral)
  from n show "bit ((rol (read32 b i) 24 AND 0xFF00FF00) OR (rol (read32 b i) 8 AND 0x00FF00FF)) n = bit (GET_UINT32 b i) n"
    unfolding m by (rule u32_bit_cases) (auto simp: rol_def read32_def GET_UINT32_def bit_simps bit_byte_ge)
qed

lemma choose_eq: "(w AND (x XOR y)) XOR y = (w AND x) XOR (NOT w AND (y :: u32))"
  by (rule bit_word_eqI) (auto simp: bit_simps)

lemma majority_eq: "((w OR x) AND y) OR (w AND x) = (w AND x) XOR (w AND y) XOR (x AND (y :: u32))"
  by (rule bit_word_eqI) (auto simp: bit_simps)

text \<open>Before step \<open>i\<close> the 16 words of memory are the last 16 words of the schedule.\<close>

definition schedule :: "u32 list \<Rightarrow> nat \<Rightarrow> u32 list \<Rightarrow> bool" where
  "schedule M i l \<longleftrightarrow> length l = 16 \<and> (\<forall>t. 16 \<le> i \<and> i \<le> t + 16 \<and> t < i \<longrightarrow> l ! (t mod 16) = fips_W M t)"

lemma schedule_blk:
  assumes "schedule M i l" "16 \<le> i"
  shows "fst (blk l i) = fips_W M i \<and> schedule M (Suc i) (snd (blk l i))"
proof -
  have l: "length l = 16" and w: "\<And>t. i \<le> t + 16 \<Longrightarrow> t < i \<Longrightarrow> l ! (t mod 16) = fips_W M t"
    using assms by (auto simp: schedule_def)
  have i: "(i + 13) mod 16 = (i - 3) mod 16" "(i + 8) mod 16 = (i - 8) mod 16" "(i + 2) mod 16 = (i - 14) mod 16" "i mod 16 = (i - 16) mod 16"
  proof -
    obtain k where k: "i = 16 + k" using assms(2) le_Suc_ex by blast
    have "16 + k + 13 = 16 + (16 + k - 3)" "16 + k + 8 = 16 + (16 + k - 8)" "16 + k + 2 = 16 + (16 + k - 14)" by simp_all
    then show "(i + 13) mod 16 = (i - 3) mod 16" "(i + 8) mod 16 = (i - 8) mod 16" "(i + 2) mod 16 = (i - 14) mod 16"
      unfolding k by (simp_all only: mod_add_self1)
    show "i mod 16 = (i - 16) mod 16" by (simp add: k)
  qed
  have W: "fst (blk l i) = fips_W M i"
  proof -
    have "l ! ((i - 3) mod 16) = fips_W M (i - 3)" "l ! ((i - 8) mod 16) = fips_W M (i - 8)"
      "l ! ((i - 14) mod 16) = fips_W M (i - 14)" "l ! ((i - 16) mod 16) = fips_W M (i - 16)"
      by (rule w; use assms(2) in simp)+
    then have "fst (blk l i) = rol (fips_W M (i - 3) XOR fips_W M (i - 8) XOR fips_W M (i - 14) XOR fips_W M (i - 16)) 1"
      by (simp only: blk_def Let_def fst_conv i)
    then show ?thesis using assms(2) by (subst fips_W.simps) (simp add: rol_rotl)
  qed
  have "snd (blk l i) ! (t mod 16) = fips_W M t" if t: "Suc i \<le> t + 16" "t < Suc i" for t
  proof (cases "t = i")
    case True
    then show ?thesis using W l by (simp add: blk_def Let_def)
  next
    case False
    have "t mod 16 \<noteq> i mod 16"
    proof
      assume "t mod 16 = i mod 16"
      then have "16 dvd i - t" using t mod_eq_dvd_iff_nat [of t i 16] by simp
      then show False using t False by (auto dest!: dvd_imp_le)
    qed
    then show ?thesis using w [of t] t False by (simp add: blk_def Let_def)
  qed
  then show ?thesis using W l by (simp add: schedule_def blk_def Let_def)
qed

lemma round_steps:
  assumes f: "\<And>t x y z. i \<le> t \<Longrightarrow> t < n \<Longrightarrow> f x y z = fips_f t x y z" "\<And>t. i \<le> t \<Longrightarrow> t < n \<Longrightarrow> k = fips_K t"
    and "16 \<le> i" "schedule M i l"
  shows "i \<le> m \<Longrightarrow> m \<le> n \<Longrightarrow>
    \<exists>l'. foldl (sha_R f k blk) (r, l) [i..<m] = (foldl (fips_step M) r [i..<m], l') \<and> schedule M m l'"
proof (induction m rule: dec_induct)
  case base
  then show ?case using assms(4) by auto
next
  case (step m)
  obtain l1 where l1: "foldl (sha_R f k blk) (r, l) [i..<m] = (foldl (fips_step M) r [i..<m], l1)" "schedule M m l1"
    using step by auto
  have b: "fst (blk l1 m) = fips_W M m" "schedule M (Suc m) (snd (blk l1 m))"
    using schedule_blk [OF l1(2)] step.hyps(1) assms(3) by simp_all
  have "sha_R f k blk (s, l1) m = (fips_step M s m, snd (blk l1 m))" for s
    using b(1) f step.hyps step.prems
    by (cases s; cases "blk l1 m") (simp add: sha_R_def fips_step_def rol_rotl ac_simps)
  then show ?case using l1(1) b(2) step.hyps(1) by simp
qed

lemma first_steps:
  assumes "length l = 16" "\<forall>j<16. M ! j = (rol (l ! j) 24 AND 0xFF00FF00) OR (rol (l ! j) 8 AND 0x00FF00FF)"
  shows "m \<le> 16 \<Longrightarrow> \<exists>l'. foldl R0 (r, l) [0..<m] = (foldl (fips_step M) r [0..<m], l') \<and> length l' = 16 \<and>
    (\<forall>j<16. l' ! j = (if j < m then M ! j else l ! j))"
proof (induction m)
  case (Suc m)
  then obtain l1 where l1: "foldl R0 (r, l) [0..<m] = (foldl (fips_step M) r [0..<m], l1)" "length l1 = 16"
    "\<And>j. j < 16 \<Longrightarrow> l1 ! j = (if j < m then M ! j else l ! j)" by auto
  have W: "fips_W M m = M ! m" using Suc.prems by (subst fips_W.simps) simp
  have b: "blk0 l1 m = (M ! m, l1[m := M ! m])"
    using l1(3) [of m] assms(2) Suc.prems by (simp add: blk0_def Let_def)
  have "R0 (s, l1) m = (fips_step M s m, l1[m := M ! m])" for s
    using b W Suc.prems
    by (cases s) (simp add: R0_def sha_R_def fips_step_def fips_f_def fips_K_def rol_rotl choose_eq add.assoc add.commute add.left_commute)
  moreover have "\<forall>j<16. l1[m := M ! m] ! j = (if j < Suc m then M ! j else l ! j)"
    using l1(2,3) Suc.prems by (auto simp: nth_list_update less_Suc_eq)
  ultimately show ?case using l1(1,2) by auto
qed (use assms in auto)

lemma SHA1_Transform_fips: "SHA1_Transform H block = fips_block H block"
proof -
  define l where "l = map (\<lambda>i. read32 block (4 * i)) [0..<16]"
  define M where "M = map (\<lambda>i. GET_UINT32 block (4 * i)) [0..<16]"
  define r where "r = (H ! 0, H ! 1, H ! 2, H ! 3, H ! 4)"
  have "\<forall>j<16. M ! j = (rol (l ! j) 24 AND 0xFF00FF00) OR (rol (l ! j) 8 AND 0x00FF00FF)"
    by (simp add: l_def M_def byte_swap)
  moreover have "length l = 16" by (simp add: l_def)
  ultimately obtain l0 where 0: "foldl R0 (r, l) [0..<16] = (foldl (fips_step M) r [0..<16], l0)" "length l0 = 16" "\<And>j. j < 16 \<Longrightarrow> l0 ! j = M ! j"
    using first_steps [of l M 16 r] by auto
  have "fips_W M t = M ! t" if "t < 16" for t using that by (subst fips_W.simps) simp
  then have s0: "schedule M 16 l0" using 0(2,3) by (auto simp: schedule_def)
  let ?r = "\<lambda>n. foldl (fips_step M) r [0..<n]"
  have up: "foldl (fips_step M) (?r i) [i..<n] = ?r n" if "i \<le> n" for i n
    using that upt_add_eq_append [of 0 i "n - i"] by simp
  obtain l1 where 1: "foldl R1 (?r 16, l0) [16..<20] = (?r 20, l1)" "schedule M 20 l1"
    using round_steps [of 16 20 "\<lambda>w x y. (w AND (x XOR y)) XOR y" "0x5A827999" M l0 20 "?r 16"] s0 up [of 16 20]
    by (auto simp: R1_def fips_f_def fips_K_def choose_eq)
  obtain l2 where 2: "foldl R2 (?r 20, l1) [20..<40] = (?r 40, l2)" "schedule M 40 l2"
    using round_steps [of 20 40 "\<lambda>w x y. w XOR x XOR y" "0x6ED9EBA1" M l1 40 "?r 20"] 1(2) up [of 20 40]
    by (auto simp: R2_def fips_f_def fips_K_def)
  obtain l3 where 3: "foldl R3 (?r 40, l2) [40..<60] = (?r 60, l3)" "schedule M 60 l3"
    using round_steps [of 40 60 "\<lambda>w x y. ((w OR x) AND y) OR (w AND x)" "0x8F1BBCDC" M l2 60 "?r 40"] 2(2) up [of 40 60]
    by (auto simp: R3_def fips_f_def fips_K_def majority_eq)
  obtain l4 where 4: "foldl R4 (?r 60, l3) [60..<80] = (?r 80, l4)"
    using round_steps [of 60 80 "\<lambda>w x y. w XOR x XOR y" "0xCA62C1D6" M l3 80 "?r 60"] 3(2) up [of 60 80]
    by (auto simp: R4_def fips_f_def fips_K_def)
  obtain a b c d e where e: "?r 80 = (a, b, c, d, e)" by (cases "?r 80") auto
  have "SHA1_Transform H block = [H ! 0 + a, H ! 1 + b, H ! 2 + c, H ! 3 + d, H ! 4 + e]"
    unfolding SHA1_Transform_def Let_def l_def [symmetric] r_def [symmetric] 0(1) 1(1) 2(1) 3(1) 4 e by simp
  moreover have "fips_block H block = [a + H ! 0, b + H ! 1, c + H ! 2, d + H ! 3, e + H ! 4]"
    unfolding fips_block_def Let_def M_def [symmetric] r_def [symmetric] e by simp
  ultimately show ?thesis by (simp add: add.commute)
qed

section \<open>Streaming\<close>

lemma fips_blocks_short: "length m < 64 \<Longrightarrow> fips_blocks H m = H"
  by (subst fips_blocks.simps) simp

lemma fips_blocks_block: "length b = 64 \<Longrightarrow> fips_blocks H (b @ m) = fips_blocks (fips_block H b) m"
  by (subst fips_blocks.simps) simp

lemma fips_blocks_append: "length a mod 64 = 0 \<Longrightarrow> fips_blocks H (a @ b) = fips_blocks (fips_blocks H a) b"
proof (induction H a rule: fips_blocks.induct)
  case (1 H a)
  show ?case
  proof (cases "a = []")
    case True
    then show ?thesis by (simp add: fips_blocks_short)
  next
    case False
    then have l: "64 \<le> length a" using "1.prems" by (cases "length a < 64") auto
    then have "fips_blocks (fips_block H (take 64 a)) (drop 64 a @ b) = fips_blocks (fips_blocks (fips_block H (take 64 a)) (drop 64 a)) b"
      using "1.IH" "1.prems" by (simp add: le_mod_geq)
    then show ?thesis using l by (simp add: fips_blocks.simps [of H a] fips_blocks.simps [of H "a @ b"])
  qed
qed

lemma sha_blocks_fips: "sha_blocks H m = (fips_blocks H m, drop (length m div 64 * 64) m)"
proof (induction H m rule: sha_blocks.induct)
  case (1 H m)
  show ?case
  proof (cases "length m < 64")
    case True
    then show ?thesis by (simp add: sha_blocks.simps [of H m] fips_blocks.simps [of H m])
  next
    case False
    then have "length m div 64 * 64 = (length m - 64) div 64 * 64 + 64" by (simp add: le_div_geq not_less)
    then show ?thesis
      using "1.IH" False by (simp add: sha_blocks.simps [of H m] fips_blocks.simps [of H m] SHA1_Transform_fips add.commute)
  qed
qed

lemma length_fips_blocks: "length H = 5 \<Longrightarrow> length (fips_blocks H m) = 5"
proof (induction H m rule: fips_blocks.induct)
  case (1 H m)
  have "length (fips_block H b) = 5" for b by (simp add: fips_block_def Let_def split: prod.splits)
  then show ?case using 1 by (subst fips_blocks.simps) simp
qed

text \<open>What a context has seen.\<close>

definition sha_rep :: "SHA1_CTX \<Rightarrow> byte list \<Rightarrow> bool" where
  "sha_rep ctx D \<longleftrightarrow>
     sha_count0 ctx = word_of_nat (8 * length D) \<and> sha_count1 ctx = word_of_nat (8 * length D div 2 ^ 32) \<and>
     sha_state ctx = fips_blocks fips_H0 D \<and> length (sha_buffer ctx) = 64 \<and>
     take (length D mod 64) (sha_buffer ctx) = drop (length D div 64 * 64) D"

lemma sha_rep_Init: "sha_rep sat_SHA1_Init []"
  by (simp add: sha_rep_def sat_SHA1_Init_def fips_H0_def fips_blocks_short)

lemma count_position: "unat (drop_bit 3 (word_of_nat (8 * n) :: u32) AND 63) = n mod 64"
proof -
  have "unat (drop_bit 3 (word_of_nat m :: u32) AND 63) = (m mod 2 ^ 32) div 8 mod 64" for m
  proof -
    have "drop_bit 3 (word_of_nat m :: u32) AND 63 = take_bit 6 (drop_bit 3 (word_of_nat m))"
      by (simp add: take_bit_eq_mask mask_numeral)
    then show ?thesis by (simp add: unat_take_bit unat_drop_bit unat_of_nat)
  qed
  then have "unat (drop_bit 3 (word_of_nat (8 * n) :: u32) AND 63) = (8 * n mod 2 ^ 32) div 8 mod 64" .
  also have "(8 * n mod 2 ^ 32) div 8 = n mod 2 ^ 29"
    using mod_mult_mult1 [of 8 n "2 ^ 29"] by simp
  also have "n mod 2 ^ 29 mod 64 = n mod 64" by (rule mod_mod_cancel) simp
  finally show ?thesis .
qed

lemma count_carry:
  assumes "len < 2 ^ 29"
  defines "w \<equiv> push_bit 3 (word_of_nat len :: u64)"
  shows "(word_of_nat (8 * n) :: u32) + ucast w = word_of_nat (8 * (n + len))"
    and "(if ucast (word_of_nat (8 * (n + len)) :: u32) < w then (word_of_nat (8 * n div 2 ^ 32) :: u32) + 1 else word_of_nat (8 * n div 2 ^ 32)) +
      ucast (drop_bit 29 (word_of_nat len :: u64)) = word_of_nat (8 * (n + len) div 2 ^ 32)"
proof -
  have w: "w = word_of_nat (8 * len)" by (simp add: w_def push_bit_eq_mult mult.commute)
  have "m < 2 ^ 64 \<Longrightarrow> unat (word_of_nat m :: u64) = m" for m by (simp add: unat_of_nat)
  from this [of "8 * len"] have uw: "unat w = 8 * len" unfolding w using assms(1) by simp
  have u: "unat (ucast w :: u32) = 8 * len" using assms(1) by (simp add: unsigned_ucast_eq take_bit_eq_mod uw)
  have "ucast w = (of_nat (unat (ucast w :: u32)) :: u32)" by (simp only: of_nat_unat ucast_id)
  then have "ucast w = (word_of_nat (8 * len) :: u32)" by (simp only: u)
  then show "(word_of_nat (8 * n) :: u32) + ucast w = word_of_nat (8 * (n + len))" by (simp add: distrib_left)
  have d: "drop_bit 29 (word_of_nat len :: u64) = 0"
    using assms(1) by (simp add: word_unat_eq_iff unat_drop_bit unat_of_nat)
  define x q where "x = 8 * n mod 2 ^ 32" and "q = 8 * n div 2 ^ 32"
  have x: "x < 2 ^ 32" "8 * n = q * 2 ^ 32 + x"
    unfolding x_def q_def by (simp, rule div_mult_mod_eq [symmetric])
  have c: "ucast (word_of_nat (8 * (n + len)) :: u32) < w \<longleftrightarrow> (x + 8 * len) mod 2 ^ 32 < 8 * len"
  proof -
    have "unat (ucast (word_of_nat k :: u32) :: u64) = k mod 2 ^ 32" for k
      by (simp add: unsigned_ucast_eq unat_of_nat take_bit_eq_mod)
    then have "ucast (word_of_nat (8 * (n + len)) :: u32) < w \<longleftrightarrow> 8 * (n + len) mod 2 ^ 32 < 8 * len"
      by (simp only: word_less_nat_alt uw)
    also have "8 * (n + len) mod 2 ^ 32 = (x + 8 * len) mod 2 ^ 32"
      by (simp only: x_def mod_add_left_eq distrib_left)
    finally show ?thesis .
  qed
  have s: "8 * (n + len) div 2 ^ 32 = q + (x + 8 * len) div 2 ^ 32" using x(2) by (simp add: distrib_left)
  have "(x + 8 * len) div 2 ^ 32 = (if (x + 8 * len) mod 2 ^ 32 < 8 * len then 1 else 0)"
  proof (cases "x + 8 * len < 2 ^ 32")
    case False
    then have "(x + 8 * len) div 2 ^ 32 = Suc ((x + 8 * len - 2 ^ 32) div 2 ^ 32)" "(x + 8 * len) mod 2 ^ 32 = (x + 8 * len - 2 ^ 32) mod 2 ^ 32"
      by (simp_all add: le_div_geq le_mod_geq)
    then show ?thesis using x(1) assms(1) by simp
  qed simp
  then show "(if ucast (word_of_nat (8 * (n + len)) :: u32) < w then (word_of_nat (8 * n div 2 ^ 32) :: u32) + 1 else word_of_nat (8 * n div 2 ^ 32)) +
      ucast (drop_bit 29 (word_of_nat len :: u64)) = word_of_nat (8 * (n + len) div 2 ^ 32)"
    unfolding c d s by (simp add: q_def)
qed

lemma sat_SHA1_Update_rep:
  assumes "sha_rep ctx D" "length data < 2 ^ 29"
  shows "sha_rep (sat_SHA1_Update ctx data) (D @ data)"
proof -
  let ?n = "length D" and ?len = "length data" and ?buf = "sha_buffer ctx"
  let ?j = "?n mod 64"
  define A B where "A = take (?n div 64 * 64) D" and "B = drop (?n div 64 * 64) D"
  let ?w = "word_of_nat ?len :: u64"
  have r: "sha_count0 ctx = word_of_nat (8 * ?n)" "sha_count1 ctx = word_of_nat (8 * ?n div 2 ^ 32)"
    "sha_state ctx = fips_blocks fips_H0 D" "length ?buf = 64" "take ?j ?buf = B"
    using assms(1) by (simp_all add: sha_rep_def B_def)
  have B: "length B = ?j" "?j < 64" by (simp_all add: B_def minus_div_mult_eq_mod)
  have A: "length A mod 64 = 0" "length A = ?n div 64 * 64" by (simp_all add: A_def min_absorb2)
  have D: "D = A @ B" by (simp add: A_def B_def)
  have stA: "fips_blocks fips_H0 (D @ m) = fips_blocks (fips_blocks fips_H0 A) (B @ m)" for m
    using fips_blocks_append [OF A(1), of fips_H0 "B @ m"] by (simp add: D)
  have st0: "sha_state ctx = fips_blocks fips_H0 A"
    using stA [of "[]"] B r(3) by (simp add: fips_blocks_short)
  let ?c0 = "word_of_nat (8 * (?n + ?len)) :: u32" and ?c1 = "word_of_nat (8 * (?n + ?len) div 2 ^ 32) :: u32"
  have counts: "sha_count0 ctx + ucast (push_bit 3 ?w) = ?c0"
    "(if ucast ?c0 < push_bit 3 ?w then sha_count1 ctx + 1 else sha_count1 ctx) + ucast (drop_bit 29 ?w) = ?c1"
    using count_carry [OF assms(2), of ?n] unfolding r(1,2) by blast+
  have pos: "unat (drop_bit 3 (sha_count0 ctx) AND 63) = ?j" unfolding r(1) by (rule count_position)
  have n': "(?n + ?len) mod 64 = (?j + ?len) mod 64" "(?n + ?len) div 64 = ?n div 64 + (?j + ?len) div 64"
    using div_mult_mod_eq [of ?n 64] by (simp_all add: mod_add_left_eq, metis add.assoc div_mult_self3 div_mult_mod_eq zero_neq_numeral)
  show ?thesis
  proof (cases "?j + ?len > 63")
    case False
    then have u: "sat_SHA1_Update ctx data = \<lparr>sha_state = sha_state ctx, sha_count0 = ?c0, sha_count1 = ?c1,
      sha_buffer = take ?j ?buf @ data @ drop (?j + ?len) ?buf\<rparr>"
      unfolding sat_SHA1_Update_def Let_def pos counts by simp
    have "fips_blocks fips_H0 (D @ data) = sha_state ctx" using stA [of data] st0 B False by (simp add: fips_blocks_short)
    moreover have "(?n + ?len) div 64 = ?n div 64" "(?n + ?len) mod 64 = ?j + ?len" using n' False by simp_all
    moreover have "drop (?n div 64 * 64) D = B" by (simp only: B_def)
    ultimately show ?thesis using False B r(4,5) unfolding u sha_rep_def by simp
  next
    case True
    let ?buffer = "take ?j ?buf @ take (64 - ?j) data" and ?rest = "drop (64 - ?j) data"
    have l: "length ?buffer = 64" using True B r(4) by simp
    have s: "sha_blocks (SHA1_Transform (sha_state ctx) ?buffer) ?rest =
      (fips_blocks (fips_block (sha_state ctx) ?buffer) ?rest, drop (length ?rest div 64 * 64) ?rest)"
      by (simp only: sha_blocks_fips SHA1_Transform_fips)
    have u: "sat_SHA1_Update ctx data = \<lparr>sha_state = fips_blocks (fips_block (sha_state ctx) ?buffer) ?rest, sha_count0 = ?c0, sha_count1 = ?c1,
      sha_buffer = drop (length ?rest div 64 * 64) ?rest @ drop (length (drop (length ?rest div 64 * 64) ?rest)) ?buffer\<rparr>"
      unfolding sat_SHA1_Update_def Let_def pos counts s if_P [OF True]
      by (simp only: prod.case take_0 append_Nil add_0)
    define K where "K = drop (length ?rest div 64 * 64) ?rest"
    have "B @ data = ?buffer @ ?rest" using r(5) by simp
    then have st: "fips_blocks fips_H0 (D @ data) = fips_blocks (fips_block (sha_state ctx) ?buffer) ?rest"
      by (simp only: stA st0 fips_blocks_block [OF l])
    have m: "length ?rest = ?j + ?len - 64" using True B by simp
    then have m1: "(?j + ?len) mod 64 = length ?rest mod 64" "(?j + ?len) div 64 = Suc (length ?rest div 64)"
      using True by (simp_all add: le_mod_geq le_div_geq)
    have "drop ((?n + ?len) div 64 * 64) (D @ data) = drop (length ?rest div 64 * 64) ?rest"
    proof -
      have "drop ((?n + ?len) div 64 * 64) (D @ data) = drop ((?j + ?len) div 64 * 64) (B @ data)"
        using A(2) unfolding n'(2) by (subst D) (simp add: distrib_right)
      also have "\<dots> = drop (length ?rest div 64 * 64) (drop 64 (B @ data))" unfolding m1(2) drop_drop by (simp only: mult_Suc add.commute)
      also have "drop 64 (B @ data) = ?rest" using B by simp
      finally show ?thesis .
    qed
    then have tail: "drop ((?n + ?len) div 64 * 64) (D @ data) = K" unfolding K_def .
    have K: "length K = (?n + ?len) mod 64" unfolding n'(1) m1(1) K_def by (simp only: length_drop minus_div_mult_eq_mod)
    have "length K \<le> 64" unfolding K by simp
    show ?thesis
      unfolding u sha_rep_def SHA1_CTX.simps length_append K_def [symmetric] st tail K [symmetric]
    proof (intro conjI refl)
      show "length K + length (drop (length K) ?buffer) = 64"
        unfolding length_drop l using \<open>length K \<le> 64\<close> by simp
    qed simp
  qed
qed

text \<open>The padding loop ends: each pass moves the position by one, and it stops at 56.\<close>

lemma fill_done: "(word_of_nat (8 * n) :: u32) AND 504 = 448 \<longleftrightarrow> n mod 64 = 56"
proof -
  have m: "(504 :: u32) = push_bit 3 (mask 6)" "(63 :: u32) = mask 6" by (simp_all add: mask_numeral)
  have "x AND 504 = push_bit 3 (drop_bit 3 x AND 63)" for x :: u32
  proof (rule bit_word_eqI)
    fix n assume "n < LENGTH(32)"
    then show "bit (x AND 504) n = bit (push_bit 3 (drop_bit 3 x AND 63)) n"
      unfolding m by (cases "3 \<le> n") (auto simp: bit_simps)
  qed
  moreover have "unat (push_bit 3 (y AND 63)) = 8 * unat (y AND 63)" for y :: u32
  proof -
    have "unat (y AND 63) < 64" by (simp add: m(2) unat_take_bit flip: take_bit_eq_mask)
    then show ?thesis by (simp add: push_bit_eq_mult unat_word_ariths mult.commute)
  qed
  ultimately have "unat (word_of_nat (8 * n) AND 504 :: u32) = 8 * (n mod 64)" by (simp only: count_position)
  then show ?thesis by (simp only: word_unat_eq_iff) auto
qed

lemma fill_distance:
  fixes q :: nat
  shows "q \<le> 64 \<Longrightarrow> (120 - q) mod 64 = (if q \<le> 56 then 56 - q else 120 - q)"
proof (cases "q \<le> 56")
  case True
  then have "120 - q = 64 + (56 - q)" by simp
  then have "(120 - q) mod 64 = (56 - q) mod 64" by (simp only: mod_add_self1)
  then show ?thesis using True by simp
qed simp

lemma fill_next:
  fixes q :: nat
  assumes "q < 64"
  shows "(120 - Suc q mod 64) mod 64 = (119 - q) mod 64" "q \<noteq> 56 \<Longrightarrow> (120 - q) mod 64 = Suc ((120 - Suc q mod 64) mod 64)"
proof -
  show "(120 - Suc q mod 64) mod 64 = (119 - q) mod 64" using assms by (cases "q = 63") simp_all
  show "(120 - q) mod 64 = Suc ((120 - Suc q mod 64) mod 64)" if "q \<noteq> 56"
  proof (cases "q = 63")
    case False
    then have "Suc q mod 64 = Suc q" "Suc q \<le> 64" using assms by simp_all
    moreover have "56 - q = Suc (56 - Suc q)" if "q \<le> 56" using that \<open>q \<noteq> 56\<close> by linarith
    moreover have "120 - q = Suc (120 - Suc q)" using assms by linarith
    ultimately show ?thesis using fill_distance [of q] fill_distance [of "Suc q"] that assms by auto
  qed simp
qed

lemma sha_fill_run:
  "sha_rep ctx D \<Longrightarrow> \<exists>ctx'. sha_fill ctx = Some ctx' \<and> sha_rep ctx' (D @ replicate ((120 - length D mod 64) mod 64) 0)"
proof (induction "(120 - length D mod 64) mod 64" arbitrary: ctx D)
  case 0
  have "length D mod 64 < 64" by simp
  then have "length D mod 64 = 56" using 0(1) fill_next(2) [of "length D mod 64"] by fastforce
  then show ?case using 0 fill_done [of "length D"] by (subst sha_fill.simps) (simp add: sha_rep_def)
next
  case (Suc z)
  let ?r = "length D mod 64"
  have r: "?r < 64" by simp
  have ne: "?r \<noteq> 56" using Suc(2) by auto
  have "length (D @ [0]) mod 64 = Suc ?r mod 64" by (simp add: mod_Suc_eq)
  then have z: "z = (120 - length (D @ [0]) mod 64) mod 64"
    using Suc(2) fill_next(2) [OF r ne] by (simp only: nat.inject)
  have rep: "sha_rep (sat_SHA1_Update ctx [0]) (D @ [0])"
    by (rule sat_SHA1_Update_rep [OF Suc.prems]) simp
  from Suc.hyps(1) [OF z rep] obtain ctx' where
    "sha_fill (sat_SHA1_Update ctx [0]) = Some ctx'" "sha_rep ctx' ((D @ [0]) @ replicate z 0)"
    unfolding z [symmetric] by blast
  moreover have "\<not> sha_count0 ctx AND 504 = 448" using Suc.prems ne fill_done [of "length D"] by (simp add: sha_rep_def)
  ultimately show ?case by (subst sha_fill.simps) (simp flip: Suc.hyps(2))
qed

lemma digest_words:
  assumes "length state = 5"
  shows "map (\<lambda>i. ucast (drop_bit ((3 - i mod 4) * 8) (state ! (i div 4)) AND 255)) [0..<20] = concat (map PUT_UINT32 state)"
proof -
  obtain a b c d e where s: "state = [a, b, c, d, e]" using assms by (auto simp: length_Suc_conv eval_nat_numeral)
  have i: "[0..<20] = [0, 1, 2, 3, 4, 5, 6, 7, 8, 9, 10, 11, 12, 13, 14, 15, 16, 17, 18, 19 :: nat]" by (simp add: upt_rec)
  have m: "ucast (x AND 255) = (ucast x :: byte)" for x :: u32
    by (rule bit_word_eqI) (auto simp: bit_simps bit_ff)
  show ?thesis unfolding i s by (simp add: PUT_UINT32_def m del: unsigned_and_eq)
qed

lemma count_bytes:
  "map (\<lambda>i. ucast (drop_bit ((3 - i mod 4) * 8) (if i \<ge> 4 then c0 else c1) AND (255 :: u32))) [0..<8] = PUT_UINT32 c1 @ PUT_UINT32 c0"
proof -
  have i: "[0..<8] = [0, 1, 2, 3, 4, 5, 6, 7 :: nat]" by (simp add: upt_rec)
  have m: "ucast (x AND 255) = (ucast x :: byte)" for x :: u32
    by (rule bit_word_eqI) (auto simp: bit_simps bit_ff)
  show ?thesis unfolding i by (simp add: PUT_UINT32_def m del: unsigned_and_eq)
qed

lemma sat_SHA1_Final_sum:
  assumes "sha_rep ctx D"
  shows "sat_SHA1_Final ctx = Some (sha1_sum D)"
proof -
  let ?z = "(119 - length D mod 64) mod 64"
  have "sha_rep (sat_SHA1_Update ctx [0x80]) (D @ [0x80])"
    by (rule sat_SHA1_Update_rep [OF assms]) simp
  from sha_fill_run [OF this] obtain ctx' where c: "sha_fill (sat_SHA1_Update ctx [0x80]) = Some ctx'"
    "sha_rep ctx' ((D @ [0x80]) @ replicate ((120 - length (D @ [0x80]) mod 64) mod 64) 0)" by blast
  have "length D mod 64 < 64" by simp
  moreover have "length (D @ [0x80]) mod 64 = Suc (length D mod 64) mod 64" by (simp add: mod_Suc_eq)
  ultimately have z: "(120 - length (D @ [0x80]) mod 64) mod 64 = ?z"
    using fill_next(1) by (simp only:)
  let ?count = "PUT_UINT32 (sha_count1 ctx) @ PUT_UINT32 (sha_count0 ctx)"
  have "sha_rep (sat_SHA1_Update ctx' ?count) (((D @ [0x80]) @ replicate ?z 0) @ ?count)"
    using sat_SHA1_Update_rep [OF c(2) [unfolded z], of ?count] by simp
  moreover have "((D @ [0x80]) @ replicate ?z 0) @ ?count = fips_pad D"
    using assms by (simp add: fips_pad_def sha_rep_def)
  ultimately have st: "sha_state (sat_SHA1_Update ctx' ?count) = fips_blocks fips_H0 (fips_pad D)"
    by (simp only: sha_rep_def)
  have "length (fips_blocks fips_H0 (fips_pad D)) = 5" by (rule length_fips_blocks) (simp add: fips_H0_def)
  then show ?thesis
    by (simp only: sat_SHA1_Final_def Let_def count_bytes c(1) option.map st digest_words sha1_sum_def)
qed

lemma lsha1_sum:
  assumes "length s < 2 ^ 29"
  shows "lsha1 s = Inr (sha1_sum s)"
  using sat_SHA1_Final_sum [OF sat_SHA1_Update_rep [OF sha_rep_Init assms]] by (simp add: lsha1_def)

section \<open>The keyed hash\<close>

lemma length_4_cases:
  assumes "length xs = 4"
  obtains a b c d where "xs = [a, b, c, d]"
  using assms by (auto simp: length_Suc_conv numeral_eq_Suc)

lemma xor_key_map:
  assumes "length key = 64" "write32 x = [c, c, c, c]"
  shows "xor_key key x = map (\<lambda>b. b XOR c) key"
proof -
  have word: "write32 (read32 key (4 * i) XOR x) = map (\<lambda>b. b XOR c) (take 4 (drop (4 * i) key))" if "i < 16" for i
  proof -
    let ?b = "take 4 (drop (4 * i) key)"
    have l: "length ?b = 4" using assms(1) that by simp
    then obtain p q r s where b: "?b = [p, q, r, s]" by (rule length_4_cases)
    have n: "key ! (4 * i + k) = ?b ! k" if "k < 4" for k using l that by simp
    have "read32 key (4 * i) = read32 ?b 0"
      using n [of 0] n [of 1] n [of 2] n [of 3] by (simp add: read32_def numeral_2_eq_2)
    then have "write32 (read32 key (4 * i)) = ?b"
      by (auto simp: b read32_def write32_def bit_simps bit_byte_ge bit_ff intro!: bit_word_eqI)
    then show ?thesis using write32_xor [of "read32 key (4 * i)" x] by (simp add: b assms(2))
  qed
  have "concat (map (\<lambda>i. map (\<lambda>b. b XOR c) (take 4 (drop (4 * i) key))) [0..<n]) = map (\<lambda>b. b XOR c) (take (4 * n) key)" for n
  proof (induction n)
    case (Suc n)
    have "take (4 * Suc n) key = take (4 * n) key @ take 4 (drop (4 * n) key)"
      using take_add [of "4 * n" 4 key] by (simp add: add.commute)
    then show ?case using Suc by (simp only: upt_Suc_append [OF le0] map_append concat_append) simp
  qed simp
  from this [of 16] have "concat (map (\<lambda>i. map (\<lambda>b. b XOR c) (take 4 (drop (4 * i) key))) [0..<16]) = map (\<lambda>b. b XOR c) key"
    using assms(1) by simp
  moreover have "xor_key key x = concat (map (\<lambda>i. map (\<lambda>b. b XOR c) (take 4 (drop (4 * i) key))) [0..<16])"
    unfolding xor_key_def by (rule arg_cong [where f = concat], rule map_cong) (simp_all add: word)
  ultimately show ?thesis by simp
qed

lemma length_sha1_sum: "length (sha1_sum m) = 20"
proof -
  have "length (fips_blocks fips_H0 (fips_pad m)) = 5" by (rule length_fips_blocks) (simp add: fips_H0_def)
  then show ?thesis
    by (auto simp: sha1_sum_def length_concat comp_def sum_list_triv)
qed

text \<open>
  C25: SHA-1 and its keyed form are those of the standards. For inputs below 2 ^ 29 bytes the
  padding loop ends, and the digests of \<open>sha1\<close> and \<open>hmac_sha1\<close> are those of FIPS 180 and
  RFC 2104, although the code hashes piecewise, unrolls its rounds and keeps 16 words of the
  schedule in place of 80.
\<close>

theorem sha1_is_standard:
  assumes "length key < 2 ^ 29" "length t < 2 ^ 29"
  shows "lsha1 t = Inr (sha1_sum t) \<and> lhmac_sha1 key t = Inr (rfc2104_hmac key t)"
proof -
  define k where "k = (if length key > 64 then sha1_sum key else key)"
  define k0 where "k0 = k @ replicate (64 - length k) 0"
  have l: "length k0 = 64" by (auto simp: k0_def k_def length_sha1_sum)
  have rkey: "(if length key > 64 then bind_res (lsha1 key) (\<lambda>digest. Inr (digest @ replicate 44 0))
    else Inr (key @ replicate (64 - length key) 0)) = Inr k0"
    using lsha1_sum [OF assms(1)] by (simp add: k0_def k_def length_sha1_sum)
  have w: "write32 0x5c5c5c5c = [0x5c, 0x5c, 0x5c, 0x5c]" "write32 (0x5c5c5c5c XOR 0x36363636) = [0x6a, 0x6a, 0x6a, 0x6a]"
    by (simp_all add: write32_def)
  have k1: "xor_key k0 0x5c5c5c5c = map (\<lambda>b. b XOR 0x5c) k0" by (rule xor_key_map [OF l w(1)])
  have "xor_key (map (\<lambda>b. b XOR 0x5c) k0) (0x5c5c5c5c XOR 0x36363636) = map (\<lambda>b. b XOR 0x6a) (map (\<lambda>b. b XOR 0x5c) k0)"
    by (rule xor_key_map [OF _ w(2)]) (simp add: l)
  then have k2: "xor_key (map (\<lambda>b. b XOR 0x5c) k0) (0x5c5c5c5c XOR 0x36363636) = map (\<lambda>b. b XOR 0x36) k0"
    by (simp add: xor.assoc comp_def)
  let ?o = "map (\<lambda>b. b XOR 0x5c) k0" and ?i = "map (\<lambda>b. b XOR 0x36) k0"
  have lt: "length ?o < 2 ^ 29" "length ?i < 2 ^ 29" by (simp_all add: l)
  have "sha_rep (sat_SHA1_Update (sat_SHA1_Update sat_SHA1_Init ?i) t) (?i @ t)"
    using sat_SHA1_Update_rep [OF sat_SHA1_Update_rep [OF sha_rep_Init lt(2)] assms(2)] by simp
  from sat_SHA1_Final_sum [OF this]
  have inner: "sat_SHA1_Final (sat_SHA1_Update (sat_SHA1_Update sat_SHA1_Init ?i) t) = Some (sha1_sum (?i @ t))" .
  have "sha_rep (sat_SHA1_Update (sat_SHA1_Update sat_SHA1_Init ?o) (sha1_sum (?i @ t))) (?o @ sha1_sum (?i @ t))"
    using sat_SHA1_Update_rep [OF sat_SHA1_Update_rep [OF sha_rep_Init lt(1)], of "sha1_sum (?i @ t)"] by (simp add: length_sha1_sum)
  from sat_SHA1_Final_sum [OF this]
  have outer: "sat_SHA1_Final (sat_SHA1_Update (sat_SHA1_Update sat_SHA1_Init ?o) (sha1_sum (?i @ t))) = Some (sha1_sum (?o @ sha1_sum (?i @ t)))" .
  have "rfc2104_hmac key t = sha1_sum (?o @ sha1_sum (?i @ t))"
    by (simp only: rfc2104_hmac_def Let_def k_def [symmetric] k0_def [symmetric])
  then show ?thesis
    by (simp only: lsha1_sum [OF assms(2)] lhmac_sha1_def rkey bind_res_Inr Let_def k1 k2 inner outer option_res_Some simp_thms)
qed

lemma sha1_is_standard_witness:
  "lsha1 [0x61, 0x62, 0x63] = Inr (sha1_sum [0x61, 0x62, 0x63]) \<and>
    lhmac_sha1 [0x6b, 0x65, 0x79] [0x61, 0x62, 0x63] = Inr (rfc2104_hmac [0x6b, 0x65, 0x79] [0x61, 0x62, 0x63])"
  by (rule sha1_is_standard) simp_all

text \<open>
  The carry of the bit count. A single update of 2 ^ 29 bytes or more compares 32 bits with 64, so
  the upper half counts one too many.
\<close>

lemma long_update_miscounts:
  assumes "length data = 2 ^ 29"
  shows "sha_count0 (sat_SHA1_Update sat_SHA1_Init data) = 0 \<and> sha_count1 (sat_SHA1_Update sat_SHA1_Init data) = 2 \<and>
    8 * length data = 1 * 2 ^ 32"
proof -
  have "push_bit 3 (word_of_nat (2 ^ 29) :: u64) = 0x100000000" by simp
  then show ?thesis using assms
    by (simp add: sat_SHA1_Update_def sat_SHA1_Init_def Let_def split: prod.splits)
qed

end
