(* ===== verification/Spec2Isabelle.thy ===== *)
theory Spec2Isabelle
  imports NodeProperties DispatchSafety LuaQueue LuaStack SortedVector SkiplistSpec SeriSpec SocketSpec Snowflake Rudp Netpack CryptDh CryptDes CryptHash CryptSha1
begin

text \<open>
  A verification library for the C code of a mahjong game server: the core of the
  \<open>skynet\<close> actor framework it runs on (\<open>src/skynet/skynet-src\<close>), the bindings that carry
  its network data (\<open>src/skynet/lualib-src\<close>), and its own C libraries
  (\<open>src/lualib-src/chestnut\<close>, \<open>skiplist\<close> and \<open>rudp\<close> beside it).

  The program. A node runs services. A service is a context with a handle and a mailbox, its
  code is a module. Sending puts a message into the mailbox of a handle; a mailbox that gets its
  first message goes into a global queue, worker threads take mailboxes from there and run the
  callback of the service on their messages. A timer turns expired timeouts into messages. A
  handle of another node leads to the harbor service, and what goes wrong goes to the logger.
  Lua services get their packets framed by the gate (\<open>lua-netpack.c\<close>), enciphered and signed
  by \<open>lua-crypt.c\<close> and \<open>lsha1.c\<close>, over udp through \<open>rudp.c\<close>, and keep their data in the
  containers of \<open>chestnut\<close> and rankings in a skip list.

  Conventions (\<open>Prelude\<close>). A routine that can assert, use a null or freed object, leave an
  array, read what was never written, loop forever or raise a Lua error has a result of type
  \<open>res\<close>: \<open>Inl\<close> of the fault or \<open>Inr\<close> of the outcome, composed by \<open>bind_res\<close>. Integers
  that the code lets wrap around are words of its width; where the code compares with the
  limits of an \<open>int\<close> the model does too. Objects with identity live in maps from addresses.
  Each group of operations is followed by its invariant, the lemmas that the operations keep
  it and say what they compute, and its properties; the properties carry numbers.

  Theories, by part of the program:

  \<^item> Messages. \<open>Fifo_Spec\<close> is the contract of a queue that represents a list (the locales
    \<open>fifo\<close> and \<open>total_fifo\<close>, with the behaviour of whole runs proved once); it is interpreted
    by the ring of a mailbox (\<open>MessageQueue\<close>, \<open>skynet_mq.c\<close>), the global queue threaded
    through the mailboxes (\<open>GlobalQueue\<close>), the Lua queue (\<open>LuaQueue\<close>, \<open>lua-queue.c\<close>) and the
    queue of complete packets (\<open>Netpack\<close>, \<open>lua-netpack.c\<close>).
  \<^item> Handles. \<open>HandleStorage\<close> and \<open>HandleNames\<close> (\<open>skynet_handle.c\<close>): the hash table of
    handles as a finite map, in the locale \<open>handle_table\<close>, whose interpretation \<open>ht\<close> the node
    uses; the sorted array of names as a map.
  \<^item> \<open>Timer\<close> (\<open>skynet_timer.c\<close>): the timing wheel against the multiset of pending expiries;
    other threads may add timers while a list is executed.
  \<^item> \<open>Module\<close> (\<open>skynet_module.c\<close>): the registry of modules.
  \<^item> The node. \<open>CStrings\<close> is the part of the C library its commands use. \<open>Node\<close> holds the
    state (\<open>node\<close>: contexts, mailboxes, buffers, handle table, timer, modules) and the
    operations on contexts, \<open>Server\<close> launching, dispatching and retiring, \<open>Commands\<close> the text
    commands (\<open>skynet_server.c\<close>, \<open>skynet_harbor.c\<close>, \<open>skynet_error.c\<close>, \<open>skynet_env.c\<close>,
    \<open>skynet_monitor.c\<close>, \<open>skynet_log.c\<close>, \<open>skynet_start.c\<close>). \<open>Delivery\<close> and \<open>Lifecycle\<close> relate
    them to the abstract node, a map from handles to inboxes; \<open>NodeProperties\<close> states what
    follows for one thread at a time.
  \<^item> The threads. \<open>Dispatch\<close> cuts dispatching, sending, retiring and launching into actions
    that a lock or an atomic instruction makes indivisible; a thread is a stack of frames, and
    the inductive relation \<open>step\<close> interleaves them. \<open>DispatchInvariant\<close>, \<open>DispatchActions\<close>
    and \<open>DispatchSafety\<close> prove by induction over the reachable states that no thread faults,
    that a mailbox is scheduled exactly once and no message is forgotten, and that a service
    runs in one thread at a time, and give the race that breaks this.
  \<^item> Containers. \<open>LuaTable\<close> is what the C API of Lua does on tables; \<open>LuaQueue\<close>, \<open>LuaStack\<close>
    (stack and array), \<open>LuaVector\<close> (with its quicksort) and \<open>SortedVector\<close> are
    \<open>lua-queue.c\<close>, \<open>lua-stack.c\<close>, \<open>lua-array.c\<close>, \<open>lua-vector.c\<close>, \<open>lua-sortedvector.c\<close>.
  \<^item> Rankings. \<open>Skiplist\<close> (\<open>skiplist.c\<close>, \<open>lua-skiplist.c\<close>) is the heap of nodes with their
    links, spans and back links; \<open>SkiplistTowers\<close> derives all links from the order and heights
    of the towers and says where a search stops, \<open>SkiplistEdit\<close> that insertion and deletion
    write the links of the new order, \<open>SkiplistSpec\<close> that the operations refine those of a
    sorted list.
  \<^item> Messages between Lua services. \<open>Seri\<close> (\<open>lua-seri.c\<close>) packs Lua values into a chain of
    blocks and unpacks them; \<open>SeriWire\<close> shows that scalars and strings are read back,
    \<open>SeriTables\<close> the same of tables, \<open>SeriSpec\<close> the round trip, what packing refuses, and that
    unpacking is safe on any bytes.
  \<^item> Sockets. \<open>SocketServer\<close> (\<open>socket_server.c\<close>) is the socket thread: the slots, the pipe of
    requests that the services write into, the buffers of each socket and the events of the
    kernel, together with the calls of the services, one of which may write directly.
    \<open>SocketSend\<close> says what writing leaves of a socket, \<open>SocketInv\<close> holds the invariant,
    \<open>SocketReq\<close>, \<open>SocketCtrl\<close>, \<open>SocketEvents\<close>, \<open>SocketPoll\<close> and \<open>SocketCalls\<close> show that
    requests, events, rounds of the thread and calls keep it; \<open>SocketSpec\<close> states by induction
    over the states that are reached that the thread never aborts and that streams stay in
    order, and gives the two sends that go wrong.
  \<^item> \<open>Snowflake\<close> (\<open>lua-snowflake.c\<close>): the generator of ids.
  \<^item> \<open>Rudp\<close> (\<open>rudp.c\<close>): both ends of the reliable datagram protocol and the composition of a
    sender with a receiver over a channel.
  \<^item> \<open>Netpack\<close> (\<open>lua-netpack.c\<close>): packing, and the gate's reassembly of packets from the
    pieces in which they arrive, over many sockets.
  \<^item> Ciphers. \<open>CryptBytes\<close> reads and writes integers as bytes; \<open>CryptText\<close> is hexadecimal,
    base64 and xor, \<open>CryptDes\<close> the block cipher with its padding, \<open>CryptDh\<close> the key exchange,
    \<open>CryptHash\<close> the hashes (\<open>lua-crypt.c\<close>); \<open>CryptSha1\<close> is \<open>lsha1.c\<close>. The hashes and the
    arithmetic are compared with reference definitions written from the standards.

  Termination and fuel. Loops are structural or have a measure, with these exceptions.
  Functions whose loop the code may run forever are partial (\<open>partial_function (option)\<close>, the
  value \<open>None\<close> if it does not return): \<open>raise_threshold\<close>, \<open>pow_mod_p\<close>, \<open>sha_fill\<close>,
  \<open>np_drain\<close>; that they return where they are used is proved. Where the loop calls code that
  changes what it runs over, a number bounds its rounds and running out is the fault
  \<open>Diverges\<close>: \<open>drop_queue\<close> gets one more than the length of the mailbox and the proofs show
  that this is enough, as \<open>retire_round\<close> gets one more than the slots of the table;
  \<open>skynet_handle_retireall\<close> and \<open>skynet_context_dispatchall\<close> take the bound as an argument,
  since services may go on creating work. \<open>lremove\<close> of the Lua queue is bounded by its ring,
  and \<open>lua_queue_remove\<close> shows that the code does not end where the bound runs out. A walk
  along the links of a skip list is bounded by its length, which the properties show to be
  enough; the list of addresses of a host and the slots tried for an id, by their number; a list
  of buffers is sent until it or the kernel's answers are used up; unpacking, by the bytes left, each round and each level of nesting reading one. A call of the id generator gets the list of the clock's readings and has not returned when they are
  used up.

  Parameters. The code of services (\<open>services\<close> in \<open>Server\<close>), the dynamic linker, the
  comparison functions and values that Lua passes, the readings of clocks and the bytes of
  \<open>random\<close> are arguments of the definitions that use them, unrestricted unless a property says
  so. What the system calls of the socket thread answer is a list in its state; of them it is
  assumed that a write takes at most what it is given, a read gives at most what is asked for,
  \<open>sendto\<close> takes a datagram as a whole, and \<open>epoll\<close> reports what is watched, once.

  Not modelled: the creation of threads, signals, pid file and start-up configuration
  (\<open>skynet_main.c\<close>, \<open>skynet_daemon.c\<close>, the rest of \<open>skynet_start.c\<close>), which are system calls;
  the copy of the socket statistics, and \<open>skynet_socket.c\<close>, which hands calls on; the memory orderings of the processor, an action of \<open>Dispatch\<close> being
  atomic; the bindings that only convert arguments; third-party code kept in the
  repository (Lua, jemalloc, lpeg, rapidjson, recastnavigation, libfixmath and others).
\<close>

end
